(* ===== verification/Prelude.thy ===== *)
theory Prelude
  imports Main "HOL-Library.Word"
begin

unbundle bit_operations_syntax

text \<open>
  Shared vocabulary of the development: the machine types of \<open>kernel/types.h\<close>, the result type of
  operations that can panic, block or touch memory out of bounds, the first-match table scan that
  the kernel uses everywhere, and the generic list and word lemmas of the component theories.
\<close>

section \<open>Machine types\<close>

type_synonym uchar = "8 word"
type_synonym ushort = "16 word"
type_synonym uint = "32 word"
type_synonym uint64 = "64 word"

text \<open>
  A C object of type \<open>char[n]\<close> is the list of its \<open>n\<close> bytes; a string literal is the list of its
  characters followed by the terminating NUL.
\<close>

type_synonym bytes = "uchar list"

definition bytes_of :: "string \<Rightarrow> bytes" where
  "bytes_of s = map of_char s"

definition lit :: "string \<Rightarrow> bytes" where
  "lit s = bytes_of s @ [0]"

section \<open>Results\<close>

text \<open>
  \<open>Panic\<close> is a call of \<open>panic()\<close>; \<open>OutOfBounds\<close> is an access outside a C object (undefined
  behaviour of the source); \<open>Blocked\<close> is a call of \<open>sleep()\<close>: the caller gives up the CPU and will
  evaluate the same guard again when it is woken up; \<open>Diverges\<close> is a recursion of the source that
  has used up the depth given to it.
\<close>

datatype fault = Panic string | OutOfBounds | Blocked | Diverges

type_synonym 'a res = "fault + 'a"

definition bindE :: "'a res \<Rightarrow> ('a \<Rightarrow> 'b res) \<Rightarrow> 'b res" where
  "bindE m f = (case m of Inl e \<Rightarrow> Inl e | Inr x \<Rightarrow> f x)"

definition mapE :: "('a \<Rightarrow> 'b) \<Rightarrow> 'a res \<Rightarrow> 'b res" where
  "mapE f m = bindE m (\<lambda>x. Inr (f x))"

lemma bindE_Inr [simp]: "bindE (Inr x) f = f x"
  by (simp add: bindE_def)

lemma bindE_Inl [simp]: "bindE (Inl e) f = Inl e"
  by (simp add: bindE_def)

lemma bindE_eq_Inr: "bindE m f = Inr y \<longleftrightarrow> (\<exists>x. m = Inr x \<and> f x = Inr y)"
  by (cases m) auto

lemma bindE_InrE [elim!]:
  assumes "bindE m f = Inr y"
  obtains x where "m = Inr x" and "f x = Inr y"
  using assms by (auto simp: bindE_eq_Inr)

lemma bindE_cong [fundef_cong]:
  "m = m' \<Longrightarrow> (\<And>x. m' = Inr x \<Longrightarrow> f x = g x) \<Longrightarrow> bindE m f = bindE m' g"
  by (cases m') auto

lemma bindE_assoc: "bindE (bindE m f) g = bindE m (\<lambda>x. bindE (f x) g)"
  by (cases m) auto

lemma mapE_Inr [simp]: "mapE f (Inr x) = Inr (f x)"
  by (simp add: mapE_def)

lemma mapE_Inl [simp]: "mapE f (Inl e) = Inl e"
  by (simp add: mapE_def)

lemma mapE_eq_Inr [simp]: "mapE f m = Inr y \<longleftrightarrow> (\<exists>x. m = Inr x \<and> y = f x)"
  by (cases m) auto

section \<open>First match in a table\<close>

text \<open>
  \<open>for(p = tab; p < &tab[N]; p++) if(P(p)) break;\<close> is the search of every fixed table of the
  kernel: processes, files, descriptors, cache slots, virtio descriptors.
\<close>

primrec find_idx :: "('a \<Rightarrow> bool) \<Rightarrow> 'a list \<Rightarrow> nat option" where
  "find_idx P [] = None"
| "find_idx P (x # xs) = (if P x then Some 0 else map_option Suc (find_idx P xs))"

lemma find_idx_None: "find_idx P xs = None \<longleftrightarrow> (\<forall>x\<in>set xs. \<not> P x)"
  by (induction xs) auto

lemma find_idx_Some:
  "find_idx P xs = Some i \<longleftrightarrow> i < length xs \<and> P (xs ! i) \<and> (\<forall>j<i. \<not> P (xs ! j))"
proof (induction xs arbitrary: i)
  case Nil
  then show ?case by simp
next
  case (Cons x xs)
  show ?case
  proof (cases i)
    case 0
    then show ?thesis by auto
  next
    case (Suc k)
    have "(\<forall>j<Suc k. \<not> P ((x # xs) ! j)) \<longleftrightarrow> \<not> P x \<and> (\<forall>j<k. \<not> P (xs ! j))"
      by (auto simp: less_Suc_eq_0_disj)
    then show ?thesis using Suc Cons.IH [of k] by auto
  qed
qed

lemma find_idx_lt [dest]: "find_idx P xs = Some i \<Longrightarrow> i < length xs"
  by (simp add: find_idx_Some)

lemma find_idx_ex: "x \<in> set xs \<Longrightarrow> P x \<Longrightarrow> \<exists>i. find_idx P xs = Some i"
  by (cases "find_idx P xs") (auto simp: find_idx_None)

lemma find_idx_cong: "(\<And>x. x \<in> set xs \<Longrightarrow> P x = Q x) \<Longrightarrow> find_idx P xs = find_idx Q xs"
  by (induction xs) auto

lemma sum_list_int_update:
  "i < length xs \<Longrightarrow> sum_list (xs[i := v]) = sum_list xs - xs ! i + (v :: int)"
  by (induction xs arbitrary: i) (auto split: nat.splits)

section \<open>C strings inside arrays\<close>

text \<open>The characters before the first NUL, and whether there is a NUL in the array.\<close>

definition cstr :: "bytes \<Rightarrow> bytes" where
  "cstr xs = takeWhile (\<lambda>b. b \<noteq> 0) xs"

definition terminated :: "bytes \<Rightarrow> bool" where
  "terminated xs \<longleftrightarrow> 0 \<in> set xs"

lemma cstr_Nil [simp]: "cstr [] = []"
  by (simp add: cstr_def)

lemma cstr_Cons [simp]: "cstr (x # xs) = (if x = 0 then [] else x # cstr xs)"
  by (simp add: cstr_def)

lemma terminated_simps [simp]:
  "terminated [] = False"
  "terminated (x # xs) = (x = 0 \<or> terminated xs)"
  by (auto simp: terminated_def)

lemma cstr_nonzero: "b \<in> set (cstr xs) \<Longrightarrow> b \<noteq> 0"
  by (auto simp: cstr_def dest: set_takeWhileD)

lemma cstr_append_NUL: "0 \<notin> set xs \<Longrightarrow> cstr (xs @ 0 # ys) = xs"
  by (induction xs) auto

lemma cstr_id: "0 \<notin> set xs \<Longrightarrow> cstr xs = xs"
  by (induction xs) auto

lemma length_cstr_le: "length (cstr xs) \<le> length xs"
  by (simp add: cstr_def length_takeWhile_le)

lemma terminated_length_cstr: "terminated xs \<longleftrightarrow> length (cstr xs) < length xs"
  by (induction xs) auto

lemma terminated_append [simp]: "terminated (xs @ ys) = (terminated xs \<or> terminated ys)"
  by (auto simp: terminated_def)

lemma terminated_replicate [simp]: "terminated (replicate n 0) \<longleftrightarrow> 0 < n"
  by (auto simp: terminated_def)

lemma terminated_split:
  assumes "terminated xs"
  obtains ys where "xs = cstr xs @ 0 # ys"
proof -
  have "\<exists>ys. xs = cstr xs @ 0 # ys"
    using assms by (induction xs) auto
  then show thesis using that by blast
qed

section \<open>Words\<close>

lemma uint_eq_iff [simp]: "uint a = uint b \<longleftrightarrow> a = b"
  by (simp add: word_uint_eq_iff)

lemma uint_diff_eq_0 [simp]: "uint a - uint b = 0 \<longleftrightarrow> a = b"
  by simp

section \<open>Rule collections\<close>

text \<open>The constants of \<open>param.h\<close> and the other headers, unfolded where arithmetic needs them.\<close>

named_theorems hdr "numeric constants of the headers"

end
