(* ===== verification/CString.thy ===== *)
theory CString
  imports Prelude
begin

text \<open>
  \<open>kernel/string.c\<close> on C arrays. An array argument is the list of the bytes from the pointer to the
  end of the object, so that a read or write past the end is \<open>OutOfBounds\<close>. A function that writes
  returns the new contents of its destination.
\<close>

section \<open>Definitions\<close>

text \<open>\<open>memset\<close>: the loop \<open>for(i = 0; i < n; i++) cdst[i] = c\<close>; \<open>c\<close> is converted to \<open>char\<close>.\<close>

fun memset :: "bytes \<Rightarrow> uchar \<Rightarrow> nat \<Rightarrow> bytes res" where
  "memset dst c 0 = Inr dst"
| "memset [] c (Suc n) = Inl OutOfBounds"
| "memset (_ # dst) c (Suc n) = mapE ((#) c) (memset dst c n)"

fun memcmp :: "bytes \<Rightarrow> bytes \<Rightarrow> nat \<Rightarrow> int res" where
  "memcmp s1 s2 0 = Inr 0"
| "memcmp (a # s1) (b # s2) (Suc n) =
     (if a \<noteq> b then Inr (uint a - uint b) else memcmp s1 s2 n)"
| "memcmp _ _ (Suc n) = Inl OutOfBounds"

text \<open>
  \<open>strncmp\<close>: \<open>while(n > 0 && *p && *p == *q) n--, p++, q++;\<close> then 0 if \<open>n\<close> is used up, else the
  difference of the two current bytes, both of which are read.
\<close>

fun strncmp :: "bytes \<Rightarrow> bytes \<Rightarrow> nat \<Rightarrow> int res" where
  "strncmp p q 0 = Inr 0"
| "strncmp (a # p) (b # q) (Suc n) =
     (if a \<noteq> 0 \<and> a = b then strncmp p q n else Inr (uint a - uint b))"
| "strncmp _ _ (Suc n) = Inl OutOfBounds"

text \<open>
  \<open>strncpy\<close>: copies up to and including the NUL, then the second loop fills the rest of the \<open>n\<close>
  bytes with NULs. A negative \<open>n\<close> behaves as 0.
\<close>

fun strncpy :: "bytes \<Rightarrow> bytes \<Rightarrow> nat \<Rightarrow> bytes res" where
  "strncpy s t 0 = Inr s"
| "strncpy (_ # s) (b # t) (Suc n) =
     (if b \<noteq> 0 then mapE ((#) b) (strncpy s t n) else mapE ((#) 0) (memset s 0 n))"
| "strncpy _ _ (Suc n) = Inl OutOfBounds"

text \<open>
  \<open>safestrcpy\<close>: nothing for \<open>n \<le> 0\<close>; otherwise \<open>while(--n > 0 && (*s++ = *t++) != 0);\<close> and a final
  \<open>*s = 0\<close>. When the loop stops because it copied the NUL, \<open>s\<close> already points behind it, and the
  final store writes a second NUL there.
\<close>

fun safestrcpy_loop :: "bytes \<Rightarrow> bytes \<Rightarrow> nat \<Rightarrow> bytes res" where
  "safestrcpy_loop s t 0 = (case s of [] \<Rightarrow> Inl OutOfBounds | _ # s' \<Rightarrow> Inr (0 # s'))"
| "safestrcpy_loop (_ # s) (b # t) (Suc n) =
     (if b \<noteq> 0 then mapE ((#) b) (safestrcpy_loop s t n)
      else (case s of [] \<Rightarrow> Inl OutOfBounds | _ # s' \<Rightarrow> Inr (0 # 0 # s')))"
| "safestrcpy_loop _ _ (Suc n) = Inl OutOfBounds"

definition safestrcpy :: "bytes \<Rightarrow> bytes \<Rightarrow> int \<Rightarrow> bytes res" where
  "safestrcpy s t n = (if n \<le> 0 then Inr s else safestrcpy_loop s t (nat n - 1))"

fun strlen :: "bytes \<Rightarrow> nat res" where
  "strlen [] = Inl OutOfBounds"
| "strlen (a # s) = (if a = 0 then Inr 0 else mapE Suc (strlen s))"

section \<open>Functional behaviour\<close>

lemma memset_eq: "n \<le> length dst \<Longrightarrow> memset dst c n = Inr (replicate n c @ drop n dst)"
  by (induction dst c n rule: memset.induct) auto

lemma memset_oob: "length dst < n \<Longrightarrow> memset dst c n = Inl OutOfBounds"
  by (induction dst c n rule: memset.induct) auto

lemma memcmp_zero:
  "n \<le> length s1 \<Longrightarrow> n \<le> length s2 \<Longrightarrow>
   \<exists>r. memcmp s1 s2 n = Inr r \<and> (r = 0 \<longleftrightarrow> take n s1 = take n s2)"
  by (induction s1 s2 n rule: memcmp.induct) (auto simp: uint_0_iff)

lemma strlen_eq: "terminated s \<Longrightarrow> strlen s = Inr (length (cstr s))"
  by (induction s) auto

lemma strlen_oob: "\<not> terminated s \<Longrightarrow> strlen s = Inl OutOfBounds"
  by (induction s) auto

text \<open>
  The two conditions under which \<open>strncmp\<close> stays inside its arguments: each array holds a NUL or
  at least \<open>n\<close> bytes.
\<close>

abbreviation readable :: "bytes \<Rightarrow> nat \<Rightarrow> bool" where
  "readable p n \<equiv> terminated p \<or> n \<le> length p"

lemma strncmp_spec:
  "readable p n \<Longrightarrow> readable q n \<Longrightarrow>
   \<exists>r. strncmp p q n = Inr r \<and> (r = 0 \<longleftrightarrow> take n (cstr p) = take n (cstr q))"
proof (induction p q n rule: strncmp.induct)
  case (2 a p b q n)
  show ?case
  proof (cases "a \<noteq> 0 \<and> a = b")
    case True
    with 2 show ?thesis by auto
  next
    case False
    then show ?thesis by (auto simp: uint_0_iff)
  qed
qed auto

lemma strncmp_safe: "readable p n \<Longrightarrow> readable q n \<Longrightarrow> \<exists>r. strncmp p q n = Inr r"
  using strncmp_spec by blast

lemma strncmp_eq0:
  "readable p n \<Longrightarrow> readable q n \<Longrightarrow>
   strncmp p q n = Inr 0 \<longleftrightarrow> take n (cstr p) = take n (cstr q)"
  using strncmp_spec [of p n q] by auto

lemma strncmp_Inr0_eq:
  "strncmp p q n = Inr r \<Longrightarrow> r = 0 \<longleftrightarrow> take n (cstr p) = take n (cstr q)"
  by (induction p q n rule: strncmp.induct) (auto simp: uint_0_iff split: if_splits)

lemma strncpy_eq:
  "n \<le> length s \<Longrightarrow> readable t n \<Longrightarrow>
   strncpy s t n =
     Inr (take n (cstr t) @ replicate (n - length (take n (cstr t))) 0 @ drop n s)"
  by (induction s t n rule: strncpy.induct) (auto simp: memset_eq)

lemma safestrcpy_loop_spec:
  "n < length s \<Longrightarrow> readable t n \<Longrightarrow>
   \<exists>r. safestrcpy_loop s t n = Inr r \<and> length r = length s \<and> terminated (take (Suc n) r) \<and>
       cstr r = take n (cstr t)"
proof (induction s t n rule: safestrcpy_loop.induct)
  case (1 s t)
  then show ?case by (cases s) auto
next
  case (2 x s b t n)
  show ?case
  proof (cases "b \<noteq> 0")
    case True
    with 2 show ?thesis by auto
  next
    case False
    with 2 show ?thesis by (cases s) auto
  qed
qed auto

lemma safestrcpy_spec:
  assumes "0 < n" and "nat n \<le> length s" and "readable t (nat n - 1)"
  shows "\<exists>r. safestrcpy s t n = Inr r \<and> length r = length s \<and> terminated (take (nat n) r) \<and>
             cstr r = take (nat n - 1) (cstr t)"
  using safestrcpy_loop_spec [of "nat n - 1" s t] assms
  by (auto simp: safestrcpy_def Suc_diff_Suc)

lemma terminated_take: "terminated (take n xs) \<Longrightarrow> terminated xs"
  by (auto simp: terminated_def dest: in_set_takeD)

lemma safestrcpy_length: "safestrcpy s t n = Inr r \<Longrightarrow> length r = length s"
proof -
  have "length r = length s" if "safestrcpy_loop s t k = Inr r" for k
    using that
    by (induction s t k arbitrary: r rule: safestrcpy_loop.induct) (auto split: if_splits list.splits)
  then show "safestrcpy s t n = Inr r \<Longrightarrow> length r = length s"
    by (auto simp: safestrcpy_def split: if_splits)
qed

section \<open>Literals\<close>

lemma lit_simps [simp]:
  "lit '''' = [0]"
  "lit (c # s) = of_char c # lit s"
  by (simp_all add: lit_def bytes_of_def)

lemma terminated_lit [simp]: "terminated (lit s)"
  by (simp add: lit_def terminated_def)

end
