(* ===== verification/Verifier.thy ===== *)
theory Verifier
  imports CString
begin

text \<open>
  Pattern A of \<open>GOAL_PATTERNS.md\<close>: \<open>kernel/verifier.h\<close> and \<open>kernel/verifier.c\<close>, the pure verifier
  of LLM-proposed fixes. The text fields of a proposal come from user memory, so nothing is assumed
  about their contents except that they are arrays of the declared length.
\<close>

section \<open>Data and constants of verifier.h\<close>

definition FIX_ROLE_LEN :: nat where [hdr]: "FIX_ROLE_LEN = 16"
definition FIX_TARGET_LEN :: nat where [hdr]: "FIX_TARGET_LEN = 16"
definition FIX_ACTION_REPORT :: int where [hdr]: "FIX_ACTION_REPORT = 0"
definition FIX_ACTION_ANNOTATE :: int where [hdr]: "FIX_ACTION_ANNOTATE = 1"
definition FIX_ACTION_REQUEUE :: int where [hdr]: "FIX_ACTION_REQUEUE = 2"
definition FIX_ACTION_KILL :: int where [hdr]: "FIX_ACTION_KILL = 3"
definition FIX_ACTION_RESET :: int where [hdr]: "FIX_ACTION_RESET = 4"
definition FIX_SEVERITY_MIN :: int where [hdr]: "FIX_SEVERITY_MIN = 0"
definition FIX_SEVERITY_MAX :: int where [hdr]: "FIX_SEVERITY_MAX = 3"
definition VERIFY_OK :: int where [hdr]: "VERIFY_OK = 0"
definition VERIFY_ERR_FIELD :: int where [hdr]: "VERIFY_ERR_FIELD = -1"
definition VERIFY_ERR_RANGE :: int where [hdr]: "VERIFY_ERR_RANGE = -2"
definition VERIFY_ERR_PROTECTED :: int where [hdr]: "VERIFY_ERR_PROTECTED = -3"
definition VERIFY_ERR_ACTION :: int where [hdr]: "VERIFY_ERR_ACTION = -4"

record fix_proposal =
  fp_role :: bytes
  fp_target :: bytes
  fp_action :: int
  fp_severity :: int
  fp_retry_hint :: int

record sys_snapshot =
  target_pid :: int
  target_protected :: bool
  nproc :: int

text \<open>A \<open>struct fix_proposal\<close> in C has two arrays of exactly the declared length.\<close>

definition wf_proposal :: "fix_proposal \<Rightarrow> bool" where
  "wf_proposal p \<longleftrightarrow> length (fp_role p) = FIX_ROLE_LEN \<and> length (fp_target p) = FIX_TARGET_LEN"

section \<open>verifier.c\<close>

definition verify_protected_roles :: "bytes list" where
  "verify_protected_roles = [lit ''init'', lit ''sh'', lit ''evaluator'']"

definition is_destructive :: "int \<Rightarrow> bool" where
  "is_destructive action \<longleftrightarrow>
     action \<noteq> FIX_ACTION_REPORT \<and> action \<noteq> FIX_ACTION_ANNOTATE \<and> action \<noteq> FIX_ACTION_REQUEUE"

definition is_allowed :: "int \<Rightarrow> bool" where
  "is_allowed action \<longleftrightarrow>
     action = FIX_ACTION_REPORT \<or> action = FIX_ACTION_ANNOTATE \<or> action = FIX_ACTION_REQUEUE"

text \<open>\<open>while (n < max && f[n] != 0) n++;\<close>, started at \<open>n = 0\<close>: the scan never passes \<open>max\<close>.\<close>

fun field_scan :: "bytes \<Rightarrow> nat \<Rightarrow> nat res" where
  "field_scan f 0 = Inr 0"
| "field_scan [] (Suc m) = Inl OutOfBounds"
| "field_scan (b # f) (Suc m) = (if b \<noteq> 0 then mapE Suc (field_scan f m) else Inr 0)"

definition field_ok :: "bytes \<Rightarrow> nat \<Rightarrow> bool res" where
  "field_ok f mx = mapE (\<lambda>n. 1 \<le> n \<and> n < mx) (field_scan f mx)"

fun matches_role :: "bytes \<Rightarrow> bytes list \<Rightarrow> bool res" where
  "matches_role t [] = Inr False"
| "matches_role t (r # rs) =
     bindE (strncmp t r FIX_TARGET_LEN) (\<lambda>c. if c = 0 then Inr True else matches_role t rs)"

definition target_is_protected :: "fix_proposal \<Rightarrow> sys_snapshot option \<Rightarrow> bool res" where
  "target_is_protected p s =
     bindE (matches_role (fp_target p) verify_protected_roles) (\<lambda>m.
     if m then Inr True
     else Inr (case s of None \<Rightarrow> False | Some sn \<Rightarrow> target_protected sn))"

definition set_reason :: "bytes option \<Rightarrow> int \<Rightarrow> string \<Rightarrow> bytes option res" where
  "set_reason reason rlen msg =
     (case reason of None \<Rightarrow> Inr None
      | Some buf \<Rightarrow> if rlen > 0 then mapE Some (safestrcpy buf (lit msg) rlen) else Inr (Some buf))"

text \<open>
  \<open>verify_fix\<close> returns the verdict and the new contents of the caller's \<open>reason\<close> buffer. A null
  pointer is \<open>None\<close>.
\<close>

definition verify_fix ::
  "fix_proposal option \<Rightarrow> sys_snapshot option \<Rightarrow> bytes option \<Rightarrow> int \<Rightarrow> (int \<times> bytes option) res"
where
  "verify_fix po s reason rlen =
     (let ret = (\<lambda>rc msg. mapE (Pair rc) (set_reason reason rlen msg)) in
      case po of None \<Rightarrow> ret VERIFY_ERR_FIELD ''null proposal''
      | Some p \<Rightarrow>
        bindE (field_ok (fp_role p) FIX_ROLE_LEN) (\<lambda>role_ok.
        if \<not> role_ok then ret VERIFY_ERR_FIELD ''role field missing or oversized''
        else bindE (field_ok (fp_target p) FIX_TARGET_LEN) (\<lambda>target_ok.
        if \<not> target_ok then ret VERIFY_ERR_FIELD ''target field missing or oversized''
        else if fp_severity p < FIX_SEVERITY_MIN \<or> fp_severity p > FIX_SEVERITY_MAX
          then ret VERIFY_ERR_RANGE ''severity out of range [0,3]''
        else if fp_retry_hint p < 0 then ret VERIFY_ERR_RANGE ''retry_hint negative''
        else bindE (if is_destructive (fp_action p) then target_is_protected p s else Inr False)
          (\<lambda>prot.
        if prot then ret VERIFY_ERR_PROTECTED ''destructive action on protected target''
        else if \<not> is_allowed (fp_action p) then ret VERIFY_ERR_ACTION ''action not on whitelist''
        else ret VERIFY_OK ''ok''))))"

section \<open>Specification\<close>

text \<open>
  What the verdict means, over the NUL-terminated contents of the two fields: a field is good when
  it is non-empty and terminated; a target is protected when it spells one of the three protected
  roles or the kernel resolved it to a protected process.
\<close>

definition good_field :: "bytes \<Rightarrow> bool" where
  "good_field f \<longleftrightarrow> cstr f \<noteq> [] \<and> terminated f"

definition protected_name :: "bytes \<Rightarrow> bool" where
  "protected_name f \<longleftrightarrow>
     cstr f \<in> {bytes_of ''init'', bytes_of ''sh'', bytes_of ''evaluator''}"

definition in_range :: "fix_proposal \<Rightarrow> bool" where
  "in_range p \<longleftrightarrow> 0 \<le> fp_severity p \<and> fp_severity p \<le> 3 \<and> 0 \<le> fp_retry_hint p"

definition whitelisted :: "int \<Rightarrow> bool" where
  "whitelisted a \<longleftrightarrow> a \<in> {0, 1, 2}"

definition verdict :: "fix_proposal \<Rightarrow> bool \<Rightarrow> int" where
  "verdict p prot =
     (if \<not> (good_field (fp_role p) \<and> good_field (fp_target p)) then -1
      else if \<not> in_range p then -2
      else if whitelisted (fp_action p) then 0
      else if prot \<or> protected_name (fp_target p) then -3
      else -4)"

section \<open>Helper lemmas\<close>

lemma field_scan_eq:
  "m \<le> length f \<Longrightarrow> field_scan f m = Inr (length (takeWhile (\<lambda>b. b \<noteq> 0) (take m f)))"
  by (induction f m rule: field_scan.induct) auto

lemma field_ok_spec: "length f = m \<Longrightarrow> field_ok f m = Inr (good_field f)"
  using terminated_length_cstr [of f]
  by (auto simp: field_ok_def field_scan_eq good_field_def cstr_def Suc_le_eq)

lemma is_destructive_iff: "is_destructive a \<longleftrightarrow> \<not> whitelisted a"
  by (auto simp: is_destructive_def whitelisted_def hdr)

lemma is_allowed_iff: "is_allowed a \<longleftrightarrow> whitelisted a"
  by (auto simp: is_allowed_def whitelisted_def hdr)

lemma strncmp_role:
  assumes "length t = 16" and "terminated t" and "length r < 16" and "0 \<notin> set (bytes_of r)"
  shows "\<exists>c. strncmp t (lit r) FIX_TARGET_LEN = Inr c \<and> (c = 0 \<longleftrightarrow> cstr t = bytes_of r)"
proof -
  have "length (cstr t) < 16"
    using assms by (simp add: terminated_length_cstr)
  moreover have "cstr (lit r) = bytes_of r"
    using assms(4) by (simp add: lit_def cstr_append_NUL)
  moreover have "length (bytes_of r) = length r"
    by (simp add: bytes_of_def)
  ultimately show ?thesis
    using strncmp_spec [of t FIX_TARGET_LEN "lit r"] assms
    by (auto simp: FIX_TARGET_LEN_def)
qed

lemma target_is_protected_spec:
  assumes "length (fp_target p) = 16" and "terminated (fp_target p)"
  shows "target_is_protected p s =
         Inr (protected_name (fp_target p) \<or> (\<exists>sn. s = Some sn \<and> target_protected sn))"
proof -
  note role = strncmp_role [OF assms]
  obtain c1 where c1: "strncmp (fp_target p) (lit ''init'') FIX_TARGET_LEN = Inr c1"
    "c1 = 0 \<longleftrightarrow> cstr (fp_target p) = bytes_of ''init''"
    using role [of "''init''"] by (auto simp: bytes_of_def)
  obtain c2 where c2: "strncmp (fp_target p) (lit ''sh'') FIX_TARGET_LEN = Inr c2"
    "c2 = 0 \<longleftrightarrow> cstr (fp_target p) = bytes_of ''sh''"
    using role [of "''sh''"] by (auto simp: bytes_of_def)
  obtain c3 where c3: "strncmp (fp_target p) (lit ''evaluator'') FIX_TARGET_LEN = Inr c3"
    "c3 = 0 \<longleftrightarrow> cstr (fp_target p) = bytes_of ''evaluator''"
    using role [of "''evaluator''"] by (auto simp: bytes_of_def)
  have "matches_role (fp_target p) verify_protected_roles = Inr (protected_name (fp_target p))"
    unfolding verify_protected_roles_def using c1 c2 c3
    by (simp del: lit_simps add: protected_name_def)
  then show ?thesis
    by (auto simp: target_is_protected_def split: option.splits)
qed

lemma set_reason_ok:
  assumes "\<And>buf. reason = Some buf \<Longrightarrow> nat rlen \<le> length buf"
  shows "\<exists>r. set_reason reason rlen msg = Inr r \<and>
             (\<forall>buf. reason = Some buf \<longrightarrow> 0 < rlen \<longrightarrow>
                (\<exists>buf'. r = Some buf' \<and> length buf' = length buf \<and> terminated (take (nat rlen) buf') \<and>
                        cstr buf' = take (nat rlen - 1) (cstr (lit msg))))"
proof (cases reason)
  case None
  then show ?thesis by (simp add: set_reason_def)
next
  case (Some buf)
  then show ?thesis
    using assms [OF Some] safestrcpy_spec [of rlen buf "lit msg"]
    by (auto simp: set_reason_def)
qed

section \<open>Correctness of the verifier\<close>

lemmas verify_codes =
  VERIFY_OK_def VERIFY_ERR_FIELD_def VERIFY_ERR_RANGE_def VERIFY_ERR_PROTECTED_def
  VERIFY_ERR_ACTION_def FIX_SEVERITY_MIN_def FIX_SEVERITY_MAX_def

lemma verify_fix_rc:
  assumes wf: "wf_proposal p"
    and reason: "\<And>buf. reason = Some buf \<Longrightarrow> nat rlen \<le> length buf"
  shows "\<exists>r. verify_fix (Some p) s reason rlen =
             Inr (verdict p (\<exists>sn. s = Some sn \<and> target_protected sn), r) \<and>
             (\<forall>buf. reason = Some buf \<longrightarrow> 0 < rlen \<longrightarrow>
                (\<exists>buf'. r = Some buf' \<and> terminated (take (nat rlen) buf')))"
proof -
  have "\<forall>msg. \<exists>r. set_reason reason rlen msg = Inr r \<and>
       (\<forall>buf. reason = Some buf \<longrightarrow> 0 < rlen \<longrightarrow>
          (\<exists>buf'. r = Some buf' \<and> terminated (take (nat rlen) buf')))"
    using set_reason_ok [of reason rlen, OF reason] by meson
  then obtain g where g: "\<And>msg. set_reason reason rlen msg = Inr (g msg)"
    and nul: "\<And>msg. \<forall>buf. reason = Some buf \<longrightarrow> 0 < rlen \<longrightarrow>
          (\<exists>buf'. g msg = Some buf' \<and> terminated (take (nat rlen) buf'))"
    by (metis (mono_tags))
  have role: "field_ok (fp_role p) FIX_ROLE_LEN = Inr (good_field (fp_role p))"
    and target: "field_ok (fp_target p) FIX_TARGET_LEN = Inr (good_field (fp_target p))"
    using wf by (simp_all add: wf_proposal_def field_ok_spec)
  have prot: "target_is_protected p s =
      Inr (protected_name (fp_target p) \<or> (\<exists>sn. s = Some sn \<and> target_protected sn))"
    if "good_field (fp_target p)"
    using that wf
    by (intro target_is_protected_spec) (auto simp: wf_proposal_def good_field_def FIX_TARGET_LEN_def)
  have "\<exists>msg. verify_fix (Some p) s reason rlen =
      Inr (verdict p (\<exists>sn. s = Some sn \<and> target_protected sn), g msg)"
    by (auto simp: verify_fix_def Let_def role target prot g verdict_def in_range_def verify_codes
        is_destructive_iff is_allowed_iff not_less not_le)
  then show ?thesis using nul by blast
qed


definition sample_proposal :: "bytes \<Rightarrow> int \<Rightarrow> int \<Rightarrow> fix_proposal" where
  "sample_proposal t a sev =
     \<lparr>fp_role = lit ''fixsuggest'' @ replicate 5 0, fp_target = t @ replicate (16 - length t) 0,
      fp_action = a, fp_severity = sev, fp_retry_hint = 0\<rparr>"


text \<open>
  The kernel has the final authority: an accepted proposal is well formed, in range and
  non-destructive, and a destructive proposal against a protected role, or against a target that
  the kernel resolved to a protected process, is never accepted.
\<close>

theorem verify_fix_accepts_only_safe:
  assumes "wf_proposal p" and "verify_fix (Some p) (Some sn) None 0 = Inr (rc, r)"
  shows "(rc = VERIFY_OK \<longleftrightarrow>
            good_field (fp_role p) \<and> good_field (fp_target p) \<and> in_range p \<and>
            whitelisted (fp_action p)) \<and>
         (is_destructive (fp_action p) \<and> (target_protected sn \<or> protected_name (fp_target p)) \<longrightarrow>
            rc \<in> {VERIFY_ERR_FIELD, VERIFY_ERR_RANGE, VERIFY_ERR_PROTECTED})"
  using verify_fix_rc [of p None 0 "Some sn"] assms
  by (auto simp: verdict_def verify_codes is_destructive_iff)

theorem verify_fix_accepts_only_safe_witness:
  "VERIFY_ERR_PROTECTED = VERIFY_OK \<longleftrightarrow> whitelisted (fp_action (sample_proposal (bytes_of ''init'') 4 1))"
proof -
  let ?p = "sample_proposal (bytes_of ''init'') 4 1"
  let ?sn = "\<lparr>target_pid = 1, target_protected = False, nproc = 3\<rparr>"
  have wf: "wf_proposal ?p"
    by (simp add: wf_proposal_def sample_proposal_def bytes_of_def hdr)
  have run: "verify_fix (Some ?p) (Some ?sn) None 0 = Inr (VERIFY_ERR_PROTECTED, None)"
    by code_simp
  have "good_field (fp_role ?p)" "good_field (fp_target ?p)" "in_range ?p"
    by (simp_all add: sample_proposal_def good_field_def bytes_of_def in_range_def)
  then show ?thesis
    using verify_fix_accepts_only_safe [OF wf run] by simp
qed

end
