(* ===== verification/Locks.thy ===== *)
theory Locks
  imports Prelude
begin

text \<open>
  \<open>kernel/spinlock.c\<close> and \<open>kernel/sleeplock.c\<close>. A CPU is the part of \<open>struct cpu\<close> that the lock code
  uses and the interrupt-enable bit of \<open>sstatus\<close>. A CPU that finds a spin lock taken by another one
  spins, and a process that finds a sleep lock taken sleeps: both are \<open>Blocked\<close>, and try again later.
  \<open>mycpu()\<close> is an argument, the index of the calling CPU; \<open>myproc()->pid\<close> is one for sleep locks.
\<close>

record cpu =
  sstatus_sie :: bool
  noff :: int
  intena :: bool

record spinlock =
  sl_locked :: bool
  sl_cpu :: "nat option"

record sleeplock =
  slk_locked :: bool
  slk_pid :: int

section \<open>spinlock.c\<close>

definition initlock :: spinlock where
  "initlock = \<lparr>sl_locked = False, sl_cpu = None\<rparr>"

definition push_off :: "cpu \<Rightarrow> cpu" where
  "push_off c =
     (let old = sstatus_sie c;
          c = c\<lparr>sstatus_sie := False\<rparr>;
          c = (if noff c = 0 then c\<lparr>intena := old\<rparr> else c)
      in c\<lparr>noff := noff c + 1\<rparr>)"

definition pop_off :: "cpu \<Rightarrow> cpu res" where
  "pop_off c =
     (if sstatus_sie c then Inl (Panic ''pop_off - interruptible'')
      else if noff c < 1 then Inl (Panic ''pop_off'')
      else (let c = c\<lparr>noff := noff c - 1\<rparr>
            in Inr (if noff c = 0 \<and> intena c then c\<lparr>sstatus_sie := True\<rparr> else c)))"

definition holding :: "nat \<Rightarrow> spinlock \<Rightarrow> bool" where
  "holding me lk \<longleftrightarrow> sl_locked lk \<and> sl_cpu lk = Some me"

definition acquire :: "nat \<Rightarrow> cpu \<Rightarrow> spinlock \<Rightarrow> (cpu \<times> spinlock) res" where
  "acquire me c lk =
     (let c = push_off c
      in if holding me lk then Inl (Panic ''acquire'')
         else if sl_locked lk then Inl Blocked
         else Inr (c, lk\<lparr>sl_locked := True, sl_cpu := Some me\<rparr>))"

definition release :: "nat \<Rightarrow> cpu \<Rightarrow> spinlock \<Rightarrow> (cpu \<times> spinlock) res" where
  "release me c lk =
     (if \<not> holding me lk then Inl (Panic ''release'')
      else (let lk = lk\<lparr>sl_cpu := None, sl_locked := False\<rparr>
            in bindE (pop_off c) (\<lambda>c. Inr (c, lk))))"

section \<open>sleeplock.c\<close>

definition initsleeplock :: sleeplock where
  "initsleeplock = \<lparr>slk_locked = False, slk_pid = 0\<rparr>"

definition acquiresleep :: "int \<Rightarrow> sleeplock \<Rightarrow> sleeplock res" where
  "acquiresleep me lk =
     (if slk_locked lk then Inl Blocked else Inr (lk\<lparr>slk_locked := True, slk_pid := me\<rparr>))"

definition releasesleep :: "sleeplock \<Rightarrow> sleeplock" where
  "releasesleep lk = lk\<lparr>slk_locked := False, slk_pid := 0\<rparr>"

definition holdingsleep :: "int \<Rightarrow> sleeplock \<Rightarrow> bool" where
  "holdingsleep me lk \<longleftrightarrow> slk_locked lk \<and> slk_pid lk = me"

section \<open>Nesting of push_off and pop_off\<close>

text \<open>
  A CPU between operations: interrupts are off whenever something is pushed.
\<close>

definition wf_cpu :: "cpu \<Rightarrow> bool" where
  "wf_cpu c \<longleftrightarrow> 0 \<le> noff c \<and> (0 < noff c \<longrightarrow> \<not> sstatus_sie c)"

primrec pop_n :: "nat \<Rightarrow> cpu \<Rightarrow> cpu res" where
  "pop_n 0 c = Inr c"
| "pop_n (Suc n) c = bindE (pop_off c) (pop_n n)"

lemma push_off_wf: "wf_cpu c \<Longrightarrow> wf_cpu (push_off c)"
  by (simp add: wf_cpu_def push_off_def Let_def)

lemma pop_push: "wf_cpu c \<Longrightarrow> pop_off (push_off c) = Inr (if noff c = 0 then c\<lparr>intena := sstatus_sie c\<rparr> else c)"
  by (cases c) (auto simp: wf_cpu_def push_off_def pop_off_def Let_def)

lemma push_off_noff [simp]: "noff (push_off c) = noff c + 1" "sstatus_sie (push_off c) = False"
  by (simp_all add: push_off_def Let_def)

lemma pop_n_append: "pop_n (m + n) c = bindE (pop_n m c) (pop_n n)"
  by (induction m arbitrary: c) (simp_all add: bindE_assoc cong: bindE_cong)

lemma push_pop_n:
  "wf_cpu c \<Longrightarrow> \<exists>c'. pop_n n ((push_off ^^ n) c) = Inr c' \<and> noff c' = noff c \<and> sstatus_sie c' = sstatus_sie c \<and>
    (0 < noff c \<longrightarrow> c' = c)"
proof (induction n arbitrary: c)
  case 0
  then show ?case by simp
next
  case (Suc n)
  obtain c1 where c1: "pop_n n ((push_off ^^ n) (push_off c)) = Inr c1" "0 < noff (push_off c) \<longrightarrow> c1 = push_off c"
    using Suc.IH [OF push_off_wf [OF Suc.prems]] by blast
  then have "c1 = push_off c" using Suc.prems by (simp add: wf_cpu_def)
  moreover have "pop_n (Suc n) ((push_off ^^ Suc n) c) = bindE (pop_n n ((push_off ^^ n) (push_off c))) pop_off"
  proof -
    have "pop_n (Suc n) = pop_n (n + 1)" by simp
    moreover have "pop_n 1 = pop_off" by (rule ext) (auto simp: bindE_def split: sum.splits)
    ultimately show ?thesis by (simp only: pop_n_append funpow_Suc_right o_apply)
  qed
  ultimately show ?case using c1 pop_push [OF Suc.prems] by auto
qed

text \<open>
  \<open>push_off\<close> and \<open>pop_off\<close> are matched: \<open>n\<close> of the one followed by \<open>n\<close> of the other do not panic and
  restore the nesting depth and the interrupt state, and interrupts stay off in between.
\<close>

theorem push_off_pop_off_matched:
  assumes "wf_cpu c"
  shows "(\<exists>c'. pop_n n ((push_off ^^ n) c) = Inr c' \<and> noff c' = noff c \<and> sstatus_sie c' = sstatus_sie c) \<and>
    (0 < n \<longrightarrow> \<not> sstatus_sie ((push_off ^^ n) c))"
  using push_pop_n [OF assms, of n] by (cases n) auto

theorem push_off_pop_off_matched_witness:
  "(\<exists>c'. pop_n 3 ((push_off ^^ 3) \<lparr>sstatus_sie = True, noff = 0, intena = False\<rparr>) = Inr c' \<and>
      noff c' = noff \<lparr>sstatus_sie = True, noff = 0, intena = False\<rparr> \<and>
      sstatus_sie c' = sstatus_sie \<lparr>sstatus_sie = True, noff = 0, intena = False\<rparr>) \<and>
    \<not> sstatus_sie ((push_off ^^ 3) \<lparr>sstatus_sie = True, noff = 0, intena = False\<rparr>)"
  using push_off_pop_off_matched [of "\<lparr>sstatus_sie = True, noff = 0, intena = False\<rparr>" 3]
  by (simp add: wf_cpu_def)

section \<open>Mutual exclusion\<close>

text \<open>
  The CPUs of a machine contending for one spin lock: a CPU acquires it, releases it, or finds it
  taken and stays where it is. The last component records which CPUs are inside the critical section.
\<close>

inductive contend :: "(nat \<Rightarrow> cpu) \<times> spinlock \<times> nat set \<Rightarrow> (nat \<Rightarrow> cpu) \<times> spinlock \<times> nat set \<Rightarrow> bool" where
  enter: "acquire me (cs me) lk = Inr (c, lk') \<Longrightarrow> contend (cs, lk, inside) (cs(me := c), lk', insert me inside)"
| leave: "me \<in> inside \<Longrightarrow> release me (cs me) lk = Inr (c, lk') \<Longrightarrow>
    contend (cs, lk, inside) (cs(me := c), lk', inside - {me})"
| spin: "acquire me (cs me) lk = Inl Blocked \<Longrightarrow> contend (cs, lk, inside) (cs, lk, inside)"

inductive_cases contendE: "contend (cs, lk, inside) s'"

definition lock_inv :: "(nat \<Rightarrow> cpu) \<times> spinlock \<times> nat set \<Rightarrow> bool" where
  "lock_inv = (\<lambda>(cs, lk, inside). inside = (if sl_locked lk then {c. sl_cpu lk = Some c} else {}) \<and>
     (\<forall>c. wf_cpu (cs c)) \<and> (\<forall>c\<in>inside. 0 < noff (cs c)))"

lemma acquire_InrD: "acquire me c lk = Inr (c', lk') \<Longrightarrow>
    \<not> sl_locked lk \<and> c' = push_off c \<and> lk' = lk\<lparr>sl_locked := True, sl_cpu := Some me\<rparr>"
  by (auto simp: acquire_def Let_def split: if_splits)

lemma release_InrD: "release me c lk = Inr (c', lk') \<Longrightarrow>
    holding me lk \<and> pop_off c = Inr c' \<and> lk' = lk\<lparr>sl_cpu := None, sl_locked := False\<rparr>"
  by (auto simp: release_def Let_def split: if_splits)

lemma pop_off_wf: "wf_cpu c \<Longrightarrow> pop_off c = Inr c' \<Longrightarrow> wf_cpu c'"
  by (auto simp: wf_cpu_def pop_off_def Let_def split: if_splits)

lemma contend_inv: "contend s s' \<Longrightarrow> lock_inv s \<Longrightarrow> lock_inv s'"
proof (induction rule: contend.induct)
  case (enter me cs lk c lk' inside)
  then show ?case
    using acquire_InrD [OF enter(1)] push_off_wf by (auto simp: lock_inv_def wf_cpu_def)
next
  case (leave me inside cs lk c lk')
  then show ?case
    using release_InrD [OF leave(2)] pop_off_wf by (auto simp: lock_inv_def holding_def)
qed



end
