(* ===== verification/Codec.thy ===== *)
theory Codec
  imports CString
begin

text \<open>
  The little-endian layout of integers inside byte arrays, as the RISC-V compiler lays out the
  on-disk structures (log header, superblock, inodes, directory entries) and page-table entries.
\<close>

section \<open>Integers as bytes\<close>

primrec le_bytes :: "nat \<Rightarrow> 'a::len word \<Rightarrow> bytes" where
  "le_bytes 0 w = []"
| "le_bytes (Suc n) w = ucast w # le_bytes n (drop_bit 8 w)"

primrec le_word :: "bytes \<Rightarrow> 'a::len word" where
  "le_word [] = 0"
| "le_word (b # bs) = ucast b OR push_bit 8 (le_word bs)"

lemma length_le_bytes [simp]: "length (le_bytes n w) = n"
  by (induction n arbitrary: w) auto

lemma le_word_le_bytes: "le_word (le_bytes n w) = take_bit (8 * n) w"
proof (induction n arbitrary: w)
  case 0
  then show ?case by simp
next
  case (Suc n)
  have "ucast (ucast w :: 8 word) OR push_bit 8 (take_bit (8 * n) (drop_bit 8 w))
      = take_bit (8 * Suc n) w"
    by (rule bit_word_eqI) (auto simp: bit_simps)
  with Suc show ?case by simp
qed

lemma le_word_le_bytes32 [simp]: "le_word (le_bytes 4 (w :: 32 word)) = w"
  by (simp add: le_word_le_bytes take_bit_word_eq_self)

lemma le_word_le_bytes64 [simp]: "le_word (le_bytes 8 (w :: 64 word)) = w"
  by (simp add: le_word_le_bytes take_bit_word_eq_self)

lemma le_word_le_bytes16 [simp]: "le_word (le_bytes 2 (w :: 16 word)) = w"
  by (simp add: le_word_le_bytes take_bit_word_eq_self)

lemma le_bytes_le_word:
  "8 * length bs \<le> LENGTH('a) \<Longrightarrow> le_bytes (length bs) (le_word bs :: 'a::len word) = bs"
proof (induction bs)
  case Nil
  then show ?case by simp
next
  case (Cons b bs)
  let ?w = "le_word bs :: 'a word"
  have len: "8 \<le> LENGTH('a)" and "8 * length bs \<le> LENGTH('a)"
    using Cons.prems by auto
  have low: "ucast (ucast b OR push_bit 8 ?w) = b"
    using len by (intro bit_word_eqI) (auto simp: bit_simps)
  have "drop_bit 8 (ucast b OR push_bit 8 ?w) = take_bit (LENGTH('a) - 8) ?w"
    by (rule bit_word_eqI) (auto simp: bit_simps dest: bit_imp_le_length)
  moreover have "bit ?w n \<Longrightarrow> n < 8 * length bs" for n
  proof (induction bs arbitrary: n)
    case (Cons c cs)
    then show ?case
      by (cases "n < 8") (auto simp: bit_simps dest: bit_imp_le_length Cons.IH [of "n - 8"])
  qed simp
  then have "take_bit (LENGTH('a) - 8) ?w = ?w"
    using Cons.prems by (intro bit_word_eqI) (fastforce simp: bit_simps)
  ultimately show ?case using low Cons.IH \<open>8 * length bs \<le> LENGTH('a)\<close> by simp
qed

section \<open>Fields at an offset\<close>

definition peek :: "nat \<Rightarrow> bytes \<Rightarrow> nat \<Rightarrow> bytes" where
  "peek n bs off = take n (drop off bs)"

definition poke :: "bytes \<Rightarrow> nat \<Rightarrow> bytes \<Rightarrow> bytes" where
  "poke bs off v = take off bs @ v @ drop (off + length v) bs"

definition peek32 :: "bytes \<Rightarrow> nat \<Rightarrow> 32 word" where
  "peek32 bs off = le_word (peek 4 bs off)"

definition poke32 :: "bytes \<Rightarrow> nat \<Rightarrow> 32 word \<Rightarrow> bytes" where
  "poke32 bs off w = poke bs off (le_bytes 4 w)"

definition peek16 :: "bytes \<Rightarrow> nat \<Rightarrow> 16 word" where
  "peek16 bs off = le_word (peek 2 bs off)"

definition poke16 :: "bytes \<Rightarrow> nat \<Rightarrow> 16 word \<Rightarrow> bytes" where
  "poke16 bs off w = poke bs off (le_bytes 2 w)"

lemma length_poke [simp]: "off + length v \<le> length bs \<Longrightarrow> length (poke bs off v) = length bs"
  by (simp add: poke_def)

lemma length_poke32 [simp]: "off + 4 \<le> length bs \<Longrightarrow> length (poke32 bs off w) = length bs"
  by (simp add: poke32_def)

lemma length_poke16 [simp]: "off + 2 \<le> length bs \<Longrightarrow> length (poke16 bs off w) = length bs"
  by (simp add: poke16_def)

lemma peek_poke_same:
  "off + length v \<le> length bs \<Longrightarrow> n = length v \<Longrightarrow> peek n (poke bs off v) off = v"
  by (simp add: peek_def poke_def min_def)

lemma peek_poke_other:
  assumes "off + length v \<le> length bs" and "off' + n \<le> off \<or> off + length v \<le> off'"
  shows "peek n (poke bs off v) off' = peek n bs off'"
proof (rule nth_equalityI)
  show "length (peek n (poke bs off v) off') = length (peek n bs off')"
    using assms by (simp add: peek_def)
next
  fix i
  assume "i < length (peek n (poke bs off v) off')"
  then show "peek n (poke bs off v) off' ! i = peek n bs off' ! i"
    using assms by (auto simp: peek_def poke_def nth_append)
qed

lemma peek32_poke32 [simp]: "off + 4 \<le> length bs \<Longrightarrow> peek32 (poke32 bs off w) off = w"
  by (simp add: peek32_def poke32_def peek_poke_same)

lemma peek32_poke32_other [simp]:
  "off + 4 \<le> length bs \<Longrightarrow> off' + 4 \<le> off \<or> off + 4 \<le> off' \<Longrightarrow>
   peek32 (poke32 bs off w) off' = peek32 bs off'"
  by (simp add: peek32_def poke32_def peek_poke_other)

lemma peek16_poke16 [simp]: "off + 2 \<le> length bs \<Longrightarrow> peek16 (poke16 bs off w) off = w"
  by (simp add: peek16_def poke16_def peek_poke_same)

end
