(* ===== verification/Memory.thy ===== *)
theory Memory
  imports Codec
begin

text \<open>
  Physical memory as the kernel sees it through its direct map: a byte for every 64-bit address.
  The functions of \<open>kernel/string.c\<close> on raw memory (\<open>memset\<close>, \<open>memmove\<close>) are the source's loops;
  their closed forms are the lemmas that the allocator and the page-table code rest on.
\<close>

type_synonym mem = "uint64 \<Rightarrow> uchar"

definition PGSIZE :: nat where [hdr]: "PGSIZE = 4096"

section \<open>Typed access\<close>

definition load_bytes :: "mem \<Rightarrow> uint64 \<Rightarrow> nat \<Rightarrow> bytes" where
  "load_bytes m a n = map (\<lambda>i. m (a + of_nat i)) [0..<n]"

definition store_bytes :: "mem \<Rightarrow> uint64 \<Rightarrow> bytes \<Rightarrow> mem" where
  "store_bytes m a bs = (\<lambda>x. if unat (x - a) < length bs then bs ! unat (x - a) else m x)"

definition load64 :: "mem \<Rightarrow> uint64 \<Rightarrow> uint64" where
  "load64 m a = le_word (load_bytes m a 8)"

definition store64 :: "mem \<Rightarrow> uint64 \<Rightarrow> uint64 \<Rightarrow> mem" where
  "store64 m a w = store_bytes m a (le_bytes 8 w)"

section \<open>The loops of string.c on memory\<close>

primrec mem_set :: "mem \<Rightarrow> uint64 \<Rightarrow> uchar \<Rightarrow> nat \<Rightarrow> mem" where
  "mem_set m dst c 0 = m"
| "mem_set m dst c (Suc n) = mem_set (m(dst := c)) (dst + 1) c n"

primrec move_up :: "mem \<Rightarrow> uint64 \<Rightarrow> uint64 \<Rightarrow> nat \<Rightarrow> mem" where
  "move_up m d s 0 = m"
| "move_up m d s (Suc n) = move_up (m(d := m s)) (d + 1) (s + 1) n"

primrec move_down :: "mem \<Rightarrow> uint64 \<Rightarrow> uint64 \<Rightarrow> nat \<Rightarrow> mem" where
  "move_down m d s 0 = m"
| "move_down m d s (Suc n) = move_down (m(d - 1 := m (s - 1))) (d - 1) (s - 1) n"

definition memmove :: "mem \<Rightarrow> uint64 \<Rightarrow> uint64 \<Rightarrow> nat \<Rightarrow> mem" where
  "memmove m dst src n =
     (if n = 0 then m
      else if src < dst \<and> src + of_nat n > dst then move_down m (dst + of_nat n) (src + of_nat n) n
      else move_up m dst src n)"

section \<open>Offsets\<close>

lemma unat_of_nat64: "n < 2 ^ 64 \<Longrightarrow> unat (of_nat n :: uint64) = n"
  by (simp add: unsigned_of_nat take_bit_nat_eq_self)

lemma offset_unat: "n < 2 ^ 64 \<Longrightarrow> unat (a + of_nat n - (a :: uint64)) = n"
  by (simp add: unat_of_nat64)

lemma offset_ex: "(x :: uint64) = a + of_nat (unat (x - a))"
  by simp

lemma offset_eq_iff:
  assumes "i < 2 ^ 64" and "j < 2 ^ 64"
  shows "(a :: uint64) + of_nat i = a + of_nat j \<longleftrightarrow> i = j"
proof
  assume "a + of_nat i = a + of_nat j"
  then have "unat (a + of_nat i - a) = unat (a + of_nat j - a)" by (rule arg_cong)
  then show "i = j" by (simp only: offset_unat [OF assms(1)] offset_unat [OF assms(2)])
qed simp

lemma unat_minus_Suc:
  assumes "x \<noteq> (a :: uint64)"
  shows "unat (x - (a + 1)) = unat (x - a) - 1"
proof -
  have "x - (a + 1) = (x - a) - 1" by simp
  moreover have "x - a \<noteq> 0" using assms by simp
  ultimately show ?thesis by (simp only: unat_minus_one not_False_eq_True)
qed

lemma unat_offset_0: "unat (x - (a :: uint64)) = 0 \<longleftrightarrow> x = a"
  by (simp add: unat_eq_0)

section \<open>Closed forms\<close>

lemma length_load_bytes [simp]: "length (load_bytes m a n) = n"
  by (simp add: load_bytes_def)

lemma nth_load_bytes [simp]: "i < n \<Longrightarrow> load_bytes m a n ! i = m (a + of_nat i)"
  by (simp add: load_bytes_def)

lemma load_bytes_Suc: "load_bytes m a (Suc n) = load_bytes m a n @ [m (a + of_nat n)]"
  by (simp add: load_bytes_def)

lemma store_bytes_nth:
  "i < length bs \<Longrightarrow> length bs < 2 ^ 64 \<Longrightarrow> store_bytes m a bs (a + of_nat i) = bs ! i"
  by (simp add: store_bytes_def unat_of_nat64)

lemma load_store_bytes:
  "length bs < 2 ^ 64 \<Longrightarrow> load_bytes (store_bytes m a bs) a (length bs) = bs"
  by (rule nth_equalityI) (auto simp: load_bytes_def store_bytes_nth)

lemma load64_store64 [simp]: "load64 (store64 m a w) a = w"
  using load_store_bytes [of "le_bytes 8 w" m a] by (simp add: load64_def store64_def)

lemma load_bytes_cong:
  "(\<And>i. i < n \<Longrightarrow> m (a + of_nat i) = m' (a + of_nat i)) \<Longrightarrow> load_bytes m a n = load_bytes m' a n"
  by (simp add: load_bytes_def)

lemma mem_set_eq:
  "n < 2 ^ 64 \<Longrightarrow> mem_set m dst c n = (\<lambda>x. if unat (x - dst) < n then c else m x)"
proof (induction n arbitrary: m dst)
  case 0
  then show ?case by simp
next
  case (Suc n)
  show ?case
  proof
    fix x
    have "mem_set m dst c (Suc n) x =
        (if unat (x - (dst + 1)) < n then c else (m(dst := c)) x)"
      using Suc by simp
    also have "\<dots> = (if unat (x - dst) < Suc n then c else m x)"
    proof (cases "x = dst")
      case False
      then have "0 < unat (x - dst)" using unat_offset_0 [of x dst] by simp
      with False show ?thesis using unat_minus_Suc [OF False] by auto
    qed simp
    finally show "mem_set m dst c (Suc n) x = (if unat (x - dst) < Suc n then c else m x)" .
  qed
qed

text \<open>
  Copying upwards is right when no byte is overwritten before it is read, and so is copying
  downwards.
\<close>

lemma move_up_eq:
  assumes "n < 2 ^ 64"
    and "\<And>i j. i < j \<Longrightarrow> j < n \<Longrightarrow> s + of_nat j \<noteq> d + of_nat i"
  shows "move_up m d s n = store_bytes m d (load_bytes m s n)"
  using assms
proof (induction n arbitrary: m d s)
  case 0
  then show ?case by (simp add: store_bytes_def)
next
  case (Suc n)
  let ?m = "m(d := m s)"
  have "s + 1 + of_nat j \<noteq> d + 1 + of_nat i" if "i < j" "j < n" for i j
    using Suc.prems(2) [of "Suc i" "Suc j"] that by (simp add: algebra_simps)
  then have IH: "move_up ?m (d + 1) (s + 1) n = store_bytes ?m (d + 1) (load_bytes ?m (s + 1) n)"
    using Suc.prems(1) by (intro Suc.IH) auto
  have read: "load_bytes ?m (s + 1) n ! j = load_bytes m s (Suc n) ! Suc j" if "j < n" for j
    using Suc.prems(2) [of 0 "Suc j"] that by (auto simp: algebra_simps)
  show ?case
  proof
    fix x
    show "move_up m d s (Suc n) x = store_bytes m d (load_bytes m s (Suc n)) x"
    proof (cases "x = d")
      case True
      have "unat (d - (d + 1)) \<ge> n"
        using Suc.prems(1) by (simp add: unsigned_minus_1_eq_mask mask_eq_exp_minus_1)
      then show ?thesis
        using True IH by (simp add: store_bytes_def)
    next
      case False
      then have "unat (x - d) = Suc (unat (x - (d + 1)))"
        using unat_minus_Suc [OF False] unat_offset_0 [of x d] by simp
      then show ?thesis
        using False IH read [of "unat (x - (d + 1))"]
        by (simp add: store_bytes_def del: nth_load_bytes)
    qed
  qed
qed

lemma move_down_eq:
  assumes "n < 2 ^ 64"
    and "\<And>i j. i < j \<Longrightarrow> j < n \<Longrightarrow> s + of_nat i \<noteq> d + of_nat j"
  shows "move_down m (d + of_nat n) (s + of_nat n) n = store_bytes m d (load_bytes m s n)"
  using assms
proof (induction n arbitrary: m)
  case 0
  then show ?case by (simp add: store_bytes_def)
next
  case (Suc n)
  let ?m = "m(d + of_nat n := m (s + of_nat n))"
  have "move_down m (d + of_nat (Suc n)) (s + of_nat (Suc n)) (Suc n) =
      move_down ?m (d + of_nat n) (s + of_nat n) n"
    by (simp add: algebra_simps)
  also have "\<dots> = store_bytes ?m d (load_bytes ?m s n)"
    using Suc.prems by (intro Suc.IH) auto
  also have "\<dots> = store_bytes m d (load_bytes m s (Suc n))"
  proof
    fix x
    have read: "load_bytes ?m s n ! k = m (s + of_nat k)" if "k < n" for k
      using Suc.prems(2) [of k n] that by (auto simp: load_bytes_def)
    have top: "x = d + of_nat n \<longleftrightarrow> unat (x - d) = n"
      using Suc.prems(1) by (metis offset_ex offset_unat Suc_lessD)
    show "store_bytes ?m d (load_bytes ?m s n) x = store_bytes m d (load_bytes m s (Suc n)) x"
    proof (cases "unat (x - d) < n")
      case True
      moreover have "x \<noteq> d + of_nat n" using True top by simp
      ultimately show ?thesis
        using read [OF True] by (simp add: store_bytes_def load_bytes_Suc nth_append del: nth_load_bytes)
          simp
    next
      case False
      then show ?thesis using top by (auto simp: store_bytes_def load_bytes_Suc nth_append)
    qed
  qed
  finally show ?case .
qed

lemma unat_offset_no_wrap:
  "unat a + i < 2 ^ 64 \<Longrightarrow> unat ((a :: uint64) + of_nat i) = unat a + i"
  by (simp add: unat_word_ariths(1) unsigned_of_nat take_bit_eq_mod mod_simps)

text \<open>
  Whatever the overlap of the two regions, \<open>memmove\<close> stores at the destination the bytes that the
  source held before the call.
\<close>

lemma memmove_eq:
  assumes "unat src + n < 2 ^ 64" and "unat dst + n < 2 ^ 64"
  shows "memmove m dst src n = store_bytes m dst (load_bytes m src n)"
proof (cases "n = 0")
  case True
  then show ?thesis by (simp add: memmove_def store_bytes_def)
next
  case False
  have n: "n < 2 ^ 64" using assms(1) by simp
  have off: "unat (src + of_nat i) = unat src + i" "unat (dst + of_nat i) = unat dst + i"
    if "i \<le> n" for i
    using assms that by (auto intro!: unat_offset_no_wrap)
  show ?thesis
  proof (cases "src < dst")
    case True
    then have lt: "unat src < unat dst" by (simp add: word_less_nat_alt)
    have down: "src + of_nat i \<noteq> dst + of_nat j" if "i < j" "j < n" for i j
      using off(1) [of i] off(2) [of j] lt that by auto
    have up: "src + of_nat j \<noteq> dst + of_nat i"
      if "\<not> dst < src + of_nat n" "i < j" "j < n" for i j
      using off(1) [of j] off(2) [of i] off(1) [of n] that by (auto simp: word_less_nat_alt)
    show ?thesis
      using True False move_down_eq [OF n down] move_up_eq [OF n up] by (simp add: memmove_def)
  next
    case ge: False
    then have le: "unat dst \<le> unat src" by (simp add: word_less_nat_alt)
    have "src + of_nat j \<noteq> dst + of_nat i" if "i < j" "j < n" for i j
      using off(1) [of j] off(2) [of i] le that by auto
    from move_up_eq [OF n this] show ?thesis using ge False by (simp add: memmove_def)
  qed
qed

section \<open>Pages\<close>

definition PGROUNDUP :: "uint64 \<Rightarrow> uint64" where
  "PGROUNDUP sz = (sz + 4096 - 1) AND NOT (4096 - 1)"

definition PGROUNDDOWN :: "uint64 \<Rightarrow> uint64" where
  "PGROUNDDOWN a = a AND NOT (4096 - 1)"

text \<open>The source tests alignment with \<open>% PGSIZE\<close>.\<close>

definition aligned :: "uint64 \<Rightarrow> bool" where
  "aligned a \<longleftrightarrow> a mod 4096 = 0"

definition in_page :: "uint64 \<Rightarrow> uint64 \<Rightarrow> bool" where
  "in_page p x \<longleftrightarrow> unat (x - p) < 4096"

lemma aligned_iff: "aligned a \<longleftrightarrow> unat a mod 4096 = 0"
proof -
  have "unat (a mod 4096) = unat a mod 4096" by (simp add: unat_mod_distrib)
  then show ?thesis unfolding aligned_def by (metis unat_eq_0)
qed

lemma mask12: "4095 = (mask 12 :: uint64)"
  by (simp add: mask_eq_exp_minus_1)

lemma pgrounddown_unat: "unat (PGROUNDDOWN a) = unat a div 4096 * 4096"
proof -
  have "PGROUNDDOWN a = push_bit 12 (drop_bit 12 a)"
    by (rule bit_eqI) (auto simp: PGROUNDDOWN_def mask12 bit_simps not_less)
  then have "unat (PGROUNDDOWN a) = take_bit 64 (push_bit 12 (drop_bit 12 (take_bit 64 (unat a))))"
    by (simp only: unsigned_push_bit_eq unsigned_drop_bit_eq) simp
  moreover have "unat a < 2 ^ 64" using unsigned_less [of a] by simp
  ultimately show ?thesis
    by (simp add: drop_bit_eq_div take_bit_eq_mod push_bit_eq_mult)
qed

lemma pgroundup_unat:
  assumes "unat a + 4095 < 2 ^ 64"
  shows "unat (PGROUNDUP a) = (unat a + 4095) div 4096 * 4096"
proof -
  have "PGROUNDUP a = PGROUNDDOWN (a + of_nat 4095)"
    by (simp add: PGROUNDUP_def PGROUNDDOWN_def add.commute)
  then show ?thesis
    using assms unat_offset_no_wrap [of a 4095] by (simp add: pgrounddown_unat)
qed

lemma aligned_pgrounddown [simp]: "aligned (PGROUNDDOWN a)"
  by (simp only: aligned_iff pgrounddown_unat mod_mult_self2_is_0)

lemma aligned_pgroundup [simp]: "aligned (PGROUNDUP a)"
proof -
  have "PGROUNDUP a = PGROUNDDOWN (a + 4095)"
    by (simp add: PGROUNDUP_def PGROUNDDOWN_def add.commute)
  then show ?thesis by (simp only: aligned_pgrounddown)
qed

lemma aligned_add_page:
  assumes "aligned a"
  shows "aligned (a + 4096)"
proof -
  have "unat (a + 4096) = (unat a + 4096) mod 2 ^ 64" by (simp add: unat_word_ariths(1))
  moreover have "(unat a + 4096) mod 2 ^ 64 mod 4096 = (unat a + 4096) mod 4096"
    by (rule mod_mod_cancel) simp
  ultimately show ?thesis using assms by (simp only: aligned_iff mod_add_self2)
qed

text \<open>Aligned pages are equal or disjoint.\<close>

lemma page_top: "aligned p \<Longrightarrow> unat p + 4096 \<le> 2 ^ 64"
proof -
  assume "aligned p"
  then obtain k where k: "unat p = 4096 * k" by (auto simp: aligned_iff)
  have "unat p < 2 ^ 64" using unsigned_less [of p] by simp
  then show ?thesis using k by simp
qed

lemma in_page_iff:
  assumes "aligned p"
  shows "in_page p x \<longleftrightarrow> unat x div 4096 = unat p div 4096"
proof -
  obtain k where k: "unat p = 4096 * k" using assms by (auto simp: aligned_iff)
  have top: "4096 * k + 4096 \<le> 2 ^ 64" using page_top [OF assms] k by simp
  have sub: "unat (x - p) = (if 4096 * k \<le> unat x then unat x - 4096 * k
      else unat x + 2 ^ 64 - 4096 * k)"
    unfolding unat_sub_if_size word_size k by simp
  show ?thesis
  proof (cases "4096 * k \<le> unat x")
    case True
    then obtain d where "unat x = 4096 * k + d" using le_Suc_ex by blast
    then show ?thesis using sub k by (simp add: in_page_def div_eq_0_iff)
  next
    case False
    then have "unat x div 4096 < k" by (simp add: div_less_iff_less_mult)
    then show ?thesis using sub k False top by (simp add: in_page_def)
  qed
qed

lemma in_page_self [simp]: "in_page p p"
  by (simp add: in_page_def)

lemma in_page_unique:
  assumes "aligned p" and "aligned q" and "in_page p x" and "in_page q x"
  shows "p = q"
proof -
  have "unat p div 4096 = unat q div 4096" using assms by (simp add: in_page_iff)
  then have "unat p = unat q" using assms(1,2) by (auto simp: aligned_iff)
  then show ?thesis by (simp add: word_unat_eq_iff)
qed

end
