(* ===== verification/Kalloc.thy ===== *)
theory Kalloc
  imports Memory
begin

text \<open>
  The physical page allocator of \<open>kernel/kalloc.c\<close>. The free list is threaded through the free
  pages themselves, as in the source: the first eight bytes of a free page hold the address of the
  next one. \<open>kernel_end\<close> is the linker symbol \<open>end\<close>, which the source takes from \<open>kernel.ld\<close>. The
  lock \<open>kmem.lock\<close> makes each operation one atomic step and is not part of the state.
\<close>

definition KERNBASE :: uint64 where [hdr]: "KERNBASE = 0x80000000"
definition PHYSTOP :: uint64 where [hdr]: "PHYSTOP = KERNBASE + 128 * 1024 * 1024"

record kmem =
  kernel_end :: uint64
  phys :: mem
  freelist :: uint64

section \<open>Operations\<close>

definition kfree :: "uint64 \<Rightarrow> kmem \<Rightarrow> kmem res" where
  "kfree pa k =
     (if pa mod 4096 \<noteq> 0 \<or> pa < kernel_end k \<or> pa \<ge> PHYSTOP then Inl (Panic ''kfree'')
      else (let m = mem_set (phys k) pa 1 PGSIZE;
                m = store64 m pa (freelist k)
            in Inr (k\<lparr>phys := m, freelist := pa\<rparr>)))"

definition kalloc :: "kmem \<Rightarrow> kmem \<times> uint64" where
  "kalloc k =
     (let r = freelist k;
          k = (if r \<noteq> 0 then k\<lparr>freelist := load64 (phys k) r\<rparr> else k);
          k = (if r \<noteq> 0 then k\<lparr>phys := mem_set (phys k) r 5 PGSIZE\<rparr> else k)
      in (k, r))"

lemma kfree_below: "kfree p k = Inr k' \<Longrightarrow> p < PHYSTOP"
  by (auto simp: kfree_def Let_def split: if_splits)

lemma unat_next_page: "p < PHYSTOP \<Longrightarrow> unat (p + 4096) = unat p + 4096"
  using unat_offset_no_wrap [of p 4096] by (simp add: word_less_nat_alt hdr)

text \<open>
  The loop of \<open>freerange\<close> ends for all arguments: an address above \<open>PHYSTOP\<close> makes \<open>kfree\<close> panic
  before the cursor can wrap around.
\<close>

function freerange_loop :: "uint64 \<Rightarrow> uint64 \<Rightarrow> kmem \<Rightarrow> kmem res" where
  "freerange_loop p pa_end k =
     (if p + 4096 \<le> pa_end
      then bindE (kfree p k) (\<lambda>k. freerange_loop (p + 4096) pa_end k)
      else Inr k)"
  by pat_completeness auto
termination
proof (relation "measure (\<lambda>(p, pa_end, k). 2 ^ 64 - unat p)")
  fix p pa_end :: uint64 and k k'
  assume "kfree p k = Inr k'"
  then have "p < PHYSTOP" by (rule kfree_below)
  then show "((p + 4096, pa_end, k'), p, pa_end, k) \<in> measure (\<lambda>(p, pa_end, k). 2 ^ 64 - unat p)"
    using unat_next_page [of p] by (simp add: word_less_nat_alt hdr)
qed simp

declare freerange_loop.simps [simp del]

definition freerange :: "uint64 \<Rightarrow> uint64 \<Rightarrow> kmem \<Rightarrow> kmem res" where
  "freerange pa_start pa_end k = freerange_loop (PGROUNDUP pa_start) pa_end k"

definition kinit :: "kmem \<Rightarrow> kmem res" where
  "kinit k = freerange (kernel_end k) PHYSTOP k"

section \<open>The free list as a list\<close>

primrec page_chain :: "mem \<Rightarrow> uint64 \<Rightarrow> uint64 list \<Rightarrow> bool" where
  "page_chain m a [] \<longleftrightarrow> a = 0"
| "page_chain m a (q # qs) \<longleftrightarrow> a = q \<and> q \<noteq> 0 \<and> page_chain m (load64 m q) qs"

definition valid_page :: "kmem \<Rightarrow> uint64 \<Rightarrow> bool" where
  "valid_page k p \<longleftrightarrow> aligned p \<and> kernel_end k \<le> p \<and> p < PHYSTOP"

definition wf_kmem :: "kmem \<Rightarrow> uint64 list \<Rightarrow> bool" where
  "wf_kmem k ps \<longleftrightarrow> 0 < kernel_end k \<and> page_chain (phys k) (freelist k) ps \<and> distinct ps \<and>
     (\<forall>p\<in>set ps. valid_page k p)"

lemma in_page_8: "i < 8 \<Longrightarrow> in_page p (p + of_nat i)"
  by (simp add: in_page_def unat_of_nat64)

lemma load64_cong:
  "(\<And>x. in_page p x \<Longrightarrow> m x = m' x) \<Longrightarrow> load64 m p = load64 m' p"
  by (simp add: load64_def in_page_8 cong: load_bytes_cong)

lemma page_chain_cong:
  "(\<And>q x. q \<in> set qs \<Longrightarrow> in_page q x \<Longrightarrow> m x = m' x) \<Longrightarrow>
    page_chain m a qs = page_chain m' a qs"
proof (induction qs arbitrary: a)
  case (Cons q qs)
  have "load64 m q = load64 m' q" using Cons.prems by (intro load64_cong) auto
  then show ?case using Cons by auto
qed simp

text \<open>Changing a page that is not free leaves the free list alone.\<close>

lemma page_chain_other_page:
  assumes "wf_kmem k ps" and "aligned p" and "p \<notin> set ps"
    and "\<And>x. \<not> in_page p x \<Longrightarrow> m x = phys k x"
  shows "page_chain m a ps = page_chain (phys k) a ps"
proof (rule page_chain_cong)
  fix q x
  assume q: "q \<in> set ps" "in_page q x"
  then have "aligned q" using assms(1) by (auto simp: wf_kmem_def valid_page_def)
  then have "\<not> in_page p x" using in_page_unique [OF _ assms(2) q(2)] q(1) assms(3) by auto
  then show "m x = phys k x" by (rule assms(4))
qed

lemma valid_page_nonzero: "0 < kernel_end k \<Longrightarrow> valid_page k p \<Longrightarrow> p \<noteq> 0"
  by (auto simp: valid_page_def word_le_nat_alt word_less_nat_alt)

lemma junk_page: "mem_set m p c PGSIZE = (\<lambda>x. if in_page p x then c else m x)"
  by (simp add: mem_set_eq hdr in_page_def)

lemma store64_other: "\<not> in_page p x \<Longrightarrow> store64 m p w x = m x"
  by (auto simp: store64_def store_bytes_def in_page_def)

section \<open>What the operations do\<close>

lemma kalloc_empty: "wf_kmem k [] \<Longrightarrow> kalloc k = (k, 0)"
  by (simp add: kalloc_def wf_kmem_def)

lemma kalloc_step:
  assumes wf: "wf_kmem k (q # qs)"
  shows "\<exists>k'. kalloc k = (k', q) \<and> wf_kmem k' qs \<and> kernel_end k' = kernel_end k \<and>
    phys k' = (\<lambda>x. if in_page q x then 5 else phys k x)"
proof -
  let ?m = "\<lambda>x. if in_page q x then 5 else phys k x"
  let ?k = "k\<lparr>freelist := load64 (phys k) q, phys := ?m\<rparr>"
  have q: "freelist k = q" "q \<noteq> 0" "q \<notin> set qs" "aligned q"
    using wf by (auto simp: wf_kmem_def valid_page_def)
  have "page_chain (phys k) (load64 (phys k) q) qs" "wf_kmem (k\<lparr>freelist := load64 (phys k) q\<rparr>) qs"
    using wf by (auto simp: wf_kmem_def valid_page_def)
  then have "page_chain ?m (load64 (phys k) q) qs"
    using page_chain_other_page [OF _ q(4) q(3), of "k\<lparr>freelist := load64 (phys k) q\<rparr>" ?m] by simp
  then have "wf_kmem ?k qs" using wf by (auto simp: wf_kmem_def valid_page_def)
  moreover have "kalloc k = (?k, q)" using q by (simp add: kalloc_def Let_def junk_page)
  ultimately show ?thesis by auto
qed

lemma kfree_step:
  assumes wf: "wf_kmem k ps" and p: "valid_page k p" "p \<notin> set ps"
  shows "\<exists>k'. kfree p k = Inr k' \<and> wf_kmem k' (p # ps) \<and> kernel_end k' = kernel_end k \<and>
    (\<forall>x. \<not> in_page p x \<longrightarrow> phys k' x = phys k x)"
proof -
  let ?m = "store64 (mem_set (phys k) p 1 PGSIZE) p (freelist k)"
  let ?k = "k\<lparr>phys := ?m, freelist := p\<rparr>"
  have same: "?m x = phys k x" if "\<not> in_page p x" for x
    using that by (simp add: store64_other junk_page)
  have "page_chain ?m (freelist k) ps"
    using page_chain_other_page [OF wf _ p(2) same] p(1) wf
    by (simp add: wf_kmem_def valid_page_def)
  then have "wf_kmem ?k (p # ps)"
    using wf p valid_page_nonzero [of k p] by (auto simp: wf_kmem_def valid_page_def)
  moreover have "kfree p k = Inr ?k"
    using p(1) by (auto simp: kfree_def Let_def valid_page_def aligned_def)
  ultimately show ?thesis using same by auto
qed

lemma kfree_panics: "\<not> valid_page k p \<longleftrightarrow> kfree p k = Inl (Panic ''kfree'')"
  by (auto simp: kfree_def valid_page_def Let_def aligned_def)

section \<open>The interface of a page allocator\<close>

text \<open>
  What the clients of the allocator rely on: a pool of pages, each of them valid, that \<open>alloc\<close> takes
  from and \<open>free\<close> gives back to, neither touching a byte outside the page concerned.
\<close>

primrec alloc_n :: "('s \<Rightarrow> 's \<times> uint64) \<Rightarrow> nat \<Rightarrow> 's \<Rightarrow> 's \<times> uint64 list" where
  "alloc_n alloc 0 s = (s, [])"
| "alloc_n alloc (Suc n) s =
     (let (s, p) = alloc s; (s, ps) = alloc_n alloc n s in (s, p # ps))"

locale page_allocator =
  fixes alloc :: "'s \<Rightarrow> 's \<times> uint64"
    and free :: "uint64 \<Rightarrow> 's \<Rightarrow> 's res"
    and pool :: "'s \<Rightarrow> uint64 list \<Rightarrow> bool"
    and valid :: "'s \<Rightarrow> uint64 \<Rightarrow> bool"
    and contents :: "'s \<Rightarrow> mem"
  assumes pool_pages: "pool s ps \<Longrightarrow> distinct ps \<and> (\<forall>p\<in>set ps. valid s p \<and> p \<noteq> 0)"
    and alloc_empty: "pool s [] \<Longrightarrow> alloc s = (s, 0)"
    and alloc_page: "pool s (q # qs) \<Longrightarrow> \<exists>s'. alloc s = (s', q) \<and> pool s' qs \<and> valid s' = valid s \<and>
      (\<forall>x. \<not> in_page q x \<longrightarrow> contents s' x = contents s x)"
    and free_page: "pool s ps \<Longrightarrow> valid s p \<Longrightarrow> p \<notin> set ps \<Longrightarrow>
      \<exists>s'. free p s = Inr s' \<and> pool s' (p # ps) \<and> valid s' = valid s \<and>
        (\<forall>x. \<not> in_page p x \<longrightarrow> contents s' x = contents s x)"
begin

lemma alloc_zero_iff:
  assumes "pool s ps"
  shows "snd (alloc s) = 0 \<longleftrightarrow> ps = []"
  using assms alloc_empty alloc_page pool_pages by (cases ps) fastforce+

lemma alloc_then_free:
  assumes "pool s ps" and "alloc s = (s', p)" and "p \<noteq> 0"
  shows "\<exists>s''. free p s' = Inr s'' \<and> pool s'' ps \<and>
    (\<forall>x. \<not> in_page p x \<longrightarrow> contents s'' x = contents s x)"
proof (cases ps)
  case Nil
  then show ?thesis using assms alloc_empty by auto
next
  case (Cons q qs)
  then have a: "p = q" "pool s' qs" "valid s' = valid s"
    "\<forall>x. \<not> in_page p x \<longrightarrow> contents s' x = contents s x"
    using alloc_page [of s q qs] assms(1,2) by auto
  moreover have "valid s q" "q \<notin> set qs" using pool_pages [OF assms(1)] Cons by auto
  ultimately show ?thesis using free_page [of s' qs q] Cons by auto
qed

lemma alloc_n_pool:
  "pool s ps \<Longrightarrow> n \<le> length ps \<Longrightarrow>
    \<exists>s'. alloc_n alloc n s = (s', take n ps) \<and> pool s' (drop n ps) \<and>
      (\<forall>x. (\<forall>q\<in>set (take n ps). \<not> in_page q x) \<longrightarrow> contents s' x = contents s x)"
proof (induction n arbitrary: s ps)
  case 0
  then show ?case by simp
next
  case (Suc n)
  then obtain q qs where ps: "ps = q # qs" by (cases ps) auto
  obtain s1 where s1: "alloc s = (s1, q)" "pool s1 qs"
    "\<forall>x. \<not> in_page q x \<longrightarrow> contents s1 x = contents s x"
    using alloc_page [of s q qs] Suc.prems(1) ps by auto
  then obtain s2 where "alloc_n alloc n s1 = (s2, take n qs)" "pool s2 (drop n qs)"
    "\<forall>x. (\<forall>q\<in>set (take n qs). \<not> in_page q x) \<longrightarrow> contents s2 x = contents s1 x"
    using Suc.IH [of s1 qs] Suc.prems(2) ps by auto
  then show ?case using s1 ps by auto
qed

end

interpretation kpages: page_allocator kalloc kfree wf_kmem valid_page phys
proof
  fix s ps
  assume "wf_kmem s ps"
  then show "distinct ps \<and> (\<forall>p\<in>set ps. valid_page s p \<and> p \<noteq> 0)"
    using valid_page_nonzero by (auto simp: wf_kmem_def)
next
  fix s q qs
  assume "wf_kmem s (q # qs)"
  from kalloc_step [OF this]
  show "\<exists>s'. kalloc s = (s', q) \<and> wf_kmem s' qs \<and> valid_page s' = valid_page s \<and>
      (\<forall>x. \<not> in_page q x \<longrightarrow> phys s' x = phys s x)"
    by (auto simp: valid_page_def fun_eq_iff)
next
  fix s ps p
  assume "wf_kmem s ps" "valid_page s p" "p \<notin> set ps"
  from kfree_step [OF this]
  show "\<exists>s'. kfree p s = Inr s' \<and> wf_kmem s' (p # ps) \<and> valid_page s' = valid_page s \<and>
      (\<forall>x. \<not> in_page p x \<longrightarrow> phys s' x = phys s x)"
    by (auto simp: valid_page_def fun_eq_iff)
qed (rule kalloc_empty)

section \<open>Initialisation\<close>

text \<open>The pages between two addresses, in ascending order.\<close>

definition page_run :: "uint64 \<Rightarrow> nat \<Rightarrow> uint64 list" where
  "page_run p n = map (\<lambda>i. p + of_nat (4096 * i)) [0..<n]"

lemma page_run_Suc: "page_run p (Suc n) = p # page_run (p + 4096) n"
  by (simp add: page_run_def upt_conv_Cons map_Suc_upt [symmetric] algebra_simps comp_def
      del: upt_Suc)

lemma freerange_loop_spec:
  assumes "wf_kmem k ps" and "aligned p" and "kernel_end k \<le> p"
    and "unat p + 4096 * n = unat PHYSTOP" and "\<forall>q\<in>set ps. unat q < unat p"
  shows "\<exists>k'. freerange_loop p PHYSTOP k = Inr k' \<and> wf_kmem k' (rev (page_run p n) @ ps)"
  using assms
proof (induction n arbitrary: p k ps)
  case 0
  then have "p = PHYSTOP" by (simp add: word_unat_eq_iff)
  moreover have "\<not> PHYSTOP + 4096 \<le> PHYSTOP" by (simp add: hdr)
  ultimately show ?case using 0 by (simp add: page_run_def freerange_loop.simps)
next
  case (Suc n)
  have lt: "p < PHYSTOP" using Suc.prems(4) by (simp add: word_less_nat_alt)
  have next_p: "unat (p + 4096) = unat p + 4096" by (rule unat_next_page [OF lt])
  have le: "p + 4096 \<le> PHYSTOP" using next_p Suc.prems(4) by (simp add: word_le_nat_alt)
  obtain k1 where k1: "kfree p k = Inr k1" "wf_kmem k1 (p # ps)" "kernel_end k1 = kernel_end k"
    using kfree_step [OF Suc.prems(1), of p] Suc.prems(2,3,5) lt by (auto simp: valid_page_def)
  have "kernel_end k1 \<le> p + 4096"
    using Suc.prems(3) next_p k1(3) by (simp add: word_le_nat_alt)
  moreover have "\<forall>q\<in>set (p # ps). unat q < unat (p + 4096)"
    using Suc.prems(5) next_p by fastforce
  ultimately obtain k2 where "freerange_loop (p + 4096) PHYSTOP k1 = Inr k2"
    "wf_kmem k2 (rev (page_run (p + 4096) n) @ p # ps)"
    using Suc.IH [OF k1(2) aligned_add_page [OF Suc.prems(2)]] Suc.prems(4) next_p by auto
  then show ?case using le k1(1) by (subst freerange_loop.simps) (simp add: page_run_Suc)
qed

lemma kinit_spec:
  assumes "0 < kernel_end k" and "kernel_end k \<le> PHYSTOP" and "freelist k = 0"
  defines "n \<equiv> (unat PHYSTOP - unat (PGROUNDUP (kernel_end k))) div 4096"
  shows "\<exists>k'. kinit k = Inr k' \<and> wf_kmem k' (rev (page_run (PGROUNDUP (kernel_end k)) n))"
proof -
  let ?p = "PGROUNDUP (kernel_end k)"
  have le: "unat (kernel_end k) \<le> unat PHYSTOP" using assms(2) by (simp add: word_le_nat_alt)
  have P: "unat PHYSTOP = 0x88000 * 4096" by (simp add: hdr)
  have u: "unat ?p = (unat (kernel_end k) + 4095) div 4096 * 4096"
    using le P by (intro pgroundup_unat) simp
  have "kernel_end k \<le> ?p" using u by (simp add: word_le_nat_alt)
  moreover have "unat ?p + 4096 * n = unat PHYSTOP"
  proof -
    have "(unat (kernel_end k) + 4095) div 4096 \<le> 0x88000" using le P by simp
    then show ?thesis unfolding n_def u P by (simp add: diff_mult_distrib [symmetric])
  qed
  moreover have "wf_kmem k []" using assms by (simp add: wf_kmem_def)
  ultimately show ?thesis
    using freerange_loop_spec [of k "[]" ?p n] by (simp add: kinit_def freerange_def)
qed

text \<open>
  The allocator after \<open>kinit\<close>: \<open>m\<close> calls of \<open>kalloc\<close> return \<open>m\<close> different page-aligned addresses
  between the end of the kernel and \<open>PHYSTOP\<close>, for every \<open>m\<close> up to the number of whole pages of that
  range, and only after the last of them does \<open>kalloc\<close> return the null pointer.
\<close>

theorem kalloc_hands_out_every_page_once:
  assumes "0 < kernel_end k" and "kernel_end k \<le> PHYSTOP" and "freelist k = 0"
    and "n = (unat PHYSTOP - unat (PGROUNDUP (kernel_end k))) div 4096" and "m \<le> n"
  shows "\<exists>k1 k2 ps. kinit k = Inr k1 \<and> alloc_n kalloc m k1 = (k2, ps) \<and> length ps = m \<and> distinct ps \<and>
    (\<forall>p\<in>set ps. valid_page k1 p) \<and> (snd (kalloc k2) = 0 \<longleftrightarrow> m = n)"
proof -
  let ?ps = "rev (page_run (PGROUNDUP (kernel_end k)) n)"
  have len: "length ?ps = n" by (simp add: page_run_def)
  obtain k1 where k1: "kinit k = Inr k1" "wf_kmem k1 ?ps"
    using kinit_spec [OF assms(1-3)] assms(4) by auto
  obtain k2 where k2: "alloc_n kalloc m k1 = (k2, take m ?ps)" "wf_kmem k2 (drop m ?ps)"
    using kpages.alloc_n_pool [OF k1(2), of m] assms(5) len by auto
  have "distinct ?ps" "\<forall>p\<in>set ?ps. valid_page k1 p" using kpages.pool_pages [OF k1(2)] by auto
  then have "distinct (take m ?ps)" "\<forall>p\<in>set (take m ?ps). valid_page k1 p"
    by (auto dest: in_set_takeD)
  moreover have "snd (kalloc k2) = 0 \<longleftrightarrow> m = n"
    using kpages.alloc_zero_iff [OF k2(2)] len assms(5) by auto
  ultimately show ?thesis using k1 k2 len assms(5) by (intro exI conjI) auto
qed

theorem kalloc_hands_out_every_page_once_witness:
  "\<exists>k1 k2 ps. kinit \<lparr>kernel_end = 0x87FFDF00, phys = (\<lambda>_. 0), freelist = 0\<rparr> = Inr k1 \<and>
    alloc_n kalloc 2 k1 = (k2, ps) \<and> length ps = 2 \<and> distinct ps \<and>
    (\<forall>p\<in>set ps. valid_page k1 p) \<and> (snd (kalloc k2) = 0 \<longleftrightarrow> (2 :: nat) = 2)"
  by (rule kalloc_hands_out_every_page_once
      [of "\<lparr>kernel_end = 0x87FFDF00, phys = (\<lambda>_. 0), freelist = 0\<rparr>" 2 2])
    (simp_all add: hdr PGROUNDUP_def)

text \<open>
  A page that \<open>kalloc\<close> returned can be given back: \<open>kfree\<close> accepts it, the free list is the one
  before the allocation, and no byte outside the page has changed.
\<close>

theorem kalloc_kfree_inverse:
  assumes "wf_kmem k ps" and "kalloc k = (k', p)" and "p \<noteq> 0"
  shows "\<exists>k''. kfree p k' = Inr k'' \<and> wf_kmem k'' ps \<and>
    (\<forall>x. \<not> in_page p x \<longrightarrow> phys k'' x = phys k x)"
  using assms by (rule kpages.alloc_then_free)

definition sample_kmem :: kmem where
  "sample_kmem = \<lparr>kernel_end = 0x80001000, phys = (\<lambda>_. 0), freelist = 0x80002000\<rparr>"

lemma sample_kmem_wf: "wf_kmem sample_kmem [0x80002000]"
  by (simp add: wf_kmem_def sample_kmem_def valid_page_def aligned_def hdr load64_def load_bytes_def le_word_def
      upt_rec)

theorem kalloc_kfree_inverse_witness:
  "\<exists>k''. kfree 0x80002000 (fst (kalloc sample_kmem)) = Inr k'' \<and> wf_kmem k'' [0x80002000] \<and>
    (\<forall>x. \<not> in_page 0x80002000 x \<longrightarrow> phys k'' x = phys sample_kmem x)"
proof (rule kalloc_kfree_inverse [OF sample_kmem_wf])
  show "kalloc sample_kmem = (fst (kalloc sample_kmem), 0x80002000)"
    by (simp add: kalloc_def sample_kmem_def Let_def)
qed simp

end
