(* ===== verification/Vm.thy ===== *)
theory Vm
  imports Kalloc
begin

text \<open>
  The Sv39 page tables of \<open>kernel/vm.c\<close>: three levels of 512 eight-byte entries that live in the
  physical memory of the allocator model. A page-table pointer is a physical address, an entry is
  read and written with \<open>load64\<close> and \<open>store64\<close>. \<open>myproc()\<close>, which \<open>vmfault\<close> reads, is the argument
  \<open>(psz, ppt)\<close>: the size and the page table of the current process. Kernel buffers passed to the
  copy functions are byte lists, since they are C objects outside the pages handed out by \<open>kalloc\<close>.
\<close>

section \<open>Macros of riscv.h and memlayout.h\<close>

definition PTE_V :: uint64 where [hdr]: "PTE_V = push_bit 0 1"
definition PTE_R :: uint64 where [hdr]: "PTE_R = push_bit 1 1"
definition PTE_W :: uint64 where [hdr]: "PTE_W = push_bit 2 1"
definition PTE_X :: uint64 where [hdr]: "PTE_X = push_bit 3 1"
definition PTE_U :: uint64 where [hdr]: "PTE_U = push_bit 4 1"

definition PA2PTE :: "uint64 \<Rightarrow> uint64" where
  "PA2PTE pa = push_bit 10 (drop_bit 12 pa)"

definition PTE2PA :: "uint64 \<Rightarrow> uint64" where
  "PTE2PA pte = push_bit 12 (drop_bit 10 pte)"

definition PTE_FLAGS :: "uint64 \<Rightarrow> uint64" where
  "PTE_FLAGS pte = pte AND 0x3FF"

definition PX :: "nat \<Rightarrow> uint64 \<Rightarrow> uint64" where
  "PX level va = drop_bit (12 + 9 * level) va AND 0x1FF"

definition MAXVA :: uint64 where [hdr]: "MAXVA = push_bit (9 + 9 + 9 + 12 - 1) 1"
definition TRAMPOLINE :: uint64 where [hdr]: "TRAMPOLINE = MAXVA - 4096"
definition TRAPFRAME :: uint64 where [hdr]: "TRAPFRAME = TRAMPOLINE - 4096"
definition UART0 :: uint64 where [hdr]: "UART0 = 0x10000000"
definition VIRTIO0 :: uint64 where [hdr]: "VIRTIO0 = 0x10001000"
definition PLIC :: uint64 where [hdr]: "PLIC = 0x0c000000"

definition KSTACK :: "nat \<Rightarrow> uint64" where
  "KSTACK p = TRAMPOLINE - (of_nat p + 1) * 2 * 4096"

abbreviation pte_valid :: "uint64 \<Rightarrow> bool" where
  "pte_valid e \<equiv> e AND PTE_V \<noteq> 0"

abbreviation zero_page :: "uint64 \<Rightarrow> kmem \<Rightarrow> kmem" where
  "zero_page p k \<equiv> k\<lparr>phys := mem_set (phys k) p 0 PGSIZE\<rparr>"

definition put_pte :: "uint64 \<Rightarrow> uint64 \<Rightarrow> kmem \<Rightarrow> kmem" where
  "put_pte a e k = k\<lparr>phys := store64 (phys k) a e\<rparr>"

section \<open>Walking and mapping\<close>

text \<open>The loop of \<open>walk\<close> from a given level down; a null result is address 0.\<close>

primrec walk_from :: "nat \<Rightarrow> kmem \<Rightarrow> uint64 \<Rightarrow> uint64 \<Rightarrow> bool \<Rightarrow> kmem \<times> uint64" where
  "walk_from 0 k pagetable va alloc = (k, pagetable + 8 * PX 0 va)"
| "walk_from (Suc l) k pagetable va alloc =
     (let pte = pagetable + 8 * PX (Suc l) va;
          e = load64 (phys k) pte
      in if pte_valid e then walk_from l k (PTE2PA e) va alloc
         else if \<not> alloc then (k, 0)
         else (let (k, pt) = kalloc k
               in if pt = 0 then (k, 0)
                  else walk_from l (put_pte pte (PA2PTE pt OR PTE_V) (zero_page pt k)) pt va alloc))"

definition walk :: "kmem \<Rightarrow> uint64 \<Rightarrow> uint64 \<Rightarrow> bool \<Rightarrow> (kmem \<times> uint64) res" where
  "walk k pagetable va alloc =
     (if va \<ge> MAXVA then Inl (Panic ''walk'') else Inr (walk_from 2 k pagetable va alloc))"

definition walkaddr :: "kmem \<Rightarrow> uint64 \<Rightarrow> uint64 \<Rightarrow> uint64 res" where
  "walkaddr k pagetable va =
     (if va \<ge> MAXVA then Inr 0
      else bindE (walk k pagetable va False) (\<lambda>(k, pte).
        if pte = 0 then Inr 0
        else (let e = load64 (phys k) pte
              in if e AND PTE_V = 0 then Inr 0
                 else if e AND PTE_U = 0 then Inr 0
                 else Inr (PTE2PA e))))"

lemma walk_below: "walk k pt va al = Inr r \<Longrightarrow> va < MAXVA"
  by (auto simp: walk_def split: if_splits)

lemma unat_next_va: "a < MAXVA \<Longrightarrow> unat (a + 4096) = unat a + 4096"
  using unat_offset_no_wrap [of a 4096] by (simp add: word_less_nat_alt hdr)

text \<open>
  Every loop below ends because \<open>walk\<close> panics at \<open>MAXVA\<close>, long before the cursor could wrap around.
\<close>

function mappages_loop :: "kmem \<Rightarrow> uint64 \<Rightarrow> uint64 \<Rightarrow> uint64 \<Rightarrow> uint64 \<Rightarrow> uint64 \<Rightarrow> (kmem \<times> int) res" where
  "mappages_loop k pagetable a last_va pa perm =
     bindE (walk k pagetable a True) (\<lambda>(k, pte).
       if pte = 0 then Inr (k, -1)
       else if pte_valid (load64 (phys k) pte) then Inl (Panic ''mappages: remap'')
       else (let k = put_pte pte (PA2PTE pa OR perm OR PTE_V) k
             in if a = last_va then Inr (k, 0)
                else mappages_loop k pagetable (a + 4096) last_va (pa + 4096) perm))"
  by pat_completeness auto
termination
  by (relation "measure (\<lambda>(k, pt, a, last_va, pa, perm). 2 ^ 64 - unat a)")
    (auto dest!: walk_below simp: unat_next_va word_less_nat_alt hdr)

declare mappages_loop.simps [simp del]

definition mappages :: "kmem \<Rightarrow> uint64 \<Rightarrow> uint64 \<Rightarrow> uint64 \<Rightarrow> uint64 \<Rightarrow> uint64 \<Rightarrow> (kmem \<times> int) res" where
  "mappages k pagetable va sz pa perm =
     (if va mod 4096 \<noteq> 0 then Inl (Panic ''mappages: va not aligned'')
      else if sz mod 4096 \<noteq> 0 then Inl (Panic ''mappages: size not aligned'')
      else if sz = 0 then Inl (Panic ''mappages: size'')
      else mappages_loop k pagetable va (va + sz - 4096) pa perm)"

definition uvmcreate :: "kmem \<Rightarrow> kmem \<times> uint64" where
  "uvmcreate k =
     (let (k, pagetable) = kalloc k
      in if pagetable = 0 then (k, 0) else (zero_page pagetable k, pagetable))"

function uvmunmap_loop :: "uint64 \<Rightarrow> uint64 \<Rightarrow> uint64 \<Rightarrow> bool \<Rightarrow> kmem \<Rightarrow> kmem res" where
  "uvmunmap_loop pagetable a end_va do_free k =
     (if a < end_va
      then bindE (walk k pagetable a False) (\<lambda>(k, pte).
        if pte = 0 then uvmunmap_loop pagetable (a + 4096) end_va do_free k
        else if load64 (phys k) pte AND PTE_V = 0 then uvmunmap_loop pagetable (a + 4096) end_va do_free k
        else bindE (if do_free then kfree (PTE2PA (load64 (phys k) pte)) k else Inr k) (\<lambda>k.
          uvmunmap_loop pagetable (a + 4096) end_va do_free (put_pte pte 0 k)))
      else Inr k)"
  by pat_completeness auto
termination
  by (relation "measure (\<lambda>(pt, a, end_va, do_free, k). 2 ^ 64 - unat a)")
    (auto dest!: walk_below simp: unat_next_va word_less_nat_alt hdr)

declare uvmunmap_loop.simps [simp del]

definition uvmunmap :: "kmem \<Rightarrow> uint64 \<Rightarrow> uint64 \<Rightarrow> uint64 \<Rightarrow> bool \<Rightarrow> kmem res" where
  "uvmunmap k pagetable va npages do_free =
     (if va mod 4096 \<noteq> 0 then Inl (Panic ''uvmunmap: not aligned'')
      else uvmunmap_loop pagetable va (va + npages * 4096) do_free k)"

text \<open>\<open>npages\<close> is an \<open>int\<close>: the page count is truncated to 32 bits and sign-extended by the call.\<close>

definition uvmdealloc :: "kmem \<Rightarrow> uint64 \<Rightarrow> uint64 \<Rightarrow> uint64 \<Rightarrow> (kmem \<times> uint64) res" where
  "uvmdealloc k pagetable oldsz newsz =
     (if newsz \<ge> oldsz then Inr (k, oldsz)
      else if PGROUNDUP newsz < PGROUNDUP oldsz
      then (let npages = (scast (ucast ((PGROUNDUP oldsz - PGROUNDUP newsz) div 4096) :: 32 word) :: uint64)
            in bindE (uvmunmap k pagetable (PGROUNDUP newsz) npages True) (\<lambda>k. Inr (k, newsz)))
      else Inr (k, newsz))"

lemma mappages_loop_below: "mappages_loop k pt a last_va pa perm = Inr r \<Longrightarrow> a < MAXVA"
  by (subst (asm) mappages_loop.simps) (auto dest!: walk_below)

lemma mappages_below: "mappages k pt a sz pa perm = Inr r \<Longrightarrow> a < MAXVA"
  by (auto simp: mappages_def dest!: mappages_loop_below split: if_splits)

function uvmalloc_loop :: "kmem \<Rightarrow> uint64 \<Rightarrow> uint64 \<Rightarrow> uint64 \<Rightarrow> uint64 \<Rightarrow> uint64 \<Rightarrow> (kmem \<times> uint64) res" where
  "uvmalloc_loop k pagetable a oldsz newsz xperm =
     (if a < newsz
      then (let (k, mem) = kalloc k
            in if mem = 0
               then bindE (uvmdealloc k pagetable a oldsz) (\<lambda>(k, _). Inr (k, 0))
               else bindE (mappages (zero_page mem k) pagetable a 4096 mem (PTE_R OR PTE_U OR xperm))
                 (\<lambda>(k, r). if r \<noteq> 0
                    then bindE (kfree mem k) (\<lambda>k.
                         bindE (uvmdealloc k pagetable a oldsz) (\<lambda>(k, _). Inr (k, 0)))
                    else uvmalloc_loop k pagetable (a + 4096) oldsz newsz xperm))
      else Inr (k, newsz))"
  by pat_completeness auto
termination
  by (relation "measure (\<lambda>(k, pt, a, oldsz, newsz, xperm). 2 ^ 64 - unat a)")
    (auto dest!: mappages_below simp: unat_next_va word_less_nat_alt hdr)

definition uvmalloc :: "kmem \<Rightarrow> uint64 \<Rightarrow> uint64 \<Rightarrow> uint64 \<Rightarrow> uint64 \<Rightarrow> (kmem \<times> uint64) res" where
  "uvmalloc k pagetable oldsz newsz xperm =
     (if newsz < oldsz then Inr (k, oldsz)
      else (let oldsz = PGROUNDUP oldsz in uvmalloc_loop k pagetable oldsz oldsz newsz xperm))"

declare uvmalloc_loop.simps [simp del]

text \<open>
  The recursion of \<open>freewalk\<close> follows pointers in memory; its depth is bounded by the argument \<open>d\<close>. A
  page table has three levels, and the call of \<open>uvmfree\<close> allows one more.
\<close>

primrec freewalk_entries :: "(uint64 \<Rightarrow> kmem \<Rightarrow> kmem res) \<Rightarrow> uint64 \<Rightarrow> nat list \<Rightarrow> kmem \<Rightarrow> kmem res" where
  "freewalk_entries rec pagetable [] k = Inr k"
| "freewalk_entries rec pagetable (i # is) k =
     (let a = pagetable + 8 * of_nat i;
          pte = load64 (phys k) a
      in if pte_valid pte \<and> pte AND (PTE_R OR PTE_W OR PTE_X) = 0
         then bindE (rec (PTE2PA pte) k) (\<lambda>k. freewalk_entries rec pagetable is (put_pte a 0 k))
         else if pte_valid pte then Inl (Panic ''freewalk: leaf'')
         else freewalk_entries rec pagetable is k)"

primrec freewalk :: "nat \<Rightarrow> uint64 \<Rightarrow> kmem \<Rightarrow> kmem res" where
  "freewalk 0 pagetable k = Inl Diverges"
| "freewalk (Suc d) pagetable k =
     bindE (freewalk_entries (freewalk d) pagetable [0..<512] k) (kfree pagetable)"

definition uvmfree :: "kmem \<Rightarrow> uint64 \<Rightarrow> uint64 \<Rightarrow> kmem res" where
  "uvmfree k pagetable sz =
     bindE (if sz > 0 then uvmunmap k pagetable 0 (PGROUNDUP sz div 4096) True else Inr k)
       (freewalk 4 pagetable)"

function uvmcopy_loop :: "kmem \<Rightarrow> uint64 \<Rightarrow> uint64 \<Rightarrow> uint64 \<Rightarrow> uint64 \<Rightarrow> (kmem \<times> int) res" where
  "uvmcopy_loop k old new i sz =
     (if i < sz
      then bindE (walk k old i False) (\<lambda>(k, pte).
        if pte = 0 then uvmcopy_loop k old new (i + 4096) sz
        else if load64 (phys k) pte AND PTE_V = 0 then uvmcopy_loop k old new (i + 4096) sz
        else (let pa = PTE2PA (load64 (phys k) pte);
                  flags = PTE_FLAGS (load64 (phys k) pte);
                  (k, mem) = kalloc k
              in if mem = 0
                 then bindE (uvmunmap k new 0 (i div 4096) True) (\<lambda>k. Inr (k, -1))
                 else bindE (mappages (k\<lparr>phys := memmove (phys k) mem pa PGSIZE\<rparr>) new i 4096 mem flags)
                   (\<lambda>(k, r). if r \<noteq> 0
                      then bindE (kfree mem k) (\<lambda>k.
                           bindE (uvmunmap k new 0 (i div 4096) True) (\<lambda>k. Inr (k, -1)))
                      else uvmcopy_loop k old new (i + 4096) sz)))
      else Inr (k, 0))"
  by pat_completeness auto
termination
  by (relation "measure (\<lambda>(k, old, new, i, sz). 2 ^ 64 - unat i)")
    (auto dest!: walk_below simp: unat_next_va word_less_nat_alt hdr)

declare uvmcopy_loop.simps [simp del]

definition uvmcopy :: "kmem \<Rightarrow> uint64 \<Rightarrow> uint64 \<Rightarrow> uint64 \<Rightarrow> (kmem \<times> int) res" where
  "uvmcopy k old new sz = uvmcopy_loop k old new 0 sz"

definition uvmclear :: "kmem \<Rightarrow> uint64 \<Rightarrow> uint64 \<Rightarrow> kmem res" where
  "uvmclear k pagetable va =
     bindE (walk k pagetable va False) (\<lambda>(k, pte).
       if pte = 0 then Inl (Panic ''uvmclear'')
       else Inr (put_pte pte (load64 (phys k) pte AND NOT PTE_U) k))"

section \<open>Faults and copying\<close>

definition ismapped :: "kmem \<Rightarrow> uint64 \<Rightarrow> uint64 \<Rightarrow> bool res" where
  "ismapped k pagetable va =
     bindE (walk k pagetable va False) (\<lambda>(k, pte).
       if pte = 0 then Inr False
       else if pte_valid (load64 (phys k) pte) then Inr True
       else Inr False)"

type_synonym myproc = "uint64 \<times> uint64"

definition vmfault :: "myproc \<Rightarrow> kmem \<Rightarrow> uint64 \<Rightarrow> uint64 \<Rightarrow> (kmem \<times> uint64) res" where
  "vmfault p k pagetable va =
     (if va \<ge> fst p then Inr (k, 0)
      else (let va = PGROUNDDOWN va
            in bindE (ismapped k pagetable va) (\<lambda>mapped.
              if mapped then Inr (k, 0)
              else (let (k, mem) = kalloc k
                    in if mem = 0 then Inr (k, 0)
                       else bindE (mappages (zero_page mem k) (snd p) va 4096 mem (PTE_W OR PTE_U OR PTE_R))
                         (\<lambda>(k, r). if r \<noteq> 0 then bindE (kfree mem k) (\<lambda>k. Inr (k, 0))
                                   else Inr (k, mem))))))"

text \<open>The address of a page for the copy functions: mapped already, or mapped now.\<close>

definition page_for :: "myproc \<Rightarrow> kmem \<Rightarrow> uint64 \<Rightarrow> uint64 \<Rightarrow> (kmem \<times> uint64) res" where
  "page_for p k pagetable va0 =
     bindE (walkaddr k pagetable va0) (\<lambda>pa0.
       if pa0 = 0 then vmfault p k pagetable va0 else Inr (k, pa0))"

definition page_rest :: "uint64 \<Rightarrow> nat \<Rightarrow> nat" where
  "page_rest va len =
     (let n = unat (4096 - (va - PGROUNDDOWN va)) in if n > len then len else n)"

lemma page_offset: "unat (va - PGROUNDDOWN va) = unat va mod 4096"
proof -
  have "unat (va - PGROUNDDOWN va) = unat va - unat (PGROUNDDOWN va)"
    by (rule unat_sub) (simp add: word_le_nat_alt pgrounddown_unat)
  also have "\<dots> = unat va mod 4096" by (simp only: pgrounddown_unat minus_div_mult_eq_mod)
  finally show ?thesis .
qed

lemma page_rest_eq: "page_rest va len = min len (4096 - unat va mod 4096)"
proof -
  have "unat va mod 4096 \<le> 4096" by (simp add: less_imp_le)
  then have "unat (4096 - (va - PGROUNDDOWN va)) = 4096 - unat va mod 4096"
    using unat_sub [of "va - PGROUNDDOWN va" 4096]
    by (simp only: page_offset word_le_nat_alt) simp
  then show ?thesis by (simp add: page_rest_def Let_def)
qed

lemma page_rest_pos: "0 < len \<Longrightarrow> 0 < page_rest va len"
  by (simp add: page_rest_eq)

lemma page_rest_le: "page_rest va len \<le> len"
  by (simp add: page_rest_eq)

text \<open>
  \<open>copyout\<close> reads its source as the list of the \<open>len\<close> bytes at \<open>src\<close>. A null entry pointer from \<open>walk\<close>
  is dereferenced by the source without a test.
\<close>

function copyout :: "myproc \<Rightarrow> kmem \<Rightarrow> uint64 \<Rightarrow> uint64 \<Rightarrow> bytes \<Rightarrow> (kmem \<times> int) res" where
  "copyout p k pagetable dstva src =
     (if src = [] then Inr (k, 0)
      else (let va0 = PGROUNDDOWN dstva
            in if va0 \<ge> MAXVA then Inr (k, -1)
               else bindE (page_for p k pagetable va0) (\<lambda>(k, pa0).
                 if pa0 = 0 then Inr (k, -1)
                 else bindE (walk k pagetable va0 False) (\<lambda>(k, pte).
                   if pte = 0 then Inl OutOfBounds
                   else if load64 (phys k) pte AND PTE_W = 0 then Inr (k, -1)
                   else (let n = page_rest dstva (length src);
                             k = k\<lparr>phys := store_bytes (phys k) (pa0 + (dstva - va0)) (take n src)\<rparr>
                         in copyout p k pagetable (va0 + 4096) (drop n src))))))"
  by pat_completeness auto
termination
  by (relation "measure (\<lambda>(p, k, pt, dstva, src). length src)") (auto simp: page_rest_pos)

declare copyout.simps [simp del]

text \<open>\<open>copyin\<close> returns the bytes written to \<open>dst\<close> beside its result.\<close>

function copyin :: "myproc \<Rightarrow> kmem \<Rightarrow> uint64 \<Rightarrow> uint64 \<Rightarrow> nat \<Rightarrow> (kmem \<times> int \<times> bytes) res" where
  "copyin p k pagetable srcva len =
     (if len = 0 then Inr (k, 0, [])
      else (let va0 = PGROUNDDOWN srcva
            in bindE (page_for p k pagetable va0) (\<lambda>(k, pa0).
              if pa0 = 0 then Inr (k, -1, [])
              else (let n = page_rest srcva len;
                        bs = load_bytes (phys k) (pa0 + (srcva - va0)) n
                    in bindE (copyin p k pagetable (va0 + 4096) (len - n)) (\<lambda>(k, r, rest).
                         Inr (k, r, bs @ rest))))))"
  by pat_completeness auto
termination
  by (relation "measure (\<lambda>(p, k, pt, srcva, len). len)") (auto simp: page_rest_pos)

declare copyin.simps [simp del]

primrec copy_until_nul :: "mem \<Rightarrow> uint64 \<Rightarrow> nat \<Rightarrow> bytes \<times> bool" where
  "copy_until_nul m p 0 = ([], False)"
| "copy_until_nul m p (Suc n) =
     (if m p = 0 then ([0], True)
      else (let (bs, got_null) = copy_until_nul m (p + 1) n in (m p # bs, got_null)))"

function copyinstr :: "kmem \<Rightarrow> uint64 \<Rightarrow> uint64 \<Rightarrow> nat \<Rightarrow> (int \<times> bytes) res" where
  "copyinstr k pagetable srcva max_len =
     (if max_len = 0 then Inr (-1, [])
      else (let va0 = PGROUNDDOWN srcva
            in bindE (walkaddr k pagetable va0) (\<lambda>pa0.
              if pa0 = 0 then Inr (-1, [])
              else (let n = page_rest srcva max_len;
                        (bs, got_null) = copy_until_nul (phys k) (pa0 + (srcva - va0)) n
                    in if got_null then Inr (0, bs)
                       else bindE (copyinstr k pagetable (va0 + 4096) (max_len - n)) (\<lambda>(r, rest).
                              Inr (r, bs @ rest))))))"
  by pat_completeness auto
termination
  by (relation "measure (\<lambda>(k, pt, srcva, max_len). max_len)") (auto simp: page_rest_pos)

declare copyinstr.simps [simp del]

section \<open>The kernel's own page table\<close>

definition kvmmap :: "uint64 \<Rightarrow> uint64 \<Rightarrow> uint64 \<Rightarrow> uint64 \<Rightarrow> uint64 \<Rightarrow> kmem \<Rightarrow> kmem res" where
  "kvmmap kpgtbl va pa sz perm k =
     bindE (mappages k kpgtbl va sz pa perm) (\<lambda>(k, r).
       if r \<noteq> 0 then Inl (Panic ''kvmmap'') else Inr k)"

text \<open>
  \<open>proc_mapstacks\<close> of \<open>proc.c\<close>: a page for the kernel stack of each of the \<open>NPROC\<close> processes.
\<close>

primrec proc_mapstacks_loop :: "uint64 \<Rightarrow> nat list \<Rightarrow> kmem \<Rightarrow> kmem res" where
  "proc_mapstacks_loop kpgtbl [] k = Inr k"
| "proc_mapstacks_loop kpgtbl (i # is) k =
     (let (k, pa) = kalloc k
      in if pa = 0 then Inl (Panic ''kalloc'')
         else bindE (kvmmap kpgtbl (KSTACK i) pa 4096 (PTE_R OR PTE_W) k) (proc_mapstacks_loop kpgtbl is))"

definition proc_mapstacks :: "nat \<Rightarrow> uint64 \<Rightarrow> kmem \<Rightarrow> kmem res" where
  "proc_mapstacks nproc kpgtbl k = proc_mapstacks_loop kpgtbl [0..<nproc] k"

text \<open>
  \<open>etext\<close> and \<open>trampoline\<close> are linker symbols. \<open>kvmmake\<close> does not test the result of its \<open>kalloc\<close>; with
  no free page it would clear the page at address 0.
\<close>

definition kvmmake :: "nat \<Rightarrow> uint64 \<Rightarrow> uint64 \<Rightarrow> kmem \<Rightarrow> (kmem \<times> uint64) res" where
  "kvmmake nproc etext trampoline k =
     (let (k, kpgtbl) = kalloc k; k = zero_page kpgtbl k
      in bindE (kvmmap kpgtbl UART0 UART0 4096 (PTE_R OR PTE_W) k) (\<lambda>k.
         bindE (kvmmap kpgtbl VIRTIO0 VIRTIO0 4096 (PTE_R OR PTE_W) k) (\<lambda>k.
         bindE (kvmmap kpgtbl PLIC PLIC 0x4000000 (PTE_R OR PTE_W) k) (\<lambda>k.
         bindE (kvmmap kpgtbl KERNBASE KERNBASE (etext - KERNBASE) (PTE_R OR PTE_X) k) (\<lambda>k.
         bindE (kvmmap kpgtbl etext etext (PHYSTOP - etext) (PTE_R OR PTE_W) k) (\<lambda>k.
         bindE (kvmmap kpgtbl TRAMPOLINE trampoline 4096 (PTE_R OR PTE_X) k) (\<lambda>k.
         bindE (proc_mapstacks nproc kpgtbl k) (\<lambda>k. Inr (k, kpgtbl)))))))))"

end
