(* ===== verification/VmSpec.thy ===== *)
theory VmSpec
  imports Vm
begin

text \<open>
  The page tables of \<open>vm.c\<close> as a function from virtual pages to entries: the shape that a
  page-table tree in memory has, the entry that the hardware would find for an address, and the
  proof that \<open>walk\<close> and \<open>mappages\<close> update that function and nothing else.
\<close>

section \<open>Entries\<close>

lemma aligned_bits: "aligned a \<Longrightarrow> n < 12 \<Longrightarrow> \<not> bit a n"
proof -
  assume "aligned a" "n < 12"
  then have "take_bit 12 a = 0" by (simp add: take_bit_eq_mod aligned_def)
  then have "\<not> bit (take_bit 12 a) n" by simp
  then show ?thesis using \<open>n < 12\<close> by (simp add: bit_take_bit_iff)
qed

lemma low_bits: "(w :: uint64) < 2 ^ k \<Longrightarrow> k < 64 \<Longrightarrow> bit w n \<Longrightarrow> n < k"
proof (rule ccontr)
  assume "w < 2 ^ k" "k < 64" "bit w n" "\<not> n < k"
  have "unat (of_nat (2 ^ k) :: uint64) = 2 ^ k"
    using \<open>k < 64\<close> by (intro unat_of_nat64 power_strict_increasing) auto
  then have "unat w < 2 ^ k" using \<open>w < 2 ^ k\<close> by (simp add: word_less_nat_alt)
  also have "\<dots> \<le> 2 ^ n" using \<open>\<not> n < k\<close> by (intro power_increasing) auto
  finally have "unat w < 2 ^ n" .
  moreover have "bit (unat w) n" using \<open>bit w n\<close> by (simp add: bit_unsigned_iff)
  ultimately show False by (simp add: bit_iff_odd)
qed

lemma mask10: "0x3FF = (mask 10 :: uint64)" and mask9: "0x1FF = (mask 9 :: uint64)"
  by (simp_all add: mask_eq_exp_minus_1)

lemma PTE2PA_PA2PTE:
  assumes "aligned pa" and "pa < 2 ^ 56" and "perm < 2 ^ 10"
  shows "PTE2PA (PA2PTE pa OR perm OR PTE_V) = pa"
proof (rule bit_word_eqI)
  fix n
  assume "n < LENGTH(64)"
  show "bit (PTE2PA (PA2PTE pa OR perm OR PTE_V)) n = bit pa n"
    using aligned_bits [OF assms(1), of n] low_bits [OF assms(2), of n]
      low_bits [OF assms(3), of "n - 2"] \<open>n < LENGTH(64)\<close>
    by (cases "n < 12") (auto simp: PTE2PA_def PA2PTE_def hdr bit_simps not_less bit_1_iff)
qed

lemma PTE_FLAGS_PA2PTE:
  assumes "perm < 2 ^ 10"
  shows "PTE_FLAGS (PA2PTE pa OR perm OR PTE_V) = perm OR PTE_V"
proof (rule bit_word_eqI)
  fix n
  assume "n < LENGTH(64)"
  then show "bit (PTE_FLAGS (PA2PTE pa OR perm OR PTE_V)) n = bit (perm OR PTE_V) n"
    using low_bits [OF assms, of n]
    by (auto simp: PTE_FLAGS_def PA2PTE_def mask10 hdr bit_simps not_less bit_1_iff)
qed

lemma pte_valid_or: "pte_valid (x OR PTE_V)"
proof -
  have "bit ((x OR PTE_V) AND PTE_V) 0" by (simp add: bit_simps hdr)
  then show ?thesis by (metis bit_0_eq bot_apply bot_bool_def)
qed

section \<open>Indices\<close>

definition px :: "nat \<Rightarrow> uint64 \<Rightarrow> nat" where
  "px l va = unat (PX l va)"

lemma px_less: "px l va < 512"
proof -
  have "PX l va = take_bit 9 (drop_bit (12 + 9 * l) va)"
    by (simp add: PX_def mask9 take_bit_eq_mask)
  then have "px l va = take_bit 9 (unat (drop_bit (12 + 9 * l) va))"
    by (simp add: px_def unsigned_take_bit_eq)
  then show ?thesis using take_bit_nat_less_exp [of 9] by simp
qed

lemma PX_bit: "bit (PX l va) i \<longleftrightarrow> i < 9 \<and> bit va (12 + 9 * l + i)"
  by (auto simp: PX_def mask9 bit_simps dest: bit_imp_le_length)

text \<open>The three indices determine the page of an address below \<open>MAXVA\<close>.\<close>

lemma px_inj:
  assumes "va < MAXVA" and "va' < MAXVA" and "aligned va" and "aligned va'"
    and "\<And>l. l < 3 \<Longrightarrow> px l va = px l va'"
  shows "va = va'"
proof (rule bit_eqI)
  fix n :: nat
  have M: "MAXVA = 2 ^ 38" by (simp add: hdr)
  consider "n < 12" | "12 \<le> n" "n < 39" | "39 \<le> n" by linarith
  then show "bit va n = bit va' n"
  proof cases
    case 1
    then show ?thesis using aligned_bits [OF assms(3)] aligned_bits [OF assms(4)] by blast
  next
    case 2
    define l i where "l = (n - 12) div 9" and "i = (n - 12) mod 9"
    have n: "n = 12 + 9 * l + i" "i < 9" "l < 3" using 2 by (auto simp: l_def i_def)
    have "PX l va = PX l va'" using assms(5) [OF n(3)] by (simp add: px_def word_unat_eq_iff)
    then show ?thesis using PX_bit [of l va i] PX_bit [of l va' i] n by simp
  next
    case 3
    then show ?thesis using low_bits [of va 38 n] low_bits [of va' 38 n] assms(1,2) M by auto
  qed
qed

section \<open>The bytes of an entry\<close>

definition slot :: "uint64 \<Rightarrow> nat \<Rightarrow> uint64" where
  "slot pt i = pt + of_nat (8 * i)"

definition entry :: "mem \<Rightarrow> uint64 \<Rightarrow> nat \<Rightarrow> uint64" where
  "entry m pt i = load64 m (slot pt i)"

lemma slot_px: "pt + 8 * PX l va = slot pt (px l va)"
  by (simp add: slot_def px_def)

lemma slot_in_page: "i < 512 \<Longrightarrow> j < 8 \<Longrightarrow> in_page pt (slot pt i + of_nat j)"
proof -
  assume "i < 512" "j < 8"
  then have "unat (pt + of_nat (8 * i + j) - pt) = 8 * i + j" by (intro offset_unat) simp
  then show ?thesis using \<open>i < 512\<close> \<open>j < 8\<close> by (simp add: in_page_def slot_def add.assoc)
qed

lemma entry_cong:
  "i < 512 \<Longrightarrow> (\<And>x. in_page pt x \<Longrightarrow> m x = m' x) \<Longrightarrow> entry m pt i = entry m' pt i"
  by (simp add: entry_def load64_def slot_in_page cong: load_bytes_cong)

lemma slot_offset:
  assumes "i < 512" and "j < 512" and "b < 8" and "i \<noteq> j"
  shows "\<not> unat (slot pt j + of_nat b - slot pt i) < 8"
proof (cases "i < j")
  case True
  have "slot pt j + of_nat b - slot pt i = of_nat (8 * (j - i) + b)"
    using True by (simp add: slot_def of_nat_diff algebra_simps)
  then have "unat (slot pt j + of_nat b - slot pt i) = 8 * (j - i) + b"
    using assms by (simp only: unat_of_nat64) (rule unat_of_nat64, simp)
  then show ?thesis using True by simp
next
  case False
  have ij: "1 \<le> i - j" "i - j < 512" using False assms by auto
  define d :: uint64 where "d = of_nat (8 * (i - j) - b)"
  have "slot pt j + of_nat b - slot pt i = 0 - d"
    using False assms by (simp add: d_def slot_def of_nat_diff algebra_simps)
  moreover have "unat d = 8 * (i - j) - b"
    unfolding d_def using assms by (intro unat_of_nat64) simp
  ultimately show ?thesis
    using ij assms(3) unat_sub_if_size [of 0 d] by (simp add: word_size)
qed

lemma entry_store:
  assumes "i < 512" and "j < 512"
  shows "entry (store64 m (slot pt i) e) pt j = (if j = i then e else entry m pt j)"
proof (cases "j = i")
  case True
  then show ?thesis by (simp add: entry_def)
next
  case False
  then show ?thesis
    using slot_offset [OF assms]
    by (auto simp: entry_def load64_def store64_def store_bytes_def intro!: arg_cong [where f = le_word]
        load_bytes_cong)
qed

lemma store64_outside: "i < 512 \<Longrightarrow> \<not> in_page pt x \<Longrightarrow> store64 m (slot pt i) e x = m x"
  using slot_in_page [of i _ pt]
  by (auto simp: store64_def store_bytes_def) (metis offset_ex)

section \<open>Page-table trees\<close>

abbreviation child :: "mem \<Rightarrow> uint64 \<Rightarrow> nat \<Rightarrow> uint64" where
  "child m pt i \<equiv> PTE2PA (entry m pt i)"

text \<open>The pages that the tree of a table occupies.\<close>

primrec tabs :: "nat \<Rightarrow> mem \<Rightarrow> uint64 \<Rightarrow> uint64 set" where
  "tabs 0 m pt = {pt}"
| "tabs (Suc l) m pt =
     insert pt (\<Union>i\<in>{i. i < 512 \<and> pte_valid (entry m pt i)}. tabs l m (child m pt i))"

text \<open>A tree is well formed when its tables are aligned and no page is used twice.\<close>

primrec pt_ok :: "nat \<Rightarrow> mem \<Rightarrow> uint64 \<Rightarrow> bool" where
  "pt_ok 0 m pt \<longleftrightarrow> aligned pt"
| "pt_ok (Suc l) m pt \<longleftrightarrow> aligned pt \<and>
     (\<forall>i<512. pte_valid (entry m pt i) \<longrightarrow>
        pt_ok l m (child m pt i) \<and> pt \<notin> tabs l m (child m pt i)) \<and>
     (\<forall>i<512. \<forall>j<512. i \<noteq> j \<longrightarrow> pte_valid (entry m pt i) \<longrightarrow> pte_valid (entry m pt j) \<longrightarrow>
        tabs l m (child m pt i) \<inter> tabs l m (child m pt j) = {})"

text \<open>The last-level entry for an address, and 0 where a table on the way is missing.\<close>

primrec leaf :: "nat \<Rightarrow> mem \<Rightarrow> uint64 \<Rightarrow> uint64 \<Rightarrow> uint64" where
  "leaf 0 m pt va = entry m pt (px 0 va)"
| "leaf (Suc l) m pt va =
     (let e = entry m pt (px (Suc l) va) in if pte_valid e then leaf l m (PTE2PA e) va else 0)"

lemma tabs_root [simp]: "pt \<in> tabs l m pt"
  by (cases l) auto

lemma tabs_aligned: "pt_ok l m pt \<Longrightarrow> q \<in> tabs l m pt \<Longrightarrow> aligned q"
  by (induction l arbitrary: pt) auto

lemma tabs_child:
  "i < 512 \<Longrightarrow> pte_valid (entry m pt i) \<Longrightarrow> tabs l m (child m pt i) \<subseteq> tabs (Suc l) m pt"
  by auto

lemma tree_cong:
  "(\<And>q x. q \<in> tabs l m pt \<Longrightarrow> in_page q x \<Longrightarrow> m' x = m x) \<Longrightarrow>
    tabs l m' pt = tabs l m pt \<and> pt_ok l m' pt = pt_ok l m pt \<and> leaf l m' pt = leaf l m pt"
proof (induction l arbitrary: pt)
  case 0
  have "entry m' pt i = entry m pt i" if "i < 512" for i
    using 0 by (intro entry_cong that) auto
  then show ?case using px_less by auto
next
  case (Suc l)
  have e: "entry m' pt i = entry m pt i" if "i < 512" for i
    using Suc.prems by (intro entry_cong that) auto
  have c: "tabs l m' (child m pt i) = tabs l m (child m pt i) \<and>
      pt_ok l m' (child m pt i) = pt_ok l m (child m pt i) \<and>
      leaf l m' (child m pt i) = leaf l m (child m pt i)"
    if "i < 512" "pte_valid (entry m pt i)" for i
    using tabs_child [OF that] by (intro Suc.IH Suc.prems) auto
  have "tabs (Suc l) m' pt = tabs (Suc l) m pt" using e c by auto
  moreover have "pt_ok (Suc l) m' pt = pt_ok (Suc l) m pt" using e c by (auto cong: conj_cong)
  moreover have "leaf (Suc l) m' pt va = leaf (Suc l) m pt va" for va
    using e c px_less [of "Suc l" va] by (simp add: Let_def)
  ultimately show ?case by auto
qed

lemma zero_table:
  assumes "aligned p" and "\<And>x. in_page p x \<Longrightarrow> m x = 0"
  shows "tabs l m p = {p} \<and> pt_ok l m p \<and> leaf l m p va = 0"
proof -
  have z: "entry m p i = 0" if "i < 512" for i
  proof -
    have "load_bytes m (slot p i) 8 = replicate 8 0"
      using slot_in_page [OF that] assms(2) by (intro nth_equalityI) auto
    then show ?thesis by (simp add: entry_def load64_def numeral_eq_Suc)
  qed
  then show ?thesis using assms(1) px_less by (cases l) auto
qed

text \<open>
  A change confined to the tree below one entry, and to pages outside the tree, is a change of the
  whole tree there and nowhere else.
\<close>

lemma lift_tree:
  assumes ok: "pt_ok (Suc l) m pt" and i: "i < 512" "pte_valid (entry m pt i)"
    and N: "\<And>q. q \<in> N \<Longrightarrow> aligned q" "N \<inter> tabs (Suc l) m pt = {}"
    and same: "\<And>x. (\<forall>q\<in>tabs l m (child m pt i) \<union> N. \<not> in_page q x) \<Longrightarrow> m' x = m x"
    and c: "pt_ok l m' (child m pt i)" "tabs l m' (child m pt i) = tabs l m (child m pt i) \<union> N"
  shows "pt_ok (Suc l) m' pt \<and> tabs (Suc l) m' pt = tabs (Suc l) m pt \<union> N \<and>
    (\<forall>j<512. entry m' pt j = entry m pt j) \<and>
    (\<forall>va. leaf (Suc l) m' pt va =
      (if px (Suc l) va = i then leaf l m' (child m pt i) va else leaf (Suc l) m pt va))"
proof -
  let ?c = "\<lambda>j. child m pt j"
  have al: "aligned q" if "q \<in> tabs (Suc l) m pt \<union> N" for q
    using tabs_aligned [OF ok, of q] N(1) that by blast
  have keep: "m' x = m x"
    if "q \<in> tabs (Suc l) m pt" "q \<notin> tabs l m (?c i)" "in_page q x" for q x
  proof (rule same, intro ballI notI)
    fix r
    assume r: "r \<in> tabs l m (?c i) \<union> N" "in_page r x"
    then have "r = q" using in_page_unique [of r q x] al tabs_child [OF i] that by blast
    then show False using r that N(2) by auto
  qed
  have pt: "pt \<notin> tabs l m (?c i)" using ok i by auto
  have e: "entry m' pt j = entry m pt j" if "j < 512" for j
    using keep [of pt] pt by (intro entry_cong that) auto
  have other: "tabs l m' (?c j) = tabs l m (?c j) \<and> pt_ok l m' (?c j) = pt_ok l m (?c j) \<and>
      leaf l m' (?c j) = leaf l m (?c j)"
    if j: "j < 512" "pte_valid (entry m pt j)" "j \<noteq> i" for j
  proof (rule tree_cong)
    fix q x
    assume q: "q \<in> tabs l m (?c j)" "in_page q x"
    then have "q \<in> tabs (Suc l) m pt" using tabs_child [OF j(1,2)] by blast
    moreover have "q \<notin> tabs l m (?c i)" using ok i j q by auto
    ultimately show "m' x = m x" using keep q(2) by blast
  qed
  have t: "tabs l m' (?c j) = tabs l m (?c j) \<union> (if j = i then N else {})"
    if "j < 512" "pte_valid (entry m pt j)" for j
    using other [OF that] c(2) by auto
  have "tabs (Suc l) m' pt = tabs (Suc l) m pt \<union> N"
  proof -
    have "tabs (Suc l) m' pt = insert pt (\<Union>j\<in>{j. j < 512 \<and> pte_valid (entry m pt j)}.
        tabs l m (?c j) \<union> (if j = i then N else {}))"
      using e t by auto
    then show ?thesis using i by (auto split: if_splits)
  qed
  moreover have "pt_ok (Suc l) m' pt"
  proof -
    have "pt_ok l m' (?c j) \<and> pt \<notin> tabs l m' (?c j)" if "j < 512" "pte_valid (entry m pt j)" for j
      using other [OF that] ok that c(1) t [OF that] N(2) by (cases "j = i") auto
    moreover have "tabs l m' (?c j) \<inter> tabs l m' (?c j') = {}"
      if j: "j < 512" "j' < 512" "j \<noteq> j'" "pte_valid (entry m pt j)" "pte_valid (entry m pt j')" for j j'
    proof -
      have "tabs l m (?c j) \<inter> tabs l m (?c j') = {}" using ok j by auto
      moreover have "N \<inter> tabs l m (?c j) = {}" "N \<inter> tabs l m (?c j') = {}"
        using N(2) tabs_child [OF j(1) j(4)] tabs_child [OF j(2) j(5)] by blast+
      ultimately show ?thesis using t [OF j(1,4)] t [OF j(2,5)] j(3) by auto
    qed
    ultimately show ?thesis using ok e by auto
  qed
  moreover have "leaf (Suc l) m' pt va =
      (if px (Suc l) va = i then leaf l m' (?c i) va else leaf (Suc l) m pt va)" for va
    using e px_less [of "Suc l" va] other i by (simp add: Let_def)
  ultimately show ?thesis using e by auto
qed

section \<open>Walking without allocation\<close>

lemma walk_from_Suc_valid:
  "pte_valid (entry (phys k) pt (px (Suc l) va)) \<Longrightarrow>
    walk_from (Suc l) k pt va al = walk_from l k (child (phys k) pt (px (Suc l) va)) va al"
  by (simp add: Let_def slot_px entry_def)

lemma walk_from_found:
  "walk_from l k pt va False = (k', a) \<Longrightarrow> a \<noteq> 0 \<Longrightarrow>
    k' = k \<and> load64 (phys k) a = leaf l (phys k) pt va"
  by (induction l arbitrary: pt)
    (auto simp: Let_def slot_px entry_def split: if_splits)

lemma slot_nonzero:
  assumes "aligned q" and "q \<noteq> 0" and "i < 512"
  shows "slot q i \<noteq> 0"
proof -
  have "unat q + 8 * i < 2 ^ 64" using page_top [OF assms(1)] assms(3) by simp
  then have "unat (slot q i) = unat q + 8 * i"
    unfolding slot_def by (rule unat_offset_no_wrap)
  then show ?thesis using assms(2) by (auto simp: unat_eq_0 [symmetric])
qed

lemma walk_from_missing:
  "pt_ok l (phys k) pt \<Longrightarrow> 0 \<notin> tabs l (phys k) pt \<Longrightarrow> walk_from l k pt va False = (k', 0) \<Longrightarrow>
    k' = k \<and> leaf l (phys k) pt va = 0"
proof (induction l arbitrary: pt)
  case 0
  then show ?case using slot_nonzero [OF _ _ px_less] by (auto simp: slot_px)
next
  case (Suc l)
  let ?i = "px (Suc l) va"
  show ?case
  proof (cases "pte_valid (entry (phys k) pt ?i)")
    case True
    then have "pt_ok l (phys k) (child (phys k) pt ?i)" "0 \<notin> tabs l (phys k) (child (phys k) pt ?i)"
      using Suc.prems(1,2) px_less [of "Suc l" va] by auto
    then show ?thesis using Suc.IH Suc.prems(3) walk_from_Suc_valid [OF True] True by simp
  next
    case False
    then show ?thesis using Suc.prems(3) by (simp add: Let_def slot_px entry_def)
  qed
qed

text \<open>Writing the entry that \<open>walk\<close> found updates the mapping of that page only.\<close>

lemma store_leaf:
  "pt_ok l (phys k) pt \<Longrightarrow> walk_from l k pt va False = (k', a) \<Longrightarrow> a \<noteq> 0 \<Longrightarrow>
    pt_ok l (store64 (phys k) a e) pt \<and>
    tabs l (store64 (phys k) a e) pt = tabs l (phys k) pt \<and>
    (\<forall>x. (\<forall>q\<in>tabs l (phys k) pt. \<not> in_page q x) \<longrightarrow> store64 (phys k) a e x = phys k x) \<and>
    (\<forall>va'. leaf l (store64 (phys k) a e) pt va' =
      (if \<forall>i\<le>l. px i va' = px i va then e else leaf l (phys k) pt va'))"
proof (induction l arbitrary: pt)
  case 0
  then have "a = slot pt (px 0 va)" by (simp add: slot_px)
  then show ?case using 0 px_less by (auto simp: entry_store store64_outside)
next
  case (Suc l)
  let ?m = "phys k" and ?m' = "store64 (phys k) a e" and ?i = "px (Suc l) va"
  let ?c = "child ?m pt ?i"
  have v: "pte_valid (entry ?m pt ?i)"
    using Suc.prems(2,3) by (auto simp: Let_def slot_px entry_def split: if_splits)
  have w: "walk_from l k ?c va False = (k', a)"
    using Suc.prems(2) walk_from_Suc_valid [OF v] by simp
  have ok: "pt_ok l ?m ?c" using Suc.prems(1) v px_less by auto
  note IH = Suc.IH [OF ok w Suc.prems(3)]
  have L: "pt_ok (Suc l) ?m' pt \<and> tabs (Suc l) ?m' pt = tabs (Suc l) ?m pt \<union> {} \<and>
      (\<forall>j<512. entry ?m' pt j = entry ?m pt j) \<and>
      (\<forall>va'. leaf (Suc l) ?m' pt va' =
        (if px (Suc l) va' = ?i then leaf l ?m' ?c va' else leaf (Suc l) ?m pt va'))"
    using IH by (intro lift_tree [OF Suc.prems(1) px_less v]) auto
  have "store64 ?m a e x = ?m x" if "\<forall>q\<in>tabs (Suc l) ?m pt. \<not> in_page q x" for x
    using IH that tabs_child [OF px_less v] by blast
  moreover have "leaf (Suc l) ?m' pt va' =
      (if \<forall>i\<le>Suc l. px i va' = px i va then e else leaf (Suc l) ?m pt va')" for va'
    using L IH v by (auto simp: le_Suc_eq)
  ultimately show ?case using L by blast
qed

section \<open>Walking with allocation\<close>

lemma wf_kmem_store:
  assumes "wf_kmem k ps" and "aligned p" and "p \<notin> set ps"
    and "\<And>x. \<not> in_page p x \<Longrightarrow> m x = phys k x"
  shows "wf_kmem (k\<lparr>phys := m\<rparr>) ps"
  using assms page_chain_other_page [OF assms] by (auto simp: wf_kmem_def valid_page_def)

text \<open>
  The state after tables have been added to a tree: the pages that joined it were taken from the
  free list, no mapping has changed, and no byte outside the tree was written.
\<close>

definition grown :: "nat \<Rightarrow> uint64 \<Rightarrow> kmem \<Rightarrow> uint64 list \<Rightarrow> kmem \<Rightarrow> uint64 list \<Rightarrow> bool" where
  "grown l pt k ps k' ps' \<longleftrightarrow>
     (\<exists>new. ps = new @ ps' \<and> wf_kmem k' ps' \<and> kernel_end k' = kernel_end k \<and> pt_ok l (phys k') pt \<and>
        tabs l (phys k') pt = tabs l (phys k) pt \<union> set new \<and> leaf l (phys k') pt = leaf l (phys k) pt \<and>
        (\<forall>x. (\<forall>q\<in>tabs l (phys k) pt \<union> set new. \<not> in_page q x) \<longrightarrow> phys k' x = phys k x))"

lemma grown_refl: "wf_kmem k ps \<Longrightarrow> pt_ok l (phys k) pt \<Longrightarrow> grown l pt k ps k ps"
  by (auto simp: grown_def)

lemma grown_trans:
  assumes "grown l pt k ps k1 ps1" and "grown l pt k1 ps1 k2 ps2"
  shows "grown l pt k ps k2 ps2"
proof -
  obtain n1 where n1: "ps = n1 @ ps1" "kernel_end k1 = kernel_end k"
    "tabs l (phys k1) pt = tabs l (phys k) pt \<union> set n1" "leaf l (phys k1) pt = leaf l (phys k) pt"
    "\<forall>x. (\<forall>q\<in>tabs l (phys k) pt \<union> set n1. \<not> in_page q x) \<longrightarrow> phys k1 x = phys k x"
    using assms(1) by (auto simp: grown_def)
  obtain n2 where n2: "ps1 = n2 @ ps2" "wf_kmem k2 ps2" "kernel_end k2 = kernel_end k1" "pt_ok l (phys k2) pt"
    "tabs l (phys k2) pt = tabs l (phys k1) pt \<union> set n2" "leaf l (phys k2) pt = leaf l (phys k1) pt"
    "\<forall>x. (\<forall>q\<in>tabs l (phys k1) pt \<union> set n2. \<not> in_page q x) \<longrightarrow> phys k2 x = phys k1 x"
    using assms(2) by (auto simp: grown_def)
  show ?thesis
    unfolding grown_def using n1 n2 by (intro exI [of _ "n1 @ n2"]) auto
qed

lemma lift_grown:
  assumes g: "grown l (child (phys k) pt i) k ps k' ps'" and ok: "pt_ok (Suc l) (phys k) pt"
    and i: "i < 512" "pte_valid (entry (phys k) pt i)"
    and ps: "wf_kmem k ps" "tabs (Suc l) (phys k) pt \<inter> set ps = {}"
  shows "grown (Suc l) pt k ps k' ps' \<and> entry (phys k') pt i = entry (phys k) pt i"
proof -
  let ?m = "phys k" and ?m' = "phys k'" and ?c = "child (phys k) pt i"
  obtain new where new: "ps = new @ ps'" "wf_kmem k' ps'" "kernel_end k' = kernel_end k" "pt_ok l ?m' ?c"
    "tabs l ?m' ?c = tabs l ?m ?c \<union> set new" "leaf l ?m' ?c = leaf l ?m ?c"
    "\<forall>x. (\<forall>q\<in>tabs l ?m ?c \<union> set new. \<not> in_page q x) \<longrightarrow> ?m' x = ?m x"
    using g unfolding grown_def by blast
  have N: "aligned q" if "q \<in> set new" for q
    using ps(1) new(1) that by (auto simp: wf_kmem_def valid_page_def)
  have disj: "set new \<inter> tabs (Suc l) ?m pt = {}" using ps(2) new(1) by auto
  have L: "pt_ok (Suc l) ?m' pt \<and> tabs (Suc l) ?m' pt = tabs (Suc l) ?m pt \<union> set new \<and>
      (\<forall>j<512. entry ?m' pt j = entry ?m pt j) \<and>
      (\<forall>va. leaf (Suc l) ?m' pt va =
        (if px (Suc l) va = i then leaf l ?m' ?c va else leaf (Suc l) ?m pt va))"
    using new by (intro lift_tree [OF ok i N disj]) auto
  have "leaf (Suc l) ?m' pt = leaf (Suc l) ?m pt" using L new(6) i(2) by auto
  moreover have "?m' x = ?m x" if "\<forall>q\<in>tabs (Suc l) ?m pt \<union> set new. \<not> in_page q x" for x
    using new(7) that tabs_child [OF i, of l] by blast
  ultimately have "grown (Suc l) pt k ps k' ps'"
    unfolding grown_def using new L by (intro exI [of _ new]) blast
  then show ?thesis using L i(1) by blast
qed

text \<open>A cleared page \<open>n\<close> is linked into an empty entry of a table.\<close>

lemma add_table:
  assumes ok: "pt_ok (Suc l) m pt" and n: "aligned n" "n \<notin> tabs (Suc l) m pt"
    and i: "i < 512" "\<not> pte_valid (entry m pt i)" and e: "pte_valid e" "PTE2PA e = n"
    and m1: "m1 = store64 (\<lambda>x. if in_page n x then 0 else m x) (slot pt i) e"
  shows "pt_ok (Suc l) m1 pt \<and> tabs (Suc l) m1 pt = insert n (tabs (Suc l) m pt) \<and>
    leaf (Suc l) m1 pt = leaf (Suc l) m pt \<and> entry m1 pt i = e"
proof -
  have pt: "aligned pt" "n \<noteq> pt" using ok n(2) by auto
  have notn: "\<not> in_page n x" if "in_page pt x" for x
    using in_page_unique [OF n(1) pt(1) _ that] pt(2) by blast
  have en: "entry m1 pt j = (if j = i then e else entry m pt j)" if "j < 512" for j
  proof -
    have "entry (\<lambda>x. if in_page n x then 0 else m x) pt j = entry m pt j"
      using notn by (intro entry_cong that) auto
    then show ?thesis unfolding m1 using entry_store [OF i(1) that] by simp
  qed
  have "m1 x = 0" if "in_page n x" for x
  proof -
    have "\<not> in_page pt x" using notn that by blast
    then show ?thesis using that by (simp add: m1 store64_outside [OF i(1)])
  qed
  then have z: "tabs l m1 n = {n}" "pt_ok l m1 n" "leaf l m1 n va = 0" for va
    using zero_table [OF n(1)] by blast+
  have other: "tabs l m1 (child m pt j) = tabs l m (child m pt j) \<and>
      pt_ok l m1 (child m pt j) = pt_ok l m (child m pt j) \<and>
      leaf l m1 (child m pt j) = leaf l m (child m pt j)"
    if j: "j < 512" "pte_valid (entry m pt j)" for j
  proof (rule tree_cong)
    fix q x
    assume q: "q \<in> tabs l m (child m pt j)" "in_page q x"
    have "q \<in> tabs (Suc l) m pt" "q \<noteq> pt" using q(1) j ok tabs_child [OF j] by auto
    moreover from this have "aligned q" "q \<noteq> n" using tabs_aligned [OF ok] n(2) by auto
    ultimately have "\<not> in_page n x" "\<not> in_page pt x"
      using in_page_unique [OF _ n(1) q(2)] in_page_unique [OF _ pt(1) q(2)] by blast+
    then show "m1 x = m x" by (simp add: m1 store64_outside [OF i(1)])
  qed
  have "tabs (Suc l) m1 pt = insert n (tabs (Suc l) m pt)"
    using en other z(1) e i by (auto split: if_splits)
  moreover have "pt_ok (Suc l) m1 pt"
    using en other z(1,2) e i ok n(2) pt by (auto split: if_splits)
  moreover have "leaf (Suc l) m1 pt va = leaf (Suc l) m pt va" for va
    using en [OF px_less] other [OF px_less] z(3) e i by (auto simp: Let_def)
  ultimately show ?thesis using en [OF i(1)] by auto
qed

lemma fresh_table:
  assumes ok: "pt_ok (Suc l) (phys k) pt" and wf: "wf_kmem k (n # qs)"
    and disj: "tabs (Suc l) (phys k) pt \<inter> set (n # qs) = {}"
    and i: "i < 512" "\<not> pte_valid (entry (phys k) pt i)"
    and k1: "k1 = put_pte (slot pt i) (PA2PTE n OR PTE_V) (zero_page n (fst (kalloc k)))"
  shows "grown (Suc l) pt k (n # qs) k1 qs \<and> pte_valid (entry (phys k1) pt i) \<and> child (phys k1) pt i = n"
proof -
  obtain k0 where k0: "kalloc k = (k0, n)" "wf_kmem k0 qs" "kernel_end k0 = kernel_end k"
    "phys k0 = (\<lambda>x. if in_page n x then 5 else phys k x)"
    using kalloc_step [OF wf] by blast
  have n: "aligned n" "n < 2 ^ 56" "n \<notin> set qs" "n \<notin> tabs (Suc l) (phys k) pt" "pt \<notin> set qs"
    using wf disj by (auto simp: wf_kmem_def valid_page_def word_less_nat_alt hdr)
  have pt: "aligned pt" using ok by simp
  have m1: "phys k1 = store64 (\<lambda>x. if in_page n x then 0 else phys k x) (slot pt i) (PA2PTE n OR PTE_V)"
    by (simp add: k1 put_pte_def k0 junk_page cong: if_cong)
  have "wf_kmem (zero_page n k0) qs"
    by (rule wf_kmem_store [OF k0(2) n(1,3)]) (simp add: junk_page)
  then have "wf_kmem (put_pte (slot pt i) (PA2PTE n OR PTE_V) (zero_page n k0)) qs"
    unfolding put_pte_def by (rule wf_kmem_store [OF _ pt n(5)]) (rule store64_outside [OF i(1)])
  then have wf1: "wf_kmem k1 qs" using k1 k0(1) by simp
  have cn: "PTE2PA (PA2PTE n OR PTE_V) = n"
    using PTE2PA_PA2PTE [OF n(1,2), of 0] by simp
  note A = add_table [OF ok n(1,4) i pte_valid_or cn m1]
  have out: "phys k1 x = phys k x" if "\<forall>q\<in>tabs (Suc l) (phys k) pt \<union> set [n]. \<not> in_page q x" for x
    using that by (simp add: m1 store64_outside [OF i(1)])
  have "grown (Suc l) pt k (n # qs) k1 qs"
    unfolding grown_def using A wf1 out k0(3) k1 k0(1)
    by (intro exI [of _ "[n]"]) (simp add: put_pte_def del: tabs.simps leaf.simps pt_ok.simps)
  then show ?thesis using A cn pte_valid_or by simp
qed

lemma walk_alloc:
  "wf_kmem k ps \<Longrightarrow> pt_ok l (phys k) pt \<Longrightarrow> tabs l (phys k) pt \<inter> set ps = {} \<Longrightarrow>
    0 \<notin> tabs l (phys k) pt \<Longrightarrow> walk_from l k pt va True = (k', a) \<Longrightarrow>
    \<exists>ps'. grown l pt k ps k' ps' \<and> length ps \<le> length ps' + l \<and>
      (if a = 0 then ps' = [] else walk_from l k' pt va False = (k', a))"
proof (induction l arbitrary: k pt ps)
  case 0
  then show ?case using grown_refl [of k ps 0 pt] slot_nonzero [OF _ _ px_less, of pt 0 va]
    by (intro exI [of _ ps]) (auto simp: slot_px)
next
  case (Suc l)
  let ?i = "px (Suc l) va"
  have step: "\<exists>ps'. grown (Suc l) pt k ps k' ps' \<and> length ps \<le> length ps' + l \<and>
      (if a = 0 then ps' = [] else walk_from (Suc l) k' pt va False = (k', a))"
    if v: "pte_valid (entry (phys k) pt ?i)" and ok: "pt_ok (Suc l) (phys k) pt" and wf: "wf_kmem k ps"
      and d: "tabs (Suc l) (phys k) pt \<inter> set ps = {}"
      and z: "0 \<notin> tabs (Suc l) (phys k) pt"
      and w: "walk_from l k (child (phys k) pt ?i) va True = (k', a)" for k ps
  proof -
    have c: "pt_ok l (phys k) (child (phys k) pt ?i)" using ok v px_less by simp
    have dc: "tabs l (phys k) (child (phys k) pt ?i) \<inter> set ps = {}"
      using d tabs_child [OF px_less v] by blast
    have zc: "0 \<notin> tabs l (phys k) (child (phys k) pt ?i)" using z tabs_child [OF px_less v] by blast
    obtain ps' where g: "grown l (child (phys k) pt ?i) k ps k' ps'" "length ps \<le> length ps' + l"
      and a: "if a = 0 then ps' = [] else walk_from l k' (child (phys k) pt ?i) va False = (k', a)"
      using Suc.IH [OF wf c dc zc w] by blast
    note G = lift_grown [OF g(1) ok px_less v wf d]
    then have "walk_from (Suc l) k' pt va False = walk_from l k' (child (phys k) pt ?i) va False"
      using v walk_from_Suc_valid [of k' pt l va False] by simp
    then show ?thesis using G g(2) a by auto
  qed
  show ?case
  proof (cases "pte_valid (entry (phys k) pt ?i)")
    case True
    then obtain ps' where "grown (Suc l) pt k ps k' ps'" "length ps \<le> length ps' + l"
      "if a = 0 then ps' = [] else walk_from (Suc l) k' pt va False = (k', a)"
      using step [OF True Suc.prems(2,1,3,4)] Suc.prems(5) walk_from_Suc_valid [OF True] by auto
    then show ?thesis by (intro exI [of _ ps']) simp
  next
    case False
    show ?thesis
    proof (cases ps)
      case Nil
      then have "k' = k" "a = 0"
        using Suc.prems(1,5) False kalloc_empty by (auto simp: Let_def slot_px entry_def)
      then show ?thesis using grown_refl [OF Suc.prems(1,2)] Nil by (intro exI [of _ ps]) simp
    next
      case (Cons n qs)
      define k1 where "k1 = put_pte (slot pt ?i) (PA2PTE n OR PTE_V) (zero_page n (fst (kalloc k)))"
      note F = fresh_table [OF Suc.prems(2) Suc.prems(1,3) [unfolded Cons] px_less False k1_def]
      have n: "snd (kalloc k) = n" "n \<noteq> 0"
        using kalloc_step [of k n qs] kpages.pool_pages [OF Suc.prems(1)] Suc.prems(1) Cons by auto
      have "walk_from (Suc l) k pt va True = walk_from l k1 n va True"
        using False n by (auto simp: Let_def slot_px entry_def k1_def split_beta)
      then have w: "walk_from l k1 (child (phys k1) pt ?i) va True = (k', a)"
        using Suc.prems(5) F by simp
      have "distinct (n # qs)" "pt_ok (Suc l) (phys k1) pt" "wf_kmem k1 qs"
        "tabs (Suc l) (phys k1) pt = tabs (Suc l) (phys k) pt \<union> {n}"
        using F Suc.prems(1) Cons by (auto simp: grown_def wf_kmem_def simp del: tabs.simps pt_ok.simps leaf.simps)
      moreover from this have "tabs (Suc l) (phys k1) pt \<inter> set qs = {}" "0 \<notin> tabs (Suc l) (phys k1) pt"
        using Suc.prems(3,4) Cons n(2) by auto
      ultimately obtain ps' where g: "grown (Suc l) pt k1 qs k' ps'" "length qs \<le> length ps' + l"
        "if a = 0 then ps' = [] else walk_from (Suc l) k' pt va False = (k', a)"
        using step [of k1 qs] F w by blast
      have "grown (Suc l) pt k ps k' ps'" using F g(1) grown_trans Cons by blast
      then show ?thesis using g(2,3) Cons by (intro exI [of _ ps']) simp
    qed
  qed
qed

section \<open>Mapping pages\<close>

text \<open>
  A page table in use: its tables are valid pages that are not on the free list. \<open>vmap\<close> is the mapping
  it stands for.
\<close>

definition ptable :: "kmem \<Rightarrow> uint64 list \<Rightarrow> uint64 \<Rightarrow> bool" where
  "ptable k ps pt \<longleftrightarrow> wf_kmem k ps \<and> pt_ok 2 (phys k) pt \<and> tabs 2 (phys k) pt \<inter> set ps = {} \<and>
     (\<forall>q\<in>tabs 2 (phys k) pt. valid_page k q)"

definition vmap :: "kmem \<Rightarrow> uint64 \<Rightarrow> uint64 \<Rightarrow> uint64" where
  "vmap k pt va = leaf 2 (phys k) pt va"

lemma ptable_nonzero: "ptable k ps pt \<Longrightarrow> 0 \<notin> tabs 2 (phys k) pt"
  using valid_page_nonzero [of k 0] by (auto simp: ptable_def wf_kmem_def)

lemma ptable_grown:
  assumes "ptable k ps pt" and "grown 2 pt k ps k' ps'"
  shows "ptable k' ps' pt \<and> vmap k' pt = vmap k pt"
proof -
  obtain new where new: "ps = new @ ps'" "wf_kmem k' ps'" "kernel_end k' = kernel_end k"
    "pt_ok 2 (phys k') pt" "tabs 2 (phys k') pt = tabs 2 (phys k) pt \<union> set new"
    "leaf 2 (phys k') pt = leaf 2 (phys k) pt"
    using assms(2) unfolding grown_def by blast
  have "distinct ps" "\<forall>q\<in>set ps. valid_page k q" using assms(1) by (auto simp: ptable_def wf_kmem_def)
  then show ?thesis using assms(1) new by (auto simp: ptable_def valid_page_def vmap_def)
qed

lemma walk_ptable:
  assumes pt: "ptable k ps pt" and w: "walk_from 2 k pt va True = (k', a)"
  shows "\<exists>ps'. ptable k' ps' pt \<and> vmap k' pt = vmap k pt \<and> length ps \<le> length ps' + 2 \<and>
    (if a = 0 then ps' = [] else walk_from 2 k' pt va False = (k', a))"
proof -
  have "wf_kmem k ps" "pt_ok 2 (phys k) pt" "tabs 2 (phys k) pt \<inter> set ps = {}"
    using pt by (auto simp: ptable_def)
  from walk_alloc [OF this ptable_nonzero [OF pt] w] show ?thesis using ptable_grown [OF pt] by blast
qed

lemma pages_eq_iff:
  "va < MAXVA \<Longrightarrow> va' < MAXVA \<Longrightarrow> aligned va \<Longrightarrow> aligned va' \<Longrightarrow>
    (\<forall>i\<le>2. px i va' = px i va) \<longleftrightarrow> va' = va"
  using px_inj [of va va'] by (auto simp: less_Suc_eq_le numeral_3_eq_3 numeral_2_eq_2)

lemma tree_pages_not_free:
  assumes "ptable k ps pt" and "q \<in> set ps" and "in_page q x" and "r \<in> tabs 2 (phys k) pt"
  shows "\<not> in_page r x"
proof
  assume "in_page r x"
  moreover have "aligned q" "aligned r"
    using assms tabs_aligned by (auto simp: ptable_def wf_kmem_def valid_page_def)
  ultimately show False using in_page_unique [of q r x] assms by (auto simp: ptable_def)
qed

lemma put_leaf:
  assumes pt: "ptable k ps pt" and w: "walk_from 2 k pt va False = (k, a)" "a \<noteq> 0"
    and va: "va < MAXVA" "aligned va"
  shows "ptable (put_pte a e k) ps pt \<and>
    (\<forall>va'. va' < MAXVA \<and> aligned va' \<longrightarrow>
      vmap (put_pte a e k) pt va' = (if va' = va then e else vmap k pt va'))"
proof -
  let ?m = "store64 (phys k) a e"
  have S: "pt_ok 2 ?m pt" "tabs 2 ?m pt = tabs 2 (phys k) pt"
    "\<forall>x. (\<forall>q\<in>tabs 2 (phys k) pt. \<not> in_page q x) \<longrightarrow> ?m x = phys k x"
    "\<forall>va'. leaf 2 ?m pt va' = (if \<forall>i\<le>2. px i va' = px i va then e else leaf 2 (phys k) pt va')"
    using store_leaf [OF _ w, of e] pt unfolding ptable_def by blast+
  have "page_chain ?m (freelist k) ps = page_chain (phys k) (freelist k) ps"
    using S(3) tree_pages_not_free [OF pt] by (intro page_chain_cong) blast
  then have "ptable (put_pte a e k) ps pt"
    using pt S(1,2) by (simp add: ptable_def put_pte_def wf_kmem_def valid_page_def)
  then show ?thesis
    using S(4) pages_eq_iff [OF va(1) _ va(2)] by (simp add: vmap_def put_pte_def)
qed

text \<open>One round of the loop of \<open>mappages\<close>.\<close>

lemma map_one:
  assumes pt: "ptable k ps pt" and a: "a < MAXVA" "aligned a" "\<not> pte_valid (vmap k pt a)"
    and w: "walk k pt a True = Inr (k1, pte)" "pte \<noteq> 0"
  shows "\<not> pte_valid (load64 (phys k1) pte) \<and>
    (\<exists>ps'. ptable (put_pte pte e k1) ps' pt \<and> length ps \<le> length ps' + 2) \<and>
    (\<forall>va. va < MAXVA \<and> aligned va \<longrightarrow>
      vmap (put_pte pte e k1) pt va = (if va = a then e else vmap k pt va))"
proof -
  have w2: "walk_from 2 k pt a True = (k1, pte)" using w(1) a(1) by (simp add: walk_def split: if_splits)
  obtain ps1 where P: "ptable k1 ps1 pt" "vmap k1 pt = vmap k pt" and len: "length ps \<le> length ps1 + 2"
    and found: "walk_from 2 k1 pt a False = (k1, pte)"
    using walk_ptable [OF pt w2] w(2) by auto
  have "load64 (phys k1) pte = vmap k pt a"
    using walk_from_found [OF found w(2)] P by (simp add: vmap_def [symmetric])
  then show ?thesis using put_leaf [of k1 ps1, OF _ found w(2) a(1,2)] P a(3) len by auto
qed

lemma unat_va_step:
  "unat (a :: uint64) + 4096 * n < unat MAXVA \<Longrightarrow> unat (a + of_nat (4096 * n)) = unat a + 4096 * n"
  by (intro unat_offset_no_wrap) (simp add: hdr)

lemma va_steps:
  assumes "unat a + 4096 * n < unat MAXVA" and "aligned a" and "i \<le> n"
  shows "a + of_nat (4096 * i) < MAXVA \<and> aligned (a + of_nat (4096 * i))"
proof -
  have "unat (a + of_nat (4096 * i)) = unat a + 4096 * i"
    using assms by (intro unat_va_step) simp
  moreover have "unat a mod 4096 = 0" using assms(2) by (simp add: aligned_iff)
  ultimately show ?thesis
    using assms by (simp only: aligned_iff word_less_nat_alt) (simp add: mod_add_left_eq [symmetric])
qed

lemma va_step_shift: "a + 4096 + of_nat (4096 * i) = a + of_nat (4096 * Suc i)" for a :: uint64
  by simp

text \<open>The pages \<open>a\<close>, \<open>a + PGSIZE\<close>, \dots of a run of \<open>n + 1\<close> pages.\<close>

definition va_run :: "uint64 \<Rightarrow> nat \<Rightarrow> uint64 set" where
  "va_run a n = (\<lambda>i. a + of_nat (4096 * i)) ` {0..n}"

lemma va_run_Suc: "va_run a (Suc n) = insert a (va_run (a + 4096) n)"
proof -
  have "{0..Suc n} = insert 0 (Suc ` {0..n})" by auto
  then show ?thesis unfolding va_run_def by (simp only: image_insert image_image va_step_shift) simp
qed

lemma va_run_above:
  assumes "unat a + 4096 * n < unat MAXVA" and "x \<in> va_run a n"
  shows "unat a \<le> unat x"
proof -
  obtain i where "i \<le> n" "x = a + of_nat (4096 * i)" using assms(2) by (auto simp: va_run_def)
  then show ?thesis using unat_va_step [of a i] assms(1) by simp
qed

lemma va_run_ok:
  "unat a + 4096 * n < unat MAXVA \<Longrightarrow> aligned a \<Longrightarrow> va \<in> va_run a n \<Longrightarrow> va < MAXVA \<and> aligned va"
  using va_steps by (auto simp: va_run_def)

lemma mappages_round:
  assumes pt: "ptable k ps pt" and a: "a < MAXVA" "aligned a" "\<not> pte_valid (vmap k pt a)"
  shows "\<exists>k1 ps1. ptable k1 ps1 pt \<and> length ps \<le> length ps1 + 2 \<and>
    (mappages_loop k pt a last_va pa perm = Inr (k1, -1) \<and> ps1 = [] \<and> vmap k1 pt = vmap k pt \<or>
     mappages_loop k pt a last_va pa perm =
       (if a = last_va then Inr (k1, 0) else mappages_loop k1 pt (a + 4096) last_va (pa + 4096) perm) \<and>
     (\<forall>va. va < MAXVA \<and> aligned va \<longrightarrow>
       vmap k1 pt va = (if va = a then PA2PTE pa OR perm OR PTE_V else vmap k pt va)))"
proof -
  obtain k0 pte where w: "walk k pt a True = Inr (k0, pte)"
    using a(1) by (cases "walk_from 2 k pt a True") (auto simp: walk_def not_le)
  show ?thesis
  proof (cases "pte = 0")
    case True
    have w2: "walk_from 2 k pt a True = (k0, pte)" using w a(1) by (simp add: walk_def split: if_splits)
    obtain ps0 where ps0: "ptable k0 ps0 pt" "vmap k0 pt = vmap k pt" "length ps \<le> length ps0 + 2" "ps0 = []"
      using walk_ptable [OF pt w2] True by auto
    then show ?thesis using w True ps0 by (subst mappages_loop.simps) auto
  next
    case False
    note M = map_one [OF pt a w False, of "PA2PTE pa OR perm OR PTE_V"]
    then have "mappages_loop k pt a last_va pa perm =
        (if a = last_va then Inr (put_pte pte (PA2PTE pa OR perm OR PTE_V) k0, 0)
         else mappages_loop (put_pte pte (PA2PTE pa OR perm OR PTE_V) k0) pt (a + 4096) last_va (pa + 4096) perm)"
      using w False by (subst mappages_loop.simps) (simp add: Let_def)
    then show ?thesis using M by blast
  qed
qed

text \<open>The outcome of mapping a run of pages: success or failure, other pages untouched.\<close>

definition mapped_run ::
  "kmem \<Rightarrow> uint64 list \<Rightarrow> kmem \<Rightarrow> uint64 \<Rightarrow> uint64 \<Rightarrow> nat \<Rightarrow> uint64 \<Rightarrow> uint64 \<Rightarrow> int \<Rightarrow> bool" where
  "mapped_run k ps k' pt a n pa perm r \<longleftrightarrow>
     (\<exists>ps'. ptable k' ps' pt \<and> length ps \<le> length ps' + 2 * Suc n \<and> (r = -1 \<longrightarrow> ps' = [])) \<and> (r = 0 \<or> r = -1) \<and>
     (r = 0 \<longrightarrow> (\<forall>i\<le>n. vmap k' pt (a + of_nat (4096 * i)) = (PA2PTE (pa + of_nat (4096 * i)) OR perm OR PTE_V))) \<and>
     (\<forall>va. va < MAXVA \<and> aligned va \<and> va \<notin> va_run a n \<longrightarrow> vmap k' pt va = vmap k pt va)"

lemma mapped_run_Suc:
  assumes run: "mapped_run k1 ps1 k' pt (a + 4096) n (pa + 4096) perm r"
    and a: "a < MAXVA" "aligned a" "a \<notin> va_run (a + 4096) n" and len: "length ps \<le> length ps1 + 2"
    and k1: "\<forall>va. va < MAXVA \<and> aligned va \<longrightarrow>
      vmap k1 pt va = (if va = a then PA2PTE pa OR perm OR PTE_V else vmap k pt va)"
  shows "mapped_run k ps k' pt a (Suc n) pa perm r"
proof -
  have "vmap k' pt (a + of_nat (4096 * i)) = (PA2PTE (pa + of_nat (4096 * i)) OR perm OR PTE_V)"
    if "r = 0" "i \<le> Suc n" for i
  proof (cases i)
    case 0
    have "vmap k' pt a = vmap k1 pt a" using run a by (simp add: mapped_run_def)
    then show ?thesis using k1 a 0 by simp
  next
    case (Suc j)
    then have "vmap k' pt (a + 4096 + of_nat (4096 * j)) = (PA2PTE (pa + 4096 + of_nat (4096 * j)) OR perm OR PTE_V)"
      using run that by (auto simp: mapped_run_def)
    then show ?thesis unfolding Suc by (simp only: va_step_shift)
  qed
  moreover obtain ps' where "ptable k' ps' pt" "length ps1 \<le> length ps' + 2 * Suc n" "r = -1 \<longrightarrow> ps' = []"
    using run unfolding mapped_run_def by blast
  ultimately show ?thesis using run k1 len unfolding mapped_run_def va_run_Suc by auto
qed

lemma mappages_loop_spec:
  assumes "ptable k ps pt" and "aligned a" and "unat a + 4096 * n < unat MAXVA"
    and "\<forall>va\<in>va_run a n. \<not> pte_valid (vmap k pt va)"
  shows "\<exists>k' r. mappages_loop k pt a (a + of_nat (4096 * n)) pa perm = Inr (k', r) \<and>
    mapped_run k ps k' pt a n pa perm r"
  using assms
proof (induction n arbitrary: k ps a pa)
  case 0
  have a: "a < MAXVA" "\<not> pte_valid (vmap k pt a)" using 0 by (auto simp: word_less_nat_alt va_run_def)
  show ?case
    using mappages_round [OF 0(1) a(1) 0(2) a(2), of a pa perm] a(1) 0(2)
    by (auto simp: mapped_run_def va_run_def)
next
  case (Suc n)
  let ?e = "PA2PTE pa OR perm OR PTE_V"
  have a: "a < MAXVA" "\<not> pte_valid (vmap k pt a)"
    using Suc.prems(3,4) by (auto simp: word_less_nat_alt va_run_Suc)
  have b: "unat (a + 4096) = unat a + 4096" by (rule unat_next_va [OF a(1)])
  have bn: "unat (a + 4096) + 4096 * n < unat MAXVA" using b Suc.prems(3) by simp
  have last_va: "a + of_nat (4096 * Suc n) = a + 4096 + of_nat (4096 * n)" by (simp only: va_step_shift)
  have neq: "a \<noteq> a + of_nat (4096 * Suc n)"
    using unat_va_step [OF Suc.prems(3)] by (metis add_cancel_left_right mult_eq_0_iff nat.simps(3) zero_neq_numeral)
  have fresh: "a \<notin> va_run (a + 4096) n" using va_run_above [OF bn] b by fastforce
  obtain k1 ps1 where pt1: "ptable k1 ps1 pt" and len: "length ps \<le> length ps1 + 2"
    and r: "mappages_loop k pt a (a + of_nat (4096 * Suc n)) pa perm = Inr (k1, -1) \<and> ps1 = [] \<and> vmap k1 pt = vmap k pt \<or>
      mappages_loop k pt a (a + of_nat (4096 * Suc n)) pa perm =
        mappages_loop k1 pt (a + 4096) (a + 4096 + of_nat (4096 * n)) (pa + 4096) perm \<and>
      (\<forall>va. va < MAXVA \<and> aligned va \<longrightarrow> vmap k1 pt va = (if va = a then ?e else vmap k pt va))"
    using mappages_round [OF Suc.prems(1) a(1) Suc.prems(2) a(2), of "a + of_nat (4096 * Suc n)" pa perm] neq
    unfolding last_va by auto
  from r show ?case
  proof
    assume "mappages_loop k pt a (a + of_nat (4096 * Suc n)) pa perm = Inr (k1, -1) \<and> ps1 = [] \<and> vmap k1 pt = vmap k pt"
    then show ?thesis using pt1 len by (auto simp: mapped_run_def)
  next
    assume L: "mappages_loop k pt a (a + of_nat (4096 * Suc n)) pa perm =
        mappages_loop k1 pt (a + 4096) (a + 4096 + of_nat (4096 * n)) (pa + 4096) perm \<and>
      (\<forall>va. va < MAXVA \<and> aligned va \<longrightarrow> vmap k1 pt va = (if va = a then ?e else vmap k pt va))"
    have "\<forall>va\<in>va_run (a + 4096) n. \<not> pte_valid (vmap k1 pt va)"
      using L fresh Suc.prems(4) va_run_ok [OF bn aligned_add_page [OF Suc.prems(2)]]
      unfolding va_run_Suc by (metis insertCI)
    then show ?thesis
      using Suc.IH [OF pt1 aligned_add_page [OF Suc.prems(2)] bn] L
        mapped_run_Suc [OF _ a(1) Suc.prems(2) fresh len] by metis
  qed
qed

lemma mappages_spec:
  assumes "ptable k ps pt" and "aligned va" and "unat va + 4096 * n < unat MAXVA"
    and "\<forall>a\<in>va_run va n. \<not> pte_valid (vmap k pt a)"
  shows "\<exists>k' r. mappages k pt va (of_nat (4096 * Suc n)) pa perm = Inr (k', r) \<and>
    mapped_run k ps k' pt va n pa perm r"
proof -
  have n: "unat (of_nat (4096 * Suc n) :: uint64) = 4096 * Suc n"
    using assms(3) by (intro unat_of_nat64) (simp add: hdr)
  then have "aligned (of_nat (4096 * Suc n))" unfolding aligned_iff by simp
  moreover have "(of_nat (4096 * Suc n) :: uint64) \<noteq> 0" using n by (metis mult_eq_0_iff nat.simps(3) unat_0 zero_neq_numeral)
  moreover have "va + of_nat (4096 * Suc n) - 4096 = va + of_nat (4096 * n)" by simp
  ultimately have "mappages k pt va (of_nat (4096 * Suc n)) pa perm =
      mappages_loop k pt va (va + of_nat (4096 * n)) pa perm"
    using assms(2) by (simp only: mappages_def aligned_def if_False not_True_eq_False simp_thms)
  then show ?thesis using mappages_loop_spec [OF assms] by simp
qed

text \<open>
  C8. \<open>mappages\<close> on a range of unmapped pages below \<open>MAXVA\<close> does not panic. Either it returns 0 and the
  entry of every page of the range is the physical page at the same offset from \<open>pa\<close> with the given
  permissions and the valid bit, or it returns -1 with the free list used up (two
  free pages per page of the range are enough); in both cases every other page keeps its entry and
  the page table stays well formed, disjoint from the free list.
\<close>

theorem mappages_refines_map:
  assumes "ptable k ps pt" and "aligned va" and "unat va + 4096 * n < unat MAXVA"
    and "\<forall>a\<in>va_run va n. \<not> pte_valid (vmap k pt a)"
  shows "\<exists>k' r. mappages k pt va (of_nat (4096 * Suc n)) pa perm = Inr (k', r) \<and>
    mapped_run k ps k' pt va n pa perm r"
  using assms by (rule mappages_spec)

lemma zero_ptable:
  assumes "wf_kmem k ps" and "valid_page k p" and "p \<notin> set ps" and "\<And>x. in_page p x \<Longrightarrow> phys k x = 0"
  shows "ptable k ps p \<and> vmap k p va = 0"
proof -
  have "aligned p" using assms(2) by (simp add: valid_page_def)
  then have "tabs 2 (phys k) p = {p} \<and> pt_ok 2 (phys k) p \<and> leaf 2 (phys k) p va = 0"
    using assms(4) by (rule zero_table)
  then show ?thesis using assms(1-3) by (simp add: ptable_def vmap_def)
qed

lemma sample_ptable: "ptable sample_kmem [0x80002000] 0x80001000 \<and> vmap sample_kmem 0x80001000 va = 0"
  by (rule zero_ptable [OF sample_kmem_wf]) (simp_all add: sample_kmem_def valid_page_def aligned_def hdr)

theorem mappages_refines_map_witness:
  "\<exists>k' r. mappages sample_kmem 0x80001000 0x3000 (of_nat (4096 * Suc 1)) 0x80005000 PTE_R = Inr (k', r) \<and>
    mapped_run sample_kmem [0x80002000] k' 0x80001000 0x3000 1 0x80005000 PTE_R r"
proof (rule mappages_refines_map)
  show "ptable sample_kmem [0x80002000] 0x80001000" using sample_ptable by blast
  show "aligned 0x3000" by (simp add: aligned_def)
  show "unat (0x3000 :: uint64) + 4096 * 1 < unat MAXVA" by (simp add: hdr)
  show "\<forall>a\<in>va_run 0x3000 1. \<not> pte_valid (vmap sample_kmem 0x80001000 a)" using sample_ptable by simp
qed

section \<open>Translation\<close>

lemma walkaddr_vmap:
  assumes "ptable k ps pt" and "va < MAXVA"
  shows "walkaddr k pt va = Inr (let e = vmap k pt va
    in if e AND PTE_V = 0 \<or> e AND PTE_U = 0 then 0 else PTE2PA e)"
proof -
  have ok: "pt_ok 2 (phys k) pt" "0 \<notin> tabs 2 (phys k) pt"
    using assms(1) ptable_nonzero by (auto simp: ptable_def)
  obtain k' a where w: "walk_from 2 k pt va False = (k', a)" by (cases "walk_from 2 k pt va False")
  show ?thesis
  proof (cases "a = 0")
    case True
    then have "vmap k pt va = 0" using walk_from_missing [OF ok] w by (simp add: vmap_def)
    then show ?thesis using assms(2) w True by (simp add: walkaddr_def walk_def)
  next
    case False
    then have "load64 (phys k') a = vmap k pt va" using walk_from_found [OF w] by (simp add: vmap_def)
    then show ?thesis using assms(2) w False by (simp add: walkaddr_def walk_def Let_def not_le [symmetric])
  qed
qed

lemma user_bit: "(x OR perm OR PTE_V) AND PTE_U = 0 \<Longrightarrow> perm AND PTE_U = 0"
proof (rule bit_word_eqI)
  fix n
  assume "(x OR perm OR PTE_V) AND PTE_U = 0"
  then have "\<not> bit ((x OR perm OR PTE_V) AND PTE_U) n" by simp
  then show "bit (perm AND PTE_U) n = bit 0 n" by (auto simp: bit_simps)
qed

text \<open>
  A user mapping made by \<open>mappages\<close> is what \<open>walkaddr\<close> finds: after a successful call with the user
  bit among the permissions, the address of the \<open>i\<close>-th page of the range translates to the \<open>i\<close>-th
  physical page.
\<close>

theorem mappages_then_walkaddr:
  assumes "ptable k ps pt" and "aligned va" and "unat va + 4096 * n < unat MAXVA"
    and "\<forall>a\<in>va_run va n. \<not> pte_valid (vmap k pt a)"
    and "perm < 2 ^ 10" and "perm AND PTE_U \<noteq> 0" and "aligned pa" and "unat pa + 4096 * n < 2 ^ 56"
    and "mappages k pt va (of_nat (4096 * Suc n)) pa perm = Inr (k', 0)" and "i \<le> n"
  shows "walkaddr k' pt (va + of_nat (4096 * i)) = Inr (pa + of_nat (4096 * i))"
proof -
  have run: "mapped_run k ps k' pt va n pa perm 0"
    using mappages_spec [OF assms(1-4), of pa perm] assms(9) by auto
  have pa: "unat (pa + of_nat (4096 * i)) = unat pa + 4096 * i"
    using assms(8,10) by (intro unat_offset_no_wrap) simp
  have "unat pa mod 4096 = 0" using assms(7) by (simp add: aligned_iff)
  then have "aligned (pa + of_nat (4096 * i))" unfolding aligned_iff pa by (simp add: mod_add_left_eq [symmetric])
  moreover have "pa + of_nat (4096 * i) < 2 ^ 56"
    unfolding word_less_nat_alt pa using assms(8,10) by simp
  ultimately have "PTE2PA (PA2PTE (pa + of_nat (4096 * i)) OR perm OR PTE_V) = pa + of_nat (4096 * i)"
    using assms(5) by (rule PTE2PA_PA2PTE)
  moreover have "vmap k' pt (va + of_nat (4096 * i)) = (PA2PTE (pa + of_nat (4096 * i)) OR perm OR PTE_V)"
    using run assms(10) by (simp add: mapped_run_def)
  moreover have "(PA2PTE (pa + of_nat (4096 * i)) OR perm OR PTE_V) AND PTE_U \<noteq> 0"
    using user_bit assms(6) by blast
  moreover have "pte_valid (PA2PTE (pa + of_nat (4096 * i)) OR perm OR PTE_V)"
    using pte_valid_or [of "PA2PTE (pa + of_nat (4096 * i)) OR perm"] unfolding or.assoc .
  ultimately show ?thesis
    using run walkaddr_vmap va_steps [OF assms(3,2,10)] by (auto simp: mapped_run_def)
qed

text \<open>A machine with three free pages and an empty page table.\<close>

definition sample_kmem2 :: kmem where
  "sample_kmem2 = \<lparr>kernel_end = 0x80001000, 
     phys = store64 (store64 (\<lambda>_. 0) 0x80003000 0x80004000) 0x80002000 0x80003000,
     freelist = 0x80002000\<rparr>"

lemma load64_store64_other_page:
  assumes "aligned p" and "aligned q" and "p \<noteq> q"
  shows "load64 (store64 m p w) q = load64 m q"
proof (rule load64_cong)
  fix x
  assume "in_page q x"
  then have "\<not> in_page p x" using in_page_unique [of p q x] assms by blast
  then show "store64 m p w x = m x" by (rule store64_other)
qed

lemma load64_zero: "load64 (\<lambda>_. 0) a = 0"
proof -
  have "load_bytes (\<lambda>_. 0) a 8 = replicate 8 0" by (intro nth_equalityI) auto
  then show ?thesis by (simp add: load64_def numeral_eq_Suc)
qed

lemma sample_kmem2_wf: "wf_kmem sample_kmem2 [0x80002000, 0x80003000, 0x80004000]"
  by (simp add: wf_kmem_def sample_kmem2_def valid_page_def aligned_def hdr load64_zero
      load64_store64_other_page)

lemma sample_ptable2:
  "ptable sample_kmem2 [0x80002000, 0x80003000, 0x80004000] 0x80001000 \<and>
    vmap sample_kmem2 0x80001000 va = 0"
proof (rule zero_ptable [OF sample_kmem2_wf])
  fix x
  assume x: "in_page 0x80001000 x"
  have "\<not> in_page 0x80002000 x" "\<not> in_page 0x80003000 x"
    using in_page_unique [OF _ _ x, of "0x80002000"] in_page_unique [OF _ _ x, of "0x80003000"]
    by (auto simp: aligned_def)
  then show "phys sample_kmem2 x = 0" by (simp add: sample_kmem2_def store64_other)
qed (simp_all add: sample_kmem2_def valid_page_def aligned_def hdr)

theorem mappages_then_walkaddr_witness:
  "\<exists>k'. mappages sample_kmem2 0x80001000 0x5000 (of_nat (4096 * Suc 0)) 0x80007000 (PTE_R OR PTE_U) = Inr (k', 0) \<and>
    walkaddr k' 0x80001000 (0x5000 + of_nat (4096 * 0)) = Inr (0x80007000 + of_nat (4096 * 0))"
proof -
  let ?perm = "PTE_R OR PTE_U"
  have pt: "ptable sample_kmem2 [0x80002000, 0x80003000, 0x80004000] 0x80001000"
    "\<forall>a\<in>va_run 0x5000 0. \<not> pte_valid (vmap sample_kmem2 0x80001000 a)"
    using sample_ptable2 by simp_all
  have c: "aligned 0x5000" "unat (0x5000 :: uint64) + 4096 * 0 < unat MAXVA" "?perm < 2 ^ 10"
    "?perm AND PTE_U \<noteq> 0" "aligned 0x80007000" "unat (0x80007000 :: uint64) + 4096 * 0 < 2 ^ 56"
    by (simp_all add: aligned_def hdr)
  obtain k' r where m: "mappages sample_kmem2 0x80001000 0x5000 (of_nat (4096 * Suc 0)) 0x80007000 ?perm = Inr (k', r)"
    and run: "mapped_run sample_kmem2 [0x80002000, 0x80003000, 0x80004000] k' 0x80001000 0x5000 0 0x80007000 ?perm r"
    using mappages_spec [OF pt(1) c(1,2) pt(2)] by blast
  have "r = 0" using run by (auto simp: mapped_run_def)
  then show ?thesis using mappages_then_walkaddr [OF pt(1) c(1,2) pt(2) c(3-6), of k' 0] m by auto
qed

end
