(* ===== verification/UserCopy.thy ===== *)
theory UserCopy
  imports VmSpec
begin

text \<open>
  What \<open>copyin\<close>, \<open>copyinstr\<close> and \<open>copyout\<close> of \<open>vm.c\<close> do to user memory, stated on the translation of
  single user addresses: the page-by-page loops read and write exactly the bytes of the range.
\<close>

section \<open>Addresses inside a page\<close>

lemma in_same_page:
  assumes "i < 4096 - unat va mod 4096"
  shows "unat (va + of_nat i) = unat va + i \<and> PGROUNDDOWN (va + of_nat i) = PGROUNDDOWN va"
proof -
  have b: "unat va < 2 ^ 64" using unsigned_less [of va] by simp
  define q r where "q = unat va div 4096" and "r = unat va mod 4096"
  have "unat va = 4096 * q + r" by (simp add: q_def r_def)
  moreover have "q < 2 ^ 52" using b by (simp add: q_def div_less_iff_less_mult)
  ultimately have "unat va + i < 2 ^ 64" using assms unfolding r_def [symmetric] by simp
  then have u: "unat (va + of_nat i) = unat va + i" by (rule unat_offset_no_wrap)
  have "(unat va + i) div 4096 = unat va div 4096"
    using assms \<open>unat va = 4096 * q + r\<close> unfolding q_def [symmetric] r_def [symmetric] by simp
  then have "unat (PGROUNDDOWN (va + of_nat i)) = unat (PGROUNDDOWN va)" by (simp add: pgrounddown_unat u)
  then show ?thesis using u by (simp add: word_unat_eq_iff)
qed

lemma next_page_eq:
  assumes "page_rest va len < len"
  shows "PGROUNDDOWN va + 4096 = va + of_nat (page_rest va len)"
proof -
  have r: "page_rest va len = 4096 - unat va mod 4096" using assms by (auto simp: page_rest_eq)
  have o: "of_nat (unat va mod 4096) = va - PGROUNDDOWN va"
    using page_offset [of va] by (simp only: page_offset [symmetric]) simp
  have "of_nat (4096 - unat va mod 4096) = (4096 :: uint64) - of_nat (unat va mod 4096)"
    by (subst of_nat_diff) (simp_all add: less_imp_le)
  then show ?thesis unfolding r by (simp only: o) simp
qed

lemma page_offset_add:
  assumes "i < 4096 - unat va mod 4096"
  shows "va + of_nat i - PGROUNDDOWN (va + of_nat i) = (va - PGROUNDDOWN va) + of_nat i"
  using in_same_page [OF assms] by simp

section \<open>Translation of a user address\<close>

definition user_addr :: "kmem \<Rightarrow> uint64 \<Rightarrow> uint64 \<Rightarrow> uint64 option" where
  "user_addr k pt va =
     (case walkaddr k pt (PGROUNDDOWN va) of
        Inl _ \<Rightarrow> None
      | Inr pa \<Rightarrow> if pa = 0 then None else Some (pa + (va - PGROUNDDOWN va)))"

lemma user_addr_page:
  assumes "user_addr k pt va = Some a"
  obtains pa where "walkaddr k pt (PGROUNDDOWN va) = Inr pa" and "pa \<noteq> 0"
    and "\<And>i. i < 4096 - unat va mod 4096 \<Longrightarrow>
      user_addr k pt (va + of_nat i) = Some (pa + (va - PGROUNDDOWN va) + of_nat i)"
proof -
  obtain pa where pa: "walkaddr k pt (PGROUNDDOWN va) = Inr pa" "pa \<noteq> 0"
    using assms by (auto simp: user_addr_def split: sum.splits if_splits)
  moreover have "user_addr k pt (va + of_nat i) = Some (pa + (va - PGROUNDDOWN va) + of_nat i)"
    if "i < 4096 - unat va mod 4096" for i
    using in_same_page [OF that] page_offset_add [OF that] pa by (simp add: user_addr_def add.assoc)
  ultimately show thesis using that by blast
qed

text \<open>The user bytes of a range.\<close>

definition user_bytes :: "kmem \<Rightarrow> uint64 \<Rightarrow> uint64 \<Rightarrow> nat \<Rightarrow> bytes" where
  "user_bytes k pt va n = map (\<lambda>i. phys k (the (user_addr k pt (va + of_nat i)))) [0..<n]"

definition user_mapped :: "kmem \<Rightarrow> uint64 \<Rightarrow> uint64 \<Rightarrow> nat \<Rightarrow> bool" where
  "user_mapped k pt va n \<longleftrightarrow> (\<forall>i<n. user_addr k pt (va + of_nat i) \<noteq> None)"

lemma length_user_bytes [simp]: "length (user_bytes k pt va n) = n"
  by (simp add: user_bytes_def)

lemma user_bytes_add:
  "user_bytes k pt va (m + n) = user_bytes k pt va m @ user_bytes k pt (va + of_nat m) n"
  by (rule nth_equalityI) (auto simp: user_bytes_def nth_append algebra_simps simp flip: of_nat_add)

lemma user_mapped_add:
  "user_mapped k pt va (m + n) \<longleftrightarrow> user_mapped k pt va m \<and> user_mapped k pt (va + of_nat m) n"
proof -
  have "user_mapped k pt (va + of_nat m) n \<longleftrightarrow> (\<forall>i<n. user_addr k pt (va + of_nat (m + i)) \<noteq> None)"
    by (simp add: user_mapped_def add.assoc)
  also have "\<dots> \<longleftrightarrow> (\<forall>j. m \<le> j \<and> j < m + n \<longrightarrow> user_addr k pt (va + of_nat j) \<noteq> None)"
    by (metis add_less_cancel_left le_Suc_ex le_add1)
  finally show ?thesis unfolding user_mapped_def by (metis not_le trans_less_add1)
qed

lemma load_user_page:
  assumes "user_addr k pt va \<noteq> None" and "n \<le> 4096 - unat va mod 4096"
    and "walkaddr k pt (PGROUNDDOWN va) = Inr pa"
  shows "load_bytes (phys k) (pa + (va - PGROUNDDOWN va)) n = user_bytes k pt va n"
proof -
  obtain a where "user_addr k pt va = Some a" using assms(1) by blast
  then obtain q where "walkaddr k pt (PGROUNDDOWN va) = Inr q"
    "\<And>i. i < 4096 - unat va mod 4096 \<Longrightarrow>
      user_addr k pt (va + of_nat i) = Some (q + (va - PGROUNDDOWN va) + of_nat i)"
    by (rule user_addr_page) blast
  then show ?thesis
    using assms(2,3) by (intro nth_equalityI) (auto simp: user_bytes_def simp del: of_nat_add)
qed

section \<open>copyin\<close>

lemma copyin_mapped:
  "user_mapped k pt va len \<Longrightarrow> copyin p k pt va len = Inr (k, 0, user_bytes k pt va len)"
proof (induction len arbitrary: va rule: less_induct)
  case (less len)
  show ?case
  proof (cases "len = 0")
    case True
    then show ?thesis by (simp add: copyin.simps user_bytes_def)
  next
    case False
    define n where "n = page_rest va len"
    have n: "0 < n" "n \<le> len" "n \<le> 4096 - unat va mod 4096"
      using False by (auto simp: n_def page_rest_eq)
    have u: "user_addr k pt va \<noteq> None" using less.prems False by (auto simp: user_mapped_def)
    then obtain pa where pa: "walkaddr k pt (PGROUNDDOWN va) = Inr pa" "pa \<noteq> 0"
      by (auto elim: user_addr_page)
    have rest: "copyin p k pt (PGROUNDDOWN va + 4096) (len - n) =
        Inr (k, 0, user_bytes k pt (va + of_nat n) (len - n))"
    proof (cases "n < len")
      case True
      then have "PGROUNDDOWN va + 4096 = va + of_nat n" unfolding n_def by (rule next_page_eq)
      moreover have "user_mapped k pt (va + of_nat n) (len - n)"
        using less.prems n(2) user_mapped_add [of k pt va n "len - n"] by simp
      ultimately show ?thesis using less.IH [of "len - n"] n True by simp
    next
      case False
      then show ?thesis using n by (simp add: copyin.simps user_bytes_def)
    qed
    have "user_bytes k pt va len = user_bytes k pt va n @ user_bytes k pt (va + of_nat n) (len - n)"
      using user_bytes_add [of k pt va n "len - n"] n(2) by simp
    then show ?thesis
      using rest pa False load_user_page [OF u n(3) pa(1)]
      by (subst copyin.simps) (simp add: Let_def page_for_def n_def [symmetric])
  qed
qed

text \<open>
  \<open>copyin\<close> of a range whose pages are all mapped for the user returns 0, leaves the machine as
  it is, and delivers the user bytes of the range, whatever pages it spans.
\<close>

theorem copyin_correct:
  assumes "user_mapped k pt va len"
  shows "copyin p k pt va len = Inr (k, 0, user_bytes k pt va len)"
  using assms by (rule copyin_mapped)

section \<open>copyinstr\<close>

lemma copy_until_nul_eq:
  "copy_until_nul m a n =
    (if 0 \<in> set (load_bytes m a n) then (cstr (load_bytes m a n) @ [0], True) else (load_bytes m a n, False))"
proof (induction n arbitrary: a)
  case 0
  then show ?case by (simp add: load_bytes_def)
next
  case (Suc n)
  have "load_bytes m a (Suc n) = m a # load_bytes m (a + 1) n"
    by (simp add: load_bytes_def upt_conv_Cons map_Suc_upt [symmetric] comp_def add.assoc del: upt_Suc)
  then show ?case using Suc [of "a + 1"] by (auto split: prod.splits)
qed

text \<open>A user string of length \<open>j\<close> at \<open>va\<close>: \<open>j\<close> characters and a NUL.\<close>

definition user_string :: "kmem \<Rightarrow> uint64 \<Rightarrow> uint64 \<Rightarrow> bytes \<Rightarrow> bool" where
  "user_string k pt va cs \<longleftrightarrow> 0 \<notin> set cs \<and> user_mapped k pt va (Suc (length cs)) \<and>
     user_bytes k pt va (Suc (length cs)) = cs @ [0]"

lemma user_bytes_nth: "i < n \<Longrightarrow> user_bytes k pt va n ! i = phys k (the (user_addr k pt (va + of_nat i)))"
  by (simp add: user_bytes_def)

lemma user_bytes_take: "m \<le> n \<Longrightarrow> user_bytes k pt va m = take m (user_bytes k pt va n)"
  by (simp add: user_bytes_def take_map)

lemma user_string_drop:
  assumes "user_string k pt va cs" and "n \<le> length cs"
  shows "user_string k pt (va + of_nat n) (drop n cs) \<and> user_bytes k pt va n = take n cs"
proof -
  have len: "Suc (length cs) = n + Suc (length (drop n cs))" using assms(2) by simp
  have "user_bytes k pt va n @ user_bytes k pt (va + of_nat n) (Suc (length (drop n cs))) = cs @ [0]"
    using assms(1) unfolding user_string_def len user_bytes_add by blast
  then have "user_bytes k pt va n = take n cs"
    "user_bytes k pt (va + of_nat n) (Suc (length (drop n cs))) = drop n cs @ [0]"
    using assms(2) by (auto simp: append_eq_conv_conj)
  moreover have "user_mapped k pt (va + of_nat n) (Suc (length (drop n cs)))"
    using assms(1) unfolding user_string_def len user_mapped_add by blast
  ultimately show ?thesis using assms(1) by (auto simp: user_string_def dest: in_set_dropD)
qed

lemma copyinstr_string:
  "user_string k pt va cs \<Longrightarrow> length cs < max_len \<Longrightarrow> copyinstr k pt va max_len = Inr (0, cs @ [0])"
proof (induction "length cs" arbitrary: va cs max_len rule: less_induct)
  case less
  define n where "n = page_rest va max_len"
  have n: "0 < n" "n \<le> max_len" "n \<le> 4096 - unat va mod 4096"
    using less.prems(2) by (auto simp: n_def page_rest_eq)
  have u: "user_addr k pt va \<noteq> None"
    using less.prems(1) unfolding user_string_def user_mapped_def by (auto dest: spec [of _ 0])
  then obtain pa where pa: "walkaddr k pt (PGROUNDDOWN va) = Inr pa" "pa \<noteq> 0"
    by (auto elim: user_addr_page)
  have load: "load_bytes (phys k) (pa + (va - PGROUNDDOWN va)) n = user_bytes k pt va n"
    by (rule load_user_page [OF u n(3) pa(1)])
  show ?case
  proof (cases "length cs < n")
    case True
    then have "take (Suc (length cs)) (user_bytes k pt va n) = cs @ [0]"
      using user_bytes_take [of "Suc (length cs)" n k pt va] less.prems(1) by (simp add: user_string_def)
    then obtain ys where "user_bytes k pt va n = cs @ 0 # ys"
      by (metis append.assoc append_Cons append_Nil append_take_drop_id)
    then have "copy_until_nul (phys k) (pa + (va - PGROUNDDOWN va)) n = (cs @ [0], True)"
      using less.prems(1) load by (simp add: copy_until_nul_eq cstr_append_NUL user_string_def)
    then show ?thesis
      using pa less.prems(2) by (subst copyinstr.simps) (simp add: Let_def n_def [symmetric])
  next
    case False
    then have D: "user_string k pt (va + of_nat n) (drop n cs)" "user_bytes k pt va n = take n cs"
      using user_string_drop [OF less.prems(1)] by auto
    have "n < max_len" using False less.prems(2) by simp
    then have "PGROUNDDOWN va + 4096 = va + of_nat n" unfolding n_def by (rule next_page_eq)
    then have rest: "copyinstr k pt (PGROUNDDOWN va + 4096) (max_len - n) = Inr (0, drop n cs @ [0])"
      using less.hyps [OF _ D(1), of "max_len - n"] False n(1) less.prems(2) by auto
    have "0 \<notin> set (take n cs)" using less.prems(1) by (auto simp: user_string_def dest: in_set_takeD)
    then have "copy_until_nul (phys k) (pa + (va - PGROUNDDOWN va)) n = (take n cs, False)"
      using load D(2) by (simp add: copy_until_nul_eq)
    then show ?thesis
      using pa rest \<open>n < max_len\<close> by (subst copyinstr.simps) (simp add: Let_def n_def [symmetric])
  qed
qed

section \<open>copyout\<close>

text \<open>
  A user address space: a page table whose user pages are aligned, lie outside its tables and the free
  list, and are mapped once.
\<close>

definition upage :: "kmem \<Rightarrow> uint64 \<Rightarrow> uint64 \<Rightarrow> uint64 option" where
  "upage k pt va = (case walkaddr k pt va of Inl _ \<Rightarrow> None | Inr pa \<Rightarrow> if pa = 0 then None else Some pa)"

definition uspace :: "kmem \<Rightarrow> uint64 list \<Rightarrow> uint64 \<Rightarrow> bool" where
  "uspace k ps pt \<longleftrightarrow> ptable k ps pt \<and>
     (\<forall>va pa. upage k pt va = Some pa \<longrightarrow> aligned pa \<and> pa \<notin> set ps \<and> pa \<notin> tabs 2 (phys k) pt) \<and>
     (\<forall>va va' pa. upage k pt va = Some pa \<and> upage k pt va' = Some pa \<and> aligned va \<and> aligned va' \<longrightarrow> va = va')"

definition writable :: "kmem \<Rightarrow> uint64 \<Rightarrow> uint64 \<Rightarrow> nat \<Rightarrow> bool" where
  "writable k pt va n \<longleftrightarrow> user_mapped k pt va n \<and>
     (\<forall>i<n. vmap k pt (PGROUNDDOWN (va + of_nat i)) AND PTE_W \<noteq> 0)"

lemma upage_below: "upage k pt va = Some pa \<Longrightarrow> va < MAXVA \<and> pa \<noteq> 0"
  by (auto simp: upage_def walkaddr_def split: sum.splits if_splits)

lemma user_addr_upage:
  "user_addr k pt va = map_option (\<lambda>pa. pa + (va - PGROUNDDOWN va)) (upage k pt (PGROUNDDOWN va))"
  by (auto simp: user_addr_def upage_def split: sum.splits)

lemma in_page_offset: "aligned p \<Longrightarrow> unat d < 4096 \<Longrightarrow> in_page p (p + d)"
  by (simp add: in_page_def)

text \<open>Writing inside a user page changes neither the page table nor the free list.\<close>

lemma uspace_store:
  assumes u: "uspace k ps pt" and pa: "upage k pt va = Some pa"
    and m: "\<And>x. \<not> in_page pa x \<Longrightarrow> m x = phys k x"
  shows "uspace (k\<lparr>phys := m\<rparr>) ps pt \<and> upage (k\<lparr>phys := m\<rparr>) pt = upage k pt \<and>
    vmap (k\<lparr>phys := m\<rparr>) pt = vmap k pt"
proof -
  let ?k = "k\<lparr>phys := m\<rparr>"
  have p: "aligned pa" "pa \<notin> set ps" "pa \<notin> tabs 2 (phys k) pt" "ptable k ps pt"
    using u pa unfolding uspace_def by blast+
  have ok: "pt_ok 2 (phys k) pt" using p(4) by (simp add: ptable_def)
  have T: "tabs 2 m pt = tabs 2 (phys k) pt \<and> pt_ok 2 m pt = pt_ok 2 (phys k) pt \<and>
      leaf 2 m pt = leaf 2 (phys k) pt"
  proof (rule tree_cong)
    fix q x
    assume q: "q \<in> tabs 2 (phys k) pt" "in_page q x"
    then have "\<not> in_page pa x" using in_page_unique [OF p(1) tabs_aligned [OF ok q(1)]] p(3) by blast
    then show "m x = phys k x" by (rule m)
  qed
  have "wf_kmem ?k ps" using wf_kmem_store [OF _ p(1,2) m] p(4) by (simp add: ptable_def)
  then have pt: "ptable ?k ps pt" using T p(4) by (simp add: ptable_def valid_page_def)
  have v: "vmap ?k pt = vmap k pt" using T by (simp add: fun_eq_iff vmap_def)
  have "walkaddr ?k pt a = walkaddr k pt a" for a
  proof (cases "a < MAXVA")
    case True
    then show ?thesis using walkaddr_vmap [OF pt] walkaddr_vmap [OF p(4)] v by simp
  qed (simp add: walkaddr_def not_less)
  then have up: "upage ?k pt = upage k pt" by (simp add: upage_def fun_eq_iff)
  have "uspace ?k ps pt" using u pt T unfolding uspace_def up by simp
  then show ?thesis using up v by blast
qed

lemma walk_writable:
  assumes "ptable k ps pt" and "va < MAXVA" and "vmap k pt va AND PTE_W \<noteq> 0"
  shows "\<exists>pte. walk k pt va False = Inr (k, pte) \<and> pte \<noteq> 0 \<and> load64 (phys k) pte = vmap k pt va"
proof -
  obtain k' a where w: "walk_from 2 k pt va False = (k', a)" by (cases "walk_from 2 k pt va False")
  have "a \<noteq> 0"
  proof
    assume "a = 0"
    then have "vmap k pt va = 0"
      using walk_from_missing [OF _ ptable_nonzero [OF assms(1)], of va k'] w assms(1)
      by (simp add: vmap_def ptable_def)
    then show False using assms(3) by simp
  qed
  then show ?thesis using walk_from_found [OF w] w assms(2) by (auto simp: walk_def vmap_def not_le)
qed

lemma store_bytes_in_page:
  assumes "aligned pa" and "unat d + length cs \<le> 4096" and "\<not> in_page pa x"
  shows "store_bytes m (pa + d) cs x = m x"
proof -
  have "\<not> unat (x - (pa + d)) < length cs"
  proof
    assume less: "unat (x - (pa + d)) < length cs"
    have "unat (d + of_nat (unat (x - (pa + d)))) = unat d + unat (x - (pa + d))"
      using less assms(2) by (intro unat_offset_no_wrap) simp
    moreover have "d + of_nat (unat (x - (pa + d))) = x - pa" by simp
    ultimately show False using less assms(2,3) by (simp add: in_page_def)
  qed
  then show ?thesis by (simp add: store_bytes_def)
qed

text \<open>The bytes of the user address space after a write inside one page.\<close>

lemma store_user_page:
  assumes u: "uspace k ps pt" and pa: "upage k pt (PGROUNDDOWN va) = Some pa"
    and n: "length cs \<le> 4096 - unat va mod 4096"
    and k1: "k1 = k\<lparr>phys := store_bytes (phys k) (pa + (va - PGROUNDDOWN va)) cs\<rparr>"
  shows "uspace k1 ps pt \<and> upage k1 pt = upage k pt \<and> vmap k1 pt = vmap k pt \<and>
    (\<forall>v a. user_addr k pt v = Some a \<longrightarrow>
      phys k1 a = (if unat (v - va) < length cs then cs ! unat (v - va) else phys k a))"
proof -
  let ?d = "va - PGROUNDDOWN va"
  have "unat va mod 4096 < 4096" by simp
  then have d: "unat ?d + length cs \<le> 4096" using n by (simp only: page_offset)
  have al: "aligned pa" using u pa unfolding uspace_def by blast
  note out = store_bytes_in_page [OF al d]
  have "phys k1 a = (if unat (v - va) < length cs then cs ! unat (v - va) else phys k a)"
    if v: "user_addr k pt v = Some a" for v a
  proof -
    obtain q where q: "upage k pt (PGROUNDDOWN v) = Some q" "a = q + (v - PGROUNDDOWN v)"
      using v by (auto simp: user_addr_upage)
    show ?thesis
    proof (cases "PGROUNDDOWN v = PGROUNDDOWN va")
      case True
      then have "q = pa" using q(1) pa by simp
      then have e: "a - (pa + ?d) = v - va" using q(2) True by simp
      have "phys k1 = store_bytes (phys k) (pa + ?d) cs" by (simp add: k1)
      then show ?thesis by (simp only: store_bytes_def e)
    next
      case False
      have "q \<noteq> pa" using False u q(1) pa unfolding uspace_def by (metis aligned_pgrounddown)
      moreover have "aligned q" "in_page q a"
        using u q by (auto simp: uspace_def in_page_def page_offset)
      ultimately have "\<not> in_page pa a" using in_page_unique [OF al] by blast
      then have "phys k1 a = phys k a" using out by (simp add: k1)
      moreover have "\<not> unat (v - va) < length cs"
      proof
        assume "unat (v - va) < length cs"
        then have "unat (v - va) < 4096 - unat va mod 4096" using n by simp
        then show False using in_same_page [of "unat (v - va)" va] False by simp
      qed
      ultimately show ?thesis by simp
    qed
  qed
  moreover have "uspace k1 ps pt \<and> upage k1 pt = upage k pt \<and> vmap k1 pt = vmap k pt"
    unfolding k1 by (rule uspace_store [OF u pa]) (rule out)
  ultimately show ?thesis by blast
qed

lemma range_split:
  assumes "n \<le> len" and "len < 2 ^ 64"
  shows "unat w < len \<longleftrightarrow> unat w < n \<or> unat (w - of_nat n :: uint64) < len - n"
    and "\<not> unat w < n \<Longrightarrow> unat (w - of_nat n :: uint64) = unat w - n"
    and "unat w < n \<Longrightarrow> \<not> unat (w - of_nat n :: uint64) < len - n"
proof -
  have n: "unat (of_nat n :: uint64) = n" using assms by (intro unat_of_nat64) simp
  have s: "unat (w - of_nat n :: uint64) = (if n \<le> unat w then unat w - n else unat w + 2 ^ 64 - n)"
    using unat_sub_if_size [of w "of_nat n"] unfolding n word_size by simp
  show "unat w < len \<longleftrightarrow> unat w < n \<or> unat (w - of_nat n :: uint64) < len - n"
    using s assms by auto
  show "\<not> unat w < n \<Longrightarrow> unat (w - of_nat n :: uint64) = unat w - n" using s by simp
  show "unat w < n \<Longrightarrow> \<not> unat (w - of_nat n :: uint64) < len - n" using s assms by simp
qed

lemma writable_add: "writable k pt va (m + n) \<Longrightarrow> writable k pt (va + of_nat m) n"
  unfolding writable_def user_mapped_add by (metis add.assoc nat_add_left_cancel_less of_nat_add)

lemma copyout_step:
  assumes u: "uspace k ps pt" and w: "writable k pt va (length src)" and "src \<noteq> []"
    and n: "n = page_rest va (length src)"
  obtains pa where "upage k pt (PGROUNDDOWN va) = Some pa"
    and "copyout p k pt va src =
      copyout p (k\<lparr>phys := store_bytes (phys k) (pa + (va - PGROUNDDOWN va)) (take n src)\<rparr>) pt
        (PGROUNDDOWN va + 4096) (drop n src)"
proof -
  have m: "user_addr k pt va \<noteq> None" "vmap k pt (PGROUNDDOWN va) AND PTE_W \<noteq> 0"
    using w assms(3) unfolding writable_def user_mapped_def by (auto dest: spec [of _ 0])
  then obtain pa where pa: "upage k pt (PGROUNDDOWN va) = Some pa" by (auto simp: user_addr_upage)
  have below: "PGROUNDDOWN va < MAXVA" "pa \<noteq> 0" using upage_below [OF pa] by auto
  have wa: "walkaddr k pt (PGROUNDDOWN va) = Inr pa"
    using pa by (auto simp: upage_def split: sum.splits if_splits)
  obtain pte where "walk k pt (PGROUNDDOWN va) False = Inr (k, pte)" "pte \<noteq> 0"
    "load64 (phys k) pte = vmap k pt (PGROUNDDOWN va)"
    using walk_writable [OF _ below(1) m(2)] u unfolding uspace_def by blast
  then have "copyout p k pt va src =
      copyout p (k\<lparr>phys := store_bytes (phys k) (pa + (va - PGROUNDDOWN va)) (take n src)\<rparr>) pt
        (PGROUNDDOWN va + 4096) (drop n src)"
    using assms(3) below wa m(2) leD [of MAXVA "PGROUNDDOWN va"]
    by (subst copyout.simps) (auto simp: Let_def page_for_def n)
  then show thesis using pa that by blast
qed

lemma copyout_writable:
  "uspace k ps pt \<Longrightarrow> writable k pt va (length src) \<Longrightarrow> length src < 2 ^ 64 \<Longrightarrow>
    \<exists>k'. copyout p k pt va src = Inr (k', 0) \<and> uspace k' ps pt \<and> upage k' pt = upage k pt \<and>
      vmap k' pt = vmap k pt \<and>
      (\<forall>v a. user_addr k pt v = Some a \<longrightarrow>
        phys k' a = (if unat (v - va) < length src then src ! unat (v - va) else phys k a))"
proof (induction "length src" arbitrary: k va src rule: less_induct)
  case less
  show ?case
  proof (cases "src = []")
    case True
    then show ?thesis using less.prems(1) by (simp add: copyout.simps)
  next
    case False
    define n where "n = page_rest va (length src)"
    have n: "0 < n" "n \<le> length src" "length (take n src) \<le> 4096 - unat va mod 4096"
      using False by (auto simp: n_def page_rest_eq)
    obtain pa where pa: "upage k pt (PGROUNDDOWN va) = Some pa" and
      c: "copyout p k pt va src =
        copyout p (k\<lparr>phys := store_bytes (phys k) (pa + (va - PGROUNDDOWN va)) (take n src)\<rparr>) pt
          (PGROUNDDOWN va + 4096) (drop n src)"
      by (rule copyout_step [OF less.prems(1,2) False n_def])
    define k1 where "k1 = k\<lparr>phys := store_bytes (phys k) (pa + (va - PGROUNDDOWN va)) (take n src)\<rparr>"
    note S = store_user_page [OF less.prems(1) pa n(3) k1_def]
    have ua: "user_addr k1 pt = user_addr k pt" using S by (simp add: fun_eq_iff user_addr_upage)
    have "writable k1 pt (va + of_nat n) (length (drop n src))"
      using writable_add [of k pt va n "length src - n"] less.prems(2) n(2) S ua
      by (simp add: writable_def user_mapped_def)
    then obtain k' where k': "copyout p k1 pt (va + of_nat n) (drop n src) = Inr (k', 0)"
      "uspace k' ps pt" "upage k' pt = upage k1 pt" "vmap k' pt = vmap k1 pt"
      "\<forall>v a. user_addr k1 pt v = Some a \<longrightarrow> phys k' a =
        (if unat (v - (va + of_nat n)) < length src - n then drop n src ! unat (v - (va + of_nat n)) else phys k1 a)"
      using less.hyps [of "drop n src" k1 "va + of_nat n"] less.prems(3) n(1,2) S by fastforce
    have "copyout p k1 pt (PGROUNDDOWN va + 4096) (drop n src) = copyout p k1 pt (va + of_nat n) (drop n src)"
      using next_page_eq [of va "length src"] n(2) unfolding n_def [symmetric]
      by (cases "n = length src") (auto simp: copyout.simps)
    with c k'(1) have c': "copyout p k pt va src = Inr (k', 0)" by (simp add: k1_def)
    have "phys k' a = (if unat (v - va) < length src then src ! unat (v - va) else phys k a)"
      if "user_addr k pt v = Some a" for v a
    proof -
      define w where "w = v - va"
      have w: "v - (va + of_nat n) = w - of_nat n" by (simp add: w_def)
      have "phys k' a = (if unat (w - of_nat n) < length src - n then drop n src ! unat (w - of_nat n) else phys k1 a)"
        using k'(5) [rule_format, of v a] that unfolding ua w by blast
      moreover have "phys k1 a = (if unat w < n then src ! unat w else phys k a)"
        using S that n(2) unfolding w_def by simp
      ultimately show ?thesis
        using range_split [OF n(2) less.prems(3), of w] n(2) unfolding w_def [symmetric]
        by (cases "unat w < n") simp_all
    qed
    then show ?thesis using c' k' S by auto
  qed
qed

lemma written_bytes:
  assumes "writable k pt va (length src)" and "length src < 2 ^ 64" and "upage k' pt = upage k pt"
    and "\<forall>v a. user_addr k pt v = Some a \<longrightarrow> phys k' a = (if unat (v - va) < length src then src ! unat (v - va) else phys k a)"
  shows "user_bytes k' pt va (length src) = src"
proof (rule nth_equalityI)
  have ua: "user_addr k' pt = user_addr k pt" using assms(3) by (simp add: fun_eq_iff user_addr_upage)
  fix i
  assume i: "i < length (user_bytes k' pt va (length src))"
  then obtain a where "user_addr k pt (va + of_nat i) = Some a"
    using assms(1) by (auto simp: writable_def user_mapped_def)
  then show "user_bytes k' pt va (length src) ! i = src ! i"
    using assms(4) i ua unat_of_nat64 [of i] assms(2) by (simp add: user_bytes_nth)
qed simp

text \<open>
  C9. \<open>copyout\<close> to a range that is mapped for the user and writable returns 0; afterwards every user
  address of the range holds the corresponding byte of the source, every other user address keeps its
  byte, and the page table is as before. Reading the range back with \<open>copyin\<close> gives the source.
\<close>

theorem copyout_correct:
  assumes "uspace k ps pt" and "writable k pt va (length src)" and "length src < 2 ^ 64"
  shows "\<exists>k'. copyout p k pt va src = Inr (k', 0) \<and> uspace k' ps pt \<and> vmap k' pt = vmap k pt \<and>
    copyin q k' pt va (length src) = Inr (k', 0, src) \<and>
    (\<forall>v a. user_addr k pt v = Some a \<and> \<not> unat (v - va) < length src \<longrightarrow>
      user_addr k' pt v = Some a \<and> phys k' a = phys k a)"
proof -
  obtain k' where k': "copyout p k pt va src = Inr (k', 0)" "uspace k' ps pt" "upage k' pt = upage k pt"
    "vmap k' pt = vmap k pt"
    "\<forall>v a. user_addr k pt v = Some a \<longrightarrow>
        phys k' a = (if unat (v - va) < length src then src ! unat (v - va) else phys k a)"
    using copyout_writable [OF assms] by blast
  have ua: "user_addr k' pt = user_addr k pt" using k'(3) by (simp add: fun_eq_iff user_addr_upage)
  have m: "user_mapped k' pt va (length src)"
    using assms(2) ua by (simp add: writable_def user_mapped_def)
  show ?thesis using k' ua copyin_mapped [OF m] written_bytes [OF assms(2,3) k'(3,5)] by auto
qed

text \<open>
  \<open>copyinstr\<close> of a mapped user string that fits in \<open>max\<close> bytes with its terminator returns 0 and
  delivers the characters up to and including the NUL, also across page boundaries.
\<close>

theorem copyinstr_correct:
  assumes "user_string k pt va cs" and "length cs < max_len"
  shows "copyinstr k pt va max_len = Inr (0, cs @ [0])"
  using assms by (rule copyinstr_string)

section \<open>A small address space\<close>

text \<open>Three tables that map the user page at \<open>0x5000\<close> to the physical page \<open>0x80007000\<close>.\<close>

definition sample_mem :: mem where
  "sample_mem = store64 (store64 (store64 (\<lambda>_. 0) (slot 0x80001000 0) (PA2PTE 0x80002000 OR PTE_V))
     (slot 0x80002000 0) (PA2PTE 0x80003000 OR PTE_V))
     (slot 0x80003000 5) (PA2PTE 0x80007000 OR (PTE_R OR PTE_W OR PTE_U) OR PTE_V)"

definition sample_user :: kmem where
  "sample_user = \<lparr>kernel_end = 0x80001000, phys = sample_mem, freelist = 0\<rparr>"

lemma entry_store_other:
  assumes "aligned p" and "aligned q" and "p \<noteq> q" and "i < 512" and "j < 512"
  shows "entry (store64 m (slot p i) e) q j = entry m q j"
proof (rule entry_cong [OF assms(5)])
  fix x
  assume "in_page q x"
  then have "\<not> in_page p x" using in_page_unique [of p q x] assms(1-3) by blast
  then show "store64 m (slot p i) e x = m x" by (rule store64_outside [OF assms(4)])
qed

lemma sample_aligned:
  "aligned 0x80001000" "aligned 0x80002000" "aligned 0x80003000" "aligned 0x80007000"
  by (simp_all add: aligned_def)

lemma sample_entries:
  assumes "j < 512"
  shows "entry sample_mem 0x80001000 j = (if j = 0 then PA2PTE 0x80002000 OR PTE_V else 0)"
    and "entry sample_mem 0x80002000 j = (if j = 0 then PA2PTE 0x80003000 OR PTE_V else 0)"
    and "entry sample_mem 0x80003000 j =
      (if j = 5 then PA2PTE 0x80007000 OR (PTE_R OR PTE_W OR PTE_U) OR PTE_V else 0)"
  using assms sample_aligned
  by (simp_all add: sample_mem_def entry_store entry_store_other) (simp_all add: entry_def load64_zero)

lemma sample_children: "PTE2PA (PA2PTE 0x80002000 OR PTE_V) = 0x80002000"
  "PTE2PA (PA2PTE 0x80003000 OR PTE_V) = 0x80003000"
  "PTE2PA (PA2PTE 0x80007000 OR (PTE_R OR PTE_W OR PTE_U) OR PTE_V) = 0x80007000"
  "pte_valid (PA2PTE 0x80002000 OR PTE_V)" "pte_valid (PA2PTE 0x80003000 OR PTE_V)"
  by (simp_all add: PTE2PA_def PA2PTE_def hdr)

lemma sample_tabs1: "tabs 1 sample_mem 0x80002000 = {0x80002000, 0x80003000}"
proof -
  have "{i. i < 512 \<and> pte_valid (entry sample_mem 0x80002000 i)} = {0}"
    using sample_entries(2) sample_children(5) by (auto split: if_splits)
  then show ?thesis using sample_entries(2) [of 0] sample_children(2) by simp
qed

lemma sample_tabs2: "tabs 2 sample_mem 0x80001000 = {0x80001000, 0x80002000, 0x80003000}"
proof -
  have "{i. i < 512 \<and> pte_valid (entry sample_mem 0x80001000 i)} = {0}"
    using sample_entries(1) sample_children(4) by (auto split: if_splits)
  then show ?thesis
    using sample_entries(1) [of 0] sample_children(1) sample_tabs1 by (simp add: numeral_2_eq_2)
qed

lemma sample_pt_ok: "pt_ok 2 sample_mem 0x80001000"
proof -
  have "pt_ok 1 sample_mem 0x80002000"
    using sample_entries(2) sample_children sample_aligned by (auto split: if_splits)
  moreover have "pt_ok 2 sample_mem 0x80001000 = pt_ok (Suc 1) sample_mem 0x80001000"
    by (simp add: numeral_2_eq_2)
  ultimately show ?thesis
    using sample_entries(1) sample_children sample_aligned sample_tabs1 unfolding pt_ok.simps(2)
    by (auto split: if_splits simp del: One_nat_def pt_ok.simps tabs.simps)
qed

lemma sample_vmap: "vmap sample_user 0x80001000 va =
    (if px 2 va = 0 \<and> px 1 va = 0 \<and> px 0 va = 5
     then PA2PTE 0x80007000 OR (PTE_R OR PTE_W OR PTE_U) OR PTE_V else 0)"
  using sample_entries(1) [OF px_less, of 2 va] sample_entries(2) [OF px_less, of 1 va]
    sample_entries(3) [OF px_less, of 0 va] sample_children
  by (cases "px 2 va = 0"; cases "px 1 va = 0") (simp_all add: vmap_def sample_user_def numeral_2_eq_2)

lemma sample_ptable_user: "ptable sample_user [] 0x80001000"
  using sample_pt_ok sample_tabs2 sample_aligned
  by (simp add: ptable_def sample_user_def wf_kmem_def valid_page_def hdr)

lemma sample_upage:
  "upage sample_user 0x80001000 va =
    (if va < MAXVA \<and> px 2 va = 0 \<and> px 1 va = 0 \<and> px 0 va = 5 then Some 0x80007000 else None)"
proof (cases "va < MAXVA")
  case True
  have "(PA2PTE 0x80007000 OR (PTE_R OR PTE_W OR PTE_U) OR PTE_V) AND PTE_U \<noteq> 0"
    "pte_valid (PA2PTE 0x80007000 OR (PTE_R OR PTE_W OR PTE_U) OR PTE_V)"
    by (simp_all add: PA2PTE_def hdr)
  then show ?thesis
    using walkaddr_vmap [OF sample_ptable_user True] True sample_children(3) sample_vmap [of va]
    by (simp add: upage_def)
next
  case False
  then show ?thesis by (simp add: upage_def walkaddr_def not_less)
qed

lemma sample_uspace: "uspace sample_user [] 0x80001000"
proof -
  have "va = va'"
    if "upage sample_user 0x80001000 va = Some pa" "upage sample_user 0x80001000 va' = Some pa"
      "aligned va" "aligned va'" for va va' pa
    using that pages_eq_iff [of va' va] by (auto simp: sample_upage numeral_2_eq_2 le_Suc_eq split: if_splits)
  moreover have "pa = 0x80007000" if "upage sample_user 0x80001000 va = Some pa" for va pa
    using that by (auto simp: sample_upage split: if_splits)
  moreover have "0x80007000 \<notin> tabs 2 (phys sample_user) 0x80001000"
    using sample_tabs2 by (simp add: sample_user_def)
  ultimately show ?thesis
    using sample_ptable_user sample_aligned unfolding uspace_def by fastforce
qed

lemma sample_pgrounddown:
  "PGROUNDDOWN 0x5ABC = 0x5000" "PGROUNDDOWN 0x5ABD = 0x5000" "PGROUNDDOWN 0x5ABE = 0x5000"
  by (simp_all add: PGROUNDDOWN_def)

lemma sample_5000: "upage sample_user 0x80001000 0x5000 = Some 0x80007000"
  by (simp add: sample_upage px_def PX_def hdr)

lemma sample_writable: "writable sample_user 0x80001000 0x5ABC 2"
proof -
  have "vmap sample_user 0x80001000 0x5000 AND PTE_W \<noteq> 0"
    by (simp add: sample_vmap px_def PX_def PA2PTE_def hdr)
  then show ?thesis
    by (auto simp: writable_def user_mapped_def user_addr_upage sample_pgrounddown sample_5000
        less_Suc_eq numeral_2_eq_2)
qed

theorem copyin_correct_witness:
  "copyin (0, 0) sample_user 0x80001000 0x5ABC 2 = Inr (sample_user, 0, user_bytes sample_user 0x80001000 0x5ABC 2)"
  by (rule copyin_correct) (use sample_writable in \<open>simp add: writable_def\<close>)

theorem copyout_correct_witness:
  "\<exists>k'. copyout (0, 0) sample_user 0x80001000 0x5ABC [7, 8] = Inr (k', 0) \<and> uspace k' [] 0x80001000 \<and>
    vmap k' 0x80001000 = vmap sample_user 0x80001000 \<and>
    copyin (0, 0) k' 0x80001000 0x5ABC (length [7 :: uchar, 8]) = Inr (k', 0, [7, 8]) \<and>
    (\<forall>v a. user_addr sample_user 0x80001000 v = Some a \<and> \<not> unat (v - 0x5ABC) < length [7 :: uchar, 8] \<longrightarrow>
      user_addr k' 0x80001000 v = Some a \<and> phys k' a = phys sample_user a)"
proof (rule copyout_correct [OF sample_uspace])
  have len: "length [7 :: uchar, 8] = 2" by simp
  show "writable sample_user 0x80001000 0x5ABC (length [7 :: uchar, 8])" unfolding len by (rule sample_writable)
  show "length [7 :: uchar, 8] < 2 ^ 64" unfolding len by simp
qed

theorem copyinstr_correct_witness:
  "copyinstr sample_user 0x80001000 0x5ABC 8 = Inr (0, [] @ [0])"
proof (rule copyinstr_correct)
  have "phys sample_user 0x80007ABC = 0"
    by (simp add: sample_user_def sample_mem_def store64_def store_bytes_def slot_def)
  then show "user_string sample_user 0x80001000 0x5ABC []"
    using sample_writable
    by (simp add: user_string_def writable_def user_mapped_def user_bytes_def user_addr_upage
        sample_pgrounddown sample_5000 numeral_2_eq_2)
qed simp

end
