(* ===== verification/CacheSig.thy ===== *)
theory CacheSig
  imports CString
begin

text \<open>
  The pure part of Pattern B, \<open>kernel/cache.c\<close>: the FNV-1a key of a (role, prompt) pair and the
  MinHash signature of a prompt. A prompt is the list of the bytes from the pointer to the end of its
  array. The signature is characterised by the set of the prompt's content words, so that word order,
  repetition, letter case, punctuation and filler words cannot change it.
\<close>

definition CACHE_NSLOT :: nat where [hdr]: "CACHE_NSLOT = 64"
definition CACHE_VALLEN :: nat where [hdr]: "CACHE_VALLEN = 192"
definition CACHE_ROLELEN :: nat where [hdr]: "CACHE_ROLELEN = 16"
definition CACHE_SIG_K :: nat where [hdr]: "CACHE_SIG_K = 16"
definition CACHE_SIG_NUM :: int where [hdr]: "CACHE_SIG_NUM = 2"
definition CACHE_SIG_DEN :: int where [hdr]: "CACHE_SIG_DEN = 5"

definition FNV_BASIS :: uint64 where "FNV_BASIS = 1469598103934665603"
definition FNV_PRIME :: uint64 where "FNV_PRIME = 1099511628211"

section \<open>Exact keys\<close>

text \<open>\<open>for (s = role; *s; s++) { h ^= (uchar)*s; h *= prime; }\<close>\<close>

fun fnv_string :: "uint64 \<Rightarrow> bytes \<Rightarrow> uint64 res" where
  "fnv_string h [] = Inl OutOfBounds"
| "fnv_string h (c # s) = (if c = 0 then Inr h else fnv_string ((h XOR ucast c) * FNV_PRIME) s)"

definition cache_fnv1a :: "bytes \<Rightarrow> bytes \<Rightarrow> uint64 res" where
  "cache_fnv1a role prompt =
     bindE (fnv_string FNV_BASIS role) (\<lambda>h.
     bindE (fnv_string ((h XOR ucast (of_char CHR ''|'' :: uchar)) * FNV_PRIME) prompt) (\<lambda>h.
     Inr (if h = 0 then 1 else h)))"

definition fnv_fold :: "uint64 \<Rightarrow> bytes \<Rightarrow> uint64" where
  "fnv_fold h cs = fold (\<lambda>c h. (h XOR ucast c) * FNV_PRIME) cs h"

lemma fnv_string_eq: "terminated s \<Longrightarrow> fnv_string h s = Inr (fnv_fold h (cstr s))"
  by (induction h s rule: fnv_string.induct) (auto simp: fnv_fold_def)

lemma cache_fnv1a_eq:
  assumes "terminated role" and "terminated prompt"
  shows "cache_fnv1a role prompt =
    (let h = fnv_fold FNV_BASIS (cstr role @ [of_char CHR ''|''] @ cstr prompt) in Inr (if h = 0 then 1 else h))"
  using assms by (simp add: cache_fnv1a_def fnv_string_eq Let_def) (simp add: fnv_fold_def)

lemma cache_fnv1a_nonzero: "cache_fnv1a role prompt = Inr h \<Longrightarrow> h \<noteq> 0"
  by (auto simp: cache_fnv1a_def split: if_splits)

section \<open>Signatures\<close>

definition stopwords :: "bytes list" where
  "stopwords = map lit
     [''the'', ''a'', ''an'', ''please'', ''to'', ''of'', ''and'', ''is'', ''are'', ''in'', ''on'',
      ''at'', ''for'', ''with'', ''this'', ''that'', ''it'', ''be'', ''can'', ''you'', ''me'']"

text \<open>
  \<open>while (stopwords[i][j] && stopwords[i][j] == w[j]) j++;\<close> and the test that both strings end at \<open>j\<close>.
\<close>

fun same_word :: "bytes \<Rightarrow> bytes \<Rightarrow> bool res" where
  "same_word (a # s) (b # w) =
     (if a \<noteq> 0 \<and> a = b then same_word s w else Inr (a = 0 \<and> b = 0))"
| "same_word _ _ = Inl OutOfBounds"

fun stopword_scan :: "bytes list \<Rightarrow> bytes \<Rightarrow> bool res" where
  "stopword_scan [] w = Inr False"
| "stopword_scan (s # ss) w = bindE (same_word s w) (\<lambda>b. if b then Inr True else stopword_scan ss w)"

definition is_stopword :: "bytes \<Rightarrow> bool res" where
  "is_stopword w = stopword_scan stopwords w"

definition word_h1 :: "bytes \<Rightarrow> uint64" where
  "word_h1 w = fold (\<lambda>c h. (h XOR ucast c) * 1099511628211) w 1469598103934665603"

definition word_h2 :: "bytes \<Rightarrow> uint64" where
  "word_h2 w = fold (\<lambda>c h. (h XOR ucast c) * 1469598103934665603) w 1099511628211 OR 1"

text \<open>The two loops of \<open>sig_fold_word\<close>; \<open>word\<close> is the list of its \<open>len\<close> characters.\<close>

definition sig_fold_word :: "uint64 list \<Rightarrow> bytes \<Rightarrow> uint64 list" where
  "sig_fold_word sig word =
     (let h1 = word_h1 word; h2 = word_h2 word
      in map (\<lambda>k. let hk = h1 + of_nat k * h2 in if hk < sig ! k then hk else sig ! k) [0..<CACHE_SIG_K])"

definition lower :: "uchar \<Rightarrow> uchar" where
  "lower c = (if of_char CHR ''A'' \<le> c \<and> c \<le> of_char CHR ''Z''
     then c - of_char CHR ''A'' + of_char CHR ''a'' else c)"

definition alnum :: "uchar \<Rightarrow> bool" where
  "alnum c \<longleftrightarrow> of_char CHR ''a'' \<le> c \<and> c \<le> of_char CHR ''z'' \<or>
     of_char CHR ''0'' \<le> c \<and> c \<le> of_char CHR ''9''"

text \<open>
  The loop over the prompt: \<open>word\<close> holds the \<open>wl\<close> characters collected so far, at most 31 of them.
\<close>

fun sig_loop :: "bytes \<Rightarrow> bytes \<Rightarrow> uint64 list \<Rightarrow> uint64 list res" where
  "sig_loop [] word sig = Inl OutOfBounds"
| "sig_loop (b # p) word sig =
     (let c = lower b
      in if alnum c then sig_loop p (if length word < 31 then word @ [c] else word) sig
         else bindE (if word \<noteq> []
                     then bindE (is_stopword (word @ [0])) (\<lambda>stop.
                          Inr (if stop then sig else sig_fold_word sig word))
                     else Inr sig)
              (\<lambda>sig. if c = 0 then Inr sig else sig_loop p [] sig))"

definition cache_sig :: "bytes \<Rightarrow> uint64 list res" where
  "cache_sig prompt = sig_loop prompt [] (replicate CACHE_SIG_K (NOT 0))"

definition sig_match :: "uint64 list \<Rightarrow> uint64 list \<Rightarrow> int" where
  "sig_match a b = fold (\<lambda>k m. if a ! k = b ! k then m + 1 else m) [0..<CACHE_SIG_K] 0"

definition sig_over_threshold :: "int \<Rightarrow> bool" where
  "sig_over_threshold match \<longleftrightarrow> match * CACHE_SIG_DEN \<ge> CACHE_SIG_NUM * int CACHE_SIG_K"

section \<open>The content words of a prompt\<close>

text \<open>The maximal alphanumeric runs of a text, in lower case and cut to 31 characters.\<close>

fun runs :: "bytes \<Rightarrow> bytes \<Rightarrow> bytes list" where
  "runs [] word = (if word = [] then [] else [word])"
| "runs (b # p) word =
     (if alnum (lower b) then runs p (word @ [lower b])
      else (if word = [] then [] else [word]) @ runs p [])"

definition content_words :: "bytes \<Rightarrow> bytes list" where
  "content_words cs = filter (\<lambda>w. w @ [0] \<notin> set stopwords) (map (take 31) (runs cs []))"

definition word_hash :: "nat \<Rightarrow> bytes \<Rightarrow> uint64" where
  "word_hash k w = word_h1 w + of_nat k * word_h2 w"

definition signature :: "bytes set \<Rightarrow> uint64 list" where
  "signature W = map (\<lambda>k. Min (insert (- 1) (word_hash k ` W))) [0..<CACHE_SIG_K]"

lemma same_word_eq:
  "0 \<notin> set s \<Longrightarrow> 0 \<notin> set w \<Longrightarrow> same_word (s @ [0]) (w @ [0]) = Inr (s = w)"
proof (induction s arbitrary: w)
  case Nil
  then show ?case by (cases w) auto
next
  case (Cons a s)
  then show ?case by (cases w) auto
qed

lemma stopword_scan_eq:
  "0 \<notin> set w \<Longrightarrow> \<forall>s\<in>set ss. \<exists>u. s = u @ [0] \<and> 0 \<notin> set u \<Longrightarrow>
    stopword_scan ss (w @ [0]) = Inr (w @ [0] \<in> set ss)"
  by (induction ss) (auto simp: same_word_eq)

lemma stopwords_literals: "\<forall>s\<in>set stopwords. \<exists>u. s = u @ [0] \<and> 0 \<notin> set u"
  by (simp add: stopwords_def lit_def bytes_of_def)

lemma is_stopword_eq: "0 \<notin> set w \<Longrightarrow> is_stopword (w @ [0]) = Inr (w @ [0] \<in> set stopwords)"
  unfolding is_stopword_def using stopwords_literals by (intro stopword_scan_eq)

lemma alnum_nonzero: "alnum c \<Longrightarrow> c \<noteq> 0"
  by (auto simp: alnum_def word_le_nat_alt)

lemma lower_0_iff [simp]: "lower c = 0 \<longleftrightarrow> c = 0"
proof
  assume "lower c = 0"
  show "c = 0"
  proof (cases "of_char CHR ''A'' \<le> c \<and> c \<le> of_char CHR ''Z''")
    case True
    then have "unat c \<le> 90" by (simp add: word_le_nat_alt)
    moreover have "c + 32 = 0" using \<open>lower c = 0\<close> True by (simp add: lower_def add.commute)
    moreover have "unat (c + 32) = (unat c + 32) mod 256" by (simp add: unat_word_ariths(1))
    ultimately show ?thesis by simp
  qed (use \<open>lower c = 0\<close> in \<open>simp add: lower_def split: if_splits\<close>)
qed (simp add: lower_def)

lemma alnum_0 [simp]: "\<not> alnum 0"
  using alnum_nonzero by blast

definition fold_words :: "bytes list \<Rightarrow> uint64 list \<Rightarrow> uint64 list" where
  "fold_words ws sig = fold (\<lambda>w s. sig_fold_word s w) (filter (\<lambda>w. w @ [0] \<notin> set stopwords) ws) sig"

lemma fold_words_simps [simp]:
  "fold_words [] sig = sig"
  "fold_words (w # ws) sig =
    fold_words ws (if w @ [0] \<in> set stopwords then sig else sig_fold_word sig w)"
  "fold_words (us @ ws) sig = fold_words ws (fold_words us sig)"
  by (simp_all add: fold_words_def)

lemma sig_loop_words:
  "terminated p \<Longrightarrow> \<forall>c\<in>set w. alnum c \<Longrightarrow>
    sig_loop p (take 31 w) sig = Inr (fold_words (map (take 31) (runs (cstr p) w)) sig)"
proof (induction p arbitrary: w sig)
  case Nil
  then show ?case by simp
next
  case (Cons b p)
  have ok: "0 \<notin> set (take 31 w)" using Cons.prems(2) alnum_nonzero by (auto dest: in_set_takeD)
  show ?case
  proof (cases "alnum (lower b)")
    case True
    then have "b \<noteq> 0" using alnum_nonzero by force
    moreover have "(if length (take 31 w) < 31 then take 31 w @ [lower b] else take 31 w) = take 31 (w @ [lower b])"
      by simp
    ultimately show ?thesis using Cons.IH [of "w @ [lower b]"] Cons.prems True by (simp add: Let_def)
  next
    case False
    have "sig_loop p [] sig' = Inr (fold_words (map (take 31) (runs (cstr p) [])) sig')" if "b \<noteq> 0" for sig'
      using Cons.IH [of "[]" sig'] Cons.prems(1) that by simp
    then show ?thesis using False ok by (auto simp: Let_def is_stopword_eq)
  qed
qed

lemma sig_fold_word_signature:
  assumes "finite W"
  shows "sig_fold_word (signature W) w = signature (insert w W)"
proof (rule nth_equalityI)
  fix k
  assume "k < length (sig_fold_word (signature W) w)"
  then have k: "k < CACHE_SIG_K" by (simp add: sig_fold_word_def Let_def)
  define a M where "a = word_hash k w" and "M = Min (insert (- 1) (word_hash k ` W))"
  have "Min (insert a (insert (- 1) (word_hash k ` W))) = min a M"
    unfolding M_def using assms by (intro Min_insert) auto
  then have "signature (insert w W) ! k = min a M"
    using k by (simp only: signature_def nth_map_upt image_insert a_def insert_commute) simp
  moreover have "sig_fold_word (signature W) w ! k = (if a < M then a else M)"
    using k by (simp add: sig_fold_word_def signature_def Let_def a_def M_def word_hash_def)
  ultimately show "sig_fold_word (signature W) w ! k = signature (insert w W) ! k"
    by (simp add: min_def order_less_le)
qed (simp add: sig_fold_word_def signature_def Let_def)

lemma fold_signature:
  "finite W \<Longrightarrow> fold (\<lambda>w s. sig_fold_word s w) ws (signature W) = signature (W \<union> set ws)"
  by (induction ws arbitrary: W) (simp_all add: sig_fold_word_signature)

lemma signature_empty: "signature {} = replicate CACHE_SIG_K (- 1)"
  by (simp add: signature_def map_replicate_const)

lemma cache_sig_eq:
  assumes "terminated prompt"
  shows "cache_sig prompt = Inr (signature (set (content_words (cstr prompt))))"
  using sig_loop_words [OF assms, of "[]" "signature {}"] fold_signature [of "{}"]
  by (simp add: cache_sig_def signature_empty [symmetric] fold_words_def content_words_def)

lemma length_signature [simp]: "length (signature W) = CACHE_SIG_K"
  by (simp add: signature_def)

lemma sig_match_eq: "sig_match a b = int (card {k. k < CACHE_SIG_K \<and> a ! k = b ! k})"
proof -
  have "fold (\<lambda>k m. if a ! k = b ! k then m + 1 else m) [0..<n] 0 = int (card {k. k < n \<and> a ! k = b ! k})" for n
  proof (induction n)
    case (Suc n)
    have "{k. k < Suc n \<and> a ! k = b ! k} = {k. k < n \<and> a ! k = b ! k} \<union> (if a ! n = b ! n then {n} else {})"
      by (auto simp: less_Suc_eq)
    then show ?case using Suc by (simp add: card_insert_if)
  qed simp
  then show ?thesis by (simp add: sig_match_def)
qed

lemma sig_match_self: "sig_match a a = int CACHE_SIG_K"
  by (simp add: sig_match_eq)

lemma threshold_iff: "sig_over_threshold m \<longleftrightarrow> 7 \<le> m"
  by (auto simp: sig_over_threshold_def hdr)

text \<open>
  C40. \<open>cache_sig\<close> reads a NUL-terminated prompt without leaving it and returns the MinHash signature
  of the set of its content words: position \<open>k\<close> is the least value of the \<open>k\<close>-th hash function on the
  set, and all ones for the empty set.
\<close>

theorem cache_sig_is_minhash:
  assumes "terminated prompt"
  shows "cache_sig prompt = Inr (signature (set (content_words (cstr prompt))))"
  using assms by (rule cache_sig_eq)

theorem cache_sig_is_minhash_witness:
  "cache_sig (lit ''Fix it'') = Inr (signature (set (content_words (cstr (lit ''Fix it'')))))"
  using cache_sig_is_minhash [of "lit ''Fix it''"] by simp

text \<open>
  Paraphrases hit: two prompts with the same set of content words have the same signature, which
  passes the threshold; in general the threshold is passed exactly when the signatures agree in at
  least 7 of the 16 positions.
\<close>

theorem paraphrase_hits:
  assumes "terminated p" and "terminated q" and "set (content_words (cstr p)) = set (content_words (cstr q))"
  shows "\<exists>s. cache_sig p = Inr s \<and> cache_sig q = Inr s \<and> sig_over_threshold (sig_match s s) \<and>
    (\<forall>t. sig_over_threshold (sig_match s t) \<longleftrightarrow> 7 \<le> card {k. k < 16 \<and> s ! k = t ! k})"
  using assms cache_sig_eq
  by (auto simp: threshold_iff sig_match_eq CACHE_SIG_K_def)

theorem paraphrase_hits_witness:
  "\<exists>s. cache_sig (lit ''List files!'') = Inr s \<and> cache_sig (lit ''the FILES, list files'') = Inr s \<and>
    sig_over_threshold (sig_match s s) \<and>
    (\<forall>t. sig_over_threshold (sig_match s t) \<longleftrightarrow> 7 \<le> card {k. k < 16 \<and> s ! k = t ! k})"
proof (rule paraphrase_hits)
  show "set (content_words (cstr (lit ''List files!''))) = set (content_words (cstr (lit ''the FILES, list files'')))"
    by (simp add: content_words_def stopwords_def alnum_def lower_def insert_commute)
qed simp_all

text \<open>
  The key that \<open>cache_fnv1a\<close> computes is the FNV-1a hash of the text \<open>role|prompt\<close>, with 0 replaced by
  1: it is never the mark of an empty slot, and pairs that spell the same text have the same key.
\<close>

theorem cache_fnv1a_correct:
  assumes "terminated role" and "terminated prompt"
  shows "\<exists>h. cache_fnv1a role prompt = Inr h \<and> h \<noteq> 0 \<and>
    (let f = fnv_fold FNV_BASIS (cstr role @ [of_char CHR ''|''] @ cstr prompt) in h = (if f = 0 then 1 else f))"
  using assms by (simp add: cache_fnv1a_eq Let_def)

theorem cache_fnv1a_correct_witness:
  "\<exists>h. cache_fnv1a (lit ''a'') (lit ''b|c'') = Inr h \<and> h \<noteq> 0 \<and>
    (let f = fnv_fold FNV_BASIS (cstr (lit ''a'') @ [of_char CHR ''|''] @ cstr (lit ''b|c''))
     in h = (if f = 0 then 1 else f))"
  by (rule cache_fnv1a_correct) simp_all

end
