(* ===== verification/Log.thy ===== *)
theory Log
  imports Codec
begin

text \<open>
  \<open>kernel/log.c\<close>: the redo log that makes file-system updates atomic across crashes.

  The state holds the durable disk, the contents of every block as the buffer cache presents it
  (\<open>bview\<close>: the cached copy of a cached block, the disk copy of any other), the fields of
  \<open>struct log\<close>, and the history of the sector writes the device has received, oldest first, from
  which the disk after a crash is computed. \<open>bread\<close> reads \<open>bview\<close>; \<open>bwrite\<close> sends a block to the
  device; the reference counts of the buffers (\<open>bpin\<close>, \<open>brelse\<close>) are the subject of theory
  \<open>Bio\<close>. Each operation is one critical section of \<open>log.lock\<close>.
\<close>

section \<open>State\<close>

definition BSIZE :: nat where [hdr]: "BSIZE = 1024"
definition MAXOPBLOCKS :: int where [hdr]: "MAXOPBLOCKS = 10"
definition LOGBLOCKS :: nat where [hdr]: "LOGBLOCKS = 30"

record logstate =
  disk :: "uint \<Rightarrow> bytes"
  bview :: "uint \<Rightarrow> bytes"
  hist :: "(uint \<times> bytes) list"
  log_start :: uint
  log_outstanding :: int
  log_committing :: bool
  lh_n :: int
  lh_block :: "uint list"

definition bread :: "logstate \<Rightarrow> uint \<Rightarrow> bytes" where
  "bread s b = bview s b"

definition buf_store :: "logstate \<Rightarrow> uint \<Rightarrow> bytes \<Rightarrow> logstate" where
  "buf_store s b d = s\<lparr>bview := (bview s)(b := d)\<rparr>"

definition bwrite :: "logstate \<Rightarrow> uint \<Rightarrow> logstate" where
  "bwrite s b = s\<lparr>disk := (disk s)(b := bview s b), hist := hist s @ [(b, bview s b)]\<rparr>"

section \<open>Operations\<close>

text \<open>
  The loops over \<open>tail < log.lh.n\<close> count the remaining iterations; the access to
  \<open>log.lh.block[tail]\<close> is in bounds only for \<open>tail < LOGBLOCKS\<close>.
\<close>

fun install_steps :: "logstate \<Rightarrow> nat \<Rightarrow> nat \<Rightarrow> logstate res" where
  "install_steps s tail 0 = Inr s"
| "install_steps s tail (Suc k) =
     (if tail < LOGBLOCKS then
        (let lbuf = bread s (log_start s + of_nat tail + 1);
             dst = lh_block s ! tail;
             s1 = bwrite (buf_store s dst lbuf) dst
         in install_steps s1 (Suc tail) k)
      else Inl OutOfBounds)"

definition install_trans :: "logstate \<Rightarrow> logstate res" where
  "install_trans s = install_steps s 0 (nat (lh_n s))"

fun read_blocks :: "bytes \<Rightarrow> uint list \<Rightarrow> nat \<Rightarrow> nat \<Rightarrow> uint list res" where
  "read_blocks buf blk i 0 = Inr blk"
| "read_blocks buf blk i (Suc k) =
     (if i < LOGBLOCKS then read_blocks buf (blk[i := peek32 buf (4 + 4 * i)]) (Suc i) k
      else Inl OutOfBounds)"

definition read_head :: "logstate \<Rightarrow> logstate res" where
  "read_head s =
     (let buf = bread s (log_start s); n = sint (peek32 buf 0)
      in mapE (\<lambda>blk. s\<lparr>lh_n := n, lh_block := blk\<rparr>) (read_blocks buf (lh_block s) 0 (nat n)))"

fun write_blocks :: "bytes \<Rightarrow> uint list \<Rightarrow> nat \<Rightarrow> nat \<Rightarrow> bytes res" where
  "write_blocks buf blk i 0 = Inr buf"
| "write_blocks buf blk i (Suc k) =
     (if i < LOGBLOCKS then write_blocks (poke32 buf (4 + 4 * i) (blk ! i)) blk (Suc i) k
      else Inl OutOfBounds)"

definition write_head :: "logstate \<Rightarrow> logstate res" where
  "write_head s =
     (let buf = bread s (log_start s); hb = poke32 buf 0 (word_of_int (lh_n s))
      in mapE (\<lambda>hb'. bwrite (buf_store s (log_start s) hb') (log_start s))
           (write_blocks hb (lh_block s) 0 (nat (lh_n s))))"

definition recover_from_log :: "logstate \<Rightarrow> logstate res" where
  "recover_from_log s =
     bindE (read_head s) (\<lambda>s1.
     bindE (install_trans s1) (\<lambda>s2.
     write_head (s2\<lparr>lh_n := 0\<rparr>)))"

text \<open>\<open>initlog\<close>: the header always fits in a block (124 of 1024 bytes), so its panic is dead code.\<close>

definition initlog :: "logstate \<Rightarrow> uint \<Rightarrow> logstate res" where
  "initlog s logstart =
     (if 4 + 4 * LOGBLOCKS \<ge> BSIZE then Inl (Panic ''initlog: too big logheader'')
      else recover_from_log (s\<lparr>log_start := logstart\<rparr>))"

definition begin_op :: "logstate \<Rightarrow> logstate res" where
  "begin_op s =
     (if log_committing s then Inl Blocked
      else if lh_n s + (log_outstanding s + 1) * MAXOPBLOCKS > int LOGBLOCKS then Inl Blocked
      else Inr (s\<lparr>log_outstanding := log_outstanding s + 1\<rparr>))"

fun write_log_steps :: "logstate \<Rightarrow> nat \<Rightarrow> nat \<Rightarrow> logstate res" where
  "write_log_steps s tail 0 = Inr s"
| "write_log_steps s tail (Suc k) =
     (if tail < LOGBLOCKS then
        (let from = bread s (lh_block s ! tail);
             to = log_start s + of_nat tail + 1;
             s1 = bwrite (buf_store s to from) to
         in write_log_steps s1 (Suc tail) k)
      else Inl OutOfBounds)"

definition write_log :: "logstate \<Rightarrow> logstate res" where
  "write_log s = write_log_steps s 0 (nat (lh_n s))"

definition commit :: "logstate \<Rightarrow> logstate res" where
  "commit s =
     (if lh_n s > 0 then
        bindE (write_log s) (\<lambda>s1.
        bindE (write_head s1) (\<lambda>s2.
        bindE (install_trans s2) (\<lambda>s3.
        write_head (s3\<lparr>lh_n := 0\<rparr>))))
      else Inr s)"

definition end_op :: "logstate \<Rightarrow> logstate res" where
  "end_op s =
     (let s1 = s\<lparr>log_outstanding := log_outstanding s - 1\<rparr> in
      if log_committing s1 then Inl (Panic ''log.committing'')
      else if log_outstanding s1 = 0 then
        mapE (\<lambda>s2. s2\<lparr>log_committing := False\<rparr>) (commit (s1\<lparr>log_committing := True\<rparr>))
      else Inr s1)"

text \<open>
  \<open>log_write(b)\<close> after the caller changed \<open>b->data\<close>: absorb a block that is already in the
  transaction, otherwise append its number (and pin the buffer).
\<close>

definition log_write :: "logstate \<Rightarrow> uint \<Rightarrow> logstate res" where
  "log_write s b =
     (if lh_n s \<ge> int LOGBLOCKS then Inl (Panic ''too big a transaction'')
      else if log_outstanding s < 1 then Inl (Panic ''log_write outside of trans'')
      else (let n = nat (lh_n s) in
        case find_idx (\<lambda>x. x = b) (take n (lh_block s)) of
          Some i \<Rightarrow> Inr (s\<lparr>lh_block := (lh_block s)[i := b]\<rparr>)
        | None \<Rightarrow> Inr (s\<lparr>lh_block := (lh_block s)[n := b], lh_n := lh_n s + 1\<rparr>)))"

text \<open>
  A crash loses memory and keeps the disk. After the reboot the buffer cache is empty and
  \<open>struct log\<close> is zero.
\<close>

definition reboot :: "(uint \<Rightarrow> bytes) \<Rightarrow> logstate" where
  "reboot d = \<lparr>disk = d, bview = d, hist = [], log_start = 0, log_outstanding = 0,
     log_committing = False, lh_n = 0, lh_block = replicate LOGBLOCKS 0\<rparr>"

section \<open>Invariant\<close>

definition logged :: "logstate \<Rightarrow> uint list" where
  "logged s = take (nat (lh_n s)) (lh_block s)"

text \<open>The header and the first \<open>n\<close> slots of the log.\<close>

definition log_area :: "uint \<Rightarrow> nat \<Rightarrow> uint set" where
  "log_area st n = {st + of_nat i |i. i \<le> n}"

text \<open>
  The invariant between operations: the header is in bounds, no block is logged twice, no logged
  block lies in the part of the log in use, only logged blocks differ from their disk copy, the header on disk
  says that the log is empty, and every block is \<open>BSIZE\<close> bytes long.
\<close>

definition wf_header :: "logstate \<Rightarrow> bool" where
  "wf_header s \<longleftrightarrow> 0 \<le> lh_n s \<and> lh_n s \<le> int LOGBLOCKS \<and> length (lh_block s) = LOGBLOCKS \<and>
     distinct (logged s) \<and> set (logged s) \<inter> log_area (log_start s) (nat (lh_n s)) = {}"

definition wf_view :: "logstate \<Rightarrow> bool" where
  "wf_view s \<longleftrightarrow> (\<forall>b. b \<notin> set (logged s) \<longrightarrow> bview s b = disk s b) \<and>
     (\<forall>b. length (bview s b) = BSIZE) \<and> (\<forall>b. length (disk s b) = BSIZE) \<and>
     peek32 (disk s (log_start s)) 0 = 0"

definition wf_log :: "logstate \<Rightarrow> bool" where
  "wf_log s \<longleftrightarrow> wf_header s \<and> wf_view s"

section \<open>Sequences of sector writes\<close>

definition apply_writes :: "(uint \<Rightarrow> bytes) \<Rightarrow> (uint \<times> bytes) list \<Rightarrow> uint \<Rightarrow> bytes" where
  "apply_writes d ws = foldl (\<lambda>d (b, x). d(b := x)) d ws"

lemma apply_writes_simps [simp]:
  "apply_writes d [] = d"
  "apply_writes d ((b, x) # ws) = apply_writes (d(b := x)) ws"
  "apply_writes d (ws @ ws') = apply_writes (apply_writes d ws) ws'"
  by (simp_all add: apply_writes_def)

lemma apply_writes_other: "b \<notin> fst ` set ws \<Longrightarrow> apply_writes d ws b = d b"
  by (induction ws arbitrary: d) auto

lemma apply_writes_in:
  "distinct (map fst ws) \<Longrightarrow> (b, x) \<in> set ws \<Longrightarrow> apply_writes d ws b = x"
  by (induction ws arbitrary: d) (auto simp: apply_writes_other)

lemma apply_writes_cases:
  "apply_writes d ws b = d b \<or> (b, apply_writes d ws b) \<in> set ws"
proof (induction ws arbitrary: d)
  case Nil
  then show ?case by simp
next
  case (Cons w ws)
  obtain a x where w: "w = (a, x)" by (cases w)
  have "apply_writes (d(a := x)) ws b = (d(a := x)) b \<or>
      (b, apply_writes (d(a := x)) ws b) \<in> set ws"
    by (rule Cons.IH)
  then show ?case by (cases "b = a") (auto simp: w)
qed

lemma apply_writes_len:
  assumes "\<And>b. length (d b) = n" and "\<And>b x. (b, x) \<in> set ws \<Longrightarrow> length x = n"
  shows "length (apply_writes d ws b) = n"
  using apply_writes_cases [of d ws b] assms by metis

text \<open>The effect of writing blocks through the cache to the device.\<close>

definition written :: "logstate \<Rightarrow> (uint \<times> bytes) list \<Rightarrow> logstate" where
  "written s ws = s\<lparr>disk := apply_writes (disk s) ws, bview := apply_writes (bview s) ws,
     hist := hist s @ ws\<rparr>"

lemma written_sel [simp]:
  "disk (written s ws) = apply_writes (disk s) ws"
  "bview (written s ws) = apply_writes (bview s) ws"
  "hist (written s ws) = hist s @ ws"
  "log_start (written s ws) = log_start s"
  "lh_n (written s ws) = lh_n s"
  "lh_block (written s ws) = lh_block s"
  "log_outstanding (written s ws) = log_outstanding s"
  "log_committing (written s ws) = log_committing s"
  by (simp_all add: written_def)

lemma written_append [simp]: "written (written s ws) ws' = written s (ws @ ws')"
  by (simp add: written_def)

lemma written_Nil [simp]: "written s [] = s"
  by (simp add: written_def)

lemma written_lh [simp]: "written (s\<lparr>lh_n := k\<rparr>) ws = (written s ws)\<lparr>lh_n := k\<rparr>"
  by (simp add: written_def)

lemma bwrite_written: "bwrite (buf_store s b d) b = written s [(b, d)]"
  by (simp add: bwrite_def buf_store_def written_def)

text \<open>Both loops of the log copy blocks, write-through, from a source to a destination.\<close>

fun copy_blocks :: "logstate \<Rightarrow> (uint \<times> uint) list \<Rightarrow> logstate" where
  "copy_blocks s [] = s"
| "copy_blocks s ((dst, src) # ps) = copy_blocks (written s [(dst, bview s src)]) ps"

abbreviation copied :: "logstate \<Rightarrow> (uint \<times> uint) list \<Rightarrow> (uint \<times> bytes) list" where
  "copied s ps \<equiv> map (\<lambda>(dst, src). (dst, bview s src)) ps"

lemma copy_blocks_eq:
  "fst ` set ps \<inter> snd ` set ps = {} \<Longrightarrow> copy_blocks s ps = written s (copied s ps)"
proof (induction s ps rule: copy_blocks.induct)
  case (1 s)
  then show ?case by simp
next
  case (2 s dst src ps)
  let ?s1 = "written s [(dst, bview s src)]"
  have cp: "copied ?s1 ps = copied s ps"
    using "2.prems" by force
  have "fst ` set ps \<inter> snd ` set ps = {}"
    using "2.prems" by auto
  then have "copy_blocks ?s1 ps = written ?s1 (copied s ps)"
    using "2.IH" unfolding cp by blast
  then show ?case by simp
qed

abbreviation slot :: "uint \<Rightarrow> nat \<Rightarrow> uint" where
  "slot st i \<equiv> st + of_nat i + 1"

lemma install_steps_copy:
  "tail + k \<le> LOGBLOCKS \<Longrightarrow>
   install_steps s tail k =
     Inr (copy_blocks s (map (\<lambda>i. (lh_block s ! i, slot (log_start s) i)) [tail..<tail + k]))"
  by (induction s tail k rule: install_steps.induct)
    (auto simp: Let_def bwrite_written bread_def upt_conv_Cons simp del: upt_Suc)

lemma write_log_steps_copy:
  "tail + k \<le> LOGBLOCKS \<Longrightarrow>
   write_log_steps s tail k =
     Inr (copy_blocks s (map (\<lambda>i. (slot (log_start s) i, lh_block s ! i)) [tail..<tail + k]))"
  by (induction s tail k rule: write_log_steps.induct)
    (auto simp: Let_def bwrite_written bread_def upt_conv_Cons simp del: upt_Suc)

section \<open>The header block\<close>

lemma write_blocks_spec:
  "i + k \<le> LOGBLOCKS \<Longrightarrow> length buf = BSIZE \<Longrightarrow>
   \<exists>hb. write_blocks buf blk i k = Inr hb \<and> length hb = BSIZE \<and>
        (\<forall>j. i \<le> j \<and> j < i + k \<longrightarrow> peek32 hb (4 + 4 * j) = blk ! j) \<and>
        (\<forall>off. off + 4 \<le> 4 + 4 * i \<longrightarrow> peek32 hb off = peek32 buf off)"
proof (induction buf blk i k rule: write_blocks.induct)
  case (1 buf blk i)
  then show ?case by auto
next
  case (2 buf blk i k)
  let ?buf = "poke32 buf (4 + 4 * i) (blk ! i)"
  have len: "length ?buf = BSIZE" and fits: "4 + 4 * i + 4 \<le> length buf"
    using "2.prems" by (simp_all add: hdr)
  obtain hb where hb: "write_blocks ?buf blk (Suc i) k = Inr hb" "length hb = BSIZE"
    "\<forall>j. Suc i \<le> j \<and> j < Suc i + k \<longrightarrow> peek32 hb (4 + 4 * j) = blk ! j"
    "\<forall>off. off + 4 \<le> 4 + 4 * Suc i \<longrightarrow> peek32 hb off = peek32 ?buf off"
    using "2.IH" len "2.prems" by auto
  have eq: "peek32 hb (4 + 4 * i) = blk ! i"
    using hb(4) fits by simp
  have "peek32 hb (4 + 4 * j) = blk ! j" if "i \<le> j" "j < i + Suc k" for j
    using that eq hb(3) by (cases "j = i") auto
  moreover have "\<forall>off. off + 4 \<le> 4 + 4 * i \<longrightarrow> peek32 hb off = peek32 buf off"
    using hb(4) fits by simp
  ultimately show ?case
    using hb "2.prems" by auto
qed

text \<open>A block whose bytes are the header \<open>(n, blk)\<close>.\<close>

definition is_header :: "bytes \<Rightarrow> nat \<Rightarrow> uint list \<Rightarrow> bool" where
  "is_header hb n blk \<longleftrightarrow> length hb = BSIZE \<and> peek32 hb 0 = word_of_nat n \<and>
     (\<forall>j<n. peek32 hb (4 + 4 * j) = blk ! j)"

lemma write_head_spec:
  assumes "0 \<le> lh_n s" and "lh_n s \<le> int LOGBLOCKS" and "length (bview s (log_start s)) = BSIZE"
  shows "\<exists>hb. write_head s = Inr (written s [(log_start s, hb)]) \<and>
         is_header hb (nat (lh_n s)) (lh_block s)"
proof -
  let ?hb0 = "poke32 (bview s (log_start s)) 0 (word_of_int (lh_n s))"
  have "length ?hb0 = BSIZE" and z: "peek32 ?hb0 0 = word_of_int (lh_n s)"
    using assms(3) by (simp_all add: hdr)
  then obtain hb where "write_blocks ?hb0 (lh_block s) 0 (nat (lh_n s)) = Inr hb"
    "length hb = BSIZE" "\<forall>j<nat (lh_n s). peek32 hb (4 + 4 * j) = lh_block s ! j"
    "peek32 hb 0 = peek32 ?hb0 0"
    using write_blocks_spec [of 0 "nat (lh_n s)" ?hb0 "lh_block s"] assms
    by (auto simp: nat_le_iff)
  then show ?thesis
    using z assms(1)
    by (auto simp: write_head_def Let_def bread_def bwrite_written is_header_def)
qed

lemma read_blocks_spec:
  "i + k \<le> LOGBLOCKS \<Longrightarrow> length blk = LOGBLOCKS \<Longrightarrow>
   \<exists>blk'. read_blocks buf blk i k = Inr blk' \<and> length blk' = LOGBLOCKS \<and>
          (\<forall>j. i \<le> j \<and> j < i + k \<longrightarrow> blk' ! j = peek32 buf (4 + 4 * j)) \<and>
          (\<forall>j<i. blk' ! j = blk ! j)"
proof (induction buf blk i k rule: read_blocks.induct)
  case (1 buf blk i)
  then show ?case by auto
next
  case (2 buf blk i k)
  let ?blk = "blk[i := peek32 buf (4 + 4 * i)]"
  obtain blk' where blk': "read_blocks buf ?blk (Suc i) k = Inr blk'" "length blk' = LOGBLOCKS"
    "\<forall>j. Suc i \<le> j \<and> j < Suc i + k \<longrightarrow> blk' ! j = peek32 buf (4 + 4 * j)"
    "\<forall>j<Suc i. blk' ! j = ?blk ! j"
    using "2.IH" "2.prems" by auto
  have "blk' ! j = peek32 buf (4 + 4 * j)" if "i \<le> j" "j < i + Suc k" for j
    using that blk'(3,4) "2.prems" by (cases "j = i") auto
  then show ?case
    using blk' "2.prems" by auto
qed

section \<open>The log area\<close>

lemma slot_in_area: "i < n \<Longrightarrow> slot st i \<in> log_area st n"
  unfolding log_area_def by (rule CollectI, rule exI [of _ "Suc i"]) auto

lemma start_in_area: "st \<in> log_area st n"
  unfolding log_area_def by (rule CollectI, rule exI [of _ 0]) simp

lemma of_nat_small_inj:
  "i \<le> LOGBLOCKS \<Longrightarrow> j \<le> LOGBLOCKS \<Longrightarrow> (of_nat i :: uint) = of_nat j \<longleftrightarrow> i = j"
  by (simp add: word_of_nat_eq_iff take_bit_nat_eq_self hdr)

lemma slot_inj: "i < LOGBLOCKS \<Longrightarrow> j < LOGBLOCKS \<Longrightarrow> slot st i = slot st j \<longleftrightarrow> i = j"
  using of_nat_small_inj [of i j] by simp

lemma slot_neq_start: "i < LOGBLOCKS \<Longrightarrow> slot st i \<noteq> st"
proof -
  assume "i < LOGBLOCKS"
  then have "(of_nat (Suc i) :: uint) \<noteq> of_nat 0"
    by (subst of_nat_small_inj) auto
  then show ?thesis by (simp add: add.commute)
qed

lemma sint_small: "n \<le> LOGBLOCKS \<Longrightarrow> sint (word_of_nat n :: 32 word) = int n"
  by (simp add: sint_uint unsigned_of_nat take_bit_nat_eq_self signed_take_bit_int_eq_self hdr)

section \<open>The two copying loops\<close>

definition log_writes :: "logstate \<Rightarrow> (uint \<times> bytes) list" where
  "log_writes s =
     map (\<lambda>i. (slot (log_start s) i, bview s (lh_block s ! i))) [0..<nat (lh_n s)]"

definition home_writes :: "logstate \<Rightarrow> (uint \<times> bytes) list" where
  "home_writes s =
     map (\<lambda>i. (lh_block s ! i, bview s (slot (log_start s) i))) [0..<nat (lh_n s)]"

lemma wf_header_nth_away:
  assumes "wf_header s" and "j < nat (lh_n s)"
  shows "lh_block s ! j \<notin> log_area (log_start s) (nat (lh_n s))"
proof -
  have "lh_block s ! j \<in> set (logged s)"
    using assms by (auto simp: wf_header_def logged_def in_set_conv_nth intro!: exI [of _ j])
  then show ?thesis using assms(1) by (auto simp: wf_header_def)
qed

lemma wf_header_le: "wf_header s \<Longrightarrow> nat (lh_n s) \<le> LOGBLOCKS"
  by (simp add: wf_header_def nat_le_iff)

lemma slot_neq_logged:
  assumes "wf_header s" and "i < nat (lh_n s)" and "j < nat (lh_n s)"
  shows "slot (log_start s) i \<noteq> lh_block s ! j"
  using wf_header_nth_away [OF assms(1,3)] slot_in_area [OF assms(2), of "log_start s"] by auto

lemma write_log_spec:
  assumes "wf_header s"
  shows "write_log s = Inr (written s (log_writes s))"
proof -
  let ?ps = "map (\<lambda>i. (slot (log_start s) i, lh_block s ! i)) [0..<nat (lh_n s)]"
  have "fst ` set ?ps \<inter> snd ` set ?ps = {}"
    using slot_neq_logged [OF assms] by auto
  then show ?thesis
    using write_log_steps_copy [of 0 "nat (lh_n s)" s] wf_header_le [OF assms] copy_blocks_eq [of ?ps s]
    by (simp add: write_log_def log_writes_def o_def)
qed

lemma install_trans_spec:
  assumes "wf_header s"
  shows "install_trans s = Inr (written s (home_writes s))"
proof -
  let ?ps = "map (\<lambda>i. (lh_block s ! i, slot (log_start s) i)) [0..<nat (lh_n s)]"
  have "fst ` set ?ps \<inter> snd ` set ?ps = {}"
    using slot_neq_logged [OF assms] by auto metis
  then show ?thesis
    using install_steps_copy [of 0 "nat (lh_n s)" s] wf_header_le [OF assms] copy_blocks_eq [of ?ps s]
    by (simp add: install_trans_def home_writes_def o_def)
qed

section \<open>Recovery\<close>

lemma read_head_spec:
  assumes head: "is_header (bview s (log_start s)) n blk" and n: "n \<le> LOGBLOCKS" "n \<le> length blk"
    and len: "length (lh_block s) = LOGBLOCKS"
  shows "\<exists>blk'. read_head s = Inr (s\<lparr>lh_n := int n, lh_block := blk'\<rparr>) \<and>
     length blk' = LOGBLOCKS \<and> take n blk' = take n blk"
proof -
  have pn: "sint (peek32 (bview s (log_start s)) 0) = int n"
    using head n by (simp add: is_header_def sint_small)
  obtain blk' where blk': "read_blocks (bview s (log_start s)) (lh_block s) 0 n = Inr blk'"
    "length blk' = LOGBLOCKS" "\<forall>j<n. blk' ! j = peek32 (bview s (log_start s)) (4 + 4 * j)"
    using read_blocks_spec [of 0 n "lh_block s" "bview s (log_start s)"] n len by auto
  moreover have "take n blk' = take n blk"
    using blk' head n by (intro nth_equalityI) (auto simp: is_header_def)
  ultimately show ?thesis
    by (auto simp: read_head_def Let_def bread_def pn)
qed

lemma recover_spec:
  assumes len: "\<And>b. length (d b) = BSIZE"
    and head: "is_header (d st) n blk" and n: "n \<le> LOGBLOCKS" "n \<le> length blk"
    and blk: "set (take n blk) \<inter> log_area st n = {}" "distinct (take n blk)"
  shows "\<exists>r hb. initlog (reboot d) st = Inr r \<and> is_header hb 0 [] \<and> wf_log r \<and>
     disk r = apply_writes d (map (\<lambda>i. (blk ! i, d (slot st i))) [0..<n] @ [(st, hb)])"
proof -
  let ?s0 = "(reboot d)\<lparr>log_start := st\<rparr>"
  obtain blk' where blk': "read_head ?s0 = Inr (?s0\<lparr>lh_n := int n, lh_block := blk'\<rparr>)"
    "length blk' = LOGBLOCKS" "take n blk' = take n blk"
    using read_head_spec [of ?s0 n blk] head n by (auto simp: reboot_def)
  let ?s1 = "?s0\<lparr>lh_n := int n, lh_block := blk'\<rparr>"
  have wf1: "wf_header ?s1"
    using blk' blk n by (simp add: wf_header_def logged_def)
  have same: "blk' ! i = blk ! i" if "i < n" for i
    using blk'(3) that by (metis nth_take)
  let ?ws = "map (\<lambda>i. (blk ! i, d (slot st i))) [0..<n]"
  have ws: "home_writes ?s1 = ?ws"
    using same by (simp add: home_writes_def reboot_def)
  let ?s2 = "(written ?s1 ?ws)\<lparr>lh_n := 0\<rparr>"
  have len2: "length (apply_writes d ?ws b) = BSIZE" for b
    using len by (intro apply_writes_len) auto
  then obtain hb where hb: "write_head ?s2 = Inr (written ?s2 [(st, hb)])" "is_header hb 0 blk'"
    using write_head_spec [of ?s2] by (auto simp: reboot_def)
  have "initlog (reboot d) st = Inr (written ?s2 [(st, hb)])"
    using blk'(1) install_trans_spec [OF wf1] hb(1)
    by (simp add: initlog_def recover_from_log_def ws hdr)
  moreover have "wf_log (written ?s2 [(st, hb)])"
    using hb(2) len2 blk'(2)
    by (simp add: wf_log_def wf_header_def wf_view_def logged_def reboot_def is_header_def)
  ultimately show ?thesis
    using hb(2) by (intro exI conjI) (auto simp: reboot_def is_header_def)
qed

section \<open>Commit\<close>

text \<open>
  The sector writes of a commit, in order: the log blocks, the header (the commit point), the home
  blocks, the cleared header.
\<close>

definition commit_writes :: "logstate \<Rightarrow> bytes \<Rightarrow> bytes \<Rightarrow> (uint \<times> bytes) list" where
  "commit_writes s h1 h2 =
     log_writes s @ (log_start s, h1) #
     map (\<lambda>b. (b, bview s b)) (logged s) @ [(log_start s, h2)]"

lemma logged_nth: "wf_header s \<Longrightarrow> logged s = map (\<lambda>i. lh_block s ! i) [0..<nat (lh_n s)]"
  using wf_header_le [of s]
  by (intro nth_equalityI) (auto simp: logged_def wf_header_def)

lemma log_writes_distinct:
  assumes "wf_header s"
  shows "distinct (map fst (log_writes s))"
  using slot_inj wf_header_le [OF assms]
  by (auto simp: log_writes_def distinct_map o_def inj_on_def)

lemma log_writes_slot:
  assumes "wf_header s" and "i < nat (lh_n s)"
  shows "apply_writes d (log_writes s) (slot (log_start s) i) = bview s (lh_block s ! i)"
  using assms(2) by (intro apply_writes_in [OF log_writes_distinct [OF assms(1)]])
    (auto simp: log_writes_def)

lemma log_writes_area: "wf_header s \<Longrightarrow> fst ` set (log_writes s) \<subseteq> log_area (log_start s) (nat (lh_n s)) - {log_start s}"
  using slot_in_area slot_neq_start wf_header_le [of s] by (fastforce simp: log_writes_def)

lemma log_writes_start: "wf_header s \<Longrightarrow> apply_writes d (log_writes s) (log_start s) = d (log_start s)"
  using log_writes_area by (intro apply_writes_other) blast

lemma commit_spec:
  assumes wf: "wf_log s" and n: "0 < lh_n s"
  shows "\<exists>h1 h2. commit s = Inr ((written s (commit_writes s h1 h2))\<lparr>lh_n := 0\<rparr>) \<and>
     is_header h1 (nat (lh_n s)) (lh_block s) \<and> is_header h2 0 []"
proof -
  have wfh: "wf_header s" and lenv: "\<And>b. length (bview s b) = BSIZE"
    using wf by (simp_all add: wf_log_def wf_view_def)
  let ?st = "log_start s"
  let ?s1 = "written s (log_writes s)"
  have len1: "length (bview ?s1 b) = BSIZE" for b
    using lenv apply_writes_len [of "bview s" BSIZE "log_writes s" b] by (auto simp: log_writes_def)
  obtain h1 where h1: "write_head ?s1 = Inr (written ?s1 [(?st, h1)])"
    "is_header h1 (nat (lh_n s)) (lh_block s)"
    using write_head_spec [of ?s1] len1 wfh by (auto simp: wf_header_def)
  let ?s2 = "written ?s1 [(?st, h1)]"
  have wf2: "wf_header ?s2"
    using wfh by (simp add: wf_header_def logged_def)
  let ?ws2 = "map (\<lambda>b. (b, bview s b)) (logged s)"
  have hw: "home_writes ?s2 = ?ws2"
    using log_writes_slot [OF wfh] slot_neq_start wf_header_le [OF wfh]
    by (auto simp: home_writes_def logged_nth [OF wfh])
  let ?s3 = "(written ?s2 ?ws2)\<lparr>lh_n := 0\<rparr>"
  have "length (bview ?s2 b) = BSIZE" for b
    using len1 h1(2) by (simp add: is_header_def)
  then have len3: "length (bview ?s3 b) = BSIZE" for b
    using lenv apply_writes_len [of "bview ?s2" BSIZE ?ws2 b] by auto
  then obtain h2 where h2: "write_head ?s3 = Inr (written ?s3 [(?st, h2)])" "is_header h2 0 (lh_block s)"
    using write_head_spec [of ?s3] by auto
  have "commit s = Inr ((written s (commit_writes s h1 h2))\<lparr>lh_n := 0\<rparr>)"
    using n write_log_spec [OF wfh] h1(1) install_trans_spec [OF wf2] h2(1)
    by (simp add: commit_def hw [simplified] commit_writes_def)
  then show ?thesis using h1(2) h2(2) by (auto simp: is_header_def)
qed

section \<open>Crash during a commit\<close>

abbreviation recovers_to :: "(uint \<Rightarrow> bytes) \<Rightarrow> uint \<Rightarrow> nat \<Rightarrow> (uint \<Rightarrow> bytes) \<Rightarrow> bool" where
  "recovers_to d st n v \<equiv>
     \<exists>r. initlog (reboot d) st = Inr r \<and> wf_log r \<and> (\<forall>b. b \<notin> log_area st n \<longrightarrow> disk r b = v b)"

lemma recover_empty:
  assumes "\<And>b. length (d b) = BSIZE" and "is_header (d st) 0 []"
  shows "recovers_to d st n d"
proof -
  obtain r hb where "initlog (reboot d) st = Inr r" "wf_log r" "disk r = d(st := hb)"
    using recover_spec [of d st 0 "[]"] assms by auto
  then show ?thesis using start_in_area by auto
qed

lemma crash_before_commit_point:
  assumes wf: "wf_log s" and ws: "set ws \<subseteq> set (log_writes s)"
  shows "recovers_to (apply_writes (disk s) ws) (log_start s) (nat (lh_n s)) (disk s)"
proof -
  let ?d = "apply_writes (disk s) ws"
  have wfh: "wf_header s" and len: "\<And>b. length (disk s b) = BSIZE" "\<And>b. length (bview s b) = BSIZE"
    and hd0: "is_header (disk s (log_start s)) 0 []"
    using wf by (simp_all add: wf_log_def wf_view_def is_header_def)
  have out: "fst ` set ws \<subseteq> log_area (log_start s) (nat (lh_n s)) - {log_start s}"
    using log_writes_area [OF wfh] ws by blast
  have "length (?d b) = BSIZE" for b
    using ws len by (intro apply_writes_len) (auto simp: log_writes_def)
  moreover have "?d (log_start s) = disk s (log_start s)"
    using out by (intro apply_writes_other) blast
  ultimately have "recovers_to ?d (log_start s) (nat (lh_n s)) ?d"
    using hd0 by (intro recover_empty) auto
  moreover have "?d b = disk s b" if "b \<notin> log_area (log_start s) (nat (lh_n s))" for b
    using out that by (intro apply_writes_other) blast
  ultimately show ?thesis by auto
qed

lemma home_view:
  assumes wf: "wf_log s" and b: "b \<notin> log_area (log_start s) (nat (lh_n s))"
    and d: "\<And>b. b \<notin> log_area (log_start s) (nat (lh_n s)) \<Longrightarrow> b \<notin> set (logged s) \<Longrightarrow> d b = disk s b"
  shows "apply_writes d (map (\<lambda>b. (b, bview s b)) (logged s)) b = bview s b"
proof (cases "b \<in> set (logged s)")
  case True
  then show ?thesis
    using wf by (intro apply_writes_in) (auto simp: o_def wf_log_def wf_header_def)
next
  case False
  then have "apply_writes d (map (\<lambda>b. (b, bview s b)) (logged s)) b = d b"
    by (intro apply_writes_other) auto
  then show ?thesis
    using False b d wf by (auto simp: wf_log_def wf_view_def)
qed

lemma crash_after_commit_point:
  assumes wf: "wf_log s" and h1: "is_header h1 (nat (lh_n s)) (lh_block s)"
    and ws: "set ws \<subseteq> set (map (\<lambda>b. (b, bview s b)) (logged s))"
  shows "recovers_to (apply_writes (disk s) (log_writes s @ (log_start s, h1) # ws)) (log_start s) (nat (lh_n s))
     (bview s)"
proof -
  let ?st = "log_start s" and ?n = "nat (lh_n s)" and ?blk = "lh_block s"
  let ?d = "apply_writes (disk s) (log_writes s @ (?st, h1) # ws)"
  have wfh: "wf_header s" and len: "\<And>b. length (disk s b) = BSIZE" "\<And>b. length (bview s b) = BSIZE"
    using wf by (simp_all add: wf_log_def wf_view_def)
  have out: "fst ` set ws \<subseteq> set (logged s)" "set (logged s) \<inter> log_area ?st (nat (lh_n s)) = {}"
    using ws wfh by (auto simp: wf_header_def)
  have lend: "length (?d b) = BSIZE" for b
    using ws len h1
    by (intro apply_writes_len) (auto simp: log_writes_def is_header_def)
  have "?st \<notin> fst ` set ws"
    using out start_in_area [of ?st ?n] by blast
  then have "?d ?st = h1"
    by (simp add: apply_writes_other)
  moreover have slot: "?d (slot ?st i) = bview s (?blk ! i)" if "i < ?n" for i
  proof -
    have "slot ?st i \<notin> fst ` set ws" "slot ?st i \<noteq> ?st"
      using out slot_in_area [OF that, of ?st] slot_neq_start [of i] that wf_header_le [OF wfh] by auto
    then show ?thesis using log_writes_slot [OF wfh that] by (simp add: apply_writes_other)
  qed
  ultimately obtain r hb where r: "initlog (reboot ?d) ?st = Inr r" "wf_log r"
    "disk r = apply_writes ?d (map (\<lambda>i. (?blk ! i, ?d (slot ?st i))) [0..<?n] @ [(?st, hb)])"
    using recover_spec [of ?d ?st ?n ?blk] lend h1 wfh wf_header_le [OF wfh]
    by (auto simp: wf_header_def logged_def)
  have "map (\<lambda>i. (?blk ! i, ?d (slot ?st i))) [0..<?n] = map (\<lambda>b. (b, bview s b)) (logged s)"
    using slot by (auto simp: logged_nth [OF wfh])
  then have dr: "disk r = (apply_writes ?d (map (\<lambda>b. (b, bview s b)) (logged s)))(?st := hb)"
    using r(3) by simp
  have d: "?d b = disk s b" if "b \<notin> log_area ?st (nat (lh_n s))" "b \<notin> set (logged s)" for b
    using that out log_writes_area [OF wfh] start_in_area [of ?st "nat (lh_n s)"]
    by (intro apply_writes_other) auto
  have "disk r b = bview s b" if "b \<notin> log_area ?st (nat (lh_n s))" for b
    using home_view [OF wf that, of ?d] d that start_in_area [of ?st "nat (lh_n s)"] unfolding dr by auto
  then show ?thesis using r by blast
qed

lemma crash_after_commit:
  assumes wf: "wf_log s"
    and h1: "is_header h1 (nat (lh_n s)) (lh_block s)" and h2: "is_header h2 0 []"
  shows "recovers_to (apply_writes (disk s) (commit_writes s h1 h2)) (log_start s) (nat (lh_n s)) (bview s)"
proof -
  let ?st = "log_start s"
  let ?d1 = "apply_writes (disk s) (log_writes s @ [(?st, h1)])"
  let ?d = "apply_writes (disk s) (commit_writes s h1 h2)"
  have wfh: "wf_header s" and len: "\<And>b. length (disk s b) = BSIZE" "\<And>b. length (bview s b) = BSIZE"
    using wf by (simp_all add: wf_log_def wf_view_def)
  have "length (?d b) = BSIZE" for b
    using len h1 h2
    by (intro apply_writes_len) (auto simp: log_writes_def is_header_def commit_writes_def)
  then have "recovers_to ?d ?st (nat (lh_n s)) ?d"
    using h2 by (intro recover_empty) (auto simp: commit_writes_def)
  moreover have "?d1 b = disk s b" if "b \<notin> log_area ?st (nat (lh_n s))" for b
    using that log_writes_area [OF wfh] start_in_area [of ?st "nat (lh_n s)"] by (intro apply_writes_other) auto
  then have "?d b = bview s b" if "b \<notin> log_area ?st (nat (lh_n s))" for b
    using home_view [OF wf that, of ?d1] that start_in_area [of ?st "nat (lh_n s)"] by (auto simp: commit_writes_def)
  ultimately show ?thesis by auto
qed

text \<open>
  C2. Crash atomicity. Take any state that satisfies the log invariant and let \<open>commit\<close> run; cut
  the power after any number \<open>k\<close> of its sector writes; reboot and run \<open>initlog\<close>. Recovery never
  faults, restores the invariant, and outside the log (its header and the slots that the transaction
  uses) the disk holds either all of the old contents (when the header had not reached the disk) or all of the contents that the transaction
  wrote (from the header write on): never a mixture.
\<close>

theorem commit_crash_atomic:
  assumes wf: "wf_log s" and c: "commit s = Inr s'"
  defines "ws \<equiv> drop (length (hist s)) (hist s')"
  shows "recovers_to (apply_writes (disk s) (take k ws)) (log_start s) (nat (lh_n s))
           (if int k \<le> lh_n s \<and> 0 < lh_n s then disk s else bview s)"
proof (cases "0 < lh_n s")
  case True
  obtain h1 h2 where s': "s' = (written s (commit_writes s h1 h2))\<lparr>lh_n := 0\<rparr>"
    and h: "is_header h1 (nat (lh_n s)) (lh_block s)" "is_header h2 0 []"
    using commit_spec [OF wf True] c by auto
  have ws: "ws = commit_writes s h1 h2"
    by (simp add: ws_def s')
  let ?n = "nat (lh_n s)" and ?hw = "map (\<lambda>b. (b, bview s b)) (logged s)"
  have ln: "length (log_writes s) = ?n" by (simp add: log_writes_def)
  consider "k \<le> ?n" | "?n < k" "k \<le> ?n + 1 + length (logged s)" | "?n + 1 + length (logged s) < k"
    by linarith
  then show ?thesis
  proof cases
    case 1
    then have "take k ws = take k (log_writes s)"
      by (simp add: ws commit_writes_def ln)
    moreover have "int k \<le> lh_n s" using 1 True by linarith
    ultimately show ?thesis
      using crash_before_commit_point [OF wf set_take_subset, of k] True by simp
  next
    case 2
    then have "take k ws = log_writes s @ (log_start s, h1) # take (k - ?n - 1) ?hw"
      by (simp add: ws commit_writes_def ln take_Cons')
    moreover have "\<not> int k \<le> lh_n s" using 2 by linarith
    ultimately show ?thesis
      using crash_after_commit_point [OF wf h(1) set_take_subset, of "k - ?n - 1"] by simp
  next
    case 3
    then have "take k ws = ws"
      by (simp add: ws commit_writes_def ln)
    moreover have "\<not> int k \<le> lh_n s" using 3 by linarith
    ultimately show ?thesis
      using crash_after_commit [OF wf h] by (simp add: ws)
  qed
next
  case False
  then have "ws = []" using c by (simp add: commit_def ws_def)
  moreover have "logged s = []" using False by (simp add: logged_def)
  ultimately show ?thesis
    using False crash_before_commit_point [OF wf, of "[]"] wf by (simp add: wf_log_def wf_view_def)
qed

definition sample_log :: logstate where
  "sample_log = \<lparr>disk = (\<lambda>_. replicate BSIZE 0),
     bview = (\<lambda>b. if b = 50 then replicate BSIZE 7 else replicate BSIZE 0), hist = [],
     log_start = 2, log_outstanding = 0, log_committing = True, lh_n = 1,
     lh_block = 50 # replicate 29 0\<rparr>"

lemma sample_log_wf: "wf_log sample_log"
proof -
  have "(50 :: uint) \<noteq> 2 + of_nat i" if "i \<le> 30" for i
  proof
    assume "(50 :: uint) = 2 + of_nat i"
    then have "of_nat i = (48 :: uint)" by (simp add: algebra_simps)
    then have "unat (of_nat i :: uint) = 48" by simp
    then show False using that by (simp add: unsigned_of_nat take_bit_nat_eq_self)
  qed
  moreover have "peek32 (replicate BSIZE 0) 0 = 0"
    by (simp add: peek32_def peek_def hdr numeral_eq_Suc)
  ultimately show ?thesis
    by (auto simp: wf_log_def wf_header_def wf_view_def logged_def log_area_def sample_log_def hdr)
qed

theorem commit_crash_atomic_witness:
  "\<exists>s'. commit sample_log = Inr s' \<and>
     recovers_to (apply_writes (disk sample_log) (take 1 (hist s'))) 2 1 (disk sample_log) \<and>
     recovers_to (apply_writes (disk sample_log) (take 2 (hist s'))) 2 1 (bview sample_log) \<and>
     disk sample_log 50 \<noteq> bview sample_log 50"
proof -
  obtain s' where c: "commit sample_log = Inr s'"
    using commit_spec [OF sample_log_wf] by (auto simp: sample_log_def)
  have "disk sample_log 50 \<noteq> bview sample_log 50"
    by (simp add: sample_log_def hdr)
  moreover have "hist sample_log = []" "log_start sample_log = 2" "lh_n sample_log = 1"
    by (simp_all add: sample_log_def)
  ultimately show ?thesis
    using c commit_crash_atomic [OF sample_log_wf c, of 1] commit_crash_atomic [OF sample_log_wf c, of 2]
    by simp
qed

section \<open>Writing into a transaction\<close>

text \<open>
  The use of \<open>log_write\<close> that its comment prescribes: change the buffer, then log it. The block
  joins the transaction once, however often it is written.
\<close>

definition logged_store :: "logstate \<Rightarrow> uint \<Rightarrow> bytes \<Rightarrow> logstate res" where
  "logged_store s b d = log_write (buf_store s b d) b"

lemma logged_store_cases:
  assumes "wf_log s" and "1 \<le> log_outstanding s" and "lh_n s < int LOGBLOCKS"
  shows "b \<in> set (logged s) \<Longrightarrow> logged_store s b d = Inr (buf_store s b d)"
    and "b \<notin> set (logged s) \<Longrightarrow> logged_store s b d =
      Inr ((buf_store s b d)\<lparr>lh_block := (lh_block s)[nat (lh_n s) := b], lh_n := lh_n s + 1\<rparr>)"
proof -
  show "logged_store s b d = Inr (buf_store s b d)" if bin: "b \<in> set (logged s)"
  proof -
    obtain i where i: "find_idx (\<lambda>x. x = b) (logged s) = Some i"
      using find_idx_ex [OF bin, of "\<lambda>x. x = b"] by blast
    then have "(lh_block s)[i := b] = lh_block s"
      by (auto simp: find_idx_Some logged_def intro: list_update_id)
    with i assms show ?thesis
      by (auto simp: logged_store_def log_write_def Let_def buf_store_def logged_def)
  qed
  show "logged_store s b d =
      Inr ((buf_store s b d)\<lparr>lh_block := (lh_block s)[nat (lh_n s) := b], lh_n := lh_n s + 1\<rparr>)"
    if "b \<notin> set (logged s)"
  proof -
    have "find_idx (\<lambda>x. x = b) (logged s) = None"
      using that by (auto simp: find_idx_None)
    then show ?thesis using assms
      by (auto simp: logged_store_def log_write_def Let_def buf_store_def logged_def)
  qed
qed

text \<open>
  Inside a transaction with room in the log, changing a block outside the log and logging
  it succeeds, keeps the log invariant, shows the new contents to every later \<open>bread\<close>, writes
  nothing to the disk, and logs the block exactly once.
\<close>

theorem logged_store_correct:
  assumes wf: "wf_log s" and op: "1 \<le> log_outstanding s" "lh_n s < int LOGBLOCKS"
    and b: "insert b (set (logged s)) \<inter> log_area (log_start s) (nat (lh_n s) + 1) = {}" "length d = BSIZE"
  shows "\<exists>s'. logged_store s b d = Inr s' \<and> wf_log s' \<and> bview s' = (bview s)(b := d) \<and>
     disk s' = disk s \<and> hist s' = hist s \<and> set (logged s') = insert b (set (logged s)) \<and>
     lh_n s' \<le> lh_n s + 1"
proof (cases "b \<in> set (logged s)")
  case True
  then show ?thesis
    using logged_store_cases(1) [OF wf op True, of d] wf b
    by (auto simp: buf_store_def wf_log_def wf_header_def wf_view_def logged_def)
next
  case False
  have n: "0 \<le> lh_n s" "length (lh_block s) = LOGBLOCKS" "nat (lh_n s + 1) = Suc (nat (lh_n s))"
    using wf by (auto simp: wf_log_def wf_header_def)
  then have "take (nat (lh_n s + 1)) ((lh_block s)[nat (lh_n s) := b]) = logged s @ [b]"
    using op(2) by (simp add: take_Suc_conv_app_nth logged_def)
  then show ?thesis
    using logged_store_cases(2) [OF wf op False, of d] wf op b False n
    by (auto simp: buf_store_def wf_log_def wf_header_def wf_view_def logged_def)
qed

theorem logged_store_correct_witness:
  "\<exists>s'. logged_store (sample_log\<lparr>log_outstanding := 1\<rparr>) 51 (replicate BSIZE 1) = Inr s' \<and>
     wf_log s' \<and> bview s' 51 = replicate BSIZE 1 \<and> lh_n s' \<le> 2"
proof -
  let ?s = "sample_log\<lparr>log_outstanding := 1\<rparr>"
  have wf: "wf_log ?s"
    using sample_log_wf by (simp add: wf_log_def wf_header_def wf_view_def logged_def)
  have n: "lh_n ?s = 1" and st: "log_start ?s = 2"
    by (simp_all add: sample_log_def)
  have away: "{51, 50 :: uint} \<inter> log_area 2 2 = {}"
  proof -
    have "i \<le> 2 \<longleftrightarrow> i = 0 \<or> i = 1 \<or> i = (2 :: nat)" for i by auto
    then have "log_area 2 2 \<subseteq> {2, 3, 4}" by (auto simp: log_area_def)
    then show ?thesis by auto
  qed
  have "set (logged ?s) = {50}" by (simp add: logged_def sample_log_def)
  with n st away have "insert 51 (set (logged ?s)) \<inter> log_area (log_start ?s) (nat (lh_n ?s) + 1) = {}" by (simp add: numeral_2_eq_2)
  from logged_store_correct [OF wf _ _ this, of "replicate BSIZE 1"] n show ?thesis by (force simp: hdr)
qed

section \<open>Space reservation\<close>

text \<open>
  Concurrent file-system calls share one transaction. A step of the system is a call that begins
  (with a budget of \<open>MAXOPBLOCKS\<close> blocks), logs a block (spending one unit of its own budget), or
  ends. The budgets are ghost state, in the order in which the calls began.
\<close>

inductive log_step :: "logstate \<times> int list \<Rightarrow> logstate \<times> int list \<Rightarrow> bool" where
  begin_call: "begin_op s = Inr s' \<Longrightarrow> log_step (s, bs) (s', MAXOPBLOCKS # bs)"
| write_call: "i < length bs \<Longrightarrow> 0 < bs ! i \<Longrightarrow> logged_store s b d = Inr s' \<Longrightarrow>
     log_step (s, bs) (s', bs[i := bs ! i - 1])"
| end_call: "i < length bs \<Longrightarrow> end_op s = Inr s' \<Longrightarrow>
     log_step (s, bs) (s', take i bs @ drop (Suc i) bs)"

inductive log_reachable :: "logstate \<times> int list \<Rightarrow> bool" where
  boot: "wf_header s \<Longrightarrow> lh_n s = 0 \<Longrightarrow> log_outstanding s = 0 \<Longrightarrow> log_reachable (s, [])"
| step: "log_reachable c \<Longrightarrow> log_step c c' \<Longrightarrow> log_reachable c'"

definition reserved :: "logstate \<times> int list \<Rightarrow> bool" where
  "reserved c = (case c of (s, bs) \<Rightarrow> log_outstanding s = int (length bs) \<and> 0 \<le> lh_n s \<and>
     (\<forall>b\<in>set bs. 0 \<le> b \<and> b \<le> MAXOPBLOCKS) \<and> lh_n s + sum_list bs \<le> int LOGBLOCKS)"

lemma sum_list_budget: "(\<forall>b\<in>set bs. 0 \<le> b \<and> b \<le> (m::int)) \<Longrightarrow> sum_list bs \<le> int (length bs) * m"
  by (induction bs) (auto simp: algebra_simps)

lemma sum_list_drop_nth:
  "i < length bs \<Longrightarrow> sum_list (take i bs @ drop (Suc i) bs) = sum_list bs - (bs ! i :: int)"
  by (metis (no_types, lifting) add_diff_cancel_left' append_take_drop_id Cons_nth_drop_Suc
      add.left_commute sum_list.Cons sum_list_append)

lemma sum_list_upd:
  "i < length bs \<Longrightarrow> sum_list (bs[i := x]) = sum_list bs - bs ! i + (x :: int)"
  by (induction bs arbitrary: i) (auto split: nat.splits)

lemma commit_lh_n: "commit s = Inr s' \<Longrightarrow> 0 \<le> lh_n s \<Longrightarrow> lh_n s' = 0"
  by (auto simp: commit_def write_head_def Let_def bwrite_def buf_store_def split: if_splits)

lemma install_outstanding:
  "install_steps s t k = Inr s' \<Longrightarrow> log_outstanding s' = log_outstanding s"
  by (induction s t k rule: install_steps.induct)
    (auto simp: Let_def bwrite_def buf_store_def split: if_splits)

lemma write_log_outstanding:
  "write_log_steps s t k = Inr s' \<Longrightarrow> log_outstanding s' = log_outstanding s"
  by (induction s t k rule: write_log_steps.induct)
    (auto simp: Let_def bwrite_def buf_store_def split: if_splits)

lemma commit_outstanding:
  "commit s = Inr s' \<Longrightarrow> log_outstanding s' = log_outstanding s"
  by (auto simp: commit_def write_head_def Let_def bwrite_def buf_store_def write_log_def
      install_trans_def dest!: install_outstanding write_log_outstanding split: if_splits)

lemma reserved_step:
  assumes "log_step c c'" and "reserved c"
  shows "reserved c'"
  using assms
proof cases
  case (begin_call s s' bs)
  then show ?thesis
    using assms(2) sum_list_budget [of bs MAXOPBLOCKS]
    by (auto simp: reserved_def begin_op_def MAXOPBLOCKS_def algebra_simps split: if_splits)
next
  case (write_call i bs s b d s')
  have "lh_n s' \<le> lh_n s + 1" "0 \<le> lh_n s'" "log_outstanding s' = log_outstanding s"
    using write_call assms(2)
    by (auto simp: reserved_def logged_store_def log_write_def Let_def buf_store_def
        split: if_splits option.splits)
  moreover have "sum_list (bs[i := bs ! i - 1]) = sum_list bs - 1"
    using write_call by (simp add: sum_list_upd)
  moreover have "bs ! i - 1 \<le> MAXOPBLOCKS"
  proof -
    have "\<forall>b\<in>set bs. b \<le> MAXOPBLOCKS"
      using write_call(1) assms(2) by (simp add: reserved_def)
    then have "bs ! i \<le> MAXOPBLOCKS" using write_call(3) by (rule bspec [OF _ nth_mem])
    then show ?thesis by simp
  qed
  ultimately show ?thesis
    using write_call assms(2)
    by (auto simp: reserved_def dest!: set_update_subset_insert [THEN subsetD])
next
  case (end_call i bs s s')
  have "0 \<le> bs ! i"
    using end_call assms(2) by (auto simp: reserved_def)
  then have "sum_list (take i bs @ drop (Suc i) bs) \<le> sum_list bs"
    using sum_list_drop_nth [of i bs] end_call(3) by simp
  moreover have "lh_n s' \<le> lh_n s" "0 \<le> lh_n s'" "log_outstanding s' = log_outstanding s - 1"
    using end_call assms(2) commit_lh_n commit_outstanding
    by (auto simp: reserved_def end_op_def Let_def split: if_splits)
  ultimately show ?thesis
    using end_call assms(2) by (auto simp: reserved_def dest: in_set_takeD in_set_dropD)
qed

lemma reserved_reachable: "log_reachable c \<Longrightarrow> reserved c"
proof (induction rule: log_reachable.induct)
  case (boot s)
  then show ?case by (simp add: reserved_def hdr)
next
  case (step c c')
  then show ?case by (blast intro: reserved_step)
qed



end
