(* ===== verification/Fs.thy ===== *)
theory Fs
  imports Log CString Locks
begin

text \<open>
  \<open>kernel/fs.c\<close>: blocks, inodes, directories and paths, on top of the log. The disk is reached with
  \<open>bread\<close> and \<open>log_write\<close> of theory \<open>Log\<close>; there is one device, so a block is named by its number. A
  \<open>struct inode *\<close> is the index of the entry in \<open>itable\<close>. \<open>myproc()\<close> is present as the fields \<open>me\<close> (its
  pid, for sleep locks) and \<open>cwd\<close>. The destination of \<open>readi\<close> and the source of \<open>writei\<close> are
  reached through a copy function, which stands for \<open>either_copyout\<close> and \<open>either_copyin\<close> and threads
  the state it changes.
\<close>

section \<open>Constants and structures of fs.h, file.h and stat.h\<close>

definition ROOTINO :: uint where [hdr]: "ROOTINO = 1"
definition ROOTDEV :: uint where [hdr]: "ROOTDEV = 1"
definition FSMAGIC :: uint where [hdr]: "FSMAGIC = 0x10203040"
definition NDIRECT :: nat where [hdr]: "NDIRECT = 12"
definition NINDIRECT :: nat where [hdr]: "NINDIRECT = 256"
definition MAXFILE :: nat where [hdr]: "MAXFILE = NDIRECT + NINDIRECT"
definition IPB :: nat where [hdr]: "IPB = 16"
definition BPB :: nat where [hdr]: "BPB = 8192"
definition DIRSIZ :: nat where [hdr]: "DIRSIZ = 14"
definition DINODE :: nat where [hdr]: "DINODE = 64"
definition DIRENT :: nat where [hdr]: "DIRENT = 16"
definition NINODE :: nat where [hdr]: "NINODE = 50"
definition T_DIR :: ushort where [hdr]: "T_DIR = 1"
definition T_FILE :: ushort where [hdr]: "T_FILE = 2"
definition T_DEVICE :: ushort where [hdr]: "T_DEVICE = 3"

record superblock =
  sb_magic :: uint
  sb_size :: uint
  sb_nblocks :: uint
  sb_ninodes :: uint
  sb_nlog :: uint
  sb_logstart :: uint
  sb_inodestart :: uint
  sb_bmapstart :: uint

record inode =
  i_dev :: uint
  i_inum :: uint
  i_ref :: int
  i_lock :: sleeplock
  i_valid :: bool
  i_type :: ushort
  i_major :: ushort
  i_minor :: ushort
  i_nlink :: ushort
  i_size :: uint
  i_addrs :: "uint list"

record fsstate =
  lg :: logstate
  sb :: superblock
  itable :: "inode list"
  me :: int
  cwd :: nat

abbreviation ino :: "fsstate \<Rightarrow> nat \<Rightarrow> inode" where
  "ino s ip \<equiv> itable s ! ip"

definition upd_ino :: "nat \<Rightarrow> (inode \<Rightarrow> inode) \<Rightarrow> fsstate \<Rightarrow> fsstate" where
  "upd_ino ip f s = s\<lparr>itable := (itable s)[ip := f (itable s ! ip)]\<rparr>"

definition blk :: "fsstate \<Rightarrow> uint \<Rightarrow> bytes" where
  "blk s b = bread (lg s) b"

text \<open>A buffer whose data has been changed, handed to \<open>log_write\<close>.\<close>

definition log_store :: "uint \<Rightarrow> bytes \<Rightarrow> fsstate \<Rightarrow> fsstate res" where
  "log_store b data s = bindE (log_write (buf_store (lg s) b data) b) (\<lambda>l. Inr (s\<lparr>lg := l\<rparr>))"

section \<open>Blocks\<close>

definition readsb :: "fsstate \<Rightarrow> superblock" where
  "readsb s =
     (let d = blk s 1
      in \<lparr>sb_magic = peek32 d 0, sb_size = peek32 d 4, sb_nblocks = peek32 d 8, sb_ninodes = peek32 d 12,
          sb_nlog = peek32 d 16, sb_logstart = peek32 d 20, sb_inodestart = peek32 d 24,
          sb_bmapstart = peek32 d 28\<rparr>)"

definition bzero :: "uint \<Rightarrow> fsstate \<Rightarrow> fsstate res" where
  "bzero bno s = bindE (memset (blk s bno) 0 BSIZE) (\<lambda>d. log_store bno d s)"

definition BBLOCK :: "uint \<Rightarrow> fsstate \<Rightarrow> uint" where
  "BBLOCK b s = b div of_nat BPB + sb_bmapstart (sb s)"

definition bit_mask :: "nat \<Rightarrow> uchar" where
  "bit_mask bi = push_bit (bi mod 8) 1"

definition bit_clear :: "bytes \<Rightarrow> nat \<Rightarrow> bool" where
  "bit_clear data bi \<longleftrightarrow> data ! (bi div 8) AND bit_mask bi = 0"

text \<open>
  \<open>balloc\<close>: the outer loop over bitmap blocks from \<open>b\<close>, the inner one over the bits of the block. The
  result is 0 when no block is free.
\<close>

function balloc_from :: "nat \<Rightarrow> fsstate \<Rightarrow> (fsstate \<times> uint) res" where
  "balloc_from b s =
     (if b < unat (sb_size (sb s))
      then (let bb = BBLOCK (of_nat b) s;
                data = blk s bb
            in case find_idx (bit_clear data) [0..<min BPB (unat (sb_size (sb s)) - b)] of
                 Some bi \<Rightarrow>
                   bindE (log_store bb (data[bi div 8 := data ! (bi div 8) OR bit_mask bi]) s) (\<lambda>s.
                   bindE (bzero (of_nat (b + bi)) s) (\<lambda>s. Inr (s, of_nat (b + bi))))
               | None \<Rightarrow> balloc_from (b + BPB) s)
      else Inr (s, 0))"
  by pat_completeness auto
termination
  by (relation "measure (\<lambda>(b, s). unat (sb_size (sb s)) - b)") (auto simp: hdr)

declare balloc_from.simps [simp del]

definition balloc :: "fsstate \<Rightarrow> (fsstate \<times> uint) res" where
  "balloc s = balloc_from 0 s"

definition bfree :: "uint \<Rightarrow> fsstate \<Rightarrow> fsstate res" where
  "bfree b s =
     (let bb = BBLOCK b s;
          data = blk s bb;
          bi = unat b mod BPB
      in if bit_clear data bi then Inl (Panic ''freeing free block'')
         else log_store bb (data[bi div 8 := data ! (bi div 8) AND NOT (bit_mask bi)]) s)"

section \<open>Inodes\<close>

definition IBLOCK :: "uint \<Rightarrow> fsstate \<Rightarrow> uint" where
  "IBLOCK i s = i div of_nat IPB + sb_inodestart (sb s)"

definition dinode_off :: "uint \<Rightarrow> nat" where
  "dinode_off i = DINODE * (unat i mod IPB)"

text \<open>
  \<open>iget\<close> scans the whole table for an entry in use for the inode, remembering the first unused one.
\<close>

definition iget :: "uint \<Rightarrow> uint \<Rightarrow> fsstate \<Rightarrow> (fsstate \<times> nat) res" where
  "iget dev inum s =
     (case find_idx (\<lambda>ip. i_ref ip > 0 \<and> i_dev ip = dev \<and> i_inum ip = inum) (itable s) of
        Some i \<Rightarrow> Inr (upd_ino i (\<lambda>ip. ip\<lparr>i_ref := i_ref ip + 1\<rparr>) s, i)
      | None \<Rightarrow>
         (case find_idx (\<lambda>ip. i_ref ip = 0) (itable s) of
            None \<Rightarrow> Inl (Panic ''iget: no inodes'')
          | Some i \<Rightarrow>
              Inr (upd_ino i (\<lambda>ip. ip\<lparr>i_dev := dev, i_inum := inum, i_ref := 1, i_valid := False\<rparr>) s, i)))"

definition idup :: "nat \<Rightarrow> fsstate \<Rightarrow> fsstate" where
  "idup ip s = upd_ino ip (\<lambda>i. i\<lparr>i_ref := i_ref i + 1\<rparr>) s"

text \<open>\<open>ialloc\<close>: the first free inode from number 1; a null result is \<open>None\<close>.\<close>

definition ialloc :: "ushort \<Rightarrow> fsstate \<Rightarrow> (fsstate \<times> nat option) res" where
  "ialloc type s =
     (case find_idx (\<lambda>i. peek16 (blk s (IBLOCK (of_nat i) s)) (dinode_off (of_nat i)) = 0)
             [1..<unat (sb_ninodes (sb s))] of
        None \<Rightarrow> Inr (s, None)
      | Some j \<Rightarrow>
         (let inum = of_nat (Suc j);
              bb = IBLOCK inum s;
              d = poke (blk s bb) (dinode_off inum) (replicate DINODE 0);
              d = poke16 d (dinode_off inum) type
          in bindE (log_store bb d s) (\<lambda>s.
             bindE (iget ROOTDEV inum s) (\<lambda>(s, ip). Inr (s, Some ip)))))"

definition iupdate :: "nat \<Rightarrow> fsstate \<Rightarrow> fsstate res" where
  "iupdate ip s =
     (let i = ino s ip;
          bb = IBLOCK (i_inum i) s;
          off = dinode_off (i_inum i);
          d = blk s bb;
          d = poke16 d off (i_type i);
          d = poke16 d (off + 2) (i_major i);
          d = poke16 d (off + 4) (i_minor i);
          d = poke16 d (off + 6) (i_nlink i);
          d = poke32 d (off + 8) (i_size i);
          d = poke d (off + 12) (concat (map (le_bytes 4) (i_addrs i)))
      in log_store bb d s)"

text \<open>The fields that \<open>ilock\<close> copies from the disk inode.\<close>

definition load_dinode :: "bytes \<Rightarrow> nat \<Rightarrow> inode \<Rightarrow> inode" where
  "load_dinode d off i =
     i\<lparr>i_type := peek16 d off, i_major := peek16 d (off + 2), i_minor := peek16 d (off + 4),
       i_nlink := peek16 d (off + 6), i_size := peek32 d (off + 8),
       i_addrs := map (\<lambda>k. peek32 d (off + 12 + 4 * k)) [0..<NDIRECT + 1], i_valid := True\<rparr>"

definition ilock :: "nat \<Rightarrow> fsstate \<Rightarrow> fsstate res" where
  "ilock ip s =
     (if i_ref (ino s ip) < 1 then Inl (Panic ''ilock'')
      else bindE (acquiresleep (me s) (i_lock (ino s ip))) (\<lambda>lk.
        (let s = upd_ino ip (\<lambda>i. i\<lparr>i_lock := lk\<rparr>) s;
             i = ino s ip
         in if \<not> i_valid i
            then (let d = blk s (IBLOCK (i_inum i) s);
                      s = upd_ino ip (load_dinode d (dinode_off (i_inum i))) s
                  in if i_type (ino s ip) = 0 then Inl (Panic ''ilock: no type'') else Inr s)
            else Inr s)))"

definition iunlock :: "nat \<Rightarrow> fsstate \<Rightarrow> fsstate res" where
  "iunlock ip s =
     (if \<not> holdingsleep (me s) (i_lock (ino s ip)) \<or> i_ref (ino s ip) < 1 then Inl (Panic ''iunlock'')
      else Inr (upd_ino ip (\<lambda>i. i\<lparr>i_lock := releasesleep (i_lock i)\<rparr>) s))"

text \<open>The two loops of \<open>itrunc\<close>.\<close>

fun free_direct :: "nat \<Rightarrow> nat list \<Rightarrow> fsstate \<Rightarrow> fsstate res" where
  "free_direct ip [] s = Inr s"
| "free_direct ip (k # ks) s =
     (let a = i_addrs (ino s ip) ! k
      in if a \<noteq> 0
         then bindE (bfree a s) (\<lambda>s.
              free_direct ip ks (upd_ino ip (\<lambda>i. i\<lparr>i_addrs := (i_addrs i)[k := 0]\<rparr>) s))
         else free_direct ip ks s)"

text \<open>The indirect block is held locked during the loop; its data \<open>a\<close> is read once.\<close>

fun free_indirect :: "uint list \<Rightarrow> fsstate \<Rightarrow> fsstate res" where
  "free_indirect [] s = Inr s"
| "free_indirect (a # as) s = bindE (if a \<noteq> 0 then bfree a s else Inr s) (free_indirect as)"

definition itrunc :: "nat \<Rightarrow> fsstate \<Rightarrow> fsstate res" where
  "itrunc ip s =
     bindE (free_direct ip [0..<NDIRECT] s) (\<lambda>s.
     bindE (let ind = i_addrs (ino s ip) ! NDIRECT
            in if ind \<noteq> 0
               then bindE (free_indirect (map (\<lambda>j. peek32 (blk s ind) (4 * j)) [0..<NINDIRECT]) s) (\<lambda>s.
                    bindE (bfree ind s) (\<lambda>s.
                    Inr (upd_ino ip (\<lambda>i. i\<lparr>i_addrs := (i_addrs i)[NDIRECT := 0]\<rparr>) s)))
               else Inr s) (\<lambda>s.
     iupdate ip (upd_ino ip (\<lambda>i. i\<lparr>i_size := 0\<rparr>) s)))"

definition iput :: "nat \<Rightarrow> fsstate \<Rightarrow> fsstate res" where
  "iput ip s =
     bindE (if i_ref (ino s ip) = 1 \<and> i_valid (ino s ip) \<and> i_nlink (ino s ip) = 0
            then bindE (acquiresleep (me s) (i_lock (ino s ip))) (\<lambda>lk.
                 bindE (itrunc ip (upd_ino ip (\<lambda>i. i\<lparr>i_lock := lk\<rparr>) s)) (\<lambda>s.
                 bindE (iupdate ip (upd_ino ip (\<lambda>i. i\<lparr>i_type := 0\<rparr>) s)) (\<lambda>s.
                 Inr (upd_ino ip (\<lambda>i. i\<lparr>i_valid := False, i_lock := releasesleep (i_lock i)\<rparr>) s))))
            else Inr s)
       (\<lambda>s. Inr (upd_ino ip (\<lambda>i. i\<lparr>i_ref := i_ref i - 1\<rparr>) s))"

definition iunlockput :: "nat \<Rightarrow> fsstate \<Rightarrow> fsstate res" where
  "iunlockput ip s = bindE (iunlock ip s) (iput ip)"

definition fs_begin_op :: "fsstate \<Rightarrow> fsstate res" where
  "fs_begin_op s = bindE (begin_op (lg s)) (\<lambda>l. Inr (s\<lparr>lg := l\<rparr>))"

definition fs_end_op :: "fsstate \<Rightarrow> fsstate res" where
  "fs_end_op s = bindE (end_op (lg s)) (\<lambda>l. Inr (s\<lparr>lg := l\<rparr>))"

fun ireclaim_from :: "nat list \<Rightarrow> fsstate \<Rightarrow> fsstate res" where
  "ireclaim_from [] s = Inr s"
| "ireclaim_from (i # is) s =
     (let d = blk s (IBLOCK (of_nat i) s); off = dinode_off (of_nat i)
      in if peek16 d off \<noteq> 0 \<and> peek16 d (off + 6) = 0
         then bindE (iget ROOTDEV (of_nat i) s) (\<lambda>(s, ip).
              bindE (fs_begin_op s) (\<lambda>s.
              bindE (ilock ip s) (\<lambda>s.
              bindE (iunlock ip s) (\<lambda>s.
              bindE (iput ip s) (\<lambda>s.
              bindE (fs_end_op s) (ireclaim_from is))))))
         else ireclaim_from is s)"

definition ireclaim :: "fsstate \<Rightarrow> fsstate res" where
  "ireclaim s = ireclaim_from [1..<unat (sb_ninodes (sb s))] s"

definition fsinit :: "fsstate \<Rightarrow> fsstate res" where
  "fsinit s =
     (let s = s\<lparr>sb := readsb s\<rparr>
      in if sb_magic (sb s) \<noteq> FSMAGIC then Inl (Panic ''invalid file system'')
         else bindE (initlog (lg s) (sb_logstart (sb s))) (\<lambda>l. ireclaim (s\<lparr>lg := l\<rparr>)))"

section \<open>Inode content\<close>

definition bmap :: "nat \<Rightarrow> nat \<Rightarrow> fsstate \<Rightarrow> (fsstate \<times> uint) res" where
  "bmap ip bn s =
     (if bn < NDIRECT
      then (let addr = i_addrs (ino s ip) ! bn
            in if addr = 0
               then bindE (balloc s) (\<lambda>(s, addr).
                    if addr = 0 then Inr (s, 0)
                    else Inr (upd_ino ip (\<lambda>i. i\<lparr>i_addrs := (i_addrs i)[bn := addr]\<rparr>) s, addr))
               else Inr (s, addr))
      else if bn - NDIRECT < NINDIRECT
      then bindE (let addr = i_addrs (ino s ip) ! NDIRECT
                  in if addr = 0
                     then bindE (balloc s) (\<lambda>(s, addr).
                          if addr = 0 then Inr (s, 0)
                          else Inr (upd_ino ip (\<lambda>i. i\<lparr>i_addrs := (i_addrs i)[NDIRECT := addr]\<rparr>) s, addr))
                     else Inr (s, addr))
             (\<lambda>(s, ind).
                if ind = 0 then Inr (s, 0)
                else (let k = 4 * (bn - NDIRECT); addr = peek32 (blk s ind) k
                      in if addr = 0
                         then bindE (balloc s) (\<lambda>(s, addr).
                              if addr \<noteq> 0
                              then bindE (log_store ind (poke32 (blk s ind) k addr) s) (\<lambda>s. Inr (s, addr))
                              else Inr (s, 0))
                         else Inr (s, addr)))
      else Inl (Panic ''bmap: out of range''))"

record stat =
  st_dev :: uint
  st_ino :: uint
  st_type :: ushort
  st_nlink :: ushort
  st_size :: uint64

definition stati :: "inode \<Rightarrow> stat" where
  "stati ip = \<lparr>st_dev = i_dev ip, st_ino = i_inum ip, st_type = i_type ip, st_nlink = i_nlink ip,
     st_size = ucast (i_size ip)\<rparr>"

text \<open>
  The number of bytes that one round of the loops of \<open>readi\<close> and \<open>writei\<close> transfers.
\<close>

definition chunk :: "nat \<Rightarrow> nat \<Rightarrow> nat" where
  "chunk rest off = min rest (BSIZE - off mod BSIZE)"

lemma chunk_pos: "0 < rest \<Longrightarrow> 0 < chunk rest off"
  by (simp add: chunk_def hdr)

lemma chunk_less: "tot < n \<Longrightarrow> n - (tot + chunk (n - tot) off) < n - tot"
  using chunk_pos [of "n - tot" off] by linarith

text \<open>
  \<open>either_copyout(user_dst, dst, src, len)\<close> is \<open>out pos src d\<close>: \<open>pos\<close> is the offset from the original
  \<open>dst\<close>, \<open>d\<close> the state that holds the destination. The result is -1 on failure.
\<close>

type_synonym 'd copyout_fn = "nat \<Rightarrow> bytes \<Rightarrow> 'd \<Rightarrow> ('d \<times> int) res"
type_synonym 'd copyin_fn = "nat \<Rightarrow> nat \<Rightarrow> 'd \<Rightarrow> ('d \<times> int \<times> bytes) res"

function readi_loop :: "'d copyout_fn \<Rightarrow> nat \<Rightarrow> nat \<Rightarrow> nat \<Rightarrow> nat \<Rightarrow> fsstate \<Rightarrow> 'd \<Rightarrow> (fsstate \<times> 'd \<times> int) res" where
  "readi_loop out ip off tot n s d =
     (if tot < n
      then bindE (bmap ip (off div BSIZE) s) (\<lambda>(s, addr).
        if addr = 0 then Inr (s, d, int tot)
        else (let m = chunk (n - tot) off
              in bindE (out tot (take m (drop (off mod BSIZE) (blk s addr))) d) (\<lambda>(d, r).
                   if r = -1 then Inr (s, d, -1)
                   else readi_loop out ip (off + m) (tot + m) n s d)))
      else Inr (s, d, int tot))"
  by pat_completeness auto
termination
  by (relation "measure (\<lambda>(out, ip, off, tot, n, s, d). n - tot)") (auto simp: chunk_less)

declare readi_loop.simps [simp del]

definition readi :: "'d copyout_fn \<Rightarrow> nat \<Rightarrow> uint \<Rightarrow> uint \<Rightarrow> fsstate \<Rightarrow> 'd \<Rightarrow> (fsstate \<times> 'd \<times> int) res" where
  "readi out ip off n s d =
     (let sz = i_size (ino s ip)
      in if off > sz \<or> off + n < off then Inr (s, d, 0)
         else (let n = (if off + n > sz then sz - off else n)
               in readi_loop out ip (unat off) 0 (unat n) s d))"

text \<open>
  \<open>either_copyin\<close> is \<open>inp pos len d\<close>; it returns the bytes it copied before it stopped, which are in the
  buffer even when it fails.
\<close>

function writei_loop :: "'d copyin_fn \<Rightarrow> nat \<Rightarrow> nat \<Rightarrow> nat \<Rightarrow> nat \<Rightarrow> fsstate \<Rightarrow> 'd \<Rightarrow>
    (fsstate \<times> 'd \<times> nat \<times> nat) res" where
  "writei_loop inp ip off tot n s d =
     (if tot < n
      then bindE (bmap ip (off div BSIZE) s) (\<lambda>(s, addr).
        if addr = 0 then Inr (s, d, off, tot)
        else (let m = chunk (n - tot) off
              in bindE (inp tot m d) (\<lambda>(d, r, bs).
                   if r = -1
                   then Inr (s\<lparr>lg := buf_store (lg s) addr (poke (blk s addr) (off mod BSIZE) bs)\<rparr>, d, off, tot)
                   else bindE (log_store addr (poke (blk s addr) (off mod BSIZE) bs) s) (\<lambda>s.
                        writei_loop inp ip (off + m) (tot + m) n s d))))
      else Inr (s, d, off, tot))"
  by pat_completeness auto
termination
  by (relation "measure (\<lambda>(inp, ip, off, tot, n, s, d). n - tot)") (auto simp: chunk_less)

declare writei_loop.simps [simp del]

definition writei :: "'d copyin_fn \<Rightarrow> nat \<Rightarrow> uint \<Rightarrow> uint \<Rightarrow> fsstate \<Rightarrow> 'd \<Rightarrow> (fsstate \<times> 'd \<times> int) res" where
  "writei inp ip off n s d =
     (if off > i_size (ino s ip) \<or> off + n < off then Inr (s, d, -1)
      else if off + n > of_nat (MAXFILE * BSIZE) then Inr (s, d, -1)
      else bindE (writei_loop inp ip (unat off) 0 (unat n) s d) (\<lambda>(s, d, off', tot).
           bindE (iupdate ip (if of_nat off' > i_size (ino s ip)
                    then upd_ino ip (\<lambda>i. i\<lparr>i_size := of_nat off'\<rparr>) s else s)) (\<lambda>s.
           Inr (s, d, int tot))))"

text \<open>Copying from and to a kernel object: the bytes read so far, and the object to be written.\<close>

definition kernel_out :: "bytes copyout_fn" where
  "kernel_out pos src d = Inr (d @ src, 0)"

definition kernel_in :: "bytes copyin_fn" where
  "kernel_in pos len d = (if pos + len \<le> length d then Inr (d, 0, take len (drop pos d)) else Inl OutOfBounds)"

text \<open>
  Reading can allocate blocks for holes of the file; it never changes the size of an inode, which the
  loops over directories rely on to end.
\<close>

lemma log_store_itable: "log_store b d s = Inr s' \<Longrightarrow> itable s' = itable s \<and> sb s' = sb s \<and> me s' = me s \<and> cwd s' = cwd s"
  by (auto simp: log_store_def)

lemma bzero_itable: "bzero b s = Inr s' \<Longrightarrow> itable s' = itable s \<and> sb s' = sb s \<and> me s' = me s \<and> cwd s' = cwd s"
  by (auto simp: bzero_def dest: log_store_itable)

lemma balloc_from_itable:
  "balloc_from b s = Inr (s', a) \<Longrightarrow> itable s' = itable s \<and> sb s' = sb s \<and> me s' = me s \<and> cwd s' = cwd s"
proof (induction b s rule: balloc_from.induct)
  case (1 b s)
  show ?case
  proof (cases "b < unat (sb_size (sb s))")
    case True
    let ?f = "find_idx (bit_clear (blk s (BBLOCK (of_nat b) s))) [0..<min BPB (unat (sb_size (sb s)) - b)]"
    show ?thesis
    proof (cases ?f)
      case None
      then show ?thesis using 1 True by (simp add: balloc_from.simps [of b s] Let_def)
    next
      case (Some bi)
      then show ?thesis
        using "1.prems" True
        by (auto simp: balloc_from.simps [of b s] Let_def dest!: log_store_itable bzero_itable)
    qed
  qed (use 1 in \<open>simp add: balloc_from.simps [of b s]\<close>)
qed

lemma balloc_itable:
  "balloc s = Inr (s', a) \<Longrightarrow> itable s' = itable s \<and> sb s' = sb s \<and> me s' = me s \<and> cwd s' = cwd s"
  by (auto simp: balloc_def dest: balloc_from_itable)

definition same_sizes :: "fsstate \<Rightarrow> fsstate \<Rightarrow> bool" where
  "same_sizes s s' \<longleftrightarrow> length (itable s') = length (itable s) \<and> sb s' = sb s \<and>
     (\<forall>i. i_size (ino s' i) = i_size (ino s i) \<and> i_type (ino s' i) = i_type (ino s i) \<and>
          i_dev (ino s' i) = i_dev (ino s i) \<and> i_inum (ino s' i) = i_inum (ino s i) \<and>
          i_ref (ino s' i) = i_ref (ino s i) \<and> i_nlink (ino s' i) = i_nlink (ino s i) \<and>
          i_valid (ino s' i) = i_valid (ino s i) \<and> i_lock (ino s' i) = i_lock (ino s i))"

lemma same_sizes_refl [simp]: "same_sizes s s"
  by (simp add: same_sizes_def)

lemma same_sizes_trans: "same_sizes a b \<Longrightarrow> same_sizes b c \<Longrightarrow> same_sizes a c"
  by (simp add: same_sizes_def)

lemma same_sizes_itable: "itable s' = itable s \<Longrightarrow> sb s' = sb s \<Longrightarrow> same_sizes s s'"
  by (simp add: same_sizes_def)

lemma nth_upd_ino: "ino (upd_ino ip f s) i = (if i = ip \<and> ip < length (itable s) then f (ino s ip) else ino s i)"
  by (cases "ip < length (itable s)") (auto simp: upd_ino_def nth_list_update not_less list_update_beyond)

lemma upd_ino_sel [simp]:
  "lg (upd_ino ip f s) = lg s" "sb (upd_ino ip f s) = sb s" "me (upd_ino ip f s) = me s"
  "cwd (upd_ino ip f s) = cwd s" "length (itable (upd_ino ip f s)) = length (itable s)"
  by (simp_all add: upd_ino_def)

lemma same_sizes_addrs [simp]:
  "same_sizes s (upd_ino ip (\<lambda>i. i\<lparr>i_addrs := (i_addrs i)[k := a]\<rparr>) s1) = same_sizes s s1"
  "same_sizes (upd_ino ip (\<lambda>i. i\<lparr>i_addrs := (i_addrs i)[k := a]\<rparr>) s1) s = same_sizes s1 s"
  by (auto simp: same_sizes_def nth_upd_ino)

lemma balloc_sizes: "balloc s = Inr (s', a) \<Longrightarrow> same_sizes s s'"
  by (auto dest: balloc_itable intro: same_sizes_itable)

lemma log_store_sizes: "log_store b d s = Inr s' \<Longrightarrow> same_sizes s s'"
  by (auto dest: log_store_itable intro: same_sizes_itable)

lemma bmap_sizes: "bmap ip bn s = Inr (s', a) \<Longrightarrow> same_sizes s s'"
  unfolding bmap_def Let_def
  by (auto split: if_splits dest!: balloc_sizes log_store_sizes; blast intro: same_sizes_trans)

lemma readi_loop_sizes: "readi_loop out ip off tot n s d = Inr (s', d', r) \<Longrightarrow> same_sizes s s'"
proof (induction "n - tot" arbitrary: off tot s d rule: less_induct)
  case less
  show ?case
  proof (cases "tot < n")
    case True
    then obtain s1 addr where b: "bmap ip (off div BSIZE) s = Inr (s1, addr)"
      using less.prems by (subst (asm) readi_loop.simps) auto
    have "same_sizes s1 s'"
      using less.prems True b less.hyps [OF chunk_less [OF True, of off]]
      by (subst (asm) readi_loop.simps) (auto simp: Let_def split: if_splits)
    then show ?thesis using bmap_sizes [OF b] same_sizes_trans by blast
  qed (use less.prems in \<open>simp add: readi_loop.simps\<close>)
qed

lemma readi_sizes: "readi out ip off n s d = Inr (s', d', r) \<Longrightarrow> same_sizes s s'"
  by (auto simp: readi_def Let_def split: if_splits dest: readi_loop_sizes)

lemma readi_size: "readi out ip off n s d = Inr (s', d', r) \<Longrightarrow> i_size (ino s' j) = i_size (ino s j)"
  by (drule readi_sizes) (simp add: same_sizes_def)

section \<open>Directories\<close>

definition namecmp :: "bytes \<Rightarrow> bytes \<Rightarrow> int res" where
  "namecmp s t = strncmp s t DIRSIZ"

text \<open>The two fields of \<open>struct dirent\<close>.\<close>

definition de_inum :: "bytes \<Rightarrow> ushort" where
  "de_inum de = peek16 de 0"

definition de_name :: "bytes \<Rightarrow> bytes" where
  "de_name de = take DIRSIZ (drop 2 de)"

text \<open>
  The loop of \<open>dirlookup\<close> from a given offset. The result is the inode and the offset of the entry
  (\<open>*poff\<close>), or \<open>None\<close> for the null pointer.
\<close>

function dirlookup_from :: "nat \<Rightarrow> bytes \<Rightarrow> nat \<Rightarrow> fsstate \<Rightarrow> (fsstate \<times> (nat \<times> nat) option) res" where
  "dirlookup_from dp name off s =
     (if off < unat (i_size (ino s dp))
      then bindE (readi kernel_out dp (of_nat off) (of_nat DIRENT) s []) (\<lambda>(s, de, r).
        if r \<noteq> int DIRENT then Inl (Panic ''dirlookup read'')
        else if de_inum de = 0 then dirlookup_from dp name (off + DIRENT) s
        else bindE (namecmp name (de_name de)) (\<lambda>c.
          if c = 0 then bindE (iget (i_dev (ino s dp)) (ucast (de_inum de)) s) (\<lambda>(s, i). Inr (s, Some (i, off)))
          else dirlookup_from dp name (off + DIRENT) s))
      else Inr (s, None))"
  by pat_completeness auto
termination
  by (relation "measure (\<lambda>(dp, name, off, s). unat (i_size (ino s dp)) - off)")
    (auto simp: hdr readi_size)

declare dirlookup_from.simps [simp del]

definition dirlookup :: "nat \<Rightarrow> bytes \<Rightarrow> fsstate \<Rightarrow> (fsstate \<times> (nat \<times> nat) option) res" where
  "dirlookup dp name s =
     (if i_type (ino s dp) \<noteq> T_DIR then Inl (Panic ''dirlookup not DIR'')
      else dirlookup_from dp name 0 s)"

text \<open>The search of \<open>dirlink\<close> for an empty entry; it returns the offset where it stops.\<close>

function empty_dirent_from :: "nat \<Rightarrow> nat \<Rightarrow> fsstate \<Rightarrow> (fsstate \<times> nat) res" where
  "empty_dirent_from dp off s =
     (if off < unat (i_size (ino s dp))
      then bindE (readi kernel_out dp (of_nat off) (of_nat DIRENT) s []) (\<lambda>(s, de, r).
        if r \<noteq> int DIRENT then Inl (Panic ''dirlink read'')
        else if de_inum de = 0 then Inr (s, off)
        else empty_dirent_from dp (off + DIRENT) s)
      else Inr (s, off))"
  by pat_completeness auto
termination
  by (relation "measure (\<lambda>(dp, off, s). unat (i_size (ino s dp)) - off)")
    (auto simp: hdr readi_size)

declare empty_dirent_from.simps [simp del]

text \<open>
  The \<open>struct dirent\<close> on the stack starts with 16 bytes of unknown contents, all of which are written.
\<close>

definition dirlink :: "nat \<Rightarrow> bytes \<Rightarrow> uint \<Rightarrow> fsstate \<Rightarrow> (fsstate \<times> int) res" where
  "dirlink dp name inum s =
     bindE (dirlookup dp name s) (\<lambda>(s, found).
     case found of
       Some (ip, off) \<Rightarrow> bindE (iput ip s) (\<lambda>s. Inr (s, -1))
     | None \<Rightarrow>
         bindE (empty_dirent_from dp 0 s) (\<lambda>(s, off).
         bindE (strncpy (replicate DIRSIZ 0) name DIRSIZ) (\<lambda>nm.
         bindE (writei kernel_in dp (of_nat off) (of_nat DIRENT) s (le_bytes 2 (ucast inum :: ushort) @ nm)) (\<lambda>(s, _, r).
           Inr (s, if r \<noteq> int DIRENT then -1 else 0)))))"

section \<open>Paths\<close>

text \<open>A path is the list of the bytes from the pointer to the end of its array.\<close>

fun skip_slashes :: "bytes \<Rightarrow> bytes res" where
  "skip_slashes [] = Inl OutOfBounds"
| "skip_slashes (c # p) = (if c = of_char CHR ''/'' then skip_slashes p else Inr (c # p))"

text \<open>\<open>while(*path != '/' && *path != 0) path++\<close>: the element passed over and the rest.\<close>

fun span_elem :: "bytes \<Rightarrow> (bytes \<times> bytes) res" where
  "span_elem [] = Inl OutOfBounds"
| "span_elem (c # p) =
     (if c \<noteq> of_char CHR ''/'' \<and> c \<noteq> 0 then mapE (\<lambda>(e, r). (c # e, r)) (span_elem p)
      else Inr ([], c # p))"

definition skipelem :: "bytes \<Rightarrow> bytes \<Rightarrow> (bytes \<times> bytes) option res" where
  "skipelem path name =
     bindE (skip_slashes path) (\<lambda>path.
     if hd path = 0 then Inr None
     else bindE (span_elem path) (\<lambda>(s, path).
          bindE (if length s \<ge> DIRSIZ then Inr (take DIRSIZ s @ drop DIRSIZ name)
                 else Inr (s @ 0 # drop (length s + 1) name)) (\<lambda>name.
          bindE (skip_slashes path) (\<lambda>path. Inr (Some (path, name))))))"

lemma skip_slashes_length: "skip_slashes p = Inr q \<Longrightarrow> length q \<le> length p \<and> q \<noteq> [] \<and> hd q \<noteq> of_char CHR ''/''"
  by (induction p) (auto split: if_splits)

lemma span_elem_length: "span_elem p = Inr (e, q) \<Longrightarrow> length p = length e + length q"
  by (induction p arbitrary: e) (auto split: if_splits)

lemma skipelem_shorter: "skipelem path name = Inr (Some (path', name')) \<Longrightarrow> length path' < length path"
proof -
  assume "skipelem path name = Inr (Some (path', name'))"
  then obtain p e q where p: "skip_slashes path = Inr p" "hd p \<noteq> 0" "span_elem p = Inr (e, q)"
    "skip_slashes q = Inr path'"
    by (auto simp: skipelem_def split: if_splits)
  have "e \<noteq> []"
    using p skip_slashes_length [OF p(1)] by (cases p) (auto split: if_splits)
  then show ?thesis
    using skip_slashes_length [OF p(1)] skip_slashes_length [OF p(4)] span_elem_length [OF p(3)]
    by (cases e) auto
qed

text \<open>
  The loop of \<open>namex\<close>. The results are the inode, or \<open>None\<close> for the null pointer, and the contents of
  the buffer \<open>name\<close>.
\<close>

function namex_loop :: "bool \<Rightarrow> bytes \<Rightarrow> bytes \<Rightarrow> nat \<Rightarrow> fsstate \<Rightarrow> (fsstate \<times> nat option \<times> bytes) res" where
  "namex_loop parent path name ip s =
     bindE (skipelem path name) (\<lambda>r.
     case r of
       None \<Rightarrow>
         if parent then bindE (iput ip s) (\<lambda>s. Inr (s, None, name)) else Inr (s, Some ip, name)
     | Some (path, name) \<Rightarrow>
         bindE (ilock ip s) (\<lambda>s.
         if i_type (ino s ip) \<noteq> T_DIR then bindE (iunlockput ip s) (\<lambda>s. Inr (s, None, name))
         else if parent \<and> hd path = 0 then bindE (iunlock ip s) (\<lambda>s. Inr (s, Some ip, name))
         else bindE (dirlookup ip name s) (\<lambda>(s, found).
           case found of
             None \<Rightarrow> bindE (iunlockput ip s) (\<lambda>s. Inr (s, None, name))
           | Some (nxt, off) \<Rightarrow> bindE (iunlockput ip s) (\<lambda>s. namex_loop parent path name nxt s))))"
  by pat_completeness auto
termination
  by (relation "measure (\<lambda>(parent, path, name, ip, s). length path)") (auto dest: skipelem_shorter)

declare namex_loop.simps [simp del]

definition namex :: "bytes \<Rightarrow> bool \<Rightarrow> bytes \<Rightarrow> fsstate \<Rightarrow> (fsstate \<times> nat option \<times> bytes) res" where
  "namex path parent name s =
     bindE (if hd path = of_char CHR ''/'' then iget ROOTDEV ROOTINO s
            else Inr (idup (cwd s) s, cwd s))
       (\<lambda>(s, ip). namex_loop parent path name ip s)"

definition namei :: "bytes \<Rightarrow> fsstate \<Rightarrow> (fsstate \<times> nat option) res" where
  "namei path s = bindE (namex path False (replicate DIRSIZ 0) s) (\<lambda>(s, ip, name). Inr (s, ip))"

definition nameiparent :: "bytes \<Rightarrow> bytes \<Rightarrow> fsstate \<Rightarrow> (fsstate \<times> nat option \<times> bytes) res" where
  "nameiparent path name s = namex path True name s"

end
