(* ===== verification/FsSpec.thy ===== *)
theory FsSpec
  imports Fs
begin

text \<open>
  Correctness of \<open>fs.c\<close>: path parsing against the list of a path's elements, the inode table as a
  reference-counted set of inodes, the free-block bitmap, and reading and writing of file content.
\<close>

section \<open>Paths\<close>

abbreviation slash :: uchar where
  "slash \<equiv> of_char CHR ''/''"

text \<open>The elements of a path: its maximal runs of characters other than the slash.\<close>

fun path_elems_acc :: "bytes \<Rightarrow> bytes \<Rightarrow> bytes list" where
  "path_elems_acc e [] = (if e = [] then [] else [e])"
| "path_elems_acc e (c # p) =
     (if c = slash then (if e = [] then path_elems_acc [] p else e # path_elems_acc [] p)
      else path_elems_acc (e @ [c]) p)"

definition path_elems :: "bytes \<Rightarrow> bytes list" where
  "path_elems p = path_elems_acc [] p"

lemma slash_nonzero [simp]: "slash \<noteq> 0"
  by simp

lemma skip_slashes_eq:
  "terminated p \<Longrightarrow> \<exists>q. skip_slashes p = Inr q \<and> terminated q \<and> hd q \<noteq> slash \<and> q \<noteq> [] \<and>
    path_elems (cstr q) = path_elems (cstr p)"
  by (induction p) (auto simp: path_elems_def)

lemma span_elem_eq:
  "terminated p \<Longrightarrow> \<exists>e q. span_elem p = Inr (e, q) \<and> terminated q \<and> q \<noteq> [] \<and> (hd q = slash \<or> hd q = 0) \<and>
    cstr p = e @ cstr q \<and> slash \<notin> set e"
  by (induction p) auto

lemma path_elems_acc_span:
  "slash \<notin> set e \<Longrightarrow> path_elems_acc a (e @ p) = path_elems_acc (a @ e) p"
  by (induction e arbitrary: a) auto

lemma path_elems_head:
  assumes "slash \<notin> set e" and "e \<noteq> []" and "q \<noteq> []" and "hd q = slash \<or> hd q = 0"
  shows "path_elems (e @ cstr q) = e # path_elems (cstr q)"
proof -
  obtain c r where q: "q = c # r" using assms(3) by (cases q) auto
  then show ?thesis using assms by (auto simp: path_elems_def path_elems_acc_span)
qed

lemma cstr_take_name: "0 \<notin> set e \<Longrightarrow> length e < n \<Longrightarrow> length name = n \<Longrightarrow>
    cstr (e @ 0 # drop (length e + 1) name) = e"
  by (rule cstr_append_NUL)

lemma skipelem_spec:
  assumes "terminated path" and "length name = DIRSIZ"
  shows "case path_elems (cstr path) of
      [] \<Rightarrow> skipelem path name = Inr None
    | e # es \<Rightarrow> \<exists>path' name'. skipelem path name = Inr (Some (path', name')) \<and> terminated path' \<and>
        hd path' \<noteq> slash \<and> path_elems (cstr path') = es \<and> length name' = DIRSIZ \<and>
        take DIRSIZ (cstr name') = take DIRSIZ e"
proof -
  obtain p where p: "skip_slashes path = Inr p" "terminated p" "hd p \<noteq> slash" "p \<noteq> []"
    "path_elems (cstr p) = path_elems (cstr path)"
    using skip_slashes_eq [OF assms(1)] by blast
  show ?thesis
  proof (cases "hd p = 0")
    case True
    then have "cstr p = []" using p(4) by (cases p) auto
    then have "path_elems (cstr path) = []" using p(5) by (simp add: path_elems_def)
    then show ?thesis using p(1) True by (simp add: skipelem_def)
  next
    case False
    obtain e q where e: "span_elem p = Inr (e, q)" "terminated q" "q \<noteq> []" "hd q = slash \<or> hd q = 0"
      "cstr p = e @ cstr q" "slash \<notin> set e"
      using span_elem_eq [OF p(2)] by blast
    have ne: "e \<noteq> []" using e(1,4) False p(3,4) by (cases p) (auto split: if_splits)
    obtain r where r: "skip_slashes q = Inr r" "terminated r" "hd r \<noteq> slash" "path_elems (cstr r) = path_elems (cstr q)"
      using skip_slashes_eq [OF e(2)] by blast
    have z: "0 \<notin> set e" using e(5) cstr_nonzero [of _ p] by auto
    have el: "path_elems (cstr path) = e # path_elems (cstr r)"
      using path_elems_head [OF e(6) ne e(3,4)] p(5) e(5) r(4) by simp
    show ?thesis
    proof (cases "length e \<ge> DIRSIZ")
      case True
      have "0 \<notin> set (take DIRSIZ e)" using z by (auto dest: in_set_takeD)
      then have "cstr (take DIRSIZ e) = take DIRSIZ e" by (rule cstr_id)
      then show ?thesis
        using el p(1) False e(1) r True assms(2) by (simp add: skipelem_def)
    next
      case short: False
      have "cstr (e @ 0 # drop (length e + 1) name) = e" using z by (rule cstr_append_NUL)
      then show ?thesis
        using el p(1) False e(1) r short assms(2) by (simp add: skipelem_def)
    qed
  qed
qed

text \<open>
  \<open>skipelem\<close> on a NUL-terminated path peels off the first element: it returns the null pointer
  exactly when the path has no element left, and otherwise a path with no leading slash whose elements
  are the remaining ones, with the first 14 characters of the element in \<open>name\<close>.
\<close>

theorem skipelem_correct:
  assumes "terminated path" and "length name = DIRSIZ"
  shows "case path_elems (cstr path) of
      [] \<Rightarrow> skipelem path name = Inr None
    | e # es \<Rightarrow> \<exists>path' name'. skipelem path name = Inr (Some (path', name')) \<and> terminated path' \<and>
        hd path' \<noteq> slash \<and> path_elems (cstr path') = es \<and> length name' = DIRSIZ \<and>
        take DIRSIZ (cstr name') = take DIRSIZ e"
  using assms by (rule skipelem_spec)

theorem skipelem_correct_witness:
  "\<exists>path' name'. skipelem (lit ''//a/bb'') (replicate DIRSIZ 7) = Inr (Some (path', name')) \<and> terminated path' \<and>
    hd path' \<noteq> slash \<and> path_elems (cstr path') = [bytes_of ''bb''] \<and> length name' = DIRSIZ \<and>
    take DIRSIZ (cstr name') = take DIRSIZ (bytes_of ''a'')"
  using skipelem_correct [of "lit ''//a/bb''" "replicate DIRSIZ 7"]
  by (simp add: path_elems_def bytes_of_def)

section \<open>The inode table\<close>

definition itab_keys :: "fsstate \<Rightarrow> (uint \<times> uint \<times> int) list" where
  "itab_keys s = map (\<lambda>i. (i_dev i, i_inum i, i_ref i)) (itable s)"

text \<open>The number of references to an inode, over all entries of the table.\<close>

definition refs :: "fsstate \<Rightarrow> uint \<times> uint \<Rightarrow> int" where
  "refs s k = sum_list (map (\<lambda>(d, n, r). if (d, n) = k then r else 0) (itab_keys s))"

definition wf_itable :: "fsstate \<Rightarrow> bool" where
  "wf_itable s \<longleftrightarrow> length (itable s) = NINODE \<and> (\<forall>i<NINODE. 0 \<le> i_ref (ino s i)) \<and>
     (\<forall>i<NINODE. \<forall>j<NINODE. 0 < i_ref (ino s i) \<longrightarrow> 0 < i_ref (ino s j) \<longrightarrow>
        i_dev (ino s i) = i_dev (ino s j) \<longrightarrow> i_inum (ino s i) = i_inum (ino s j) \<longrightarrow> i = j)"

lemma refs_update:
  assumes "length (itable s) = n" and "ip < n"
  shows "refs (upd_ino ip f s) k = refs s k
    - (if (i_dev (ino s ip), i_inum (ino s ip)) = k then i_ref (ino s ip) else 0)
    + (if (i_dev (f (ino s ip)), i_inum (f (ino s ip))) = k then i_ref (f (ino s ip)) else 0)"
  using assms unfolding refs_def itab_keys_def upd_ino_def
  by (simp add: map_update sum_list_int_update del: list_update_id)

lemma wf_itable_keys: "itab_keys s' = itab_keys s \<Longrightarrow> wf_itable s' = wf_itable s \<and> refs s' = refs s"
proof -
  assume k: "itab_keys s' = itab_keys s"
  have len: "length (itable s') = length (itable s)" using arg_cong [OF k, of length] by (simp add: itab_keys_def)
  have "i_dev (ino s' i) = i_dev (ino s i) \<and> i_inum (ino s' i) = i_inum (ino s i) \<and> i_ref (ino s' i) = i_ref (ino s i)"
    if "i < length (itable s)" for i
    using arg_cong [OF k, of "\<lambda>l. l ! i"] that len by (simp add: itab_keys_def)
  then show ?thesis using len k by (auto simp: wf_itable_def refs_def fun_eq_iff)
qed

lemma wf_itable_ref:
  assumes "wf_itable s" and "ip < NINODE" and "0 \<le> r" and "0 < i_ref (ino s ip)"
  shows "wf_itable (upd_ino ip (\<lambda>i. i\<lparr>i_ref := r\<rparr>) s)"
  using assms by (auto simp: wf_itable_def nth_upd_ino)

lemma iget_spec:
  assumes wf: "wf_itable s"
  shows "(\<exists>s' i. iget dev inum s = Inr (s', i) \<and> i < NINODE \<and> wf_itable s' \<and> refs s' = (refs s)((dev, inum) := refs s (dev, inum) + 1) \<and>
      i_dev (ino s' i) = dev \<and> i_inum (ino s' i) = inum \<and> 0 < i_ref (ino s' i) \<and> lg s' = lg s \<and> sb s' = sb s \<and>
      (\<forall>j. j \<noteq> i \<longrightarrow> ino s' j = ino s j)) \<or>
    iget dev inum s = Inl (Panic ''iget: no inodes'') \<and> (\<forall>i<NINODE. 0 < i_ref (ino s i))"
proof (cases "find_idx (\<lambda>ip. i_ref ip > 0 \<and> i_dev ip = dev \<and> i_inum ip = inum) (itable s)")
  case (Some i)
  then have i: "i < NINODE" "0 < i_ref (ino s i)" "i_dev (ino s i) = dev" "i_inum (ino s i) = inum"
    using wf by (auto simp: find_idx_Some wf_itable_def)
  let ?s = "upd_ino i (\<lambda>ip. ip\<lparr>i_ref := i_ref ip + 1\<rparr>) s"
  have "wf_itable ?s" using wf i by (auto simp: wf_itable_def nth_upd_ino)
  moreover have "refs ?s k = ((refs s)((dev, inum) := refs s (dev, inum) + 1)) k" for k
    using refs_update [of s NINODE i] wf i by (simp add: wf_itable_def)
  moreover have "iget dev inum s = Inr (?s, i)" using Some by (simp add: iget_def)
  moreover have "i_dev (ino ?s i) = dev \<and> i_inum (ino ?s i) = inum \<and> 0 < i_ref (ino ?s i)"
    using i wf by (simp add: nth_upd_ino wf_itable_def)
  moreover have "\<forall>j. j \<noteq> i \<longrightarrow> ino ?s j = ino s j" by (simp add: nth_upd_ino)
  ultimately show ?thesis
    using i(1) by (intro disjI1 exI [of _ ?s] exI [of _ i] conjI ext) simp_all
next
  case None
  then have none: "\<forall>j<NINODE. \<not> (i_ref (ino s j) > 0 \<and> i_dev (ino s j) = dev \<and> i_inum (ino s j) = inum)"
    using wf by (auto simp: find_idx_None wf_itable_def)
  show ?thesis
  proof (cases "find_idx (\<lambda>ip. i_ref ip = 0) (itable s)")
    case None2: None
    have "0 < i_ref (ino s i)" if "i < NINODE" for i
    proof -
      have "i_ref (ino s i) \<noteq> 0" using None2 wf that by (auto simp: find_idx_None wf_itable_def)
      moreover have "0 \<le> i_ref (ino s i)" using wf that by (simp add: wf_itable_def)
      ultimately show ?thesis by simp
    qed
    then show ?thesis using None None2 by (simp add: iget_def)
  next
    case (Some i)
    then have i: "i < NINODE" "i_ref (ino s i) = 0" using wf by (auto simp: find_idx_Some wf_itable_def)
    let ?s = "upd_ino i (\<lambda>ip. ip\<lparr>i_dev := dev, i_inum := inum, i_ref := 1, i_valid := False\<rparr>) s"
    have "wf_itable ?s" using wf i none by (auto simp: wf_itable_def nth_upd_ino)
    moreover have "refs ?s k = ((refs s)((dev, inum) := refs s (dev, inum) + 1)) k" for k
      using refs_update [of s NINODE i] wf i by (simp add: wf_itable_def)
    moreover have "iget dev inum s = Inr (?s, i)" using None Some by (simp add: iget_def)
    moreover have "i_dev (ino ?s i) = dev \<and> i_inum (ino ?s i) = inum \<and> 0 < i_ref (ino ?s i)"
      using i wf by (simp add: nth_upd_ino wf_itable_def)
    moreover have "\<forall>j. j \<noteq> i \<longrightarrow> ino ?s j = ino s j" by (simp add: nth_upd_ino)
    ultimately show ?thesis
      using i(1) by (intro disjI1 exI [of _ ?s] exI [of _ i] conjI ext) simp_all
  qed
qed

lemma upd_ino_keys:
  assumes "\<And>i. i_dev (f i) = i_dev i \<and> i_inum (f i) = i_inum i \<and> i_ref (f i) = i_ref i"
  shows "itab_keys (upd_ino ip f s) = itab_keys s"
proof -
  have "(map (\<lambda>i. (i_dev i, i_inum i, i_ref i)) (itable s))[ip := (i_dev (ino s ip), i_inum (ino s ip), i_ref (ino s ip))] =
      map (\<lambda>i. (i_dev i, i_inum i, i_ref i)) (itable s)"
    by (cases "ip < length (itable s)") (simp_all add: list_update_same_conv list_update_beyond)
  then show ?thesis using assms by (simp add: itab_keys_def upd_ino_def map_update)
qed

lemma log_store_keys: "log_store b d s = Inr s' \<Longrightarrow> itab_keys s' = itab_keys s"
  by (auto simp: itab_keys_def dest: log_store_itable)

lemma bfree_keys: "bfree b s = Inr s' \<Longrightarrow> itab_keys s' = itab_keys s"
  by (auto simp: bfree_def Let_def split: if_splits dest: log_store_keys)

lemma iupdate_keys: "iupdate ip s = Inr s' \<Longrightarrow> itab_keys s' = itab_keys s"
  by (auto simp: iupdate_def Let_def dest: log_store_keys)

lemma free_direct_keys: "free_direct ip ks s = Inr s' \<Longrightarrow> itab_keys s' = itab_keys s"
proof (induction ks arbitrary: s)
  case (Cons k ks)
  show ?case
  proof (cases "i_addrs (ino s ip) ! k = 0")
    case False
    then obtain x where "bfree (i_addrs (ino s ip) ! k) s = Inr x"
      "free_direct ip ks (upd_ino ip (\<lambda>i. i\<lparr>i_addrs := (i_addrs i)[k := 0]\<rparr>) x) = Inr s'"
      using Cons.prems by (auto simp: Let_def)
    then show ?thesis using Cons.IH bfree_keys by (simp add: upd_ino_keys)
  qed (use Cons in simp)
qed simp

lemma free_indirect_keys: "free_indirect as s = Inr s' \<Longrightarrow> itab_keys s' = itab_keys s"
proof (induction as arbitrary: s)
  case (Cons a as)
  then obtain x where "(if a \<noteq> 0 then bfree a s else Inr s) = Inr x" "free_indirect as x = Inr s'" by auto
  then show ?case using Cons.IH bfree_keys [of a s x] by (auto split: if_splits)
qed simp

lemma itrunc_keys: "itrunc ip s = Inr s' \<Longrightarrow> itab_keys s' = itab_keys s"
  by (auto simp: itrunc_def Let_def upd_ino_keys split: if_splits
      dest!: free_direct_keys free_indirect_keys bfree_keys iupdate_keys)

lemma iput_spec:
  assumes wf: "wf_itable s" and ip: "ip < NINODE" "0 < i_ref (ino s ip)" and put: "iput ip s = Inr s'"
  shows "wf_itable s' \<and> refs s' = (refs s)((i_dev (ino s ip), i_inum (ino s ip)) :=
    refs s (i_dev (ino s ip), i_inum (ino s ip)) - 1)"
proof -
  obtain s1 where s1: "s' = upd_ino ip (\<lambda>i. i\<lparr>i_ref := i_ref i - 1\<rparr>) s1" and
    body: "(if i_ref (ino s ip) = 1 \<and> i_valid (ino s ip) \<and> i_nlink (ino s ip) = 0
      then bindE (acquiresleep (me s) (i_lock (ino s ip))) (\<lambda>lk.
           bindE (itrunc ip (upd_ino ip (\<lambda>i. i\<lparr>i_lock := lk\<rparr>) s)) (\<lambda>s.
           bindE (iupdate ip (upd_ino ip (\<lambda>i. i\<lparr>i_type := 0\<rparr>) s)) (\<lambda>s.
           Inr (upd_ino ip (\<lambda>i. i\<lparr>i_valid := False, i_lock := releasesleep (i_lock i)\<rparr>) s))))
      else Inr s) = Inr s1"
    using put unfolding iput_def by (auto simp only: bindE_eq_Inr sum.inject)
  have s1_keys: "itab_keys s1 = itab_keys s"
    using body by (auto simp: upd_ino_keys split: if_splits dest!: itrunc_keys iupdate_keys)
  have k: "wf_itable s1" "refs s1 = refs s" using wf_itable_keys [OF s1_keys] wf by auto
  have len: "length (itable s1) = NINODE" "length (itable s) = NINODE" using k(1) wf by (auto simp: wf_itable_def)
  have e: "i_dev (ino s1 ip) = i_dev (ino s ip) \<and> i_inum (ino s1 ip) = i_inum (ino s ip) \<and> i_ref (ino s1 ip) = i_ref (ino s ip)"
    using arg_cong [OF s1_keys, of "\<lambda>l. l ! ip"] ip(1) len by (simp add: itab_keys_def)
  have "wf_itable s'" unfolding s1 using k(1) ip e by (auto simp: wf_itable_def nth_upd_ino)
  moreover have "refs s' key = ((refs s)((i_dev (ino s ip), i_inum (ino s ip)) :=
      refs s (i_dev (ino s ip), i_inum (ino s ip)) - 1)) key" for key
    unfolding s1 using refs_update [OF len(1) ip(1)] k(2) e by simp
  ultimately show ?thesis by blast
qed

lemma idup_spec:
  assumes "wf_itable s" and "ip < NINODE" and "0 < i_ref (ino s ip)"
  shows "wf_itable (idup ip s) \<and> refs (idup ip s) = (refs s)((i_dev (ino s ip), i_inum (ino s ip)) :=
    refs s (i_dev (ino s ip), i_inum (ino s ip)) + 1)"
proof -
  have "refs (idup ip s) k = ((refs s)((i_dev (ino s ip), i_inum (ino s ip)) :=
      refs s (i_dev (ino s ip), i_inum (ino s ip)) + 1)) k" for k
    unfolding idup_def using refs_update [of s NINODE ip] assms by (simp add: wf_itable_def)
  moreover have "wf_itable (idup ip s)"
    unfolding idup_def using assms by (auto simp: wf_itable_def nth_upd_ino)
  ultimately show ?thesis by blast
qed

section \<open>An interface for reference-counted tables\<close>

text \<open>
  The contract of \<open>iget\<close>, \<open>idup\<close> and \<open>iput\<close> as their callers see it: a table of entries, each the handle
  of an object, with a count of the references to every object.
\<close>

locale ref_table =
  fixes inv :: "'s \<Rightarrow> bool"
    and count :: "'s \<Rightarrow> 'k \<Rightarrow> int"
    and key :: "'s \<Rightarrow> nat \<Rightarrow> 'k"
    and live :: "'s \<Rightarrow> nat \<Rightarrow> bool"
    and get :: "'k \<Rightarrow> 's \<Rightarrow> ('s \<times> nat) res"
    and dup :: "nat \<Rightarrow> 's \<Rightarrow> 's"
    and put :: "nat \<Rightarrow> 's \<Rightarrow> 's res"
  assumes get_law: "inv s \<Longrightarrow> get k s = Inr (s', i) \<Longrightarrow>
      inv s' \<and> live s' i \<and> key s' i = k \<and> count s' = (count s)(k := count s k + 1)"
    and dup_law: "inv s \<Longrightarrow> live s i \<Longrightarrow>
      inv (dup i s) \<and> live (dup i s) i \<and> key (dup i s) i = key s i \<and>
      count (dup i s) = (count s)(key s i := count s (key s i) + 1)"
    and put_law: "inv s \<Longrightarrow> live s i \<Longrightarrow> put i s = Inr s' \<Longrightarrow>
      inv s' \<and> count s' = (count s)(key s i := count s (key s i) - 1)"
begin

lemma get_put:
  assumes "inv s" and "get k s = Inr (s1, i)" and "put i s1 = Inr s2"
  shows "inv s2 \<and> count s2 = count s"
proof -
  have g: "inv s1" "live s1 i" "key s1 i = k" "count s1 = (count s)(k := count s k + 1)"
    using get_law [OF assms(1,2)] by auto
  show ?thesis using put_law [OF g(1,2) assms(3)] g by auto
qed

lemma get_dup_put_put:
  assumes "inv s" and "get k s = Inr (s1, i)" and "put i (dup i s1) = Inr s2" and "live s2 i"
    and "key s2 i = k" and "put i s2 = Inr s3"
  shows "inv s3 \<and> count s3 = count s"
proof -
  have g: "inv s1" "live s1 i" "key s1 i = k" "count s1 = (count s)(k := count s k + 1)"
    using get_law [OF assms(1,2)] by auto
  have d: "inv (dup i s1)" "live (dup i s1) i" "key (dup i s1) i = k"
    "count (dup i s1) = (count s)(k := count s k + 2)"
    using dup_law [OF g(1,2)] g by auto
  have "inv s2" "count s2 = (count s)(k := count s k + 1)" using put_law [OF d(1,2) assms(3)] d by auto
  then show ?thesis using put_law [OF _ assms(4,6)] assms(5) by auto
qed

end

interpretation itab: ref_table wf_itable refs
  "\<lambda>s i. (i_dev (ino s i), i_inum (ino s i))" "\<lambda>s i. i < NINODE \<and> 0 < i_ref (ino s i)"
  "\<lambda>(dev, inum). iget dev inum" idup iput
proof
  fix s k s' i
  assume "wf_itable s" "(case k of (dev, inum) \<Rightarrow> iget dev inum) s = Inr (s', i)"
  then show "wf_itable s' \<and> (i < NINODE \<and> 0 < i_ref (ino s' i)) \<and> (i_dev (ino s' i), i_inum (ino s' i)) = k \<and>
      refs s' = (refs s)(k := refs s k + 1)"
    using iget_spec [of s "fst k" "snd k"] by (cases k) auto
next
  fix s i
  assume "wf_itable s" "i < NINODE \<and> 0 < i_ref (ino s i)"
  then show "wf_itable (idup i s) \<and> (i < NINODE \<and> 0 < i_ref (ino (idup i s) i)) \<and>
      (i_dev (ino (idup i s) i), i_inum (ino (idup i s) i)) = (i_dev (ino s i), i_inum (ino s i)) \<and>
      refs (idup i s) = (refs s)((i_dev (ino s i), i_inum (ino s i)) := refs s (i_dev (ino s i), i_inum (ino s i)) + 1)"
    using idup_spec [of s i] by (simp add: idup_def nth_upd_ino)
next
  fix s i s'
  assume "wf_itable s" "i < NINODE \<and> 0 < i_ref (ino s i)" "iput i s = Inr s'"
  then show "wf_itable s' \<and> refs s' = (refs s)((i_dev (ino s i), i_inum (ino s i)) :=
      refs s (i_dev (ino s i), i_inum (ino s i)) - 1)"
    using iput_spec by blast
qed

text \<open>
  The inode table counts references: \<open>iget\<close> either panics because all \<open>NINODE\<close> entries are in use, or
  returns the one entry of the table for the inode with one reference more than before; the table
  never holds two entries in use for one inode, and other inodes keep their counts.
\<close>

theorem iget_counts_references:
  assumes "wf_itable s"
  shows "(\<exists>s' i. iget dev inum s = Inr (s', i) \<and> wf_itable s' \<and>
      i_dev (ino s' i) = dev \<and> i_inum (ino s' i) = inum \<and> 0 < i_ref (ino s' i) \<and>
      refs s' = (refs s)((dev, inum) := refs s (dev, inum) + 1) \<and> (\<forall>j. j \<noteq> i \<longrightarrow> ino s' j = ino s j)) \<or>
    iget dev inum s = Inl (Panic ''iget: no inodes'') \<and> (\<forall>i<NINODE. 0 < i_ref (ino s i))"
  using iget_spec [OF assms, of dev inum] by auto

text \<open>
  \<open>iput\<close> undoes \<open>iget\<close>, also when it has to truncate and free the inode: afterwards the table is
  well formed and every inode has the number of references it had before.
\<close>

theorem iget_iput_balance:
  assumes "wf_itable s" and "iget dev inum s = Inr (s1, i)" and "iput i s1 = Inr s2"
  shows "wf_itable s2 \<and> refs s2 = refs s"
  using itab.get_put [of s "(dev, inum)" s1 i s2] assms by auto

definition sample_inode :: inode where
  "sample_inode = \<lparr>i_dev = 0, i_inum = 0, i_ref = 0, i_lock = initsleeplock, i_valid = False, i_type = 0, i_major = 0,
     i_minor = 0, i_nlink = 0, i_size = 0, i_addrs = replicate 13 0\<rparr>"

definition sample_fs :: fsstate where
  "sample_fs = \<lparr>lg = (reboot (\<lambda>b. if b = 45 then replicate 12 255 @ replicate 1012 0 else replicate BSIZE 0))
       \<lparr>log_outstanding := 1\<rparr>,
     sb = \<lparr>sb_magic = FSMAGIC, sb_size = 200, sb_nblocks = 100, sb_ninodes = 20, sb_nlog = 31, sb_logstart = 2,
       sb_inodestart = 33, sb_bmapstart = 45\<rparr>,
     itable = replicate NINODE sample_inode, me = 1, cwd = 0\<rparr>"

lemma sample_fs_wf: "wf_itable sample_fs"
  by (simp add: wf_itable_def sample_fs_def sample_inode_def)

theorem iget_counts_references_witness:
  "(\<exists>s' i. iget 1 1 sample_fs = Inr (s', i) \<and> wf_itable s' \<and>
      i_dev (ino s' i) = 1 \<and> i_inum (ino s' i) = 1 \<and> 0 < i_ref (ino s' i) \<and>
      refs s' = (refs sample_fs)((1, 1) := refs sample_fs (1, 1) + 1) \<and> (\<forall>j. j \<noteq> i \<longrightarrow> ino s' j = ino sample_fs j)) \<or>
    iget 1 1 sample_fs = Inl (Panic ''iget: no inodes'') \<and> (\<forall>i<NINODE. 0 < i_ref (ino sample_fs i))"
  by (rule iget_counts_references [OF sample_fs_wf])

lemma sample_iget: "\<exists>s1. iget 1 1 sample_fs = Inr (s1, 0) \<and> (\<exists>s2. iput 0 s1 = Inr s2)"
  by (simp add: iget_def sample_fs_def sample_inode_def upd_ino_def iput_def hdr numeral_eq_Suc)

theorem iget_iput_balance_witness:
  "\<exists>s1 s2. iget 1 1 sample_fs = Inr (s1, 0) \<and> iput 0 s1 = Inr s2 \<and> wf_itable s2 \<and> refs s2 = refs sample_fs"
  using sample_iget iget_iput_balance [OF sample_fs_wf] by blast

section \<open>Logged stores\<close>

text \<open>A transaction has room for \<open>n\<close> more blocks.\<close>

definition log_room :: "fsstate \<Rightarrow> nat \<Rightarrow> bool" where
  "log_room s n \<longleftrightarrow> 0 \<le> lh_n (lg s) \<and> lh_n (lg s) + int n \<le> int LOGBLOCKS \<and> 1 \<le> log_outstanding (lg s)"

lemma log_store_ok:
  assumes "log_room s (Suc n)"
  shows "\<exists>s'. log_store b d s = Inr s' \<and> blk s' = (blk s)(b := d) \<and> log_room s' n \<and>
    itable s' = itable s \<and> sb s' = sb s \<and> me s' = me s \<and> cwd s' = cwd s"
  using assms
  by (auto simp: log_store_def log_write_def buf_store_def log_room_def blk_def bread_def fun_eq_iff Let_def
      split: option.splits)

section \<open>The free-block bitmap\<close>

text \<open>Block \<open>b\<close> is marked as used.\<close>

definition block_used :: "fsstate \<Rightarrow> nat \<Rightarrow> bool" where
  "block_used s b \<longleftrightarrow> \<not> bit_clear (blk s (BBLOCK (of_nat b) s)) (b mod BPB)"

lemma bit_mask_bit: "bit (bit_mask bi) n \<longleftrightarrow> n = bi mod 8"
  by (auto simp: bit_mask_def bit_simps bit_1_iff)

lemma bit_clear_iff: "bit_clear d bi \<longleftrightarrow> \<not> bit (d ! (bi div 8)) (bi mod 8)"
proof
  assume "bit_clear d bi"
  then have "\<not> bit (d ! (bi div 8) AND bit_mask bi) (bi mod 8)" by (simp add: bit_clear_def)
  then show "\<not> bit (d ! (bi div 8)) (bi mod 8)" by (simp add: bit_and_iff bit_mask_bit)
next
  assume "\<not> bit (d ! (bi div 8)) (bi mod 8)"
  then have "bit (d ! (bi div 8) AND bit_mask bi) n = bit 0 n" for n
    by (auto simp: bit_and_iff bit_mask_bit)
  then show "bit_clear d bi" unfolding bit_clear_def by (intro bit_eqI) blast
qed

lemma bit_clear_update:
  assumes "bi < 8 * length d"
  shows "bit_clear (d[bi div 8 := d ! (bi div 8) OR bit_mask bi]) bj \<longleftrightarrow> bit_clear d bj \<and> bj \<noteq> bi"
    and "bit_clear (d[bi div 8 := d ! (bi div 8) AND NOT (bit_mask bi)]) bj \<longleftrightarrow> bit_clear d bj \<or> bj = bi"
proof -
  have len: "bi div 8 < length d" using assms by (simp add: div_less_iff_less_mult mult.commute)
  have eq: "bj = bi \<longleftrightarrow> bj div 8 = bi div 8 \<and> bj mod 8 = bi mod 8" by (metis div_mult_mod_eq)
  show "bit_clear (d[bi div 8 := d ! (bi div 8) OR bit_mask bi]) bj \<longleftrightarrow> bit_clear d bj \<and> bj \<noteq> bi"
    unfolding bit_clear_iff eq using len by (cases "bj div 8 = bi div 8") (auto simp: bit_simps bit_mask_bit)
  have "bj mod 8 < 8" by simp
  then show "bit_clear (d[bi div 8 := d ! (bi div 8) AND NOT (bit_mask bi)]) bj \<longleftrightarrow> bit_clear d bj \<or> bj = bi"
    unfolding bit_clear_iff eq using len by (cases "bj div 8 = bi div 8") (auto simp: bit_simps bit_mask_bit)
qed

text \<open>
  The layout that the bitmap code relies on: the bitmap blocks are whole blocks, below the data blocks
  that \<open>balloc\<close> hands out. Block 0 is marked as used, so that 0 can mean failure.
\<close>

definition bitmap_ok :: "fsstate \<Rightarrow> bool" where
  "bitmap_ok s \<longleftrightarrow> (\<forall>b. length (blk s b) = BSIZE) \<and> block_used s 0 \<and>
     unat (sb_bmapstart (sb s)) + unat (sb_size (sb s)) div BPB + 1 \<le> unat (sb_size (sb s)) \<and>
     unat (sb_size (sb s)) < 2 ^ 31 \<and>
     (\<forall>b<unat (sb_size (sb s)). b < unat (sb_bmapstart (sb s)) + unat (sb_size (sb s)) div BPB + 1 \<longrightarrow> block_used s b)"

lemma unat_of_nat32: "n < 2 ^ 32 \<Longrightarrow> unat (of_nat n :: uint) = n"
  by (simp add: unsigned_of_nat take_bit_nat_eq_self)

lemma BBLOCK_unat:
  assumes "b < 2 ^ 31" and "unat (sb_bmapstart (sb s)) < 2 ^ 31"
  shows "unat (BBLOCK (of_nat b) s) = b div BPB + unat (sb_bmapstart (sb s))"
proof -
  have "unat (of_nat b div (8192 :: uint)) = b div 8192"
    using assms(1) by (simp add: unat_div_distrib unat_of_nat32)
  moreover have "b div 8192 < 2 ^ 18" using assms(1) by (simp add: div_less_iff_less_mult)
  ultimately show ?thesis
    using assms(2) by (simp add: BBLOCK_def hdr unat_word_ariths(1))
qed

lemma find_idx_upt:
  "find_idx P [a..<a + n] = Some i \<longleftrightarrow> i < n \<and> P (a + i) \<and> (\<forall>j<i. \<not> P (a + j))"
  by (auto simp: find_idx_Some)

text \<open>No bitmap block is itself free.\<close>

lemma bitmap_block_used:
  assumes ok: "bitmap_ok s" and b: "b < unat (sb_size (sb s))" "\<not> block_used s b" and c: "c < unat (sb_size (sb s))"
  shows "of_nat b \<noteq> BBLOCK (of_nat c) s"
proof
  assume eq: "of_nat b = BBLOCK (of_nat c) s"
  have lt: "b < 2 ^ 31" "c < 2 ^ 31" "unat (sb_bmapstart (sb s)) < 2 ^ 31" using ok b c by (auto simp: bitmap_ok_def)
  have "unat (of_nat b :: uint) = b" using lt by (intro unat_of_nat32) simp
  then have "b = c div BPB + unat (sb_bmapstart (sb s))"
    using arg_cong [OF eq, of unat] BBLOCK_unat [OF lt(2,3)] by simp
  moreover have "c div BPB \<le> unat (sb_size (sb s)) div BPB" using c by (intro div_le_mono) simp
  ultimately show False using ok b by (auto simp: bitmap_ok_def)
qed

lemma same_bitmap_block:
  assumes "bitmap_ok s" and "b < unat (sb_size (sb s))" and "c < unat (sb_size (sb s))"
  shows "BBLOCK (of_nat c) s = BBLOCK (of_nat b) s \<longleftrightarrow> c div BPB = b div BPB"
proof -
  have "b < 2 ^ 31" "c < 2 ^ 31" "unat (sb_bmapstart (sb s)) < 2 ^ 31" using assms by (auto simp: bitmap_ok_def)
  then show ?thesis using BBLOCK_unat by (simp add: word_unat_eq_iff)
qed

text \<open>A state whose bitmap differs in the mark of one block.\<close>

lemma bitmap_after:
  assumes ok: "bitmap_ok s" and b: "b < unat (sb_size (sb s))" and sb': "sb s' = sb s"
    and same: "\<And>c. c < unat (sb_size (sb s)) \<Longrightarrow> BBLOCK (of_nat c) s \<noteq> BBLOCK (of_nat b) s \<Longrightarrow>
      blk s' (BBLOCK (of_nat c) s) = blk s (BBLOCK (of_nat c) s)"
    and upd: "\<And>bj. bit_clear (blk s' (BBLOCK (of_nat b) s)) bj \<longleftrightarrow> (if bj = b mod BPB then \<not> u else bit_clear (blk s (BBLOCK (of_nat b) s)) bj)"
    and c: "c < unat (sb_size (sb s))"
  shows "block_used s' c \<longleftrightarrow> (if c = b then u else block_used s c)"
proof -
  have B: "BBLOCK (of_nat c) s' = BBLOCK (of_nat c) s" using sb' by (simp add: BBLOCK_def)
  have e: "c = b \<longleftrightarrow> c div BPB = b div BPB \<and> c mod BPB = b mod BPB" by (metis div_mult_mod_eq)
  show ?thesis
  proof (cases "BBLOCK (of_nat c) s = BBLOCK (of_nat b) s")
    case True
    then show ?thesis using same_bitmap_block [OF ok b c] upd e B by (simp add: block_used_def)
  next
    case False
    then show ?thesis using same [OF c] B by (auto simp: block_used_def)
  qed
qed

text \<open>The effect of marking a free block and clearing it.\<close>

lemma mark_and_zero:
  assumes ok: "bitmap_ok s" and b: "b < unat (sb_size (sb s))" "\<not> block_used s b" and room: "log_room s 2"
    and bb: "bb = BBLOCK (of_nat b) s" and bi: "bi = b mod BPB"
  shows "\<exists>s'. bindE (log_store bb ((blk s bb)[bi div 8 := blk s bb ! (bi div 8) OR bit_mask bi]) s)
      (bzero (of_nat b)) = Inr s' \<and> bitmap_ok s' \<and>
      (\<forall>c<unat (sb_size (sb s)). block_used s' c \<longleftrightarrow> block_used s c \<or> c = b) \<and>
      blk s' (of_nat b) = replicate BSIZE 0 \<and>
      (\<forall>x. x \<noteq> of_nat b \<and> x \<noteq> bb \<longrightarrow> blk s' x = blk s x) \<and> itable s' = itable s \<and> sb s' = sb s \<and> log_room s' 0"
proof -
  let ?d = "(blk s bb)[bi div 8 := blk s bb ! (bi div 8) OR bit_mask bi]"
  have len: "length (blk s x) = BSIZE" for x using ok by (simp add: bitmap_ok_def)
  have bi8: "bi < 8 * length (blk s bb)" by (simp add: len bi hdr)
  obtain s1 where s1: "log_store bb ?d s = Inr s1" "blk s1 = (blk s)(bb := ?d)" "log_room s1 1"
    "itable s1 = itable s" "sb s1 = sb s"
    using log_store_ok [of s 1 bb ?d] room by (auto simp: numeral_2_eq_2)
  have "length (blk s1 (of_nat b)) = BSIZE" by (simp add: s1 len)
  then have z: "memset (blk s1 (of_nat b)) 0 BSIZE = Inr (replicate BSIZE 0)" by (simp add: memset_eq)
  obtain s2 where s2: "log_store (of_nat b) (replicate BSIZE 0) s1 = Inr s2"
    "blk s2 = (blk s1)(of_nat b := replicate BSIZE 0)" "log_room s2 0" "itable s2 = itable s1" "sb s2 = sb s1"
    using log_store_ok [of s1 0 "of_nat b" "replicate BSIZE 0"] s1(3) by auto
  have ne: "of_nat b \<noteq> BBLOCK (of_nat c) s" if "c < unat (sb_size (sb s))" for c
    using bitmap_block_used [OF ok b that] .
  have used: "block_used s2 c \<longleftrightarrow> (if c = b then True else block_used s c)" if "c < unat (sb_size (sb s))" for c
  proof (rule bitmap_after [OF ok b(1) _ _ _ that])
    show "sb s2 = sb s" using s1 s2 by simp
    show "blk s2 (BBLOCK (of_nat c) s) = blk s (BBLOCK (of_nat c) s)"
      if "c < unat (sb_size (sb s))" "BBLOCK (of_nat c) s \<noteq> BBLOCK (of_nat b) s" for c
      using that ne [OF that(1)] s1(2) s2(2) bb by auto
    show "bit_clear (blk s2 (BBLOCK (of_nat b) s)) bj \<longleftrightarrow>
        (if bj = b mod BPB then \<not> True else bit_clear (blk s (BBLOCK (of_nat b) s)) bj)" for bj
      using ne [OF b(1)] s1(2) s2(2) bb bi bit_clear_update(1) [OF bi8, of bj] by auto
  qed
  have "block_used s2 0" using used [of 0] ok b(1) by (simp add: bitmap_ok_def)
  moreover have "length (blk s2 x) = BSIZE" for x by (simp add: s1(2) s2(2) len)
  moreover have "sb s2 = sb s" using s1 s2 by simp
  ultimately have "bitmap_ok s2" using ok used unfolding bitmap_ok_def by simp
  moreover have "bindE (log_store bb ?d s) (bzero (of_nat b)) = Inr s2"
    using s1(1) s2(1) z by (simp add: bzero_def)
  ultimately show ?thesis using used s1 s2 ne [OF b(1)] bb by (intro exI [of _ s2]) auto
qed

text \<open>
  \<open>balloc\<close> from the bitmap block that holds block \<open>b0\<close>: the least free block at or above \<open>b0\<close>.
\<close>

lemma balloc_from_spec:
  assumes ok: "bitmap_ok s" and room: "log_room s 2" and b0: "b0 mod BPB = 0"
    and below: "\<forall>c<b0. c < unat (sb_size (sb s)) \<longrightarrow> block_used s c"
  shows "(\<forall>c<unat (sb_size (sb s)). block_used s c) \<and> balloc_from b0 s = Inr (s, 0) \<or>
    (\<exists>b s'. b < unat (sb_size (sb s)) \<and> \<not> block_used s b \<and> (\<forall>c<b. block_used s c) \<and>
      balloc_from b0 s = Inr (s', of_nat b) \<and> bitmap_ok s' \<and>
      (\<forall>c<unat (sb_size (sb s)). block_used s' c \<longleftrightarrow> block_used s c \<or> c = b) \<and>
      blk s' (of_nat b) = replicate BSIZE 0 \<and>
      (\<forall>x. x \<noteq> of_nat b \<and> x \<noteq> BBLOCK (of_nat b) s \<longrightarrow> blk s' x = blk s x) \<and>
      itable s' = itable s \<and> sb s' = sb s \<and> log_room s' 0)"
  using b0 below
proof (induction "unat (sb_size (sb s)) - b0" arbitrary: b0 rule: less_induct)
  case less
  let ?n = "unat (sb_size (sb s))"
  show ?case
  proof (cases "b0 < ?n")
    case False
    then show ?thesis using less.prems(2) by (auto simp: balloc_from.simps [of b0 s])
  next
    case True
    let ?d = "blk s (BBLOCK (of_nat b0) s)"
    have blockof: "BBLOCK (of_nat (b0 + i)) s = BBLOCK (of_nat b0) s" "(b0 + i) mod BPB = i"
      if "i < min BPB (?n - b0)" for i
    proof -
      obtain q where q: "b0 = BPB * q" using less.prems(1) by (auto simp: mod_eq_0_iff_dvd)
      then show "(b0 + i) mod BPB = i" using that by simp
      have "(b0 + i) div BPB = b0 div BPB" using q that by (simp add: hdr)
      then show "BBLOCK (of_nat (b0 + i)) s = BBLOCK (of_nat b0) s"
        using same_bitmap_block [OF ok True, of "b0 + i"] that by (simp add: less_diff_conv add.commute)
    qed
    have used: "block_used s (b0 + i) \<longleftrightarrow> \<not> bit_clear ?d i" if "i < min BPB (?n - b0)" for i
      unfolding block_used_def using blockof [OF that] by simp
    show ?thesis
    proof (cases "find_idx (bit_clear ?d) [0..<min BPB (?n - b0)]")
      case None
      then have all: "block_used s (b0 + i)" if "i < min BPB (?n - b0)" for i
        using used [OF that] that by (auto simp: find_idx_None)
      have "\<forall>c<b0 + BPB. c < ?n \<longrightarrow> block_used s c"
      proof (intro allI impI)
        fix c
        assume "c < b0 + BPB" "c < ?n"
        then show "block_used s c"
          using less.prems(2) all [of "c - b0"] by (cases "c < b0") (simp_all add: less_diff_conv2)
      qed
      moreover have "balloc_from b0 s = balloc_from (b0 + BPB) s"
        using None True by (simp add: balloc_from.simps [of b0 s] Let_def)
      ultimately show ?thesis
        using less.hyps [of "b0 + BPB"] less.prems(1) True by (simp add: hdr)
    next
      case (Some bi)
      then have bi: "bi < min BPB (?n - b0)" "bit_clear ?d bi" "\<forall>j<bi. \<not> bit_clear ?d j"
        by (auto simp: find_idx_Some)
      have b: "b0 + bi < ?n" "\<not> block_used s (b0 + bi)" using bi used [OF bi(1)] by auto
      have first: "\<forall>c<b0 + bi. block_used s c"
      proof (intro allI impI)
        fix c
        assume c: "c < b0 + bi"
        show "block_used s c"
        proof (cases "c < b0")
          case False
          then have "c - b0 < bi" "b0 + (c - b0) = c" using c by auto
          then show ?thesis using used [of "c - b0"] bi by simp
        qed (use less.prems(2) c b(1) in simp)
      qed
      have "balloc_from b0 s =
          bindE (log_store (BBLOCK (of_nat b0) s) (?d[bi div 8 := ?d ! (bi div 8) OR bit_mask bi]) s)
            (\<lambda>s. bindE (bzero (of_nat (b0 + bi)) s) (\<lambda>s. Inr (s, of_nat (b0 + bi))))"
        using Some True by (simp add: balloc_from.simps [of b0 s] Let_def)
      also have "\<dots> = bindE (bindE (log_store (BBLOCK (of_nat b0) s) (?d[bi div 8 := ?d ! (bi div 8) OR bit_mask bi]) s)
            (bzero (of_nat (b0 + bi)))) (\<lambda>s. Inr (s, of_nat (b0 + bi)))"
        by (simp add: bindE_assoc)
      finally have eq: "balloc_from b0 s = \<dots>" .
      show ?thesis
        using mark_and_zero [OF ok b room blockof(1) [OF bi(1), symmetric] blockof(2) [OF bi(1), symmetric]] eq b first
          blockof(1) [OF bi(1)] by auto
    qed
  qed
qed

text \<open>
  \<open>balloc\<close> returns the first block that the bitmap marks as free, after marking it as used and filling
  it with zeros; no other block and no other mark changes. When every block is in use it returns 0 and
  changes nothing.
\<close>

theorem balloc_first_fit:
  assumes "bitmap_ok s" and "log_room s 2"
  shows "(\<forall>c<unat (sb_size (sb s)). block_used s c) \<and> balloc s = Inr (s, 0) \<or>
    (\<exists>b s'. b < unat (sb_size (sb s)) \<and> \<not> block_used s b \<and> (\<forall>c<b. block_used s c) \<and>
      balloc s = Inr (s', of_nat b) \<and> bitmap_ok s' \<and>
      (\<forall>c<unat (sb_size (sb s)). block_used s' c \<longleftrightarrow> block_used s c \<or> c = b) \<and>
      blk s' (of_nat b) = replicate BSIZE 0 \<and>
      (\<forall>x. x \<noteq> of_nat b \<and> x \<noteq> BBLOCK (of_nat b) s \<longrightarrow> blk s' x = blk s x))"
  using balloc_from_spec [OF assms, of 0] unfolding balloc_def by auto

lemma sample_block_used:
  assumes "c < 200"
  shows "block_used sample_fs c \<longleftrightarrow> c < 96"
proof -
  have "unat (of_nat c :: uint) = c" using assms by (intro unat_of_nat32) simp
  then have "unat (of_nat c div (8192 :: uint)) = 0" using assms by (simp add: unat_div_distrib)
  then have "of_nat c div (8192 :: uint) = 0" by (simp only: unat_eq_0)
  then have B: "blk sample_fs (BBLOCK (of_nat c) sample_fs) = replicate 12 255 @ replicate 1012 0"
    by (simp add: blk_def bread_def sample_fs_def BBLOCK_def reboot_def hdr)
  have m: "(255 :: uchar) = mask 8" by (simp add: mask_eq_exp_minus_1)
  have "bit (255 :: uchar) (c mod 8)" unfolding m by (simp add: bit_mask_iff)
  moreover have "c div 8 < 12 \<longleftrightarrow> c < 96" "c div 8 < 1024" "c mod BPB = c"
    using assms by (auto simp: hdr)
  ultimately show ?thesis
    unfolding block_used_def B by (auto simp: bit_clear_iff nth_append)
qed

lemma sample_bitmap_ok: "bitmap_ok sample_fs \<and> log_room sample_fs 2"
proof -
  have "length (blk sample_fs b) = BSIZE" for b
    by (simp add: blk_def bread_def sample_fs_def reboot_def hdr)
  moreover have "log_room sample_fs 2" by (simp add: log_room_def sample_fs_def reboot_def hdr)
  moreover have "unat (sb_size (sb sample_fs)) = 200" "unat (sb_bmapstart (sb sample_fs)) = 45"
    by (simp_all add: sample_fs_def)
  ultimately show ?thesis by (simp add: bitmap_ok_def sample_block_used hdr)
qed

theorem balloc_first_fit_witness:
  "(\<forall>c<unat (sb_size (sb sample_fs)). block_used sample_fs c) \<and> balloc sample_fs = Inr (sample_fs, 0) \<or>
    (\<exists>b s'. b < unat (sb_size (sb sample_fs)) \<and> \<not> block_used sample_fs b \<and> (\<forall>c<b. block_used sample_fs c) \<and>
      balloc sample_fs = Inr (s', of_nat b) \<and> bitmap_ok s' \<and>
      (\<forall>c<unat (sb_size (sb sample_fs)). block_used s' c \<longleftrightarrow> block_used sample_fs c \<or> c = b) \<and>
      blk s' (of_nat b) = replicate BSIZE 0 \<and>
      (\<forall>x. x \<noteq> of_nat b \<and> x \<noteq> BBLOCK (of_nat b) sample_fs \<longrightarrow> blk s' x = blk sample_fs x))"
  using balloc_first_fit [of sample_fs] sample_bitmap_ok by blast

text \<open>
  \<open>bfree\<close> clears the mark of a used block and changes nothing else; for a block that is already free
  it panics.
\<close>

theorem bfree_correct:
  assumes "bitmap_ok s" and "log_room s 1" and "b < unat (sb_size (sb s))"
  shows "if block_used s b
    then \<exists>s'. bfree (of_nat b) s = Inr s' \<and>
      (\<forall>c<unat (sb_size (sb s)). block_used s' c \<longleftrightarrow> block_used s c \<and> c \<noteq> b) \<and>
      (\<forall>x. x \<noteq> BBLOCK (of_nat b) s \<longrightarrow> blk s' x = blk s x) \<and> itable s' = itable s \<and> sb s' = sb s
    else bfree (of_nat b) s = Inl (Panic ''freeing free block'')"
proof -
  let ?bb = "BBLOCK (of_nat b) s" and ?bi = "b mod BPB"
  let ?d = "(blk s ?bb)[?bi div 8 := blk s ?bb ! (?bi div 8) AND NOT (bit_mask ?bi)]"
  have "unat (of_nat b :: uint) = b" using assms by (intro unat_of_nat32) (simp add: bitmap_ok_def)
  then have eq: "bfree (of_nat b) s = (if block_used s b then log_store ?bb ?d s else Inl (Panic ''freeing free block''))"
    by (simp add: bfree_def block_used_def Let_def)
  have bi8: "?bi < 8 * length (blk s ?bb)" using assms(1) by (simp add: bitmap_ok_def hdr)
  obtain s' where s': "log_store ?bb ?d s = Inr s'" "blk s' = (blk s)(?bb := ?d)" "itable s' = itable s" "sb s' = sb s"
    using log_store_ok [of s 0 ?bb ?d] assms(2) by auto
  have "block_used s' c \<longleftrightarrow> (if c = b then False else block_used s c)" if "c < unat (sb_size (sb s))" for c
    using bit_clear_update(2) [OF bi8] s'(2)
    by (intro bitmap_after [OF assms(1,3) s'(4) _ _ that]) auto
  then show ?thesis unfolding eq using s' by auto
qed

theorem bfree_correct_witness:
  "if block_used sample_fs 95
    then \<exists>s'. bfree (of_nat 95) sample_fs = Inr s' \<and>
      (\<forall>c<unat (sb_size (sb sample_fs)). block_used s' c \<longleftrightarrow> block_used sample_fs c \<and> c \<noteq> 95) \<and>
      (\<forall>x. x \<noteq> BBLOCK (of_nat 95) sample_fs \<longrightarrow> blk s' x = blk sample_fs x) \<and>
      itable s' = itable sample_fs \<and> sb s' = sb sample_fs
    else bfree (of_nat 95) sample_fs = Inl (Panic ''freeing free block'')"
  using bfree_correct [of sample_fs 95] sample_bitmap_ok
  by (simp add: log_room_def sample_fs_def)

end
