(* ===== verification/FileData.thy ===== *)
theory FileData
  imports FsSpec
begin

text \<open>
  Reading and writing file content: the block-by-block loops of \<open>readi\<close> and \<open>writei\<close> against the
  function from offsets to bytes that an inode and its blocks stand for.
\<close>

section \<open>The content of a file\<close>

definition faddr :: "fsstate \<Rightarrow> nat \<Rightarrow> nat \<Rightarrow> uint" where
  "faddr s ip bn =
     (if bn < NDIRECT then i_addrs (ino s ip) ! bn
      else if i_addrs (ino s ip) ! NDIRECT = 0 then 0
      else peek32 (blk s (i_addrs (ino s ip) ! NDIRECT)) (4 * (bn - NDIRECT)))"

definition fbyte :: "fsstate \<Rightarrow> nat \<Rightarrow> nat \<Rightarrow> uchar" where
  "fbyte s ip x = blk s (faddr s ip (x div BSIZE)) ! (x mod BSIZE)"

text \<open>
  The first \<open>N\<close> blocks of the file are allocated, different, and none of them is the inode's own block
  or its indirect block.
\<close>

definition file_ok :: "fsstate \<Rightarrow> nat \<Rightarrow> nat \<Rightarrow> bool" where
  "file_ok s ip N \<longleftrightarrow> ip < length (itable s) \<and> N \<le> MAXFILE \<and> length (i_addrs (ino s ip)) = NDIRECT + 1 \<and> (\<forall>b. length (blk s b) = BSIZE) \<and>
     (\<forall>bn<N. faddr s ip bn \<noteq> 0 \<and> faddr s ip bn \<noteq> IBLOCK (i_inum (ino s ip)) s \<and>
        faddr s ip bn \<noteq> i_addrs (ino s ip) ! NDIRECT) \<and>
     inj_on (faddr s ip) {..<N} \<and> i_addrs (ino s ip) ! NDIRECT \<noteq> IBLOCK (i_inum (ino s ip)) s"

lemma bmap_present: "bn < MAXFILE \<Longrightarrow> faddr s ip bn \<noteq> 0 \<Longrightarrow> bmap ip bn s = Inr (s, faddr s ip bn)"
  by (auto simp: bmap_def faddr_def hdr Let_def split: if_splits)

lemma block_of: "x < N * BSIZE \<Longrightarrow> x div BSIZE < N"
  by (simp add: div_less_iff_less_mult hdr)

lemma chunk_block:
  assumes "x < chunk rest off"
  shows "(off + x) div BSIZE = off div BSIZE \<and> (off + x) mod BSIZE = off mod BSIZE + x"
proof -
  define q r where "q = off div BSIZE" and "r = off mod BSIZE"
  have off: "off = BSIZE * q + r" "r < BSIZE" by (simp_all add: q_def r_def hdr)
  have "r + x < BSIZE" using assms by (auto simp: chunk_def r_def)
  then show ?thesis unfolding q_def [symmetric] r_def [symmetric] off(1) by (simp add: add.assoc)
qed

lemma chunk_bytes:
  assumes "file_ok s ip N" and "m = chunk rest off" and "off div BSIZE < N"
  shows "take m (drop (off mod BSIZE) (blk s (faddr s ip (off div BSIZE)))) = map (fbyte s ip) [off..<off + m]"
proof (rule nth_equalityI)
  have "m \<le> BSIZE - off mod BSIZE" using assms(2) by (simp add: chunk_def)
  then show "length (take m (drop (off mod BSIZE) (blk s (faddr s ip (off div BSIZE))))) = length (map (fbyte s ip) [off..<off + m])"
    using assms(1) by (simp add: file_ok_def)
  fix i
  assume "i < length (take m (drop (off mod BSIZE) (blk s (faddr s ip (off div BSIZE)))))"
  then have i: "i < m" by simp
  have "off mod BSIZE \<le> BSIZE" by (simp add: hdr less_imp_le)
  with i show "take m (drop (off mod BSIZE) (blk s (faddr s ip (off div BSIZE)))) ! i = map (fbyte s ip) [off..<off + m] ! i"
    using chunk_block [of i rest off] assms by (simp add: fbyte_def file_ok_def)
qed

section \<open>readi\<close>

lemma readi_loop_present:
  assumes "file_ok s ip N" and "tot \<le> n" and "off + (n - tot) \<le> N * BSIZE"
  shows "readi_loop kernel_out ip off tot n s d = Inr (s, d @ map (fbyte s ip) [off..<off + (n - tot)], int n)"
  using assms(2,3)
proof (induction "n - tot" arbitrary: off tot d rule: less_induct)
  case less
  show ?case
  proof (cases "tot < n")
    case False
    then show ?thesis using less.prems(1) by (simp add: readi_loop.simps)
  next
    case True
    define m where "m = chunk (n - tot) off"
    have m: "0 < m" "m \<le> n - tot" using True chunk_pos [of "n - tot" off] by (auto simp: m_def chunk_def)
    have bn: "off div BSIZE < N" using True less.prems(2) by (intro block_of) simp
    have b: "bmap ip (off div BSIZE) s = Inr (s, faddr s ip (off div BSIZE))" "faddr s ip (off div BSIZE) \<noteq> 0"
      using assms(1) bn by (auto simp: file_ok_def intro!: bmap_present)
    have "readi_loop kernel_out ip off tot n s d =
        readi_loop kernel_out ip (off + m) (tot + m) n s (d @ map (fbyte s ip) [off..<off + m])"
      using True b chunk_bytes [OF assms(1) m_def bn]
      by (subst readi_loop.simps) (simp add: Let_def m_def [symmetric] kernel_out_def)
    also have "\<dots> = Inr (s, (d @ map (fbyte s ip) [off..<off + m]) @
        map (fbyte s ip) [off + m..<off + m + (n - (tot + m))], int n)"
      using m less.prems(2) by (intro less.hyps) auto
    also have "[off..<off + m] @ [off + m..<off + m + (n - (tot + m))] = [off..<off + (n - tot)]"
      using m upt_add_eq_append [of off "off + m" "n - (tot + m)"] by simp
    then have "(d @ map (fbyte s ip) [off..<off + m]) @ map (fbyte s ip) [off + m..<off + m + (n - (tot + m))] =
        d @ map (fbyte s ip) [off..<off + (n - tot)]"
      by (simp only: append_assoc map_append [symmetric])
    finally show ?thesis .
  qed
qed

lemma readi_present:
  assumes "file_ok s ip N" and "unat off + unat n \<le> unat (i_size (ino s ip))" and "unat (i_size (ino s ip)) \<le> N * BSIZE"
  shows "readi kernel_out ip off n s [] = Inr (s, map (fbyte s ip) [unat off..<unat off + unat n], int (unat n))"
proof -
  have "unat (i_size (ino s ip)) < 2 ^ 32" using unsigned_less [of "i_size (ino s ip)"] by simp
  then have u: "unat (off + n) = unat off + unat n" using assms(2) by (simp add: unat_word_ariths(1))
  then have "\<not> off > i_size (ino s ip)" "\<not> off + n < off" "\<not> off + n > i_size (ino s ip)"
    using assms(2) by (simp_all add: word_less_nat_alt)
  then show ?thesis
    using readi_loop_present [OF assms(1), of 0 "unat n" "unat off"] assms(2,3) by (simp add: readi_def)
qed

section \<open>writei\<close>

text \<open>Replacing part of one data block.\<close>

lemma file_store:
  assumes ok: "file_ok s ip N" and bn: "bn < N" and a: "a = faddr s ip bn" and len: "length d = BSIZE"
    and s': "blk s' = (blk s)(a := d)" "itable s' = itable s" "sb s' = sb s"
  shows "file_ok s' ip N \<and> faddr s' ip = faddr s ip \<and>
    (\<forall>x<N * BSIZE. fbyte s' ip x = (if x div BSIZE = bn then d ! (x mod BSIZE) else fbyte s ip x))"
proof -
  have ind: "i_addrs (ino s ip) ! NDIRECT \<noteq> a" using ok bn a by (auto simp: file_ok_def)
  have f: "faddr s' ip = faddr s ip" using ind s' by (auto simp: fun_eq_iff faddr_def)
  have "file_ok s' ip N" using ok s' f len by (auto simp: file_ok_def IBLOCK_def)
  moreover have "fbyte s' ip x = (if x div BSIZE = bn then d ! (x mod BSIZE) else fbyte s ip x)" if "x < N * BSIZE" for x
  proof -
    have "faddr s ip (x div BSIZE) = a \<longleftrightarrow> x div BSIZE = bn"
      using ok block_of [OF that] bn a by (auto simp: file_ok_def inj_on_def)
    then show ?thesis using f s'(1) by (simp add: fbyte_def)
  qed
  ultimately show ?thesis using f by blast
qed

lemma nth_poke:
  "off + length v \<le> length bs \<Longrightarrow> i < length bs \<Longrightarrow>
    poke bs off v ! i = (if off \<le> i \<and> i < off + length v then v ! (i - off) else bs ! i)"
  by (auto simp: poke_def nth_append min_def)

lemma in_chunk_iff:
  assumes "m = chunk rest off"
  shows "x div BSIZE = off div BSIZE \<and> off mod BSIZE \<le> x mod BSIZE \<and> x mod BSIZE < off mod BSIZE + m \<longleftrightarrow>
    off \<le> x \<and> x < off + m"
proof
  assume "off \<le> x \<and> x < off + m"
  then obtain i where i: "x = off + i" "i < m" using le_Suc_ex by fastforce
  then show "x div BSIZE = off div BSIZE \<and> off mod BSIZE \<le> x mod BSIZE \<and> x mod BSIZE < off mod BSIZE + m"
    using chunk_block [of i rest off] assms by simp
next
  assume a: "x div BSIZE = off div BSIZE \<and> off mod BSIZE \<le> x mod BSIZE \<and> x mod BSIZE < off mod BSIZE + m"
  have "x = BSIZE * (x div BSIZE) + x mod BSIZE" "off = BSIZE * (off div BSIZE) + off mod BSIZE" by simp_all
  then show "off \<le> x \<and> x < off + m" using a by (metis add_le_cancel_left add.assoc add_less_cancel_left)
qed

text \<open>One round of the loop of \<open>writei\<close> from a kernel buffer.\<close>

lemma writei_round:
  assumes ok: "file_ok s ip N" and tot: "tot < n" "n \<le> length d" and off: "off + (n - tot) \<le> N * BSIZE"
    and room: "log_room s (Suc r)" and m: "m = chunk (n - tot) off"
  shows "\<exists>s1. writei_loop kernel_in ip off tot n s d = writei_loop kernel_in ip (off + m) (tot + m) n s1 d \<and>
    file_ok s1 ip N \<and> faddr s1 ip = faddr s ip \<and> log_room s1 r \<and> itable s1 = itable s \<and> sb s1 = sb s \<and>
    (\<forall>x. x \<notin> faddr s ip ` {..<N} \<longrightarrow> blk s1 x = blk s x) \<and>
    (\<forall>x<N * BSIZE. fbyte s1 ip x = (if off \<le> x \<and> x < off + m then d ! (tot + (x - off)) else fbyte s ip x))"
proof -
  let ?bn = "off div BSIZE" and ?o = "off mod BSIZE"
  let ?a = "faddr s ip ?bn" and ?bs = "take m (drop tot d)"
  have ml: "0 < m" "m \<le> n - tot" "m \<le> BSIZE - ?o" using tot chunk_pos [of "n - tot" off] by (auto simp: m chunk_def)
  have "tot + m \<le> length d" using ml(2) tot by simp
  have bn: "?bn < N" using tot(1) off by (intro block_of) simp
  have b: "bmap ip ?bn s = Inr (s, ?a)" "?a \<noteq> 0"
    using ok bn by (auto simp: file_ok_def intro!: bmap_present)
  have lens: "length (blk s ?a) = BSIZE" "length ?bs = m" "?o + m \<le> BSIZE"
    using ok ml tot(2) by (auto simp: file_ok_def hdr)
  let ?d = "poke (blk s ?a) ?o ?bs"
  obtain s1 where s1: "log_store ?a ?d s = Inr s1" "blk s1 = (blk s)(?a := ?d)" "log_room s1 r"
    "itable s1 = itable s" "sb s1 = sb s"
    using log_store_ok [OF room] by blast
  have F: "file_ok s1 ip N \<and> faddr s1 ip = faddr s ip \<and>
      (\<forall>x<N * BSIZE. fbyte s1 ip x = (if x div BSIZE = ?bn then ?d ! (x mod BSIZE) else fbyte s ip x))"
    using lens by (intro file_store [OF ok bn refl _ s1(2,4,5)]) simp
  have "fbyte s1 ip x = (if off \<le> x \<and> x < off + m then d ! (tot + (x - off)) else fbyte s ip x)" if x: "x < N * BSIZE" for x
  proof (cases "x div BSIZE = ?bn")
    case True
    have dx: "x - off = x mod BSIZE - ?o" if "off \<le> x"
      using True by (metis add_diff_cancel_left' diff_diff_left div_mult_mod_eq minus_mod_eq_div_mult that)
    have "x mod BSIZE < BSIZE" by (simp add: hdr)
    then have "fbyte s1 ip x = (if off \<le> x \<and> x < off + m then ?bs ! (x mod BSIZE - ?o) else blk s ?a ! (x mod BSIZE))"
      using F x True lens in_chunk_iff [OF m, of x] by (simp add: nth_poke)
    moreover have "?bs ! (x - off) = d ! (tot + (x - off))" if "off \<le> x" "x < off + m"
      using that ml tot(2) by simp
    ultimately show ?thesis using dx True by (auto simp: fbyte_def)
  next
    case False
    then show ?thesis using F x in_chunk_iff [OF m, of x] by auto
  qed
  moreover have "writei_loop kernel_in ip off tot n s d = writei_loop kernel_in ip (off + m) (tot + m) n s1 d"
    using tot b s1(1) \<open>tot + m \<le> length d\<close>
    by (subst writei_loop.simps) (simp add: Let_def m [symmetric] kernel_in_def)
  ultimately show ?thesis using F s1 bn by (intro exI [of _ s1]) auto
qed

text \<open>The next round starts at a block boundary.\<close>

lemma chunk_next:
  assumes "m = chunk rest off" and "m < rest"
  shows "(off + m) div BSIZE = off div BSIZE + 1"
proof -
  have m: "m = BSIZE - off mod BSIZE" using assms by (auto simp: chunk_def)
  define q r where "q = off div BSIZE" and "r = off mod BSIZE"
  have "r \<le> BSIZE" "off = BSIZE * q + r" by (simp_all add: q_def r_def hdr less_imp_le)
  then have "off + m = BSIZE * (q + 1)" using m unfolding r_def [symmetric] by simp
  then show ?thesis unfolding q_def [symmetric] by (simp add: hdr)
qed

lemma writei_loop_present:
  assumes "file_ok s ip N" and "tot \<le> n" and "n \<le> length d" and "off + (n - tot) \<le> N * BSIZE"
    and "off + (n - tot) \<le> (off div BSIZE + r) * BSIZE" and "log_room s (r + q)"
  shows "\<exists>s'. writei_loop kernel_in ip off tot n s d = Inr (s', d, off + (n - tot), n) \<and>
    file_ok s' ip N \<and> faddr s' ip = faddr s ip \<and> log_room s' q \<and> itable s' = itable s \<and> sb s' = sb s \<and>
    (\<forall>x. x \<notin> faddr s ip ` {..<N} \<longrightarrow> blk s' x = blk s x) \<and>
    (\<forall>x<N * BSIZE. fbyte s' ip x =
      (if off \<le> x \<and> x < off + (n - tot) then d ! (tot + (x - off)) else fbyte s ip x))"
  using assms
proof (induction "n - tot" arbitrary: off tot s r rule: less_induct)
  case less
  show ?case
  proof (cases "tot < n")
    case False
    have "log_room s q" using less.prems(6) by (simp add: log_room_def)
    then show ?thesis using less.prems False by (auto simp: writei_loop.simps)
  next
    case True
    define m where "m = chunk (n - tot) off"
    have m: "0 < m" "m \<le> n - tot" using True chunk_pos [of "n - tot" off] by (auto simp: m_def chunk_def)
    have "0 < r"
    proof (rule ccontr)
      assume "\<not> 0 < r"
      then have "off + (n - tot) \<le> off div BSIZE * BSIZE" using less.prems(5) by simp
      also have "off div BSIZE * BSIZE \<le> off" by (rule div_times_less_eq_dividend)
      finally show False using True by simp
    qed
    then obtain r' where r: "r = Suc r'" using gr0_implies_Suc by blast
    then have room: "log_room s (Suc (r' + q))" using less.prems(6) by simp
    obtain s1 where s1: "writei_loop kernel_in ip off tot n s d = writei_loop kernel_in ip (off + m) (tot + m) n s1 d"
      "file_ok s1 ip N" "faddr s1 ip = faddr s ip" "log_room s1 (r' + q)" "itable s1 = itable s" "sb s1 = sb s"
      "\<forall>x. x \<notin> faddr s ip ` {..<N} \<longrightarrow> blk s1 x = blk s x"
      "\<forall>x<N * BSIZE. fbyte s1 ip x = (if off \<le> x \<and> x < off + m then d ! (tot + (x - off)) else fbyte s ip x)"
      using writei_round [OF less.prems(1) True less.prems(3,4) room m_def] by blast
    show ?thesis
    proof (cases "m < n - tot")
      case False
      then have "tot + m = n" "off + m = off + (n - tot)" using m by auto
      moreover from this have "writei_loop kernel_in ip (off + m) (tot + m) n s1 d = Inr (s1, d, off + (n - tot), n)"
        by (simp add: writei_loop.simps)
      moreover have "log_room s1 q" using s1(4) by (simp add: log_room_def)
      ultimately show ?thesis using s1 by (intro exI [of _ s1]) simp
    next
      case more: True
      have fits: "off + m + (n - (tot + m)) \<le> ((off + m) div BSIZE + r') * BSIZE"
        using chunk_next [OF m_def more] less.prems(5) m r by simp
      have lt: "n - (tot + m) < n - tot" "tot + m \<le> n" "off + m + (n - (tot + m)) \<le> N * BSIZE"
        using m more less.prems(4) by auto
      obtain s' where s': "writei_loop kernel_in ip (off + m) (tot + m) n s1 d = Inr (s', d, off + m + (n - (tot + m)), n)"
        "file_ok s' ip N" "faddr s' ip = faddr s1 ip" "log_room s' q" "itable s' = itable s1" "sb s' = sb s1"
        "\<forall>x. x \<notin> faddr s1 ip ` {..<N} \<longrightarrow> blk s' x = blk s1 x"
        "\<forall>x<N * BSIZE. fbyte s' ip x =
          (if off + m \<le> x \<and> x < off + m + (n - (tot + m)) then d ! (tot + m + (x - (off + m))) else fbyte s1 ip x)"
        using less.hyps [OF lt(1) s1(2) lt(2) less.prems(3) lt(3) fits s1(4)] by blast
      have "off + m + (n - (tot + m)) = off + (n - tot)" using m by simp
      moreover have "fbyte s' ip x = (if off \<le> x \<and> x < off + (n - tot) then d ! (tot + (x - off)) else fbyte s ip x)"
        if "x < N * BSIZE" for x
        using s'(8) s1(8) that m by auto
      ultimately show ?thesis using s1(1,3,5,6,7) s' by (intro exI [of _ s']) simp
    qed
  qed
qed

lemma length_pokes:
  assumes "length d = BSIZE" and "length as = NDIRECT + 1"
  shows "length (poke (poke32 (poke16 (poke16 (poke16 (poke16 d (dinode_off i) a) (dinode_off i + 2) b)
    (dinode_off i + 4) c) (dinode_off i + 6) e) (dinode_off i + 8) f) (dinode_off i + 12)
    (concat (map (le_bytes 4) as))) = BSIZE"
proof -
  have "length (concat (map (le_bytes 4) as)) = 4 * length as" by (induction as) simp_all
  moreover have "dinode_off i + 64 \<le> BSIZE" by (simp add: dinode_off_def hdr)
  ultimately show ?thesis using assms by (simp add: hdr)
qed

text \<open>Writing the inode back leaves the content of the file alone.\<close>

lemma iupdate_file:
  assumes ok: "file_ok s ip N" and room: "log_room s (Suc r)"
  shows "\<exists>s'. iupdate ip s = Inr s' \<and> file_ok s' ip N \<and> itable s' = itable s \<and> log_room s' r \<and>
    (\<forall>x<N * BSIZE. fbyte s' ip x = fbyte s ip x)"
proof -
  let ?b = "IBLOCK (i_inum (ino s ip)) s"
  have lens: "length (blk s ?b) = BSIZE" "length (i_addrs (ino s ip)) = NDIRECT + 1"
    using ok by (auto simp: file_ok_def)
  obtain d where d: "iupdate ip s = log_store ?b d s" "length d = BSIZE"
    unfolding iupdate_def Let_def using length_pokes [OF lens] by blast
  obtain s' where s': "log_store ?b d s = Inr s'" "blk s' = (blk s)(?b := d)" "log_room s' r"
    "itable s' = itable s" "sb s' = sb s"
    using log_store_ok [OF room] by blast
  have f: "faddr s' ip = faddr s ip" using ok s' by (auto simp: fun_eq_iff faddr_def file_ok_def)
  have "file_ok s' ip N" using ok s' f d(2) by (auto simp: file_ok_def IBLOCK_def)
  moreover have "fbyte s' ip x = fbyte s ip x" if "x < N * BSIZE" for x
    using block_of [OF that] ok s'(2) f by (auto simp: fbyte_def file_ok_def)
  ultimately show ?thesis using d s' by auto
qed

lemma file_ok_size:
  "file_ok s ip N \<Longrightarrow> file_ok (upd_ino ip (\<lambda>i. i\<lparr>i_size := z\<rparr>) s) ip N \<and>
    fbyte (upd_ino ip (\<lambda>i. i\<lparr>i_size := z\<rparr>) s) ip = fbyte s ip \<and> log_room (upd_ino ip (\<lambda>i. i\<lparr>i_size := z\<rparr>) s) = log_room s"
proof -
  assume ok: "file_ok s ip N"
  let ?s = "upd_ino ip (\<lambda>i. i\<lparr>i_size := z\<rparr>) s"
  have b: "blk ?s = blk s" by (simp add: blk_def fun_eq_iff)
  have i: "ino ?s ip = (ino s ip)\<lparr>i_size := z\<rparr>" using ok by (simp add: nth_upd_ino file_ok_def)
  have f: "faddr ?s ip = faddr s ip" by (simp add: fun_eq_iff faddr_def b i)
  have "file_ok ?s ip N" using ok unfolding file_ok_def b i f by (simp add: IBLOCK_def)
  moreover have "fbyte ?s ip x = fbyte s ip x" for x unfolding fbyte_def b f by (rule refl)
  ultimately show ?thesis by (simp add: fun_eq_iff log_room_def)
qed

text \<open>
  The whole of \<open>writei\<close> on allocated blocks, from a kernel buffer: \<open>r\<close> blocks of data and the inode's
  own block go to the log.
\<close>

lemma writei_present:
  assumes ok: "file_ok s ip N" and n: "unat n \<le> length d"
    and off: "unat off \<le> unat (i_size (ino s ip))" "unat off + unat n \<le> N * BSIZE"
    and room: "unat off + unat n \<le> (unat off div BSIZE + r) * BSIZE" "log_room s (r + 1)"
  shows "\<exists>s'. writei kernel_in ip off n s d = Inr (s', d, int (unat n)) \<and> file_ok s' ip N \<and>
    unat (i_size (ino s' ip)) = max (unat (i_size (ino s ip))) (unat off + unat n) \<and>
    (\<forall>x<N * BSIZE. fbyte s' ip x =
      (if unat off \<le> x \<and> x < unat off + unat n then d ! (x - unat off) else fbyte s ip x))"
proof -
  let ?e = "unat off + unat n"
  have max_file: "N * BSIZE \<le> MAXFILE * BSIZE" using ok by (simp add: file_ok_def)
  then have e: "?e \<le> 274432" using off(2) by (simp add: hdr)
  then have u: "unat (off + n) = ?e" by (simp add: unat_word_ariths(1))
  have guards: "\<not> off > i_size (ino s ip)" "\<not> off + n < off" "\<not> off + n > of_nat (MAXFILE * BSIZE)"
    using off u e by (simp_all add: word_less_nat_alt hdr)
  obtain s1 where s1: "writei_loop kernel_in ip (unat off) 0 (unat n) s d = Inr (s1, d, ?e, unat n)"
    "file_ok s1 ip N" "faddr s1 ip = faddr s ip" "log_room s1 1" "itable s1 = itable s"
    "\<forall>x<N * BSIZE. fbyte s1 ip x = (if unat off \<le> x \<and> x < ?e then d ! (x - unat off) else fbyte s ip x)"
    using writei_loop_present [OF ok, of 0 "unat n" d "unat off" r 1] n off(2) room by auto
  define s2 where "s2 = (if of_nat ?e > i_size (ino s1 ip) then upd_ino ip (\<lambda>i. i\<lparr>i_size := of_nat ?e\<rparr>) s1 else s1)"
  have s2: "file_ok s2 ip N" "log_room s2 1" "\<forall>x<N * BSIZE. fbyte s2 ip x = fbyte s1 ip x"
    using file_ok_size [OF s1(2), of "of_nat ?e"] s1(2,4) by (auto simp: s2_def)
  have size: "unat (i_size (ino s2 ip)) = max (unat (i_size (ino s ip))) ?e"
  proof -
    have "unat (of_nat ?e :: uint) = ?e" using e by (intro unat_of_nat32) simp
    moreover have "ip < length (itable s1)" using s1(2) by (simp add: file_ok_def)
    ultimately show ?thesis using s1(5) by (simp add: s2_def nth_upd_ino word_less_nat_alt max_def del: of_nat_add)
  qed
  obtain s3 where s3: "iupdate ip s2 = Inr s3" "file_ok s3 ip N" "itable s3 = itable s2"
    "\<forall>x<N * BSIZE. fbyte s3 ip x = fbyte s2 ip x"
    using iupdate_file [OF s2(1), of 0] s2(2) by auto
  have "writei kernel_in ip off n s d = Inr (s3, d, int (unat n))"
    using guards s1(1) s3(1) unfolding writei_def s2_def by simp
  then show ?thesis using s3 size s2(3) s1(6) by (intro exI [of _ s3]) simp
qed

text \<open>
  C24. \<open>writei\<close> inside the allocated blocks of a file writes all \<open>n\<close> bytes, extends the size to the end of the
  range if needed, and changes no other byte of the file; \<open>readi\<close> of the same range then returns what
  was written. The range may start and end anywhere and span blocks, directly or indirectly addressed.
\<close>

theorem writei_readi_roundtrip:
  assumes "file_ok s ip N" and "unat n \<le> length d" and "unat off \<le> unat (i_size (ino s ip))"
    and "unat off + unat n \<le> N * BSIZE" and "unat (i_size (ino s ip)) \<le> N * BSIZE"
    and "unat off + unat n \<le> (unat off div BSIZE + r) * BSIZE" and "log_room s (r + 1)"
  shows "\<exists>s'. writei kernel_in ip off n s d = Inr (s', d, int (unat n)) \<and>
    unat (i_size (ino s' ip)) = max (unat (i_size (ino s ip))) (unat off + unat n) \<and>
    readi kernel_out ip off n s' [] = Inr (s', take (unat n) d, int (unat n)) \<and>
    (\<forall>x<N * BSIZE. \<not> (unat off \<le> x \<and> x < unat off + unat n) \<longrightarrow> fbyte s' ip x = fbyte s ip x)"
proof -
  obtain s' where s': "writei kernel_in ip off n s d = Inr (s', d, int (unat n))" "file_ok s' ip N"
    "unat (i_size (ino s' ip)) = max (unat (i_size (ino s ip))) (unat off + unat n)"
    "\<forall>x<N * BSIZE. fbyte s' ip x = (if unat off \<le> x \<and> x < unat off + unat n then d ! (x - unat off) else fbyte s ip x)"
    using writei_present [OF assms(1-4,6,7)] by blast
  have "readi kernel_out ip off n s' [] = Inr (s', map (fbyte s' ip) [unat off..<unat off + unat n], int (unat n))"
    using s'(3) assms(4,5) by (intro readi_present [OF s'(2)]) auto
  moreover have "map (fbyte s' ip) [unat off..<unat off + unat n] = take (unat n) d"
    using s'(4) assms(2,4) by (intro nth_equalityI) auto
  ultimately show ?thesis using s' by auto
qed

text \<open>A file of two blocks at disk blocks 60 and 61.\<close>

definition sample_file :: fsstate where
  "sample_file = sample_fs\<lparr>itable := replicate NINODE (sample_inode\<lparr>i_dev := 1, i_inum := 3, i_type := T_DIR, i_size := 1040,
     i_addrs := 60 # 61 # replicate 11 0\<rparr>)\<rparr>"

lemma sample_file_ok: "file_ok sample_file 0 2 \<and> i_size (ino sample_file 0) = 1040 \<and> log_room sample_file 3"
proof -
  have f: "faddr sample_file 0 0 = 60" "faddr sample_file 0 (Suc 0) = 61"
    by (simp_all add: faddr_def sample_file_def hdr)
  have "inj_on (faddr sample_file 0) {..<2}"
    using f by (auto simp: inj_on_def less_Suc_eq numeral_2_eq_2)
  moreover have "length (blk sample_file b) = BSIZE" for b
    by (simp add: sample_file_def sample_fs_def blk_def bread_def reboot_def hdr)
  moreover have "IBLOCK (i_inum (ino sample_file 0)) sample_file = 33" "i_addrs (ino sample_file 0) ! NDIRECT = 0"
    "length (i_addrs (ino sample_file 0)) = NDIRECT + 1" "0 < length (itable sample_file)"
    by (simp_all add: sample_file_def sample_fs_def hdr IBLOCK_def)
  moreover have "bn < 2 \<longleftrightarrow> bn = 0 \<or> bn = Suc 0" for bn :: nat by auto
  ultimately have "file_ok sample_file 0 2" using f by (auto simp: file_ok_def MAXFILE_def NDIRECT_def)
  then show ?thesis by (simp add: sample_file_def log_room_def sample_fs_def reboot_def hdr)
qed

theorem writei_readi_roundtrip_witness:
  "\<exists>s'. writei kernel_in 0 1022 4 sample_file [1, 2, 3, 4] = Inr (s', [1, 2, 3, 4], int (unat (4 :: uint))) \<and>
    unat (i_size (ino s' 0)) = max (unat (i_size (ino sample_file 0))) (unat (1022 :: uint) + unat (4 :: uint)) \<and>
    readi kernel_out 0 1022 4 s' [] = Inr (s', take (unat (4 :: uint)) [1, 2, 3, 4], int (unat (4 :: uint))) \<and>
    (\<forall>x<2 * BSIZE. \<not> (unat (1022 :: uint) \<le> x \<and> x < unat (1022 :: uint) + unat (4 :: uint)) \<longrightarrow>
      fbyte s' 0 x = fbyte sample_file 0 x)"
  by (rule writei_readi_roundtrip [where r = 2]) (use sample_file_ok in \<open>simp_all add: hdr\<close>)

section \<open>Directories\<close>

definition dirent_at :: "fsstate \<Rightarrow> nat \<Rightarrow> nat \<Rightarrow> bytes" where
  "dirent_at s dp j = map (fbyte s dp) [DIRENT * j..<DIRENT * j + DIRENT]"

definition names :: "bytes \<Rightarrow> bytes \<Rightarrow> bool" where
  "names name de \<longleftrightarrow> de_inum de \<noteq> 0 \<and> take DIRSIZ (cstr name) = take DIRSIZ (cstr (de_name de))"

lemma de_name_readable: "length de = DIRENT \<Longrightarrow> readable (de_name de) DIRSIZ"
  by (simp add: de_name_def hdr)

lemma namecmp_eq:
  assumes "readable name DIRSIZ" and "length de = DIRENT"
  shows "\<exists>c. namecmp name (de_name de) = Inr c \<and> (c = 0 \<longleftrightarrow> take DIRSIZ (cstr name) = take DIRSIZ (cstr (de_name de)))"
  unfolding namecmp_def by (rule strncmp_spec [OF assms(1) de_name_readable [OF assms(2)]])

lemma dirlookup_from_spec:
  assumes ok: "file_ok s dp N" and sz: "unat (i_size (ino s dp)) = DIRENT * k" "DIRENT * k \<le> N * BSIZE"
    and name: "readable name DIRSIZ" and j: "j \<le> k"
  shows "dirlookup_from dp name (DIRENT * j) s =
    (case find_idx (\<lambda>i. names name (dirent_at s dp i)) [j..<k] of
       None \<Rightarrow> Inr (s, None)
     | Some i \<Rightarrow> bindE (iget (i_dev (ino s dp)) (ucast (de_inum (dirent_at s dp (j + i)))) s)
         (\<lambda>(s, ip). Inr (s, Some (ip, DIRENT * (j + i)))))"
  using j
proof (induction "k - j" arbitrary: j)
  case 0
  then show ?case using sz by (simp add: dirlookup_from.simps)
next
  case (Suc d)
  then have jk: "j < k" by simp
  let ?de = "dirent_at s dp j" and ?off = "of_nat (DIRENT * j) :: uint"
  have "DIRENT * j + DIRENT \<le> DIRENT * k" using jk by (simp add: hdr)
  moreover have "unat (i_size (ino s dp)) < 2 ^ 32" using unsigned_less [of "i_size (ino s dp)"] by simp
  ultimately have lt: "DIRENT * j < 2 ^ 32" "DIRENT < (2 :: nat) ^ 32"
    unfolding sz(1) by (simp_all add: DIRENT_def)
  have off: "unat ?off = DIRENT * j" "unat (of_nat DIRENT :: uint) = DIRENT"
    by (rule unat_of_nat32 [OF lt(1)], rule unat_of_nat32 [OF lt(2)])
  have r: "readi kernel_out dp ?off (of_nat DIRENT) s [] = Inr (s, ?de, int DIRENT)"
    using readi_present [OF ok, of ?off "of_nat DIRENT"] \<open>DIRENT * j + DIRENT \<le> DIRENT * k\<close> sz
    unfolding off dirent_at_def by simp
  have len: "length ?de = DIRENT" by (simp add: dirent_at_def)
  obtain c where c: "namecmp name (de_name ?de) = Inr c" "c = 0 \<longleftrightarrow> take DIRSIZ (cstr name) = take DIRSIZ (cstr (de_name ?de))"
    using namecmp_eq [OF name len] by blast
  have step: "dirlookup_from dp name (DIRENT * j) s =
      (if names name ?de then bindE (iget (i_dev (ino s dp)) (ucast (de_inum ?de)) s) (\<lambda>(s, i). Inr (s, Some (i, DIRENT * j)))
       else dirlookup_from dp name (DIRENT * Suc j) s)"
    using r c jk sz(1) by (subst dirlookup_from.simps) (auto simp: names_def hdr add.commute)
  show ?case
  proof (cases "names name ?de")
    case True
    then show ?thesis using step jk by (simp add: upt_conv_Cons)
  next
    case False
    have "dirlookup_from dp name (DIRENT * Suc j) s =
        (case find_idx (\<lambda>i. names name (dirent_at s dp i)) [Suc j..<k] of
           None \<Rightarrow> Inr (s, None)
         | Some i \<Rightarrow> bindE (iget (i_dev (ino s dp)) (ucast (de_inum (dirent_at s dp (Suc j + i)))) s)
             (\<lambda>(s, ip). Inr (s, Some (ip, DIRENT * (Suc j + i)))))"
      using Suc.hyps(1) [of "Suc j"] Suc.hyps(2) jk by simp
    then show ?thesis using step False jk
      by (cases "find_idx (\<lambda>i. names name (dirent_at s dp i)) [Suc j..<k]") (simp_all add: upt_conv_Cons)
  qed
qed

text \<open>
  \<open>dirlookup\<close> in a directory of \<open>k\<close> entries returns the inode of the first entry in use whose name
  agrees with the given one in the first 14 characters, together with the byte offset of that entry,
  and the null pointer when there is no such entry. It never reads outside the name.
\<close>

theorem dirlookup_finds_first:
  assumes "file_ok s dp N" and "unat (i_size (ino s dp)) = DIRENT * k" and "DIRENT * k \<le> N * BSIZE"
    and "i_type (ino s dp) = T_DIR" and "readable name DIRSIZ"
  shows "dirlookup dp name s =
    (case find_idx (\<lambda>i. names name (dirent_at s dp i)) [0..<k] of
       None \<Rightarrow> Inr (s, None)
     | Some i \<Rightarrow> bindE (iget (i_dev (ino s dp)) (ucast (de_inum (dirent_at s dp i))) s)
         (\<lambda>(s, ip). Inr (s, Some (ip, DIRENT * i))))"
  using dirlookup_from_spec [OF assms(1-3,5), of 0] assms(4) by (simp add: dirlookup_def split: option.splits)

theorem dirlookup_finds_first_witness:
  "dirlookup 0 (lit ''cache.bin'') sample_file =
    (case find_idx (\<lambda>i. names (lit ''cache.bin'') (dirent_at sample_file 0 i)) [0..<65] of
       None \<Rightarrow> Inr (sample_file, None)
     | Some i \<Rightarrow> bindE (iget (i_dev (ino sample_file 0)) (ucast (de_inum (dirent_at sample_file 0 i))) sample_file)
         (\<lambda>(s, ip). Inr (s, Some (ip, DIRENT * i))))"
proof (rule dirlookup_finds_first)
  show "file_ok sample_file 0 2" "unat (i_size (ino sample_file 0)) = DIRENT * 65" "DIRENT * 65 \<le> 2 * BSIZE"
    using sample_file_ok by (simp_all add: hdr)
  show "i_type (ino sample_file 0) = T_DIR" by (simp add: sample_file_def hdr)
qed simp

end
