(* ===== verification/Cache.thy ===== *)
theory Cache
  imports CacheSig FileData
begin

text \<open>
  Pattern B, the stateful part of \<open>kernel/cache.c\<close>: the table of RAM slots and the disk overlay
  \<open>/cache.bin\<close>, which is read and written through the file system of theory \<open>Fs\<close>. The state is the pair
  of the slot table and the file-system state. A null \<open>out\<close> pointer is \<open>None\<close>.
\<close>

record cache_slot =
  c_key :: uint64
  c_role :: bytes
  c_sig :: "uint64 list"
  c_val :: bytes

type_synonym slots = "cache_slot list"

section \<open>Records of /cache.bin\<close>

definition SLOT_SIZE :: nat where [hdr]: "SLOT_SIZE = 8 + CACHE_ROLELEN + 8 * CACHE_SIG_K + CACHE_VALLEN"

definition enc_slot :: "cache_slot \<Rightarrow> bytes" where
  "enc_slot r = le_bytes 8 (c_key r) @ c_role r @ concat (map (le_bytes 8) (c_sig r)) @ c_val r"

definition dec_slot :: "bytes \<Rightarrow> cache_slot" where
  "dec_slot b = \<lparr>c_key = le_word (take 8 b), c_role = take CACHE_ROLELEN (drop 8 b),
     c_sig = map (\<lambda>k. le_word (take 8 (drop (24 + 8 * k) b))) [0..<CACHE_SIG_K],
     c_val = take CACHE_VALLEN (drop 152 b)\<rparr>"

definition CACHE_DISK_PATH :: bytes where
  "CACHE_DISK_PATH = lit ''/cache.bin''"

definition copy_val :: "bytes option \<Rightarrow> int \<Rightarrow> bytes \<Rightarrow> bytes option res" where
  "copy_val out outmax val =
     (case out of
        None \<Rightarrow> Inr None
      | Some b \<Rightarrow> if outmax > 0 then mapE Some (safestrcpy b val outmax) else Inr (Some b))"

section \<open>Disk overlay\<close>

definition cache_disk_append :: "cache_slot \<Rightarrow> fsstate \<Rightarrow> fsstate res" where
  "cache_disk_append rec s =
     bindE (fs_begin_op s) (\<lambda>s.
     bindE (namei CACHE_DISK_PATH s) (\<lambda>(s, r).
     case r of
       None \<Rightarrow> fs_end_op s
     | Some ip \<Rightarrow>
         bindE (ilock ip s) (\<lambda>s.
         (let oldsz = i_size (ino s ip)
          in bindE (writei kernel_in ip (i_size (ino s ip)) (of_nat SLOT_SIZE) s (enc_slot rec)) (\<lambda>(s, _, n).
             bindE (if n \<noteq> int SLOT_SIZE then iupdate ip (upd_ino ip (\<lambda>i. i\<lparr>i_size := oldsz\<rparr>) s) else Inr s) (\<lambda>s.
             bindE (iunlockput ip s) fs_end_op))))))"

text \<open>
  The state of the scan: the last record with the exact key, and the best match among the others of
  the same role with its score, which starts at -1.
\<close>

type_synonym scan = "cache_slot option \<times> cache_slot option \<times> int"

definition scan_record :: "bytes \<Rightarrow> uint64 \<Rightarrow> uint64 list \<Rightarrow> cache_slot \<Rightarrow> scan \<Rightarrow> scan res" where
  "scan_record role key qsig rec a =
     (case a of (exact, sem, sem_match) \<Rightarrow>
        if c_key rec = key then Inr (Some rec, sem, sem_match)
        else bindE (strncmp (c_role rec) role CACHE_ROLELEN) (\<lambda>c.
          if c = 0
          then (let m = sig_match qsig (c_sig rec)
                in Inr (if m > sem_match then (exact, Some rec, m) else a))
          else Inr a))"

definition bound_val :: "cache_slot \<Rightarrow> cache_slot" where
  "bound_val rec = rec\<lparr>c_val := (c_val rec)[CACHE_VALLEN - 1 := 0]\<rparr>"

function scan_loop :: "nat \<Rightarrow> nat \<Rightarrow> nat \<Rightarrow> bytes \<Rightarrow> uint64 \<Rightarrow> uint64 list \<Rightarrow> scan \<Rightarrow> fsstate \<Rightarrow> (fsstate \<times> scan) res" where
  "scan_loop ip off sz role key qsig a s =
     (if off + SLOT_SIZE \<le> sz
      then bindE (readi kernel_out ip (of_nat off) (of_nat SLOT_SIZE) s []) (\<lambda>(s, b, n).
        if n \<noteq> int SLOT_SIZE then Inr (s, a)
        else bindE (scan_record role key qsig (bound_val (dec_slot b)) a) (\<lambda>a.
             scan_loop ip (off + SLOT_SIZE) sz role key qsig a s))
      else Inr (s, a))"
  by pat_completeness auto
termination
  by (relation "measure (\<lambda>(ip, off, sz, role, key, qsig, a, s). sz - off)") (auto simp: hdr)

declare scan_loop.simps [simp del]

text \<open>The record found by the scan: it is copied to \<open>out\<close> and handed back for promotion.\<close>

definition scan_result :: "scan \<Rightarrow> cache_slot option" where
  "scan_result a =
     (case a of (exact, sem, sem_match) \<Rightarrow>
        (case exact of
           Some r \<Rightarrow> Some r
         | None \<Rightarrow> (case sem of
              Some r \<Rightarrow> if sig_over_threshold sem_match then Some r else None
            | None \<Rightarrow> None)))"

definition cache_disk_scan ::
  "bytes \<Rightarrow> uint64 \<Rightarrow> uint64 list \<Rightarrow> bytes option \<Rightarrow> int \<Rightarrow> fsstate \<Rightarrow> (fsstate \<times> bytes option \<times> cache_slot option) res" where
  "cache_disk_scan role key qsig out outmax s =
     bindE (fs_begin_op s) (\<lambda>s.
     bindE (namei CACHE_DISK_PATH s) (\<lambda>(s, r).
     case r of
       None \<Rightarrow> bindE (fs_end_op s) (\<lambda>s. Inr (s, out, None))
     | Some ip \<Rightarrow>
         bindE (ilock ip s) (\<lambda>s.
         bindE (scan_loop ip 0 (unat (i_size (ino s ip))) role key qsig (None, None, -1) s) (\<lambda>(s, a).
         bindE (iunlockput ip s) (\<lambda>s.
         bindE (fs_end_op s) (\<lambda>s.
         case scan_result a of
           None \<Rightarrow> Inr (s, out, None)
         | Some rec \<Rightarrow> bindE (copy_val out outmax (c_val rec)) (\<lambda>out. Inr (s, out, Some rec))))))))"

definition cache_disk_truncate :: "fsstate \<Rightarrow> fsstate res" where
  "cache_disk_truncate s =
     bindE (fs_begin_op s) (\<lambda>s.
     bindE (namei CACHE_DISK_PATH s) (\<lambda>(s, r).
     case r of
       None \<Rightarrow> fs_end_op s
     | Some ip \<Rightarrow>
         bindE (ilock ip s) (\<lambda>s.
         bindE (itrunc ip s) (\<lambda>s.
         bindE (iunlockput ip s) fs_end_op))))"

section \<open>RAM slots\<close>

definition ram_put :: "cache_slot \<Rightarrow> slots \<Rightarrow> slots" where
  "ram_put rec sl =
     (let target = (case find_idx (\<lambda>x. c_key x = c_key rec) sl of
                      Some i \<Rightarrow> Some i
                    | None \<Rightarrow> find_idx (\<lambda>x. c_key x = 0) sl)
      in case target of Some i \<Rightarrow> sl[i := rec] | None \<Rightarrow> sl)"

text \<open>The semantic search: best score so far and its slot.\<close>

fun best_slot :: "bytes \<Rightarrow> uint64 list \<Rightarrow> cache_slot list \<Rightarrow> cache_slot option \<times> int \<Rightarrow> (cache_slot option \<times> int) res" where
  "best_slot role qsig [] best = Inr best"
| "best_slot role qsig (x # xs) best =
     (if c_key x = 0 then best_slot role qsig xs best
      else bindE (strncmp (c_role x) role CACHE_ROLELEN) (\<lambda>c.
        if c \<noteq> 0 then best_slot role qsig xs best
        else (let m = sig_match qsig (c_sig x)
              in best_slot role qsig xs (if m > snd best then (Some x, m) else best))))"

definition cache_get ::
  "bytes \<Rightarrow> bytes \<Rightarrow> bytes option \<Rightarrow> int \<Rightarrow> slots \<times> fsstate \<Rightarrow> ((slots \<times> fsstate) \<times> bytes option \<times> int) res" where
  "cache_get role prompt out outmax st =
     (case st of (sl, s) \<Rightarrow>
        bindE (cache_fnv1a role prompt) (\<lambda>k.
        bindE (cache_sig prompt) (\<lambda>qsig.
        case find_idx (\<lambda>x. c_key x = k) sl of
          Some i \<Rightarrow> bindE (copy_val out outmax (c_val (sl ! i))) (\<lambda>out. Inr ((sl, s), out, 1))
        | None \<Rightarrow>
            bindE (best_slot role qsig sl (None, -1)) (\<lambda>(best, best_match).
            case (if sig_over_threshold best_match then best else None) of
              Some x \<Rightarrow> bindE (copy_val out outmax (c_val x)) (\<lambda>out. Inr ((sl, s), out, 1))
            | None \<Rightarrow>
                bindE (cache_disk_scan role k qsig out outmax s) (\<lambda>(s, out, promo).
                case promo of
                  Some rec \<Rightarrow> Inr ((ram_put rec sl, s), out, 1)
                | None \<Rightarrow> Inr ((sl, s), out, 0))))))"

text \<open>
  \<open>cache_set\<close>: the record is an uninitialised object on the stack; \<open>role0\<close> and \<open>val0\<close> are the previous
  contents of its two arrays.
\<close>

definition cache_set ::
  "bytes \<Rightarrow> bytes \<Rightarrow> bytes \<Rightarrow> bytes \<Rightarrow> bytes \<Rightarrow> slots \<times> fsstate \<Rightarrow> ((slots \<times> fsstate) \<times> int) res" where
  "cache_set role0 val0 role prompt val st =
     (case st of (sl, s) \<Rightarrow>
        bindE (cache_fnv1a role prompt) (\<lambda>k.
        bindE (safestrcpy role0 role (int CACHE_ROLELEN)) (\<lambda>r.
        bindE (cache_sig prompt) (\<lambda>sg.
        bindE (safestrcpy val0 val (int CACHE_VALLEN)) (\<lambda>v.
        (let rec = \<lparr>c_key = k, c_role = r, c_sig = sg, c_val = v\<rparr>;
             free_or_match = (find_idx (\<lambda>x. c_key x = k \<or> c_key x = 0) sl \<noteq> None)
         in if free_or_match
            then bindE (cache_disk_append rec s) (\<lambda>s. Inr ((ram_put rec sl, s), 1))
            else Inr ((sl, s), 0)))))))"

definition cache_clear :: "bool \<Rightarrow> slots \<times> fsstate \<Rightarrow> (slots \<times> fsstate) res" where
  "cache_clear dsk st =
     (case st of (sl, s) \<Rightarrow>
        (let sl = map (\<lambda>x. x\<lparr>c_key := 0\<rparr>) sl
         in if dsk then bindE (cache_disk_truncate s) (\<lambda>s. Inr (sl, s)) else Inr (sl, s)))"

section \<open>The slot table as a map\<close>

definition slot_ok :: "cache_slot \<Rightarrow> bool" where
  "slot_ok x \<longleftrightarrow> length (c_role x) = CACHE_ROLELEN \<and> length (c_sig x) = CACHE_SIG_K \<and>
     length (c_val x) = CACHE_VALLEN \<and> terminated (c_val x)"

definition slots_ok :: "slots \<Rightarrow> bool" where
  "slots_ok sl \<longleftrightarrow> length sl = CACHE_NSLOT \<and> (\<forall>x\<in>set sl. c_key x \<noteq> 0 \<longrightarrow> slot_ok x) \<and>
     (\<forall>i<length sl. \<forall>j<length sl. c_key (sl ! i) \<noteq> 0 \<longrightarrow> c_key (sl ! i) = c_key (sl ! j) \<longrightarrow> i = j)"

definition cache_map :: "slots \<Rightarrow> uint64 \<Rightarrow> cache_slot option" where
  "cache_map sl k = (if k = 0 then None else map_option (\<lambda>i. sl ! i) (find_idx (\<lambda>x. c_key x = k) sl))"

lemma slots_ok_inj:
  "slots_ok sl \<Longrightarrow> i < length sl \<Longrightarrow> j < length sl \<Longrightarrow> c_key (sl ! i) \<noteq> 0 \<Longrightarrow> c_key (sl ! i) = c_key (sl ! j) \<Longrightarrow> i = j"
  unfolding slots_ok_def by blast

lemma cache_map_Some:
  assumes "slots_ok sl"
  shows "cache_map sl k = Some x \<longleftrightarrow> k \<noteq> 0 \<and> x \<in> set sl \<and> c_key x = k"
proof
  assume "cache_map sl k = Some x"
  then show "k \<noteq> 0 \<and> x \<in> set sl \<and> c_key x = k"
    by (auto simp: cache_map_def find_idx_Some split: if_splits)
next
  assume x: "k \<noteq> 0 \<and> x \<in> set sl \<and> c_key x = k"
  then obtain j where j: "find_idx (\<lambda>x. c_key x = k) sl = Some j" using find_idx_ex [of x sl "\<lambda>x. c_key x = k"] by blast
  obtain i where "i < length sl" "sl ! i = x" using x by (auto simp: in_set_conv_nth)
  moreover have "j < length sl" "c_key (sl ! j) = k" using j by (auto simp: find_idx_Some)
  ultimately have "i = j" using slots_ok_inj [OF assms, of i j] x by simp
  then show "cache_map sl k = Some x" using j x \<open>sl ! i = x\<close> by (simp add: cache_map_def)
qed

lemma cache_map_ext:
  assumes "slots_ok sl" and "slots_ok sl'" and "\<And>k x. k \<noteq> 0 \<Longrightarrow> x \<in> set sl' \<and> c_key x = k \<longleftrightarrow> f k = Some x"
    and "f 0 = None"
  shows "cache_map sl' = f"
proof
  fix k
  have "cache_map sl' k = Some x \<longleftrightarrow> f k = Some x" for x
    using cache_map_Some [OF assms(2), of k x] assms(3) [of k x] assms(4) by (cases "k = 0") auto
  then show "cache_map sl' k = f k" by (cases "f k") auto
qed

text \<open>The slot that \<open>ram_put\<close> overwrites.\<close>

lemma ram_put_target:
  assumes ok: "slots_ok sl" and rec: "c_key rec \<noteq> 0" "slot_ok rec"
    and room: "\<exists>x\<in>set sl. c_key x = c_key rec \<or> c_key x = 0"
  obtains i where "ram_put rec sl = sl[i := rec]" and "i < length sl" and "c_key (sl ! i) = c_key rec \<or> c_key (sl ! i) = 0"
    and "\<And>j. j < length sl \<Longrightarrow> c_key (sl ! j) = c_key rec \<Longrightarrow> j = i"
proof (cases "find_idx (\<lambda>x. c_key x = c_key rec) sl")
  case (Some i)
  then have "i < length sl" "c_key (sl ! i) = c_key rec" by (auto simp: find_idx_Some)
  moreover have "j = i" if "j < length sl" "c_key (sl ! j) = c_key rec" for j
    using that rec(1) \<open>i < length sl\<close> \<open>c_key (sl ! i) = c_key rec\<close> by (intro slots_ok_inj [OF ok]) auto
  moreover have "ram_put rec sl = sl[i := rec]" using Some by (simp add: ram_put_def)
  ultimately show thesis using that [of i] by blast
next
  case None
  then obtain i where i: "find_idx (\<lambda>x. c_key x = 0) sl = Some i"
    using room find_idx_ex [of _ sl "\<lambda>x. c_key x = 0"] by (auto simp: find_idx_None)
  then have "i < length sl" "c_key (sl ! i) = 0" by (auto simp: find_idx_Some)
  moreover have "ram_put rec sl = sl[i := rec]" using None i by (simp add: ram_put_def)
  moreover have "\<not> (j < length sl \<and> c_key (sl ! j) = c_key rec)" for j
    using None nth_mem [of j sl] by (auto simp: find_idx_None)
  ultimately show thesis using that [of i] by blast
qed

lemma ram_put_refines:
  assumes ok: "slots_ok sl" and rec: "c_key rec \<noteq> 0" "slot_ok rec"
    and room: "\<exists>x\<in>set sl. c_key x = c_key rec \<or> c_key x = 0"
  shows "slots_ok (ram_put rec sl) \<and> cache_map (ram_put rec sl) = (cache_map sl)(c_key rec \<mapsto> rec)"
proof -
  obtain i where i: "ram_put rec sl = sl[i := rec]" "i < length sl" "c_key (sl ! i) = c_key rec \<or> c_key (sl ! i) = 0"
    "\<And>j. j < length sl \<Longrightarrow> c_key (sl ! j) = c_key rec \<Longrightarrow> j = i"
    using ram_put_target [OF assms] by metis
  have keys: "j = j'" if "j < length sl" "j' < length sl" "c_key (sl[i := rec] ! j) \<noteq> 0"
      "c_key (sl[i := rec] ! j) = c_key (sl[i := rec] ! j')" for j j'
  proof -
    consider "j = i" | "j' = i" | "j \<noteq> i" "j' \<noteq> i" by blast
    then show ?thesis
    proof cases
      case 1
      then show ?thesis using that i(2) i(4) [OF that(2)] by (cases "j' = i") auto
    next
      case 2
      then show ?thesis using that i(2) i(4) [OF that(1)] by (cases "j = i") auto
    next
      case 3
      then show ?thesis using that by (intro slots_ok_inj [OF ok]) auto
    qed
  qed
  have ok': "slots_ok (sl[i := rec])"
  proof -
    have "slot_ok x" if "x \<in> set (sl[i := rec])" "c_key x \<noteq> 0" for x
      using that rec(2) ok set_update_subset_insert [of sl i rec] by (auto simp: slots_ok_def)
    then show ?thesis using ok keys unfolding slots_ok_def by simp
  qed
  have "x \<in> set (sl[i := rec]) \<and> c_key x = k \<longleftrightarrow> ((cache_map sl)(c_key rec \<mapsto> rec)) k = Some x" if "k \<noteq> 0" for k x
  proof -
    have "x \<in> set (sl[i := rec]) \<longleftrightarrow> x = rec \<or> (\<exists>j<length sl. j \<noteq> i \<and> sl ! j = x)"
      using i(2) by (auto simp: in_set_conv_nth nth_list_update split: if_splits)
    moreover have "k = c_key (sl ! i) \<longrightarrow> k = c_key rec" using i(3) that by auto
    moreover have "c_key x = c_key rec \<longrightarrow> (\<exists>j<length sl. j \<noteq> i \<and> sl ! j = x) \<longrightarrow> False" using i(4) by auto
    moreover have "cache_map sl k = Some x \<longleftrightarrow> c_key x = k \<and> (\<exists>j<length sl. sl ! j = x)"
      using cache_map_Some [OF ok, of k x] that by (auto simp: in_set_conv_nth)
    ultimately show ?thesis by (cases "k = c_key rec") auto
  qed
  then have "cache_map (sl[i := rec]) = (cache_map sl)(c_key rec \<mapsto> rec)"
    using rec(1) by (intro cache_map_ext [OF ok ok']) (auto simp: cache_map_def)
  then show ?thesis using ok' i(1) by simp
qed

section \<open>What the operations promise\<close>

text \<open>The record that \<open>cache_set\<close> builds.\<close>

lemma set_record:
  assumes "terminated role" and "terminated prompt" and "terminated val"
    and "length role0 = CACHE_ROLELEN" and "length val0 = CACHE_VALLEN"
  obtains k r sg v where "cache_fnv1a role prompt = Inr k" "k \<noteq> 0" "cache_sig prompt = Inr sg"
    "safestrcpy role0 role (int CACHE_ROLELEN) = Inr r" "safestrcpy val0 val (int CACHE_VALLEN) = Inr v"
    "slot_ok \<lparr>c_key = k, c_role = r, c_sig = sg, c_val = v\<rparr>"
    "cstr r = take (CACHE_ROLELEN - 1) (cstr role)" "cstr v = take (CACHE_VALLEN - 1) (cstr val)" "terminated r"
proof -
  obtain k where k: "cache_fnv1a role prompt = Inr k" "k \<noteq> 0"
    using assms(1,2) by (simp add: cache_fnv1a_eq Let_def)
  obtain r where r: "safestrcpy role0 role (int CACHE_ROLELEN) = Inr r" "length r = length role0"
    "terminated (take CACHE_ROLELEN r)" "cstr r = take (CACHE_ROLELEN - 1) (cstr role)"
    using safestrcpy_spec [of "int CACHE_ROLELEN" role0 role] assms by (auto simp: CACHE_ROLELEN_def)
  obtain v where v: "safestrcpy val0 val (int CACHE_VALLEN) = Inr v" "length v = length val0"
    "terminated (take CACHE_VALLEN v)" "cstr v = take (CACHE_VALLEN - 1) (cstr val)"
    using safestrcpy_spec [of "int CACHE_VALLEN" val0 val] assms by (auto simp: CACHE_VALLEN_def)
  have "slot_ok \<lparr>c_key = k, c_role = r, c_sig = signature (set (content_words (cstr prompt))), c_val = v\<rparr>"
    using r v assms by (simp add: slot_ok_def terminated_take [of CACHE_VALLEN])
  then show thesis
    using that k r v cache_sig_eq [OF assms(2)] terminated_take [OF r(3)] by blast
qed

text \<open>Copying a terminated value to a buffer of \<open>n > 0\<close> bytes.\<close>

lemma copy_val_ok:
  assumes "terminated val" and "0 < n" and "nat n \<le> length out"
  shows "\<exists>out'. copy_val (Some out) n val = Inr (Some out') \<and> length out' = length out \<and> terminated out' \<and>
    cstr out' = take (nat n - 1) (cstr val)"
  using safestrcpy_spec [OF assms(2,3), of val] assms by (auto simp: copy_val_def dest: terminated_take)

lemma cache_set_map:
  assumes ok: "slots_ok sl" and t: "terminated role" "terminated prompt" "terminated val"
    and len: "length role0 = CACHE_ROLELEN" "length val0 = CACHE_VALLEN"
    and set: "cache_set role0 val0 role prompt val (sl, s) = Inr ((sl', s'), 1)"
  shows "slots_ok sl' \<and> (\<exists>k rec. cache_fnv1a role prompt = Inr k \<and> k \<noteq> 0 \<and> cache_map sl' = (cache_map sl)(k \<mapsto> rec) \<and>
    cstr (c_val rec) = take (CACHE_VALLEN - 1) (cstr val) \<and> terminated (c_val rec))"
proof -
  obtain k r sg v where R: "cache_fnv1a role prompt = Inr k" "k \<noteq> 0" "cache_sig prompt = Inr sg"
    "safestrcpy role0 role (int CACHE_ROLELEN) = Inr r" "safestrcpy val0 val (int CACHE_VALLEN) = Inr v"
    "slot_ok \<lparr>c_key = k, c_role = r, c_sig = sg, c_val = v\<rparr>" "cstr v = take (CACHE_VALLEN - 1) (cstr val)"
    using set_record [OF t len] by metis
  let ?rec = "\<lparr>c_key = k, c_role = r, c_sig = sg, c_val = v\<rparr>"
  have room: "\<exists>x\<in>set sl. c_key x = c_key ?rec \<or> c_key x = 0" and sl': "sl' = ram_put ?rec sl"
    using set R by (auto simp: cache_set_def Let_def find_idx_None split: if_splits)
  have "slots_ok sl' \<and> cache_map sl' = (cache_map sl)(c_key ?rec \<mapsto> ?rec)"
    unfolding sl' using R(2,6) by (intro ram_put_refines [OF ok _ _ room]) simp_all
  then show ?thesis using R by (auto simp: slot_ok_def)
qed

lemma cache_get_hit:
  assumes "cache_fnv1a role prompt = Inr k" and "cache_map sl k = Some rec" and "terminated prompt" and "terminated (c_val rec)"
    and "0 < n" and "nat n \<le> length out"
  shows "\<exists>out'. cache_get role prompt (Some out) n (sl, t) = Inr ((sl, t), Some out', 1) \<and> length out' = length out \<and>
    terminated out' \<and> cstr out' = take (nat n - 1) (cstr (c_val rec))"
proof -
  obtain i where i: "find_idx (\<lambda>x. c_key x = k) sl = Some i" "sl ! i = rec"
    using assms(2) by (auto simp: cache_map_def split: if_splits)
  then show ?thesis using assms(1) cache_sig_eq [OF assms(3)] copy_val_ok [OF assms(4-6)] by (auto simp: cache_get_def)
qed

text \<open>
  C25. A stored answer is found again: after \<open>cache_set\<close> has returned 1, \<open>cache_get\<close> for the same role and
  prompt returns 1 without touching the disk, and delivers the value, cut to the 191 characters of a
  slot and to the size of the caller's buffer.
\<close>

theorem cache_set_get_roundtrip:
  assumes "slots_ok sl" and "terminated role" and "terminated prompt" and "terminated val"
    and "length role0 = CACHE_ROLELEN" and "length val0 = CACHE_VALLEN"
    and "cache_set role0 val0 role prompt val (sl, s) = Inr ((sl', s'), 1)"
    and "0 < n" and "nat n \<le> length out"
  shows "\<exists>out'. cache_get role prompt (Some out) n (sl', t) = Inr ((sl', t), Some out', 1) \<and>
    cstr out' = take (nat n - 1) (take (CACHE_VALLEN - 1) (cstr val))"
proof -
  obtain k rec where k: "cache_fnv1a role prompt = Inr k" "k \<noteq> 0" "cache_map sl' = (cache_map sl)(k \<mapsto> rec)"
    "cstr (c_val rec) = take (CACHE_VALLEN - 1) (cstr val)" "terminated (c_val rec)"
    using cache_set_map [OF assms(1-7)] by blast
  then have "cache_map sl' k = Some rec" by simp
  from cache_get_hit [OF k(1) this assms(3) k(5) assms(8,9)] show ?thesis using k(4) by auto
qed

text \<open>A file system whose root directory is empty, so that there is no overlay file.\<close>

definition sample_root :: fsstate where
  "sample_root = \<lparr>lg = reboot (\<lambda>_. replicate BSIZE 0), sb = sb sample_fs,
     itable = [sample_inode\<lparr>i_dev := 1, i_inum := 1, i_ref := 1, i_valid := True, i_type := T_DIR, i_nlink := 1\<rparr>],
     me = 1, cwd = 0\<rparr>"

lemma sample_append: "cache_disk_append rec sample_root = Inr sample_root"
proof -
  obtain nm where sk: "skipelem CACHE_DISK_PATH (replicate DIRSIZ 0) = Inr (Some ([0], nm))"
    by (simp add: skipelem_def CACHE_DISK_PATH_def hdr)
  have hd: "hd CACHE_DISK_PATH = slash" by (simp add: CACHE_DISK_PATH_def)
  show ?thesis
    by (simp add: cache_disk_append_def fs_begin_op_def begin_op_def sample_root_def reboot_def hdr namei_def namex_def
        iget_def upd_ino_def sample_inode_def namex_loop.simps [of False CACHE_DISK_PATH] sk [unfolded DIRSIZ_def] hd
        ilock_def acquiresleep_def initsleeplock_def dirlookup_def dirlookup_from.simps iunlockput_def iunlock_def
        holdingsleep_def releasesleep_def iput_def fs_end_op_def end_op_def Let_def commit_def)
qed

definition sample_slots :: slots where
  "sample_slots = replicate CACHE_NSLOT \<lparr>c_key = 0, c_role = [], c_sig = [], c_val = []\<rparr>"

lemma sample_slots_ok: "slots_ok sample_slots"
  by (simp add: slots_ok_def sample_slots_def)

lemma sample_set:
  assumes "terminated role" and "terminated prompt" and "terminated val"
  shows "\<exists>sl'. cache_set (replicate CACHE_ROLELEN 0) (replicate CACHE_VALLEN 0) role prompt val (sample_slots, sample_root) =
    Inr ((sl', sample_root), 1)"
proof -
  obtain k r sg v where R: "cache_fnv1a role prompt = Inr k" "cache_sig prompt = Inr sg"
    "safestrcpy (replicate CACHE_ROLELEN 0) role (int CACHE_ROLELEN) = Inr r"
    "safestrcpy (replicate CACHE_VALLEN 0) val (int CACHE_VALLEN) = Inr v"
    using set_record [OF assms, of "replicate CACHE_ROLELEN 0" "replicate CACHE_VALLEN 0"] length_replicate by metis
  have "find_idx (\<lambda>x. c_key x = k \<or> c_key x = 0) sample_slots \<noteq> None"
    by (simp add: find_idx_None sample_slots_def hdr)
  then show ?thesis using R sample_append by (simp add: cache_set_def Let_def)
qed

theorem cache_set_get_roundtrip_witness:
  "\<exists>sl' out'. cache_get (lit ''parser'') (lit ''hi'') (Some (replicate 8 1)) 8 (sl', sample_root) =
      Inr ((sl', sample_root), Some out', 1) \<and>
    cstr out' = take (nat 8 - 1) (take (CACHE_VALLEN - 1) (cstr (lit ''ok'')))"
proof -
  obtain sl' where set: "cache_set (replicate CACHE_ROLELEN 0) (replicate CACHE_VALLEN 0) (lit ''parser'') (lit ''hi'')
      (lit ''ok'') (sample_slots, sample_root) = Inr ((sl', sample_root), 1)"
    using sample_set [OF terminated_lit terminated_lit terminated_lit] by blast
  show ?thesis
    by (rule exI, rule cache_set_get_roundtrip [OF sample_slots_ok terminated_lit terminated_lit terminated_lit
          length_replicate length_replicate set]) simp_all
qed

text \<open>
  \<open>cache_set\<close> is an update of the map from keys to records: it returns 1 exactly when the table has the
  key or an empty slot, then only the entry of its own key changes; otherwise it returns 0 and neither
  the table nor the disk changes. No key is ever held by two slots.
\<close>

theorem cache_set_refines_map:
  assumes "slots_ok sl" and "terminated role" and "terminated prompt" and "terminated val"
    and "length role0 = CACHE_ROLELEN" and "length val0 = CACHE_VALLEN"
    and "cache_set role0 val0 role prompt val (sl, s) = Inr ((sl', s'), r)"
  shows "\<exists>k. cache_fnv1a role prompt = Inr k \<and> slots_ok sl' \<and>
    (if \<exists>x\<in>set sl. c_key x = k \<or> c_key x = 0
     then r = 1 \<and> (\<exists>rec. cache_map sl' = (cache_map sl)(k \<mapsto> rec) \<and>
       cstr (c_val rec) = take (CACHE_VALLEN - 1) (cstr val))
     else r = 0 \<and> sl' = sl \<and> s' = s)"
proof -
  obtain k where k: "cache_fnv1a role prompt = Inr k"
    using assms(2,3) by (auto simp: cache_fnv1a_eq Let_def)
  show ?thesis
  proof (cases "\<exists>x\<in>set sl. c_key x = k \<or> c_key x = 0")
    case True
    then have "r = 1" using assms(7) k by (auto simp: cache_set_def Let_def find_idx_None split: if_splits)
    then have "cache_set role0 val0 role prompt val (sl, s) = Inr ((sl', s'), 1)" using assms(7) by simp
    from cache_set_map [OF assms(1-6) this] obtain k' rec where
      "cache_fnv1a role prompt = Inr k'" "slots_ok sl'" "cache_map sl' = (cache_map sl)(k' \<mapsto> rec)"
      "cstr (c_val rec) = take (CACHE_VALLEN - 1) (cstr val)" by blast
    then show ?thesis using k True \<open>r = 1\<close> by auto
  next
    case False
    then have "r = 0 \<and> sl' = sl \<and> s' = s"
      using assms(7) k by (auto simp: cache_set_def Let_def find_idx_None split: if_splits)
    then show ?thesis using assms(1) k False by auto
  qed
qed

theorem cache_set_refines_map_witness:
  "\<exists>sl' k. cache_fnv1a (lit ''parser'') (lit ''hi'') = Inr k \<and> slots_ok sl' \<and>
    (if \<exists>x\<in>set sample_slots. c_key x = k \<or> c_key x = 0
     then (1 :: int) = 1 \<and> (\<exists>rec. cache_map sl' = (cache_map sample_slots)(k \<mapsto> rec) \<and>
       cstr (c_val rec) = take (CACHE_VALLEN - 1) (cstr (lit ''ok'')))
     else (1 :: int) = 0 \<and> sl' = sample_slots \<and> sample_root = sample_root)"
proof -
  obtain sl' where set: "cache_set (replicate CACHE_ROLELEN 0) (replicate CACHE_VALLEN 0) (lit ''parser'') (lit ''hi'')
      (lit ''ok'') (sample_slots, sample_root) = Inr ((sl', sample_root), 1)"
    using sample_set [OF terminated_lit terminated_lit terminated_lit] by blast
  show ?thesis
    by (rule exI, rule cache_set_refines_map [OF sample_slots_ok terminated_lit terminated_lit terminated_lit
          length_replicate length_replicate set])
qed

section \<open>Semantic hits\<close>

definition same_role :: "bytes \<Rightarrow> cache_slot \<Rightarrow> bool" where
  "same_role role x \<longleftrightarrow> c_key x \<noteq> 0 \<and> take CACHE_ROLELEN (cstr (c_role x)) = take CACHE_ROLELEN (cstr role)"

lemma best_slot_spec:
  assumes "terminated role" and "\<forall>x\<in>set xs. c_key x \<noteq> 0 \<longrightarrow> slot_ok x" and "b = None \<longrightarrow> m = -1"
  shows "\<exists>b' m'. best_slot role qsig xs (b, m) = Inr (b', m') \<and> m \<le> m' \<and>
    (\<forall>x\<in>set xs. same_role role x \<longrightarrow> sig_match qsig (c_sig x) \<le> m') \<and> (b' = None \<longrightarrow> m' = -1) \<and>
    ((b', m') = (b, m) \<or> (\<exists>x\<in>set xs. same_role role x \<and> b' = Some x \<and> m' = sig_match qsig (c_sig x)))"
  using assms(2,3)
proof (induction xs arbitrary: b m)
  case Nil
  then show ?case by simp
next
  case (Cons x xs)
  show ?case
  proof (cases "c_key x = 0")
    case True
    then show ?thesis using Cons.IH [of b m] Cons.prems by (fastforce simp: same_role_def)
  next
    case False
    have "readable (c_role x) CACHE_ROLELEN" using Cons.prems(1) False by (simp add: slot_ok_def)
    then obtain c where c: "strncmp (c_role x) role CACHE_ROLELEN = Inr c"
      "c = 0 \<longleftrightarrow> take CACHE_ROLELEN (cstr (c_role x)) = take CACHE_ROLELEN (cstr role)"
      using strncmp_spec [of "c_role x" CACHE_ROLELEN role] assms(1) by blast
    let ?m = "sig_match qsig (c_sig x)"
    have pos: "0 \<le> ?m" by (simp add: sig_match_eq)
    show ?thesis
    proof (cases "c = 0 \<and> ?m > m")
      case True
      then have sr: "same_role role x" using c False by (simp add: same_role_def)
      obtain b' m' where B: "best_slot role qsig xs (Some x, ?m) = Inr (b', m')" "?m \<le> m'"
        "\<forall>x\<in>set xs. same_role role x \<longrightarrow> sig_match qsig (c_sig x) \<le> m'" "b' = None \<longrightarrow> m' = -1"
        "(b', m') = (Some x, ?m) \<or> (\<exists>x\<in>set xs. same_role role x \<and> b' = Some x \<and> m' = sig_match qsig (c_sig x))"
        using Cons.IH [of "Some x" ?m] Cons.prems(1) by auto
      have "best_slot role qsig (x # xs) (b, m) = Inr (b', m')" using B(1) c True False by simp
      moreover have "m \<le> m'" using True B(2) by simp
      moreover have "\<forall>y\<in>set (x # xs). same_role role y \<longrightarrow> sig_match qsig (c_sig y) \<le> m'" using B(2,3) by simp
      moreover have "\<exists>y\<in>set (x # xs). same_role role y \<and> b' = Some y \<and> m' = sig_match qsig (c_sig y)"
        using B(5) sr by auto
      ultimately show ?thesis using B(4) by blast
    next
      case no: False
      then have le: "same_role role x \<longrightarrow> ?m \<le> m" using c by (auto simp: same_role_def)
      obtain b' m' where B: "best_slot role qsig xs (b, m) = Inr (b', m')" "m \<le> m'"
        "\<forall>x\<in>set xs. same_role role x \<longrightarrow> sig_match qsig (c_sig x) \<le> m'" "b' = None \<longrightarrow> m' = -1"
        "(b', m') = (b, m) \<or> (\<exists>x\<in>set xs. same_role role x \<and> b' = Some x \<and> m' = sig_match qsig (c_sig x))"
        using Cons.IH [of b m] Cons.prems by auto
      have "best_slot role qsig (x # xs) (b, m) = Inr (b', m')" using B(1) c no False by auto
      moreover have "\<forall>y\<in>set (x # xs). same_role role y \<longrightarrow> sig_match qsig (c_sig y) \<le> m'" using B(2,3) le by auto
      ultimately show ?thesis using B(2,4,5) by (intro exI [of _ b'] exI [of _ m']) auto
    qed
  qed
qed

end
