(* ===== verification/Bio.thy ===== *)
theory Bio
  imports Locks
begin

text \<open>
  The buffer cache of \<open>kernel/bio.c\<close>, with its doubly linked list of buffers in the order of use. A
  \<open>struct buf *\<close> is an index: 0 to \<open>NBUF - 1\<close> for the buffers and \<open>NBUF\<close> for \<open>bcache.head\<close>. The traversals
  of the list are given \<open>NBUF + 1\<close> steps, which are enough for a list that contains every buffer once.
  \<open>virtio_disk_rw\<close> transfers a block between the buffer and the disk before it returns, which theory \<open>Virtio\<close> justifies. The theory \<open>Log\<close>
  uses the cache through the view that is justified here.
\<close>

definition NBUF :: nat where [hdr]: "NBUF = 30"

record buf =
  b_valid :: bool
  b_dev :: uint
  b_blockno :: uint
  b_lock :: sleeplock
  b_refcnt :: uint
  b_prev :: nat
  b_next :: nat
  b_data :: bytes

record bcache =
  bufs :: "buf list"
  ddisk :: "uint \<times> uint \<Rightarrow> bytes"

abbreviation bf :: "bcache \<Rightarrow> nat \<Rightarrow> buf" where
  "bf c i \<equiv> bufs c ! i"

definition upd_buf :: "nat \<Rightarrow> (buf \<Rightarrow> buf) \<Rightarrow> bcache \<Rightarrow> bcache" where
  "upd_buf i f c = c\<lparr>bufs := (bufs c)[i := f (bufs c ! i)]\<rparr>"

section \<open>Operations\<close>

text \<open>The head of the list has no use but its two links.\<close>

definition binit_step :: "nat \<Rightarrow> bcache \<Rightarrow> bcache" where
  "binit_step b c =
     (let c = upd_buf b (\<lambda>x. x\<lparr>b_next := b_next (bf c NBUF)\<rparr>) c;
          c = upd_buf b (\<lambda>x. x\<lparr>b_prev := NBUF, b_lock := initsleeplock\<rparr>) c;
          c = upd_buf (b_next (bf c NBUF)) (\<lambda>x. x\<lparr>b_prev := b\<rparr>) c
      in upd_buf NBUF (\<lambda>x. x\<lparr>b_next := b\<rparr>) c)"

definition binit :: "bcache \<Rightarrow> bcache" where
  "binit c =
     fold binit_step [0..<NBUF] (upd_buf NBUF (\<lambda>x. x\<lparr>b_prev := NBUF, b_next := NBUF\<rparr>) c)"

text \<open>\<open>for(b = start; b != &bcache.head; b = link(b)) if(P(b)) ...\<close>\<close>

primrec scan_bufs :: "nat \<Rightarrow> (buf \<Rightarrow> nat) \<Rightarrow> (buf \<Rightarrow> bool) \<Rightarrow> bcache \<Rightarrow> nat \<Rightarrow> nat option res" where
  "scan_bufs 0 link P c b = Inl Diverges"
| "scan_bufs (Suc n) link P c b =
     (if b = NBUF then Inr None
      else if P (bf c b) then Inr (Some b)
      else scan_bufs n link P c (link (bf c b)))"

definition lock_buf :: "int \<Rightarrow> nat \<Rightarrow> bcache \<Rightarrow> (bcache \<times> nat) res" where
  "lock_buf me b c = bindE (acquiresleep me (b_lock (bf c b))) (\<lambda>lk. Inr (upd_buf b (\<lambda>x. x\<lparr>b_lock := lk\<rparr>) c, b))"

definition bget :: "int \<Rightarrow> uint \<Rightarrow> uint \<Rightarrow> bcache \<Rightarrow> (bcache \<times> nat) res" where
  "bget me dev blockno c =
     bindE (scan_bufs (NBUF + 1) b_next (\<lambda>b. b_dev b = dev \<and> b_blockno b = blockno) c (b_next (bf c NBUF))) (\<lambda>r.
     case r of
       Some b \<Rightarrow> lock_buf me b (upd_buf b (\<lambda>x. x\<lparr>b_refcnt := b_refcnt x + 1\<rparr>) c)
     | None \<Rightarrow>
         bindE (scan_bufs (NBUF + 1) b_prev (\<lambda>b. b_refcnt b = 0) c (b_prev (bf c NBUF))) (\<lambda>r.
         case r of
           Some b \<Rightarrow> lock_buf me b (upd_buf b (\<lambda>x. x\<lparr>b_dev := dev, b_blockno := blockno, b_valid := False, b_refcnt := 1\<rparr>) c)
         | None \<Rightarrow> Inl (Panic ''bget: no buffers'')))"

definition virtio_disk_rw :: "nat \<Rightarrow> bool \<Rightarrow> bcache \<Rightarrow> bcache" where
  "virtio_disk_rw b write c =
     (if write then c\<lparr>ddisk := (ddisk c)((b_dev (bf c b), b_blockno (bf c b)) := b_data (bf c b))\<rparr>
      else upd_buf b (\<lambda>x. x\<lparr>b_data := ddisk c (b_dev x, b_blockno x)\<rparr>) c)"

definition bread :: "int \<Rightarrow> uint \<Rightarrow> uint \<Rightarrow> bcache \<Rightarrow> (bcache \<times> nat) res" where
  "bread me dev blockno c =
     bindE (bget me dev blockno c) (\<lambda>(c, b).
     if \<not> b_valid (bf c b) then Inr (upd_buf b (\<lambda>x. x\<lparr>b_valid := True\<rparr>) (virtio_disk_rw b False c), b)
     else Inr (c, b))"

definition bwrite :: "int \<Rightarrow> nat \<Rightarrow> bcache \<Rightarrow> bcache res" where
  "bwrite me b c =
     (if \<not> holdingsleep me (b_lock (bf c b)) then Inl (Panic ''bwrite'') else Inr (virtio_disk_rw b True c))"

definition move_to_front :: "nat \<Rightarrow> bcache \<Rightarrow> bcache" where
  "move_to_front b c =
     (let c = upd_buf (b_next (bf c b)) (\<lambda>x. x\<lparr>b_prev := b_prev (bf c b)\<rparr>) c;
          c = upd_buf (b_prev (bf c b)) (\<lambda>x. x\<lparr>b_next := b_next (bf c b)\<rparr>) c;
          c = upd_buf b (\<lambda>x. x\<lparr>b_next := b_next (bf c NBUF)\<rparr>) c;
          c = upd_buf b (\<lambda>x. x\<lparr>b_prev := NBUF\<rparr>) c;
          c = upd_buf (b_next (bf c NBUF)) (\<lambda>x. x\<lparr>b_prev := b\<rparr>) c
      in upd_buf NBUF (\<lambda>x. x\<lparr>b_next := b\<rparr>) c)"

definition brelse :: "int \<Rightarrow> nat \<Rightarrow> bcache \<Rightarrow> bcache res" where
  "brelse me b c =
     (if \<not> holdingsleep me (b_lock (bf c b)) then Inl (Panic ''brelse'')
      else (let c = upd_buf b (\<lambda>x. x\<lparr>b_lock := releasesleep (b_lock x)\<rparr>) c;
                c = upd_buf b (\<lambda>x. x\<lparr>b_refcnt := b_refcnt x - 1\<rparr>) c
            in if b_refcnt (bf c b) = 0 then Inr (move_to_front b c) else Inr c))"

definition bpin :: "nat \<Rightarrow> bcache \<Rightarrow> bcache" where
  "bpin b c = upd_buf b (\<lambda>x. x\<lparr>b_refcnt := b_refcnt x + 1\<rparr>) c"

definition bunpin :: "nat \<Rightarrow> bcache \<Rightarrow> bcache" where
  "bunpin b c = upd_buf b (\<lambda>x. x\<lparr>b_refcnt := b_refcnt x - 1\<rparr>) c"

section \<open>The list of buffers\<close>

primrec path :: "(nat \<Rightarrow> nat) \<Rightarrow> nat \<Rightarrow> nat list \<Rightarrow> nat \<Rightarrow> bool" where
  "path f a [] c = (f a = c)"
| "path f a (x # xs) c = (f a = x \<and> path f x xs c)"

lemma path_append: "path f a (xs @ y # ys) c \<longleftrightarrow> path f a xs y \<and> path f y ys c"
  by (induction xs arbitrary: a) auto

lemma path_upd: "z \<notin> set (a # xs) \<Longrightarrow> path (f(z := v)) a xs c = path f a xs c"
  by (induction xs arbitrary: a) auto

lemma path_redirect: "path f a xs c \<Longrightarrow> distinct (a # xs) \<Longrightarrow> path (f(last (a # xs) := v)) a xs v"
proof (induction xs arbitrary: a)
  case Nil
  then show ?case by simp
next
  case (Cons x xs)
  have "last (x # xs) \<in> set (x # xs)" by (rule last_in_set) simp
  then have "last (x # xs) \<noteq> a" using Cons.prems(2) by auto
  then show ?case using Cons by (simp del: last.simps) simp
qed

lemma path_last: "path f a xs c \<Longrightarrow> f (last (a # xs)) = c"
  by (induction xs arbitrary: a) auto

lemma path_unlink:
  assumes "path f h (as @ b # cs) h" and "distinct (h # as @ b # cs)"
  shows "path (f(last (h # as) := f b)) h (as @ cs) h"
proof (cases cs)
  case Nil
  then show ?thesis using assms path_redirect [of f h as b "f b"] by (simp add: path_append)
next
  case (Cons c cs')
  have a: "last (h # as) \<in> set (h # as)" by (rule last_in_set) simp
  have "path f h as b" "f b = c" "path f c cs' h" using assms(1) Cons by (auto simp: path_append)
  moreover have "last (h # as) \<notin> set (c # cs')" using a assms(2) Cons by auto
  ultimately show ?thesis using assms(2) Cons path_redirect [of f h as b c] path_upd [of "last (h # as)" c cs' f c h]
    by (simp add: path_append del: last.simps)
qed

definition nx :: "bcache \<Rightarrow> nat \<Rightarrow> nat" where
  "nx c i = b_next (bf c i)"

definition pv :: "bcache \<Rightarrow> nat \<Rightarrow> nat" where
  "pv c i = b_prev (bf c i)"

definition linked :: "bcache \<Rightarrow> nat list \<Rightarrow> bool" where
  "linked c xs \<longleftrightarrow> length (bufs c) = NBUF + 1 \<and> distinct xs \<and> set xs = {..<NBUF} \<and>
     path (nx c) NBUF xs NBUF \<and> path (pv c) NBUF (rev xs) NBUF"

lemma upd_buf_nth:
  "i < length (bufs c) \<Longrightarrow> bf (upd_buf i f c) j = (if j = i then f (bf c i) else bf c j)"
  by (simp add: upd_buf_def nth_list_update)

lemma length_upd_buf [simp]: "length (bufs (upd_buf i f c)) = length (bufs c)"
  and ddisk_upd_buf [simp]: "ddisk (upd_buf i f c) = ddisk c"
  by (simp_all add: upd_buf_def)

lemma upd_links:
  assumes "i < length (bufs c)"
  shows "nx (upd_buf i (\<lambda>x. x\<lparr>b_next := v\<rparr>) c) = (nx c)(i := v)" "pv (upd_buf i (\<lambda>x. x\<lparr>b_next := v\<rparr>) c) = pv c"
    "nx (upd_buf i (\<lambda>x. x\<lparr>b_prev := v\<rparr>) c) = nx c" "pv (upd_buf i (\<lambda>x. x\<lparr>b_prev := v\<rparr>) c) = (pv c)(i := v)"
  using assms by (auto simp: upd_buf_nth fun_eq_iff nx_def pv_def)

lemma move_links:
  assumes "length (bufs c) = NBUF + 1" and "b < NBUF" and "nx c b \<le> NBUF" and "pv c b \<le> NBUF"
    and "nx c b \<noteq> b" and "((nx c)(pv c b := nx c b)) NBUF \<le> NBUF"
  shows "nx (move_to_front b c) = ((nx c)(pv c b := nx c b, b := ((nx c)(pv c b := nx c b)) NBUF))(NBUF := b)"
    and "pv (move_to_front b c) = (pv c)(nx c b := pv c b, b := NBUF, ((nx c)(pv c b := nx c b)) NBUF := b)"
proof -
  define c1 where "c1 = upd_buf (nx c b) (\<lambda>x. x\<lparr>b_prev := pv c b\<rparr>) c"
  define c2 where "c2 = upd_buf (pv c1 b) (\<lambda>x. x\<lparr>b_next := nx c1 b\<rparr>) c1"
  define c3 where "c3 = upd_buf b (\<lambda>x. x\<lparr>b_next := nx c2 NBUF\<rparr>) c2"
  define c4 where "c4 = upd_buf b (\<lambda>x. x\<lparr>b_prev := NBUF\<rparr>) c3"
  define c5 where "c5 = upd_buf (nx c4 NBUF) (\<lambda>x. x\<lparr>b_prev := b\<rparr>) c4"
  have fin: "move_to_front b c = upd_buf NBUF (\<lambda>x. x\<lparr>b_next := b\<rparr>) c5"
    unfolding move_to_front_def Let_def c5_def c4_def c3_def c2_def c1_def nx_def pv_def by (rule refl)
  have len: "length (bufs c1) = NBUF + 1" "length (bufs c2) = NBUF + 1" "length (bufs c3) = NBUF + 1"
    "length (bufs c4) = NBUF + 1" "length (bufs c5) = NBUF + 1"
    using assms(1) by (simp_all add: c1_def c2_def c3_def c4_def c5_def)
  have r1: "nx c b < length (bufs c)" using assms(1,3) by simp
  have l1: "nx c1 = nx c" "pv c1 = (pv c)(nx c b := pv c b)" unfolding c1_def by (simp_all add: upd_links(3,4) [OF r1])
  have e1: "pv c1 b = pv c b" "nx c1 b = nx c b" using l1 assms(5) by simp_all
  have r2: "pv c b < length (bufs c1)" using len assms(4) by simp
  have l2: "nx c2 = (nx c)(pv c b := nx c b)" "pv c2 = (pv c)(nx c b := pv c b)"
    unfolding c2_def e1 by (simp_all add: upd_links(1,2) [OF r2] l1)
  define f where "f = ((nx c)(pv c b := nx c b)) NBUF"
  have e2: "nx c2 NBUF = f" by (simp only: l2(1) f_def)
  have r3: "b < length (bufs c2)" "b < length (bufs c3)" using len assms(2) by simp_all
  have l3: "nx c3 = (nx c)(pv c b := nx c b, b := f)" "pv c3 = (pv c)(nx c b := pv c b)"
    unfolding c3_def e2 by (simp_all add: upd_links(1,2) [OF r3(1)] l2)
  have l4: "nx c4 = (nx c)(pv c b := nx c b, b := f)" "pv c4 = (pv c)(nx c b := pv c b, b := NBUF)"
    unfolding c4_def by (simp_all add: upd_links(3,4) [OF r3(2)] l3)
  have "NBUF \<noteq> b" using assms(2) by simp
  then have e4: "nx c4 NBUF = f" unfolding l4(1) f_def by (rule fun_upd_other)
  have r5: "f < length (bufs c4)" using len assms(6) by (simp add: f_def)
  have l5: "nx c5 = (nx c)(pv c b := nx c b, b := f)" "pv c5 = (pv c)(nx c b := pv c b, b := NBUF, f := b)"
    unfolding c5_def e4 by (simp_all add: upd_links(3,4) [OF r5] l4)
  have r6: "NBUF < length (bufs c5)" using len by simp
  show "nx (move_to_front b c) = ((nx c)(pv c b := nx c b, b := ((nx c)(pv c b := nx c b)) NBUF))(NBUF := b)"
    "pv (move_to_front b c) = (pv c)(nx c b := pv c b, b := NBUF, ((nx c)(pv c b := nx c b)) NBUF := b)"
    unfolding fin f_def [symmetric] by (simp_all add: upd_links(1,2) [OF r6] l5)
qed

lemma path_mem: "path f a xs c \<Longrightarrow> i < length xs \<Longrightarrow> f ((a # xs) ! i) = xs ! i"
  by (induction xs arbitrary: a i) (auto simp: nth_Cons split: nat.splits)

lemma linked_neighbours:
  assumes "linked c (as @ b # cs)"
  shows "pv c b = last (NBUF # as)" and "nx c b = last (NBUF # rev cs)"
    and "((nx c)(pv c b := nx c b)) NBUF = last (NBUF # rev (as @ cs))"
proof -
  have n: "path (nx c) NBUF as b" "path (nx c) b cs NBUF" and p: "path (pv c) NBUF (rev cs) b" "path (pv c) b (rev as) NBUF"
    and d: "distinct (as @ b # cs)" and s: "set (as @ b # cs) = {..<NBUF}"
    using assms by (auto simp: linked_def path_append)
  show pb: "pv c b = last (NBUF # as)" using p(2) by (cases as rule: rev_cases) auto
  show nb: "nx c b = last (NBUF # rev cs)" using n(2) by (cases cs) auto
  show "((nx c)(pv c b := nx c b)) NBUF = last (NBUF # rev (as @ cs))"
  proof (cases as)
    case Nil
    then show ?thesis using pb nb by simp
  next
    case (Cons a as')
    have "last (NBUF # as) = last as" using Cons by simp
    moreover have "last as \<in> set as" using Cons by (intro last_in_set) simp
    then have "last as \<in> {..<NBUF}" unfolding s [symmetric] by simp
    ultimately have "last (NBUF # as) \<noteq> NBUF" by simp
    then show ?thesis using pb n(1) Cons by simp
  qed
qed

lemma move_to_front_linked:
  assumes "linked c (as @ b # cs)"
  shows "linked (move_to_front b c) (b # as @ cs)"
proof -
  note N = linked_neighbours [OF assms]
  have d: "distinct (NBUF # as @ b # cs)" and s: "set (as @ b # cs) = {..<NBUF}" and len: "length (bufs c) = NBUF + 1"
    and P: "path (nx c) NBUF (as @ b # cs) NBUF" "path (pv c) NBUF (rev cs @ b # rev as) NBUF"
    using assms by (auto simp: linked_def)
  have mem: "last (NBUF # as) \<in> insert NBUF (set as)" "last (NBUF # rev cs) \<in> insert NBUF (set cs)"
    "last (NBUF # rev (as @ cs)) \<in> insert NBUF (set as \<union> set cs)"
    using last_in_set [of "NBUF # as"] last_in_set [of "NBUF # rev cs"] last_in_set [of "NBUF # rev (as @ cs)"]
    by (auto simp del: last.simps)
  have "b \<in> {..<NBUF}" unfolding s [symmetric] by simp
  then have b: "b < NBUF" by simp
  have sub: "set as \<subseteq> {..<NBUF}" "set cs \<subseteq> {..<NBUF}" unfolding s [symmetric] by auto
  have bnd: "nx c b \<le> NBUF" "pv c b \<le> NBUF" "((nx c)(pv c b := nx c b)) NBUF \<le> NBUF"
    using N mem sub by (auto simp del: last.simps dest: less_imp_le subsetD)
  have nb: "nx c b \<noteq> b" using N(2) mem(2) d by auto
  note L = move_links [OF len b bnd(1,2) nb bnd(3)]
  let ?n = "(nx c)(pv c b := nx c b)" and ?p = "(pv c)(nx c b := pv c b)" and ?f = "((nx c)(pv c b := nx c b)) NBUF"
  have un: "path ?n NBUF (as @ cs) NBUF" using path_unlink [OF P(1) d] N(1) by simp
  have dr: "distinct (NBUF # rev cs @ b # rev as)" using d by auto
  have up: "path ?p NBUF (rev cs @ rev as) NBUF" using path_unlink [OF P(2) dr] N(2) by simp
  have bn: "b \<notin> set (NBUF # as @ cs)" using d by auto
  have "path (nx (move_to_front b c)) NBUF (b # as @ cs) NBUF"
  proof (cases "as @ cs")
    case Nil
    then show ?thesis using un L(1) b by simp
  next
    case (Cons x ys)
    have "NBUF \<notin> set (x # ys)" "b \<notin> set (x # ys)" using d Cons [symmetric] by auto
    then show ?thesis using un L(1) b unfolding Cons by (simp add: path_upd)
  qed
  moreover have "path (pv (move_to_front b c)) NBUF (rev (b # as @ cs)) NBUF"
  proof -
    define g where "g = last (NBUF # rev (as @ cs))"
    have "path (?p(b := NBUF)) NBUF (rev (as @ cs)) NBUF" using up bn by (simp add: path_upd)
    moreover have "distinct (NBUF # rev (as @ cs))" using d by auto
    ultimately have 1: "path (?p(b := NBUF, g := b)) NBUF (rev (as @ cs)) b"
      unfolding g_def by (rule path_redirect)
    have "b \<noteq> g" using mem(3) bn unfolding g_def by auto
    moreover have "pv (move_to_front b c) = ?p(b := NBUF, g := b)" unfolding L(2) N(3) g_def [symmetric] by (rule refl)
    moreover have "rev (b # as @ cs) = rev (as @ cs) @ b # []" by simp
    ultimately show ?thesis using 1 by (simp only: path_append) simp
  qed
  moreover have "length (bufs (move_to_front b c)) = NBUF + 1" using len by (simp add: move_to_front_def Let_def)
  ultimately show ?thesis using d s by (auto simp: linked_def)
qed

lemma scan_path:
  assumes "path (\<lambda>i. link (bf c i)) a xs NBUF" and "NBUF \<notin> set xs" and "length xs < n"
  shows "scan_bufs n link P c (link (bf c a)) = Inr (find (\<lambda>i. P (bf c i)) xs)"
  using assms
proof (induction xs arbitrary: a n)
  case Nil
  then show ?case by (cases n) auto
next
  case (Cons x xs)
  from Cons.prems(3) obtain m where n: "n = Suc m" "length xs < m" by (cases n) auto
  have "scan_bufs m link P c (link (bf c x)) = Inr (find (\<lambda>i. P (bf c i)) xs)"
    using Cons.prems n(2) by (intro Cons.IH) auto
  then show ?case using Cons.prems n(1) by auto
qed

lemma linked_len: "linked c xs \<Longrightarrow> length xs = NBUF"
  by (metis card_lessThan distinct_card linked_def)

lemma linked_mem: "linked c xs \<Longrightarrow> i \<in> set xs \<longleftrightarrow> i < NBUF"
  by (simp add: linked_def)

lemma scan_next:
  assumes "linked c xs"
  shows "scan_bufs (NBUF + 1) b_next P c (b_next (bf c NBUF)) = Inr (find (\<lambda>i. P (bf c i)) xs)"
  using assms linked_len [OF assms] by (intro scan_path) (auto simp: linked_def nx_def [abs_def])

lemma scan_prev:
  assumes "linked c xs"
  shows "scan_bufs (NBUF + 1) b_prev P c (b_prev (bf c NBUF)) = Inr (find (\<lambda>i. P (bf c i)) (rev xs))"
  using assms linked_len [OF assms] by (intro scan_path) (auto simp: linked_def pv_def [abs_def])

text \<open>Updates of a buffer that leave the links alone.\<close>

lemma linked_upd:
  assumes "linked c xs" and "i < NBUF" and "\<And>x. b_next (f x) = b_next x" and "\<And>x. b_prev (f x) = b_prev x"
  shows "linked (upd_buf i f c) xs"
proof -
  have "nx (upd_buf i f c) = nx c" "pv (upd_buf i f c) = pv c"
    using assms by (auto simp: nx_def pv_def fun_eq_iff upd_buf_nth linked_def)
  then show ?thesis using assms(1) by (simp add: linked_def)
qed

section \<open>The cache as a view of the disk\<close>

text \<open>
  The contents of a block: those of its buffer when it has a valid one, and those on the disk
  otherwise.
\<close>

definition holds :: "buf \<Rightarrow> uint \<times> uint \<Rightarrow> bool" where
  "holds b key \<longleftrightarrow> (b_dev b, b_blockno b) = key"

definition view :: "bcache \<Rightarrow> uint \<times> uint \<Rightarrow> bytes" where
  "view c key = (case find_idx (\<lambda>b. b_valid b \<and> holds b key) (take NBUF (bufs c)) of
     Some i \<Rightarrow> b_data (bf c i) | None \<Rightarrow> ddisk c key)"

text \<open>
  The invariant: the list links all buffers; no block has two buffers (device 0 marks a buffer that
  was never used); a buffer nobody references is unlocked and, when valid, has the contents of the disk.
\<close>

definition wf_buf :: "bcache \<Rightarrow> buf \<Rightarrow> bool" where
  "wf_buf c b \<longleftrightarrow> (b_valid b \<longrightarrow> b_dev b \<noteq> 0) \<and>
     (b_refcnt b = 0 \<longrightarrow> \<not> slk_locked (b_lock b) \<and> (b_valid b \<longrightarrow> b_data b = ddisk c (b_dev b, b_blockno b)))"

definition wf_bcache :: "bcache \<Rightarrow> nat list \<Rightarrow> bool" where
  "wf_bcache c xs \<longleftrightarrow> linked c xs \<and> (\<forall>i<NBUF. wf_buf c (bf c i)) \<and>
     (\<forall>i<NBUF. \<forall>j<NBUF. b_dev (bf c i) \<noteq> 0 \<and> holds (bf c j) (b_dev (bf c i), b_blockno (bf c i)) \<longrightarrow> i = j)"

lemma upd_buf_upd: "upd_buf i f (upd_buf i g c) = upd_buf i (\<lambda>x. f (g x)) c" if "i < length (bufs c)"
  using that by (simp add: upd_buf_def)

lemma view_eqI:
  assumes "length (bufs c) = NBUF + 1"
    and "\<And>i. i < NBUF \<Longrightarrow> b_valid (bf c i) \<Longrightarrow> holds (bf c i) key \<Longrightarrow> b_data (bf c i) = v"
    and "\<not> (\<exists>i<NBUF. b_valid (bf c i) \<and> holds (bf c i) key) \<Longrightarrow> ddisk c key = v"
  shows "view c key = v"
proof (cases "find_idx (\<lambda>b. b_valid b \<and> holds b key) (take NBUF (bufs c))")
  case None
  have "\<not> (b_valid (bf c i) \<and> holds (bf c i) key)" if "i < NBUF" for i
  proof -
    have "take NBUF (bufs c) ! i \<in> set (take NBUF (bufs c))" using that assms(1) by (intro nth_mem) simp
    then show ?thesis using None that by (auto simp: find_idx_None)
  qed
  then show ?thesis using None assms(3) by (auto simp: view_def)
next
  case (Some i)
  then have i: "i < NBUF" and "b_valid (take NBUF (bufs c) ! i) \<and> holds (take NBUF (bufs c) ! i) key"
    unfolding find_idx_Some by auto
  then have "b_valid (bf c i) \<and> holds (bf c i) key" unfolding nth_take [OF i] by blast
  then have "i < NBUF \<and> b_valid (bf c i) \<and> holds (bf c i) key" using i by blast
  then show ?thesis using Some assms(2) by (simp add: view_def)
qed

lemma wf_bcacheD:
  assumes "wf_bcache c xs"
  shows "linked c xs" "length (bufs c) = NBUF + 1" "i < NBUF \<Longrightarrow> wf_buf c (bf c i)"
    "i < NBUF \<Longrightarrow> j < NBUF \<Longrightarrow> b_dev (bf c i) \<noteq> 0 \<Longrightarrow> holds (bf c j) (b_dev (bf c i), b_blockno (bf c i)) \<Longrightarrow> i = j"
  using assms by (auto simp: wf_bcache_def linked_def)

lemma view_cached:
  assumes "wf_bcache c xs" and "i < NBUF" and "b_valid (bf c i)" and "holds (bf c i) key"
  shows "view c key = b_data (bf c i)"
proof (rule view_eqI)
  show "length (bufs c) = NBUF + 1" by (rule wf_bcacheD [OF assms(1)])
  fix j assume "j < NBUF" "b_valid (bf c j)" "holds (bf c j) key"
  then have "i = j" using assms wf_bcacheD(3,4) [OF assms(1)] by (auto simp: holds_def wf_buf_def)
  then show "b_data (bf c j) = b_data (bf c i)" by simp
qed (use assms in auto)

lemma view_uncached:
  assumes "wf_bcache c xs" and "\<And>i. i < NBUF \<Longrightarrow> b_valid (bf c i) \<Longrightarrow> \<not> holds (bf c i) key"
  shows "view c key = ddisk c key"
  by (rule view_eqI) (use assms wf_bcacheD(2) [OF assms(1)] in auto)

text \<open>The state of a buffer after \<open>bread\<close>, and what taking it in that state does to the cache.\<close>

definition taken :: "int \<Rightarrow> uint \<Rightarrow> uint \<Rightarrow> uint \<Rightarrow> bytes \<Rightarrow> buf \<Rightarrow> buf" where
  "taken me dev blockno r d x =
     x\<lparr>b_valid := True, b_dev := dev, b_blockno := blockno, b_lock := \<lparr>slk_locked = True, slk_pid = me\<rparr>, b_refcnt := r, b_data := d\<rparr>"

lemma taken_wf:
  assumes W: "wf_bcache c xs" and b: "b < NBUF" and dev: "dev \<noteq> 0" and r: "r \<noteq> 0" and d: "d = view c (dev, blockno)"
    and own: "holds (bf c b) (dev, blockno) \<or>
      b_refcnt (bf c b) = 0 \<and> \<not> (\<exists>i<NBUF. holds (bf c i) (dev, blockno))"
  shows "wf_bcache (upd_buf b (taken me dev blockno r d) c) xs"
    and "view (upd_buf b (taken me dev blockno r d) c) = view c"
proof -
  let ?c = "upd_buf b (taken me dev blockno r d) c"
  note D = wf_bcacheD [OF W]
  have nth: "bf ?c i = (if i = b then taken me dev blockno r d (bf c b) else bf c i)" for i
    using b D(2) by (simp add: upd_buf_nth)
  have others: "\<not> holds (bf c i) (dev, blockno)" if "i < NBUF" "i \<noteq> b" for i
  proof
    assume h: "holds (bf c i) (dev, blockno)"
    with own that have "holds (bf c b) (dev, blockno)" by blast
    then have "b = i" using D(4) [OF b that(1)] dev h by (simp add: holds_def)
    with that show False by simp
  qed
  have l: "linked ?c xs" by (rule linked_upd [OF D(1) b]) (simp_all add: taken_def)
  have w: "wf_buf ?c (bf ?c i)" if "i < NBUF" for i
    using D(3) [OF that] dev r by (auto simp: nth wf_buf_def taken_def)
  have u: "i = j" if "i < NBUF" "j < NBUF" "b_dev (bf ?c i) \<noteq> 0"
    "holds (bf ?c j) (b_dev (bf ?c i), b_blockno (bf ?c i))" for i j
  proof (cases "i = b")
    case True
    then have "holds (bf ?c j) (dev, blockno)" using that(4) by (simp add: nth taken_def)
    then show ?thesis using True others [OF that(2)] by (cases "j = b") (simp_all add: nth)
  next
    case i: False
    then have hi: "b_dev (bf c i) \<noteq> 0" "holds (bf ?c j) (b_dev (bf c i), b_blockno (bf c i))" using that(3,4) by (simp_all add: nth)
    show ?thesis
    proof (cases "j = b")
      case True
      then have "holds (bf c i) (dev, blockno)" using hi(2) by (simp add: nth taken_def holds_def)
      then show ?thesis using others [OF that(1) i] by simp
    next
      case False
      then show ?thesis using D(4) [OF that(1,2) hi(1)] hi(2) by (simp add: nth)
    qed
  qed
  show "wf_bcache ?c xs" using l w u by (auto simp: wf_bcache_def)
  show "view ?c = view c"
  proof
    fix key
    show "view ?c key = view c key"
    proof (rule view_eqI)
      show "length (bufs ?c) = NBUF + 1" using D(2) by simp
    next
      fix i assume i: "i < NBUF" "b_valid (bf ?c i)" "holds (bf ?c i) key"
      show "b_data (bf ?c i) = view c key"
      proof (cases "i = b")
        case True
        then have "key = (dev, blockno)" using i(3) by (simp add: nth holds_def taken_def)
        then show ?thesis using True nth [of b] d by (simp add: taken_def)
      next
        case False
        then have "b_valid (bf c i)" "holds (bf c i) key" using i(2,3) by (simp_all add: nth)
        then show ?thesis using False i(1) view_cached [OF W i(1)] by (simp add: nth)
      qed
    next
      assume no: "\<not> (\<exists>i<NBUF. b_valid (bf ?c i) \<and> holds (bf ?c i) key)"
      have "\<not> (b_valid (bf ?c b) \<and> holds (bf ?c b) key)" using no b by blast
      then have key: "key \<noteq> (dev, blockno)" using nth [of b] by (auto simp: holds_def taken_def)
      show "ddisk ?c key = view c key"
      proof (cases "b_valid (bf c b) \<and> holds (bf c b) key")
        case True
        then have "b_refcnt (bf c b) = 0" using own key by (auto simp: holds_def)
        then have "b_data (bf c b) = ddisk c key" using D(3) [OF b] True by (auto simp: wf_buf_def holds_def)
        then show ?thesis using True view_cached [OF W b] by simp
      next
        case False
        have "\<not> holds (bf c i) key" if "i < NBUF" "b_valid (bf c i)" for i
        proof (cases "i = b")
          case True
          then show ?thesis using False that by simp
        next
          case f: False
          then have "bf ?c i = bf c i" by (simp add: nth)
          then show ?thesis using no that by metis
        qed
        then show ?thesis using view_uncached [OF W] by simp
      qed
    qed
  qed
qed

section \<open>Reading a block\<close>

text \<open>
  A process may take the buffer of a block when the block is cached in an unlocked buffer whose count does not
  overflow, or is not cached and some buffer is free.
\<close>

definition available :: "bcache \<Rightarrow> uint \<times> uint \<Rightarrow> bool" where
  "available c key \<longleftrightarrow>
     (\<forall>i<NBUF. holds (bf c i) key \<longrightarrow> \<not> slk_locked (b_lock (bf c i)) \<and> b_refcnt (bf c i) + 1 \<noteq> 0) \<and>
     (\<exists>i<NBUF. holds (bf c i) key \<or> b_refcnt (bf c i) = 0)"

lemma find_SomeD: "find P xs = Some x \<Longrightarrow> x \<in> set xs \<and> P x"
  by (induction xs) (auto split: if_splits)

lemma lock_free: "\<not> slk_locked lk \<Longrightarrow> acquiresleep me lk = Inr \<lparr>slk_locked = True, slk_pid = me\<rparr>"
  by (simp add: acquiresleep_def)

lemma bread_taken:
  assumes W: "wf_bcache c xs" and b: "b < NBUF" and get: "bget me dev blockno c = Inr (upd_buf b g c, b)"
    and g: "b_lock (g (bf c b)) = \<lparr>slk_locked = True, slk_pid = me\<rparr>" "b_refcnt (g (bf c b)) = r"
      "b_dev (g (bf c b)) = dev" "b_blockno (g (bf c b)) = blockno"
      "b_next (g (bf c b)) = b_next (bf c b)" "b_prev (g (bf c b)) = b_prev (bf c b)"
    and v: "if b_valid (g (bf c b)) then b_data (g (bf c b)) = view c (dev, blockno) else ddisk c (dev, blockno) = view c (dev, blockno)"
  shows "bread me dev blockno c = Inr (upd_buf b (taken me dev blockno r (view c (dev, blockno))) c, b)"
proof -
  have len: "b < length (bufs c)" using b wf_bcacheD(2) [OF W] by simp
  have eq: "upd_buf b f c = upd_buf b h c" if "f (bf c b) = h (bf c b)" for f h using that by (simp add: upd_buf_def)
  have nth: "bf (upd_buf b g c) b = g (bf c b)" by (simp add: upd_buf_nth [OF len])
  show ?thesis
  proof (cases "b_valid (g (bf c b))")
    case True
    then have "g (bf c b) = taken me dev blockno r (view c (dev, blockno)) (bf c b)"
      using g v by (intro buf.equality) (simp_all add: taken_def)
    then have "upd_buf b g c = upd_buf b (taken me dev blockno r (view c (dev, blockno))) c" by (rule eq)
    then show ?thesis by (simp add: bread_def get upd_buf_nth [OF len] taken_def)
  next
    case False
    then have "(g (bf c b))\<lparr>b_data := ddisk c (dev, blockno), b_valid := True\<rparr> = taken me dev blockno r (view c (dev, blockno)) (bf c b)"
      using g v by (intro buf.equality) (simp_all add: taken_def)
    then have "upd_buf b (\<lambda>x. (g x)\<lparr>b_data := ddisk c (b_dev (g x), b_blockno (g x)), b_valid := True\<rparr>) c =
      upd_buf b (taken me dev blockno r (view c (dev, blockno))) c" using g(3,4) by (intro eq) simp
    then show ?thesis using False by (simp add: bread_def get nth virtio_disk_rw_def upd_buf_upd [OF len])
  qed
qed

lemma bread_hit:
  assumes W: "wf_bcache c xs" and A: "available c (dev, blockno)"
    and f: "find (\<lambda>i. holds (bf c i) (dev, blockno)) xs = Some b"
  shows "bread me dev blockno c = Inr (upd_buf b (taken me dev blockno (b_refcnt (bf c b) + 1) (view c (dev, blockno))) c, b)"
proof -
  note D = wf_bcacheD [OF W]
  have b: "b < NBUF" "holds (bf c b) (dev, blockno)" using find_SomeD [OF f] linked_mem [OF D(1)] by simp_all
  have free: "\<not> slk_locked (b_lock (bf c b))" using A b by (simp add: available_def)
  let ?g = "\<lambda>x. x\<lparr>b_refcnt := b_refcnt x + 1, b_lock := \<lparr>slk_locked = True, slk_pid = me\<rparr>\<rparr>"
  have len: "b < length (bufs c)" using b(1) D(2) by simp
  have scan: "scan_bufs (NBUF + 1) b_next (\<lambda>b. b_dev b = dev \<and> b_blockno b = blockno) c (b_next (bf c NBUF)) = Inr (Some b)"
    using scan_next [OF D(1), of "\<lambda>b. b_dev b = dev \<and> b_blockno b = blockno"] f by (simp add: holds_def)
  have get: "bget me dev blockno c = Inr (upd_buf b ?g c, b)"
    unfolding bget_def scan by (simp add: lock_buf_def upd_buf_nth [OF len] lock_free [OF free] upd_buf_upd [OF len])
  have "if b_valid (?g (bf c b)) then b_data (?g (bf c b)) = view c (dev, blockno) else ddisk c (dev, blockno) = view c (dev, blockno)"
  proof (cases "b_valid (bf c b)")
    case True
    then show ?thesis using view_cached [OF W b(1) True b(2)] by simp
  next
    case False
    have "\<not> holds (bf c i) (dev, blockno)" if "i < NBUF" "b_valid (bf c i)" for i
    proof
      assume "holds (bf c i) (dev, blockno)"
      then have "i = b" using D(4) [OF that(1) b(1)] b(2) D(3) [OF that(1)] that(2) by (simp add: holds_def wf_buf_def)
      then show False using False that by simp
    qed
    then show ?thesis using False view_uncached [OF W] by simp
  qed
  then show ?thesis using b by (intro bread_taken [OF W b(1) get]) (simp_all add: holds_def)
qed

lemma bread_miss:
  assumes W: "wf_bcache c xs" and f: "find (\<lambda>i. holds (bf c i) (dev, blockno)) xs = None"
    and u: "find (\<lambda>i. b_refcnt (bf c i) = 0) (rev xs) = Some b"
  shows "bread me dev blockno c = Inr (upd_buf b (taken me dev blockno 1 (view c (dev, blockno))) c, b)"
proof -
  note D = wf_bcacheD [OF W]
  have b: "b < NBUF" "b_refcnt (bf c b) = 0" using find_SomeD [OF u] linked_mem [OF D(1)] by simp_all
  have free: "\<not> slk_locked (b_lock (bf c b))" using D(3) [OF b(1)] b(2) by (simp add: wf_buf_def)
  let ?g = "\<lambda>x. x\<lparr>b_dev := dev, b_blockno := blockno, b_valid := False, b_refcnt := 1, b_lock := \<lparr>slk_locked = True, slk_pid = me\<rparr>\<rparr>"
  have len: "b < length (bufs c)" using b(1) D(2) by simp
  have scan: "scan_bufs (NBUF + 1) b_next (\<lambda>b. b_dev b = dev \<and> b_blockno b = blockno) c (b_next (bf c NBUF)) = Inr None"
    using scan_next [OF D(1), of "\<lambda>b. b_dev b = dev \<and> b_blockno b = blockno"] f by (simp add: holds_def)
  have scan2: "scan_bufs (NBUF + 1) b_prev (\<lambda>b. b_refcnt b = 0) c (b_prev (bf c NBUF)) = Inr (Some b)"
    using scan_prev [OF D(1), of "\<lambda>b. b_refcnt b = 0"] u by simp
  have get: "bget me dev blockno c = Inr (upd_buf b ?g c, b)"
    unfolding bget_def scan scan2 by (simp add: scan2 lock_buf_def upd_buf_nth [OF len] lock_free [OF free] upd_buf_upd [OF len])
  have "\<not> holds (bf c i) (dev, blockno)" if "i < NBUF" for i
    using f that linked_mem [OF D(1)] by (auto simp: find_None_iff)
  then have "ddisk c (dev, blockno) = view c (dev, blockno)" using view_uncached [OF W] by simp
  then show ?thesis using b by (intro bread_taken [OF W b(1) get]) simp_all
qed

lemma find_rev: "find P (rev xs) = Some b \<Longrightarrow> b = last (filter P xs)"
  by (induction xs rule: rev_induct) (auto split: if_splits)

text \<open>
  C4. \<open>bread\<close> refines the view: it returns the buffer of the requested block, locked by the caller and with
  the contents of the block, keeps the invariant and the contents of every block; and when the
  block was not cached, it recycles the unused buffer that was released longest ago.
\<close>

theorem bread_returns_view:
  assumes "wf_bcache c xs" and "dev \<noteq> 0" and "available c (dev, blockno)"
  shows "\<exists>c' b. bread me dev blockno c = Inr (c', b) \<and> b < NBUF \<and> holds (bf c' b) (dev, blockno) \<and>
    b_data (bf c' b) = view c (dev, blockno) \<and> holdingsleep me (b_lock (bf c' b)) \<and>
    wf_bcache c' xs \<and> view c' = view c \<and>
    ((\<exists>i<NBUF. holds (bf c i) (dev, blockno)) \<or> b = last (filter (\<lambda>i. b_refcnt (bf c i) = 0) xs))"
proof -
  note D = wf_bcacheD [OF assms(1)]
  define v where "v = view c (dev, blockno)"
  have fin: ?thesis if "bread me dev blockno c = Inr (upd_buf b (taken me dev blockno r v) c, b)" "b < NBUF" "r \<noteq> 0"
    "holds (bf c b) (dev, blockno) \<or> b_refcnt (bf c b) = 0 \<and> \<not> (\<exists>i<NBUF. holds (bf c i) (dev, blockno))"
    "holds (bf c b) (dev, blockno) \<or> b = last (filter (\<lambda>i. b_refcnt (bf c i) = 0) xs)" for b r
  proof -
    have "bf (upd_buf b (taken me dev blockno r v) c) b = taken me dev blockno r v (bf c b)"
      using that(2) D(2) by (simp add: upd_buf_nth)
    then have "holds (bf (upd_buf b (taken me dev blockno r v) c) b) (dev, blockno) \<and>
      b_data (bf (upd_buf b (taken me dev blockno r v) c) b) = v \<and>
      holdingsleep me (b_lock (bf (upd_buf b (taken me dev blockno r v) c) b))"
      by (simp add: taken_def holds_def holdingsleep_def)
    then show ?thesis using taken_wf [OF assms(1) that(2) assms(2) that(3) v_def that(4)] that(1,2,5) v_def by blast
  qed
  show ?thesis
  proof (cases "find (\<lambda>i. holds (bf c i) (dev, blockno)) xs")
    case (Some b)
    have b: "b < NBUF" "holds (bf c b) (dev, blockno)" using find_SomeD [OF Some] linked_mem [OF D(1)] by simp_all
    then have "b_refcnt (bf c b) + 1 \<noteq> 0" using assms(3) by (simp add: available_def)
    then show ?thesis using fin bread_hit [OF assms(1,3) Some] b v_def by blast
  next
    case None
    then have no: "\<not> (\<exists>i<NBUF. holds (bf c i) (dev, blockno))" using linked_mem [OF D(1)] by (auto simp: find_None_iff)
    then obtain i where "i < NBUF" "b_refcnt (bf c i) = 0" using assms(3) by (auto simp: available_def)
    then have "find (\<lambda>i. b_refcnt (bf c i) = 0) (rev xs) \<noteq> None" using linked_mem [OF D(1)] by (auto simp: find_None_iff)
    then obtain b where b: "find (\<lambda>i. b_refcnt (bf c i) = 0) (rev xs) = Some b" by blast
    have "b < NBUF" "b_refcnt (bf c b) = 0" using find_SomeD [OF b] linked_mem [OF D(1)] by simp_all
    then show ?thesis using fin [OF bread_miss [OF assms(1) None b, folded v_def] _ one_neq_zero] no find_rev [OF b] by blast
  qed
qed

section \<open>Writing and releasing a block\<close>

text \<open>A buffer without its links, which is all that \<open>move_to_front\<close> leaves alone.\<close>

definition core :: "buf \<Rightarrow> buf" where
  "core x = x\<lparr>b_next := 0, b_prev := 0\<rparr>"

lemma core_sel:
  assumes "core x = core y"
  shows "b_valid x = b_valid y" "b_dev x = b_dev y" "b_blockno x = b_blockno y" "b_lock x = b_lock y"
    "b_refcnt x = b_refcnt y" "b_data x = b_data y"
  using arg_cong [OF assms, of b_valid] arg_cong [OF assms, of b_dev] arg_cong [OF assms, of b_blockno]
    arg_cong [OF assms, of b_lock] arg_cong [OF assms, of b_refcnt] arg_cong [OF assms, of b_data]
  by (simp_all add: core_def)

lemma core_upd_gen:
  assumes "core (f (bf c j)) = core (bf c j)"
  shows "core (bf (upd_buf j f c) i) = core (bf c i)"
proof (cases "j < length (bufs c)")
  case True
  then show ?thesis using assms by (simp add: upd_buf_nth)
next
  case False
  then show ?thesis by (simp add: upd_buf_def not_less list_update_beyond)
qed

lemma core_upd:
  "core (bf (upd_buf j (\<lambda>x. x\<lparr>b_next := v\<rparr>) c) i) = core (bf c i)"
  "core (bf (upd_buf j (\<lambda>x. x\<lparr>b_prev := v\<rparr>) c) i) = core (bf c i)"
  by (rule core_upd_gen, simp add: core_def)+

lemma move_to_front_bufs:
  "length (bufs (move_to_front b c)) = length (bufs c)" "ddisk (move_to_front b c) = ddisk c"
  "core (bf (move_to_front b c) i) = core (bf c i)"
  by (simp_all only: move_to_front_def Let_def core_upd length_upd_buf ddisk_upd_buf)

lemma wf_core:
  assumes "wf_bcache c xs" and "linked c' ys" and "ddisk c' = ddisk c" and "\<And>i. core (bf c' i) = core (bf c i)"
  shows "wf_bcache c' ys" and "view c' = view c"
proof -
  note C = core_sel [OF assms(4)] and D = wf_bcacheD [OF assms(1)]
  show "wf_bcache c' ys" using assms(1-3) by (simp add: wf_bcache_def wf_buf_def holds_def C)
  have len: "length (bufs c') = NBUF + 1" using assms(2) by (simp add: linked_def)
  show "view c' = view c"
  proof (rule ext, rule view_eqI)
    fix key i
    assume i: "i < NBUF" "b_valid (bf c' i)" "holds (bf c' i) key"
    then show "b_data (bf c' i) = view c key" using view_cached [OF assms(1) i(1), of key] by (simp add: C holds_def)
  next
    fix key
    assume "\<not> (\<exists>i<NBUF. b_valid (bf c' i) \<and> holds (bf c' i) key)"
    then have "view c key = ddisk c key" by (intro view_uncached [OF assms(1)]) (auto simp: C holds_def)
    then show "ddisk c' key = view c key" using assms(3) by simp
  qed (rule len)
qed

text \<open>Changes of the lock and the count of a buffer.\<close>

lemma wf_count:
  assumes "wf_bcache c xs" and b: "b < NBUF"
    and "r = 0 \<Longrightarrow> \<not> slk_locked lk \<and> b_data (bf c b) = ddisk c (b_dev (bf c b), b_blockno (bf c b))"
  shows "wf_bcache (upd_buf b (\<lambda>x. x\<lparr>b_lock := lk, b_refcnt := r\<rparr>) c) xs"
    and "view (upd_buf b (\<lambda>x. x\<lparr>b_lock := lk, b_refcnt := r\<rparr>) c) = view c"
proof -
  let ?c = "upd_buf b (\<lambda>x. x\<lparr>b_lock := lk, b_refcnt := r\<rparr>) c"
  note D = wf_bcacheD [OF assms(1)]
  have nth: "bf ?c i = (if i = b then (bf c b)\<lparr>b_lock := lk, b_refcnt := r\<rparr> else bf c i)" for i
    using b D(2) by (simp add: upd_buf_nth)
  have sel: "b_valid (bf ?c i) = b_valid (bf c i)" "b_dev (bf ?c i) = b_dev (bf c i)" "b_blockno (bf ?c i) = b_blockno (bf c i)"
    "b_data (bf ?c i) = b_data (bf c i)" for i by (simp_all add: nth)
  have l: "linked ?c xs" by (rule linked_upd [OF D(1) b]) simp_all
  have w: "wf_buf ?c (bf ?c i)" if "i < NBUF" for i
  proof (cases "i = b")
    case True
    then show ?thesis using D(3) [OF that] assms(3) by (simp add: nth wf_buf_def)
  next
    case False
    then show ?thesis using D(3) [OF that] by (simp add: nth wf_buf_def)
  qed
  show "wf_bcache ?c xs" using l w assms(1) by (simp add: wf_bcache_def holds_def sel)
  show "view ?c = view c"
  proof (rule ext, rule view_eqI)
    fix key i
    assume i: "i < NBUF" "b_valid (bf ?c i)" "holds (bf ?c i) key"
    then show "b_data (bf ?c i) = view c key" using view_cached [OF assms(1) i(1), of key] by (simp add: sel holds_def)
  next
    fix key
    assume "\<not> (\<exists>i<NBUF. b_valid (bf ?c i) \<and> holds (bf ?c i) key)"
    then have "view c key = ddisk c key" by (intro view_uncached [OF assms(1)]) (auto simp: sel holds_def)
    then show "ddisk ?c key = view c key" by simp
  qed (simp add: D(2))
qed

text \<open>
  Releasing a buffer changes no block; the last release of a buffer, which must have the contents of the
  disk by then, makes it the most recently used one and leaves the order of the others alone.
\<close>

theorem brelse_most_recent:
  assumes "wf_bcache c (as @ b # cs)" and "holdingsleep me (b_lock (bf c b))"
    and "b_refcnt (bf c b) = 1 \<Longrightarrow> b_data (bf c b) = ddisk c (b_dev (bf c b), b_blockno (bf c b))"
  shows "\<exists>c'. brelse me b c = Inr c' \<and> view c' = view c \<and> ddisk c' = ddisk c \<and>
    b_refcnt (bf c' b) = b_refcnt (bf c b) - 1 \<and> \<not> slk_locked (b_lock (bf c' b)) \<and>
    wf_bcache c' (if b_refcnt (bf c b) = 1 then b # as @ cs else as @ b # cs)"
proof -
  note D = wf_bcacheD [OF assms(1)]
  have b: "b < NBUF" using linked_mem [OF D(1), of b] by simp
  then have len: "b < length (bufs c)" using D(2) by simp
  define lk where "lk = releasesleep (b_lock (bf c b))"
  define r where "r = b_refcnt (bf c b) - 1"
  define c1 where "c1 = upd_buf b (\<lambda>x. x\<lparr>b_lock := lk, b_refcnt := r\<rparr>) c"
  have "upd_buf b (\<lambda>x. x\<lparr>b_refcnt := b_refcnt x - 1\<rparr>) (upd_buf b (\<lambda>x. x\<lparr>b_lock := releasesleep (b_lock x)\<rparr>) c) = c1"
    by (simp add: c1_def upd_buf_def len lk_def r_def)
  then have rel: "brelse me b c = (if r = 0 then Inr (move_to_front b c1) else Inr c1)"
    using assms(2) by (simp add: brelse_def Let_def c1_def upd_buf_nth [OF len])
  have nl: "\<not> slk_locked lk" by (simp add: lk_def releasesleep_def)
  have r0: "r = 0 \<longleftrightarrow> b_refcnt (bf c b) = 1" by (auto simp: r_def)
  have w: "wf_bcache c1 (as @ b # cs)" "view c1 = view c"
    using wf_count [OF assms(1) b, of r lk] assms(3) nl r0 unfolding c1_def by simp_all
  have c1: "bf c1 b = (bf c b)\<lparr>b_lock := lk, b_refcnt := r\<rparr>" "ddisk c1 = ddisk c" by (simp_all add: c1_def upd_buf_nth [OF len])
  show ?thesis
  proof (cases "r = 0")
    case True
    have "wf_bcache (move_to_front b c1) (b # as @ cs)" "view (move_to_front b c1) = view c1"
      using wf_core [OF w(1) move_to_front_linked [OF wf_bcacheD(1) [OF w(1)]] move_to_front_bufs(2,3)] by simp_all
    then show ?thesis using rel True r0 w(2) c1 nl core_sel(4,5) [OF move_to_front_bufs(3) [of b c1 b]] move_to_front_bufs(2) [of b c1]
      by (simp add: r_def)
  next
    case False
    then show ?thesis using rel r0 w c1 nl by (simp add: r_def)
  qed
qed

text \<open>
  Filling a buffer that is held and writing it with \<open>bwrite\<close> changes the block both for later readers and on
  the disk, and no other block.
\<close>

theorem bwrite_updates_block:
  assumes "wf_bcache c xs" and "b < NBUF" and "b_valid (bf c b)" and "b_refcnt (bf c b) \<noteq> 0"
    and "holdingsleep me (b_lock (bf c b))" and "key = (b_dev (bf c b), b_blockno (bf c b))"
  shows "\<exists>c'. bwrite me b (upd_buf b (\<lambda>x. x\<lparr>b_data := d\<rparr>) c) = Inr c' \<and> wf_bcache c' xs \<and>
    view c' = (view c)(key := d) \<and> ddisk c' = (ddisk c)(key := d)"
proof -
  note D = wf_bcacheD [OF assms(1)]
  have len: "b < length (bufs c)" using assms(2) D(2) by simp
  define c' where "c' = (upd_buf b (\<lambda>x. x\<lparr>b_data := d\<rparr>) c)\<lparr>ddisk := (ddisk c)(key := d)\<rparr>"
  have nth: "bf c' i = (if i = b then (bf c b)\<lparr>b_data := d\<rparr> else bf c i)" for i
    by (simp add: c'_def upd_buf_nth [OF len])
  have dev: "b_dev (bf c b) \<noteq> 0" using D(3) [OF assms(2)] assms(3) by (simp add: wf_buf_def)
  have other: "\<not> holds (bf c i) key" if "i < NBUF" "i \<noteq> b" for i using D(4) [OF assms(2) that(1) dev] that(2) assms(6) by auto
  have sel: "b_valid (bf c' i) = b_valid (bf c i)" "b_dev (bf c' i) = b_dev (bf c i)" "b_blockno (bf c' i) = b_blockno (bf c i)" for i
    by (simp_all add: nth)
  have "linked (upd_buf b (\<lambda>x. x\<lparr>b_data := d\<rparr>) c) xs" by (rule linked_upd [OF D(1) assms(2)]) simp_all
  moreover have "nx c' = nx (upd_buf b (\<lambda>x. x\<lparr>b_data := d\<rparr>) c)" "pv c' = pv (upd_buf b (\<lambda>x. x\<lparr>b_data := d\<rparr>) c)"
    by (simp_all add: c'_def nx_def pv_def fun_eq_iff)
  ultimately have l: "linked c' xs" by (simp add: linked_def) (simp add: c'_def)
  have w: "wf_buf c' (bf c' i)" if "i < NBUF" for i
  proof (cases "i = b")
    case True
    then show ?thesis using D(3) [OF that] assms(4) nth [of b] by (simp add: wf_buf_def)
  next
    case False
    then show ?thesis using D(3) [OF that] other [OF that] nth [of i] by (auto simp: wf_buf_def holds_def c'_def)
  qed
  have wf: "wf_bcache c' xs" using l w assms(1) by (simp add: wf_bcache_def holds_def sel)
  have "view c' k = ((view c)(key := d)) k" for k
  proof (rule view_eqI)
    show "length (bufs c') = NBUF + 1" by (rule wf_bcacheD(2) [OF wf])
  next
    fix i
    assume i: "i < NBUF" "b_valid (bf c' i)" "holds (bf c' i) k"
    then have h: "b_valid (bf c i)" "holds (bf c i) k" by (simp_all add: sel holds_def)
    show "b_data (bf c' i) = ((view c)(key := d)) k"
    proof (cases "i = b")
      case True
      then show ?thesis using h nth [of b] assms(6) by (simp add: holds_def)
    next
      case False
      then show ?thesis using other [OF i(1)] h view_cached [OF assms(1) i(1) h] nth [of i] by auto
    qed
  next
    assume no: "\<not> (\<exists>i<NBUF. b_valid (bf c' i) \<and> holds (bf c' i) k)"
    have "holds (bf c b) key" using assms(6) by (simp add: holds_def)
    then have "k \<noteq> key" using no assms(2,3) by (auto simp: sel holds_def)
    moreover have "view c k = ddisk c k" using no by (intro view_uncached [OF assms(1)]) (auto simp: sel holds_def)
    ultimately show "ddisk c' k = ((view c)(key := d)) k" by (simp add: c'_def)
  qed
  moreover have "bwrite me b (upd_buf b (\<lambda>x. x\<lparr>b_data := d\<rparr>) c) = Inr c'"
    using assms(5,6) by (simp add: bwrite_def virtio_disk_rw_def c'_def upd_buf_nth [OF len])
  ultimately show ?thesis using wf by (auto simp: c'_def)
qed

section \<open>The initial cache\<close>

definition zero_buf :: buf where
  "zero_buf = \<lparr>b_valid = False, b_dev = 0, b_blockno = 0, b_lock = \<lparr>slk_locked = False, slk_pid = 0\<rparr>, b_refcnt = 0,
     b_prev = 0, b_next = 0, b_data = replicate 1024 0\<rparr>"

definition zeroed :: "bcache \<Rightarrow> bool" where
  "zeroed c \<longleftrightarrow> length (bufs c) = NBUF + 1 \<and> (\<forall>i\<le>NBUF. core (bf c i) = zero_buf)"

lemma zeroed_upd:
  assumes "zeroed c" and "j \<le> NBUF" and "\<And>x. core x = zero_buf \<Longrightarrow> core (f x) = zero_buf"
  shows "zeroed (upd_buf j f c)"
proof -
  have "core (f (bf c j)) = core (bf c j)" using assms by (simp add: zeroed_def)
  from core_upd_gen [of f c j, OF this] show ?thesis using assms(1) by (simp add: zeroed_def)
qed

lemma binit_links:
  assumes "length (bufs c) = NBUF + 1" and "b < NBUF" and "nx c NBUF \<le> NBUF" and "nx c NBUF \<noteq> b"
  shows "nx (binit_step b c) = (nx c)(b := nx c NBUF, NBUF := b)"
    and "pv (binit_step b c) = (pv c)(b := NBUF, nx c NBUF := b)"
    and "zeroed c \<Longrightarrow> zeroed (binit_step b c)"
proof -
  define c1 where "c1 = upd_buf b (\<lambda>x. x\<lparr>b_next := nx c NBUF\<rparr>) c"
  define c2 where "c2 = upd_buf b (\<lambda>x. x\<lparr>b_prev := NBUF, b_lock := initsleeplock\<rparr>) c1"
  define c3 where "c3 = upd_buf (nx c2 NBUF) (\<lambda>x. x\<lparr>b_prev := b\<rparr>) c2"
  have fin: "binit_step b c = upd_buf NBUF (\<lambda>x. x\<lparr>b_next := b\<rparr>) c3"
    unfolding binit_step_def Let_def c3_def c2_def c1_def nx_def by (rule refl)
  have len: "length (bufs c1) = NBUF + 1" "length (bufs c2) = NBUF + 1" "length (bufs c3) = NBUF + 1"
    using assms(1) by (simp_all add: c1_def c2_def c3_def)
  have r: "b < length (bufs c)" "b < length (bufs c1)" "NBUF < length (bufs c3)" using assms(1,2) len by simp_all
  have l1: "nx c1 = (nx c)(b := nx c NBUF)" "pv c1 = pv c" unfolding c1_def by (simp_all add: upd_links(1,2) [OF r(1)])
  have l2: "nx c2 = nx c1" "pv c2 = (pv c1)(b := NBUF)"
    using r(2) by (auto simp: c2_def upd_buf_nth fun_eq_iff nx_def pv_def)
  have e: "nx c2 NBUF = nx c NBUF" using l1 l2 assms(2) by simp
  have r3: "nx c NBUF < length (bufs c2)" using len assms(3) by simp
  have l3: "nx c3 = nx c2" "pv c3 = (pv c2)(nx c NBUF := b)" unfolding c3_def e by (simp_all add: upd_links(3,4) [OF r3])
  show "nx (binit_step b c) = (nx c)(b := nx c NBUF, NBUF := b)" "pv (binit_step b c) = (pv c)(b := NBUF, nx c NBUF := b)"
    unfolding fin by (simp_all add: upd_links(1,2) [OF r(3)] l1 l2 l3)
  show "zeroed (binit_step b c)" if z: "zeroed c"
  proof -
    have "zeroed c1" unfolding c1_def using assms(2) by (intro zeroed_upd [OF z]) (simp_all add: core_def)
    then have "zeroed c2" unfolding c2_def
    proof (rule zeroed_upd)
      fix x assume "core x = zero_buf"
      then have "core (x\<lparr>b_prev := NBUF, b_lock := initsleeplock\<rparr>) = zero_buf\<lparr>b_lock := initsleeplock\<rparr>"
        by (simp add: core_def [abs_def] flip: \<open>core x = zero_buf\<close>)
      then show "core (x\<lparr>b_prev := NBUF, b_lock := initsleeplock\<rparr>) = zero_buf" by (simp add: zero_buf_def initsleeplock_def)
    qed (use assms(2) in simp)
    then have "zeroed c3" unfolding c3_def e using assms(3) by (intro zeroed_upd) (simp_all add: core_def)
    then show ?thesis unfolding fin by (intro zeroed_upd) (simp_all add: core_def)
  qed
qed

lemma binit_list:
  assumes "zeroed c" and "nx c NBUF = NBUF" and "pv c NBUF = NBUF" and "n \<le> NBUF"
  shows "zeroed (fold binit_step [0..<n] c) \<and> path (nx (fold binit_step [0..<n] c)) NBUF (rev [0..<n]) NBUF \<and>
    path (pv (fold binit_step [0..<n] c)) NBUF [0..<n] NBUF"
  using assms(4)
proof (induction n)
  case 0
  then show ?case using assms by simp
next
  case (Suc n)
  define d where "d = fold binit_step [0..<n] c"
  have IH: "zeroed d" "path (nx d) NBUF (rev [0..<n]) NBUF" "path (pv d) NBUF [0..<n] NBUF"
    using Suc by (simp_all add: d_def)
  have n: "n < NBUF" using Suc.prems by simp
  have len: "length (bufs d) = NBUF + 1" using IH(1) by (simp add: zeroed_def)
  have last: "nx d NBUF = last (NBUF # [0..<n])"
    using IH(2) by (cases n) simp_all
  have bnd: "nx d NBUF \<le> NBUF" "nx d NBUF \<noteq> n" using last n by (cases n; simp)+
  note S = binit_links [OF len n bnd]
  have "path ((nx d)(n := nx d NBUF, NBUF := n)) NBUF (n # rev [0..<n]) NBUF"
  proof (cases n)
    case 0
    then show ?thesis using n last by simp
  next
    case (Suc m)
    have "rev [0..<n] = m # rev [0..<m]" using Suc by simp
    moreover have "path (nx d) m (rev [0..<m]) NBUF" "nx d NBUF = m" using IH(2) Suc by simp_all
    ultimately show ?thesis using n Suc by (simp add: path_upd)
  qed
  moreover have "path ((pv d)(n := NBUF, nx d NBUF := n)) NBUF ([0..<n] @ [n]) NBUF"
  proof -
    have "path ((pv d)(n := NBUF)) NBUF [0..<n] NBUF" using IH(3) n by (simp add: path_upd)
    then have "path ((pv d)(n := NBUF, last (NBUF # [0..<n]) := n)) NBUF [0..<n] n" by (rule path_redirect) (use n in simp)
    then show ?thesis using last bnd(2) by (simp add: path_append)
  qed
  moreover have "fold binit_step [0..<Suc n] c = binit_step n d" "rev [0..<Suc n] = n # rev [0..<n]" "[0..<Suc n] = [0..<n] @ [n]"
    by (simp_all add: d_def)
  ultimately show ?case using S(3) [OF IH(1)] by (simp only: S(1,2))
qed

lemma binit_facts:
  assumes "zeroed c"
  shows "wf_bcache (binit c) (rev [0..<NBUF])" and "view (binit c) = ddisk c" and "ddisk (binit c) = ddisk c"
    and "i < NBUF \<Longrightarrow> core (bf (binit c) i) = core zero_buf"
proof -
  define d where "d = upd_buf NBUF (\<lambda>x. x\<lparr>b_prev := NBUF, b_next := NBUF\<rparr>) c"
  have z: "zeroed d" unfolding d_def by (rule zeroed_upd [OF assms]) (simp_all add: core_def)
  have h: "nx d NBUF = NBUF" "pv d NBUF = NBUF" using assms by (simp_all add: d_def nx_def pv_def upd_buf_nth zeroed_def)
  note B = binit_list [OF z h order_refl]
  have b: "binit c = fold binit_step [0..<NBUF] d" by (simp add: binit_def d_def)
  have dd: "ddisk (fold binit_step xs e) = ddisk e" for xs e
    by (induction xs arbitrary: e) (simp_all add: binit_step_def Let_def)
  have disk: "ddisk (binit c) = ddisk c" unfolding b dd by (simp add: d_def)
  have l: "linked (binit c) (rev [0..<NBUF])" using B by (auto simp: b linked_def zeroed_def)
  have z2: "core (bf (binit c) i) = zero_buf" if "i < NBUF" for i using B that by (simp add: b zeroed_def)
  have z3: "core (bf (binit c) i) = core zero_buf" if "i < NBUF" for i using z2 [OF that] by (simp add: core_def zero_buf_def)
  then show "i < NBUF \<Longrightarrow> core (bf (binit c) i) = core zero_buf" .
  from core_sel [OF z3] have sel: "i < NBUF \<Longrightarrow> b_valid (bf (binit c) i) = False" "i < NBUF \<Longrightarrow> b_dev (bf (binit c) i) = 0"
    "i < NBUF \<Longrightarrow> slk_locked (b_lock (bf (binit c) i)) = False" for i by (simp_all add: zero_buf_def)
  show w: "wf_bcache (binit c) (rev [0..<NBUF])" using l by (simp add: wf_bcache_def wf_buf_def sel)
  show "view (binit c) = ddisk c" using view_uncached [OF w] by (auto simp: sel disk)
  show "ddisk (binit c) = ddisk c" by (rule disk)
qed

text \<open>
  \<open>binit\<close> builds a well-formed cache from zeroed memory: all buffers are linked once in both
  directions, no block is cached, and every block reads as it is on the disk.
\<close>

theorem binit_wf:
  assumes "zeroed c"
  shows "wf_bcache (binit c) (rev [0..<NBUF]) \<and> view (binit c) = ddisk c"
  using binit_facts(1,2) [OF assms] by simp

section \<open>A sample cache\<close>

definition boot_cache :: bcache where
  "boot_cache = \<lparr>bufs = replicate (NBUF + 1) zero_buf, ddisk = (\<lambda>_. replicate 1024 7)\<rparr>"

lemma boot_zeroed: "zeroed boot_cache"
proof -
  have "bf boot_cache i = zero_buf" if "i \<le> NBUF" for i
    using that nth_replicate [of i "NBUF + 1" zero_buf] by (simp add: boot_cache_def del: replicate_Suc)
  moreover have "core zero_buf = zero_buf" by (simp add: core_def zero_buf_def)
  ultimately show ?thesis by (simp add: zeroed_def boot_cache_def)
qed

theorem binit_wf_witness: "wf_bcache (binit boot_cache) (rev [0..<NBUF]) \<and> view (binit boot_cache) = ddisk boot_cache"
  by (rule binit_wf [OF boot_zeroed])

text \<open>A cache with one buffer in use: process 3 has read block 5 of device 1 into buffer 0.\<close>

definition used_cache :: bcache where
  "used_cache = upd_buf 0 (taken 3 1 5 1 (replicate 1024 7)) (binit boot_cache)"

lemmas boot_facts = binit_facts [OF boot_zeroed]

lemma boot_sel:
  assumes "i < NBUF"
  shows "b_dev (bf (binit boot_cache) i) = 0" "b_refcnt (bf (binit boot_cache) i) = 0" "\<not> slk_locked (b_lock (bf (binit boot_cache) i))"
  using core_sel [OF boot_facts(4) [OF assms]] by (simp_all add: zero_buf_def)

lemma used_facts:
  "wf_bcache used_cache (rev [1..<NBUF] @ 0 # [])"
  "bf used_cache 0 = taken 3 1 5 1 (replicate 1024 7) (bf (binit boot_cache) 0)" "ddisk used_cache = (\<lambda>_. replicate 1024 7)"
proof -
  have v: "replicate 1024 7 = view (binit boot_cache) (1, 5)" unfolding boot_facts(2) by (simp add: boot_cache_def)
  have own: "b_refcnt (bf (binit boot_cache) 0) = 0 \<and> \<not> (\<exists>i<NBUF. holds (bf (binit boot_cache) i) (1, 5))"
    by (auto simp: holds_def boot_sel NBUF_def)
  have 0: "0 < NBUF" by (simp add: NBUF_def)
  have "rev [0..<NBUF] = rev [1..<NBUF] @ 0 # []" using upt_conv_Cons [OF 0] by simp
  then show "wf_bcache used_cache (rev [1..<NBUF] @ 0 # [])"
    using taken_wf(1) [OF boot_facts(1) 0 one_neq_zero one_neq_zero v disjI2 [OF own]] by (simp add: used_cache_def)
  have "length (bufs (binit boot_cache)) = NBUF + 1" by (rule wf_bcacheD(2) [OF boot_facts(1)])
  then show "bf used_cache 0 = taken 3 1 5 1 (replicate 1024 7) (bf (binit boot_cache) 0)"
    by (simp add: used_cache_def upd_buf_nth)
  show "ddisk used_cache = (\<lambda>_. replicate 1024 7)"
    unfolding used_cache_def ddisk_upd_buf boot_facts(3) by (simp add: boot_cache_def)
qed

theorem bread_returns_view_witness:
  "\<exists>c' b. bread 3 1 5 (binit boot_cache) = Inr (c', b) \<and> b < NBUF \<and> holds (bf c' b) (1, 5) \<and>
    b_data (bf c' b) = view (binit boot_cache) (1, 5) \<and> holdingsleep 3 (b_lock (bf c' b)) \<and>
    wf_bcache c' (rev [0..<NBUF]) \<and> view c' = view (binit boot_cache) \<and>
    ((\<exists>i<NBUF. holds (bf (binit boot_cache) i) (1, 5)) \<or>
      b = last (filter (\<lambda>i. b_refcnt (bf (binit boot_cache) i) = 0) (rev [0..<NBUF])))"
proof (rule bread_returns_view [OF boot_facts(1)])
  have "0 < NBUF" by (simp add: NBUF_def)
  then show "available (binit boot_cache) (1, 5)" using boot_sel by (auto simp: available_def holds_def)
qed simp

theorem brelse_most_recent_witness:
  "\<exists>c'. brelse 3 0 used_cache = Inr c' \<and> view c' = view used_cache \<and> ddisk c' = ddisk used_cache \<and>
    b_refcnt (bf c' 0) = b_refcnt (bf used_cache 0) - 1 \<and> \<not> slk_locked (b_lock (bf c' 0)) \<and>
    wf_bcache c' (if b_refcnt (bf used_cache 0) = 1 then 0 # rev [1..<NBUF] @ [] else rev [1..<NBUF] @ 0 # [])"
  by (rule brelse_most_recent [OF used_facts(1)]) (simp_all add: used_facts(2,3) taken_def holdingsleep_def)

theorem bwrite_updates_block_witness:
  "\<exists>c'. bwrite 3 0 (upd_buf 0 (\<lambda>x. x\<lparr>b_data := replicate 1024 9\<rparr>) used_cache) = Inr c' \<and>
    wf_bcache c' (rev [1..<NBUF] @ 0 # []) \<and>
    view c' = (view used_cache)((1, 5) := replicate 1024 9) \<and> ddisk c' = (ddisk used_cache)((1, 5) := replicate 1024 9)"
  by (rule bwrite_updates_block [OF used_facts(1)]) (simp_all add: used_facts(2) taken_def holdingsleep_def NBUF_def)

end
