(* ===== verification/Ring.thy ===== *)
theory Ring
  imports Prelude
begin

text \<open>
  Ring buffers with free-running counters of a fixed width: the pipes of \<open>kernel/pipe.c\<close> (\<open>nread\<close>, \<open>nwrite\<close>,
  \<open>PIPESIZE\<close>, 32 bits), the console input of \<open>kernel/console.c\<close> (\<open>r\<close>, \<open>e\<close>, \<open>INPUT_BUF_SIZE\<close>, 32 bits) and the two
  queues of \<open>kernel/virtio_disk.c\<close> (\<open>NUM\<close>, 16 bits). The counters are never reduced; an element is found at the counter
  modulo the size, so the size must divide \<open>2\<close> to the width of the counters for the ring to survive their wrap-around.
\<close>

definition ring_at :: "nat \<Rightarrow> 'a list \<Rightarrow> 'w::len word \<Rightarrow> 'a" where
  "ring_at N d i = d ! (unat i mod N)"

definition ring_list :: "nat \<Rightarrow> 'a list \<Rightarrow> 'w::len word \<Rightarrow> 'w word \<Rightarrow> 'a list" where
  "ring_list N d r w = map (\<lambda>j. ring_at N d (r + of_nat j)) [0..<unat (w - r)]"

lemma length_ring_list [simp]: "length (ring_list N d r w) = unat (w - r)"
  by (simp add: ring_list_def)

lemma ring_list_empty [simp]: "ring_list N d r r = []"
  by (simp add: ring_list_def)

locale ring =
  fixes N :: nat and W :: "'w::len itself"
  assumes size_pos: "0 < N"
    and size_dvd: "N dvd 2 ^ LENGTH('w)"
    and size_less: "N < 2 ^ LENGTH('w)"
begin

lemma index: "unat (r + of_nat j :: 'w word) mod N = (unat r + j) mod N"
proof -
  have "unat (r + of_nat j :: 'w word) = (unat r + j) mod 2 ^ LENGTH('w)"
    by (simp add: unat_word_ariths unat_of_nat mod_add_right_eq)
  then show ?thesis using size_dvd by (simp only: mod_mod_cancel)
qed

lemma index_le:
  assumes "i \<le> j" and "j < N" and "(x + i) mod N = (x + j) mod N"
  shows "i = j"
proof -
  have "N dvd (x + j) - (x + i)" using assms mod_eq_dvd_iff_nat [of "x + i" "x + j" N] by simp
  then have "N dvd j - i" by simp
  moreover have "j - i < N" using assms(2) by simp
  ultimately have "j - i = 0" using dvd_imp_le by fastforce
  then show ?thesis using assms(1) by simp
qed

lemma index_inj:
  assumes "i < N" and "j < N" and "unat (r + of_nat i :: 'w word) mod N = unat (r + of_nat j :: 'w word) mod N"
  shows "i = j"
  using assms index_le [of i j "unat r"] index_le [of j i "unat r"] by (cases "i \<le> j") (simp_all add: index)

lemma count_up:
  assumes "unat (w - r :: 'w word) < 2 ^ LENGTH('w) - 1"
  shows "unat (w + 1 - r) = Suc (unat (w - r))"
proof -
  have e: "w + 1 - r = (w - r) + 1" by simp
  have "unat ((w - r) + 1) = unat (w - r) + 1"
    using assms by (simp add: unat_word_ariths)
  then show ?thesis unfolding e by simp
qed

lemma count_down:
  assumes "w \<noteq> (r :: 'w word)"
  shows "unat (w - r) = Suc (unat (w - (r + 1)))" and "unat (w - r) = Suc (unat (w - 1 - r))"
proof -
  have "unat (w - r) \<noteq> 0" using assms by (simp add: unat_eq_0)
  then have m: "unat ((w - r) - 1) = unat (w - r) - 1"
    by (subst unat_sub) (simp_all add: word_le_nat_alt)
  have e: "w - (r + 1) = (w - r) - 1" "w - 1 - r = (w - r) - 1" by simp_all
  show "unat (w - r) = Suc (unat (w - (r + 1)))" "unat (w - r) = Suc (unat (w - 1 - r))"
    unfolding e m using \<open>unat (w - r) \<noteq> 0\<close> by simp_all
qed

text \<open>Append at the write counter, remove at the read counter, and take back the last element.\<close>

lemma put:
  assumes "length d = N" and "unat (w - r :: 'w word) < N"
  shows "ring_list N (d[unat w mod N := c]) r (w + 1) = ring_list N d r w @ [c]"
    and "unat (w + 1 - r) = Suc (unat (w - r))"
proof -
  have small: "unat (w - r) < 2 ^ LENGTH('w) - 1" using assms(2) size_less by simp
  show len: "unat (w + 1 - r) = Suc (unat (w - r))" using count_up [OF small] .
  have w: "w = r + of_nat (unat (w - r))" by simp
  have "ring_at N (d[unat w mod N := c]) (r + of_nat j) = ring_at N d (r + of_nat j)" if "j < unat (w - r)" for j
  proof -
    have "unat w mod N \<noteq> unat (r + of_nat j) mod N"
      using index_inj [of "unat (w - r)" j r] assms(2) that w by force
    then show ?thesis by (simp add: ring_at_def)
  qed
  moreover have "ring_at N (d[unat w mod N := c]) (r + of_nat (unat (w - r))) = c"
    using assms(1) size_pos by (simp add: ring_at_def)
  ultimately show "ring_list N (d[unat w mod N := c]) r (w + 1) = ring_list N d r w @ [c]"
    unfolding ring_list_def len by simp
qed

lemma get:
  assumes "(r :: 'w word) \<noteq> w"
  shows "ring_list N d r w = ring_at N d r # ring_list N d (r + 1) w"
proof -
  have "unat (w - r) = Suc (unat (w - (r + 1)))" using count_down(1) assms by metis
  then show ?thesis unfolding ring_list_def
    by (simp add: upt_conv_Cons map_Suc_upt [symmetric] add.assoc comp_def del: upt_Suc)
qed

lemma unput:
  assumes "(e :: 'w word) \<noteq> r"
  shows "ring_list N d r e = ring_list N d r (e - 1) @ [ring_at N d (e - 1)]"
proof -
  have len: "unat (e - r) = Suc (unat (e - 1 - r))" using count_down(2) assms by metis
  have "r + of_nat (unat (e - 1 - r)) = e - 1" by simp
  then show ?thesis unfolding ring_list_def len by simp
qed

end

end
