(* ===== verification/Virtio.thy ===== *)
theory Virtio
  imports Ring VmSpec
begin

text \<open>
  The disk driver of \<open>kernel/virtio_disk.c\<close> with the structures of \<open>kernel/virtio.h\<close>: the table of descriptors, the ring of available
  requests (written by the driver) and the ring of used ones (written by the device). The three memory pages they share are
  fields of \<open>vdisk\<close>; an address given to the device is the object it points to. A \<open>struct buf\<close> is a number. \<open>v_calls\<close> are
  the activations of \<open>virtio_disk_rw\<close> that wait for their buffer, with their local variables. The device is a parameter: a
  relation on states, about which only \<open>device_may\<close>, the contract of the virtio specification, is assumed.
\<close>

section \<open>Data\<close>

definition NUM :: nat where [hdr]: "NUM = 8"
definition VRING_DESC_F_NEXT :: "16 word" where [hdr]: "VRING_DESC_F_NEXT = 1"
definition VRING_DESC_F_WRITE :: "16 word" where [hdr]: "VRING_DESC_F_WRITE = 2"
definition VIRTIO_BLK_T_IN :: uint where [hdr]: "VIRTIO_BLK_T_IN = 0"
definition VIRTIO_BLK_T_OUT :: uint where [hdr]: "VIRTIO_BLK_T_OUT = 1"

datatype dma = NoAddr | OpAddr nat | DataAddr nat | StatusAddr nat

record virtq_desc =
  d_addr :: dma
  d_len :: uint
  d_flags :: "16 word"
  d_next :: "16 word"

record virtio_blk_req =
  rq_type :: uint
  rq_reserved :: uint
  rq_sector :: uint64

record vbuf =
  vb_blockno :: uint
  vb_disk :: bool
  vb_data :: bytes

record rw_call =
  c_buf :: nat
  c_write :: bool
  c_i0 :: nat
  c_i1 :: nat
  c_i2 :: nat

record vdisk =
  v_desc :: "virtq_desc list"
  v_avail_idx :: "16 word"
  v_avail :: "16 word list"
  v_used_hw :: "16 word"
  v_used :: "uint list"
  v_free :: "bool list"
  v_used_idx :: "16 word"
  v_info_b :: "nat option list"
  v_info_status :: "uchar list"
  v_ops :: "virtio_blk_req list"
  v_bufs :: "nat \<Rightarrow> vbuf"
  v_calls :: "rw_call list"
  v_seen :: "16 word"
  v_taken :: "nat list"
  v_media :: "uint64 \<Rightarrow> bytes"

definition set_disk :: "nat \<Rightarrow> bool \<Rightarrow> vdisk \<Rightarrow> vdisk" where
  "set_disk b f s = s\<lparr>v_bufs := (v_bufs s)(b := (v_bufs s b)\<lparr>vb_disk := f\<rparr>)\<rparr>"

section \<open>Descriptors\<close>

definition alloc_desc :: "vdisk \<Rightarrow> vdisk \<times> int" where
  "alloc_desc s = (case find_idx (\<lambda>f. f) (v_free s) of Some i \<Rightarrow> (s\<lparr>v_free := (v_free s)[i := False]\<rparr>, int i) | None \<Rightarrow> (s, -1))"

definition no_desc :: virtq_desc where
  "no_desc = \<lparr>d_addr = NoAddr, d_len = 0, d_flags = 0, d_next = 0\<rparr>"

definition free_desc :: "nat \<Rightarrow> vdisk \<Rightarrow> vdisk res" where
  "free_desc i s =
     (if i \<ge> NUM then Inl (Panic ''free_desc 1'')
      else if v_free s ! i then Inl (Panic ''free_desc 2'')
      else Inr (s\<lparr>v_desc := (v_desc s)[i := no_desc], v_free := (v_free s)[i := True]\<rparr>))"

lemma count_free: "i < length xs \<Longrightarrow> \<not> xs ! i \<Longrightarrow> length (filter Not (xs[i := True])) < length (filter Not xs)"
proof (induction xs arbitrary: i)
  case (Cons x xs)
  then show ?case by (cases i) auto
qed simp

text \<open>A descriptor number beyond the table is refused by \<open>free_desc\<close>.\<close>

function free_chain :: "nat \<Rightarrow> vdisk \<Rightarrow> vdisk res" where
  "free_chain i s =
     (if length (v_free s) \<noteq> NUM then Inl OutOfBounds
      else bindE (free_desc i s) (\<lambda>s'.
           if d_flags (v_desc s ! i) AND VRING_DESC_F_NEXT \<noteq> 0 then free_chain (unat (d_next (v_desc s ! i))) s' else Inr s'))"
  by pat_completeness auto
termination
  by (relation "measure (\<lambda>(i, s). length (filter Not (v_free s)))")
    (auto simp: free_desc_def split: if_splits intro!: count_free)

declare free_chain.simps [simp del]

primrec free_descs :: "nat list \<Rightarrow> vdisk \<Rightarrow> vdisk res" where
  "free_descs [] s = Inr s"
| "free_descs (i # is) s = bindE (free_desc i s) (free_descs is)"

primrec alloc_loop :: "nat \<Rightarrow> nat list \<Rightarrow> vdisk \<Rightarrow> (vdisk \<times> nat list option) res" where
  "alloc_loop 0 idx s = Inr (s, Some idx)"
| "alloc_loop (Suc n) idx s =
     (case alloc_desc s of (s, i) \<Rightarrow>
        if i < 0 then bindE (free_descs idx s) (\<lambda>s. Inr (s, None)) else alloc_loop n (idx @ [nat i]) s)"

definition alloc3_desc :: "vdisk \<Rightarrow> (vdisk \<times> nat list option) res" where
  "alloc3_desc s = alloc_loop 3 [] s"

section \<open>Requests\<close>

text \<open>The three descriptors of a request, and the entry in the ring of available requests.\<close>

definition format_req :: "nat \<Rightarrow> bool \<Rightarrow> nat \<Rightarrow> nat \<Rightarrow> nat \<Rightarrow> vdisk \<Rightarrow> vdisk" where
  "format_req b write i0 i1 i2 s =
     (let sector = ucast (vb_blockno (v_bufs s b) * (1024 div 512));
          s = s\<lparr>v_ops := (v_ops s)[i0 := \<lparr>rq_type = (if write then VIRTIO_BLK_T_OUT else VIRTIO_BLK_T_IN), rq_reserved = 0, rq_sector = sector\<rparr>]\<rparr>;
          s = s\<lparr>v_desc := (v_desc s)[i0 := \<lparr>d_addr = OpAddr i0, d_len = 16, d_flags = VRING_DESC_F_NEXT, d_next = of_nat i1\<rparr>]\<rparr>;
          s = s\<lparr>v_desc := (v_desc s)[i1 := \<lparr>d_addr = DataAddr b, d_len = 1024,
                d_flags = (if write then 0 else VRING_DESC_F_WRITE) OR VRING_DESC_F_NEXT, d_next = of_nat i2\<rparr>]\<rparr>;
          s = s\<lparr>v_info_status := (v_info_status s)[i0 := 0xff]\<rparr>;
          s = s\<lparr>v_desc := (v_desc s)[i2 := \<lparr>d_addr = StatusAddr i0, d_len = 1, d_flags = VRING_DESC_F_WRITE, d_next = 0\<rparr>]\<rparr>;
          s = set_disk b True s;
          s = s\<lparr>v_info_b := (v_info_b s)[i0 := Some b]\<rparr>;
          s = s\<lparr>v_avail := (v_avail s)[unat (v_avail_idx s) mod NUM := of_nat i0]\<rparr>
      in s\<lparr>v_avail_idx := v_avail_idx s + 1\<rparr>)"

text \<open>\<open>virtio_disk_rw\<close> up to its wait for the buffer; \<open>None\<close>: it sleeps because there are not three free descriptors.\<close>

definition rw_start :: "nat \<Rightarrow> bool \<Rightarrow> vdisk \<Rightarrow> (vdisk \<times> rw_call option) res" where
  "rw_start b write s =
     bindE (alloc3_desc s) (\<lambda>(s, r).
     case r of
       Some [i0, i1, i2] \<Rightarrow>
         (let c = \<lparr>c_buf = b, c_write = write, c_i0 = i0, c_i1 = i1, c_i2 = i2\<rparr>;
              s = format_req b write i0 i1 i2 s
          in Inr (s\<lparr>v_calls := c # v_calls s\<rparr>, Some c))
     | _ \<Rightarrow> Inr (s, None))"

text \<open>From there on: it goes back to sleep while the buffer belongs to the disk.\<close>

definition rw_finish :: "rw_call \<Rightarrow> vdisk \<Rightarrow> vdisk res" where
  "rw_finish c s =
     (if vb_disk (v_bufs s (c_buf c)) then Inl Blocked
      else (let s = s\<lparr>v_info_b := (v_info_b s)[c_i0 c := None]\<rparr>
            in mapE (\<lambda>s. s\<lparr>v_calls := remove1 c (v_calls s)\<rparr>) (free_chain (c_i0 c) s)))"

interpretation vring: ring NUM "TYPE(16)"
  by unfold_locales (simp_all add: NUM_def)

function virtio_disk_intr :: "vdisk \<Rightarrow> vdisk res" where
  "virtio_disk_intr s =
     (if v_used_idx s \<noteq> v_used_hw s
      then (let id = unat (ring_at NUM (v_used s) (v_used_idx s))
            in if id \<ge> length (v_info_status s) \<or> id \<ge> length (v_info_b s) then Inl OutOfBounds
               else if v_info_status s ! id \<noteq> 0 then Inl (Panic ''virtio_disk_intr status'')
               else (case v_info_b s ! id of
                       None \<Rightarrow> Inl OutOfBounds
                     | Some b \<Rightarrow> virtio_disk_intr ((set_disk b False s)\<lparr>v_used_idx := v_used_idx s + 1\<rparr>)))
      else Inr s)"
  by pat_completeness auto
termination
  by (relation "measure (\<lambda>s. unat (v_used_hw s - v_used_idx s))") (auto simp: set_disk_def dest!: vring.count_down(1) [OF not_sym])

declare virtio_disk_intr.simps [simp del]

section \<open>Initialisation\<close>

text \<open>
  \<open>virtio_disk_init\<close>. \<open>R\<close> gives the value of a device register when it is read; the writes to registers are returned in their
  order. The three pages of the queue are zeroed.
\<close>

definition clear_features :: "uint \<Rightarrow> uint" where
  "clear_features f = f AND NOT (push_bit 5 1) AND NOT (push_bit 7 1) AND NOT (push_bit 11 1) AND NOT (push_bit 12 1) AND
     NOT (push_bit 27 1) AND NOT (push_bit 29 1) AND NOT (push_bit 28 1)"

definition queue_zero :: "vdisk \<Rightarrow> vdisk" where
  "queue_zero s = s\<lparr>v_desc := replicate NUM no_desc, v_avail_idx := 0, v_avail := replicate NUM 0, v_used_hw := 0, v_used := replicate NUM 0\<rparr>"

definition zero_page :: "uint64 \<Rightarrow> kmem \<Rightarrow> kmem" where
  "zero_page p k = k\<lparr>phys := mem_set (phys k) p 0 PGSIZE\<rparr>"

definition halves :: "nat \<Rightarrow> uint64 \<Rightarrow> (nat \<times> uint) list" where
  "halves r p = [(r, ucast p), (r + 4, ucast (drop_bit 32 p))]"

definition queue_setup :: "uint \<Rightarrow> kmem \<Rightarrow> vdisk \<Rightarrow> (kmem \<times> (nat \<times> uint) list \<times> vdisk) res" where
  "queue_setup status k s =
     (case kalloc k of (k, desc) \<Rightarrow>
      case kalloc k of (k, avail) \<Rightarrow>
      case kalloc k of (k, used) \<Rightarrow>
        if desc = 0 \<or> avail = 0 \<or> used = 0 then Inl (Panic ''virtio disk kalloc'')
        else (let k = zero_page used (zero_page avail (zero_page desc k));
                  s = (queue_zero s)\<lparr>v_free := replicate NUM True\<rparr>
              in Inr (k, (0x038, of_nat NUM) # halves 0x080 desc @ halves 0x090 avail @ halves 0x0a0 used @ [(0x044, 1), (0x070, status OR 4)], s)))"

definition virtio_disk_init :: "(nat \<Rightarrow> uint) \<Rightarrow> kmem \<Rightarrow> vdisk \<Rightarrow> (kmem \<times> (nat \<times> uint) list \<times> vdisk) res" where
  "virtio_disk_init R k s =
     (if R 0x000 \<noteq> 0x74726976 \<or> R 0x004 \<noteq> 2 \<or> R 0x008 \<noteq> 2 \<or> R 0x00c \<noteq> 0x554d4551 then Inl (Panic ''could not find virtio disk'')
      else (let w = [(0x070, 0), (0x070, 1), (0x070, 1 OR 2), (0x020, clear_features (R 0x010)), (0x070, 1 OR 2 OR 8)];
                status = R 0x070
            in if status AND 8 = 0 then Inl (Panic ''virtio disk FEATURES_OK unset'')
               else if R 0x044 \<noteq> 0 then Inl (Panic ''virtio disk should not be ready'')
               else if R 0x034 = 0 then Inl (Panic ''virtio disk has no queue 0'')
               else if R 0x034 < of_nat NUM then Inl (Panic ''virtio disk max queue too short'')
               else mapE (\<lambda>(k, w2, s). (k, w @ (0x030, 0) # w2, s)) (queue_setup status k s)))"

section \<open>The device\<close>

text \<open>A transfer of 1024 bytes covers two sectors.\<close>

definition disk_get :: "(uint64 \<Rightarrow> bytes) \<Rightarrow> uint64 \<Rightarrow> bytes" where
  "disk_get m n = m n @ m (n + 1)"

definition disk_put :: "(uint64 \<Rightarrow> bytes) \<Rightarrow> uint64 \<Rightarrow> bytes \<Rightarrow> uint64 \<Rightarrow> bytes" where
  "disk_put m n d = m(n := take 512 d, n + 1 := drop 512 d)"

text \<open>
  The contract. The device fetches available requests in order. It may complete any request it has fetched: it follows the chain of
  descriptors, transfers the data in the direction of the request, writes the status 0 and enters the head of the chain in the
  ring of used requests. Of a chain that is not a block request nothing is known: then any state may result.
\<close>

definition dev_fetch :: "vdisk \<Rightarrow> vdisk" where
  "dev_fetch s = s\<lparr>v_taken := v_taken s @ [unat (ring_at NUM (v_avail s) (v_seen s))], v_seen := v_seen s + 1\<rparr>"

definition block_request :: "vdisk \<Rightarrow> nat \<Rightarrow> (virtio_blk_req \<times> nat \<times> nat) option" where
  "block_request s h =
     (if h < NUM \<and> unat (d_next (v_desc s ! h)) < NUM \<and> unat (d_next (v_desc s ! unat (d_next (v_desc s ! h)))) < NUM
      then (let d0 = v_desc s ! h; d1 = v_desc s ! unat (d_next d0); d2 = v_desc s ! unat (d_next d1)
            in case (d_addr d0, d_addr d1, d_addr d2) of
                 (OpAddr i, DataAddr b, StatusAddr j) \<Rightarrow>
                   if d_flags d0 = 1 \<and> d_len d0 = 16 \<and> d_len d1 = 1024 \<and> d_flags d2 = 2 \<and> d_len d2 = 1 \<and>
                      (rq_type (v_ops s ! i) = 0 \<and> d_flags d1 = 3 \<or> rq_type (v_ops s ! i) = 1 \<and> d_flags d1 = 1)
                   then Some (v_ops s ! i, b, j) else None
               | _ \<Rightarrow> None)
      else None)"

definition dev_transfer :: "virtio_blk_req \<Rightarrow> nat \<Rightarrow> vdisk \<Rightarrow> vdisk" where
  "dev_transfer rq b s =
     (if rq_type rq = 0 then s\<lparr>v_bufs := (v_bufs s)(b := (v_bufs s b)\<lparr>vb_data := disk_get (v_media s) (rq_sector rq)\<rparr>)\<rparr>
      else s\<lparr>v_media := disk_put (v_media s) (rq_sector rq) (vb_data (v_bufs s b))\<rparr>)"

definition dev_complete :: "nat \<Rightarrow> virtio_blk_req \<Rightarrow> nat \<Rightarrow> nat \<Rightarrow> vdisk \<Rightarrow> vdisk" where
  "dev_complete h rq b j s =
     (dev_transfer rq b s)\<lparr>v_info_status := (v_info_status s)[j := 0], v_taken := remove1 h (v_taken s),
        v_used := (v_used s)[unat (v_used_hw s) mod NUM := of_nat h], v_used_hw := v_used_hw s + 1\<rparr>"

definition device_may :: "vdisk \<Rightarrow> vdisk \<Rightarrow> bool" where
  "device_may s s' \<longleftrightarrow>
     v_seen s \<noteq> v_avail_idx s \<and> s' = dev_fetch s \<or>
     (\<exists>h\<in>set (v_taken s). case block_request s h of Some (rq, b, j) \<Rightarrow> s' = dev_complete h rq b j s | None \<Rightarrow> True)"

section \<open>The driver and the device together\<close>

text \<open>
  A request may start on a buffer that is not in use by another one, and the rest of the kernel may change only buffers that are not
  in use by a request: it holds the sleep lock of the buffer in both cases.
\<close>

inductive vstep :: "(vdisk \<Rightarrow> vdisk \<Rightarrow> bool) \<Rightarrow> vdisk \<Rightarrow> vdisk \<Rightarrow> bool" for D where
  start: "b \<notin> c_buf ` set (v_calls s) \<Longrightarrow> rw_start b w s = Inr (s', r) \<Longrightarrow> vstep D s s'"
| device: "D s s' \<Longrightarrow> vstep D s s'"
| intr: "virtio_disk_intr s = Inr s' \<Longrightarrow> vstep D s s'"
| finish: "c \<in> set (v_calls s) \<Longrightarrow> rw_finish c s = Inr s' \<Longrightarrow> vstep D s s'"
| client: "\<forall>c\<in>set (v_calls s). f (c_buf c) = v_bufs s (c_buf c) \<Longrightarrow> vstep D s (s\<lparr>v_bufs := f\<rparr>)"

inductive_cases vstepE: "vstep D s s'"

section \<open>Invariant\<close>

definition idxs :: "rw_call \<Rightarrow> nat list" where
  "idxs c = [c_i0 c, c_i1 c, c_i2 c]"

definition used_descs :: "vdisk \<Rightarrow> nat list" where
  "used_descs s = concat (map idxs (v_calls s))"

text \<open>The heads of the chains that are available, fetched by the device, and used but not yet seen by the driver.\<close>

definition pend :: "vdisk \<Rightarrow> nat list" where
  "pend s = map unat (ring_list NUM (v_avail s) (v_seen s) (v_avail_idx s))"

definition compl :: "vdisk \<Rightarrow> nat list" where
  "compl s = map unat (ring_list NUM (v_used s) (v_used_idx s) (v_used_hw s))"

definition request_of :: "vdisk \<Rightarrow> rw_call \<Rightarrow> virtio_blk_req" where
  "request_of s c = \<lparr>rq_type = (if c_write c then 1 else 0), rq_reserved = 0, rq_sector = ucast (vb_blockno (v_bufs s (c_buf c)) * 2)\<rparr>"

definition formatted :: "vdisk \<Rightarrow> rw_call \<Rightarrow> bool" where
  "formatted s c \<longleftrightarrow> v_ops s ! c_i0 c = request_of s c \<and> v_info_b s ! c_i0 c = Some (c_buf c) \<and>
     v_desc s ! c_i0 c = \<lparr>d_addr = OpAddr (c_i0 c), d_len = 16, d_flags = 1, d_next = of_nat (c_i1 c)\<rparr> \<and>
     v_desc s ! c_i1 c = \<lparr>d_addr = DataAddr (c_buf c), d_len = 1024, d_flags = (if c_write c then 1 else 3), d_next = of_nat (c_i2 c)\<rparr> \<and>
     v_desc s ! c_i2 c = \<lparr>d_addr = StatusAddr (c_i0 c), d_len = 1, d_flags = 2, d_next = 0\<rparr>"

definition arrays_ok :: "vdisk \<Rightarrow> bool" where
  "arrays_ok s \<longleftrightarrow> length (v_desc s) = NUM \<and> length (v_avail s) = NUM \<and> length (v_used s) = NUM \<and> length (v_free s) = NUM \<and>
     length (v_info_b s) = NUM \<and> length (v_info_status s) = NUM \<and> length (v_ops s) = NUM"

definition owned :: "vdisk \<Rightarrow> bool" where
  "owned s \<longleftrightarrow> distinct (used_descs s) \<and> (\<forall>i<NUM. v_free s ! i \<longleftrightarrow> i \<notin> set (used_descs s)) \<and> (\<forall>i\<in>set (used_descs s). i < NUM) \<and>
     distinct (map c_buf (v_calls s)) \<and> (\<forall>c\<in>set (v_calls s). formatted s c)"

definition queued :: "vdisk \<Rightarrow> bool" where
  "queued s \<longleftrightarrow> distinct (pend s @ v_taken s @ compl s) \<and> set (pend s @ v_taken s @ compl s) \<subseteq> c_i0 ` set (v_calls s) \<and>
     (\<forall>c\<in>set (v_calls s). vb_disk (v_bufs s (c_buf c)) \<longleftrightarrow> c_i0 c \<in> set (pend s @ v_taken s @ compl s)) \<and>
     (\<forall>h\<in>set (compl s). v_info_status s ! h = 0)"

definition vinv :: "vdisk \<Rightarrow> bool" where
  "vinv s \<longleftrightarrow> arrays_ok s \<and> owned s \<and> queued s"

section \<open>Descriptors are neither lost nor shared\<close>

lemma alloc_desc_cases:
  assumes "length (v_free s) = NUM"
  shows "(\<exists>i<NUM. v_free s ! i \<and> alloc_desc s = (s\<lparr>v_free := (v_free s)[i := False]\<rparr>, int i)) \<or> alloc_desc s = (s, -1)"
proof (cases "find_idx (\<lambda>f. f) (v_free s)")
  case (Some i)
  then have "i < NUM" "v_free s ! i" using assms by (auto simp: find_idx_Some)
  then show ?thesis using Some by (auto simp: alloc_desc_def)
qed (simp add: alloc_desc_def)

lemma free_desc_back:
  assumes "length (v_free s) = NUM" and "i < NUM" and "\<not> v_free s ! i"
  shows "free_desc i s = Inr (s\<lparr>v_desc := (v_desc s)[i := no_desc], v_free := (v_free s)[i := True]\<rparr>)"
  using assms by (simp add: free_desc_def)

lemma alloc3_cases:
  assumes len: "length (v_free s) = NUM" "length (v_desc s) = NUM"
  shows "(\<exists>i j k. distinct [i, j, k] \<and> i < NUM \<and> j < NUM \<and> k < NUM \<and> v_free s ! i \<and> v_free s ! j \<and> v_free s ! k \<and>
       alloc3_desc s = Inr (s\<lparr>v_free := (v_free s)[i := False, j := False, k := False]\<rparr>, Some [i, j, k])) \<or>
     (\<exists>d. alloc3_desc s = Inr (s\<lparr>v_desc := d\<rparr>, None) \<and> length d = NUM \<and> (\<forall>i<NUM. \<not> v_free s ! i \<longrightarrow> d ! i = v_desc s ! i))"
proof -
  consider "alloc_desc s = (s, -1)" | i where "i < NUM" "v_free s ! i" "alloc_desc s = (s\<lparr>v_free := (v_free s)[i := False]\<rparr>, int i)"
    using alloc_desc_cases [OF len(1)] by blast
  then show ?thesis
  proof cases
    case 1
    then have "alloc3_desc s = Inr (s\<lparr>v_desc := v_desc s\<rparr>, None)" by (simp add: alloc3_desc_def numeral_3_eq_3)
    then show ?thesis using len(2) by blast
  next
    case i: 2
    let ?s = "s\<lparr>v_free := (v_free s)[i := False]\<rparr>"
    have l2: "length (v_free ?s) = NUM" using len by simp
    consider "alloc_desc ?s = (?s, -1)" | j where "j < NUM" "v_free ?s ! j" "alloc_desc ?s = (?s\<lparr>v_free := (v_free ?s)[j := False]\<rparr>, int j)"
      using alloc_desc_cases [OF l2] by blast
    then show ?thesis
    proof cases
      case 1
      have "alloc3_desc s = Inr (s\<lparr>v_desc := (v_desc s)[i := no_desc]\<rparr>, None)"
        using 1 i len by (simp add: alloc3_desc_def numeral_3_eq_3 free_desc_back list_update_same_conv)
      then show ?thesis using i len(2) by (intro disjI2 exI) (auto simp: nth_list_update)
    next
      case j: 2
      have ij: "i \<noteq> j" "v_free s ! j" using j(2) i len by (auto simp: nth_list_update split: if_splits)
      let ?t = "?s\<lparr>v_free := (v_free ?s)[j := False]\<rparr>"
      have l3: "length (v_free ?t) = NUM" using len by simp
      consider "alloc_desc ?t = (?t, -1)" | k where "k < NUM" "v_free ?t ! k" "alloc_desc ?t = (?t\<lparr>v_free := (v_free ?t)[k := False]\<rparr>, int k)"
        using alloc_desc_cases [OF l3] by blast
      then show ?thesis
      proof cases
        case 1
        have "(v_free s)[i := False, j := False, i := True, j := True] = v_free s"
          using i ij len j by (auto simp: list_eq_iff_nth_eq nth_list_update)
        then have "alloc3_desc s = Inr (s\<lparr>v_desc := (v_desc s)[i := no_desc, j := no_desc]\<rparr>, None)"
          using 1 i j ij len by (simp add: alloc3_desc_def numeral_3_eq_3 free_desc_back)
        moreover have "\<forall>n<NUM. \<not> v_free s ! n \<longrightarrow> (v_desc s)[i := no_desc, j := no_desc] ! n = v_desc s ! n"
          using i(2) ij(2) by (metis nth_list_update_neq)
        ultimately show ?thesis using len(2) by (intro disjI2 exI conjI) auto
      next
        case k: 2
        have "i \<noteq> k" "j \<noteq> k" "v_free s ! k" using k(2) i j len by (auto simp: nth_list_update split: if_splits)
        then show ?thesis using i j k ij
          by (intro disjI1 exI [of _ i] exI [of _ j] exI [of _ k]) (simp add: alloc3_desc_def numeral_3_eq_3)
      qed
    qed
  qed
qed

lemma few_calls:
  assumes "owned s"
  shows "length (v_calls s) \<le> 2"
proof -
  have "length (used_descs s) = card (set (used_descs s))" using assms by (simp add: owned_def distinct_card)
  also have "\<dots> \<le> card {..<NUM}" using assms by (intro card_mono) (auto simp: owned_def)
  finally have "length (used_descs s) \<le> 8" by (simp add: NUM_def)
  moreover have "length (used_descs s) = 3 * length (v_calls s)"
    by (simp add: used_descs_def length_concat comp_def idxs_def sum_list_triv)
  ultimately show ?thesis by simp
qed

lemma short_queues:
  assumes "owned s" and "queued s"
  shows "length (pend s) + length (v_taken s) + length (compl s) \<le> 2"
proof -
  let ?q = "pend s @ v_taken s @ compl s"
  have "length ?q = card (set ?q)" using assms(2) unfolding queued_def by (metis distinct_card)
  also have "\<dots> \<le> card (c_i0 ` set (v_calls s))" using assms(2) unfolding queued_def by (meson card_mono finite_imageI List.finite_set)
  also have "\<dots> \<le> length (v_calls s)" by (meson card_image_le card_length order_trans List.finite_set)
  finally show ?thesis using few_calls [OF assms(1)] by simp
qed

lemma in_used: "c \<in> set (v_calls s) \<Longrightarrow> i \<in> set (idxs c) \<Longrightarrow> i \<in> set (used_descs s)"
  by (auto simp: used_descs_def)

lemma call_idx:
  assumes "owned s" and "c \<in> set (v_calls s)"
  shows "c_i0 c < NUM" "c_i1 c < NUM" "c_i2 c < NUM" "distinct (idxs c)"
proof -
  show "c_i0 c < NUM" "c_i1 c < NUM" "c_i2 c < NUM" using assms in_used [OF assms(2)] by (auto simp: owned_def idxs_def)
  show "distinct (idxs c)" using assms by (auto simp: owned_def used_descs_def distinct_concat_iff)
qed

lemma unat_16: "n < NUM \<Longrightarrow> unat (of_nat n :: 16 word) = n"
  by (simp add: unat_of_nat NUM_def)

lemma unat_32: "n < NUM \<Longrightarrow> unat (of_nat n :: uint) = n"
  by (simp add: unat_of_nat NUM_def)

lemma request_of_call:
  assumes "owned s" and "c \<in> set (v_calls s)"
  shows "block_request s (c_i0 c) = Some (request_of s c, c_buf c, c_i0 c)"
proof -
  have f: "formatted s c" using assms by (simp add: owned_def)
  note b = call_idx [OF assms]
  have u: "unat (of_nat (c_i1 c) :: 16 word) = c_i1 c" "unat (of_nat (c_i2 c) :: 16 word) = c_i2 c" using b unat_16 by blast+
  show ?thesis using f b by (auto simp: block_request_def formatted_def Let_def u request_of_def)
qed

lemma same_call:
  assumes "owned s" and "c \<in> set (v_calls s)" and "c' \<in> set (v_calls s)" and "c_i0 c = c_i0 c' \<or> c_buf c = c_buf c'"
  shows "c = c'"
proof (cases "c_buf c = c_buf c'")
  case True
  then show ?thesis using assms by (auto simp: owned_def distinct_map inj_on_def)
next
  case False
  then have i0: "c_i0 c = c_i0 c'" using assms(4) by auto
  have "removeAll [] (map idxs (v_calls s)) = map idxs (v_calls s)" by (simp add: removeAll_id idxs_def image_iff)
  then have d: "distinct (map idxs (v_calls s))" "\<And>x y. x \<in> set (v_calls s) \<Longrightarrow> y \<in> set (v_calls s) \<Longrightarrow> idxs x \<noteq> idxs y \<Longrightarrow> set (idxs x) \<inter> set (idxs y) = {}"
    using assms(1) unfolding owned_def used_descs_def distinct_concat_iff by auto
  have "idxs c = idxs c'" using d(2) [OF assms(2,3)] i0 by (auto simp: idxs_def)
  then show ?thesis using d(1) assms(2,3) by (auto simp: distinct_map inj_on_def)
qed

section \<open>Every step keeps the invariant\<close>

lemma pend_push:
  assumes "length (v_avail s) = NUM" and "length (pend s) < NUM" and "h < NUM"
  shows "map unat (ring_list NUM ((v_avail s)[unat (v_avail_idx s) mod NUM := of_nat h]) (v_seen s) (v_avail_idx s + 1)) = pend s @ [h]"
  using vring.put(1) [OF assms(1), of "v_avail_idx s" "v_seen s" "of_nat h"] assms(2,3) by (simp add: pend_def unat_16)

lemma compl_push:
  assumes "length (v_used s) = NUM" and "length (compl s) < NUM" and "h < NUM"
  shows "map unat (ring_list NUM ((v_used s)[unat (v_used_hw s) mod NUM := of_nat h]) (v_used_idx s) (v_used_hw s + 1)) = compl s @ [h]"
  using vring.put(1) [OF assms(1), of "v_used_hw s" "v_used_idx s" "of_nat h"] assms(2,3) by (simp add: compl_def unat_32)

lemma flag_or: "(if w then 0 else VRING_DESC_F_WRITE) OR VRING_DESC_F_NEXT = (if w then 1 else 3)"
  by (simp add: hdr)

lemma format_fields:
  assumes c: "c = \<lparr>c_buf = b, c_write = w, c_i0 = i0, c_i1 = i1, c_i2 = i2\<rparr>"
    and t: "t = (format_req b w i0 i1 i2 s)\<lparr>v_calls := c # v_calls s\<rparr>"
  shows "v_ops t = (v_ops s)[i0 := request_of s c]"
    and "v_desc t = (v_desc s)[i0 := \<lparr>d_addr = OpAddr i0, d_len = 16, d_flags = 1, d_next = of_nat i1\<rparr>,
      i1 := \<lparr>d_addr = DataAddr b, d_len = 1024, d_flags = (if w then 1 else 3), d_next = of_nat i2\<rparr>,
      i2 := \<lparr>d_addr = StatusAddr i0, d_len = 1, d_flags = 2, d_next = 0\<rparr>]"
    and "v_info_status t = (v_info_status s)[i0 := 0xff]" and "v_info_b t = (v_info_b s)[i0 := Some b]"
    and "v_bufs t = (v_bufs s)(b := (v_bufs s b)\<lparr>vb_disk := True\<rparr>)"
    and "v_avail t = (v_avail s)[unat (v_avail_idx s) mod NUM := of_nat i0]" and "v_avail_idx t = v_avail_idx s + 1"
    and "v_used t = v_used s" and "v_used_hw t = v_used_hw s" and "v_used_idx t = v_used_idx s" and "v_seen t = v_seen s"
    and "v_taken t = v_taken s" and "v_media t = v_media s" and "v_free t = v_free s" and "v_calls t = c # v_calls s"
  unfolding t format_req_def Let_def
  by (simp_all add: set_disk_def flag_or c request_of_def hdr)

lemma formatted_other:
  assumes "formatted s c" and "\<forall>i\<in>set (idxs c). v_desc t ! i = v_desc s ! i" and "v_ops t ! c_i0 c = v_ops s ! c_i0 c"
    and "v_info_b t ! c_i0 c = v_info_b s ! c_i0 c" and "vb_blockno (v_bufs t (c_buf c)) = vb_blockno (v_bufs s (c_buf c))"
  shows "formatted t c"
  using assms by (simp add: formatted_def idxs_def request_of_def)

lemma start_inv:
  assumes inv: "vinv s" and b: "b \<notin> c_buf ` set (v_calls s)"
    and i: "distinct [i0, i1, i2]" "i0 < NUM" "i1 < NUM" "i2 < NUM" "v_free s ! i0" "v_free s ! i1" "v_free s ! i2"
    and c: "c = \<lparr>c_buf = b, c_write = w, c_i0 = i0, c_i1 = i1, c_i2 = i2\<rparr>"
    and t: "t = (format_req b w i0 i1 i2 (s\<lparr>v_free := (v_free s)[i0 := False, i1 := False, i2 := False]\<rparr>))\<lparr>v_calls := c # v_calls s\<rparr>"
  shows "vinv t" "pend t = pend s @ [i0]"
proof -
  let ?s = "s\<lparr>v_free := (v_free s)[i0 := False, i1 := False, i2 := False]\<rparr>"
  have t': "t = (format_req b w i0 i1 i2 ?s)\<lparr>v_calls := c # v_calls ?s\<rparr>" using t by simp
  note F = format_fields [OF c t', simplified]
  have a: "arrays_ok s" "owned s" "queued s" using inv by (simp_all add: vinv_def)
  have arr: "arrays_ok t" using a(1) by (simp add: arrays_ok_def F)
  have fresh: "i0 \<notin> set (used_descs s)" "i1 \<notin> set (used_descs s)" "i2 \<notin> set (used_descs s)" using a(2) i by (auto simp: owned_def)
  have ud: "used_descs t = [i0, i1, i2] @ used_descs s" by (simp add: used_descs_def F idxs_def c)
  have old: "formatted t d" if d: "d \<in> set (v_calls s)" for d
  proof (rule formatted_other)
    show "formatted s d" using a(2) d by (simp add: owned_def)
    have n: "x \<noteq> i0" "x \<noteq> i1" "x \<noteq> i2" if "x \<in> set (idxs d)" for x using fresh in_used [OF d that] by auto
    note n' = n [THEN not_sym]
    show "\<forall>x\<in>set (idxs d). v_desc t ! x = v_desc s ! x" by (simp add: F n')
    show "v_ops t ! c_i0 d = v_ops s ! c_i0 d" "v_info_b t ! c_i0 d = v_info_b s ! c_i0 d"
      using n' [of "c_i0 d"] by (simp_all add: F idxs_def)
    show "vb_blockno (v_bufs t (c_buf d)) = vb_blockno (v_bufs s (c_buf d))" by (simp add: F)
  qed
  have new: "formatted t c" using i a(1) unfolding formatted_def by (simp add: F c arrays_ok_def nth_list_update request_of_def)
  have own: "owned t" unfolding owned_def ud
  proof (intro conjI)
    show "distinct ([i0, i1, i2] @ used_descs s)" using i(1) fresh a(2) by (auto simp: owned_def)
    show "\<forall>i<NUM. v_free t ! i \<longleftrightarrow> i \<notin> set ([i0, i1, i2] @ used_descs s)"
      using a(1,2) i(2-4) by (auto simp: F owned_def arrays_ok_def nth_list_update)
    show "\<forall>i\<in>set ([i0, i1, i2] @ used_descs s). i < NUM" using i a(2) by (auto simp: owned_def)
    show "distinct (map c_buf (v_calls t))" using b a(2) by (auto simp: F c owned_def)
    show "\<forall>d\<in>set (v_calls t). formatted t d" using old new by (simp add: F)
  qed
  have "length (pend s) < NUM" using short_queues [OF a(2,3)] by (simp add: NUM_def)
  then show p: "pend t = pend s @ [i0]" using pend_push [of s i0] a(1) i(2) by (simp add: pend_def F arrays_ok_def)
  have q: "compl t = compl s" "v_taken t = v_taken s" by (simp_all add: compl_def F)
  have sub: "set (pend s @ v_taken s @ compl s) \<subseteq> c_i0 ` set (v_calls s)" using a(3) by (simp add: queued_def)
  have heads: "c_i0 d \<noteq> i0" "c_buf d \<noteq> b" if "d \<in> set (v_calls s)" for d
    using fresh(1) in_used [OF that, of "c_i0 d"] b that by (auto simp: idxs_def)
  then have i0: "i0 \<notin> set (pend s @ v_taken s @ compl s)" using sub by blast
  have "queued t" unfolding queued_def p q
  proof (intro conjI)
    show "distinct ((pend s @ [i0]) @ v_taken s @ compl s)" using a(3) i0 by (auto simp: queued_def)
    show "set ((pend s @ [i0]) @ v_taken s @ compl s) \<subseteq> c_i0 ` set (v_calls t)" using sub by (auto simp: F c)
    show "\<forall>d\<in>set (v_calls t). vb_disk (v_bufs t (c_buf d)) \<longleftrightarrow> c_i0 d \<in> set ((pend s @ [i0]) @ v_taken s @ compl s)"
      using a(3) heads by (auto simp: F c queued_def)
    show "\<forall>h\<in>set (compl s). v_info_status t ! h = 0" using a(1,3) i(2) i0 by (auto simp: F queued_def arrays_ok_def nth_list_update)
  qed
  then show "vinv t" using arr own by (simp add: vinv_def)
qed

lemma fetch_inv:
  assumes "vinv s" and "v_seen s \<noteq> v_avail_idx s"
  shows "vinv (dev_fetch s)" and "set (pend (dev_fetch s) @ v_taken (dev_fetch s)) = set (pend s @ v_taken s)"
proof -
  let ?h = "unat (ring_at NUM (v_avail s) (v_seen s))" and ?t = "dev_fetch s"
  have p: "pend s = ?h # pend ?t" using vring.get [OF assms(2), of "v_avail s"] by (simp add: pend_def dev_fetch_def)
  have q: "v_taken ?t = v_taken s @ [?h]" "compl ?t = compl s" by (simp_all add: dev_fetch_def compl_def)
  have "used_descs ?t = used_descs s" "v_calls ?t = v_calls s" "v_free ?t = v_free s" "v_bufs ?t = v_bufs s" "v_info_status ?t = v_info_status s"
    "formatted ?t = formatted s"
    by (simp_all add: dev_fetch_def used_descs_def formatted_def request_of_def fun_eq_iff)
  moreover have "arrays_ok ?t" using assms(1) by (simp add: vinv_def arrays_ok_def dev_fetch_def)
  ultimately show "vinv ?t" using assms(1) unfolding vinv_def owned_def queued_def p q by auto
  show "set (pend ?t @ v_taken ?t) = set (pend s @ v_taken s)" unfolding p q by auto
qed

lemma queue_call:
  assumes "queued s" and "h \<in> set (pend s @ v_taken s @ compl s)"
  shows "\<exists>c\<in>set (v_calls s). c_i0 c = h"
  using assms unfolding queued_def by blast

lemma complete_fields:
  assumes t: "t = dev_complete h rq b j s"
  shows "v_desc t = v_desc s" "v_avail t = v_avail s" "v_avail_idx t = v_avail_idx s" "v_free t = v_free s" "v_used_idx t = v_used_idx s"
    "v_info_b t = v_info_b s" "v_ops t = v_ops s" "v_calls t = v_calls s" "v_seen t = v_seen s"
    "v_used t = (v_used s)[unat (v_used_hw s) mod NUM := of_nat h]" "v_used_hw t = v_used_hw s + 1"
    "v_taken t = remove1 h (v_taken s)" "v_info_status t = (v_info_status s)[j := 0]"
    "vb_disk (v_bufs t x) = vb_disk (v_bufs s x)" "vb_blockno (v_bufs t x) = vb_blockno (v_bufs s x)"
  unfolding t by (simp_all add: dev_complete_def dev_transfer_def)

lemma complete_inv:
  assumes inv: "vinv s" and h: "h \<in> set (v_taken s)" and c: "c \<in> set (v_calls s)" "c_i0 c = h"
    and t: "t = dev_complete h rq b h s"
  shows "vinv t" "pend t = pend s" "v_taken t = remove1 h (v_taken s)"
proof -
  note F = complete_fields [OF t]
  have a: "arrays_ok s" "owned s" "queued s" using inv by (simp_all add: vinv_def)
  have arr: "arrays_ok t" using a(1) by (simp add: arrays_ok_def F)
  have "formatted t = formatted s" by (simp add: formatted_def request_of_def F fun_eq_iff)
  then have own: "owned t" using a(2) by (simp add: owned_def used_descs_def F)
  show p: "pend t = pend s" and k: "v_taken t = remove1 h (v_taken s)" by (simp_all add: pend_def F)
  have "length (compl s) < NUM" using short_queues [OF a(2,3)] by (simp add: NUM_def)
  then have q: "compl t = compl s @ [h]"
    using compl_push [of s h] a(1) call_idx(1) [OF a(2) c(1)] c(2) by (simp add: compl_def F arrays_ok_def)
  have d: "distinct (pend s @ v_taken s @ compl s)" using a(3) by (simp add: queued_def)
  then have s: "set (pend s @ remove1 h (v_taken s) @ compl s @ [h]) = set (pend s @ v_taken s @ compl s)" using h by (auto simp: set_remove1_eq)
  have "queued t" unfolding queued_def p k q s
  proof (intro conjI)
    show "distinct (pend s @ remove1 h (v_taken s) @ compl s @ [h])" using d h by (auto simp: set_remove1_eq distinct_remove1)
    show "set (pend s @ v_taken s @ compl s) \<subseteq> c_i0 ` set (v_calls t)" "\<forall>c\<in>set (v_calls t). vb_disk (v_bufs t (c_buf c)) \<longleftrightarrow> c_i0 c \<in> set (pend s @ v_taken s @ compl s)"
      using a(3) by (simp_all add: queued_def F)
    have "h < length (v_info_status s)" using a(1) call_idx(1) [OF a(2) c(1)] c(2) by (simp add: arrays_ok_def)
    then show "\<forall>x\<in>set (compl s @ [h]). v_info_status t ! x = 0" using a(3) by (auto simp: queued_def F nth_list_update)
  qed
  then show "vinv t" using arr own by (simp add: vinv_def)
qed

lemma ack_inv:
  assumes inv: "vinv s" and ne: "v_used_idx s \<noteq> v_used_hw s"
    and h: "h = unat (ring_at NUM (v_used s) (v_used_idx s))"
  shows "\<exists>c\<in>set (v_calls s). c_i0 c = h \<and> h < NUM \<and> v_info_status s ! h = 0 \<and> v_info_b s ! h = Some (c_buf c) \<and>
    vinv ((set_disk (c_buf c) False s)\<lparr>v_used_idx := v_used_idx s + 1\<rparr>)"
proof -
  have a: "arrays_ok s" "owned s" "queued s" using inv by (simp_all add: vinv_def)
  have p: "compl s = h # map unat (ring_list NUM (v_used s) (v_used_idx s + 1) (v_used_hw s))"
    using vring.get [OF ne, of "v_used s"] by (simp add: compl_def h)
  then obtain c where c: "c \<in> set (v_calls s)" "c_i0 c = h" using queue_call [OF a(3), of h] by auto
  let ?t = "(set_disk (c_buf c) False s)\<lparr>v_used_idx := v_used_idx s + 1\<rparr>"
  have q: "compl s = h # compl ?t" "pend ?t = pend s" using p by (simp_all add: compl_def pend_def set_disk_def)
  have F: "v_calls ?t = v_calls s" "v_taken ?t = v_taken s" "v_info_status ?t = v_info_status s" "used_descs ?t = used_descs s" "v_free ?t = v_free s"
    "vb_disk (v_bufs ?t x) = (if x = c_buf c then False else vb_disk (v_bufs s x))" "formatted ?t = formatted s" for x
    by (simp_all add: set_disk_def used_descs_def formatted_def request_of_def fun_eq_iff)
  have "arrays_ok ?t" using a(1) by (simp add: arrays_ok_def set_disk_def)
  moreover have "owned ?t" using a(2) by (simp add: owned_def F)
  moreover have "queued ?t" unfolding queued_def F q(2)
  proof (intro conjI)
    have d: "distinct (pend s @ v_taken s @ h # compl ?t)" using a(3) unfolding queued_def q(1) [symmetric] by simp
    then show "distinct (pend s @ v_taken s @ compl ?t)" by simp
    show "set (pend s @ v_taken s @ compl ?t) \<subseteq> c_i0 ` set (v_calls s)" using a(3) unfolding queued_def q(1) by auto
    show "\<forall>h\<in>set (compl ?t). v_info_status s ! h = 0" using a(3) unfolding queued_def q(1) by auto
    show "\<forall>d\<in>set (v_calls s). (if c_buf d = c_buf c then False else vb_disk (v_bufs s (c_buf d))) \<longleftrightarrow> c_i0 d \<in> set (pend s @ v_taken s @ compl ?t)"
    proof
      fix d
      assume m: "d \<in> set (v_calls s)"
      have e: "vb_disk (v_bufs s (c_buf d)) \<longleftrightarrow> c_i0 d \<in> set (pend s @ v_taken s @ h # compl ?t)" using a(3) m unfolding queued_def q(1) by blast
      show "(if c_buf d = c_buf c then False else vb_disk (v_bufs s (c_buf d))) \<longleftrightarrow> c_i0 d \<in> set (pend s @ v_taken s @ compl ?t)"
        using e d c(2) same_call [OF a(2) m c(1)] by auto
    qed
  qed
  moreover have "v_info_b s ! h = Some (c_buf c)" using a(2) c by (auto simp: owned_def formatted_def)
  moreover have "v_info_status s ! h = 0" using a(3) unfolding queued_def q(1) by auto
  ultimately show ?thesis using c call_idx(1) [OF a(2) c(1)] by (intro bexI [of _ c]) (auto simp: vinv_def)
qed

lemma intr_inv:
  assumes "vinv s"
  shows "\<exists>t. virtio_disk_intr s = Inr t \<and> vinv t \<and> v_calls t = v_calls s \<and> v_media t = v_media s \<and> pend t = pend s \<and> v_taken t = v_taken s \<and>
    (\<forall>b. vb_data (v_bufs t b) = vb_data (v_bufs s b) \<and> vb_blockno (v_bufs t b) = vb_blockno (v_bufs s b))"
  using assms
proof (induction s rule: virtio_disk_intr.induct)
  case (1 s)
  show ?case
  proof (cases "v_used_idx s = v_used_hw s")
    case True
    then show ?thesis using 1(2) by (simp add: virtio_disk_intr.simps)
  next
    case False
    let ?h = "unat (ring_at NUM (v_used s) (v_used_idx s))"
    obtain c :: rw_call where c: "?h < NUM" "v_info_status s ! ?h = 0" "v_info_b s ! ?h = Some (c_buf c)"
      "vinv ((set_disk (c_buf c) False s)\<lparr>v_used_idx := v_used_idx s + 1\<rparr>)"
      using ack_inv [OF 1(2) False refl] by blast
    have l: "\<not> (?h \<ge> length (v_info_status s) \<or> ?h \<ge> length (v_info_b s))" using 1(2) c(1) by (simp add: vinv_def arrays_ok_def)
    from 1(1) [OF False refl l _ c(3,4)] c(2) show ?thesis using False l c
      by (auto simp: virtio_disk_intr.simps [of s] Let_def set_disk_def pend_def)
  qed
qed

lemma free_chain_step:
  assumes "length (v_free s) = NUM" and "free_desc i s = Inr s'"
  shows "free_chain i s = (if d_flags (v_desc s ! i) AND 1 \<noteq> 0 then free_chain (unat (d_next (v_desc s ! i))) s' else Inr s')"
  using assms by (simp add: free_chain.simps [of i s] VRING_DESC_F_NEXT_def)

lemma free_chain3:
  assumes len: "length (v_free s) = NUM" "length (v_desc s) = NUM" and i: "distinct [i0, i1, i2]" "i0 < NUM" "i1 < NUM" "i2 < NUM"
    and f: "\<not> v_free s ! i0" "\<not> v_free s ! i1" "\<not> v_free s ! i2"
    and fl: "d_flags (v_desc s ! i0) = 1" "d_next (v_desc s ! i0) = of_nat i1"
      "d_flags (v_desc s ! i1) AND 1 \<noteq> 0" "d_next (v_desc s ! i1) = of_nat i2" "d_flags (v_desc s ! i2) = 2"
  shows "free_chain i0 s = Inr (s\<lparr>v_desc := (v_desc s)[i0 := no_desc, i1 := no_desc, i2 := no_desc],
    v_free := (v_free s)[i0 := True, i1 := True, i2 := True]\<rparr>)"
proof -
  let ?s1 = "s\<lparr>v_desc := (v_desc s)[i0 := no_desc], v_free := (v_free s)[i0 := True]\<rparr>"
  let ?s2 = "?s1\<lparr>v_desc := (v_desc ?s1)[i1 := no_desc], v_free := (v_free ?s1)[i1 := True]\<rparr>"
  let ?s3 = "?s2\<lparr>v_desc := (v_desc ?s2)[i2 := no_desc], v_free := (v_free ?s2)[i2 := True]\<rparr>"
  have d: "free_desc i0 s = Inr ?s1" "free_desc i1 ?s1 = Inr ?s2" "free_desc i2 ?s2 = Inr ?s3"
    using len i f by (simp_all add: free_desc_def)
  have "free_chain i2 ?s2 = Inr ?s3" by (subst free_chain_step [OF _ d(3)]) (use len i f fl in simp_all)
  moreover have "free_chain i1 ?s1 = free_chain i2 ?s2" by (subst free_chain_step [OF _ d(2)]) (use len i f fl unat_16 in simp_all)
  moreover have "free_chain i0 s = free_chain i1 ?s1" by (subst free_chain_step [OF _ d(1)]) (use len i f fl unat_16 in simp_all)
  ultimately show ?thesis by simp
qed

lemma finish_inv:
  assumes inv: "vinv s" and c: "c \<in> set (v_calls s)" and idle: "\<not> vb_disk (v_bufs s (c_buf c))"
  shows "\<exists>t. rw_finish c s = Inr t \<and> vinv t \<and> v_calls t = remove1 c (v_calls s) \<and> v_bufs t = v_bufs s \<and> v_media t = v_media s \<and>
    pend t = pend s \<and> v_taken t = v_taken s"
proof -
  have a: "arrays_ok s" "owned s" "queued s" using inv by (simp_all add: vinv_def)
  obtain i0 i1 i2 where i: "c_i0 c = i0" "c_i1 c = i1" "c_i2 c = i2" by blast
  note lt = call_idx [OF a(2) c, unfolded i idxs_def]
  have f: "formatted s c" using a(2) c by (simp add: owned_def)
  have fr: "\<not> v_free s ! i0" "\<not> v_free s ! i1" "\<not> v_free s ! i2"
    using a(2) lt in_used [OF c, unfolded idxs_def i] by (auto simp: owned_def)
  define t where "t = s\<lparr>v_info_b := (v_info_b s)[i0 := None], v_desc := (v_desc s)[i0 := no_desc, i1 := no_desc, i2 := no_desc],
    v_free := (v_free s)[i0 := True, i1 := True, i2 := True], v_calls := remove1 c (v_calls s)\<rparr>"
  have run: "rw_finish c s = Inr t"
    using free_chain3 [of "s\<lparr>v_info_b := (v_info_b s)[i0 := None]\<rparr>" i0 i1 i2] a(1) lt fr f idle
    by (auto simp: rw_finish_def i arrays_ok_def formatted_def t_def Let_def)
  obtain xs ys where xy: "v_calls s = xs @ c # ys" "c \<notin> set xs" using split_list_first [OF c] by blast
  have calls: "v_calls t = xs @ ys" by (simp add: t_def xy remove1_append)
  have ud: "used_descs s = concat (map idxs xs) @ [i0, i1, i2] @ concat (map idxs ys)" "used_descs t = concat (map idxs xs) @ concat (map idxs ys)"
    by (simp_all add: used_descs_def calls xy idxs_def i)
  have dist: "distinct (concat (map idxs xs) @ [i0, i1, i2] @ concat (map idxs ys))" using a(2) unfolding owned_def ud by blast
  have arr: "arrays_ok t" using a(1) by (simp add: arrays_ok_def t_def)
  have keep: "formatted t d" if d: "d \<in> set (v_calls t)" for d
  proof (rule formatted_other)
    have "d \<in> set (v_calls s)" using d by (auto simp: calls xy)
    then show "formatted s d" using a(2) by (simp add: owned_def)
    have n: "x \<in> set (idxs d) \<Longrightarrow> i0 \<noteq> x" "x \<in> set (idxs d) \<Longrightarrow> i1 \<noteq> x" "x \<in> set (idxs d) \<Longrightarrow> i2 \<noteq> x" for x
      using dist d by (auto simp: calls)
    show "\<forall>x\<in>set (idxs d). v_desc t ! x = v_desc s ! x" by (simp add: t_def n)
    show "v_info_b t ! c_i0 d = v_info_b s ! c_i0 d" using n(1) [of "c_i0 d"] by (simp add: t_def idxs_def)
  qed (simp_all add: t_def)
  have own: "owned t" unfolding owned_def
  proof (intro conjI)
    show "distinct (used_descs t)" using dist by (simp add: ud)
    show "\<forall>x<NUM. v_free t ! x \<longleftrightarrow> x \<notin> set (used_descs t)"
    proof (intro allI impI)
      fix x assume x: "x < NUM"
      have "v_free s ! x \<longleftrightarrow> x \<notin> set (used_descs s)" using a(2) x by (simp add: owned_def)
      moreover have "v_free t ! x \<longleftrightarrow> x \<in> {i0, i1, i2} \<or> v_free s ! x" using a(1) lt by (auto simp: t_def arrays_ok_def nth_list_update)
      ultimately show "v_free t ! x \<longleftrightarrow> x \<notin> set (used_descs t)" using dist by (auto simp: ud)
    qed
    show "\<forall>x\<in>set (used_descs t). x < NUM" using a(2) by (auto simp: owned_def ud)
    show "distinct (map c_buf (v_calls t))" using a(2) by (auto simp: owned_def calls xy)
    show "\<forall>d\<in>set (v_calls t). formatted t d" using keep by blast
  qed
  have p: "pend t = pend s" "v_taken t = v_taken s" "compl t = compl s" by (simp_all add: t_def pend_def compl_def)
  have out: "c_i0 c \<notin> set (pend s @ v_taken s @ compl s)" using a(3) c idle unfolding queued_def by blast
  have "queued t" unfolding queued_def p
  proof (intro conjI)
    show "distinct (pend s @ v_taken s @ compl s)" "\<forall>h\<in>set (compl s). v_info_status t ! h = 0" using a(3) by (simp_all add: queued_def t_def)
    show "\<forall>d\<in>set (v_calls t). vb_disk (v_bufs t (c_buf d)) \<longleftrightarrow> c_i0 d \<in> set (pend s @ v_taken s @ compl s)"
      using a(3) by (auto simp: queued_def t_def dest: notin_set_remove1)
    show "set (pend s @ v_taken s @ compl s) \<subseteq> c_i0 ` set (v_calls t)"
    proof
      fix h assume h: "h \<in> set (pend s @ v_taken s @ compl s)"
      then obtain d where "d \<in> set (v_calls s)" "c_i0 d = h" using queue_call [OF a(3)] by blast
      moreover have "d \<noteq> c" using calculation(2) out h by blast
      ultimately show "h \<in> c_i0 ` set (v_calls t)" by (auto simp: calls xy)
    qed
  qed
  then show ?thesis using run arr own p by (auto simp: vinv_def t_def)
qed

section \<open>Refinement\<close>

text \<open>
  What the callers of \<open>virtio_disk_rw\<close> rely on: a disk on which each request is executed once, as one step, at some
  moment between the call and the return.
\<close>

record adisk =
  am :: "uint64 \<Rightarrow> bytes"
  an :: "nat \<Rightarrow> uint"
  ad :: "nat \<Rightarrow> bytes"
  a_asked :: "rw_call set"
  a_done :: "rw_call set"

definition execute :: "rw_call \<Rightarrow> adisk \<Rightarrow> adisk" where
  "execute c a =
     (let n = ucast (an a (c_buf c) * 2)
      in if c_write c then a\<lparr>am := disk_put (am a) n (ad a (c_buf c))\<rparr>
         else a\<lparr>ad := (ad a)(c_buf c := disk_get (am a) n)\<rparr>)"

inductive astep :: "adisk \<Rightarrow> adisk \<Rightarrow> bool" where
  ask: "c_buf c \<notin> c_buf ` (a_asked a \<union> a_done a) \<Longrightarrow> astep a (a\<lparr>a_asked := insert c (a_asked a)\<rparr>)"
| exec: "c \<in> a_asked a \<Longrightarrow> astep a ((execute c a)\<lparr>a_asked := a_asked a - {c}, a_done := insert c (a_done a)\<rparr>)"
| ret: "c \<in> a_done a \<Longrightarrow> astep a (a\<lparr>a_done := a_done a - {c}\<rparr>)"
| change: "\<forall>c\<in>a_asked a \<union> a_done a. f (c_buf c) = an a (c_buf c) \<and> g (c_buf c) = ad a (c_buf c) \<Longrightarrow> astep a (a\<lparr>an := f, ad := g\<rparr>)"

definition vabs :: "vdisk \<Rightarrow> adisk" where
  "vabs s = \<lparr>am = v_media s, an = (\<lambda>b. vb_blockno (v_bufs s b)), ad = (\<lambda>b. vb_data (v_bufs s b)),
     a_asked = {c \<in> set (v_calls s). c_i0 c \<in> set (pend s @ v_taken s)},
     a_done = {c \<in> set (v_calls s). c_i0 c \<notin> set (pend s @ v_taken s)}\<rparr>"

lemma start_refines:
  assumes "vinv s" and "b \<notin> c_buf ` set (v_calls s)" and "rw_start b w s = Inr (t, r)"
  shows "vinv t \<and> (vabs t = vabs s \<or> astep (vabs s) (vabs t))"
proof -
  have a: "arrays_ok s" "owned s" "queued s" using assms(1) by (simp_all add: vinv_def)
  have len: "length (v_free s) = NUM" "length (v_desc s) = NUM" using a(1) by (simp_all add: arrays_ok_def)
  from alloc3_cases [OF len] show ?thesis
  proof (elim disjE exE conjE)
    fix i0 i1 i2
    assume i: "distinct [i0, i1, i2]" "i0 < NUM" "i1 < NUM" "i2 < NUM" "v_free s ! i0" "v_free s ! i1" "v_free s ! i2"
      and al: "alloc3_desc s = Inr (s\<lparr>v_free := (v_free s)[i0 := False, i1 := False, i2 := False]\<rparr>, Some [i0, i1, i2])"
    define c where "c = \<lparr>c_buf = b, c_write = w, c_i0 = i0, c_i1 = i1, c_i2 = i2\<rparr>"
    let ?s = "s\<lparr>v_free := (v_free s)[i0 := False, i1 := False, i2 := False]\<rparr>"
    have "v_calls (format_req b w i0 i1 i2 ?s) = v_calls s" by (simp add: format_req_def set_disk_def Let_def)
    then have t: "t = (format_req b w i0 i1 i2 ?s)\<lparr>v_calls := c # v_calls s\<rparr>"
      using assms(3) al by (simp add: rw_start_def Let_def c_def)
    note inv = start_inv [OF assms(1,2) i c_def t]
    have t': "t = (format_req b w i0 i1 i2 ?s)\<lparr>v_calls := c # v_calls ?s\<rparr>" using t by simp
    note F = format_fields [OF c_def t', simplified]
    have fresh: "c_i0 d \<noteq> i0" if "d \<in> set (v_calls s)" for d
      using a(2) i in_used [OF that, of "c_i0 d"] by (auto simp: owned_def idxs_def)
    have n: "i0 \<notin> set (pend s @ v_taken s)" using queue_call [OF a(3), of i0] fresh by auto
    have "v_media t = v_media s" "(\<lambda>x. vb_blockno (v_bufs t x)) = (\<lambda>x. vb_blockno (v_bufs s x))" "(\<lambda>x. vb_data (v_bufs t x)) = (\<lambda>x. vb_data (v_bufs s x))"
      by (simp_all add: F fun_eq_iff)
    moreover have "{d \<in> set (v_calls t). c_i0 d \<in> set (pend t @ v_taken t)} = insert c {d \<in> set (v_calls s). c_i0 d \<in> set (pend s @ v_taken s)}"
      "{d \<in> set (v_calls t). c_i0 d \<notin> set (pend t @ v_taken t)} = {d \<in> set (v_calls s). c_i0 d \<notin> set (pend s @ v_taken s)}"
      using fresh n unfolding inv(2) by (auto simp: F c_def)
    ultimately have "vabs t = (vabs s)\<lparr>a_asked := insert c (a_asked (vabs s))\<rparr>" unfolding vabs_def by simp
    moreover have "c_buf c \<notin> c_buf ` (a_asked (vabs s) \<union> a_done (vabs s))" using assms(2) by (auto simp: vabs_def c_def)
    ultimately show ?thesis using inv(1) astep.ask by metis
  next
    fix d
    assume al: "alloc3_desc s = Inr (s\<lparr>v_desc := d\<rparr>, None)" and d: "length d = NUM" "\<forall>i<NUM. \<not> v_free s ! i \<longrightarrow> d ! i = v_desc s ! i"
    have t: "t = s\<lparr>v_desc := d\<rparr>" using assms(3) al by (simp add: rw_start_def)
    have "formatted t c" if c: "c \<in> set (v_calls s)" for c
    proof (rule formatted_other)
      show "formatted s c" using a(2) c by (simp add: owned_def)
      have "x < NUM \<and> \<not> v_free s ! x" if "x \<in> set (idxs c)" for x using a(2) in_used [OF c that] by (auto simp: owned_def)
      then show "\<forall>x\<in>set (idxs c). v_desc t ! x = v_desc s ! x" using d(2) by (simp add: t)
    qed (simp_all add: t)
    moreover have "pend t = pend s" "compl t = compl s" "used_descs t = used_descs s" by (simp_all add: t pend_def compl_def used_descs_def)
    ultimately have "vinv t" using a d(1) by (auto simp: vinv_def arrays_ok_def owned_def queued_def t)
    moreover have "vabs t = vabs s" by (simp add: vabs_def t pend_def)
    ultimately show ?thesis by simp
  qed
qed

lemma fetch_refines:
  assumes "vinv s" and "v_seen s \<noteq> v_avail_idx s"
  shows "vinv (dev_fetch s) \<and> vabs (dev_fetch s) = vabs s"
proof -
  have "v_media (dev_fetch s) = v_media s" "v_bufs (dev_fetch s) = v_bufs s" "v_calls (dev_fetch s) = v_calls s" by (simp_all add: dev_fetch_def)
  then show ?thesis using fetch_inv [OF assms] unfolding vabs_def by simp
qed

lemma complete_refines:
  assumes "vinv s" and "h \<in> set (v_taken s)"
  shows "\<exists>rq b j. block_request s h = Some (rq, b, j) \<and> vinv (dev_complete h rq b j s) \<and> astep (vabs s) (vabs (dev_complete h rq b j s))"
proof -
  have a: "owned s" "queued s" using assms(1) by (simp_all add: vinv_def)
  obtain c where c: "c \<in> set (v_calls s)" "c_i0 c = h" using queue_call [OF a(2), of h] assms(2) by auto
  let ?t = "dev_complete h (request_of s c) (c_buf c) h s"
  have req: "block_request s h = Some (request_of s c, c_buf c, h)" using request_of_call [OF a(1) c(1)] c(2) by simp
  note inv = complete_inv [OF assms c refl, of "request_of s c" "c_buf c"]
  have d: "distinct (pend s @ v_taken s @ compl s)" using a(2) by (simp add: queued_def)
  then have q: "set (pend ?t @ v_taken ?t) = set (pend s @ v_taken s) - {h}" unfolding inv(2,3) using assms(2) by (auto simp: set_remove1_eq)
  have calls: "v_calls ?t = v_calls s" by (simp add: dev_complete_def dev_transfer_def)
  have same: "d \<in> set (v_calls s) \<Longrightarrow> c_i0 d = h \<longleftrightarrow> d = c" for d using same_call [OF a(1) _ c(1)] c(2) by auto
  have "a_asked (vabs ?t) = a_asked (vabs s) - {c}" "a_done (vabs ?t) = insert c (a_done (vabs s))"
    unfolding vabs_def using same c q by (auto simp: calls)
  moreover have "am (vabs ?t) = am (execute c (vabs s))" "an (vabs ?t) = an (execute c (vabs s))" "ad (vabs ?t) = ad (execute c (vabs s))"
    by (auto simp: vabs_def execute_def dev_complete_def dev_transfer_def request_of_def Let_def)
  ultimately have "vabs ?t = (execute c (vabs s))\<lparr>a_asked := a_asked (vabs s) - {c}, a_done := insert c (a_done (vabs s))\<rparr>"
    by simp
  moreover have "c \<in> a_asked (vabs s)" using c assms(2) by (simp add: vabs_def)
  ultimately have "astep (vabs s) (vabs ?t)" using astep.exec by metis
  then show ?thesis using req inv(1) by blast
qed

lemma device_refines:
  assumes "vinv s" and "device_may s t"
  shows "vinv t \<and> (vabs t = vabs s \<or> astep (vabs s) (vabs t))"
  using assms(2) unfolding device_may_def
proof (elim disjE conjE bexE)
  assume "v_seen s \<noteq> v_avail_idx s" "t = dev_fetch s"
  then show ?thesis using fetch_refines [OF assms(1)] by simp
next
  fix h
  assume "h \<in> set (v_taken s)" and may: "case block_request s h of Some (rq, b, j) \<Rightarrow> t = dev_complete h rq b j s | None \<Rightarrow> True"
  from complete_refines [OF assms(1) this(1)] may show ?thesis by auto
qed

lemma intr_refines:
  assumes "vinv s" and "virtio_disk_intr s = Inr t"
  shows "vinv t \<and> vabs t = vabs s"
  using intr_inv [OF assms(1)] assms(2) unfolding vabs_def by (auto simp: fun_eq_iff)

lemma finish_refines:
  assumes "vinv s" and "c \<in> set (v_calls s)" and "rw_finish c s = Inr t"
  shows "vinv t \<and> c \<in> a_done (vabs s) \<and> vabs t = (vabs s)\<lparr>a_done := a_done (vabs s) - {c}\<rparr>"
proof -
  have idle: "\<not> vb_disk (v_bufs s (c_buf c))" using assms(3) by (auto simp: rw_finish_def split: if_splits)
  from finish_inv [OF assms(1,2) idle] assms(3)
  have t: "vinv t" "v_calls t = remove1 c (v_calls s)" "v_bufs t = v_bufs s" "v_media t = v_media s" "pend t = pend s" "v_taken t = v_taken s"
    by auto
  have d: "distinct (v_calls s)" using assms(1) by (auto simp: vinv_def owned_def distinct_map)
  have out: "c_i0 c \<notin> set (pend s @ v_taken s)" using assms(1,2) idle unfolding vinv_def queued_def by auto
  then show ?thesis using assms(2) t(1) set_remove1_eq [OF d, of c] unfolding vabs_def t(2-6) by auto
qed

lemma client_refines:
  assumes "vinv s" and "\<forall>c\<in>set (v_calls s). f (c_buf c) = v_bufs s (c_buf c)"
  shows "vinv (s\<lparr>v_bufs := f\<rparr>) \<and> astep (vabs s) (vabs (s\<lparr>v_bufs := f\<rparr>))"
proof -
  let ?t = "s\<lparr>v_bufs := f\<rparr>"
  have q: "pend ?t = pend s" "compl ?t = compl s" "used_descs ?t = used_descs s" by (simp_all add: pend_def compl_def used_descs_def)
  have "formatted ?t c = formatted s c" if "c \<in> set (v_calls s)" for c using assms(2) that by (simp add: formatted_def request_of_def)
  then have "vinv ?t" using assms by (auto simp: vinv_def arrays_ok_def owned_def queued_def q)
  moreover have "vabs ?t = (vabs s)\<lparr>an := (\<lambda>b. vb_blockno (f b)), ad := (\<lambda>b. vb_data (f b))\<rparr>" by (simp add: vabs_def q)
  moreover have "\<forall>c\<in>a_asked (vabs s) \<union> a_done (vabs s). vb_blockno (f (c_buf c)) = an (vabs s) (c_buf c) \<and> vb_data (f (c_buf c)) = ad (vabs s) (c_buf c)"
    using assms(2) by (auto simp: vabs_def)
  ultimately show ?thesis using astep.change by metis
qed

lemma vstep_refines:
  assumes "\<And>s s'. D s s' \<Longrightarrow> device_may s s'" and "vinv s" and "vstep D s t"
  shows "vinv t \<and> (vabs t = vabs s \<or> astep (vabs s) (vabs t))"
  using assms(3)
proof cases
  case (start b w r)
  then show ?thesis using start_refines [OF assms(2)] by blast
next
  case device
  then show ?thesis using device_refines [OF assms(2)] assms(1) by blast
next
  case intr
  then show ?thesis using intr_refines [OF assms(2)] by blast
next
  case (finish c)
  then show ?thesis using finish_refines [OF assms(2)] astep.ret by metis
next
  case (client f)
  then show ?thesis using client_refines [OF assms(2)] by blast
qed

section \<open>From initialisation on\<close>

text \<open>The static variable \<open>disk\<close> before \<open>virtio_disk_init\<close>, with arbitrary buffers and contents of the disk.\<close>

definition vdisk_zero :: "(nat \<Rightarrow> vbuf) \<Rightarrow> (uint64 \<Rightarrow> bytes) \<Rightarrow> vdisk" where
  "vdisk_zero f m = \<lparr>v_desc = [], v_avail_idx = 0, v_avail = [], v_used_hw = 0, v_used = [], v_free = replicate NUM False, v_used_idx = 0,
     v_info_b = replicate NUM None, v_info_status = replicate NUM 0, v_ops = replicate NUM \<lparr>rq_type = 0, rq_reserved = 0, rq_sector = 0\<rparr>,
     v_bufs = f, v_calls = [], v_seen = 0, v_taken = [], v_media = m\<rparr>"

lemma init_state:
  assumes "virtio_disk_init R k (vdisk_zero f m) = Inr (k', w, s)"
  shows "s = (queue_zero (vdisk_zero f m))\<lparr>v_free := replicate NUM True\<rparr>"
  using assms by (auto simp: virtio_disk_init_def queue_setup_def Let_def split: if_splits prod.splits)

lemma init_inv:
  assumes "virtio_disk_init R k (vdisk_zero f m) = Inr (k', w, s)"
  shows "vinv s"
  unfolding init_state [OF assms]
  by (simp add: vinv_def arrays_ok_def owned_def queued_def queue_zero_def vdisk_zero_def pend_def compl_def used_descs_def)

lemma run_inv:
  assumes "\<And>s s'. D s s' \<Longrightarrow> device_may s s'" and "vinv s" and "(vstep D)\<^sup>*\<^sup>* s t"
  shows "vinv t \<and> astep\<^sup>*\<^sup>* (vabs s) (vabs t)"
  using assms(3)
proof (induction rule: rtranclp_induct)
  case base
  then show ?case using assms(2) by simp
next
  case (step t u)
  then have "vinv u" "vabs u = vabs t \<or> astep (vabs t) (vabs u)" using vstep_refines [OF assms(1) _ step(2)] by auto
  then show ?case using step(3) by (auto intro: rtranclp.rtrancl_into_rtrancl)
qed


definition sample_regs :: "nat \<Rightarrow> uint" where
  "sample_regs r = (if r = 0 then 0x74726976 else if r = 4 \<or> r = 8 then 2 else if r = 12 then 0x554d4551 else if r = 0x070 then 11
     else if r = 0x034 then 1024 else if r = 0x044 then 0 else 0x3000)"

lemma sample_init: "\<exists>k' w. virtio_disk_init sample_regs sample_kmem2 (vdisk_zero f m) = Inr (k', w, (queue_zero (vdisk_zero f m))\<lparr>v_free := replicate NUM True\<rparr>)"
proof -
  obtain k1 where k1: "kalloc sample_kmem2 = (k1, 0x80002000)" "wf_kmem k1 [0x80003000, 0x80004000]" using kalloc_step [OF sample_kmem2_wf] by auto
  obtain k2 where k2: "kalloc k1 = (k2, 0x80003000)" "wf_kmem k2 [0x80004000]" using kalloc_step [OF k1(2)] by auto
  obtain k3 where k3: "kalloc k2 = (k3, 0x80004000)" using kalloc_step [OF k2(2)] by auto
  show ?thesis by (simp add: virtio_disk_init_def queue_setup_def sample_regs_def k1(1) k2(1) k3 Let_def hdr)
qed




lemma clear_features_bits: "bit (clear_features x) n \<longleftrightarrow> bit x n \<and> n \<notin> {5, 7, 11, 12, 27, 28, 29}"
  by (simp only: clear_features_def bit_and_iff bit_not_iff bit_push_bit_iff bit_1_iff) (auto simp: possible_bit_word dest: bit_imp_le_length)

text \<open>
  Initialisation goes through exactly when the device identifies itself as a block device of version 2 from QEMU, accepts the
  negotiated features, and has an idle queue of at least eight entries; otherwise the kernel panics. The
  device is told its status in the order the specification asks for and is only declared ready (\<open>DRIVER_OK\<close>) as the last
  action; the features the driver cannot handle are refused, all the others are accepted unchanged.
\<close>

theorem virtio_init_handshake:
  assumes "wf_kmem k (q1 # q2 # q3 # qs)"
  shows "if R 0x000 = 0x74726976 \<and> R 0x004 = 2 \<and> R 0x008 = 2 \<and> R 0x00c = 0x554d4551 \<and> R 0x070 AND 8 \<noteq> 0 \<and> R 0x044 = 0 \<and> 8 \<le> R 0x034
     then \<exists>k' w s' feat. virtio_disk_init R k s = Inr (k', w, s') \<and> map snd (filter (\<lambda>(r, v). r = 0x070) w) = [0, 1, 3, 11, R 0x070 OR 4] \<and>
       last w = (0x070, R 0x070 OR 4) \<and> map snd (filter (\<lambda>(r, v). r = 0x020) w) = [feat] \<and>
       (\<forall>n. bit feat n \<longleftrightarrow> bit (R 0x010) n \<and> n \<notin> {5, 7, 11, 12, 27, 28, 29})
     else \<exists>msg. virtio_disk_init R k s = Inl (Panic msg)"
proof -
  obtain k1 where k1: "kalloc k = (k1, q1)" "wf_kmem k1 (q2 # q3 # qs)" using kalloc_step [OF assms] by auto
  obtain k2 where k2: "kalloc k1 = (k2, q2)" "wf_kmem k2 (q3 # qs)" using kalloc_step [OF k1(2)] by auto
  obtain k3 where k3: "kalloc k2 = (k3, q3)" using kalloc_step [OF k2(2)] by auto
  have q: "q1 \<noteq> 0" "q2 \<noteq> 0" "q3 \<noteq> 0" using assms k1(2) k2(2) by (simp_all add: wf_kmem_def)
  have z: "R 0x034 = 0 \<Longrightarrow> \<not> 8 \<le> R 0x034" by simp
  show ?thesis
    using q z clear_features_bits [of "R 0x010"]
    by (auto simp: virtio_disk_init_def queue_setup_def k1(1) k2(1) k3 Let_def hdr halves_def not_le)
qed

theorem virtio_init_handshake_witness:
  "\<exists>k' w s' feat. virtio_disk_init sample_regs sample_kmem2 (vdisk_zero (\<lambda>_. \<lparr>vb_blockno = 0, vb_disk = False, vb_data = []\<rparr>) (\<lambda>_. [])) = Inr (k', w, s') \<and>
     map snd (filter (\<lambda>(r, v). r = 0x020) w) = [feat] \<and> \<not> bit feat 12 \<and> bit feat 13"
proof -
  have "bit (0x3000 :: uint) 13" by (simp add: bit_numeral_rec)
  moreover have "sample_regs 0 = 0x74726976 \<and> sample_regs 4 = 2 \<and> sample_regs 8 = 2 \<and> sample_regs 0x00c = 0x554d4551 \<and> sample_regs 0x070 AND 8 \<noteq> 0 \<and>
    sample_regs 0x044 = 0 \<and> 8 \<le> sample_regs 0x034 \<and> sample_regs 0x010 = 0x3000" by (simp add: sample_regs_def)
  ultimately show ?thesis using virtio_init_handshake [OF sample_kmem2_wf, of sample_regs "vdisk_zero (\<lambda>_. \<lparr>vb_blockno = 0, vb_disk = False, vb_data = []\<rparr>) (\<lambda>_. [])"]
    by auto
qed

end
