(* ===== verification/KState.thy ===== *)
theory KState
  imports Vm Cache
begin

text \<open>
  The global state of the kernel above memory and the file system: the structures of \<open>kernel/proc.h\<close>,
  \<open>kernel/file.h\<close>, \<open>kernel/pipe.c\<close>, \<open>kernel/console.c\<close> and \<open>kernel/sysproc.c\<close>, and the record that
  holds them all.

  A \<open>struct proc *\<close>, \<open>struct file *\<close> or \<open>struct inode *\<close> is the index of the entry in its table,
  \<open>None\<close> for a null pointer; a page table, a trapframe and a pipe are named by the physical page
  they live in, 0 for a null pointer. The fields of a pipe are kept in a map from that address, so
  the bytes of its page are not in \<open>phys\<close>. A sleep channel is the address of a kernel object, written
  here as the object. \<open>cur\<close> is \<open>mycpu()->proc\<close> of the CPU that runs the operation.
\<close>

definition NPROC :: nat where [hdr]: "NPROC = 64"
definition NOFILE :: nat where [hdr]: "NOFILE = 16"
definition NFILE :: nat where [hdr]: "NFILE = 100"
definition NDEV :: nat where [hdr]: "NDEV = 10"
definition PIPESIZE :: nat where [hdr]: "PIPESIZE = 512"
definition INPUT_BUF_SIZE :: nat where [hdr]: "INPUT_BUF_SIZE = 128"
definition CKPT_MAX :: nat where [hdr]: "CKPT_MAX = 256"

section \<open>Processes\<close>

datatype procstate = UNUSED | USED | SLEEPING | RUNNABLE | RUNNING | ZOMBIE

datatype chan = Pipe_nread uint64 | Pipe_nwrite uint64 | Proc_chan nat | Ticks_chan | Cons_r

record kcontext =
  ctx_ra :: uint64
  ctx_sp :: uint64
  ctx_s :: "uint64 list"

record proc =
  p_state :: procstate
  p_chan :: "chan option"
  p_killed :: bool
  p_xstate :: int
  p_pid :: int
  p_parent :: "nat option"
  p_kstack :: uint64
  p_sz :: uint64
  p_pagetable :: uint64
  p_trapframe :: uint64
  p_context :: kcontext
  p_ofile :: "nat option list"
  p_cwd :: "nat option"
  p_name :: bytes
  p_agent_role :: bytes
  p_priority :: int
  p_agent_state :: int
  p_mem_quota :: int
  p_quota_denied :: int

section \<open>Files, pipes, console, checkpoint\<close>

datatype fdtype = FD_NONE | FD_PIPE | FD_INODE | FD_DEVICE

record kfile =
  f_type :: fdtype
  f_ref :: int
  f_readable :: bool
  f_writable :: bool
  f_pipe :: uint64
  f_ip :: nat
  f_off :: uint
  f_major :: ushort

record pipe =
  pi_data :: bytes
  pi_nread :: uint
  pi_nwrite :: uint
  pi_readopen :: bool
  pi_writeopen :: bool

record console =
  cons_buf :: bytes
  cons_r :: uint
  cons_w :: uint
  cons_e :: uint
  cons_write_lock :: sleeplock

record checkpoint =
  ckpt_len :: int
  ckpt_owner :: int
  ckpt_buf :: bytes

section \<open>The kernel\<close>

record kernel =
  km :: kmem
  fss :: fsstate
  ftable :: "kfile list"
  pipes :: "uint64 \<Rightarrow> pipe option"
  ptab :: "proc list"
  nextpid :: int
  initproc :: "nat option"
  cur :: "nat option"
  ticks :: uint
  cons :: console
  uart_tx :: bytes
  ckpt :: checkpoint
  cslots :: slots
  proxy_lock :: sleeplock
  trampoline :: uint64
  forkret_ra :: uint64

text \<open>
  The outcome of an operation that may call \<open>sleep()\<close>: it returns a value, or the process now sleeps
  on a channel and continues, when it runs again, with the progress recorded here.
\<close>

datatype outcome = Done int | Asleep chan nat

abbreviation upd_proc :: "nat \<Rightarrow> (proc \<Rightarrow> proc) \<Rightarrow> proc list \<Rightarrow> proc list" where
  "upd_proc i f ps \<equiv> ps[i := f (ps ! i)]"

abbreviation upd_file :: "nat \<Rightarrow> (kfile \<Rightarrow> kfile) \<Rightarrow> kfile list \<Rightarrow> kfile list" where
  "upd_file i f fs \<equiv> fs[i := f (fs ! i)]"

definition kproc :: "nat \<Rightarrow> (proc \<Rightarrow> proc) \<Rightarrow> kernel \<Rightarrow> kernel" where
  "kproc i f k = k\<lparr>ptab := upd_proc i f (ptab k)\<rparr>"

text \<open>\<open>myproc()\<close>; code that dereferences it without a current process is out of bounds.\<close>

definition myproc :: "kernel \<Rightarrow> nat res" where
  "myproc k = (case cur k of Some i \<Rightarrow> Inr i | None \<Rightarrow> Inl OutOfBounds)"

text \<open>
  A call into the file system by the current process: sleep locks are taken with its pid, and
  relative paths start at its working directory. Every process that runs has one: \<open>userinit\<close> and
  \<open>kfork\<close> set it and \<open>kexit\<close> clears it.
\<close>

definition in_fs :: "(fsstate \<Rightarrow> (fsstate \<times> 'a) res) \<Rightarrow> kernel \<Rightarrow> (kernel \<times> 'a) res" where
  "in_fs f k =
     bindE (myproc k) (\<lambda>i.
     case p_cwd (ptab k ! i) of
       None \<Rightarrow> Inl OutOfBounds
     | Some d \<Rightarrow>
         bindE (f ((fss k)\<lparr>me := p_pid (ptab k ! i), cwd := d\<rparr>)) (\<lambda>(s, r). Inr (k\<lparr>fss := s\<rparr>, r)))"

abbreviation in_fs0 :: "(fsstate \<Rightarrow> fsstate res) \<Rightarrow> kernel \<Rightarrow> kernel res" where
  "in_fs0 f k \<equiv> mapE fst (in_fs (\<lambda>s. mapE (\<lambda>s. (s, ())) (f s)) k)"

end
