(* ===== verification/Sched.thy ===== *)
theory Sched
  imports KState
begin

text \<open>
  The process table and the scheduler of \<open>kernel/proc.c\<close>: allocation of pids, \<open>scheduler\<close>, \<open>sched\<close>,
  \<open>yield\<close>, \<open>sleep\<close>, \<open>wakeup\<close>, \<open>kkill\<close> and \<open>reparent\<close>. \<open>p->lock\<close> and \<open>wait_lock\<close> make each scan step atomic;
  the three passes of the scheduler may each see a different table, since other CPUs run between
  them.
\<close>

section \<open>Operations\<close>

definition procinit :: "proc list \<Rightarrow> proc list" where
  "procinit ps = map (\<lambda>(i, p). p\<lparr>p_state := UNUSED, p_kstack := KSTACK i\<rparr>) (enumerate 0 ps)"

definition allocpid :: "kernel \<Rightarrow> kernel \<times> int" where
  "allocpid k = (let pid = nextpid k in (k\<lparr>nextpid := nextpid k + 1\<rparr>, pid))"

text \<open>Pass 1: \<open>any_runnable\<close> and \<open>max_prio\<close>.\<close>

fun pass1 :: "proc list \<Rightarrow> bool \<times> int \<Rightarrow> bool \<times> int" where
  "pass1 [] a = a"
| "pass1 (p # ps) (any_runnable, max_prio) =
     pass1 ps (if p_state p = RUNNABLE \<and> (\<not> any_runnable \<or> p_priority p > max_prio)
               then (True, p_priority p) else (any_runnable, max_prio))"

text \<open>Passes 2 and 3: the process the CPU switches to.\<close>

definition pass2 :: "int \<Rightarrow> proc list \<Rightarrow> nat option" where
  "pass2 max_prio ps = find_idx (\<lambda>p. p_state p = RUNNABLE \<and> p_priority p = max_prio) ps"

definition pass3 :: "proc list \<Rightarrow> nat option" where
  "pass3 ps = find_idx (\<lambda>p. p_state p = RUNNABLE) ps"

definition run_proc :: "nat \<Rightarrow> proc list \<Rightarrow> proc list" where
  "run_proc i ps = upd_proc i (\<lambda>p. p\<lparr>p_state := RUNNING\<rparr>) ps"

text \<open>
  One iteration of \<open>scheduler\<close> up to the switch: the chosen process and the table in which it is
  marked RUNNING, or \<open>None\<close> when the CPU waits for an interrupt.
\<close>

definition scheduler :: "proc list \<Rightarrow> proc list \<Rightarrow> proc list \<Rightarrow> (nat \<times> proc list) option" where
  "scheduler t1 t2 t3 =
     (case pass1 t1 (False, 0) of (any_runnable, max_prio) \<Rightarrow>
        (case (if any_runnable then pass2 max_prio t2 else None) of
           Some i \<Rightarrow> Some (i, run_proc i t2)
         | None \<Rightarrow>
             (case (if any_runnable then pass3 t3 else None) of
                Some i \<Rightarrow> Some (i, run_proc i t3)
              | None \<Rightarrow> None)))"

text \<open>
  \<open>sched\<close>: the checks before the switch, and the interrupt flag that belongs to the kernel thread
  and not to the CPU \<open>c'\<close> on which it continues.
\<close>

definition sched :: "nat \<Rightarrow> cpu \<Rightarrow> spinlock \<Rightarrow> procstate \<Rightarrow> cpu \<Rightarrow> cpu res" where
  "sched cid c lk st c' =
     (if \<not> holding cid lk then Inl (Panic ''sched p->lock'')
      else if noff c \<noteq> 1 then Inl (Panic ''sched locks'')
      else if st = RUNNING then Inl (Panic ''sched RUNNING'')
      else if sstatus_sie c then Inl (Panic ''sched interruptible'')
      else Inr (c'\<lparr>intena := intena c\<rparr>))"

definition yield :: "kernel \<Rightarrow> kernel res" where
  "yield k =
     bindE (myproc k) (\<lambda>i. Inr ((kproc i (\<lambda>p. p\<lparr>p_state := RUNNABLE\<rparr>) k)\<lparr>cur := None\<rparr>))"

text \<open>
  \<open>sleep\<close> up to the switch, and the part after it, which runs when the process is scheduled again.
\<close>

definition sleep :: "chan \<Rightarrow> kernel \<Rightarrow> kernel res" where
  "sleep ch k =
     bindE (myproc k) (\<lambda>i.
       Inr ((kproc i (\<lambda>p. p\<lparr>p_chan := Some ch, p_state := SLEEPING\<rparr>) k)\<lparr>cur := None\<rparr>))"

definition sleep_return :: "nat \<Rightarrow> kernel \<Rightarrow> kernel" where
  "sleep_return i k = (kproc i (\<lambda>p. p\<lparr>p_chan := None\<rparr>) k)\<lparr>cur := Some i\<rparr>"

definition wake :: "chan option \<Rightarrow> proc \<Rightarrow> proc" where
  "wake ch p = (if p_state p = SLEEPING \<and> p_chan p = ch then p\<lparr>p_state := RUNNABLE\<rparr> else p)"

definition wakeup :: "chan option \<Rightarrow> kernel \<Rightarrow> kernel" where
  "wakeup ch k = k\<lparr>ptab := map (\<lambda>(i, p). if cur k = Some i then p else wake ch p) (enumerate 0 (ptab k))\<rparr>"

definition kkill :: "int \<Rightarrow> kernel \<Rightarrow> kernel \<times> int" where
  "kkill pid k =
     (case find_idx (\<lambda>p. p_pid p = pid) (ptab k) of
        Some i \<Rightarrow>
          (kproc i (\<lambda>p. let p = p\<lparr>p_killed := True\<rparr>
                       in if p_state p = SLEEPING then p\<lparr>p_state := RUNNABLE\<rparr> else p) k, 0)
      | None \<Rightarrow> (k, -1))"

definition setkilled :: "nat \<Rightarrow> kernel \<Rightarrow> kernel" where
  "setkilled i k = kproc i (\<lambda>p. p\<lparr>p_killed := True\<rparr>) k"

definition killed :: "nat \<Rightarrow> kernel \<Rightarrow> bool" where
  "killed i k = p_killed (ptab k ! i)"

primrec reparent_loop :: "nat \<Rightarrow> nat list \<Rightarrow> kernel \<Rightarrow> kernel" where
  "reparent_loop i [] k = k"
| "reparent_loop i (j # js) k =
     (if p_parent (ptab k ! j) = Some i
      then reparent_loop i js (wakeup (map_option Proc_chan (initproc k)) (kproc j (\<lambda>p. p\<lparr>p_parent := initproc k\<rparr>) k))
      else reparent_loop i js k)"

definition reparent :: "nat \<Rightarrow> kernel \<Rightarrow> kernel" where
  "reparent i k = reparent_loop i [0..<length (ptab k)] k"

section \<open>The choice of the scheduler\<close>

lemma pass1_spec:
  "\<exists>any' m'. pass1 ps (any, m) = (any', m') \<and>
    (any' \<longleftrightarrow> any \<or> (\<exists>p\<in>set ps. p_state p = RUNNABLE)) \<and>
    (\<forall>p\<in>set ps. p_state p = RUNNABLE \<longrightarrow> p_priority p \<le> m') \<and> (any \<longrightarrow> m \<le> m') \<and>
    ((any \<and> m' = m) \<or> (\<exists>p\<in>set ps. p_state p = RUNNABLE \<and> p_priority p = m') \<or> (\<not> any' \<and> m' = m))"
proof (induction ps arbitrary: any m)
  case Nil
  then show ?case by simp
next
  case (Cons p ps)
  define b where "b \<longleftrightarrow> p_state p = RUNNABLE \<and> (\<not> any \<or> p_priority p > m)"
  define any1 where "any1 = (b \<or> any)"
  define m1 where "m1 = (if b then p_priority p else m)"
  have step: "pass1 (p # ps) (any, m) = pass1 ps (any1, m1)" by (auto simp: b_def any1_def m1_def)
  obtain any' m' where P: "pass1 ps (any1, m1) = (any', m')"
    "any' \<longleftrightarrow> any1 \<or> (\<exists>p\<in>set ps. p_state p = RUNNABLE)"
    "\<forall>p\<in>set ps. p_state p = RUNNABLE \<longrightarrow> p_priority p \<le> m'" "any1 \<longrightarrow> m1 \<le> m'"
    "(any1 \<and> m' = m1) \<or> (\<exists>p\<in>set ps. p_state p = RUNNABLE \<and> p_priority p = m') \<or> (\<not> any' \<and> m' = m1)"
    using Cons.IH [of any1 m1] by blast
  have "pass1 (p # ps) (any, m) = (any', m')" using step P(1) by simp
  moreover have "any' \<longleftrightarrow> any \<or> (\<exists>q\<in>set (p # ps). p_state q = RUNNABLE)"
    using P(2) by (auto simp: any1_def b_def)
  moreover have "\<forall>q\<in>set (p # ps). p_state q = RUNNABLE \<longrightarrow> p_priority q \<le> m'"
    using P(3,4) by (auto simp: any1_def m1_def b_def split: if_splits)
  moreover have "any \<longrightarrow> m \<le> m'" using P(4) by (auto simp: any1_def m1_def b_def split: if_splits)
  moreover have "(any \<and> m' = m) \<or> (\<exists>q\<in>set (p # ps). p_state q = RUNNABLE \<and> p_priority q = m') \<or> (\<not> any' \<and> m' = m)"
    using P(2,5) by (auto simp: any1_def m1_def b_def split: if_splits)
  ultimately show ?case by blast
qed

lemma pass1_max:
  assumes "pass1 ps (False, 0) = (any, m)"
  shows "any \<longleftrightarrow> (\<exists>p\<in>set ps. p_state p = RUNNABLE)"
    and "any \<Longrightarrow> \<exists>p\<in>set ps. p_state p = RUNNABLE \<and> p_priority p = m"
    and "p \<in> set ps \<Longrightarrow> p_state p = RUNNABLE \<Longrightarrow> p_priority p \<le> m"
  using pass1_spec [of ps False 0] assms by auto


text \<open>
  The scheduler is work conserving on several CPUs: whatever the other CPUs do between the
  passes, it finds a process to run as long as one was RUNNABLE in the first pass and one still is in
  the last pass, and it only ever runs a process that is RUNNABLE in the table it takes it from.
\<close>

theorem scheduler_work_conserving:
  assumes "\<exists>p\<in>set t1. p_state p = RUNNABLE" and "\<exists>p\<in>set t3. p_state p = RUNNABLE"
  shows "\<exists>i t. scheduler t1 t2 t3 = Some (i, run_proc i t) \<and> (t = t2 \<or> t = t3) \<and>
    i < length t \<and> p_state (t ! i) = RUNNABLE"
proof -
  obtain any m where P1: "pass1 t1 (False, 0) = (any, m)" by (cases "pass1 t1 (False, 0)")
  have any: any using pass1_max(1) [OF P1] assms(1) by simp
  obtain j where j: "pass3 t3 = Some j" using assms(2) unfolding pass3_def
    by (cases "find_idx (\<lambda>p. p_state p = RUNNABLE) t3") (auto simp: find_idx_None)
  show ?thesis
  proof (cases "pass2 m t2")
    case None
    have "j < length t3 \<and> p_state (t3 ! j) = RUNNABLE" using j by (simp add: pass3_def find_idx_Some)
    then show ?thesis using None P1 any j by (auto simp: scheduler_def)
  next
    case (Some i)
    then have "i < length t2 \<and> p_state (t2 ! i) = RUNNABLE" by (simp add: pass2_def find_idx_Some)
    then show ?thesis using Some P1 any by (auto simp: scheduler_def)
  qed
qed

definition idle_proc :: "procstate \<Rightarrow> int \<Rightarrow> proc" where
  "idle_proc st prio = \<lparr>p_state = st, p_chan = None, p_killed = False, p_xstate = 0, p_pid = 1, p_parent = None, p_kstack = 0, p_sz = 0,
     p_pagetable = 0, p_trapframe = 0, p_context = \<lparr>ctx_ra = 0, ctx_sp = 0, ctx_s = []\<rparr>, p_ofile = [], p_cwd = None,
     p_name = [], p_agent_role = [], p_priority = prio, p_agent_state = 0, p_mem_quota = 0, p_quota_denied = 0\<rparr>"

theorem scheduler_work_conserving_witness:
  "\<exists>i t. scheduler [idle_proc RUNNABLE 5, idle_proc RUNNABLE 0] [idle_proc RUNNING 5, idle_proc RUNNABLE 0]
      [idle_proc RUNNING 5, idle_proc RUNNABLE 0] = Some (i, run_proc i t) \<and>
    (t = [idle_proc RUNNING 5, idle_proc RUNNABLE 0] \<or> t = [idle_proc RUNNING 5, idle_proc RUNNABLE 0]) \<and>
    i < length t \<and> p_state (t ! i) = RUNNABLE"
  by (rule scheduler_work_conserving) (simp_all add: idle_proc_def)

end
