(* ===== verification/Pipe.thy ===== *)
theory Pipe
  imports Sched Ring UserCopy
begin

text \<open>
  \<open>kernel/pipe.c\<close>, except \<open>pipealloc\<close>, which is with the file table in theory \<open>File\<close>. A reader of an
  empty pipe and a writer of a full one sleep: the operation then ends with \<open>Asleep\<close> and the number of
  bytes transferred so far, and goes on from there when the process runs again.
\<close>

text \<open>Copies between the kernel and the address space of the current process.\<close>

definition ucopyin :: "uint64 \<Rightarrow> nat \<Rightarrow> kernel \<Rightarrow> (kernel \<times> int \<times> bytes) res" where
  "ucopyin va len k =
     bindE (myproc k) (\<lambda>i.
     let p = ptab k ! i
     in bindE (copyin (p_sz p, p_pagetable p) (km k) (p_pagetable p) va len) (\<lambda>(m, r, bs). Inr (k\<lparr>km := m\<rparr>, r, bs)))"

definition ucopyout :: "uint64 \<Rightarrow> bytes \<Rightarrow> kernel \<Rightarrow> (kernel \<times> int) res" where
  "ucopyout va src k =
     bindE (myproc k) (\<lambda>i.
     let p = ptab k ! i
     in bindE (copyout (p_sz p, p_pagetable p) (km k) (p_pagetable p) va src) (\<lambda>(m, r). Inr (k\<lparr>km := m\<rparr>, r)))"

section \<open>Operations\<close>

definition the_pipe :: "uint64 \<Rightarrow> kernel \<Rightarrow> pipe res" where
  "the_pipe pa k = (case pipes k pa of Some pi \<Rightarrow> Inr pi | None \<Rightarrow> Inl OutOfBounds)"

definition set_pipe :: "uint64 \<Rightarrow> pipe \<Rightarrow> kernel \<Rightarrow> kernel" where
  "set_pipe pa pi k = k\<lparr>pipes := (pipes k)(pa \<mapsto> pi)\<rparr>"

definition pipeclose :: "uint64 \<Rightarrow> bool \<Rightarrow> kernel \<Rightarrow> kernel res" where
  "pipeclose pa wr k =
     bindE (the_pipe pa k) (\<lambda>pi.
     let pi = (if wr then pi\<lparr>pi_writeopen := False\<rparr> else pi\<lparr>pi_readopen := False\<rparr>);
         k = wakeup (Some (if wr then Pipe_nread pa else Pipe_nwrite pa)) (set_pipe pa pi k)
     in if \<not> pi_readopen pi \<and> \<not> pi_writeopen pi
        then bindE (kfree pa (km k)) (\<lambda>m. Inr (k\<lparr>km := m, pipes := (pipes k)(pa := None)\<rparr>))
        else Inr k)"

definition pipe_put :: "uchar \<Rightarrow> pipe \<Rightarrow> pipe" where
  "pipe_put ch pi = pi\<lparr>pi_data := (pi_data pi)[unat (pi_nwrite pi) mod PIPESIZE := ch], pi_nwrite := pi_nwrite pi + 1\<rparr>"

function pipewrite_loop :: "uint64 \<Rightarrow> uint64 \<Rightarrow> int \<Rightarrow> nat \<Rightarrow> kernel \<Rightarrow> (kernel \<times> outcome) res" where
  "pipewrite_loop pa addr n i k =
     (if int i < n
      then bindE (the_pipe pa k) (\<lambda>pi.
        bindE (myproc k) (\<lambda>pr.
        if \<not> pi_readopen pi \<or> killed pr k then Inr (k, Done (-1))
        else if pi_nwrite pi = pi_nread pi + of_nat PIPESIZE
        then bindE (sleep (Pipe_nwrite pa) (wakeup (Some (Pipe_nread pa)) k)) (\<lambda>k. Inr (k, Asleep (Pipe_nwrite pa) i))
        else bindE (ucopyin (addr + of_nat i) 1 k) (\<lambda>(k, r, bs).
             if r = -1 then Inr (wakeup (Some (Pipe_nread pa)) k, Done (int i))
             else pipewrite_loop pa addr n (Suc i) (set_pipe pa (pipe_put (hd bs) pi) k))))
      else Inr (wakeup (Some (Pipe_nread pa)) k, Done (int i)))"
  by pat_completeness auto
termination
  by (relation "measure (\<lambda>(pa, addr, n, i, k). nat n - i)") auto

declare pipewrite_loop.simps [simp del]

definition pipewrite :: "uint64 \<Rightarrow> uint64 \<Rightarrow> int \<Rightarrow> kernel \<Rightarrow> (kernel \<times> outcome) res" where
  "pipewrite pa addr n k = pipewrite_loop pa addr n 0 k"

function piperead_loop :: "uint64 \<Rightarrow> uint64 \<Rightarrow> int \<Rightarrow> nat \<Rightarrow> kernel \<Rightarrow> (kernel \<times> int) res" where
  "piperead_loop pa addr n i k =
     (if int i < n
      then bindE (the_pipe pa k) (\<lambda>pi.
        if pi_nread pi = pi_nwrite pi then Inr (k, int i)
        else (let ch = ring_at PIPESIZE (pi_data pi) (pi_nread pi)
              in bindE (ucopyout (addr + of_nat i) [ch] k) (\<lambda>(k, r).
                 if r = -1 then Inr (k, if i = 0 then -1 else int i)
                 else piperead_loop pa addr n (Suc i) (set_pipe pa (pi\<lparr>pi_nread := pi_nread pi + 1\<rparr>) k))))
      else Inr (k, int i))"
  by pat_completeness auto
termination
  by (relation "measure (\<lambda>(pa, addr, n, i, k). nat n - i)") auto

declare piperead_loop.simps [simp del]

definition piperead :: "uint64 \<Rightarrow> uint64 \<Rightarrow> int \<Rightarrow> kernel \<Rightarrow> (kernel \<times> outcome) res" where
  "piperead pa addr n k =
     bindE (the_pipe pa k) (\<lambda>pi.
     bindE (myproc k) (\<lambda>pr.
     if pi_nread pi = pi_nwrite pi \<and> pi_writeopen pi
     then if killed pr k then Inr (k, Done (-1))
          else bindE (sleep (Pipe_nread pa) k) (\<lambda>k. Inr (k, Asleep (Pipe_nread pa) 0))
     else bindE (piperead_loop pa addr n 0 k) (\<lambda>(k, i). Inr (wakeup (Some (Pipe_nwrite pa)) k, Done i))))"

section \<open>A pipe as a queue\<close>

interpretation pring: ring PIPESIZE "TYPE(32)"
  by unfold_locales (simp_all add: PIPESIZE_def)

definition pqueue :: "pipe \<Rightarrow> bytes" where
  "pqueue pi = ring_list PIPESIZE (pi_data pi) (pi_nread pi) (pi_nwrite pi)"

definition wf_pipe :: "pipe \<Rightarrow> bool" where
  "wf_pipe pi \<longleftrightarrow> length (pi_data pi) = PIPESIZE \<and> unat (pi_nwrite pi - pi_nread pi) \<le> PIPESIZE"

lemma full_iff:
  assumes "wf_pipe pi"
  shows "pi_nwrite pi = pi_nread pi + of_nat PIPESIZE \<longleftrightarrow> length (pqueue pi) = PIPESIZE"
proof -
  have "pi_nwrite pi = pi_nread pi + of_nat PIPESIZE \<longleftrightarrow> pi_nwrite pi - pi_nread pi = of_nat PIPESIZE"
    by (auto simp: algebra_simps)
  also have "\<dots> \<longleftrightarrow> unat (pi_nwrite pi - pi_nread pi) = PIPESIZE"
    by (simp add: PIPESIZE_def word_unat_eq_iff)
  finally show ?thesis by (simp add: pqueue_def)
qed

lemma empty_iff: "pi_nread pi = pi_nwrite pi \<longleftrightarrow> pqueue pi = []"
proof -
  have "pqueue pi = [] \<longleftrightarrow> unat (pi_nwrite pi - pi_nread pi) = 0"
    using length_ring_list [of PIPESIZE "pi_data pi" "pi_nread pi" "pi_nwrite pi"]
    unfolding pqueue_def by (metis length_0_conv)
  then show ?thesis by (auto simp: unat_eq_0)
qed

lemma pipe_put_queue:
  assumes "wf_pipe pi" and "length (pqueue pi) < PIPESIZE"
  shows "wf_pipe (pipe_put c pi)" and "pqueue (pipe_put c pi) = pqueue pi @ [c]"
  using assms pring.put(1) [of "pi_data pi" "pi_nwrite pi" "pi_nread pi" c]
    pring.put(2) [of "pi_data pi" "pi_nwrite pi" "pi_nread pi"]
  by (simp_all add: wf_pipe_def pqueue_def pipe_put_def)

lemma pipe_get_queue:
  assumes "wf_pipe pi" and "pi_nread pi \<noteq> pi_nwrite pi"
  shows "wf_pipe (pi\<lparr>pi_nread := pi_nread pi + 1\<rparr>)"
    and "pqueue pi = ring_at PIPESIZE (pi_data pi) (pi_nread pi) # pqueue (pi\<lparr>pi_nread := pi_nread pi + 1\<rparr>)"
  using assms pring.get [of "pi_nread pi" "pi_nwrite pi" "pi_data pi"] pring.count_down(1) [of "pi_nwrite pi" "pi_nread pi"]
  by (simp_all add: wf_pipe_def pqueue_def)

section \<open>Writing and reading through the pipe\<close>

text \<open>
  What the wakeups and the sleep of an operation leave alone: everything but the states and
  channels of the processes.
\<close>

lemma wakeup_sel [simp]:
  "km (wakeup ch k) = km k" "pipes (wakeup ch k) = pipes k" "cur (wakeup ch k) = cur k"
  "fss (wakeup ch k) = fss k" "ftable (wakeup ch k) = ftable k" "length (ptab (wakeup ch k)) = length (ptab k)"
  by (simp_all add: wakeup_def)

lemma wakeup_nth:
  "i < length (ptab k) \<Longrightarrow> ptab (wakeup ch k) ! i = (if cur k = Some i then ptab k ! i else wake ch (ptab k ! i))"
  by (simp add: wakeup_def nth_enumerate_eq)

lemma set_pipe_sel [simp]:
  "km (set_pipe pa pi k) = km k" "pipes (set_pipe pa pi k) = (pipes k)(pa \<mapsto> pi)"
  "cur (set_pipe pa pi k) = cur k" "ptab (set_pipe pa pi k) = ptab k" "fss (set_pipe pa pi k) = fss k"
  by (simp_all add: set_pipe_def)

lemma sleep_sel:
  assumes "sleep ch k = Inr k'"
  shows "km k' = km k" "pipes k' = pipes k" "fss k' = fss k" "ftable k' = ftable k" "cur k' = None"
  using assms by (auto simp: sleep_def kproc_def)

abbreviation mypt :: "kernel \<Rightarrow> nat \<Rightarrow> uint64" where
  "mypt k i \<equiv> p_pagetable (ptab k ! i)"

lemma ucopyin_mapped:
  assumes "cur k = Some i" and "user_mapped (km k) (mypt k i) va len"
  shows "ucopyin va len k = Inr (k, 0, user_bytes (km k) (mypt k i) va len)"
  using assms copyin_mapped by (simp add: ucopyin_def myproc_def)

lemma user_mapped_one: "user_mapped k pt va n \<Longrightarrow> i < n \<Longrightarrow> user_mapped k pt (va + of_nat i) 1"
  by (simp add: user_mapped_def)

lemma pipewrite_loop_spec:
  assumes "cur k = Some pr" and "\<not> killed pr k" and "user_mapped (km k) (mypt k pr) addr (nat n)"
    and "pipes k pa = Some pi" and "wf_pipe pi" and "pi_readopen pi" and "int i \<le> n"
  shows "\<exists>k' m pi'. m \<le> nat n - i \<and> pipes k' = (pipes k)(pa \<mapsto> pi') \<and> km k' = km k \<and> wf_pipe pi' \<and>
    pqueue pi' = pqueue pi @ take m (drop i (user_bytes (km k) (mypt k pr) addr (nat n))) \<and>
    (if m = nat n - i then pipewrite_loop pa addr n i k = Inr (k', Done n)
     else pipewrite_loop pa addr n i k = Inr (k', Asleep (Pipe_nwrite pa) (i + m)) \<and> length (pqueue pi') = PIPESIZE)"
  using assms
proof (induction "nat n - i" arbitrary: i k pi)
  case 0
  then have "int i = n" by simp
  moreover have "pipewrite_loop pa addr n i k = Inr (wakeup (Some (Pipe_nread pa)) k, Done n)"
    using \<open>int i = n\<close> by (simp add: pipewrite_loop.simps)
  ultimately show ?case using 0
    by (intro exI [of _ "wakeup (Some (Pipe_nread pa)) k"] exI [of _ 0] exI [of _ pi]) (auto simp: fun_upd_idem)
next
  case (Suc d)
  then have lt: "int i < n" by linarith
  let ?u = "user_bytes (km k) (mypt k pr) addr (nat n)"
  show ?case
  proof (cases "pi_nwrite pi = pi_nread pi + of_nat PIPESIZE")
    case True
    obtain k' where k': "sleep (Pipe_nwrite pa) (wakeup (Some (Pipe_nread pa)) k) = Inr k'"
      using Suc.prems(1) by (simp add: sleep_def myproc_def)
    then have "pipewrite_loop pa addr n i k = Inr (k', Asleep (Pipe_nwrite pa) i)"
      using Suc.prems lt True by (subst pipewrite_loop.simps) (simp add: the_pipe_def myproc_def)
    moreover have "length (pqueue pi) = PIPESIZE" using full_iff Suc.prems(5) True by blast
    ultimately show ?thesis using sleep_sel [OF k'] Suc.prems Suc.hyps(2)
      by (intro exI [of _ k'] exI [of _ 0] exI [of _ pi]) (auto simp: fun_upd_idem)
  next
    case False
    then have room: "length (pqueue pi) < PIPESIZE"
      using full_iff [OF Suc.prems(5)] Suc.prems(5) by (simp add: wf_pipe_def pqueue_def)
    define c where "c = ?u ! i"
    have ui: "i < length ?u" using lt by simp
    have "user_bytes (km k) (mypt k pr) (addr + of_nat i) 1 = [c]"
      using lt by (simp add: c_def user_bytes_nth) (simp add: user_bytes_def)
    then have cp: "ucopyin (addr + of_nat i) 1 k = Inr (k, 0, [c])"
      using ucopyin_mapped [OF Suc.prems(1)] user_mapped_one [OF Suc.prems(3), of i] lt by simp
    define k1 where "k1 = set_pipe pa (pipe_put c pi) k"
    have step: "pipewrite_loop pa addr n i k = pipewrite_loop pa addr n (Suc i) k1"
      using Suc.prems lt False cp by (subst pipewrite_loop.simps) (simp add: the_pipe_def myproc_def k1_def)
    have k1: "cur k1 = Some pr" "\<not> killed pr k1" "km k1 = km k" "ptab k1 = ptab k" "pipes k1 pa = Some (pipe_put c pi)"
      "pipes k1 = (pipes k)(pa \<mapsto> pipe_put c pi)"
      using Suc.prems(1,2) by (simp_all add: k1_def killed_def)
    have d: "d = nat n - Suc i" using Suc.hyps(2) by simp
    have ro: "pi_readopen (pipe_put c pi)" using Suc.prems(6) by (simp add: pipe_put_def)
    have mp: "user_mapped (km k1) (mypt k1 pr) addr (nat n)" using Suc.prems(3) k1(3,4) by simp
    have le: "int (Suc i) \<le> n" using lt by simp
    obtain k' m pi' where IH: "m \<le> nat n - Suc i" "pipes k' = (pipes k1)(pa \<mapsto> pi')" "km k' = km k1" "wf_pipe pi'"
      "pqueue pi' = pqueue (pipe_put c pi) @ take m (drop (Suc i) ?u)"
      "if m = nat n - Suc i then pipewrite_loop pa addr n (Suc i) k1 = Inr (k', Done n)
       else pipewrite_loop pa addr n (Suc i) k1 = Inr (k', Asleep (Pipe_nwrite pa) (Suc i + m)) \<and> length (pqueue pi') = PIPESIZE"
      using Suc.hyps(1) [OF d k1(1,2) mp k1(5) pipe_put_queue(1) [OF Suc.prems(5) room] ro le] k1(3,4) by auto
    have "drop i ?u = c # drop (Suc i) ?u" using ui by (simp add: c_def Cons_nth_drop_Suc)
    then have "pqueue pi' = pqueue pi @ take (Suc m) (drop i ?u)"
      using IH(5) pipe_put_queue(2) [OF Suc.prems(5) room] by simp
    moreover have "Suc m \<le> nat n - i" "(Suc m = nat n - i) = (m = nat n - Suc i)" using IH(1) lt by auto
    moreover have "pipes k' = (pipes k)(pa \<mapsto> pi')" using IH(2) k1(6) by simp
    ultimately show ?thesis using IH(3,4,6) k1(3) step by (intro exI [of _ k'] exI [of _ "Suc m"] exI [of _ pi']) auto
  qed
qed

lemma writable_one:
  assumes "writable k pt va n" and "i < n"
  shows "writable k pt (va + of_nat i) 1"
  using assms by (simp add: writable_def user_mapped_def)

lemma ucopyout_one:
  assumes "cur k = Some pr" and "uspace (km k) ps (mypt k pr)" and "writable (km k) (mypt k pr) addr n" and "i < n"
    and "n < 2 ^ 64"
  obtains m where "ucopyout (addr + of_nat i) [c] k = Inr (k\<lparr>km := m\<rparr>, 0)" and "uspace m ps (mypt k pr)"
    and "upage m (mypt k pr) = upage (km k) (mypt k pr)" and "writable m (mypt k pr) addr n"
    and "\<And>v a. user_addr (km k) (mypt k pr) v = Some a \<Longrightarrow> phys m a = (if unat (v - addr) = i then c else phys (km k) a)"
proof -
  let ?pt = "mypt k pr"
  obtain m where m: "copyout (p_sz (ptab k ! pr), ?pt) (km k) ?pt (addr + of_nat i) [c] = Inr (m, 0)" "uspace m ps ?pt"
    "upage m ?pt = upage (km k) ?pt" "vmap m ?pt = vmap (km k) ?pt"
    "\<forall>v a. user_addr (km k) ?pt v = Some a \<longrightarrow>
        phys m a = (if unat (v - (addr + of_nat i)) < length [c] then [c] ! unat (v - (addr + of_nat i)) else phys (km k) a)"
    using copyout_writable [where p = "(p_sz (ptab k ! pr), ?pt)" and src = "[c]", OF assms(2)] writable_one [OF assms(3,4)]
    by fastforce
  have "user_addr m ?pt = user_addr (km k) ?pt" using m(3) by (simp add: fun_eq_iff user_addr_upage)
  then have w: "writable m ?pt addr n" using assms(3) m(4) by (simp add: writable_def user_mapped_def)
  have eq: "unat (v - (addr + of_nat i)) = 0 \<longleftrightarrow> unat (v - addr) = i" for v
  proof -
    have "unat (v - (addr + of_nat i)) = 0 \<longleftrightarrow> v - addr = of_nat i" by (auto simp: unat_eq_0 algebra_simps)
    also have "\<dots> \<longleftrightarrow> unat (v - addr) = unat (of_nat i :: uint64)" by (simp add: word_unat_eq_iff)
    finally show ?thesis using unat_of_nat64 [of i] assms(4,5) by simp
  qed
  show thesis
  proof (rule that [OF _ m(2,3) w])
    show "ucopyout (addr + of_nat i) [c] k = Inr (k\<lparr>km := m\<rparr>, 0)"
      using m(1) assms(1) by (simp add: ucopyout_def myproc_def)
    show "phys m a = (if unat (v - addr) = i then c else phys (km k) a)" if "user_addr (km k) ?pt v = Some a" for v a
      using m(5) that eq [of v] by auto
  qed
qed

lemma piperead_loop_spec:
  assumes "cur k = Some pr" and "mypt k pr = pt" and "uspace (km k) ps pt" and "writable (km k) pt addr (nat n)"
    and "n < 2 ^ 64" and "pipes k pa = Some pi" and "wf_pipe pi" and "int i \<le> n"
    and "m = min (nat n - i) (length (pqueue pi))"
  shows "\<exists>k' pi'. piperead_loop pa addr n i k = Inr (k', int (i + m)) \<and> pipes k' = (pipes k)(pa \<mapsto> pi') \<and>
    wf_pipe pi' \<and> pqueue pi' = drop m (pqueue pi) \<and> cur k' = cur k \<and> ptab k' = ptab k \<and>
    uspace (km k') ps pt \<and> upage (km k') pt = upage (km k) pt \<and>
    (\<forall>v a. user_addr (km k) pt v = Some a \<longrightarrow>
       phys (km k') a = (if i \<le> unat (v - addr) \<and> unat (v - addr) < i + m then pqueue pi ! (unat (v - addr) - i)
                         else phys (km k) a))"
  using assms
proof (induction m arbitrary: i k pi)
  case 0
  then have "\<not> int i < n \<or> pi_nread pi = pi_nwrite pi" by (auto simp: empty_iff min_def split: if_splits)
  then have "piperead_loop pa addr n i k = Inr (k, int i)"
    using 0 by (subst piperead_loop.simps) (auto simp: the_pipe_def)
  then show ?case using 0 by (intro exI [of _ k] exI [of _ pi]) (auto simp: fun_upd_idem)
next
  case (Suc m)
  have lt: "int i < n" and ne: "pi_nread pi \<noteq> pi_nwrite pi" using Suc.prems(9) by (auto simp: empty_iff)
  define c where "c = ring_at PIPESIZE (pi_data pi) (pi_nread pi)"
  define pi1 where "pi1 = pi\<lparr>pi_nread := pi_nread pi + 1\<rparr>"
  note G = pipe_get_queue [OF Suc.prems(7) ne, folded c_def pi1_def]
  have bounds: "i < nat n" "nat n < 2 ^ 64" using lt Suc.prems(5) by auto
  obtain mm where cp: "ucopyout (addr + of_nat i) [c] k = Inr (k\<lparr>km := mm\<rparr>, 0)" "uspace mm ps pt"
    "upage mm pt = upage (km k) pt" "writable mm pt addr (nat n)"
    "\<And>v a. user_addr (km k) pt v = Some a \<Longrightarrow> phys mm a = (if unat (v - addr) = i then c else phys (km k) a)"
    using ucopyout_one [OF Suc.prems(1) _ _ bounds, unfolded Suc.prems(2), OF Suc.prems(3,4), of c] by metis
  define k1 where "k1 = set_pipe pa pi1 (k\<lparr>km := mm\<rparr>)"
  have k1: "cur k1 = Some pr" "mypt k1 pr = pt" "uspace (km k1) ps pt" "writable (km k1) pt addr (nat n)"
    "pipes k1 pa = Some pi1" "pipes k1 = (pipes k)(pa \<mapsto> pi1)" "ptab k1 = ptab k" "km k1 = mm"
    using Suc.prems cp by (simp_all add: k1_def)
  have step: "piperead_loop pa addr n i k = piperead_loop pa addr n (Suc i) k1"
    using Suc.prems lt ne cp(1) by (subst piperead_loop.simps) (simp add: the_pipe_def k1_def Let_def flip: c_def pi1_def)
  have q: "pqueue pi = c # pqueue pi1" by (rule G(2))
  have le: "int (Suc i) \<le> n" using lt by simp
  have m: "m = min (nat n - Suc i) (length (pqueue pi1))" using Suc.prems(9) q by simp
  have ua: "user_addr mm pt = user_addr (km k) pt" using cp(3) by (simp add: fun_eq_iff user_addr_upage)
  obtain k' pi' where IH: "piperead_loop pa addr n (Suc i) k1 = Inr (k', int (Suc i + m))"
    "pipes k' = (pipes k1)(pa \<mapsto> pi')" "wf_pipe pi'" "pqueue pi' = drop m (pqueue pi1)" "cur k' = cur k1"
    "ptab k' = ptab k1" "uspace (km k') ps pt" "upage (km k') pt = upage (km k1) pt"
    "\<forall>v a. user_addr (km k1) pt v = Some a \<longrightarrow>
       phys (km k') a = (if Suc i \<le> unat (v - addr) \<and> unat (v - addr) < Suc i + m then pqueue pi1 ! (unat (v - addr) - Suc i)
                         else phys (km k1) a)"
    using Suc.IH [OF k1(1-4) Suc.prems(5) k1(5) G(1) le m] by blast
  have "phys (km k') a = (if i \<le> unat (v - addr) \<and> unat (v - addr) < i + Suc m then pqueue pi ! (unat (v - addr) - i)
                         else phys (km k) a)" if "user_addr (km k) pt v = Some a" for v a
    using IH(9) [unfolded k1(8) ua] cp(5) [OF that] that q by (auto simp: nth_Cons')
  then show ?case using IH k1 cp(3) step q Suc.prems(1) by (intro exI [of _ k'] exI [of _ pi']) auto
qed

text \<open>
  C6. \<open>pipewrite\<close> is an enqueue: with the reader open and the range mapped, it appends the user's bytes
  to the queue in order. Either all \<open>n\<close> are in the queue and it returns \<open>n\<close>, or the queue is full
  and the writer sleeps with the number it has written; nothing is lost, reordered or duplicated,
  and the invariant of the ring is kept across the wrap-around of the counters.
\<close>

theorem pipewrite_enqueues:
  assumes "cur k = Some pr" and "\<not> killed pr k" and "user_mapped (km k) (p_pagetable (ptab k ! pr)) addr (nat n)"
    and "pipes k pa = Some pi" and "wf_pipe pi" and "pi_readopen pi" and "0 \<le> n"
  shows "\<exists>k' m pi'. m \<le> nat n \<and> pipes k' = (pipes k)(pa \<mapsto> pi') \<and> wf_pipe pi' \<and>
    pqueue pi' = pqueue pi @ take m (user_bytes (km k) (p_pagetable (ptab k ! pr)) addr (nat n)) \<and>
    (if m = nat n then pipewrite pa addr n k = Inr (k', Done n)
     else pipewrite pa addr n k = Inr (k', Asleep (Pipe_nwrite pa) m) \<and> length (pqueue pi') = PIPESIZE)"
proof -
  have "int 0 \<le> n" using assms(7) by simp
  from pipewrite_loop_spec [OF assms(1-6) this] obtain k' m pi' where
    "m \<le> nat n - 0" "pipes k' = (pipes k)(pa \<mapsto> pi')" "wf_pipe pi'"
    "pqueue pi' = pqueue pi @ take m (drop 0 (user_bytes (km k) (p_pagetable (ptab k ! pr)) addr (nat n)))"
    "if m = nat n - 0 then pipewrite_loop pa addr n 0 k = Inr (k', Done n)
     else pipewrite_loop pa addr n 0 k = Inr (k', Asleep (Pipe_nwrite pa) (0 + m)) \<and> length (pqueue pi') = PIPESIZE"
    by blast
  then show ?thesis unfolding pipewrite_def by (intro exI [of _ k'] exI [of _ m] exI [of _ pi']) (auto split: if_splits)
qed

text \<open>
  C7. \<open>piperead\<close> is a dequeue: with data in the pipe or the writer gone, it returns
  \<open>m\<close>, the smaller of \<open>n\<close> and the number of queued bytes, removes the first \<open>m\<close> bytes from the queue
  and stores exactly them, in order, at the user's address; no other user byte changes. On an empty
  pipe with an open writer it sleeps and changes nothing but the state of the process.
\<close>

theorem piperead_dequeues:
  assumes "cur k = Some pr" and "\<not> killed pr k" and "p_pagetable (ptab k ! pr) = pt" and "uspace (km k) ps pt"
    and "writable (km k) pt addr (nat n)" and "0 \<le> n" and "n < 2 ^ 64" and "pipes k pa = Some pi" and "wf_pipe pi"
    and "m = min (nat n) (length (pqueue pi))"
  shows "if pqueue pi = [] \<and> pi_writeopen pi
    then \<exists>k'. piperead pa addr n k = Inr (k', Asleep (Pipe_nread pa) 0) \<and> pipes k' = pipes k \<and> km k' = km k
    else \<exists>k' pi'. piperead pa addr n k = Inr (k', Done (int m)) \<and> pipes k' = (pipes k)(pa \<mapsto> pi') \<and>
      wf_pipe pi' \<and> pqueue pi = take m (pqueue pi) @ pqueue pi' \<and>
      user_bytes (km k') pt addr m = take m (pqueue pi) \<and>
      (\<forall>v a. user_addr (km k) pt v = Some a \<and> m \<le> unat (v - addr) \<longrightarrow> phys (km k') a = phys (km k) a)"
proof (cases "pqueue pi = [] \<and> pi_writeopen pi")
  case True
  obtain k' where k': "sleep (Pipe_nread pa) k = Inr k'" using assms(1) by (simp add: sleep_def myproc_def)
  then have "piperead pa addr n k = Inr (k', Asleep (Pipe_nread pa) 0)"
    using True assms by (simp add: piperead_def the_pipe_def myproc_def empty_iff)
  then show ?thesis using True sleep_sel [OF k'] by simp
next
  case False
  obtain k' pi' where L: "piperead_loop pa addr n 0 k = Inr (k', int (0 + m))" "pipes k' = (pipes k)(pa \<mapsto> pi')"
    "wf_pipe pi'" "pqueue pi' = drop m (pqueue pi)" "upage (km k') pt = upage (km k) pt"
    "\<forall>v a. user_addr (km k) pt v = Some a \<longrightarrow> phys (km k') a =
      (if 0 \<le> unat (v - addr) \<and> unat (v - addr) < 0 + m then pqueue pi ! (unat (v - addr) - 0) else phys (km k) a)"
    using piperead_loop_spec [where i = 0, OF assms(1,3-5,7-9)] assms(6,10) by auto
  have run: "piperead pa addr n k = Inr (wakeup (Some (Pipe_nwrite pa)) k', Done (int m))"
    using False assms L(1) by (auto simp: piperead_def the_pipe_def myproc_def empty_iff)
  have ua: "user_addr (km k') pt = user_addr (km k) pt" using L(5) by (simp add: fun_eq_iff user_addr_upage)
  have "user_bytes (km k') pt addr m = take m (pqueue pi)"
  proof (rule nth_equalityI)
    show "length (user_bytes (km k') pt addr m) = length (take m (pqueue pi))" using assms(10) by simp
    fix j
    assume "j < length (user_bytes (km k') pt addr m)"
    then have j: "j < m" "j < nat n" using assms(10) by auto
    then obtain a where a: "user_addr (km k) pt (addr + of_nat j) = Some a"
      using assms(5) by (auto simp: writable_def user_mapped_def)
    have "unat (addr + of_nat j - addr) = j" using j assms(7) unat_of_nat64 [of j] by simp
    then show "user_bytes (km k') pt addr m ! j = take m (pqueue pi) ! j"
      using L(6) a ua j by (simp add: user_bytes_nth)
  qed
  then show ?thesis using False run L(2-4,6) 
    by (simp only: if_False, intro exI [of _ "wakeup (Some (Pipe_nwrite pa)) k'"] exI [of _ pi']) auto
qed

section \<open>A sample machine\<close>

definition sample_proc :: proc where
  "sample_proc = \<lparr>p_state = RUNNING, p_chan = None, p_killed = False, p_xstate = 0, p_pid = 7, p_parent = None,
     p_kstack = 0, p_sz = 0x6000, p_pagetable = 0x80001000, p_trapframe = 0,
     p_context = \<lparr>ctx_ra = 0, ctx_sp = 0, ctx_s = []\<rparr>, p_ofile = replicate NOFILE None, p_cwd = Some 0,
     p_name = replicate 16 0, p_agent_role = replicate 16 0, p_priority = 0, p_agent_state = 0,
     p_mem_quota = 0, p_quota_denied = 0\<rparr>"

definition sample_pipe :: pipe where
  "sample_pipe = \<lparr>pi_data = replicate PIPESIZE 9, pi_nread = 0xFFFFFFFF, pi_nwrite = 1, pi_readopen = True, pi_writeopen = True\<rparr>"

definition sample_kernel :: kernel where
  "sample_kernel = \<lparr>km = sample_user, fss = sample_root, ftable = [], pipes = [0x80009000 \<mapsto> sample_pipe],
     ptab = [sample_proc], nextpid = 8, initproc = None, cur = Some 0, ticks = 0,
     cons = \<lparr>cons_buf = replicate INPUT_BUF_SIZE 0, cons_r = 0, cons_w = 0, cons_e = 0, cons_write_lock = initsleeplock\<rparr>,
     uart_tx = [], ckpt = \<lparr>ckpt_len = 0, ckpt_owner = 0, ckpt_buf = replicate CKPT_MAX 0\<rparr>, cslots = sample_slots,
     proxy_lock = initsleeplock, trampoline = 0x80000000, forkret_ra = 0\<rparr>"

lemma sample_kernel_sel [simp]:
  "km sample_kernel = sample_user" "cur sample_kernel = Some 0" "ptab sample_kernel = [sample_proc]"
  "pipes sample_kernel = [0x80009000 \<mapsto> sample_pipe]" "p_pagetable sample_proc = 0x80001000"
  "\<not> killed 0 sample_kernel"
  by (simp_all add: sample_kernel_def sample_proc_def killed_def)

lemma sample_pipe_wf: "wf_pipe sample_pipe" "pqueue sample_pipe = [9, 9]" "pi_readopen sample_pipe"
  by (simp_all add: wf_pipe_def sample_pipe_def pqueue_def ring_list_def ring_at_def PIPESIZE_def upt_rec)

theorem pipewrite_enqueues_witness:
  "\<exists>k' m pi'. m \<le> nat 2 \<and> pipes k' = (pipes sample_kernel)(0x80009000 \<mapsto> pi') \<and> wf_pipe pi' \<and>
    pqueue pi' = pqueue sample_pipe @ take m (user_bytes (km sample_kernel) (p_pagetable (ptab sample_kernel ! 0)) 0x5ABC (nat 2)) \<and>
    (if m = nat 2 then pipewrite 0x80009000 0x5ABC 2 sample_kernel = Inr (k', Done 2)
     else pipewrite 0x80009000 0x5ABC 2 sample_kernel = Inr (k', Asleep (Pipe_nwrite 0x80009000) m) \<and>
       length (pqueue pi') = PIPESIZE)"
  by (rule pipewrite_enqueues [of sample_kernel 0]) (use sample_writable sample_pipe_wf in \<open>simp_all add: writable_def\<close>)

theorem piperead_dequeues_witness:
  "if pqueue sample_pipe = [] \<and> pi_writeopen sample_pipe
    then \<exists>k'. piperead 0x80009000 0x5ABC 2 sample_kernel = Inr (k', Asleep (Pipe_nread 0x80009000) 0) \<and>
      pipes k' = pipes sample_kernel \<and> km k' = km sample_kernel
    else \<exists>k' pi'. piperead 0x80009000 0x5ABC 2 sample_kernel = Inr (k', Done (int 2)) \<and>
      pipes k' = (pipes sample_kernel)(0x80009000 \<mapsto> pi') \<and>
      wf_pipe pi' \<and> pqueue sample_pipe = take 2 (pqueue sample_pipe) @ pqueue pi' \<and>
      user_bytes (km k') 0x80001000 0x5ABC 2 = take 2 (pqueue sample_pipe) \<and>
      (\<forall>v a. user_addr (km sample_kernel) 0x80001000 v = Some a \<and> 2 \<le> unat (v - 0x5ABC) \<longrightarrow>
        phys (km k') a = phys (km sample_kernel) a)"
  by (rule piperead_dequeues [of sample_kernel 0 "0x80001000" "[]"])
    (use sample_writable sample_uspace sample_pipe_wf in simp_all)

end
