(* ===== verification/Printf.thy ===== *)
theory Printf
  imports KState
begin

text \<open>
  \<open>kernel/printf.c\<close> and the reports that the kernel prints about its processes: \<open>panic_dump\<close>, and
  \<open>procdump\<close> of \<open>kernel/proc.c\<close>. The output of a call is the list of bytes it hands to the UART. An
  argument of \<open>printf\<close> is the 64-bit slot that \<open>va_arg\<close> reads, or a string; a directive with no
  argument left, or with one of the other kind, is outside the language.
\<close>

datatype parg = ANum uint64 | AStr "bytes option"

definition BACKSPACE :: uint where [hdr]: "BACKSPACE = 0x100"

definition consputc :: "uint \<Rightarrow> bytes" where
  "consputc c = (if c = BACKSPACE then bytes_of [CHR 0x08] @ bytes_of '' '' @ bytes_of [CHR 0x08] else [ucast c])"

definition digits :: bytes where
  "digits = bytes_of ''0123456789abcdef''"

section \<open>printint and printptr\<close>

text \<open>\<open>buf\<close> has 20 bytes; the digits are stored from the least significant one on.\<close>

function digit_loop :: "nat \<Rightarrow> nat \<Rightarrow> bytes \<Rightarrow> bytes res" where
  "digit_loop base x buf =
     (if length buf < 20
      then (let buf = buf @ [digits ! (x mod base)]
            in if x div base \<noteq> 0 then digit_loop base (x div base) buf else Inr buf)
      else Inl OutOfBounds)"
  by pat_completeness auto
termination
  by (relation "measure (\<lambda>(base, x, buf). 20 - length buf)") auto

declare digit_loop.simps [simp del]

definition printint :: "uint64 \<Rightarrow> nat \<Rightarrow> bool \<Rightarrow> bytes res" where
  "printint xx base sign =
     (let sign = (sign \<and> sint xx < 0);
          x = (if sign then - xx else xx)
      in bindE (digit_loop base (unat x) []) (\<lambda>buf.
           if sign then (if length buf < 20 then Inr (rev (buf @ bytes_of ''-'')) else Inl OutOfBounds)
           else Inr (rev buf)))"

primrec printptr_loop :: "nat \<Rightarrow> uint64 \<Rightarrow> bytes" where
  "printptr_loop 0 x = []"
| "printptr_loop (Suc n) x = digits ! unat (drop_bit 60 x) # printptr_loop n (push_bit 4 x)"

definition printptr :: "uint64 \<Rightarrow> bytes" where
  "printptr x = bytes_of ''0x'' @ printptr_loop 16 x"

section \<open>printf\<close>

definition va_num :: "parg list \<Rightarrow> (uint64 \<Rightarrow> bytes res) \<Rightarrow> (parg list \<Rightarrow> bytes res) \<Rightarrow> bytes res" where
  "va_num args out cont =
     (case args of
        ANum x # args' \<Rightarrow> bindE (out x) (\<lambda>b. bindE (cont args') (\<lambda>bs. Inr (b @ bs)))
      | _ \<Rightarrow> Inl OutOfBounds)"

definition va_str :: "parg list \<Rightarrow> (parg list \<Rightarrow> bytes res) \<Rightarrow> bytes res" where
  "va_str args cont =
     (case args of
        AStr s # args' \<Rightarrow>
          (let s = (case s of Some b \<Rightarrow> b | None \<Rightarrow> lit ''(null)'')
           in if terminated s then bindE (cont args') (\<lambda>bs. Inr (cstr s @ bs)) else Inl OutOfBounds)
      | _ \<Rightarrow> Inl OutOfBounds)"

lemma va_cong [fundef_cong]:
  "args = args' \<Longrightarrow> out = out' \<Longrightarrow> (\<And>a. length a < length args' \<Longrightarrow> cont a = cont' a) \<Longrightarrow> va_num args out cont = va_num args' out' cont'"
  "args = args' \<Longrightarrow> (\<And>a. length a < length args' \<Longrightarrow> cont a = cont' a) \<Longrightarrow> va_str args cont = va_str args' cont'"
  by (auto simp: va_num_def va_str_def Let_def split: list.splits parg.splits intro!: bindE_cong)

text \<open>Conversions of the argument slot: \<open>int\<close>, \<open>uint32\<close> and \<open>uint64\<close>.\<close>

definition as_int :: "uint64 \<Rightarrow> uint64" where
  "as_int x = scast (ucast x :: uint)"

definition as_uint32 :: "uint64 \<Rightarrow> uint64" where
  "as_uint32 x = ucast (ucast x :: uint)"

abbreviation chr :: "char \<Rightarrow> uchar" where
  "chr c \<equiv> of_char c"

function printf_loop :: "bytes \<Rightarrow> parg list \<Rightarrow> bytes res" where
  "printf_loop [] args = Inl OutOfBounds"
| "printf_loop (cx # rest) args =
     (if cx = 0 then Inr []
      else if cx \<noteq> chr CHR ''%'' then bindE (printf_loop rest args) (\<lambda>bs. Inr (consputc (ucast cx) @ bs))
      else (case rest of
        [] \<Rightarrow> Inl OutOfBounds
      | c0 # r0 \<Rightarrow>
          if c0 \<noteq> 0 \<and> r0 = [] then Inl OutOfBounds
          else (let c1 = (if c0 \<noteq> 0 then hd r0 else 0)
            in if c1 \<noteq> 0 \<and> tl r0 = [] then Inl OutOfBounds
               else (let c2 = (if c1 \<noteq> 0 then hd (tl r0) else 0)
                 in if c0 = chr CHR ''d'' then va_num args (\<lambda>x. printint (as_int x) 10 True) (printf_loop r0)
                    else if c0 = chr CHR ''l'' \<and> c1 = chr CHR ''d''
                    then va_num args (\<lambda>x. printint x 10 True) (printf_loop (drop 1 r0))
                    else if c0 = chr CHR ''l'' \<and> c1 = chr CHR ''l'' \<and> c2 = chr CHR ''d''
                    then va_num args (\<lambda>x. printint x 10 True) (printf_loop (drop 2 r0))
                    else if c0 = chr CHR ''u'' then va_num args (\<lambda>x. printint (as_uint32 x) 10 False) (printf_loop r0)
                    else if c0 = chr CHR ''l'' \<and> c1 = chr CHR ''u''
                    then va_num args (\<lambda>x. printint x 10 False) (printf_loop (drop 1 r0))
                    else if c0 = chr CHR ''l'' \<and> c1 = chr CHR ''l'' \<and> c2 = chr CHR ''u''
                    then va_num args (\<lambda>x. printint x 10 False) (printf_loop (drop 2 r0))
                    else if c0 = chr CHR ''x'' then va_num args (\<lambda>x. printint (as_uint32 x) 16 False) (printf_loop r0)
                    else if c0 = chr CHR ''l'' \<and> c1 = chr CHR ''x''
                    then va_num args (\<lambda>x. printint x 16 False) (printf_loop (drop 1 r0))
                    else if c0 = chr CHR ''l'' \<and> c1 = chr CHR ''l'' \<and> c2 = chr CHR ''x''
                    then va_num args (\<lambda>x. printint x 16 False) (printf_loop (drop 2 r0))
                    else if c0 = chr CHR ''p'' then va_num args (\<lambda>x. Inr (printptr x)) (printf_loop r0)
                    else if c0 = chr CHR ''c'' then va_num args (\<lambda>x. Inr (consputc (ucast x))) (printf_loop r0)
                    else if c0 = chr CHR ''s'' then va_str args (printf_loop r0)
                    else if c0 = chr CHR ''%'' then bindE (printf_loop r0 args) (\<lambda>bs. Inr (chr CHR ''%'' # bs))
                    else if c0 = 0 then Inr []
                    else bindE (printf_loop r0 args) (\<lambda>bs. Inr (chr CHR ''%'' # consputc (ucast c0) @ bs))))))"
  by pat_completeness auto
termination
  by (relation "measure (\<lambda>(fmt, args). length fmt)") auto

declare printf_loop.simps [simp del]

definition printf :: "string \<Rightarrow> parg list \<Rightarrow> bytes res" where
  "printf fmt args = printf_loop (lit fmt) args"

section \<open>Reports\<close>

definition state_name :: "string list \<Rightarrow> procstate \<Rightarrow> bytes" where
  "state_name tab st = lit (tab ! (case st of UNUSED \<Rightarrow> 0 | USED \<Rightarrow> 1 | SLEEPING \<Rightarrow> 2 | RUNNABLE \<Rightarrow> 3 | RUNNING \<Rightarrow> 4 | ZOMBIE \<Rightarrow> 5))"

abbreviation num_arg :: "int \<Rightarrow> parg" where
  "num_arg x \<equiv> ANum (of_int x)"

fun panic_dump_loop :: "proc list \<Rightarrow> bytes res" where
  "panic_dump_loop [] = Inr []"
| "panic_dump_loop (p # ps) =
     (if p_state p = UNUSED then panic_dump_loop ps
      else bindE (printf ''pid=%d state=%s name=''
             [num_arg (p_pid p), AStr (Some (state_name [''unused'', ''used'', ''sleep'', ''runble'', ''run'', ''zombie''] (p_state p)))])
             (\<lambda>a. bindE (printf '' killed=%d\<newline>'' [num_arg (if p_killed p then 1 else 0)])
             (\<lambda>c. bindE (panic_dump_loop ps) (\<lambda>rest. Inr (a @ cstr (take 16 (p_name p)) @ c @ rest)))))"

definition panic_dump :: "proc list \<Rightarrow> bytes res" where
  "panic_dump ps =
     bindE (printf ''[PANIC_DUMP_BEGIN]\<newline>'' []) (\<lambda>a.
     bindE (panic_dump_loop ps) (\<lambda>b.
     bindE (printf ''[PANIC_DUMP_END]\<newline>'' []) (\<lambda>c. Inr (a @ b @ c))))"

text \<open>What \<open>panic\<close> prints before it stops the machine.\<close>

definition panic :: "bytes \<Rightarrow> proc list \<Rightarrow> bytes res" where
  "panic s ps =
     bindE (printf ''panic: '' []) (\<lambda>a.
     bindE (printf ''%s\<newline>'' [AStr (Some s)]) (\<lambda>b.
     bindE (panic_dump ps) (\<lambda>c. Inr (a @ b @ c))))"

fun procdump_loop :: "proc list \<Rightarrow> bytes res" where
  "procdump_loop [] = Inr []"
| "procdump_loop (p # ps) =
     (if p_state p = UNUSED then procdump_loop ps
      else bindE (printf ''%d %s %s''
             [num_arg (p_pid p), AStr (Some (state_name [''unused'', ''used'', ''sleep '', ''runble'', ''run   '', ''zombie''] (p_state p))),
              AStr (Some (p_name p))])
             (\<lambda>a. bindE (printf ''\<newline>'' []) (\<lambda>b. bindE (procdump_loop ps) (\<lambda>rest. Inr (a @ b @ rest)))))"

definition procdump :: "proc list \<Rightarrow> bytes res" where
  "procdump ps = bindE (printf ''\<newline>'' []) (\<lambda>a. bindE (procdump_loop ps) (\<lambda>b. Inr (a @ b)))"

definition kprintf :: "bytes res \<Rightarrow> kernel \<Rightarrow> kernel res" where
  "kprintf out k = bindE out (\<lambda>bs. Inr (k\<lparr>uart_tx := uart_tx k @ bs\<rparr>))"

section \<open>printint prints the number\<close>

text \<open>The digits of a number, least significant first, and the value of a digit list.\<close>

function digs :: "nat \<Rightarrow> nat \<Rightarrow> nat list" where
  "digs base x = (if 2 \<le> base \<and> x div base \<noteq> 0 then x mod base # digs base (x div base) else [x mod base])"
  by pat_completeness auto
termination
  by (relation "measure snd") (auto simp: div_greater_zero_iff intro!: div_less_dividend)

declare digs.simps [simp del]

definition dvalue :: "nat \<Rightarrow> nat list \<Rightarrow> nat" where
  "dvalue base ds = foldr (\<lambda>d a. d + base * a) ds 0"

lemma dvalue_digs:
  assumes "2 \<le> base"
  shows "dvalue base (digs base x) = x"
proof (induction x rule: less_induct)
  case (less x)
  show ?case
  proof (cases "x div base = 0")
    case True
    then have "x < base" using assms by (simp add: div_eq_0_iff)
    then show ?thesis using True by (simp add: digs.simps [of base x] dvalue_def)
  next
    case False
    then have "x div base < x" using assms by (intro div_less_dividend) (auto simp: div_eq_0_iff)
    then show ?thesis using less [of "x div base"] False assms by (simp add: digs.simps [of base x] dvalue_def)
  qed
qed

lemma digs_less: "2 \<le> base \<Longrightarrow> d \<in> set (digs base x) \<Longrightarrow> d < base"
proof (induction x rule: less_induct)
  case (less x)
  show ?case
  proof (cases "x div base = 0")
    case True
    then show ?thesis using less.prems by (auto simp: digs.simps [of base x] div_eq_0_iff)
  next
    case False
    then have "x div base < x" using less.prems by (intro div_less_dividend) (auto simp: div_eq_0_iff)
    then show ?thesis using less.IH [of "x div base"] False less.prems
      by (auto simp: digs.simps [of base x])
  qed
qed

lemma digs_canonical: "2 \<le> base \<Longrightarrow> digs base x \<noteq> [] \<and> (hd (rev (digs base x)) \<noteq> 0 \<or> digs base x = [0])"
proof (induction x rule: less_induct)
  case (less x)
  show ?case
  proof (cases "x div base = 0")
    case True
    then show ?thesis using less.prems by (auto simp: digs.simps [of base x] div_eq_0_iff)
  next
    case False
    then have "x div base < x" using less.prems by (intro div_less_dividend) (auto simp: div_eq_0_iff)
    then have IH: "digs base (x div base) \<noteq> []" "hd (rev (digs base (x div base))) \<noteq> 0 \<or> digs base (x div base) = [0]"
      using less.IH less.prems by auto
    have "digs base (x div base) \<noteq> [0]"
      using dvalue_digs [OF less.prems, of "x div base"] False by (auto simp: dvalue_def)
    then show ?thesis using IH False less.prems by (simp add: digs.simps [of base x])
  qed
qed

lemma length_digs:
  assumes "2 \<le> base" and "x < base ^ n" and "0 < n"
  shows "length (digs base x) \<le> n"
  using assms(2,3)
proof (induction n arbitrary: x)
  case 0
  then show ?case by simp
next
  case (Suc n)
  show ?case
  proof (cases "x div base = 0")
    case True
    then show ?thesis by (simp add: digs.simps [of base x])
  next
    case False
    have "x div base < base ^ n" using Suc.prems(1) assms(1) by (simp add: less_mult_imp_div_less mult.commute)
    moreover have "0 < n" using False Suc.prems(1) by (cases n) (auto simp: div_eq_0_iff)
    ultimately show ?thesis using Suc.IH [of "x div base"] False assms(1) by (simp add: digs.simps [of base x])
  qed
qed

lemma digit_loop_digs:
  assumes "2 \<le> base"
  shows "length buf + length (digs base x) \<le> 20 \<Longrightarrow>
    digit_loop base x buf = Inr (buf @ map ((!) digits) (digs base x))"
proof (induction x arbitrary: buf rule: less_induct)
  case (less x)
  show ?case
  proof (cases "x div base = 0")
    case True
    then show ?thesis using less.prems
      by (simp add: digit_loop.simps [of base x] digs.simps [of base x])
  next
    case False
    then have "x div base < x" using assms by (intro div_less_dividend) (auto simp: div_eq_0_iff)
    then show ?thesis using less.IH [of "x div base" "buf @ [digits ! (x mod base)]"] False less.prems assms
      by (simp add: digit_loop.simps [of base x buf] digs.simps [of base x])
  qed
qed

lemma unat_uminus_negative:
  assumes "sint (xx :: uint64) < 0"
  shows "int (unat (- xx)) = - sint xx" and "unat (- xx) \<le> 2 ^ 63"
proof -
  have lo: "- (2 ^ 63) \<le> sint xx" using sint_greater_eq [of xx] by simp
  have "- xx = of_int (- sint xx)" by simp
  then have "int (unat (- xx)) = take_bit 64 (- sint xx)" by (simp only: uint_nat [symmetric] unsigned_of_int) simp
  also have "\<dots> = - sint xx" using lo assms by (intro take_bit_int_eq_self) auto
  finally show *: "int (unat (- xx)) = - sint xx" .
  have "int (unat (- xx)) \<le> int (2 ^ 63)" using * lo by simp
  then show "unat (- xx) \<le> 2 ^ 63" by (simp only: of_nat_le_iff)
qed

lemma printint_digs:
  assumes "base = 10 \<or> base = 16" and "neg \<longleftrightarrow> sign \<and> sint xx < 0" and "sign \<longrightarrow> base = 10"
  shows "printint xx base sign = Inr ((if neg then bytes_of ''-'' else []) @ map ((!) digits) (rev (digs base (unat (if neg then - xx else xx)))))"
proof -
  define x where "x = unat (if neg then - xx else xx)"
  have b: "2 \<le> base" using assms(1) by auto
  have len: "length (digs base x) \<le> (if neg then 19 else 20)"
  proof (cases neg)
    case True
    then have "x \<le> 2 ^ 63" using unat_uminus_negative assms(2) by (simp add: x_def)
    then have "x < base ^ 19" using True assms by (auto intro: le_less_trans)
    then show ?thesis using length_digs [OF b, of x 19] True by simp
  next
    case False
    have "x < 2 ^ 64" using unsigned_less [of xx] False by (simp add: x_def)
    also have "2 ^ 64 \<le> base ^ 20" using assms(1) by auto
    finally show ?thesis using length_digs [OF b, of x 20] False by simp
  qed
  have "digit_loop base x [] = Inr (map ((!) digits) (digs base x))"
    using digit_loop_digs [OF b, of "[]" x] len by (simp split: if_splits)
  then show ?thesis using len assms(2) by (auto simp: printint_def Let_def x_def rev_map bytes_of_def)
qed

text \<open>
  \<open>printint\<close> prints every 64-bit number: the output is a minus sign for a negative
  number of a signed conversion, and the digits of the absolute value, most significant first and
  without leading zeros, whose value is the number. The 20 bytes of its buffer are enough in both bases.
\<close>

theorem printint_correct:
  assumes "base = 10 \<or> base = 16" and "neg \<longleftrightarrow> sign \<and> sint xx < 0" and "sign \<longrightarrow> base = 10"
  shows "\<exists>ds. printint xx base sign = Inr ((if neg then bytes_of ''-'' else []) @ map ((!) digits) ds) \<and>
    (\<forall>d\<in>set ds. d < base) \<and> ds \<noteq> [] \<and> (hd ds \<noteq> 0 \<or> ds = [0]) \<and>
    (if neg then sint xx = - int (dvalue base (rev ds)) else unat xx = dvalue base (rev ds))"
proof -
  define x where "x = unat (if neg then - xx else xx)"
  let ?ds = "rev (digs base x)"
  have b: "2 \<le> base" using assms(1) by auto
  have "int x = - sint xx" if neg using unat_uminus_negative that assms(2) by (simp add: x_def)
  then have "if neg then sint xx = - int (dvalue base (rev ?ds)) else unat xx = dvalue base (rev ?ds)"
    using dvalue_digs [OF b, of x] by (cases neg) (simp_all add: x_def)
  moreover have "?ds \<noteq> [] \<and> (hd ?ds \<noteq> 0 \<or> ?ds = [0])" using digs_canonical [OF b, of x] by auto
  moreover have "\<forall>d\<in>set ?ds. d < base" using digs_less [OF b] by auto
  ultimately show ?thesis using printint_digs [OF assms] unfolding x_def by blast
qed

theorem printint_correct_witness:
  "\<exists>ds. printint (- 40) 10 True = Inr ((if True then bytes_of ''-'' else []) @ map ((!) digits) ds) \<and>
    (\<forall>d\<in>set ds. d < 10) \<and> ds \<noteq> [] \<and> (hd ds \<noteq> 0 \<or> ds = [0]) \<and>
    (if True then sint (- 40 :: uint64) = - int (dvalue 10 (rev ds)) else unat (- 40 :: uint64) = dvalue 10 (rev ds))"
  by (rule printint_correct) simp_all

end
