(* ===== verification/Console.thy ===== *)
theory Console
  imports Pipe Printf
begin

text \<open>
  \<open>kernel/console.c\<close>: the line discipline between the UART and \<open>read\<close> and \<open>write\<close> on the console. The
  UART itself is a device; \<open>uart_tx\<close> is the sequence of bytes it has been given. Both transfer functions
  are called through \<open>devsw\<close> with \<open>user_src\<close> and \<open>user_dst\<close> set, so \<open>either_copyin\<close> and \<open>either_copyout\<close> copy
  from and to the current process.
\<close>

definition ctrl :: "char \<Rightarrow> uchar" where
  "ctrl x = of_char x - of_char (CHR ''@'')"

definition newline :: uchar where
  "newline = of_char (CHR ''\<newline>'')"

section \<open>Operations\<close>

function consolewrite_loop :: "uint64 \<Rightarrow> int \<Rightarrow> nat \<Rightarrow> kernel \<Rightarrow> (kernel \<times> nat) res" where
  "consolewrite_loop src n i k =
     (if int i < n
      then (let nn = (if 1024 > n - int i then nat (n - int i) else 1024)
            in bindE (ucopyin (src + of_nat i) nn k) (\<lambda>(k, r, buf).
               if r = -1 then Inr (k, i)
               else consolewrite_loop src n (i + nn) (k\<lparr>uart_tx := uart_tx k @ buf\<rparr>)))
      else Inr (k, i))"
  by pat_completeness auto
termination
  by (relation "measure (\<lambda>(src, n, i, k). nat n - i)") auto

declare consolewrite_loop.simps [simp del]

definition consolewrite :: "uint64 \<Rightarrow> int \<Rightarrow> kernel \<Rightarrow> (kernel \<times> outcome) res" where
  "consolewrite src n k =
     bindE (myproc k) (\<lambda>me.
     bindE (acquiresleep (p_pid (ptab k ! me)) (cons_write_lock (cons k))) (\<lambda>lk.
     bindE (consolewrite_loop src n 0 (k\<lparr>cons := (cons k)\<lparr>cons_write_lock := lk\<rparr>\<rparr>)) (\<lambda>(k, i).
     Inr (k\<lparr>cons := (cons k)\<lparr>cons_write_lock := releasesleep (cons_write_lock (cons k))\<rparr>\<rparr>, Done (int i)))))"

text \<open>\<open>i\<close> is \<open>target - n\<close>, the number of bytes delivered so far.\<close>

function consoleread_loop :: "uint64 \<Rightarrow> int \<Rightarrow> nat \<Rightarrow> kernel \<Rightarrow> (kernel \<times> outcome) res" where
  "consoleread_loop dst n i k =
     (if int i < n
      then if cons_r (cons k) = cons_w (cons k)
        then bindE (myproc k) (\<lambda>me.
             if killed me k then Inr (k, Done (-1))
             else bindE (sleep Cons_r k) (\<lambda>k. Inr (k, Asleep Cons_r i)))
        else (let c = ring_at INPUT_BUF_SIZE (cons_buf (cons k)) (cons_r (cons k));
                  k' = k\<lparr>cons := (cons k)\<lparr>cons_r := cons_r (cons k) + 1\<rparr>\<rparr>
              in if c = ctrl (CHR ''D'')
                 then Inr (if 0 < i then k else k', Done (int i))
                 else bindE (ucopyout (dst + of_nat i) [c] k') (\<lambda>(k, r).
                      if r = -1 then Inr (k, Done (int i))
                      else if c = newline then Inr (k, Done (int (Suc i)))
                      else consoleread_loop dst n (Suc i) k))
      else Inr (k, Done (int i)))"
  by pat_completeness auto
termination
  by (relation "measure (\<lambda>(dst, n, i, k). nat n - i)") auto

declare consoleread_loop.simps [simp del]

definition consoleread :: "uint64 \<Rightarrow> int \<Rightarrow> kernel \<Rightarrow> (kernel \<times> outcome) res" where
  "consoleread dst n k = consoleread_loop dst n 0 k"

text \<open>The loop of the kill character; the second component is the output.\<close>

function kill_line :: "console \<Rightarrow> console \<times> bytes" where
  "kill_line c =
     (if cons_e c \<noteq> cons_w c \<and> ring_at INPUT_BUF_SIZE (cons_buf c) (cons_e c - 1) \<noteq> newline
      then (let (c', out) = kill_line (c\<lparr>cons_e := cons_e c - 1\<rparr>) in (c', consputc BACKSPACE @ out))
      else (c, []))"
  by pat_completeness auto
termination
proof (relation "measure (\<lambda>c. unat (cons_e c - cons_w c))", goal_cases)
  case (2 c)
  have "unat (cons_e c - cons_w c) = Suc (unat (cons_e c - 1 - cons_w c))"
    using 2 pring.count_down(2) [of "cons_e c" "cons_w c"] by blast
  then show ?case by simp
qed simp

declare kill_line.simps [simp del]

definition consoleintr :: "uchar \<Rightarrow> kernel \<Rightarrow> kernel res" where
  "consoleintr c k =
     (let cs = cons k
      in if c = ctrl (CHR ''P'') then kprintf (procdump (ptab k)) k
         else if c = ctrl (CHR ''U'')
         then (let (cs, out) = kill_line cs in Inr (k\<lparr>cons := cs, uart_tx := uart_tx k @ out\<rparr>))
         else if c = ctrl (CHR ''H'') \<or> c = 0x7f
         then Inr (if cons_e cs \<noteq> cons_w cs
                   then k\<lparr>cons := cs\<lparr>cons_e := cons_e cs - 1\<rparr>, uart_tx := uart_tx k @ consputc BACKSPACE\<rparr> else k)
         else if c \<noteq> 0 \<and> cons_e cs - cons_r cs < of_nat INPUT_BUF_SIZE
         then (let c = (if c = of_char (CHR 0x0D) then newline else c);
                   cs = cs\<lparr>cons_buf := (cons_buf cs)[unat (cons_e cs) mod INPUT_BUF_SIZE := c], cons_e := cons_e cs + 1\<rparr>;
                   k = k\<lparr>cons := cs, uart_tx := uart_tx k @ consputc (ucast c)\<rparr>
               in if c = newline \<or> c = ctrl (CHR ''D'') \<or> cons_e cs - cons_r cs = of_nat INPUT_BUF_SIZE
                  then Inr (wakeup (Some Cons_r) (k\<lparr>cons := cs\<lparr>cons_w := cons_e cs\<rparr>\<rparr>))
                  else Inr k)
         else Inr k)"

section \<open>The line discipline\<close>

text \<open>
  What the user sees: the bytes ready to be read and the line being edited. A line is handed over by
  newline, end-of-file, or when the 128 bytes are used up.
\<close>

definition lineedit :: "uchar \<Rightarrow> bytes \<times> bytes \<Rightarrow> bytes \<times> bytes" where
  "lineedit c st =
     (case st of (ready, edit) \<Rightarrow>
        if c = ctrl (CHR ''P'') then (ready, edit)
        else if c = ctrl (CHR ''U'') then (ready, [])
        else if c = ctrl (CHR ''H'') \<or> c = 0x7f then (ready, butlast edit)
        else if c \<noteq> 0 \<and> length ready + length edit < INPUT_BUF_SIZE
        then (let c = (if c = of_char (CHR 0x0D) then newline else c); edit = edit @ [c]
              in if c = newline \<or> c = ctrl (CHR ''D'') \<or> length ready + length edit = INPUT_BUF_SIZE
                 then (ready @ edit, []) else (ready, edit))
        else (ready, edit))"

interpretation cring: ring INPUT_BUF_SIZE "TYPE(32)"
  by unfold_locales (simp_all add: INPUT_BUF_SIZE_def)

definition cons_all :: "console \<Rightarrow> bytes" where
  "cons_all c = ring_list INPUT_BUF_SIZE (cons_buf c) (cons_r c) (cons_e c)"

definition cons_abs :: "console \<Rightarrow> bytes \<times> bytes" where
  "cons_abs c = (let n = unat (cons_w c - cons_r c) in (take n (cons_all c), drop n (cons_all c)))"

definition wf_cons :: "console \<Rightarrow> bool" where
  "wf_cons c \<longleftrightarrow> length (cons_buf c) = INPUT_BUF_SIZE \<and> unat (cons_w c - cons_r c) \<le> unat (cons_e c - cons_r c) \<and>
     unat (cons_e c - cons_r c) \<le> INPUT_BUF_SIZE \<and> newline \<notin> set (snd (cons_abs c))"

lemma length_cons_all [simp]: "length (cons_all c) = unat (cons_e c - cons_r c)"
  by (simp add: cons_all_def)

lemma edit_empty:
  assumes "wf_cons c"
  shows "cons_e c = cons_w c \<longleftrightarrow> snd (cons_abs c) = []"
proof -
  have "snd (cons_abs c) = [] \<longleftrightarrow> unat (cons_e c - cons_r c) = unat (cons_w c - cons_r c)"
    using assms by (auto simp: cons_abs_def Let_def wf_cons_def)
  also have "\<dots> \<longleftrightarrow> cons_e c - cons_r c = cons_w c - cons_r c" by (simp add: word_unat_eq_iff)
  finally show ?thesis by simp
qed

lemma erase:
  assumes "wf_cons c" and "cons_e c \<noteq> cons_w c"
  defines "c' \<equiv> c\<lparr>cons_e := cons_e c - 1\<rparr>"
  shows "wf_cons c'" and "cons_abs c' = (fst (cons_abs c), butlast (snd (cons_abs c)))"
    and "ring_at INPUT_BUF_SIZE (cons_buf c) (cons_e c - 1) = last (snd (cons_abs c))"
proof -
  let ?n = "unat (cons_w c - cons_r c)"
  have ne: "snd (cons_abs c) \<noteq> []" using edit_empty assms(1,2) by blast
  have lt: "?n < unat (cons_e c - cons_r c)"
    using ne assms(1) by (auto simp: cons_abs_def Let_def wf_cons_def)
  then have er: "cons_e c \<noteq> cons_r c" by auto
  have all: "cons_all c = cons_all c' @ [ring_at INPUT_BUF_SIZE (cons_buf c) (cons_e c - 1)]"
    using cring.unput [OF er] by (simp add: cons_all_def c'_def)
  have cnt: "unat (cons_e c - cons_r c) = Suc (unat (cons_e c' - cons_r c'))"
    using cring.count_down(2) [OF er] by (simp add: c'_def)
  have "?n \<le> length (cons_all c')" using lt cnt by simp
  then have snd: "snd (cons_abs c) = snd (cons_abs c') @ [ring_at INPUT_BUF_SIZE (cons_buf c) (cons_e c - 1)]"
    and fst: "fst (cons_abs c) = fst (cons_abs c')"
    using all by (simp_all add: cons_abs_def Let_def c'_def)
  show abs: "cons_abs c' = (fst (cons_abs c), butlast (snd (cons_abs c)))" using snd fst by (simp add: prod_eq_iff)
  show "ring_at INPUT_BUF_SIZE (cons_buf c) (cons_e c - 1) = last (snd (cons_abs c))" using snd by simp
  show "wf_cons c'" using assms(1) lt cnt snd by (auto simp: wf_cons_def c'_def)
qed

lemma kill_line_spec:
  "wf_cons c \<Longrightarrow> wf_cons (fst (kill_line c)) \<and> cons_abs (fst (kill_line c)) = (fst (cons_abs c), [])"
proof (induction c rule: kill_line.induct)
  case (1 c)
  show ?case
  proof (cases "cons_e c = cons_w c")
    case True
    then show ?thesis using edit_empty [OF 1(2)] 1(2) by (simp add: kill_line.simps [of c] prod_eq_iff)
  next
    case False
    note E = erase [OF 1(2) False]
    have "snd (cons_abs c) \<noteq> []" using edit_empty 1(2) False by blast
    then have "last (snd (cons_abs c)) \<noteq> newline" using 1(2) by (metis last_in_set wf_cons_def)
    then have nl: "ring_at INPUT_BUF_SIZE (cons_buf c) (cons_e c - 1) \<noteq> newline" using E(3) by simp
    have "fst (kill_line c) = fst (kill_line (c\<lparr>cons_e := cons_e c - 1\<rparr>))"
      using False nl by (simp add: kill_line.simps [of c] split: prod.splits)
    then show ?thesis using 1(1) False nl E(1,2) by simp
  qed
qed

lemma room_iff: "cons_e c - cons_r c < of_nat INPUT_BUF_SIZE \<longleftrightarrow> unat (cons_e c - cons_r c) < INPUT_BUF_SIZE"
  "cons_e c - cons_r c = of_nat INPUT_BUF_SIZE \<longleftrightarrow> unat (cons_e c - cons_r c) = INPUT_BUF_SIZE"
  by (simp_all add: INPUT_BUF_SIZE_def word_less_nat_alt word_unat_eq_iff)

lemma length_cons_abs:
  "wf_cons c \<Longrightarrow> length (fst (cons_abs c)) + length (snd (cons_abs c)) = unat (cons_e c - cons_r c)"
  by (simp add: cons_abs_def Let_def wf_cons_def)

lemma insert_char:
  fixes c :: console and x :: uchar
  assumes "wf_cons c" and "unat (cons_e c - cons_r c) < INPUT_BUF_SIZE"
  defines "c1 \<equiv> c\<lparr>cons_buf := (cons_buf c)[unat (cons_e c) mod INPUT_BUF_SIZE := x], cons_e := cons_e c + 1\<rparr>"
  shows "cons_abs c1 = (fst (cons_abs c), snd (cons_abs c) @ [x])"
    and "unat (cons_e c1 - cons_r c1) = Suc (unat (cons_e c - cons_r c))"
    and "x \<noteq> newline \<Longrightarrow> wf_cons c1"
    and "wf_cons (c1\<lparr>cons_w := cons_e c1\<rparr>)"
    and "cons_abs (c1\<lparr>cons_w := cons_e c1\<rparr>) = (fst (cons_abs c) @ snd (cons_abs c) @ [x], [])"
proof -
  have len: "length (cons_buf c) = INPUT_BUF_SIZE" and le: "unat (cons_w c - cons_r c) \<le> unat (cons_e c - cons_r c)"
    using assms(1) by (auto simp: wf_cons_def)
  have all: "cons_all c1 = cons_all c @ [x]" using cring.put(1) [OF len assms(2)] by (simp add: cons_all_def c1_def)
  show cnt: "unat (cons_e c1 - cons_r c1) = Suc (unat (cons_e c - cons_r c))"
    using cring.put(2) [OF len assms(2)] by (simp add: c1_def)
  show abs: "cons_abs c1 = (fst (cons_abs c), snd (cons_abs c) @ [x])"
    using all le by (simp add: cons_abs_def Let_def c1_def)
  show "wf_cons c1" if "x \<noteq> newline"
    using assms(1,2) cnt abs that by (auto simp: wf_cons_def c1_def)
  have all2: "cons_all (c1\<lparr>cons_w := cons_e c1\<rparr>) = cons_all c1" by (simp add: cons_all_def)
  show abs2: "cons_abs (c1\<lparr>cons_w := cons_e c1\<rparr>) = (fst (cons_abs c) @ snd (cons_abs c) @ [x], [])"
    using all all2 cnt by (simp add: cons_abs_def Let_def)
  show "wf_cons (c1\<lparr>cons_w := cons_e c1\<rparr>)"
    using assms(1,2) cnt abs2 by (auto simp: wf_cons_def c1_def)
qed

text \<open>
  C32. The console interrupt handler implements the line discipline: whatever character arrives, the
  bytes ready for \<open>read\<close> and the line being edited change as \<open>lineedit\<close> says, for every position of the
  free-running indices, and the invariant of the input buffer is kept.
\<close>

theorem consoleintr_refines_lineedit:
  assumes "wf_cons (cons k)" and "consoleintr c k = Inr k'"
  shows "wf_cons (cons k') \<and> cons_abs (cons k') = lineedit c (cons_abs (cons k))"
proof -
  let ?cs = "cons k"
  obtain ready edit where re: "cons_abs ?cs = (ready, edit)" by (cases "cons_abs ?cs")
  define x where "x = (if c = of_char (CHR 0x0D) then newline else c)"
  define c1 where "c1 = ?cs\<lparr>cons_buf := (cons_buf ?cs)[unat (cons_e ?cs) mod INPUT_BUF_SIZE := x], cons_e := cons_e ?cs + 1\<rparr>"
  have len: "length ready + length edit = unat (cons_e ?cs - cons_r ?cs)" using length_cons_abs [OF assms(1)] re by simp
  consider (P) "c = ctrl (CHR ''P'')" | (U) "c \<noteq> ctrl (CHR ''P'')" "c = ctrl (CHR ''U'')"
    | (H) "c \<noteq> ctrl (CHR ''P'')" "c \<noteq> ctrl (CHR ''U'')" "c = ctrl (CHR ''H'') \<or> c = 0x7f"
    | (other) "c \<noteq> ctrl (CHR ''P'')" "c \<noteq> ctrl (CHR ''U'')" "\<not> (c = ctrl (CHR ''H'') \<or> c = 0x7f)"
    by blast
  then show ?thesis
  proof cases
    case P
    then show ?thesis using assms re by (auto simp: consoleintr_def lineedit_def kprintf_def Let_def)
  next
    case U
    then have "cons k' = fst (kill_line ?cs)" using assms(2) by (auto simp: consoleintr_def Let_def split: prod.splits)
    then show ?thesis using kill_line_spec [OF assms(1)] U re by (simp add: lineedit_def)
  next
    case H
    then have "cons k' = (if cons_e ?cs \<noteq> cons_w ?cs then ?cs\<lparr>cons_e := cons_e ?cs - 1\<rparr> else ?cs)"
      using assms(2) by (auto simp: consoleintr_def Let_def)
    then show ?thesis using erase(1,2) [OF assms(1)] edit_empty [OF assms(1)] assms(1) H re
      by (auto simp: lineedit_def)
  next
    case other
    show ?thesis
    proof (cases "c \<noteq> 0 \<and> unat (cons_e ?cs - cons_r ?cs) < INPUT_BUF_SIZE")
      case False
      then have "cons k' = ?cs" using other assms(2) by (auto simp: consoleintr_def Let_def room_iff)
      then show ?thesis using False other assms(1) re len by (auto simp: lineedit_def)
    next
      case True
      note I = insert_char [OF assms(1) True [THEN conjunct2], of x, folded c1_def, unfolded re]
      let ?commit = "x = newline \<or> x = ctrl (CHR ''D'') \<or> unat (cons_e c1 - cons_r c1) = INPUT_BUF_SIZE"
      have "cons k' = (if ?commit then c1\<lparr>cons_w := cons_e c1\<rparr> else c1)"
        using True other assms(2) room_iff(2) [of c1]
        by (auto simp: consoleintr_def Let_def room_iff(1) wakeup_def c1_def x_def split: if_splits)
      moreover have "lineedit c (ready, edit) = (if ?commit then (ready @ edit @ [x], []) else (ready, edit @ [x]))"
        using True other len I(2) by (auto simp: lineedit_def Let_def x_def)
      ultimately show ?thesis using I re by auto
    qed
  qed
qed

lemma sample_cons_wf: "wf_cons (cons sample_kernel)"
  by (simp add: wf_cons_def sample_kernel_def cons_abs_def cons_all_def)

theorem consoleintr_refines_lineedit_witness:
  "\<exists>k'. consoleintr 0x61 sample_kernel = Inr k' \<and> wf_cons (cons k') \<and>
    cons_abs (cons k') = lineedit 0x61 (cons_abs (cons sample_kernel))"
proof -
  obtain k' where k': "consoleintr 0x61 sample_kernel = Inr k'"
    by (simp add: consoleintr_def ctrl_def newline_def Let_def sample_kernel_def INPUT_BUF_SIZE_def)
  then show ?thesis using consoleintr_refines_lineedit [OF sample_cons_wf k'] by blast
qed

section \<open>Reading a line\<close>

lemma cons_get:
  assumes "wf_cons c" and "fst (cons_abs c) = x # rest"
  defines "c' \<equiv> c\<lparr>cons_r := cons_r c + 1\<rparr>"
  shows "cons_r c \<noteq> cons_w c" and "ring_at INPUT_BUF_SIZE (cons_buf c) (cons_r c) = x"
    and "wf_cons c'" and "cons_abs c' = (rest, snd (cons_abs c))"
proof -
  let ?n = "unat (cons_w c - cons_r c)"
  have n: "?n \<noteq> 0"
  proof
    assume "?n = 0"
    then show False using assms(2) by (simp add: cons_abs_def Let_def)
  qed
  then show rw: "cons_r c \<noteq> cons_w c" by auto
  have "?n \<le> unat (cons_e c - cons_r c)" using assms(1) by (simp add: wf_cons_def)
  then have re: "cons_r c \<noteq> cons_e c" using n by auto
  have all: "cons_all c = ring_at INPUT_BUF_SIZE (cons_buf c) (cons_r c) # cons_all c'"
    using cring.get [OF re] by (simp add: cons_all_def c'_def)
  have cw: "?n = Suc (unat (cons_w c' - cons_r c'))" using cring.count_down(1) [OF rw [symmetric]] by (simp add: c'_def)
  have ce: "unat (cons_e c - cons_r c) = Suc (unat (cons_e c' - cons_r c'))"
    using cring.count_down(1) [OF re [symmetric]] by (simp add: c'_def)
  show "ring_at INPUT_BUF_SIZE (cons_buf c) (cons_r c) = x" and abs: "cons_abs c' = (rest, snd (cons_abs c))"
    using assms(2) all cw by (simp_all add: cons_abs_def Let_def)
  show "wf_cons c'" using assms(1) abs cw ce by (simp add: wf_cons_def c'_def)
qed

lemma ucopyout_one':
  assumes "cur k = Some pr" and "p_pagetable (ptab k ! pr) = pt" and "uspace (km k) ps pt"
    and "writable (km k) pt dst n" and "i < n" and "n < 2 ^ 64"
    and "cur k0 = cur k" and "ptab k0 = ptab k" and "km k0 = km k"
  obtains m where "ucopyout (dst + of_nat i) [c] k0 = Inr (k0\<lparr>km := m\<rparr>, 0)" and "uspace m ps pt"
    and "upage m pt = upage (km k) pt" and "writable m pt dst n"
    and "\<And>v a. user_addr (km k) pt v = Some a \<Longrightarrow> phys m a = (if unat (v - dst) = i then c else phys (km k) a)"
proof -
  have a: "cur k0 = Some pr" "uspace (km k0) ps (mypt k0 pr)" "writable (km k0) (mypt k0 pr) dst n"
    using assms by simp_all
  show thesis
    by (rule ucopyout_one [OF a assms(5,6), of c]) (use assms(2,8,9) that in simp_all)
qed

lemma consoleread_loop_line:
  assumes "cur k = Some pr" and "p_pagetable (ptab k ! pr) = pt" and "uspace (km k) ps pt"
    and "writable (km k) pt dst (nat n)" and "n < 2 ^ 64" and "wf_cons (cons k)"
    and "fst (cons_abs (cons k)) = line @ newline # rest" and "newline \<notin> set line" and "ctrl (CHR ''D'') \<notin> set line"
    and "int i + int (length line) < n"
  shows "\<exists>k'. consoleread_loop dst n i k = Inr (k', Done (int (i + length line + 1))) \<and> wf_cons (cons k') \<and>
    cons_abs (cons k') = (rest, snd (cons_abs (cons k))) \<and> upage (km k') pt = upage (km k) pt \<and>
    (\<forall>v a. user_addr (km k) pt v = Some a \<longrightarrow>
       phys (km k') a = (if i \<le> unat (v - dst) \<and> unat (v - dst) \<le> i + length line
                         then (line @ [newline]) ! (unat (v - dst) - i) else phys (km k) a))"
  using assms
proof (induction line arbitrary: i k)
  case Nil
  have lt: "i < nat n" "nat n < 2 ^ 64" using Nil.prems(5,10) by auto
  define k0 where "k0 = k\<lparr>cons := (cons k)\<lparr>cons_r := cons_r (cons k) + 1\<rparr>\<rparr>"
  have hd: "fst (cons_abs (cons k)) = newline # rest" using Nil.prems(7) by simp
  note G = cons_get [OF Nil.prems(6) hd]
  have nd: "newline \<noteq> ctrl (CHR ''D'')" by (simp add: newline_def ctrl_def)
  obtain m where cp: "ucopyout (dst + of_nat i) [newline] k0 = Inr (k0\<lparr>km := m\<rparr>, 0)" "uspace m ps pt"
    "upage m pt = upage (km k) pt" "writable m pt dst (nat n)"
    "\<And>v a. user_addr (km k) pt v = Some a \<Longrightarrow> phys m a = (if unat (v - dst) = i then newline else phys (km k) a)"
    by (rule ucopyout_one' [OF Nil.prems(1-4) lt, of k0 newline]) (simp_all add: k0_def)
  have "consoleread_loop dst n i k = Inr (k0\<lparr>km := m\<rparr>, Done (int (Suc i)))"
    using G(1,2) nd cp(1) lt(1) by (subst consoleread_loop.simps) (simp add: Let_def k0_def)
  then show ?case using G(3,4) cp(3,5) by (intro exI [of _ "k0\<lparr>km := m\<rparr>"]) (auto simp: k0_def)
next
  case (Cons c line)
  have lt: "i < nat n" "nat n < 2 ^ 64" using Cons.prems(5,10) by auto
  define k0 where "k0 = k\<lparr>cons := (cons k)\<lparr>cons_r := cons_r (cons k) + 1\<rparr>\<rparr>"
  have hd: "fst (cons_abs (cons k)) = c # (line @ newline # rest)" using Cons.prems(7) by simp
  note G = cons_get [OF Cons.prems(6) hd]
  have c: "c \<noteq> newline" "c \<noteq> ctrl (CHR ''D'')" using Cons.prems(8,9) by auto
  obtain m where cp: "ucopyout (dst + of_nat i) [c] k0 = Inr (k0\<lparr>km := m\<rparr>, 0)" "uspace m ps pt"
    "upage m pt = upage (km k) pt" "writable m pt dst (nat n)"
    "\<And>v a. user_addr (km k) pt v = Some a \<Longrightarrow> phys m a = (if unat (v - dst) = i then c else phys (km k) a)"
    by (rule ucopyout_one' [OF Cons.prems(1-4) lt, of k0 c]) (simp_all add: k0_def)
  define k1 where "k1 = k0\<lparr>km := m\<rparr>"
  have "int i < n" using Cons.prems(10) by simp
  then have step: "consoleread_loop dst n i k = consoleread_loop dst n (Suc i) k1"
    using G(1,2) c cp(1) by (subst consoleread_loop.simps) (simp add: Let_def k0_def k1_def)
  have k1: "cur k1 = Some pr" "p_pagetable (ptab k1 ! pr) = pt" "km k1 = m"
    "cons k1 = (cons k)\<lparr>cons_r := cons_r (cons k) + 1\<rparr>" using Cons.prems(1,2) by (simp_all add: k1_def k0_def)
  have pre: "uspace (km k1) ps pt" "writable (km k1) pt dst (nat n)" "wf_cons (cons k1)"
    "fst (cons_abs (cons k1)) = line @ newline # rest" "newline \<notin> set line" "ctrl (CHR ''D'') \<notin> set line"
    "int (Suc i) + int (length line) < n"
    using cp k1 G(3,4) Cons.prems(8-10) by auto
  obtain k' where IH: "consoleread_loop dst n (Suc i) k1 = Inr (k', Done (int (Suc i + length line + 1)))"
    "wf_cons (cons k')" "cons_abs (cons k') = (rest, snd (cons_abs (cons k1)))" "upage (km k') pt = upage (km k1) pt"
    "\<forall>v a. user_addr (km k1) pt v = Some a \<longrightarrow>
       phys (km k') a = (if Suc i \<le> unat (v - dst) \<and> unat (v - dst) \<le> Suc i + length line
                         then (line @ [newline]) ! (unat (v - dst) - Suc i) else phys (km k1) a)"
    using Cons.IH [OF k1(1,2) pre(1,2) Cons.prems(5) pre(3-7)] by blast
  have ua: "user_addr m pt = user_addr (km k) pt" using cp(3) by (simp add: fun_eq_iff user_addr_upage)
  have "phys (km k') a = (if i \<le> unat (v - dst) \<and> unat (v - dst) \<le> i + length (c # line)
      then ((c # line) @ [newline]) ! (unat (v - dst) - i) else phys (km k) a)"
    if "user_addr (km k) pt v = Some a" for v a
    using IH(5) [unfolded k1(3) ua] cp(5) [OF that] that by (auto simp: nth_Cons')
  then show ?case using IH(1-4) step k1 cp(3) G(4) by (intro exI [of _ k']) auto
qed

text \<open>
  \<open>consoleread\<close> returns a line at a time: when the input holds a complete line that fits in
  \<open>n\<close> bytes and has no end-of-file character, the call returns its length with the newline, delivers
  exactly its bytes to the user's buffer, and leaves the rest of the input for the next call.
\<close>

theorem consoleread_returns_line:
  assumes "cur k = Some pr" and "p_pagetable (ptab k ! pr) = pt" and "uspace (km k) ps pt"
    and "writable (km k) pt dst (nat n)" and "n < 2 ^ 64" and "wf_cons (cons k)"
    and "cons_abs (cons k) = (line @ newline # rest, edit)" and "newline \<notin> set line"
    and "ctrl (CHR ''D'') \<notin> set line" and "int (length line) < n"
  shows "\<exists>k'. consoleread dst n k = Inr (k', Done (int (length line) + 1)) \<and> wf_cons (cons k') \<and>
    cons_abs (cons k') = (rest, edit) \<and> user_bytes (km k') pt dst (length line + 1) = line @ [newline] \<and>
    (\<forall>v a. user_addr (km k) pt v = Some a \<and> length line < unat (v - dst) \<longrightarrow> phys (km k') a = phys (km k) a)"
proof -
  have "fst (cons_abs (cons k)) = line @ newline # rest" "int 0 + int (length line) < n" using assms(7,10) by auto
  from consoleread_loop_line [OF assms(1-6) this(1) assms(8,9) this(2)] obtain k' where
    K: "consoleread_loop dst n 0 k = Inr (k', Done (int (0 + length line + 1)))" "wf_cons (cons k')"
    "cons_abs (cons k') = (rest, snd (cons_abs (cons k)))" "upage (km k') pt = upage (km k) pt"
    "\<forall>v a. user_addr (km k) pt v = Some a \<longrightarrow>
       phys (km k') a = (if 0 \<le> unat (v - dst) \<and> unat (v - dst) \<le> 0 + length line
                         then (line @ [newline]) ! (unat (v - dst) - 0) else phys (km k) a)"
    by blast
  have ua: "user_addr (km k') pt = user_addr (km k) pt" using K(4) by (simp add: fun_eq_iff user_addr_upage)
  have "user_bytes (km k') pt dst (length line + 1) = line @ [newline]"
  proof (rule nth_equalityI)
    fix j
    assume "j < length (user_bytes (km k') pt dst (length line + 1))"
    then have j: "j \<le> length line" "j < nat n" "j < 2 ^ 64" using assms(5,10) by auto
    then obtain a where a: "user_addr (km k) pt (dst + of_nat j) = Some a"
      using assms(4) by (auto simp: writable_def user_mapped_def)
    have "unat (dst + of_nat j - dst) = j" using j unat_of_nat64 [of j] by simp
    then show "user_bytes (km k') pt dst (length line + 1) ! j = (line @ [newline]) ! j"
      using K(5) a ua j by (simp add: user_bytes_nth)
  qed simp
  then show ?thesis using K assms(7) by (intro exI [of _ k']) (auto simp: consoleread_def)
qed

definition sample_typed :: kernel where
  "sample_typed = sample_kernel\<lparr>cons := (cons sample_kernel)\<lparr>cons_buf := newline # replicate 127 0, cons_w := 1, cons_e := 1\<rparr>\<rparr>"

lemma sample_typed_sel:
  "cur sample_typed = Some 0" "ptab sample_typed = [sample_proc]" "km sample_typed = sample_user"
  "wf_cons (cons sample_typed)" "cons_abs (cons sample_typed) = ([] @ newline # [], [])"
  by (simp_all add: sample_typed_def sample_kernel_def wf_cons_def cons_abs_def cons_all_def ring_list_def
      ring_at_def INPUT_BUF_SIZE_def)

theorem consoleread_returns_line_witness:
  "\<exists>k'. consoleread 0x5ABC 2 sample_typed = Inr (k', Done (int (length ([] :: bytes)) + 1)) \<and> wf_cons (cons k') \<and>
    cons_abs (cons k') = ([], []) \<and> user_bytes (km k') 0x80001000 0x5ABC (length ([] :: bytes) + 1) = [] @ [newline] \<and>
    (\<forall>v a. user_addr (km sample_typed) 0x80001000 v = Some a \<and> length ([] :: bytes) < unat (v - 0x5ABC) \<longrightarrow>
      phys (km k') a = phys (km sample_typed) a)"
  by (rule consoleread_returns_line [where pr = 0 and ps = "[]"])
    (use sample_typed_sel sample_writable sample_uspace in simp_all)

end
