(* ===== verification/File.thy ===== *)
theory File
  imports Console
begin

text \<open>
  \<open>kernel/file.c\<close> and \<open>pipealloc\<close> of \<open>kernel/pipe.c\<close>: the table of open files, shared by all processes, and
  the dispatch of \<open>read\<close> and \<open>write\<close> to pipes, devices and inodes. \<open>devsw\<close> has one entry, the
  console, which \<open>consoleinit\<close> installs.
\<close>

definition CONSOLE :: ushort where [hdr]: "CONSOLE = 1"

section \<open>Operations\<close>

definition filealloc :: "kernel \<Rightarrow> kernel \<times> nat option" where
  "filealloc k =
     (case find_idx (\<lambda>f. f_ref f = 0) (ftable k) of
        Some i \<Rightarrow> (k\<lparr>ftable := upd_file i (\<lambda>f. f\<lparr>f_ref := 1\<rparr>) (ftable k)\<rparr>, Some i)
      | None \<Rightarrow> (k, None))"

definition filedup :: "nat \<Rightarrow> kernel \<Rightarrow> kernel res" where
  "filedup i k =
     (if f_ref (ftable k ! i) < 1 then Inl (Panic ''filedup'')
      else Inr (k\<lparr>ftable := upd_file i (\<lambda>f. f\<lparr>f_ref := f_ref f + 1\<rparr>) (ftable k)\<rparr>))"

definition fileclose :: "nat \<Rightarrow> kernel \<Rightarrow> kernel res" where
  "fileclose i k =
     (let ff = ftable k ! i
      in if f_ref ff < 1 then Inl (Panic ''fileclose'')
         else if f_ref ff - 1 > 0
         then Inr (k\<lparr>ftable := upd_file i (\<lambda>f. f\<lparr>f_ref := f_ref f - 1\<rparr>) (ftable k)\<rparr>)
         else (let k = k\<lparr>ftable := upd_file i (\<lambda>f. f\<lparr>f_ref := 0, f_type := FD_NONE\<rparr>) (ftable k)\<rparr>
               in case f_type ff of
                    FD_PIPE \<Rightarrow> pipeclose (f_pipe ff) (f_writable ff) k
                  | FD_NONE \<Rightarrow> Inr k
                  | _ \<Rightarrow> in_fs0 (\<lambda>s. bindE (fs_begin_op s) (\<lambda>s. bindE (iput (f_ip ff) s) fs_end_op)) k))"

text \<open>\<open>struct stat\<close> has four bytes of padding, whose value is that of the stack.\<close>

definition enc_stat :: "bytes \<Rightarrow> stat \<Rightarrow> bytes" where
  "enc_stat pad st = le_bytes 4 (st_dev st) @ le_bytes 4 (st_ino st) @ le_bytes 2 (st_type st) @
     le_bytes 2 (st_nlink st) @ take 4 pad @ le_bytes 8 (st_size st)"

definition filestat :: "bytes \<Rightarrow> nat \<Rightarrow> uint64 \<Rightarrow> kernel \<Rightarrow> (kernel \<times> int) res" where
  "filestat pad i addr k =
     (let f = ftable k ! i
      in if f_type f = FD_INODE \<or> f_type f = FD_DEVICE
         then bindE (in_fs (\<lambda>s. bindE (ilock (f_ip f) s) (\<lambda>s.
                let st = stati (ino s (f_ip f)) in bindE (iunlock (f_ip f) s) (\<lambda>s. Inr (s, st)))) k) (\<lambda>(k, st).
              bindE (ucopyout addr (enc_stat pad st) k) (\<lambda>(k, r).
              Inr (k, if r < 0 then -1 else 0)))
         else Inr (k, -1))"

text \<open>
  \<open>either_copyout(1, ...)\<close> and \<open>either_copyin(1, ...)\<close> on the pages of the current process, in the form
  that \<open>readi\<close> and \<open>writei\<close> take them.
\<close>

definition user_out :: "proc \<Rightarrow> uint64 \<Rightarrow> kmem copyout_fn" where
  "user_out p dst pos src m = copyout (p_sz p, p_pagetable p) m (p_pagetable p) (dst + of_nat pos) src"

definition user_in :: "proc \<Rightarrow> uint64 \<Rightarrow> kmem copyin_fn" where
  "user_in p src pos len m = copyin (p_sz p, p_pagetable p) m (p_pagetable p) (src + of_nat pos) len"

definition dev_ok :: "ushort \<Rightarrow> bool" where
  "dev_ok major \<longleftrightarrow> \<not> (sint major < 0 \<or> sint major \<ge> int NDEV \<or> major \<noteq> CONSOLE)"

definition fileread :: "nat \<Rightarrow> uint64 \<Rightarrow> int \<Rightarrow> kernel \<Rightarrow> (kernel \<times> outcome) res" where
  "fileread i addr n k =
     (let f = ftable k ! i
      in if \<not> f_readable f then Inr (k, Done (-1))
         else case f_type f of
           FD_PIPE \<Rightarrow> piperead (f_pipe f) addr n k
         | FD_DEVICE \<Rightarrow> if dev_ok (f_major f) then consoleread addr n k else Inr (k, Done (-1))
         | FD_INODE \<Rightarrow>
             bindE (myproc k) (\<lambda>me.
             bindE (in_fs (\<lambda>s. bindE (ilock (f_ip f) s) (\<lambda>s.
               bindE (readi (user_out (ptab k ! me) addr) (f_ip f) (f_off f) (of_int n) s (km k)) (\<lambda>(s, m, r).
               bindE (iunlock (f_ip f) s) (\<lambda>s. Inr (s, m, r))))) k) (\<lambda>(k, m, r).
             let k = k\<lparr>km := m\<rparr>;
                 k = (if r > 0 then k\<lparr>ftable := upd_file i (\<lambda>f. f\<lparr>f_off := f_off f + of_int r\<rparr>) (ftable k)\<rparr> else k)
             in Inr (k, Done r)))
         | FD_NONE \<Rightarrow> Inl (Panic ''fileread''))"

text \<open>One transaction of a write to an inode: at most \<open>n1\<close> bytes from \<open>addr + i\<close>.\<close>

definition filewrite_op :: "nat \<Rightarrow> uint64 \<Rightarrow> nat \<Rightarrow> nat \<Rightarrow> kernel \<Rightarrow> (kernel \<times> int) res" where
  "filewrite_op fi addr i n1 k =
     (let f = ftable k ! fi
      in bindE (myproc k) (\<lambda>me.
         bindE (in_fs (\<lambda>s. bindE (fs_begin_op s) (\<lambda>s.
           bindE (ilock (f_ip f) s) (\<lambda>s.
           bindE (writei (user_in (ptab k ! me) (addr + of_nat i)) (f_ip f) (f_off f) (of_nat n1) s (km k)) (\<lambda>(s, m, r).
           bindE (iunlock (f_ip f) s) (\<lambda>s.
           bindE (fs_end_op s) (\<lambda>s. Inr (s, m, r))))))) k) (\<lambda>(k, m, r).
         let k = k\<lparr>km := m\<rparr>;
             k = (if r > 0 then k\<lparr>ftable := upd_file fi (\<lambda>f. f\<lparr>f_off := f_off f + of_int r\<rparr>) (ftable k)\<rparr> else k)
         in Inr (k, r))))"

definition WRITE_MAX :: nat where [hdr]: "WRITE_MAX = ((10 - 1 - 1 - 2) div 2) * BSIZE"

function filewrite_loop :: "nat \<Rightarrow> uint64 \<Rightarrow> int \<Rightarrow> nat \<Rightarrow> kernel \<Rightarrow> (kernel \<times> nat) res" where
  "filewrite_loop fi addr n i k =
     (if int i < n
      then (let n1 = (if n - int i > int WRITE_MAX then WRITE_MAX else nat (n - int i))
            in bindE (filewrite_op fi addr i n1 k) (\<lambda>(k, r).
               if r \<noteq> int n1 then Inr (k, i) else filewrite_loop fi addr n (i + n1) k))
      else Inr (k, i))"
  by pat_completeness auto
termination
  by (relation "measure (\<lambda>(fi, addr, n, i, k). nat n - i)") (auto simp: WRITE_MAX_def BSIZE_def)

declare filewrite_loop.simps [simp del]

definition filewrite :: "nat \<Rightarrow> uint64 \<Rightarrow> int \<Rightarrow> kernel \<Rightarrow> (kernel \<times> outcome) res" where
  "filewrite i addr n k =
     (let f = ftable k ! i
      in if \<not> f_writable f then Inr (k, Done (-1))
         else case f_type f of
           FD_PIPE \<Rightarrow> pipewrite (f_pipe f) addr n k
         | FD_DEVICE \<Rightarrow> if dev_ok (f_major f) then consolewrite addr n k else Inr (k, Done (-1))
         | FD_INODE \<Rightarrow>
             bindE (filewrite_loop i addr n 0 k) (\<lambda>(k, j). Inr (k, Done (if int j = n then n else -1)))
         | FD_NONE \<Rightarrow> Inl (Panic ''filewrite''))"

section \<open>pipealloc\<close>

text \<open>The page from \<open>kalloc\<close> is filled with fives; \<open>pipealloc\<close> does not clear \<open>data\<close>.\<close>

definition new_pipe :: pipe where
  "new_pipe = \<lparr>pi_data = replicate PIPESIZE 5, pi_nread = 0, pi_nwrite = 0, pi_readopen = True, pi_writeopen = True\<rparr>"

definition close_opt :: "nat option \<Rightarrow> kernel \<Rightarrow> kernel res" where
  "close_opt f k = (case f of Some i \<Rightarrow> fileclose i k | None \<Rightarrow> Inr k)"

definition pipealloc :: "kernel \<Rightarrow> (kernel \<times> (nat \<times> nat) option) res" where
  "pipealloc k =
     (let bad = (\<lambda>f0 f1 k. bindE (close_opt f0 k) (\<lambda>k. bindE (close_opt f1 k) (\<lambda>k. Inr (k, None))));
          (k, f0) = filealloc k
      in case f0 of
           None \<Rightarrow> bad None None k
         | Some i0 \<Rightarrow>
             (let (k, f1) = filealloc k
              in case f1 of
                   None \<Rightarrow> bad f0 None k
                 | Some i1 \<Rightarrow>
                     (let (m, pa) = kalloc (km k); k = k\<lparr>km := m\<rparr>
                      in if pa = 0 then bad f0 f1 k
                         else Inr ((set_pipe pa new_pipe k)\<lparr>ftable :=
                                upd_file i1 (\<lambda>f. f\<lparr>f_type := FD_PIPE, f_readable := False, f_writable := True, f_pipe := pa\<rparr>)
                                  (upd_file i0 (\<lambda>f. f\<lparr>f_type := FD_PIPE, f_readable := True, f_writable := False, f_pipe := pa\<rparr>)
                                    (ftable k))\<rparr>, Some (i0, i1)))))"

end
