(* ===== verification/Proc.thy ===== *)
theory Proc
  imports File
begin

text \<open>
  The life of a process, from \<open>kernel/proc.c\<close>: allocation of a process with its trapframe and page
  table, \<open>growproc\<close> with the memory quota, \<open>kfork\<close>, \<open>kexit\<close> and \<open>kwait\<close>. \<open>trampoline\<close> and \<open>forkret\<close> are
  symbols of the kernel image, kept in the state. The trapframe is memory: it is read and written at
  the offsets of \<open>struct trapframe\<close>.
\<close>

definition TRAPFRAME_SIZE :: nat where [hdr]: "TRAPFRAME_SIZE = 288"
definition TF_a0 :: uint64 where [hdr]: "TF_a0 = 112"

definition set_km :: "kmem \<Rightarrow> kernel \<Rightarrow> kernel" where
  "set_km m k = k\<lparr>km := m\<rparr>"

section \<open>Page tables of processes\<close>

definition proc_pagetable :: "uint64 \<Rightarrow> uint64 \<Rightarrow> kmem \<Rightarrow> (kmem \<times> uint64) res" where
  "proc_pagetable tramp tf m =
     (let (m, pagetable) = uvmcreate m
      in if pagetable = 0 then Inr (m, 0)
         else bindE (mappages m pagetable TRAMPOLINE 4096 tramp (PTE_R OR PTE_X)) (\<lambda>(m, r).
              if r < 0 then bindE (uvmfree m pagetable 0) (\<lambda>m. Inr (m, 0))
              else bindE (mappages m pagetable TRAPFRAME 4096 tf (PTE_R OR PTE_W)) (\<lambda>(m, r).
                   if r < 0
                   then bindE (uvmunmap m pagetable TRAMPOLINE 1 False) (\<lambda>m.
                        bindE (uvmfree m pagetable 0) (\<lambda>m. Inr (m, 0)))
                   else Inr (m, pagetable))))"

definition proc_freepagetable :: "uint64 \<Rightarrow> uint64 \<Rightarrow> kmem \<Rightarrow> kmem res" where
  "proc_freepagetable pagetable sz m =
     bindE (uvmunmap m pagetable TRAMPOLINE 1 False) (\<lambda>m.
     bindE (uvmunmap m pagetable TRAPFRAME 1 False) (\<lambda>m.
     uvmfree m pagetable sz))"

section \<open>Allocation\<close>

definition clear_proc :: "proc \<Rightarrow> proc" where
  "clear_proc p = p\<lparr>p_trapframe := 0, p_pagetable := 0, p_sz := 0, p_pid := 0, p_parent := None, p_name := (p_name p)[0 := 0],
     p_chan := None, p_killed := False, p_xstate := 0, p_agent_role := (p_agent_role p)[0 := 0], p_priority := 0,
     p_agent_state := 0, p_mem_quota := 0, p_quota_denied := 0, p_state := UNUSED\<rparr>"

definition freeproc :: "nat \<Rightarrow> kernel \<Rightarrow> kernel res" where
  "freeproc i k =
     (let p = ptab k ! i
      in bindE (if p_trapframe p \<noteq> 0 then kfree (p_trapframe p) (km k) else Inr (km k)) (\<lambda>m.
         bindE (if p_pagetable p \<noteq> 0 then proc_freepagetable (p_pagetable p) (p_sz p) m else Inr m) (\<lambda>m.
         Inr (kproc i clear_proc (set_km m k)))))"

definition allocproc :: "kernel \<Rightarrow> (kernel \<times> nat option) res" where
  "allocproc k =
     (case find_idx (\<lambda>p. p_state p = UNUSED) (ptab k) of
        None \<Rightarrow> Inr (k, None)
      | Some i \<Rightarrow>
          (let (k, pid) = allocpid k
           in bindE (safestrcpy (p_agent_role (ptab k ! i)) (lit ''none'') 16) (\<lambda>role.
              let k = kproc i (\<lambda>p. p\<lparr>p_pid := pid, p_state := USED, p_agent_role := role, p_priority := 0,
                        p_agent_state := 0, p_mem_quota := 0, p_quota_denied := 0\<rparr>) k;
                  (m, tf) = kalloc (km k);
                  k = kproc i (\<lambda>p. p\<lparr>p_trapframe := tf\<rparr>) (set_km m k)
              in if tf = 0 then bindE (freeproc i k) (\<lambda>k. Inr (k, None))
                 else bindE (proc_pagetable (trampoline k) tf (km k)) (\<lambda>(m, pt).
                      let k = kproc i (\<lambda>p. p\<lparr>p_pagetable := pt\<rparr>) (set_km m k)
                      in if pt = 0 then bindE (freeproc i k) (\<lambda>k. Inr (k, None))
                         else Inr (kproc i (\<lambda>p. p\<lparr>p_context := \<lparr>ctx_ra = forkret_ra k, ctx_sp = p_kstack p + 4096,
                                ctx_s = replicate 12 0\<rparr>\<rparr>) k, Some i)))))"

definition userinit :: "kernel \<Rightarrow> kernel res" where
  "userinit k =
     bindE (allocproc k) (\<lambda>(k, r).
     case r of
       None \<Rightarrow> Inl OutOfBounds
     | Some i \<Rightarrow>
         bindE (namei (lit ''/'') (fss k)) (\<lambda>(s, d).
         Inr (kproc i (\<lambda>p. p\<lparr>p_cwd := d, p_state := RUNNABLE\<rparr>) (k\<lparr>initproc := Some i, fss := s\<rparr>))))"

section \<open>Memory\<close>

definition growproc :: "int \<Rightarrow> kernel \<Rightarrow> (kernel \<times> int) res" where
  "growproc n k =
     bindE (myproc k) (\<lambda>i.
     let p = ptab k ! i; sz = p_sz p; newsz = sz + of_int n
     in if n > 0
        then if newsz > TRAPFRAME then Inr (k, -1)
          else if p_mem_quota p > 0 \<and> PGROUNDUP newsz div 4096 > of_int (p_mem_quota p)
          then bindE (kprintf (printf ''[AGENT][warn] quota: pid=%d role=%s denied grow to %d pages (cap=%d)\<newline>''
                 [num_arg (p_pid p), AStr (Some (p_agent_role p)), ANum (PGROUNDUP newsz div 4096), num_arg (p_mem_quota p)])
                 (kproc i (\<lambda>p. p\<lparr>p_quota_denied := p_quota_denied p + 1\<rparr>) k)) (\<lambda>k. Inr (k, -1))
          else bindE (uvmalloc (km k) (p_pagetable p) sz newsz PTE_W) (\<lambda>(m, sz).
               if sz = 0 then Inr (set_km m k, -1)
               else Inr (kproc i (\<lambda>p. p\<lparr>p_sz := sz\<rparr>) (set_km m k), 0))
        else if n < 0
        then bindE (uvmdealloc (km k) (p_pagetable p) sz newsz) (\<lambda>(m, sz).
             Inr (kproc i (\<lambda>p. p\<lparr>p_sz := sz\<rparr>) (set_km m k), 0))
        else Inr (k, 0))"

section \<open>Fork, exit, wait\<close>

primrec dup_files :: "nat \<Rightarrow> nat \<Rightarrow> nat list \<Rightarrow> kernel \<Rightarrow> kernel res" where
  "dup_files i np [] k = Inr k"
| "dup_files i np (fd # fds) k =
     (case p_ofile (ptab k ! i) ! fd of
        None \<Rightarrow> dup_files i np fds k
      | Some f \<Rightarrow> bindE (filedup f k) (\<lambda>k.
          dup_files i np fds (kproc np (\<lambda>p. p\<lparr>p_ofile := (p_ofile p)[fd := Some f]\<rparr>) k)))"

definition copy_trapframe :: "uint64 \<Rightarrow> uint64 \<Rightarrow> kmem \<Rightarrow> kmem" where
  "copy_trapframe dst src m =
     m\<lparr>phys := store64 (store_bytes (phys m) dst (load_bytes (phys m) src TRAPFRAME_SIZE)) (dst + TF_a0) 0\<rparr>"

definition kfork :: "kernel \<Rightarrow> (kernel \<times> int) res" where
  "kfork k =
     bindE (myproc k) (\<lambda>i.
     bindE (allocproc k) (\<lambda>(k, r).
     case r of
       None \<Rightarrow> Inr (k, -1)
     | Some np \<Rightarrow>
         (let p = ptab k ! i
          in bindE (uvmcopy (km k) (p_pagetable p) (p_pagetable (ptab k ! np)) (p_sz p)) (\<lambda>(m, r).
             if r < 0 then bindE (freeproc np (set_km m k)) (\<lambda>k. Inr (k, -1))
             else (let k = kproc np (\<lambda>q. q\<lparr>p_sz := p_sz p\<rparr>) (set_km m k);
                       k = set_km (copy_trapframe (p_trapframe (ptab k ! np)) (p_trapframe p) (km k)) k
                   in bindE (dup_files i np [0..<NOFILE] k) (\<lambda>k.
                      case p_cwd p of
                        None \<Rightarrow> Inl OutOfBounds
                      | Some d \<Rightarrow>
                          bindE (safestrcpy (p_name (ptab k ! np)) (p_name p) 16) (\<lambda>name.
                          bindE (safestrcpy (p_agent_role (ptab k ! np)) (p_agent_role p) 16) (\<lambda>role.
                          let k = k\<lparr>fss := idup d (fss k)\<rparr>;
                              k = kproc np (\<lambda>q. q\<lparr>p_cwd := Some d, p_name := name, p_agent_role := role,
                                    p_priority := p_priority p, p_agent_state := p_agent_state p,
                                    p_mem_quota := p_mem_quota p\<rparr>) k;
                              pid = p_pid (ptab k ! np);
                              k = kproc np (\<lambda>q. q\<lparr>p_parent := Some i\<rparr>) k;
                              k = kproc np (\<lambda>q. q\<lparr>p_state := RUNNABLE\<rparr>) k
                          in Inr (k, pid)))))))))"

primrec close_files :: "nat \<Rightarrow> nat list \<Rightarrow> kernel \<Rightarrow> kernel res" where
  "close_files i [] k = Inr k"
| "close_files i (fd # fds) k =
     (case p_ofile (ptab k ! i) ! fd of
        None \<Rightarrow> close_files i fds k
      | Some f \<Rightarrow> bindE (fileclose f k) (\<lambda>k.
          close_files i fds (kproc i (\<lambda>p. p\<lparr>p_ofile := (p_ofile p)[fd := None]\<rparr>) k)))"

text \<open>\<open>kexit\<close> does not return: the result is the state in which the CPU enters the scheduler.\<close>

definition kexit :: "int \<Rightarrow> kernel \<Rightarrow> kernel res" where
  "kexit status k =
     bindE (myproc k) (\<lambda>i.
     if initproc k = Some i then Inl (Panic ''init exiting'')
     else bindE (close_files i [0..<NOFILE] k) (\<lambda>k.
       case p_cwd (ptab k ! i) of
         None \<Rightarrow> Inl OutOfBounds
       | Some d \<Rightarrow>
           bindE (in_fs0 (\<lambda>s. bindE (fs_begin_op s) (\<lambda>s. bindE (iput d s) fs_end_op)) k) (\<lambda>k.
           let k = kproc i (\<lambda>p. p\<lparr>p_cwd := None\<rparr>) k;
               k = reparent i k;
               k = wakeup (map_option Proc_chan (p_parent (ptab k ! i))) k;
               k = kproc i (\<lambda>p. p\<lparr>p_xstate := status, p_state := ZOMBIE\<rparr>) k
           in Inr (k\<lparr>cur := None\<rparr>))))"

definition kwait :: "uint64 \<Rightarrow> kernel \<Rightarrow> (kernel \<times> outcome) res" where
  "kwait addr k =
     bindE (myproc k) (\<lambda>i.
     case find_idx (\<lambda>pp. p_parent pp = Some i \<and> p_state pp = ZOMBIE) (ptab k) of
       Some j \<Rightarrow>
         (let pid = p_pid (ptab k ! j)
          in bindE (if addr \<noteq> 0 then ucopyout addr (le_bytes 4 (of_int (p_xstate (ptab k ! j)) :: uint)) k else Inr (k, 0)) (\<lambda>(k, r).
             if r < 0 then Inr (k, Done (-1))
             else bindE (freeproc j k) (\<lambda>k. Inr (k, Done pid))))
     | None \<Rightarrow>
         if find_idx (\<lambda>pp. p_parent pp = Some i) (ptab k) = None \<or> killed i k then Inr (k, Done (-1))
         else bindE (sleep (Proc_chan i) k) (\<lambda>k. Inr (k, Asleep (Proc_chan i) 0)))"

end
