(* ===== verification/Args.thy ===== *)
theory Args
  imports Proc
begin

text \<open>
  The argument fetching of \<open>kernel/syscall.c\<close>. The arguments of a system call are the saved user
  registers \<open>a0\<close> to \<open>a5\<close> in the trapframe of the process; \<open>argint\<close> keeps the low 32 bits as a signed
  number. A string argument is returned with the bytes written to \<open>buf\<close>, up to and including the NUL.
\<close>

definition fetchaddr :: "uint64 \<Rightarrow> kernel \<Rightarrow> (kernel \<times> uint64 option) res" where
  "fetchaddr addr k =
     bindE (myproc k) (\<lambda>i.
     let sz = p_sz (ptab k ! i)
     in if addr \<ge> sz \<or> addr + 8 > sz then Inr (k, None)
        else bindE (ucopyin addr 8 k) (\<lambda>(k, r, bs). Inr (k, if r \<noteq> 0 then None else Some (le_word bs))))"

definition fetchstr :: "uint64 \<Rightarrow> nat \<Rightarrow> kernel \<Rightarrow> (int \<times> bytes) res" where
  "fetchstr addr bufsize k =
     bindE (myproc k) (\<lambda>i.
     bindE (copyinstr (km k) (p_pagetable (ptab k ! i)) addr bufsize) (\<lambda>(r, bs).
     if r < 0 then Inr (-1, bs) else bindE (strlen bs) (\<lambda>n. Inr (int n, bs))))"

definition argraw :: "nat \<Rightarrow> kernel \<Rightarrow> uint64 res" where
  "argraw n k =
     bindE (myproc k) (\<lambda>i.
     if n < 6 then Inr (load64 (phys (km k)) (p_trapframe (ptab k ! i) + TF_a0 + 8 * of_nat n))
     else Inl (Panic ''argraw''))"

definition argint :: "nat \<Rightarrow> kernel \<Rightarrow> int res" where
  "argint n k = bindE (argraw n k) (\<lambda>x. Inr (sint (ucast x :: uint)))"

definition argaddr :: "nat \<Rightarrow> kernel \<Rightarrow> uint64 res" where
  "argaddr n k = argraw n k"

definition argstr :: "nat \<Rightarrow> nat \<Rightarrow> kernel \<Rightarrow> (int \<times> bytes) res" where
  "argstr n bufsize k = bindE (argaddr n k) (\<lambda>addr. fetchstr addr bufsize k)"

text \<open>The values of a system call that does not sleep.\<close>

abbreviation ret :: "kernel \<Rightarrow> int \<Rightarrow> (kernel \<times> outcome) res" where
  "ret k r \<equiv> Inr (k, Done r)"

end
