(* ===== verification/Sysfile.thy ===== *)
theory Sysfile
  imports Args
begin

text \<open>
  \<open>kernel/sysfile.c\<close>: the file system calls. Each takes its arguments from the trapframe, as the
  source does. The parts that only touch the file system are operations on \<open>fsstate\<close>, run with
  \<open>in_fs\<close> as the current process.
\<close>

definition MAXPATH :: nat where [hdr]: "MAXPATH = 128"
definition MAXARG :: nat where [hdr]: "MAXARG = 32"
definition O_RDONLY :: uint where [hdr]: "O_RDONLY = 0x000"
definition O_WRONLY :: uint where [hdr]: "O_WRONLY = 0x001"
definition O_RDWR :: uint where [hdr]: "O_RDWR = 0x002"
definition O_CREATE :: uint where [hdr]: "O_CREATE = 0x200"
definition O_TRUNC :: uint where [hdr]: "O_TRUNC = 0x400"

section \<open>Descriptors\<close>

definition argfd :: "nat \<Rightarrow> kernel \<Rightarrow> (nat \<times> nat) option res" where
  "argfd n k =
     bindE (argint n k) (\<lambda>fd.
     bindE (myproc k) (\<lambda>i.
     if fd < 0 \<or> fd \<ge> int NOFILE then Inr None
     else (case p_ofile (ptab k ! i) ! nat fd of None \<Rightarrow> Inr None | Some f \<Rightarrow> Inr (Some (nat fd, f)))))"

definition set_fd :: "nat \<Rightarrow> nat \<Rightarrow> nat option \<Rightarrow> kernel \<Rightarrow> kernel" where
  "set_fd i fd f k = kproc i (\<lambda>p. p\<lparr>p_ofile := (p_ofile p)[fd := f]\<rparr>) k"

definition fdalloc :: "nat \<Rightarrow> kernel \<Rightarrow> (kernel \<times> int) res" where
  "fdalloc f k =
     bindE (myproc k) (\<lambda>i.
     case find_idx (\<lambda>x. x = None) (p_ofile (ptab k ! i)) of
       Some fd \<Rightarrow> Inr (set_fd i fd (Some f) k, int fd)
     | None \<Rightarrow> Inr (k, -1))"

definition sys_dup :: "kernel \<Rightarrow> (kernel \<times> outcome) res" where
  "sys_dup k =
     bindE (argfd 0 k) (\<lambda>a.
     case a of
       None \<Rightarrow> ret k (-1)
     | Some (_, f) \<Rightarrow>
         bindE (fdalloc f k) (\<lambda>(k, fd).
         if fd < 0 then ret k (-1) else bindE (filedup f k) (\<lambda>k. ret k fd)))"

definition sys_read :: "kernel \<Rightarrow> (kernel \<times> outcome) res" where
  "sys_read k =
     bindE (argaddr 1 k) (\<lambda>p.
     bindE (argint 2 k) (\<lambda>n.
     bindE (argfd 0 k) (\<lambda>a.
     case a of None \<Rightarrow> ret k (-1) | Some (_, f) \<Rightarrow> fileread f p n k)))"

definition sys_write :: "kernel \<Rightarrow> (kernel \<times> outcome) res" where
  "sys_write k =
     bindE (argaddr 1 k) (\<lambda>p.
     bindE (argint 2 k) (\<lambda>n.
     bindE (argfd 0 k) (\<lambda>a.
     case a of None \<Rightarrow> ret k (-1) | Some (_, f) \<Rightarrow> filewrite f p n k)))"

definition sys_close :: "kernel \<Rightarrow> (kernel \<times> outcome) res" where
  "sys_close k =
     bindE (argfd 0 k) (\<lambda>a.
     case a of
       None \<Rightarrow> ret k (-1)
     | Some (fd, f) \<Rightarrow>
         bindE (myproc k) (\<lambda>i.
         bindE (fileclose f (set_fd i fd None k)) (\<lambda>k. ret k 0)))"

definition sys_fstat :: "bytes \<Rightarrow> kernel \<Rightarrow> (kernel \<times> outcome) res" where
  "sys_fstat pad k =
     bindE (argaddr 1 k) (\<lambda>st.
     bindE (argfd 0 k) (\<lambda>a.
     case a of None \<Rightarrow> ret k (-1) | Some (_, f) \<Rightarrow> bindE (filestat pad f st k) (\<lambda>(k, r). ret k r)))"

section \<open>Links\<close>

definition fail_op :: "fsstate \<Rightarrow> (fsstate \<times> int) res" where
  "fail_op s = bindE (fs_end_op s) (\<lambda>s. Inr (s, -1))"

abbreviation no_name :: bytes where
  "no_name \<equiv> replicate DIRSIZ 0"

definition link_bad :: "nat \<Rightarrow> fsstate \<Rightarrow> (fsstate \<times> int) res" where
  "link_bad ip s =
     bindE (ilock ip s) (\<lambda>s.
     bindE (iupdate ip (upd_ino ip (\<lambda>i. i\<lparr>i_nlink := i_nlink i - 1\<rparr>) s)) (\<lambda>s.
     bindE (iunlockput ip s) fail_op))"

definition link_op :: "bytes \<Rightarrow> bytes \<Rightarrow> fsstate \<Rightarrow> (fsstate \<times> int) res" where
  "link_op old new s =
     bindE (fs_begin_op s) (\<lambda>s.
     bindE (namei old s) (\<lambda>(s, r).
     case r of
       None \<Rightarrow> fail_op s
     | Some ip \<Rightarrow>
         bindE (ilock ip s) (\<lambda>s.
         if i_type (ino s ip) = T_DIR then bindE (iunlockput ip s) fail_op
         else bindE (iupdate ip (upd_ino ip (\<lambda>i. i\<lparr>i_nlink := i_nlink i + 1\<rparr>) s)) (\<lambda>s.
              bindE (iunlock ip s) (\<lambda>s.
              bindE (nameiparent new no_name s) (\<lambda>(s, r, name).
              case r of
                None \<Rightarrow> link_bad ip s
              | Some dp \<Rightarrow>
                  bindE (ilock dp s) (\<lambda>s.
                  bindE (if i_dev (ino s dp) \<noteq> i_dev (ino s ip) then Inr (s, -1)
                         else dirlink dp name (i_inum (ino s ip)) s) (\<lambda>(s, r).
                  if r < 0 then bindE (iunlockput dp s) (link_bad ip)
                  else bindE (iunlockput dp s) (\<lambda>s.
                       bindE (iput ip s) (\<lambda>s.
                       bindE (fs_end_op s) (\<lambda>s. Inr (s, 0))))))))))))"

definition sys_link :: "kernel \<Rightarrow> (kernel \<times> outcome) res" where
  "sys_link k =
     bindE (argstr 0 MAXPATH k) (\<lambda>(r, old).
     if r < 0 then ret k (-1)
     else bindE (argstr 1 MAXPATH k) (\<lambda>(r, new).
       if r < 0 then ret k (-1)
       else bindE (in_fs (link_op old new) k) (\<lambda>(k, r). ret k r)))"

function isdirempty_from :: "nat \<Rightarrow> nat \<Rightarrow> fsstate \<Rightarrow> (fsstate \<times> bool) res" where
  "isdirempty_from dp off s =
     (if off < unat (i_size (ino s dp))
      then bindE (readi kernel_out dp (of_nat off) (of_nat DIRENT) s []) (\<lambda>(s, de, r).
        if r \<noteq> int DIRENT then Inl (Panic ''isdirempty: readi'')
        else if de_inum de \<noteq> 0 then Inr (s, False)
        else isdirempty_from dp (off + DIRENT) s)
      else Inr (s, True))"
  by pat_completeness auto
termination
  by (relation "measure (\<lambda>(dp, off, s). unat (i_size (ino s dp)) - off)") (auto simp: hdr readi_size)

declare isdirempty_from.simps [simp del]

definition isdirempty :: "nat \<Rightarrow> fsstate \<Rightarrow> (fsstate \<times> bool) res" where
  "isdirempty dp s = isdirempty_from dp (2 * DIRENT) s"

definition unlink_op :: "bytes \<Rightarrow> fsstate \<Rightarrow> (fsstate \<times> int) res" where
  "unlink_op path s =
     bindE (fs_begin_op s) (\<lambda>s.
     bindE (nameiparent path no_name s) (\<lambda>(s, r, name).
     case r of
       None \<Rightarrow> fail_op s
     | Some dp \<Rightarrow>
         bindE (ilock dp s) (\<lambda>s.
         bindE (namecmp name (lit ''.'')) (\<lambda>c1.
         bindE (namecmp name (lit ''..'')) (\<lambda>c2.
         if c1 = 0 \<or> c2 = 0 then bindE (iunlockput dp s) fail_op
         else bindE (dirlookup dp name s) (\<lambda>(s, found).
           case found of
             None \<Rightarrow> bindE (iunlockput dp s) fail_op
           | Some (ip, off) \<Rightarrow>
               bindE (ilock ip s) (\<lambda>s.
               if sint (i_nlink (ino s ip)) < 1 then Inl (Panic ''unlink: nlink < 1'')
               else bindE (if i_type (ino s ip) = T_DIR then isdirempty ip s else Inr (s, True)) (\<lambda>(s, ok).
                 if \<not> ok then bindE (iunlockput ip s) (\<lambda>s. bindE (iunlockput dp s) fail_op)
                 else bindE (writei kernel_in dp (of_nat off) (of_nat DIRENT) s (replicate DIRENT 0)) (\<lambda>(s, _, r).
                   if r \<noteq> int DIRENT then Inl (Panic ''unlink: writei'')
                   else bindE (if i_type (ino s ip) = T_DIR
                               then iupdate dp (upd_ino dp (\<lambda>i. i\<lparr>i_nlink := i_nlink i - 1\<rparr>) s) else Inr s) (\<lambda>s.
                     bindE (iunlockput dp s) (\<lambda>s.
                     bindE (iupdate ip (upd_ino ip (\<lambda>i. i\<lparr>i_nlink := i_nlink i - 1\<rparr>) s)) (\<lambda>s.
                     bindE (iunlockput ip s) (\<lambda>s.
                     bindE (fs_end_op s) (\<lambda>s. Inr (s, 0)))))))))))))))"

definition sys_unlink :: "kernel \<Rightarrow> (kernel \<times> outcome) res" where
  "sys_unlink k =
     bindE (argstr 0 MAXPATH k) (\<lambda>(r, path).
     if r < 0 then ret k (-1) else bindE (in_fs (unlink_op path) k) (\<lambda>(k, r). ret k r))"

section \<open>Creation\<close>

definition create_fail :: "nat \<Rightarrow> nat \<Rightarrow> fsstate \<Rightarrow> (fsstate \<times> nat option) res" where
  "create_fail ip dp s =
     bindE (iupdate ip (upd_ino ip (\<lambda>i. i\<lparr>i_nlink := 0\<rparr>) s)) (\<lambda>s.
     bindE (iunlockput ip s) (\<lambda>s.
     bindE (iunlockput dp s) (\<lambda>s. Inr (s, None))))"

definition create :: "bytes \<Rightarrow> ushort \<Rightarrow> ushort \<Rightarrow> ushort \<Rightarrow> fsstate \<Rightarrow> (fsstate \<times> nat option) res" where
  "create path type major minor s =
     bindE (nameiparent path no_name s) (\<lambda>(s, r, name).
     case r of
       None \<Rightarrow> Inr (s, None)
     | Some dp \<Rightarrow>
         bindE (ilock dp s) (\<lambda>s.
         bindE (dirlookup dp name s) (\<lambda>(s, found).
         case found of
           Some (ip, _) \<Rightarrow>
             bindE (iunlockput dp s) (\<lambda>s.
             bindE (ilock ip s) (\<lambda>s.
             if type = T_FILE \<and> (i_type (ino s ip) = T_FILE \<or> i_type (ino s ip) = T_DEVICE) then Inr (s, Some ip)
             else bindE (iunlockput ip s) (\<lambda>s. Inr (s, None))))
         | None \<Rightarrow>
             bindE (ialloc type s) (\<lambda>(s, a).
             case a of
               None \<Rightarrow> bindE (iunlockput dp s) (\<lambda>s. Inr (s, None))
             | Some ip \<Rightarrow>
                 bindE (ilock ip s) (\<lambda>s.
                 bindE (iupdate ip (upd_ino ip (\<lambda>i. i\<lparr>i_major := major, i_minor := minor, i_nlink := 1\<rparr>) s)) (\<lambda>s.
                 bindE (if type = T_DIR
                        then bindE (dirlink ip (lit ''.'') (i_inum (ino s ip)) s) (\<lambda>(s, r).
                             if r < 0 then Inr (s, False)
                             else bindE (dirlink ip (lit ''..'') (i_inum (ino s dp)) s) (\<lambda>(s, r). Inr (s, \<not> r < 0)))
                        else Inr (s, True)) (\<lambda>(s, ok).
                 if \<not> ok then create_fail ip dp s
                 else bindE (dirlink dp name (i_inum (ino s ip)) s) (\<lambda>(s, r).
                   if r < 0 then create_fail ip dp s
                   else bindE (if type = T_DIR then iupdate dp (upd_ino dp (\<lambda>i. i\<lparr>i_nlink := i_nlink i + 1\<rparr>) s)
                               else Inr s) (\<lambda>s.
                        bindE (iunlockput dp s) (\<lambda>s. Inr (s, Some ip)))))))))))"

text \<open>The first part of \<open>sys_open\<close>: the inode, locked, or \<open>None\<close> after \<open>end_op\<close>.\<close>

definition open_inode :: "bytes \<Rightarrow> uint \<Rightarrow> fsstate \<Rightarrow> (fsstate \<times> nat option) res" where
  "open_inode path omode s =
     bindE (fs_begin_op s) (\<lambda>s.
     bindE (if omode AND O_CREATE \<noteq> 0 then create path T_FILE 0 0 s
            else bindE (namei path s) (\<lambda>(s, r).
              case r of
                None \<Rightarrow> Inr (s, None)
              | Some ip \<Rightarrow>
                  bindE (ilock ip s) (\<lambda>s.
                  if i_type (ino s ip) = T_DIR \<and> omode \<noteq> O_RDONLY
                  then bindE (iunlockput ip s) (\<lambda>s. Inr (s, None)) else Inr (s, Some ip)))) (\<lambda>(s, r).
     case r of
       None \<Rightarrow> bindE (fs_end_op s) (\<lambda>s. Inr (s, None))
     | Some ip \<Rightarrow>
         if i_type (ino s ip) = T_DEVICE \<and> (sint (i_major (ino s ip)) < 0 \<or> sint (i_major (ino s ip)) \<ge> int NDEV)
         then bindE (iunlockput ip s) (\<lambda>s. bindE (fs_end_op s) (\<lambda>s. Inr (s, None)))
         else Inr (s, Some ip)))"

definition open_file :: "inode \<Rightarrow> nat \<Rightarrow> uint \<Rightarrow> kfile \<Rightarrow> kfile" where
  "open_file i ip omode f =
     (let f = (if i_type i = T_DEVICE then f\<lparr>f_type := FD_DEVICE, f_major := i_major i\<rparr>
               else f\<lparr>f_type := FD_INODE, f_off := 0\<rparr>)
      in f\<lparr>f_ip := ip, f_readable := (omode AND O_WRONLY = 0),
           f_writable := (omode AND O_WRONLY \<noteq> 0 \<or> omode AND O_RDWR \<noteq> 0)\<rparr>)"

definition sys_open :: "kernel \<Rightarrow> (kernel \<times> outcome) res" where
  "sys_open k =
     bindE (argint 1 k) (\<lambda>om.
     bindE (argstr 0 MAXPATH k) (\<lambda>(n, path).
     if n < 0 then ret k (-1)
     else (let omode = (of_int om :: uint)
       in bindE (in_fs (open_inode path omode) k) (\<lambda>(k, r).
          case r of
            None \<Rightarrow> ret k (-1)
          | Some ip \<Rightarrow>
              (let (k, fa) = filealloc k
               in bindE (case fa of Some f \<Rightarrow> fdalloc f k | None \<Rightarrow> Inr (k, -1)) (\<lambda>(k, fd).
                  if fa = None \<or> fd < 0
                  then bindE (close_opt fa k) (\<lambda>k.
                       bindE (in_fs0 (\<lambda>s. bindE (iunlockput ip s) fs_end_op) k) (\<lambda>k. ret k (-1)))
                  else (let k = k\<lparr>ftable := upd_file (the fa) (open_file (ino (fss k) ip) ip omode) (ftable k)\<rparr>
                        in bindE (in_fs0 (\<lambda>s.
                             bindE (if omode AND O_TRUNC \<noteq> 0 \<and> i_type (ino s ip) = T_FILE then itrunc ip s else Inr s) (\<lambda>s.
                             bindE (iunlock ip s) fs_end_op)) k) (\<lambda>k. ret k fd))))))))"

definition create_op :: "int \<Rightarrow> bytes \<Rightarrow> ushort \<Rightarrow> ushort \<Rightarrow> ushort \<Rightarrow> fsstate \<Rightarrow> (fsstate \<times> int) res" where
  "create_op n path type major minor s =
     bindE (fs_begin_op s) (\<lambda>s.
     if n < 0 then fail_op s
     else bindE (create path type major minor s) (\<lambda>(s, r).
       case r of
         None \<Rightarrow> fail_op s
       | Some ip \<Rightarrow> bindE (iunlockput ip s) (\<lambda>s. bindE (fs_end_op s) (\<lambda>s. Inr (s, 0)))))"

definition sys_mkdir :: "kernel \<Rightarrow> (kernel \<times> outcome) res" where
  "sys_mkdir k =
     bindE (argstr 0 MAXPATH k) (\<lambda>(n, path).
     bindE (in_fs (create_op n path T_DIR 0 0) k) (\<lambda>(k, r). ret k r))"

definition sys_mknod :: "kernel \<Rightarrow> (kernel \<times> outcome) res" where
  "sys_mknod k =
     bindE (argint 1 k) (\<lambda>major.
     bindE (argint 2 k) (\<lambda>minor.
     bindE (argstr 0 MAXPATH k) (\<lambda>(n, path).
     bindE (in_fs (create_op n path T_DEVICE (of_int major) (of_int minor)) k) (\<lambda>(k, r). ret k r))))"

definition chdir_op :: "int \<Rightarrow> bytes \<Rightarrow> fsstate \<Rightarrow> (fsstate \<times> nat option) res" where
  "chdir_op n path s =
     bindE (fs_begin_op s) (\<lambda>s.
     bindE (if n < 0 then Inr (s, None) else namei path s) (\<lambda>(s, r).
     case r of
       None \<Rightarrow> bindE (fs_end_op s) (\<lambda>s. Inr (s, None))
     | Some ip \<Rightarrow>
         bindE (ilock ip s) (\<lambda>s.
         if i_type (ino s ip) \<noteq> T_DIR
         then bindE (iunlockput ip s) (\<lambda>s. bindE (fs_end_op s) (\<lambda>s. Inr (s, None)))
         else bindE (iunlock ip s) (\<lambda>s.
              bindE (iput (cwd s) s) (\<lambda>s.
              bindE (fs_end_op s) (\<lambda>s. Inr (s, Some ip)))))))"

definition sys_chdir :: "kernel \<Rightarrow> (kernel \<times> outcome) res" where
  "sys_chdir k =
     bindE (myproc k) (\<lambda>i.
     bindE (argstr 0 MAXPATH k) (\<lambda>(n, path).
     bindE (in_fs (chdir_op n path) k) (\<lambda>(k, r).
     case r of
       None \<Rightarrow> ret k (-1)
     | Some ip \<Rightarrow> ret (kproc i (\<lambda>p. p\<lparr>p_cwd := Some ip\<rparr>) k) 0)))"

section \<open>Pipes\<close>

definition enc_int :: "int \<Rightarrow> bytes" where
  "enc_int x = le_bytes 4 (of_int x :: uint)"

definition close_both :: "nat \<Rightarrow> nat \<Rightarrow> kernel \<Rightarrow> (kernel \<times> outcome) res" where
  "close_both rf wrf k = bindE (fileclose rf k) (\<lambda>k. bindE (fileclose wrf k) (\<lambda>k. ret k (-1)))"

definition sys_pipe :: "kernel \<Rightarrow> (kernel \<times> outcome) res" where
  "sys_pipe k =
     bindE (myproc k) (\<lambda>i.
     bindE (argaddr 0 k) (\<lambda>fdarray.
     bindE (pipealloc k) (\<lambda>(k, r).
     case r of
       None \<Rightarrow> ret k (-1)
     | Some (rf, wrf) \<Rightarrow>
         bindE (fdalloc rf k) (\<lambda>(k, fd0).
         if fd0 < 0 then close_both rf wrf k
         else bindE (fdalloc wrf k) (\<lambda>(k, fd1).
           if fd1 < 0 then close_both rf wrf (set_fd i (nat fd0) None k)
           else bindE (ucopyout fdarray (enc_int fd0) k) (\<lambda>(k, r).
             bindE (if r < 0 then Inr (k, r) else ucopyout (fdarray + 4) (enc_int fd1) k) (\<lambda>(k, r).
             if r < 0 then close_both rf wrf (set_fd i (nat fd1) None (set_fd i (nat fd0) None k))
             else ret k 0)))))))"

end
