(* ===== verification/Exec.thy ===== *)
theory Exec
  imports Sysfile
begin

text \<open>
  \<open>kernel/exec.c\<close>, \<open>sys_exec\<close> and \<open>forkret\<close>: loading a program. The ELF headers are read from the file at the
  offsets of \<open>struct elfhdr\<close> and \<open>struct proghdr\<close>. \<open>argv\<close> is the list of the argument strings before the
  null pointer. A jump to the label \<open>bad\<close> is a result \<open>None\<close> of the part that jumps, with the page table
  and the size that the label frees.
\<close>

definition ELF_MAGIC :: uint where [hdr]: "ELF_MAGIC = 0x464C457F"
definition ELF_PROG_LOAD :: uint where [hdr]: "ELF_PROG_LOAD = 1"
definition ELFHDR :: nat where [hdr]: "ELFHDR = 64"
definition PROGHDR :: nat where [hdr]: "PROGHDR = 56"
definition USERSTACK :: uint64 where [hdr]: "USERSTACK = 1"

definition peek64 :: "bytes \<Rightarrow> nat \<Rightarrow> uint64" where
  "peek64 d off = le_word (take 8 (drop off d))"

record elfhdr =
  elf_magic :: uint
  elf_entry :: uint64
  elf_phoff :: uint64
  elf_phnum :: ushort

definition dec_elfhdr :: "bytes \<Rightarrow> elfhdr" where
  "dec_elfhdr b = \<lparr>elf_magic = peek32 b 0, elf_entry = peek64 b 24, elf_phoff = peek64 b 32, elf_phnum = peek16 b 56\<rparr>"

record proghdr =
  ph_type :: uint
  ph_flags :: uint
  ph_off :: uint64
  ph_vaddr :: uint64
  ph_filesz :: uint64
  ph_memsz :: uint64

definition dec_proghdr :: "bytes \<Rightarrow> proghdr" where
  "dec_proghdr b = \<lparr>ph_type = peek32 b 0, ph_flags = peek32 b 4, ph_off = peek64 b 8, ph_vaddr = peek64 b 16,
     ph_filesz = peek64 b 32, ph_memsz = peek64 b 40\<rparr>"

definition flags2perm :: "uint \<Rightarrow> uint64" where
  "flags2perm flags =
     (let perm = (if flags AND 1 \<noteq> 0 then PTE_X else 0)
      in if flags AND 2 \<noteq> 0 then perm OR PTE_W else perm)"

section \<open>Segments\<close>

text \<open>\<open>readi\<close> with \<open>user_dst\<close> 0 into physical memory at \<open>pa\<close>.\<close>

definition phys_out :: "uint64 \<Rightarrow> kmem copyout_fn" where
  "phys_out pa pos src m = Inr (m\<lparr>phys := store_bytes (phys m) (pa + of_nat pos) src\<rparr>, 0)"

function loadseg_from :: "uint64 \<Rightarrow> uint64 \<Rightarrow> nat \<Rightarrow> uint \<Rightarrow> nat \<Rightarrow> nat \<Rightarrow> fsstate \<Rightarrow> kmem \<Rightarrow> (fsstate \<times> kmem \<times> int) res" where
  "loadseg_from pagetable va ip offset sz i s m =
     (if i < sz
      then bindE (walkaddr m pagetable (va + of_nat i)) (\<lambda>pa.
        if pa = 0 then Inl (Panic ''loadseg: address should exist'')
        else (let n = (if sz - i < PGSIZE then sz - i else PGSIZE)
              in bindE (readi (phys_out pa) ip (offset + of_nat i) (of_nat n) s m) (\<lambda>(s, m, r).
                 if r \<noteq> int n then Inr (s, m, -1)
                 else loadseg_from pagetable va ip offset sz (i + PGSIZE) s m)))
      else Inr (s, m, 0))"
  by pat_completeness auto
termination
  by (relation "measure (\<lambda>(pagetable, va, ip, offset, sz, i, s, m). sz - i)") (auto simp: hdr)

declare loadseg_from.simps [simp del]

definition loadseg :: "uint64 \<Rightarrow> uint64 \<Rightarrow> nat \<Rightarrow> uint \<Rightarrow> uint \<Rightarrow> fsstate \<Rightarrow> kmem \<Rightarrow> (fsstate \<times> kmem \<times> int) res" where
  "loadseg pagetable va ip offset sz s m = loadseg_from pagetable va ip offset (unat sz) 0 s m"

text \<open>
  The loop over the program headers: \<open>n\<close> of them are left, the next is at \<open>off\<close>. The result is the
  size of the image and whether the loop ended without a jump to \<open>bad\<close>.
\<close>

primrec load_segments :: "nat \<Rightarrow> uint \<Rightarrow> uint64 \<Rightarrow> nat \<Rightarrow> uint64 \<Rightarrow> fsstate \<Rightarrow> kmem \<Rightarrow> (fsstate \<times> kmem \<times> uint64 \<times> bool) res" where
  "load_segments 0 off pagetable ip sz s m = Inr (s, m, sz, True)"
| "load_segments (Suc n) off pagetable ip sz s m =
     bindE (readi kernel_out ip off (of_nat PROGHDR) s []) (\<lambda>(s, b, r).
     if r \<noteq> int PROGHDR then Inr (s, m, sz, False)
     else (let ph = dec_proghdr b
       in if ph_type ph \<noteq> ELF_PROG_LOAD then load_segments n (off + of_nat PROGHDR) pagetable ip sz s m
          else if ph_memsz ph < ph_filesz ph then Inr (s, m, sz, False)
          else if ph_vaddr ph + ph_memsz ph < ph_vaddr ph then Inr (s, m, sz, False)
          else if ph_vaddr ph mod 4096 \<noteq> 0 then Inr (s, m, sz, False)
          else bindE (uvmalloc m pagetable sz (ph_vaddr ph + ph_memsz ph) (flags2perm (ph_flags ph))) (\<lambda>(m, sz1).
               if sz1 = 0 then Inr (s, m, sz, False)
               else bindE (loadseg pagetable (ph_vaddr ph) ip (ucast (ph_off ph)) (ucast (ph_filesz ph)) s m) (\<lambda>(s, m, r).
                    if r < 0 then Inr (s, m, sz1, False)
                    else load_segments n (off + of_nat PROGHDR) pagetable ip sz1 s m))))"

text \<open>
  From \<open>begin_op\<close> to \<open>end_op\<close>: the entry point, the page table and the size of the loaded image.
\<close>

definition exec_load :: "uint64 \<Rightarrow> uint64 \<Rightarrow> bytes \<Rightarrow> fsstate \<Rightarrow> kmem \<Rightarrow> (fsstate \<times> kmem \<times> (uint64 \<times> uint64 \<times> uint64) option) res" where
  "exec_load tramp tf path s m =
     bindE (fs_begin_op s) (\<lambda>s.
     bindE (namei path s) (\<lambda>(s, r).
     case r of
       None \<Rightarrow> bindE (fs_end_op s) (\<lambda>s. Inr (s, m, None))
     | Some ip \<Rightarrow>
         bindE (ilock ip s) (\<lambda>s.
         bindE (readi kernel_out ip 0 (of_nat ELFHDR) s []) (\<lambda>(s, b, r).
         let elf = dec_elfhdr b;
             bad = (\<lambda>s m. bindE (iunlockput ip s) (\<lambda>s. bindE (fs_end_op s) (\<lambda>s. Inr (s, m, None))))
         in if r \<noteq> int ELFHDR then bad s m
            else if elf_magic elf \<noteq> ELF_MAGIC then bad s m
            else bindE (proc_pagetable tramp tf m) (\<lambda>(m, pagetable).
              if pagetable = 0 then bad s m
              else bindE (load_segments (unat (elf_phnum elf)) (ucast (elf_phoff elf)) pagetable ip 0 s m) (\<lambda>(s, m, sz, ok).
                if \<not> ok then bindE (proc_freepagetable pagetable sz m) (\<lambda>m. bad s m)
                else bindE (iunlockput ip s) (\<lambda>s.
                     bindE (fs_end_op s) (\<lambda>s. Inr (s, m, Some (elf_entry elf, pagetable, sz))))))))))"

section \<open>The user stack\<close>

text \<open>
  Pushing the argument strings: the remaining arguments, the addresses pushed so far and the stack
  pointer. \<open>None\<close> is a jump to \<open>bad\<close>. \<open>ustack\<close> has \<open>MAXARG\<close> entries.
\<close>

fun push_args :: "myproc \<Rightarrow> uint64 \<Rightarrow> uint64 \<Rightarrow> bytes list \<Rightarrow> uint64 list \<Rightarrow> uint64 \<Rightarrow> kmem \<Rightarrow> (kmem \<times> (uint64 list \<times> uint64) option) res" where
  "push_args p pagetable stackbase [] ustack sp m = Inr (m, Some (ustack, sp))"
| "push_args p pagetable stackbase (a # argv) ustack sp m =
     (if length ustack \<ge> MAXARG then Inr (m, None)
      else bindE (strlen a) (\<lambda>n.
        let sp = sp - (of_nat n + 1); sp = sp - sp mod 16
        in if sp < stackbase then Inr (m, None)
           else bindE (copyout p m pagetable sp (take (n + 1) a)) (\<lambda>(m, r).
                if r < 0 then Inr (m, None)
                else push_args p pagetable stackbase argv (ustack @ [sp]) sp m)))"

definition exec_stack :: "myproc \<Rightarrow> uint64 \<Rightarrow> uint64 \<Rightarrow> bytes list \<Rightarrow> kmem \<Rightarrow> (kmem \<times> uint64 \<times> (uint64 \<times> nat) option) res" where
  "exec_stack p pagetable sz argv m =
     (let sz = PGROUNDUP sz
      in bindE (uvmalloc m pagetable sz (sz + (USERSTACK + 1) * 4096) PTE_W) (\<lambda>(m, sz1).
         if sz1 = 0 then Inr (m, sz, None)
         else (let sz = sz1
           in bindE (uvmclear m pagetable (sz - (USERSTACK + 1) * 4096)) (\<lambda>m.
              let stackbase = sz - USERSTACK * 4096
              in bindE (push_args p pagetable stackbase argv [] sz m) (\<lambda>(m, r).
                 case r of
                   None \<Rightarrow> Inr (m, sz, None)
                 | Some (ustack, sp) \<Rightarrow>
                     if length ustack \<ge> MAXARG then Inl OutOfBounds
                     else (let argc = length ustack;
                               sp = sp - (of_nat argc + 1) * 8; sp = sp - sp mod 16
                           in if sp < stackbase then Inr (m, sz, None)
                              else bindE (copyout p m pagetable sp (concat (map (le_bytes 8) (ustack @ [0])))) (\<lambda>(m, r).
                                   if r < 0 then Inr (m, sz, None) else Inr (m, sz, Some (sp, argc)))))))))"

text \<open>The part of the path after the last slash.\<close>

fun last_elem :: "bytes \<Rightarrow> bytes \<Rightarrow> bytes res" where
  "last_elem [] lst = Inl OutOfBounds"
| "last_elem (c # s) lst = (if c = 0 then Inr lst else if c = of_char (CHR ''/'') then last_elem s s else last_elem s lst)"

definition TF_epc :: uint64 where [hdr]: "TF_epc = 24"
definition TF_sp :: uint64 where [hdr]: "TF_sp = 48"

section \<open>kexec\<close>

definition set_tf :: "uint64 \<Rightarrow> uint64 \<Rightarrow> uint64 \<Rightarrow> kmem \<Rightarrow> kmem" where
  "set_tf tf off v m = m\<lparr>phys := store64 (phys m) (tf + off) v\<rparr>"

definition kexec :: "bytes \<Rightarrow> bytes list \<Rightarrow> kernel \<Rightarrow> (kernel \<times> int) res" where
  "kexec path argv k =
     bindE (myproc k) (\<lambda>i.
     let p = ptab k ! i
     in bindE (in_fs (\<lambda>s. exec_load (trampoline k) (p_trapframe p) path s (km k)) k) (\<lambda>(k, m, r).
        case r of
          None \<Rightarrow> Inr (set_km m k, -1)
        | Some (ent, pagetable, sz) \<Rightarrow>
            bindE (exec_stack (p_sz p, p_pagetable p) pagetable sz argv m) (\<lambda>(m, sz, r).
            case r of
              None \<Rightarrow> bindE (proc_freepagetable pagetable sz m) (\<lambda>m. Inr (set_km m k, -1))
            | Some (sp, argc) \<Rightarrow>
                bindE (last_elem path path) (\<lambda>lst.
                bindE (safestrcpy (p_name p) lst 16) (\<lambda>name.
                let m = set_tf (p_trapframe p) (TF_a0 + 8) sp m;
                    k = kproc i (\<lambda>p. p\<lparr>p_name := name, p_pagetable := pagetable, p_sz := sz\<rparr>) k;
                    m = set_tf (p_trapframe p) TF_epc ent m;
                    m = set_tf (p_trapframe p) TF_sp sp m
                in bindE (proc_freepagetable (p_pagetable p) (p_sz p) m) (\<lambda>m.
                   Inr (set_km m k, int argc)))))))"

section \<open>sys_exec\<close>

text \<open>
  The loop that fetches the arguments, from the pointer \<open>uargv\<close> on: each string is in a page of its
  own. The result is the pages with their contents, and whether the loop ended at a null pointer.
\<close>

function fetch_argv :: "uint64 \<Rightarrow> nat \<Rightarrow> (uint64 \<times> bytes) list \<Rightarrow> kernel \<Rightarrow> (kernel \<times> (uint64 \<times> bytes) list \<times> bool) res" where
  "fetch_argv uargv i argv k =
     (if i \<ge> MAXARG then Inr (k, argv, False)
      else bindE (fetchaddr (uargv + 8 * of_nat i) k) (\<lambda>(k, a).
        case a of
          None \<Rightarrow> Inr (k, argv, False)
        | Some uarg \<Rightarrow>
            if uarg = 0 then Inr (k, argv, True)
            else (let (m, pg) = kalloc (km k); k = set_km m k
              in if pg = 0 then Inr (k, argv, False)
                 else bindE (fetchstr uarg PGSIZE k) (\<lambda>(r, bs).
                      let k = set_km ((km k)\<lparr>phys := store_bytes (phys (km k)) pg bs\<rparr>) k
                      in if r < 0 then Inr (k, argv @ [(pg, bs)], False)
                         else fetch_argv uargv (Suc i) (argv @ [(pg, bs)]) k))))"
  by pat_completeness auto
termination
  by (relation "measure (\<lambda>(uargv, i, argv, k). MAXARG - i)") auto

declare fetch_argv.simps [simp del]

primrec free_pages :: "uint64 list \<Rightarrow> kmem \<Rightarrow> kmem res" where
  "free_pages [] m = Inr m"
| "free_pages (p # ps) m = bindE (kfree p m) (free_pages ps)"

definition sys_exec :: "kernel \<Rightarrow> (kernel \<times> outcome) res" where
  "sys_exec k =
     bindE (argaddr 1 k) (\<lambda>uargv.
     bindE (argstr 0 MAXPATH k) (\<lambda>(r, path).
     if r < 0 then ret k (-1)
     else bindE (fetch_argv uargv 0 [] k) (\<lambda>(k, argv, ok).
       bindE (if ok then kexec path (map snd argv) k else Inr (k, -1)) (\<lambda>(k, r).
       bindE (free_pages (map fst argv) (km k)) (\<lambda>m. ret (set_km m k) r)))))"

section \<open>forkret\<close>

text \<open>
  The first process initialises the file system and starts \<open>/init\<close>; \<open>first\<close> is the static variable.
  The way back to user space is in assembly.
\<close>

definition forkret :: "bool \<Rightarrow> kernel \<Rightarrow> (kernel \<times> bool) res" where
  "forkret first k =
     (if first
      then bindE (myproc k) (\<lambda>i.
           bindE (in_fs0 fsinit k) (\<lambda>k.
           bindE (kexec (lit ''/init'') [lit ''/init''] k) (\<lambda>(k, r).
           let k = set_km (set_tf (p_trapframe (ptab k ! i)) TF_a0 (of_int r) (km k)) k
           in if r = -1 then Inl (Panic ''exec'') else Inr (k, False))))
      else Inr (k, first))"

end
