(* ===== verification/Sysproc.thy ===== *)
theory Sysproc
  imports Exec Verifier
begin

text \<open>
  \<open>kernel/sysproc.c\<close>: process control and the agent system calls (roles, priorities, quotas, the proxy
  lock, fix verification, checkpoint and restore, the prompt cache). An array on the stack of a call
  that is not written before it is read or copied out is a parameter with its previous contents.
\<close>

definition SBRK_EAGER :: int where [hdr]: "SBRK_EAGER = 1"

section \<open>Process control\<close>

definition proxyinit :: "kernel \<Rightarrow> kernel" where
  "proxyinit k = k\<lparr>proxy_lock := initsleeplock, ckpt := (ckpt k)\<lparr>ckpt_len := 0\<rparr>\<rparr>"

definition sys_exit :: "kernel \<Rightarrow> kernel res" where
  "sys_exit k = bindE (argint 0 k) (\<lambda>n. kexit n k)"

definition sys_getpid :: "kernel \<Rightarrow> (kernel \<times> outcome) res" where
  "sys_getpid k = bindE (myproc k) (\<lambda>i. ret k (p_pid (ptab k ! i)))"

definition sys_fork :: "kernel \<Rightarrow> (kernel \<times> outcome) res" where
  "sys_fork k = bindE (kfork k) (\<lambda>(k, r). ret k r)"

definition sys_wait :: "kernel \<Rightarrow> (kernel \<times> outcome) res" where
  "sys_wait k = bindE (argaddr 0 k) (\<lambda>p. kwait p k)"

definition sys_sbrk :: "kernel \<Rightarrow> (kernel \<times> outcome) res" where
  "sys_sbrk k =
     bindE (argint 0 k) (\<lambda>n.
     bindE (argint 1 k) (\<lambda>t.
     bindE (myproc k) (\<lambda>i.
     let addr = p_sz (ptab k ! i)
     in if t = SBRK_EAGER \<or> n < 0
        then bindE (growproc n k) (\<lambda>(k, r). if r < 0 then ret k (-1) else ret k (uint addr))
        else if addr + of_int n < addr then ret k (-1)
        else if addr + of_int n > TRAPFRAME then ret k (-1)
        else ret (kproc i (\<lambda>p. p\<lparr>p_sz := p_sz p + of_int n\<rparr>) k) (uint addr))))"

text \<open>The loop of \<open>sys_pause\<close>; a sleeping call keeps \<open>ticks0\<close>.\<close>

definition pause_from :: "uint \<Rightarrow> int \<Rightarrow> kernel \<Rightarrow> (kernel \<times> outcome) res" where
  "pause_from ticks0 n k =
     bindE (myproc k) (\<lambda>i.
     if ticks k - ticks0 < of_int n
     then if killed i k then ret k (-1)
          else bindE (sleep Ticks_chan k) (\<lambda>k. Inr (k, Asleep Ticks_chan (unat ticks0)))
     else ret k 0)"

definition sys_pause :: "kernel \<Rightarrow> (kernel \<times> outcome) res" where
  "sys_pause k = bindE (argint 0 k) (\<lambda>n. pause_from (ticks k) (if n < 0 then 0 else n) k)"

definition sys_kill :: "kernel \<Rightarrow> (kernel \<times> outcome) res" where
  "sys_kill k = bindE (argint 0 k) (\<lambda>pid. let (k, r) = kkill pid k in ret k r)"

definition sys_uptime :: "kernel \<Rightarrow> (kernel \<times> outcome) res" where
  "sys_uptime k = ret k (uint (ticks k))"

section \<open>Agents\<close>

definition sys_setrole :: "kernel \<Rightarrow> (kernel \<times> outcome) res" where
  "sys_setrole k =
     bindE (myproc k) (\<lambda>i.
     bindE (argstr 0 16 k) (\<lambda>(n, buf).
     if n \<le> 1 then ret k (-1)
     else bindE (safestrcpy (p_agent_role (ptab k ! i)) buf 16) (\<lambda>role.
          ret (kproc i (\<lambda>p. p\<lparr>p_agent_role := role\<rparr>) k) 0)))"

fun agentstat_loop :: "bool \<Rightarrow> proc list \<Rightarrow> bytes res" where
  "agentstat_loop first [] = Inr []"
| "agentstat_loop first (p # ps) =
     (if p_state p = UNUSED then agentstat_loop first ps
      else bindE (if first then Inr [] else printf '','' []) (\<lambda>a.
           bindE (printf (''{'' @ [CHR 0x22] @ ''pid'' @ [CHR 0x22] @ '':%d,'' @ [CHR 0x22] @ ''name'' @ [CHR 0x22] @ '':'' @ [CHR 0x22] @
                ''%s'' @ [CHR 0x22] @ '','' @ [CHR 0x22] @ ''role'' @ [CHR 0x22] @ '':'' @ [CHR 0x22] @ ''%s'' @ [CHR 0x22] @ '','' @
                [CHR 0x22] @ ''prio'' @ [CHR 0x22] @ '':%d,'' @ [CHR 0x22] @ ''st'' @ [CHR 0x22] @ '':'' @ [CHR 0x22] @ ''%s'' @ [CHR 0x22] @ '','' @
                [CHR 0x22] @ ''rss_kb'' @ [CHR 0x22] @ '':%d,'' @ [CHR 0x22] @ ''quota_pg'' @ [CHR 0x22] @ '':%d,'' @ [CHR 0x22] @ ''qdenied'' @ [CHR 0x22] @ '':%d}'')
             [num_arg (p_pid p), AStr (Some (p_name p)), AStr (Some (p_agent_role p)), num_arg (p_priority p),
              AStr (Some (state_name [''unused'', ''used'', ''sleep'', ''runble'', ''run'', ''zombie''] (p_state p))),
              ANum (p_sz p div 1024), num_arg (p_mem_quota p), num_arg (p_quota_denied p)]) (\<lambda>b.
           bindE (agentstat_loop False ps) (\<lambda>c. Inr (a @ b @ c)))))"

definition sys_agentstat :: "kernel \<Rightarrow> (kernel \<times> outcome) res" where
  "sys_agentstat k =
     bindE (kprintf (bindE (printf ''['' []) (\<lambda>a.
        bindE (agentstat_loop True (ptab k)) (\<lambda>b.
        bindE (printf '']\<newline>'' []) (\<lambda>c. Inr (a @ b @ c))))) k) (\<lambda>k. ret k 0)"

definition sys_setprio :: "kernel \<Rightarrow> (kernel \<times> outcome) res" where
  "sys_setprio k =
     bindE (myproc k) (\<lambda>i.
     bindE (argint 0 k) (\<lambda>prio.
     let prio = (if prio < -20 then -20 else prio);
         prio = (if prio > 19 then 19 else prio);
         prev = p_priority (ptab k ! i)
     in ret (kproc i (\<lambda>p. p\<lparr>p_priority := prio\<rparr>) k) prev))"

definition sys_setquota :: "kernel \<Rightarrow> (kernel \<times> outcome) res" where
  "sys_setquota k =
     bindE (myproc k) (\<lambda>i.
     bindE (argint 0 k) (\<lambda>pages.
     let pages = (if pages < 0 then 0 else pages);
         prev = p_mem_quota (ptab k ! i)
     in ret (kproc i (\<lambda>p. p\<lparr>p_mem_quota := pages\<rparr>) k) prev))"

definition sys_proxylock :: "kernel \<Rightarrow> (kernel \<times> outcome) res" where
  "sys_proxylock k =
     bindE (myproc k) (\<lambda>i.
     bindE (acquiresleep (p_pid (ptab k ! i)) (proxy_lock k)) (\<lambda>lk. ret (k\<lparr>proxy_lock := lk\<rparr>) 0))"

definition sys_proxyunlock :: "kernel \<Rightarrow> (kernel \<times> outcome) res" where
  "sys_proxyunlock k =
     bindE (myproc k) (\<lambda>i.
     ret (if holdingsleep (p_pid (ptab k ! i)) (proxy_lock k)
          then k\<lparr>proxy_lock := releasesleep (proxy_lock k)\<rparr> else k) 0)"

section \<open>Verification of fixes\<close>

text \<open>\<open>a || b\<close> on calls of \<open>strncmp\<close>: the second is made only when the first is not 0.\<close>

definition either_eq :: "bytes \<Rightarrow> bytes \<Rightarrow> nat \<Rightarrow> bool res \<Rightarrow> bool res" where
  "either_eq a b n rest = bindE (strncmp a b n) (\<lambda>c. if c = 0 then Inr True else rest)"

fun snapshot_loop :: "fix_proposal \<Rightarrow> proc list \<Rightarrow> sys_snapshot \<Rightarrow> sys_snapshot res" where
  "snapshot_loop p [] s = Inr s"
| "snapshot_loop p (pp # ps) s =
     (if p_state pp = UNUSED then snapshot_loop p ps s
      else (let s = s\<lparr>nproc := nproc s + 1\<rparr>
        in bindE (either_eq (p_name pp) (fp_target p) FIX_TARGET_LEN
             (either_eq (p_agent_role pp) (fp_target p) FIX_TARGET_LEN (Inr False))) (\<lambda>hit.
           if \<not> hit then snapshot_loop p ps s
           else bindE (either_eq (p_name pp) (lit ''init'') 16
                  (either_eq (p_name pp) (lit ''sh'') 16
                  (either_eq (p_agent_role pp) (lit ''evaluator'') 16 (Inr False)))) (\<lambda>prot.
                snapshot_loop p ps (s\<lparr>target_pid := p_pid pp,
                  target_protected := (target_protected s \<or> prot)\<rparr>)))))"

definition fill_snapshot :: "fix_proposal \<Rightarrow> proc list \<Rightarrow> sys_snapshot res" where
  "fill_snapshot p ps = snapshot_loop p ps \<lparr>target_pid = -1, target_protected = False, nproc = 0\<rparr>"

definition FIX_SIZE :: nat where [hdr]: "FIX_SIZE = 44"

definition peek_int :: "bytes \<Rightarrow> nat \<Rightarrow> int" where
  "peek_int b off = sint (peek32 b off)"

definition dec_fix :: "bytes \<Rightarrow> fix_proposal" where
  "dec_fix b = \<lparr>fp_role = take 16 b, fp_target = take 16 (drop 16 b), fp_action = peek_int b 32,
     fp_severity = peek_int b 36, fp_retry_hint = peek_int b 40\<rparr>"

definition sys_verifyfix :: "bytes \<Rightarrow> kernel \<Rightarrow> (kernel \<times> outcome) res" where
  "sys_verifyfix reason0 k =
     bindE (argaddr 0 k) (\<lambda>paddr.
     bindE (argaddr 1 k) (\<lambda>raddr.
     bindE (argint 2 k) (\<lambda>rlen.
     bindE (ucopyin paddr FIX_SIZE k) (\<lambda>(k, r, b).
     if r < 0 then ret k (-100)
     else (let p = dec_fix b
       in bindE (fill_snapshot p (ptab k)) (\<lambda>snap.
          bindE (verify_fix (Some p) (Some snap) (Some reason0) 64) (\<lambda>(rc, reason).
          if raddr \<noteq> 0 \<and> rlen > 0
          then (let n = (if rlen < 64 then nat rlen else 64)
                in bindE (ucopyout raddr (take n (the reason)) k) (\<lambda>(k, r).
                   if r < 0 then ret k (-100) else ret k rc))
          else ret k rc)))))))"

section \<open>Checkpoints\<close>

definition sys_checkpoint :: "kernel \<Rightarrow> (kernel \<times> outcome) res" where
  "sys_checkpoint k =
     bindE (argaddr 0 k) (\<lambda>src.
     bindE (argint 1 k) (\<lambda>len.
     if len < 0 \<or> len > int CKPT_MAX then ret k (-1)
     else bindE (if len > 0 then ucopyin src (nat len) k else Inr (k, 0, [])) (\<lambda>(k, r, tmp).
       if r < 0 then ret k (-1)
       else bindE (myproc k) (\<lambda>i.
         ret (k\<lparr>ckpt := \<lparr>ckpt_len = len, ckpt_owner = p_pid (ptab k ! i),
                ckpt_buf = (if len > 0 then tmp @ drop (nat len) (ckpt_buf (ckpt k)) else ckpt_buf (ckpt k))\<rparr>\<rparr>) len))))"

definition sys_restore :: "kernel \<Rightarrow> (kernel \<times> outcome) res" where
  "sys_restore k =
     bindE (argaddr 0 k) (\<lambda>dst.
     bindE (argint 1 k) (\<lambda>len.
     if len < 0 then ret k (-1)
     else bindE (myproc k) (\<lambda>i.
       let n = (if ckpt_owner (ckpt k) = p_pid (ptab k ! i) then ckpt_len (ckpt k) else 0);
           n = (if n > len then len else n)
       in if n > 0
          then bindE (ucopyout dst (take (nat n) (ckpt_buf (ckpt k))) k) (\<lambda>(k, r).
               if r < 0 then ret k (-1) else ret k n)
          else ret k n)))"

section \<open>The prompt cache\<close>

definition in_cache :: "(slots \<times> fsstate \<Rightarrow> ((slots \<times> fsstate) \<times> 'a) res) \<Rightarrow> kernel \<Rightarrow> (kernel \<times> 'a) res" where
  "in_cache f k =
     bindE (in_fs (\<lambda>s. bindE (f (cslots k, s)) (\<lambda>((sl, s), r). Inr (s, sl, r))) k) (\<lambda>(k, sl, r).
     Inr (k\<lparr>cslots := sl\<rparr>, r))"

definition sys_cacheget :: "bytes \<Rightarrow> kernel \<Rightarrow> (kernel \<times> outcome) res" where
  "sys_cacheget out0 k =
     bindE (argstr 0 16 k) (\<lambda>(r, role).
     if r < 0 then ret k (-1)
     else bindE (argstr 1 256 k) (\<lambda>(r, prompt).
       if r < 0 then ret k (-1)
       else bindE (argaddr 2 k) (\<lambda>uout.
         bindE (argint 3 k) (\<lambda>outmax.
         bindE (in_cache (cache_get role prompt (Some out0) (int CACHE_VALLEN)) k) (\<lambda>(k, out, hit).
         if hit \<noteq> 0 \<and> uout \<noteq> 0 \<and> outmax > 0
         then (let n = (if outmax < int CACHE_VALLEN then nat outmax else CACHE_VALLEN)
               in bindE (ucopyout uout (take n (the out)) k) (\<lambda>(k, r).
                  if r < 0 then ret k (-1) else ret k hit))
         else ret k hit)))))"

definition sys_cacheset :: "bytes \<Rightarrow> bytes \<Rightarrow> kernel \<Rightarrow> (kernel \<times> outcome) res" where
  "sys_cacheset role0 val0 k =
     bindE (argstr 0 16 k) (\<lambda>(r, role).
     if r < 0 then ret k (-1)
     else bindE (argstr 1 256 k) (\<lambda>(r, prompt).
       if r < 0 then ret k (-1)
       else bindE (argstr 2 CACHE_VALLEN k) (\<lambda>(r, val).
         if r < 0 then ret k (-1)
         else bindE (in_cache (cache_set role0 val0 role prompt val) k) (\<lambda>(k, r). ret k r))))"

definition sys_cacheclear :: "kernel \<Rightarrow> (kernel \<times> outcome) res" where
  "sys_cacheclear k =
     bindE (argint 0 k) (\<lambda>dsk.
     bindE (in_cache (\<lambda>st. bindE (cache_clear (dsk \<noteq> 0) st) (\<lambda>st. Inr (st, ()))) k) (\<lambda>(k, _). ret k 0))"

end
