(* ===== verification/Trap.thy ===== *)
theory Trap
  imports Sysproc
begin

text \<open>
  The system call dispatch of \<open>kernel/syscall.c\<close> and the trap handlers of \<open>kernel/trap.c\<close>. The trap
  registers (\<open>scause\<close>, \<open>sepc\<close>, \<open>stval\<close>, \<open>satp\<close>, \<open>tp\<close> and the SPP bit), the number that \<open>plic_claim\<close> returns and the
  characters waiting in the UART are arguments, collected in \<open>trap_in\<close>; the symbols \<open>usertrap\<close>,
  \<open>uservec\<close> and the control registers written on the way back are not part of the state.
\<close>

text \<open>Unwritten stack memory that some calls copy out or keep.\<close>

record stack_junk =
  j_pad :: bytes
  j_reason :: bytes
  j_out :: bytes
  j_role :: bytes
  j_val :: bytes

definition returning :: "(kernel \<times> outcome) res \<Rightarrow> (kernel \<times> outcome option) res" where
  "returning m = bindE m (\<lambda>(k, r). Inr (k, Some r))"

text \<open>The table \<open>syscalls\<close>; \<open>None\<close> as the outcome of a call means that it does not return.\<close>

definition syscalls :: "stack_junk \<Rightarrow> (kernel \<Rightarrow> (kernel \<times> outcome option) res) list" where
  "syscalls j = [
     \<lambda>k. returning (sys_fork k),
     \<lambda>k. bindE (sys_exit k) (\<lambda>k. Inr (k, None)),
     \<lambda>k. returning (sys_wait k),
     \<lambda>k. returning (sys_pipe k),
     \<lambda>k. returning (sys_read k),
     \<lambda>k. returning (sys_kill k),
     \<lambda>k. returning (sys_exec k),
     \<lambda>k. returning (sys_fstat (j_pad j) k),
     \<lambda>k. returning (sys_chdir k),
     \<lambda>k. returning (sys_dup k),
     \<lambda>k. returning (sys_getpid k),
     \<lambda>k. returning (sys_sbrk k),
     \<lambda>k. returning (sys_pause k),
     \<lambda>k. returning (sys_uptime k),
     \<lambda>k. returning (sys_open k),
     \<lambda>k. returning (sys_write k),
     \<lambda>k. returning (sys_mknod k),
     \<lambda>k. returning (sys_unlink k),
     \<lambda>k. returning (sys_link k),
     \<lambda>k. returning (sys_mkdir k),
     \<lambda>k. returning (sys_close k),
     \<lambda>k. returning (sys_setrole k),
     \<lambda>k. returning (sys_agentstat k),
     \<lambda>k. returning (sys_proxylock k),
     \<lambda>k. returning (sys_proxyunlock k),
     \<lambda>k. returning (sys_setprio k),
     \<lambda>k. returning (sys_verifyfix (j_reason j) k),
     \<lambda>k. returning (sys_checkpoint k),
     \<lambda>k. returning (sys_restore k),
     \<lambda>k. returning (sys_cacheget (j_out j) k),
     \<lambda>k. returning (sys_cacheset (j_role j) (j_val j) k),
     \<lambda>k. returning (sys_cacheclear k),
     \<lambda>k. returning (sys_setquota k)]"

definition TF_a7 :: uint64 where [hdr]: "TF_a7 = 168"

definition set_reg :: "nat \<Rightarrow> uint64 \<Rightarrow> uint64 \<Rightarrow> kernel \<Rightarrow> kernel" where
  "set_reg i off v k = set_km (set_tf (p_trapframe (ptab k ! i)) off v (km k)) k"

definition get_reg :: "nat \<Rightarrow> uint64 \<Rightarrow> kernel \<Rightarrow> uint64" where
  "get_reg i off k = load64 (phys (km k)) (p_trapframe (ptab k ! i) + off)"

definition syscall :: "stack_junk \<Rightarrow> kernel \<Rightarrow> (kernel \<times> outcome option) res" where
  "syscall j k =
     bindE (myproc k) (\<lambda>i.
     let num = sint (ucast (get_reg i TF_a7 k) :: uint)
     in if num > 0 \<and> num < int (length (syscalls j)) + 1
        then bindE ((syscalls j ! (nat num - 1)) k) (\<lambda>(k, r).
             case r of
               Some (Done v) \<Rightarrow> Inr (set_reg i TF_a0 (of_int v) k, r)
             | _ \<Rightarrow> Inr (k, r))
        else bindE (kprintf (printf ''%d %s: unknown sys call %d\<newline>''
                 [num_arg (p_pid (ptab k ! i)), AStr (Some (p_name (ptab k ! i))), num_arg num]) k) (\<lambda>k.
             Inr (set_reg i TF_a0 (-1) k, Some (Done (-1)))))"

section \<open>Interrupts\<close>

record trap_in =
  t_spp :: bool
  t_scause :: uint64
  t_sepc :: uint64
  t_stval :: uint64
  t_satp :: uint64
  t_tp :: nat
  t_irq :: int
  t_rx :: bytes

definition UART0_IRQ :: int where [hdr]: "UART0_IRQ = 10"
definition VIRTIO0_IRQ :: int where [hdr]: "VIRTIO0_IRQ = 1"

text \<open>\<open>uartintr\<close>: the characters received are handed to the console in order.\<close>

fun uartintr :: "bytes \<Rightarrow> kernel \<Rightarrow> kernel res" where
  "uartintr [] k = Inr k"
| "uartintr (c # cs) k = bindE (consoleintr c k) (uartintr cs)"

definition clockintr :: "nat \<Rightarrow> kernel \<Rightarrow> kernel" where
  "clockintr cid k = (if cid = 0 then wakeup (Some Ticks_chan) (k\<lparr>ticks := ticks k + 1\<rparr>) else k)"

text \<open>The disk is synchronous in this model, so \<open>virtio_disk_intr\<close> has nothing to do.\<close>

definition devintr :: "trap_in \<Rightarrow> kernel \<Rightarrow> (kernel \<times> nat) res" where
  "devintr t k =
     (if t_scause t = 0x8000000000000009
      then bindE (if t_irq t = UART0_IRQ then uartintr (t_rx t) k
                  else if t_irq t = VIRTIO0_IRQ then Inr k
                  else if t_irq t \<noteq> 0 then kprintf (printf ''unexpected interrupt irq=%d\<newline>'' [num_arg (t_irq t)]) k
                  else Inr k) (\<lambda>k. Inr (k, 1))
      else if t_scause t = 0x8000000000000005 then Inr (clockintr (t_tp t) k, 2)
      else Inr (k, 0))"

section \<open>Traps\<close>

text \<open>How a trap handler ends: back in user space with a page table, or in the scheduler.\<close>

datatype trap_end = To_user uint64 | To_scheduler

definition MAKE_SATP :: "uint64 \<Rightarrow> uint64" where
  "MAKE_SATP pt = push_bit 60 8 OR drop_bit 12 pt"

text \<open>\<open>prepare_return\<close>: the values that \<open>uservec\<close> will need at the next trap.\<close>

definition prepare_return :: "uint64 \<Rightarrow> trap_in \<Rightarrow> nat \<Rightarrow> kernel \<Rightarrow> kernel" where
  "prepare_return usertrap_addr t i k =
     set_reg i 32 (of_nat (t_tp t)) (set_reg i 16 usertrap_addr
       (set_reg i 8 (p_kstack (ptab k ! i) + 4096) (set_reg i 0 (t_satp t) k)))"

definition usertrap_tail :: "uint64 \<Rightarrow> trap_in \<Rightarrow> nat \<Rightarrow> nat \<Rightarrow> kernel \<Rightarrow> (kernel \<times> trap_end) res" where
  "usertrap_tail ut t i which_dev k =
     (if killed i k then bindE (kexit (-1) k) (\<lambda>k. Inr (k, To_scheduler))
      else if which_dev = 2 then bindE (yield k) (\<lambda>k. Inr (k, To_scheduler))
      else Inr (prepare_return ut t i k, To_user (MAKE_SATP (p_pagetable (ptab k ! i)))))"

definition usertrap :: "uint64 \<Rightarrow> stack_junk \<Rightarrow> trap_in \<Rightarrow> kernel \<Rightarrow> (kernel \<times> trap_end) res" where
  "usertrap ut j t k =
     (if t_spp t then Inl (Panic ''usertrap: not from user mode'')
      else bindE (myproc k) (\<lambda>i.
        let k = set_reg i TF_epc (t_sepc t) k
        in if t_scause t = 8
           then if killed i k then bindE (kexit (-1) k) (\<lambda>k. Inr (k, To_scheduler))
             else bindE (syscall j (set_reg i TF_epc (get_reg i TF_epc k + 4) k)) (\<lambda>(k, r).
                  case r of
                    Some (Done _) \<Rightarrow> usertrap_tail ut t i 0 k
                  | _ \<Rightarrow> Inr (k, To_scheduler))
           else bindE (devintr t k) (\<lambda>(k, which_dev).
             if which_dev \<noteq> 0 then usertrap_tail ut t i which_dev k
             else bindE (if t_scause t = 15 \<or> t_scause t = 13
                         then vmfault (p_sz (ptab k ! i), p_pagetable (ptab k ! i)) (km k) (p_pagetable (ptab k ! i)) (t_stval t)
                         else Inr (km k, 0)) (\<lambda>(m, pa).
               if pa \<noteq> 0 then usertrap_tail ut t i 0 (set_km m k)
               else bindE (kprintf (printf ''usertrap(): unexpected scause 0x%lx pid=%d\<newline>''
                        [ANum (t_scause t), num_arg (p_pid (ptab k ! i))]) (set_km m k)) (\<lambda>k.
                    bindE (kprintf (printf ''            sepc=0x%lx stval=0x%lx\<newline>'' [ANum (t_sepc t), ANum (t_stval t)]) k) (\<lambda>k.
                    usertrap_tail ut t i 0 (setkilled i k)))))))"

text \<open>\<open>kerneltrap\<close>: device interrupts while in the kernel; \<open>intr_on\<close> is \<open>intr_get()\<close>.\<close>

definition kerneltrap :: "bool \<Rightarrow> trap_in \<Rightarrow> kernel \<Rightarrow> kernel res" where
  "kerneltrap intr_on t k =
     (if \<not> t_spp t then Inl (Panic ''kerneltrap: not from supervisor mode'')
      else if intr_on then Inl (Panic ''kerneltrap: interrupts enabled'')
      else bindE (devintr t k) (\<lambda>(k, which_dev).
        if which_dev = 0
        then bindE (kprintf (printf ''scause=0x%lx sepc=0x%lx stval=0x%lx\<newline>''
               [ANum (t_scause t), ANum (t_sepc t), ANum (t_stval t)]) k) (\<lambda>_. Inl (Panic ''kerneltrap''))
        else if which_dev = 2 \<and> cur k \<noteq> None then yield k
        else Inr k))"

end
