(* ===== verification/Frame.thy ===== *)
theory Frame
  imports Trap
begin

text \<open>
  Reasoning about the results of operations, and the frame of an operation: most of the kernel
  leaves the descriptor tables, the pids, the priorities and quotas and the reference counts of the open files
  alone. \<open>ensures m P\<close> says that \<open>P\<close> holds of the value of \<open>m\<close>, if \<open>m\<close> has one. It is computed
  backwards over \<open>bindE\<close>; the collection \<open>wp\<close> has a rule for each operation.
\<close>

definition ensures :: "'a res \<Rightarrow> ('a \<Rightarrow> bool) \<Rightarrow> bool" where
  "ensures m P \<longleftrightarrow> (\<forall>x. m = Inr x \<longrightarrow> P x)"

lemma ensures_Inr [simp]: "ensures (Inr x) P = P x" and ensures_Inl [simp]: "ensures (Inl e) P"
  by (simp_all add: ensures_def)

lemma ensures_bind [simp]: "ensures (bindE m f) P = ensures m (\<lambda>x. ensures (f x) P)"
  by (cases m) simp_all

lemma ensures_map [simp]: "ensures (mapE g m) P = ensures m (\<lambda>x. P (g x))"
  by (cases m) simp_all

lemma ensures_if [simp]: "ensures (if b then m else m') P = (if b then ensures m P else ensures m' P)"
  by simp

lemma ensures_any: "(\<And>x. P x) \<Longrightarrow> ensures m P"
  by (simp add: ensures_def)

lemma ensures_weaken: "ensures m Q \<Longrightarrow> (\<And>x. Q x \<Longrightarrow> P x) \<Longrightarrow> ensures m P"
  by (simp add: ensures_def)

lemma ensuresD: "ensures m P \<Longrightarrow> m = Inr x \<Longrightarrow> P x"
  by (simp add: ensures_def)

named_theorems wp "rules for the results of operations"

section \<open>Frames\<close>

text \<open>What an operation on memory, files or devices leaves alone of a process.\<close>

definition pcore :: "proc \<Rightarrow> bool \<times> bool \<times> int \<times> nat option list \<times> (nat \<times> bool) \<times> (nat \<times> bool) \<times> int \<times> int" where
  "pcore p = (p_state p = UNUSED, p_state p = ZOMBIE, p_pid p, p_ofile p, (length (p_name p), terminated (p_name p)),
     (length (p_agent_role p), terminated (p_agent_role p)), p_priority p, p_mem_quota p)"

definition frame :: "kernel \<Rightarrow> kernel \<Rightarrow> bool" where
  "frame k0 k \<longleftrightarrow> map pcore (ptab k) = map pcore (ptab k0) \<and> nextpid k = nextpid k0 \<and>
     map f_ref (ftable k) = map f_ref (ftable k0) \<and> initproc k = initproc k0 \<and>
     (cur k = None \<or> cur k = cur k0 \<and> (\<forall>i<length (ptab k0). cur k0 = Some i \<longrightarrow> p_state (ptab k ! i) = p_state (ptab k0 ! i)))"

lemma frame_refl: "frame k k"
  by (simp add: frame_def)

lemma frame_len: "frame k0 k \<Longrightarrow> length (ptab k) = length (ptab k0) \<and> length (ftable k) = length (ftable k0)"
  unfolding frame_def by (metis length_map)

lemma frame_trans [trans]: "frame k0 k1 \<Longrightarrow> frame k1 k2 \<Longrightarrow> frame k0 k2"
proof -
  assume a: "frame k0 k1" "frame k1 k2"
  show "frame k0 k2" using a frame_len [OF a(1)] unfolding frame_def by auto
qed

lemma frame_fields [simp]:
  "frame k0 (k\<lparr>km := m\<rparr>) = frame k0 k" "frame k0 (k\<lparr>fss := s\<rparr>) = frame k0 k" "frame k0 (k\<lparr>pipes := ps\<rparr>) = frame k0 k"
  "frame k0 (k\<lparr>cons := c\<rparr>) = frame k0 k" "frame k0 (k\<lparr>uart_tx := u\<rparr>) = frame k0 k" "frame k0 (k\<lparr>ckpt := ck\<rparr>) = frame k0 k"
  "frame k0 (k\<lparr>cslots := cs\<rparr>) = frame k0 k" "frame k0 (k\<lparr>proxy_lock := pl\<rparr>) = frame k0 k" "frame k0 (k\<lparr>ticks := t\<rparr>) = frame k0 k"
  "frame k0 (set_km m k) = frame k0 k" "frame k0 (set_pipe pa pi k) = frame k0 k"
  by (simp_all add: frame_def set_km_def set_pipe_def)

lemma map_upd_same [simp]: "g v = g (xs ! i) \<Longrightarrow> map g (xs[i := v]) = map g xs"
  by (cases "i < length xs") (auto simp: list_eq_iff_nth_eq nth_list_update list_update_beyond)

lemma frame_kproc [intro!]:
  assumes "frame k0 k" and "pcore (f (ptab k ! i)) = pcore (ptab k ! i)"
    and "cur k = Some i \<Longrightarrow> p_state (f (ptab k ! i)) = p_state (ptab k ! i)"
  shows "frame k0 (kproc i f k)"
proof -
  have "p_state (upd_proc i f (ptab k) ! y) = p_state (ptab k ! y)" if "cur k = Some y" "y < length (ptab k)" for y
    using assms(3) that by (cases "y = i") simp_all
  then have "frame k (kproc i f k)" using assms(2) by (simp add: frame_def kproc_def map_upd_same)
  then show ?thesis by (rule frame_trans [OF assms(1)])
qed

lemma frame_cur_None [intro!]: "frame k0 k \<Longrightarrow> frame k0 (k\<lparr>cur := None\<rparr>)"
  by (simp add: frame_def)

lemma pcore_wake: "pcore (wake ch p) = pcore p"
  by (simp add: pcore_def wake_def)

lemma frame_wakeup [intro!]:
  assumes "frame k0 k"
  shows "frame k0 (wakeup ch k)"
proof -
  have "map pcore (ptab (wakeup ch k)) = map pcore (ptab k)"
    by (rule nth_equalityI) (simp_all add: wakeup_nth pcore_wake)
  then have "frame k (wakeup ch k)" by (simp add: frame_def wakeup_nth) (simp add: wakeup_def)
  then show ?thesis by (rule frame_trans [OF assms])
qed

lemma frame_file [intro!]: "frame k0 k \<Longrightarrow> map f_ref fs = map f_ref (ftable k) \<Longrightarrow> frame k0 (k\<lparr>ftable := fs\<rparr>)"
  by (simp add: frame_def)

lemma wp_frame: "ensures m (\<lambda>(k', r). frame k0 k') \<Longrightarrow> (\<And>k' r. frame k0 k' \<Longrightarrow> P (k', r)) \<Longrightarrow> ensures m P"
  by (auto simp: ensures_def)

lemma wp_frame1: "ensures m (frame k0) \<Longrightarrow> (\<And>k'. frame k0 k' \<Longrightarrow> P k') \<Longrightarrow> ensures m P"
  by (auto simp: ensures_def)

text \<open>The rules: an operation that keeps the frame, followed by anything that only needs the frame.\<close>

lemma wp_myproc [wp]: "(\<And>i. cur k = Some i \<Longrightarrow> P i) \<Longrightarrow> ensures (myproc k) P"
  by (simp add: myproc_def split: option.splits)

lemmas wp_pure [wp] =
  ensures_any [where m = "argint n k" for n k] ensures_any [where m = "argaddr n k" for n k] ensures_any [where m = "argstr n b k" for n b k]
  ensures_any [where m = "acquiresleep me lk" for me lk] ensures_any [where m = "the_pipe pa k" for pa k]

lemma wp_ucopyin [wp]:
  "frame k0 k \<Longrightarrow> (\<And>k' r bs. frame k0 k' \<Longrightarrow> P (k', r, bs)) \<Longrightarrow> ensures (ucopyin va n k) P"
  by (auto simp: ucopyin_def Let_def intro!: wp_myproc ensures_any [where m = "copyin p m pt va n" for p m pt va n])

lemma wp_ucopyout [wp]:
  "frame k0 k \<Longrightarrow> (\<And>k' r. frame k0 k' \<Longrightarrow> P (k', r)) \<Longrightarrow> ensures (ucopyout va bs k) P"
  by (auto simp: ucopyout_def Let_def intro!: wp_myproc ensures_any [where m = "copyout p m pt va bs" for p m pt va bs])

lemma wp_in_fs [wp]:
  "frame k0 k \<Longrightarrow> (\<And>k' r. frame k0 k' \<Longrightarrow> P (k', r)) \<Longrightarrow> ensures (in_fs f k) P"
  by (auto simp: in_fs_def intro!: wp_myproc ensures_any [where m = "f s" for s] split: option.splits)

lemma wp_kprintf [wp]:
  "frame k0 k \<Longrightarrow> (\<And>k'. frame k0 k' \<Longrightarrow> P k') \<Longrightarrow> ensures (kprintf out k) P"
  by (auto simp: kprintf_def intro!: ensures_any [where m = out])

text \<open>
  The current process is marked RUNNING, as \<open>sleep\<close> and \<open>yield\<close> need it, and its name and role are
  terminated strings.
\<close>

definition runs :: "kernel \<Rightarrow> bool" where
  "runs k \<longleftrightarrow> (\<forall>i. cur k = Some i \<longrightarrow> i < length (ptab k) \<and> p_state (ptab k ! i) = RUNNING \<and>
     terminated (p_name (ptab k ! i)) \<and> terminated (p_agent_role (ptab k ! i)))"

lemma frame_nth:
  assumes "frame k0 k" and "i < length (ptab k0)"
  shows "pcore (ptab k ! i) = pcore (ptab k0 ! i)"
  using assms frame_len [OF assms(1)] nth_map [of i "ptab k" pcore] nth_map [of i "ptab k0" pcore] by (simp add: frame_def)

lemma frame_runs:
  assumes "runs k0" and "frame k0 k"
  shows "runs k"
proof -
  have "i < length (ptab k) \<and> p_state (ptab k ! i) = RUNNING \<and> terminated (p_name (ptab k ! i)) \<and> terminated (p_agent_role (ptab k ! i))"
    if "cur k = Some i" for i
  proof -
    have c: "cur k0 = Some i" using assms(2) that by (auto simp: frame_def)
    then have i: "i < length (ptab k0)" using assms(1) by (simp add: runs_def)
    have "pcore (ptab k ! i) = pcore (ptab k0 ! i)" by (rule frame_nth [OF assms(2) i])
    then show ?thesis using assms c i that frame_len [OF assms(2)] by (auto simp: runs_def frame_def pcore_def)
  qed
  then show ?thesis by (simp add: runs_def)
qed

lemma frame_suspend:
  assumes "runs k0" and "frame k0 k" and "cur k = Some i" and "pcore ((f (ptab k ! i))\<lparr>p_state := RUNNING\<rparr>) = pcore (ptab k ! i)"
    and "p_state (f (ptab k ! i)) \<noteq> UNUSED" and "p_state (f (ptab k ! i)) \<noteq> ZOMBIE"
  shows "frame k0 ((kproc i f k)\<lparr>cur := None\<rparr>)"
proof -
  have "p_state (ptab k ! i) = RUNNING" using frame_runs [OF assms(1,2)] assms(3) by (simp add: runs_def)
  then have "pcore (f (ptab k ! i)) = pcore (ptab k ! i)" using assms(4-6) by (simp add: pcore_def)
  then have "map pcore (ptab (kproc i f k)) = map pcore (ptab k)" by (simp add: kproc_def map_upd_same)
  then have "frame k ((kproc i f k)\<lparr>cur := None\<rparr>)" by (simp add: frame_def) (simp add: kproc_def)
  then show ?thesis by (rule frame_trans [OF assms(2)])
qed

lemma wp_sleep [wp]:
  assumes "runs k0" and "frame k0 k" and "\<And>k'. frame k0 k' \<Longrightarrow> P k'"
  shows "ensures (sleep ch k) P"
proof -
  have "frame k0 ((kproc i (\<lambda>p. p\<lparr>p_chan := Some ch, p_state := SLEEPING\<rparr>) k)\<lparr>cur := None\<rparr>)" if "cur k = Some i" for i
    by (rule frame_suspend [OF assms(1,2) that]) (use frame_runs [OF assms(1,2)] that in \<open>simp_all add: pcore_def runs_def\<close>)
  then show ?thesis using assms(3) by (auto simp: sleep_def intro!: wp_myproc)
qed

lemma wp_yield [wp]:
  assumes "runs k0" and "frame k0 k" and "\<And>k'. frame k0 k' \<Longrightarrow> P k'"
  shows "ensures (yield k) P"
proof -
  have "frame k0 ((kproc i (\<lambda>p. p\<lparr>p_state := RUNNABLE\<rparr>) k)\<lparr>cur := None\<rparr>)" if "cur k = Some i" for i
    by (rule frame_suspend [OF assms(1,2) that]) (use frame_runs [OF assms(1,2)] that in \<open>simp_all add: pcore_def runs_def\<close>)
  then show ?thesis using assms(3) by (auto simp: yield_def intro!: wp_myproc)
qed

section \<open>Pipes and console\<close>

lemma pipeclose_frame: "frame k0 k \<Longrightarrow> ensures (pipeclose pa wr k) (frame k0)"
  by (auto simp: pipeclose_def Let_def intro!: wp ensures_any [where m = "kfree pa m" for pa m])

lemmas wp_pipeclose [wp] = wp_frame1 [OF pipeclose_frame]

lemma pipewrite_loop_frame:
  "runs k0 \<Longrightarrow> frame k0 k \<Longrightarrow> ensures (pipewrite_loop pa addr n i k) (\<lambda>(k', r). frame k0 k')"
proof (induction "nat n - i" arbitrary: i k)
  case 0
  then show ?case by (subst pipewrite_loop.simps) auto
next
  case (Suc d)
  have "ensures (pipewrite_loop pa addr n (Suc i) (set_pipe pa pi k')) (\<lambda>(k', r). frame k0 k')" if "frame k0 k'" for k' pi
    using Suc that by simp
  then show ?case using Suc.prems by (subst pipewrite_loop.simps) (auto intro!: wp)
qed

lemma piperead_loop_frame:
  "frame k0 k \<Longrightarrow> ensures (piperead_loop pa addr n i k) (\<lambda>(k', r). frame k0 k')"
proof (induction "nat n - i" arbitrary: i k)
  case 0
  then show ?case by (subst piperead_loop.simps) auto
next
  case (Suc d)
  have "ensures (piperead_loop pa addr n (Suc i) (set_pipe pa pi k')) (\<lambda>(k', r). frame k0 k')" if "frame k0 k'" for k' pi
    using Suc that by simp
  then show ?case using Suc.prems by (subst piperead_loop.simps) (auto simp: Let_def intro!: wp)
qed

lemma consolewrite_loop_frame:
  "frame k0 k \<Longrightarrow> ensures (consolewrite_loop src n i k) (\<lambda>(k', r). frame k0 k')"
proof (induction "nat n - i" arbitrary: i k rule: less_induct)
  case less
  have "ensures (consolewrite_loop src n (i + m) (k'\<lparr>uart_tx := u\<rparr>)) (\<lambda>(k', r). frame k0 k')"
    if "frame k0 k'" "0 < m" "int i < n" for k' u m using less that by simp
  then show ?case using less.prems by (subst consolewrite_loop.simps) (auto simp: Let_def intro!: wp)
qed

lemma consoleread_loop_frame:
  "runs k0 \<Longrightarrow> frame k0 k \<Longrightarrow> ensures (consoleread_loop dst n i k) (\<lambda>(k', r). frame k0 k')"
proof (induction "nat n - i" arbitrary: i k)
  case 0
  then show ?case by (subst consoleread_loop.simps) auto
next
  case (Suc d)
  have "ensures (consoleread_loop dst n (Suc i) k') (\<lambda>(k', r). frame k0 k')" if "frame k0 k'" for k'
    using Suc that by simp
  then show ?case using Suc.prems by (subst consoleread_loop.simps) (auto simp: Let_def intro!: wp)
qed

lemma pipewrite_frame: "runs k0 \<Longrightarrow> frame k0 k \<Longrightarrow> ensures (pipewrite pa addr n k) (\<lambda>(k', r). frame k0 k')"
  unfolding pipewrite_def by (rule pipewrite_loop_frame)

lemma piperead_frame: "runs k0 \<Longrightarrow> frame k0 k \<Longrightarrow> ensures (piperead pa addr n k) (\<lambda>(k', r). frame k0 k')"
  by (auto simp: piperead_def intro!: wp wp_frame [OF piperead_loop_frame])

lemma consolewrite_frame: "frame k0 k \<Longrightarrow> ensures (consolewrite src n k) (\<lambda>(k', r). frame k0 k')"
  by (auto simp: consolewrite_def intro!: wp wp_frame [OF consolewrite_loop_frame])

lemma consoleread_frame: "runs k0 \<Longrightarrow> frame k0 k \<Longrightarrow> ensures (consoleread dst n k) (\<lambda>(k', r). frame k0 k')"
  unfolding consoleread_def by (rule consoleread_loop_frame)

lemma consoleintr_frame: "frame k0 k \<Longrightarrow> ensures (consoleintr c k) (frame k0)"
  by (auto simp: consoleintr_def Let_def intro!: wp split: prod.splits)

section \<open>Files\<close>

lemma fileread_frame: "runs k0 \<Longrightarrow> frame k0 k \<Longrightarrow> ensures (fileread f addr n k) (\<lambda>(k', r). frame k0 k')"
  by (auto simp: fileread_def Let_def piperead_frame consoleread_frame intro!: wp split: fdtype.splits)

lemma filewrite_op_frame: "frame k0 k \<Longrightarrow> ensures (filewrite_op f addr i n1 k) (\<lambda>(k', r). frame k0 k')"
  by (auto simp: filewrite_op_def Let_def intro!: wp)

lemma filewrite_loop_frame: "frame k0 k \<Longrightarrow> ensures (filewrite_loop f addr n i k) (\<lambda>(k', r). frame k0 k')"
proof (induction "nat n - i" arbitrary: i k rule: less_induct)
  case less
  have "ensures (filewrite_loop f addr n (i + m) k') (\<lambda>(k', r). frame k0 k')"
    if "frame k0 k'" "0 < m" "int i < n" for k' m using less that by simp
  then show ?case using less.prems
    by (subst filewrite_loop.simps) (auto simp: Let_def WRITE_MAX_def BSIZE_def intro!: wp_frame [OF filewrite_op_frame])
qed

lemma filewrite_frame: "runs k0 \<Longrightarrow> frame k0 k \<Longrightarrow> ensures (filewrite f addr n k) (\<lambda>(k', r). frame k0 k')"
  by (auto simp: filewrite_def Let_def pipewrite_frame consolewrite_frame intro!: wp wp_frame [OF filewrite_loop_frame] split: fdtype.splits)

lemma filestat_frame: "frame k0 k \<Longrightarrow> ensures (filestat pad f addr k) (\<lambda>(k', r). frame k0 k')"
  by (auto simp: filestat_def Let_def intro!: wp)

section \<open>Processes and programs\<close>

lemmas wp_mem [wp] =
  ensures_any [where m = "uvmalloc m pt a b x" for m pt a b x] ensures_any [where m = "uvmdealloc m pt a b" for m pt a b]
  ensures_any [where m = "proc_freepagetable pt sz m" for pt sz m]
  ensures_any [where m = "exec_stack p pt sz argv m" for p pt sz argv m] ensures_any [where m = "last_elem a b" for a b]
  ensures_any [where m = "free_pages ps m" for ps m] ensures_any [where m = "fetchstr a n k" for a n k]
  ensures_any [where m = "vmfault p m pt va" for p m pt va]

lemma growproc_frame: "frame k0 k \<Longrightarrow> ensures (growproc n k) (\<lambda>(k', r). frame k0 k')"
  by (auto simp: growproc_def Let_def pcore_def intro!: wp)

lemma safestrcpy_terminated: "safestrcpy s t n = Inr r \<Longrightarrow> 0 < n \<Longrightarrow> terminated r"
proof -
  have "terminated r" if "safestrcpy_loop s t k = Inr r" for k
    using that by (induction s t k arbitrary: r rule: safestrcpy_loop.induct) (auto split: if_splits list.splits)
  then show "safestrcpy s t n = Inr r \<Longrightarrow> 0 < n \<Longrightarrow> terminated r" by (simp add: safestrcpy_def)
qed

lemma wp_safestrcpy [wp]:
  "0 < n \<Longrightarrow> (\<And>d'. length d' = length d \<Longrightarrow> terminated d' \<Longrightarrow> safestrcpy d s n = Inr d' \<Longrightarrow> P d') \<Longrightarrow> ensures (safestrcpy d s n) P"
  using safestrcpy_length safestrcpy_terminated by (auto simp: ensures_def)

lemma set_sel [simp]: "ptab (set_km m k) = ptab k" "cur (set_km m k) = cur k" "ptab (k\<lparr>km := m\<rparr>) = ptab k"
  "ftable (set_km m k) = ftable k" "km (set_km m k) = m"
  by (simp_all add: set_km_def)

lemma frame_cur:
  assumes "runs k0" and "frame k0 k" and "frame k0 k'" and "cur k = Some i"
  shows "pcore (ptab k' ! i) = pcore (ptab k ! i)" and "terminated (p_name (ptab k' ! i))"
proof -
  note R = frame_runs [OF assms(1,2), unfolded runs_def, rule_format, OF assms(4)]
  have i: "i < length (ptab k0)" using R frame_len [OF assms(2)] by simp
  show e: "pcore (ptab k' ! i) = pcore (ptab k ! i)" by (simp add: frame_nth [OF assms(2) i] frame_nth [OF assms(3) i])
  then show "terminated (p_name (ptab k' ! i))" using R by (simp add: pcore_def)
qed

lemma kexec_frame:
  assumes "runs k0" and "frame k0 k"
  shows "ensures (kexec path argv k) (\<lambda>(k', r). frame k0 k')"
proof -
  have "pcore ((ptab k' ! i)\<lparr>p_name := n, p_pagetable := pt, p_sz := z\<rparr>) = pcore (ptab k' ! i)"
    if "frame k0 k'" "cur k = Some i" "length n = length (p_name (ptab k ! i))" "terminated n" for k' i n pt z
    using that frame_cur [OF assms that(1,2)] by (simp add: pcore_def)
  then show ?thesis using assms by (auto simp: kexec_def Let_def intro!: wp split: option.splits)
qed

lemma fetchaddr_frame: "frame k0 k \<Longrightarrow> ensures (fetchaddr a k) (\<lambda>(k', r). frame k0 k')"
  by (auto simp: fetchaddr_def Let_def intro!: wp)

lemma fetch_argv_frame: "frame k0 k \<Longrightarrow> ensures (fetch_argv uargv i argv k) (\<lambda>(k', r). frame k0 k')"
proof (induction "MAXARG - i" arbitrary: i argv k)
  case 0
  then show ?case by (subst fetch_argv.simps) auto
next
  case (Suc d)
  have "ensures (fetch_argv uargv (Suc i) argv' k') (\<lambda>(k', r). frame k0 k')" if "frame k0 k'" for k' argv'
    using Suc that by simp
  then show ?case using Suc.prems
    by (subst fetch_argv.simps) (auto simp: Let_def intro!: wp wp_frame [OF fetchaddr_frame] split: option.splits prod.splits)
qed

lemmas wp_calls [wp] =
  wp_frame [OF fileread_frame] wp_frame [OF filewrite_frame] wp_frame [OF filestat_frame] wp_frame [OF growproc_frame]
  wp_frame [OF kexec_frame] wp_frame [OF fetch_argv_frame]

lemma wp_argfd [wp]:
  "(\<And>i fd f. cur k = Some i \<Longrightarrow> fd < NOFILE \<Longrightarrow> p_ofile (ptab k ! i) ! fd = Some f \<Longrightarrow> P (Some (fd, f))) \<Longrightarrow> P None \<Longrightarrow>
   ensures (argfd n k) P"
  by (auto simp: argfd_def intro!: wp split: option.splits)

section \<open>System calls that keep the frame\<close>

lemma kkill_frame: "frame k0 k \<Longrightarrow> runs k0 \<Longrightarrow> kkill pid k = (k', r) \<Longrightarrow> frame k0 k'"
  using frame_runs [of k0 k] by (auto simp: kkill_def runs_def pcore_def Let_def split: option.splits)

lemma sys_frames:
  assumes "runs k0" and "frame k0 k"
  shows "ensures (sys_read k) (\<lambda>(k', r). frame k0 k')" "ensures (sys_write k) (\<lambda>(k', r). frame k0 k')"
    "ensures (sys_fstat pad k) (\<lambda>(k', r). frame k0 k')" "ensures (sys_link k) (\<lambda>(k', r). frame k0 k')"
    "ensures (sys_unlink k) (\<lambda>(k', r). frame k0 k')" "ensures (sys_mkdir k) (\<lambda>(k', r). frame k0 k')"
    "ensures (sys_mknod k) (\<lambda>(k', r). frame k0 k')"
    "ensures (sys_exec k) (\<lambda>(k', r). frame k0 k')" "ensures (sys_getpid k) (\<lambda>(k', r). frame k0 k')"
    "ensures (sys_sbrk k) (\<lambda>(k', r). frame k0 k')" "ensures (sys_pause k) (\<lambda>(k', r). frame k0 k')"
    "ensures (sys_uptime k) (\<lambda>(k', r). frame k0 k')"
    "ensures (sys_agentstat k) (\<lambda>(k', r). frame k0 k')" "ensures (sys_proxylock k) (\<lambda>(k', r). frame k0 k')"
    "ensures (sys_proxyunlock k) (\<lambda>(k', r). frame k0 k')" "ensures (sys_checkpoint k) (\<lambda>(k', r). frame k0 k')"
    "ensures (sys_restore k) (\<lambda>(k', r). frame k0 k')"
  using assms unfolding sys_read_def sys_write_def sys_fstat_def sys_link_def sys_unlink_def sys_mkdir_def sys_mknod_def
    sys_exec_def sys_getpid_def sys_sbrk_def sys_pause_def pause_from_def sys_uptime_def sys_agentstat_def
    sys_proxylock_def sys_proxyunlock_def sys_checkpoint_def sys_restore_def Let_def
  by (auto simp: pcore_def intro!: wp split: option.splits)

lemma setrole_frame:
  assumes "runs k0" and "frame k0 k"
  shows "ensures (sys_setrole k) (\<lambda>(k', r). frame k0 k')"
proof -
  have "terminated (p_agent_role (ptab k ! i))" if "cur k = Some i" for i
    using frame_runs [OF assms] that by (simp add: runs_def)
  then show ?thesis using assms by (auto simp: sys_setrole_def pcore_def intro!: wp)
qed

lemma in_cache_frame: "frame k0 k \<Longrightarrow> ensures (in_cache f k) (\<lambda>(k', r). frame k0 k')"
  by (auto simp: in_cache_def intro!: wp)

lemmas wp_in_cache [wp] = wp_frame [OF in_cache_frame]

lemmas wp_verifier [wp] =
  ensures_any [where m = "fill_snapshot p ps" for p ps] ensures_any [where m = "verify_fix p s r n" for p s r n]

lemma agent_frames:
  assumes "runs k0" and "frame k0 k"
  shows "ensures (sys_chdir k) (\<lambda>(k', r). frame k0 k')" "ensures (sys_verifyfix rs k) (\<lambda>(k', r). frame k0 k')"
    "ensures (sys_cacheget out k) (\<lambda>(k', r). frame k0 k')" "ensures (sys_cacheset r0 v0 k) (\<lambda>(k', r). frame k0 k')"
    "ensures (sys_cacheclear k) (\<lambda>(k', r). frame k0 k')" "ensures (sys_kill k) (\<lambda>(k', r). frame k0 k')"
  using assms unfolding sys_chdir_def sys_verifyfix_def sys_cacheget_def sys_cacheset_def sys_cacheclear_def sys_kill_def Let_def
  by (auto simp: pcore_def intro!: wp split: option.splits prod.splits dest: kkill_frame)

section \<open>Interrupts\<close>

lemma uartintr_frame: "frame k0 k \<Longrightarrow> ensures (uartintr cs k) (frame k0)"
  by (induction cs arbitrary: k) (auto intro!: wp_frame1 [OF consoleintr_frame])

lemma devintr_frame: "frame k0 k \<Longrightarrow> ensures (devintr t k) (\<lambda>(k', r). frame k0 k')"
  by (auto simp: devintr_def clockintr_def intro!: wp wp_frame1 [OF uartintr_frame])

lemma prepare_return_frame [intro!]: "frame k0 k \<Longrightarrow> frame k0 (prepare_return ut t i k)"
  by (simp add: prepare_return_def set_reg_def)

lemma setkilled_frame [intro!]: "frame k0 k \<Longrightarrow> frame k0 (setkilled i k)"
  by (auto simp: setkilled_def pcore_def)

end
