(* ===== verification/KInv.thy ===== *)
theory KInv
  imports Frame
begin

text \<open>
  The invariant of the process table and the open-file table, kept by every system call and trap:
  live processes have different pids, all below \<open>nextpid\<close>; priorities and quotas are in range; a
  process that has exited or was never started has no open files; the reference count of every open file is
  the number of descriptors, over all processes, that refer to it.
\<close>

definition live :: "proc \<Rightarrow> bool" where
  "live p \<longleftrightarrow> p_state p \<noteq> UNUSED"

definition pinv :: "int \<Rightarrow> proc \<Rightarrow> bool" where
  "pinv n p \<longleftrightarrow> length (p_ofile p) = NOFILE \<and> length (p_name p) = 16 \<and> length (p_agent_role p) = 16 \<and>
     terminated (p_name p) \<and> terminated (p_agent_role p) \<and>
     -20 \<le> p_priority p \<and> p_priority p \<le> 19 \<and> 0 \<le> p_mem_quota p \<and>
     (p_state p = UNUSED \<or> p_state p = ZOMBIE \<longrightarrow> p_ofile p = replicate NOFILE None) \<and>
     (live p \<longrightarrow> 0 < p_pid p \<and> p_pid p < n)"

text \<open>The number of descriptors that refer to file \<open>f\<close>.\<close>

definition refs :: "nat \<Rightarrow> proc list \<Rightarrow> int" where
  "refs f ps = (\<Sum>p\<leftarrow>ps. int (count_list (p_ofile p) (Some f)))"

definition fref :: "nat \<Rightarrow> kernel \<Rightarrow> int" where
  "fref f k = (if f < length (ftable k) then f_ref (ftable k ! f) else 0)"

text \<open>
  \<open>d f\<close> is the number of references to \<open>f\<close> that an operation in progress holds in addition to the
  descriptors: 0 for every file when no operation is in progress.
\<close>

definition kinv :: "(nat \<Rightarrow> int) \<Rightarrow> kernel \<Rightarrow> bool" where
  "kinv d k \<longleftrightarrow> runs k \<and> 0 < nextpid k \<and> (\<forall>i<length (ptab k). pinv (nextpid k) (ptab k ! i)) \<and>
     (\<forall>i<length (ptab k). \<forall>j<length (ptab k). i \<noteq> j \<and> live (ptab k ! i) \<and> live (ptab k ! j) \<longrightarrow> p_pid (ptab k ! i) \<noteq> p_pid (ptab k ! j)) \<and>
     (\<forall>f. fref f k = refs f (ptab k) + d f)"

abbreviation no_debt :: "nat \<Rightarrow> int" where
  "no_debt \<equiv> \<lambda>_. 0"

lemma kinvD:
  assumes "kinv d k"
  shows "runs k" "0 < nextpid k" "i < length (ptab k) \<Longrightarrow> pinv (nextpid k) (ptab k ! i)"
    "i < length (ptab k) \<Longrightarrow> j < length (ptab k) \<Longrightarrow> i \<noteq> j \<Longrightarrow> live (ptab k ! i) \<Longrightarrow> live (ptab k ! j) \<Longrightarrow> p_pid (ptab k ! i) \<noteq> p_pid (ptab k ! j)"
    "fref f k = refs f (ptab k) + d f"
  using assms by (auto simp: kinv_def)

section \<open>Counting references\<close>

lemma count_list_update:
  "i < length xs \<Longrightarrow> int (count_list (xs[i := v]) a) =
     int (count_list xs a) - (if xs ! i = a then 1 else 0) + (if v = a then 1 else 0)"
proof (induction xs arbitrary: i)
  case Nil
  then show ?case by simp
next
  case (Cons x xs)
  show ?case
  proof (cases i)
    case 0
    then show ?thesis by simp
  next
    case (Suc m)
    then show ?thesis using Cons.IH [of m] Cons.prems by (auto split: if_splits)
  qed
qed

lemma count_list_mem: "x \<in> set xs \<Longrightarrow> 0 < count_list xs x"
  by (induction xs) auto

lemma count_replicate_None [simp]: "count_list (replicate n None) (Some f) = 0"
  by (induction n) auto

lemma refs_upd:
  "i < length ps \<Longrightarrow> refs f (ps[i := q]) =
     refs f ps - int (count_list (p_ofile (ps ! i)) (Some f)) + int (count_list (p_ofile q) (Some f))"
  by (simp add: refs_def map_update sum_list_int_update)

lemma refs_same: "map p_ofile ps = map p_ofile qs \<Longrightarrow> refs f ps = refs f qs"
proof -
  assume a: "map p_ofile ps = map p_ofile qs"
  have "refs f xs = sum_list (map (\<lambda>fds. int (count_list fds (Some f))) (map p_ofile xs))" for xs
    by (simp add: refs_def comp_def)
  then show "refs f ps = refs f qs" by (simp only: a)
qed

lemma refs_nonneg: "0 \<le> refs f ps"
  unfolding refs_def by (rule sum_list_nonneg) auto

lemma refs_pos:
  assumes "i < length ps" and "fd < length (p_ofile (ps ! i))" and "p_ofile (ps ! i) ! fd = Some f"
  shows "0 < refs f ps"
proof -
  have "Some f \<in> set (p_ofile (ps ! i))" using assms(2,3) nth_mem by metis
  then have c: "0 < count_list (p_ofile (ps ! i)) (Some f)" by (rule count_list_mem)
  have "refs f (ps[i := (ps ! i)\<lparr>p_ofile := []\<rparr>]) = refs f ps - int (count_list (p_ofile (ps ! i)) (Some f))"
    using assms(1) by (simp add: refs_upd)
  then show ?thesis using refs_nonneg [of f "ps[i := (ps ! i)\<lparr>p_ofile := []\<rparr>]"] c by linarith
qed

section \<open>Frames keep the invariant\<close>

lemma pcore_cong:
  assumes "pcore p = pcore q"
  shows "pinv n p = pinv n q" "live p = live q" "p_pid p = p_pid q" "p_ofile p = p_ofile q"
    "p_state p = UNUSED \<longleftrightarrow> p_state q = UNUSED" "p_state p = ZOMBIE \<longleftrightarrow> p_state q = ZOMBIE"
  using assms by (auto simp: pcore_def pinv_def live_def)

lemma kinv_frame:
  assumes "kinv d k0" and "frame k0 k"
  shows "kinv d k"
proof -
  note D = kinvD [OF assms(1)] and L = frame_len [OF assms(2)]
  note N = frame_nth [OF assms(2)]
  have "map p_ofile (ptab k) = map p_ofile (ptab k0)" using L pcore_cong(4) [OF N] by (simp add: list_eq_iff_nth_eq)
  then have r: "refs f (ptab k) = refs f (ptab k0)" for f by (rule refs_same)
  have fr: "fref f k = fref f k0" for f
    using assms(2) L nth_map [of f "ftable k" f_ref] nth_map [of f "ftable k0" f_ref] by (simp add: frame_def fref_def)
  have n: "nextpid k = nextpid k0" using assms(2) by (simp add: frame_def)
  have p: "pinv (nextpid k) (ptab k ! i)" if "i < length (ptab k)" for i
    using D(3) [of i] pcore_cong(1) [OF N, of i] that L n by simp
  have u: "p_pid (ptab k ! i) \<noteq> p_pid (ptab k ! j)"
    if "i < length (ptab k)" "j < length (ptab k)" "i \<noteq> j" "live (ptab k ! i)" "live (ptab k ! j)" for i j
    using D(4) [of i j] pcore_cong(2,3) [OF N, of i] pcore_cong(2,3) [OF N, of j] that L by simp
  show ?thesis using frame_runs [OF D(1) assms(2)] D(2) n p u D(5) by (simp add: kinv_def r fr)
qed

section \<open>Updates of one process\<close>

lemma kinv_fields [simp]:
  "kinv d (set_km m k) = kinv d k" "kinv d (k\<lparr>fss := s\<rparr>) = kinv d k" "kinv d (k\<lparr>km := m\<rparr>) = kinv d k"
  by (simp_all add: kinv_def runs_def set_km_def fref_def)

lemma kproc_sel [simp]:
  "cur (kproc i g k) = cur k" "length (ptab (kproc i g k)) = length (ptab k)" "ftable (kproc i g k) = ftable k"
  "nextpid (kproc i g k) = nextpid k" "initproc (kproc i g k) = initproc k" "km (kproc i g k) = km k"
  "fss (kproc i g k) = fss k" "trampoline (kproc i g k) = trampoline k" "forkret_ra (kproc i g k) = forkret_ra k"
  by (simp_all add: kproc_def)

lemma kproc_nth: "i < length (ptab k) \<Longrightarrow> ptab (kproc i g k) ! j = (if j = i then g (ptab k ! i) else ptab k ! j)"
  by (simp add: kproc_def nth_list_update)

text \<open>
  A change of one process: what the invariant asks of the new value, and how the number of
  references changes.
\<close>

lemma kinv_kproc:
  assumes "kinv d k" and i: "i < length (ptab k)" and "pinv (nextpid k) (g (ptab k ! i))"
    and "live (g (ptab k ! i)) \<Longrightarrow> live (ptab k ! i) \<and> p_pid (g (ptab k ! i)) = p_pid (ptab k ! i)"
    and "cur k = Some i \<Longrightarrow> p_state (g (ptab k ! i)) = RUNNING"
    and "\<And>f. d' f = d f + int (count_list (p_ofile (ptab k ! i)) (Some f)) - int (count_list (p_ofile (g (ptab k ! i))) (Some f))"
  shows "kinv d' (kproc i g k)"
proof -
  note D = kinvD [OF assms(1)]
  note nth = kproc_nth [OF i, of g]
  have "refs f (ptab (kproc i g k)) + d' f = refs f (ptab k) + d f" for f
    using refs_upd [OF i, of f "g (ptab k ! i)"] assms(6) [of f] by (simp add: kproc_def)
  moreover have "fref f (kproc i g k) = fref f k" for f by (simp add: fref_def)
  ultimately have r: "fref f (kproc i g k) = refs f (ptab (kproc i g k)) + d' f" for f using D(5) [of f] by simp
  have u: "p_pid (ptab (kproc i g k) ! a) \<noteq> p_pid (ptab (kproc i g k) ! b)"
    if "a < length (ptab k)" "b < length (ptab k)" "a \<noteq> b" "live (ptab (kproc i g k) ! a)" "live (ptab (kproc i g k) ! b)" for a b
    using that D(4) [of a b] assms(4) by (auto simp: nth split: if_splits)
  have "runs (kproc i g k)" using D(1) assms(3,5) by (auto simp: runs_def nth pinv_def)
  moreover have "pinv (nextpid k) (ptab (kproc i g k) ! a)" if "a < length (ptab k)" for a
    using that D(3) [OF that] assms(3) by (simp add: nth)
  ultimately show ?thesis unfolding kinv_def kproc_sel using D(2) u r by blast
qed

lemma kinv_kproc_same:
  assumes "kinv d k" and "i < length (ptab k)" and "pcore (g (ptab k ! i)) = pcore (ptab k ! i)"
    and "cur k = Some i \<Longrightarrow> p_state (g (ptab k ! i)) = p_state (ptab k ! i)"
  shows "kinv d (kproc i g k)"
  using assms(3,4) by (intro kinv_frame [OF assms(1)] frame_kproc [OF frame_refl])

text \<open>Exchanging a descriptor: the old reference is now held by the operation, the new one by the table.\<close>

definition oref :: "nat option \<Rightarrow> nat \<Rightarrow> int" where
  "oref v f = (if v = Some f then 1 else 0)"

lemma oref_simps [simp]: "oref None = no_debt" "oref (Some g) f = (if f = g then 1 else 0)"
  by (auto simp: oref_def)

lemma oref_Some: "oref (Some g) = (\<lambda>f. if f = g then 1 else 0)"
  by (simp add: fun_eq_iff)

lemma kinv_set_fd:
  assumes "kinv d k" and i: "i < length (ptab k)" and fd: "fd < NOFILE"
    and "v = None \<or> p_state (ptab k ! i) \<noteq> UNUSED \<and> p_state (ptab k ! i) \<noteq> ZOMBIE"
    and "\<And>f. d' f = d f + oref (p_ofile (ptab k ! i) ! fd) f - oref v f"
  shows "kinv d' (set_fd i fd v k)"
  unfolding set_fd_def
proof (rule kinv_kproc [OF assms(1) i])
  have P: "pinv (nextpid k) (ptab k ! i)" by (rule kinvD(3) [OF assms(1) i])
  show "pinv (nextpid k) ((ptab k ! i)\<lparr>p_ofile := (p_ofile (ptab k ! i))[fd := v]\<rparr>)"
    using P assms(4) fd by (auto simp: pinv_def live_def list_update_same_conv)
  fix f
  show "d' f = d f + int (count_list (p_ofile (ptab k ! i)) (Some f)) -
    int (count_list (p_ofile ((ptab k ! i)\<lparr>p_ofile := (p_ofile (ptab k ! i))[fd := v]\<rparr>)) (Some f))"
    using assms(5) [of f] count_list_update [of fd "p_ofile (ptab k ! i)" v "Some f"] P fd by (auto simp: pinv_def oref_def)
qed (use kinvD(1) [OF assms(1)] in \<open>auto simp: runs_def live_def\<close>)

section \<open>Open files\<close>

lemma kinv_file:
  assumes "kinv d k" and "f < length (ftable k)" and "f_ref v = f_ref (ftable k ! f) + x"
    and "\<And>g. d' g = d g + (if g = f then x else 0)"
  shows "kinv d' (k\<lparr>ftable := (ftable k)[f := v]\<rparr>)"
proof -
  note D = kinvD [OF assms(1)]
  have "fref g (k\<lparr>ftable := (ftable k)[f := v]\<rparr>) = refs g (ptab k) + d' g" for g
    using D(5) [of g] assms(2-4) by (auto simp: fref_def nth_list_update split: if_splits)
  then show ?thesis using assms(1) by (simp add: kinv_def runs_def)
qed

lemma filealloc_kinv:
  assumes "kinv d k" and "filealloc k = (k', r)"
  shows "case r of None \<Rightarrow> k' = k | Some f \<Rightarrow>
    kinv (d(f := d f + 1)) k' \<and> f < length (ftable k') \<and> ptab k' = ptab k \<and> cur k' = cur k \<and> length (ftable k') = length (ftable k)"
proof (cases "find_idx (\<lambda>f. f_ref f = 0) (ftable k)")
  case None
  then show ?thesis using assms(2) by (auto simp: filealloc_def)
next
  case (Some f)
  then have f: "f < length (ftable k)" "f_ref (ftable k ! f) = 0" by (simp_all add: find_idx_Some)
  have "kinv (d(f := d f + 1)) (k\<lparr>ftable := upd_file f (\<lambda>f. f\<lparr>f_ref := 1\<rparr>) (ftable k)\<rparr>)"
    by (rule kinv_file [OF assms(1) f(1), where x = 1]) (simp_all add: f)
  moreover have "k' = k\<lparr>ftable := upd_file f (\<lambda>f. f\<lparr>f_ref := 1\<rparr>) (ftable k)\<rparr>" "r = Some f"
    using assms(2) Some by (simp_all add: filealloc_def)
  ultimately show ?thesis using f(1) by simp
qed

lemma filedup_kinv:
  assumes "kinv d k" and "f < length (ftable k)" and "\<And>g. d' g = d g + oref (Some f) g"
  shows "ensures (filedup f k) (\<lambda>k'. kinv d' k' \<and> (\<exists>fs. k' = k\<lparr>ftable := fs\<rparr> \<and> length fs = length (ftable k)))"
  using kinv_file [OF assms(1,2), of "(ftable k ! f)\<lparr>f_ref := f_ref (ftable k ! f) + 1\<rparr>" 1 d'] assms(3) by (auto simp: filedup_def)

lemma fileclose_kinv:
  assumes "kinv d k" and "f < length (ftable k)" and "\<And>g. d' g = d g - oref (Some f) g"
  shows "ensures (fileclose f k) (\<lambda>k'. kinv d' k' \<and> map pcore (ptab k') = map pcore (ptab k) \<and> length (ftable k') = length (ftable k))"
proof -
  define v where "v = (ftable k ! f)\<lparr>f_ref := f_ref (ftable k ! f) - 1\<rparr>"
  define w where "w = (ftable k ! f)\<lparr>f_ref := 0, f_type := FD_NONE\<rparr>"
  define kv where "kv = k\<lparr>ftable := (ftable k)[f := v]\<rparr>"
  define kw where "kw = k\<lparr>ftable := (ftable k)[f := w]\<rparr>"
  have v: "kinv d' kv" unfolding kv_def by (rule kinv_file [OF assms(1,2), where x = "-1"]) (simp_all add: assms(3) v_def)
  have w: "kinv d' kw" if "f_ref (ftable k ! f) = 1"
    unfolding kw_def by (rule kinv_file [OF assms(1,2), where x = "-1"]) (simp_all add: assms(3) w_def that)
  have same: "ptab kv = ptab k" "ptab kw = ptab k" "length (ftable kv) = length (ftable k)" "length (ftable kw) = length (ftable k)"
    by (simp_all add: kv_def kw_def)
  have fr: "kinv d' k' \<and> map pcore (ptab k') = map pcore (ptab k) \<and> length (ftable k') = length (ftable k)"
    if "frame kw k'" "f_ref (ftable k ! f) = 1" for k'
    using kinv_frame [OF w [OF that(2)] that(1)] that(1) frame_len [OF that(1)] same by (simp add: frame_def)
  have p: "ensures (pipeclose pa wr kw) (frame kw)" for pa wr by (rule pipeclose_frame [OF frame_refl])
  have i: "ensures (in_fs h kw) (\<lambda>(k', r). frame kw k')" for h :: "fsstate \<Rightarrow> (fsstate \<times> unit) res"
    by (rule wp_in_fs [OF frame_refl]) simp
  show ?thesis
    unfolding fileclose_def Let_def kv_def [symmetric, unfolded v_def] kw_def [symmetric, unfolded w_def]
    using v same fr p i by (auto simp: ensures_def frame_refl split: fdtype.splits)
qed

lemma wp_fileclose:
  assumes "kinv d k" and "f < length (ftable k)" and "\<And>g. d' g = d g - oref (Some f) g"
    and "\<And>k'. kinv d' k' \<Longrightarrow> map pcore (ptab k') = map pcore (ptab k) \<Longrightarrow> length (ftable k') = length (ftable k) \<Longrightarrow> P k'"
  shows "ensures (fileclose f k) P"
  by (rule ensures_weaken [OF fileclose_kinv [OF assms(1-3)]]) (use assms(4) in blast)

lemma kinv_range:
  assumes "kinv d k" and "0 \<le> d f" and "i < length (ptab k)" and "fd < NOFILE" and "p_ofile (ptab k ! i) ! fd = Some f"
  shows "f < length (ftable k)"
proof -
  have "length (p_ofile (ptab k ! i)) = NOFILE" using kinvD(3) [OF assms(1,3)] by (simp add: pinv_def)
  then have "0 < refs f (ptab k)" using refs_pos [OF assms(3) _ assms(5)] assms(4) by simp
  then show ?thesis using kinvD(5) [OF assms(1), of f] assms(2) by (auto simp: fref_def split: if_splits)
qed

lemma cur_range: "kinv d k \<Longrightarrow> cur k = Some i \<Longrightarrow> i < length (ptab k) \<and> p_state (ptab k ! i) = RUNNING"
  using kinvD(1) by (auto simp: runs_def)

lemma set_fd_sel [simp]:
  "cur (set_fd i fd v k) = cur k" "length (ptab (set_fd i fd v k)) = length (ptab k)" "ftable (set_fd i fd v k) = ftable k"
  by (simp_all add: set_fd_def)

lemma set_fd_ofile:
  "i < length (ptab k) \<Longrightarrow> p_ofile (ptab (set_fd i fd v k) ! j) = (if j = i then (p_ofile (ptab k ! i))[fd := v] else p_ofile (ptab k ! j))"
  by (simp add: set_fd_def kproc_nth)

lemma wp_fdalloc:
  assumes "kinv d k" and "\<And>g. d' g = d g - oref (Some f) g" and "P (k, -1)"
    and "\<And>i fd. cur k = Some i \<Longrightarrow> fd < NOFILE \<Longrightarrow> p_ofile (ptab k ! i) ! fd = None \<Longrightarrow> kinv d' (set_fd i fd (Some f) k) \<Longrightarrow>
      P (set_fd i fd (Some f) k, int fd)"
  shows "ensures (fdalloc f k) P"
proof -
  have "P (set_fd i fd (Some f) k, int fd)" if c: "cur k = Some i" and "find_idx (\<lambda>x. x = None) (p_ofile (ptab k ! i)) = Some fd" for i fd
  proof -
    have i: "i < length (ptab k)" "p_state (ptab k ! i) = RUNNING" using cur_range [OF assms(1) c] by simp_all
    have "length (p_ofile (ptab k ! i)) = NOFILE" using kinvD(3) [OF assms(1) i(1)] by (simp add: pinv_def)
    then have fd: "fd < NOFILE" "p_ofile (ptab k ! i) ! fd = None" using that(2) by (simp_all add: find_idx_Some)
    have "kinv d' (set_fd i fd (Some f) k)" by (rule kinv_set_fd [OF assms(1) i(1) fd(1)]) (simp_all add: i fd assms(2))
    then show ?thesis using assms(4) c fd by blast
  qed
  then show ?thesis using assms(3) by (auto simp: fdalloc_def intro!: wp_myproc split: option.splits)
qed

section \<open>Allocation of processes\<close>

lemma kinv_start:
  assumes "kinv d k" and i: "i < length (ptab k)" and st: "p_state (ptab k ! i) = UNUSED" and "length role = 16" and "terminated role"
  shows "kinv d (kproc i (\<lambda>p. p\<lparr>p_pid := nextpid k, p_state := USED, p_agent_role := role, p_priority := 0,
    p_agent_state := 0, p_mem_quota := 0, p_quota_denied := 0\<rparr>) (k\<lparr>nextpid := nextpid k + 1\<rparr>))"
    (is "kinv d ?k")
proof -
  note D = kinvD [OF assms(1)]
  have i': "i < length (ptab (k\<lparr>nextpid := nextpid k + 1\<rparr>))" using i by simp
  note nth = kproc_nth [OF i']
  have "p_ofile (ptab ?k ! a) = p_ofile (ptab k ! a)" for a by (simp add: nth)
  then have "map p_ofile (ptab ?k) = map p_ofile (ptab k)" by (simp add: list_eq_iff_nth_eq)
  then have r: "refs f (ptab ?k) = refs f (ptab k)" for f by (rule refs_same)
  have n: "nextpid ?k = nextpid k + 1" and fr: "fref f ?k = fref f k" for f by (simp_all add: fref_def)
  have len: "length (ptab ?k) = length (ptab k)" by simp
  have p: "pinv (nextpid ?k) (ptab ?k ! a)" if "a < length (ptab k)" for a
    using D(3) [OF that] D(2) assms(4,5) st by (auto simp: nth n pinv_def live_def)
  have u: "p_pid (ptab ?k ! a) \<noteq> p_pid (ptab ?k ! b)"
    if "a < length (ptab k)" "b < length (ptab k)" "a \<noteq> b" "live (ptab ?k ! a)" "live (ptab ?k ! b)" for a b
    using that D(4) [of a b] D(3) [OF that(1)] D(3) [OF that(2)] by (auto simp: nth pinv_def split: if_splits)
  have "runs ?k" using D(1) st by (auto simp: runs_def nth)
  then show ?thesis unfolding kinv_def len using D(2,5) p u r fr n by auto
qed

lemma terminated_clear [simp]: "terminated xs \<Longrightarrow> terminated (xs[0 := 0])"
  by (cases xs) auto

lemma freeproc_kinv:
  assumes "kinv d k" and "j < length (ptab k)" and "cur k \<noteq> Some j" and "p_ofile (ptab k ! j) = replicate NOFILE None"
  shows "ensures (freeproc j k) (\<lambda>k'. kinv d k' \<and> cur k' = cur k \<and> (\<forall>x. x \<noteq> j \<longrightarrow> ptab k' ! x = ptab k ! x))"
proof -
  have "kinv d (kproc j clear_proc (set_km m k))" for m
    by (rule kinv_kproc) (use assms kinvD(3) [OF assms(1,2)] in \<open>auto simp: pinv_def clear_proc_def live_def\<close>)
  then show ?thesis using assms(2)
    by (auto simp: freeproc_def Let_def set_km_def kproc_nth intro!: wp ensures_any [where m = "kfree p m" for p m])
qed

text \<open>A new process: it has a fresh pid and no open files, and nothing else changes.\<close>

definition fresh_proc :: "kernel \<Rightarrow> nat \<Rightarrow> kernel \<Rightarrow> bool" where
  "fresh_proc k i k' \<longleftrightarrow> i < length (ptab k) \<and> p_state (ptab k ! i) = UNUSED \<and> p_state (ptab k' ! i) = USED \<and>
     p_pid (ptab k' ! i) = nextpid k \<and> nextpid k' = nextpid k + 1 \<and> p_ofile (ptab k' ! i) = replicate NOFILE None \<and>
     length (ptab k') = length (ptab k) \<and> (\<forall>j. j \<noteq> i \<longrightarrow> ptab k' ! j = ptab k ! j) \<and> cur k' = cur k \<and>
     ftable k' = ftable k \<and> fss k' = fss k \<and> initproc k' = initproc k \<and> p_pagetable (ptab k' ! i) \<noteq> 0"

lemma allocproc_kinv:
  assumes "kinv d k"
  shows "ensures (allocproc k) (\<lambda>(k', r). kinv d k' \<and> cur k' = cur k \<and> (\<forall>i. r = Some i \<longrightarrow> fresh_proc k i k') \<and>
    (\<forall>j. p_state (ptab k ! j) \<noteq> UNUSED \<longrightarrow> ptab k' ! j = ptab k ! j))"
proof (cases "find_idx (\<lambda>p. p_state p = UNUSED) (ptab k)")
  case None
  then show ?thesis using assms by (simp add: allocproc_def)
next
  case (Some i)
  then have i: "i < length (ptab k)" "p_state (ptab k ! i) = UNUSED" by (simp_all add: find_idx_Some)
  have ni: "cur k \<noteq> Some i" using cur_range [OF assms] i by fastforce
  have P: "pinv (nextpid k) (ptab k ! i)" by (rule kinvD(3) [OF assms i(1)])
  define Q where "Q k' \<longleftrightarrow> kinv d k' \<and> length (ptab k') = length (ptab k) \<and> cur k' = cur k \<and>
    p_ofile (ptab k' ! i) = replicate NOFILE None \<and> ftable k' = ftable k \<and> fss k' = fss k \<and> initproc k' = initproc k \<and>
    p_state (ptab k' ! i) = USED \<and> p_pid (ptab k' ! i) = nextpid k \<and> (\<forall>j. j \<noteq> i \<longrightarrow> ptab k' ! j = ptab k ! j) \<and>
    nextpid k' = nextpid k + 1" for k'
  have Q1: "Q (kproc i (\<lambda>p. p\<lparr>p_pid := nextpid k, p_state := USED, p_agent_role := role, p_priority := 0,
    p_agent_state := 0, p_mem_quota := 0, p_quota_denied := 0\<rparr>) (k\<lparr>nextpid := nextpid k + 1\<rparr>))" if "length role = 16" "terminated role" for role
    using kinv_start [OF assms i that] i P by (auto simp: Q_def kproc_nth pinv_def)
  have Q2: "Q (set_km m k') \<longleftrightarrow> Q k'" for k' m by (simp add: Q_def) (simp add: set_km_def)
  have Q3: "Q (kproc i g k')" if "Q k'" "\<And>p. pcore (g p) = pcore p" "\<And>p. p_state (g p) = p_state p" for k' g
  proof -
    have "kinv d (kproc i g k')" using that i by (intro kinv_kproc_same) (simp_all add: Q_def)
    moreover have "p_ofile (g p) = p_ofile p" "p_pid (g p) = p_pid p" for p using that(2) [of p] by (auto simp: pcore_def)
    ultimately show ?thesis using that i by (auto simp: Q_def kproc_nth)
  qed
  have F: "ensures (freeproc i k') (\<lambda>k'. kinv d k' \<and> cur k' = cur k \<and> (\<forall>j. p_state (ptab k ! j) \<noteq> UNUSED \<longrightarrow> ptab k' ! j = ptab k ! j))" if "Q k'" for k'
    by (rule ensures_weaken [OF freeproc_kinv [of d k' i]]) (use that i ni in \<open>auto simp: Q_def\<close>)
  have fin: "fresh_proc k i k'" if "Q k'" "p_pagetable (ptab k' ! i) \<noteq> 0" for k' using that i by (simp add: Q_def fresh_proc_def)
  have len: "length (p_agent_role (ptab k ! i)) = 16" using P by (simp add: pinv_def)
  let ?P = "\<lambda>(k', r). kinv d k' \<and> cur k' = cur k \<and> (\<forall>i. r = Some i \<longrightarrow> fresh_proc k i k') \<and>
    (\<forall>j. p_state (ptab k ! j) \<noteq> UNUSED \<longrightarrow> ptab k' ! j = ptab k ! j)"
  have T: "ensures (let (m, tf) = kalloc (km k1);
                  k = kproc i (\<lambda>p. p\<lparr>p_trapframe := tf\<rparr>) (set_km m k1)
              in if tf = 0 then bindE (freeproc i k) (\<lambda>k. Inr (k, None))
                 else bindE (proc_pagetable (trampoline k) tf (km k)) (\<lambda>(m, pt).
                      let k = kproc i (\<lambda>p. p\<lparr>p_pagetable := pt\<rparr>) (set_km m k)
                      in if pt = 0 then bindE (freeproc i k) (\<lambda>k. Inr (k, None))
                         else Inr (kproc i (\<lambda>p. p\<lparr>p_context := \<lparr>ctx_ra = forkret_ra k, ctx_sp = p_kstack p + 4096,
                                ctx_s = replicate 12 0\<rparr>\<rparr>) k, Some i))) ?P" if q: "Q k1" for k1
  proof -
    obtain m tf where kal: "kalloc (km k1) = (m, tf)" by (cases "kalloc (km k1)")
    define k2 where "k2 = kproc i (\<lambda>p. p\<lparr>p_trapframe := tf\<rparr>) (set_km m k1)"
    have q2: "Q k2" unfolding k2_def by (rule Q3) (simp_all add: Q2 q pcore_def)
    have q3: "Q (kproc i (\<lambda>p. p\<lparr>p_pagetable := pt\<rparr>) (set_km m' k2))" for pt m'
      by (rule Q3) (simp_all add: Q2 q2 pcore_def)
    have q4: "Q (kproc i (\<lambda>p. p\<lparr>p_context := ctx p\<rparr>) (kproc i (\<lambda>p. p\<lparr>p_pagetable := pt\<rparr>) (set_km m' k2)))" for pt m' ctx
      by (rule Q3) (simp_all add: q3 pcore_def)
    have pt: "p_pagetable (ptab (kproc i (\<lambda>p. p\<lparr>p_context := ctx p\<rparr>) (kproc i (\<lambda>p. p\<lparr>p_pagetable := pt\<rparr>) (set_km m' k2))) ! i) = pt" for pt m' ctx
      using q2 i by (simp add: kproc_nth Q_def)
    have 3: "fresh_proc k i (kproc i (\<lambda>p. p\<lparr>p_context := ctx p\<rparr>) (kproc i (\<lambda>p. p\<lparr>p_pagetable := pt\<rparr>) (set_km m' k2)))"
      "kinv d (kproc i (\<lambda>p. p\<lparr>p_context := ctx p\<rparr>) (kproc i (\<lambda>p. p\<lparr>p_pagetable := pt\<rparr>) (set_km m' k2)))" "cur k2 = cur k"
      if "pt \<noteq> 0" for pt m' ctx using fin [OF q4] pt that q4 [of ctx pt m'] q2 by (simp_all add: Q_def)
    have 4: "ptab (kproc i (\<lambda>p. p\<lparr>p_context := ctx p\<rparr>) (kproc i (\<lambda>p. p\<lparr>p_pagetable := pt\<rparr>) (set_km m' k2))) ! j = ptab k ! j"
      if "p_state (ptab k ! j) \<noteq> UNUSED" for pt m' ctx j
      using that q4 [of ctx pt m'] i(2) by (cases "j = i") (simp_all add: Q_def)
    show ?thesis unfolding kal k2_def [symmetric] Let_def prod.case
      using F [OF q2] F [OF q3] 3 4 by (auto intro!: ensures_any [where m = "proc_pagetable a b c" for a b c])
  qed
  show ?thesis using T [OF Q1] len
    by (auto simp: allocproc_def Some allocpid_def Let_def intro!: wp_safestrcpy)
qed

section \<open>Fork, exit and wait\<close>

text \<open>
  The loop of \<open>kfork\<close> over the descriptors: the child has none of the descriptors still to copy.
\<close>

definition copied :: "nat \<Rightarrow> nat \<Rightarrow> nat set \<Rightarrow> kernel \<Rightarrow> kernel \<Rightarrow> bool" where
  "copied i np fds k k' \<longleftrightarrow> kinv no_debt k' \<and> cur k' = cur k \<and> nextpid k' = nextpid k \<and> km k' = km k \<and> fss k' = fss k \<and>
     (\<exists>fds'. ptab k' = (ptab k)[np := (ptab k ! np)\<lparr>p_ofile := fds'\<rparr>] \<and> length fds' = NOFILE \<and>
       (\<forall>fd<NOFILE. fds' ! fd = (if fd \<in> fds then p_ofile (ptab k ! i) ! fd else p_ofile (ptab k ! np) ! fd)))"

lemma copied_set_fd:
  assumes "copied i np fds (set_fd np fd (Some f) (k\<lparr>ftable := fs\<rparr>)) k'" and "np < length (ptab k)" and "i \<noteq> np" and "fd \<notin> fds"
    and "p_ofile (ptab k ! i) ! fd = Some f" and "length (p_ofile (ptab k ! np)) = NOFILE"
  shows "copied i np (insert fd fds) k k'"
proof -
  let ?k = "set_fd np fd (Some f) (k\<lparr>ftable := fs\<rparr>)"
  obtain fds' where f: "ptab k' = (ptab ?k)[np := (ptab ?k ! np)\<lparr>p_ofile := fds'\<rparr>]" "length fds' = NOFILE"
    "\<forall>x<NOFILE. fds' ! x = (if x \<in> fds then p_ofile (ptab ?k ! i) ! x else p_ofile (ptab ?k ! np) ! x)"
    using assms(1) unfolding copied_def by blast
  have k: "ptab ?k = (ptab k)[np := (ptab k ! np)\<lparr>p_ofile := (p_ofile (ptab k ! np))[fd := Some f]\<rparr>]"
    "cur ?k = cur k" "nextpid ?k = nextpid k" "km ?k = km k" "fss ?k = fss k"
    by (simp_all add: set_fd_def kproc_def)
  have "ptab k' = (ptab k)[np := (ptab k ! np)\<lparr>p_ofile := fds'\<rparr>]" using f(1) assms(2) by (simp add: k(1))
  moreover have "\<forall>x<NOFILE. fds' ! x = (if x \<in> insert fd fds then p_ofile (ptab k ! i) ! x else p_ofile (ptab k ! np) ! x)"
    using f(3) assms(2-6) by (auto simp: k(1) nth_list_update)
  ultimately show ?thesis using assms(1) f(2) k(2-5) unfolding copied_def by auto
qed

lemma dup_files_kinv:
  assumes "kinv no_debt k" and "i < length (ptab k)" and "np < length (ptab k)" and "i \<noteq> np"
    and "p_state (ptab k ! np) = USED" and "\<And>fd. fd \<in> set fds \<Longrightarrow> fd < NOFILE \<and> p_ofile (ptab k ! np) ! fd = None"
    and "distinct fds"
  shows "ensures (dup_files i np fds k) (copied i np (set fds) k)"
  using assms
proof (induction fds arbitrary: k)
  case Nil
  have "length (p_ofile (ptab k ! np)) = NOFILE" using kinvD(3) [OF Nil.prems(1,3)] by (simp add: pinv_def)
  then show ?case using Nil by (auto simp: copied_def intro!: exI [of _ "p_ofile (ptab k ! np)"])
next
  case (Cons fd fds)
  have fd: "fd < NOFILE" "p_ofile (ptab k ! np) ! fd = None" using Cons.prems(6) by auto
  have len: "length (p_ofile (ptab k ! np)) = NOFILE" using kinvD(3) [OF Cons.prems(1,3)] by (simp add: pinv_def)
  show ?case
  proof (cases "p_ofile (ptab k ! i) ! fd")
    case None
    have "ensures (dup_files i np fds k) (copied i np (set fds) k)" using Cons.prems by (intro Cons.IH) auto
    moreover have "copied i np (set fds) k k' \<Longrightarrow> copied i np (set (fd # fds)) k k'" for k'
      using None fd(2) by (auto simp: copied_def)
    ultimately show ?thesis using None by (auto elim!: ensures_weaken)
  next
    case (Some f)
    have rng: "f < length (ftable k)" using kinv_range [OF Cons.prems(1) _ Cons.prems(2) fd(1) Some] by simp
    have step: "ensures (dup_files i np fds (set_fd np fd (Some f) (k\<lparr>ftable := fs\<rparr>))) (copied i np (insert fd (set fds)) k)"
      if k1: "kinv (oref (Some f)) (k\<lparr>ftable := fs\<rparr>)" for fs
    proof -
      have "kinv no_debt (set_fd np fd (Some f) (k\<lparr>ftable := fs\<rparr>))"
        using Cons.prems(3,5) fd by (intro kinv_set_fd [OF k1]) simp_all
      moreover have "p_ofile (ptab (set_fd np fd (Some f) (k\<lparr>ftable := fs\<rparr>)) ! np) ! x = None" if "x \<in> set fds" for x
        using Cons.prems(3,6,7) that by (cases "x = fd") (auto simp: set_fd_ofile)
      moreover have "p_state (ptab (set_fd np fd (Some f) (k\<lparr>ftable := fs\<rparr>)) ! np) = USED"
        using Cons.prems(3,5) by (simp add: set_fd_def kproc_nth)
      ultimately have "ensures (dup_files i np fds (set_fd np fd (Some f) (k\<lparr>ftable := fs\<rparr>)))
        (copied i np (set fds) (set_fd np fd (Some f) (k\<lparr>ftable := fs\<rparr>)))"
        using Cons.prems by (intro Cons.IH) auto
      then show ?thesis using copied_set_fd [OF _ Cons.prems(3,4) _ Some len] Cons.prems(7) by (auto elim!: ensures_weaken)
    qed
    have "ensures (filedup f k) (\<lambda>k'. kinv (oref (Some f)) k' \<and> (\<exists>fs. k' = k\<lparr>ftable := fs\<rparr> \<and> length fs = length (ftable k)))"
      by (rule filedup_kinv [OF Cons.prems(1) rng]) simp
    then show ?thesis using step by (auto simp: Some simp flip: set_fd_def elim!: ensures_weaken)
  qed
qed

lemma kproc_kproc: "kproc i f (kproc i g k) = kproc i (\<lambda>p. f (g p)) k"
  by (cases "i < length (ptab k)") (simp_all add: kproc_def list_update_beyond)

text \<open>What \<open>kfork\<close> promises of the child \<open>np\<close> of process \<open>i\<close>.\<close>

definition forked :: "nat \<Rightarrow> nat \<Rightarrow> kernel \<Rightarrow> kernel \<Rightarrow> bool" where
  "forked i np k k' \<longleftrightarrow> np < length (ptab k) \<and> p_state (ptab k ! np) = UNUSED \<and>
     (let p = ptab k ! i; q = ptab k' ! np
      in p_state q = RUNNABLE \<and> p_pid q = nextpid k \<and> p_parent q = Some i \<and> p_sz q = p_sz p \<and> p_ofile q = p_ofile p \<and>
         p_cwd q = p_cwd p \<and> cstr (p_name q) = cstr (p_name p) \<and> cstr (p_agent_role q) = cstr (p_agent_role p) \<and>
         p_priority q = p_priority p \<and> p_agent_state q = p_agent_state p \<and> p_mem_quota q = p_mem_quota p) \<and>
     (\<forall>j. j \<noteq> np \<longrightarrow> ptab k' ! j = ptab k ! j) \<and> nextpid k' = nextpid k + 1"

lemma safestrcpy_16:
  assumes "safestrcpy d s 16 = Inr r" and "length d = 16" and "length s = 16" and "terminated s"
  shows "cstr r = cstr s"
proof -
  have "length (cstr s) \<le> 15" using assms(3,4) terminated_length_cstr [of s] by simp
  then show ?thesis using safestrcpy_spec [of 16 d s] assms by auto
qed

text \<open>The last part of \<open>kfork\<close>, after the descriptors have been copied.\<close>

lemma fork_finish:
  fixes c :: nat and s :: fsstate
  assumes C: "copied i np {..<NOFILE} k1 k2" and k1: "np < length (ptab k1)" "i < length (ptab k1)" "i \<noteq> np"
    and st: "p_state (ptab k1 ! np) = USED"
    and n: "length name = 16" "terminated name" and r: "length role = 16" "terminated role"
  defines "k3 \<equiv> kproc np (\<lambda>q. q\<lparr>p_cwd := Some c, p_name := name, p_agent_role := role, p_priority := p_priority (ptab k1 ! i),
    p_agent_state := p_agent_state (ptab k1 ! i), p_mem_quota := p_mem_quota (ptab k1 ! i), p_parent := Some i, p_state := RUNNABLE\<rparr>) (k2\<lparr>fss := s\<rparr>)"
  shows "kinv no_debt k3" and "p_ofile (ptab k3 ! np) = p_ofile (ptab k1 ! i)" and "p_pid (ptab k3 ! np) = p_pid (ptab k1 ! np)"
    and "p_sz (ptab k3 ! np) = p_sz (ptab k1 ! np)" and "j \<noteq> np \<Longrightarrow> ptab k3 ! j = ptab k1 ! j" and "nextpid k3 = nextpid k1"
proof -
  obtain fds' where f: "ptab k2 = (ptab k1)[np := (ptab k1 ! np)\<lparr>p_ofile := fds'\<rparr>]" "length fds' = NOFILE"
    "\<forall>x<NOFILE. fds' ! x = p_ofile (ptab k1 ! i) ! x"
    using C unfolding copied_def by auto
  have kv: "kinv no_debt k2" "nextpid k2 = nextpid k1" "cur k2 = cur k1" using C by (simp_all add: copied_def)
  have len: "np < length (ptab k2)" using k1 f(1) by simp
  have Pi: "pinv (nextpid k2) (ptab k1 ! i)" using kinvD(3) [OF kv(1), of i] k1 f(1) by simp
  have Pn: "pinv (nextpid k2) (ptab k2 ! np)" using kinvD(3) [OF kv(1) len] .
  have nth: "ptab k2 ! np = (ptab k1 ! np)\<lparr>p_ofile := fds'\<rparr>" using f(1) k1 by simp
  have nc: "cur k2 \<noteq> Some np" using cur_range [OF kv(1), of np] nth st by auto
  show "kinv no_debt k3" unfolding k3_def
    by (rule kinv_kproc) (use kv(1) len Pi Pn n r nc nth st in \<open>auto simp: pinv_def live_def\<close>)
  have "fds' = p_ofile (ptab k1 ! i)" using f(2,3) Pi by (intro nth_equalityI) (simp_all add: pinv_def)
  then show "p_ofile (ptab k3 ! np) = p_ofile (ptab k1 ! i)" using len by (simp add: k3_def kproc_nth nth)
  show "p_pid (ptab k3 ! np) = p_pid (ptab k1 ! np)" "p_sz (ptab k3 ! np) = p_sz (ptab k1 ! np)" "nextpid k3 = nextpid k1"
    using len kv(2) by (simp_all add: k3_def kproc_nth nth)
  show "j \<noteq> np \<Longrightarrow> ptab k3 ! j = ptab k1 ! j" using len f(1) by (simp add: k3_def kproc_nth)
qed

lemma fork_tail:
  assumes "kinv no_debt k" and c: "cur k = Some i" and K: "kinv no_debt k'" and F: "fresh_proc k np k'"
  shows "ensures (let p = ptab k' ! i; k = kproc np (\<lambda>q. q\<lparr>p_sz := p_sz p\<rparr>) (set_km m k');
                       k = set_km (copy_trapframe (p_trapframe (ptab k ! np)) (p_trapframe p) (km k)) k
                   in bindE (dup_files i np [0..<NOFILE] k) (\<lambda>k.
                      case p_cwd p of
                        None \<Rightarrow> Inl OutOfBounds
                      | Some d \<Rightarrow>
                          bindE (safestrcpy (p_name (ptab k ! np)) (p_name p) 16) (\<lambda>name.
                          bindE (safestrcpy (p_agent_role (ptab k ! np)) (p_agent_role p) 16) (\<lambda>role.
                          let k = k\<lparr>fss := idup d (fss k)\<rparr>;
                              k = kproc np (\<lambda>q. q\<lparr>p_cwd := Some d, p_name := name, p_agent_role := role,
                                    p_priority := p_priority p, p_agent_state := p_agent_state p,
                                    p_mem_quota := p_mem_quota p\<rparr>) k;
                              pid = p_pid (ptab k ! np);
                              k = kproc np (\<lambda>q. q\<lparr>p_parent := Some i\<rparr>) k;
                              k = kproc np (\<lambda>q. q\<lparr>p_state := RUNNABLE\<rparr>) k
                          in Inr (k, pid)))))
    (\<lambda>(k', r). kinv no_debt k' \<and> r = nextpid k \<and> forked i np k k')"
proof -
  have np: "np < length (ptab k')" "np < length (ptab k)" "p_state (ptab k' ! np) = USED" "p_state (ptab k ! np) = UNUSED"
    "p_pid (ptab k' ! np) = nextpid k" "p_ofile (ptab k' ! np) = replicate NOFILE None" "nextpid k' = nextpid k + 1" "cur k' = cur k"
    "length (ptab k') = length (ptab k)" using F by (simp_all add: fresh_proc_def)
  have i: "i < length (ptab k)" "p_state (ptab k ! i) = RUNNING" using cur_range [OF assms(1) c] by simp_all
  then have ne: "i \<noteq> np" using np(4) by auto
  have same: "j \<noteq> np \<Longrightarrow> ptab k' ! j = ptab k ! j" for j using F by (simp add: fresh_proc_def)
  define p where "p = ptab k ! i"
  have pi: "ptab k' ! i = p" using same ne by (simp add: p_def)
  have Pp: "pinv (nextpid k) p" unfolding p_def by (rule kinvD(3) [OF assms(1) i(1)])
  have Pn: "pinv (nextpid k') (ptab k' ! np)" by (rule kinvD(3) [OF K np(1)])
  define k1 where "k1 = set_km (copy_trapframe (p_trapframe (ptab (kproc np (\<lambda>q. q\<lparr>p_sz := p_sz p\<rparr>) (set_km m k')) ! np)) (p_trapframe p)
    (km (kproc np (\<lambda>q. q\<lparr>p_sz := p_sz p\<rparr>) (set_km m k')))) (kproc np (\<lambda>q. q\<lparr>p_sz := p_sz p\<rparr>) (set_km m k'))"
  have k1: "ptab k1 = (ptab k')[np := (ptab k' ! np)\<lparr>p_sz := p_sz p\<rparr>]" "nextpid k1 = nextpid k'" "cur k1 = cur k"
    using np(8) by (simp_all add: k1_def set_km_def kproc_def)
  have "kinv no_debt (kproc np (\<lambda>q. q\<lparr>p_sz := p_sz p\<rparr>) (set_km m k'))"
    using K np(1) by (intro kinv_kproc_same) (simp_all add: pcore_def)
  then have kv1: "kinv no_debt k1" by (simp add: k1_def)
  have nth1: "ptab k1 ! np = (ptab k' ! np)\<lparr>p_sz := p_sz p\<rparr>" "ptab k1 ! i = p" using k1(1) np(1) ne pi by simp_all
  have D: "ensures (dup_files i np [0..<NOFILE] k1) (copied i np {..<NOFILE} k1)"
    using dup_files_kinv [OF kv1, of i np "[0..<NOFILE]"] i(1) np ne nth1 k1(1) by (simp add: atLeast_upt)
  have fin: "kinv no_debt (kproc np (\<lambda>q. q\<lparr>p_state := RUNNABLE\<rparr>) (kproc np (\<lambda>q. q\<lparr>p_parent := Some i\<rparr>)
      (kproc np (\<lambda>q. q\<lparr>p_cwd := Some c, p_name := name, p_agent_role := role, p_priority := p_priority p,
        p_agent_state := p_agent_state p, p_mem_quota := p_mem_quota p\<rparr>) (k2\<lparr>fss := s\<rparr>)))) \<and>
      p_pid (ptab (kproc np (\<lambda>q. q\<lparr>p_cwd := Some c, p_name := name, p_agent_role := role, p_priority := p_priority p,
        p_agent_state := p_agent_state p, p_mem_quota := p_mem_quota p\<rparr>) (k2\<lparr>fss := s\<rparr>)) ! np) = nextpid k \<and>
      forked i np k (kproc np (\<lambda>q. q\<lparr>p_state := RUNNABLE\<rparr>) (kproc np (\<lambda>q. q\<lparr>p_parent := Some i\<rparr>)
      (kproc np (\<lambda>q. q\<lparr>p_cwd := Some c, p_name := name, p_agent_role := role, p_priority := p_priority p,
        p_agent_state := p_agent_state p, p_mem_quota := p_mem_quota p\<rparr>) (k2\<lparr>fss := s\<rparr>))))"
    if C: "copied i np {..<NOFILE} k1 k2" and "p_cwd p = Some c" and "safestrcpy (p_name (ptab k2 ! np)) (p_name p) 16 = Inr name"
      and "safestrcpy (p_agent_role (ptab k2 ! np)) (p_agent_role p) 16 = Inr role" for k2 c name role s
  proof -
    obtain fds' where "ptab k2 = (ptab k1)[np := (ptab k1 ! np)\<lparr>p_ofile := fds'\<rparr>]" using C unfolding copied_def by blast
    then have k2: "np < length (ptab k2)" "p_name (ptab k2 ! np) = p_name (ptab k' ! np)" "p_agent_role (ptab k2 ! np) = p_agent_role (ptab k' ! np)"
      using np(1) nth1 k1(1) by simp_all
    have l: "length (p_name (ptab k2 ! np)) = 16" "length (p_agent_role (ptab k2 ! np)) = 16" using Pn by (simp_all add: k2 pinv_def)
    have nm: "length name = 16" "terminated name" "cstr name = cstr (p_name p)"
      using that(3) l safestrcpy_length [OF that(3)] safestrcpy_terminated [OF that(3)] safestrcpy_16 [OF that(3)] Pp by (simp_all add: pinv_def)
    have rl: "length role = 16" "terminated role" "cstr role = cstr (p_agent_role p)"
      using that(4) l safestrcpy_length [OF that(4)] safestrcpy_terminated [OF that(4)] safestrcpy_16 [OF that(4)] Pp by (simp_all add: pinv_def)
    have b: "np < length (ptab k1)" "i < length (ptab k1)" "p_state (ptab k1 ! np) = USED" using np i k1(1) nth1 by simp_all
    note X = fork_finish [OF C b(1,2) ne b(3) nm(1,2) rl(1,2), where c = c and s = s, unfolded nth1(2)]
    show ?thesis unfolding kproc_kproc
      using X np i nth1 k1 that(2) nm(3) rl(3) same pi k2(1)
      by (auto simp: forked_def kproc_nth p_def)
  qed
  show ?thesis unfolding Let_def pi k1_def [symmetric] ensures_bind
    by (rule ensures_weaken [OF D]) (use fin in \<open>auto simp: ensures_def split: option.splits\<close>)
qed

lemma kfork_kinv:
  assumes "kinv no_debt k" and "cur k = Some i"
  shows "ensures (kfork k) (\<lambda>(k', r). kinv no_debt k' \<and>
        (r = -1 \<and> (\<forall>j. p_state (ptab k ! j) \<noteq> UNUSED \<longrightarrow> ptab k' ! j = ptab k ! j) \<or> r = nextpid k \<and> r \<noteq> -1 \<and> (\<exists>np. forked i np k k')))"
proof -
  have T: "ensures (let p = ptab k' ! i
          in bindE (uvmcopy (km k') (p_pagetable p) (p_pagetable (ptab k' ! np)) (p_sz p)) (\<lambda>(m, r).
             if r < 0 then bindE (freeproc np (set_km m k')) (\<lambda>k. Inr (k, -1)) else X m)) 
      (\<lambda>(k', r). kinv no_debt k' \<and>
        (r = -1 \<and> (\<forall>j. p_state (ptab k ! j) \<noteq> UNUSED \<longrightarrow> ptab k' ! j = ptab k ! j) \<or> r = nextpid k \<and> r \<noteq> -1 \<and> (\<exists>np. forked i np k k')))"
    if K: "kinv no_debt k'" and F: "fresh_proc k np k'"
      and X: "\<And>m. ensures (X m) (\<lambda>(k', r). kinv no_debt k' \<and> r = nextpid k \<and> forked i np k k')" for k' np X
  proof -
    have ne: "cur (set_km m k') \<noteq> Some np" "np < length (ptab (set_km m k'))" "p_ofile (ptab (set_km m k') ! np) = replicate NOFILE None" for m
      using F cur_range [OF assms] assms(2) by (auto simp: fresh_proc_def)
    have "ensures (freeproc np (set_km m k')) (\<lambda>k'. kinv no_debt k' \<and> (\<forall>j. p_state (ptab k ! j) \<noteq> UNUSED \<longrightarrow> ptab k' ! j = ptab k ! j))" for m
      by (rule ensures_weaken [OF freeproc_kinv [OF _ ne(2,1,3), of no_debt]]) (use K F in \<open>auto simp: fresh_proc_def\<close>)
    moreover have "ensures (X m) (\<lambda>(k', r). kinv no_debt k' \<and>
        (r = -1 \<and> (\<forall>j. p_state (ptab k ! j) \<noteq> UNUSED \<longrightarrow> ptab k' ! j = ptab k ! j) \<or> r = nextpid k \<and> r \<noteq> -1 \<and> (\<exists>np. forked i np k k')))" for m
      by (rule ensures_weaken [OF X]) (use kinvD(2) [OF assms(1)] in auto)
    ultimately show ?thesis unfolding Let_def
      by (auto intro!: ensures_any [where m = "uvmcopy a b c e" for a b c e])
  qed
  show ?thesis unfolding kfork_def ensures_bind Let_def
    apply (rule wp_myproc)
    apply (rule ensures_weaken [OF allocproc_kinv [OF assms(1)]])
    apply (simp only: split_paired_all prod.case)
    subgoal for i' k' r
      apply (cases r)
       apply simp
      using T [OF _ _ fork_tail [OF assms], unfolded Let_def] assms(2)
      apply (simp only: option.case option.inject)
      done
    done
qed

lemma map_pcore_nth:
  "map pcore ps = map pcore qs \<Longrightarrow> i < length qs \<Longrightarrow> pcore (ps ! i) = pcore (qs ! i) \<and> length ps = length qs"
  by (metis length_map nth_map)

text \<open>\<open>kexit\<close> closes each file before it clears the descriptor, so the count runs one behind in between.\<close>

lemma close_files_kinv:
  assumes "kinv no_debt k" and "i < length (ptab k)" and "p_state (ptab k ! i) \<noteq> UNUSED" and "p_state (ptab k ! i) \<noteq> ZOMBIE"
    and "\<And>fd. fd \<in> set fds \<Longrightarrow> fd < NOFILE"
  shows "ensures (close_files i fds k) (\<lambda>k'. kinv no_debt k' \<and> length (ptab k') = length (ptab k) \<and>
    p_state (ptab k' ! i) \<noteq> UNUSED \<and> p_state (ptab k' ! i) \<noteq> ZOMBIE \<and>
    (\<forall>fd<NOFILE. fd \<in> set fds \<or> p_ofile (ptab k ! i) ! fd = None \<longrightarrow> p_ofile (ptab k' ! i) ! fd = None))"
  using assms
proof (induction fds arbitrary: k)
  case Nil
  then show ?case by simp
next
  case (Cons fd fds)
  have fd: "fd < NOFILE" using Cons.prems(5) by simp
  show ?case
  proof (cases "p_ofile (ptab k ! i) ! fd")
    case None
    have "ensures (close_files i fds k) (\<lambda>k'. kinv no_debt k' \<and> length (ptab k') = length (ptab k) \<and>
      p_state (ptab k' ! i) \<noteq> UNUSED \<and> p_state (ptab k' ! i) \<noteq> ZOMBIE \<and>
      (\<forall>fd<NOFILE. fd \<in> set fds \<or> p_ofile (ptab k ! i) ! fd = None \<longrightarrow> p_ofile (ptab k' ! i) ! fd = None))"
      using Cons.prems by (intro Cons.IH) auto
    then show ?thesis using None by (auto elim!: ensures_weaken)
  next
    case (Some f)
    have rng: "f < length (ftable k)" using kinv_range [OF Cons.prems(1) _ Cons.prems(2) fd Some] by simp
    have step: "ensures (close_files i fds (set_fd i fd None k1)) (\<lambda>k'. kinv no_debt k' \<and> length (ptab k') = length (ptab k) \<and>
      p_state (ptab k' ! i) \<noteq> UNUSED \<and> p_state (ptab k' ! i) \<noteq> ZOMBIE \<and>
      (\<forall>x<NOFILE. x \<in> set (fd # fds) \<or> p_ofile (ptab k ! i) ! x = None \<longrightarrow> p_ofile (ptab k' ! i) ! x = None))"
      if k1: "kinv (\<lambda>g. - oref (Some f) g) k1" "map pcore (ptab k1) = map pcore (ptab k)" for k1
    proof -
      note E = map_pcore_nth [OF k1(2) Cons.prems(2)]
      note P = pcore_cong [OF conjunct1 [OF E]]
      have i1: "i < length (ptab k1)" using E Cons.prems(2) by simp
      have kv: "kinv no_debt (set_fd i fd None k1)" using Some by (intro kinv_set_fd [OF k1(1) i1 fd]) (simp_all add: P(4))
      have o: "p_ofile (ptab (set_fd i fd None k1) ! i) = (p_ofile (ptab k ! i))[fd := None]"
        "p_state (ptab (set_fd i fd None k1) ! i) = p_state (ptab k1 ! i)"
        using i1 by (simp_all add: set_fd_def kproc_nth P(4))
      have l: "length (p_ofile (ptab k ! i)) = NOFILE" using kinvD(3) [OF Cons.prems(1,2)] by (simp add: pinv_def)
      have "ensures (close_files i fds (set_fd i fd None k1)) (\<lambda>k'. kinv no_debt k' \<and> length (ptab k') = length (ptab (set_fd i fd None k1)) \<and>
        p_state (ptab k' ! i) \<noteq> UNUSED \<and> p_state (ptab k' ! i) \<noteq> ZOMBIE \<and>
        (\<forall>x<NOFILE. x \<in> set fds \<or> p_ofile (ptab (set_fd i fd None k1) ! i) ! x = None \<longrightarrow> p_ofile (ptab k' ! i) ! x = None))"
        using Cons.prems kv i1 o P by (intro Cons.IH) auto
      moreover have "(p_ofile (ptab k ! i))[fd := None] ! x = None" if "x = fd \<or> p_ofile (ptab k ! i) ! x = None" for x
        using that l fd by (cases "x = fd") simp_all
      ultimately show ?thesis by (elim ensures_weaken) (use E o in auto)
    qed
    show ?thesis unfolding close_files.simps Some option.case ensures_bind set_fd_def [symmetric]
      by (rule wp_fileclose [OF Cons.prems(1) rng, where d' = "\<lambda>g. - oref (Some f) g"]) (use step in simp_all)
  qed
qed

lemma close_all_kinv:
  assumes "kinv no_debt k" and c: "cur k = Some i"
  shows "ensures (close_files i [0..<NOFILE] k) (\<lambda>k'. kinv no_debt k' \<and> i < length (ptab k') \<and> p_state (ptab k' ! i) \<noteq> UNUSED \<and>
    p_ofile (ptab k' ! i) = replicate NOFILE None)"
proof -
  note R = cur_range [OF assms]
  show ?thesis
  proof (rule ensures_weaken [OF close_files_kinv [OF assms(1)]])
    fix k'
    assume a: "kinv no_debt k' \<and> length (ptab k') = length (ptab k) \<and> p_state (ptab k' ! i) \<noteq> UNUSED \<and> p_state (ptab k' ! i) \<noteq> ZOMBIE \<and>
      (\<forall>fd<NOFILE. fd \<in> set [0..<NOFILE] \<or> p_ofile (ptab k ! i) ! fd = None \<longrightarrow> p_ofile (ptab k' ! i) ! fd = None)"
    then have "length (p_ofile (ptab k' ! i)) = NOFILE" using kinvD(3) [of no_debt k' i] R by (simp add: pinv_def)
    then have "p_ofile (ptab k' ! i) = replicate NOFILE None" using a by (intro nth_equalityI) simp_all
    then show "kinv no_debt k' \<and> i < length (ptab k') \<and> p_state (ptab k' ! i) \<noteq> UNUSED \<and> p_ofile (ptab k' ! i) = replicate NOFILE None"
      using a R by simp
  qed (use R in simp_all)
qed

lemma reparent_frame: "frame k0 k \<Longrightarrow> frame k0 (reparent i k)"
proof -
  have "frame k0 (reparent_loop i js k)" if "frame k0 k" for js k
    using that
  proof (induction js arbitrary: k)
    case (Cons j js)
    have "frame k0 (wakeup ch (kproc j (\<lambda>p. p\<lparr>p_parent := v\<rparr>) k))" for ch v
      using Cons.prems by (intro frame_wakeup frame_kproc) (simp_all add: pcore_def)
    then show ?case using Cons by simp
  qed simp
  then show "frame k0 k \<Longrightarrow> frame k0 (reparent i k)" by (simp add: reparent_def)
qed

lemma kinv_zombie:
  assumes "kinv no_debt k" and i: "i < length (ptab k)" and "p_state (ptab k ! i) \<noteq> UNUSED" and "p_ofile (ptab k ! i) = replicate NOFILE None"
  shows "kinv no_debt ((kproc i (\<lambda>p. p\<lparr>p_xstate := st, p_state := ZOMBIE\<rparr>) k)\<lparr>cur := None\<rparr>)"
proof -
  have c: "kinv no_debt (k\<lparr>cur := None\<rparr>)" by (rule kinv_frame [OF assms(1) frame_cur_None [OF frame_refl]])
  have "kinv no_debt (kproc i (\<lambda>p. p\<lparr>p_xstate := st, p_state := ZOMBIE\<rparr>) (k\<lparr>cur := None\<rparr>))"
    by (rule kinv_kproc [OF c]) (use kinvD(3) [OF assms(1) i] assms in \<open>auto simp: pinv_def live_def\<close>)
  moreover have "kproc i g (k\<lparr>cur := None\<rparr>) = (kproc i g k)\<lparr>cur := None\<rparr>" for g
    by (rule kernel.equality) (simp_all add: kproc_def)
  ultimately show ?thesis by simp
qed

lemma kexit_kinv:
  assumes "kinv no_debt k"
  shows "ensures (kexit status k) (kinv no_debt)"
proof -
  have T: "ensures (case p_cwd (ptab k1 ! i) of None \<Rightarrow> Inl OutOfBounds
       | Some d \<Rightarrow>
           bindE (in_fs0 (\<lambda>s. bindE (fs_begin_op s) (\<lambda>s. bindE (iput d s) fs_end_op)) k1) (\<lambda>k.
           let k = kproc i (\<lambda>p. p\<lparr>p_cwd := None\<rparr>) k;
               k = reparent i k;
               k = wakeup (map_option Proc_chan (p_parent (ptab k ! i))) k;
               k = kproc i (\<lambda>p. p\<lparr>p_xstate := status, p_state := ZOMBIE\<rparr>) k
           in Inr (k\<lparr>cur := None\<rparr>))) (kinv no_debt)"
    if k1: "kinv no_debt k1" "i < length (ptab k1)" "p_state (ptab k1 ! i) \<noteq> UNUSED" "p_ofile (ptab k1 ! i) = replicate NOFILE None" for k1 i
  proof -
    have z: "kinv no_debt ((kproc i (\<lambda>p. p\<lparr>p_xstate := status, p_state := ZOMBIE\<rparr>) k')\<lparr>cur := None\<rparr>)" if f: "frame k1 k'" for k'
    proof (rule kinv_zombie [OF kinv_frame [OF k1(1) f]])
      note N = pcore_cong [OF frame_nth [OF f k1(2)]]
      show "i < length (ptab k')" "p_state (ptab k' ! i) \<noteq> UNUSED" "p_ofile (ptab k' ! i) = replicate NOFILE None"
        using k1 N frame_len [OF f] by simp_all
    qed
    have w: "frame k1 (wakeup ch (reparent i (kproc i (\<lambda>p. p\<lparr>p_cwd := None\<rparr>) k')))" if "frame k1 k'" for k' ch
      using that by (intro frame_wakeup reparent_frame frame_kproc) (simp_all add: pcore_def)
    show ?thesis unfolding Let_def
      by (auto split: option.splits intro!: wp_in_fs [OF frame_refl] z w)
  qed
  show ?thesis unfolding kexit_def ensures_bind ensures_if
    apply (rule wp_myproc)
    subgoal premises c for i
      using ensures_weaken [OF close_all_kinv [OF assms c] T, of "\<lambda>k. k" "\<lambda>_. i"] by simp
    done
qed

lemma kwait_kinv:
  assumes "kinv no_debt k"
  shows "ensures (kwait addr k) (\<lambda>(k', r). kinv no_debt k')"
proof -
  have fr: "ensures (freeproc j k') (kinv no_debt)"
    if j: "find_idx (\<lambda>pp. p_parent pp = Some i \<and> p_state pp = ZOMBIE) (ptab k) = Some j" and f: "frame k k'" for i j k'
  proof -
    have J: "j < length (ptab k)" "p_state (ptab k ! j) = ZOMBIE" using j by (simp_all add: find_idx_Some)
    note N = pcore_cong [OF frame_nth [OF f J(1)]]
    have kv: "kinv no_debt k'" by (rule kinv_frame [OF assms f])
    have z: "p_state (ptab k' ! j) = ZOMBIE" "j < length (ptab k')" using J N frame_len [OF f] by simp_all
    then have "cur k' \<noteq> Some j" using cur_range [OF kv, of j] by auto
    moreover have "p_ofile (ptab k' ! j) = replicate NOFILE None" using kinvD(3) [OF kv z(2)] z(1) by (simp add: pinv_def)
    ultimately show ?thesis by (intro ensures_weaken [OF freeproc_kinv [OF kv z(2)]]) simp_all
  qed
  have sl: "ensures (sleep ch k) (frame k)" for ch by (rule wp_sleep [OF kinvD(1) [OF assms] frame_refl])
  show ?thesis unfolding kwait_def ensures_bind
    by (auto simp: Let_def assms intro!: wp_myproc wp_ucopyout [OF frame_refl] fr ensures_weaken [OF sl] frame_refl
      intro: kinv_frame [OF assms] split: option.splits)
qed

section \<open>Descriptors\<close>

lemma sys_dup_kinv:
  assumes "kinv no_debt k"
  shows "ensures (sys_dup k) (\<lambda>(k', r). kinv no_debt k')"
proof -
  have F: "ensures (fdalloc f k) (\<lambda>(k', fd). if fd < 0 then k' = k else kinv (\<lambda>g. - oref (Some f) g) k' \<and> ftable k' = ftable k)" for f
    by (rule wp_fdalloc [OF assms, where d' = "\<lambda>g. - oref (Some f) g"]) simp_all
  have D: "ensures (filedup f k') (kinv no_debt)" if "kinv (\<lambda>g. - oref (Some f) g) k'" "f < length (ftable k')" for f k'
    by (rule ensures_weaken [OF filedup_kinv [OF that, of no_debt]]) simp_all
  have R: "f < length (ftable k)" if "cur k = Some i" "fd < NOFILE" "p_ofile (ptab k ! i) ! fd = Some f" for i fd f
    using kinv_range [OF assms _ _ that(2,3)] cur_range [OF assms that(1)] by simp
  show ?thesis unfolding sys_dup_def ensures_bind
    by (auto simp: assms D R intro!: wp_argfd ensures_weaken [OF F] split: if_splits)
qed

lemma sys_close_kinv:
  assumes "kinv no_debt k"
  shows "ensures (sys_close k) (\<lambda>(k', r). kinv no_debt k')"
proof -
  have C: "ensures (fileclose f (set_fd i fd None k)) (kinv no_debt)"
    if c: "cur k = Some i" and fd: "fd < NOFILE" and o: "p_ofile (ptab k ! i) ! fd = Some f" for i fd f
  proof -
    note R = cur_range [OF assms c]
    have kv: "kinv (oref (Some f)) (set_fd i fd None k)" using R fd by (intro kinv_set_fd [OF assms]) (simp_all add: o)
    have "f < length (ftable (set_fd i fd None k))" using kinv_range [OF assms _ _ fd o] R by simp
    then show ?thesis by (intro wp_fileclose [OF kv, where d' = no_debt]) simp_all
  qed
  show ?thesis unfolding sys_close_def ensures_bind
    by (auto simp: assms C intro!: wp_argfd wp_myproc)
qed

lemma wp_in_fs_kinv: "kinv d k \<Longrightarrow> (\<And>k' r. kinv d k' \<Longrightarrow> P (k', r)) \<Longrightarrow> ensures (in_fs f k) P"
  by (rule wp_in_fs [OF frame_refl]) (blast intro: kinv_frame)

lemma wp_ucopyout_kinv:
  "kinv d k \<Longrightarrow> (\<And>k' r. kinv d k' \<Longrightarrow> frame k k' \<Longrightarrow> P (k', r)) \<Longrightarrow> ensures (ucopyout va bs k) P"
  by (rule wp_ucopyout [OF frame_refl]) (blast intro: kinv_frame)

lemma close_opt_kinv:
  assumes "kinv (oref fa) k" and "\<And>f. fa = Some f \<Longrightarrow> f < length (ftable k)"
  shows "ensures (close_opt fa k) (kinv no_debt)"
proof (cases fa)
  case None
  then show ?thesis using assms(1) by (simp add: close_opt_def oref_def)
next
  case (Some f)
  then show ?thesis using assms by (auto simp: close_opt_def intro!: wp_fileclose [where d' = no_debt])
qed

lemma open_file_ref: "f_ref (open_file i ip om f) = f_ref f"
  by (simp add: open_file_def Let_def)

lemma filealloc_oref:
  assumes "kinv d k" and "filealloc k = (k', fa)" and "\<And>g. d' g = d g + oref fa g"
  shows "kinv d' k'" "ptab k' = ptab k" "cur k' = cur k" "fa = Some f \<Longrightarrow> f < length (ftable k')" "length (ftable k') = length (ftable k)"
proof -
  have "d' = (case fa of None \<Rightarrow> d | Some f \<Rightarrow> d(f := d f + 1))" using assms(3) by (auto simp: fun_eq_iff split: option.splits)
  then show "kinv d' k'" "ptab k' = ptab k" "cur k' = cur k" "fa = Some f \<Longrightarrow> f < length (ftable k')" "length (ftable k') = length (ftable k)"
    using filealloc_kinv [OF assms(1,2)] assms(1) by (auto split: option.splits)
qed

lemma sys_open_kinv:
  assumes "kinv no_debt k"
  shows "ensures (sys_open k) (\<lambda>(k', r). kinv no_debt k')"
proof -
  have T: "ensures (let (k, fa) = filealloc k1
      in bindE (case fa of Some f \<Rightarrow> fdalloc f k | None \<Rightarrow> Inr (k, -1)) (\<lambda>(k, fd).
        if fa = None \<or> fd < 0
        then bindE (close_opt fa k) (\<lambda>k. bindE (in_fs0 (\<lambda>s. bindE (iunlockput ip s) fs_end_op) k) (\<lambda>k. ret k (-1)))
        else (let k = k\<lparr>ftable := upd_file (the fa) (open_file (ino (fss k) ip) ip omode) (ftable k)\<rparr>
              in bindE (in_fs0 (\<lambda>s.
                   bindE (if omode AND O_TRUNC \<noteq> 0 \<and> i_type (ino s ip) = T_FILE then itrunc ip s else Inr s) (\<lambda>s.
                   bindE (iunlock ip s) fs_end_op)) k) (\<lambda>k. ret k fd)))) (\<lambda>(k', r). kinv no_debt k')"
    if k1: "kinv no_debt k1" for k1 ip omode
  proof -
    obtain k2 fa where fa: "filealloc k1 = (k2, fa)" by (cases "filealloc k1")
    note A = filealloc_oref [OF k1 fa, of "oref fa", simplified]
    have X: "ensures (case fa of Some f \<Rightarrow> fdalloc f k2 | None \<Rightarrow> Inr (k2, -1))
      (\<lambda>(k', fd). if fa = None \<or> fd < 0 then k' = k2 else kinv no_debt k')"
      by (cases fa) (auto intro!: wp_fdalloc [OF A(1), where d' = no_debt])
    have U: "kinv no_debt (k'\<lparr>ftable := upd_file f (open_file i ip om) (ftable k')\<rparr>)" if "kinv no_debt k'" for k' f i ip om
      by (rule kinv_frame [OF that]) (auto simp: frame_refl open_file_ref)
    have Cl: "ensures (close_opt fa k2) (\<lambda>k. ensures (in_fs f k) (\<lambda>x. kinv no_debt (fst x)))" for f :: "fsstate \<Rightarrow> (fsstate \<times> unit) res"
      by (rule ensures_weaken [OF close_opt_kinv [OF A(1,4)]]) (simp_all add: wp_in_fs_kinv)
    show ?thesis unfolding fa Let_def prod.case ensures_bind
      apply (rule ensures_weaken [OF X])
      apply (simp only: split_paired_all prod.case)
      subgoal premises x for k' fd
      proof (cases "fa = None \<or> fd < 0")
        case True
        then show ?thesis using x Cl by simp
      next
        case False
        then have "kinv no_debt (k'\<lparr>ftable := upd_file (the fa) (open_file (ino (fss k') ip) ip omode) (ftable k')\<rparr>)" using x U by simp
        then show ?thesis using False by (auto intro!: wp_in_fs_kinv)
      qed
      done
  qed
  have T': "ensures (case r of None \<Rightarrow> ret k1 (-1) | Some ip \<Rightarrow> X ip) (\<lambda>(k', r). kinv no_debt k')"
    if "kinv no_debt k1" "\<And>ip. ensures (X ip) (\<lambda>(k', r). kinv no_debt k')" for k1 r X
    using that by (cases r) simp_all
  show ?thesis unfolding sys_open_def ensures_bind ensures_if Let_def
    apply (rule wp_pure)+
    apply (simp only: split_paired_all prod.case ensures_if ensures_bind)
    apply (simp only: if_bool_eq_conj ensures_Inr prod.case assms simp_thms)
    apply (rule impI, rule wp_in_fs_kinv [OF assms])
    apply (simp only: prod.case)
    apply (rule T')
     apply assumption
    apply (erule T [unfolded Let_def])
    done
qed

definition two :: "nat \<Rightarrow> nat \<Rightarrow> nat \<Rightarrow> int" where
  "two a b g = oref (Some a) g + oref (Some b) g"

lemma kinv_pipe [simp]: "kinv d (set_pipe pa pi k) = kinv d k" "ftable (set_pipe pa pi k) = ftable k"
  by (simp_all add: kinv_def runs_def set_pipe_def fref_def)

lemma close_both_kinv:
  assumes "kinv (two a b) k" and "a < length (ftable k)" and "b < length (ftable k)"
  shows "ensures (close_both a b k) (\<lambda>(k', r). kinv no_debt k')"
  using assms unfolding close_both_def ensures_bind
  by (auto simp: two_def intro!: wp_fileclose [where d' = "oref (Some b)" and f = a and d = "two a b"] wp_fileclose [where d' = no_debt and f = b and d = "oref (Some b)"])

lemma pipealloc_kinv:
  assumes "kinv no_debt k"
  shows "ensures (pipealloc k) (\<lambda>(k', r). case r of None \<Rightarrow> kinv no_debt k'
    | Some (a, b) \<Rightarrow> kinv (two a b) k' \<and> cur k' = cur k \<and> a < length (ftable k') \<and> b < length (ftable k'))"
proof -
  obtain k1 f0 where f0: "filealloc k = (k1, f0)" by (cases "filealloc k")
  obtain k2 f1 where f1: "filealloc k1 = (k2, f1)" by (cases "filealloc k1")
  obtain m pa where kal: "kalloc (km k2) = (m, pa)" by (cases "kalloc (km k2)")
  note A = filealloc_oref [OF assms f0, of "oref f0", simplified]
  note B = filealloc_oref [OF A(1) f1, of "\<lambda>g. oref f0 g + oref f1 g", simplified]
  show ?thesis
  proof (cases f0)
    case None
    then show ?thesis using A(1) by (simp add: pipealloc_def f0 close_opt_def)
  next
    case a: (Some a)
    show ?thesis
    proof (cases f1)
      case None
      have "kinv (oref (Some a)) k2" "a < length (ftable k2)" using B None a A(4) by (simp_all add: oref_Some)
      then have "ensures (fileclose a k2) (kinv no_debt)" by (intro wp_fileclose [where d = "oref (Some a)" and d' = no_debt]) simp_all
      then show ?thesis using a None by (simp add: pipealloc_def f0 f1 close_opt_def)
    next
      case b: (Some b)
      have kv: "kinv (two a b) k2" using B(1) a b by (simp add: two_def [abs_def])
      have r: "a < length (ftable k2)" "b < length (ftable k2)" using A(4) B(4,5) a b by simp_all
      have c: "cur k2 = cur k" using A(3) B(3) by simp
      let ?ft = "upd_file b (\<lambda>f. f\<lparr>f_type := FD_PIPE, f_readable := False, f_writable := True, f_pipe := pa\<rparr>)
        (upd_file a (\<lambda>f. f\<lparr>f_type := FD_PIPE, f_readable := True, f_writable := False, f_pipe := pa\<rparr>) (ftable k2))"
      have "map f_ref ?ft = map f_ref (ftable k2)" by simp
      then have fin: "kinv (two a b) ((set_pipe pa new_pipe (k2\<lparr>km := m\<rparr>))\<lparr>ftable := ?ft\<rparr>)"
        using kv by (intro kinv_frame [OF _ frame_file [OF frame_refl]]) simp_all
      have cl: "ensures (close_both a b (k2\<lparr>km := m\<rparr>)) (\<lambda>(k', r). kinv no_debt k')" using kv r by (intro close_both_kinv) simp_all
      show ?thesis using a b fin cl c r
        by (simp add: pipealloc_def f0 f1 kal close_opt_def close_both_def Let_def)
    qed
  qed
qed

lemma frame_ofile: "frame k k' \<Longrightarrow> i < length (ptab k) \<Longrightarrow> i < length (ptab k') \<and> p_ofile (ptab k' ! i) = p_ofile (ptab k ! i)"
  using frame_len [of k k'] pcore_cong(4) [OF frame_nth] by simp

lemma sys_pipe_kinv:
  assumes "kinv no_debt k"
  shows "ensures (sys_pipe k) (\<lambda>(k', r). kinv no_debt k')"
proof -
  let ?Q = "\<lambda>(k', r). kinv no_debt k'"
  have T: "ensures (bindE (fdalloc a k1) (\<lambda>(k, fd0).
         if fd0 < 0 then close_both a b k
         else bindE (fdalloc b k) (\<lambda>(k, fd1).
           if fd1 < 0 then close_both a b (set_fd i (nat fd0) None k)
           else bindE (ucopyout fdarray (enc_int fd0) k) (\<lambda>(k, r).
             bindE (if r < 0 then Inr (k, r) else ucopyout (fdarray + 4) (enc_int fd1) k) (\<lambda>(k, r).
             if r < 0 then close_both a b (set_fd i (nat fd1) None (set_fd i (nat fd0) None k))
             else ret k 0))))) ?Q"
    if k1: "kinv (two a b) k1" and c: "cur k1 = Some i" and ab: "a < length (ftable k1)" "b < length (ftable k1)" for k1 a b i fdarray
  proof -
    note R = cur_range [OF k1 c]
    have F: "ensures (fdalloc a k1) (\<lambda>(k', fd). fd < 0 \<and> k' = k1 \<or>
      (\<exists>n<NOFILE. fd = int n \<and> p_ofile (ptab k1 ! i) ! n = None \<and> k' = set_fd i n (Some a) k1 \<and> kinv (oref (Some b)) k'))"
      using c by (intro wp_fdalloc [OF k1, where d' = "oref (Some b)"]) (auto simp: two_def)
    have G: "ensures (fdalloc b k2) (\<lambda>(k', fd). fd < 0 \<and> k' = k2 \<or>
      (\<exists>n<NOFILE. fd = int n \<and> p_ofile (ptab k2 ! i) ! n = None \<and> k' = set_fd i n (Some b) k2 \<and> kinv no_debt k'))"
      if "kinv (oref (Some b)) k2" "cur k2 = Some i" for k2
      using that(2) by (intro wp_fdalloc [OF that(1), where d' = no_debt]) auto
    have U: "ensures (close_both a b (set_fd i n None k2)) ?Q"
      if "kinv (oref (Some b)) k2" "n < NOFILE" "i < length (ptab k2)" "p_ofile (ptab k2 ! i) ! n = Some a" "length (ftable k2) = length (ftable k1)" for k2 n
      using that ab by (intro close_both_kinv kinv_set_fd [OF that(1,3,2)]) (simp_all add: two_def)
    have V: "ensures (close_both a b (set_fd i n1 None (set_fd i n None k2))) ?Q"
      if "kinv no_debt k2" "n < NOFILE" "n1 < NOFILE" "n \<noteq> n1" "i < length (ptab k2)" "p_ofile (ptab k2 ! i) ! n = Some a"
        "p_ofile (ptab k2 ! i) ! n1 = Some b" "length (ftable k2) = length (ftable k1)" for k2 n n1
    proof (rule close_both_kinv)
      have 1: "kinv (oref (Some a)) (set_fd i n None k2)" using that by (intro kinv_set_fd [OF that(1,5,2)]) simp_all
      show "kinv (two a b) (set_fd i n1 None (set_fd i n None k2))"
        using that by (intro kinv_set_fd [OF 1]) (simp_all add: set_fd_ofile two_def)
    qed (use that ab in simp_all)
    have W: "ensures (bindE (ucopyout fdarray x k3) (\<lambda>(k, r).
        bindE (if r < 0 then Inr (k, r) else ucopyout (fdarray + 4) y k) (\<lambda>(k, r).
        if r < 0 then close_both a b (set_fd i n1 None (set_fd i n None k)) else ret k 0))) ?Q"
      if k3: "kinv no_debt k3" "n < NOFILE" "n1 < NOFILE" "n \<noteq> n1" "i < length (ptab k3)" "p_ofile (ptab k3 ! i) ! n = Some a"
        "p_ofile (ptab k3 ! i) ! n1 = Some b" "length (ftable k3) = length (ftable k1)" for k3 n n1 x y
    proof -
      have v: "ensures (close_both a b (set_fd i n1 None (set_fd i n None k))) ?Q" if "frame k3 k" for k
        using k3 frame_ofile [OF that k3(5)] frame_len [OF that] kinv_frame [OF k3(1) that] by (intro V) simp_all
      show ?thesis unfolding ensures_bind
        by (rule wp_ucopyout [OF frame_refl]) (auto intro!: wp_ucopyout v intro: kinv_frame [OF k3(1)])
    qed
    have X: "ensures (bindE (fdalloc b k2) (\<lambda>(k, fd1).
        if fd1 < 0 then close_both a b (set_fd i n None k)
        else bindE (ucopyout fdarray x k) (\<lambda>(k, r).
             bindE (if r < 0 then Inr (k, r) else ucopyout (fdarray + 4) (enc_int fd1) k) (\<lambda>(k, r).
             if r < 0 then close_both a b (set_fd i (nat fd1) None (set_fd i n None k))
             else ret k 0)))) ?Q"
      if n: "n < NOFILE" "p_ofile (ptab k1 ! i) ! n = None" and k2: "k2 = set_fd i n (Some a) k1" "kinv (oref (Some b)) k2" for k2 n x
    proof -
      have len: "length (p_ofile (ptab k1 ! i)) = NOFILE" using kinvD(3) [OF k1] R by (simp add: pinv_def)
      have o: "p_ofile (ptab k2 ! i) = (p_ofile (ptab k1 ! i))[n := Some a]" "i < length (ptab k2)" "ftable k2 = ftable k1"
        using k2(1) R by (simp_all add: set_fd_ofile)
      have u: "ensures (close_both a b (set_fd i n None k2)) ?Q" using k2 n o len by (intro U) simp_all
      have w: "ensures (bindE (ucopyout fdarray x k) (\<lambda>(k, r).
             bindE (if r < 0 then Inr (k, r) else ucopyout (fdarray + 4) (enc_int (int n1)) k) (\<lambda>(k, r).
             if r < 0 then close_both a b (set_fd i n1 None (set_fd i n None k)) else ret k 0))) ?Q"
        if "n1 < NOFILE" "p_ofile (ptab k2 ! i) ! n1 = None" "k = set_fd i n1 (Some b) k2" "kinv no_debt k" for k n1
      proof -
        have "n \<noteq> n1" using that(2) o(1) n(1) len by auto
        then show ?thesis using that n o len by (intro W) (simp_all add: set_fd_ofile)
      qed
      have "cur k2 = Some i" using k2(1) c by simp
      from G [OF k2(2) this] show ?thesis unfolding ensures_bind [where m = "fdalloc b k2"]
        by (rule ensures_weaken) (use u w in \<open>auto simp del: ensures_bind split del: if_split cong del: if_weak_cong\<close>)
    qed
    have cb: "ensures (close_both a b k1) ?Q" by (rule close_both_kinv [OF k1 ab])
    show ?thesis unfolding ensures_bind [where m = "fdalloc a k1"]
      by (rule ensures_weaken [OF F]) (use cb X in \<open>auto simp del: ensures_bind split del: if_split cong del: if_weak_cong\<close>)
  qed
  show ?thesis unfolding sys_pipe_def ensures_bind [where m = "myproc k"] ensures_bind [where m = "argaddr 0 k"] ensures_bind [where m = "pipealloc k"]
    by (rule wp_myproc, rule wp_pure, rule ensures_weaken [OF pipealloc_kinv [OF assms]])
      (use T in \<open>auto simp del: ensures_bind split: option.splits\<close>)
qed

end
