(* ===== verification/Kernel.thy ===== *)
theory Kernel
  imports KInv
begin

text \<open>
  The kernel as a whole: every system call, every trap, every choice of the scheduler and every
  continuation of a sleeping call keeps the invariant of theory \<open>KInv\<close>.
\<close>

section \<open>System calls\<close>

lemma frame_kinv:
  assumes "kinv d k" and "ensures m (\<lambda>(k', r). frame k k')"
  shows "ensures m (\<lambda>(k', r). kinv d k')"
  by (rule ensures_weaken [OF assms(2)]) (auto intro: kinv_frame [OF assms(1)])

lemma setprio_kinv:
  assumes "kinv no_debt k"
  shows "ensures (sys_setprio k) (\<lambda>(k', r). kinv no_debt k')"
proof -
  have "kinv no_debt (kproc i (\<lambda>p. p\<lparr>p_priority := x\<rparr>) k)" if "cur k = Some i" "-20 \<le> x" "x \<le> 19" for i x
    using cur_range [OF assms that(1)] that kinvD(3) [OF assms, of i]
    by (intro kinv_kproc [OF assms]) (auto simp: pinv_def live_def)
  then show ?thesis by (auto simp: sys_setprio_def Let_def intro!: wp)
qed

lemma setquota_kinv:
  assumes "kinv no_debt k"
  shows "ensures (sys_setquota k) (\<lambda>(k', r). kinv no_debt k')"
proof -
  have "kinv no_debt (kproc i (\<lambda>p. p\<lparr>p_mem_quota := x\<rparr>) k)" if "cur k = Some i" "0 \<le> x" for i x
    using cur_range [OF assms that(1)] that kinvD(3) [OF assms, of i]
    by (intro kinv_kproc [OF assms]) (auto simp: pinv_def live_def)
  then show ?thesis by (auto simp: sys_setquota_def Let_def intro!: wp)
qed

lemma sys_fork_kinv:
  assumes "kinv no_debt k"
  shows "ensures (sys_fork k) (\<lambda>(k', r). kinv no_debt k')"
proof (cases "cur k")
  case None
  then show ?thesis by (simp add: sys_fork_def kfork_def myproc_def)
next
  case (Some i)
  show ?thesis unfolding sys_fork_def ensures_bind
    by (rule ensures_weaken [OF kfork_kinv [OF assms Some]]) auto
qed

lemma sys_exit_kinv: "kinv no_debt k \<Longrightarrow> ensures (sys_exit k) (kinv no_debt)"
  by (auto simp: sys_exit_def kexit_kinv intro!: wp)

lemma sys_wait_kinv: "kinv no_debt k \<Longrightarrow> ensures (sys_wait k) (\<lambda>(k', r). kinv no_debt k')"
  by (auto simp: sys_wait_def intro!: wp kwait_kinv [THEN ensures_weaken])

lemma returning_kinv: "ensures m (\<lambda>(k', r). kinv d k') \<Longrightarrow> ensures (returning m) (\<lambda>(k', r). kinv d k')"
  by (auto simp: returning_def elim!: ensures_weaken)

lemma syscalls_kinv:
  assumes "kinv no_debt k" and "h \<in> set (syscalls j)"
  shows "ensures (h k) (\<lambda>(k', r). kinv no_debt k')"
proof -
  note F = sys_frames [OF kinvD(1) [OF assms(1)] frame_refl] agent_frames [OF kinvD(1) [OF assms(1)] frame_refl]
    setrole_frame [OF kinvD(1) [OF assms(1)] frame_refl]
  note R = F [THEN frame_kinv [OF assms(1)], THEN returning_kinv]
  note S = sys_fork_kinv sys_wait_kinv sys_dup_kinv sys_close_kinv sys_open_kinv sys_pipe_kinv setprio_kinv setquota_kinv
  note R' = S [OF assms(1), THEN returning_kinv]
  have "ensures (bindE (sys_exit k) (\<lambda>k. Inr (k, None))) (\<lambda>(k', r). kinv no_debt k')"
    using sys_exit_kinv [OF assms(1)] by simp
  then show ?thesis using assms(2) R R' by (auto simp: syscalls_def simp del: ensures_bind)
qed

lemma set_reg_kinv [simp]: "kinv d (set_reg i off v k) = kinv d k"
  by (simp add: set_reg_def)

lemma syscall_kinv:
  assumes "kinv no_debt k"
  shows "ensures (syscall j k) (\<lambda>(k', r). kinv no_debt k')"
proof -
  have S: "ensures ((syscalls j ! n) k) (\<lambda>(k', r). kinv no_debt k')" if "n < length (syscalls j)" for n
    by (rule syscalls_kinv [OF assms nth_mem [OF that]])
  have T: "ensures (bindE ((syscalls j ! n) k) (\<lambda>(k, r).
             case r of Some (Done v) \<Rightarrow> Inr (set_reg i TF_a0 (of_int v) k, r) | _ \<Rightarrow> Inr (k, r))) (\<lambda>(k', r). kinv no_debt k')"
    if "n < length (syscalls j)" for n i
    unfolding ensures_bind by (rule ensures_weaken [OF S [OF that]]) (auto split: option.splits outcome.splits)
  have P: "ensures (kprintf out k) (kinv no_debt)" for out
    by (rule wp_kprintf [OF frame_refl]) (rule kinv_frame [OF assms])
  show ?thesis unfolding syscall_def ensures_bind [where m = "myproc k"] Let_def
    by (rule wp_myproc) (auto simp: T simp del: ensures_bind, auto intro!: ensures_weaken [OF P])
qed

section \<open>Traps\<close>

lemma usertrap_tail_kinv:
  assumes "kinv no_debt k"
  shows "ensures (usertrap_tail ut t i w k) (\<lambda>(k', r). kinv no_debt k')"
proof -
  have "ensures (yield k) (kinv no_debt)"
    by (rule wp_yield [OF kinvD(1) [OF assms] frame_refl]) (rule kinv_frame [OF assms])
  moreover have "kinv no_debt (prepare_return ut t i k)" by (rule kinv_frame [OF assms prepare_return_frame [OF frame_refl]])
  ultimately show ?thesis using kexit_kinv [OF assms] by (auto simp: usertrap_tail_def)
qed

lemma devintr_kinv:
  assumes "kinv no_debt k"
  shows "ensures (devintr t k) (\<lambda>(k', r). kinv no_debt k')"
  by (rule frame_kinv [OF assms devintr_frame [OF frame_refl]])

lemma usertrap_kinv:
  assumes "kinv no_debt k"
  shows "ensures (usertrap ut j t k) (\<lambda>(k', e). kinv no_debt k')"
proof -
  have sys: "ensures (bindE (syscall j k1) (\<lambda>(k, r). case r of Some (Done _) \<Rightarrow> usertrap_tail ut t i 0 k | _ \<Rightarrow> Inr (k, To_scheduler)))
      (\<lambda>(k', e). kinv no_debt k')" if "kinv no_debt k1" for k1 i
    unfolding ensures_bind
    by (rule ensures_weaken [OF syscall_kinv [OF that]]) (auto simp: usertrap_tail_kinv split: option.splits outcome.splits)
  have pr: "ensures (kprintf out k1) (kinv no_debt)" if "kinv no_debt k1" for out k1
    by (rule wp_kprintf [OF frame_refl]) (rule kinv_frame [OF that])
  have bad: "ensures (bindE (kprintf a k1) (\<lambda>k. bindE (kprintf b k) (\<lambda>k. usertrap_tail ut t i 0 (setkilled i k)))) (\<lambda>(k', e). kinv no_debt k')"
    if "kinv no_debt k1" for k1 a b i
  proof -
    have "ensures (usertrap_tail ut t i 0 (setkilled i k2)) (\<lambda>(k', e). kinv no_debt k')" if "kinv no_debt k2" for k2
      by (rule usertrap_tail_kinv) (rule kinv_frame [OF that setkilled_frame [OF frame_refl]])
    then show ?thesis unfolding ensures_bind by (intro ensures_weaken [OF pr [OF that]] ensures_weaken [OF pr])
  qed
  have dev: "ensures (bindE (devintr t k1) (\<lambda>(k, which_dev).
             if which_dev \<noteq> 0 then usertrap_tail ut t i which_dev k
             else bindE (X k) (\<lambda>(m, pa).
               if pa \<noteq> 0 then usertrap_tail ut t i 0 (set_km m k)
               else bindE (kprintf (A k) (set_km m k)) (\<lambda>k. bindE (kprintf B k) (\<lambda>k. usertrap_tail ut t i 0 (setkilled i k))))))
      (\<lambda>(k', e). kinv no_debt k')" if "kinv no_debt k1" for k1 i A B and X :: "kernel \<Rightarrow> (kmem \<times> uint64) res"
    unfolding ensures_bind [where m = "devintr t k1"]
    apply (rule ensures_weaken [OF devintr_kinv [OF that]])
    subgoal for x
      using bad
      by (cases x) (auto simp: usertrap_tail_kinv ensures_bind [where m = "X k" for k] simp del: ensures_bind intro!: ensures_any [where m = "X k" for k])
    done
  have k1: "kinv no_debt (set_reg i TF_epc v k)" for i v using assms by simp
  have ex: "ensures (bindE (kexit st k1) (\<lambda>k. Inr (k, To_scheduler))) (\<lambda>(k', e). kinv no_debt k')" if "kinv no_debt k1" for k1 st
    using kexit_kinv [OF that] by simp
  show ?thesis unfolding usertrap_def Let_def ensures_if ensures_bind [where m = "myproc k"]
    using k1 ex sys dev by (auto simp del: ensures_bind intro!: wp_myproc)
qed

lemma kerneltrap_kinv:
  assumes "kinv no_debt k"
  shows "ensures (kerneltrap on t k) (kinv no_debt)"
proof -
  have "ensures (yield k1) (kinv no_debt)" if "kinv no_debt k1" for k1
    by (rule wp_yield [OF kinvD(1) [OF that] frame_refl]) (rule kinv_frame [OF that])
  then show ?thesis unfolding kerneltrap_def
    by (auto intro!: ensures_weaken [OF devintr_kinv [OF assms]] ensures_any [where m = "kprintf a b" for a b])
qed

section \<open>Boot\<close>

lemma fref_fields [simp]: "fref f (k\<lparr>cur := c\<rparr>) = fref f k" "fref f (k\<lparr>initproc := ip\<rparr>) = fref f k"
  by (simp_all add: fref_def)

lemma kinv_initproc [simp]: "kinv d (k\<lparr>initproc := ip\<rparr>) = kinv d k"
  by (simp add: kinv_def runs_def)

lemma kinv_cur:
  assumes "kinv d k" and "i < length (ptab k)" and "p_state (ptab k ! i) = RUNNING"
  shows "kinv d (k\<lparr>cur := Some i\<rparr>)"
  using assms kinvD(3) [OF assms(1,2)] by (simp add: kinv_def runs_def pinv_def)

text \<open>
  The tables before \<open>userinit\<close>: zeroed memory after \<open>procinit\<close>, with \<open>nextpid\<close> 1.
\<close>

definition booted :: "kernel \<Rightarrow> bool" where
  "booted k \<longleftrightarrow> cur k = None \<and> nextpid k = 1 \<and> length (ptab k) = NPROC \<and> length (ftable k) = NFILE \<and>
     (\<forall>p\<in>set (ptab k). p_state p = UNUSED \<and> p_ofile p = replicate NOFILE None \<and> p_name p = replicate 16 0 \<and>
       p_agent_role p = replicate 16 0 \<and> p_priority p = 0 \<and> p_mem_quota p = 0) \<and>
     (\<forall>f\<in>set (ftable k). f_ref f = 0)"

lemma booted_kinv:
  assumes "booted k"
  shows "kinv no_debt k"
proof -
  have p: "p_state (ptab k ! i) = UNUSED \<and> pinv 1 (ptab k ! i)" if "i < length (ptab k)" for i
    using assms nth_mem [OF that] by (auto simp: booted_def pinv_def live_def)
  have "int (count_list (p_ofile q) (Some f)) = 0" if "q \<in> set (ptab k)" for f q using assms that by (simp add: booted_def)
  then have "refs f (ptab k) = 0" for f unfolding refs_def by (simp cong: map_cong)
  moreover have "fref f k = 0" for f using assms by (auto simp: fref_def booted_def)
  ultimately show ?thesis using assms p by (simp add: kinv_def runs_def booted_def live_def)
qed

lemma userinit_kinv:
  assumes "kinv no_debt k"
  shows "ensures (userinit k) (\<lambda>k'. kinv no_debt k' \<and> (\<exists>i. initproc k' = Some i \<and> i < length (ptab k') \<and>
    p_state (ptab k' ! i) = RUNNABLE \<and> p_pid (ptab k' ! i) = nextpid k))"
proof -
  have fin: "kinv no_debt (kproc i (\<lambda>p. p\<lparr>p_cwd := d, p_state := RUNNABLE\<rparr>) (k1\<lparr>initproc := ip, fss := s\<rparr>)) \<and>
      p_pid (ptab (kproc i (\<lambda>p. p\<lparr>p_cwd := d, p_state := RUNNABLE\<rparr>) (k1\<lparr>initproc := ip, fss := s\<rparr>)) ! i) = nextpid k \<and>
      p_state (ptab (kproc i (\<lambda>p. p\<lparr>p_cwd := d, p_state := RUNNABLE\<rparr>) (k1\<lparr>initproc := ip, fss := s\<rparr>)) ! i) = RUNNABLE \<and>
      i < length (ptab k1)"
    if K: "kinv no_debt k1" and F: "fresh_proc k i k1" for k1 i d ip s
  proof -
    have I: "i < length (ptab k1)" "p_state (ptab k1 ! i) = USED" "p_pid (ptab k1 ! i) = nextpid k" using F by (simp_all add: fresh_proc_def)
    have K': "kinv no_debt (k1\<lparr>initproc := ip, fss := s\<rparr>)" using K by simp
    have "cur k1 \<noteq> Some i" using cur_range [OF K, of i] I by auto
    then show ?thesis using I kinvD(3) [OF K I(1)]
      by (auto intro!: kinv_kproc [OF K'] simp: pinv_def live_def kproc_nth)
  qed
  show ?thesis unfolding userinit_def ensures_bind
    by (rule ensures_weaken [OF allocproc_kinv [OF assms]])
      (use fin in \<open>auto split: option.splits intro!: ensures_any [where m = "namei a b" for a b]\<close>)
qed

section \<open>Steps\<close>

text \<open>
  The steps of one CPU. A process that sleeps inside a system call is continued, when it runs again,
  by \<open>resume\<close>: it goes on with the loop it slept in. The scheduler is entered when no process runs.
\<close>

inductive resume :: "kernel \<Rightarrow> kernel \<Rightarrow> bool" where
  res_pipewrite: "cur k = Some i \<Longrightarrow> pipewrite_loop pa addr n m (sleep_return i k) = Inr (k', r) \<Longrightarrow> resume k k'"
| res_piperead: "cur k = Some i \<Longrightarrow> piperead pa addr n (sleep_return i k) = Inr (k', r) \<Longrightarrow> resume k k'"
| res_consoleread: "cur k = Some i \<Longrightarrow> consoleread_loop dst n m (sleep_return i k) = Inr (k', r) \<Longrightarrow> resume k k'"
| res_kwait: "cur k = Some i \<Longrightarrow> kwait addr (sleep_return i k) = Inr (k', r) \<Longrightarrow> resume k k'"
| res_pause: "cur k = Some i \<Longrightarrow> pause_from t0 n (sleep_return i k) = Inr (k', r) \<Longrightarrow> resume k k'"

inductive kstep :: "kernel \<Rightarrow> kernel \<Rightarrow> bool" where
  st_schedule: "cur k = None \<Longrightarrow> scheduler (ptab k) (ptab k) (ptab k) = Some (i, ps) \<Longrightarrow> kstep k (k\<lparr>ptab := ps, cur := Some i\<rparr>)"
| st_usertrap: "usertrap ut j t k = Inr (k', e) \<Longrightarrow> kstep k k'"
| st_kerneltrap: "kerneltrap on t k = Inr k' \<Longrightarrow> kstep k k'"
| st_resume: "resume k k' \<Longrightarrow> kstep k k'"

lemma scheduler_runnable:
  assumes "scheduler ps ps ps = Some (i, ps')"
  shows "i < length ps \<and> p_state (ps ! i) = RUNNABLE \<and> ps' = run_proc i ps"
  using assms by (auto simp: scheduler_def pass2_def pass3_def find_idx_Some split: prod.splits option.splits if_splits)

lemma kinv_schedule:
  assumes "kinv no_debt k" and "cur k = None" and i: "i < length (ptab k)" and "p_state (ptab k ! i) = RUNNABLE"
  shows "kinv no_debt (k\<lparr>ptab := run_proc i (ptab k), cur := Some i\<rparr>)"
proof -
  have "kinv no_debt (kproc i (\<lambda>p. p\<lparr>p_state := RUNNING\<rparr>) k)"
    using assms by (intro kinv_kproc_same) (simp_all add: pcore_def)
  from kinv_cur [OF this, of i] show ?thesis using i by (simp add: kproc_def run_proc_def)
qed

lemma resume_kinv:
  assumes "resume k k'" and "kinv no_debt k"
  shows "kinv no_debt k'"
proof -
  have S: "kinv no_debt (sleep_return i k)" if "cur k = Some i" for i
  proof -
    have "(kproc i (\<lambda>p. p\<lparr>p_chan := None\<rparr>) k)\<lparr>cur := Some i\<rparr> = kproc i (\<lambda>p. p\<lparr>p_chan := None\<rparr>) k"
      using that by (simp add: kproc_def)
    then show ?thesis using cur_range [OF assms(2) that] unfolding sleep_return_def
      by (auto intro!: kinv_kproc_same [OF assms(2)] simp: pcore_def)
  qed
  have F: "kinv no_debt k'" if "kinv no_debt k1" "ensures m (\<lambda>(k', r). frame k1 k')" "m = Inr (k', r)" for k1 r and m :: "(kernel \<times> outcome) res"
    using ensuresD [OF frame_kinv [OF that(1,2)] that(3)] by simp
  have P: "ensures (pause_from t0 n k1) (\<lambda>(k', r). frame k1 k')" if "kinv no_debt k1" for k1 t0 n
    using kinvD(1) [OF that] by (auto simp: pause_from_def frame_refl intro!: wp)
  from assms(1) show ?thesis
  proof cases
    case (res_pipewrite i pa addr n m r)
    then show ?thesis using F [OF S pipewrite_loop_frame [OF kinvD(1) [OF S] frame_refl]] by blast
  next
    case (res_piperead i pa addr n r)
    then show ?thesis using F [OF S piperead_frame [OF kinvD(1) [OF S] frame_refl]] by blast
  next
    case (res_consoleread i dst n m r)
    then show ?thesis using F [OF S consoleread_loop_frame [OF kinvD(1) [OF S] frame_refl]] by blast
  next
    case (res_kwait i addr r)
    then show ?thesis using ensuresD [OF kwait_kinv [OF S]] by blast
  next
    case (res_pause i t0 n r)
    then show ?thesis using F [OF S P [OF S]] by blast
  qed
qed

lemma kstep_kinv: "kstep k k' \<Longrightarrow> kinv no_debt k \<Longrightarrow> kinv no_debt k'"
proof (induction rule: kstep.induct)
  case (st_schedule k i ps)
  then show ?case using scheduler_runnable kinv_schedule by metis
next
  case (st_usertrap ut j t k k' e)
  then show ?case using ensuresD [OF usertrap_kinv] by blast
next
  case (st_kerneltrap on t k k')
  then show ?case using ensuresD [OF kerneltrap_kinv] by blast
next
  case (st_resume k k')
  then show ?case by (rule resume_kinv)
qed

end
