(* ===== verification/ProcSpec.thy ===== *)
theory ProcSpec
  imports Kernel
begin

text \<open>
  What the kernel promises of processes: the invariant of all reachable states, the child of
  \<open>kfork\<close>, what \<open>kexit\<close> and \<open>kwait\<close> leave behind, the memory quota of \<open>growproc\<close>, checkpoints, and the
  treatment of killed processes.
\<close>

section \<open>A kernel with an open file\<close>

definition shared_file :: kfile where
  "shared_file = \<lparr>f_type = FD_DEVICE, f_ref = 2, f_readable = True, f_writable = True, f_pipe = 0, f_ip = 0, f_off = 0, f_major = CONSOLE\<rparr>"

definition user_proc :: proc where
  "user_proc = sample_proc\<lparr>p_ofile := [Some 0, Some 0] @ replicate 14 None, p_mem_quota := 6\<rparr>"

definition small_kernel :: kernel where
  "small_kernel = sample_kernel\<lparr>ftable := [shared_file], ptab := [user_proc], fss := upd_ino 0 (\<lambda>i. i\<lparr>i_ref := 2\<rparr>) sample_root\<rparr>"

lemma small_kernel_sel [simp]:
  "cur small_kernel = Some 0" "ptab small_kernel = [user_proc]" "ftable small_kernel = [shared_file]" "nextpid small_kernel = 8"
  "initproc small_kernel = None" "km small_kernel = sample_user"
  "fss small_kernel = upd_ino 0 (\<lambda>i. i\<lparr>i_ref := 2\<rparr>) sample_root"
  by (simp_all add: small_kernel_def sample_kernel_def)

lemma user_proc_sel [simp]:
  "p_state user_proc = RUNNING" "p_pid user_proc = 7" "p_ofile user_proc = [Some 0, Some 0] @ replicate 14 None" "\<not> p_killed user_proc"
  "p_parent user_proc = None" "p_pagetable user_proc = 0x80001000" "p_sz user_proc = 0x6000" "p_mem_quota user_proc = 6"
  "p_quota_denied user_proc = 0" "p_cwd user_proc = Some 0"
  by (simp_all add: user_proc_def sample_proc_def)

lemma small_kernel_kinv: "kinv no_debt small_kernel"
proof -
  have "terminated (replicate 16 (0 :: uchar))" by (simp add: numeral_eq_Suc)
  then have "pinv 8 user_proc" by (simp add: pinv_def user_proc_def sample_proc_def NOFILE_def live_def)
  moreover have "fref f small_kernel = refs f [user_proc]" for f
    by (cases f) (simp_all add: fref_def refs_def shared_file_def)
  ultimately show ?thesis by (simp add: kinv_def runs_def pinv_def)
qed

definition timer_trap :: trap_in where
  "timer_trap = \<lparr>t_spp = True, t_scause = 0x8000000000000005, t_sepc = 0, t_stval = 0, t_satp = 0, t_tp = 0, t_irq = 0, t_rx = []\<rparr>"

section \<open>The invariant of reachable states\<close>

lemma ksteps_kinv: "kstep\<^sup>*\<^sup>* k k' \<Longrightarrow> kinv no_debt k \<Longrightarrow> kinv no_debt k'"
  by (induction rule: rtranclp_induct) (auto intro: kstep_kinv)



section \<open>Fork, exit and wait\<close>



text \<open>Closing files and giving up the working directory change no parent.\<close>

definition lineage :: "kernel \<Rightarrow> kernel \<Rightarrow> bool" where
  "lineage k k' \<longleftrightarrow> map (\<lambda>p. (p_parent p, p_pid p)) (ptab k') = map (\<lambda>p. (p_parent p, p_pid p)) (ptab k) \<and> initproc k' = initproc k \<and> cur k' = cur k"

lemma lineage_refl: "lineage k k" and lineage_trans: "lineage k k' \<Longrightarrow> lineage k' k'' \<Longrightarrow> lineage k k''"
  by (simp_all add: lineage_def)

lemma lineage_simps [simp]:
  "lineage k (k'\<lparr>fss := s\<rparr>) = lineage k k'" "lineage k (k'\<lparr>km := m\<rparr>) = lineage k k'" "lineage k (k'\<lparr>ftable := fs\<rparr>) = lineage k k'"
  "lineage k (k'\<lparr>pipes := ps\<rparr>) = lineage k k'" "lineage k (set_pipe pa pi k') = lineage k k'"
  by (simp_all add: lineage_def set_pipe_def)

lemma wakeup_parent: "map (\<lambda>p. (p_parent p, p_pid p)) (ptab (wakeup ch k)) = map (\<lambda>p. (p_parent p, p_pid p)) (ptab k)"
  by (rule nth_equalityI) (simp_all add: wakeup_nth wake_def)

lemma lineage_wakeup: "lineage k (wakeup ch k') = lineage k k'"
  by (simp add: lineage_def wakeup_parent) (simp add: wakeup_def)

lemma lineage_kproc: "(\<And>p. p_parent (g p) = p_parent p \<and> p_pid (g p) = p_pid p) \<Longrightarrow> lineage k (kproc j g k') = lineage k k'"
  by (simp add: lineage_def) (simp add: kproc_def map_upd_same)

lemma fileclose_lineage: "lineage k0 k \<Longrightarrow> ensures (fileclose f k) (lineage k0)"
  by (auto simp: fileclose_def pipeclose_def in_fs_def Let_def lineage_wakeup
      intro!: ensures_any [where m = "the_pipe a b" for a b] ensures_any [where m = "kfree a b" for a b] wp_myproc
        ensures_any [where m = "fs_begin_op a" for a] ensures_any [where m = "iput a b" for a b] ensures_any [where m = "fs_end_op a" for a]
      split: fdtype.splits option.splits)

lemma close_files_lineage: "lineage k0 k \<Longrightarrow> ensures (close_files i fds k) (lineage k0)"
proof (induction fds arbitrary: k)
  case (Cons fd fds)
  then show ?case by (auto intro!: ensures_weaken [OF fileclose_lineage] simp: lineage_kproc split: option.splits)
qed simp

text \<open>A process sleeps on a channel; a wake-up of that channel ends this, another one does not start it.\<close>

definition asleep_on :: "chan \<Rightarrow> proc \<Rightarrow> bool" where
  "asleep_on ch p \<longleftrightarrow> p_state p = SLEEPING \<and> p_chan p = Some ch"

lemma wakeup_awake:
  assumes "runs k" and "q < length (ptab k)"
  shows "\<not> asleep_on ch (ptab (wakeup (Some ch) k) ! q)" and "asleep_on ch (ptab (wakeup ch' k) ! q) \<Longrightarrow> asleep_on ch (ptab k ! q)"
    and "p_parent (ptab (wakeup ch' k) ! q) = p_parent (ptab k ! q)" and "p_cwd (ptab (wakeup ch' k) ! q) = p_cwd (ptab k ! q)"
  using assms by (auto simp: wakeup_nth asleep_on_def wake_def runs_def split: if_splits)

lemma wakeup_fields [simp]:
  "length (ptab (wakeup ch k)) = length (ptab k)" "initproc (wakeup ch k) = initproc k" "cur (wakeup ch k) = cur k"
  by (simp_all add: wakeup_def)

text \<open>The processes in \<open>js\<close> whose parent was \<open>i\<close> belong to \<open>init\<close> now, and it is awake if there were any.\<close>

definition reparented :: "nat \<Rightarrow> nat list \<Rightarrow> kernel \<Rightarrow> kernel \<Rightarrow> bool" where
  "reparented i js k k' \<longleftrightarrow> length (ptab k') = length (ptab k) \<and> initproc k' = initproc k \<and> cur k' = cur k \<and>
     (\<forall>j<length (ptab k). p_parent (ptab k' ! j) = (if j \<in> set js \<and> p_parent (ptab k ! j) = Some i then initproc k else p_parent (ptab k ! j)) \<and>
        p_cwd (ptab k' ! j) = p_cwd (ptab k ! j) \<and> (\<forall>ch. asleep_on ch (ptab k' ! j) \<longrightarrow> asleep_on ch (ptab k ! j))) \<and>
     (\<forall>q<length (ptab k). initproc k = Some q \<and> (\<exists>j\<in>set js. p_parent (ptab k ! j) = Some i) \<longrightarrow> \<not> asleep_on (Proc_chan q) (ptab k' ! q))"

lemma reparented_step:
  assumes "runs k" and "initproc k \<noteq> Some i" and x: "x < length (ptab k)" and "p_parent (ptab k ! x) = Some i"
  shows "reparented i [x] k (wakeup (map_option Proc_chan (initproc k)) (kproc x (\<lambda>p. p\<lparr>p_parent := initproc k\<rparr>) k))" (is "_ (wakeup _ ?k)")
proof -
  have r: "runs ?k" using assms(1) x by (auto simp: runs_def kproc_nth)
  note W = wakeup_awake [OF r, unfolded kproc_sel]
  have a: "asleep_on ch (ptab ?k ! j) = asleep_on ch (ptab k ! j)" for ch j using x by (simp add: kproc_nth asleep_on_def)
  show ?thesis unfolding reparented_def
    using W(1) W(2) [unfolded a] x assms(4) by (auto simp: W(3,4) kproc_nth)
qed

lemma reparentedD:
  assumes "reparented i js k k'"
  shows "length (ptab k') = length (ptab k)" "initproc k' = initproc k" "cur k' = cur k"
    "j < length (ptab k) \<Longrightarrow> p_parent (ptab k' ! j) = (if j \<in> set js \<and> p_parent (ptab k ! j) = Some i then initproc k else p_parent (ptab k ! j))"
    "j < length (ptab k) \<Longrightarrow> p_cwd (ptab k' ! j) = p_cwd (ptab k ! j)"
    "j < length (ptab k) \<Longrightarrow> asleep_on ch (ptab k' ! j) \<Longrightarrow> asleep_on ch (ptab k ! j)"
    "q < length (ptab k) \<Longrightarrow> initproc k = Some q \<Longrightarrow> j \<in> set js \<Longrightarrow> p_parent (ptab k ! j) = Some i \<Longrightarrow> \<not> asleep_on (Proc_chan q) (ptab k' ! q)"
  using assms unfolding reparented_def by blast+

lemma reparented_Cons:
  assumes "reparented i [x] k k1" and "reparented i js k1 k'" and n: "initproc k \<noteq> Some i" and js: "\<forall>j\<in>set js. j < length (ptab k)"
  shows "reparented i (x # js) k k'"
proof -
  note D = reparentedD [OF assms(1)]
  note E = reparentedD [OF assms(2), unfolded D(1-3)]
  have "p_parent (ptab k' ! j) = (if j \<in> set (x # js) \<and> p_parent (ptab k ! j) = Some i then initproc k else p_parent (ptab k ! j))"
    if "j < length (ptab k)" for j using E(4) [OF that] D(4) [OF that] n by auto
  moreover have "\<not> asleep_on (Proc_chan q) (ptab k' ! q)"
    if q: "q < length (ptab k)" "initproc k = Some q" and j: "j \<in> set (x # js)" "p_parent (ptab k ! j) = Some i" for q j
  proof (cases "j = x")
    case True
    then show ?thesis using D(7) [OF q, of j] E(6) [OF q(1)] j by auto
  next
    case False
    then show ?thesis using D(4) [of j] E(7) [OF q, of j] j js by auto
  qed
  ultimately show ?thesis unfolding reparented_def using D(5,6) E by auto
qed

lemma reparent_loop_spec:
  assumes "runs k" and "initproc k \<noteq> Some i" and "\<forall>j\<in>set js. j < length (ptab k)"
  shows "reparented i js k (reparent_loop i js k)"
  using assms
proof (induction js arbitrary: k)
  case Nil
  then show ?case by (simp add: reparented_def)
next
  case (Cons x js)
  define k1 where "k1 = (if p_parent (ptab k ! x) = Some i
    then wakeup (map_option Proc_chan (initproc k)) (kproc x (\<lambda>p. p\<lparr>p_parent := initproc k\<rparr>) k) else k)"
  have 1: "reparented i [x] k k1" using Cons.prems reparented_step by (auto simp: k1_def) (auto simp: reparented_def)
  have "frame k k1" by (auto simp: k1_def frame_refl pcore_def)
  then have "runs k1" by (rule frame_runs [OF Cons.prems(1)])
  then have "reparented i js k1 (reparent_loop i js k1)" using 1 Cons.prems by (intro Cons.IH) (simp_all add: reparented_def)
  moreover have "reparent_loop i (x # js) k = reparent_loop i js k1" by (simp add: k1_def)
  ultimately show ?case using reparented_Cons [OF 1] Cons.prems by simp
qed

text \<open>
  What an exit leaves: a zombie with its status, without files and working directory; its children
  belong to \<open>init\<close>; and neither its parent nor an \<open>init\<close> with new children still sleeps in \<open>kwait\<close>.
\<close>

definition exited :: "nat \<Rightarrow> int \<Rightarrow> kernel \<Rightarrow> kernel \<Rightarrow> bool" where
  "exited i st k k' \<longleftrightarrow> cur k' = None \<and> length (ptab k') = length (ptab k) \<and>
     (let p = ptab k' ! i
      in p_state p = ZOMBIE \<and> p_xstate p = st \<and> p_pid p = p_pid (ptab k ! i) \<and> p_ofile p = replicate NOFILE None \<and> p_cwd p = None) \<and>
     (\<forall>j<length (ptab k). p_parent (ptab k' ! j) = (if p_parent (ptab k ! j) = Some i then initproc k else p_parent (ptab k ! j))) \<and>
     (\<forall>q<length (ptab k). p_parent (ptab k' ! i) = Some q \<or> initproc k = Some q \<and> (\<exists>j<length (ptab k). p_parent (ptab k ! j) = Some i) \<longrightarrow>
        \<not> asleep_on (Proc_chan q) (ptab k' ! q))"

lemma lineage_nth:
  assumes "lineage k k'"
  shows "length (ptab k') = length (ptab k)" "j < length (ptab k) \<Longrightarrow> p_parent (ptab k' ! j) = p_parent (ptab k ! j)"
    "j < length (ptab k) \<Longrightarrow> p_pid (ptab k' ! j) = p_pid (ptab k ! j)" "initproc k' = initproc k" "cur k' = cur k"
proof -
  have m: "map (\<lambda>p. (p_parent p, p_pid p)) (ptab k') = map (\<lambda>p. (p_parent p, p_pid p)) (ptab k)" using assms by (simp add: lineage_def)
  then show l: "length (ptab k') = length (ptab k)" using map_eq_imp_length_eq by blast
  have "(p_parent (ptab k' ! j), p_pid (ptab k' ! j)) = (p_parent (ptab k ! j), p_pid (ptab k ! j))" if "j < length (ptab k)" for j
    using arg_cong [OF m, of "\<lambda>xs. xs ! j"] that l by simp
  then show "j < length (ptab k) \<Longrightarrow> p_parent (ptab k' ! j) = p_parent (ptab k ! j)" "j < length (ptab k) \<Longrightarrow> p_pid (ptab k' ! j) = p_pid (ptab k ! j)" by auto
qed (use assms in \<open>simp_all add: lineage_def\<close>)

text \<open>The end of \<open>kexit\<close>, after the working directory has been given up.\<close>

lemma exit_finish:
  assumes K: "kinv no_debt k1" and L: "lineage k k1" and i: "i < length (ptab k1)" "p_ofile (ptab k1 ! i) = replicate NOFILE None"
    and ni: "initproc k \<noteq> Some i"
  defines "k2 \<equiv> reparent i (kproc i (\<lambda>p. p\<lparr>p_cwd := None\<rparr>) k1)"
  defines "k3 \<equiv> wakeup (map_option Proc_chan (p_parent (ptab k2 ! i))) k2"
  shows "exited i st k ((kproc i (\<lambda>p. p\<lparr>p_xstate := st, p_state := ZOMBIE\<rparr>) k3)\<lparr>cur := None\<rparr>)"
proof -
  let ?k = "kproc i (\<lambda>p. p\<lparr>p_cwd := None\<rparr>) k1"
  note L' = lineage_nth [OF L]
  have F0: "frame k1 ?k" by (auto simp: frame_refl pcore_def)
  have R0: "runs ?k" by (rule frame_runs [OF kinvD(1) [OF K] F0])
  have nth: "ptab ?k ! j = (if j = i then (ptab k1 ! i)\<lparr>p_cwd := None\<rparr> else ptab k1 ! j)" for j using i(1) by (simp add: kproc_nth)
  have "reparented i [0..<length (ptab ?k)] ?k k2" unfolding k2_def reparent_def
    using ni L'(4) by (intro reparent_loop_spec R0) simp_all
  note D = reparentedD [OF this, unfolded kproc_sel L'(4)]
  have F2: "frame k1 k2" unfolding k2_def by (rule reparent_frame [OF F0])
  have R2: "runs k2" by (rule frame_runs [OF kinvD(1) [OF K] F2])
  have F3: "frame k1 k3" unfolding k3_def by (rule frame_wakeup [OF F2])
  note W = wakeup_awake [OF R2, unfolded D(1)]
  have len: "length (ptab k3) = length (ptab k1)" by (simp add: k3_def D(1))
  note N = pcore_cong [OF frame_nth [OF F3 i(1)]]
  have pp: "p_parent (ptab ?k ! j) = p_parent (ptab k1 ! j)" for j by (simp add: nth)
  have par: "p_parent (ptab k2 ! j) = (if p_parent (ptab k ! j) = Some i then initproc k else p_parent (ptab k ! j))" if "j < length (ptab k1)" for j
    using D(4) [OF that, unfolded pp] that L'(1) L'(2) [of j] by simp
  have par3: "p_parent (ptab k3 ! j) = p_parent (ptab k2 ! j)" "p_cwd (ptab k3 ! j) = p_cwd (ptab k2 ! j)" if "j < length (ptab k1)" for j
    using W(3,4) [OF that] by (simp_all add: k3_def)
  have aw: "\<not> asleep_on (Proc_chan q) (ptab k3 ! q)"
    if q: "q < length (ptab k1)" and o: "p_parent (ptab k2 ! i) = Some q \<or> initproc k = Some q \<and> (\<exists>j<length (ptab k). p_parent (ptab k ! j) = Some i)" for q
    using o
  proof
    assume "p_parent (ptab k2 ! i) = Some q"
    then show ?thesis using W(1) [OF q] by (simp add: k3_def)
  next
    assume "initproc k = Some q \<and> (\<exists>j<length (ptab k). p_parent (ptab k ! j) = Some i)"
    then obtain j where j: "initproc k = Some q" "j < length (ptab k)" "p_parent (ptab k ! j) = Some i" by blast
    then have "p_parent (ptab ?k ! j) = Some i" using L'(2) [of j] by (simp add: pp)
    then have "\<not> asleep_on (Proc_chan q) (ptab k2 ! q)" using D(7) [OF q j(1), of j] j(2) L'(1) by simp
    then show ?thesis using W(2) [OF q] by (auto simp: k3_def)
  qed
  have aw': "\<not> asleep_on (Proc_chan q) (ptab (kproc i (\<lambda>p. p\<lparr>p_xstate := st, p_state := ZOMBIE\<rparr>) k3) ! q)"
    if "q < length (ptab k1)" "\<not> asleep_on (Proc_chan q) (ptab k3 ! q)" for q
    using that i(1) len by (auto simp: kproc_nth asleep_on_def)
  have cwd: "p_cwd (ptab k3 ! i) = None" using par3 [OF i(1)] D(5) [OF i(1)] by (simp add: nth)
  show ?thesis unfolding exited_def
    using aw' aw L'(1) par3 par len i N(3,4) L'(3) [of i] cwd by (simp add: kproc_nth) 
qed

lemma kexit_exited:
  assumes "kinv no_debt k" and "cur k = Some i"
  shows "ensures (kexit st k) (exited i st k)"
proof -
  have "ensures (kexit st k) (exited i st k)" if ni: "initproc k \<noteq> Some i"
  proof -
    have C: "ensures (close_files i [0..<NOFILE] k) (\<lambda>k1. kinv no_debt k1 \<and> lineage k k1 \<and> i < length (ptab k1) \<and> p_ofile (ptab k1 ! i) = replicate NOFILE None)"
      using close_all_kinv [OF assms] close_files_lineage [OF lineage_refl, of i "[0..<NOFILE]" k] by (auto simp: ensures_def)
    have X: "exited i st k ((kproc i (\<lambda>p. p\<lparr>p_xstate := st, p_state := ZOMBIE\<rparr>)
        (wakeup (map_option Proc_chan (p_parent (ptab (reparent i (kproc i (\<lambda>p. p\<lparr>p_cwd := None\<rparr>) (k1\<lparr>fss := s\<rparr>))) ! i)))
          (reparent i (kproc i (\<lambda>p. p\<lparr>p_cwd := None\<rparr>) (k1\<lparr>fss := s\<rparr>)))))\<lparr>cur := None\<rparr>)"
      if "kinv no_debt k1 \<and> lineage k k1 \<and> i < length (ptab k1) \<and> p_ofile (ptab k1 ! i) = replicate NOFILE None" for k1 s
      by (rule exit_finish) (use that ni in simp_all)
    show ?thesis unfolding kexit_def ensures_bind ensures_if Let_def
      apply (rule wp_myproc)
      subgoal premises c for i'
      proof -
        have e: "i' = i" using c assms(2) by simp
        show ?thesis unfolding e using ni
        by (auto intro!: ensures_weaken [OF C] X ensures_any [where m = "fs_begin_op a" for a] ensures_any [where m = "iput a b" for a b]
            ensures_any [where m = "fs_end_op a" for a] wp_myproc simp: in_fs_def split: option.splits)
      qed
      done
  qed
  moreover have "ensures (kexit st k) P" if "initproc k = Some i" for P using that assms(2) by (simp add: kexit_def myproc_def)
  ultimately show ?thesis by blast
qed

text \<open>
  C11. A process that exits becomes a zombie with its status and its pid, without open files and without a
  working directory; its children belong to \<open>init\<close>; its parent does not sleep in \<open>kwait\<close>
  any more, nor does \<open>init\<close> if it was given children; the CPU goes to the scheduler and the invariant
  holds.
\<close>

theorem kexit_leaves_zombie:
  assumes "kinv no_debt k" and "cur k = Some i"
  shows "ensures (kexit st k) (\<lambda>k'. exited i st k k' \<and> kinv no_debt k')"
  using kexit_exited [OF assms] kexit_kinv [OF assms(1)] by (simp add: ensures_def)

lemma drop_inode:
  assumes "lg s = reboot (\<lambda>_. replicate BSIZE 0)" and "i_nlink (ino s 0) \<noteq> 0"
  shows "bindE (fs_begin_op s) (\<lambda>s. bindE (iput 0 s) fs_end_op) = Inr (upd_ino 0 (\<lambda>i. i\<lparr>i_ref := i_ref i - 1\<rparr>) s)"
  using assms by (simp add: fs_begin_op_def begin_op_def reboot_def hdr iput_def fs_end_op_def end_op_def commit_def Let_def upd_ino_def)

theorem kexit_leaves_zombie_witness:
  "\<exists>k'. kexit 3 small_kernel = Inr k' \<and> exited 0 3 small_kernel k' \<and> kinv no_debt k'"
proof -
  have "\<exists>k'. kexit 3 small_kernel = Inr k'"
    by (simp add: kexit_def myproc_def NOFILE_def upt_rec fileclose_def shared_file_def in_fs_def drop_inode sample_root_def upd_ino_def sample_inode_def kproc_def Let_def)
  then show ?thesis using ensuresD [OF kexit_leaves_zombie [OF small_kernel_kinv, of 0 3]] by auto
qed


definition wait_kernel :: kernel where
  "wait_kernel = small_kernel\<lparr>ptab := [user_proc, user_proc\<lparr>p_pid := 3, p_parent := Some 0, p_state := ZOMBIE, p_ofile := replicate NOFILE None, p_pagetable := 0\<rparr>]\<rparr>"


section \<open>The memory quota\<close>

lemma printint10: "\<exists>bs. printint x 10 b = Inr bs"
  using printint_digs [of 10 _ b x] by auto

lemma quota_warning:
  assumes "terminated role"
  shows "\<exists>bs. printf ''[AGENT][warn] quota: pid=%d role=%s denied grow to %d pages (cap=%d)\<newline>'' [ANum a, AStr (Some role), ANum b, ANum c] = Inr bs"
proof -
  obtain x y z where "printint (as_int a) 10 True = Inr x" "printint (as_int b) 10 True = Inr y" "printint (as_int c) 10 True = Inr z"
    using printint10 by metis
  then show ?thesis using assms by (simp add: printf_def printf_loop.simps va_num_def va_str_def)
qed

text \<open>\<open>uvmalloc\<close> gives the new size or, out of memory, 0.\<close>

lemma uvmalloc_loop_size: "ensures (uvmalloc_loop m pt a oldsz newsz xperm) (\<lambda>(m', sz). sz = newsz \<or> sz = 0)"
proof (induction m pt a oldsz newsz xperm rule: uvmalloc_loop.induct)
  case (1 m pt a oldsz newsz xperm)
  obtain k mem where kal: "kalloc m = (k, mem)" by (cases "kalloc m")
  have "ensures (uvmalloc_loop k' pt (a + 4096) oldsz newsz xperm) (\<lambda>(m', sz). sz = newsz \<or> sz = 0)"
    if "a < newsz" "mem \<noteq> 0" "mappages (zero_page mem k) pt a 4096 mem (PTE_R OR PTE_U OR xperm) = Inr (k', r)" "r = 0" for k' r
    using 1 [OF that(1) kal [symmetric] refl that(2,3)] that(4) by simp
  then have "ensures (mappages (zero_page mem k) pt a 4096 mem (PTE_R OR PTE_U OR xperm))
      (\<lambda>(k', r). r = 0 \<longrightarrow> ensures (uvmalloc_loop k' pt (a + 4096) oldsz newsz xperm) (\<lambda>(m', sz). sz = newsz \<or> sz = 0))" if "a < newsz" "mem \<noteq> 0"
    using that by (auto simp: ensures_def)
  then show ?case
    by (subst uvmalloc_loop.simps)
      (auto simp: kal Let_def intro!: ensures_any [where m = "uvmdealloc a b c e" for a b c e] ensures_any [where m = "kfree a b" for a b] elim!: ensures_weaken)
qed



section \<open>Killed processes and faults\<close>

definition user_ok :: "nat \<Rightarrow> kernel \<times> trap_end \<Rightarrow> bool" where
  "user_ok i = (\<lambda>(k', e). case e of To_user satp \<Rightarrow> \<not> killed i k' \<and> satp = MAKE_SATP (p_pagetable (ptab k' ! i)) | To_scheduler \<Rightarrow> True)"

lemma user_ok_scheduler [simp]: "user_ok i (k', To_scheduler)"
  by (simp add: user_ok_def)

lemma set_reg_ptab [simp]: "ptab (set_reg i off v k) = ptab k" "cur (set_reg i off v k) = cur k"
  by (simp_all add: set_reg_def)

lemma usertrap_tail_ok: "ensures (usertrap_tail ut t i w k) (user_ok i)"
  by (auto simp: usertrap_tail_def user_ok_def prepare_return_def killed_def intro!: ensures_any [where m = "kexit st k" for st k] ensures_any [where m = "yield k" for k])

lemma usertrap_user_ok:
  assumes "cur k = Some i"
  shows "ensures (usertrap ut j t k) (user_ok i)"
  using assms unfolding usertrap_def
  by (auto simp: myproc_def Let_def usertrap_tail_ok split: option.splits outcome.splits
      intro!: ensures_any [where m = "kexit st k" for st k] ensures_any [where m = "syscall j k" for j k] ensures_any [where m = "devintr t k" for t k]
        ensures_any [where m = "kprintf a k" for a k] ensures_any [where m = "vmfault a b c e" for a b c e])

lemma kexit_zombie:
  assumes "kinv no_debt k" and "cur k = Some i"
  shows "ensures (kexit st k) (\<lambda>k'. p_state (ptab k' ! i) = ZOMBIE \<and> p_xstate (ptab k' ! i) = st)"
  by (rule ensures_weaken [OF kexit_exited [OF assms]]) (simp add: exited_def Let_def)



section \<open>Checkpoints\<close>

lemma ucopyout_writable:
  assumes "cur k = Some i" and "uspace (km k) ps (mypt k i)" and "writable (km k) (mypt k i) va (length src)" and "length src < 2 ^ 64"
  shows "\<exists>m. ucopyout va src k = Inr (k\<lparr>km := m\<rparr>, 0) \<and> user_bytes m (mypt k i) va (length src) = src"
proof -
  obtain m where m: "copyout (p_sz (ptab k ! i), mypt k i) (km k) (mypt k i) va src = Inr (m, 0)" "upage m (mypt k i) = upage (km k) (mypt k i)"
    "\<forall>v a. user_addr (km k) (mypt k i) v = Some a \<longrightarrow> phys m a = (if unat (v - va) < length src then src ! unat (v - va) else phys (km k) a)"
    using copyout_writable [OF assms(2-4)] by blast
  then show ?thesis using written_bytes [OF assms(3,4) m(2,3)] assms(1) by (intro exI [of _ m]) (simp add: ucopyout_def myproc_def Let_def)
qed

text \<open>
  C35. \<open>restore\<close> gives back what \<open>checkpoint\<close> saved: whatever happens in between, as long as the saved
  checkpoint is still the current one, a process with the same pid gets the bytes it saved, and a process with another
  pid gets nothing, its memory included.
\<close>

theorem checkpoint_restore_roundtrip:
  assumes "cur k = Some i" and "argaddr 0 k = Inr src" and "argint 1 k = Inr len" and "0 < len" and "len \<le> 256"
    and "user_mapped (km k) (p_pagetable (ptab k ! i)) src (nat len)"
    and "cur k2 = Some j" and "argaddr 0 k2 = Inr dst" and "argint 1 k2 = Inr len2" and "len \<le> len2"
    and "uspace (km k2) ps (p_pagetable (ptab k2 ! j))" and "writable (km k2) (p_pagetable (ptab k2 ! j)) dst (nat len)"
  shows "\<exists>k1. sys_checkpoint k = Inr (k1, Done len) \<and>
    (ckpt k2 = ckpt k1 \<longrightarrow>
      (if p_pid (ptab k2 ! j) = p_pid (ptab k ! i)
       then \<exists>k3. sys_restore k2 = Inr (k3, Done len) \<and>
         user_bytes (km k3) (p_pagetable (ptab k2 ! j)) dst (nat len) = user_bytes (km k) (p_pagetable (ptab k ! i)) src (nat len)
       else sys_restore k2 = Inr (k2, Done 0)))"
proof -
  let ?bs = "user_bytes (km k) (p_pagetable (ptab k ! i)) src (nat len)"
  define c where "c = \<lparr>ckpt_len = len, ckpt_owner = p_pid (ptab k ! i), ckpt_buf = ?bs @ drop (nat len) (ckpt_buf (ckpt k))\<rparr>"
  have "sys_checkpoint k = Inr (k\<lparr>ckpt := c\<rparr>, Done len)"
    using assms(1-5) ucopyin_mapped [OF assms(1,6)] by (simp add: sys_checkpoint_def myproc_def c_def CKPT_MAX_def)
  moreover have "if p_pid (ptab k2 ! j) = p_pid (ptab k ! i)
       then \<exists>k3. sys_restore k2 = Inr (k3, Done len) \<and> user_bytes (km k3) (p_pagetable (ptab k2 ! j)) dst (nat len) = ?bs
       else sys_restore k2 = Inr (k2, Done 0)" if "ckpt k2 = c"
  proof (cases "p_pid (ptab k2 ! j) = p_pid (ptab k ! i)")
    case True
    have "length ?bs = nat len" "nat len < 2 ^ 64" using assms(5) by simp_all
    then obtain m where "ucopyout dst ?bs k2 = Inr (k2\<lparr>km := m\<rparr>, 0)" "user_bytes m (p_pagetable (ptab k2 ! j)) dst (nat len) = ?bs"
      using ucopyout_writable [OF assms(7), of ps dst ?bs] assms(11,12) by auto
    then show ?thesis using True that assms(4,7-10) by (simp add: sys_restore_def myproc_def c_def Let_def)
  next
    case False
    then show ?thesis using that assms(4,7-10) by (simp add: sys_restore_def myproc_def c_def Let_def)
  qed
  ultimately show ?thesis by auto
qed

text \<open>A process whose trapframe holds the arguments \<open>0x5ABC\<close> and 2.\<close>

definition ckpt_mem :: mem where
  "ckpt_mem = store64 (store64 sample_mem (slot 0x80007000 14) 0x5ABC) (slot 0x80007000 15) 2"

definition ckpt_kernel :: kernel where
  "ckpt_kernel = sample_kernel\<lparr>ptab := [sample_proc\<lparr>p_trapframe := 0x80007000\<rparr>], km := sample_user\<lparr>phys := ckpt_mem\<rparr>\<rparr>"

lemma ckpt_kernel_sel [simp]:
  "cur ckpt_kernel = Some 0" "ptab ckpt_kernel = [sample_proc\<lparr>p_trapframe := 0x80007000\<rparr>]" "km ckpt_kernel = sample_user\<lparr>phys := ckpt_mem\<rparr>"
  by (simp_all add: ckpt_kernel_def sample_kernel_def)

lemma ckpt_args: "load64 ckpt_mem 0x80007070 = 0x5ABC" "load64 ckpt_mem 0x80007078 = 2"
proof -
  have "entry ckpt_mem 0x80007000 14 = 0x5ABC" "entry ckpt_mem 0x80007000 15 = 2"
    using sample_aligned by (simp_all add: ckpt_mem_def entry_store)
  then show "load64 ckpt_mem 0x80007070 = 0x5ABC" "load64 ckpt_mem 0x80007078 = 2" by (simp_all add: entry_def slot_def)
qed

lemma ckpt_space:
  "uspace (sample_user\<lparr>phys := ckpt_mem\<rparr>) [] 0x80001000" "writable (sample_user\<lparr>phys := ckpt_mem\<rparr>) 0x80001000 0x5ABC 2"
proof -
  have "ckpt_mem x = phys sample_user x" if "\<not> in_page 0x80007000 x" for x
    using that by (simp add: ckpt_mem_def sample_user_def store64_outside)
  then have U: "uspace (sample_user\<lparr>phys := ckpt_mem\<rparr>) [] 0x80001000 \<and> upage (sample_user\<lparr>phys := ckpt_mem\<rparr>) 0x80001000 = upage sample_user 0x80001000 \<and>
      vmap (sample_user\<lparr>phys := ckpt_mem\<rparr>) 0x80001000 = vmap sample_user 0x80001000"
    by (rule uspace_store [OF sample_uspace sample_5000])
  then show "uspace (sample_user\<lparr>phys := ckpt_mem\<rparr>) [] 0x80001000" by simp
  show "writable (sample_user\<lparr>phys := ckpt_mem\<rparr>) 0x80001000 0x5ABC 2"
    using sample_writable U by (simp add: writable_def user_mapped_def user_addr_upage)
qed

lemma ckpt_arg_values:
  assumes "cur k = Some 0" and "ptab k = ptab ckpt_kernel" and "km k = km ckpt_kernel"
  shows "argaddr 0 k = Inr 0x5ABC" and "argint 1 k = Inr 2"
  using assms ckpt_args by (simp_all add: argaddr_def argint_def argraw_def myproc_def TF_a0_def)

theorem checkpoint_restore_roundtrip_witness:
  "\<exists>k1 k3. sys_checkpoint ckpt_kernel = Inr (k1, Done 2) \<and> sys_restore k1 = Inr (k3, Done 2) \<and>
    user_bytes (km k3) 0x80001000 0x5ABC 2 = user_bytes (km ckpt_kernel) 0x80001000 0x5ABC 2"
proof -
  have m: "user_mapped (km ckpt_kernel) 0x80001000 0x5ABC 2" using ckpt_space(2) by (simp add: writable_def)
  define k1 where "k1 = ckpt_kernel\<lparr>ckpt := \<lparr>ckpt_len = 2, ckpt_owner = 7,
    ckpt_buf = user_bytes (km ckpt_kernel) 0x80001000 0x5ABC 2 @ drop 2 (ckpt_buf (ckpt ckpt_kernel))\<rparr>\<rparr>"
  have A: "argaddr 0 ckpt_kernel = Inr 0x5ABC" "argint 1 ckpt_kernel = Inr 2" by (rule ckpt_arg_values; simp)+
  have B: "argaddr 0 k1 = Inr 0x5ABC" "argint 1 k1 = Inr 2" by (rule ckpt_arg_values; simp add: k1_def)+
  have c: "sys_checkpoint ckpt_kernel = Inr (k1, Done 2)"
    using A ucopyin_mapped [of ckpt_kernel 0 "0x5ABC" 2] m
    by (simp add: sys_checkpoint_def CKPT_MAX_def myproc_def k1_def) (simp add: sample_proc_def)
  have "\<exists>k1'. sys_checkpoint ckpt_kernel = Inr (k1', Done 2) \<and>
    (ckpt k1 = ckpt k1' \<longrightarrow>
      (if p_pid (ptab k1 ! 0) = p_pid (ptab ckpt_kernel ! 0)
       then \<exists>k3. sys_restore k1 = Inr (k3, Done 2) \<and>
         user_bytes (km k3) (p_pagetable (ptab k1 ! 0)) 0x5ABC (nat 2) = user_bytes (km ckpt_kernel) (p_pagetable (ptab ckpt_kernel ! 0)) 0x5ABC (nat 2)
       else sys_restore k1 = Inr (k1, Done 0)))"
    by (rule checkpoint_restore_roundtrip [OF _ A _ _ _ _ B, where ps = "[]"]) (use m ckpt_space in \<open>simp_all add: k1_def\<close>)
  then show ?thesis using c by (auto simp: k1_def)
qed

end
