(* ===== verification/ULib.thy ===== *)
theory ULib
  imports CString
begin

text \<open>
  The C library of the user programs, \<open>user/ulib.c\<close>. As in \<open>CString\<close>, a pointer argument is the list of the bytes
  from the pointer to the end of the object. \<open>char\<close> is unsigned on RISC-V. \<open>memmove\<close> is used inside one array, so
  its pointers are offsets into it. Standard input is the list of the bytes still to come; a \<open>read\<close> of one byte
  returns 0 at its end.
\<close>

section \<open>Strings\<close>

fun strcpy :: "bytes \<Rightarrow> bytes \<Rightarrow> bytes res" where
  "strcpy (_ # s) (b # t) = (if b \<noteq> 0 then mapE ((#) b) (strcpy s t) else Inr (0 # s))"
| "strcpy _ _ = Inl OutOfBounds"

fun strcmp :: "bytes \<Rightarrow> bytes \<Rightarrow> int res" where
  "strcmp (a # p) (b # q) = (if a \<noteq> 0 \<and> a = b then strcmp p q else Inr (uint a - uint b))"
| "strcmp _ _ = Inl OutOfBounds"

text \<open>The offset of the first occurrence; \<open>None\<close> is the null pointer.\<close>

fun strchr :: "bytes \<Rightarrow> uchar \<Rightarrow> nat option res" where
  "strchr [] c = Inl OutOfBounds"
| "strchr (a # s) c = (if a = 0 then Inr None else if a = c then Inr (Some 0) else mapE (map_option Suc) (strchr s c))"

text \<open>\<open>n = n*10 + *s++ - '0'\<close> in 32 bits.\<close>

fun atoi_from :: "bytes \<Rightarrow> uint \<Rightarrow> int res" where
  "atoi_from [] n = Inl OutOfBounds"
| "atoi_from (c # s) n = (if 48 \<le> c \<and> c \<le> 57 then atoi_from s (n * 10 + ucast c - 48) else Inr (sint n))"

definition atoi :: "bytes \<Rightarrow> int res" where
  "atoi s = atoi_from s 0"

section \<open>Blocks of bytes\<close>

fun move_fwd :: "bytes \<Rightarrow> nat \<Rightarrow> nat \<Rightarrow> nat \<Rightarrow> bytes res" where
  "move_fwd b dst src 0 = Inr b"
| "move_fwd b dst src (Suc n) =
     (if dst < length b \<and> src < length b then move_fwd (b[dst := b ! src]) (Suc dst) (Suc src) n else Inl OutOfBounds)"

fun move_bwd :: "bytes \<Rightarrow> nat \<Rightarrow> nat \<Rightarrow> nat \<Rightarrow> bytes res" where
  "move_bwd b dst src 0 = Inr b"
| "move_bwd b dst src (Suc n) =
     (if dst + n < length b \<and> src + n < length b then move_bwd (b[dst + n := b ! (src + n)]) dst src n else Inl OutOfBounds)"

definition memmove_in :: "bytes \<Rightarrow> nat \<Rightarrow> nat \<Rightarrow> nat \<Rightarrow> bytes res" where
  "memmove_in b dst src n = (if src > dst then move_fwd b dst src n else move_bwd b dst src n)"

section \<open>Input\<close>

text \<open>The loop of \<open>gets\<close> from \<open>i\<close>: the new buffer, the position of the NUL and the rest of the input.\<close>

fun gets_loop :: "bytes \<Rightarrow> nat \<Rightarrow> nat \<Rightarrow> bytes \<Rightarrow> (bytes \<times> nat \<times> bytes) res" where
  "gets_loop buf mx i [] = Inr (buf, i, [])"
| "gets_loop buf mx i (c # inp) =
     (if i + 1 < mx
      then if i < length buf
           then if c = 10 \<or> c = 13 then Inr (buf[i := c], Suc i, inp) else gets_loop (buf[i := c]) mx (Suc i) inp
           else Inl OutOfBounds
      else Inr (buf, i, c # inp))"

definition gets :: "bytes \<Rightarrow> nat \<Rightarrow> bytes \<Rightarrow> (bytes \<times> bytes) res" where
  "gets buf mx inp =
     bindE (gets_loop buf mx 0 inp) (\<lambda>(buf, i, inp). if i < length buf then Inr (buf[i := 0], inp) else Inl OutOfBounds)"

section \<open>Behaviour\<close>

lemma strchr_eq:
  "terminated s \<Longrightarrow> strchr s c =
     Inr (if c \<noteq> 0 \<and> c \<in> set (cstr s) then Some (length (takeWhile (\<lambda>b. b \<noteq> c) (cstr s))) else None)"
  by (induction s) auto

lemma strcmp_eq: "terminated p \<Longrightarrow> terminated q \<Longrightarrow> \<exists>r. strcmp p q = Inr r \<and> (r = 0 \<longleftrightarrow> cstr p = cstr q)"
  by (induction p q rule: strcmp.induct) (auto simp: uint_0_iff)

lemma strcpy_eq: "terminated t \<Longrightarrow> length (cstr t) < length s \<Longrightarrow> strcpy s t = Inr (cstr t @ 0 # drop (Suc (length (cstr t))) s)"
  by (induction s t rule: strcpy.induct) auto

text \<open>Both directions of \<open>memmove\<close> copy the old contents, whatever the overlap.\<close>

lemma move_fwd_eq:
  "dst < src \<Longrightarrow> src + n \<le> length b \<Longrightarrow> move_fwd b dst src n = Inr (take dst b @ take n (drop src b) @ drop (dst + n) b)"
proof (induction n arbitrary: b dst src)
  case 0
  then show ?case by simp
next
  case (Suc n)
  have "move_fwd b dst src (Suc n) = move_fwd (b[dst := b ! src]) (Suc dst) (Suc src) n" using Suc.prems by simp
  also have "\<dots> = Inr (take (Suc dst) (b[dst := b ! src]) @ take n (drop (Suc src) (b[dst := b ! src])) @ drop (Suc dst + n) (b[dst := b ! src]))"
    using Suc.prems by (intro Suc.IH) simp_all
  also have "take (Suc dst) (b[dst := b ! src]) = take dst b @ [b ! src]" using Suc.prems by (simp add: take_Suc_conv_app_nth)
  also have "take n (drop (Suc src) (b[dst := b ! src])) = take n (drop (Suc src) b)" using Suc.prems by (simp add: drop_update_cancel)
  also have "drop (Suc dst + n) (b[dst := b ! src]) = drop (dst + Suc n) b" by simp
  also have "(take dst b @ [b ! src]) @ take n (drop (Suc src) b) @ drop (dst + Suc n) b = take dst b @ take (Suc n) (drop src b) @ drop (dst + Suc n) b"
    using Suc.prems by (simp flip: Cons_nth_drop_Suc [of src b])
  finally show ?case by simp
qed

lemma move_bwd_eq:
  "src \<le> dst \<Longrightarrow> dst + n \<le> length b \<Longrightarrow> move_bwd b dst src n = Inr (take dst b @ take n (drop src b) @ drop (dst + n) b)"
proof (induction n arbitrary: b)
  case 0
  then show ?case by simp
next
  case (Suc n)
  let ?b = "b[dst + n := b ! (src + n)]"
  have "move_bwd b dst src (Suc n) = move_bwd ?b dst src n" using Suc.prems by simp
  also have "\<dots> = Inr (take dst ?b @ take n (drop src ?b) @ drop (dst + n) ?b)" using Suc.prems by (intro Suc.IH) simp_all
  also have "take n (drop src ?b) = take n (drop src b)" using Suc.prems by (intro nth_equalityI) (simp_all add: nth_list_update)
  also have "drop (dst + n) ?b = b ! (src + n) # drop (dst + Suc n) b" using Suc.prems Cons_nth_drop_Suc [of "dst + n" ?b] by simp
  also have "take n (drop src b) @ b ! (src + n) # drop (dst + Suc n) b = take (Suc n) (drop src b) @ drop (dst + Suc n) b"
    using Suc.prems by (simp add: take_Suc_conv_app_nth)
  finally show ?case by simp
qed

lemma memmove_in_eq:
  "src + n \<le> length b \<Longrightarrow> dst + n \<le> length b \<Longrightarrow> memmove_in b dst src n = Inr (take dst b @ take n (drop src b) @ drop (dst + n) b)"
  by (simp add: memmove_in_def move_fwd_eq move_bwd_eq)

end
