(* ===== verification/Grep.thy ===== *)
theory Grep
  imports ULib
begin

text \<open>
  \<open>user/grep.c\<close>: the regular expression matcher and the filter. The matcher is compared with the
  language of its pattern, and the filter, which reads into a buffer of 1024 bytes as much as \<open>read\<close> happens to
  deliver, with the list of the lines of its whole input. The input is the list of the bytes still to come; \<open>ks\<close> are the
  sizes that the system chooses for the successive reads.
\<close>

section \<open>The matcher\<close>

abbreviation star :: uchar where "star \<equiv> of_char (CHR ''*'')"
abbreviation dot :: uchar where "dot \<equiv> of_char (CHR ''.'')"
abbreviation dollar :: uchar where "dollar \<equiv> of_char (CHR ''$'')"
abbreviation caret :: uchar where "caret \<equiv> of_char (CHR ''^'')"
abbreviation nl :: uchar where "nl \<equiv> 10"

function matchhere :: "bytes \<Rightarrow> bytes \<Rightarrow> bool res" and matchstar :: "uchar \<Rightarrow> bytes \<Rightarrow> bytes \<Rightarrow> bool res" where
  "matchhere re text =
     (case re of
        [] \<Rightarrow> Inl OutOfBounds
      | r0 # re1 \<Rightarrow>
          if r0 = 0 then Inr True
          else (case re1 of
            [] \<Rightarrow> Inl OutOfBounds
          | r1 # re2 \<Rightarrow>
              if r1 = star then matchstar r0 re2 text
              else (case text of
                [] \<Rightarrow> Inl OutOfBounds
              | t # text' \<Rightarrow>
                  if r0 = dollar \<and> r1 = 0 then Inr (t = 0)
                  else if t \<noteq> 0 \<and> (r0 = dot \<or> r0 = t) then matchhere re1 text'
                  else Inr False)))"
| "matchstar c re text =
     bindE (matchhere re text) (\<lambda>m.
     if m then Inr True
     else (case text of
       [] \<Rightarrow> Inl OutOfBounds
     | t # text' \<Rightarrow> if t \<noteq> 0 \<and> (t = c \<or> c = dot) then matchstar c re text' else Inr False))"
  by pat_completeness auto
termination
  by (relation "measures [\<lambda>x. case x of Inl (re, t) \<Rightarrow> length re | Inr (c, re, t) \<Rightarrow> length re,
      \<lambda>x. case x of Inl (re, t) \<Rightarrow> length t | Inr (c, re, t) \<Rightarrow> length t,
      \<lambda>x. case x of Inl _ \<Rightarrow> 0 | Inr _ \<Rightarrow> 1]") auto

declare matchhere.simps [simp del] matchstar.simps [simp del]

text \<open>The search loop of \<open>match\<close>, and \<open>match\<close>.\<close>

fun match_from :: "bytes \<Rightarrow> bytes \<Rightarrow> bool res" where
  "match_from re text =
     bindE (matchhere re text) (\<lambda>m.
     if m then Inr True
     else (case text of [] \<Rightarrow> Inl OutOfBounds | t # text' \<Rightarrow> if t \<noteq> 0 then match_from re text' else Inr False))"

declare match_from.simps [simp del]

definition match :: "bytes \<Rightarrow> bytes \<Rightarrow> bool res" where
  "match re text =
     (case re of [] \<Rightarrow> Inl OutOfBounds | r0 # re1 \<Rightarrow> if r0 = caret then matchhere re1 text else match_from re text)"

section \<open>The language of a pattern\<close>

text \<open>A pattern is a list of characters, each alone or repeated, and a mark for the end of the line.\<close>

datatype item = One uchar | Star uchar

fun parse_re :: "bytes \<Rightarrow> item list \<times> bool" where
  "parse_re [] = ([], False)"
| "parse_re [r] = (if r = dollar then ([], True) else ([One r], False))"
| "parse_re (r # s # rs) =
     (if s = star then map_prod ((#) (Star r)) id (parse_re rs) else map_prod ((#) (One r)) id (parse_re (s # rs)))"

definition accepts :: "uchar \<Rightarrow> uchar \<Rightarrow> bool" where
  "accepts c t \<longleftrightarrow> c = dot \<or> c = t"

inductive in_lang :: "item list \<Rightarrow> bytes \<Rightarrow> bool" where
  lang_Nil: "in_lang [] []"
| lang_One: "accepts c t \<Longrightarrow> in_lang is w \<Longrightarrow> in_lang (One c # is) (t # w)"
| lang_stop: "in_lang is w \<Longrightarrow> in_lang (Star c # is) w"
| lang_more: "accepts c t \<Longrightarrow> in_lang (Star c # is) w \<Longrightarrow> in_lang (Star c # is) (t # w)"

inductive_simps in_lang_Nil [simp]: "in_lang [] w"
inductive_simps in_lang_One [simp]: "in_lang (One c # is) w"
inductive_simps in_lang_Star: "in_lang (Star c # is) w"

text \<open>A prefix of the text, or the whole text, is in the language.\<close>

definition prefix_match :: "item list \<times> bool \<Rightarrow> bytes \<Rightarrow> bool" where
  "prefix_match p text \<longleftrightarrow> (\<exists>w v. text = w @ v \<and> in_lang (fst p) w \<and> (snd p \<longrightarrow> v = []))"

definition re_match :: "bytes \<Rightarrow> bytes \<Rightarrow> bool" where
  "re_match re text \<longleftrightarrow>
     (if re \<noteq> [] \<and> hd re = caret then prefix_match (parse_re (tl re)) text
      else \<exists>u v. text = u @ v \<and> prefix_match (parse_re re) v)"

lemma prefix_Nil: "prefix_match ([], e) text \<longleftrightarrow> \<not> e \<or> text = []"
  by (auto simp: prefix_match_def)

lemma prefix_cases:
  "prefix_match (is, e) text \<longleftrightarrow>
     in_lang is [] \<and> (e \<longrightarrow> text = []) \<or> (\<exists>t v w u. text = t # v \<and> v = w @ u \<and> in_lang is (t # w) \<and> (e \<longrightarrow> u = []))"
proof -
  have "(\<exists>w v. text = w @ v \<and> P w v) \<longleftrightarrow> P [] text \<or> (\<exists>t v w u. text = t # v \<and> v = w @ u \<and> P (t # w) u)" for P
    by (auto simp: append_eq_Cons_conv Cons_eq_append_conv neq_Nil_conv) (metis append_Cons append_Nil neq_Nil_conv)+
  then show ?thesis by (simp add: prefix_match_def)
qed

lemma prefix_One: "prefix_match (One c # is, e) text \<longleftrightarrow> (\<exists>t v. text = t # v \<and> accepts c t \<and> prefix_match (is, e) v)"
  by (subst prefix_cases) (auto simp: prefix_match_def)

lemma prefix_Star:
  "prefix_match (Star c # is, e) text \<longleftrightarrow>
     prefix_match (is, e) text \<or> (\<exists>t v. text = t # v \<and> accepts c t \<and> prefix_match (Star c # is, e) v)"
proof -
  have S: "in_lang (Star c # is) w \<longleftrightarrow> in_lang is w \<or> (\<exists>t w'. w = t # w' \<and> accepts c t \<and> in_lang (Star c # is) w')" for w
    using in_lang_Star [of c "is" w] by blast
  have "prefix_match (Star c # is, e) text \<longleftrightarrow> prefix_match (is, e) text \<or>
    (\<exists>t v w u. text = t # v \<and> v = w @ u \<and> accepts c t \<and> in_lang (Star c # is) w \<and> (e \<longrightarrow> u = []))"
    unfolding prefix_cases [of "Star c # is"] prefix_cases [of "is"] S [of "[]"] S [of "_ # _"] by blast
  also have "\<dots> \<longleftrightarrow> prefix_match (is, e) text \<or> (\<exists>t v. text = t # v \<and> accepts c t \<and> prefix_match (Star c # is, e) v)"
    unfolding prefix_match_def [of "(Star c # is, e)"] fst_conv snd_conv by blast
  finally show ?thesis .
qed

text \<open>The matcher on strings: the pattern \<open>re\<close> and the text \<open>s\<close> without their NULs.\<close>

lemma matchhere_correct:
  "0 \<notin> set re \<Longrightarrow> 0 \<notin> set s \<Longrightarrow> matchhere (re @ 0 # x) (s @ 0 # y) = Inr (prefix_match (parse_re re) s)"
  "0 \<notin> set re \<Longrightarrow> 0 \<notin> set s \<Longrightarrow> matchstar c (re @ 0 # x) (s @ 0 # y) = Inr (prefix_match (Star c # fst (parse_re re), snd (parse_re re)) s)"
proof (induction "re @ 0 # x" "s @ 0 # y" and c "re @ 0 # x" "s @ 0 # y" arbitrary: re s and re s rule: matchhere_matchstar.induct)
  case 1
  show ?case
  proof (cases re)
    case Nil
    then show ?thesis by (simp add: matchhere.simps prefix_Nil)
  next
    case (Cons r0 re1)
    have r0: "r0 \<noteq> 0" "0 \<notin> set re1" using 1 Cons by auto
    have pick: "(case parse_re (r0 # re1) of p \<Rightarrow> prefix_match p s) \<longleftrightarrow>
        (\<exists>t v. s = t # v \<and> accepts r0 t \<and> prefix_match (parse_re re1) v)"
      if "re1 = [] \<and> r0 \<noteq> dollar \<or> (\<exists>r1 re2. re1 = r1 # re2 \<and> r1 \<noteq> star)"
      using that by (cases "parse_re re1") (auto simp: prefix_One)
    show ?thesis
    proof (cases re1)
      case Nil
      show ?thesis
      proof (cases s)
        case Nil
        then show ?thesis using r0 Cons \<open>re1 = []\<close> by (simp add: matchhere.simps prefix_Nil prefix_One)
      next
        case (Cons t v)
        have "matchhere (0 # x) (v @ 0 # y) = Inr True" by (simp add: matchhere.simps)
        then show ?thesis using r0 \<open>re = r0 # re1\<close> \<open>re1 = []\<close> Cons 1(4) matchhere.simps [of "r0 # 0 # x" "t # v @ 0 # y"]
          by (auto simp: prefix_Nil prefix_One accepts_def)
      qed
    next
      case r1: (Cons r1 re2)
      show ?thesis
      proof (cases "r1 = star")
        case True
        have "matchstar r0 (re2 @ 0 # x) (s @ 0 # y) = Inr (prefix_match (Star r0 # fst (parse_re re2), snd (parse_re re2)) s)"
          using 1 Cons r1 True r0 by simp
        then show ?thesis using Cons r1 True r0 by (cases "parse_re re2") (simp add: matchhere.simps)
      next
        case False
        have tail: "matchhere (re1 @ 0 # x) (v @ 0 # y) = Inr (prefix_match (parse_re re1) v)" if "s = t # v" "accepts r0 t" for t v
          using 1 Cons r1 False r0 that by (auto simp: accepts_def)
        have r1': "r1 \<noteq> 0" using r0(2) r1 by simp
        have "prefix_match (parse_re re) s \<longleftrightarrow> (\<exists>t v. s = t # v \<and> accepts r0 t \<and> prefix_match (parse_re re1) v)"
          using pick r1 False Cons by simp
        then show ?thesis using Cons r1 False r0 r1' tail 1(4)
          by (cases s) (auto simp: matchhere.simps [of "r0 # r1 # re2 @ 0 # x"] accepts_def)
      qed
    qed
  qed
next
  case (2 c)
  have h: "matchhere (re @ 0 # x) (s @ 0 # y) = Inr (prefix_match (parse_re re) s)" using 2 by simp
  have t: "matchstar c (re @ 0 # x) (v @ 0 # y) = Inr (prefix_match (Star c # fst (parse_re re), snd (parse_re re)) v)"
    if "\<not> prefix_match (parse_re re) s" "s = t # v" "accepts c t" for t v
    using 2 that h by (auto simp: accepts_def)
  have P: "prefix_match (Star c # fst (parse_re re), snd (parse_re re)) s \<longleftrightarrow> prefix_match (parse_re re) s \<or>
      (\<exists>t v. s = t # v \<and> accepts c t \<and> prefix_match (Star c # fst (parse_re re), snd (parse_re re)) v)"
    using prefix_Star [of c "fst (parse_re re)" "snd (parse_re re)" s] by simp
  show ?case
    apply (subst matchstar.simps)
    apply (subst P)
    using h t 2 by (cases s) (auto simp: accepts_def)
qed

lemma match_from_correct:
  "0 \<notin> set re \<Longrightarrow> 0 \<notin> set s \<Longrightarrow> match_from (re @ 0 # x) (s @ 0 # y) = Inr (\<exists>u v. s = u @ v \<and> prefix_match (parse_re re) v)"
proof (induction s)
  case Nil
  then show ?case by (subst match_from.simps) (use matchhere_correct(1) [of re "[]" x y] in simp)
next
  case (Cons t s)
  have "(\<exists>u v. t # s = u @ v \<and> P v) \<longleftrightarrow> P (t # s) \<or> (\<exists>u v. s = u @ v \<and> P v)" for P
    by (auto simp: Cons_eq_append_conv)
  then show ?case using Cons matchhere_correct(1) [of re "t # s" x y] by (subst match_from.simps) auto
qed

lemma match_re:
  assumes "terminated re" and "terminated s"
  shows "match re s = Inr (re_match (cstr re) (cstr s))"
proof -
  obtain x y where xy: "re = cstr re @ 0 # x" "s = cstr s @ 0 # y" using assms terminated_split by metis
  have z: "0 \<notin> set (cstr re)" "0 \<notin> set (cstr s)" using cstr_nonzero by blast+
  show ?thesis
  proof (cases "cstr re")
    case Nil
    then show ?thesis using match_from_correct [OF z, of x y] xy z by (auto simp: match_def re_match_def split: list.splits)
  next
    case (Cons r re1)
    then have re: "re = r # re1 @ 0 # x" using xy by simp
    have "matchhere (re1 @ 0 # x) s = Inr (prefix_match (parse_re re1) (cstr s))"
      using matchhere_correct(1) [of re1 "cstr s" x y] z Cons xy(2) by simp
    moreover have "match_from (r # re1 @ 0 # x) s = Inr (\<exists>u v. cstr s = u @ v \<and> prefix_match (parse_re (r # re1)) v)"
      using match_from_correct [of "r # re1" "cstr s" x y] z Cons xy(2) by simp
    ultimately show ?thesis unfolding match_def re_match_def Cons by (simp add: re)
  qed
qed

section \<open>The filter\<close>

text \<open>
  \<open>read(fd, buf+m, sz)\<close>: at the end of the input or for no room it returns 0; otherwise at least one byte
  and at most \<open>sz\<close>, as many as the system chooses.
\<close>

definition read_sz :: "nat list \<Rightarrow> nat \<Rightarrow> bytes \<Rightarrow> nat" where
  "read_sz ks sz inp = min (min sz (length inp)) (max 1 (case ks of [] \<Rightarrow> sz | k # _ \<Rightarrow> k))"

definition BUFSZ :: nat where [hdr]: "BUFSZ = 1024"

text \<open>
  The loop over the lines in the buffer from \<open>p\<close>: the bytes written, the buffer, and where the last, incomplete
  line begins. The newline of a line that does not match is left overwritten.
\<close>

function grep_lines :: "bytes \<Rightarrow> bytes \<Rightarrow> nat \<Rightarrow> (bytes \<times> bytes \<times> nat) res" where
  "grep_lines pattern buf p =
     (if p > length buf then Inl OutOfBounds
      else bindE (strchr (drop p buf) nl) (\<lambda>q.
        case q of
          None \<Rightarrow> Inr ([], buf, p)
        | Some d \<Rightarrow>
            (let q = p + d; buf = buf[q := 0]
             in bindE (match pattern (drop p buf)) (\<lambda>m.
                let buf = (if m then buf[q := nl] else buf);
                    out = (if m then take (Suc q - p) (drop p buf) else [])
                in bindE (grep_lines pattern buf (Suc q)) (\<lambda>(out', buf, p). Inr (out @ out', buf, p))))))"
  by pat_completeness auto
termination
  by (relation "measure (\<lambda>(pattern, buf, p). Suc (length buf) - p)") auto

declare grep_lines.simps [simp del]

text \<open>One round: \<open>n\<close> new bytes are in the buffer; the lines in it are handled and the rest moves to the front.\<close>

definition grep_round :: "bytes \<Rightarrow> bytes \<Rightarrow> nat \<Rightarrow> bytes \<Rightarrow> (bytes \<times> bytes \<times> nat) res" where
  "grep_round pattern buf m new =
     (let buf = take m buf @ new @ drop (m + length new) buf; m = m + length new
      in if m < length buf
         then bindE (grep_lines pattern (buf[m := 0]) 0) (\<lambda>(out, buf, p).
              if m > 0 then bindE (memmove_in buf 0 p (m - p)) (\<lambda>buf. Inr (out, buf, m - p)) else Inr (out, buf, m))
         else Inl OutOfBounds)"

text \<open>The outer loop: what \<open>grep\<close> writes.\<close>

function grep :: "bytes \<Rightarrow> bytes \<Rightarrow> nat \<Rightarrow> nat list \<Rightarrow> bytes \<Rightarrow> bytes res" where
  "grep pattern buf m ks inp =
     (let n = read_sz ks (BUFSZ - m - 1) inp
      in if n = 0 then Inr []
         else bindE (grep_round pattern buf m (take n inp)) (\<lambda>(out, buf, m).
              bindE (grep pattern buf m (tl ks) (drop n inp)) (\<lambda>out'. Inr (out @ out'))))"
  by pat_completeness auto
termination
  by (relation "measure (\<lambda>(pattern, buf, m, ks, inp). length inp)") (auto simp: read_sz_def)

declare grep.simps [simp del]

section \<open>The filter prints the matching lines\<close>

text \<open>The complete lines of a sequence of bytes, and what follows the last newline.\<close>

lemma shorter_tl: "x \<in> set xs \<Longrightarrow> length (dropWhile P xs) - Suc 0 < length xs"
proof -
  assume "x \<in> set xs"
  then have "0 < length xs" by (cases xs) simp_all
  moreover have "length (dropWhile P xs) \<le> length xs" by (rule length_dropWhile_le)
  ultimately show ?thesis by linarith
qed

function lines :: "bytes \<Rightarrow> bytes list" where
  "lines xs = (if nl \<in> set xs then takeWhile (\<lambda>b. b \<noteq> nl) xs # lines (tl (dropWhile (\<lambda>b. b \<noteq> nl) xs)) else [])"
  by pat_completeness auto
termination
  by (relation "measure length") (auto intro!: shorter_tl)

function last_line :: "bytes \<Rightarrow> bytes" where
  "last_line xs = (if nl \<in> set xs then last_line (tl (dropWhile (\<lambda>b. b \<noteq> nl) xs)) else xs)"
  by pat_completeness auto
termination
  by (relation "measure length") (auto intro!: shorter_tl)

declare lines.simps [simp del] last_line.simps [simp del]

definition selected :: "bytes \<Rightarrow> bytes list \<Rightarrow> bytes" where
  "selected re ls = concat (map (\<lambda>l. l @ [nl]) (filter (re_match re) ls))"

lemma lines_Nil [simp]: "lines [] = []" and last_line_Nil [simp]: "last_line [] = []"
  by (simp_all add: lines.simps last_line.simps)

lemma lines_no_nl: "nl \<notin> set xs \<Longrightarrow> lines xs = []" "nl \<notin> set xs \<Longrightarrow> last_line xs = xs"
  by (simp_all add: lines.simps last_line.simps)

lemma while_nl:
  assumes "nl \<notin> set l"
  shows "takeWhile (\<lambda>b. b \<noteq> nl) (l @ nl # xs) = l" and "dropWhile (\<lambda>b. b \<noteq> nl) (l @ nl # xs) = nl # xs"
  using assms by (induction l) auto

lemma lines_step:
  assumes "nl \<notin> set l"
  shows "lines (l @ nl # xs) = l # lines xs" and "last_line (l @ nl # xs) = last_line xs"
  by (simp_all add: while_nl [OF assms] lines.simps [of "l @ nl # xs"] last_line.simps [of "l @ nl # xs"])

lemma split_nl:
  obtains "nl \<notin> set xs" | l ys where "nl \<notin> set l" "xs = l @ nl # ys"
  by (meson split_list_first)

lemma lines_append: "lines (xs @ ys) = lines xs @ lines (last_line xs @ ys)"
proof (induction "length xs" arbitrary: xs rule: less_induct)
  case less
  show ?case
  proof (cases rule: split_nl [of xs])
    case 1
    then show ?thesis by (simp add: lines_no_nl)
  next
    case (2 l zs)
    then show ?thesis using less [of zs] by (simp add: lines_step)
  qed
qed

lemma last_line_append: "last_line (xs @ ys) = last_line (last_line xs @ ys)"
proof (induction "length xs" arbitrary: xs rule: less_induct)
  case less
  show ?case
  proof (cases rule: split_nl [of xs])
    case 1
    then show ?thesis by (simp add: lines_no_nl)
  next
    case (2 l zs)
    then show ?thesis using less [of zs] by (simp add: lines_step)
  qed
qed

lemma last_line_set: "nl \<notin> set (last_line xs)" "set (last_line xs) \<subseteq> set xs"
proof -
  have "nl \<notin> set (last_line xs) \<and> set (last_line xs) \<subseteq> set xs"
  proof (induction "length xs" arbitrary: xs rule: less_induct)
    case less
    show ?case
    proof (cases rule: split_nl [of xs])
      case 1
      then show ?thesis by (simp add: lines_no_nl)
    next
      case (2 l zs)
      then show ?thesis using less [of zs] by (auto simp: lines_step)
    qed
  qed
  then show "nl \<notin> set (last_line xs)" "set (last_line xs) \<subseteq> set xs" by auto
qed

lemma selected_Cons: "selected re (l # ls) = (if re_match re l then l @ [nl] else []) @ selected re ls"
  by (simp add: selected_def)

lemma grep_lines_correct:
  assumes "terminated pattern" and "drop p buf = T @ 0 # rest" and "0 \<notin> set T" and "p \<le> length buf"
  shows "\<exists>buf' p'. grep_lines pattern buf p = Inr (selected (cstr pattern) (lines T), buf', p') \<and> length buf' = length buf \<and>
    p \<le> p' \<and> p' \<le> length buf \<and> drop p' buf' = last_line T @ 0 # rest"
  using assms(2-4)
proof (induction "length T" arbitrary: T buf p rule: less_induct)
  case less
  have "cstr (T @ 0 # rest) = T" using less.prems(2) by (rule cstr_append_NUL)
  then have q: "strchr (drop p buf) nl = Inr (if nl \<in> set T then Some (length (takeWhile (\<lambda>b. b \<noteq> nl) T)) else None)"
    using less.prems(1) by (simp add: strchr_eq)
  show ?case
  proof (cases rule: split_nl [of T])
    case 1
    then show ?thesis using q less.prems by (subst grep_lines.simps) (simp add: lines_no_nl selected_def)
  next
    case (2 l zs)
    define A where "A = take p buf"
    have lenA: "length A = p" using less.prems(3) by (simp add: A_def)
    have buf: "buf = A @ l @ nl # zs @ 0 # rest" using append_take_drop_id [of p buf] less.prems(1) 2(2) by (simp add: A_def)
    have z: "0 \<notin> set l" "0 \<notin> set zs" using less.prems(2) 2(2) by auto
    define m where "m = re_match (cstr pattern) l"
    define b2 where "b2 = A @ l @ (if m then nl else 0) # zs @ 0 # rest"
    have b1: "buf[p + length l := 0] = A @ l @ 0 # zs @ 0 # rest" by (simp add: buf list_update_append flip: lenA)
    have "match pattern (drop p (buf[p + length l := 0])) = Inr m"
      using match_re [OF assms(1), of "l @ 0 # zs @ 0 # rest"] cstr_append_NUL [OF z(1)] lenA unfolding b1 m_def by simp
    moreover have "buf[p + length l := nl] = b2" if m unfolding b2_def using lenA that by (simp add: buf list_update_append)
    moreover have "buf[p + length l := 0] = b2" if "\<not> m" unfolding b1 b2_def using that by simp
    moreover have "take (Suc (length l)) (drop p b2) = l @ [nl]" if m using that lenA by (simp add: b2_def)
    ultimately have step: "grep_lines pattern buf p =
        bindE (grep_lines pattern b2 (Suc (p + length l))) (\<lambda>(out', buf, p). Inr ((if m then l @ [nl] else []) @ out', buf, p))"
      using q 2 while_nl(1) [OF 2(1), of zs] less.prems(3) by (subst grep_lines.simps) (cases m; simp add: Let_def)
    have "\<exists>buf' p'. grep_lines pattern b2 (Suc (p + length l)) = Inr (selected (cstr pattern) (lines zs), buf', p') \<and> length buf' = length b2 \<and>
      Suc (p + length l) \<le> p' \<and> p' \<le> length b2 \<and> drop p' buf' = last_line zs @ 0 # rest"
      by (rule less.hyps) (use 2 z lenA in \<open>simp_all add: b2_def\<close>)
    moreover have "length b2 = length buf" by (simp add: b2_def buf)
    ultimately show ?thesis using step by (auto simp: 2(2) lines_step [OF 2(1)] selected_Cons m_def)
  qed
qed

lemma grep_round_correct:
  assumes "terminated pattern" and "m + length new < length buf" and "0 \<notin> set (take m buf)" and "0 \<notin> set new"
  shows "\<exists>buf' m'. grep_round pattern buf m new = Inr (selected (cstr pattern) (lines (take m buf @ new)), buf', m') \<and>
    length buf' = length buf \<and> m' \<le> length buf \<and> take m' buf' = last_line (take m buf @ new)"
proof -
  let ?T = "take m buf @ new"
  define b where "b = take m buf @ new @ drop (m + length new) buf"
  have len: "length b = length buf" "length ?T = m + length new" using assms(2) by (simp_all add: b_def)
  obtain c rest where c: "drop (m + length new) buf = c # rest" using assms(2) by (cases "drop (m + length new) buf") auto
  have b0: "b[m + length new := 0] = ?T @ 0 # rest" using assms(2) by (simp add: b_def c list_update_append)
  have lb: "length buf = Suc (m + length new + length rest)" using arg_cong [OF c, of length] assms(2) by simp
  obtain buf' p' where g: "grep_lines pattern (b[m + length new := 0]) 0 = Inr (selected (cstr pattern) (lines ?T), buf', p')"
    "length buf' = length b" "p' \<le> length b" "drop p' buf' = last_line ?T @ 0 # rest"
    using grep_lines_correct [OF assms(1), of 0 "b[m + length new := 0]" ?T rest] assms(3,4) b0 len lb by auto
  have "length (drop p' buf') = length (last_line ?T) + Suc (length rest)" using g(4) by simp
  moreover have "length (drop (m + length new) buf) = Suc (length rest)" using c by simp
  ultimately have p': "length (last_line ?T) = m + length new - p'" "p' \<le> m + length new" using g(2,3) len assms(2) by auto
  have mv: "memmove_in buf' 0 p' (m + length new - p') = Inr (last_line ?T @ drop (m + length new - p') buf')"
    using memmove_in_eq [of p' "m + length new - p'" buf' 0] g p' len assms(2) by simp
  show ?thesis
  proof (cases "m + length new = 0")
    case True
    then have "?T = []" "p' = 0" using p' by auto
    moreover have "b = buf" using True by (simp add: b_def)
    ultimately show ?thesis using True g len assms(2) by (auto simp: grep_round_def Let_def)
  next
    case False
    have "take (m + length new - p') (last_line ?T @ drop (m + length new - p') buf') = last_line ?T" using p' by simp
    then show ?thesis using False g mv len assms(2) p'
      by (auto simp: grep_round_def Let_def b_def [symmetric])
  qed
qed

text \<open>Every line and the incomplete last one leave room in the buffer.\<close>

definition short_lines :: "bytes \<Rightarrow> bool" where
  "short_lines xs \<longleftrightarrow> (\<forall>l\<in>set (lines xs). length l < BUFSZ - 1) \<and> length (last_line xs) < BUFSZ - 1"

lemma short_prefix:
  assumes "short_lines (xs @ ys)" and "nl \<notin> set xs"
  shows "length xs < BUFSZ - 1"
proof (cases rule: split_nl [of ys])
  case 1
  then show ?thesis using assms by (simp add: short_lines_def lines_no_nl)
next
  case (2 l zs)
  then have "lines (xs @ ys) = (xs @ l) # lines zs" using lines_step(1) [of "xs @ l" zs] assms(2) by simp
  then show ?thesis using assms(1) by (simp add: short_lines_def)
qed

lemma grep_correct:
  assumes "terminated pattern"
  shows "length buf = BUFSZ \<Longrightarrow> m \<le> BUFSZ \<Longrightarrow> 0 \<notin> set (take m buf) \<Longrightarrow> nl \<notin> set (take m buf) \<Longrightarrow> 0 \<notin> set inp \<Longrightarrow>
    short_lines (take m buf @ inp) \<Longrightarrow> grep pattern buf m ks inp = Inr (selected (cstr pattern) (lines (take m buf @ inp)))"
proof (induction "length inp" arbitrary: buf m ks inp rule: less_induct)
  case less
  define n where "n = read_sz ks (BUFSZ - m - 1) inp"
  have m: "m < BUFSZ - 1" using short_prefix [OF less.prems(6,4)] less.prems(1,2) by simp
  show ?case
  proof (cases "inp = []")
    case True
    then show ?thesis using less.prems(4) by (subst grep.simps) (simp add: read_sz_def lines_no_nl selected_def)
  next
    case False
    have n: "0 < n" "m + n < BUFSZ" "n \<le> length inp" using False m by (auto simp: n_def read_sz_def)
    let ?new = "take n inp" and ?T = "take m buf @ take n inp"
    have ln: "length ?new = n" using n(3) by simp
    obtain buf' m' where r: "grep_round pattern buf m ?new = Inr (selected (cstr pattern) (lines ?T), buf', m')"
      "length buf' = length buf" "m' \<le> length buf" "take m' buf' = last_line ?T"
      using grep_round_correct [OF assms, of m ?new buf] less.prems n ln by (auto dest: in_set_takeD)
    have sp: "take m buf @ inp = ?T @ drop n inp" by simp
    have z: "0 \<notin> set (last_line ?T)" using last_line_set(2) [of ?T] less.prems(3,5) by (auto dest: in_set_takeD)
    have "short_lines (last_line ?T @ drop n inp)"
      using less.prems(6) lines_append [of ?T "drop n inp"] last_line_append [of ?T "drop n inp"] by (simp add: short_lines_def)
    then have "grep pattern buf' m' (tl ks) (drop n inp) = Inr (selected (cstr pattern) (lines (take m' buf' @ drop n inp)))"
      using less.prems r z n last_line_set(1) [of ?T] by (intro less.hyps) (auto dest: in_set_dropD)
    moreover have "selected re (a @ b) = selected re a @ selected re b" for re a b by (simp add: selected_def)
    ultimately show ?thesis using r(1,4) n(1) lines_append [of ?T "drop n inp"]
      unfolding grep.simps [of pattern buf m ks inp] n_def [symmetric] Let_def sp by simp
  qed
qed

text \<open>
  C22. \<open>grep\<close> writes exactly the complete lines of its input in which some part, or a prefix after \<open>^\<close>, is in the
  language of the pattern, up to the end of the line after \<open>$\<close>, in order and with their newlines, however the
  reads cut the input into pieces, if the lines are shorter than the buffer and there is no NUL in the input.
\<close>

theorem grep_prints_matching_lines:
  assumes "terminated pattern" and "length buf = 1024" and "0 \<notin> set inp" and "short_lines inp"
  shows "grep pattern buf 0 ks inp = Inr (concat (map (\<lambda>l. l @ [10]) (filter (re_match (cstr pattern)) (lines inp))))"
  using grep_correct [OF assms(1), of buf 0 inp ks] assms(2-4) by (simp add: BUFSZ_def selected_def)

text \<open>
  C29. The matcher decides the language of the pattern: it terminates on every pattern and text, stays inside both
  strings, and finds a match exactly when there is one.
\<close>

theorem match_decides_language:
  assumes "terminated re" and "terminated s"
  shows "match re s = Inr (if cstr re \<noteq> [] \<and> hd (cstr re) = caret then prefix_match (parse_re (tl (cstr re))) (cstr s)
    else \<exists>u v. cstr s = u @ v \<and> prefix_match (parse_re (cstr re)) v)"
  using match_re [OF assms] by (simp add: re_match_def)

theorem match_decides_language_witness:
  "match (lit ''^a.*c$'') (lit ''abbc'') = Inr (prefix_match (parse_re (bytes_of ''a.*c$'')) (bytes_of ''abbc''))"
  using match_decides_language [of "lit ''^a.*c$''" "lit ''abbc''"] by (simp add: bytes_of_def)

theorem grep_prints_matching_lines_witness:
  "grep (lit ''b'') (replicate 1024 0) 0 [2, 1] (bytes_of ''ab'' @ [10] @ bytes_of ''cd'' @ [10]) =
    Inr (concat (map (\<lambda>l. l @ [10]) (filter (re_match (bytes_of ''b'')) [bytes_of ''ab'', bytes_of ''cd''])))"
proof -
  have l: "lines (bytes_of ''ab'' @ [10] @ bytes_of ''cd'' @ [10]) = [bytes_of ''ab'', bytes_of ''cd'']"
    "last_line (bytes_of ''ab'' @ [10] @ bytes_of ''cd'' @ [10]) = []"
    using lines_step [of "bytes_of ''ab''" "bytes_of ''cd'' @ [10]"] lines_step [of "bytes_of ''cd''" "[]"] by (simp_all add: bytes_of_def)
  have "short_lines (bytes_of ''ab'' @ [10] @ bytes_of ''cd'' @ [10])" unfolding short_lines_def l by (simp add: bytes_of_def BUFSZ_def)
  then show ?thesis using grep_prints_matching_lines [of "lit ''b''" "replicate 1024 0" "bytes_of ''ab'' @ [10] @ bytes_of ''cd'' @ [10]" "[2, 1]"]
    unfolding l by (simp add: bytes_of_def)
qed

end
