(* ===== verification/Proxy.thy ===== *)
theory Proxy
  imports ULib Cache Printf
begin

text \<open>
  \<open>user/proxy_client.h\<close>: the protocol by which an agent asks the host for an answer over the console. A request is one
  line \<open>PROXY_REQ <tab> pid <tab> role <tab> prompt\<close>, a response one line \<open>PROXY_RES <tab> pid <tab> result\<close>; other lines are
  ignored. The result of \<open>getpid\<close> is an argument, the console input is the list of the bytes still to
  come, and what is written is part of the result. A buffer on the stack is given with its previous contents.
\<close>

definition PROXY_REQ_TAG :: bytes where "PROXY_REQ_TAG = bytes_of ''PROXY_REQ''"
definition PROXY_RES_TAG :: bytes where "PROXY_RES_TAG = bytes_of ''PROXY_RES''"

abbreviation tab :: uchar where "tab \<equiv> 9"
abbreviation lf :: uchar where "lf \<equiv> 10"

section \<open>Sending\<close>

text \<open>\<open>buf[(*pos)++] = c\<close>, with the bounds of the array.\<close>

definition put :: "uchar \<Rightarrow> bytes \<times> nat \<Rightarrow> (bytes \<times> nat) res" where
  "put c bp = (case bp of (buf, pos) \<Rightarrow> if pos < length buf then Inr (buf[pos := c], Suc pos) else Inl OutOfBounds)"

function int_digits :: "nat \<Rightarrow> nat \<Rightarrow> bytes" where
  "int_digits v n = (if 0 < v \<and> n < 12 then (48 + of_nat (v mod 10)) # int_digits (v div 10) (Suc n) else [])"
  by pat_completeness auto
termination by (relation "measure fst") auto

declare int_digits.simps [simp del]

primrec put_all :: "bytes \<Rightarrow> bytes \<times> nat \<Rightarrow> (bytes \<times> nat) res" where
  "put_all [] bp = Inr bp"
| "put_all (c # cs) bp = bindE (put c bp) (put_all cs)"

definition proxy_append_int :: "int \<Rightarrow> bytes \<times> nat \<Rightarrow> (bytes \<times> nat) res" where
  "proxy_append_int v bp =
     bindE (if v < 0 then put (of_char (CHR ''-'')) bp else Inr bp) (\<lambda>bp.
     let v = nat \<bar>v\<bar>
     in put_all (rev (if v = 0 then [48] else int_digits v 0)) bp)"

fun proxy_append_str :: "nat \<Rightarrow> bytes \<Rightarrow> bytes \<times> nat \<Rightarrow> (bytes \<times> nat) res" where
  "proxy_append_str mx [] bp = Inl OutOfBounds"
| "proxy_append_str mx (c # s) bp =
     (if c \<noteq> 0 \<and> snd bp < mx - 1 then bindE (put c bp) (proxy_append_str mx s) else Inr bp)"

text \<open>The result is the return value and the bytes written to the console; a null pointer is \<open>None\<close>.\<close>

definition proxy_send :: "int \<Rightarrow> bytes \<Rightarrow> int \<Rightarrow> bytes option \<Rightarrow> bytes option \<Rightarrow> (int \<times> bytes) res" where
  "proxy_send fd buf0 pid role prompt =
     (case (role, prompt) of
        (Some role, Some prompt) \<Rightarrow>
          if fd < 0 then Inr (-1, [])
          else bindE (proxy_append_str 640 (PROXY_REQ_TAG @ [0]) (buf0, 0)) (\<lambda>bp.
               bindE (put tab bp) (\<lambda>bp.
               bindE (proxy_append_int pid bp) (\<lambda>bp.
               bindE (put tab bp) (\<lambda>bp.
               bindE (proxy_append_str 640 role bp) (\<lambda>bp.
               bindE (put tab bp) (\<lambda>bp.
               bindE (proxy_append_str 640 prompt bp) (\<lambda>bp.
               bindE (put lf bp) (\<lambda>(buf, pos). Inr (0, take pos buf)))))))))
      | _ \<Rightarrow> Inr (-1, []))"

section \<open>Receiving\<close>

text \<open>\<open>_proxy_parse_int\<close>: the value, in 32 bits, and the number of digits.\<close>

fun proxy_parse_int :: "bytes \<Rightarrow> nat \<Rightarrow> uint \<Rightarrow> (uint \<times> nat) res" where
  "proxy_parse_int s 0 v = Inr (v, 0)"
| "proxy_parse_int [] (Suc mx) v = Inl OutOfBounds"
| "proxy_parse_int (c # s) (Suc mx) v =
     (if 48 \<le> c \<and> c \<le> 57 then mapE (\<lambda>(v, n). (v, Suc n)) (proxy_parse_int s mx (v * 10 + (ucast c - 48))) else Inr (v, 0))"

text \<open>The payload of a line (without its NUL) that is a response to \<open>our\<close>.\<close>

definition response :: "int \<Rightarrow> bytes \<Rightarrow> bytes option res" where
  "response our line =
     (let taglen = length PROXY_RES_TAG
      in if length line > taglen + 1
         then bindE (memcmp line PROXY_RES_TAG taglen) (\<lambda>c.
              if c = 0 \<and> line ! taglen = tab
              then bindE (proxy_parse_int (drop (taglen + 1) line @ [0]) (length line - taglen - 1) 0) (\<lambda>(id, idlen).
                   if idlen \<noteq> 0 \<and> (line @ [0]) ! (taglen + 1 + idlen) = tab \<and> sint id = our
                   then Inr (Some (drop (taglen + 1 + idlen + 1) line)) else Inr None)
              else Inr None)
         else Inr None)"

text \<open>The loop of \<open>proxy_recv\<close>; \<open>None\<close> is the end of the input.\<close>

fun recv_loop :: "int \<Rightarrow> bytes \<Rightarrow> bytes \<Rightarrow> (bytes \<times> bytes) option res" where
  "recv_loop our line [] = Inr None"
| "recv_loop our line (c # inp) =
     (if c \<noteq> lf then recv_loop our (if length line < 511 then line @ [c] else line) inp
      else bindE (response our line) (\<lambda>r.
           case r of Some payload \<Rightarrow> Inr (Some (payload, inp)) | None \<Rightarrow> recv_loop our [] inp))"

definition proxy_recv :: "int \<Rightarrow> int \<Rightarrow> bytes \<Rightarrow> int \<Rightarrow> bytes \<Rightarrow> (int \<times> bytes \<times> bytes) res" where
  "proxy_recv fd our out outmax inp =
     (if fd < 0 \<or> outmax \<le> 0 then Inr (-1, out, inp)
      else bindE (recv_loop our [] inp) (\<lambda>r.
           case r of
             None \<Rightarrow> Inr (-1, out, [])
           | Some (payload, inp) \<Rightarrow>
               (let plen = min (length payload) (nat outmax - 1)
                in if plen < length out then Inr (int plen, take plen payload @ 0 # drop (Suc plen) out, inp)
                   else Inl OutOfBounds)))"

text \<open>\<open>proxy_readline\<close>: one line of at most \<open>max - 1\<close> bytes.\<close>

fun readline_loop :: "bytes \<Rightarrow> nat \<Rightarrow> bytes \<Rightarrow> bytes \<times> bytes" where
  "readline_loop line mx [] = (line, [])"
| "readline_loop line mx (c # inp) =
     (if c = lf then (line, inp) else readline_loop (if length line < mx - 1 then line @ [c] else line) mx inp)"

definition proxy_readline :: "bytes option \<Rightarrow> nat \<Rightarrow> bytes \<Rightarrow> (int \<times> bytes option \<times> bytes) res" where
  "proxy_readline buf mx inp =
     (case buf of
        None \<Rightarrow> Inr (-1, None, inp)
      | Some b \<Rightarrow>
          if mx \<le> 1 then Inr (-1, buf, inp)
          else (case readline_loop [] mx inp of (line, inp) \<Rightarrow>
            if length line < length b then Inr (int (length line), Some (line @ 0 # drop (Suc (length line)) b), inp)
            else Inl OutOfBounds))"

section \<open>A call\<close>

text \<open>
  The system calls \<open>cacheget\<close> and \<open>cacheset\<close> as the caller sees them: a role of 16 or a prompt of 256 characters does not
  fit the buffers of the kernel and makes the call return -1. \<open>kbuf\<close>, \<open>role0\<close> and \<open>val0\<close> are arrays on the kernel stack.
\<close>

definition cacheget :: "bytes \<Rightarrow> bytes \<Rightarrow> bytes \<Rightarrow> bytes \<Rightarrow> int \<Rightarrow> slots \<times> fsstate \<Rightarrow> ((slots \<times> fsstate) \<times> bytes \<times> int) res" where
  "cacheget kbuf role prompt out outmax st =
     (if length (cstr role) \<ge> 16 \<or> length (cstr prompt) \<ge> 256 then Inr (st, out, -1)
      else bindE (cache_get (cstr role @ [0]) (cstr prompt @ [0]) (Some kbuf) (int CACHE_VALLEN) st) (\<lambda>(st, kout, hit).
        if hit \<noteq> 0 \<and> outmax > 0
        then (let n = (if outmax < int CACHE_VALLEN then nat outmax else CACHE_VALLEN)
              in if n \<le> length out then Inr (st, take n (the kout) @ drop n out, hit) else Inl OutOfBounds)
        else Inr (st, out, hit)))"

definition cacheset :: "bytes \<Rightarrow> bytes \<Rightarrow> bytes \<Rightarrow> bytes \<Rightarrow> bytes \<Rightarrow> slots \<times> fsstate \<Rightarrow> ((slots \<times> fsstate) \<times> int) res" where
  "cacheset role0 val0 role prompt val st =
     (if length (cstr role) \<ge> 16 \<or> length (cstr prompt) \<ge> 256 \<or> length (cstr val) \<ge> CACHE_VALLEN then Inr (st, -1)
      else cache_set role0 val0 (cstr role @ [0]) (cstr prompt @ [0]) (cstr val @ [0]) st)"

record agent_io =
  a_cache :: "slots \<times> fsstate"
  a_in :: bytes
  a_out :: bytes

record call_junk =
  cj_kbuf :: bytes
  cj_role :: bytes
  cj_val :: bytes
  cj_req :: bytes
  cj_hit :: bytes

text \<open>
  \<open>proxy_call\<close> of the process \<open>pid\<close>. \<open>proxylock\<close> keeps other agents from the console between the
  request and the response; it has no other effect.
\<close>

definition proxy_call :: "call_junk \<Rightarrow> int \<Rightarrow> int \<Rightarrow> bytes \<Rightarrow> bytes \<Rightarrow> bytes \<Rightarrow> int \<Rightarrow> agent_io \<Rightarrow> (int \<times> bytes \<times> agent_io) res" where
  "proxy_call j fd pid role prompt out outmax io =
     bindE (cacheget (cj_kbuf j) role prompt out outmax (a_cache io)) (\<lambda>(st, out, hit).
     let io = io\<lparr>a_cache := st\<rparr>
     in if hit \<noteq> 0
        then bindE (if fd \<ge> 0
                    then bindE (proxy_append_str 64 (bytes_of ''CACHE_HIT'' @ [tab, 0]) (cj_hit j, 0)) (\<lambda>bp.
                         bindE (proxy_append_str 64 role bp) (\<lambda>bp.
                         bindE (put lf bp) (\<lambda>(hb, pos). Inr (io\<lparr>a_out := a_out io @ take pos hb\<rparr>))))
                    else Inr io) (\<lambda>io.
             bindE (strlen out) (\<lambda>n. Inr (int n, out, io)))
        else bindE (proxy_send fd (cj_req j) pid (Some role) (Some prompt)) (\<lambda>(r, req).
             if r < 0 then Inr (-1, out, io)
             else bindE (proxy_recv fd pid out outmax (a_in io)) (\<lambda>(r, out, inp).
                  let io = io\<lparr>a_in := inp, a_out := a_out io @ req\<rparr>
                  in if r \<ge> 0
                     then bindE (cacheset (cj_role j) (cj_val j) role prompt out (a_cache io)) (\<lambda>(st, _). Inr (r, out, io\<lparr>a_cache := st\<rparr>))
                     else Inr (r, out, io))))"

section \<open>The frames of the protocol\<close>

text \<open>The first bytes of a buffer of \<open>N\<close> bytes have been written.\<close>

definition holds :: "nat \<Rightarrow> bytes \<Rightarrow> bytes \<times> nat \<Rightarrow> bool" where
  "holds N w bp \<longleftrightarrow> length (fst bp) = N \<and> snd bp = length w \<and> take (length w) (fst bp) = w"

lemma put_holds: "holds N w bp \<Longrightarrow> length w < N \<Longrightarrow> \<exists>bp'. put c bp = Inr bp' \<and> holds N (w @ [c]) bp'"
  by (cases bp) (auto simp: holds_def put_def take_Suc_conv_app_nth)

lemma put_all_holds: "holds N w bp \<Longrightarrow> length w + length cs \<le> N \<Longrightarrow> \<exists>bp'. put_all cs bp = Inr bp' \<and> holds N (w @ cs) bp'"
proof (induction cs arbitrary: w bp)
  case Nil
  then show ?case by simp
next
  case (Cons c cs)
  obtain bp' where b: "put c bp = Inr bp'" "holds N (w @ [c]) bp'" using put_holds [OF Cons.prems(1)] Cons.prems(2) by fastforce
  show ?case using Cons.IH [OF b(2)] Cons.prems(2) b(1) by simp
qed

lemma append_str_holds:
  "terminated s \<Longrightarrow> mx \<le> N \<Longrightarrow> holds N w bp \<Longrightarrow>
    \<exists>bp'. proxy_append_str mx s bp = Inr bp' \<and> holds N (w @ take (mx - 1 - length w) (cstr s)) bp'"
proof (induction s arbitrary: w bp)
  case Nil
  then show ?case by simp
next
  case (Cons c s)
  show ?case
  proof (cases "c \<noteq> 0 \<and> length w < mx - 1")
    case True
    obtain bp' where b: "put c bp = Inr bp'" "holds N (w @ [c]) bp'" using put_holds [OF Cons.prems(3)] Cons.prems(2) True by fastforce
    have "mx - 1 - length w = Suc (mx - 1 - length (w @ [c]))" using True by auto
    then show ?thesis using Cons.IH [OF _ _ b(2)] Cons.prems b(1) True by (simp add: holds_def)
  next
    case False
    then show ?thesis using Cons.prems by (cases bp) (auto simp: holds_def)
  qed
qed

definition dec :: "nat \<Rightarrow> bytes" where
  "dec n = map (\<lambda>d. 48 + of_nat d) (rev (digs 10 n))"

lemma int_digits_digs: "0 < v \<Longrightarrow> v < 10 ^ (12 - n) \<Longrightarrow> int_digits v n = map (\<lambda>d. 48 + of_nat d) (digs 10 v)"
proof (induction v arbitrary: n rule: less_induct)
  case (less v)
  have n: "n < 12" using less.prems by (cases "n < 12") auto
  show ?case
  proof (cases "v div 10 = 0")
    case True
    then show ?thesis using n less.prems by (simp add: int_digits.simps [of v] int_digits.simps [of 0] digs.simps [of 10 v])
  next
    case False
    have "12 - n = Suc (12 - Suc n)" using n by simp
    then have "v div 10 < 10 ^ (12 - Suc n)" using less.prems(2) by (simp add: less_mult_imp_div_less mult.commute)
    then have "int_digits (v div 10) (Suc n) = map (\<lambda>d. 48 + of_nat d) (digs 10 (v div 10))"
      using False by (intro less.IH) auto
    then show ?thesis using n less.prems(1) False by (simp add: int_digits.simps [of v n] digs.simps [of 10 v])
  qed
qed

lemma length_dec: "n < 2 ^ 31 \<Longrightarrow> length (dec n) \<le> 10"
  using length_digs [of 10 n 10] by (simp add: dec_def)

lemma append_int_holds:
  assumes "holds N w bp" and "0 \<le> v" and "v < 2 ^ 31" and "length w + 10 \<le> N"
  shows "\<exists>bp'. proxy_append_int v bp = Inr bp' \<and> holds N (w @ dec (nat v)) bp'"
proof -
  have "rev (if nat v = 0 then [48] else int_digits (nat v) 0) = dec (nat v)"
    using int_digits_digs [of "nat v" 0] assms(2,3) by (simp add: dec_def rev_map digs.simps [of 10 0])
  moreover have "length (dec (nat v)) \<le> 10" using assms(2,3) by (intro length_dec) simp
  ultimately show ?thesis using put_all_holds [OF assms(1), of "dec (nat v)"] assms(2,4)
    by (simp add: proxy_append_int_def Let_def)
qed

lemma holds_start: "holds (length buf) [] (buf, 0)"
  by (simp add: holds_def)

lemma holds_take: "holds N w (buf, pos) \<Longrightarrow> take pos buf = w"
  by (simp add: holds_def)

definition req_head :: "int \<Rightarrow> bytes \<Rightarrow> bytes" where
  "req_head pid role = PROXY_REQ_TAG @ tab # dec (nat pid) @ tab # cstr role @ [tab]"

lemma length_req_tag [simp]: "length PROXY_REQ_TAG = 9"
  by (simp add: PROXY_REQ_TAG_def bytes_of_def)

lemma length_dec_int: "0 \<le> pid \<Longrightarrow> pid < 2 ^ 31 \<Longrightarrow> length (dec (nat pid)) \<le> 10"
  by (rule length_dec) simp

lemma send_prefix:
  assumes "length buf0 = 640" and "0 \<le> pid" and "pid < 2 ^ 31"
  shows "\<exists>b1 b2 b3 b4. proxy_append_str 640 (PROXY_REQ_TAG @ [0]) (buf0, 0) = Inr b1 \<and> put tab b1 = Inr b2 \<and>
    proxy_append_int pid b2 = Inr b3 \<and> put tab b3 = Inr b4 \<and> holds 640 (PROXY_REQ_TAG @ tab # dec (nat pid) @ [tab]) b4"
proof -
  have h0: "holds 640 [] (buf0, 0)" using holds_start [of buf0] assms(1) by simp
  have t: "terminated (PROXY_REQ_TAG @ [0])" "cstr (PROXY_REQ_TAG @ [0]) = PROXY_REQ_TAG"
    by (simp_all add: terminated_def PROXY_REQ_TAG_def bytes_of_def)
  obtain b1 where 1: "proxy_append_str 640 (PROXY_REQ_TAG @ [0]) (buf0, 0) = Inr b1" "holds 640 PROXY_REQ_TAG b1"
    using append_str_holds [OF t(1) _ h0, of 640] by (auto simp: t)
  obtain b2 where 2: "put tab b1 = Inr b2" "holds 640 (PROXY_REQ_TAG @ [tab]) b2" using put_holds [OF 1(2), of tab] by auto
  obtain b3 where 3: "proxy_append_int pid b2 = Inr b3" "holds 640 (PROXY_REQ_TAG @ tab # dec (nat pid)) b3"
    using append_int_holds [OF 2(2) assms(2,3)] by auto
  obtain b4 where 4: "put tab b3 = Inr b4" "holds 640 (PROXY_REQ_TAG @ tab # dec (nat pid) @ [tab]) b4"
    using put_holds [OF 3(2), of tab] length_dec_int [OF assms(2,3)] by auto
  show ?thesis using 1(1) 2(1) 3(1) 4 by blast
qed

lemma length_req_head:
  "0 \<le> pid \<Longrightarrow> pid < 2 ^ 31 \<Longrightarrow> length (cstr role) \<le> 610 \<Longrightarrow> length (req_head pid role) \<le> 632"
  using length_dec_int [of pid] by (simp add: req_head_def)

lemma proxy_send_builds:
  assumes "length buf0 = 640" and "0 \<le> pid" and "pid < 2 ^ 31" and "terminated role" and "length (cstr role) \<le> 610"
    and "terminated prompt" and "0 \<le> fd"
  shows "proxy_send fd buf0 pid (Some role) (Some prompt) =
           Inr (0, req_head pid role @ take (639 - length (req_head pid role)) (cstr prompt) @ [lf])"
proof -
  obtain b1 b2 b3 b4 where b: "proxy_append_str 640 (PROXY_REQ_TAG @ [0]) (buf0, 0) = Inr b1" "put tab b1 = Inr b2"
    "proxy_append_int pid b2 = Inr b3" "put tab b3 = Inr b4"
    and h4: "holds 640 (PROXY_REQ_TAG @ tab # dec (nat pid) @ [tab]) b4" using send_prefix [OF assms(1-3)] by blast
  note d = length_dec_int [OF assms(2,3)]
  obtain b5 where 5: "proxy_append_str 640 role b4 = Inr b5" "holds 640 (PROXY_REQ_TAG @ tab # dec (nat pid) @ tab # cstr role) b5"
    using append_str_holds [OF assms(4) _ h4, of 640] d assms(5) by auto
  obtain b6 where 6: "put tab b5 = Inr b6" and h6: "holds 640 (req_head pid role) b6"
    using put_holds [OF 5(2), of tab] d assms(5) by (auto simp: req_head_def)
  let ?w = "req_head pid role @ take (639 - length (req_head pid role)) (cstr prompt)"
  obtain b7 where 7: "proxy_append_str 640 prompt b6 = Inr b7" "holds 640 ?w b7"
    using append_str_holds [OF assms(6) _ h6, of 640] by auto
  have "length ?w < 640" using length_req_head [OF assms(2,3,5)] by simp
  then obtain b8 where 8: "put lf b7 = Inr b8" "holds 640 (?w @ [lf]) b8" using put_holds [OF 7(2)] by blast
  obtain buf pos where b8: "b8 = (buf, pos)" by (cases b8)
  show ?thesis using assms(7) holds_take [of 640 "?w @ [lf]" buf pos] 8 unfolding b8
    by (simp add: proxy_send_def b 5(1) 6 7(1))
qed

text \<open>
  A request is one frame: with a role of at most 610 characters the bytes written to the console are the tag, the pid in
  decimal, the role and as much of the prompt as the 640 byte buffer has room for, separated by tabs and
  ended by a newline, and nothing is written beyond the buffer.
\<close>

theorem proxy_send_frame:
  assumes "length buf0 = 640" and "0 \<le> pid" and "pid < 2 ^ 31" and "terminated role" and "length (cstr role) \<le> 610"
    and "terminated prompt" and "0 \<le> fd"
  shows "proxy_send fd buf0 pid (Some role) (Some prompt) =
           Inr (0, req_head pid role @ take (639 - length (req_head pid role)) (cstr prompt) @ [lf])"
  by (rule proxy_send_builds [OF assms])

theorem proxy_send_frame_witness:
  "proxy_send 3 (replicate 640 0) 12 (Some (lit ''fixer'')) (Some (lit ''why'')) = Inr (0, bytes_of ''PROXY_REQ'' @ [9, 49, 50, 9] @ bytes_of ''fixer'' @ [9] @ bytes_of ''why'' @ [10])"
proof -
  have "req_head 12 (lit ''fixer'') = bytes_of ''PROXY_REQ'' @ [9, 49, 50, 9] @ bytes_of ''fixer'' @ [9]"
    by (simp add: req_head_def PROXY_REQ_TAG_def dec_def digs.simps lit_def bytes_of_def)
  then show ?thesis using proxy_send_frame [of "replicate 640 0" 12 "lit ''fixer''" "lit ''why''" 3]
    by (simp add: lit_def bytes_of_def)
qed

text \<open>A role that fills the buffer is not rejected: the terminating newline is written beyond it.\<close>

lemma proxy_send_long_role:
  assumes "length buf0 = 640" and "0 \<le> pid" and "pid < 2 ^ 31" and "terminated role" and "length (cstr role) \<ge> 640"
    and "terminated prompt" and "0 \<le> fd"
  shows "proxy_send fd buf0 pid (Some role) (Some prompt) = Inl OutOfBounds"
proof -
  obtain b1 b2 b3 b4 where b: "proxy_append_str 640 (PROXY_REQ_TAG @ [0]) (buf0, 0) = Inr b1" "put tab b1 = Inr b2"
    "proxy_append_int pid b2 = Inr b3" "put tab b3 = Inr b4"
    and h4: "holds 640 (PROXY_REQ_TAG @ tab # dec (nat pid) @ [tab]) b4" using send_prefix [OF assms(1-3)] by blast
  note d = length_dec_int [OF assms(2,3)]
  obtain b5 w where 5: "proxy_append_str 640 role b4 = Inr b5" "holds 640 w b5" "length w = 639"
    using append_str_holds [OF assms(4) _ h4, of 640] d assms(5) by auto
  obtain b6 where 6: "put tab b5 = Inr b6" "holds 640 (w @ [tab]) b6"
    using put_holds [OF 5(2), of tab] 5(3) by auto
  obtain b7 where 7: "proxy_append_str 640 prompt b6 = Inr b7" "holds 640 (w @ [tab]) b7"
    using append_str_holds [OF assms(6) _ 6(2), of 640] 5(3) by auto
  have "put lf b7 = Inl OutOfBounds" using 7(2) 5(3) by (cases b7) (simp add: holds_def put_def)
  then show ?thesis using assms(7) by (simp add: proxy_send_def b 5 6 7)
qed

section \<open>Which lines are responses\<close>

definition is_digit :: "uchar \<Rightarrow> bool" where
  "is_digit c \<longleftrightarrow> 48 \<le> c \<and> c \<le> 57"

definition dec_val :: "uint \<Rightarrow> bytes \<Rightarrow> uint" where
  "dec_val v ds = foldl (\<lambda>v c. v * 10 + (ucast c - 48)) v ds"

text \<open>A line answers \<open>our\<close> when it is the tag, a non-empty decimal number of that value and the payload, separated by tabs.\<close>

definition addressed :: "int \<Rightarrow> bytes \<Rightarrow> bytes \<Rightarrow> bool" where
  "addressed our line p \<longleftrightarrow> (\<exists>ds. line = PROXY_RES_TAG @ tab # ds @ tab # p \<and> ds \<noteq> [] \<and> list_all is_digit ds \<and> sint (dec_val 0 ds) = our)"

lemma length_res_tag [simp]: "length PROXY_RES_TAG = 9"
  by (simp add: PROXY_RES_TAG_def bytes_of_def)

lemma parse_int_eq:
  "proxy_parse_int (l @ [0]) (length l) v = Inr (dec_val v (takeWhile is_digit l), length (takeWhile is_digit l))"
  by (induction l arbitrary: v) (auto simp: dec_val_def is_digit_def)

lemma takeWhile_digits: "list_all is_digit ds \<Longrightarrow> takeWhile is_digit (ds @ tab # p) = ds"
  by (induction ds) (auto simp: is_digit_def)

lemma response_total:
  "\<exists>r. response our line = Inr r \<and> (\<forall>p. r = Some p \<longleftrightarrow> addressed our line p)"
proof (cases "length line > 10 \<and> take 9 line = PROXY_RES_TAG \<and> line ! 9 = tab")
  case True
  define l where "l = drop 10 line"
  have line: "line = PROXY_RES_TAG @ tab # l"
    using True id_take_nth_drop [of 9 line] by (simp add: l_def)
  let ?ds = "takeWhile is_digit l"
  obtain c where "memcmp line PROXY_RES_TAG 9 = Inr c" "c = 0"
    using memcmp_zero [of 9 line PROXY_RES_TAG] True by auto
  then have r: "response our line = Inr (if ?ds \<noteq> [] \<and> (l @ [0]) ! length ?ds = tab \<and> sint (dec_val 0 ?ds) = our
      then Some (drop (Suc (length ?ds)) l) else None)"
    using True parse_int_eq [of l 0] by (simp add: response_def Let_def line nth_append)
  have split: "(l @ [0]) ! length ?ds = tab \<longleftrightarrow> (\<exists>q. l = ?ds @ tab # q)"
  proof
    assume a: "(l @ [0]) ! length ?ds = tab"
    then have "length ?ds < length l" using length_takeWhile_le [of is_digit l] by (auto simp: nth_append split: if_splits)
    then show "\<exists>q. l = ?ds @ tab # q"
      using a takeWhile_eq_take [of is_digit l] id_take_nth_drop [of "length ?ds" l] by (auto simp: nth_append)
  next
    assume "\<exists>q. l = ?ds @ tab # q"
    then obtain q where "l = ?ds @ tab # q" ..
    then have "(l @ [0]) ! length ?ds = (?ds @ tab # q @ [0]) ! length ?ds" by (metis append_Cons append_assoc)
    then show "(l @ [0]) ! length ?ds = tab" by simp
  qed
  have "(?ds \<noteq> [] \<and> (\<exists>q. l = ?ds @ tab # q) \<and> sint (dec_val 0 ?ds) = our \<and> drop (Suc (length ?ds)) l = p) \<longleftrightarrow> addressed our line p" for p
  proof
    assume a: "?ds \<noteq> [] \<and> (\<exists>q. l = ?ds @ tab # q) \<and> sint (dec_val 0 ?ds) = our \<and> drop (Suc (length ?ds)) l = p"
    then obtain q where q: "l = ?ds @ tab # q" by blast
    have "drop (Suc (length ?ds)) l = q" by (subst q) simp
    moreover have "list_all is_digit ?ds" by (auto simp: list_all_iff dest: set_takeWhileD)
    ultimately show "addressed our line p" using a q unfolding addressed_def line by (intro exI [of _ ?ds]) auto
  next
    assume "addressed our line p"
    then obtain ds where "l = ds @ tab # p" "ds \<noteq> []" "list_all is_digit ds" "sint (dec_val 0 ds) = our"
      by (auto simp: addressed_def line)
    then show "?ds \<noteq> [] \<and> (\<exists>q. l = ?ds @ tab # q) \<and> sint (dec_val 0 ?ds) = our \<and> drop (Suc (length ?ds)) l = p"
      by (simp add: takeWhile_digits)
  qed
  then show ?thesis unfolding r split by auto
next
  case False
  have "\<not> addressed our line p" for p
    using False by (auto simp: addressed_def nth_append Suc_le_eq)
  moreover have "response our line = Inr None"
  proof (cases "length line > 10")
    case True
    then obtain c where "memcmp line PROXY_RES_TAG 9 = Inr c" "c = 0 \<longleftrightarrow> take 9 line = PROXY_RES_TAG"
      using memcmp_zero [of 9 line PROXY_RES_TAG] by auto
    then show ?thesis using False True by (auto simp: response_def Let_def)
  qed (simp add: response_def)
  ultimately show ?thesis by auto
qed

lemma response_Some: "addressed our line p \<Longrightarrow> response our line = Inr (Some p)"
  using response_total [of our line] by auto

lemma response_None: "(\<And>p. \<not> addressed our line p) \<Longrightarrow> response our line = Inr None"
  using response_total [of our line] by (metis not_None_eq)

text \<open>Reading the lines before a newline.\<close>

lemma recv_line:
  "lf \<notin> set l \<Longrightarrow> length line \<le> 511 \<Longrightarrow> recv_loop our line (l @ lf # inp) =
     bindE (response our (take 511 (line @ l))) (\<lambda>r. case r of Some p \<Rightarrow> Inr (Some (p, inp)) | None \<Rightarrow> recv_loop our [] inp)"
proof (induction l arbitrary: line)
  case (Cons c l)
  show ?case
  proof (cases "length line < 511")
    case True
    then show ?thesis using Cons.prems Cons.IH [of "line @ [c]"] by simp
  next
    case False
    then show ?thesis using Cons.prems Cons.IH [of line] by simp
  qed
qed simp

definition wire :: "bytes list \<Rightarrow> bytes" where
  "wire ls = concat (map (\<lambda>l. l @ [lf]) ls)"

lemma recv_skips:
  "(\<And>l p. l \<in> set ls \<Longrightarrow> lf \<notin> set l \<and> \<not> addressed our (take 511 l) p) \<Longrightarrow> recv_loop our [] (wire ls @ inp) = recv_loop our [] inp"
proof (induction ls)
  case (Cons l ls)
  have "lf \<notin> set l" "response our (take 511 l) = Inr None"
    using Cons.prems [of l] by (auto intro: response_None)
  then show ?case using Cons recv_line [of l "[]" our "wire ls @ inp"] by (simp add: wire_def)
qed (simp add: wire_def)

section \<open>Round trip with the host\<close>

lemma less_10_cases: "(d::nat) < 10 \<Longrightarrow> d = 0 \<or> d = 1 \<or> d = 2 \<or> d = 3 \<or> d = 4 \<or> d = 5 \<or> d = 6 \<or> d = 7 \<or> d = 8 \<or> d = 9"
  by arith

lemma digit_ucast: "d < 10 \<Longrightarrow> (ucast (48 + of_nat d :: uchar) :: uint) = 48 + of_nat d"
  by (drule less_10_cases) auto

lemma digit_is_digit: "d < 10 \<Longrightarrow> is_digit (48 + of_nat d)"
  by (drule less_10_cases) (auto simp: is_digit_def)

lemma dec_val_digs: "\<forall>d\<in>set ds. d < 10 \<Longrightarrow> dec_val 0 (map (\<lambda>d. 48 + of_nat d) (rev ds)) = of_nat (dvalue 10 ds)"
  by (induction ds) (simp_all add: dec_val_def dvalue_def digit_ucast)

lemma dec_val_dec: "dec_val 0 (dec n) = of_nat n"
  using dec_val_digs [of "digs 10 n"] digs_less [of 10 _ n] by (simp add: dec_def dvalue_digs)

lemma dec_digits: "list_all is_digit (dec n) \<and> dec n \<noteq> []"
  using digs_less [of 10 _ n] digs_canonical [of 10 n] by (auto simp: dec_def list_all_iff digit_is_digit)

lemma addressed_dec:
  assumes "0 \<le> our" and "our < 2 ^ 31"
  shows "addressed our (PROXY_RES_TAG @ tab # dec (nat our) @ tab # p) p"
proof -
  have "sint (of_nat (nat our) :: uint) = our"
    using assms by (simp add: sint_sbintrunc' signed_take_bit_int_eq_self)
  then show ?thesis using dec_digits [of "nat our"] unfolding addressed_def
    by (intro exI [of _ "dec (nat our)"]) (simp add: dec_val_dec)
qed

lemma recv_first:
  assumes "\<And>l p. l \<in> set others \<Longrightarrow> lf \<notin> set l \<and> \<not> addressed pid (take 511 l) p"
    and "0 \<le> pid" and "pid < 2 ^ 31" and "lf \<notin> set payload" and "length payload \<le> 490"
  shows "recv_loop pid [] (wire (others @ [PROXY_RES_TAG @ tab # dec (nat pid) @ tab # payload]) @ rest) = Inr (Some (payload, rest))"
proof -
  let ?f = "PROXY_RES_TAG @ tab # dec (nat pid) @ tab # payload"
  have f: "lf \<notin> set ?f" "length ?f \<le> 511"
    using dec_digits [of "nat pid"] assms(4,5) length_dec_int [OF assms(2,3)]
    by (auto simp: list_all_iff is_digit_def PROXY_RES_TAG_def bytes_of_def)
  have "recv_loop pid [] (wire (others @ [?f]) @ rest) = recv_loop pid [] (?f @ lf # rest)"
    using recv_skips [OF assms(1), of others "?f @ lf # rest"] by (simp add: wire_def)
  also have "\<dots> = Inr (Some (payload, rest))"
    using recv_line [OF f(1), of "[]" pid rest] f(2) response_Some [OF addressed_dec [OF assms(2,3)], of payload] by simp
  finally show ?thesis .
qed

text \<open>
  The responses are demultiplexed by process: whatever lines precede it (console noise, truncated lines, frames
  for other agents), the first frame that carries the pid of the caller is the one delivered. Its payload is
  copied up to the size of the caller's buffer and terminated, the return value is the number of bytes copied, and the
  input after that line is left for the next reader. At the end of the input the call returns -1.
\<close>

theorem proxy_recv_demux:
  assumes "\<And>l p. l \<in> set others \<Longrightarrow> lf \<notin> set l \<and> \<not> addressed pid (take 511 l) p"
    and "0 \<le> pid" and "pid < 2 ^ 31" and "lf \<notin> set payload" and "length payload \<le> 490"
    and "0 \<le> fd" and "0 < outmax" and "nat outmax \<le> length out"
  shows "(\<exists>out'. proxy_recv fd pid out outmax (wire (others @ [PROXY_RES_TAG @ tab # dec (nat pid) @ tab # payload]) @ rest) =
            Inr (int (min (length payload) (nat outmax - 1)), out', rest) \<and> length out' = length out \<and>
            take (Suc (min (length payload) (nat outmax - 1))) out' = take (nat outmax - 1) payload @ [0]) \<and>
         proxy_recv fd pid out outmax (wire others) = Inr (-1, out, [])"
proof -
  note r = recv_first [OF assms(1-5), where rest = rest]
  have e: "recv_loop pid [] (wire others) = Inr None" using recv_skips [OF assms(1), of others "[]"] by simp
  have "min (length payload) (nat outmax - 1) < length out" using assms(7,8) by auto
  then show ?thesis using assms(6,7) r e by (auto simp: proxy_recv_def Let_def min_def)
qed

theorem proxy_recv_demux_witness:
  "\<exists>out'. proxy_recv 3 12 (replicate 4 1) 4 (bytes_of ''$ '' @ [10] @ bytes_of ''PROXY_RES'' @ [9, 49, 50, 9] @ bytes_of ''fixed'' @ [10, 65]) =
      Inr (3, out', [65]) \<and> take 4 out' = bytes_of ''fix'' @ [0]"
proof -
  have a: "\<not> addressed 12 (take 511 (bytes_of ''$ '')) p" for p
    by (simp add: addressed_def bytes_of_def PROXY_RES_TAG_def)
  have d: "dec 12 = [49, 50]" by (simp add: dec_def digs.simps)
  show ?thesis using proxy_recv_demux [of "[bytes_of ''$ '']" 12 "bytes_of ''fixed''" 3 4 "replicate 4 1" "[65]"] a
    by (auto simp: d wire_def bytes_of_def PROXY_RES_TAG_def)
qed

section \<open>The host is asked once\<close>

lemma cstr_over: "terminated s \<Longrightarrow> length (cstr s) < n \<Longrightarrow> cstr (take n s @ r) = cstr s \<and> terminated (take n s @ r)"
  by (induction s arbitrary: n) (auto simp: take_Cons' split: if_splits)

lemma cstr_take_le: "length (cstr (take n s @ 0 # r)) \<le> n"
  by (induction s arbitrary: n) (auto simp: take_Cons split: nat.split)

lemma proxy_recv_out:
  assumes "proxy_recv fd our out outmax inp = Inr (r, out', inp')" and "0 \<le> r"
  shows "terminated out' \<and> length (cstr out') < nat outmax \<and> length out' = length out"
proof -
  have "0 < outmax" using assms by (auto simp: proxy_recv_def split: if_splits)
  then obtain payload n where "out' = take n payload @ 0 # drop (Suc n) out" "n \<le> nat outmax - 1" "n < length out" "n \<le> length payload"
    using assms by (auto simp: proxy_recv_def Let_def bindE_def split: if_splits option.splits sum.splits)
  then show ?thesis using cstr_take_le [of n payload "drop (Suc n) out"] \<open>0 < outmax\<close> by (auto simp: terminated_def)
qed

lemma cacheset_stored:
  assumes "slots_ok sl" and "\<exists>x\<in>set sl. c_key x = 0"
    and "length role0 = CACHE_ROLELEN" and "length val0 = CACHE_VALLEN"
    and "length (cstr role) < 16" and "length (cstr prompt) < 256" and "length (cstr val) < CACHE_VALLEN"
    and "cacheset role0 val0 role prompt val (sl, s) = Inr ((sl', s'), x)"
  shows "\<exists>k rec. cache_fnv1a (cstr role @ [0]) (cstr prompt @ [0]) = Inr k \<and> cache_map sl' k = Some rec \<and>
    cstr (c_val rec) = cstr val \<and> terminated (c_val rec)"
proof -
  have set: "cache_set role0 val0 (cstr role @ [0]) (cstr prompt @ [0]) (cstr val @ [0]) (sl, s) = Inr ((sl', s'), x)"
    using assms(5-8) by (simp add: cacheset_def)
  then have "x = 1" using assms(2)
    by (auto simp: cache_set_def Let_def find_idx_None bindE_def split: sum.splits if_splits)
  moreover have "terminated (cstr s @ [0])" for s by (simp add: terminated_def)
  ultimately have "\<exists>k rec. cache_fnv1a (cstr role @ [0]) (cstr prompt @ [0]) = Inr k \<and> k \<noteq> 0 \<and> cache_map sl' = (cache_map sl)(k \<mapsto> rec) \<and>
    cstr (c_val rec) = take (CACHE_VALLEN - 1) (cstr (cstr val @ [0])) \<and> terminated (c_val rec)"
    using cache_set_map [OF assms(1) _ _ _ assms(3,4)] set by blast
  moreover have "cstr (cstr val @ [0]) = cstr val" using cstr_nonzero [of 0 val] by (auto intro!: cstr_append_NUL)
  ultimately show ?thesis using assms(7) by (metis One_nat_def Suc_pred fun_upd_same less_Suc_eq_le take_all_iff zero_less_numeral CACHE_VALLEN_def)
qed

lemma hit_line:
  assumes "length hb = 64" and "terminated role" and "length (cstr role) < 16"
  shows "\<exists>b1 b2 b pos. proxy_append_str 64 (bytes_of ''CACHE_HIT'' @ [tab, 0]) (hb, 0) = Inr b1 \<and> proxy_append_str 64 role b1 = Inr b2 \<and>
    put lf b2 = Inr (b, pos) \<and> take pos b = bytes_of ''CACHE_HIT'' @ tab # cstr role @ [lf]"
proof -
  let ?t = "bytes_of ''CACHE_HIT'' @ [tab]"
  have h0: "holds 64 [] (hb, 0)" using holds_start [of hb] assms(1) by simp
  have t: "terminated (bytes_of ''CACHE_HIT'' @ [tab, 0])" "cstr (bytes_of ''CACHE_HIT'' @ [tab, 0]) = ?t" "length ?t = 10" "length (bytes_of ''CACHE_HIT'') = 9"
    by (simp_all add: bytes_of_def)
  obtain b1 where 1: "proxy_append_str 64 (bytes_of ''CACHE_HIT'' @ [tab, 0]) (hb, 0) = Inr b1" "holds 64 ?t b1"
    using append_str_holds [OF t(1) _ h0, of 64] by (auto simp: t(2,4))
  obtain b2 where 2: "proxy_append_str 64 role b1 = Inr b2" "holds 64 (?t @ cstr role) b2"
    using append_str_holds [OF assms(2) _ 1(2), of 64] assms(3) by (auto simp: t(4) simp del: append_assoc)
  obtain b pos where 3: "put lf b2 = Inr (b, pos)" "holds 64 ((?t @ cstr role) @ [lf]) (b, pos)"
    using put_holds [OF 2(2), of lf] t(4) assms(3) by auto
  show ?thesis using 1(1) 2(1) 3(1) holds_take [OF 3(2)] by (cases b2) auto
qed


lemma sample_scan: "cache_disk_scan role k q out n sample_root = Inr (sample_root, out, None)"
proof -
  obtain nm where sk: "skipelem CACHE_DISK_PATH (replicate DIRSIZ 0) = Inr (Some ([0], nm))"
    by (simp add: skipelem_def CACHE_DISK_PATH_def hdr)
  have hd: "hd CACHE_DISK_PATH = slash" by (simp add: CACHE_DISK_PATH_def)
  show ?thesis
    by (simp add: cache_disk_scan_def fs_begin_op_def begin_op_def sample_root_def reboot_def hdr namei_def namex_def
        iget_def upd_ino_def sample_inode_def namex_loop.simps [of False CACHE_DISK_PATH] sk [unfolded DIRSIZ_def] hd
        ilock_def acquiresleep_def initsleeplock_def dirlookup_def dirlookup_from.simps iunlockput_def iunlock_def
        holdingsleep_def releasesleep_def iput_def fs_end_op_def end_op_def Let_def commit_def)
qed

lemma sample_miss:
  assumes "length (cstr role) < 16" and "length (cstr prompt) < 256"
  shows "cacheget kbuf role prompt out n (sample_slots, sample_root) = Inr ((sample_slots, sample_root), out, 0)"
proof -
  have t: "terminated (cstr s @ [0])" for s by (simp add: terminated_def)
  obtain k sg where R: "cache_fnv1a (cstr role @ [0]) (cstr prompt @ [0]) = Inr k" "k \<noteq> 0" "cache_sig (cstr prompt @ [0]) = Inr sg"
    using set_record [OF t t t, of "replicate CACHE_ROLELEN 0" "replicate CACHE_VALLEN 0" role prompt] length_replicate by metis
  have "find_idx (\<lambda>x. c_key x = k) sample_slots = None" using R(2) by (simp add: find_idx_None sample_slots_def)
  moreover have "best_slot rl sg (replicate m \<lparr>c_key = 0, c_role = [], c_sig = [], c_val = []\<rparr>) b = Inr b" for rl m b
    by (induction m) simp_all
  ultimately show ?thesis using R assms sample_scan [of "cstr role @ [0]" k sg "Some kbuf"]
    by (simp add: cacheget_def cache_get_def sig_over_threshold_def hdr sample_slots_def)
qed

definition sample_junk :: call_junk where
  "sample_junk = \<lparr>cj_kbuf = replicate CACHE_VALLEN 0, cj_role = replicate CACHE_ROLELEN 0, cj_val = replicate CACHE_VALLEN 0,
     cj_req = replicate 640 0, cj_hit = replicate 64 0\<rparr>"

definition sample_io :: "bytes \<Rightarrow> agent_io" where
  "sample_io p = \<lparr>a_cache = (sample_slots, sample_root), a_in = wire [PROXY_RES_TAG @ tab # dec 12 @ tab # p], a_out = []\<rparr>"

lemma sample_call:
  assumes "terminated role" and "length (cstr role) < 16" and "terminated prompt" and "length (cstr prompt) < 256"
    and "0 \<notin> set p" and "lf \<notin> set p" and "length p < CACHE_VALLEN" and "length p < length out"
  shows "\<exists>io1. proxy_call sample_junk 3 12 role prompt out (int (length out)) (sample_io p) =
    Inr (int (length p), p @ 0 # drop (Suc (length p)) out, io1)"
proof -
  have t: "terminated (cstr s @ [0])" for s by (simp add: terminated_def)
  have p: "cstr (p @ 0 # drop (Suc (length p)) out) = p" using assms(5) by (rule cstr_append_NUL)
  obtain sl' where set: "cache_set (replicate CACHE_ROLELEN 0) (replicate CACHE_VALLEN 0) (cstr role @ [0]) (cstr prompt @ [0])
      (p @ [0]) (sample_slots, sample_root) = Inr ((sl', sample_root), 1)"
    using sample_set [OF t t, of "p @ [0]" role prompt] by (auto simp: terminated_def)
  have cs: "cacheset (replicate CACHE_ROLELEN 0) (replicate CACHE_VALLEN 0) role prompt
      (p @ 0 # drop (Suc (length p)) out) (sample_slots, sample_root) = Inr ((sl', sample_root), 1)"
    using set assms(2,4,7) unfolding cacheset_def p by simp
  obtain req where send: "proxy_send 3 (replicate 640 0) 12 (Some role) (Some prompt) = Inr (0, req)"
    using proxy_send_builds [of "replicate 640 0" 12 role prompt 3] assms(1-3) by simp
  have "recv_loop 12 [] (a_in (sample_io p)) = Inr (Some (p, []))"
    using recv_first [of "[]" 12 p "[]"] assms(6,7) by (simp add: sample_io_def hdr)
  then have recv: "proxy_recv 3 12 out (int (length out)) (a_in (sample_io p)) = Inr (int (length p), p @ 0 # drop (Suc (length p)) out, [])"
    using assms(8) by (auto simp: proxy_recv_def Let_def min_def)
  show ?thesis using sample_miss [OF assms(2,4), of "replicate CACHE_VALLEN 0" out "int (length out)"] send recv cs
    by (simp add: proxy_call_def Let_def sample_junk_def sample_io_def)
qed


text \<open>
  A prompt of 256 characters or more is refused by the system call \<open>cacheget\<close> with -1, which \<open>proxy_call\<close> takes for a hit:
  the host is not asked and whatever the caller's buffer held before is returned as the answer.
\<close>

lemma proxy_call_long_prompt:
  assumes "256 \<le> length (cstr prompt)" and "terminated out" and "terminated role" and "length (cstr role) < 16"
    and "length (cj_hit j) = 64" and "0 \<le> fd"
  shows "proxy_call j fd pid role prompt out outmax io =
    Inr (int (length (cstr out)), out, io\<lparr>a_out := a_out io @ bytes_of ''CACHE_HIT'' @ tab # cstr role @ [lf]\<rparr>)"
proof -
  obtain b1 b2 b pos where "proxy_append_str 64 (bytes_of ''CACHE_HIT'' @ [tab, 0]) (cj_hit j, 0) = Inr b1"
    "proxy_append_str 64 role b1 = Inr b2" "put lf b2 = Inr (b, pos)" "take pos b = bytes_of ''CACHE_HIT'' @ tab # cstr role @ [lf]"
    using hit_line [OF assms(5,3,4)] by blast
  then show ?thesis using assms(1,6) strlen_eq [OF assms(2)] by (simp add: proxy_call_def cacheget_def Let_def)
qed

end
