(* ===== verification/Evaluator.thy ===== *)
theory Evaluator
  imports Proxy Sysproc
begin

text \<open>
  \<open>user/evaluator.c\<close>: the agent that turns the diagnosis of a line into a fix proposal and negotiates it with the verifier of
  the kernel. It composes the proxy client (\<open>Proxy\<close>) with \<open>verify_fix\<close> and \<open>fill_snapshot\<close>; the process table
  seen by the verifier, its own pid and the previous contents of arrays on the stack are fields of \<open>eval_env\<close>. The checkpoint
  of the kernel is \<open>Some\<close> when it belongs to this process (see \<open>sys_checkpoint\<close>, \<open>sys_restore\<close>).
\<close>

section \<open>Helpers of the program\<close>

record eval_env =
  ev_junk :: call_junk
  ev_fd :: int
  ev_pid :: int
  ev_ps :: "proc list"
  ev_kreason :: bytes
  ev_buf :: bytes

record eval_st =
  e_io :: agent_io
  e_out :: bytes
  e_ckpt :: "fix_proposal option"
  e_prop :: fix_proposal
  e_base :: fix_proposal
  e_resp :: bytes
  e_last :: bytes
  e_reason :: bytes

text \<open>The two loops of \<open>emit\<close> are the ones of \<open>_proxy_append_str\<close> with the bound 640.\<close>

definition emit :: "eval_env \<Rightarrow> bytes \<Rightarrow> bytes \<Rightarrow> eval_st \<Rightarrow> eval_st res" where
  "emit env tag body e =
     bindE (proxy_append_str 640 tag (ev_buf env, 0)) (\<lambda>bp.
     bindE (proxy_append_str 640 body bp) (\<lambda>bp.
     bindE (put lf bp) (\<lambda>(buf, p). Inr (e\<lparr>e_out := e_out e @ take p buf\<rparr>))))"

fun starts_with :: "bytes \<Rightarrow> bytes \<Rightarrow> bool res" where
  "starts_with s [] = Inr True"
| "starts_with [] (e # es) = Inl OutOfBounds"
| "starts_with (c # s) (e # es) = (if c = e then starts_with s es else Inr False)"

fun quality_bad :: "bytes \<Rightarrow> bool res" where
  "quality_bad [] = Inl OutOfBounds"
| "quality_bad (c # s) =
     (if c = 0 then Inr False
      else bindE (starts_with (c # s) (bytes_of ''ERROR'')) (\<lambda>b. if b then Inr True else quality_bad s))"

text \<open>The argument is \<open>max - 1\<close>; for \<open>max > 0\<close> the loop stops there without reading \<open>src\<close>.\<close>

fun strcopy_loop :: "bytes \<Rightarrow> bytes \<Rightarrow> nat \<Rightarrow> bytes res" where
  "strcopy_loop [] src n = Inl OutOfBounds"
| "strcopy_loop (_ # dst) src 0 = Inr (0 # dst)"
| "strcopy_loop (_ # dst) [] (Suc n) = Inl OutOfBounds"
| "strcopy_loop (_ # dst) (c # src) (Suc n) = (if c \<noteq> 0 then mapE ((#) c) (strcopy_loop dst src n) else Inr (0 # dst))"

definition strcopy :: "bytes \<Rightarrow> bytes \<Rightarrow> nat \<Rightarrow> bytes res" where
  "strcopy dst src mx = strcopy_loop dst src (mx - 1)"

definition zero_proposal :: fix_proposal where
  "zero_proposal = \<lparr>fp_role = replicate FIX_ROLE_LEN 0, fp_target = replicate FIX_TARGET_LEN 0, fp_action = 0, fp_severity = 0, fp_retry_hint = 0\<rparr>"

definition build_default_proposal :: "fix_proposal res" where
  "build_default_proposal =
     (let p = zero_proposal
      in bindE (strcopy (fp_role p) (lit ''fixsuggest'') FIX_ROLE_LEN) (\<lambda>r.
         bindE (strcopy (fp_target p) (lit ''parser'') FIX_TARGET_LEN) (\<lambda>t.
         Inr (p\<lparr>fp_role := r, fp_target := t, fp_action := FIX_ACTION_REPORT, fp_severity := 0, fp_retry_hint := 0\<rparr>))))"

definition build_proposal :: "bytes \<Rightarrow> fix_proposal res" where
  "build_proposal resp =
     (let p = zero_proposal
      in bindE (strcopy (fp_role p) (lit ''fixsuggest'') FIX_ROLE_LEN) (\<lambda>r.
         bindE (strcopy (fp_target p) (lit ''parser'') FIX_TARGET_LEN) (\<lambda>t.
         bindE (quality_bad resp) (\<lambda>bad.
         Inr (p\<lparr>fp_role := r, fp_target := t, fp_action := FIX_ACTION_REQUEUE, fp_retry_hint := 0, fp_severity := (if bad then 9 else 2)\<rparr>)))))"

definition amend_from_verdict :: "fix_proposal \<Rightarrow> fix_proposal \<Rightarrow> int \<Rightarrow> fix_proposal res" where
  "amend_from_verdict p base rc =
     (if rc = VERIFY_ERR_RANGE
      then (let p = (if fp_severity p < FIX_SEVERITY_MIN then p\<lparr>fp_severity := FIX_SEVERITY_MIN\<rparr> else p);
                p = (if fp_severity p > FIX_SEVERITY_MAX then p\<lparr>fp_severity := FIX_SEVERITY_MAX\<rparr> else p)
            in Inr (if fp_retry_hint p < 0 then p\<lparr>fp_retry_hint := 0\<rparr> else p))
      else if rc = VERIFY_ERR_ACTION then Inr (p\<lparr>fp_action := FIX_ACTION_REQUEUE\<rparr>)
      else if rc = VERIFY_ERR_PROTECTED
      then mapE (\<lambda>t. p\<lparr>fp_action := FIX_ACTION_REPORT, fp_target := t\<rparr>) (strcopy (fp_target p) (fp_target base) FIX_TARGET_LEN)
      else if rc = VERIFY_ERR_FIELD
      then bindE (strcopy (fp_role p) (fp_role base) FIX_ROLE_LEN) (\<lambda>r.
           mapE (\<lambda>t. p\<lparr>fp_role := r, fp_target := t\<rparr>) (strcopy (fp_target p) (fp_target base) FIX_TARGET_LEN))
      else Inr base)"

section \<open>The main loop\<close>

text \<open>The system call \<open>verifyfix\<close> with a reason buffer of 64 bytes, as its caller sees it.\<close>

definition verifyfix :: "eval_env \<Rightarrow> fix_proposal \<Rightarrow> (int \<times> bytes) res" where
  "verifyfix env p =
     bindE (fill_snapshot p (ev_ps env)) (\<lambda>snap.
     bindE (verify_fix (Some p) (Some snap) (Some (ev_kreason env)) 64) (\<lambda>(rc, reason). Inr (rc, take 64 (the reason))))"

definition restore :: "eval_st \<Rightarrow> eval_st" where
  "restore e = e\<lparr>e_base := (case e_ckpt e of Some p \<Rightarrow> p | None \<Rightarrow> e_base e)\<rparr>"

datatype status = Accepted | Exhausted | Lost

text \<open>The first attempt builds the proposal; a retry has the corrected one.\<close>

definition candidate :: "bool \<Rightarrow> bytes \<Rightarrow> fix_proposal \<Rightarrow> fix_proposal res" where
  "candidate first resp p = (if first then build_proposal resp else Inr p)"

text \<open>One pass of the loop over \<open>attempts\<close>; \<open>None\<close> continues it.\<close>

definition attempt :: "eval_env \<Rightarrow> bytes \<Rightarrow> bool \<Rightarrow> eval_st \<Rightarrow> (eval_st \<times> status option) res" where
  "attempt env line first e =
     bindE (proxy_call (ev_junk env) (ev_fd env) (ev_pid env) (lit ''evaluator'') line (e_resp e) 256 (e_io e)) (\<lambda>(r, resp, io).
     let e = e\<lparr>e_io := io, e_resp := resp\<rparr>
     in if r < 0 then Inr (e, Some Lost)
        else bindE (strcopy (e_last e) resp 256) (\<lambda>l.
             bindE (candidate first resp (e_prop e)) (\<lambda>p.
             bindE (verifyfix env p) (\<lambda>(rc, reason).
             let e = e\<lparr>e_last := l, e_prop := p, e_reason := reason\<rparr>
             in if rc = VERIFY_OK
                then bindE (emit env (lit ''EVAL_ACCEPT '') line (e\<lparr>e_ckpt := Some p\<rparr>)) (\<lambda>e. Inr (e, Some Accepted))
                else bindE (emit env (lit ''EVAL_VERIFY_FAIL '') reason e) (\<lambda>e.
                     let e = restore e
                     in bindE (emit env (lit ''EVAL_ROLLBACK '') line e) (\<lambda>e.
                        bindE (amend_from_verdict p (e_base e) rc) (\<lambda>p.
                        bindE (emit env (lit ''EVAL_RETRY '') line (e\<lparr>e_prop := p\<rparr>)) (\<lambda>e. Inr (e, None)))))))))"

primrec attempts :: "nat \<Rightarrow> eval_env \<Rightarrow> bytes \<Rightarrow> bool \<Rightarrow> eval_st \<Rightarrow> (eval_st \<times> status) res" where
  "attempts 0 env line first e = Inr (e, Exhausted)"
| "attempts (Suc n) env line first e =
     bindE (attempt env line first e) (\<lambda>(e, st).
     case st of Some s \<Rightarrow> Inr (e, s) | None \<Rightarrow> attempts n env line False e)"

definition MAX_RETRIES :: nat where [hdr]: "MAX_RETRIES = 3"

definition eval_line :: "eval_env \<Rightarrow> bytes \<Rightarrow> eval_st \<Rightarrow> (eval_st \<times> status) res" where
  "eval_line env line e =
     bindE (attempts MAX_RETRIES env line True (e\<lparr>e_last := (e_last e)[0 := 0]\<rparr>)) (\<lambda>(e, st).
     if st = Lost then Inr (e, st)
     else bindE (if st = Accepted then emit env (lit ''evaluator:OK:'') (e_last e) e
                 else emit env (lit ''evaluator:FAIL:'') line e) (\<lambda>e. Inr (e, st)))"

lemma readline_rest: "readline_loop line mx inp = (l, inp') \<Longrightarrow> length inp' \<le> length inp \<and> (l \<noteq> line \<longrightarrow> length inp' < length inp)"
  by (induction line mx inp rule: readline_loop.induct) (auto split: if_splits)

text \<open>
  \<open>main\<close> from the loop on, with the bytes still to come on standard input; it ends at the end of the input, at an empty line or
  when a call to the proxy fails.
\<close>

function eval_main :: "eval_env \<Rightarrow> bytes \<Rightarrow> eval_st \<Rightarrow> eval_st res" where
  "eval_main env inp e =
     (case readline_loop [] 256 inp of (line, inp') \<Rightarrow>
        if line = [] then Inr (e\<lparr>e_out := e_out e @ bytes_of ''TRIAGE_DONE'' @ [lf]\<rparr>)
        else bindE (eval_line env (line @ [0]) e) (\<lambda>(e, st).
             if st = Lost then Inr (e\<lparr>e_out := e_out e @ bytes_of ''TRIAGE_DONE'' @ [lf]\<rparr>)
             else eval_main env inp' e))"
  by pat_completeness auto
termination
  by (relation "measure (\<lambda>(env, inp, e). length inp)") (auto dest!: readline_rest [OF sym])

declare eval_main.simps [simp del]

definition evaluator_main :: "eval_env \<Rightarrow> bytes \<Rightarrow> eval_st \<Rightarrow> eval_st res" where
  "evaluator_main env inp e =
     bindE build_default_proposal (\<lambda>b. eval_main env inp (e\<lparr>e_base := b, e_ckpt := Some b\<rparr>))"

section \<open>Behaviour of the helpers\<close>

lemma emit_eq:
  assumes "length (ev_buf env) = 640" and "terminated tag" and "terminated body" and "length (cstr tag) + length (cstr body) < 640"
  shows "emit env tag body e = Inr (e\<lparr>e_out := e_out e @ cstr tag @ cstr body @ [lf]\<rparr>)"
proof -
  have h0: "holds 640 [] (ev_buf env, 0)" using holds_start [of "ev_buf env"] assms(1) by simp
  obtain b1 where 1: "proxy_append_str 640 tag (ev_buf env, 0) = Inr b1" "holds 640 (cstr tag) b1"
    using append_str_holds [OF assms(2) _ h0, of 640] assms(4) by auto
  obtain b2 where 2: "proxy_append_str 640 body b1 = Inr b2" "holds 640 (cstr tag @ cstr body) b2"
    using append_str_holds [OF assms(3) _ 1(2), of 640] assms(4) by auto
  obtain b p where 3: "put lf b2 = Inr (b, p)" "holds 640 ((cstr tag @ cstr body) @ [lf]) (b, p)"
    using put_holds [OF 2(2), of lf] assms(4) by auto
  show ?thesis using 1(1) 2(1) 3(1) holds_take [OF 3(2)] by (simp add: emit_def)
qed

lemma strcopy_loop_spec:
  "n < length dst \<Longrightarrow> readable src n \<Longrightarrow> \<exists>r. strcopy_loop dst src n = Inr r \<and> length r = length dst \<and> terminated r \<and> cstr r = take n (cstr src)"
  by (induction dst src n rule: strcopy_loop.induct) auto

lemma strcopy_spec:
  "0 < mx \<Longrightarrow> mx \<le> length dst \<Longrightarrow> readable src (mx - 1) \<Longrightarrow>
    \<exists>r. strcopy dst src mx = Inr r \<and> length r = length dst \<and> terminated r \<and> cstr r = take (mx - 1) (cstr src)"
  unfolding strcopy_def by (rule strcopy_loop_spec) auto

lemma starts_with_eq: "terminated s \<Longrightarrow> 0 \<notin> set es \<Longrightarrow> starts_with s es = Inr (\<exists>b. cstr s = es @ b)"
  by (induction s es rule: starts_with.induct) auto

lemma infix_Cons: "(\<exists>a b. c # x = a @ e @ b) \<longleftrightarrow> (\<exists>b. c # x = e @ b) \<or> (\<exists>a b. x = a @ e @ b)"
proof
  assume "\<exists>a b. c # x = a @ e @ b"
  then obtain a b where ab: "c # x = a @ e @ b" by blast
  then show "(\<exists>b. c # x = e @ b) \<or> (\<exists>a b. x = a @ e @ b)" by (cases a) auto
next
  assume "(\<exists>b. c # x = e @ b) \<or> (\<exists>a b. x = a @ e @ b)"
  then show "\<exists>a b. c # x = a @ e @ b" by (metis append_Nil append_Cons)
qed

text \<open>\<open>quality_bad\<close> looks for the substring \<open>ERROR\<close>.\<close>

definition flagged :: "bytes \<Rightarrow> bool" where
  "flagged s \<longleftrightarrow> (\<exists>a b. cstr s = a @ bytes_of ''ERROR'' @ b)"

lemma quality_bad_eq: "terminated s \<Longrightarrow> quality_bad s = Inr (flagged s)"
proof (induction s)
  case (Cons c s)
  have "0 \<notin> set (bytes_of ''ERROR'')" by (simp add: bytes_of_def)
  note st = starts_with_eq [OF Cons.prems this]
  show ?case
  proof (cases "c = 0")
    case True
    then show ?thesis by (simp add: bytes_of_def flagged_def)
  next
    case False
    then show ?thesis using Cons st infix_Cons [of c "cstr s" "bytes_of ''ERROR''"] by (simp add: flagged_def)
  qed
qed simp

section \<open>The negotiation\<close>

lemma either_total: "readable a n \<Longrightarrow> readable b n \<Longrightarrow> \<exists>h. rest = Inr h \<Longrightarrow> \<exists>h. either_eq a b n rest = Inr h"
  using strncmp_safe [of a n b] by (auto simp: either_eq_def)

lemma snapshot_total:
  assumes "\<forall>q\<in>set ps. length (p_name q) = 16 \<and> length (p_agent_role q) = 16" and "length (fp_target p) = 16"
  shows "\<exists>sn. snapshot_loop p ps s = Inr sn"
  using assms(1)
proof (induction ps arbitrary: s)
  case (Cons q ps)
  have r: "readable (p_name q) 16" "readable (p_agent_role q) 16" "readable (fp_target p) 16" using Cons.prems assms(2) by simp_all
  obtain h1 where h1: "either_eq (p_name q) (fp_target p) FIX_TARGET_LEN
             (either_eq (p_agent_role q) (fp_target p) FIX_TARGET_LEN (Inr False)) = Inr h1"
    using either_total [OF r(1,3) either_total [OF r(2,3)], of "Inr False"] by (auto simp: hdr)
  obtain h2 where h2: "either_eq (p_name q) (lit ''init'') 16
                  (either_eq (p_name q) (lit ''sh'') 16
                  (either_eq (p_agent_role q) (lit ''evaluator'') 16 (Inr False))) = Inr h2"
    using either_total [OF r(1) _ either_total [OF r(1) _ either_total [OF r(2)]], of "lit ''init''" "lit ''sh''" "lit ''evaluator''" "Inr False"]
    by (auto simp del: lit_simps)
  show ?case using Cons by (simp add: h1 h2 Let_def del: lit_simps)
qed simp

definition proposal :: "int \<Rightarrow> int \<Rightarrow> fix_proposal" where
  "proposal a sev = \<lparr>fp_role = bytes_of ''fixsuggest'' @ replicate 6 0, fp_target = bytes_of ''parser'' @ replicate 10 0,
     fp_action = a, fp_severity = sev, fp_retry_hint = 0\<rparr>"

lemma copied_fields:
  "strcopy (replicate 16 0) (lit ''fixsuggest'') 16 = Inr (bytes_of ''fixsuggest'' @ replicate 6 0)"
  "strcopy (replicate 16 0) (lit ''parser'') 16 = Inr (bytes_of ''parser'' @ replicate 10 0)"
  by code_simp+

lemma build_default_eq: "build_default_proposal = Inr (proposal 0 0)"
  by (simp add: build_default_proposal_def zero_proposal_def proposal_def hdr Let_def copied_fields del: lit_simps)

lemma build_eq: "terminated resp \<Longrightarrow> build_proposal resp = Inr (proposal 2 (if flagged resp then 9 else 2))"
  by (simp add: build_proposal_def zero_proposal_def proposal_def hdr Let_def quality_bad_eq copied_fields del: lit_simps)

text \<open>What the verifier says to the proposals of this agent.\<close>

definition eval_ok :: "eval_env \<Rightarrow> bool" where
  "eval_ok env \<longleftrightarrow> length (ev_buf env) = 640 \<and> length (ev_kreason env) = 64 \<and>
     (\<forall>q\<in>set (ev_ps env). length (p_name q) = 16 \<and> length (p_agent_role q) = 16)"

lemma proposal_fields: "field_ok (fp_role (proposal a v)) FIX_ROLE_LEN = Inr True" "field_ok (fp_target (proposal a v)) FIX_TARGET_LEN = Inr True"
  "length (fp_target (proposal a v)) = 16"
  by (simp_all add: field_ok_spec good_field_def proposal_def bytes_of_def hdr)

lemma reason_text:
  assumes "length buf = 64" and "length m < 64" and "0 \<notin> set (bytes_of m)"
  shows "\<exists>b. set_reason (Some buf) 64 m = Inr (Some b) \<and> terminated (take 64 b) \<and> cstr (take 64 b) = bytes_of m"
proof -
  have "length (bytes_of m) < 64" using assms(2) by (simp add: bytes_of_def)
  then obtain b where b: "safestrcpy buf (lit m) 64 = Inr b" "length b = 64" "terminated (take 64 b)" "cstr b = bytes_of m"
    using safestrcpy_spec [of 64 buf "lit m"] assms by (auto simp: lit_def cstr_append_NUL)
  then show ?thesis by (auto simp: set_reason_def)
qed

lemma verifyfix_proposal:
  assumes "eval_ok env" and "whitelisted a"
  shows "\<exists>b. verifyfix env (proposal a v) = Inr (if 0 \<le> v \<and> v \<le> 3 then VERIFY_OK else VERIFY_ERR_RANGE, b) \<and> terminated b \<and>
    cstr b = bytes_of (if 0 \<le> v \<and> v \<le> 3 then ''ok'' else ''severity out of range [0,3]'')"
proof -
  have "\<exists>sn. fill_snapshot (proposal a v) (ev_ps env) = Inr sn" unfolding fill_snapshot_def
    by (rule snapshot_total) (use assms(1) proposal_fields(3) in \<open>simp_all add: eval_ok_def\<close>)
  then obtain sn where sn: "fill_snapshot (proposal a v) (ev_ps env) = Inr sn" ..
  have k: "length (ev_kreason env) = 64" using assms(1) by (simp add: eval_ok_def)
  obtain b1 where b1: "set_reason (Some (ev_kreason env)) 64 ''ok'' = Inr (Some b1)" "terminated (take 64 b1)" "cstr (take 64 b1) = bytes_of ''ok''"
    using reason_text [OF k, of "''ok''"] by (auto simp: bytes_of_def)
  obtain b2 where b2: "set_reason (Some (ev_kreason env)) 64 ''severity out of range [0,3]'' = Inr (Some b2)"
    "terminated (take 64 b2)" "cstr (take 64 b2) = bytes_of ''severity out of range [0,3]''"
    using reason_text [OF k, of "''severity out of range [0,3]''"] by (auto simp: bytes_of_def)
  have act: "\<not> is_destructive a" "is_allowed a" using assms(2) by (simp_all add: is_destructive_iff is_allowed_iff)
  have f: "fp_action (proposal a v) = a" "fp_severity (proposal a v) = v" "fp_retry_hint (proposal a v) = 0" by (simp_all add: proposal_def)
  show ?thesis
    using b1 b2 by (auto simp: verifyfix_def sn verify_fix_def Let_def proposal_fields f act FIX_SEVERITY_MIN_def FIX_SEVERITY_MAX_def)
qed

definition logline :: "string \<Rightarrow> bytes \<Rightarrow> bytes" where
  "logline tag body = bytes_of tag @ body @ [lf]"

lemma emit_note:
  assumes "eval_ok env" and "terminated body" and "length (cstr body) < 600" and "0 \<notin> set (bytes_of tag)" and "length tag \<le> 40"
  shows "emit env (lit tag) body e = Inr (e\<lparr>e_out := e_out e @ logline tag (cstr body)\<rparr>)"
proof -
  have "cstr (lit tag) = bytes_of tag" "length (bytes_of tag) = length tag" using assms(4) by (simp_all add: lit_def cstr_append_NUL bytes_of_def)
  then show ?thesis using emit_eq [of env "lit tag" body e] assms by (simp add: eval_ok_def logline_def)
qed

lemma clean_tags: "0 \<notin> set (bytes_of ''EVAL_ACCEPT '')" "0 \<notin> set (bytes_of ''EVAL_VERIFY_FAIL '')" "0 \<notin> set (bytes_of ''EVAL_ROLLBACK '')"
  "0 \<notin> set (bytes_of ''EVAL_RETRY '')" "0 \<notin> set (bytes_of ''evaluator:OK:'')"
  by (simp_all add: bytes_of_def)

text \<open>The state in which a line is handled, and a successful call to the proxy.\<close>

definition asked :: "eval_env \<Rightarrow> bytes \<Rightarrow> eval_st \<Rightarrow> bytes \<Rightarrow> agent_io \<Rightarrow> bool" where
  "asked env line e resp io \<longleftrightarrow> length (e_last e) = 256 \<and> terminated resp \<and>
     (\<exists>r\<ge>0. proxy_call (ev_junk env) (ev_fd env) (ev_pid env) (lit ''evaluator'') line (e_resp e) 256 (e_io e) = Inr (r, resp, io))"

lemma attempt_accepts:
  assumes env: "eval_ok env" and line: "terminated line" "length (cstr line) < 256" and call: "asked env line e resp io"
    and p: "candidate first resp (e_prop e) = Inr (proposal a v)" "whitelisted a" "0 \<le> v" "v \<le> 3"
  shows "\<exists>e'. attempt env line first e = Inr (e', Some Accepted) \<and> e_ckpt e' = Some (proposal a v) \<and> e_io e' = io \<and>
    e_out e' = e_out e @ logline ''EVAL_ACCEPT '' (cstr line) \<and> terminated (e_last e') \<and> cstr (e_last e') = take 255 (cstr resp)"
proof -
  obtain r where r: "length (e_last e) = 256" "terminated resp" "0 \<le> r"
    "proxy_call (ev_junk env) (ev_fd env) (ev_pid env) (lit ''evaluator'') line (e_resp e) 256 (e_io e) = Inr (r, resp, io)"
    using call by (auto simp: asked_def)
  obtain l where l: "strcopy (e_last e) resp 256 = Inr l" "terminated l" "cstr l = take 255 (cstr resp)"
    using strcopy_spec [of 256 "e_last e" resp] r(1,2) by auto
  obtain b where b: "verifyfix env (proposal a v) = Inr (VERIFY_OK, b)"
    using verifyfix_proposal [OF env p(2), of v] p(3,4) by auto
  have "length (cstr line) < 600" using line(2) by simp
  note em = emit_note [OF env line(1) this]
  show ?thesis using l b r(3)
    by (simp add: attempt_def r(4) Let_def p(1) em clean_tags del: lit_simps)
qed

lemma attempt_rejects:
  assumes env: "eval_ok env" and line: "terminated line" "length (cstr line) < 256" and call: "asked env line e resp io"
    and p: "candidate first resp (e_prop e) = Inr (proposal a v)" "whitelisted a" "3 < v"
  shows "\<exists>e'. attempt env line first e = Inr (e', None) \<and> e_prop e' = proposal a 3 \<and> e_io e' = io \<and> e_resp e' = resp \<and>
    e_ckpt e' = e_ckpt e \<and> length (e_last e') = 256 \<and> e_out e' = e_out e @ logline ''EVAL_VERIFY_FAIL '' (bytes_of ''severity out of range [0,3]'') @
      logline ''EVAL_ROLLBACK '' (cstr line) @ logline ''EVAL_RETRY '' (cstr line)"
proof -
  obtain r where r: "length (e_last e) = 256" "terminated resp" "0 \<le> r"
    "proxy_call (ev_junk env) (ev_fd env) (ev_pid env) (lit ''evaluator'') line (e_resp e) 256 (e_io e) = Inr (r, resp, io)"
    using call by (auto simp: asked_def)
  obtain l where l: "strcopy (e_last e) resp 256 = Inr l" "length l = 256"
    using strcopy_spec [of 256 "e_last e" resp] r(1,2) by auto
  obtain b where b: "verifyfix env (proposal a v) = Inr (VERIFY_ERR_RANGE, b)" "terminated b" "cstr b = bytes_of ''severity out of range [0,3]''"
    using verifyfix_proposal [OF env p(2), of v] p(3) by auto
  have len: "length (cstr b) < 600" by (simp add: b(3) bytes_of_def)
  have am: "amend_from_verdict (proposal a v) base VERIFY_ERR_RANGE = Inr (proposal a 3)" for base
    using p(3) by (simp add: amend_from_verdict_def proposal_def hdr)
  have "length (cstr line) < 600" using line(2) by simp
  note em = emit_note [OF env line(1) this] emit_note [OF env b(2) len]
  have ne: "VERIFY_ERR_RANGE \<noteq> VERIFY_OK" by (simp add: verify_codes)
  show ?thesis using l r(3) b(3)
    by (simp add: attempt_def r(4) Let_def p(1) b(1) em clean_tags am restore_def ne del: lit_simps)
qed

lemma accepted_line:
  assumes "eval_ok env" and "attempts 3 env line True (e\<lparr>e_last := (e_last e)[0 := 0]\<rparr>) = Inr (e', Accepted)"
    and "terminated (e_last e')" and "length (cstr (e_last e')) < 600"
  shows "eval_line env line e = Inr (e'\<lparr>e_out := e_out e' @ logline ''evaluator:OK:'' (cstr (e_last e'))\<rparr>, Accepted)"
  by (simp add: eval_line_def assms(2) emit_note [OF assms(1,3,4)] clean_tags MAX_RETRIES_def del: lit_simps)

text \<open>
  C10. The negotiation with the verifier converges. A diagnosis that is not flagged is accepted at the first attempt. A flagged one is
  first proposed with a severity out of range: the kernel rejects it with that reason, the agent rolls back, clamps the
  severity to 3 and is accepted at the second attempt; the third is never needed. In both cases the kernel holds the
  accepted proposal as its checkpoint and the log shows exactly the steps taken.
\<close>

theorem evaluator_converges:
  assumes "eval_ok env" and "terminated line" and "length (cstr line) < 256"
    and "asked env line (e\<lparr>e_last := (e_last e)[0 := 0]\<rparr>) resp io"
  shows "(\<not> flagged resp \<longrightarrow>
           (\<exists>e'. eval_line env line e = Inr (e', Accepted) \<and> e_ckpt e' = Some (proposal FIX_ACTION_REQUEUE 2) \<and>
              e_out e' = e_out e @ logline ''EVAL_ACCEPT '' (cstr line) @ logline ''evaluator:OK:'' (take 255 (cstr resp)))) \<and>
         (flagged resp \<longrightarrow>
           (\<exists>e1. attempt env line True (e\<lparr>e_last := (e_last e)[0 := 0]\<rparr>) = Inr (e1, None) \<and> e_io e1 = io \<and> e_resp e1 = resp \<and>
             (\<forall>resp2 io2. asked env line e1 resp2 io2 \<longrightarrow>
               (\<exists>e'. eval_line env line e = Inr (e', Accepted) \<and> e_ckpt e' = Some (proposal FIX_ACTION_REQUEUE FIX_SEVERITY_MAX) \<and>
                  e_out e' = e_out e @ logline ''EVAL_VERIFY_FAIL '' (bytes_of ''severity out of range [0,3]'') @
                    logline ''EVAL_ROLLBACK '' (cstr line) @ logline ''EVAL_RETRY '' (cstr line) @ logline ''EVAL_ACCEPT '' (cstr line) @
                    logline ''evaluator:OK:'' (take 255 (cstr resp2))))))"
proof -
  let ?e = "e\<lparr>e_last := (e_last e)[0 := 0]\<rparr>"
  have t: "terminated resp" using assms(4) by (simp add: asked_def)
  have w: "whitelisted 2" by (simp add: whitelisted_def)
  have c: "candidate True resp p = Inr (proposal 2 (if flagged resp then 9 else 2))" for p
    by (simp add: candidate_def build_eq [OF t])
  note acc = attempt_accepts [OF assms(1-4), of True 2 2] and rej = attempt_rejects [OF assms(1-4), of True 2 9]
  have 1: "\<exists>e'. eval_line env line e = Inr (e', Accepted) \<and> e_ckpt e' = Some (proposal 2 2) \<and>
      e_out e' = e_out e @ logline ''EVAL_ACCEPT '' (cstr line) @ logline ''evaluator:OK:'' (take 255 (cstr resp))" if nf: "\<not> flagged resp"
  proof -
    obtain e' where e': "attempt env line True ?e = Inr (e', Some Accepted)" "e_ckpt e' = Some (proposal 2 2)"
      "e_out e' = e_out e @ logline ''EVAL_ACCEPT '' (cstr line)" "terminated (e_last e')" "cstr (e_last e') = take 255 (cstr resp)"
      using acc c w nf by auto
    have "attempts 3 env line True ?e = Inr (e', Accepted)" by (simp add: numeral_3_eq_3 e'(1))
    from accepted_line [OF assms(1) this e'(4)] show ?thesis using e' by simp
  qed
  have 2: "\<exists>e'. eval_line env line e = Inr (e', Accepted) \<and> e_ckpt e' = Some (proposal 2 3) \<and>
      e_out e' = e_out e @ logline ''EVAL_VERIFY_FAIL '' (bytes_of ''severity out of range [0,3]'') @
        logline ''EVAL_ROLLBACK '' (cstr line) @ logline ''EVAL_RETRY '' (cstr line) @ logline ''EVAL_ACCEPT '' (cstr line) @
        logline ''evaluator:OK:'' (take 255 (cstr resp2))"
    if f: "flagged resp" and a1: "attempt env line True ?e = Inr (e1, None)" and ask: "asked env line e1 resp2 io2" for e1 resp2 io2
  proof -
    have e1: "e_prop e1 = proposal 2 3" "e_out e1 = e_out e @ logline ''EVAL_VERIFY_FAIL '' (bytes_of ''severity out of range [0,3]'') @
      logline ''EVAL_ROLLBACK '' (cstr line) @ logline ''EVAL_RETRY '' (cstr line)"
      using rej c w f a1 by auto
    have "candidate False resp2 (e_prop e1) = Inr (proposal 2 3)" by (simp add: candidate_def e1(1))
    then obtain e' where e': "attempt env line False e1 = Inr (e', Some Accepted)" "e_ckpt e' = Some (proposal 2 3)"
      "e_out e' = e_out e1 @ logline ''EVAL_ACCEPT '' (cstr line)" "terminated (e_last e')" "cstr (e_last e') = take 255 (cstr resp2)"
      using attempt_accepts [OF assms(1-3) ask, of False 2 3] w by auto
    have "attempts 3 env line True ?e = Inr (e', Accepted)" by (simp add: numeral_3_eq_3 a1 e'(1))
    from accepted_line [OF assms(1) this e'(4)] show ?thesis using e' e1(2) by simp
  qed
  have "\<exists>e1. attempt env line True ?e = Inr (e1, None) \<and> e_io e1 = io \<and> e_resp e1 = resp" if "flagged resp"
    using rej c w that by auto
  then show ?thesis using 1 2 unfolding FIX_ACTION_REQUEUE_def FIX_SEVERITY_MAX_def by blast
qed

definition sample_env :: eval_env where
  "sample_env = \<lparr>ev_junk = sample_junk, ev_fd = 3, ev_pid = 12, ev_ps = [], ev_kreason = replicate 64 0, ev_buf = replicate 640 0\<rparr>"

definition sample_st :: eval_st where
  "sample_st = \<lparr>e_io = sample_io (bytes_of ''full''), e_out = [], e_ckpt = None, e_prop = zero_proposal, e_base = zero_proposal,
     e_resp = replicate 256 1, e_last = replicate 256 1, e_reason = []\<rparr>"

theorem evaluator_converges_witness:
  "\<exists>e'. eval_line sample_env (lit ''disk'') sample_st = Inr (e', Accepted) \<and> e_ckpt e' = Some (proposal FIX_ACTION_REQUEUE 2) \<and>
    e_out e' = bytes_of ''EVAL_ACCEPT disk'' @ [10] @ bytes_of ''evaluator:OK:full'' @ [10]"
proof -
  have full: "0 \<notin> set (bytes_of ''full'')" "lf \<notin> set (bytes_of ''full'')" "length (bytes_of ''full'') = 4" by (simp_all add: bytes_of_def)
  have lens: "length (cstr (lit ''evaluator'')) < 16" "length (cstr (lit ''disk'')) < 256" by simp_all
  let ?resp = "bytes_of ''full'' @ 0 # replicate 251 1"
  obtain io1 where "proxy_call sample_junk 3 12 (lit ''evaluator'') (lit ''disk'') (replicate 256 1) 256 (sample_io (bytes_of ''full'')) = Inr (4, ?resp, io1)"
    using sample_call [OF terminated_lit lens(1) terminated_lit lens(2) full(1,2), of "replicate 256 1"] full(3) by (auto simp: hdr)
  then have a: "asked sample_env (lit ''disk'') (sample_st\<lparr>e_last := (e_last sample_st)[0 := 0]\<rparr>) ?resp io1"
    by (auto simp: asked_def sample_env_def sample_st_def terminated_def simp del: lit_simps)
  have ok: "eval_ok sample_env" by (simp add: eval_ok_def sample_env_def)
  have c: "cstr ?resp = bytes_of ''full''" using full(1) by (rule cstr_append_NUL)
  have "\<not> flagged ?resp"
    unfolding flagged_def c using full(3) by (auto dest!: arg_cong [of "bytes_of ''full''" _ length] simp: bytes_of_def)
  then show ?thesis using evaluator_converges [OF ok terminated_lit lens(2) a]
    by (auto simp: c logline_def sample_st_def bytes_of_def)
qed

section \<open>Corrections always lead to acceptance\<close>

text \<open>The loop of verdicts and corrections by itself, from any proposal, with at most \<open>n\<close> corrections.\<close>

primrec negotiate :: "(fix_proposal \<Rightarrow> bool) \<Rightarrow> fix_proposal \<Rightarrow> nat \<Rightarrow> fix_proposal \<Rightarrow> fix_proposal option res" where
  "negotiate prot base 0 p = Inr (if verdict p (prot p) = 0 then Some p else None)"
| "negotiate prot base (Suc n) p =
     (if verdict p (prot p) = 0 then Inr (Some p)
      else bindE (amend_from_verdict p base (verdict p (prot p))) (negotiate prot base n))"

lemma copy_field:
  assumes "length f = 16" and "length g = 16" and "good_field g"
  shows "\<exists>r. strcopy f g 16 = Inr r \<and> length r = 16 \<and> good_field r"
  using strcopy_spec [of 16 f g] assms by (auto simp: good_field_def)

lemma amend_field:
  assumes "wf_proposal p" and "wf_proposal base" and "good_field (fp_role base)" and "good_field (fp_target base)"
  shows "\<exists>p'. amend_from_verdict p base (-1) = Inr p' \<and> wf_proposal p' \<and> good_field (fp_role p') \<and> good_field (fp_target p')"
  using copy_field [of "fp_role p" "fp_role base"] copy_field [of "fp_target p" "fp_target base"] assms
  by (auto simp: amend_from_verdict_def wf_proposal_def hdr)

lemma amend_range:
  "\<exists>p'. amend_from_verdict p base (-2) = Inr p' \<and> fp_role p' = fp_role p \<and> fp_target p' = fp_target p \<and> fp_action p' = fp_action p \<and> in_range p'"
  by (auto simp: amend_from_verdict_def in_range_def hdr Let_def)

lemma amend_action:
  assumes "rc = -3 \<or> rc = -4" and "wf_proposal p" and "wf_proposal base" and "good_field (fp_target base)" and "good_field (fp_target p)"
  shows "\<exists>p'. amend_from_verdict p base rc = Inr p' \<and> wf_proposal p' \<and> fp_role p' = fp_role p \<and> good_field (fp_target p') \<and>
    (in_range p \<longrightarrow> in_range p') \<and> whitelisted (fp_action p')"
  using copy_field [of "fp_target p" "fp_target base"] assms
  by (auto simp: amend_from_verdict_def wf_proposal_def whitelisted_def in_range_def hdr)

lemma negotiate_done: "verdict p (prot p) = 0 \<Longrightarrow> negotiate prot base n p = Inr (Some p)"
  by (cases n) simp_all

lemma negotiate_action:
  assumes "wf_proposal p" and "good_field (fp_role p)" and "good_field (fp_target p)" and "in_range p"
    and "wf_proposal base" and "good_field (fp_target base)"
  shows "\<exists>p'. negotiate prot base (Suc n) p = Inr (Some p') \<and> verdict p' (prot p') = 0"
proof (cases "verdict p (prot p) = 0")
  case False
  then have rc: "verdict p (prot p) = -3 \<or> verdict p (prot p) = -4" using assms by (auto simp: verdict_def)
  obtain p' where p': "amend_from_verdict p base (verdict p (prot p)) = Inr p'" "fp_role p' = fp_role p" "good_field (fp_target p')"
    "in_range p'" "whitelisted (fp_action p')"
    using amend_action [OF rc assms(1,5,6,3)] assms(4) by blast
  have "verdict p' (prot p') = 0" using p' assms(2) by (simp add: verdict_def)
  then show ?thesis using False p'(1) by (simp add: negotiate_done)
qed (simp add: negotiate_done)

lemma negotiate_range:
  assumes "wf_proposal p" and "good_field (fp_role p)" and "good_field (fp_target p)"
    and "wf_proposal base" and "good_field (fp_target base)"
  shows "\<exists>p'. negotiate prot base (Suc (Suc n)) p = Inr (Some p') \<and> verdict p' (prot p') = 0"
proof (cases "in_range p")
  case True
  then show ?thesis using negotiate_action assms by blast
next
  case False
  then have v: "verdict p (prot p) = -2" using assms by (simp add: verdict_def)
  obtain p' where p': "amend_from_verdict p base (-2) = Inr p'" "fp_role p' = fp_role p" "fp_target p' = fp_target p" "in_range p'"
    using amend_range by blast
  then have "wf_proposal p'" using assms(1) by (simp add: wf_proposal_def)
  then obtain p2 where "negotiate prot base (Suc n) p' = Inr (Some p2)" "verdict p2 (prot p2) = 0"
    using negotiate_action [of p' base prot n] p' assms by metis
  then show ?thesis using v p'(1) by (simp del: negotiate.simps(2) add: negotiate.simps(2) [of _ _ "Suc n"])
qed

text \<open>
  Whatever is proposed, the corrections of \<open>amend_from_verdict\<close> lead to a proposal the verifier accepts, after at most three of
  them: every field of the proposal may be garbage and the kernel may protect any target it likes, as long as the last
  accepted state it falls back to has a role and a target.
\<close>

theorem amendments_converge:
  assumes "wf_proposal p" and "wf_proposal base" and "good_field (fp_role base)" and "good_field (fp_target base)"
  shows "\<exists>p'. negotiate prot base 3 p = Inr (Some p') \<and> verdict p' (prot p') = 0"
proof (cases "good_field (fp_role p) \<and> good_field (fp_target p)")
  case True
  then show ?thesis using negotiate_range [of p base prot 1] assms by (simp del: negotiate.simps add: numeral_3_eq_3)
next
  case False
  then have v: "verdict p (prot p) = -1" by (simp add: verdict_def)
  obtain p' where p': "amend_from_verdict p base (-1) = Inr p'" "wf_proposal p'" "good_field (fp_role p')" "good_field (fp_target p')"
    using amend_field [OF assms] by blast
  have "negotiate prot base 3 p = negotiate prot base (Suc (Suc 0)) p'" using v p'(1) by (simp del: negotiate.simps add: numeral_3_eq_3 negotiate.simps(2) [of _ _ "Suc (Suc 0)"])
  then show ?thesis using negotiate_range [OF p'(2-4) assms(2,4)] by simp
qed

theorem amendments_converge_witness:
  "\<exists>p'. negotiate (\<lambda>p. True) (proposal 0 0) 3 (zero_proposal\<lparr>fp_action := 7, fp_severity := 40, fp_retry_hint := -1\<rparr>) = Inr (Some p') \<and>
     verdict p' True = 0"
  by (rule amendments_converge [where prot = "\<lambda>p. True"]) (simp_all add: wf_proposal_def zero_proposal_def proposal_def good_field_def bytes_of_def hdr)

end
