(* ===== verification/Sh.thy ===== *)
theory Sh
  imports ULib
begin

text \<open>
  The parser of the shell, \<open>user/sh.c\<close>. A \<open>char *\<close> into the command line is an offset; \<open>es\<close> is the offset of its NUL. The nodes
  that the constructors allocate are values of the datatype \<open>cmd\<close>; allocation is assumed to succeed. \<open>panic\<close> of the shell
  ends the process that parses. The mutual recursion of the parser is given fuel, and is proved never to run out of it.
\<close>

section \<open>Commands\<close>

type_synonym span = "nat \<times> nat"

datatype cmd =
  EXEC "span list"
| REDIR cmd span int int
| PIPE cmd cmd
| LIST cmd cmd
| BACK cmd

definition MAXARGS :: nat where [hdr]: "MAXARGS = 10"
definition O_RDONLY :: int where [hdr]: "O_RDONLY = 0"
definition O_WRONLY :: int where [hdr]: "O_WRONLY = 1"
definition O_CREATE :: int where [hdr]: "O_CREATE = 0x200"
definition O_TRUNC :: int where [hdr]: "O_TRUNC = 0x400"

section \<open>Tokens\<close>

abbreviation ch :: "char \<Rightarrow> uchar" where "ch c \<equiv> of_char c"

definition whitespace :: "bytes" where
  "whitespace = [32, 9, 13, 10, 11]"

definition symbols :: "bytes" where
  "symbols = bytes_of ''<|>&;()''"

definition is_ws :: "uchar \<Rightarrow> bool" where
  "is_ws c \<longleftrightarrow> c \<in> set whitespace"

definition is_word :: "uchar \<Rightarrow> bool" where
  "is_word c \<longleftrightarrow> c \<notin> set whitespace \<and> c \<notin> set symbols"

text \<open>\<open>while(s < es && P( *s)) s++;\<close>\<close>

function skip :: "(uchar \<Rightarrow> bool) \<Rightarrow> bytes \<Rightarrow> nat \<Rightarrow> nat \<Rightarrow> nat" where
  "skip P s es i = (if i < es \<and> P (s ! i) then skip P s es (Suc i) else i)"
  by pat_completeness auto
termination by (relation "measure (\<lambda>(P, s, es, i). es - i)") auto

declare skip.simps [simp del]

text \<open>The switch of \<open>gettoken\<close> at the first character: the token and where it ends.\<close>

definition lex_token :: "bytes \<Rightarrow> nat \<Rightarrow> nat \<Rightarrow> uchar \<times> nat" where
  "lex_token s es q =
     (let c = s ! q
      in if c = 0 then (0, q)
         else if c \<in> set (bytes_of ''|();&<'') then (c, q + 1)
         else if c = ch CHR ''>'' then (if s ! (q + 1) = ch CHR ''>'' then (ch CHR ''+'', q + 2) else (c, q + 1))
         else (ch CHR ''a'', skip is_word s es q))"

text \<open>A position in the line: not beyond \<open>es\<close>, where the NUL is.\<close>

definition in_line :: "bytes \<Rightarrow> nat \<Rightarrow> nat \<Rightarrow> bool" where
  "in_line s es i \<longleftrightarrow> i \<le> es \<and> es < length s \<and> s ! es = 0"

text \<open>\<open>gettoken\<close>: the token, its start and end, and the new position.\<close>

definition gettoken :: "bytes \<Rightarrow> nat \<Rightarrow> nat \<Rightarrow> (uchar \<times> nat \<times> nat \<times> nat) res" where
  "gettoken s es i =
     (if \<not> in_line s es i then Inl OutOfBounds
      else (let q = skip is_ws s es i
            in case lex_token s es q of (ret, eq) \<Rightarrow> Inr (ret, q, eq, skip is_ws s es eq)))"

definition peek :: "bytes \<Rightarrow> nat \<Rightarrow> nat \<Rightarrow> string \<Rightarrow> (nat \<times> bool) res" where
  "peek s es i toks =
     (if \<not> in_line s es i then Inl OutOfBounds
      else (let i = skip is_ws s es i in Inr (i, s ! i \<noteq> 0 \<and> s ! i \<in> set (bytes_of toks))))"

section \<open>Progress of the lexer\<close>

lemma skip_le: "i \<le> es \<Longrightarrow> i \<le> skip P s es i \<and> skip P s es i \<le> es"
proof (induction P s es i rule: skip.induct)
  case (1 P s es i)
  then show ?case by (auto simp: skip.simps [of P s es i])
qed

lemma skip_stop: "skip P s es i < es \<Longrightarrow> \<not> P (s ! skip P s es i)"
proof (induction P s es i rule: skip.induct)
  case (1 P s es i)
  then show ?case by (cases "i < es \<and> P (s ! i)") (simp_all add: skip.simps [of P s es i])
qed

lemma skip_id: "skip P s es (skip P s es i) = skip P s es i"
  using skip_stop [of P s es i] by (subst skip.simps) auto

lemma peek_ge: "peek s es i toks = Inr (j, b) \<Longrightarrow> i \<le> j \<and> j \<le> es"
  using skip_le [of i es] by (auto simp: peek_def in_line_def Let_def split: if_splits)

lemma symbol_not_word: "c \<in> set (bytes_of ''|();&<'') \<or> c = ch CHR ''>'' \<longleftrightarrow> c \<in> set symbols"
  by (auto simp: symbols_def bytes_of_def)

text \<open>A token other than the end is not empty and lies before \<open>es\<close>.\<close>

lemma lex_progress:
  assumes "lex_token s es q = (t, e)" and "q \<le> es" and "s ! es = 0" and "q < es \<longrightarrow> \<not> is_ws (s ! q)"
  shows "q \<le> e \<and> e \<le> es \<and> (t \<noteq> 0 \<longrightarrow> q < e)"
proof (cases "s ! q = 0")
  case True
  then show ?thesis using assms by (simp add: lex_token_def)
next
  case False
  then have q: "q < es" using assms(2,3) by (cases "q = es") auto
  show ?thesis
  proof (cases "s ! q \<in> set symbols")
    case True
    have "Suc q < es" if "s ! Suc q = ch CHR ''>''" using that q assms(3) by (cases "Suc q = es") auto
    then show ?thesis using False True assms(1) q symbol_not_word [of "s ! q"]
      by (auto simp: lex_token_def Let_def split: if_splits)
  next
    case nsym: False
    then have "is_word (s ! q)" using assms(4) q by (simp add: is_word_def is_ws_def)
    then have "skip is_word s es q = skip is_word s es (Suc q)" using q by (subst skip.simps) simp
    moreover have "Suc q \<le> skip is_word s es (Suc q)" "skip is_word s es (Suc q) \<le> es" using skip_le [of "Suc q" es] q by simp_all
    ultimately show ?thesis using False nsym assms(1) symbol_not_word [of "s ! q"] by (auto simp: lex_token_def Let_def split: if_splits)
  qed
qed

lemma gettoken_progress:
  assumes "gettoken s es i = Inr (t, q, e, j)"
  shows "i \<le> q \<and> q \<le> e \<and> e \<le> j \<and> j \<le> es \<and> (t \<noteq> 0 \<longrightarrow> i < j \<and> q < e)"
proof -
  have l: "i \<le> es" "s ! es = 0" "q = skip is_ws s es i" "lex_token s es q = (t, e)" "j = skip is_ws s es e"
    using assms by (auto simp: gettoken_def in_line_def Let_def split: if_splits prod.splits)
  have "q \<le> e \<and> e \<le> es \<and> (t \<noteq> 0 \<longrightarrow> q < e)"
    using lex_progress [OF l(4) _ l(2)] skip_le [OF l(1), of is_ws s] skip_stop [of is_ws s es i] l(3) by auto
  then show ?thesis using skip_le [OF l(1), of is_ws s] skip_le [of e es is_ws s] l(3,5) by auto
qed

lemma peek_token:
  assumes "peek s es i toks = Inr (j, True)" and "gettoken s es j = Inr (t, q, e, k)"
  shows "t \<noteq> 0 \<and> q = j"
proof -
  have j: "j = skip is_ws s es i" "s ! j \<noteq> 0" using assms(1) by (auto simp: peek_def Let_def split: if_splits)
  have q: "q = skip is_ws s es j" "lex_token s es q = (t, e)" using assms(2) by (auto simp: gettoken_def Let_def split: if_splits prod.splits)
  then have "q = j" using skip_id [of is_ws s es i] j(1) by simp
  then show ?thesis using q(2) j(2) by (auto simp: lex_token_def Let_def split: if_splits)
qed

section \<open>The parser\<close>

definition redircmd :: "cmd \<Rightarrow> nat \<Rightarrow> nat \<Rightarrow> int \<Rightarrow> int \<Rightarrow> cmd" where
  "redircmd c q eq mode fd = REDIR c (q, eq) mode fd"

text \<open>The switch of \<open>parseredirs\<close>.\<close>

definition redir :: "uchar \<Rightarrow> cmd \<Rightarrow> nat \<Rightarrow> nat \<Rightarrow> cmd" where
  "redir tok c q eq =
     (if tok = ch CHR ''<'' then redircmd c q eq O_RDONLY 0
      else if tok = ch CHR ''>'' then redircmd c q eq (O_WRONLY + O_CREATE + O_TRUNC) 1
      else if tok = ch CHR ''+'' then redircmd c q eq (O_WRONLY + O_CREATE) 1
      else c)"

function parseredirs :: "bytes \<Rightarrow> nat \<Rightarrow> cmd \<Rightarrow> nat \<Rightarrow> (cmd \<times> nat) res" where
  "parseredirs s es c i =
     bindE (peek s es i ''<>'') (\<lambda>(i, b).
     if \<not> b then Inr (c, i)
     else bindE (gettoken s es i) (\<lambda>(tok, _, _, i).
          bindE (gettoken s es i) (\<lambda>(t, q, eq, i).
          if t \<noteq> ch CHR ''a'' then Inl (Panic ''missing file for redirection'')
          else parseredirs s es (redir tok c q eq) i)))"
  by pat_completeness auto
termination
  by (relation "measure (\<lambda>(s, es, c, i). es - i)") (auto dest!: peek_ge gettoken_progress)

declare parseredirs.simps [simp del]

text \<open>\<open>cmd->argv[argc] = q; cmd->eargv[argc] = eq;\<close> where \<open>cmd\<close> is the \<open>EXEC\<close> node inside the redirections of \<open>ret\<close>.\<close>

fun add_arg :: "span \<Rightarrow> cmd \<Rightarrow> cmd" where
  "add_arg w (EXEC ws) = EXEC (ws @ [w])"
| "add_arg w (REDIR c f m fd) = REDIR (add_arg w c) f m fd"
| "add_arg w c = c"

function parseargs :: "bytes \<Rightarrow> nat \<Rightarrow> nat \<Rightarrow> cmd \<Rightarrow> nat \<Rightarrow> (cmd \<times> nat) res" where
  "parseargs s es argc ret i =
     bindE (peek s es i ''|)&;'') (\<lambda>(i, b).
     if b then Inr (ret, i)
     else bindE (gettoken s es i) (\<lambda>(tok, q, eq, i).
          if tok = 0 then Inr (ret, i)
          else if tok \<noteq> ch CHR ''a'' then Inl (Panic ''syntax'')
          else if argc + 1 \<ge> MAXARGS then Inl (Panic ''too many args'')
          else bindE (parseredirs s es (add_arg (q, eq) ret) i) (\<lambda>(ret, i). parseargs s es (argc + 1) ret i)))"
  by pat_completeness auto
termination
  by (relation "measure (\<lambda>(s, es, argc, ret, i). MAXARGS - argc)") auto

declare parseargs.simps [simp del]

function parsebacks :: "bytes \<Rightarrow> nat \<Rightarrow> cmd \<Rightarrow> nat \<Rightarrow> (cmd \<times> nat) res" where
  "parsebacks s es c i =
     bindE (peek s es i ''&'') (\<lambda>(i, b).
     if \<not> b then Inr (c, i) else bindE (gettoken s es i) (\<lambda>(_, _, _, i). parsebacks s es (BACK c) i))"
  by pat_completeness auto
termination
proof (relation "measure (\<lambda>(s, es, c, i). es - i)")
  fix s :: bytes and es i j k q e :: nat and c :: cmd and b t and x y z u
  assume "peek s es i ''&'' = Inr x" "(j, b) = x" "\<not> \<not> b" "gettoken s es j = Inr y" "(t, z) = y" "(q, u) = z" "(e, k) = u"
  then have p: "peek s es i ''&'' = Inr (j, True)" "gettoken s es j = Inr (t, q, e, k)" by auto
  then show "((s, es, BACK c, k), s, es, c, i) \<in> measure (\<lambda>(s, es, c, i). es - i)"
    using peek_ge [OF p(1)] peek_token [OF p] gettoken_progress [OF p(2)] by auto
qed simp

declare parsebacks.simps [simp del]

text \<open>
  The four procedures that call each other. Each is given the meaning of the calls it makes; \<open>call\<close> ties them together, with a
  bound on the depth of the calls.
\<close>

datatype procedure = Parseline | Parsepipe | Parseexec | Parseblock

type_synonym calls = "procedure \<Rightarrow> nat \<Rightarrow> (cmd \<times> nat) res"

definition parseline :: "calls \<Rightarrow> bytes \<Rightarrow> nat \<Rightarrow> nat \<Rightarrow> (cmd \<times> nat) res" where
  "parseline do_call s es i =
     bindE (do_call Parsepipe i) (\<lambda>(c, i).
     bindE (parsebacks s es c i) (\<lambda>(c, i).
     bindE (peek s es i '';'') (\<lambda>(i, b).
     if b then bindE (gettoken s es i) (\<lambda>(_, _, _, i). bindE (do_call Parseline i) (\<lambda>(r, i). Inr (LIST c r, i)))
     else Inr (c, i))))"

definition parsepipe :: "calls \<Rightarrow> bytes \<Rightarrow> nat \<Rightarrow> nat \<Rightarrow> (cmd \<times> nat) res" where
  "parsepipe do_call s es i =
     bindE (do_call Parseexec i) (\<lambda>(c, i).
     bindE (peek s es i ''|'') (\<lambda>(i, b).
     if b then bindE (gettoken s es i) (\<lambda>(_, _, _, i). bindE (do_call Parsepipe i) (\<lambda>(r, i). Inr (PIPE c r, i)))
     else Inr (c, i)))"

definition parseexec :: "calls \<Rightarrow> bytes \<Rightarrow> nat \<Rightarrow> nat \<Rightarrow> (cmd \<times> nat) res" where
  "parseexec do_call s es i =
     bindE (peek s es i ''('') (\<lambda>(i, b).
     if b then do_call Parseblock i
     else bindE (parseredirs s es (EXEC []) i) (\<lambda>(ret, i). parseargs s es 0 ret i))"

definition parseblock :: "calls \<Rightarrow> bytes \<Rightarrow> nat \<Rightarrow> nat \<Rightarrow> (cmd \<times> nat) res" where
  "parseblock do_call s es i =
     bindE (peek s es i ''('') (\<lambda>(i, b).
     if \<not> b then Inl (Panic ''parseblock'')
     else bindE (gettoken s es i) (\<lambda>(_, _, _, i).
          bindE (do_call Parseline i) (\<lambda>(c, i).
          bindE (peek s es i '')'') (\<lambda>(i, b).
          if \<not> b then Inl (Panic ''syntax - missing )'')
          else bindE (gettoken s es i) (\<lambda>(_, _, _, i). parseredirs s es c i)))))"

primrec call :: "bytes \<Rightarrow> nat \<Rightarrow> nat \<Rightarrow> calls" where
  "call s es 0 = (\<lambda>f i. Inl Diverges)"
| "call s es (Suc n) =
     (\<lambda>f i. case f of
        Parseline \<Rightarrow> parseline (call s es n) s es i
      | Parsepipe \<Rightarrow> parsepipe (call s es n) s es i
      | Parseexec \<Rightarrow> parseexec (call s es n) s es i
      | Parseblock \<Rightarrow> parseblock (call s es n) s es i)"

text \<open>\<open>nulterminate\<close>, with the bounds of the buffer.\<close>

definition cut :: "span \<Rightarrow> bytes \<Rightarrow> bytes res" where
  "cut w b = (if snd w < length b then Inr (b[snd w := 0]) else Inl OutOfBounds)"

primrec cut_all :: "span list \<Rightarrow> bytes \<Rightarrow> bytes res" where
  "cut_all [] b = Inr b"
| "cut_all (w # ws) b = bindE (cut w b) (cut_all ws)"

primrec nulterminate :: "cmd \<Rightarrow> bytes \<Rightarrow> bytes res" where
  "nulterminate (EXEC ws) b = cut_all ws b"
| "nulterminate (REDIR c f m fd) b = bindE (nulterminate c b) (cut f)"
| "nulterminate (PIPE l r) b = bindE (nulterminate l b) (nulterminate r)"
| "nulterminate (LIST l r) b = bindE (nulterminate l b) (nulterminate r)"
| "nulterminate (BACK c) b = nulterminate c b"

definition parsecmd :: "bytes \<Rightarrow> (cmd \<times> bytes) res" where
  "parsecmd s =
     bindE (strlen s) (\<lambda>es.
     bindE (call s es (4 * es + 3) Parseline 0) (\<lambda>(c, i).
     bindE (peek s es i []) (\<lambda>(i, _).
     if i \<noteq> es then Inl (Panic ''syntax'')
     else mapE (Pair c) (nulterminate c s))))"

section \<open>The parser always ends\<close>

text \<open>
  \<open>good es i r\<close>: the result \<open>r\<close> of a parser called at \<open>i\<close> is a command and a position further on, or a syntax error; it is neither
  out of fuel nor an access beyond the line.
\<close>

definition good :: "nat \<Rightarrow> nat \<Rightarrow> (cmd \<times> nat) res \<Rightarrow> bool" where
  "good es i r \<longleftrightarrow> (case r of Inr (c, j) \<Rightarrow> i \<le> j \<and> j \<le> es | Inl (Panic m) \<Rightarrow> True | Inl _ \<Rightarrow> False)"

lemma good_simps [simp]: "good es i (Inr (c, j)) \<longleftrightarrow> i \<le> j \<and> j \<le> es" "good es i (Inl (Panic m))"
  by (simp_all add: good_def)

lemma good_bind:
  assumes "good es i m" and "\<And>c j. m = Inr (c, j) \<Longrightarrow> i \<le> j \<Longrightarrow> j \<le> es \<Longrightarrow> good es i (f (c, j))"
  shows "good es i (bindE m f)"
  using assms by (auto simp: good_def bindE_def split: sum.splits prod.splits fault.splits)

lemma good_mono: "good es j r \<Longrightarrow> i \<le> j \<Longrightarrow> good es i r"
  by (auto simp: good_def split: sum.splits prod.splits fault.splits)

lemma peek_total:
  assumes "es < length s" and "s ! es = 0" and "i \<le> es"
  shows "\<exists>j b. peek s es i toks = Inr (j, b) \<and> i \<le> j \<and> j \<le> es \<and> in_line s es j"
  using skip_le [OF assms(3)] assms by (auto simp: peek_def in_line_def Let_def)

lemma gettoken_total:
  assumes "es < length s" and "s ! es = 0" and "i \<le> es"
  shows "\<exists>t q e j. gettoken s es i = Inr (t, q, e, j) \<and> i \<le> j \<and> j \<le> es \<and> (t \<noteq> 0 \<longrightarrow> i < j)"
proof -
  obtain t q e j where "gettoken s es i = Inr (t, q, e, j)"
    using assms by (cases "lex_token s es (skip is_ws s es i)") (auto simp: gettoken_def in_line_def Let_def)
  from gettoken_progress [OF this] this show ?thesis by auto
qed

lemma redirs_good:
  assumes "es < length s" and "s ! es = 0" and "i \<le> es"
  shows "good es i (parseredirs s es c i)"
  using assms(3)
proof (induction "es - i" arbitrary: i c rule: less_induct)
  case less
  obtain j b where j: "peek s es i ''<>'' = Inr (j, b)" "i \<le> j" "j \<le> es" using peek_total [OF assms(1,2) less.prems] by blast
  show ?case
  proof (cases b)
    case False
    then show ?thesis using j by (simp add: parseredirs.simps [of s es c i])
  next
    case True
    obtain t q e k where k: "gettoken s es j = Inr (t, q, e, k)" "k \<le> es" using gettoken_total [OF assms(1,2) j(3)] by blast
    have "t \<noteq> 0" using peek_token [of s es i "''<>''" j t q e k] j(1) True k(1) by simp
    then have jk: "j < k" using gettoken_progress [OF k(1)] by simp
    obtain t' q' e' k' where k': "gettoken s es k = Inr (t', q', e', k')" "k \<le> k'" "k' \<le> es" using gettoken_total [OF assms(1,2) k(2)] by blast
    have "good es k' (parseredirs s es c' k')" for c' using less.hyps [of k' c'] j(2) jk k' by simp
    then have "good es i (parseredirs s es c' k')" for c' by (rule good_mono) (use j(2) jk k'(2) in simp)
    then show ?thesis using j(1) k(1) k'(1) True by (simp add: parseredirs.simps [of s es c i])
  qed
qed

lemma args_good:
  assumes "es < length s" and "s ! es = 0" and "i \<le> es"
  shows "good es i (parseargs s es n c i)"
  using assms(3)
proof (induction "MAXARGS - n" arbitrary: n i c rule: less_induct)
  case less
  obtain j b where j: "peek s es i ''|)&;'' = Inr (j, b)" "i \<le> j" "j \<le> es" using peek_total [OF assms(1,2) less.prems] by blast
  obtain t q e k where k: "gettoken s es j = Inr (t, q, e, k)" "j \<le> k" "k \<le> es" using gettoken_total [OF assms(1,2) j(3)] by blast
  have r: "good es i (parseredirs s es c' k)" for c'
    by (rule good_mono [OF redirs_good [OF assms(1,2) k(3)]]) (use j(2) k(2) in simp)
  have "good es i (bindE (parseredirs s es c' k) (\<lambda>(c, i). parseargs s es (n + 1) c i))" if "\<not> n + 1 \<ge> MAXARGS" for c'
  proof (rule good_bind [OF r])
    fix d l
    assume l: "i \<le> l" "l \<le> es"
    have "good es l (parseargs s es (n + 1) d l)" using less.hyps [of "n + 1" l d] that l by simp
    from good_mono [OF this l(1)] show "good es i (case (d, l) of (c, i) \<Rightarrow> parseargs s es (n + 1) c i)" by simp
  qed
  then show ?case using j k by (simp add: parseargs.simps [of s es n c i])
qed

lemma backs_good:
  assumes "es < length s" and "s ! es = 0" and "i \<le> es"
  shows "good es i (parsebacks s es c i)"
  using assms(3)
proof (induction "es - i" arbitrary: i c rule: less_induct)
  case less
  obtain j b where j: "peek s es i ''&'' = Inr (j, b)" "i \<le> j" "j \<le> es" using peek_total [OF assms(1,2) less.prems] by blast
  show ?case
  proof (cases b)
    case False
    then show ?thesis using j by (simp add: parsebacks.simps [of s es c i])
  next
    case True
    obtain t q e k where k: "gettoken s es j = Inr (t, q, e, k)" "k \<le> es" using gettoken_total [OF assms(1,2) j(3)] by blast
    have "t \<noteq> 0" using peek_token [of s es i "''&''" j t q e k] j(1) True k(1) by simp
    then have jk: "j < k" using gettoken_progress [OF k(1)] by simp
    have "good es k (parsebacks s es (BACK c) k)" using less.hyps [of k] j(2) jk k by simp
    then have "good es i (parsebacks s es (BACK c) k)" by (rule good_mono) (use j(2) jk in simp)
    then show ?thesis using j(1) k(1) True by (simp add: parsebacks.simps [of s es c i])
  qed
qed

text \<open>The depth of calls that is enough for a procedure with \<open>k\<close> characters left.\<close>

primrec need :: "procedure \<Rightarrow> nat \<Rightarrow> nat" where
  "need Parseline k = 4 * k + 3"
| "need Parsepipe k = 4 * k + 2"
| "need Parseexec k = 4 * k + 1"
| "need Parseblock k = max 1 (4 * k)"

lemma good_peek:
  assumes "es < length s" and "s ! es = 0" and "k \<le> es"
    and "\<And>l. k \<le> l \<Longrightarrow> l \<le> es \<Longrightarrow> good es i (g l)" and "\<And>m. k < m \<Longrightarrow> m \<le> es \<Longrightarrow> good es i (f m)"
  shows "good es i (bindE (peek s es k toks) (\<lambda>(l, b). if b then bindE (gettoken s es l) (\<lambda>(_, _, _, m). f m) else g l))"
proof -
  obtain l b where l: "peek s es k toks = Inr (l, b)" "k \<le> l" "l \<le> es" using peek_total [OF assms(1-3)] by blast
  obtain t q e m where m: "gettoken s es l = Inr (t, q, e, m)" "l \<le> m" "m \<le> es" "t \<noteq> 0 \<longrightarrow> l < m" using gettoken_total [OF assms(1,2) l(3)] by blast
  have "k < m" if b using peek_token [of s es k toks l t q e m] l m that by auto
  then show ?thesis using l m assms(4,5) by auto
qed

lemma call_good:
  assumes "es < length s" and "s ! es = 0"
  shows "i \<le> es \<Longrightarrow> need f (es - i) \<le> n \<Longrightarrow> good es i (call s es n f i)"
proof (induction n arbitrary: f i)
  case 0
  then show ?case by (cases f) auto
next
  case (Suc n)
  have rec: "good es i (call s es n g j)" if "i \<le> j" "j \<le> es" "need g (es - j) \<le> n" for g j
    by (rule good_mono [OF Suc.IH that(1)]) (use that in auto)
  show ?case
  proof (cases f)
    case Parseline
    have 1: "good es i (call s es n Parsepipe i)" using Suc.prems Parseline by (intro rec) auto
    have 2: "good es i (parsebacks s es c j)" if "i \<le> j" "j \<le> es" for c j
      by (rule good_mono [OF backs_good [OF assms that(2)] that(1)])
    have 3: "good es i (bindE (call s es n Parseline m) (\<lambda>(r, i). Inr (LIST c r, i)))" if "i < m" "m \<le> es" for c m
      using that Suc.prems Parseline by (intro good_bind rec) auto
    show ?thesis unfolding Parseline call.simps procedure.case parseline_def
      by (rule good_bind [OF 1]) (auto intro!: good_bind [OF 2] good_peek [OF assms] 3)
  next
    case Parsepipe
    have 1: "good es i (call s es n Parseexec i)" using Suc.prems Parsepipe by (intro rec) auto
    have 3: "good es i (bindE (call s es n Parsepipe m) (\<lambda>(r, i). Inr (PIPE c r, i)))" if "i < m" "m \<le> es" for c m
      using that Suc.prems Parsepipe by (intro good_bind rec) auto
    show ?thesis unfolding Parsepipe call.simps procedure.case parsepipe_def
      by (rule good_bind [OF 1]) (auto intro!: good_peek [OF assms] 3)
  next
    case Parseexec
    obtain l b where l: "peek s es i ''('' = Inr (l, b)" "i \<le> l" "l \<le> es" using peek_total [OF assms Suc.prems(1)] by blast
    have "l < es" if b using l(1,3) that assms(2) by (cases "l = es") (auto simp: peek_def Let_def split: if_splits)
    then have 1: "good es i (call s es n Parseblock l)" if b using that l Suc.prems Parseexec by (intro rec) auto
    have 2: "good es i (parseredirs s es (EXEC []) l)" by (rule good_mono [OF redirs_good [OF assms l(3)] l(2)])
    have 3: "good es i (parseargs s es 0 c j)" if "i \<le> j" "j \<le> es" for c j by (rule good_mono [OF args_good [OF assms that(2)] that(1)])
    show ?thesis unfolding Parseexec call.simps procedure.case parseexec_def using 1 by (auto simp: l(1) intro!: good_bind [OF 2] 3)
  next
    case Parseblock
    have 2: "good es i (parseredirs s es c j)" if "i \<le> j" "j \<le> es" for c j by (rule good_mono [OF redirs_good [OF assms that(2)] that(1)])
    have 1: "good es i (call s es n Parseline m)" if "i < m" "m \<le> es" for m using that Suc.prems Parseblock by (intro rec) auto
    have neg: "(if \<not> b then x else y) = (if b then y else x)" for b and x y :: "(cmd \<times> nat) res" by simp
    show ?thesis unfolding Parseblock call.simps procedure.case parseblock_def neg
      by (rule good_peek [OF assms Suc.prems(1)]) (auto intro!: good_bind [OF 1] good_peek [OF assms] 2)
  qed
qed

section \<open>The line as a sequence of tokens\<close>

type_synonym token = "uchar \<times> nat \<times> nat"

function toks :: "bytes \<Rightarrow> nat \<Rightarrow> nat \<Rightarrow> token list" where
  "toks s es i =
     (case gettoken s es i of
        Inr (t, q, e, j) \<Rightarrow> if t = 0 then [] else (t, q, e) # toks s es j
      | Inl _ \<Rightarrow> [])"
  by pat_completeness auto
termination
  by (relation "measure (\<lambda>(s, es, i). es - i)") (auto dest!: gettoken_progress)

declare toks.simps [simp del]

definition kind :: "token list \<Rightarrow> uchar" where
  "kind ts = (case ts of [] \<Rightarrow> 0 | (t, q, e) # _ \<Rightarrow> t)"

lemma kind_simps [simp]: "kind [] = 0" "kind ((t, q, e) # ts) = t"
  by (simp_all add: kind_def)

text \<open>\<open>>\<close> begins the token \<open>>>\<close>, too.\<close>

definition among :: "string \<Rightarrow> uchar \<Rightarrow> bool" where
  "among T t \<longleftrightarrow> t \<in> set (bytes_of T) \<or> t = ch CHR ''+'' \<and> ch CHR ''>'' \<in> set (bytes_of T)"

lemma lex_first:
  assumes "lex_token s es q = (t, e)"
  shows "s ! q = 0 \<and> t = 0 \<or> s ! q \<in> set (bytes_of ''|();&<'') \<and> t = s ! q \<or> s ! q = ch CHR ''>'' \<and> (t = ch CHR ''>'' \<or> t = ch CHR ''+'') \<or>
    s ! q \<notin> set symbols \<and> s ! q \<noteq> 0 \<and> t = ch CHR ''a''"
  using assms symbol_not_word [of "s ! q"] by (auto simp: lex_token_def Let_def split: if_splits)

lemma gettoken_lex:
  assumes "es < length s" and "s ! es = 0" and "i \<le> es" and "lex_token s es (skip is_ws s es i) = (t, e)"
  shows "gettoken s es i = Inr (t, skip is_ws s es i, e, skip is_ws s es e)"
  using assms by (simp add: gettoken_def in_line_def Let_def)

lemma toks_skip:
  assumes "es < length s" and "s ! es = 0" and "i \<le> es"
  shows "toks s es (skip is_ws s es i) = toks s es i"
proof -
  obtain t e where "lex_token s es (skip is_ws s es i) = (t, e)" by fastforce
  then have "gettoken s es (skip is_ws s es i) = gettoken s es i"
    using gettoken_lex [OF assms] gettoken_lex [OF assms(1,2), of "skip is_ws s es i"] skip_le [OF assms(3)] skip_id [of is_ws s es i] by simp
  then show ?thesis by (simp add: toks.simps [of s es])
qed

lemma gettoken_Cons:
  assumes "es < length s" and "s ! es = 0" and "i \<le> es" and "toks s es i = (t, q, e) # ts"
  shows "\<exists>j. gettoken s es i = Inr (t, q, e, j) \<and> toks s es j = ts \<and> i < j \<and> j \<le> es \<and> t \<noteq> 0"
proof -
  obtain t' q' e' j where g: "gettoken s es i = Inr (t', q', e', j)" using gettoken_total [OF assms(1-3)] by blast
  then show ?thesis using assms(4) gettoken_progress [OF g] by (auto simp: toks.simps [of s es i] split: if_splits)
qed

lemma gettoken_Nil:
  assumes "es < length s" and "s ! es = 0" and "i \<le> es" and "toks s es i = []"
  shows "\<exists>q e j. gettoken s es i = Inr (0, q, e, j) \<and> i \<le> j \<and> j \<le> es \<and> toks s es j = []"
proof -
  obtain t' q' e' j where g: "gettoken s es i = Inr (t', q', e', j)" using gettoken_total [OF assms(1-3)] by blast
  then have t: "t' = 0" using assms(4) by (auto simp: toks.simps [of s es i] split: if_splits)
  have l: "q' = skip is_ws s es i" "lex_token s es q' = (t', e')" "j = skip is_ws s es e'"
    using g by (auto simp: gettoken_def Let_def split: if_splits prod.splits)
  then have "e' = q'" using t lex_first [OF l(2)] by (auto simp: lex_token_def bytes_of_def)
  then have "toks s es j = toks s es i" using l toks_skip [OF assms(1-3)] skip_id [of is_ws s es i] by simp
  then show ?thesis using g t gettoken_progress [OF g] assms(4) by auto
qed

lemma peek_toks:
  assumes "es < length s" and "s ! es = 0" and "i \<le> es" and "set T \<subseteq> set ''<|>&;()''"
  shows "\<exists>j. peek s es i T = Inr (j, among T (kind (toks s es i))) \<and> i \<le> j \<and> j \<le> es \<and> toks s es j = toks s es i"
proof -
  let ?j = "skip is_ws s es i"
  obtain t e where l: "lex_token s es ?j = (t, e)" by fastforce
  have k: "kind (toks s es i) = t" using gettoken_lex [OF assms(1-3) l] by (simp add: toks.simps [of s es i])
  have sub: "set (bytes_of T) \<subseteq> set symbols" using assms(4) by (auto simp: bytes_of_def symbols_def)
  have n: "ch CHR ''a'' \<notin> set symbols" "ch CHR ''+'' \<notin> set symbols" "0 \<notin> set symbols" by (simp_all add: symbols_def bytes_of_def)
  from lex_first [OF l] have "s ! ?j \<noteq> 0 \<and> s ! ?j \<in> set (bytes_of T) \<longleftrightarrow> among T t"
  proof (elim disjE conjE)
    assume "s ! ?j \<in> set (bytes_of ''|();&<'')" "t = s ! ?j"
    then show ?thesis using symbol_not_word [of t] n unfolding among_def by metis
  next
    assume "s ! ?j \<notin> set symbols" "t = ch CHR ''a''"
    then show ?thesis using sub n by (auto simp: among_def)
  qed (use sub n in \<open>auto simp: among_def\<close>)
  then show ?thesis using k assms(1-3) skip_le [OF assms(3)] toks_skip [OF assms(1-3)] by (auto simp: peek_def in_line_def Let_def)
qed

section \<open>The grammar\<close>

text \<open>
  \<open>redirs c ts c'\<close>: the redirections \<open>ts\<close> after the command \<open>c\<close> make it \<open>c'\<close>. \<open>args n c ts c'\<close>: the words and redirections
  \<open>ts\<close> after a command with \<open>n\<close> arguments. The other three are the syntactic categories of the shell.
\<close>

inductive redirs :: "cmd \<Rightarrow> token list \<Rightarrow> cmd \<Rightarrow> bool" where
  no_redir: "redirs c [] c"
| redir: "t \<in> {ch CHR ''<'', ch CHR ''>'', ch CHR ''+''} \<Longrightarrow> redirs (redir t c q e) ts c' \<Longrightarrow>
    redirs c ((t, q0, e0) # (ch CHR ''a'', q, e) # ts) c'"

inductive args :: "nat \<Rightarrow> cmd \<Rightarrow> token list \<Rightarrow> cmd \<Rightarrow> bool" where
  no_arg: "args n c [] c"
| arg: "n + 1 < MAXARGS \<Longrightarrow> redirs (add_arg (q, e) c) ts c1 \<Longrightarrow> args (n + 1) c1 us c2 \<Longrightarrow> args n c ((ch CHR ''a'', q, e) # ts @ us) c2"

fun backs :: "nat \<Rightarrow> cmd \<Rightarrow> cmd" where
  "backs 0 c = c"
| "backs (Suc k) c = backs k (BACK c)"

inductive gexec :: "token list \<Rightarrow> cmd \<Rightarrow> bool" and gpipe :: "token list \<Rightarrow> cmd \<Rightarrow> bool" and gline :: "token list \<Rightarrow> cmd \<Rightarrow> bool" where
  simple: "redirs (EXEC []) ts c \<Longrightarrow> args 0 c us c' \<Longrightarrow> gexec (ts @ us) c'"
| block: "gline ts c \<Longrightarrow> redirs c us c' \<Longrightarrow> gexec ((ch CHR ''('', q, e) # ts @ (ch CHR '')'', q', e') # us) c'"
| stage: "gexec ts c \<Longrightarrow> gpipe ts c"
| piped: "gexec ts c \<Longrightarrow> gpipe us d \<Longrightarrow> gpipe (ts @ (ch CHR ''|'', q, e) # us) (PIPE c d)"
| line: "gpipe ts c \<Longrightarrow> \<forall>t\<in>set bs. fst t = ch CHR ''&'' \<Longrightarrow> gline (ts @ bs) (backs (length bs) c)"
| lines: "gpipe ts c \<Longrightarrow> \<forall>t\<in>set bs. fst t = ch CHR ''&'' \<Longrightarrow> gline us d \<Longrightarrow>
    gline (ts @ bs @ (ch CHR '';'', q, e) # us) (LIST (backs (length bs) c) d)"

lemmas token_facts = among_def bytes_of_def

section \<open>Soundness\<close>

lemma redirs_sound:
  assumes "es < length s" and "s ! es = 0"
  shows "i \<le> es \<Longrightarrow> parseredirs s es c i = Inr (c', j) \<Longrightarrow> \<exists>ts. toks s es i = ts @ toks s es j \<and> redirs c ts c'"
proof (induction "es - i" arbitrary: i c rule: less_induct)
  case less
  obtain k where k: "peek s es i ''<>'' = Inr (k, among ''<>'' (kind (toks s es i)))" "i \<le> k" "k \<le> es" "toks s es k = toks s es i"
    using peek_toks [OF assms less.prems(1), of "''<>''"] by auto
  show ?case
  proof (cases "among ''<>'' (kind (toks s es i))")
    case False
    then have "c' = c" "j = k" using less.prems(2) k(1) by (auto simp: parseredirs.simps [of s es c i])
    then show ?thesis using k(4) redirs.no_redir by (metis append_Nil)
  next
    case True
    then obtain t q e ts where T: "toks s es i = (t, q, e) # ts" by (cases "toks s es i") (auto simp: token_facts)
    obtain l where l: "gettoken s es k = Inr (t, q, e, l)" "toks s es l = ts" "k < l" "l \<le> es"
      using gettoken_Cons [OF assms k(3)] T k(4) by metis
    obtain t' q' e' m where m: "gettoken s es l = Inr (t', q', e', m)" using gettoken_total [OF assms l(4)] by blast
    have run: "t' = ch CHR ''a''" "parseredirs s es (redir t c q' e') m = Inr (c', j)"
      using less.prems(2) k(1) True l(1) m by (auto simp: parseredirs.simps [of s es c i] split: if_splits)
    have ts: "ts = (t', q', e') # toks s es m" using m run(1) l(2) by (simp add: toks.simps [of s es l])
    have im: "i < m" "m \<le> es" using gettoken_progress [OF m] k(2) l(3) by linarith+
    then have "es - m < es - i" by simp
    from less.hyps [OF this im(2) run(2)] obtain us where "toks s es m = us @ toks s es j" "redirs (redir t c q' e') us c'" by blast
    moreover have "t \<in> {ch CHR ''<'', ch CHR ''>'', ch CHR ''+''}" using True T by (auto simp: token_facts)
    ultimately show ?thesis using T ts run(1) redirs.redir by (metis append_Cons)
  qed
qed

lemma args_sound:
  assumes "es < length s" and "s ! es = 0"
  shows "i \<le> es \<Longrightarrow> parseargs s es n c i = Inr (c', j) \<Longrightarrow> \<exists>ts. toks s es i = ts @ toks s es j \<and> args n c ts c'"
proof (induction "MAXARGS - n" arbitrary: n i c rule: less_induct)
  case less
  obtain k where k: "peek s es i ''|)&;'' = Inr (k, among ''|)&;'' (kind (toks s es i)))" "i \<le> k" "k \<le> es" "toks s es k = toks s es i"
    using peek_toks [OF assms less.prems(1), of "''|)&;''"] by auto
  show ?case
  proof (cases "among ''|)&;'' (kind (toks s es i))")
    case True
    then have "c' = c" "j = k" using less.prems(2) k(1) by (auto simp: parseargs.simps [of s es n c i])
    then show ?thesis using k(4) args.no_arg by (metis append_Nil)
  next
    case False
    show ?thesis
    proof (cases "toks s es i")
      case Nil
      obtain q e l where l: "gettoken s es k = Inr (0, q, e, l)" "toks s es l = []" using gettoken_Nil [OF assms k(3)] Nil k(4) by auto
      then have "c' = c" "j = l" using less.prems(2) k(1) False by (auto simp: parseargs.simps [of s es n c i])
      then show ?thesis using Nil l(2) args.no_arg by auto
    next
      case (Cons a ts)
      obtain t q e where a: "a = (t, q, e)" by (cases a)
      obtain l where l: "gettoken s es k = Inr (t, q, e, l)" "toks s es l = ts" "k < l" "l \<le> es" "t \<noteq> 0"
        using gettoken_Cons [OF assms k(3)] Cons a k(4) by metis
      obtain c1 m where run: "t = ch CHR ''a''" "\<not> n + 1 \<ge> MAXARGS" "parseredirs s es (add_arg (q, e) c) l = Inr (c1, m)" "parseargs s es (n + 1) c1 m = Inr (c', j)"
        using less.prems(2) k(1) False l(1,5) by (auto simp: parseargs.simps [of s es n c i] split: if_splits)
      have m: "m \<le> es" using redirs_good [OF assms l(4), of "add_arg (q, e) c"] run(3) by simp
      obtain us where us: "toks s es l = us @ toks s es m" "redirs (add_arg (q, e) c) us c1" using redirs_sound [OF assms l(4) run(3)] by blast
      have "MAXARGS - (n + 1) < MAXARGS - n" using run(2) by simp
      from less.hyps [OF this m run(4)] obtain vs where vs: "toks s es m = vs @ toks s es j" "args (n + 1) c1 vs c'" by blast
      have "args n c ((ch CHR ''a'', q, e) # us @ vs) c'" using run(2) by (intro args.arg [OF _ us(2) vs(2)]) simp
      then show ?thesis using Cons a l(2) us(1) vs(1) run(1) by (intro exI [of _ "(ch CHR ''a'', q, e) # us @ vs"]) simp
    qed
  qed
qed

lemma backs_sound:
  assumes "es < length s" and "s ! es = 0"
  shows "i \<le> es \<Longrightarrow> parsebacks s es c i = Inr (c', j) \<Longrightarrow>
    \<exists>bs. toks s es i = bs @ toks s es j \<and> (\<forall>t\<in>set bs. fst t = ch CHR ''&'') \<and> c' = backs (length bs) c"
proof (induction "es - i" arbitrary: i c rule: less_induct)
  case less
  obtain k where k: "peek s es i ''&'' = Inr (k, among ''&'' (kind (toks s es i)))" "i \<le> k" "k \<le> es" "toks s es k = toks s es i"
    using peek_toks [OF assms less.prems(1), of "''&''"] by auto
  show ?case
  proof (cases "among ''&'' (kind (toks s es i))")
    case False
    then have "c' = c" "j = k" using less.prems(2) k(1) by (auto simp: parsebacks.simps [of s es c i])
    then show ?thesis using k(4) by (intro exI [of _ "[]"]) simp
  next
    case True
    then obtain q e ts where T: "toks s es i = (ch CHR ''&'', q, e) # ts" by (cases "toks s es i") (auto simp: token_facts)
    obtain l where l: "gettoken s es k = Inr (ch CHR ''&'', q, e, l)" "toks s es l = ts" "k < l" "l \<le> es"
      using gettoken_Cons [OF assms k(3)] T k(4) by metis
    have run: "parsebacks s es (BACK c) l = Inr (c', j)" using less.prems(2) k(1) True l(1) by (simp add: parsebacks.simps [of s es c i])
    have "es - l < es - i" using k(2) l(3,4) by simp
    from less.hyps [OF this l(4) run] obtain bs where bs: "toks s es l = bs @ toks s es j" "\<forall>t\<in>set bs. fst t = ch CHR ''&''" "c' = backs (length bs) (BACK c)" by blast
    then show ?thesis using T l(2) by (intro exI [of _ "(ch CHR ''&'', q, e) # bs"]) simp
  qed
qed

primrec derives :: "procedure \<Rightarrow> token list \<Rightarrow> cmd \<Rightarrow> bool" where
  "derives Parseline = gline"
| "derives Parsepipe = gpipe"
| "derives Parseexec = gexec"
| "derives Parseblock = gexec"

lemma peek_get:
  assumes "es < length s" and "s ! es = 0" and "i \<le> es" and "set T \<subseteq> set ''<|>&;()''" and "peek s es i T = Inr (j, b)"
  shows "b = among T (kind (toks s es i)) \<and> i \<le> j \<and> j \<le> es \<and> toks s es j = toks s es i"
  using peek_toks [OF assms(1-4)] assms(5) by auto

lemma one_token:
  assumes "es < length s" and "s ! es = 0" and "i \<le> es" and "x \<in> set ''<|&;()''" and "peek s es i [x] = Inr (j, True)" and "gettoken s es j = Inr (t, q, e, k)"
  shows "toks s es i = (ch x, q, e) # toks s es k \<and> i < k \<and> k \<le> es"
proof -
  have p: "among [x] (kind (toks s es i))" "i \<le> j" "j \<le> es" "toks s es j = toks s es i"
    using peek_get [OF assms(1-3) _ assms(5)] assms(4) by auto
  then obtain t' q' e' ts where T: "toks s es i = (t', q', e') # ts" "t' = ch x" using assms(4)
    by (cases "toks s es i") (auto simp: token_facts)
  then show ?thesis using gettoken_Cons [OF assms(1,2) p(3)] p(2,4) assms(6) by fastforce
qed

lemma call_sound:
  assumes "es < length s" and "s ! es = 0"
  shows "i \<le> es \<Longrightarrow> call s es n f i = Inr (c, j) \<Longrightarrow> i \<le> j \<and> j \<le> es \<and> (\<exists>ts. toks s es i = ts @ toks s es j \<and> derives f ts c)"
proof (induction n arbitrary: f i c j)
  case (Suc n)
  show ?case
  proof (cases f)
    case Parseline
    obtain c1 k c2 l m b where r: "call s es n Parsepipe i = Inr (c1, k)" "parsebacks s es c1 k = Inr (c2, l)" "peek s es l '';'' = Inr (m, b)"
      and r4: "if b then \<exists>t q e o' d. gettoken s es m = Inr (t, q, e, o') \<and> call s es n Parseline o' = Inr (d, j) \<and> c = LIST c2 d else c = c2 \<and> j = m"
      using Suc.prems(2) by (auto simp: Parseline parseline_def split: if_splits)
    obtain ts where ts: "i \<le> k" "k \<le> es" "toks s es i = ts @ toks s es k" "gpipe ts c1" using Suc.IH [OF Suc.prems(1) r(1)] by auto
    obtain bs where bs: "toks s es k = bs @ toks s es l" "\<forall>t\<in>set bs. fst t = ch CHR ''&''" "c2 = backs (length bs) c1" using backs_sound [OF assms ts(2) r(2)] by blast
    have l: "k \<le> l" "l \<le> es" using backs_good [OF assms ts(2), of c1] r(2) by simp_all
    have m: "l \<le> m" "m \<le> es" "toks s es m = toks s es l" using peek_get [OF assms l(2) _ r(3)] by auto
    show ?thesis
    proof (cases b)
      case False
      then show ?thesis using r4 ts bs l m gexec_gpipe_gline.line [OF ts(4) bs(2)] by (auto simp: Parseline intro!: exI [of _ "ts @ bs"])
    next
      case True
      then obtain t q e o' d where g: "gettoken s es m = Inr (t, q, e, o')" "call s es n Parseline o' = Inr (d, j)" "c = LIST c2 d" using r4 by auto
      have o: "toks s es l = (ch CHR '';'', q, e) # toks s es o'" "l < o'" "o' \<le> es" using one_token [OF assms l(2) _ _ g(1), of "CHR '';''"] r(3) True by auto
      obtain us where us: "o' \<le> j" "j \<le> es" "toks s es o' = us @ toks s es j" "gline us d" using Suc.IH [OF o(3) g(2)] by auto
      then show ?thesis using g(3) ts bs l o gexec_gpipe_gline.lines [OF ts(4) bs(2) us(4), of q e]
        by (auto simp: Parseline intro!: exI [of _ "ts @ bs @ (ch CHR '';'', q, e) # us"])
    qed
  next
    case Parsepipe
    obtain c1 k m b where r: "call s es n Parseexec i = Inr (c1, k)" "peek s es k ''|'' = Inr (m, b)"
      and r4: "if b then \<exists>t q e o' d. gettoken s es m = Inr (t, q, e, o') \<and> call s es n Parsepipe o' = Inr (d, j) \<and> c = PIPE c1 d else c = c1 \<and> j = m"
      using Suc.prems(2) by (auto simp: Parsepipe parsepipe_def split: if_splits)
    obtain ts where ts: "i \<le> k" "k \<le> es" "toks s es i = ts @ toks s es k" "gexec ts c1" using Suc.IH [OF Suc.prems(1) r(1)] by auto
    have m: "k \<le> m" "m \<le> es" "toks s es m = toks s es k" using peek_get [OF assms ts(2) _ r(2)] by auto
    show ?thesis
    proof (cases b)
      case False
      then show ?thesis using r4 ts m gexec_gpipe_gline.stage [OF ts(4)] by (auto simp: Parsepipe intro!: exI [of _ ts])
    next
      case True
      then obtain t q e o' d where g: "gettoken s es m = Inr (t, q, e, o')" "call s es n Parsepipe o' = Inr (d, j)" "c = PIPE c1 d" using r4 by auto
      have o: "toks s es k = (ch CHR ''|'', q, e) # toks s es o'" "k < o'" "o' \<le> es" using one_token [OF assms ts(2) _ _ g(1), of "CHR ''|''"] r(2) True by auto
      obtain us where us: "o' \<le> j" "j \<le> es" "toks s es o' = us @ toks s es j" "gpipe us d" using Suc.IH [OF o(3) g(2)] by auto
      then show ?thesis using g(3) ts o gexec_gpipe_gline.piped [OF ts(4) us(4), of q e]
        by (auto simp: Parsepipe intro!: exI [of _ "ts @ (ch CHR ''|'', q, e) # us"])
    qed
  next
    case Parseexec
    obtain k b where k: "peek s es i ''('' = Inr (k, b)" using peek_total [OF assms Suc.prems(1)] by blast
    have m: "i \<le> k" "k \<le> es" "toks s es k = toks s es i" using peek_get [OF assms Suc.prems(1) _ k] by auto
    show ?thesis
    proof (cases b)
      case True
      then have "call s es n Parseblock k = Inr (c, j)" using Suc.prems(2) k by (simp add: Parseexec parseexec_def)
      from Suc.IH [OF m(2) this] show ?thesis using m by (auto simp: Parseexec)
    next
      case False
      then obtain c1 l where r: "parseredirs s es (EXEC []) k = Inr (c1, l)" "parseargs s es 0 c1 l = Inr (c, j)"
        using Suc.prems(2) k by (auto simp: Parseexec parseexec_def)
      have l: "k \<le> l" "l \<le> es" using redirs_good [OF assms m(2), of "EXEC []"] r(1) by simp_all
      have j: "l \<le> j" "j \<le> es" using args_good [OF assms l(2), of 0 c1] r(2) by simp_all
      obtain ts us where "toks s es k = ts @ toks s es l" "redirs (EXEC []) ts c1" "toks s es l = us @ toks s es j" "args 0 c1 us c"
        using redirs_sound [OF assms m(2) r(1)] args_sound [OF assms l(2) r(2)] by blast
      then show ?thesis using m l j gexec_gpipe_gline.simple by (auto simp: Parseexec intro!: exI [of _ "ts @ us"])
    qed
  next
    case Parseblock
    obtain k t q e l c1 m m' t' q' e' o' where r: "peek s es i ''('' = Inr (k, True)" "gettoken s es k = Inr (t, q, e, l)" "call s es n Parseline l = Inr (c1, m)"
      "peek s es m '')'' = Inr (m', True)" "gettoken s es m' = Inr (t', q', e', o')" "parseredirs s es c1 o' = Inr (c, j)"
      using Suc.prems(2) by (auto simp: Parseblock parseblock_def split: if_splits)
    have l: "toks s es i = (ch CHR ''('', q, e) # toks s es l" "i < l" "l \<le> es" using one_token [OF assms Suc.prems(1) _ r(1,2)] by auto
    obtain ts where ts: "l \<le> m" "m \<le> es" "toks s es l = ts @ toks s es m" "gline ts c1" using Suc.IH [OF l(3) r(3)] by auto
    have o: "toks s es m = (ch CHR '')'', q', e') # toks s es o'" "m < o'" "o' \<le> es" using one_token [OF assms ts(2) _ r(4,5)] by auto
    obtain us where us: "toks s es o' = us @ toks s es j" "redirs c1 us c" using redirs_sound [OF assms o(3) r(6)] by blast
    have "o' \<le> j" "j \<le> es" using redirs_good [OF assms o(3), of c1] r(6) by simp_all
    then show ?thesis using l ts o us gexec_gpipe_gline.block [OF ts(4) us(2), of q e q' e']
      by (auto simp: Parseblock intro!: exI [of _ "(ch CHR ''('', q, e) # ts @ (ch CHR '')'', q', e') # us"])
  qed
qed simp

section \<open>Completeness\<close>

definition follow :: "string \<Rightarrow> token list \<Rightarrow> bool" where
  "follow T rest \<longleftrightarrow> rest = [] \<or> among T (kind rest)"

definition parses :: "bytes \<Rightarrow> nat \<Rightarrow> nat \<Rightarrow> (cmd \<times> nat) res \<Rightarrow> cmd \<Rightarrow> token list \<Rightarrow> bool" where
  "parses s es i r c rest \<longleftrightarrow> (\<exists>j. r = Inr (c, j) \<and> i \<le> j \<and> j \<le> es \<and> toks s es j = rest)"

lemma redirs_complete:
  assumes "es < length s" and "s ! es = 0"
  shows "redirs c ts c' \<Longrightarrow> i \<le> es \<Longrightarrow> toks s es i = ts @ rest \<Longrightarrow> \<not> among ''<>'' (kind rest) \<Longrightarrow> parses s es i (parseredirs s es c i) c' rest"
proof (induction arbitrary: i rule: redirs.induct)
  case (no_redir c)
  then show ?case using peek_toks [OF assms no_redir(1), of "''<>''"] by (auto simp: parses_def parseredirs.simps [of s es c i])
next
  case (redir t c q e ts c' q0 e0)
  obtain k where k: "peek s es i ''<>'' = Inr (k, True)" "i \<le> k" "k \<le> es" "toks s es k = (t, q0, e0) # (ch CHR ''a'', q, e) # ts @ rest"
    using peek_toks [OF assms redir.prems(1), of "''<>''"] redir.prems(2) redir.hyps(1) by (auto simp: token_facts)
  obtain l where l: "gettoken s es k = Inr (t, q0, e0, l)" "toks s es l = (ch CHR ''a'', q, e) # ts @ rest" "k < l" "l \<le> es"
    using gettoken_Cons [OF assms k(3,4)] by blast
  obtain m where m: "gettoken s es l = Inr (ch CHR ''a'', q, e, m)" "toks s es m = ts @ rest" "l < m" "m \<le> es"
    using gettoken_Cons [OF assms l(4,2)] by blast
  show ?case using redir.IH [OF m(4,2) redir.prems(3)] k l m by (auto simp: parses_def parseredirs.simps [of s es c i])
qed

lemma args_kind: "args n c us c' \<Longrightarrow> us = [] \<or> kind us = ch CHR ''a''"
  by (induction rule: args.induct) auto

lemma redirs_kind: "redirs c ts c' \<Longrightarrow> ts = [] \<or> kind ts \<in> {ch CHR ''<'', ch CHR ''>'', ch CHR ''+''}"
  by (induction rule: redirs.induct) auto

lemma kind_append: "us \<noteq> [] \<Longrightarrow> kind (us @ vs) = kind us"
  by (cases us) (auto simp: kind_def)

lemma args_complete:
  assumes "es < length s" and "s ! es = 0"
  shows "args n c ts c' \<Longrightarrow> i \<le> es \<Longrightarrow> toks s es i = ts @ rest \<Longrightarrow> follow ''|)&;'' rest \<Longrightarrow> parses s es i (parseargs s es n c i) c' rest"
proof (induction arbitrary: i rule: args.induct)
  case (no_arg n c)
  obtain k where k: "peek s es i ''|)&;'' = Inr (k, among ''|)&;'' (kind rest))" "i \<le> k" "k \<le> es" "toks s es k = rest"
    using peek_toks [OF assms no_arg(1), of "''|)&;''"] no_arg(2) by auto
  show ?case
  proof (cases "among ''|)&;'' (kind rest)")
    case True
    then show ?thesis using k by (auto simp: parses_def parseargs.simps [of s es n c i])
  next
    case False
    then have "rest = []" using no_arg(3) by (simp add: follow_def)
    then show ?thesis using k False gettoken_Nil [OF assms k(3)] by (fastforce simp: parses_def parseargs.simps [of s es n c i])
  qed
next
  case (arg n q e c ts c1 us c2)
  obtain k where k: "peek s es i ''|)&;'' = Inr (k, False)" "i \<le> k" "k \<le> es" "toks s es k = (ch CHR ''a'', q, e) # (ts @ us @ rest)"
    using peek_toks [OF assms arg.prems(1), of "''|)&;''"] arg.prems(2) by (auto simp: token_facts)
  obtain l where l: "gettoken s es k = Inr (ch CHR ''a'', q, e, l)" "toks s es l = ts @ us @ rest" "k < l" "l \<le> es"
    using gettoken_Cons [OF assms k(3,4)] by blast
  have "\<not> among ''<>'' (kind (us @ rest))"
    using args_kind [OF arg.hyps(3)] arg.prems(3) by (cases "us = []") (auto simp: kind_append follow_def token_facts)
  from redirs_complete [OF assms arg.hyps(2) l(4,2) this]
  obtain m where m: "parseredirs s es (add_arg (q, e) c) l = Inr (c1, m)" "l \<le> m" "m \<le> es" "toks s es m = us @ rest" by (auto simp: parses_def)
  show ?case using arg.IH [OF m(3,4) arg.prems(3)] k l m arg.hyps(1) by (auto simp: parses_def parseargs.simps [of s es n c i])
qed

lemma backs_complete:
  assumes "es < length s" and "s ! es = 0"
  shows "\<forall>t\<in>set bs. fst t = ch CHR ''&'' \<Longrightarrow> i \<le> es \<Longrightarrow> toks s es i = bs @ rest \<Longrightarrow> \<not> among ''&'' (kind rest) \<Longrightarrow>
    parses s es i (parsebacks s es c i) (backs (length bs) c) rest"
proof (induction bs arbitrary: i c)
  case Nil
  then show ?case using peek_toks [OF assms Nil(2), of "''&''"] by (auto simp: parses_def parsebacks.simps [of s es c i])
next
  case (Cons b bs)
  obtain q e where b: "b = (ch CHR ''&'', q, e)" using Cons.prems(1) by (cases b) auto
  obtain k where k: "peek s es i ''&'' = Inr (k, True)" "i \<le> k" "k \<le> es" "toks s es k = (ch CHR ''&'', q, e) # (bs @ rest)"
    using peek_toks [OF assms Cons.prems(2), of "''&''"] Cons.prems(3) b by (auto simp: token_facts)
  obtain l where l: "gettoken s es k = Inr (ch CHR ''&'', q, e, l)" "toks s es l = bs @ rest" "k < l" "l \<le> es"
    using gettoken_Cons [OF assms k(3,4)] by blast
  show ?case using Cons.IH [OF _ l(4,2) Cons.prems(4), of "BACK c"] Cons.prems(1) k l by (auto simp: parses_def parsebacks.simps [of s es c i])
qed

lemma take_token:
  assumes "es < length s" and "s ! es = 0" and "i \<le> es" and "x \<in> set ''<|&;()''" and "toks s es i = (ch x, q, e) # ts"
  shows "\<exists>k j. peek s es i [x] = Inr (k, True) \<and> gettoken s es k = Inr (ch x, q, e, j) \<and> toks s es j = ts \<and> i < j \<and> j \<le> es"
proof -
  obtain k where k: "peek s es i [x] = Inr (k, True)" "i \<le> k" "k \<le> es" "toks s es k = (ch x, q, e) # ts"
    using peek_toks [OF assms(1-3), of "[x]"] assms(4,5) by (auto simp: token_facts)
  then show ?thesis using gettoken_Cons [OF assms(1,2) k(3,4)] by fastforce
qed

lemma no_token:
  assumes "es < length s" and "s ! es = 0" and "i \<le> es" and "x \<in> set ''<|&;()''" and "\<not> among [x] (kind (toks s es i))"
  shows "\<exists>k. peek s es i [x] = Inr (k, False) \<and> i \<le> k \<and> k \<le> es \<and> toks s es k = toks s es i"
  using peek_toks [OF assms(1-3), of "[x]"] assms(4,5) by auto

lemma call_complete:
  assumes "es < length s" and "s ! es = 0"
  shows "gexec ts c \<Longrightarrow> i \<le> es \<Longrightarrow> need Parseexec (es - i) \<le> n \<Longrightarrow> toks s es i = ts @ rest \<Longrightarrow> follow ''|)&;'' rest \<Longrightarrow>
      parses s es i (call s es n Parseexec i) c rest"
    and "gpipe ts c \<Longrightarrow> i \<le> es \<Longrightarrow> need Parsepipe (es - i) \<le> n \<Longrightarrow> toks s es i = ts @ rest \<Longrightarrow> follow '')&;'' rest \<Longrightarrow>
      parses s es i (call s es n Parsepipe i) c rest"
    and "gline ts c \<Longrightarrow> i \<le> es \<Longrightarrow> need Parseline (es - i) \<le> n \<Longrightarrow> toks s es i = ts @ rest \<Longrightarrow> follow '')'' rest \<Longrightarrow>
      parses s es i (call s es n Parseline i) c rest"
proof (induction arbitrary: i n rest and i n rest and i n rest rule: gexec_gpipe_gline.inducts)
  case (simple ts c us c')
  obtain n' where n: "n = Suc n'" using simple.prems(2) by (cases n) auto
  have k0: "\<not> among ''('' (kind (ts @ us @ rest))"
    using redirs_kind [OF simple.hyps(1)] args_kind [OF simple.hyps(2)] simple.prems(4)
    by (cases "ts = []"; cases "us = []") (auto simp: kind_append follow_def token_facts)
  obtain k where k: "peek s es i ''('' = Inr (k, False)" "i \<le> k" "k \<le> es" "toks s es k = ts @ us @ rest"
    using no_token [OF assms simple.prems(1), of "CHR ''(''"] k0 simple.prems(3) by auto
  have "\<not> among ''<>'' (kind (us @ rest))"
    using args_kind [OF simple.hyps(2)] simple.prems(4) by (cases "us = []") (auto simp: kind_append follow_def token_facts)
  from redirs_complete [OF assms simple.hyps(1) k(3,4) this]
  obtain m where m: "parseredirs s es (EXEC []) k = Inr (c, m)" "k \<le> m" "m \<le> es" "toks s es m = us @ rest" by (auto simp: parses_def)
  from args_complete [OF assms simple.hyps(2) m(3,4) simple.prems(4)] show ?case using k m
    by (auto simp: n parses_def parseexec_def)
next
  case (block ts c us c' q e q' e')
  obtain n' where n: "n = Suc n'" using block.prems(2) by (cases n) auto
  have T: "toks s es i = (ch CHR ''('', q, e) # ts @ (ch CHR '')'', q', e') # us @ rest" using block.prems(3) by simp
  obtain k j where k: "peek s es i ''('' = Inr (k, True)" "gettoken s es k = Inr (ch CHR ''('', q, e, j)" "toks s es j = ts @ (ch CHR '')'', q', e') # us @ rest" "i < j" "j \<le> es"
    using take_token [OF assms block.prems(1) _ T] by auto
  have ks: "i \<le> k" "k \<le> es" "toks s es k = toks s es i" "peek s es k ''('' = Inr (k, True)"
    using peek_get [OF assms block.prems(1) _ k(1)] k(1) skip_id [of is_ws s es i] by (auto simp: peek_def in_line_def Let_def split: if_splits)
  obtain n2 where n2: "n' = Suc n2" using block.prems(2) n k(4,5) by (cases n') auto
  have "need Parseline (es - j) \<le> n2" using block.prems(2) n n2 k(4,5) by simp
  from block.IH [OF k(5) this k(3)] obtain m where m: "call s es n2 Parseline j = Inr (c, m)" "j \<le> m" "m \<le> es" "toks s es m = (ch CHR '')'', q', e') # us @ rest"
    by (auto simp: parses_def follow_def token_facts)
  obtain k2 j2 where k2: "peek s es m '')'' = Inr (k2, True)" "gettoken s es k2 = Inr (ch CHR '')'', q', e', j2)" "toks s es j2 = us @ rest" "m < j2" "j2 \<le> es"
    using take_token [OF assms m(3) _ m(4)] by auto
  have "\<not> among ''<>'' (kind rest)" using block.prems(4) by (auto simp: follow_def token_facts)
  from redirs_complete [OF assms block.hyps(2) k2(5,3) this] show ?case using k ks m k2
    by (auto simp: n n2 parses_def parseexec_def parseblock_def)
next
  case (stage ts c)
  obtain n' where n: "n = Suc n'" using stage.prems(2) by (cases n) auto
  have f: "follow ''|)&;'' rest" "\<not> among ''|'' (kind rest)" using stage.prems(4) by (auto simp: follow_def token_facts)
  from stage.IH [OF stage.prems(1) _ stage.prems(3) f(1), of n'] obtain m where m: "call s es n' Parseexec i = Inr (c, m)" "i \<le> m" "m \<le> es" "toks s es m = rest"
    using stage.prems(2) n by (auto simp: parses_def)
  show ?case using no_token [OF assms m(3), of "CHR ''|''"] f(2) m by (auto simp: n parses_def parsepipe_def)
next
  case (piped ts c us d q e)
  obtain n' where n: "n = Suc n'" using piped.prems(2) by (cases n) auto
  have T: "toks s es i = ts @ (ch CHR ''|'', q, e) # us @ rest" using piped.prems(3) by simp
  from piped.IH(1) [OF piped.prems(1) _ T, of n'] obtain m where m: "call s es n' Parseexec i = Inr (c, m)" "i \<le> m" "m \<le> es" "toks s es m = (ch CHR ''|'', q, e) # us @ rest"
    using piped.prems(2) n by (auto simp: parses_def follow_def token_facts)
  obtain k j where k: "peek s es m ''|'' = Inr (k, True)" "gettoken s es k = Inr (ch CHR ''|'', q, e, j)" "toks s es j = us @ rest" "m < j" "j \<le> es"
    using take_token [OF assms m(3) _ m(4)] by auto
  have "need Parsepipe (es - j) \<le> n'" using piped.prems(2) n k(4,5) m(2) by auto
  from piped.IH(2) [OF k(5) this k(3) piped.prems(4)] show ?case using m k by (auto simp: n parses_def parsepipe_def)
next
  case (line ts c bs)
  obtain n' where n: "n = Suc n'" using line.prems(2) by (cases n) auto
  have T: "toks s es i = ts @ bs @ rest" using line.prems(3) by simp
  have f: "follow '')&;'' (bs @ rest)" "\<not> among ''&'' (kind rest)" "\<not> among '';'' (kind rest)"
    using line.prems(4) line.hyps(2) by (cases bs; auto simp: follow_def token_facts)+
  from line.IH [OF line.prems(1) _ T f(1), of n'] obtain m where m: "call s es n' Parsepipe i = Inr (c, m)" "i \<le> m" "m \<le> es" "toks s es m = bs @ rest"
    using line.prems(2) n by (auto simp: parses_def)
  from backs_complete [OF assms line.hyps(2) m(3,4) f(2)] obtain l where l: "parsebacks s es c m = Inr (backs (length bs) c, l)" "m \<le> l" "l \<le> es" "toks s es l = rest"
    by (auto simp: parses_def)
  show ?case using no_token [OF assms l(3), of "CHR '';''"] f(3) m l by (auto simp: n parses_def parseline_def)
next
  case (lines ts c bs us d q e)
  obtain n' where n: "n = Suc n'" using lines.prems(2) by (cases n) auto
  let ?r = "(ch CHR '';'', q, e) # us @ rest"
  have T: "toks s es i = ts @ bs @ ?r" using lines.prems(3) by simp
  have f: "follow '')&;'' (bs @ ?r)" "\<not> among ''&'' (kind ?r)"
    using lines.hyps(2) by (cases bs; auto simp: follow_def token_facts)+
  from lines.IH(1) [OF lines.prems(1) _ T f(1), of n'] obtain m where m: "call s es n' Parsepipe i = Inr (c, m)" "i \<le> m" "m \<le> es" "toks s es m = bs @ ?r"
    using lines.prems(2) n by (auto simp: parses_def)
  from backs_complete [OF assms lines.hyps(2) m(3,4) f(2)] obtain l where l: "parsebacks s es c m = Inr (backs (length bs) c, l)" "m \<le> l" "l \<le> es" "toks s es l = ?r"
    by (auto simp: parses_def)
  obtain k j where k: "peek s es l '';'' = Inr (k, True)" "gettoken s es k = Inr (ch CHR '';'', q, e, j)" "toks s es j = us @ rest" "l < j" "j \<le> es"
    using take_token [OF assms l(3) _ l(4)] by auto
  have "need Parseline (es - j) \<le> n'" using lines.prems(2) n k(4,5) m(2) l(2) by auto
  from lines.IH(2) [OF k(5) this k(3) lines.prems(4)] show ?case using m l k by (auto simp: n parses_def parseline_def)
qed

section \<open>Words\<close>

primrec cmd_words :: "cmd \<Rightarrow> span list" where
  "cmd_words (EXEC ws) = ws"
| "cmd_words (REDIR c f m fd) = cmd_words c @ [f]"
| "cmd_words (PIPE l r) = cmd_words l @ cmd_words r"
| "cmd_words (LIST l r) = cmd_words l @ cmd_words r"
| "cmd_words (BACK c) = cmd_words c"

lemma words_add_arg: "set (cmd_words (add_arg w c)) \<subseteq> insert w (set (cmd_words c))"
  by (induction w c rule: add_arg.induct) auto

lemma words_backs: "cmd_words (backs k c) = cmd_words c"
  by (induction k arbitrary: c) simp_all

lemma words_redir: "set (cmd_words (redir t c q e)) \<subseteq> insert (q, e) (set (cmd_words c))"
  by (auto simp: redir_def redircmd_def)

definition in_words :: "token list \<Rightarrow> span set" where
  "in_words ts = {(q, e). (ch CHR ''a'', q, e) \<in> set ts}"

lemma in_words_simps [simp]: "in_words [] = {}" "in_words (ts @ us) = in_words ts \<union> in_words us"
  "in_words ((t, q, e) # ts) = (if t = ch CHR ''a'' then insert (q, e) (in_words ts) else in_words ts)"
  by (auto simp: in_words_def)

lemma redirs_words: "redirs c ts c' \<Longrightarrow> set (cmd_words c') \<subseteq> set (cmd_words c) \<union> in_words ts"
proof (induction rule: redirs.induct)
  case (redir t c q e ts c' q0 e0)
  then show ?case using words_redir [of t c q e] by auto
qed simp

lemma args_words: "args n c ts c' \<Longrightarrow> set (cmd_words c') \<subseteq> set (cmd_words c) \<union> in_words ts"
proof (induction rule: args.induct)
  case (arg n q e c ts c1 us c2)
  then show ?case using redirs_words [OF arg.hyps(2)] words_add_arg [of "(q, e)" c] by auto
qed simp

lemma line_words:
  "gexec ts c \<Longrightarrow> set (cmd_words c) \<subseteq> in_words ts"
  "gpipe ts c \<Longrightarrow> set (cmd_words c) \<subseteq> in_words ts"
  "gline ts c \<Longrightarrow> set (cmd_words c) \<subseteq> in_words ts"
proof (induction rule: gexec_gpipe_gline.inducts)
  case (simple ts c us c')
  then show ?case using redirs_words [OF simple(1)] args_words [OF simple(2)] by auto
next
  case (block ts c us c' q e q' e')
  then show ?case using redirs_words [OF block(2)] by auto
qed (auto simp: words_backs)

text \<open>A word is a maximal run of characters that are neither blanks nor symbols.\<close>

definition word_at :: "bytes \<Rightarrow> nat \<Rightarrow> span \<Rightarrow> bool" where
  "word_at s es w \<longleftrightarrow> fst w < snd w \<and> snd w \<le> es \<and> (\<forall>i. fst w \<le> i \<and> i < snd w \<longrightarrow> is_word (s ! i)) \<and> (snd w < es \<longrightarrow> \<not> is_word (s ! snd w))"

lemma skip_run: "i \<le> k \<Longrightarrow> k < skip P s es i \<Longrightarrow> P (s ! k)"
proof (induction P s es i rule: skip.induct)
  case (1 P s es i)
  show ?case
  proof (cases "i < es \<and> P (s ! i)")
    case True
    then show ?thesis using 1 by (cases "i = k") (auto simp: skip.simps [of P s es i])
  next
    case False
    then show ?thesis using 1(2,3) by (auto simp: skip.simps [of P s es i] split: if_splits)
  qed
qed

lemma gettoken_word:
  assumes "gettoken s es i = Inr (ch CHR ''a'', q, e, j)"
  shows "word_at s es (q, e)"
proof -
  have p: "q < e" "e \<le> es" using gettoken_progress [OF assms] by auto
  have "lex_token s es q = (ch CHR ''a'', e)" using assms by (auto simp: gettoken_def Let_def split: if_splits prod.splits)
  then have e: "e = skip is_word s es q" by (auto simp: lex_token_def Let_def bytes_of_def split: if_splits)
  show ?thesis using p skip_run [of q _ is_word s es] skip_stop [of is_word s es q] unfolding word_at_def e by auto
qed

lemma toks_words: "w \<in> in_words (toks s es i) \<Longrightarrow> word_at s es w"
proof (induction s es i rule: toks.induct)
  case (1 s es i)
  show ?case
  proof (cases "gettoken s es i")
    case (Inl f)
    then show ?thesis using 1(2) by (simp add: toks.simps [of s es i])
  next
    case (Inr r)
    obtain t q e j where r: "r = (t, q, e, j)" by (cases r)
    show ?thesis using 1 Inr r gettoken_word [of s es i q e j] by (auto simp: toks.simps [of s es i] split: if_splits)
  qed
qed

definition zeroed :: "nat set \<Rightarrow> bytes \<Rightarrow> bytes \<Rightarrow> bool" where
  "zeroed E b b' \<longleftrightarrow> length b' = length b \<and> (\<forall>i<length b. b' ! i = (if i \<in> E then 0 else b ! i))"

lemma zeroed_seq:
  assumes "\<exists>b1. f = Inr b1 \<and> zeroed E b b1" and "\<And>b1. length b1 = length b \<Longrightarrow> \<exists>b2. g b1 = Inr b2 \<and> zeroed F b1 b2"
  shows "\<exists>b2. bindE f g = Inr b2 \<and> zeroed (E \<union> F) b b2"
proof -
  obtain b1 where 1: "f = Inr b1" "zeroed E b b1" using assms(1) by blast
  obtain b2 where 2: "g b1 = Inr b2" "zeroed F b1 b2" using assms(2) [of b1] 1(2) by (auto simp: zeroed_def)
  have "zeroed (E \<union> F) b b2" using 1(2) 2(2) by (auto simp: zeroed_def)
  then show ?thesis using 1(1) 2(1) by simp
qed

lemma cut_eq: "snd w < length b \<Longrightarrow> \<exists>b'. cut w b = Inr b' \<and> zeroed {snd w} b b'"
  by (auto simp: cut_def zeroed_def nth_list_update)

lemma cut_all_eq: "\<forall>w\<in>set ws. snd w < length b \<Longrightarrow> \<exists>b'. cut_all ws b = Inr b' \<and> zeroed (snd ` set ws) b b'"
proof (induction ws arbitrary: b)
  case (Cons w ws)
  have "\<exists>b2. bindE (cut w b) (cut_all ws) = Inr b2 \<and> zeroed ({snd w} \<union> snd ` set ws) b b2"
    by (rule zeroed_seq [OF cut_eq Cons.IH]) (use Cons.prems in simp_all)
  then show ?case by simp
qed (simp add: zeroed_def)

lemma nulterminate_eq: "\<forall>w\<in>set (cmd_words c). snd w < length b \<Longrightarrow> \<exists>b'. nulterminate c b = Inr b' \<and> zeroed (snd ` set (cmd_words c)) b b'"
proof (induction c arbitrary: b)
  case (EXEC ws)
  then show ?case using cut_all_eq by simp
next
  case (REDIR c f m fd)
  have "\<exists>b2. bindE (nulterminate c b) (cut f) = Inr b2 \<and> zeroed (snd ` set (cmd_words c) \<union> {snd f}) b b2"
    by (rule zeroed_seq [OF REDIR.IH cut_eq]) (use REDIR.prems in simp_all)
  then show ?case by simp
next
  case (PIPE l r)
  have "\<exists>b2. bindE (nulterminate l b) (nulterminate r) = Inr b2 \<and> zeroed (snd ` set (cmd_words l) \<union> snd ` set (cmd_words r)) b b2"
    by (rule zeroed_seq [OF PIPE.IH]) (use PIPE.prems in simp_all)
  then show ?case by (simp add: image_Un)
next
  case (LIST l r)
  have "\<exists>b2. bindE (nulterminate l b) (nulterminate r) = Inr b2 \<and> zeroed (snd ` set (cmd_words l) \<union> snd ` set (cmd_words r)) b b2"
    by (rule zeroed_seq [OF LIST.IH]) (use LIST.prems in simp_all)
  then show ?case by (simp add: image_Un)
qed simp

section \<open>Correctness of parsecmd\<close>

abbreviation line_end :: "bytes \<Rightarrow> nat" where
  "line_end s \<equiv> length (cstr s)"

lemma line_end: "terminated s \<Longrightarrow> line_end s < length s \<and> s ! line_end s = 0 \<and> (\<forall>i<line_end s. s ! i \<noteq> 0)"
proof (induction s)
  case (Cons c s)
  then show ?case by (auto simp: less_Suc_eq_0_disj)
qed simp

lemma toks_end:
  assumes "terminated s" and "i \<le> line_end s"
  shows "toks s (line_end s) i = [] \<longleftrightarrow> skip is_ws s (line_end s) i = line_end s"
proof -
  note l = line_end [OF assms(1)]
  let ?q = "skip is_ws s (line_end s) i"
  obtain t e where lx: "lex_token s (line_end s) ?q = (t, e)" by fastforce
  have "toks s (line_end s) i = [] \<longleftrightarrow> t = 0" using gettoken_lex [OF _ _ assms(2) lx] l by (simp add: toks.simps [of s _ i])
  also have "\<dots> \<longleftrightarrow> s ! ?q = 0" using lex_first [OF lx] by (auto simp: bytes_of_def)
  also have "\<dots> \<longleftrightarrow> ?q = line_end s" using l skip_le [OF assms(2), of is_ws s] by (metis le_neq_implies_less)
  finally show ?thesis .
qed

lemma line_nulterminates:
  assumes "terminated s" and "gline (toks s (line_end s) 0) c"
  shows "\<exists>b. nulterminate c s = Inr b \<and> zeroed (snd ` set (cmd_words c)) s b"
proof (rule nulterminate_eq, rule ballI)
  fix w assume "w \<in> set (cmd_words c)"
  then have "word_at s (line_end s) w" using line_words(3) [OF assms(2)] toks_words by blast
  then show "snd w < length s" using line_end [OF assms(1)] by (simp add: word_at_def)
qed

lemma parsecmd_Inr:
  assumes "terminated s"
  shows "parsecmd s = Inr (c, b) \<longleftrightarrow> gline (toks s (line_end s) 0) c \<and> nulterminate c s = Inr b"
proof -
  note l = line_end [OF assms]
  let ?es = "line_end s"
  show ?thesis
  proof
    assume "parsecmd s = Inr (c, b)"
    then obtain j k x where r: "call s ?es (4 * ?es + 3) Parseline 0 = Inr (c, j)" "peek s ?es j [] = Inr (k, x)" "k = ?es" "nulterminate c s = Inr b"
      by (auto simp: parsecmd_def strlen_eq [OF assms] split: if_splits)
    obtain ts where ts: "j \<le> ?es" "toks s ?es 0 = ts @ toks s ?es j" "gline ts c" using call_sound [OF _ _ _ r(1)] l by auto
    have "skip is_ws s ?es j = ?es" using r(2,3) by (auto simp: peek_def Let_def split: if_splits)
    then have "toks s ?es j = []" using toks_end [OF assms ts(1)] by simp
    then show "gline (toks s ?es 0) c \<and> nulterminate c s = Inr b" using ts r(4) by simp
  next
    assume a: "gline (toks s ?es 0) c \<and> nulterminate c s = Inr b"
    then have "parses s ?es 0 (call s ?es (4 * ?es + 3) Parseline 0) c []"
      using call_complete(3) [of ?es s "toks s ?es 0" c 0 "4 * ?es + 3" "[]"] l by (simp add: follow_def)
    then obtain j where j: "call s ?es (4 * ?es + 3) Parseline 0 = Inr (c, j)" "j \<le> ?es" "toks s ?es j = []" by (auto simp: parses_def)
    then have "skip is_ws s ?es j = ?es" using toks_end [OF assms j(2)] by simp
    then show "parsecmd s = Inr (c, b)" using a j l by (simp add: parsecmd_def strlen_eq [OF assms] peek_def in_line_def)
  qed
qed

text \<open>
  C18. The shell parses exactly its grammar: a line is accepted, with a given command as the result, if and only if its sequence of
  tokens is a line of the grammar with that command as its meaning. In particular a line has at most one meaning, redirections
  apply to the simple command or block they follow, pipes bind stronger than \<open>;\<close>, and a command after \<open>&\<close> needs a \<open>;\<close>.
\<close>

theorem parsecmd_grammar:
  assumes "terminated s"
  shows "(\<exists>b. parsecmd s = Inr (c, b)) \<longleftrightarrow> gline (toks s (line_end s) 0) c"
  using parsecmd_Inr [OF assms] line_nulterminates [OF assms] by metis

definition sample_line :: bytes where
  "sample_line = bytes_of ''cat<f|wc>o&'' @ [10, 0]"

lemma sample_terminated: "terminated sample_line"
  by (simp add: sample_line_def)

lemma sample_parse:
  "parsecmd sample_line = Inr (BACK (PIPE (REDIR (EXEC [(0, 3)]) (4, 5) 0 0) (REDIR (EXEC [(6, 8)]) (9, 10) 0x601 1)),
     bytes_of ''cat'' @ [0] @ bytes_of ''f'' @ [0] @ bytes_of ''wc'' @ [0] @ bytes_of ''o'' @ [0, 10, 0])"
  by code_simp

theorem parsecmd_grammar_witness:
  "gline (toks sample_line 12 0) (BACK (PIPE (REDIR (EXEC [(0, 3)]) (4, 5) 0 0) (REDIR (EXEC [(6, 8)]) (9, 10) 0x601 1)))"
proof -
  have "line_end sample_line = 12" by (simp add: sample_line_def bytes_of_def)
  then show ?thesis using parsecmd_grammar [OF sample_terminated] sample_parse by metis
qed

text \<open>
  C31. The parser always ends, with a command or with a syntax error, and never reads or writes outside the line, however
  deeply the line nests blocks, pipes and lists.
\<close>

theorem parsecmd_total:
  assumes "terminated s"
  shows "(\<exists>c b. parsecmd s = Inr (c, b)) \<or> (\<exists>msg. parsecmd s = Inl (Panic msg))"
proof -
  note l = line_end [OF assms]
  let ?es = "line_end s"
  have g: "good ?es 0 (call s ?es (4 * ?es + 3) Parseline 0)" using call_good [of ?es s 0 Parseline "4 * ?es + 3"] l by simp
  show ?thesis
  proof (cases "call s ?es (4 * ?es + 3) Parseline 0")
    case (Inl f)
    then show ?thesis using g by (cases f) (auto simp: good_def parsecmd_def strlen_eq [OF assms])
  next
    case (Inr r)
    obtain c j where r: "r = (c, j)" by (cases r)
    have j: "j \<le> ?es" using g Inr r by simp
    obtain ts where ts: "toks s ?es 0 = ts @ toks s ?es j" "gline ts c" using call_sound [of ?es s 0 _ Parseline c j] l Inr r by auto
    obtain k x where k: "peek s ?es j [] = Inr (k, x)" using peek_total [OF _ _ j, of s] l by blast
    show ?thesis
    proof (cases "k = ?es")
      case False
      then show ?thesis using Inr r k by (simp add: parsecmd_def strlen_eq [OF assms])
    next
      case True
      then have "skip is_ws s ?es j = ?es" using k by (auto simp: peek_def Let_def split: if_splits)
      then have "toks s ?es j = []" using toks_end [OF assms j] by simp
      then have "gline (toks s ?es 0) c" using ts by simp
      then show ?thesis using parsecmd_Inr [OF assms] line_nulterminates [OF assms] by metis
    qed
  qed
qed

theorem parsecmd_total_witness:
  "(\<exists>c b. parsecmd (bytes_of ''((a'' @ [0]) = Inr (c, b)) \<or> (\<exists>msg. parsecmd (bytes_of ''((a'' @ [0]) = Inl (Panic msg))"
  by (rule parsecmd_total) simp

text \<open>
  The strings handed to \<open>exec\<close> and \<open>open\<close> are the words of the line: when parsing succeeds, the NUL bytes that \<open>nulterminate\<close> writes into
  the line end every word where it ended and damage no other word.
\<close>

theorem parsecmd_words:
  assumes "terminated s" and "parsecmd s = Inr (c, b)" and "(q, e) \<in> set (cmd_words c)"
  shows "cstr (drop q b) = take (e - q) (drop q s) \<and> q < e \<and> e \<le> line_end s \<and> (\<forall>x\<in>set (take (e - q) (drop q s)). is_word x)"
proof -
  note l = line_end [OF assms(1)]
  let ?es = "line_end s"
  have g: "gline (toks s ?es 0) c" "nulterminate c s = Inr b" using assms(2) parsecmd_Inr [OF assms(1)] by auto
  then have z: "zeroed (snd ` set (cmd_words c)) s b" using line_nulterminates [OF assms(1) g(1)] g(2) by auto
  have W: "word_at s ?es w" if "w \<in> set (cmd_words c)" for w using line_words(3) [OF g(1)] toks_words that by blast
  have w: "q < e" "e \<le> ?es" "\<And>i. q \<le> i \<Longrightarrow> i < e \<Longrightarrow> is_word (s ! i)" using W [OF assms(3)] by (auto simp: word_at_def)
  have keep: "b ! i = s ! i" if "q \<le> i" "i < e" for i
  proof -
    have "i \<noteq> snd v" if v: "v \<in> set (cmd_words c)" for v
      using W [OF v] w(3) [OF \<open>q \<le> i\<close> \<open>i < e\<close>] w(2) \<open>i < e\<close> by (auto simp: word_at_def)
    then show ?thesis using z that w(2) l by (auto simp: zeroed_def)
  qed
  have be: "b ! e = 0" "e < length b" using z assms(3) w(2) l by (auto simp: zeroed_def image_iff Bex_def)
  have len: "length b = length s" using z by (simp add: zeroed_def)
  have t: "take (e - q) (drop q b) = take (e - q) (drop q s)"
    using keep w be(2) len by (intro nth_equalityI) auto
  have "drop q b = take (e - q) (drop q b) @ 0 # drop (Suc e) b"
    using be w(1) by (metis Cons_nth_drop_Suc append_take_drop_id drop_drop le_add_diff_inverse2 less_imp_le)
  moreover have "0 \<notin> set (take (e - q) (drop q b))" unfolding t
    using l w(2) by (auto simp: in_set_conv_nth)
  ultimately have "cstr (drop q b) = take (e - q) (drop q s)" using cstr_append_NUL t by metis
  moreover have "\<forall>x\<in>set (take (e - q) (drop q s)). is_word x"
    using w l by (auto simp: in_set_conv_nth)
  ultimately show ?thesis using w by blast
qed

theorem parsecmd_words_witness:
  "cstr (drop 6 (bytes_of ''cat'' @ [0] @ bytes_of ''f'' @ [0] @ bytes_of ''wc'' @ [0] @ bytes_of ''o'' @ [0, 10, 0])) = take (8 - 6) (drop 6 sample_line)"
  using parsecmd_words [OF sample_terminated sample_parse, of 6 8] by simp

end
