(* ===== verification/ShRun.thy ===== *)
theory ShRun
  imports Sh
begin

text \<open>
  How the shell (\<open>user/sh.c\<close>) runs a command: \<open>getcmd\<close>, the dispatch of \<open>main\<close>, and \<open>runcmd\<close> as the programs it starts. A process has a
  table of \<open>NOFILE\<close> descriptors; \<open>fork\<close> copies it, \<open>open\<close>, \<open>dup\<close> and \<open>pipe\<close> take the lowest free entries. \<open>fork\<close> and \<open>exec\<close> are
  assumed to succeed; whether a file can be opened is a parameter. The order in which concurrent processes
  run is not represented: \<open>runcmd\<close> lists the programs in the order of the forks.
\<close>

section \<open>Descriptors\<close>

datatype object = Console | File bytes int | Read_end nat | Write_end nat

type_synonym fds = "object option list"

definition NOFILE :: nat where [hdr]: "NOFILE = 16"

definition fd_close :: "nat \<Rightarrow> fds \<Rightarrow> fds" where
  "fd_close i fd = fd[i := None]"

definition fd_new :: "object \<Rightarrow> fds \<Rightarrow> (fds \<times> nat) option" where
  "fd_new ob fd = map_option (\<lambda>i. (fd[i := Some ob], i)) (find_idx (\<lambda>x. x = None) fd)"

definition fd_dup :: "nat \<Rightarrow> fds \<Rightarrow> fds" where
  "fd_dup i fd = (case fd ! i of None \<Rightarrow> fd | Some ob \<Rightarrow> (case fd_new ob fd of Some (fd, _) \<Rightarrow> fd | None \<Rightarrow> fd))"

definition fd_pipe :: "nat \<Rightarrow> fds \<Rightarrow> (fds \<times> nat \<times> nat) option" where
  "fd_pipe n fd =
     (case fd_new (Read_end n) fd of
        None \<Rightarrow> None
      | Some (fd, p0) \<Rightarrow> (case fd_new (Write_end n) fd of None \<Rightarrow> None | Some (fd, p1) \<Rightarrow> Some (fd, p0, p1)))"

section \<open>runcmd\<close>

type_synonym started = "bytes list \<times> fds"

text \<open>
  The programs started by \<open>cmd\<close> and by the processes it forks, with their arguments and descriptors, and the number of the next
  pipe. \<open>b\<close> is the line after \<open>nulterminate\<close>.
\<close>

primrec runcmd :: "(bytes \<Rightarrow> int \<Rightarrow> bool) \<Rightarrow> bytes \<Rightarrow> cmd \<Rightarrow> fds \<Rightarrow> nat \<Rightarrow> started list \<times> nat" where
  "runcmd opens b (EXEC ws) fd n = (if ws = [] then ([], n) else ([(map (\<lambda>(q, e). cstr (drop q b)) ws, fd)], n))"
| "runcmd opens b (REDIR c f mode d) fd n =
     (let fd = fd_close (nat d) fd; name = cstr (drop (fst f) b)
      in if opens name mode
         then (case fd_new (File name mode) fd of None \<Rightarrow> ([], n) | Some (fd, _) \<Rightarrow> runcmd opens b c fd n)
         else ([], n))"
| "runcmd opens b (LIST l r) fd n =
     (case runcmd opens b l fd n of (es, n) \<Rightarrow> case runcmd opens b r fd n of (es', n) \<Rightarrow> (es @ es', n))"
| "runcmd opens b (PIPE l r) fd n =
     (case fd_pipe n fd of
        None \<Rightarrow> ([], n)
      | Some (fd, p0, p1) \<Rightarrow>
          (case runcmd opens b l (fd_close p1 (fd_close p0 (fd_dup p1 (fd_close 1 fd)))) (n + 1) of (es, n) \<Rightarrow>
           case runcmd opens b r (fd_close p1 (fd_close p0 (fd_dup p0 (fd_close 0 fd)))) n of (es', n) \<Rightarrow> (es @ es', n)))"
| "runcmd opens b (BACK c) fd n = runcmd opens b c fd n"

section \<open>getcmd and main\<close>

definition getcmd :: "bytes \<Rightarrow> nat \<Rightarrow> bytes \<Rightarrow> (int \<times> bytes \<times> bytes) res" where
  "getcmd buf nbuf inp =
     bindE (memset buf 0 nbuf) (\<lambda>buf.
     bindE (gets buf nbuf inp) (\<lambda>(buf, inp).
     case buf of [] \<Rightarrow> Inl OutOfBounds | c # _ \<Rightarrow> Inr (if c = 0 then -1 else 0, buf, inp)))"

datatype action = Blank | Chdir bytes | Fork_run bytes

text \<open>What \<open>main\<close> does with a line it has read.\<close>

fun skip_blanks :: "bytes \<Rightarrow> bytes res" where
  "skip_blanks [] = Inl OutOfBounds"
| "skip_blanks (c # s) = (if c = 32 \<or> c = 9 then skip_blanks s else Inr (c # s))"

definition is_cd :: "bytes \<Rightarrow> bool res" where
  "is_cd s =
     (case s of
        c0 # s1 \<Rightarrow> if c0 \<noteq> ch CHR ''c'' then Inr False
          else (case s1 of c1 # s2 \<Rightarrow> if c1 \<noteq> ch CHR ''d'' then Inr False
            else (case s2 of c2 # _ \<Rightarrow> Inr (c2 = 32) | [] \<Rightarrow> Inl OutOfBounds) | [] \<Rightarrow> Inl OutOfBounds)
      | [] \<Rightarrow> Inl OutOfBounds)"

definition dispatch :: "bytes \<Rightarrow> action res" where
  "dispatch buf =
     bindE (skip_blanks buf) (\<lambda>s.
     if hd s = 10 then Inr Blank
     else bindE (is_cd s) (\<lambda>cd.
       if cd then bindE (strlen s) (\<lambda>k. Inr (Chdir (cstr (drop 3 (s[k - 1 := 0]))))) else Inr (Fork_run s)))"

section \<open>Plumbing\<close>

text \<open>What a command should start when its input and output are \<open>i\<close> and \<open>o'\<close>: each program with its own input and output.\<close>

primrec plumb :: "(bytes \<Rightarrow> int \<Rightarrow> bool) \<Rightarrow> bytes \<Rightarrow> cmd \<Rightarrow> object \<Rightarrow> object \<Rightarrow> nat \<Rightarrow> (bytes list \<times> object \<times> object) list \<times> nat" where
  "plumb opens b (EXEC ws) i o' n = (if ws = [] then ([], n) else ([(map (\<lambda>(q, e). cstr (drop q b)) ws, i, o')], n))"
| "plumb opens b (REDIR c f mode d) i o' n =
     (let ob = File (cstr (drop (fst f) b)) mode
      in if opens (cstr (drop (fst f) b)) mode
         then (if d = 0 then plumb opens b c ob o' n else plumb opens b c i ob n)
         else ([], n))"
| "plumb opens b (LIST l r) i o' n =
     (case plumb opens b l i o' n of (es, n) \<Rightarrow> case plumb opens b r i o' n of (es', n) \<Rightarrow> (es @ es', n))"
| "plumb opens b (PIPE l r) i o' n =
     (case plumb opens b l i (Write_end n) (n + 1) of (es, m) \<Rightarrow> case plumb opens b r (Read_end n) o' m of (es', m) \<Rightarrow> (es @ es', m))"
| "plumb opens b (BACK c) i o' n = plumb opens b c i o' n"

text \<open>The table of a process that has only its standard descriptors.\<close>

definition std :: "object \<Rightarrow> object \<Rightarrow> object \<Rightarrow> fds" where
  "std i o' err = Some i # Some o' # Some err # replicate (NOFILE - 3) None"

lemma std_close: "fd_close 0 (std i o' err) = None # Some o' # Some err # replicate 13 None"
  "fd_close (Suc 0) (std i o' err) = Some i # None # Some err # replicate 13 None"
  by (simp_all add: fd_close_def std_def hdr)

lemma std_pipe: "fd_pipe n (std i o' err) = Some (Some i # Some o' # Some err # Some (Read_end n) # Some (Write_end n) # replicate 11 None, 3, 4)"
  by (simp add: fd_pipe_def fd_new_def std_def hdr numeral_eq_Suc)

lemma std_left: "fd_close 4 (fd_close 3 (fd_dup 4 (fd_close (Suc 0) (Some i # Some o' # Some err # Some (Read_end n) # Some (Write_end n) # replicate 11 None)))) =
    std i (Write_end n) err"
  by (simp add: fd_close_def fd_dup_def fd_new_def std_def hdr numeral_eq_Suc)

lemma std_right: "fd_close 4 (fd_close 3 (fd_dup 3 (fd_close 0 (Some i # Some o' # Some err # Some (Read_end n) # Some (Write_end n) # replicate 11 None)))) =
    std (Read_end n) o' err"
  by (simp add: fd_close_def fd_dup_def fd_new_def std_def hdr numeral_eq_Suc)

primrec std_redirs :: "cmd \<Rightarrow> bool" where
  "std_redirs (EXEC ws) = True"
| "std_redirs (REDIR c f m d) = ((d = 0 \<or> d = 1) \<and> std_redirs c)"
| "std_redirs (PIPE l r) = (std_redirs l \<and> std_redirs r)"
| "std_redirs (LIST l r) = (std_redirs l \<and> std_redirs r)"
| "std_redirs (BACK c) = std_redirs c"

lemma runcmd_std:
  "std_redirs c \<Longrightarrow> runcmd opens b c (std i o' err) n =
     (case plumb opens b c i o' n of (es, m) \<Rightarrow> (map (\<lambda>(argv, i, o'). (argv, std i o' err)) es, m))"
proof (induction c arbitrary: i o' n)
  case (REDIR c f mode d)
  have "fd_new ob (None # Some o' # Some err # replicate 13 None) = Some (std ob o' err, 0)"
    "fd_new ob (Some i # None # Some err # replicate 13 None) = Some (std i ob err, 1)" for ob
    by (simp_all add: fd_new_def std_def hdr)
  then show ?case using REDIR by (auto simp: Let_def std_close)
next
  case (PIPE l r)
  then show ?case by (simp add: std_pipe std_left std_right split: prod.splits)
next
  case (LIST l r)
  then show ?case by (simp split: prod.splits)
qed simp_all

lemma redir_std: "std_redirs c \<Longrightarrow> std_redirs (redir t c q e)"
  by (simp add: redir_def redircmd_def)

lemma add_arg_std: "std_redirs c \<Longrightarrow> std_redirs (add_arg w c)"
  by (induction w c rule: add_arg.induct) auto

lemma redirs_std: "redirs c ts c' \<Longrightarrow> std_redirs c \<Longrightarrow> std_redirs c'"
  by (induction rule: redirs.induct) (auto intro: redir_std)

lemma args_std: "args n c ts c' \<Longrightarrow> std_redirs c \<Longrightarrow> std_redirs c'"
  by (induction rule: args.induct) (auto intro: redirs_std add_arg_std)

lemma backs_std: "std_redirs (backs k c) = std_redirs c"
  by (induction k arbitrary: c) simp_all

lemma line_std:
  "gexec ts c \<Longrightarrow> std_redirs c"
  "gpipe ts c \<Longrightarrow> std_redirs c"
  "gline ts c \<Longrightarrow> std_redirs c"
proof (induction rule: gexec_gpipe_gline.inducts)
  case (simple ts c us c')
  then show ?case using redirs_std [OF simple(1)] args_std [OF simple(2)] by simp
qed (auto simp: backs_std intro: redirs_std)

text \<open>
  C20. A command line is plumbed as its syntax says. Every program that the shell starts for a line it accepts has exactly the three
  standard descriptors: its input and output are those of the line unless a pipe or a redirection, which
  takes precedence over the pipe, replaces them. Neighbours in a pipeline are joined by one pipe, and no process keeps an
  end of a pipe that it does not use, so a reader sees the end of the input when the writer exits.
\<close>

theorem shell_plumbing:
  assumes "terminated s" and "parsecmd s = Inr (c, b)"
  shows "runcmd opens b c (std i o' err) n =
     (case plumb opens b c i o' n of (es, m) \<Rightarrow> (map (\<lambda>(argv, i, o'). (argv, std i o' err)) es, m))"
  using parsecmd_Inr [OF assms(1)] assms(2) line_std(3) runcmd_std by blast

theorem shell_plumbing_witness:
  "runcmd (\<lambda>_ _. True) (bytes_of ''cat'' @ [0] @ bytes_of ''f'' @ [0] @ bytes_of ''wc'' @ [0] @ bytes_of ''o'' @ [0, 10, 0])
     (BACK (PIPE (REDIR (EXEC [(0, 3)]) (4, 5) 0 0) (REDIR (EXEC [(6, 8)]) (9, 10) 0x601 1))) (std Console Console Console) 0 =
   ([([bytes_of ''cat''], std (File (bytes_of ''f'') 0) (Write_end 0) Console),
     ([bytes_of ''wc''], std (Read_end 0) (File (bytes_of ''o'') 0x601) Console)], 1)"
  unfolding shell_plumbing [OF sample_terminated sample_parse] by (simp add: bytes_of_def)

end
