(* ===== verification/Umalloc.thy ===== *)
theory Umalloc
  imports Prelude
begin

text \<open>
  The allocator of the user programs, \<open>user/umalloc.c\<close>: a circular list of free blocks in the order of their addresses. An address is a
  natural number of bytes; memory is seen as the header that starts at each address, and an access beyond the break of the
  process is a fault. The kernel is a parameter: \<open>grow b n\<close> is the break after \<open>sbrk(n)\<close> at the break \<open>b\<close>, or
  \<open>None\<close> when it fails. The loops follow links of the list and are given fuel, which is proved to be enough.
\<close>

section \<open>Headers\<close>

record header =
  h_ptr :: nat
  h_size :: uint

record heap =
  h_mem :: "nat \<Rightarrow> header"
  h_freep :: nat
  h_base :: nat
  h_brk :: nat

definition header_at :: "heap \<Rightarrow> nat \<Rightarrow> header res" where
  "header_at h a = (if a + 16 \<le> h_brk h then Inr (h_mem h a) else Inl OutOfBounds)"

definition set_header :: "nat \<Rightarrow> header \<Rightarrow> heap \<Rightarrow> heap res" where
  "set_header a x h = (if a + 16 \<le> h_brk h then Inr (h\<lparr>h_mem := (h_mem h)(a := x)\<rparr>) else Inl OutOfBounds)"

text \<open>\<open>p + p->s.size\<close>.\<close>

definition fin :: "(nat \<Rightarrow> header) \<Rightarrow> nat \<Rightarrow> nat" where
  "fin m p = p + 16 * unat (h_size (m p))"

section \<open>free\<close>

primrec free_scan :: "nat \<Rightarrow> heap \<Rightarrow> nat \<Rightarrow> nat \<Rightarrow> nat res" where
  "free_scan 0 h bp p = Inl Diverges"
| "free_scan (Suc n) h bp p =
     bindE (header_at h p) (\<lambda>x.
     if bp > p \<and> bp < h_ptr x then Inr p
     else if p \<ge> h_ptr x \<and> (bp > p \<or> bp < h_ptr x) then Inr p
     else free_scan n h bp (h_ptr x))"

text \<open>\<open>bp\<close> joins the block after it, or points to it.\<close>

definition join_upper :: "nat \<Rightarrow> nat \<Rightarrow> heap \<Rightarrow> heap res" where
  "join_upper bp p h =
     bindE (header_at h p) (\<lambda>x.
     bindE (header_at h bp) (\<lambda>b.
     if fin (h_mem h) bp = h_ptr x
     then bindE (header_at h (h_ptr x)) (\<lambda>n. set_header bp \<lparr>h_ptr = h_ptr n, h_size = h_size b + h_size n\<rparr> h)
     else set_header bp (b\<lparr>h_ptr := h_ptr x\<rparr>) h))"

text \<open>The block \<open>p\<close> before it joins \<open>bp\<close>, or points to it.\<close>

definition join_lower :: "nat \<Rightarrow> nat \<Rightarrow> heap \<Rightarrow> heap res" where
  "join_lower bp p h =
     bindE (header_at h p) (\<lambda>x.
     bindE (header_at h bp) (\<lambda>b.
     if fin (h_mem h) p = bp
     then set_header p \<lparr>h_ptr = h_ptr b, h_size = h_size x + h_size b\<rparr> h
     else set_header p (x\<lparr>h_ptr := bp\<rparr>) h))"

definition fuel :: "heap \<Rightarrow> nat" where
  "fuel h = h_brk h div 16 + 3"

definition free :: "nat \<Rightarrow> heap \<Rightarrow> heap res" where
  "free ap h =
     (let bp = ap - 16
      in bindE (free_scan (fuel h) h bp (h_freep h)) (\<lambda>p.
         bindE (join_upper bp p h) (\<lambda>h.
         bindE (join_lower bp p h) (\<lambda>h. Inr (h\<lparr>h_freep := p\<rparr>)))))"

section \<open>malloc\<close>

text \<open>\<open>sbrk\<close> takes an \<open>int\<close>: the product, of 64 bits, is truncated.\<close>

definition morecore :: "(nat \<Rightarrow> int \<Rightarrow> nat option) \<Rightarrow> uint \<Rightarrow> heap \<Rightarrow> (heap \<times> nat) res" where
  "morecore grow nu h =
     (let nu = (if nu < 4096 then 4096 else nu)
      in case grow (h_brk h) (sint (of_nat (16 * unat nu) :: uint)) of
           None \<Rightarrow> Inr (h, 0)
         | Some b \<Rightarrow>
             (let hp = h_brk h; h = h\<lparr>h_brk := b\<rparr>
              in bindE (header_at h hp) (\<lambda>x.
                 bindE (set_header hp (x\<lparr>h_size := nu\<rparr>) h) (\<lambda>h.
                 bindE (free (hp + 16) h) (\<lambda>h. Inr (h, h_freep h))))))"

text \<open>The body of the loop at a block that is large enough: it is unlinked, or its tail is cut off.\<close>

definition take_block :: "uint \<Rightarrow> nat \<Rightarrow> nat \<Rightarrow> heap \<Rightarrow> (heap \<times> nat) res" where
  "take_block nunits prevp p h =
     bindE (header_at h p) (\<lambda>x.
     bindE (if h_size x = nunits
            then bindE (header_at h prevp) (\<lambda>v. bindE (set_header prevp (v\<lparr>h_ptr := h_ptr x\<rparr>) h) (\<lambda>h. Inr (h, p)))
            else bindE (set_header p (x\<lparr>h_size := h_size x - nunits\<rparr>) h) (\<lambda>h.
                 let q = fin (h_mem h) p
                 in bindE (header_at h q) (\<lambda>y. bindE (set_header q (y\<lparr>h_size := nunits\<rparr>) h) (\<lambda>h. Inr (h, q)))))
       (\<lambda>(h, p). Inr (h\<lparr>h_freep := prevp\<rparr>, p + 16)))"

primrec malloc_loop :: "nat \<Rightarrow> (nat \<Rightarrow> int \<Rightarrow> nat option) \<Rightarrow> uint \<Rightarrow> nat \<Rightarrow> nat \<Rightarrow> heap \<Rightarrow> (heap \<times> nat) res" where
  "malloc_loop 0 grow nunits prevp p h = Inl Diverges"
| "malloc_loop (Suc n) grow nunits prevp p h =
     bindE (header_at h p) (\<lambda>x.
     if h_size x \<ge> nunits then take_block nunits prevp p h
     else if p = h_freep h
     then bindE (morecore grow nunits h) (\<lambda>(h, p).
          if p = 0 then Inr (h, 0)
          else bindE (header_at h p) (\<lambda>x. malloc_loop n grow nunits p (h_ptr x) h))
     else malloc_loop n grow nunits p (h_ptr x) h)"

definition units :: "uint \<Rightarrow> uint" where
  "units nbytes = of_nat ((unat nbytes + 16 - 1) div 16 + 1)"

definition malloc :: "(nat \<Rightarrow> int \<Rightarrow> nat option) \<Rightarrow> uint \<Rightarrow> heap \<Rightarrow> (heap \<times> nat) res" where
  "malloc grow nbytes h =
     bindE (if h_freep h = 0
            then mapE (\<lambda>h. h\<lparr>h_freep := h_base h\<rparr>) (set_header (h_base h) \<lparr>h_ptr = h_base h, h_size = 0\<rparr> h)
            else Inr h) (\<lambda>h.
     bindE (header_at h (h_freep h)) (\<lambda>x. malloc_loop (2 * fuel h) grow (units nbytes) (h_freep h) (h_ptr x) h))"

section \<open>The free list\<close>

primrec chain :: "(nat \<Rightarrow> header) \<Rightarrow> nat \<Rightarrow> nat list \<Rightarrow> bool" where
  "chain m b [] = True"
| "chain m b (p # ps) = (h_ptr (m p) = hd (ps @ [b]) \<and> chain m b ps)"

text \<open>Two blocks that do not touch.\<close>

definition apart :: "(nat \<Rightarrow> header) \<Rightarrow> nat \<Rightarrow> nat \<Rightarrow> bool" where
  "apart m p q \<longleftrightarrow> fin m p < q \<and> p + 16 \<le> q"

definition linked :: "heap \<Rightarrow> nat list \<Rightarrow> bool" where
  "linked h ns \<longleftrightarrow>
     ns \<noteq> [] \<and> hd ns = h_base h \<and> chain (h_mem h) (h_base h) ns \<and> sorted_wrt (apart (h_mem h)) ns \<and>
     h_size (h_mem h (h_base h)) = 0 \<and>
     (\<forall>p\<in>set ns. p \<noteq> h_base h \<longrightarrow> 0 < h_size (h_mem h p)) \<and>
     (\<forall>p\<in>set ns. p + 16 \<le> h_brk h \<and> fin (h_mem h) p \<le> h_brk h) \<and>
     h_freep h \<in> set ns \<and> 0 < h_base h \<and> h_brk h \<le> 2 ^ 36"

definition block :: "(nat \<Rightarrow> header) \<Rightarrow> nat \<Rightarrow> nat set" where
  "block m p = {p..<fin m p}"

definition free_space :: "heap \<Rightarrow> nat list \<Rightarrow> nat set" where
  "free_space h ns = (\<Union>p\<in>set ns. block (h_mem h) p)"

lemma chain_append: "chain m b (xs @ ys) \<longleftrightarrow> chain m (hd (ys @ [b])) xs \<and> chain m b ys"
  by (induction xs) (auto simp: hd_append)

lemma chain_upd: "a \<notin> set ns \<Longrightarrow> chain (m(a := x)) b ns = chain m b ns"
  by (induction ns) auto

lemma chain_nth: "chain m b ns \<Longrightarrow> k < length ns \<Longrightarrow> h_ptr (m (ns ! k)) = (if Suc k < length ns then ns ! Suc k else b)"
  by (induction ns arbitrary: k) (auto simp: nth_Cons hd_append hd_conv_nth split: nat.splits)

lemma fin_upd: "fin (m(a := x)) p = (if p = a then a + 16 * unat (h_size x) else fin m p)"
  by (simp add: fin_def)

lemma fin_ge: "p \<le> fin m p"
  by (simp add: fin_def)

lemma fin_pos: "0 < h_size (m p) \<Longrightarrow> p + 16 \<le> fin m p"
  by (simp add: fin_def word_less_nat_alt)

lemma apart_upd: "a \<notin> set ns \<Longrightarrow> sorted_wrt (apart (m(a := x))) ns = sorted_wrt (apart m) ns"
  by (induction ns) (auto simp: apart_def fin_upd)

lemma blocks_upd: "a \<notin> A \<Longrightarrow> (\<Union>p\<in>A. block (m(a := x)) p) = (\<Union>p\<in>A. block m p)"
  by (intro SUP_cong) (auto simp: block_def fin_upd)

lemma apart_less: "apart m p q \<Longrightarrow> p < q"
  by (simp add: apart_def)

lemma sorted_apart: "sorted_wrt (apart m) ns \<Longrightarrow> sorted_wrt (<) ns"
  by (rule sorted_wrt_mono_rel) (auto dest: apart_less)

lemma linked_distinct: "linked h ns \<Longrightarrow> distinct ns"
  unfolding linked_def using sorted_apart strict_sorted_iff by blast

lemma linked_base: "linked h ns \<Longrightarrow> p \<in> set ns \<Longrightarrow> p = h_base h \<or> h_base h + 16 \<le> p"
  by (cases ns) (auto simp: linked_def apart_def)

lemma linked_read: "linked h ns \<Longrightarrow> p \<in> set ns \<Longrightarrow> header_at h p = Inr (h_mem h p)"
  by (auto simp: linked_def header_at_def)

lemma spread_length: "sorted_wrt (\<lambda>p q. p + 16 \<le> q) ns \<Longrightarrow> \<forall>p\<in>set ns. p + 16 \<le> n \<and> l \<le> p \<Longrightarrow> ns \<noteq> [] \<Longrightarrow> l + 16 * length ns \<le> (n :: nat)"
proof (induction ns arbitrary: l)
  case (Cons p ns)
  show ?case
  proof (cases "ns = []")
    case False
    have "(p + 16) + 16 * length ns \<le> n" using Cons False by auto
    then show ?thesis using Cons.prems by simp
  qed (use Cons in simp)
qed simp

lemma linked_length: "linked h ns \<Longrightarrow> length ns + 3 \<le> fuel h"
proof -
  assume l: "linked h ns"
  then have "sorted_wrt (\<lambda>p q. p + 16 \<le> q) ns"
    unfolding linked_def by (blast intro: sorted_wrt_mono_rel [of ns "apart (h_mem h)"] dest: apart_def [THEN iffD1])
  then have "0 + 16 * length ns \<le> h_brk h" using l by (intro spread_length) (auto simp: linked_def)
  then show ?thesis by (simp add: fuel_def)
qed

section \<open>Walking around the list\<close>

text \<open>The position after \<open>k\<close> on a circle of \<open>n\<close>, and the number of steps from \<open>k\<close> to \<open>j\<close>.\<close>

definition nxt :: "nat \<Rightarrow> nat \<Rightarrow> nat" where
  "nxt n k = (if Suc k < n then Suc k else 0)"

definition dist :: "nat \<Rightarrow> nat \<Rightarrow> nat \<Rightarrow> nat" where
  "dist n k j = (if k \<le> j then j - k else n - k + j)"

lemma dist_step: "k < n \<Longrightarrow> j < n \<Longrightarrow> k \<noteq> j \<Longrightarrow> dist n k j = Suc (dist n (nxt n k) j)"
  by (auto simp: dist_def nxt_def)

lemma dist_lt: "k < n \<Longrightarrow> j < n \<Longrightarrow> dist n k j < n"
  by (auto simp: dist_def)

lemma dist_0: "k < n \<Longrightarrow> j < n \<Longrightarrow> dist n k j = 0 \<longleftrightarrow> k = j"
  by (auto simp: dist_def)

lemma dist_nxt: "f < n \<Longrightarrow> dist n (nxt n f) f = n - 1"
  by (auto simp: dist_def nxt_def)

lemma nxt_lt: "k < n \<Longrightarrow> nxt n k < n"
  by (auto simp: nxt_def)

lemma linked_next: "linked h ns \<Longrightarrow> k < length ns \<Longrightarrow> h_ptr (h_mem h (ns ! k)) = ns ! nxt (length ns) k"
  by (auto simp: linked_def nxt_def chain_nth hd_conv_nth)

lemma linked_mono: "linked h ns \<Longrightarrow> i < j \<Longrightarrow> j < length ns \<Longrightarrow> ns ! i < ns ! j"
  by (auto simp: linked_def intro: apart_less sorted_wrt_nth_less)

lemma free_scan_finds:
  assumes l: "linked h ns" and j: "j < length ns" "ns ! j < bp" "\<forall>i. j < i \<and> i < length ns \<longrightarrow> bp < ns ! i"
  shows "k < length ns \<Longrightarrow> dist (length ns) k j < n \<Longrightarrow> free_scan n h bp (ns ! k) = Inr (ns ! j)"
proof (induction n arbitrary: k)
  case (Suc n)
  have b: "h_base h = ns ! 0" using l by (auto simp: linked_def hd_conv_nth)
  then have base: "h_base h \<le> ns ! i" if "i < length ns" for i using linked_mono [OF l, of 0 i] that by (cases i) auto
  have rd: "header_at h (ns ! k) = Inr (h_mem h (ns ! k))" using linked_read [OF l] Suc.prems by simp
  note nx = linked_next [OF l Suc.prems(1)]
  show ?case
  proof (cases "k = j")
    case True
    show ?thesis
    proof (cases "Suc k < length ns")
      case True
      then show ?thesis using j \<open>k = j\<close> rd nx by (simp add: nxt_def)
    next
      case False
      then show ?thesis using j \<open>k = j\<close> rd nx base [of k] b by (simp add: nxt_def)
    qed
  next
    case False
    have stay: "\<not> (bp > ns ! k \<and> bp < ns ! nxt (length ns) k)"
      "\<not> (ns ! k \<ge> ns ! nxt (length ns) k \<and> (bp > ns ! k \<or> bp < ns ! nxt (length ns) k))"
    proof -
      consider "k < j" | "j < k" using False by linarith
      then have "\<not> (bp > ns ! k \<and> bp < ns ! nxt (length ns) k) \<and>
          \<not> (ns ! k \<ge> ns ! nxt (length ns) k \<and> (bp > ns ! k \<or> bp < ns ! nxt (length ns) k))"
      proof cases
        case 1
        then have "nxt (length ns) k = Suc k" "ns ! k < ns ! Suc k" using j(1) linked_mono [OF l, of k "Suc k"] by (simp_all add: nxt_def)
        moreover have "ns ! Suc k \<le> ns ! j" using 1 linked_mono [OF l, of "Suc k" j] j(1) by (cases "Suc k = j") auto
        ultimately show ?thesis using j(2) by simp
      next
        case 2
        then have p: "bp < ns ! k" using j(3) Suc.prems(1) by blast
        show ?thesis
        proof (cases "Suc k < length ns")
          case True
          then show ?thesis using p linked_mono [OF l, of k "Suc k"] by (simp add: nxt_def)
        next
          case False
          then show ?thesis using p j(1,2) base [of j] b by (simp add: nxt_def)
        qed
      qed
      then show "\<not> (bp > ns ! k \<and> bp < ns ! nxt (length ns) k)"
        "\<not> (ns ! k \<ge> ns ! nxt (length ns) k \<and> (bp > ns ! k \<or> bp < ns ! nxt (length ns) k))" by blast+
    qed
    have "free_scan n h bp (ns ! nxt (length ns) k) = Inr (ns ! j)"
      using Suc False dist_step [OF Suc.prems(1) j(1) False] by (intro Suc.IH) (auto simp: nxt_lt)
    then show ?thesis using rd nx stay by auto
  qed
qed simp

section \<open>free puts a block back\<close>

text \<open>A block that can be freed: above \<open>base\<close>, below the break, not in the free list.\<close>

definition outside :: "heap \<Rightarrow> nat list \<Rightarrow> nat \<Rightarrow> bool" where
  "outside h ns bp \<longleftrightarrow>
     h_base h + 16 \<le> bp \<and> 0 < h_size (h_mem h bp) \<and> fin (h_mem h) bp \<le> h_brk h \<and> block (h_mem h) bp \<inter> free_space h ns = {}"

lemma linked_split:
  assumes l: "linked h ns" and o': "outside h ns bp"
  obtains xs t ys where "ns = xs @ t # ys" "t < bp" "\<forall>y\<in>set ys. bp < y"
    "fin (h_mem h) t \<le> bp" "\<forall>y\<in>set ys. fin (h_mem h) bp \<le> y" "bp \<notin> set ns"
proof -
  let ?lo = "takeWhile (\<lambda>p. p < bp) ns" and ?ys = "dropWhile (\<lambda>p. p < bp) ns"
  have sz: "0 < h_size (h_mem h p)" if "p \<in> set ns" "p \<noteq> h_base h" for p using l that by (auto simp: linked_def)
  have nmem: "bp \<notin> set ns"
  proof
    assume "bp \<in> set ns"
    then have "block (h_mem h) bp \<subseteq> free_space h ns" by (auto simp: free_space_def)
    moreover have "bp \<in> block (h_mem h) bp" using o' fin_pos [of "h_mem h" bp] by (auto simp: outside_def block_def)
    ultimately show False using o' by (auto simp: outside_def)
  qed
  have "?lo \<noteq> []" using l o' by (cases ns) (auto simp: linked_def outside_def)
  then obtain xs t where lo: "?lo = xs @ [t]" by (metis rev_exhaust)
  have ns: "ns = xs @ t # ?ys" using takeWhile_dropWhile_id [of "\<lambda>p. p < bp" ns] lo by simp
  have t: "t < bp" "t \<in> set ns" using set_takeWhileD [of t "\<lambda>p. p < bp" ns] lo by auto
  have ys: "bp < y" if "y \<in> set ?ys" for y
  proof -
    from that obtain z zs where z: "?ys = z # zs" by (cases ?ys) auto
    have "\<not> z < bp" using hd_dropWhile [of "\<lambda>p. p < bp" ns] z by auto
    moreover have "sorted_wrt (<) ns" using l sorted_apart by (auto simp: linked_def)
    then have "sorted_wrt (<) ?ys" by (subst (asm) ns) (simp add: sorted_wrt_append)
    ultimately have "bp \<le> y" using that z by fastforce
    moreover have "y \<noteq> bp" using that nmem by (metis set_dropWhileD)
    ultimately show ?thesis by simp
  qed
  have yn: "set ?ys \<subseteq> set ns" by (auto dest: set_dropWhileD)
  have "fin (h_mem h) t \<le> bp"
  proof (rule ccontr)
    assume "\<not> ?thesis"
    then have "bp \<in> block (h_mem h) t" using t by (simp add: block_def)
    then have "bp \<in> free_space h ns" using t by (auto simp: free_space_def)
    moreover have "bp \<in> block (h_mem h) bp" using o' fin_pos [of "h_mem h" bp] by (auto simp: outside_def block_def)
    ultimately show False using o' by (auto simp: outside_def)
  qed
  moreover have "fin (h_mem h) bp \<le> y" if "y \<in> set ?ys" for y
  proof (rule ccontr)
    assume "\<not> ?thesis"
    then have "y \<in> block (h_mem h) bp" using ys [OF that] by (simp add: block_def)
    moreover have "y \<noteq> h_base h" using ys [OF that] o' by (auto simp: outside_def)
    then have "y \<in> block (h_mem h) y" using sz [of y] that yn fin_pos [of "h_mem h" y] by (auto simp: block_def)
    then have "y \<in> free_space h ns" using that yn by (auto simp: free_space_def)
    ultimately show False using o' by (auto simp: outside_def)
  qed
  ultimately show thesis using that [OF ns] t ys nmem by blast
qed


lemma unat_sum_size:
  assumes "p + 16 * unat a + 16 * unat b \<le> 2 ^ 36" "0 < p"
  shows "unat (a + b) = unat a + unat (b :: uint)"
proof -
  have "unat a + unat b < 2 ^ LENGTH(32)" using assms by simp
  then show ?thesis by (simp add: unat_add_lem [THEN iffD1])
qed

text \<open>The list is cut between \<open>t\<close> and its successor, and \<open>bp\<close> leads the upper part.\<close>

definition opened :: "heap \<Rightarrow> nat list \<Rightarrow> nat \<Rightarrow> nat \<Rightarrow> nat list \<Rightarrow> bool" where
  "opened h xs t bp ys \<longleftrightarrow>
     hd (xs @ [t]) = h_base h \<and> chain (h_mem h) t xs \<and> chain (h_mem h) (h_base h) (bp # ys) \<and>
     sorted_wrt (apart (h_mem h)) (xs @ [t]) \<and> sorted_wrt (apart (h_mem h)) (bp # ys) \<and> t + 16 \<le> bp \<and> fin (h_mem h) t \<le> bp \<and>
     h_size (h_mem h (h_base h)) = 0 \<and>
     (\<forall>p\<in>set (xs @ t # bp # ys). p \<noteq> h_base h \<longrightarrow> 0 < h_size (h_mem h p)) \<and>
     (\<forall>p\<in>set (xs @ t # bp # ys). p + 16 \<le> h_brk h \<and> fin (h_mem h) p \<le> h_brk h) \<and>
     0 < h_base h \<and> h_brk h \<le> 2 ^ 36"

lemma opened_below:
  assumes "opened h xs t bp ys"
  shows "x \<in> set xs \<Longrightarrow> apart (h_mem h) x t" "x \<in> set xs \<Longrightarrow> y \<in> set (bp # ys) \<Longrightarrow> apart (h_mem h) x y"
    "y \<in> set ys \<Longrightarrow> fin (h_mem h) bp < y" "y \<in> set ys \<Longrightarrow> bp < y" "y \<in> set ys \<Longrightarrow> bp + 16 \<le> y"
  using assms by (fastforce simp: opened_def apart_def sorted_wrt_append)+

lemma opened_fresh:
  assumes "opened h xs t bp ys"
  shows "t \<notin> set xs" "t \<notin> set ys" "t \<noteq> bp" "bp \<notin> set xs" "bp \<notin> set ys" "h_base h \<le> t"
proof -
  note b = opened_below [OF assms]
  have t: "t < bp" using assms by (simp add: opened_def)
  show "t \<notin> set xs" using b(1) apart_less by blast
  show "t \<notin> set ys" using b(4) t by fastforce
  show "t \<noteq> bp" using t by simp
  show "bp \<notin> set xs" using b(1) apart_less t by fastforce
  show "bp \<notin> set ys" using b(4) by blast
  show "h_base h \<le> t" using assms b(1) apart_less by (cases xs) (fastforce simp: opened_def)+
qed

text \<open>What \<open>free\<close> achieves in \<open>h'\<close>: \<open>space\<close> is free, and the block \<open>bp\<close>, up to \<open>e\<close>, is part of one free block.\<close>

definition freed :: "heap \<Rightarrow> nat set \<Rightarrow> nat \<Rightarrow> nat \<Rightarrow> heap \<Rightarrow> nat list \<Rightarrow> bool" where
  "freed h space bp e h' ns \<longleftrightarrow>
     linked h' ns \<and> free_space h' ns = space \<and> (\<exists>q\<in>set ns. q \<le> bp \<and> e \<le> fin (h_mem h') q) \<and>
     h_base h' = h_base h \<and> h_brk h' = h_brk h"

lemma join_lower_joins:
  assumes o': "opened h xs t bp ys" and e: "fin (h_mem h) t = bp"
  shows "\<exists>h'. join_lower bp t h = Inr h' \<and> freed h (\<Union>p\<in>set (xs @ t # bp # ys). block (h_mem h) p) bp (fin (h_mem h) bp) (h'\<lparr>h_freep := t\<rparr>) (xs @ t # ys) \<and>
    (\<forall>x. x \<noteq> t \<longrightarrow> h_mem h' x = h_mem h x)"
proof -
  let ?m = "h_mem h" and ?b = "h_base h"
  note b = opened_below [OF o'] and f = opened_fresh [OF o']
  have tb: "t \<noteq> ?b" using o' e by (auto simp: opened_def fin_def)
  have f0: "fin ?m bp \<le> h_brk h" "h_brk h \<le> 2 ^ 36" "0 < ?b" using o' by (auto simp: opened_def)
  have s: "unat (h_size (?m t) + h_size (?m bp)) = unat (h_size (?m t)) + unat (h_size (?m bp))"
    using f0 f(6) e by (intro unat_sum_size [of t]) (auto simp: fin_def)
  define x where "x = \<lparr>h_ptr = h_ptr (?m bp), h_size = h_size (?m t) + h_size (?m bp)\<rparr>"
  define h' where "h' = h\<lparr>h_mem := ?m(t := x), h_freep := t\<rparr>"
  have fx: "fin (?m(t := x)) t = fin ?m bp" using s e by (simp add: fin_def x_def)
  have r: "join_lower bp t h = Inr (h\<lparr>h_mem := ?m(t := x)\<rparr>)"
    using o' e by (simp add: join_lower_def header_at_def set_header_def opened_def x_def)
  have pos: "0 < h_size x" using s o' by (auto simp: opened_def x_def word_less_nat_alt)
  have chain: "chain (?m(t := x)) ?b (xs @ t # ys)"
    using o' f by (simp add: opened_def chain_append chain_upd x_def)
  have ap: "sorted_wrt (apart (?m(t := x))) (xs @ t # ys)"
  proof -
    have "apart (?m(t := x)) p q" if "p \<in> set xs" "q \<in> set (t # ys)" for p q
    proof -
      have "apart ?m p q" using that b(1) [of p] b(2) [of p q] by auto
      moreover have "p \<noteq> t" using that f(1) by blast
      ultimately show ?thesis by (simp add: apart_def fin_upd)
    qed
    moreover have "apart (?m(t := x)) t y" if "y \<in> set ys" for y using b(3,5) [OF that] fx o' by (simp add: apart_def opened_def)
    moreover have "sorted_wrt (apart ?m) xs" "sorted_wrt (apart ?m) ys" using o' by (auto simp: opened_def sorted_wrt_append)
    ultimately show ?thesis using f(1,2) by (auto simp: sorted_wrt_append apart_upd)
  qed
  have bt: "block (?m(t := x)) t = block ?m t \<union> block ?m bp"
    using fx e fin_ge [of bp ?m] fin_ge [of t ?m] by (auto simp: block_def)
  have l: "linked h' (xs @ t # ys)"
    unfolding linked_def h'_def using o' f chain ap pos tb fx f0
    by (auto simp: opened_def fin_upd hd_append split: if_splits)
  have "free_space h' (xs @ t # ys) = (\<Union>p\<in>set (xs @ t # bp # ys). block ?m p)"
    using bt by (simp add: free_space_def h'_def UN_Un blocks_upd [OF f(1)] blocks_upd [OF f(2)] Un_ac)
  then show ?thesis using r l fx e o' by (auto simp: freed_def h'_def opened_def)
qed

lemma join_lower_links:
  assumes o': "opened h xs t bp ys" and e: "fin (h_mem h) t \<noteq> bp"
  shows "\<exists>h'. join_lower bp t h = Inr h' \<and> freed h (\<Union>p\<in>set (xs @ t # bp # ys). block (h_mem h) p) bp (fin (h_mem h) bp) (h'\<lparr>h_freep := t\<rparr>) (xs @ t # bp # ys) \<and>
    (\<forall>x. x \<noteq> t \<longrightarrow> h_mem h' x = h_mem h x)"
proof -
  let ?m = "h_mem h" and ?b = "h_base h"
  note b = opened_below [OF o'] and f = opened_fresh [OF o']
  define x where "x = (?m t)\<lparr>h_ptr := bp\<rparr>"
  define h' where "h' = h\<lparr>h_mem := ?m(t := x), h_freep := t\<rparr>"
  have fx: "fin (?m(t := x)) = fin ?m" by (auto simp: fin_def x_def)
  have sx: "h_size ((?m(t := x)) p) = h_size (?m p)" for p by (simp add: x_def)
  have r: "join_lower bp t h = Inr (h\<lparr>h_mem := ?m(t := x)\<rparr>)"
    using o' e by (simp add: join_lower_def header_at_def set_header_def opened_def x_def)
  have chain: "chain (?m(t := x)) ?b (xs @ t # bp # ys)"
    using o' f by (simp add: opened_def chain_append chain_upd x_def)
  have ft: "fin ?m t < bp" using o' e by (simp add: opened_def)
  have "apart ?m t y" if "y \<in> set (bp # ys)" for y
    using that b(4) [of y] ft o' by (fastforce simp: apart_def opened_def)
  moreover have "apart (?m(t := x)) = apart ?m" using fx by (simp add: apart_def fun_eq_iff)
  ultimately have ap: "sorted_wrt (apart (?m(t := x))) (xs @ t # bp # ys)"
    using o' b(1,2) by (auto simp: opened_def sorted_wrt_append)
  have l: "linked h' (xs @ t # bp # ys)"
    unfolding linked_def h'_def using o' chain ap fx sx by (auto simp: opened_def hd_append)
  have "free_space h' (xs @ t # bp # ys) = (\<Union>p\<in>set (xs @ t # bp # ys). block ?m p)"
    using fx by (simp add: free_space_def h'_def block_def)
  then show ?thesis using r l fx by (auto simp: freed_def h'_def)
qed


lemma join_upper_opens:
  assumes l: "linked h ns" and o': "outside h ns bp" and ns: "ns = xs @ t # ys" and t: "t < bp" "fin (h_mem h) t \<le> bp"
    and ys: "\<forall>y\<in>set ys. bp < y" "\<forall>y\<in>set ys. fin (h_mem h) bp \<le> y"
  shows "\<exists>h' ys'. join_upper bp t h = Inr h' \<and> opened h' xs t bp ys' \<and> length ys' \<le> length ys \<and>
     (\<Union>p\<in>set (xs @ t # bp # ys'). block (h_mem h') p) = free_space h ns \<union> block (h_mem h) bp \<and>
     fin (h_mem h) bp \<le> fin (h_mem h') bp \<and> (\<forall>x. x \<noteq> bp \<longrightarrow> h_mem h' x = h_mem h x) \<and>
     h_base h' = h_base h \<and> h_brk h' = h_brk h \<and> h_freep h' = h_freep h"
proof -
  let ?m = "h_mem h" and ?b = "h_base h"
  have L: "hd (xs @ [t]) = ?b" "chain ?m t xs" "h_ptr (?m t) = hd (ys @ [?b])" "chain ?m ?b ys" "sorted_wrt (apart ?m) (xs @ [t])"
    "sorted_wrt (apart ?m) ys" "h_size (?m ?b) = 0" "\<forall>p\<in>set ns. p \<noteq> ?b \<longrightarrow> 0 < h_size (?m p)"
    "\<forall>p\<in>set ns. p + 16 \<le> h_brk h \<and> fin ?m p \<le> h_brk h" "0 < ?b" "h_brk h \<le> 2 ^ 36"
    using l ns by (auto simp: linked_def chain_append sorted_wrt_append hd_append split: if_splits)
  have O: "?b + 16 \<le> bp" "0 < h_size (?m bp)" "fin ?m bp \<le> h_brk h" using o' by (auto simp: outside_def)
  have t16: "t + 16 \<le> bp" using L(8) ns O(1) t(2) fin_pos [of ?m t] by (cases "t = ?b") auto
  have fresh: "bp \<notin> set xs" "bp \<noteq> t" "bp \<notin> set ys" "bp \<noteq> ?b" "bp \<notin> set ns"
  proof -
    show "bp \<notin> set xs" using L(5) t apart_less by (fastforce simp: sorted_wrt_append)
    then show "bp \<notin> set ns" "bp \<noteq> t" "bp \<notin> set ys" "bp \<noteq> ?b" using t ys(1) O(1) ns by auto
  qed
  have bp16: "bp + 16 \<le> h_brk h" using fin_pos [of ?m bp] O(2,3) by simp
  have keep: "opened (h\<lparr>h_mem := ?m(bp := x)\<rparr>) xs t bp ys'"
    if "h_ptr x = hd (ys' @ [?b])" "chain ?m ?b ys'" "sorted_wrt (apart ?m) ys'" "set ys' \<subseteq> set ys" "0 < h_size x"
      "bp + 16 * unat (h_size x) \<le> h_brk h" "\<forall>y\<in>set ys'. bp + 16 * unat (h_size x) < y" for x ys'
  proof -
    have "bp \<notin> set ys'" "\<forall>y\<in>set ys'. bp + 16 \<le> y" using that(4,5,7) fresh by (force simp: word_less_nat_alt)+
    moreover have "bp \<notin> set (xs @ [t])" using fresh by simp
    moreover have "\<forall>p\<in>set ys'. p \<in> set ns" using that(4) ns by auto
    ultimately show ?thesis
      unfolding opened_def using that L fresh t(2) t16 bp16 ns
      by (simp add: chain_upd apart_upd fin_upd apart_def ball_Un) blast
  qed
  show ?thesis
  proof (cases "fin ?m bp = h_ptr (?m t)")
    case False
    let ?x = "(?m bp)\<lparr>h_ptr := h_ptr (?m t)\<rparr>"
    have r: "join_upper bp t h = Inr (h\<lparr>h_mem := ?m(bp := ?x)\<rparr>)"
      using False linked_read [OF l, of t] ns bp16 by (simp add: join_upper_def header_at_def set_header_def)
    have "fin ?m bp < y" if "y \<in> set ys" for y
    proof (cases ys)
      case (Cons z zs)
      then have "fin ?m bp < z" using False L(3) ys(2) by auto
      then show ?thesis using that Cons L(6) apart_less by fastforce
    qed (use that in simp)
    then have "opened (h\<lparr>h_mem := ?m(bp := ?x)\<rparr>) xs t bp ys"
      using L O by (intro keep) (auto simp: fin_def)
    moreover have "(\<Union>p\<in>set (xs @ t # bp # ys). block (?m(bp := ?x)) p) = free_space h ns \<union> block ?m bp"
    proof -
      have "block (?m(bp := ?x)) = block ?m" by (auto simp: block_def fin_def fun_eq_iff)
      then show ?thesis using ns by (auto simp: free_space_def)
    qed
    ultimately show ?thesis using r by (intro exI [of _ "h\<lparr>h_mem := ?m(bp := ?x)\<rparr>"] exI [of _ ys]) (simp add: fin_upd fin_def)
  next
    case True
    have "ys \<noteq> []" using True L(3) O(1) fin_ge [of bp ?m] by auto
    then obtain n ys' where n: "ys = n # ys'" by (cases ys) auto
    let ?x = "\<lparr>h_ptr = h_ptr (?m n), h_size = h_size (?m bp) + h_size (?m n)\<rparr>"
    have fn: "fin ?m bp = n" using True L(3) n by simp
    have r: "join_upper bp t h = Inr (h\<lparr>h_mem := ?m(bp := ?x)\<rparr>)"
      using True linked_read [OF l, of t] linked_read [OF l, of n] ns n bp16 fn by (simp add: join_upper_def header_at_def set_header_def)
    have b: "fin ?m n \<le> h_brk h" "0 < h_size (?m n)" using L(8,9) ns n ys(1) O(1) by auto
    have s: "unat (h_size ?x) = unat (h_size (?m bp)) + unat (h_size (?m n))"
      using b fn O(1) L(10,11) unat_sum_size [of bp "h_size (?m bp)" "h_size (?m n)"] by (simp add: fin_def)
    then have fx: "bp + 16 * unat (h_size ?x) = fin ?m n" using fn by (simp add: fin_def)
    have "opened (h\<lparr>h_mem := ?m(bp := ?x)\<rparr>) xs t bp ys'"
    proof (rule keep)
      show "0 < h_size ?x" using s O(2) by (simp add: word_less_nat_alt)
      show "bp + 16 * unat (h_size ?x) \<le> h_brk h" "\<forall>y\<in>set ys'. bp + 16 * unat (h_size ?x) < y"
        using fx b L(6) n by (simp_all add: apart_def)
    qed (use L(4,6) n in auto)
    moreover have "(\<Union>p\<in>set (xs @ t # bp # ys'). block (?m(bp := ?x)) p) = free_space h ns \<union> block ?m bp"
    proof -
      have "block (?m(bp := ?x)) bp = block ?m bp \<union> block ?m n"
        using fx fn fin_ge [of bp ?m] fin_ge [of n ?m] by (auto simp: block_def fin_upd)
      moreover have "bp \<notin> set xs \<union> {t} \<union> set ys'" using fresh n by auto
      from blocks_upd [OF this] have "(\<Union>p\<in>set xs \<union> {t} \<union> set ys'. block (?m(bp := ?x)) p) = (\<Union>p\<in>set xs \<union> {t} \<union> set ys'. block ?m p)" .
      moreover have "(\<Union>p\<in>set (xs @ t # bp # ys'). block (?m(bp := ?x)) p) =
          block (?m(bp := ?x)) bp \<union> (\<Union>p\<in>set xs \<union> {t} \<union> set ys'. block (?m(bp := ?x)) p)" by auto
      ultimately show ?thesis using ns n by (auto simp: free_space_def)
    qed
    ultimately show ?thesis using r fx fn fin_ge [of n ?m] n
      by (intro exI [of _ "h\<lparr>h_mem := ?m(bp := ?x)\<rparr>"] exI [of _ ys']) (simp add: fin_upd)
  qed
qed


lemma free_frees:
  assumes l: "linked h ns" and o': "outside h ns bp"
  shows "\<exists>h' ns'. free (bp + 16) h = Inr h' \<and> freed h (free_space h ns \<union> block (h_mem h) bp) bp (fin (h_mem h) bp) h' ns' \<and>
     length ns' \<le> Suc (length ns) \<and> (\<forall>x. x \<notin> set ns \<and> x \<noteq> bp \<longrightarrow> h_mem h' x = h_mem h x)"
proof -
  obtain xs t ys where s: "ns = xs @ t # ys" "t < bp" "\<forall>y\<in>set ys. bp < y" "fin (h_mem h) t \<le> bp"
    "\<forall>y\<in>set ys. fin (h_mem h) bp \<le> y" "bp \<notin> set ns"
    by (rule linked_split [OF l o'])
  obtain k where k: "k < length ns" "h_freep h = ns ! k" using l by (metis linked_def in_set_conv_nth)
  have j: "length xs < length ns" "ns ! length xs = t" using s(1) by auto
  have up: "bp < ns ! i" if "length xs < i" "i < length ns" for i
    using that s(1,3) by (auto simp: nth_append nth_Cons split: nat.splits)
  have scan: "free_scan (fuel h) h bp (h_freep h) = Inr t"
    using free_scan_finds [OF l j(1), of bp k "fuel h"] j s(2) up k linked_length [OF l] dist_lt [OF k(1) j(1)] by auto
  obtain h1 ys' where u: "join_upper bp t h = Inr h1" "opened h1 xs t bp ys'" "length ys' \<le> length ys"
    "(\<Union>p\<in>set (xs @ t # bp # ys'). block (h_mem h1) p) = free_space h ns \<union> block (h_mem h) bp"
    "fin (h_mem h) bp \<le> fin (h_mem h1) bp" "\<forall>x. x \<noteq> bp \<longrightarrow> h_mem h1 x = h_mem h x" "h_base h1 = h_base h" "h_brk h1 = h_brk h"
    using join_upper_opens [OF l o' s(1,2,4,3,5)] by blast
  obtain h2 ns' where d: "join_lower bp t h1 = Inr h2" "length ns' \<le> length xs + length ys' + 2"
    "freed h1 (\<Union>p\<in>set (xs @ t # bp # ys'). block (h_mem h1) p) bp (fin (h_mem h1) bp) (h2\<lparr>h_freep := t\<rparr>) ns'" "\<forall>x. x \<noteq> t \<longrightarrow> h_mem h2 x = h_mem h1 x"
  proof (cases "fin (h_mem h1) t = bp")
    case True
    then show thesis using that [of _ "xs @ t # ys'"] join_lower_joins [OF u(2)] by auto
  next
    case False
    then show thesis using that [of _ "xs @ t # bp # ys'"] join_lower_links [OF u(2)] by auto
  qed
  have "free (bp + 16) h = Inr (h2\<lparr>h_freep := t\<rparr>)" using scan u(1) d(1) by (simp add: free_def)
  moreover have "freed h (free_space h ns \<union> block (h_mem h) bp) bp (fin (h_mem h) bp) (h2\<lparr>h_freep := t\<rparr>) ns'"
    using d(3) u(4,5,7,8) unfolding freed_def by force
  moreover have "length ns' \<le> Suc (length ns)" using d(2) u(3) s(1) by simp
  moreover have "h_mem h2 x = h_mem h x" if "x \<notin> set ns" "x \<noteq> bp" for x using that d(4) u(6) s(1) by auto
  ultimately show ?thesis by (intro exI [of _ "h2\<lparr>h_freep := t\<rparr>"] exI [of _ ns']) auto
qed

section \<open>malloc takes a block\<close>

lemma linked_disjoint: "linked h ns \<Longrightarrow> p \<in> set ns \<Longrightarrow> q \<in> set ns \<Longrightarrow> p < q \<Longrightarrow> apart (h_mem h) p q"
proof -
  assume l: "linked h ns" and "p \<in> set ns" "q \<in> set ns" "p < q"
  then obtain i j where i: "i < length ns" "ns ! i = p" and j: "j < length ns" "ns ! j = q" by (metis in_set_conv_nth)
  have "i < j" using linked_mono [OF l, of j i] i j \<open>p < q\<close> by (metis linorder_neqE_nat less_asym less_irrefl)
  then show "apart (h_mem h) p q" using l i j sorted_wrt_nth_less by (auto simp: linked_def)
qed

lemma linked_blocks: "linked h ns \<Longrightarrow> p \<in> set ns \<Longrightarrow> q \<in> set ns \<Longrightarrow> p \<noteq> q \<Longrightarrow> block (h_mem h) p \<inter> block (h_mem h) q = {}"
  using linked_disjoint [of h ns p q] linked_disjoint [of h ns q p] by (fastforce simp: apart_def block_def)

lemma linked_inside: "linked h ns \<Longrightarrow> p \<in> set ns \<Longrightarrow> p < a \<Longrightarrow> a < fin (h_mem h) p \<Longrightarrow> a \<notin> set ns"
  using linked_disjoint [of h ns p a] by (auto simp: apart_def)

text \<open>\<open>malloc\<close> has taken the block \<open>q\<close> of \<open>n\<close> units out of the space that was free.\<close>

definition taken :: "heap \<Rightarrow> nat set \<Rightarrow> uint \<Rightarrow> heap \<Rightarrow> nat list \<Rightarrow> nat \<Rightarrow> bool" where
  "taken h space n h' ns q \<longleftrightarrow>
     linked h' ns \<and> outside h' ns q \<and> h_size (h_mem h' q) = n \<and> block (h_mem h') q \<subseteq> space \<and>
     free_space h' ns = space - block (h_mem h') q \<and> h_base h' = h_base h \<and> h_brk h' = h_brk h"

lemma take_exact:
  assumes l: "linked h (xs @ v # p # ys)" and p: "h_size (h_mem h p) = n" "p \<noteq> h_base h"
  shows "\<exists>h'. take_block n v p h = Inr (h', p + 16) \<and> taken h (free_space h (xs @ v # p # ys)) n h' (xs @ v # ys) p \<and>
    (\<forall>x. x \<noteq> v \<longrightarrow> h_mem h' x = h_mem h x)"
proof -
  let ?m = "h_mem h" and ?b = "h_base h" and ?ns = "xs @ v # p # ys" and ?ns' = "xs @ v # ys"
  define x where "x = (?m v)\<lparr>h_ptr := h_ptr (?m p)\<rparr>"
  define h' where "h' = h\<lparr>h_mem := ?m(v := x), h_freep := v\<rparr>"
  have d: "distinct ?ns" using linked_distinct [OF l] .
  have fx: "fin (?m(v := x)) = fin ?m" and sx: "h_size ((?m(v := x)) a) = h_size (?m a)" for a by (auto simp: fin_def x_def)
  then have eq: "block (?m(v := x)) = block ?m" "apart (?m(v := x)) = apart ?m" by (simp_all add: block_def apart_def fun_eq_iff)
  have r: "take_block n v p h = Inr (h', p + 16)"
    using linked_read [OF l, of p] linked_read [OF l, of v] p l
    by (simp add: take_block_def x_def h'_def set_header_def linked_def)
  have "chain (?m(v := x)) ?b ?ns'" using l d by (auto simp: linked_def chain_append chain_upd x_def)
  then have lk: "linked h' ?ns'"
    using l eq fx sx unfolding linked_def h'_def by (auto simp: sorted_wrt_append hd_append)
  have "block ?m p \<inter> block ?m a = {}" if "a \<in> set ?ns'" for a using linked_blocks [OF l, of p a] that d by auto
  then have sp: "free_space h' ?ns' = free_space h ?ns - block ?m p" by (auto simp: free_space_def h'_def eq)
  have "outside h' ?ns' p"
    using l p fx linked_base [OF l, of p] sp sx by (auto simp: outside_def h'_def linked_def eq)
  then show ?thesis using r lk sp p sx eq by (auto simp: taken_def h'_def free_space_def)
qed

lemma take_tail:
  assumes l: "linked h ns" and p: "p \<in> set ns" "n < h_size (h_mem h p)" "0 < n" and v: "v \<in> set ns"
  shows "\<exists>h' q. take_block n v p h = Inr (h', q + 16) \<and> taken h (free_space h ns) n h' ns q \<and>
    (\<forall>x. x \<noteq> p \<and> x \<noteq> q \<longrightarrow> h_mem h' x = h_mem h x)"
proof -
  let ?m = "h_mem h" and ?b = "h_base h"
  define m1 where "m1 = ?m(p := (?m p)\<lparr>h_size := h_size (?m p) - n\<rparr>)"
  define q where "q = fin m1 p"
  define m2 where "m2 = m1(q := (m1 q)\<lparr>h_size := n\<rparr>)"
  define h' where "h' = h\<lparr>h_mem := m2, h_freep := v\<rparr>"
  have pb: "p \<noteq> ?b" using l p by (auto simp: linked_def)
  have un: "unat (h_size (?m p) - n) = unat (h_size (?m p)) - unat n" using p by (intro unat_sub) simp
  have c: "0 < unat n" "unat n < unat (h_size (?m p))" using p by (simp_all add: word_less_nat_alt)
  have q: "q + 16 * unat n = fin ?m p" "p + 16 \<le> q" using un c by (auto simp: q_def m1_def fin_def)
  have qn: "q \<notin> set ns" using linked_inside [OF l p(1), of q] q c by simp
  have bd: "fin ?m p \<le> h_brk h" "p + 16 \<le> h_brk h" "v + 16 \<le> h_brk h" using l p v by (auto simp: linked_def)
  have r: "take_block n v p h = Inr (h', q + 16)"
    using p bd q c by (simp add: take_block_def header_at_def set_header_def m1_def [symmetric] q_def [symmetric] m2_def h'_def Let_def)
  have f2: "fin m2 a = (if a = p then q else if a = q then fin ?m p else fin ?m a)" for a
    using q(2) q(1) by (auto simp: m2_def m1_def fin_upd q_def)
  have s2: "h_size (m2 a) = (if a = q then n else if a = p then h_size (?m p) - n else h_size (?m a))" for a
    using q(2) by (auto simp: m2_def m1_def)
  have p2: "h_ptr (m2 a) = h_ptr (?m a)" for a by (simp add: m2_def m1_def)
  have "chain m2 ?b ns' = chain ?m ?b ns'" for ns' by (induction ns') (simp_all add: p2)
  moreover have "sorted_wrt (apart m2) ns"
  proof (rule sorted_wrt_mono_rel)
    show "apart m2 x y" if "x \<in> set ns" "y \<in> set ns" "apart ?m x y" for x y
      using that qn q by (auto simp: apart_def f2)
    show "sorted_wrt (apart ?m) ns" using l by (simp add: linked_def)
  qed
  moreover have "0 < h_size (?m p) - n" using un c by (simp add: word_less_nat_alt)
  moreover have "q \<noteq> ?b" using q(2) linked_base [OF l p(1)] by auto
  ultimately have lk: "linked h' ns"
    using l qn pb v bd q unfolding linked_def h'_def by (auto simp: s2 f2)
  have bl: "block m2 p = {p..<q}" "block m2 q = {q..<fin ?m p}" using q by (simp_all add: block_def f2)
  have "block ?m p \<inter> block ?m a = {} \<and> block m2 a = block ?m a" if "a \<in> set ns" "a \<noteq> p" for a
    using linked_blocks [OF l p(1) that(1)] that qn by (auto simp: block_def f2)
  moreover have "free_space h' ns = block m2 p \<union> (\<Union>a\<in>set ns - {p}. block m2 a)" "free_space h ns = block ?m p \<union> (\<Union>a\<in>set ns - {p}. block ?m a)"
    using p(1) by (auto simp: free_space_def h'_def)
  moreover have "block ?m p = {p..<q} \<union> {q..<fin ?m p}" using q by (auto simp: block_def)
  moreover have "{p..<q} \<inter> {q..<fin ?m p} = {}" by auto
  ultimately have sp: "free_space h' ns = free_space h ns - block m2 q" "block m2 q \<subseteq> free_space h ns"
    using bl by auto
  have "outside h' ns q"
    using sp q bd p(3) linked_base [OF l p(1)] pb by (auto simp: outside_def h'_def s2 f2)
  then have "taken h (free_space h ns) n h' ns q"
    using lk sp by (simp add: taken_def h'_def s2)
  then show ?thesis using r by (intro exI [of _ h'] exI [of _ q]) (simp add: h'_def m2_def m1_def)
qed


lemma take_takes:
  assumes l: "linked h ns" and i: "pi < length ns" "i = nxt (length ns) pi" "n \<le> h_size (h_mem h (ns ! i))" "0 < n"
  shows "\<exists>h' ns' q. take_block n (ns ! pi) (ns ! i) h = Inr (h', q + 16) \<and> taken h (free_space h ns) n h' ns' q \<and>
    (\<forall>x. x \<notin> set ns \<and> x \<noteq> q \<longrightarrow> h_mem h' x = h_mem h x)"
proof -
  have il: "i < length ns" using i nxt_lt by simp
  have pb: "ns ! i \<noteq> h_base h" using l i(3,4) by (auto simp: linked_def)
  then have si: "i = Suc pi" using i(1,2) l by (auto simp: nxt_def linked_def hd_conv_nth split: if_splits)
  show ?thesis
  proof (cases "h_size (h_mem h (ns ! i)) = n")
    case True
    have ns: "ns = take pi ns @ ns ! pi # ns ! i # drop (Suc i) ns"
      using il si by (metis Cons_nth_drop_Suc Suc_lessD id_take_nth_drop)
    then have l': "linked h (take pi ns @ ns ! pi # ns ! i # drop (Suc i) ns)" using l by simp
    obtain h' where "take_block n (ns ! pi) (ns ! i) h = Inr (h', ns ! i + 16)"
      "taken h (free_space h ns) n h' (take pi ns @ ns ! pi # drop (Suc i) ns) (ns ! i)" "\<forall>x. x \<noteq> ns ! pi \<longrightarrow> h_mem h' x = h_mem h x"
      using take_exact [OF l' True pb] ns by auto
    then show ?thesis using i(1) by (metis nth_mem)
  next
    case False
    then have "n < h_size (h_mem h (ns ! i))" using i(3) by simp
    then show ?thesis using take_tail [OF l _ _ i(4)] il i(1) by (metis nth_mem)
  qed
qed

lemma loop_finds:
  assumes l: "linked h ns" and f: "f < length ns" "h_freep h = ns ! f" and t: "t < length ns" "n \<le> h_size (h_mem h (ns ! t))"
  shows "pk < length ns \<Longrightarrow> k = nxt (length ns) pk \<Longrightarrow> dist (length ns) k t \<le> dist (length ns) k f \<Longrightarrow> dist (length ns) k t < u \<Longrightarrow>
    \<exists>pi i. pi < length ns \<and> i = nxt (length ns) pi \<and> n \<le> h_size (h_mem h (ns ! i)) \<and>
      malloc_loop u grow n (ns ! pk) (ns ! k) h = take_block n (ns ! pi) (ns ! i) h"
proof (induction u arbitrary: k pk)
  case (Suc u)
  have k: "k < length ns" using Suc.prems nxt_lt by simp
  have rd: "header_at h (ns ! k) = Inr (h_mem h (ns ! k))" using linked_read [OF l] k by simp
  show ?case
  proof (cases "n \<le> h_size (h_mem h (ns ! k))")
    case True
    then show ?thesis using Suc.prems rd by (intro exI [of _ pk] exI [of _ k]) simp
  next
    case False
    then have kt: "k \<noteq> t" using t by auto
    then have "dist (length ns) k t \<noteq> 0" using dist_0 [OF k t(1)] by simp
    then have kf: "k \<noteq> f" using Suc.prems(3) dist_0 [OF k f(1)] by auto
    then have "ns ! k \<noteq> h_freep h" using f k linked_distinct [OF l] by (simp add: nth_eq_iff_index_eq)
    moreover have "\<exists>pi i. pi < length ns \<and> i = nxt (length ns) pi \<and> n \<le> h_size (h_mem h (ns ! i)) \<and>
      malloc_loop u grow n (ns ! k) (ns ! nxt (length ns) k) h = take_block n (ns ! pi) (ns ! i) h"
      using Suc.prems dist_step [OF k t(1) kt] dist_step [OF k f(1) kf] k by (intro Suc.IH) auto
    ultimately show ?thesis using rd False linked_next [OF l k] by simp
  qed
qed simp

definition more :: "nat \<Rightarrow> (nat \<Rightarrow> int \<Rightarrow> nat option) \<Rightarrow> uint \<Rightarrow> heap \<Rightarrow> (heap \<times> nat) res" where
  "more u grow n h =
     bindE (morecore grow n h) (\<lambda>(h, p). if p = 0 then Inr (h, 0) else bindE (header_at h p) (\<lambda>x. malloc_loop u grow n p (h_ptr x) h))"

lemma loop_exhausts:
  assumes l: "linked h ns" and f: "f < length ns" "h_freep h = ns ! f" and t: "\<forall>p\<in>set ns. h_size (h_mem h p) < n"
  shows "k < length ns \<Longrightarrow> dist (length ns) k f < u \<Longrightarrow>
    malloc_loop u grow n v (ns ! k) h = more (u - Suc (dist (length ns) k f)) grow n h"
proof (induction u arbitrary: k v)
  case (Suc u)
  have rd: "header_at h (ns ! k) = Inr (h_mem h (ns ! k))" using linked_read [OF l] Suc.prems by simp
  have no: "\<not> n \<le> h_size (h_mem h (ns ! k))" using t Suc.prems(1) by (simp add: linorder_not_le)
  show ?case
  proof (cases "k = f")
    case True
    then show ?thesis using rd no f by (simp add: dist_def more_def)
  next
    case False
    then have "ns ! k \<noteq> h_freep h" using f Suc.prems(1) linked_distinct [OF l] by (simp add: nth_eq_iff_index_eq)
    moreover have "malloc_loop u grow n (ns ! k) (ns ! nxt (length ns) k) h = more (u - Suc (dist (length ns) (nxt (length ns) k) f)) grow n h"
      using Suc.prems dist_step [OF Suc.prems(1) f(1) False] by (intro Suc.IH) (auto simp: nxt_lt)
    ultimately show ?thesis using rd no linked_next [OF l Suc.prems(1)] dist_step [OF Suc.prems(1) f(1) False] by simp
  qed
qed simp

text \<open>A search that starts after \<open>freep\<close> finds a block when there is one that is large enough.\<close>

lemma search_finds:
  assumes l: "linked h ns" and q: "q \<in> set ns" "n \<le> h_size (h_mem h q)" "0 < n" and u: "length ns \<le> u"
  shows "\<exists>h' ns' a. malloc_loop u grow n (h_freep h) (h_ptr (h_mem h (h_freep h))) h = Inr (h', a + 16) \<and>
    taken h (free_space h ns) n h' ns' a \<and> (\<forall>x. x \<notin> set ns \<and> x \<noteq> a \<longrightarrow> h_mem h' x = h_mem h x)"
proof -
  obtain f where f: "f < length ns" "h_freep h = ns ! f" using l by (metis linked_def in_set_conv_nth)
  obtain t where t: "t < length ns" "q = ns ! t" using q by (metis in_set_conv_nth)
  let ?k = "nxt (length ns) f"
  have d: "dist (length ns) ?k t < length ns" using dist_lt [OF nxt_lt [OF f(1)] t(1)] .
  then have "dist (length ns) ?k t \<le> dist (length ns) ?k f" using dist_nxt [OF f(1)] by simp
  from loop_finds [OF l f t(1) _ f(1) refl this, of n u grow] obtain pi i
    where i: "pi < length ns" "i = nxt (length ns) pi" "n \<le> h_size (h_mem h (ns ! i))"
      "malloc_loop u grow n (ns ! f) (ns ! ?k) h = take_block n (ns ! pi) (ns ! i) h"
    using q(2) t(2) d u by auto
  then show ?thesis using take_takes [OF l i(1-3) q(3)] f(2) linked_next [OF l f(1)] by auto
qed


lemma linked_nodes: "linked h ns \<Longrightarrow> p \<in> set ns \<Longrightarrow> p = h_base h \<or> p \<in> free_space h ns"
  using fin_pos [of "h_mem h" p] by (fastforce simp: linked_def free_space_def block_def)

lemma outside_block: "outside h ns q \<Longrightarrow> q \<in> block (h_mem h) q"
  using fin_pos [of "h_mem h" q] by (auto simp: outside_def block_def)

section \<open>morecore\<close>

text \<open>What the kernel promises: memory is added at the break, and less than 64 GiB of it.\<close>

definition sbrk_ok :: "(nat \<Rightarrow> int \<Rightarrow> nat option) \<Rightarrow> bool" where
  "sbrk_ok grow \<longleftrightarrow> (\<forall>b n b'. 0 \<le> n \<and> grow b n = Some b' \<longrightarrow> int b' = int b + n \<and> b' \<le> 2 ^ 36)"

definition demand :: "uint \<Rightarrow> uint" where
  "demand nu = (if nu < 4096 then 4096 else nu)"

lemma demand_ge: "nu \<le> demand nu" "0 < demand nu"
  by (auto simp: demand_def linorder_not_less intro: less_le_trans [of 0 4096])

lemma sint_uint_small: "n < 2 ^ 31 \<Longrightarrow> sint (of_nat n :: uint) = int n"
  by (simp add: signed_of_nat signed_take_bit_int_eq_self)

lemma demand_int: "16 * unat nu < 2 ^ 31 \<Longrightarrow> sint (of_nat (16 * unat (demand nu)) :: uint) = 16 * int (unat (demand nu))"
proof -
  assume "16 * unat nu < 2 ^ 31"
  then have "16 * unat (demand nu) < 2 ^ 31" by (simp add: demand_def)
  from sint_uint_small [OF this] show ?thesis by (simp only: of_nat_mult of_nat_numeral)
qed

lemma linked_extend:
  assumes l: "linked h ns" and b: "b \<le> 2 ^ 36" "h_brk h \<le> b" and x: "0 < h_size x" "h_brk h + 16 * unat (h_size x) \<le> b"
    and h': "h' = h\<lparr>h_brk := b, h_mem := (h_mem h)(h_brk h := x)\<rparr>"
  shows "linked h' ns" "outside h' ns (h_brk h)" "free_space h' ns = free_space h ns"
proof -
  let ?p = "h_brk h"
  have below: "p + 16 \<le> ?p" if "p \<in> set ns" for p using l that by (simp add: linked_def)
  have "h_base h \<in> set ns" using l unfolding linked_def by (metis list.set_sel(1))
  then have n: "?p \<notin> set ns" "h_base h \<noteq> ?p" "h_base h + 16 \<le> ?p" using below [of "h_base h"] below [of ?p] by auto
  show lk: "linked h' ns" unfolding linked_def h' using l n b by (auto simp: linked_def chain_upd apart_upd fin_upd)
  show sp: "free_space h' ns = free_space h ns" using blocks_upd [OF n(1)] by (simp add: free_space_def h')
  have "free_space h ns \<subseteq> {..<?p}" using l by (fastforce simp: free_space_def block_def linked_def)
  then show "outside h' ns ?p" using sp n x by (auto simp: outside_def h' fin_upd block_def)
qed

lemma morecore_grows:
  assumes l: "linked h ns" and g: "sbrk_ok grow" and nu: "16 * unat nu < 2 ^ 31"
  shows "grow (h_brk h) (16 * int (unat (demand nu))) = None \<and> morecore grow nu h = Inr (h, 0) \<or>
    (\<exists>h' ns'. morecore grow nu h = Inr (h', h_freep h') \<and> linked h' ns' \<and> length ns' \<le> Suc (length ns) \<and>
       h_brk h \<le> h_brk h' \<and> free_space h' ns' = free_space h ns \<union> {h_brk h..<h_brk h'} \<and> (\<exists>q\<in>set ns'. nu \<le> h_size (h_mem h' q)) \<and>
       h_base h' = h_base h \<and> (\<forall>x. x \<notin> free_space h' ns' \<and> x \<noteq> h_base h \<longrightarrow> h_mem h' x = h_mem h x))"
proof (cases "grow (h_brk h) (16 * int (unat (demand nu)))")
  case None
  then show ?thesis using demand_int [OF nu] by (simp add: morecore_def demand_def [symmetric] Let_def)
next
  case (Some b)
  let ?p = "h_brk h"
  have "int b = int ?p + 16 * int (unat (demand nu))" "b \<le> 2 ^ 36"
    using g [unfolded sbrk_ok_def, rule_format, of "16 * int (unat (demand nu))" ?p b] Some by auto
  then have b: "b = ?p + 16 * unat (demand nu)" "b \<le> 2 ^ 36" by linarith+
  define x where "x = (h_mem h ?p)\<lparr>h_size := demand nu\<rparr>"
  define h1 where "h1 = h\<lparr>h_brk := b, h_mem := (h_mem h)(?p := x)\<rparr>"
  have p: "0 < unat (demand nu)" using demand_ge(2) by (simp add: word_less_nat_alt)
  have c: "?p \<le> b" "0 < h_size x" "?p + 16 * unat (h_size x) \<le> b" using b(1) demand_ge(2) by (simp_all add: x_def)
  have e: "linked h1 ns" "outside h1 ns ?p" "free_space h1 ns = free_space h ns"
    using linked_extend [OF l b(2) c h1_def] by blast+
  obtain h' ns' where f: "free (?p + 16) h1 = Inr h'" "freed h1 (free_space h1 ns \<union> block (h_mem h1) ?p) ?p (fin (h_mem h1) ?p) h' ns'"
    "length ns' \<le> Suc (length ns)" "\<forall>x. x \<notin> set ns \<and> x \<noteq> ?p \<longrightarrow> h_mem h' x = h_mem h1 x"
    using free_frees [OF e(1,2)] by blast
  have fb: "fin (h_mem h1) ?p = b" "block (h_mem h1) ?p = {?p..<b}" using b by (simp_all add: h1_def fin_def x_def block_def)
  have r: "morecore grow nu h = Inr (h', h_freep h')"
    using Some demand_int [OF nu] b p f(1)
    by (simp add: morecore_def demand_def [symmetric] Let_def header_at_def set_header_def h1_def x_def)
  have sp: "free_space h' ns' = free_space h ns \<union> {?p..<b}" "h_brk h' = b" "h_base h' = h_base h"
    using f(2) fb e(3) by (simp_all add: freed_def h1_def)
  obtain q where q: "q \<in> set ns'" "q \<le> ?p" "b \<le> fin (h_mem h') q" using f(2) fb by (auto simp: freed_def)
  then have "unat (demand nu) \<le> unat (h_size (h_mem h' q))" using b by (simp add: fin_def)
  then have "nu \<le> h_size (h_mem h' q)" using demand_ge(1) [of nu] by (simp add: word_le_nat_alt)
  moreover have "h_mem h' x = h_mem h x" if "x \<notin> free_space h' ns'" "x \<noteq> h_base h" for x
  proof -
    have "x \<notin> set ns" using that linked_nodes [OF l] sp(1) by blast
    moreover have "x \<noteq> ?p" using that(1) sp(1) b p by auto
    ultimately show ?thesis using f(4) by (simp add: h1_def)
  qed
  moreover have "linked h' ns'" using f(2) by (simp add: freed_def)
  ultimately show ?thesis using r sp f(3) q b by auto
qed

section \<open>malloc\<close>

text \<open>A heap that \<open>malloc\<close> can be called on: its list is linked, or it has not been used.\<close>

definition heap_ok :: "heap \<Rightarrow> nat list \<Rightarrow> bool" where
  "heap_ok h ns \<longleftrightarrow> linked h ns \<or>
     h_freep h = 0 \<and> ns = [h_base h] \<and> h_size (h_mem h (h_base h)) = 0 \<and> 0 < h_base h \<and> h_base h + 16 \<le> h_brk h \<and> h_brk h \<le> 2 ^ 36"

definition served :: "heap \<Rightarrow> nat list \<Rightarrow> uint \<Rightarrow> heap \<Rightarrow> nat list \<Rightarrow> nat \<Rightarrow> bool" where
  "served h ns n h' ns' q \<longleftrightarrow>
     linked h' ns' \<and> outside h' ns' q \<and> h_size (h_mem h' q) = n \<and> h_base h' = h_base h \<and> h_brk h \<le> h_brk h' \<and>
     block (h_mem h') q \<subseteq> free_space h ns \<union> {h_brk h..<h_brk h'} \<and>
     free_space h' ns' = free_space h ns \<union> {h_brk h..<h_brk h'} - block (h_mem h') q \<and>
     (\<forall>x. x \<notin> free_space h ns \<union> {h_brk h..<h_brk h'} \<and> x \<noteq> h_base h \<longrightarrow> h_mem h' x = h_mem h x)"

lemma taken_served:
  assumes l: "linked h ns" and t: "taken h (free_space h ns) n h' ns' q" and x: "\<forall>x. x \<notin> set ns \<and> x \<noteq> q \<longrightarrow> h_mem h' x = h_mem h x"
  shows "served h ns n h' ns' q"
proof -
  have "h_mem h' x = h_mem h x" if "x \<notin> free_space h ns" "x \<noteq> h_base h" for x
    using that x linked_nodes [OF l, of x] t outside_block [of h' ns' q] unfolding taken_def by blast
  then show ?thesis using t by (simp add: served_def taken_def)
qed

lemma served_trans:
  assumes "served h1 ns1 n h' ns' q" "free_space h1 ns1 = free_space h ns \<union> {h_brk h..<h_brk h1}" "h_brk h \<le> h_brk h1" "h_base h1 = h_base h"
    and "\<forall>x. x \<notin> free_space h1 ns1 \<and> x \<noteq> h_base h \<longrightarrow> h_mem h1 x = h_mem h x"
  shows "served h ns n h' ns' q"
proof -
  have "free_space h1 ns1 \<union> {h_brk h1..<h_brk h'} = free_space h ns \<union> {h_brk h..<h_brk h'}"
    using assms(1-3) by (auto simp: served_def)
  then show ?thesis using assms unfolding served_def by auto
qed

definition fits :: "heap \<Rightarrow> nat list \<Rightarrow> uint \<Rightarrow> bool" where
  "fits h ns n \<longleftrightarrow> (\<exists>p\<in>set ns. n \<le> h_size (h_mem h p))"

lemma search_serves:
  assumes l: "linked h ns" and g: "sbrk_ok grow" and n: "0 < n" "16 * unat n < 2 ^ 31"
  shows "(\<exists>h' ns' q. malloc_loop (2 * fuel h) grow n (h_freep h) (h_ptr (h_mem h (h_freep h))) h = Inr (h', q + 16) \<and>
       served h ns n h' ns' q \<and> (fits h ns n \<longrightarrow> h_brk h' = h_brk h)) \<or>
    \<not> fits h ns n \<and> grow (h_brk h) (16 * int (unat (demand n))) = None \<and>
       malloc_loop (2 * fuel h) grow n (h_freep h) (h_ptr (h_mem h (h_freep h))) h = Inr (h, 0)"
proof (cases "fits h ns n")
  case True
  then obtain q where q: "q \<in> set ns" "n \<le> h_size (h_mem h q)" by (auto simp: fits_def)
  obtain h' ns' a where a: "malloc_loop (2 * fuel h) grow n (h_freep h) (h_ptr (h_mem h (h_freep h))) h = Inr (h', a + 16)"
    "taken h (free_space h ns) n h' ns' a" "\<forall>x. x \<notin> set ns \<and> x \<noteq> a \<longrightarrow> h_mem h' x = h_mem h x"
    using search_finds [OF l q n(1), of "2 * fuel h" grow] linked_length [OF l] by auto
  moreover have "h_brk h' = h_brk h" using a(2) by (simp add: taken_def)
  ultimately show ?thesis using taken_served [OF l a(2,3)] by blast
next
  case False
  obtain f where f: "f < length ns" "h_freep h = ns ! f" using l by (metis linked_def in_set_conv_nth)
  let ?k = "nxt (length ns) f"
  let ?u = "2 * fuel h - Suc (dist (length ns) ?k f)"
  have u: "dist (length ns) ?k f < 2 * fuel h" "Suc (length ns) \<le> ?u" using linked_length [OF l] dist_nxt [OF f(1)] by auto
  have loop: "malloc_loop (2 * fuel h) grow n (h_freep h) (h_ptr (h_mem h (h_freep h))) h = more ?u grow n h"
    using loop_exhausts [OF l f _ nxt_lt [OF f(1)] u(1)] False f(2) linked_next [OF l f(1)] by (simp add: fits_def linorder_not_le)
  from morecore_grows [OF l g n(2)] show ?thesis
  proof (elim disjE exE conjE)
    fix h1 ns1 assume m: "morecore grow n h = Inr (h1, h_freep h1)" "linked h1 ns1" "length ns1 \<le> Suc (length ns)" "h_brk h \<le> h_brk h1"
      "free_space h1 ns1 = free_space h ns \<union> {h_brk h..<h_brk h1}" "\<exists>q\<in>set ns1. n \<le> h_size (h_mem h1 q)" "h_base h1 = h_base h"
      "\<forall>x. x \<notin> free_space h1 ns1 \<and> x \<noteq> h_base h \<longrightarrow> h_mem h1 x = h_mem h x"
    then obtain q where q: "q \<in> set ns1" "n \<le> h_size (h_mem h1 q)" by blast
    obtain h' ns' a where a: "malloc_loop ?u grow n (h_freep h1) (h_ptr (h_mem h1 (h_freep h1))) h1 = Inr (h', a + 16)"
      "taken h1 (free_space h1 ns1) n h' ns' a" "\<forall>x. x \<notin> set ns1 \<and> x \<noteq> a \<longrightarrow> h_mem h' x = h_mem h1 x"
      using search_finds [OF m(2) q n(1), of ?u grow] m(3) u(2) by auto
    have "h_freep h1 \<in> set ns1" "0 < h_base h1" using m(2) by (simp_all add: linked_def)
    then have "h_freep h1 \<noteq> 0" "header_at h1 (h_freep h1) = Inr (h_mem h1 (h_freep h1))"
      using linked_base [OF m(2), of "h_freep h1"] linked_read [OF m(2)] by auto
    then have "more ?u grow n h = Inr (h', a + 16)" using m(1) a(1) by (simp add: more_def)
    then show ?thesis using loop served_trans [OF taken_served [OF m(2) a(2,3)] m(5,4,7,8)] False by auto
  qed (use loop False in \<open>simp add: more_def\<close>)
qed


lemma units_unat: "unat (units n) = (unat n + 15) div 16 + 1"
proof -
  have "unat n < 2 ^ 32" using unsigned_less [of n, where ?'a = nat] by simp
  then have "(unat n + 15) div 16 + 1 < 2 ^ LENGTH(32)" by simp
  from of_nat_inverse [OF refl this] show ?thesis by (simp add: units_def add.commute)
qed

lemma units_facts:
  shows "0 < units n" "unat n + 16 \<le> 16 * unat (units n)" "unat n \<le> 2 ^ 31 - 32 \<Longrightarrow> 16 * unat (units n) < 2 ^ 31"
  by (simp_all add: word_less_nat_alt units_unat)

lemma malloc_serves:
  assumes ok: "heap_ok h ns" and g: "sbrk_ok grow" and n: "unat nbytes \<le> 2 ^ 31 - 32"
  shows "(\<exists>h' ns' q. malloc grow nbytes h = Inr (h', q + 16) \<and> served h ns (units nbytes) h' ns' q \<and>
       (fits h ns (units nbytes) \<longrightarrow> h_brk h' = h_brk h)) \<or>
    \<not> fits h ns (units nbytes) \<and> grow (h_brk h) (16 * int (unat (demand (units nbytes)))) = None \<and>
       (\<exists>h'. malloc grow nbytes h = Inr (h', 0) \<and> linked h' ns \<and> free_space h' ns = free_space h ns \<and>
          h_base h' = h_base h \<and> h_brk h' = h_brk h \<and> (\<forall>x. x \<noteq> h_base h \<longrightarrow> h_mem h' x = h_mem h x))"
proof (cases "linked h ns")
  case True
  have "h_freep h \<in> set ns" "0 < h_base h" using True by (simp_all add: linked_def)
  then have "h_freep h \<noteq> 0" using linked_base [OF True, of "h_freep h"] by auto
  then have "malloc grow nbytes h = malloc_loop (2 * fuel h) grow (units nbytes) (h_freep h) (h_ptr (h_mem h (h_freep h))) h"
    using linked_read [OF True \<open>h_freep h \<in> set ns\<close>] by (simp add: malloc_def)
  then show ?thesis using search_serves [OF True g units_facts(1) units_facts(3) [OF n]] True by auto
next
  case False
  then have f: "h_freep h = 0" "ns = [h_base h]" "h_size (h_mem h (h_base h)) = 0" "0 < h_base h" "h_base h + 16 \<le> h_brk h" "h_brk h \<le> 2 ^ 36"
    using ok by (auto simp: heap_ok_def)
  define h0 where "h0 = h\<lparr>h_mem := (h_mem h)(h_base h := \<lparr>h_ptr = h_base h, h_size = 0\<rparr>), h_freep := h_base h\<rparr>"
  have l: "linked h0 ns" using f by (simp add: linked_def h0_def fin_def)
  have same: "free_space h0 ns = {}" "free_space h ns = {}" "h_brk h0 = h_brk h" "h_base h0 = h_base h" "fits h0 ns n = fits h ns n" for n
    using f by (simp_all add: free_space_def block_def fin_def h0_def fits_def)
  have "malloc grow nbytes h = malloc_loop (2 * fuel h0) grow (units nbytes) (h_freep h0) (h_ptr (h_mem h0 (h_freep h0))) h0"
    using f by (simp add: malloc_def set_header_def header_at_def h0_def)
  moreover have "served h ns m h' ns' q" if "served h0 ns m h' ns' q" for m h' ns' q
    using that same by (auto simp: served_def h0_def)
  moreover have "\<forall>x. x \<noteq> h_base h \<longrightarrow> h_mem h0 x = h_mem h x" by (simp add: h0_def)
  moreover have "free_space h0 ns = free_space h ns" using same by simp
  ultimately show ?thesis
    using search_serves [OF l g units_facts(1) units_facts(3) [OF n], unfolded same(3,5)] l same(3,4) by metis
qed

section \<open>A program and its heap\<close>

text \<open>
  A program that calls \<open>malloc\<close>, frees blocks it has got, writes to its blocks (which may change every header that begins
  inside the block, but not the header of the block itself) and moves the break upwards itself. \<open>L\<close> is the set of
  the blocks it holds.
\<close>

inductive heap_step :: "(nat \<Rightarrow> int \<Rightarrow> nat option) \<Rightarrow> heap \<times> nat set \<Rightarrow> heap \<times> nat set \<Rightarrow> bool" for grow where
  allocate: "unat nbytes \<le> 2 ^ 31 - 32 \<Longrightarrow> malloc grow nbytes h = Inr (h', a) \<Longrightarrow>
    heap_step grow (h, L) (h', if a = 0 then L else insert (a - 16) L)"
| release: "p \<in> L \<Longrightarrow> free (p + 16) h = Inr h' \<Longrightarrow> heap_step grow (h, L) (h', L - {p})"
| store: "p \<in> L \<Longrightarrow> \<forall>x. x \<le> p \<or> fin (h_mem h) p \<le> x \<longrightarrow> m x = h_mem h x \<Longrightarrow> heap_step grow (h, L) (h\<lparr>h_mem := m\<rparr>, L)"
| extend: "0 \<le> n \<Longrightarrow> grow (h_brk h) n = Some b \<Longrightarrow> heap_step grow (h, L) (h\<lparr>h_brk := b\<rparr>, L)"

definition fresh_heap :: "heap \<Rightarrow> bool" where
  "fresh_heap h \<longleftrightarrow> h_freep h = 0 \<and> h_size (h_mem h (h_base h)) = 0 \<and> 0 < h_base h \<and> h_base h + 16 \<le> h_brk h \<and> h_brk h \<le> 2 ^ 36"

definition separate :: "heap \<Rightarrow> nat set \<Rightarrow> bool" where
  "separate h L \<longleftrightarrow> (\<forall>p\<in>L. \<forall>q\<in>L. p \<noteq> q \<longrightarrow> block (h_mem h) p \<inter> block (h_mem h) q = {})"

definition heap_inv :: "heap \<times> nat set \<Rightarrow> nat list \<Rightarrow> bool" where
  "heap_inv s ns \<longleftrightarrow> heap_ok (fst s) ns \<and> (snd s = {} \<or> linked (fst s) ns) \<and> (\<forall>p\<in>snd s. outside (fst s) ns p) \<and> separate (fst s) (snd s)"

lemma block_cong: "m p = m' p \<Longrightarrow> block m p = block m' p" "m p = m' p \<Longrightarrow> fin m p = fin m' p"
  by (simp_all add: block_def fin_def)

lemma outside_keep:
  assumes "outside h ns p" "h_mem h' p = h_mem h p" "h_base h' = h_base h" "h_brk h \<le> h_brk h'" "block (h_mem h) p \<inter> free_space h' ns' = {}"
  shows "outside h' ns' p"
  using assms block_cong [of "h_mem h" p "h_mem h'"] by (auto simp: outside_def)

lemma separate_keep: "separate h L \<Longrightarrow> \<forall>p\<in>L. h_mem h' p = h_mem h p \<Longrightarrow> separate h' L"
  unfolding separate_def by (metis block_cong(1))

lemma separate_mono: "separate h L \<Longrightarrow> M \<subseteq> L \<Longrightarrow> separate h M"
  by (auto simp: separate_def)

lemma heap_inv_separate: "heap_inv (h, L) ns \<Longrightarrow> separate h L"
  by (simp add: heap_inv_def)

text \<open>A block of the program lies beyond \<open>base\<close>, outside the free space and below the break.\<close>

lemma outside_facts:
  assumes "outside h ns p" "x \<in> block (h_mem h) p"
  shows "x \<notin> free_space h ns" "x \<noteq> h_base h" "x < h_brk h"
  using assms by (auto simp: outside_def block_def)


lemma linked_store:
  assumes l: "linked h ns" and m: "\<forall>x\<in>set ns. m x = h_mem h x"
  shows "linked (h\<lparr>h_mem := m\<rparr>) ns"
proof -
  have "chain m b xs = chain (h_mem h) b xs" if "set xs \<subseteq> set ns" for b xs using that m by (induction xs) auto
  moreover have "sorted_wrt (apart m) ns"
    using l m by (intro sorted_wrt_mono_rel [of ns "apart (h_mem h)" "apart m"]) (auto simp: linked_def apart_def fin_def)
  moreover have "h_base h \<in> set ns" using l unfolding linked_def by (metis list.set_sel(1))
  ultimately show ?thesis using l m by (auto simp: linked_def fin_def)
qed

lemma free_space_store: "\<forall>x\<in>set ns. m x = h_mem h x \<Longrightarrow> free_space (h\<lparr>h_mem := m\<rparr>) ns = free_space h ns"
  by (auto simp: free_space_def block_def fin_def)

lemma heap_inv_served:
  assumes i: "heap_inv (h, L) ns" and s: "served h ns n h' ns' q"
  shows "heap_inv (h', insert q L) ns'" "\<forall>p\<in>L. \<forall>x\<in>block (h_mem h) p. h_mem h' x = h_mem h x" "q \<notin> L"
proof -
  let ?S = "free_space h ns \<union> {h_brk h..<h_brk h'}"
  have o': "outside h ns p" if "p \<in> L" for p using i that by (simp add: heap_inv_def)
  have off: "x \<notin> ?S" "x \<noteq> h_base h" if "p \<in> L" "x \<in> block (h_mem h) p" for p x
    using outside_facts [OF o' [OF that(1)] that(2)] by auto
  have sub: "block (h_mem h') q \<subseteq> ?S" "free_space h' ns' \<subseteq> ?S" using s by (auto simp: served_def)
  show same: "\<forall>p\<in>L. \<forall>x\<in>block (h_mem h) p. h_mem h' x = h_mem h x" using s off unfolding served_def by blast
  have hd: "h_mem h' p = h_mem h p" if "p \<in> L" for p using same that outside_block [OF o' [OF that]] by blast
  have q: "q \<in> block (h_mem h') q" using s outside_block by (auto simp: served_def)
  show "q \<notin> L" using q sub(1) off(1) outside_block [OF o'] by blast
  have out: "outside h' ns' p" if "p \<in> L" for p
  proof (rule outside_keep [OF o' [OF that] hd [OF that]])
    show "block (h_mem h) p \<inter> free_space h' ns' = {}" using off(1) [OF that] sub(2) by blast
  qed (use s in \<open>simp_all add: served_def\<close>)
  have new: "block (h_mem h') p \<inter> block (h_mem h') q = {}" if "p \<in> L" for p
    using off(1) [OF that] sub(1) block_cong(1) [of "h_mem h'" p "h_mem h"] hd [OF that] by blast
  have "separate h' L" using separate_keep [OF heap_inv_separate [OF i], of h'] hd by blast
  then have "separate h' (insert q L)" using new unfolding separate_def by blast
  then show "heap_inv (h', insert q L) ns'" using s out by (auto simp: heap_inv_def served_def heap_ok_def)
qed

lemma heap_inv_malloc:
  assumes i: "heap_inv (h, L) ns" and g: "sbrk_ok grow" and n: "unat nbytes \<le> 2 ^ 31 - 32"
  shows "\<exists>h' a ns'. malloc grow nbytes h = Inr (h', a) \<and> heap_inv (h', if a = 0 then L else insert (a - 16) L) ns' \<and>
     (\<forall>p\<in>L. \<forall>x\<in>block (h_mem h) p. h_mem h' x = h_mem h x) \<and>
     (if a = 0 then grow (h_brk h) (16 * int (unat (demand (units nbytes)))) = None else 16 \<le> a \<and> a - 16 \<notin> L \<and> h_size (h_mem h' (a - 16)) = units nbytes) \<and>
     (fits h ns (units nbytes) \<longrightarrow> a \<noteq> 0 \<and> h_brk h' = h_brk h)"
proof -
  have ok: "heap_ok h ns" using i by (simp add: heap_inv_def)
  from malloc_serves [OF ok g n] show ?thesis
  proof (elim disjE exE conjE)
    fix h' ns' q assume m: "malloc grow nbytes h = Inr (h', q + 16)" "served h ns (units nbytes) h' ns' q" "fits h ns (units nbytes) \<longrightarrow> h_brk h' = h_brk h"
    then show ?thesis using heap_inv_served [OF i m(2)]
      by (intro exI [of _ h'] exI [of _ "q + 16"] exI [of _ ns']) (simp add: served_def)
  next
    fix h' assume m: "\<not> fits h ns (units nbytes)" "grow (h_brk h) (16 * int (unat (demand (units nbytes)))) = None" "malloc grow nbytes h = Inr (h', 0)"
      "linked h' ns" "free_space h' ns = free_space h ns" "h_base h' = h_base h" "h_brk h' = h_brk h" "\<forall>x. x \<noteq> h_base h \<longrightarrow> h_mem h' x = h_mem h x"
    have o': "outside h ns p" if "p \<in> L" for p using i that by (simp add: heap_inv_def)
    have same: "h_mem h' x = h_mem h x" if "p \<in> L" "x \<in> block (h_mem h) p" for p x
      using outside_facts(2) [OF o' [OF that(1)] that(2)] m(8) by blast
    then have hd: "h_mem h' p = h_mem h p" if "p \<in> L" for p using that outside_block [OF o' [OF that]] by blast
    have "outside h' ns p" if "p \<in> L" for p
      using o' [OF that] hd [OF that] m by (intro outside_keep [OF o' [OF that]]) (auto simp: outside_def)
    moreover have "separate h' L" using separate_keep [OF heap_inv_separate [OF i], of h'] hd by blast
    ultimately have "heap_inv (h', L) ns" using m(4) by (simp add: heap_inv_def heap_ok_def)
    then show ?thesis using m same by (intro exI [of _ h'] exI [of _ 0] exI [of _ ns]) simp
  qed
qed

lemma heap_inv_free:
  assumes i: "heap_inv (h, L) ns" and p: "p \<in> L"
  shows "\<exists>h' ns'. free (p + 16) h = Inr h' \<and> heap_inv (h', L - {p}) ns' \<and> h_brk h' = h_brk h \<and>
     (\<forall>q\<in>L - {p}. \<forall>x\<in>block (h_mem h) q. h_mem h' x = h_mem h x) \<and> fits h' ns' (h_size (h_mem h p))"
proof -
  have l: "linked h ns" using i p by (auto simp: heap_inv_def)
  have o': "outside h ns q" if "q \<in> L" for q using i that by (simp add: heap_inv_def)
  obtain h' ns' where f: "free (p + 16) h = Inr h'" "freed h (free_space h ns \<union> block (h_mem h) p) p (fin (h_mem h) p) h' ns'"
    "\<forall>x. x \<notin> set ns \<and> x \<noteq> p \<longrightarrow> h_mem h' x = h_mem h x"
    using free_frees [OF l o' [OF p]] by blast
  have sep: "block (h_mem h) q \<inter> block (h_mem h) p = {}" if "q \<in> L - {p}" for q using i that p by (auto simp: heap_inv_def separate_def)
  have same: "h_mem h' x = h_mem h x" if "q \<in> L - {p}" "x \<in> block (h_mem h) q" for q x
  proof -
    have "x \<notin> free_space h ns" "x \<noteq> h_base h" using outside_facts [OF o' that(2)] that(1) by auto
    then have "x \<notin> set ns" using linked_nodes [OF l] by blast
    moreover have "x \<noteq> p" using sep [OF that(1)] that(2) outside_block [OF o' [OF p]] by blast
    ultimately show ?thesis using f(3) by blast
  qed
  then have hd: "h_mem h' q = h_mem h q" if "q \<in> L - {p}" for q using that outside_block [OF o', of q] by blast
  have "outside h' ns' q" if "q \<in> L - {p}" for q
  proof (rule outside_keep [OF _ hd [OF that]])
    show "block (h_mem h) q \<inter> free_space h' ns' = {}" using sep [OF that] f(2) outside_facts(1) [OF o', of q] that by (auto simp: freed_def)
  qed (use that o' f(2) in \<open>auto simp: freed_def\<close>)
  moreover have "separate h' (L - {p})"
    using separate_keep [OF separate_mono [OF heap_inv_separate [OF i]], of "L - {p}" h'] hd by blast
  ultimately have "heap_inv (h', L - {p}) ns'" using f(2) by (simp add: heap_inv_def heap_ok_def freed_def)
  moreover have "fits h' ns' (h_size (h_mem h p))"
  proof -
    obtain q where q: "q \<in> set ns'" "q \<le> p" "fin (h_mem h) p \<le> fin (h_mem h') q" using f(2) by (auto simp: freed_def)
    then have "h_size (h_mem h p) \<le> h_size (h_mem h' q)" by (simp add: fin_def word_le_nat_alt)
    then show ?thesis using q(1) by (auto simp: fits_def)
  qed
  ultimately show ?thesis using f same by (intro exI [of _ h'] exI [of _ ns']) (simp add: freed_def)
qed


lemma heap_inv_nodes:
  assumes i: "heap_inv (h, L) ns" and p: "p \<in> L" and n: "x \<in> set ns"
  shows "x \<le> p \<or> fin (h_mem h) p \<le> x"
proof -
  have "linked h ns" "outside h ns p" using i p by (auto simp: heap_inv_def)
  then have "x \<notin> block (h_mem h) p" using linked_nodes [of h ns x] outside_facts [of h ns p x] n by blast
  then show ?thesis by (simp add: block_def) linarith
qed

lemma heap_inv_blocks:
  assumes i: "heap_inv (h, L) ns" and p: "p \<in> L" "q \<in> L"
  shows "q \<le> p \<or> fin (h_mem h) p \<le> q"
proof (cases "p = q")
  case False
  have "outside h ns q" using i p by (simp add: heap_inv_def)
  then have "q \<notin> block (h_mem h) p" using outside_block [of h ns q] heap_inv_separate [OF i] p False by (auto simp: separate_def)
  then show ?thesis by (simp add: block_def) linarith
qed simp

lemma heap_inv_store:
  assumes i: "heap_inv (h, L) ns" and p: "p \<in> L" and m: "\<forall>x. x \<le> p \<or> fin (h_mem h) p \<le> x \<longrightarrow> m x = h_mem h x"
  shows "heap_inv (h\<lparr>h_mem := m\<rparr>, L) ns"
proof -
  let ?h = "h\<lparr>h_mem := m\<rparr>"
  have ns: "\<forall>x\<in>set ns. m x = h_mem h x" using heap_inv_nodes [OF i p] m by blast
  have "\<forall>q\<in>L. m q = h_mem h q" using heap_inv_blocks [OF i p] m by blast
  then have L: "\<forall>q\<in>L. h_mem ?h q = h_mem h q" by simp
  have l: "linked ?h ns" using linked_store [OF _ ns] i p by (auto simp: heap_inv_def)
  moreover have "outside ?h ns q" if "q \<in> L" for q
  proof (rule outside_keep)
    show o': "outside h ns q" using i that by (simp add: heap_inv_def)
    show "block (h_mem h) q \<inter> free_space ?h ns = {}" using o' free_space_store [OF ns] by (simp add: outside_def)
  qed (use L that in simp_all)
  ultimately show ?thesis using separate_keep [OF heap_inv_separate [OF i] L] by (simp add: heap_inv_def heap_ok_def)
qed

lemma heap_inv_extend:
  assumes i: "heap_inv (h, L) ns" and b: "h_brk h \<le> b" "b \<le> 2 ^ 36"
  shows "heap_inv (h\<lparr>h_brk := b\<rparr>, L) ns"
proof -
  have "linked (h\<lparr>h_brk := b\<rparr>) ns" if "linked h ns" using that b by (fastforce simp: linked_def)
  moreover have "outside (h\<lparr>h_brk := b\<rparr>) ns p" if "outside h ns p" for p
    using that b by (auto simp: outside_def free_space_def)
  ultimately show ?thesis using i b by (auto simp: heap_inv_def heap_ok_def separate_def)
qed

lemma heap_step_inv:
  assumes "heap_step grow s t" and g: "sbrk_ok grow" and "heap_inv s ns"
  shows "\<exists>ns. heap_inv t ns"
  using assms(1,3)
proof cases
  case (allocate nbytes h h' a L)
  then show ?thesis using heap_inv_malloc [of h L ns grow nbytes] assms(3) g by auto
next
  case (release p L h h')
  then show ?thesis using heap_inv_free [of h L ns p] assms(3) by auto
next
  case (store p L h m)
  then show ?thesis using heap_inv_store [of h L ns p m] assms(3) by auto
next
  case (extend n h b L)
  have "int b = int (h_brk h) + n" "b \<le> 2 ^ 36" using g extend(3,4) unfolding sbrk_ok_def by blast+
  then show ?thesis using heap_inv_extend [of h L ns b] assms(3) extend by auto
qed

definition heap_reachable :: "(nat \<Rightarrow> int \<Rightarrow> nat option) \<Rightarrow> heap \<Rightarrow> heap \<times> nat set \<Rightarrow> bool" where
  "heap_reachable grow h0 s \<longleftrightarrow> fresh_heap h0 \<and> (heap_step grow)\<^sup>*\<^sup>* (h0, {}) s"

lemma heap_reachable_inv:
  assumes "heap_reachable grow h0 s" "sbrk_ok grow"
  shows "\<exists>ns. heap_inv s ns"
proof -
  have "(heap_step grow)\<^sup>*\<^sup>* (h0, {}) s" using assms(1) by (simp add: heap_reachable_def)
  then show ?thesis
  proof (induction rule: rtranclp_induct)
    case base
    have "heap_inv (h0, {}) [h_base h0]" using assms(1) by (simp add: heap_reachable_def fresh_heap_def heap_inv_def heap_ok_def separate_def)
    then show ?case ..
  next
    case (step s t)
    then show ?case using heap_step_inv [OF step(2) assms(2)] by blast
  qed
qed

text \<open>
  C19. The blocks of a program never overlap. Whatever sequence of allocations, releases and stores into its own blocks a program performs,
  and however the kernel grants memory, the blocks it holds are disjoint, lie between the allocator's own data and the break, and keep the
  size in their headers; and \<open>free\<close> of any of them returns, without an access outside the memory of the process.
\<close>

theorem malloc_blocks_disjoint:
  assumes "sbrk_ok grow" and "heap_reachable grow h0 (h, L)"
  shows "separate h L \<and> (\<forall>p\<in>L. h_base h + 16 \<le> p \<and> p + 16 \<le> fin (h_mem h) p \<and> fin (h_mem h) p \<le> h_brk h \<and> (\<exists>h'. free (p + 16) h = Inr h'))"
proof -
  obtain ns where i: "heap_inv (h, L) ns" using heap_reachable_inv [OF assms(2,1)] by blast
  have "h_base h + 16 \<le> p \<and> p + 16 \<le> fin (h_mem h) p \<and> fin (h_mem h) p \<le> h_brk h \<and> (\<exists>h'. free (p + 16) h = Inr h')" if "p \<in> L" for p
  proof -
    have "outside h ns p" using i that by (simp add: heap_inv_def)
    then show ?thesis using fin_pos [of "h_mem h" p] heap_inv_free [OF i that] by (auto simp: outside_def)
  qed
  then show ?thesis using heap_inv_separate [OF i] by blast
qed

definition sample_grow :: "nat \<Rightarrow> int \<Rightarrow> nat option" where
  "sample_grow b n = (if int b + n \<le> 2 ^ 36 \<and> 0 \<le> int b + n then Some (nat (int b + n)) else None)"

definition sample_heap :: heap where
  "sample_heap = \<lparr>h_mem = \<lambda>_. \<lparr>h_ptr = 0, h_size = 0\<rparr>, h_freep = 0, h_base = 4096, h_brk = 8192\<rparr>"

lemma sample_ok: "sbrk_ok sample_grow" "heap_reachable sample_grow sample_heap (sample_heap, {})"
  by (auto simp: sbrk_ok_def sample_grow_def sample_heap_def heap_reachable_def fresh_heap_def nat_le_iff)

lemma sample_grants:
  "sample_grow (h_brk sample_heap) (16 * int (unat (demand (units 100)))) \<noteq> None"
  "sample_grow (h_brk sample_heap) (16 * int (unat (demand (units 1000)))) \<noteq> None"
proof -
  have "demand (units 100) = 4096" "demand (units 1000) = 4096" by code_simp+
  then show "sample_grow (h_brk sample_heap) (16 * int (unat (demand (units 100)))) \<noteq> None"
    "sample_grow (h_brk sample_heap) (16 * int (unat (demand (units 1000)))) \<noteq> None"
    by (simp_all add: sample_grow_def sample_heap_def)
qed

lemma sample_malloc: "\<exists>h a. malloc sample_grow 100 sample_heap = Inr (h, a) \<and> a \<noteq> 0 \<and> heap_reachable sample_grow sample_heap (h, {a - 16}) \<and> h_size (h_mem h (a - 16)) = units 100"
proof -
  obtain ns where "heap_inv (sample_heap, {}) ns" using heap_reachable_inv [OF sample_ok(2,1)] by blast
  from heap_inv_malloc [OF this sample_ok(1), of 100] obtain h a where
    m: "malloc sample_grow 100 sample_heap = Inr (h, a)"
      "if a = 0 then sample_grow (h_brk sample_heap) (16 * int (unat (demand (units 100)))) = None else h_size (h_mem h (a - 16)) = units 100"
    by (auto split: if_splits)
  have a: "a \<noteq> 0" using m(2) sample_grants(1) by (cases "a = 0") simp_all
  have "heap_step sample_grow (sample_heap, {}) (h, {a - 16})" using heap_step.allocate [OF _ m(1), of "{}"] a by simp
  then have "heap_reachable sample_grow sample_heap (h, {a - 16})" using sample_ok(2) by (auto simp: heap_reachable_def)
  then show ?thesis using m a by auto
qed


theorem malloc_blocks_disjoint_witness:
  "\<exists>h p. heap_reachable sample_grow sample_heap (h, {p}) \<and> separate h {p} \<and> fin (h_mem h) p \<le> h_brk h \<and> (\<exists>h'. free (p + 16) h = Inr h')"
proof -
  obtain h a where "heap_reachable sample_grow sample_heap (h, {a - 16})" using sample_malloc by blast
  then show ?thesis using malloc_blocks_disjoint [OF sample_ok(1)] by blast
qed

text \<open>
  C30. What \<open>malloc\<close> returns. For every request of less than 2 GiB it returns: either a new block, different from all those the program holds,
  with room for the requested bytes behind its header, or 0, and then only when the kernel has refused to move the break. No byte of
  a block that the program holds is changed.
\<close>

theorem malloc_correct:
  assumes "sbrk_ok grow" and "heap_reachable grow h0 (h, L)" and "unat nbytes \<le> 2 ^ 31 - 32"
  shows "\<exists>h' a. malloc grow nbytes h = Inr (h', a) \<and> (\<forall>p\<in>L. \<forall>x\<in>block (h_mem h) p. h_mem h' x = h_mem h x) \<and>
    (if a = 0 then grow (h_brk h) (16 * int (unat (demand (units nbytes)))) = None
     else a - 16 \<notin> L \<and> separate h' (insert (a - 16) L) \<and> a + unat nbytes \<le> fin (h_mem h') (a - 16))"
proof -
  obtain ns where i: "heap_inv (h, L) ns" using heap_reachable_inv [OF assms(2,1)] by blast
  obtain h' a ns' where m: "malloc grow nbytes h = Inr (h', a)" "heap_inv (h', if a = 0 then L else insert (a - 16) L) ns'"
    "\<forall>p\<in>L. \<forall>x\<in>block (h_mem h) p. h_mem h' x = h_mem h x"
    "if a = 0 then grow (h_brk h) (16 * int (unat (demand (units nbytes)))) = None
     else 16 \<le> a \<and> a - 16 \<notin> L \<and> h_size (h_mem h' (a - 16)) = units nbytes"
    using heap_inv_malloc [OF i assms(1,3)] by blast
  have "separate h' (insert (a - 16) L) \<and> a + unat nbytes \<le> fin (h_mem h') (a - 16)" if "a \<noteq> 0"
    using that m(2,4) units_facts(2) [of nbytes] heap_inv_separate by (fastforce simp: fin_def)
  then show ?thesis using m by (intro exI [of _ h'] exI [of _ a]) auto
qed

theorem malloc_correct_witness:
  "\<exists>h' a. malloc sample_grow 1000 sample_heap = Inr (h', a) \<and> a \<noteq> 0 \<and> separate h' {a - 16} \<and> a + 1000 \<le> fin (h_mem h') (a - 16)"
proof -
  have "unat (1000 :: uint) \<le> 2 ^ 31 - 32" by simp
  from malloc_correct [OF sample_ok this] obtain h' a where m: "malloc sample_grow 1000 sample_heap = Inr (h', a)"
    "if a = 0 then sample_grow (h_brk sample_heap) (16 * int (unat (demand (units 1000)))) = None
     else a - 16 \<notin> {} \<and> separate h' (insert (a - 16) {}) \<and> a + unat (1000 :: uint) \<le> fin (h_mem h') (a - 16)"
    by blast
  then show ?thesis using sample_grants(2) by (cases "a = 0") auto
qed

text \<open>
  Freed memory is used again. After \<open>free\<close> of a block, a request that fits in it is served without asking the kernel for more memory, and
  neither call changes a byte of another block of the program.
\<close>

theorem free_then_malloc:
  assumes "sbrk_ok grow" and "heap_reachable grow h0 (h, L)" and "p \<in> L" and "unat nbytes \<le> 2 ^ 31 - 32" and "units nbytes \<le> h_size (h_mem h p)"
  shows "\<exists>h1 h2 a. free (p + 16) h = Inr h1 \<and> malloc grow nbytes h1 = Inr (h2, a) \<and> a \<noteq> 0 \<and> h_brk h2 = h_brk h \<and>
    (\<forall>q\<in>L - {p}. \<forall>x\<in>block (h_mem h) q. h_mem h2 x = h_mem h x)"
proof -
  obtain ns where i: "heap_inv (h, L) ns" using heap_reachable_inv [OF assms(2,1)] by blast
  obtain h1 ns1 where f: "free (p + 16) h = Inr h1" "heap_inv (h1, L - {p}) ns1" "h_brk h1 = h_brk h"
    "\<forall>q\<in>L - {p}. \<forall>x\<in>block (h_mem h) q. h_mem h1 x = h_mem h x" "fits h1 ns1 (h_size (h_mem h p))"
    using heap_inv_free [OF i assms(3)] by blast
  have "fits h1 ns1 (units nbytes)" using f(5) assms(5) by (auto simp: fits_def intro: order_trans)
  then obtain h2 a where m: "malloc grow nbytes h1 = Inr (h2, a)" "a \<noteq> 0" "h_brk h2 = h_brk h1"
    "\<forall>q\<in>L - {p}. \<forall>x\<in>block (h_mem h1) q. h_mem h2 x = h_mem h1 x"
    using heap_inv_malloc [OF f(2) assms(1,4)] by blast
  have "block (h_mem h1) q = block (h_mem h) q" if "q \<in> L - {p}" for q
  proof -
    have "q \<in> block (h_mem h) q" using i that outside_block by (auto simp: heap_inv_def)
    then show ?thesis using f(4) that block_cong(1) [of "h_mem h1" q "h_mem h"] by blast
  qed
  then have "\<forall>q\<in>L - {p}. \<forall>x\<in>block (h_mem h) q. h_mem h2 x = h_mem h x" using m(4) f(4) by simp
  then show ?thesis using f(1,3) m by auto
qed

theorem free_then_malloc_witness:
  "\<exists>h a h1 h2 b. malloc sample_grow 100 sample_heap = Inr (h, a) \<and> free (a - 16 + 16) h = Inr h1 \<and> malloc sample_grow 80 h1 = Inr (h2, b) \<and> b \<noteq> 0 \<and> h_brk h2 = h_brk h"
proof -
  obtain h a where m: "malloc sample_grow 100 sample_heap = Inr (h, a)" "heap_reachable sample_grow sample_heap (h, {a - 16})"
    "h_size (h_mem h (a - 16)) = units 100" using sample_malloc by blast
  have "units 80 \<le> units 100" by code_simp
  then show ?thesis using free_then_malloc [OF sample_ok(1) m(2), of "a - 16" 80] m by auto
qed

text \<open>A request for 2 GiB: the argument of \<open>sbrk\<close> is an \<open>int\<close>, and the memory of the process shrinks.\<close>

lemma morecore_huge: "sint (of_nat (16 * unat (demand (units 0x80000000))) :: uint) = - 2147483632"
  by (simp add: units_def demand_def)

end
