(* ===== verification/Mkfs.thy ===== *)
theory Mkfs
  imports FileData
begin

text \<open>
  \<open>mkfs/mkfs.c\<close>, the tool that builds the initial file system on the host. The image is the list of its blocks: a write beyond its end
  extends it, a read beyond its end fails. \<open>die\<close> and a failed \<open>assert\<close> are panics. The host is little-endian. A file given on the
  command line is its name and, when it can be opened, the pieces in which \<open>read\<close> delivers its contents.
\<close>

section \<open>The image\<close>

definition NINODES :: nat where [hdr]: "NINODES = 200"
definition FSSIZE :: nat where [hdr]: "FSSIZE = 2000"

definition nbitmap :: nat where [hdr]: "nbitmap = FSSIZE div (BSIZE * 8) + 1"
definition ninodeblocks :: nat where [hdr]: "ninodeblocks = NINODES div IPB + 1"
definition nlog :: nat where [hdr]: "nlog = LOGBLOCKS"
definition nmeta :: nat where [hdr]: "nmeta = 2 + nlog + ninodeblocks + nbitmap"
definition nblocks :: nat where [hdr]: "nblocks = FSSIZE - nmeta"

record mkfs =
  img :: "bytes list"
  freeinode :: uint
  freeblock :: uint

definition zeroes :: bytes where
  "zeroes = replicate BSIZE 0"

definition xshort :: "ushort \<Rightarrow> ushort" where
  "xshort x = le_word [ucast x, ucast (drop_bit 8 x)]"

definition xint :: "uint \<Rightarrow> uint" where
  "xint x = le_word [ucast x, ucast (drop_bit 8 x), ucast (drop_bit 16 x), ucast (drop_bit 24 x)]"

text \<open>The block at which \<open>lseek(fsfd, sec * BSIZE, 0)\<close> positions the file.\<close>

definition sector :: "uint \<Rightarrow> nat" where
  "sector sec = unat (sec * of_nat BSIZE) div BSIZE"

definition wsect :: "uint \<Rightarrow> bytes \<Rightarrow> mkfs \<Rightarrow> mkfs" where
  "wsect sec buf s =
     s\<lparr>img := (if sector sec < length (img s) then (img s)[sector sec := buf]
               else img s @ replicate (sector sec - length (img s)) zeroes @ [buf])\<rparr>"

definition rsect :: "uint \<Rightarrow> mkfs \<Rightarrow> bytes res" where
  "rsect sec s = (if sector sec < length (img s) then Inr (img s ! sector sec) else Inl (Panic ''read''))"

definition mk_sb :: superblock where
  "mk_sb =
     \<lparr>sb_magic = FSMAGIC, sb_size = xint (of_nat FSSIZE), sb_nblocks = xint (of_nat nblocks), sb_ninodes = xint (of_nat NINODES),
      sb_nlog = xint (of_nat nlog), sb_logstart = xint 2, sb_inodestart = xint (of_nat (2 + nlog)),
      sb_bmapstart = xint (of_nat (2 + nlog + ninodeblocks))\<rparr>"

definition enc_sb :: "superblock \<Rightarrow> bytes" where
  "enc_sb b = le_bytes 4 (sb_magic b) @ le_bytes 4 (sb_size b) @ le_bytes 4 (sb_nblocks b) @ le_bytes 4 (sb_ninodes b) @
     le_bytes 4 (sb_nlog b) @ le_bytes 4 (sb_logstart b) @ le_bytes 4 (sb_inodestart b) @ le_bytes 4 (sb_bmapstart b)"

section \<open>Inodes\<close>

record dinode =
  d_type :: ushort
  d_major :: ushort
  d_minor :: ushort
  d_nlink :: ushort
  d_size :: uint
  d_addrs :: "uint list"

definition enc_dinode :: "dinode \<Rightarrow> bytes" where
  "enc_dinode d = le_bytes 2 (d_type d) @ le_bytes 2 (d_major d) @ le_bytes 2 (d_minor d) @ le_bytes 2 (d_nlink d) @
     le_bytes 4 (d_size d) @ concat (map (le_bytes 4) (d_addrs d))"

definition dec_dinode :: "bytes \<Rightarrow> nat \<Rightarrow> dinode" where
  "dec_dinode buf off =
     \<lparr>d_type = peek16 buf off, d_major = peek16 buf (off + 2), d_minor = peek16 buf (off + 4), d_nlink = peek16 buf (off + 6),
      d_size = peek32 buf (off + 8), d_addrs = map (\<lambda>k. peek32 buf (off + 12 + 4 * k)) [0..<NDIRECT + 1]\<rparr>"

definition iblock :: "uint \<Rightarrow> uint" where
  "iblock i = i div of_nat IPB + sb_inodestart mk_sb"

definition winode :: "uint \<Rightarrow> dinode \<Rightarrow> mkfs \<Rightarrow> mkfs res" where
  "winode inum d s =
     (let bn = iblock inum
      in bindE (rsect bn s) (\<lambda>buf. Inr (wsect bn (poke buf (dinode_off inum) (enc_dinode d)) s)))"

definition rinode :: "uint \<Rightarrow> mkfs \<Rightarrow> dinode res" where
  "rinode inum s = bindE (rsect (iblock inum) s) (\<lambda>buf. Inr (dec_dinode buf (dinode_off inum)))"

definition ialloc :: "ushort \<Rightarrow> mkfs \<Rightarrow> (mkfs \<times> uint) res" where
  "ialloc type s =
     (let inum = freeinode s; s = s\<lparr>freeinode := freeinode s + 1\<rparr>;
          din = \<lparr>d_type = xshort type, d_major = 0, d_minor = 0, d_nlink = xshort 1, d_size = xint 0, d_addrs = replicate (NDIRECT + 1) 0\<rparr>
      in bindE (winode inum din s) (\<lambda>s. Inr (s, inum)))"

section \<open>Data\<close>

primrec mark :: "nat \<Rightarrow> bytes \<Rightarrow> bytes" where
  "mark 0 buf = buf"
| "mark (Suc i) buf = (let b = mark i buf in b[i div 8 := b ! (i div 8) OR push_bit (i mod 8) 1])"

definition balloc :: "nat \<Rightarrow> mkfs \<Rightarrow> mkfs res" where
  "balloc used s =
     (if used < BSIZE * 8 then Inr (wsect (sb_bmapstart mk_sb) (mark used zeroes) s) else Inl (Panic ''assert''))"

text \<open>The block of the file for its block number \<open>fbn\<close>, allocated when it is missing.\<close>

definition file_block :: "nat \<Rightarrow> dinode \<Rightarrow> mkfs \<Rightarrow> (dinode \<times> mkfs \<times> uint) res" where
  "file_block fbn din s =
     (if fbn < NDIRECT
      then (let (din, s) = (if xint (d_addrs din ! fbn) = 0
                            then (din\<lparr>d_addrs := (d_addrs din)[fbn := xint (freeblock s)]\<rparr>, s\<lparr>freeblock := freeblock s + 1\<rparr>)
                            else (din, s))
            in Inr (din, s, xint (d_addrs din ! fbn)))
      else (let (din, s) = (if xint (d_addrs din ! NDIRECT) = 0
                            then (din\<lparr>d_addrs := (d_addrs din)[NDIRECT := xint (freeblock s)]\<rparr>, s\<lparr>freeblock := freeblock s + 1\<rparr>)
                            else (din, s));
                ind = xint (d_addrs din ! NDIRECT); k = 4 * (fbn - NDIRECT)
            in bindE (rsect ind s) (\<lambda>indirect.
                 if peek32 indirect k = 0
                 then (let indirect = poke32 indirect k (xint (freeblock s)); s = s\<lparr>freeblock := freeblock s + 1\<rparr>
                       in Inr (din, wsect ind indirect s, xint (peek32 indirect k)))
                 else Inr (din, s, xint (peek32 indirect k)))))"

function iappend_loop :: "bytes \<Rightarrow> nat \<Rightarrow> dinode \<Rightarrow> mkfs \<Rightarrow> (dinode \<times> nat \<times> mkfs) res" where
  "iappend_loop p off din s =
     (if p = [] then Inr (din, off, s)
      else (let fbn = off div BSIZE
            in if fbn < MAXFILE
               then bindE (file_block fbn din s) (\<lambda>(din, s, x).
                    (let n1 = min (length p) ((fbn + 1) * BSIZE - off)
                     in bindE (rsect x s) (\<lambda>buf.
                        iappend_loop (drop n1 p) (off + n1) din (wsect x (poke buf (off - fbn * BSIZE) (take n1 p)) s))))
               else Inl (Panic ''assert'')))"
  by pat_completeness auto
termination
proof (relation "measure (\<lambda>(p, off, din, s). length p)")
  fix p :: bytes and off fbn n1 :: nat and din din' :: dinode and s s' :: mkfs and x y z b
  assume "p \<noteq> []" "fbn = off div BSIZE" "n1 = min (length p) ((fbn + 1) * BSIZE - off)"
  moreover have "off mod BSIZE < BSIZE" "off = off div BSIZE * BSIZE + off mod BSIZE" by (simp_all add: hdr)
  ultimately have "0 < n1" by (simp only: min_less_iff_conj) (auto simp: hdr)
  then show "((drop n1 p, off + n1, din', wsect z (poke b (off - fbn * BSIZE) (take n1 p)) s'), p, off, din, s) \<in>
      measure (\<lambda>(p, off, din, s). length p)" using \<open>p \<noteq> []\<close> by simp
qed simp

declare iappend_loop.simps [simp del]

definition iappend :: "uint \<Rightarrow> bytes \<Rightarrow> mkfs \<Rightarrow> mkfs res" where
  "iappend inum p s =
     bindE (rinode inum s) (\<lambda>din.
     bindE (iappend_loop p (unat (xint (d_size din))) din s) (\<lambda>(din, off, s).
     winode inum (din\<lparr>d_size := xint (of_nat off)\<rparr>) s))"

section \<open>main\<close>

definition dirent :: "uint \<Rightarrow> bytes \<Rightarrow> bytes" where
  "dirent inum name = le_bytes 2 (xshort (ucast inum)) @ take DIRSIZ (name @ replicate DIRSIZ 0)"

fun append_all :: "uint \<Rightarrow> bytes list \<Rightarrow> mkfs \<Rightarrow> mkfs res" where
  "append_all inum [] s = Inr s"
| "append_all inum (c # cs) s = bindE (iappend inum c s) (append_all inum cs)"

text \<open>The name under which a file is stored: without \<open>user/\<close>, and without a leading underscore.\<close>

definition strip_user :: "bytes \<Rightarrow> bytes" where
  "strip_user a = (if take 5 a = bytes_of ''user/'' then drop 5 a else a)"

definition shortname :: "bytes \<Rightarrow> bytes" where
  "shortname a = (let n = strip_user a in if n \<noteq> [] \<and> hd n = of_char CHR ''_'' then tl n else n)"

definition new_file :: "uint \<Rightarrow> bytes \<Rightarrow> mkfs \<Rightarrow> (mkfs \<times> uint) res" where
  "new_file rootino name s =
     bindE (ialloc T_FILE s) (\<lambda>(s, inum). bindE (iappend rootino (dirent inum name) s) (\<lambda>s. Inr (s, inum)))"

fun add_files :: "uint \<Rightarrow> (bytes \<times> bytes list option) list \<Rightarrow> mkfs \<Rightarrow> mkfs res" where
  "add_files rootino [] s = Inr s"
| "add_files rootino ((arg, content) # fs) s =
     (if of_char CHR ''/'' \<in> set (strip_user arg) then Inl (Panic ''assert'')
      else (case content of
              None \<Rightarrow> Inl (Panic ''open'')
            | Some cs \<Rightarrow>
                bindE (new_file rootino (shortname arg) s) (\<lambda>(s, inum).
                bindE (append_all inum cs s) (add_files rootino fs))))"

definition format :: mkfs where
  "format =
     (let s = foldl (\<lambda>s i. wsect (of_nat i) zeroes s) \<lparr>img = [], freeinode = 1, freeblock = of_nat nmeta\<rparr> [0..<FSSIZE]
      in wsect 1 (poke zeroes 0 (enc_sb mk_sb)) s)"

definition fix_root :: "uint \<Rightarrow> mkfs \<Rightarrow> mkfs res" where
  "fix_root rootino s =
     bindE (rinode rootino s) (\<lambda>din.
     (let off = xint (d_size din); off = (off div of_nat BSIZE + 1) * of_nat BSIZE
      in winode rootino (din\<lparr>d_size := xint off\<rparr>) s))"

definition main :: "(bytes \<times> bytes list option) list \<Rightarrow> mkfs res" where
  "main fs =
     bindE (ialloc T_DIR format) (\<lambda>(s, rootino).
     if rootino \<noteq> ROOTINO then Inl (Panic ''assert'')
     else bindE (iappend rootino (dirent rootino (bytes_of ''.'')) s) (\<lambda>s.
          bindE (iappend rootino (dirent rootino (bytes_of ''..'')) s) (\<lambda>s.
          bindE (add_files rootino fs s) (\<lambda>s.
          bindE (new_file rootino (bytes_of ''cache.bin'') s) (\<lambda>(s, _).
          bindE (fix_root rootino s) (\<lambda>s. balloc (unat (freeblock s)) s))))))"

end
