(* ===== verification/MkfsSpec.thy ===== *)
theory MkfsSpec
  imports Mkfs
begin

text \<open>
  What \<open>mkfs\<close> builds: the contents of each file in the image, blocks that belong to one file only, and a bitmap that marks the blocks in use.
  A kernel that mounts the image reads the files that were given to \<open>mkfs\<close>.
\<close>

section \<open>Sectors and layout\<close>

lemma xint_id [simp]: "xint x = x"
proof (rule bit_word_eqI)
  fix n assume "n < LENGTH(32)"
  then show "bit (xint x) n = bit x n" by (cases "n < 16"; cases "n < 24") (auto simp: xint_def bit_simps)
qed

lemma xshort_id [simp]: "xshort x = x"
  by (intro bit_word_eqI) (auto simp: xshort_def bit_simps)

definition image :: "mkfs \<Rightarrow> bool" where
  "image s \<longleftrightarrow> length (img s) = FSSIZE \<and> (\<forall>b<FSSIZE. length (img s ! b) = BSIZE)"

lemma unat_small: "n < FSSIZE \<Longrightarrow> unat (of_nat n :: uint) = n"
  by (simp add: unat_of_nat32 hdr)

lemma sector_eq: "unat b < 2 ^ 22 \<Longrightarrow> sector b = unat b"
proof -
  assume "unat b < 2 ^ 22"
  then have "unat (b * 1024) = unat b * 1024" by (simp add: unat_word_ariths(2))
  then show ?thesis by (simp add: sector_def hdr)
qed

lemma sector_lt [simp]: "unat b < FSSIZE \<Longrightarrow> sector b = unat b"
  by (simp add: sector_eq hdr)

lemma rsect_Inr:
  assumes "image s" "rsect b s = Inr buf" "unat b < 2 ^ 22"
  shows "unat b < FSSIZE \<and> buf = img s ! unat b"
  using assms by (auto simp: rsect_def image_def sector_eq split: if_splits)

lemma rsect_ok: "image s \<Longrightarrow> unat b < FSSIZE \<Longrightarrow> rsect b s = Inr (img s ! unat b)"
  by (simp add: rsect_def image_def)

lemma wsect_ok: "image s \<Longrightarrow> unat b < FSSIZE \<Longrightarrow> wsect b buf s = s\<lparr>img := (img s)[unat b := buf]\<rparr>"
  by (simp add: wsect_def image_def)

lemma image_update: "image s \<Longrightarrow> length buf = BSIZE \<Longrightarrow> image (s\<lparr>img := (img s)[b := buf]\<rparr>)"
  by (auto simp: image_def) (metis nth_list_update_eq nth_list_update_neq)

lemma image_free [simp]: "image (s\<lparr>freeblock := x\<rparr>) = image s" "image (s\<lparr>freeinode := x\<rparr>) = image s"
  by (simp_all add: image_def)

lemma layout: "nmeta = 46" "sb_inodestart mk_sb = 32" "sb_bmapstart mk_sb = 45"
  by (simp_all add: hdr mk_sb_def)

section \<open>The blocks of a file\<close>

definition addr :: "bytes list \<Rightarrow> uint list \<Rightarrow> nat \<Rightarrow> uint" where
  "addr M as bn = (if bn < NDIRECT then as ! bn else if as ! NDIRECT = 0 then 0 else peek32 (M ! unat (as ! NDIRECT)) (4 * (bn - NDIRECT)))"

definition own :: "bytes list \<Rightarrow> uint list \<Rightarrow> nat set" where
  "own M as = unat ` (insert (as ! NDIRECT) (addr M as ` {..<MAXFILE}) - {0})"

text \<open>
  The first \<open>nb\<close> blocks of a file with addresses \<open>as\<close> are allocated, and no others; they are different blocks of the data area below the first free
  block \<open>fb\<close>, and so is the indirect block.
\<close>

definition lay :: "bytes list \<Rightarrow> nat \<Rightarrow> uint list \<Rightarrow> nat \<Rightarrow> bool" where
  "lay M fb as nb \<longleftrightarrow> length as = NDIRECT + 1 \<and> nb \<le> MAXFILE \<and> (\<forall>bn<MAXFILE. addr M as bn \<noteq> 0 \<longleftrightarrow> bn < nb) \<and>
     inj_on (addr M as) {..<nb} \<and> (\<forall>bn<nb. addr M as bn \<noteq> as ! NDIRECT) \<and> own M as \<subseteq> {nmeta..<fb}"

text \<open>Blocks that have not been handed out are zero.\<close>

definition unused_zero :: "mkfs \<Rightarrow> bool" where
  "unused_zero s \<longleftrightarrow> (\<forall>b. unat (freeblock s) \<le> b \<and> b < FSSIZE \<longrightarrow> img s ! b = zeroes)"

lemma peek32_zeroes: "k + 4 \<le> BSIZE \<Longrightarrow> peek32 zeroes k = 0"
  by (simp add: peek32_def peek_def zeroes_def numeral_eq_Suc)

lemma unat_Suc: "unat w < FSSIZE \<Longrightarrow> unat (w + 1 :: uint) = Suc (unat w)"
  by (simp add: unat_word_ariths(1) hdr)

lemma own_addr: "bn < MAXFILE \<Longrightarrow> addr M as bn \<noteq> 0 \<Longrightarrow> unat (addr M as bn) \<in> own M as"
  by (auto simp: own_def)

lemma own_ind: "as ! NDIRECT \<noteq> 0 \<Longrightarrow> unat (as ! NDIRECT) \<in> own M as"
  by (auto simp: own_def)

lemma lay_bound: "lay M fb as nb \<Longrightarrow> bn < nb \<Longrightarrow> nmeta \<le> unat (addr M as bn) \<and> unat (addr M as bn) < fb"
proof -
  assume l: "lay M fb as nb" and b: "bn < nb"
  then have "bn < MAXFILE" "addr M as bn \<noteq> 0" "own M as \<subseteq> {nmeta..<fb}" by (auto simp: lay_def)
  then show ?thesis using own_addr [of bn M as] by auto
qed

lemma lay_fresh:
  assumes "lay M fb as nb" "fb \<le> unat x" "0 < unat x"
  shows "bn < MAXFILE \<Longrightarrow> addr M as bn \<noteq> x" "as ! NDIRECT \<noteq> x"
proof -
  have "unat x \<notin> own M as" "x \<noteq> 0" using assms by (auto simp: lay_def)
  then show "bn < MAXFILE \<Longrightarrow> addr M as bn \<noteq> x" "as ! NDIRECT \<noteq> x" using own_addr own_ind by blast+
qed

lemma addr_cong: "(as ! NDIRECT \<noteq> 0 \<Longrightarrow> M' ! unat (as ! NDIRECT) = M ! unat (as ! NDIRECT)) \<Longrightarrow> addr M' as = addr M as"
  by (auto simp: addr_def fun_eq_iff)

lemma lay_cong:
  assumes "\<And>b. b \<in> own M as \<Longrightarrow> M' ! b = M ! b" "fb \<le> fb'"
  shows "addr M' as = addr M as" "own M' as = own M as" "lay M fb as nb \<Longrightarrow> lay M' fb' as nb"
proof -
  show a: "addr M' as = addr M as" using assms(1) own_ind by (intro addr_cong) blast
  then show o': "own M' as = own M as" by (simp add: own_def)
  show "lay M' fb' as nb" if "lay M fb as nb" using that a o' assms(2) by (fastforce simp: lay_def)
qed

text \<open>One more block at the end of the file.\<close>

lemma lay_extend:
  assumes l: "lay M fb as nb" and nb: "nb < MAXFILE" and len: "length as' = NDIRECT + 1" and i: "as' ! NDIRECT = as ! NDIRECT"
    and a: "\<And>bn. bn < MAXFILE \<Longrightarrow> addr M' as' bn = (if bn = nb then x else addr M as bn)"
    and x: "unat x = fb" "nmeta \<le> fb"
  shows "lay M' (Suc fb) as' (Suc nb)" "own M' as' \<subseteq> own M as \<union> {fb}"
proof -
  have x0: "x \<noteq> 0" using x by (auto simp: hdr)
  have xp: "fb \<le> unat x" "0 < unat x" using x by (simp_all add: hdr)
  have ix: "as ! NDIRECT \<noteq> x" using lay_fresh(2) [OF l xp] .
  have ax: "addr M as bn \<noteq> x" if "bn < MAXFILE" for bn using lay_fresh(1) [OF l xp that] .
  show o': "own M' as' \<subseteq> own M as \<union> {fb}"
    unfolding own_def i using a x(1) nb by (auto split: if_splits)
  have "addr M' as' bn \<noteq> 0 \<longleftrightarrow> bn < Suc nb" if "bn < MAXFILE" for bn using that a l x0 by (auto simp: lay_def)
  moreover have "inj_on (addr M' as') {..<Suc nb}"
  proof -
    have "addr M' as' bn = addr M as bn" if "bn < nb" for bn using that a nb by simp
    then have "inj_on (addr M' as') {..<nb}" "addr M' as' ` {..<nb} = addr M as ` {..<nb}" using l by (auto simp: lay_def inj_on_def)
    moreover have "addr M as bn \<noteq> x" if "bn < nb" for bn using ax [of bn] that nb by simp
    then have "x \<notin> addr M as ` {..<nb}" by blast
    ultimately show ?thesis using a nb by (simp add: lessThan_Suc)
  qed
  moreover have "addr M' as' bn \<noteq> as' ! NDIRECT" if "bn < Suc nb" for bn using that a i ix nb l by (auto simp: lay_def less_Suc_eq)
  moreover have "own M' as' \<subseteq> {nmeta..<Suc fb}" using o' l x(2) by (fastforce simp: lay_def)
  ultimately show "lay M' (Suc fb) as' (Suc nb)" using len nb by (auto simp: lay_def)
qed

text \<open>A new indirect block: it is zero, so it adds no block to the file.\<close>

lemma lay_indirect:
  assumes l: "lay M fb as nb" and z: "as ! NDIRECT = 0" "M ! fb = zeroes" and x: "unat x = fb" "nmeta \<le> fb"
  shows "lay M (Suc fb) (as[NDIRECT := x]) nb" "own M (as[NDIRECT := x]) = own M as \<union> {fb}" "bn < MAXFILE \<Longrightarrow> addr M (as[NDIRECT := x]) bn = addr M as bn"
proof -
  let ?as = "as[NDIRECT := x]"
  have len: "NDIRECT < length as" using l by (simp add: lay_def)
  have x0: "x \<noteq> 0" using x by (auto simp: hdr)
  have a: "addr M ?as bn = addr M as bn" if "bn < MAXFILE" for bn
  proof (cases "bn < NDIRECT")
    case False
    then have "4 * (bn - NDIRECT) + 4 \<le> BSIZE" using that by (simp add: hdr)
    then show ?thesis using False z x len peek32_zeroes by (simp add: addr_def)
  qed (simp add: addr_def)
  then show "bn < MAXFILE \<Longrightarrow> addr M ?as bn = addr M as bn" by simp
  show o': "own M ?as = own M as \<union> {fb}" using a z x x0 len by (auto simp: own_def)
  have xp: "fb \<le> unat x" "0 < unat x" using x by (simp_all add: hdr)
  have "addr M as bn \<noteq> x" if "bn < MAXFILE" for bn using lay_fresh(1) [OF l xp that] .
  then show "lay M (Suc fb) ?as nb" using l a o' x len by (fastforce simp: lay_def inj_on_def)
qed

section \<open>Allocating a block for a file\<close>

definition fstate :: "mkfs \<Rightarrow> uint list \<Rightarrow> nat \<Rightarrow> bool" where
  "fstate s as nb \<longleftrightarrow> image s \<and> unused_zero s \<and> lay (img s) (unat (freeblock s)) as nb \<and> nmeta \<le> unat (freeblock s) \<and> unat (freeblock s) \<le> FSSIZE"

text \<open>Blocks that the file does not own, and the data it has, are left alone; new blocks come from the free ones.\<close>

definition keeps :: "mkfs \<Rightarrow> uint list \<Rightarrow> nat \<Rightarrow> mkfs \<Rightarrow> uint list \<Rightarrow> bool" where
  "keeps s as nb s' as' \<longleftrightarrow> freeinode s' = freeinode s \<and> unat (freeblock s) \<le> unat (freeblock s') \<and>
     own (img s') as' \<subseteq> own (img s) as \<union> {unat (freeblock s)..<unat (freeblock s')} \<and>
     (\<forall>b<unat (freeblock s). b \<notin> own (img s) as \<longrightarrow> img s' ! b = img s ! b) \<and>
     (\<forall>bn<nb. addr (img s') as' bn = addr (img s) as bn \<and> img s' ! unat (addr (img s) as bn) = img s ! unat (addr (img s) as bn))"

lemma keeps_refl: "keeps s as nb s as"
  by (simp add: keeps_def)

lemma keeps_trans:
  assumes a: "keeps s as nb s1 as1" and b: "keeps s1 as1 nb1 s2 as2" and n: "nb \<le> nb1"
  shows "keeps s as nb s2 as2"
proof -
  have "img s2 ! b = img s ! b" if "b < unat (freeblock s)" "b \<notin> own (img s) as" for b
  proof -
    have "b \<notin> own (img s1) as1" "b < unat (freeblock s1)" using a that by (auto simp: keeps_def)
    then show ?thesis using a b that by (simp add: keeps_def)
  qed
  moreover have "addr (img s2) as2 bn = addr (img s) as bn \<and> img s2 ! unat (addr (img s) as bn) = img s ! unat (addr (img s) as bn)"
    if "bn < nb" for bn
  proof -
    have "addr (img s1) as1 bn = addr (img s) as bn" "img s1 ! unat (addr (img s) as bn) = img s ! unat (addr (img s) as bn)"
      using a that by (simp_all add: keeps_def)
    moreover have "addr (img s2) as2 bn = addr (img s1) as1 bn" "img s2 ! unat (addr (img s1) as1 bn) = img s1 ! unat (addr (img s1) as1 bn)"
      using b n that by (simp_all add: keeps_def)
    ultimately show ?thesis by simp
  qed
  moreover have "own (img s2) as2 \<subseteq> own (img s) as \<union> {unat (freeblock s)..<unat (freeblock s2)}"
    using a b by (fastforce simp: keeps_def)
  ultimately show ?thesis using a b by (simp add: keeps_def)
qed

text \<open>The result of \<open>file_block\<close>: block \<open>fbn\<close> is \<open>x\<close>, and zero when it is new.\<close>

definition allotted :: "nat \<Rightarrow> mkfs \<Rightarrow> uint list \<Rightarrow> nat \<Rightarrow> mkfs \<Rightarrow> uint list \<Rightarrow> uint \<Rightarrow> bool" where
  "allotted fbn s as nb s' as' x \<longleftrightarrow> fstate s' as' (max nb (Suc fbn)) \<and> keeps s as nb s' as' \<and> x = addr (img s') as' fbn \<and>
     (nb \<le> fbn \<longrightarrow> img s' ! unat x = zeroes)"

lemma allot_present:
  assumes f: "fstate s as nb" and n: "fbn < nb"
  shows "allotted fbn s as nb s as (addr (img s) as fbn)"
  using f n by (simp add: allotted_def keeps_refl max_absorb1 Suc_leI)

lemma fstate_fresh: "fstate s as nb \<Longrightarrow> rsect (freeblock s) s' = Inr buf \<Longrightarrow> image s' \<Longrightarrow> unat (freeblock s) < FSSIZE"
  using rsect_Inr [of s' "freeblock s" buf] by (auto simp: fstate_def hdr)

lemma unused_step: "unused_zero s \<Longrightarrow> unat (freeblock s) < FSSIZE \<Longrightarrow> unused_zero (s\<lparr>freeblock := freeblock s + 1\<rparr>)"
  by (auto simp: unused_zero_def unat_Suc)

lemma allot_direct:
  assumes f: "fstate s as nb" and n: "nb < NDIRECT" and lt: "unat (freeblock s) < FSSIZE"
  shows "allotted nb s as nb (s\<lparr>freeblock := freeblock s + 1\<rparr>) (as[nb := freeblock s]) (freeblock s)"
proof -
  let ?as = "as[nb := freeblock s]" and ?M = "img s" and ?fb = "unat (freeblock s)"
  have l: "lay ?M ?fb as nb" and fb: "nmeta \<le> ?fb" using f by (auto simp: fstate_def)
  have len: "length as = NDIRECT + 1" using l by (simp add: lay_def)
  have a: "addr ?M ?as bn = (if bn = nb then freeblock s else addr ?M as bn)" for bn
    using n len by (auto simp: addr_def)
  have c: "nb < MAXFILE" "length ?as = NDIRECT + 1" "?as ! NDIRECT = as ! NDIRECT" using n len by (simp_all add: MAXFILE_def)
  have e: "lay ?M (Suc ?fb) ?as (Suc nb)" "own ?M ?as \<subseteq> own ?M as \<union> {?fb}"
    by (rule lay_extend [OF l c a refl fb])+
  moreover have "fstate (s\<lparr>freeblock := freeblock s + 1\<rparr>) ?as (Suc nb)"
    using f e(1) lt unused_step [of s] by (auto simp: fstate_def unat_Suc)
  moreover have "keeps s as nb (s\<lparr>freeblock := freeblock s + 1\<rparr>) ?as"
    using e(2) lt a n by (auto simp: keeps_def unat_Suc)
  moreover have "?M ! ?fb = zeroes" using f lt by (simp add: fstate_def unused_zero_def)
  ultimately show ?thesis using a by (simp add: allotted_def)
qed

lemma allot_indirect:
  assumes f: "fstate s as nb" and n: "NDIRECT \<le> nb" "nb < MAXFILE" and i: "as ! NDIRECT \<noteq> 0" "ind = as ! NDIRECT" and lt: "unat (freeblock s) < FSSIZE"
    and s': "s' = s\<lparr>freeblock := freeblock s + 1, img := (img s)[unat ind := poke32 (img s ! unat ind) (4 * (nb - NDIRECT)) (freeblock s)]\<rparr>"
  shows "allotted nb s as nb s' as (freeblock s)"
proof -
  let ?M = "img s" and ?fb = "unat (freeblock s)" and ?k = "4 * (nb - NDIRECT)"
  have l: "lay ?M ?fb as nb" and fb: "nmeta \<le> ?fb" and im: "image s" using f by (auto simp: fstate_def)
  have il: "unat ind < ?fb" "nmeta \<le> unat ind" using own_ind [OF i(1), of ?M] l i(2) by (auto simp: lay_def)
  have len: "length (?M ! unat ind) = BSIZE" "unat ind < length ?M" using im il lt by (auto simp: image_def)
  have k: "?k + 4 \<le> BSIZE" using n by (simp add: hdr)
  have a: "addr (img s') as bn = (if bn = nb then freeblock s else addr ?M as bn)" for bn
  proof (cases "bn < NDIRECT \<or> bn = nb")
    case False
    then have "4 * (bn - NDIRECT) + 4 \<le> ?k \<or> ?k + 4 \<le> 4 * (bn - NDIRECT)" using n by auto
    then show ?thesis using False len k i by (simp add: addr_def s')
  qed (use n len k i in \<open>auto simp: addr_def s'\<close>)
  have c: "length as = NDIRECT + 1" using l by (simp add: lay_def)
  have e: "lay (img s') (Suc ?fb) as (Suc nb)" "own (img s') as \<subseteq> own ?M as \<union> {?fb}"
    by (rule lay_extend [OF l n(2) c refl a refl fb])+
  have im': "image s'" using image_update [of "s\<lparr>freeblock := freeblock s + 1\<rparr>" "poke32 (?M ! unat ind) ?k (freeblock s)" "unat ind"] im len k
    by (simp add: s')
  have same: "img s' ! b = ?M ! b" if "?fb \<le> b \<or> b \<notin> own ?M as \<or> (\<exists>bn<nb. b = unat (addr ?M as bn))" for b
  proof -
    have "\<forall>bn<nb. unat (addr ?M as bn) \<noteq> unat ind" using l i by (simp add: lay_def flip: word_unat_eq_iff)
    moreover have "unat ind \<in> own ?M as" using own_ind [OF i(1)] i(2) by simp
    ultimately have "b \<noteq> unat ind" using that il(1) by auto
    then show ?thesis by (simp add: s')
  qed
  have z: "img s' ! b = zeroes" if "?fb \<le> b" "b < FSSIZE" for b using same [of b] that f by (auto simp: fstate_def unused_zero_def)
  have "fstate s' as (Suc nb)"
    using f e(1) lt im' z by (auto simp: fstate_def s' unat_Suc unused_zero_def)
  moreover have "keeps s as nb s' as"
    using e(2) lt a n same by (auto simp: keeps_def s' unat_Suc)
  moreover have "img s' ! ?fb = zeroes" using z lt by simp
  ultimately show ?thesis using a by (simp add: allotted_def)
qed

lemma allot_new_indirect:
  assumes f: "fstate s as nb" and n: "nb \<le> NDIRECT" and i: "as ! NDIRECT = 0" and lt: "unat (freeblock s) < FSSIZE"
  shows "fstate (s\<lparr>freeblock := freeblock s + 1\<rparr>) (as[NDIRECT := freeblock s]) nb"
    "keeps s as nb (s\<lparr>freeblock := freeblock s + 1\<rparr>) (as[NDIRECT := freeblock s])"
proof -
  let ?as = "as[NDIRECT := freeblock s]" and ?M = "img s" and ?fb = "unat (freeblock s)"
  have l: "lay ?M ?fb as nb" and fb: "nmeta \<le> ?fb" "?M ! ?fb = zeroes" using f lt by (auto simp: fstate_def unused_zero_def)
  note e = lay_indirect [OF l i fb(2) refl fb(1)]
  show "fstate (s\<lparr>freeblock := freeblock s + 1\<rparr>) ?as nb"
    using f e(1) lt unused_step [of s] by (auto simp: fstate_def unat_Suc)
  show "keeps s as nb (s\<lparr>freeblock := freeblock s + 1\<rparr>) ?as"
    using e(2,3) lt l by (auto simp: keeps_def unat_Suc lay_def)
qed

lemma lay_no_indirect: "lay M fb as nb \<Longrightarrow> as ! NDIRECT = 0 \<Longrightarrow> nb \<le> NDIRECT"
proof (rule ccontr)
  assume l: "lay M fb as nb" and "as ! NDIRECT = 0" "\<not> nb \<le> NDIRECT"
  then have "addr M as NDIRECT \<noteq> 0" by (auto simp: lay_def)
  then show False using \<open>as ! NDIRECT = 0\<close> by (simp add: addr_def)
qed

text \<open>The part of \<open>file_block\<close> that uses the indirect block.\<close>

lemma indirect_allotted:
  assumes f: "fstate s as nb" and n: "fbn \<le> nb" "NDIRECT \<le> fbn" "fbn < MAXFILE" and i: "as ! NDIRECT \<noteq> 0"
    and r: "rsect (as ! NDIRECT) s = Inr indirect" and a: "as = d_addrs din"
    and e: "(if peek32 indirect (4 * (fbn - NDIRECT)) = 0
             then Inr (din, wsect (as ! NDIRECT) (poke32 indirect (4 * (fbn - NDIRECT)) (freeblock s)) (s\<lparr>freeblock := freeblock s + 1\<rparr>),
                       peek32 (poke32 indirect (4 * (fbn - NDIRECT)) (freeblock s)) (4 * (fbn - NDIRECT)))
             else Inr (din, s, peek32 indirect (4 * (fbn - NDIRECT)))) = (Inr (din', s', x) :: (dinode \<times> mkfs \<times> uint) res)"
    and x: "rsect x s' = Inr buf"
  shows "allotted fbn s as nb s' as x" "din' = din"
proof -
  let ?ind = "as ! NDIRECT" and ?k = "4 * (fbn - NDIRECT)"
  have l: "lay (img s) (unat (freeblock s)) as nb" and im: "image s" and fb: "unat (freeblock s) \<le> FSSIZE" using f by (auto simp: fstate_def)
  have il: "unat ?ind < unat (freeblock s)" using own_ind [OF i, of "img s"] l by (auto simp: lay_def)
  then have ii: "unat ?ind < FSSIZE" using fb by simp
  then have ind: "indirect = img s ! unat ?ind" using rsect_ok [OF im] r by simp
  have pk: "peek32 indirect ?k = addr (img s) as fbn" using n i ind by (simp add: addr_def)
  have len: "length indirect = BSIZE" "?k + 4 \<le> BSIZE" using im ii ind n by (auto simp: image_def hdr)
  have "allotted fbn s as nb s' as x \<and> din' = din"
  proof (cases "fbn < nb")
    case True
    then have "addr (img s) as fbn \<noteq> 0" using l n by (auto simp: lay_def)
    then show ?thesis using e pk allot_present [OF f True] by auto
  next
    case False
    then have nb: "fbn = nb" using n by simp
    then have "addr (img s) as fbn = 0" using l n by (auto simp: lay_def)
    then have s': "din' = din" "x = freeblock s" "s' = s\<lparr>freeblock := freeblock s + 1, img := (img s)[unat ?ind := poke32 (img s ! unat ?ind) ?k (freeblock s)]\<rparr>"
      using e pk len wsect_ok [of "s\<lparr>freeblock := freeblock s + 1\<rparr>" ?ind] im ii ind by (auto simp: image_def)
    have "image s'" using image_update [of "s\<lparr>freeblock := freeblock s + 1\<rparr>"] im len ind by (simp add: s'(3))
    then have "unat (freeblock s) < FSSIZE" using fstate_fresh [OF f, of s' buf] x s'(2) by simp
    then show ?thesis using allot_indirect [OF f, of ?ind s'] n i nb s' by simp
  qed
  then show "allotted fbn s as nb s' as x" "din' = din" by blast+
qed

lemma file_block_allots:
  assumes f: "fstate s (d_addrs din) nb" and n: "fbn \<le> nb" "fbn < MAXFILE" and r: "file_block fbn din s = Inr (din', s', x)" and x: "rsect x s' = Inr buf"
  shows "allotted fbn s (d_addrs din) nb s' (d_addrs din') x \<and> din' = din\<lparr>d_addrs := d_addrs din'\<rparr>"
proof -
  let ?as = "d_addrs din"
  have l: "lay (img s) (unat (freeblock s)) ?as nb" and im: "image s" using f by (auto simp: fstate_def)
  have len: "length ?as = NDIRECT + 1" using l by (simp add: lay_def)
  consider (direct) "fbn < NDIRECT" | (ind) "NDIRECT \<le> fbn" "?as ! NDIRECT \<noteq> 0" | (new) "NDIRECT \<le> fbn" "?as ! NDIRECT = 0" by linarith
  then show ?thesis
  proof cases
    case direct
    show ?thesis
    proof (cases "fbn < nb")
      case True
      then have "?as ! fbn \<noteq> 0" using l n direct unfolding lay_def addr_def by (metis (no_types))
      then have "din' = din" "s' = s" "x = addr (img s) ?as fbn" using r direct by (auto simp: file_block_def addr_def)
      then show ?thesis using allot_present [OF f True] by simp
    next
      case False
      then have nb: "fbn = nb" using n by simp
      have "addr (img s) ?as fbn = 0" using l n(2) nb by (auto simp: lay_def)
      then have "?as ! fbn = 0" using direct by (simp add: addr_def)
      then have e: "din' = din\<lparr>d_addrs := ?as[fbn := freeblock s]\<rparr>" "s' = s\<lparr>freeblock := freeblock s + 1\<rparr>" "x = freeblock s"
        using r direct len by (auto simp: file_block_def)
      then have "unat (freeblock s) < FSSIZE" using fstate_fresh [OF f, of s' buf] x im by simp
      then show ?thesis using allot_direct [OF f] direct e nb by simp
    qed
  next
    case ind
    then obtain indirect where "rsect (?as ! NDIRECT) s = Inr indirect" using r by (auto simp: file_block_def Let_def)
    then show ?thesis using indirect_allotted [OF f n(1) ind(1) n(2) ind(2) _ refl _ x, of indirect din'] r ind
      by (simp add: file_block_def Let_def cong del: if_weak_cong)
  next
    case new
    let ?s = "s\<lparr>freeblock := freeblock s + 1\<rparr>" and ?as1 = "?as[NDIRECT := freeblock s]"
    let ?din = "din\<lparr>d_addrs := ?as1\<rparr>"
    have i1: "?as1 ! NDIRECT = freeblock s" using len by simp
    obtain indirect where rd: "rsect (freeblock s) ?s = Inr indirect" using r new len by (auto simp: file_block_def Let_def)
    have lt: "unat (freeblock s) < FSSIZE" using fstate_fresh [OF f rd] im by simp
    have nb: "nb \<le> NDIRECT" using lay_no_indirect [OF l new(2)] .
    note a = allot_new_indirect [OF f nb new(2) lt]
    have "freeblock s \<noteq> 0" using f by (auto simp: fstate_def hdr)
    then have "allotted fbn ?s ?as1 nb s' ?as1 x \<and> din' = ?din"
      using indirect_allotted [OF a(1) n(1) new(1) n(2) _ _ _ _ x, of indirect ?din din'] r new rd len i1
      by (simp add: file_block_def Let_def cong del: if_weak_cong)
    then show ?thesis using keeps_trans [OF a(2), of nb s' ?as1] unfolding allotted_def by auto
  qed
qed

section \<open>Appending\<close>

definition nblk :: "nat \<Rightarrow> nat" where
  "nblk n = (n + BSIZE - 1) div BSIZE"

definition cbyte :: "bytes list \<Rightarrow> uint list \<Rightarrow> nat \<Rightarrow> uchar" where
  "cbyte M as pos = M ! unat (addr M as (pos div BSIZE)) ! (pos mod BSIZE)"

text \<open>The blocks of the file hold \<open>c\<close>, followed by zeroes.\<close>

definition content :: "bytes list \<Rightarrow> uint list \<Rightarrow> bytes \<Rightarrow> bool" where
  "content M as c \<longleftrightarrow> (\<forall>pos<nblk (length c) * BSIZE. cbyte M as pos = (if pos < length c then c ! pos else 0))"

lemma nblk_facts: "n \<le> nblk n * BSIZE" "n div BSIZE \<le> nblk n" "nblk n \<le> n div BSIZE \<Longrightarrow> n = nblk n * BSIZE"
  by (auto simp: nblk_def hdr)

lemma nblk_eq: "m \<le> BSIZE \<Longrightarrow> nblk (q * BSIZE + m) = q + (if m = 0 then 0 else 1)"
  by (auto simp: nblk_def hdr)

lemma nblk_partial: "n mod BSIZE \<noteq> 0 \<Longrightarrow> nblk n = n div BSIZE + 1"
  using nblk_eq [of "n mod BSIZE" "n div BSIZE"] by (simp add: hdr)

lemma nblk_chunk: "0 < l \<Longrightarrow> max (nblk n) (Suc (n div BSIZE)) = nblk (n + chunk l n)"
proof -
  assume "0 < l"
  define q r where "q = n div BSIZE" and "r = n mod BSIZE"
  have n: "n = q * BSIZE + r" "r < BSIZE" by (simp_all add: q_def r_def hdr)
  have k: "0 < chunk l n" "r + chunk l n \<le> BSIZE" using \<open>0 < l\<close> n(2) by (auto simp: chunk_def r_def)
  have "nblk n = q + (if r = 0 then 0 else 1)" "nblk (n + chunk l n) = Suc q"
    using nblk_eq [of r q] nblk_eq [of "r + chunk l n" q] n k by (simp_all add: add.assoc)
  then show ?thesis by (simp add: q_def)
qed

lemma content_round:
  assumes c: "content (img s) as c" and p: "p \<noteq> []" and a: "allotted (length c div BSIZE) s as (nblk (length c)) s' as' x"
    and n: "n = chunk (length p) (length c)"
    and s'': "s'' = s'\<lparr>img := (img s')[unat x := poke (img s' ! unat x) (length c mod BSIZE) (take n p)]\<rparr>"
  shows "fstate s'' as' (nblk (length (c @ take n p)))" "content (img s'') as' (c @ take n p)" "keeps s as 0 s'' as'"
proof -
  let ?off = "length c" and ?fbn = "length c div BSIZE" and ?nb = "nblk (length c)" and ?o = "length c mod BSIZE"
  let ?blk = "poke (img s' ! unat x) ?o (take n p)"
  have nl: "length (take n p) = n" "?o + n \<le> BSIZE" "0 < n" using n chunk_pos [of "length p" ?off] p by (auto simp: chunk_def hdr)
  have nb: "nblk (length (c @ take n p)) = max ?nb (Suc ?fbn)" using nblk_chunk [of "length p" ?off] p n nl by simp
  have f: "fstate s' as' (max ?nb (Suc ?fbn))" and k: "keeps s as ?nb s' as'" and x: "x = addr (img s') as' ?fbn" and z: "?nb \<le> ?fbn \<longrightarrow> img s' ! unat x = zeroes"
    using a by (auto simp: allotted_def)
  have l: "lay (img s') (unat (freeblock s')) as' (max ?nb (Suc ?fbn))" and im: "image s'" and fb: "unat (freeblock s') \<le> FSSIZE" using f by (auto simp: fstate_def)
  have xb: "nmeta \<le> unat x" "unat x < unat (freeblock s')" using lay_bound [OF l, of ?fbn] x by auto
  have xi: "x \<noteq> as' ! NDIRECT" using l x by (auto simp: lay_def)
  have blen: "length (img s' ! unat x) = BSIZE" "unat x < length (img s')" using im xb fb by (auto simp: image_def)
  have other: "img s'' ! b = img s' ! b" if "b \<noteq> unat x" for b using that by (simp add: s'')
  have ad: "addr (img s'') as' = addr (img s') as'" using xi other by (intro addr_cong) (simp flip: word_unat_eq_iff)
  then have ow: "own (img s'') as' = own (img s') as'" by (simp add: own_def)
  have "image s''" unfolding s'' using im blen nl by (intro image_update) auto
  moreover have "unused_zero s''" using f xb other by (auto simp: fstate_def unused_zero_def s'')
  moreover have "lay (img s'') (unat (freeblock s'')) as' (max ?nb (Suc ?fbn))" using l ad ow by (simp add: lay_def s'')
  ultimately show "fstate s'' as' (nblk (length (c @ take n p)))" using f nb by (simp add: fstate_def s'')
  show "keeps s as 0 s'' as'"
  proof -
    have "unat x \<in> own (img s') as'" using own_addr [of ?fbn "img s'" as'] l x xb by (auto simp: lay_def hdr)
    then have "b \<noteq> unat x" if "b < unat (freeblock s)" "b \<notin> own (img s) as" for b using that k by (auto simp: keeps_def)
    then have "img s'' ! b = img s ! b" if "b < unat (freeblock s)" "b \<notin> own (img s) as" for b using that k other by (simp add: keeps_def)
    then show ?thesis using k ow unfolding keeps_def by (simp add: s'')
  qed
  show "content (img s'') as' (c @ take n p)"
    unfolding content_def nb
  proof (intro allI impI)
    fix pos assume pos: "pos < max ?nb (Suc ?fbn) * BSIZE"
    have pd: "pos div BSIZE < max ?nb (Suc ?fbn)" using block_of [OF pos] .
    have pm: "pos mod BSIZE < BSIZE" by (simp add: hdr)
    show "cbyte (img s'') as' pos = (if pos < length (c @ take n p) then (c @ take n p) ! pos else 0)"
    proof (cases "pos div BSIZE = ?fbn")
      case False
      then have lt: "pos div BSIZE < ?nb" using pd nblk_facts(2) [of ?off] by (auto simp: less_max_iff_disj less_Suc_eq)
      have "addr (img s') as' (pos div BSIZE) \<noteq> x" using False l pd x by (auto simp: lay_def inj_on_def)
      then have "cbyte (img s'') as' pos = cbyte (img s) as pos"
        using ad other k lt by (simp add: cbyte_def keeps_def flip: word_unat_eq_iff)
      moreover have "\<not> (?off \<le> pos \<and> pos < ?off + n)" using False in_chunk_iff [OF n, of pos] by auto
      moreover have "pos < ?nb * BSIZE" using lt pm by (simp add: hdr)
      ultimately show ?thesis using c nl by (auto simp: content_def nth_append)
    next
      case True
      then have eq: "cbyte (img s'') as' pos = (if ?off \<le> pos \<and> pos < ?off + n then p ! (pos mod BSIZE - ?o) else img s' ! unat x ! (pos mod BSIZE))"
        using ad x blen nl pm in_chunk_iff [OF n, of pos] by (auto simp: cbyte_def s'' nth_poke)
      have d: "pos mod BSIZE - ?o = pos - ?off" if "?off \<le> pos" using True that by (simp add: modulo_nat_def)
      show ?thesis
      proof (cases "?off \<le> pos \<and> pos < ?off + n")
        case in_range: True
        then have "pos - ?off < n" by auto
        then show ?thesis using eq d nl in_range by (simp add: nth_append)
      next
        case out: False
        have "img s' ! unat x ! (pos mod BSIZE) = (if pos < ?off then c ! pos else 0)"
        proof (cases "?nb \<le> ?fbn")
          case new: True
          then have "?off = ?nb * BSIZE" using nblk_facts(3) by blast
          then have "?off \<le> pos" using True new by (metis le_add1 div_mult_mod_eq mult_le_mono1 order_trans)
          then show ?thesis using z new pm by (simp add: zeroes_def)
        next
          case old: False
          then have "img s' ! unat x = img s ! unat (addr (img s) as ?fbn)" using k x by (simp add: keeps_def)
          moreover have "pos < ?nb * BSIZE" using old True pm by (simp add: hdr)
          ultimately show ?thesis using c True by (auto simp: content_def cbyte_def)
        qed
        then show ?thesis using eq out nl by (auto simp: nth_append)
      qed
    qed
  qed
qed

definition holds :: "mkfs \<Rightarrow> uint list \<Rightarrow> bytes \<Rightarrow> bool" where
  "holds s as c \<longleftrightarrow> fstate s as (nblk (length c)) \<and> content (img s) as c"

text \<open>One round of the loop of \<open>iappend\<close>.\<close>

lemma iappend_loop_unfold:
  assumes "p \<noteq> []" and "n = chunk (length p) off"
  shows "iappend_loop p off din s =
    (if off div BSIZE < MAXFILE
     then bindE (file_block (off div BSIZE) din s) (\<lambda>(din, s, x). bindE (rsect x s) (\<lambda>buf.
          iappend_loop (drop n p) (off + n) din (wsect x (poke buf (off mod BSIZE) (take n p)) s)))
     else Inl (Panic ''assert''))"
proof -
  have "min (length p) ((off div BSIZE + 1) * BSIZE - off) = n" "off - off div BSIZE * BSIZE = off mod BSIZE"
    using assms(2) by (simp_all add: chunk_def hdr modulo_nat_def)
  then show ?thesis using assms(1) by (subst iappend_loop.simps) (simp add: Let_def)
qed

lemma loop_round:
  assumes h: "holds s (d_addrs din) c" and p: "p \<noteq> []" and n: "n = chunk (length p) (length c)" and lt: "length c div BSIZE < MAXFILE"
    and r: "file_block (length c div BSIZE) din s = Inr (din1, s1, x)" "rsect x s1 = Inr buf"
    and s2: "s2 = wsect x (poke buf (length c mod BSIZE) (take n p)) s1"
  shows "holds s2 (d_addrs din1) (c @ take n p)" "keeps s (d_addrs din) 0 s2 (d_addrs din1)" "din1 = din\<lparr>d_addrs := d_addrs din1\<rparr>"
    "freeblock s2 = freeblock s1"
proof -
  let ?fbn = "length c div BSIZE" and ?nb = "nblk (length c)"
  have f: "fstate s (d_addrs din) ?nb" "content (img s) (d_addrs din) c" using h by (auto simp: holds_def)
  have a: "allotted ?fbn s (d_addrs din) ?nb s1 (d_addrs din1) x" "din1 = din\<lparr>d_addrs := d_addrs din1\<rparr>"
    using file_block_allots [OF f(1) nblk_facts(2) lt r] by auto
  have l: "lay (img s1) (unat (freeblock s1)) (d_addrs din1) (max ?nb (Suc ?fbn))" "unat (freeblock s1) \<le> FSSIZE" "image s1"
    "x = addr (img s1) (d_addrs din1) ?fbn"
    using a(1) by (auto simp: allotted_def fstate_def)
  have "?fbn < max ?nb (Suc ?fbn)" by (simp add: less_max_iff_disj)
  from lay_bound [OF l(1) this] have xb: "unat x < FSSIZE" using l(2,4) by simp
  have e: "s2 = s1\<lparr>img := (img s1)[unat x := poke (img s1 ! unat x) (length c mod BSIZE) (take n p)]\<rparr>"
    using s2 wsect_ok [OF l(3) xb] rsect_ok [OF l(3) xb] r(2) by simp
  show "holds s2 (d_addrs din1) (c @ take n p)" "keeps s (d_addrs din) 0 s2 (d_addrs din1)"
    using content_round [OF f(2) p a(1) n e] by (auto simp: holds_def)
  show "din1 = din\<lparr>d_addrs := d_addrs din1\<rparr>" "freeblock s2 = freeblock s1" using a(2) e by simp_all
qed

lemma iappend_loop_appends:
  "iappend_loop p (length c) din s = Inr (din', off, s') \<Longrightarrow> holds s (d_addrs din) c \<Longrightarrow>
    holds s' (d_addrs din') (c @ p) \<and> keeps s (d_addrs din) 0 s' (d_addrs din') \<and> off = length (c @ p) \<and>
    din' = din\<lparr>d_addrs := d_addrs din'\<rparr>"
proof (induction "length p" arbitrary: p c din s rule: less_induct)
  case less
  show ?case
  proof (cases "p = []")
    case True
    then show ?thesis using less.prems by (auto simp: iappend_loop.simps keeps_refl)
  next
    case False
    define n where "n = chunk (length p) (length c)"
    have n: "0 < n" "n \<le> length p" using False chunk_pos [of "length p" "length c"] by (auto simp: n_def chunk_def)
    obtain din1 s1 x buf s2 where r: "length c div BSIZE < MAXFILE" "file_block (length c div BSIZE) din s = Inr (din1, s1, x)" "rsect x s1 = Inr buf"
      and s2: "s2 = wsect x (poke buf (length c mod BSIZE) (take n p)) s1" "iappend_loop (drop n p) (length c + n) din1 s2 = Inr (din', off, s')"
      using less.prems(1) unfolding iappend_loop_unfold [OF False n_def] by (auto split: if_splits)
    note h = loop_round [OF less.prems(2) False n_def r s2(1)]
    have "holds s' (d_addrs din') ((c @ take n p) @ drop n p) \<and> keeps s2 (d_addrs din1) 0 s' (d_addrs din') \<and>
        off = length ((c @ take n p) @ drop n p) \<and> din' = din1\<lparr>d_addrs := d_addrs din'\<rparr>"
      using n s2(2) h(1) by (intro less.hyps) (auto simp: min_absorb2)
    moreover from this h(3) have "din' = din\<lparr>d_addrs := d_addrs din'\<rparr>" by (cases din; cases din1; cases din') simp
    ultimately show ?thesis using keeps_trans [OF h(2), of 0 s' "d_addrs din'"] by simp
  qed
qed

section \<open>Inodes in the image\<close>

lemma peek_poke_inside: "off + length v \<le> length bs \<Longrightarrow> k + n \<le> length v \<Longrightarrow> peek n (poke bs off v) (off + k) = take n (drop k v)"
  by (simp add: peek_def poke_def)

lemma take_concat_le: "k < length as \<Longrightarrow> take 4 (drop (4 * k) (concat (map (le_bytes 4) as))) = le_bytes 4 (as ! k)"
proof (induction as arbitrary: k)
  case (Cons a as)
  then show ?case by (cases k) (simp_all add: add.commute)
qed simp

lemma length_concat_le: "length (concat (map (le_bytes 4) as)) = 4 * length as"
  by (induction as) simp_all

lemma length_enc_dinode: "length (d_addrs d) = NDIRECT + 1 \<Longrightarrow> length (enc_dinode d) = DINODE"
  by (simp add: enc_dinode_def length_concat_le hdr)

lemma dec_enc:
  assumes "length (d_addrs d) = NDIRECT + 1" "off + DINODE \<le> length buf"
  shows "dec_dinode (poke buf off (enc_dinode d)) off = d"
proof -
  have len: "length (enc_dinode d) = 64" "off + length (enc_dinode d) \<le> length buf" using length_enc_dinode [OF assms(1)] assms(2) by (simp_all add: hdr)
  have pk: "peek n (poke buf off (enc_dinode d)) (off + k) = take n (drop k (enc_dinode d))" if "k + n \<le> 64" for n k
    using peek_poke_inside [OF len(2)] that len(1) by simp
  have "peek32 (poke buf off (enc_dinode d)) (off + (12 + 4 * k)) = d_addrs d ! k" if "k < 13" for k
  proof -
    have "take 4 (drop (12 + 4 * k) (enc_dinode d)) = take 4 (drop (4 * k) (concat (map (le_bytes 4) (d_addrs d))))"
      by (simp add: enc_dinode_def)
    then show ?thesis using pk [of "12 + 4 * k" 4] that assms(1) by (simp add: peek32_def take_concat_le hdr)
  qed
  then have "map (\<lambda>k. peek32 (poke buf off (enc_dinode d)) (off + 12 + 4 * k)) [0..<NDIRECT + 1] = d_addrs d"
    using assms(1) by (intro nth_equalityI) (simp_all add: hdr add.assoc)
  moreover have "peek16 (poke buf off (enc_dinode d)) off = d_type d" "peek16 (poke buf off (enc_dinode d)) (off + 2) = d_major d"
    "peek16 (poke buf off (enc_dinode d)) (off + 4) = d_minor d" "peek16 (poke buf off (enc_dinode d)) (off + 6) = d_nlink d"
    "peek32 (poke buf off (enc_dinode d)) (off + 8) = d_size d"
    unfolding peek16_def peek32_def
    by (subst pk [where k = 0, simplified], simp, simp add: enc_dinode_def) (subst pk, simp, simp add: enc_dinode_def)+
  ultimately show ?thesis by (simp add: dec_dinode_def)
qed

lemma dec_other:
  assumes "off + length v \<le> length buf" "off' + DINODE \<le> off \<or> off + length v \<le> off'"
  shows "dec_dinode (poke buf off v) off' = dec_dinode buf off'"
  using assms by (auto simp: dec_dinode_def peek16_def peek32_def peek_poke_other hdr)

definition dino :: "bytes list \<Rightarrow> uint \<Rightarrow> dinode" where
  "dino M i = dec_dinode (M ! unat (iblock i)) (dinode_off i)"

lemma iblock_unat: "unat i < 208 \<Longrightarrow> unat (iblock i) = unat i div 16 + 32"
  by (simp add: iblock_def layout hdr unat_word_ariths(1) unat_div_distrib)

lemma dinode_off_le: "dinode_off i + DINODE \<le> BSIZE"
  by (simp add: dinode_off_def hdr)

lemma dinode_off_other: "unat i div 16 = unat j div 16 \<Longrightarrow> i \<noteq> j \<Longrightarrow> dinode_off i + DINODE \<le> dinode_off j \<or> dinode_off j + DINODE \<le> dinode_off i"
proof -
  assume "unat i div 16 = unat j div 16" "i \<noteq> j"
  then have "unat i mod 16 \<noteq> unat j mod 16" by (metis div_mult_mod_eq word_unat_eq_iff)
  then show ?thesis by (auto simp: dinode_off_def hdr)
qed

lemma rinode_ok: "image s \<Longrightarrow> unat i < 208 \<Longrightarrow> rinode i s = Inr (dino (img s) i)"
  using rsect_ok [of s "iblock i"] by (simp add: rinode_def dino_def iblock_unat hdr)

lemma winode_ok:
  assumes im: "image s" and i: "unat i < 208" and d: "length (d_addrs d) = NDIRECT + 1"
  shows "\<exists>M. winode i d s = Inr (s\<lparr>img := M\<rparr>) \<and> image (s\<lparr>img := M\<rparr>) \<and> (\<forall>b. b < 32 \<or> 45 \<le> b \<longrightarrow> M ! b = img s ! b) \<and>
    (\<forall>j. unat j < 208 \<longrightarrow> dino M j = (if j = i then d else dino (img s) j))"
proof -
  let ?b = "unat (iblock i)" and ?o = "dinode_off i"
  let ?buf = "img s ! ?b"
  let ?M = "(img s)[?b := poke ?buf ?o (enc_dinode d)]"
  have b: "?b = unat i div 16 + 32" "?b < FSSIZE" "32 \<le> ?b" "?b < 45" using iblock_unat [OF i] i by (simp_all add: hdr)
  have len: "length ?buf = BSIZE" "?b < length (img s)" using im b(2) by (auto simp: image_def)
  have el: "length (enc_dinode d) = DINODE" using length_enc_dinode [OF d] .
  have "winode i d s = Inr (s\<lparr>img := ?M\<rparr>)" using rsect_ok [OF im b(2)] wsect_ok [OF im b(2)] by (simp add: winode_def Let_def)
  moreover have "image (s\<lparr>img := ?M\<rparr>)" using im len el dinode_off_le [of i] by (intro image_update) auto
  moreover have "\<forall>c. c < 32 \<or> 45 \<le> c \<longrightarrow> ?M ! c = img s ! c" using b by auto
  moreover have "dino ?M j = (if j = i then d else dino (img s) j)" if j: "unat j < 208" for j
  proof (cases "unat (iblock j) = ?b")
    case True
    then have "unat i div 16 = unat j div 16" using b(1) iblock_unat [OF j] by simp
    then show ?thesis using True len el dinode_off_le [of i] dec_enc [OF d, of ?o ?buf] dec_other [of ?o "enc_dinode d" ?buf "dinode_off j"] dinode_off_other [of i j]
      by (auto simp: dino_def)
  next
    case False
    then show ?thesis by (auto simp: dino_def)
  qed
  ultimately show ?thesis by blast
qed

lemma holds_cong:
  assumes h: "holds s as c" and b: "\<And>b. b \<in> own (img s) as \<Longrightarrow> img s' ! b = img s ! b" and s': "image s'" "unused_zero s'"
    "unat (freeblock s) \<le> unat (freeblock s')" "unat (freeblock s') \<le> FSSIZE"
  shows "holds s' as c" "own (img s') as = own (img s) as"
proof -
  have l: "lay (img s) (unat (freeblock s)) as (nblk (length c))" and fb: "nmeta \<le> unat (freeblock s)" using h by (auto simp: holds_def fstate_def)
  have k: "addr (img s') as = addr (img s) as" "own (img s') as = own (img s) as" "lay (img s') (unat (freeblock s')) as (nblk (length c))"
    using lay_cong [of "img s" as "img s'", OF _ s'(3)] b l by blast+
  show "own (img s') as = own (img s) as" using k(2) .
  have "cbyte (img s') as pos = cbyte (img s) as pos" if "pos < nblk (length c) * BSIZE" for pos
  proof -
    have "pos div BSIZE < nblk (length c)" using block_of [OF that] .
    then have "unat (addr (img s) as (pos div BSIZE)) \<in> own (img s) as" using l by (intro own_addr) (auto simp: lay_def)
    then show ?thesis using b k(1) by (simp add: cbyte_def)
  qed
  then have "content (img s') as c" using h by (simp add: holds_def content_def)
  then show "holds s' as c" using k(3) s' fb by (simp add: holds_def fstate_def)
qed

lemma holds_empty:
  assumes "image s" "unused_zero s" "nmeta \<le> unat (freeblock s)" "unat (freeblock s) \<le> FSSIZE"
  shows "holds s (replicate (NDIRECT + 1) 0) []" "own (img s) (replicate (NDIRECT + 1) 0) = {}"
proof -
  define z where "z = replicate (NDIRECT + 1) (0 :: uint)"
  have z: "length z = NDIRECT + 1" "k \<le> NDIRECT \<Longrightarrow> z ! k = 0" for k
    unfolding z_def by (simp_all only: length_replicate) (metis Suc_eq_plus1 less_Suc_eq_le nth_replicate)
  have a: "addr (img s) z bn = 0" for bn by (simp add: addr_def z(2))
  have o': "own (img s) z = {}" using a z(2) unfolding own_def by auto
  have "nblk 0 = 0" by (simp add: nblk_def hdr)
  then have "holds s z []" using assms a o' z(1) by (simp add: holds_def fstate_def content_def lay_def)
  then show "holds s (replicate (NDIRECT + 1) 0) []" "own (img s) (replicate (NDIRECT + 1) 0) = {}" using o' unfolding z_def by blast+
qed

section \<open>The whole image\<close>

text \<open>Inode \<open>i + 1\<close> is a file of the type and contents of \<open>fs ! i\<close>; no block belongs to two files.\<close>

abbreviation inum_of :: "nat \<Rightarrow> uint" where
  "inum_of i \<equiv> of_nat (Suc i)"

definition disk_ok :: "mkfs \<Rightarrow> (ushort \<times> bytes) list \<Rightarrow> bool" where
  "disk_ok s fs \<longleftrightarrow> image s \<and> unused_zero s \<and> nmeta \<le> unat (freeblock s) \<and> unat (freeblock s) \<le> FSSIZE \<and>
     freeinode s = inum_of (length fs) \<and> length fs < 208 \<and> img s ! 1 = poke zeroes 0 (enc_sb mk_sb) \<and> img s ! 2 = zeroes \<and>
     (\<forall>i<length fs. d_type (dino (img s) (inum_of i)) = fst (fs ! i) \<and> d_nlink (dino (img s) (inum_of i)) = 1 \<and>
        d_size (dino (img s) (inum_of i)) = of_nat (length (snd (fs ! i))) \<and> holds s (d_addrs (dino (img s) (inum_of i))) (snd (fs ! i))) \<and>
     (\<forall>i<length fs. \<forall>j<length fs. i \<noteq> j \<longrightarrow>
        own (img s) (d_addrs (dino (img s) (inum_of i))) \<inter> own (img s) (d_addrs (dino (img s) (inum_of j))) = {})"

lemma inum_unat: "i < 208 \<Longrightarrow> unat (of_nat i :: uint) = i"
  by (simp add: unat_of_nat32)

lemma inum_eq: "i < 207 \<Longrightarrow> j < 207 \<Longrightarrow> inum_of i = inum_of j \<longleftrightarrow> i = j"
proof -
  assume "i < 207" "j < 207"
  then have "unat (inum_of i) = Suc i" "unat (inum_of j) = Suc j" by (intro inum_unat; simp)+
  then show ?thesis by (metis nat.inject)
qed

lemma holds_addrs: "holds s as c \<Longrightarrow> length as = NDIRECT + 1 \<and> length c \<le> MAXFILE * BSIZE \<and> own (img s) as \<subseteq> {nmeta..<unat (freeblock s)}"
proof -
  assume "holds s as c"
  then have l: "lay (img s) (unat (freeblock s)) as (nblk (length c))" by (simp add: holds_def fstate_def)
  then have "nblk (length c) \<le> MAXFILE" by (simp add: lay_def)
  then have "nblk (length c) * BSIZE \<le> MAXFILE * BSIZE" by (rule mult_le_mono1)
  with nblk_facts(1) have "length c \<le> MAXFILE * BSIZE" by (rule order_trans)
  then show ?thesis using l by (simp add: lay_def)
qed

text \<open>Writing an inode changes that inode only.\<close>

lemma disk_winode:
  assumes im: "image s" and z: "unused_zero s" and fb: "nmeta \<le> unat (freeblock s)" "unat (freeblock s) \<le> FSSIZE"
    and i: "unat i < 208" and d: "length (d_addrs d) = NDIRECT + 1"
  shows "\<exists>s'. winode i d s = Inr s' \<and> image s' \<and> unused_zero s' \<and> freeblock s' = freeblock s \<and> freeinode s' = freeinode s \<and>
    (\<forall>b. b < 32 \<or> 45 \<le> b \<longrightarrow> img s' ! b = img s ! b) \<and>
    (\<forall>j. unat j < 208 \<longrightarrow> dino (img s') j = (if j = i then d else dino (img s) j)) \<and>
    (\<forall>as c. holds s as c \<longrightarrow> holds s' as c \<and> own (img s') as = own (img s) as)"
proof -
  obtain M where M: "winode i d s = Inr (s\<lparr>img := M\<rparr>)" "image (s\<lparr>img := M\<rparr>)" "\<forall>b. b < 32 \<or> 45 \<le> b \<longrightarrow> M ! b = img s ! b"
    "\<forall>j. unat j < 208 \<longrightarrow> dino M j = (if j = i then d else dino (img s) j)"
    using winode_ok [OF im i d] by blast
  let ?s = "s\<lparr>img := M\<rparr>"
  have u: "unused_zero ?s" using z M(3) fb(1) layout(1) by (auto simp: unused_zero_def)
  have "holds ?s as c \<and> own (img ?s) as = own (img s) as" if "holds s as c" for as c
  proof -
    have "img ?s ! b = img s ! b" if "b \<in> own (img s) as" for b
      using holds_addrs [OF \<open>holds s as c\<close>] that M(3) layout(1) by auto
    then show ?thesis using holds_cong [OF that, of ?s] M(2) u fb by simp
  qed
  then show ?thesis using M u by (intro exI [of _ ?s]) simp
qed

lemma disk_winode_Inr:
  assumes s: "image s" "unused_zero s" "nmeta \<le> unat (freeblock s)" "unat (freeblock s) \<le> FSSIZE"
    and i: "unat i < 208" and d: "length (d_addrs d) = NDIRECT + 1" and w: "winode i d s = Inr s'"
  shows "image s'" "unused_zero s'" "freeblock s' = freeblock s" "freeinode s' = freeinode s" "b < 32 \<or> 45 \<le> b \<Longrightarrow> img s' ! b = img s ! b"
    "unat j < 208 \<Longrightarrow> dino (img s') j = (if j = i then d else dino (img s) j)"
    "holds s as c \<Longrightarrow> holds s' as c \<and> own (img s') as = own (img s) as"
proof -
  obtain s2 where A: "winode i d s = Inr s2" "image s2" "unused_zero s2" "freeblock s2 = freeblock s" "freeinode s2 = freeinode s"
    "\<forall>b. b < 32 \<or> 45 \<le> b \<longrightarrow> img s2 ! b = img s ! b" "\<forall>j. unat j < 208 \<longrightarrow> dino (img s2) j = (if j = i then d else dino (img s) j)"
    "\<forall>as c. holds s as c \<longrightarrow> holds s2 as c \<and> own (img s2) as = own (img s) as"
    using disk_winode [OF s i d] by blast
  have "s2 = s'" using A(1) w by simp
  then show "image s'" "unused_zero s'" "freeblock s' = freeblock s" "freeinode s' = freeinode s" "b < 32 \<or> 45 \<le> b \<Longrightarrow> img s' ! b = img s ! b"
    "unat j < 208 \<Longrightarrow> dino (img s') j = (if j = i then d else dino (img s) j)"
    "holds s as c \<Longrightarrow> holds s' as c \<and> own (img s') as = own (img s) as"
    using A by blast+
qed

lemma ialloc_disk:
  assumes d: "disk_ok s fs" and n: "length fs < 207"
  shows "\<exists>s'. Mkfs.ialloc t s = Inr (s', inum_of (length fs)) \<and> disk_ok s' (fs @ [(t, [])])"
proof -
  let ?i = "inum_of (length fs)" and ?s = "s\<lparr>freeinode := freeinode s + 1\<rparr>"
  let ?d = "\<lparr>d_type = t, d_major = 0, d_minor = 0, d_nlink = 1, d_size = 0, d_addrs = replicate (NDIRECT + 1) 0\<rparr>"
  have D: "image s" "unused_zero s" "nmeta \<le> unat (freeblock s)" "unat (freeblock s) \<le> FSSIZE" "freeinode s = ?i" using d by (auto simp: disk_ok_def)
  have D': "image ?s" "unused_zero ?s" "nmeta \<le> unat (freeblock ?s)" "unat (freeblock ?s) \<le> FSSIZE" using D by (auto simp: unused_zero_def)
  have iu: "unat ?i < 208" using inum_unat [of "Suc (length fs)"] n by simp
  have len: "length (d_addrs ?d) = NDIRECT + 1" by simp
  obtain s' where w: "winode ?i ?d ?s = Inr s'" "image s'" "unused_zero s'" "freeblock s' = freeblock ?s" "freeinode s' = freeinode ?s"
    "\<forall>b. b < 32 \<or> 45 \<le> b \<longrightarrow> img s' ! b = img ?s ! b" "\<forall>j. unat j < 208 \<longrightarrow> dino (img s') j = (if j = ?i then ?d else dino (img ?s) j)"
    "\<forall>as c. holds ?s as c \<longrightarrow> holds s' as c \<and> own (img s') as = own (img ?s) as"
    using disk_winode [OF D' iu len] by blast
  have hs: "holds ?s as c \<longleftrightarrow> holds s as c" for as c by (simp add: holds_def fstate_def unused_zero_def)
  have old: "dino (img s') (inum_of i) = dino (img s) (inum_of i)" if "i < length fs" for i
    using w(7) that n inum_eq [of i "length fs"] inum_unat [of "Suc i"] by simp
  have new: "dino (img s') ?i = ?d" using w(7) iu by simp
  have h: "holds s' (d_addrs (dino (img s) (inum_of i))) (snd (fs ! i))"
    "own (img s') (d_addrs (dino (img s) (inum_of i))) = own (img s) (d_addrs (dino (img s) (inum_of i)))" if "i < length fs" for i
  proof -
    have "holds s (d_addrs (dino (img s) (inum_of i))) (snd (fs ! i))" using d that by (simp add: disk_ok_def)
    then show "holds s' (d_addrs (dino (img s) (inum_of i))) (snd (fs ! i))"
      "own (img s') (d_addrs (dino (img s) (inum_of i))) = own (img s) (d_addrs (dino (img s) (inum_of i)))" using w(8) hs by simp_all
  qed
  have e: "holds s' (d_addrs ?d) []" "own (img s') (d_addrs ?d) = {}"
    using holds_empty [of s'] w(2-4) D by simp_all
  have "Mkfs.ialloc t s = Inr (s', ?i)" using w(1) D(5) by (simp add: Mkfs.ialloc_def Let_def)
  moreover have "disk_ok s' (fs @ [(t, [])])"
    unfolding disk_ok_def
  proof (intro conjI allI impI)
    fix i j assume "i < length (fs @ [(t, [])])" "j < length (fs @ [(t, [])])" "i \<noteq> j"
    then show "own (img s') (d_addrs (dino (img s') (inum_of i))) \<inter> own (img s') (d_addrs (dino (img s') (inum_of j))) = {}"
      using d old new h(2) e(2) by (cases "i = length fs"; cases "j = length fs") (auto simp: disk_ok_def)
  next
    fix i assume i: "i < length (fs @ [(t, [])])"
    have "d_type (dino (img s') (inum_of i)) = fst ((fs @ [(t, [])]) ! i) \<and> d_nlink (dino (img s') (inum_of i)) = 1 \<and>
        d_size (dino (img s') (inum_of i)) = of_nat (length (snd ((fs @ [(t, [])]) ! i))) \<and> holds s' (d_addrs (dino (img s') (inum_of i))) (snd ((fs @ [(t, [])]) ! i))"
      using d old new h(1) e(1) i by (cases "i = length fs") (auto simp: disk_ok_def nth_append)
    then show "d_type (dino (img s') (inum_of i)) = fst ((fs @ [(t, [])]) ! i)" "d_nlink (dino (img s') (inum_of i)) = 1"
        "d_size (dino (img s') (inum_of i)) = of_nat (length (snd ((fs @ [(t, [])]) ! i)))" "holds s' (d_addrs (dino (img s') (inum_of i))) (snd ((fs @ [(t, [])]) ! i))"
      by blast+
  qed (use w d n in \<open>auto simp: disk_ok_def\<close>)
  ultimately show ?thesis by blast
qed

text \<open>A state in which only file \<open>i\<close> has changed, and has taken new blocks from the free ones.\<close>

lemma disk_replace:
  assumes d: "disk_ok s fs" and i: "i < length fs"
    and s': "image s'" "unused_zero s'" "unat (freeblock s) \<le> unat (freeblock s')" "unat (freeblock s') \<le> FSSIZE" "freeinode s' = freeinode s"
    and low: "img s' ! 1 = img s ! 1" "img s' ! 2 = img s ! 2"
    and dn: "\<And>j. j < length fs \<Longrightarrow> dino (img s') (inum_of j) = (if j = i then d' else dino (img s) (inum_of j))"
    and new: "holds s' (d_addrs d') c" "d_type d' = t" "d_nlink d' = 1" "d_size d' = of_nat (length c)"
    and own: "own (img s') (d_addrs d') \<subseteq> own (img s) (d_addrs (dino (img s) (inum_of i))) \<union> {unat (freeblock s)..<unat (freeblock s')}"
    and same: "\<And>b. nmeta \<le> b \<Longrightarrow> b < unat (freeblock s) \<Longrightarrow> b \<notin> own (img s) (d_addrs (dino (img s) (inum_of i))) \<Longrightarrow> img s' ! b = img s ! b"
  shows "disk_ok s' (fs[i := (t, c)])"
proof -
  let ?as = "\<lambda>j. d_addrs (dino (img s) (inum_of j))"
  have H: "holds s (?as j) (snd (fs ! j))" if "j < length fs" for j using d that by (simp add: disk_ok_def)
  have sub: "own (img s) (?as j) \<subseteq> {nmeta..<unat (freeblock s)}" if "j < length fs" for j using holds_addrs [OF H [OF that]] by blast
  have disj: "own (img s) (?as j) \<inter> own (img s) (?as k) = {}" if "j < length fs" "k < length fs" "j \<noteq> k" for j k using d that by (simp add: disk_ok_def)
  have other: "holds s' (?as j) (snd (fs ! j)) \<and> own (img s') (?as j) = own (img s) (?as j)" if j: "j < length fs" "j \<noteq> i" for j
  proof -
    have "img s' ! b = img s ! b" if b: "b \<in> own (img s) (?as j)" for b
    proof (rule same)
      show "nmeta \<le> b" "b < unat (freeblock s)" using subsetD [OF sub [OF j(1)] b] by simp_all
      show "b \<notin> own (img s) (?as i)" using disj [OF j(1) i j(2)] b by blast
    qed
    then show ?thesis using holds_cong [OF H [OF j(1)], of s'] s' by simp
  qed
  have sep: "own (img s') (d_addrs d') \<inter> own (img s') (?as j) = {}" if "j < length fs" "j \<noteq> i" for j
    using own other [OF that] sub [OF that(1)] disj [OF that(1) i that(2)] by fastforce
  have pair: "own (img s') (d_addrs (dino (img s') (inum_of j))) \<inter> own (img s') (d_addrs (dino (img s') (inum_of k))) = {}"
    if jk: "j < length fs" "k < length fs" "j \<noteq> k" for j k
  proof -
    consider "j = i" "k \<noteq> i" | "k = i" "j \<noteq> i" | "j \<noteq> i" "k \<noteq> i" using jk by blast
    then show ?thesis
    proof cases
      case 1
      then show ?thesis using dn [OF jk(1)] dn [OF jk(2)] sep [OF jk(2)] by simp
    next
      case 2
      then show ?thesis using dn [OF jk(1)] dn [OF jk(2)] sep [OF jk(1)] by (simp add: Int_commute)
    next
      case 3
      then show ?thesis using dn [OF jk(1)] dn [OF jk(2)] other [OF jk(1)] other [OF jk(2)] disj [OF jk] by simp
    qed
  qed
  have each: "d_type (dino (img s') (inum_of j)) = fst (fs[i := (t, c)] ! j) \<and> d_nlink (dino (img s') (inum_of j)) = 1 \<and>
      d_size (dino (img s') (inum_of j)) = of_nat (length (snd (fs[i := (t, c)] ! j))) \<and> holds s' (d_addrs (dino (img s') (inum_of j))) (snd (fs[i := (t, c)] ! j))"
    if "j < length fs" for j
    using dn [OF that] other [OF that] new d that by (cases "j = i") (auto simp: disk_ok_def)
  show ?thesis unfolding disk_ok_def length_list_update using d s' low pair each by (auto simp: disk_ok_def)
qed

lemma iappend_disk:
  assumes d: "disk_ok s fs" and i: "i < length fs" and r: "iappend (inum_of i) p s = Inr s'"
  shows "disk_ok s' (fs[i := (fst (fs ! i), snd (fs ! i) @ p)])"
proof -
  let ?c = "snd (fs ! i)" and ?din = "dino (img s) (inum_of i)"
  have n: "length fs < 208" and D: "image s" "nmeta \<le> unat (freeblock s)" using d by (auto simp: disk_ok_def)
  have H: "holds s (d_addrs ?din) ?c" "d_type ?din = fst (fs ! i)" "d_nlink ?din = 1" "d_size ?din = of_nat (length ?c)" using d i by (auto simp: disk_ok_def)
  have iu: "unat (inum_of j) < 208" if "j < length fs" for j using inum_unat [of "Suc j"] that n by simp
  have "length ?c \<le> MAXFILE * BSIZE" and ownd: "own (img s) (d_addrs ?din) \<subseteq> {nmeta..<unat (freeblock s)}" using holds_addrs [OF H(1)] by blast+
  then have "length ?c < 2 ^ 32" by (simp add: hdr)
  then have sz: "unat (d_size ?din) = length ?c" using H(4) unat_of_nat32 [of "length ?c"] by simp
  obtain din1 off s1 where l: "iappend_loop p (length ?c) ?din s = Inr (din1, off, s1)" "winode (inum_of i) (din1\<lparr>d_size := of_nat off\<rparr>) s1 = Inr s'"
    using r rinode_ok [OF D(1) iu [OF i]] sz by (auto simp: iappend_def)
  have L: "holds s1 (d_addrs din1) (?c @ p)" "keeps s (d_addrs ?din) 0 s1 (d_addrs din1)" "off = length (?c @ p)" "din1 = ?din\<lparr>d_addrs := d_addrs din1\<rparr>"
    using iappend_loop_appends [OF l(1) H(1)] by auto
  have D1: "image s1" "unused_zero s1" "nmeta \<le> unat (freeblock s1)" "unat (freeblock s1) \<le> FSSIZE" using L(1) by (auto simp: holds_def fstate_def)
  have k: "img s1 ! b = img s ! b" if "b < unat (freeblock s)" "b \<notin> own (img s) (d_addrs ?din)" for b using L(2) that by (simp add: keeps_def)
  have low: "img s1 ! b = img s ! b" if "b < nmeta" for b
  proof (rule k)
    show "b < unat (freeblock s)" using that D(2) by simp
    show "b \<notin> own (img s) (d_addrs ?din)" using subsetD [OF ownd, of b] that by auto
  qed
  have dn: "dino (img s1) (inum_of j) = dino (img s) (inum_of j)" if "j < length fs" for j
    using low [of "unat (iblock (inum_of j))"] iblock_unat [OF iu [OF that]] iu [OF that] layout(1) by (simp add: dino_def)
  let ?d = "din1\<lparr>d_size := of_nat off\<rparr>"
  have len: "length (d_addrs ?d) = NDIRECT + 1" using holds_addrs [OF L(1)] by simp
  note W = disk_winode_Inr [OF D1 iu [OF i] len l(2)]
  have ty: "d_type din1 = d_type ?din" "d_nlink din1 = d_nlink ?din" using arg_cong [OF L(4), of d_type] arg_cong [OF L(4), of d_nlink] by simp_all
  show ?thesis
  proof (rule disk_replace [OF d i W(1,2), where d' = ?d])
    show "dino (img s') (inum_of j) = (if j = i then ?d else dino (img s) (inum_of j))" if "j < length fs" for j
      using W(6) iu [OF that] dn [OF that] inum_eq [of j i] that i n by simp
    show "img s' ! b = img s ! b" if "nmeta \<le> b" "b < unat (freeblock s)" "b \<notin> own (img s) (d_addrs ?din)" for b
      using W(5) [of b] k [OF that(2,3)] that(1) layout(1) by simp
    show "own (img s') (d_addrs ?d) \<subseteq> own (img s) (d_addrs ?din) \<union> {unat (freeblock s)..<unat (freeblock s')}"
      using W(3) W(7) [OF L(1)] L(2) by (simp add: keeps_def)
  qed (use W L D1 H ty low layout(1) in \<open>auto simp: keeps_def\<close>)
qed

section \<open>What main builds\<close>

lemma zeroing: "img s = [] \<Longrightarrow> n \<le> FSSIZE \<Longrightarrow> foldl (\<lambda>s i. wsect (of_nat i) zeroes s) s [0..<n] = s\<lparr>img := replicate n zeroes\<rparr>"
proof (induction n)
  case 0
  then show ?case by simp
next
  case (Suc n)
  have "sector (of_nat n) = n" using unat_small [of n] Suc.prems(2) by simp
  then show ?case using Suc by (simp add: wsect_def flip: replicate_append_same)
qed

lemma length_enc_sb: "length (enc_sb b) = 32"
  by (simp add: enc_sb_def)

lemma format_ok: "disk_ok format []"
proof -
  let ?s = "\<lparr>img = replicate FSSIZE zeroes, freeinode = 1, freeblock = of_nat nmeta\<rparr> :: mkfs"
  have z: "length zeroes = BSIZE" by (simp add: zeroes_def)
  have im: "image ?s" using z by (simp add: image_def)
  have fb: "unat (of_nat nmeta :: uint) = 46" by (simp add: layout)
  have "format = wsect 1 (poke zeroes 0 (enc_sb mk_sb)) ?s" unfolding format_def by (simp add: zeroing)
  then have f: "format = ?s\<lparr>img := (replicate FSSIZE zeroes)[1 := poke zeroes 0 (enc_sb mk_sb)]\<rparr>"
    using wsect_ok [OF im, of 1] by (simp add: hdr)
  have "image format" unfolding f using image_update [OF im, of "poke zeroes 0 (enc_sb mk_sb)" 1] z by (simp add: length_enc_sb hdr)
  moreover have "img format = (replicate FSSIZE zeroes)[1 := poke zeroes 0 (enc_sb mk_sb)]" "freeinode format = 1" "freeblock format = of_nat nmeta"
    by (simp_all add: f)
  ultimately show ?thesis using fb by (auto simp: disk_ok_def unused_zero_def layout(1) FSSIZE_def)
qed

lemma new_file_disk:
  assumes d: "disk_ok s ((T_DIR, r) # gs)" and n: "length gs < 206" and f: "new_file 1 name s = Inr (s', inum)"
  shows "disk_ok s' ((T_DIR, r @ dirent inum name) # gs @ [(T_FILE, [])])" "inum = of_nat (length gs + 2)"
proof -
  obtain s1 where a: "Mkfs.ialloc T_FILE s = Inr (s1, inum_of (length ((T_DIR, r) # gs)))" "disk_ok s1 (((T_DIR, r) # gs) @ [(T_FILE, [])])"
    using ialloc_disk [OF d, of T_FILE] n by auto
  show inum: "inum = of_nat (length gs + 2)" using f a(1) by (auto simp: new_file_def)
  have "iappend (inum_of 0) (dirent inum name) s1 = Inr s'" using f a(1) by (auto simp: new_file_def)
  from iappend_disk [OF a(2) _ this] show "disk_ok s' ((T_DIR, r @ dirent inum name) # gs @ [(T_FILE, [])])" by simp
qed

lemma append_all_disk:
  "disk_ok s fs \<Longrightarrow> i < length fs \<Longrightarrow> append_all (inum_of i) cs s = Inr s' \<Longrightarrow> disk_ok s' (fs[i := (fst (fs ! i), snd (fs ! i) @ concat cs)])"
proof (induction cs arbitrary: s fs)
  case (Cons c cs)
  obtain s1 where a: "iappend (inum_of i) c s = Inr s1" "append_all (inum_of i) cs s1 = Inr s'" using Cons.prems(3) by auto
  show ?case using Cons.IH [OF iappend_disk [OF Cons.prems(1,2) a(1)] _ a(2)] Cons.prems(2) by simp
qed simp

primrec entries :: "nat \<Rightarrow> (bytes \<times> bytes list option) list \<Rightarrow> bytes list" where
  "entries n [] = []"
| "entries n (f # fs) = dirent (of_nat n) (shortname (fst f)) # entries (Suc n) fs"

definition stored :: "bytes \<times> bytes list option \<Rightarrow> ushort \<times> bytes" where
  "stored f = (T_FILE, concat (the (snd f)))"

lemma add_files_disk:
  "disk_ok s ((T_DIR, r) # gs) \<Longrightarrow> length gs + length fs < 207 \<Longrightarrow> add_files 1 fs s = Inr s' \<Longrightarrow>
    disk_ok s' ((T_DIR, r @ concat (entries (length gs + 2) fs)) # gs @ map stored fs)"
proof (induction fs arbitrary: s r gs)
  case (Cons f fs)
  obtain a c where f: "f = (a, c)" by (cases f)
  obtain cs s1 inum s2 where g: "c = Some cs" "new_file 1 (shortname a) s = Inr (s1, inum)" "append_all inum cs s1 = Inr s2" "add_files 1 fs s2 = Inr s'"
    using Cons.prems(3) f by (auto split: if_splits option.splits)
  have n: "length gs < 206" using Cons.prems(2) by simp
  have d1: "disk_ok s1 ((T_DIR, r @ dirent inum (shortname a)) # gs @ [(T_FILE, [])])" and inum: "inum = inum_of (Suc (length gs))"
    using new_file_disk [OF Cons.prems(1) n g(2)] by simp_all
  have "disk_ok s2 ((T_DIR, r @ dirent inum (shortname a)) # gs @ [stored f])"
    using append_all_disk [OF d1, of "Suc (length gs)" cs s2] g(1,3) inum f by (simp add: stored_def)
  from Cons.IH [OF this _ g(4)] show ?case using Cons.prems(2) f inum by simp
qed simp

lemma length_dirent: "length (dirent i n) = DIRENT"
  by (simp add: dirent_def hdr)

lemma length_entries: "length (concat (entries n fs)) = DIRENT * length fs"
  by (induction fs arbitrary: n) (simp_all add: length_dirent)

text \<open>The size of the root directory is rounded up to whole blocks: unless it fills its blocks, its contents are padded with zeroes.\<close>

lemma content_pad:
  assumes "nblk (length c) * BSIZE = length (c @ replicate k 0)"
  shows "nblk (length (c @ replicate k 0)) = nblk (length c)" "content M as c \<Longrightarrow> content M as (c @ replicate k 0)"
proof -
  have "nblk (nblk n * BSIZE) = nblk n" for n by (simp add: nblk_def hdr)
  then show n: "nblk (length (c @ replicate k 0)) = nblk (length c)" using assms by (metis)
  show "content M as (c @ replicate k 0)" if "content M as c" using that assms n by (auto simp: content_def nth_append)
qed

lemma fix_root_disk:
  assumes d: "disk_ok s ((T_DIR, r) # gs)" and m: "length r mod BSIZE \<noteq> 0" and f: "fix_root 1 s = Inr s'"
  shows "\<exists>k. length r + k = (length r div BSIZE + 1) * BSIZE \<and> disk_ok s' ((T_DIR, r @ replicate k 0) # gs)" "freeblock s' = freeblock s"
proof -
  let ?din = "dino (img s) 1" and ?n = "(length r div BSIZE + 1) * BSIZE"
  define k where "k = ?n - length r"
  have k: "length r + k = ?n" by (simp add: k_def hdr)
  have D: "image s" "unused_zero s" "nmeta \<le> unat (freeblock s)" "unat (freeblock s) \<le> FSSIZE" "length gs < 207" using d by (auto simp: disk_ok_def)
  have H: "holds s (d_addrs ?din) r" "d_type ?din = T_DIR" "d_nlink ?din = 1" "d_size ?din = of_nat (length r)" using d by (auto simp: disk_ok_def)
  have "length r \<le> MAXFILE * BSIZE" and len: "length (d_addrs ?din) = NDIRECT + 1" using holds_addrs [OF H(1)] by blast+
  then have rl: "length r < 2 ^ 20" by (simp add: hdr)
  have "unat (of_nat (length r) :: uint) = length r" using rl by (intro unat_of_nat32) simp
  then have "unat ((of_nat (length r) div 1024 + 1) * 1024 :: uint) = ?n"
    using rl by (simp add: unat_word_ariths unat_div_distrib hdr)
  moreover have "unat (of_nat ?n :: uint) = ?n" using rl by (intro unat_of_nat32) (simp add: hdr)
  ultimately have sz: "((of_nat (length r) div of_nat BSIZE + 1) * of_nat BSIZE :: uint) = of_nat ?n"
    unfolding word_unat_eq_iff BSIZE_def by simp
  let ?d = "?din\<lparr>d_size := of_nat ?n\<rparr>"
  have w: "winode 1 ?d s = Inr s'" using f rinode_ok [OF D(1), of 1] H(4) sz by (simp add: fix_root_def Let_def)
  have len': "length (d_addrs ?d) = NDIRECT + 1" and one: "unat (1 :: uint) < 208" using len by simp_all
  note W = disk_winode_Inr [OF D(1-4) one len' w]
  show "freeblock s' = freeblock s" by (rule W(3))
  have nb: "nblk (length r) * BSIZE = length (r @ replicate k (0 :: uchar))" using nblk_partial [OF m] k by simp
  have "holds s' (d_addrs ?d) (r @ replicate k 0)" using W(7) [OF H(1)] content_pad [OF nb] by (simp add: holds_def)
  then have "disk_ok s' (((T_DIR, r) # gs)[0 := (T_DIR, r @ replicate k 0)])"
  proof (rule disk_replace [OF d _ W(1,2), where i = 0, rotated 7])
    show "dino (img s') (inum_of j) = (if j = 0 then ?d else dino (img s) (inum_of j))" if "j < length ((T_DIR, r) # gs)" for j
      using W(6) [of "inum_of j"] inum_unat [of "Suc j"] inum_eq [of j 0] that D(5) by simp
  qed (use W D H k layout(1) in auto)
  then show "\<exists>k. length r + k = ?n \<and> disk_ok s' ((T_DIR, r @ replicate k 0) # gs)" using k by auto
qed

definition root :: "(bytes \<times> bytes list option) list \<Rightarrow> bytes" where
  "root fs = dirent 1 (bytes_of ''.'') @ dirent 1 (bytes_of ''..'') @ concat (entries 2 fs) @ dirent (of_nat (length fs + 2)) (bytes_of ''cache.bin'')"

lemma length_root: "length (root fs) = DIRENT * (length fs + 3)"
  by (simp add: root_def length_dirent length_entries algebra_simps)

lemma length_mark: "length (mark n b) = length b"
  by (induction n) (simp_all add: Let_def)

lemma balloc_disk:
  assumes d: "disk_ok s (g # gs)" and r: "Mkfs.balloc (unat (freeblock s)) s = Inr s'"
  shows "disk_ok s' (g # gs)" "img s' ! 45 = mark (unat (freeblock s)) zeroes" "freeblock s' = freeblock s"
proof -
  let ?buf = "mark (unat (freeblock s)) zeroes" and ?as = "d_addrs (dino (img s) 1)"
  have D: "image s" "unused_zero s" "nmeta \<le> unat (freeblock s)" "unat (freeblock s) \<le> FSSIZE" "length gs < 207" using d by (auto simp: disk_ok_def)
  have H: "holds s ?as (snd g)" using d by (auto simp: disk_ok_def)
  have s': "s' = s\<lparr>img := (img s)[45 := ?buf]\<rparr>"
    using r wsect_ok [OF D(1), of 45 ?buf] layout(3) by (auto simp: Mkfs.balloc_def hdr split: if_splits)
  have im: "image s'" unfolding s' using D(1) by (intro image_update) (simp_all add: length_mark zeroes_def)
  show "img s' ! 45 = ?buf" "freeblock s' = freeblock s" using D(1) by (simp_all add: s' image_def hdr)
  have uz: "unused_zero s'" using D(2,3) layout(1) by (auto simp: s' unused_zero_def)
  have oth: "img s' ! b = img s ! b" if "b \<noteq> 45" for b using that by (simp add: s')
  have "own (img s) ?as \<subseteq> {nmeta..<unat (freeblock s)}" using holds_addrs [OF H] by blast
  then have same: "img s' ! b = img s ! b" if "b \<in> own (img s) ?as" for b using that oth [of b] layout(1) by auto
  have le: "unat (freeblock s) \<le> unat (freeblock s')" "unat (freeblock s') \<le> FSSIZE" using D(4) by (simp_all add: s')
  have h': "holds s' ?as (snd g)" "own (img s') ?as = own (img s) ?as"
    using holds_cong [OF H same im uz le] by blast+
  have dn: "dino (img s') (inum_of j) = dino (img s) (inum_of j)" if "j < length (g # gs)" for j
  proof -
    have "unat (inum_of j) < 208" using inum_unat [of "Suc j"] that D(5) by simp
    then show ?thesis using iblock_unat [of "inum_of j"] oth [of "unat (iblock (inum_of j))"] by (simp add: dino_def)
  qed
  have "disk_ok s' ((g # gs)[0 := (fst g, snd g)])"
  proof (rule disk_replace [OF d _ im uz le, where d' = "dino (img s) 1"])
    show "dino (img s') (inum_of j) = (if j = 0 then dino (img s) 1 else dino (img s) (inum_of j))" if "j < length (g # gs)" for j
      using dn [OF that] by simp
    show "d_type (dino (img s) 1) = fst g" "d_nlink (dino (img s) 1) = 1" "d_size (dino (img s) 1) = of_nat (length (snd g))" using d by (auto simp: disk_ok_def)
    show "own (img s') ?as \<subseteq> own (img s) (d_addrs (dino (img s) (inum_of 0))) \<union> {unat (freeblock s)..<unat (freeblock s')}" using h'(2) by simp
  qed (use h'(1) oth layout(1) in \<open>auto simp: s'\<close>)
  then show "disk_ok s' (g # gs)" by simp
qed

lemma main_disk:
  assumes m: "main fs = Inr s" and n: "length fs + 2 < NINODES" "\<not> 64 dvd length fs + 3"
  obtains k where "disk_ok s ((T_DIR, root fs @ replicate k 0) # map stored fs @ [(T_FILE, [])])"
    "length (root fs) + k = (length (root fs) div BSIZE + 1) * BSIZE" "img s ! 45 = mark (unat (freeblock s)) zeroes"
proof -
  have n': "length fs < 198" using n by (simp add: hdr)
  obtain s1 where a: "Mkfs.ialloc T_DIR format = Inr (s1, 1)" "disk_ok s1 [(T_DIR, [])]"
    using ialloc_disk [OF format_ok, of T_DIR] by auto
  obtain s2 s3 s4 s5 i s6 where b: "iappend 1 (dirent 1 (bytes_of ''.'')) s1 = Inr s2" "iappend 1 (dirent 1 (bytes_of ''..'')) s2 = Inr s3"
    "add_files 1 fs s3 = Inr s4" "new_file 1 (bytes_of ''cache.bin'') s4 = Inr (s5, i)" "fix_root 1 s5 = Inr s6" "Mkfs.balloc (unat (freeblock s6)) s6 = Inr s"
    using m a(1) by (auto simp: main_def ROOTINO_def)
  have d2: "disk_ok s2 [(T_DIR, dirent 1 (bytes_of ''.''))]" using iappend_disk [OF a(2), of 0 _ s2] b(1) by simp
  have d3: "disk_ok s3 [(T_DIR, dirent 1 (bytes_of ''.'') @ dirent 1 (bytes_of ''..''))]" using iappend_disk [OF d2, of 0 _ s3] b(2) by simp
  have d4: "disk_ok s4 ((T_DIR, (dirent 1 (bytes_of ''.'') @ dirent 1 (bytes_of ''..'')) @ concat (entries 2 fs)) # map stored fs)"
    using add_files_disk [OF d3 _ b(3)] n' by (simp add: numeral_2_eq_2)
  have d5: "disk_ok s5 ((T_DIR, root fs) # map stored fs @ [(T_FILE, [])])"
    using new_file_disk [OF d4 _ b(4)] n' by (simp add: root_def)
  have "length (root fs) mod BSIZE \<noteq> 0"
  proof -
    have "16 * (length fs + 3) mod (16 * 64) = 16 * ((length fs + 3) mod 64)" by (rule mod_mult_mult1)
    then show ?thesis using n(2) by (simp add: length_root hdr dvd_eq_mod_eq_0)
  qed
  then obtain k where d6: "length (root fs) + k = (length (root fs) div BSIZE + 1) * BSIZE" "disk_ok s6 ((T_DIR, root fs @ replicate k 0) # map stored fs @ [(T_FILE, [])])"
    using fix_root_disk(1) [OF d5 _ b(5)] by blast
  then show thesis using that [OF _ d6(1)] balloc_disk [OF d6(2) b(6)] by simp
qed

section \<open>The kernel on the image\<close>

text \<open>A kernel whose disk is the image, and which has read the superblock.\<close>

definition mounted :: "mkfs \<Rightarrow> fsstate \<Rightarrow> bool" where
  "mounted s k \<longleftrightarrow> (\<forall>b<FSSIZE. blk k (of_nat b) = img s ! b) \<and> (\<forall>b. length (blk k b) = BSIZE) \<and> sb k = readsb k"

lemma mounted_blk: "mounted s k \<Longrightarrow> unat a < FSSIZE \<Longrightarrow> blk k a = img s ! unat a"
proof -
  assume "mounted s k" "unat a < FSSIZE"
  moreover have "(of_nat (unat a) :: uint) = a" by simp
  ultimately show ?thesis by (metis mounted_def)
qed

lemma mounted_sb:
  assumes "mounted s k" "disk_ok s fs"
  shows "sb k = mk_sb"
proof -
  have b: "blk k 1 = poke zeroes 0 (enc_sb mk_sb)" using assms mounted_blk [OF assms(1), of 1] by (simp add: disk_ok_def hdr)
  have "peek 4 (poke zeroes 0 (enc_sb mk_sb)) (0 + j) = take 4 (drop j (enc_sb mk_sb))" if "j + 4 \<le> 32" for j
    using that by (intro peek_poke_inside) (simp_all add: length_enc_sb zeroes_def hdr)
  from this [of 0] this [of 4] this [of 8] this [of 12] this [of 16] this [of 20] this [of 24] this [of 28]
  have "readsb k = mk_sb" unfolding readsb_def b Let_def peek32_def by (simp add: enc_sb_def)
  then show ?thesis using assms(1) by (simp add: mounted_def)
qed

lemma ilock_loads:
  assumes "ilock ip k = Inr k'" "\<not> i_valid (ino k ip)" "ip < length (itable k)"
  shows "\<exists>lk. ino k' ip = load_dinode (blk k (IBLOCK (i_inum (ino k ip)) k)) (dinode_off (i_inum (ino k ip))) ((ino k ip)\<lparr>i_lock := lk\<rparr>)"
    "blk k' = blk k" "sb k' = sb k" "length (itable k') = length (itable k)"
  using assms by (auto simp: ilock_def Let_def nth_upd_ino blk_def IBLOCK_def fun_eq_iff split: if_splits) blast

text \<open>The file system code of the kernel finds the file in the image.\<close>

lemma disk_file:
  assumes d: "disk_ok s fs" and m: "mounted s k" and j: "j < length fs" and ip: "ip < length (itable k)" "i_inum (ino k ip) = inum_of j" "\<not> i_valid (ino k ip)"
    and l: "ilock ip k = Inr k'"
  shows "file_ok k' ip (nblk (length (snd (fs ! j))))" "i_type (ino k' ip) = fst (fs ! j)" "unat (i_size (ino k' ip)) = length (snd (fs ! j))"
    "x < nblk (length (snd (fs ! j))) * BSIZE \<Longrightarrow> fbyte k' ip x = (if x < length (snd (fs ! j)) then snd (fs ! j) ! x else 0)"
    "i_dev (ino k' ip) = i_dev (ino k ip)"
proof -
  let ?c = "snd (fs ! j)" and ?i = "inum_of j" and ?M = "img s"
  let ?d = "dino ?M ?i"
  let ?as = "d_addrs ?d" and ?nb = "nblk (length ?c)"
  have H: "holds s ?as ?c" "d_type ?d = fst (fs ! j)" "d_size ?d = of_nat (length ?c)" and fb: "unat (freeblock s) \<le> FSSIZE" using d j by (auto simp: disk_ok_def)
  have "unat ?i < 208" using inum_unat [of "Suc j"] j d by (simp add: disk_ok_def)
  then have ib: "unat (iblock ?i) < 45" "32 \<le> unat (iblock ?i)" using iblock_unat by auto
  have IB: "IBLOCK ?i k = iblock ?i" using mounted_sb [OF m d] by (simp add: IBLOCK_def iblock_def)
  have bi: "blk k (iblock ?i) = ?M ! unat (iblock ?i)" using mounted_blk [OF m] ib by (simp add: hdr)
  obtain lk where K: "ino k' ip = load_dinode (?M ! unat (iblock ?i)) (dinode_off ?i) ((ino k ip)\<lparr>i_lock := lk\<rparr>)" "blk k' = blk k" "sb k' = sb k"
    "length (itable k') = length (itable k)"
    using ilock_loads [OF l ip(3,1)] ip(2) IB bi by auto
  have F: "i_addrs (ino k' ip) = ?as" "i_type (ino k' ip) = fst (fs ! j)" "i_size (ino k' ip) = of_nat (length ?c)" "i_inum (ino k' ip) = ?i"
    using H ip(2) by (simp_all add: K(1) load_dinode_def dino_def dec_dinode_def)
  show "i_type (ino k' ip) = fst (fs ! j)" "i_dev (ino k' ip) = i_dev (ino k ip)" using F(2) by (simp_all add: K(1) load_dinode_def)
  have hl: "lay ?M (unat (freeblock s)) ?as ?nb" "length ?c \<le> MAXFILE * BSIZE" using H(1) holds_addrs [OF H(1)] by (auto simp: holds_def fstate_def)
  then have "length ?c < 2 ^ 32" by (simp add: hdr)
  then show "unat (i_size (ino k' ip)) = length ?c" using F(3) unat_of_nat32 by simp
  have own: "own ?M ?as \<subseteq> {nmeta..<FSSIZE}" using hl(1) fb by (fastforce simp: lay_def)
  have fa: "faddr k' ip bn = addr ?M ?as bn" for bn
  proof (cases "?as ! NDIRECT = 0")
    case False
    then have "unat (?as ! NDIRECT) < FSSIZE" using subsetD [OF own own_ind] by simp
    then show ?thesis using mounted_blk [OF m] K(2) F(1) by (simp add: faddr_def addr_def)
  qed (simp add: faddr_def addr_def F(1))
  have ad: "nmeta \<le> unat (addr ?M ?as bn)" "unat (addr ?M ?as bn) < FSSIZE" if "bn < ?nb" for bn using lay_bound [OF hl(1) that] fb by auto
  show "fbyte k' ip x = (if x < length ?c then ?c ! x else 0)" if x: "x < ?nb * BSIZE"
  proof -
    have "fbyte k' ip x = cbyte ?M ?as x" using ad(2) [OF block_of [OF x]] mounted_blk [OF m] by (simp add: fbyte_def cbyte_def fa K(2))
    then show ?thesis using H(1) x by (simp add: holds_def content_def)
  qed
  have "?as ! NDIRECT \<noteq> iblock ?i" using ib layout(1) subsetD [OF own own_ind [of ?as]] by (cases "?as ! NDIRECT = 0") auto
  moreover have "addr ?M ?as bn \<noteq> iblock ?i" if "bn < ?nb" for bn using ad(1) [OF that] ib layout(1) by auto
  moreover have "addr ?M ?as bn \<noteq> 0" if "bn < ?nb" for bn using ad(1) [OF that] layout(1) by auto
  moreover have "IBLOCK (i_inum (ino k' ip)) k' = iblock ?i" using F(4) IB K(3) by (simp add: IBLOCK_def)
  moreover have "faddr k' ip = addr ?M ?as" using fa by blast
  moreover have "length ?as = NDIRECT + 1" "?nb \<le> MAXFILE" "inj_on (addr ?M ?as) {..<?nb}" "\<forall>bn<?nb. addr ?M ?as bn \<noteq> ?as ! NDIRECT"
    using hl(1) by (auto simp: lay_def)
  moreover have "\<forall>b. length (blk k' b) = BSIZE" "ip < length (itable k')" using m ip(1) K(2,4) by (auto simp: mounted_def)
  ultimately show "file_ok k' ip ?nb"
    unfolding file_ok_def F(1) by auto
qed

text \<open>
  C15. The kernel reads what \<open>mkfs\<close> wrote. In an image that \<open>mkfs\<close> has built and a kernel has mounted, inode \<open>i + 2\<close> is the \<open>i\<close>-th file of the command
  line: \<open>ilock\<close> loads an inode of the type of a file, and \<open>readi\<close> returns exactly the bytes of that file, in whatever pieces they were read and wherever
  \<open>mkfs\<close> has put the blocks, direct or indirect.
\<close>

theorem mkfs_files_readable:
  assumes "main fs = Inr s" and "length fs + 2 < NINODES" and "\<not> 64 dvd length fs + 3" and "mounted s k" and "i < length fs"
    and "ip < length (itable k)" and "i_inum (ino k ip) = of_nat (i + 2)" and "\<not> i_valid (ino k ip)" and "ilock ip k = Inr k'"
  shows "i_type (ino k' ip) = T_FILE \<and>
    readi kernel_out ip 0 (i_size (ino k' ip)) k' [] = Inr (k', concat (the (snd (fs ! i))), int (length (concat (the (snd (fs ! i))))))"
proof -
  obtain n where d: "disk_ok s ((T_DIR, root fs @ replicate n 0) # map stored fs @ [(T_FILE, [])])" using main_disk [OF assms(1-3)] by metis
  let ?fs = "(T_DIR, root fs @ replicate n 0) # map stored fs @ [(T_FILE, [])]" and ?c = "concat (the (snd (fs ! i)))"
  have f: "?fs ! Suc i = (T_FILE, ?c)" using assms(5) by (simp add: nth_append stored_def)
  have "i_inum (ino k ip) = inum_of (Suc i)" using assms(7) by simp
  note F = disk_file [OF d assms(4) _ assms(6) this assms(8,9), unfolded f fst_conv snd_conv]
  have si: "Suc i < length ?fs" using assms(5) by simp
  have le: "length ?c \<le> nblk (length ?c) * BSIZE" by (rule nblk_facts(1))
  have "readi kernel_out ip 0 (i_size (ino k' ip)) k' [] = Inr (k', map (fbyte k' ip) [0..<length ?c], int (length ?c))"
    using readi_present [OF F(1) [OF si], of 0 "i_size (ino k' ip)"] F(3) [OF si] le by simp
  moreover have "map (fbyte k' ip) [0..<length ?c] = ?c" using F(4) [OF si] le by (intro nth_equalityI) auto
  ultimately show ?thesis using F(2) [OF si] by simp
qed

section \<open>The root directory\<close>

text \<open>The entries of the root directory, in order.\<close>

definition listing :: "(bytes \<times> bytes list option) list \<Rightarrow> (uint \<times> bytes) list" where
  "listing fs = (1, bytes_of ''.'') # (1, bytes_of ''..'') #
     map (\<lambda>i. (of_nat (i + 2), shortname (fst (fs ! i)))) [0..<length fs] @ [(of_nat (length fs + 2), bytes_of ''cache.bin'')]"

lemma entries_eq: "entries n fs = map (\<lambda>i. dirent (of_nat (n + i)) (shortname (fst (fs ! i)))) [0..<length fs]"
  by (induction fs arbitrary: n) (simp_all add: upt_conv_Cons map_Suc_upt [symmetric] algebra_simps del: upt_Suc)

lemma root_listing: "root fs = concat (map (\<lambda>(i, m). dirent i m) (listing fs))"
  by (simp add: root_def listing_def entries_eq o_def add.commute)

lemma concat_blocks: "j < length xs \<Longrightarrow> (\<And>x. x \<in> set xs \<Longrightarrow> length x = m) \<Longrightarrow> take m (drop (m * j) (concat xs)) = xs ! j"
proof (induction xs arbitrary: j)
  case (Cons x xs)
  then show ?case by (cases j) (simp_all add: algebra_simps)
qed simp

lemma cstr_padded: "0 \<notin> set m \<Longrightarrow> cstr (take d (m @ replicate d 0)) = take d m"
proof -
  assume "0 \<notin> set m"
  then have "0 \<notin> set (take d m)" by (meson in_set_takeD)
  then show ?thesis by (cases "d - length m") (simp_all add: cstr_append_NUL cstr_id)
qed

lemma names_dirent:
  assumes "0 \<notin> set n" "0 \<notin> set m" "0 < unat i" "unat i < 2 ^ 16"
  shows "names (n @ [0]) (dirent i m) \<longleftrightarrow> take DIRSIZ m = take DIRSIZ n" "ucast (de_inum (dirent i m)) = i"
proof -
  have d: "de_inum (dirent i m) = ucast i" by (simp add: de_inum_def dirent_def peek16_def peek_def)
  show u: "ucast (de_inum (dirent i m)) = i"
    unfolding d using assms(4) by (simp add: word_unat_eq_iff unsigned_ucast_eq unsigned_take_bit_eq take_bit_nat_eq_self)
  have "de_inum (dirent i m) \<noteq> 0" using u assms(3) by auto
  moreover have "cstr (de_name (dirent i m)) = take DIRSIZ m" using cstr_padded [OF assms(2), of DIRSIZ] by (simp add: de_name_def dirent_def del: take_append)
  ultimately show "names (n @ [0]) (dirent i m) \<longleftrightarrow> take DIRSIZ m = take DIRSIZ n"
    using cstr_append_NUL [OF assms(1), of "[]"] by (auto simp: names_def)
qed

lemma find_idx_listed:
  assumes "\<And>j. j < K \<Longrightarrow> P j \<longleftrightarrow> j < length l \<and> Q (l ! j)" "length l \<le> K"
  shows "find_idx P [0..<K] = find_idx Q l"
proof (cases "find_idx Q l")
  case None
  then have "find_idx P [0..<K] = None" using assms by (auto simp: find_idx_None)
  with None show ?thesis by simp
next
  case (Some i)
  then have "find_idx P [0..<K] = Some i" using assms by (auto simp: find_idx_Some)
  with Some show ?thesis by simp
qed

lemma listing_facts:
  assumes "length fs < 198" "\<forall>f\<in>set fs. 0 \<notin> set (fst f)" "e \<in> set (listing fs)"
  shows "0 < unat (fst e)" "unat (fst e) < 2 ^ 16" "0 \<notin> set (snd e)"
proof -
  have "0 \<notin> set (shortname (fst (fs ! i)))" if "i < length fs" for i
  proof -
    have "set (strip_user a) \<subseteq> set a" for a by (auto simp: strip_user_def dest: in_set_dropD)
    moreover have "set (shortname a) \<subseteq> set (strip_user a)" for a by (cases "strip_user a") (auto simp: shortname_def Let_def split: if_splits)
    ultimately have "set (shortname a) \<subseteq> set a" for a by (metis subset_trans)
    then show ?thesis using assms(2) nth_mem [OF that] by blast
  qed
  moreover have "unat (of_nat (i + 2) :: uint) = i + 2" if "i < 198" for i using that by (intro unat_of_nat32) simp
  ultimately show "0 < unat (fst e)" "unat (fst e) < 2 ^ 16" "0 \<notin> set (snd e)"
    using assms(1,3) by (auto simp: listing_def bytes_of_def)
qed

text \<open>The \<open>j\<close>-th entry of the root directory, the padding included.\<close>

lemma root_entry:
  assumes K: "length (root fs @ replicate z 0) = DIRENT * K" and n': "length fs < 198" and nul: "\<forall>f\<in>set fs. 0 \<notin> set (fst f)" "0 \<notin> set n"
    and j: "j < K" and de: "de = take DIRENT (drop (DIRENT * j) (root fs @ replicate z 0))"
  shows "names (n @ [0]) de \<longleftrightarrow> j < length (listing fs) \<and> (case listing fs ! j of (i, m) \<Rightarrow> take DIRSIZ m = take DIRSIZ n)"
    "j < length (listing fs) \<Longrightarrow> ucast (de_inum de) = fst (listing fs ! j)"
proof -
  let ?l = "listing fs"
  have L: "length ?l = length fs + 3" by (simp add: listing_def)
  obtain i m where e: "?l ! j = (i, m)" by (cases "?l ! j")
  have en: "de = dirent i m" "names (n @ [0]) (dirent i m) \<longleftrightarrow> take DIRSIZ m = take DIRSIZ n" "ucast (de_inum (dirent i m)) = i" if jl: "j < length ?l"
  proof -
    have "(i, m) \<in> set ?l" using jl e nth_mem by metis
    note f = listing_facts [OF n' nul(1) this, unfolded fst_conv snd_conv]
    show "names (n @ [0]) (dirent i m) \<longleftrightarrow> take DIRSIZ m = take DIRSIZ n" "ucast (de_inum (dirent i m)) = i"
      by (rule names_dirent [OF nul(2) f(3,1,2)])+
    have "DIRENT * j + DIRENT \<le> length (root fs)" using jl L mult_le_mono2 [of "Suc j" "length ?l" DIRENT] by (simp add: length_root)
    moreover have "take DIRENT (drop (DIRENT * j) (root fs)) = map (\<lambda>(i, m). dirent i m) ?l ! j"
      unfolding root_listing using jl by (intro concat_blocks) (auto simp: length_dirent)
    ultimately show "de = dirent i m" using de e jl by simp
  qed
  have pad: "\<not> names (n @ [0]) de" if "length ?l \<le> j"
  proof -
    have "length (root fs) \<le> DIRENT * j" using that L by (simp add: length_root)
    moreover have "DIRENT * j + DIRENT \<le> length (root fs) + z" using j K mult_le_mono2 [of "Suc j" K DIRENT] by simp
    ultimately have "de = replicate DIRENT 0" using de by (simp add: min_def)
    then show ?thesis by (simp add: names_def de_inum_def peek16_def peek_def DIRENT_def numeral_eq_Suc)
  qed
  show "names (n @ [0]) de \<longleftrightarrow> j < length ?l \<and> (case ?l ! j of (i, m) \<Rightarrow> take DIRSIZ m = take DIRSIZ n)"
    using en pad e by (cases "j < length ?l") auto
  show "j < length ?l \<Longrightarrow> ucast (de_inum de) = fst (?l ! j)" using en e by simp
qed

text \<open>
  C16. The kernel finds the files of \<open>mkfs\<close> by name. In the root directory of a mounted image, \<open>dirlookup\<close> finds a name exactly when it agrees in its first
  \<open>DIRSIZ\<close> bytes with a name that \<open>mkfs\<close> has given to a file (the argument without \<open>user/\<close> and the underscore), with a dot entry or with \<open>cache.bin\<close>; it
  gives the inode of the first such entry and the offset of that entry. The zeroes up to the rounded size are not entries.
\<close>

theorem mkfs_root_lookup:
  assumes "main fs = Inr s" and "length fs + 2 < NINODES" and "\<not> 64 dvd length fs + 3" and "mounted s k"
    and "ip < length (itable k)" and "i_inum (ino k ip) = ROOTINO" and "\<not> i_valid (ino k ip)" and "ilock ip k = Inr k'"
    and "\<forall>f\<in>set fs. 0 \<notin> set (fst f)" and "0 \<notin> set n"
  shows "dirlookup ip (n @ [0]) k' =
    (case find_idx (\<lambda>(i, m). take DIRSIZ m = take DIRSIZ n) (listing fs) of
       None \<Rightarrow> Inr (k', None)
     | Some j \<Rightarrow> bindE (iget (i_dev (ino k ip)) (fst (listing fs ! j)) k') (\<lambda>(k, jp). Inr (k, Some (jp, DIRENT * j))))"
proof -
  let ?l = "listing fs" and ?c = "\<lambda>z. root fs @ replicate z 0"
  obtain z where d: "disk_ok s ((T_DIR, ?c z) # map stored fs @ [(T_FILE, [])])"
    and z: "length (root fs) + z = (length (root fs) div BSIZE + 1) * BSIZE" using main_disk [OF assms(1-3)] by metis
  define K where "K = (length (root fs) div BSIZE + 1) * 64"
  have K: "length (?c z) = DIRENT * K" using z by (simp add: K_def hdr)
  have n': "length fs < 198" using assms(2) by (simp add: hdr)
  have "i_inum (ino k ip) = inum_of 0" using assms(6) by (simp add: ROOTINO_def)
  note F = disk_file [OF d assms(4) _ assms(5) this assms(7,8), simplified]
  have le: "length (?c z) \<le> nblk (length (?c z)) * BSIZE" by (rule nblk_facts(1))
  have LK: "length ?l \<le> K" using K by (simp add: length_root DIRENT_def listing_def)
  have at: "dirent_at k' ip j = take DIRENT (drop (DIRENT * j) (?c z))" if "j < K" for j
  proof -
    have "DIRENT * j + DIRENT \<le> length (?c z)" using that K mult_le_mono2 [of "Suc j" K DIRENT] by simp
    then show ?thesis using F(4) le by (intro nth_equalityI) (auto simp: dirent_at_def simp del: take_append drop_append)
  qed
  note R = root_entry [OF K n' assms(9,10) _ at]
  have fi: "find_idx (\<lambda>j. names (n @ [0]) (dirent_at k' ip j)) [0..<K] = find_idx (\<lambda>(i, m). take DIRSIZ m = take DIRSIZ n) ?l"
    using find_idx_listed [of K, OF R(1) LK] by (simp add: case_prod_unfold)
  have num: "ucast (de_inum (dirent_at k' ip j)) = fst (?l ! j)" if "j < length ?l" for j using R(2) [of j] that LK by simp
  have "readable (n @ [0]) DIRSIZ" by (simp add: terminated_def)
  then show ?thesis
    using dirlookup_finds_first [OF F(1), of K "n @ [0]"] F(2,3,5) K le num fi by (auto split: option.splits)
qed

section \<open>The bitmap\<close>

lemma bit_clear_mark: "n \<le> 8 * length d \<Longrightarrow> bit_clear (mark n d) b \<longleftrightarrow> bit_clear d b \<and> \<not> b < n"
proof (induction n)
  case (Suc n)
  then have n: "n < 8 * length (mark n d)" by (simp add: length_mark)
  have "mark (Suc n) d = (mark n d)[n div 8 := mark n d ! (n div 8) OR bit_mask n]" by (simp add: Let_def bit_mask_def)
  then show ?case using bit_clear_update(1) [OF n, of b] Suc by (auto simp: less_Suc_eq)
qed simp

lemma mkfs_block_used:
  assumes "disk_ok s fs" and "img s ! 45 = mark (unat (freeblock s)) zeroes" and "mounted s k" and b: "b < FSSIZE"
  shows "block_used k b \<longleftrightarrow> b < unat (freeblock s)"
proof -
  have "unat (of_nat b div of_nat BPB :: uint) = 0" using unat_small [OF b] b by (simp add: unat_div_distrib unat_of_nat32 hdr)
  then have "of_nat b div of_nat BPB = (0 :: uint)" by (simp only: unat_eq_zero)
  then have "BBLOCK (of_nat b) k = 45" using mounted_sb [OF assms(3,1)] layout(3) by (simp add: BBLOCK_def)
  moreover have "blk k 45 = img s ! 45" using mounted_blk [OF assms(3), of 45] by (simp add: hdr)
  moreover have "bit_clear zeroes b" using b by (simp add: bit_clear_def zeroes_def hdr)
  moreover have "unat (freeblock s) \<le> 8 * length zeroes" using assms(1) by (simp add: disk_ok_def zeroes_def hdr)
  ultimately show ?thesis using b assms(2) by (simp add: block_used_def bit_clear_mark hdr)
qed

text \<open>
  C23. The bitmap that \<open>mkfs\<close> writes is consistent with the inodes. A kernel that has mounted the image satisfies the invariant of its block allocator: the
  boot block, the superblock, the log, the inodes and the bitmap are marked as used. Every block of every file, its indirect block included, is a data block
  that is marked as used, and no block belongs to two files; so \<open>balloc\<close> never hands out a block of a file of the image.
\<close>

theorem mkfs_bitmap_consistent:
  assumes "main fs = Inr s" and "length fs + 2 < NINODES" and "\<not> 64 dvd length fs + 3" and "mounted s k"
  shows "bitmap_ok k \<and>
    (\<forall>i\<in>{1..length fs + 2}. \<forall>b\<in>own (img s) (d_addrs (dino (img s) (of_nat i))). nmeta \<le> b \<and> b < FSSIZE \<and> block_used k b) \<and>
    (\<forall>i\<in>{1..length fs + 2}. \<forall>j\<in>{1..length fs + 2}. i \<noteq> j \<longrightarrow>
       own (img s) (d_addrs (dino (img s) (of_nat i))) \<inter> own (img s) (d_addrs (dino (img s) (of_nat j))) = {})"
proof -
  obtain z where d: "disk_ok s ((T_DIR, root fs @ replicate z 0) # map stored fs @ [(T_FILE, [])])" and bm: "img s ! 45 = mark (unat (freeblock s)) zeroes"
    using main_disk [OF assms(1-3)] by metis
  let ?fs = "(T_DIR, root fs @ replicate z 0) # map stored fs @ [(T_FILE, [])]"
  note used = mkfs_block_used [OF d bm assms(4)]
  have fb: "nmeta \<le> unat (freeblock s)" "unat (freeblock s) \<le> FSSIZE" using d by (auto simp: disk_ok_def)
  have sb: "unat (sb_size (sb k)) = 2000" "unat (sb_bmapstart (sb k)) = 45"
    using mounted_sb [OF assms(4) d] layout(3) by (simp_all add: mk_sb_def hdr)
  have us: "block_used k b" if "b < 46" for b
  proof -
    have "b < FSSIZE" "b < unat (freeblock s)" using that fb(1) layout(1) by (simp_all only: FSSIZE_def)
    then show ?thesis by (simp only: used)
  qed
  have "bitmap_ok k" unfolding bitmap_ok_def sb
  proof (intro conjI)
    show "\<forall>b. length (blk k b) = BSIZE" using assms(4) by (simp add: mounted_def)
    show "block_used k 0" "\<forall>b<2000. b < 45 + 2000 div BPB + 1 \<longrightarrow> block_used k b" using us by (simp_all add: hdr)
  qed (simp_all add: hdr)
  moreover have idx: "\<exists>i'<length ?fs. i = Suc i'" if "i \<in> {1..length fs + 2}" for i using that by (cases i) auto
  have "nmeta \<le> b \<and> b < FSSIZE \<and> block_used k b" if "i < length ?fs" "b \<in> own (img s) (d_addrs (dino (img s) (inum_of i)))" for i b
  proof -
    have "holds s (d_addrs (dino (img s) (inum_of i))) (snd (?fs ! i))" using d that(1) unfolding disk_ok_def by blast
    then have "b \<in> {nmeta..<unat (freeblock s)}" using holds_addrs that(2) by blast
    then show ?thesis using used [of b] fb(2) by auto
  qed
  then have "\<forall>i\<in>{1..length fs + 2}. \<forall>b\<in>own (img s) (d_addrs (dino (img s) (of_nat i))). nmeta \<le> b \<and> b < FSSIZE \<and> block_used k b"
    using idx by blast
  moreover have "own (img s) (d_addrs (dino (img s) (inum_of i))) \<inter> own (img s) (d_addrs (dino (img s) (inum_of j))) = {}"
    if "i < length ?fs" "j < length ?fs" "i \<noteq> j" for i j using d that unfolding disk_ok_def by blast
  then have "\<forall>i\<in>{1..length fs + 2}. \<forall>j\<in>{1..length fs + 2}. i \<noteq> j \<longrightarrow>
      own (img s) (d_addrs (dino (img s) (of_nat i))) \<inter> own (img s) (d_addrs (dino (img s) (of_nat j))) = {}"
    using idx by metis
  ultimately show ?thesis by blast
qed

section \<open>The log overlaps the inodes\<close>


section \<open>mkfs succeeds when there is room\<close>

lemma file_block_total:
  assumes f: "fstate s (d_addrs din) nb" and n: "fbn \<le> nb" "fbn < MAXFILE" and fb: "unat (freeblock s) + 2 \<le> FSSIZE"
  shows "\<exists>din' s' x buf. file_block fbn din s = Inr (din', s', x) \<and> rsect x s' = Inr buf \<and> unat (freeblock s') \<le> unat (freeblock s) + 2"
proof -
  let ?as = "d_addrs din" and ?fb = "freeblock s"
  have l: "lay (img s) (unat ?fb) ?as nb" and im: "image s" using f by (auto simp: fstate_def)
  have len: "length ?as = NDIRECT + 1" using l by (simp add: lay_def)
  have lt: "unat ?fb < FSSIZE" "unat (?fb + 1) < FSSIZE" "unat (?fb + 1) = Suc (unat ?fb)" "unat (?fb + 1 + 1) = Suc (Suc (unat ?fb))" using fb unat_Suc [of ?fb] unat_Suc [of "?fb + 1"] by simp_all
  have own: "own (img s) ?as \<subseteq> {nmeta..<FSSIZE}" using l lt(1) by (fastforce simp: lay_def)
  have rs: "\<exists>buf. rsect x t = Inr buf" if "length (img t) = FSSIZE" "unat x < FSSIZE" for x t using that by (simp add: rsect_def)
  have li: "length (img s) = FSSIZE" using im by (simp add: image_def)
  have old: "unat (addr (img s) ?as fbn) < FSSIZE" if "addr (img s) ?as fbn \<noteq> 0" using subsetD [OF own own_addr [OF n(2) that]] by simp
  show ?thesis
  proof (cases "fbn < NDIRECT")
    case True
    then show ?thesis using old rs [of s] rs [of "s\<lparr>freeblock := ?fb + 1\<rparr>" ?fb] lt li len by (simp add: file_block_def addr_def Let_def)
  next
    case False
    show ?thesis
    proof (cases "?as ! NDIRECT = 0")
      case True
      have z: "peek32 (img s ! unat ?fb) (4 * (fbn - NDIRECT)) = 0"
        using f lt(1) n(2) False peek32_zeroes [of "4 * (fbn - NDIRECT)"] by (simp add: fstate_def unused_zero_def hdr)
      have "length (img s ! unat ?fb) = BSIZE" "4 * (fbn - NDIRECT) + 4 \<le> BSIZE" using im lt(1) n(2) False by (auto simp: image_def hdr)
      then show ?thesis
        using True False z lt li len rsect_ok [of "s\<lparr>freeblock := ?fb + 1\<rparr>" ?fb] im wsect_ok [of "s\<lparr>freeblock := ?fb + 1 + 1\<rparr>" ?fb] rs [where x = "?fb + 1"]
        by (simp add: file_block_def Let_def)
    next
      case ind: False
      then have ib: "unat (?as ! NDIRECT) < FSSIZE" using subsetD [OF own own_ind] by simp
      then have "length (img s ! unat (?as ! NDIRECT)) = BSIZE" "4 * (fbn - NDIRECT) + 4 \<le> BSIZE" using im n(2) False by (auto simp: image_def hdr)
      then show ?thesis
        using ind False ib old lt li len rsect_ok [OF im ib] im wsect_ok [of "s\<lparr>freeblock := ?fb + 1\<rparr>" "?as ! NDIRECT"] rs [of _ ?fb] rs [of s]
        by (auto simp: file_block_def Let_def addr_def)
    qed
  qed
qed

lemma iappend_loop_total:
  "holds s (d_addrs din) c \<Longrightarrow> length (c @ p) \<le> MAXFILE * BSIZE \<Longrightarrow> unat (freeblock s) + 2 * length p \<le> FSSIZE \<Longrightarrow>
    \<exists>din' off s'. iappend_loop p (length c) din s = Inr (din', off, s') \<and> unat (freeblock s') \<le> unat (freeblock s) + 2 * length p"
proof (induction "length p" arbitrary: p c din s rule: less_induct)
  case less
  show ?case
  proof (cases "p = []")
    case True
    then show ?thesis by (simp add: iappend_loop.simps)
  next
    case False
    define n where "n = chunk (length p) (length c)"
    have n: "0 < n" "n \<le> length p" using False chunk_pos [of "length p" "length c"] by (auto simp: n_def chunk_def)
    have "0 < length p" using False by simp
    then have "length c < MAXFILE * BSIZE" using less.prems(2) unfolding length_append by linarith
    then have lt: "length c div BSIZE < MAXFILE" by (rule block_of)
    have two: "unat (freeblock s) + 2 \<le> FSSIZE" "2 * length (drop n p) + 2 \<le> 2 * length p" using less.prems(3) n by auto
    have f: "fstate s (d_addrs din) (nblk (length c))" using less.prems(1) by (simp add: holds_def)
    obtain din1 s1 x buf s2 where r: "file_block (length c div BSIZE) din s = Inr (din1, s1, x)" "rsect x s1 = Inr buf" "unat (freeblock s1) \<le> unat (freeblock s) + 2"
      and s2: "s2 = wsect x (poke buf (length c mod BSIZE) (take n p)) s1"
      using file_block_total [OF f nblk_facts(2) lt two(1)] by blast
    note h = loop_round [OF less.prems(1) False n_def lt r(1,2) s2]
    obtain din' off s' where "iappend_loop (drop n p) (length (c @ take n p)) din1 s2 = Inr (din', off, s')"
      "unat (freeblock s') \<le> unat (freeblock s2) + 2 * length (drop n p)"
      using less.hyps [of "drop n p" s2 din1 "c @ take n p"] h n less.prems(2,3) two r(3) by auto
    then show ?thesis
      using lt r two h(4) n unfolding iappend_loop_unfold [OF False n_def] s2 by (simp add: min_absorb2)
  qed
qed

lemma iappend_total:
  assumes d: "disk_ok s fs" and i: "i < length fs" and n: "length (snd (fs ! i) @ p) \<le> MAXFILE * BSIZE" "unat (freeblock s) + 2 * length p \<le> FSSIZE"
  shows "\<exists>s'. iappend (inum_of i) p s = Inr s' \<and> unat (freeblock s') \<le> unat (freeblock s) + 2 * length p"
proof -
  let ?c = "snd (fs ! i)" and ?din = "dino (img s) (inum_of i)"
  have D: "image s" "length fs < 208" and H: "holds s (d_addrs ?din) ?c" "d_size ?din = of_nat (length ?c)" using d i by (auto simp: disk_ok_def)
  have iu: "unat (inum_of i) < 208" using inum_unat [of "Suc i"] i D(2) by simp
  have "length ?c < 2 ^ 32" using n(1) by (simp add: hdr)
  then have sz: "unat (d_size ?din) = length ?c" using H(2) unat_of_nat32 [of "length ?c"] by simp
  obtain din1 off s1 where l: "iappend_loop p (length ?c) ?din s = Inr (din1, off, s1)" "unat (freeblock s1) \<le> unat (freeblock s) + 2 * length p"
    using iappend_loop_total [OF H(1) n] by blast
  have L: "holds s1 (d_addrs din1) (?c @ p)" using iappend_loop_appends [OF l(1) H(1)] by blast
  have len: "length (d_addrs (din1\<lparr>d_size := of_nat off\<rparr>)) = NDIRECT + 1" using holds_addrs [OF L] by simp
  have im: "image s1" using L by (simp add: holds_def fstate_def)
  obtain M where "winode (inum_of i) (din1\<lparr>d_size := of_nat off\<rparr>) s1 = Inr (s1\<lparr>img := M\<rparr>)" using winode_ok [OF im iu len] by blast
  then show ?thesis using l rinode_ok [OF D(1) iu] sz by (simp add: iappend_def)
qed

lemma ialloc_free: "Mkfs.ialloc t s = Inr (s', i) \<Longrightarrow> freeblock s' = freeblock s"
  by (auto simp: Mkfs.ialloc_def winode_def wsect_def Let_def)

lemma new_file_total:
  assumes d: "disk_ok s ((T_DIR, r) # gs)" and n: "length gs < 206" "length r + 16 \<le> MAXFILE * BSIZE" "unat (freeblock s) + 32 \<le> FSSIZE"
  shows "\<exists>s' i. new_file 1 name s = Inr (s', i) \<and> unat (freeblock s') \<le> unat (freeblock s) + 32"
proof -
  let ?i = "inum_of (length ((T_DIR, r) # gs))"
  obtain s1 where a: "Mkfs.ialloc T_FILE s = Inr (s1, ?i)" "disk_ok s1 (((T_DIR, r) # gs) @ [(T_FILE, [])])"
    using ialloc_disk [OF d, of T_FILE] n by auto
  have "length (dirent ?i name) = 16" by (simp add: length_dirent DIRENT_def)
  then show ?thesis using iappend_total [OF a(2), of 0 "dirent ?i name"] n a(1) ialloc_free [OF a(1)] by (auto simp: new_file_def)
qed

lemma append_all_total:
  "disk_ok s fs \<Longrightarrow> i < length fs \<Longrightarrow> length (snd (fs ! i) @ concat cs) \<le> MAXFILE * BSIZE \<Longrightarrow> unat (freeblock s) + 2 * length (concat cs) \<le> FSSIZE \<Longrightarrow>
    \<exists>s'. append_all (inum_of i) cs s = Inr s' \<and> unat (freeblock s') \<le> unat (freeblock s) + 2 * length (concat cs)"
proof (induction cs arbitrary: s fs)
  case (Cons c cs)
  obtain s1 where a: "iappend (inum_of i) c s = Inr s1" "unat (freeblock s1) \<le> unat (freeblock s) + 2 * length c"
    using iappend_total [OF Cons.prems(1,2), of c] Cons.prems(3,4) by auto
  have "disk_ok s1 (fs[i := (fst (fs ! i), snd (fs ! i) @ c)])" by (rule iappend_disk [OF Cons.prems(1,2) a(1)])
  from Cons.IH [OF this] show ?case using Cons.prems a by auto
qed simp

definition fitting :: "bytes \<times> bytes list option \<Rightarrow> bool" where
  "fitting f \<longleftrightarrow> of_char CHR ''/'' \<notin> set (strip_user (fst f)) \<and> snd f \<noteq> None \<and> length (concat (the (snd f))) \<le> MAXFILE * BSIZE"

definition need :: "(bytes \<times> bytes list option) list \<Rightarrow> nat" where
  "need fs = (\<Sum>f\<leftarrow>fs. 32 + 2 * length (concat (the (snd f))))"

lemma add_files_total:
  "disk_ok s ((T_DIR, r) # gs) \<Longrightarrow> length gs + length fs < 207 \<Longrightarrow> list_all fitting fs \<Longrightarrow> length r + 16 * length fs \<le> MAXFILE * BSIZE \<Longrightarrow>
    unat (freeblock s) + need fs \<le> FSSIZE \<Longrightarrow> \<exists>s'. add_files 1 fs s = Inr s' \<and> unat (freeblock s') \<le> unat (freeblock s) + need fs"
proof (induction fs arbitrary: s r gs)
  case Nil
  then show ?case by (simp add: need_def)
next
  case (Cons f fs)
  obtain a cs where f: "f = (a, Some cs)" "of_char CHR ''/'' \<notin> set (strip_user a)" "length (concat cs) \<le> MAXFILE * BSIZE"
    using Cons.prems(3) by (cases f) (auto simp: fitting_def)
  have nd: "need (f # fs) = 32 + 2 * length (concat cs) + need fs" by (simp add: need_def f)
  have n: "length gs < 206" "length r + 16 \<le> MAXFILE * BSIZE" "unat (freeblock s) + 32 \<le> FSSIZE" using Cons.prems nd by auto
  obtain s1 i where a1: "new_file 1 (shortname a) s = Inr (s1, i)" "unat (freeblock s1) \<le> unat (freeblock s) + 32"
    using new_file_total [OF Cons.prems(1) n] by blast
  have d1: "disk_ok s1 ((T_DIR, r @ dirent i (shortname a)) # gs @ [(T_FILE, [])])" and i: "i = inum_of (Suc (length gs))"
    using new_file_disk [OF Cons.prems(1) n(1) a1(1)] by simp_all
  obtain s2 where a2: "append_all i cs s1 = Inr s2" "unat (freeblock s2) \<le> unat (freeblock s1) + 2 * length (concat cs)"
    using append_all_total [OF d1, of "Suc (length gs)" cs] f(3) Cons.prems(5) nd a1(2) i by auto
  have d2: "disk_ok s2 ((T_DIR, r @ dirent i (shortname a)) # gs @ [(T_FILE, concat cs)])"
    using append_all_disk [OF d1, of "Suc (length gs)" cs s2] a2(1) i by simp
  obtain s3 where "add_files 1 fs s2 = Inr s3" "unat (freeblock s3) \<le> unat (freeblock s2) + need fs"
    using Cons.IH [OF d2] Cons.prems nd a1(2) a2(2) by (auto simp: length_dirent DIRENT_def)
  then show ?case using f a1 a2 nd by (auto simp: fitting_def)
qed

lemma main_total:
  assumes n: "length fs + 2 < NINODES" and f: "list_all fitting fs" and fb: "nmeta + 96 + need fs \<le> FSSIZE"
  shows "\<exists>s. main fs = Inr s"
proof -
  have n': "length fs < 198" using n by (simp add: hdr)
  have MB: "16 * (length fs + 3) \<le> MAXFILE * BSIZE" using n' by (simp add: hdr)
  have ff: "unat (freeblock format) = nmeta"
    using zeroing [of "\<lparr>img = [], freeinode = 1, freeblock = of_nat nmeta\<rparr>" FSSIZE] by (simp add: format_def wsect_def layout Let_def)
  obtain s1 where a: "Mkfs.ialloc T_DIR format = Inr (s1, inum_of 0)" "disk_ok s1 [(T_DIR, [])]" "freeblock s1 = freeblock format"
    using ialloc_disk [OF format_ok, of T_DIR] ialloc_free by auto
  have dl: "length (dirent i m) = 16" for i m by (simp add: length_dirent DIRENT_def)
  obtain s2 where b: "iappend (inum_of 0) (dirent 1 (bytes_of ''.'')) s1 = Inr s2" "unat (freeblock s2) \<le> nmeta + 32"
    using iappend_total [OF a(2), of 0 "dirent 1 (bytes_of ''.'')"] ff fb a(3) MB dl by auto
  have d2: "disk_ok s2 [(T_DIR, dirent 1 (bytes_of ''.''))]" using iappend_disk [OF a(2) _ b(1)] by simp
  obtain s3 where c: "iappend (inum_of 0) (dirent 1 (bytes_of ''..'')) s2 = Inr s3" "unat (freeblock s3) \<le> nmeta + 64"
    using iappend_total [OF d2, of 0 "dirent 1 (bytes_of ''..'')"] b(2) fb MB dl by auto
  have d3: "disk_ok s3 [(T_DIR, dirent 1 (bytes_of ''.'') @ dirent 1 (bytes_of ''..''))]" using iappend_disk [OF d2 _ c(1)] by simp
  obtain s4 where e: "add_files 1 fs s3 = Inr s4" "unat (freeblock s4) \<le> nmeta + 64 + need fs"
    using add_files_total [OF d3 _ f] n' MB c(2) fb dl by auto
  have d4: "disk_ok s4 ((T_DIR, (dirent 1 (bytes_of ''.'') @ dirent 1 (bytes_of ''..'')) @ concat (entries 2 fs)) # map stored fs)"
    using add_files_disk [OF d3 _ e(1)] n' by (simp add: numeral_2_eq_2)
  obtain s5 i where g: "new_file 1 (bytes_of ''cache.bin'') s4 = Inr (s5, i)"
    using new_file_total [OF d4, of "bytes_of ''cache.bin''"] n' MB e(2) fb dl length_entries [of 2 fs] by (auto simp: DIRENT_def)
  have d5: "disk_ok s5 ((T_DIR, ((dirent 1 (bytes_of ''.'') @ dirent 1 (bytes_of ''..'')) @ concat (entries 2 fs)) @ dirent i (bytes_of ''cache.bin'')) # map stored fs @ [(T_FILE, [])])"
    using new_file_disk(1) [OF d4 _ g] n' by simp
  then have D5: "image s5" "unat (freeblock s5) \<le> FSSIZE" "length (d_addrs (dino (img s5) 1)) = NDIRECT + 1"
    using holds_addrs by (fastforce simp: disk_ok_def)+
  have "\<exists>M. winode 1 ((dino (img s5) 1)\<lparr>d_size := z\<rparr>) s5 = Inr (s5\<lparr>img := M\<rparr>)" for z
    using winode_ok [OF D5(1), of 1 "(dino (img s5) 1)\<lparr>d_size := z\<rparr>"] D5(3) by (simp only: unat_1 dinode.simps) auto
  then obtain M where "fix_root 1 s5 = Inr (s5\<lparr>img := M\<rparr>)"
    using rinode_ok [OF D5(1), of 1] by (simp add: fix_root_def Let_def) blast
  moreover have "unat (freeblock s5) < BSIZE * 8" using D5(2) by (simp add: hdr)
  ultimately show ?thesis using a(1) b(1) c(1) e(1) g by (simp add: main_def ROOTINO_def Mkfs.balloc_def)
qed

text \<open>A command line with one file, and a kernel that has mounted the image.\<close>

definition sample_args :: "(bytes \<times> bytes list option) list" where
  "sample_args = [(bytes_of ''user/_cat'', Some [[1, 2], [3]])]"

definition kernel_of :: "mkfs \<Rightarrow> uint \<Rightarrow> fsstate" where
  "kernel_of s i = (let v = (\<lambda>b :: uint. if unat b < FSSIZE then img s ! unat b else zeroes);
      k = sample_fs\<lparr>lg := (lg sample_fs)\<lparr>bview := v\<rparr>, itable := [sample_inode\<lparr>i_dev := 1, i_inum := i, i_ref := 1, i_valid := False\<rparr>]\<rparr>
    in k\<lparr>sb := readsb k\<rparr>)"

lemma sample_main: "\<exists>s. main sample_args = Inr s"
  by (rule main_total) (simp_all add: sample_args_def fitting_def strip_user_def bytes_of_def need_def hdr)

lemma kernel_of_mounted:
  assumes "disk_ok s fs"
  shows "mounted s (kernel_of s i)" "itable (kernel_of s i) = [sample_inode\<lparr>i_dev := 1, i_inum := i, i_ref := 1, i_valid := False\<rparr>]"
proof -
  have b: "blk (kernel_of s i) b = (if unat b < FSSIZE then img s ! unat b else zeroes)" for b
    by (simp add: kernel_of_def Let_def blk_def bread_def)
  have im: "image s" using assms by (simp add: disk_ok_def)
  have "sb (kernel_of s i) = readsb (kernel_of s i)" by (simp add: kernel_of_def Let_def readsb_def blk_def bread_def)
  then show "mounted s (kernel_of s i)" using im b unat_small by (simp add: mounted_def image_def zeroes_def)
  show "itable (kernel_of s i) = [sample_inode\<lparr>i_dev := 1, i_inum := i, i_ref := 1, i_valid := False\<rparr>]" by (simp add: kernel_of_def Let_def)
qed

lemma kernel_of_ilock:
  assumes d: "disk_ok s fs" and j: "j < length fs" "fst (fs ! j) \<noteq> 0" and i: "i = inum_of j"
  shows "\<exists>k'. ilock 0 (kernel_of s i) = Inr k'"
proof -
  let ?k = "kernel_of s i"
  note m = kernel_of_mounted [OF d, of i]
  have ub: "unat i < 208" using inum_unat [of "Suc j"] j d i by (simp add: disk_ok_def)
  have "unat (iblock i) < FSSIZE" using iblock_unat [OF ub] ub by (simp add: hdr)
  moreover have "IBLOCK i ?k = iblock i" using mounted_sb [OF m(1) d] by (simp add: IBLOCK_def iblock_def)
  ultimately have "blk ?k (IBLOCK i ?k) = img s ! unat (iblock i)" using mounted_blk [OF m(1)] by simp
  moreover have "d_type (dino (img s) i) \<noteq> 0" using d j unfolding i disk_ok_def by metis
  ultimately have t: "peek16 (bread (lg ?k) (i div word_of_nat IPB + sb_inodestart (sb ?k))) (dinode_off i) \<noteq> 0"
    by (simp add: dino_def dec_dinode_def blk_def IBLOCK_def)
  obtain lk where "acquiresleep (me ?k) (i_lock sample_inode) = Inr lk" by (simp add: acquiresleep_def sample_inode_def initsleeplock_def)
  then show ?thesis using t by (simp add: ilock_def m(2) Let_def upd_ino_def blk_def IBLOCK_def load_dinode_def)
qed

theorem mkfs_files_readable_witness:
  "\<exists>s k k'. main sample_args = Inr s \<and> mounted s k \<and> ilock 0 k = Inr k' \<and> i_type (ino k' 0) = T_FILE \<and>
    readi kernel_out 0 0 (i_size (ino k' 0)) k' [] = Inr (k', [1, 2, 3], 3)"
proof -
  obtain s where s: "main sample_args = Inr s" using sample_main by blast
  have n: "length sample_args + 2 < NINODES" "\<not> 64 dvd length sample_args + 3" by (simp_all add: sample_args_def hdr)
  obtain r where d: "disk_ok s ((T_DIR, root sample_args @ replicate r 0) # map stored sample_args @ [(T_FILE, [])])" using main_disk [OF s n] by metis
  let ?k = "kernel_of s 2"
  obtain k' where k: "ilock 0 ?k = Inr k'" using kernel_of_ilock [OF d, of 1 2] by (auto simp: sample_args_def stored_def hdr)
  note m = kernel_of_mounted [OF d, of 2]
  have "i_type (ino k' 0) = T_FILE \<and> readi kernel_out 0 0 (i_size (ino k' 0)) k' [] =
      Inr (k', concat (the (snd (sample_args ! 0))), int (length (concat (the (snd (sample_args ! 0))))))"
    by (rule mkfs_files_readable [OF s n m(1) _ _ _ _ k]) (simp_all add: m(2) sample_args_def)
  then show ?thesis using s m(1) k by (auto simp: sample_args_def)
qed

lemma sample_disk:
  assumes "main sample_args = Inr s"
  obtains z where "disk_ok s ((T_DIR, root sample_args @ replicate z 0) # map stored sample_args @ [(T_FILE, [])])"
  using main_disk [OF assms] by (auto simp: sample_args_def hdr)

lemma sample_size: "length sample_args + 2 < NINODES" "\<not> 64 dvd length sample_args + 3"
  by (simp_all add: sample_args_def hdr)

theorem mkfs_root_lookup_witness:
  "\<exists>s k k'. main sample_args = Inr s \<and> mounted s k \<and> ilock 0 k = Inr k' \<and>
    dirlookup 0 (bytes_of ''cat'' @ [0]) k' = bindE (iget 1 2 k') (\<lambda>(k, jp). Inr (k, Some (jp, 32))) \<and>
    dirlookup 0 (bytes_of ''dog'' @ [0]) k' = Inr (k', None)"
proof -
  obtain s where s: "main sample_args = Inr s" using sample_main by blast
  obtain z where d: "disk_ok s ((T_DIR, root sample_args @ replicate z 0) # map stored sample_args @ [(T_FILE, [])])" using sample_disk [OF s] .
  let ?k = "kernel_of s 1"
  obtain k' where k: "ilock 0 ?k = Inr k'" using kernel_of_ilock [OF d, of 0 1] by (auto simp: hdr)
  note m = kernel_of_mounted [OF d, of 1]
  have l: "listing sample_args = [(1, [46]), (1, [46, 46]), (2, [99, 97, 116]), (3, [99, 97, 99, 104, 101, 46, 98, 105, 110])]"
    by (simp add: listing_def sample_args_def shortname_def strip_user_def bytes_of_def)
  have "dirlookup 0 (n @ [0]) k' =
      (case find_idx (\<lambda>(i, m). take DIRSIZ m = take DIRSIZ n) (listing sample_args) of
         None \<Rightarrow> Inr (k', None)
       | Some j \<Rightarrow> bindE (iget (i_dev (ino ?k 0)) (fst (listing sample_args ! j)) k') (\<lambda>(k, jp). Inr (k, Some (jp, DIRENT * j))))" if "0 \<notin> set n" for n
    by (rule mkfs_root_lookup [OF s sample_size m(1) _ _ _ k _ that]) (simp_all add: m(2) sample_args_def bytes_of_def ROOTINO_def)
  from this [of "bytes_of ''cat''"] this [of "bytes_of ''dog''"] show ?thesis using s m k unfolding l
    by (intro exI [of _ s] exI [of _ ?k] exI [of _ k']) (simp add: bytes_of_def hdr)
qed

theorem mkfs_bitmap_consistent_witness:
  "\<exists>s k. main sample_args = Inr s \<and> mounted s k \<and> bitmap_ok k \<and>
    own (img s) (d_addrs (dino (img s) 1)) \<inter> own (img s) (d_addrs (dino (img s) 2)) = {}"
proof -
  obtain s where s: "main sample_args = Inr s" using sample_main by blast
  obtain z where d: "disk_ok s ((T_DIR, root sample_args @ replicate z 0) # map stored sample_args @ [(T_FILE, [])])" using sample_disk [OF s] .
  note m = kernel_of_mounted(1) [OF d, of 1]
  note M = mkfs_bitmap_consistent [OF s sample_size m]
  have "(1 :: nat) \<in> {1..length sample_args + 2}" "(2 :: nat) \<in> {1..length sample_args + 2}" by auto
  with M have "own (img s) (d_addrs (dino (img s) (of_nat 1))) \<inter> own (img s) (d_addrs (dino (img s) (of_nat 2))) = {}" by (metis Suc_1 n_not_Suc_n)
  then show ?thesis using s m M by auto
qed

definition full_log :: "fsstate \<Rightarrow> fsstate" where
  "full_log k = k\<lparr>lg := (lg k)\<lparr>log_start := 2, lh_n := 30, lh_block := map of_nat [100..<130]\<rparr>\<rparr>"


end
