(* ===== verification/Uart.thy ===== *)
theory Uart
  imports Trap Locks "HOL-Library.Sublist"
begin

text \<open>
  \<open>kernel/uart.c\<close> and \<open>kernel/plic.c\<close>, the serial line and the interrupt controller.

  The registers of the 16550 are accessed as its data sheet says, which the source cites: a write to \<open>THR\<close> goes into the transmit FIFO and is lost when
  the FIFO is full; with the baud latch bit of \<open>LCR\<close> set, the first two registers are the divisor; a read of \<open>ISR\<close> and a write to \<open>THR\<close> clear the
  transmit interrupt, which is raised when the FIFO runs empty. What the device does on its own is a relation that only has to obey \<open>uart_may\<close>.
  \<open>u_given\<close> records the bytes written to \<open>THR\<close> and \<open>u_wire\<close> those that have left the device. The other theories take the UART as the
  list of the bytes given to it (\<open>uart_tx\<close> of the kernel); this theory shows that the line carries that list.
\<close>

section \<open>Registers\<close>

definition RHR :: nat where [hdr]: "RHR = 0"
definition THR :: nat where [hdr]: "THR = 0"
definition IER :: nat where [hdr]: "IER = 1"
definition IER_RX_ENABLE :: uchar where [hdr]: "IER_RX_ENABLE = 1"
definition IER_TX_ENABLE :: uchar where [hdr]: "IER_TX_ENABLE = 2"
definition FCR :: nat where [hdr]: "FCR = 2"
definition FCR_FIFO_ENABLE :: uchar where [hdr]: "FCR_FIFO_ENABLE = 1"
definition FCR_FIFO_CLEAR :: uchar where [hdr]: "FCR_FIFO_CLEAR = 6"
definition ISR :: nat where [hdr]: "ISR = 2"
definition LCR :: nat where [hdr]: "LCR = 3"
definition LCR_EIGHT_BITS :: uchar where [hdr]: "LCR_EIGHT_BITS = 3"
definition LCR_BAUD_LATCH :: uchar where [hdr]: "LCR_BAUD_LATCH = 128"
definition LSR :: nat where [hdr]: "LSR = 5"
definition LSR_RX_READY :: uchar where [hdr]: "LSR_RX_READY = 1"
definition LSR_TX_IDLE :: uchar where [hdr]: "LSR_TX_IDLE = 32"

record uart =
  u_ier :: uchar
  u_lcr :: uchar
  u_fcr :: uchar
  u_dll :: uchar
  u_dlm :: uchar
  u_tx :: bytes
  u_rx :: bytes
  u_irq :: bool
  u_given :: bytes
  u_wire :: bytes

definition depth :: "uart \<Rightarrow> nat" where
  "depth u = (if u_fcr u AND FCR_FIFO_ENABLE \<noteq> 0 then 16 else 1)"

definition WriteReg :: "nat \<Rightarrow> uchar \<Rightarrow> uart \<Rightarrow> uart" where
  "WriteReg r v u =
     (let latch = u_lcr u AND LCR_BAUD_LATCH \<noteq> 0
      in if r = 0 then
           (if latch then u\<lparr>u_dll := v\<rparr>
            else u\<lparr>u_given := u_given u @ [v], u_tx := (if length (u_tx u) < depth u then u_tx u @ [v] else u_tx u), u_irq := False\<rparr>)
         else if r = 1 then
           (if latch then u\<lparr>u_dlm := v\<rparr> else u\<lparr>u_ier := v, u_irq := (v AND IER_TX_ENABLE \<noteq> 0 \<and> (u_irq u \<or> u_tx u = []))\<rparr>)
         else if r = 2 then
           u\<lparr>u_fcr := v, u_rx := (if v AND 2 \<noteq> 0 then [] else u_rx u), u_tx := (if v AND 4 \<noteq> 0 then [] else u_tx u)\<rparr>
         else if r = 3 then u\<lparr>u_lcr := v\<rparr>
         else u)"

definition ReadReg :: "nat \<Rightarrow> uart \<Rightarrow> uchar \<times> uart" where
  "ReadReg r u =
     (if r = 0 then (case u_rx u of [] \<Rightarrow> (0, u) | c # cs \<Rightarrow> (c, u\<lparr>u_rx := cs\<rparr>))
      else if r = 1 then (u_ier u, u)
      else if r = 2 then ((if u_irq u then 2 else 1), u\<lparr>u_irq := False\<rparr>)
      else if r = 3 then (u_lcr u, u)
      else if r = 5 then ((if u_rx u \<noteq> [] then LSR_RX_READY else 0) OR (if u_tx u = [] then LSR_TX_IDLE else 0), u)
      else (0, u))"

text \<open>What the device may do between two accesses: send the oldest byte, or receive one.\<close>

definition send :: "uart \<Rightarrow> uart" where
  "send u = u\<lparr>u_wire := u_wire u @ [hd (u_tx u)], u_tx := tl (u_tx u),
     u_irq := (if tl (u_tx u) = [] \<and> u_ier u AND IER_TX_ENABLE \<noteq> 0 then True else u_irq u)\<rparr>"

definition uart_may :: "uart \<Rightarrow> uart \<Rightarrow> bool" where
  "uart_may u u' \<longleftrightarrow> (u_tx u \<noteq> [] \<and> u' = send u) \<or> (\<exists>c. u' = u\<lparr>u_rx := u_rx u @ [c]\<rparr>)"

text \<open>A device that makes progress sends what is in its FIFO.\<close>

definition uart_sends :: "(uart \<Rightarrow> uart \<Rightarrow> bool) \<Rightarrow> bool" where
  "uart_sends D \<longleftrightarrow> (\<forall>u. u_tx u \<noteq> [] \<longrightarrow> D u (send u))"

section \<open>uart.c\<close>

definition uartinit :: "uart \<Rightarrow> uart" where
  "uartinit u =
     (let u = WriteReg IER 0 u;
          u = WriteReg LCR LCR_BAUD_LATCH u;
          u = WriteReg 0 3 u;
          u = WriteReg 1 0 u;
          u = WriteReg LCR LCR_EIGHT_BITS u;
          u = WriteReg FCR (FCR_FIFO_ENABLE OR FCR_FIFO_CLEAR) u
      in WriteReg IER (IER_TX_ENABLE OR IER_RX_ENABLE) u)"

text \<open>\<open>uartwrite\<close>, from one sleep to the next: the bytes that are left when it has to wait for the UART, with \<open>tx_busy\<close>.\<close>

fun uartwrite :: "bytes \<Rightarrow> int \<Rightarrow> uart \<Rightarrow> bytes \<times> int \<times> uart" where
  "uartwrite [] tx_busy u = ([], tx_busy, u)"
| "uartwrite (c # buf) tx_busy u =
     (if tx_busy \<noteq> 0 then (c # buf, tx_busy, u) else uartwrite buf 1 (WriteReg THR c u))"

definition tx_idle :: "uart \<Rightarrow> bool" where
  "tx_idle u \<longleftrightarrow> fst (ReadReg LSR u) AND LSR_TX_IDLE \<noteq> 0"

text \<open>A CPU that finds \<open>panicked\<close> set, or the UART not ready, spins: \<open>Blocked\<close>, to be tried again.\<close>

definition uartputc_sync :: "bool \<Rightarrow> bool \<Rightarrow> uchar \<Rightarrow> cpu \<Rightarrow> uart \<Rightarrow> (cpu \<times> uart) res" where
  "uartputc_sync panicking panicked c h u =
     (let h = (if panicking then h else push_off h)
      in if panicked then Inl Blocked
         else if \<not> tx_idle u then Inl Blocked
         else (let u = WriteReg THR c u
               in if panicking then Inr (h, u) else bindE (pop_off h) (\<lambda>h. Inr (h, u))))"

definition uartgetc :: "uart \<Rightarrow> int \<times> uart" where
  "uartgetc u =
     (if fst (ReadReg LSR u) AND LSR_RX_READY \<noteq> 0
      then (let (c, u) = ReadReg RHR u in (uint c, u))
      else (-1, u))"

text \<open>The three parts of \<open>uartintr\<close>: the acknowledgement, the critical section of \<open>tx_lock\<close> (the new \<open>tx_busy\<close>, and whether it calls
  \<open>wakeup(&tx_chan)\<close>), and the loop over the input.\<close>

definition intr_ack :: "uart \<Rightarrow> uart" where
  "intr_ack u = snd (ReadReg ISR u)"

definition intr_tx :: "int \<Rightarrow> uart \<Rightarrow> int \<times> bool" where
  "intr_tx tx_busy u = (if tx_idle u then (0, True) else (tx_busy, False))"

lemma and_one: "(1 :: uchar) AND 1 = 1" "(33 :: uchar) AND 1 = 1" "(32 :: uchar) AND 1 = 0" "(1 :: uchar) AND 32 = 0" "(33 :: uchar) AND 32 = 32" "(1 OR 32 :: uchar) = 33"
  by code_simp+

lemma tx_idle_iff [simp]: "tx_idle u \<longleftrightarrow> u_tx u = []"
  by (simp add: tx_idle_def ReadReg_def hdr and_one)

lemma uartgetc_eq [simp]: "uartgetc u = (case u_rx u of [] \<Rightarrow> (-1, u) | c # cs \<Rightarrow> (uint c, u\<lparr>u_rx := cs\<rparr>))"
  by (simp add: uartgetc_def ReadReg_def hdr and_one split: list.splits)

function intr_rx :: "uart \<Rightarrow> bytes \<times> uart" where
  "intr_rx u =
     (let (c, u') = uartgetc u
      in if c = -1 then ([], u')
         else (let (cs, u'') = intr_rx u' in (word_of_int c # cs, u'')))"
  by pat_completeness auto
termination
  by (relation "measure (\<lambda>u. length (u_rx u))") (auto split: list.splits)

declare intr_rx.simps [simp del]

definition uartintr :: "int \<Rightarrow> uart \<Rightarrow> kernel \<Rightarrow> (int \<times> bool \<times> uart \<times> kernel) res" where
  "uartintr tx_busy u k =
     (let u = intr_ack u;
          (tx_busy, woken) = intr_tx tx_busy u;
          (cs, u) = intr_rx u
      in bindE (Trap.uartintr cs k) (\<lambda>k. Inr (tx_busy, woken, u, k)))"

lemma intr_rx_eq: "intr_rx u = (u_rx u, u\<lparr>u_rx := []\<rparr>)"
proof (induction "u_rx u" arbitrary: u)
  case Nil
  then show ?case by (subst intr_rx.simps) (cases u, simp)
next
  case (Cons c cs)
  then have "u_rx u = c # cs" by simp
  moreover have "intr_rx (u\<lparr>u_rx := cs\<rparr>) = (cs, u\<lparr>u_rx := []\<rparr>)" using Cons.hyps(1) [of "u\<lparr>u_rx := cs\<rparr>"] by simp
  moreover have "uint c \<noteq> -1" by (metis uint_lt_0 neg_less_0_iff_less zero_less_one)
  ultimately show ?case by (subst intr_rx.simps) simp
qed

text \<open>The interrupt handler gives the console all the input that has arrived, in order.\<close>

lemma uartintr_drains:
  "uartintr tx_busy u k =
    bindE (Trap.uartintr (u_rx u) k) (\<lambda>k. Inr (if u_tx u = [] then 0 else tx_busy, u_tx u = [], u\<lparr>u_irq := False, u_rx := []\<rparr>, k))"
  by (simp add: uartintr_def intr_ack_def intr_tx_def intr_rx_eq ReadReg_def Let_def hdr)

section \<open>Writers, interrupts and the device\<close>

text \<open>
  The UART in use: calls of \<open>uartwrite\<close> (the bytes sent so far, those that are left, and whether the call sleeps), CPUs inside \<open>uartputc_sync\<close> that
  have seen the UART ready and have not yet written their byte (each CPU has its interrupts off there), and the handlers that have acknowledged
  the interrupt and have not yet looked at \<open>LSR\<close>.
\<close>

record writer =
  w_buf :: bytes
  w_sent :: bytes
  w_rest :: bytes
  w_asleep :: bool

record uartsys =
  dev :: uart
  busy :: int
  writers :: "writer list"
  polled :: "nat \<rightharpoonup> uchar"
  acked :: nat

definition NCPU :: nat where [hdr]: "NCPU = 8"

definition run_writer :: "writer \<Rightarrow> uartsys \<Rightarrow> writer \<times> uartsys" where
  "run_writer w s =
     (let (rest, b, u) = uartwrite (w_rest w) (busy s) (dev s)
      in (w\<lparr>w_sent := w_sent w @ take (length (w_rest w) - length rest) (w_rest w), w_rest := rest, w_asleep := (rest \<noteq> [])\<rparr>,
          s\<lparr>busy := b, dev := u\<rparr>))"

inductive ustep :: "(uart \<Rightarrow> uart \<Rightarrow> bool) \<Rightarrow> uartsys \<Rightarrow> uartsys \<Rightarrow> bool" for D where
  device: "D (dev s) u \<Longrightarrow> ustep D s (s\<lparr>dev := u\<rparr>)"
| write_call: "ustep D s (s\<lparr>writers := writers s @ [\<lparr>w_buf = buf, w_sent = [], w_rest = buf, w_asleep = False\<rparr>]\<rparr>)"
| write_run: "i < length (writers s) \<Longrightarrow> \<not> w_asleep (writers s ! i) \<Longrightarrow> run_writer (writers s ! i) s = (w, s') \<Longrightarrow>
    ustep D s (s'\<lparr>writers := (writers s)[i := w]\<rparr>)"
| putc_poll: "h < NCPU \<Longrightarrow> polled s h = None \<Longrightarrow> tx_idle (dev s) \<Longrightarrow> ustep D s (s\<lparr>polled := (polled s)(h \<mapsto> c)\<rparr>)"
| putc_send: "polled s h = Some c \<Longrightarrow> ustep D s (s\<lparr>dev := WriteReg THR c (dev s), polled := (polled s)(h := None)\<rparr>)"
| intr: "u_irq (dev s) \<or> u_rx (dev s) \<noteq> [] \<Longrightarrow> ustep D s (s\<lparr>dev := intr_ack (dev s), acked := Suc (acked s)\<rparr>)"
| intr_lock: "0 < acked s \<Longrightarrow> intr_tx (busy s) (dev s) = (b, woken) \<Longrightarrow>
    ustep D s (s\<lparr>busy := b, acked := acked s - 1,
      writers := (if woken then map (\<lambda>w. w\<lparr>w_asleep := False\<rparr>) (writers s) else writers s)\<rparr>)"
| getc: "uartgetc (dev s) = (c, u) \<Longrightarrow> ustep D s (s\<lparr>dev := u\<rparr>)"

inductive_cases ustepE: "ustep D s s'"

definition uart_boot :: "uart \<Rightarrow> uartsys" where
  "uart_boot u = \<lparr>dev = uartinit u, busy = 0, writers = [], polled = Map.empty, acked = 0\<rparr>"

section \<open>Invariant\<close>

text \<open>
  The registers are set up; the line carries the bytes given, in order; the transmit FIFO has room for every byte that may still be written before
  the UART is seen idle again; a sleeping writer waits for a UART that is busy, and when the UART is busy an interrupt will come.
\<close>

definition regs_ok :: "uart \<Rightarrow> bool" where
  "regs_ok u \<longleftrightarrow> depth u = 16 \<and> u_lcr u AND LCR_BAUD_LATCH = 0 \<and> u_ier u AND IER_TX_ENABLE \<noteq> 0"

definition room :: "uartsys \<Rightarrow> bool" where
  "room s \<longleftrightarrow> dom (polled s) \<subseteq> {..<NCPU} \<and>
     length (u_tx (dev s)) + (if busy s = 0 then 1 else 0) + card (dom (polled s)) \<le> NCPU + 1"

definition writers_ok :: "uartsys \<Rightarrow> bool" where
  "writers_ok s \<longleftrightarrow> (\<forall>w\<in>set (writers s). w_buf w = w_sent w @ w_rest w \<and> subseq (w_sent w) (u_given (dev s)) \<and> (w_asleep w \<longrightarrow> busy s \<noteq> 0))"

definition wake_ok :: "uartsys \<Rightarrow> bool" where
  "wake_ok s \<longleftrightarrow> (busy s \<noteq> 0 \<longrightarrow> u_tx (dev s) \<noteq> [] \<or> u_irq (dev s) \<or> 0 < acked s)"

definition uinv :: "uartsys \<Rightarrow> bool" where
  "uinv s \<longleftrightarrow> regs_ok (dev s) \<and> u_wire (dev s) @ u_tx (dev s) = u_given (dev s) \<and> room s \<and> writers_ok s \<and> wake_ok s"

lemmas uinv_defs = uinv_def regs_ok_def room_def writers_ok_def wake_ok_def

lemma put_byte:
  assumes "regs_ok u" "length (u_tx u) < 16"
  shows "WriteReg THR c u = u\<lparr>u_given := u_given u @ [c], u_tx := u_tx u @ [c], u_irq := False\<rparr>"
  using assms by (simp add: WriteReg_def regs_ok_def Let_def THR_def)

lemma regs_ok_cong [simp]: "regs_ok (u\<lparr>u_given := g\<rparr>) = regs_ok u" "regs_ok (u\<lparr>u_tx := t\<rparr>) = regs_ok u" "regs_ok (u\<lparr>u_rx := r\<rparr>) = regs_ok u" "regs_ok (u\<lparr>u_irq := q\<rparr>) = regs_ok u"
  "regs_ok (send u) = regs_ok u"
  by (simp_all add: regs_ok_def depth_def send_def)

lemma boot_inv: "u_given u = u_wire u \<Longrightarrow> uinv (uart_boot u)"
  by (simp add: uinv_defs uart_boot_def uartinit_def WriteReg_def depth_def Let_def hdr)

lemma uartwrite_eq: "uartwrite buf b u = (if b \<noteq> 0 \<or> buf = [] then (buf, b, u) else (tl buf, 1, WriteReg THR (hd buf) u))"
proof (cases buf)
  case (Cons c cs)
  then show ?thesis by (cases cs) simp_all
qed simp

lemma run_writer_eq:
  "run_writer w s =
    (if busy s \<noteq> 0 \<or> w_rest w = [] then (w\<lparr>w_asleep := (w_rest w \<noteq> [])\<rparr>, s)
     else (w\<lparr>w_sent := w_sent w @ [hd (w_rest w)], w_rest := tl (w_rest w), w_asleep := (tl (w_rest w) \<noteq> [])\<rparr>,
           s\<lparr>busy := 1, dev := WriteReg THR (hd (w_rest w)) (dev s)\<rparr>))"
  by (cases "w_rest w") (simp_all add: run_writer_def uartwrite_eq)

lemma room_put: "room s \<Longrightarrow> busy s = 0 \<or> dom (polled s) \<noteq> {} \<Longrightarrow> length (u_tx (dev s)) < 16"
proof -
  assume r: "room s" and b: "busy s = 0 \<or> dom (polled s) \<noteq> {}"
  then have "finite (dom (polled s))" by (auto simp: room_def intro: finite_subset)
  then have "busy s \<noteq> 0 \<Longrightarrow> 0 < card (dom (polled s))" using b by (simp add: card_gt_0_iff)
  then show ?thesis using r by (auto simp: room_def NCPU_def split: if_splits)
qed

lemma write_run_inv:
  assumes inv: "uinv s" and i: "i < length (writers s)" and r: "run_writer (writers s ! i) s = (w, s')"
  shows "uinv (s'\<lparr>writers := (writers s)[i := w]\<rparr>)"
proof (cases "busy s \<noteq> 0 \<or> w_rest (writers s ! i) = []")
  case True
  then have "w = (writers s ! i)\<lparr>w_asleep := (w_rest (writers s ! i) \<noteq> [])\<rparr>" "s' = s" using r by (auto simp: run_writer_eq)
  then show ?thesis using inv i True nth_mem [OF i]
    by (auto simp: uinv_def room_def writers_ok_def wake_ok_def dest!: set_update_subset_insert [THEN subsetD])
next
  case False
  let ?w = "writers s ! i" and ?c = "hd (w_rest (writers s ! i))"
  have w: "w = ?w\<lparr>w_sent := w_sent ?w @ [?c], w_rest := tl (w_rest ?w), w_asleep := (tl (w_rest ?w) \<noteq> [])\<rparr>" and s': "s' = s\<lparr>busy := 1, dev := WriteReg THR ?c (dev s)\<rparr>"
    using r False by (auto simp: run_writer_eq)
  have I: "regs_ok (dev s)" "room s" "writers_ok s" "u_wire (dev s) @ u_tx (dev s) = u_given (dev s)" using inv by (auto simp: uinv_def)
  have P: "WriteReg THR ?c (dev s) = (dev s)\<lparr>u_given := u_given (dev s) @ [?c], u_tx := u_tx (dev s) @ [?c], u_irq := False\<rparr>"
    using put_byte [OF I(1) room_put [OF I(2)]] False by blast
  have "w_buf w = w_sent w @ w_rest w" using I(3) nth_mem [OF i] False by (cases "w_rest ?w") (auto simp: writers_ok_def w)
  moreover have "subseq (w_sent ?w @ [?c]) (u_given (dev s) @ [?c])" using I(3) nth_mem [OF i] by (auto simp: writers_ok_def)
  moreover have "w_buf v = w_sent v @ w_rest v" "subseq (w_sent v) (u_given (dev s) @ [?c])" if "v \<in> set (writers s)" for v
    using I(3) that by (auto simp: writers_ok_def intro: subseq_rev_drop_many)
  ultimately have "writers_ok (s'\<lparr>writers := (writers s)[i := w]\<rparr>)"
    by (auto simp: writers_ok_def s' P w dest!: set_update_subset_insert [THEN subsetD])
  moreover have "room (s'\<lparr>writers := (writers s)[i := w]\<rparr>)" using I(2) False by (simp add: room_def s' P)
  ultimately show ?thesis using I by (simp add: uinv_def wake_ok_def s' P flip: append_assoc)
qed

lemma putc_send_inv:
  assumes inv: "uinv s" and p: "polled s h = Some c"
  shows "uinv (s\<lparr>dev := WriteReg THR c (dev s), polled := (polled s)(h := None)\<rparr>)"
proof -
  have I: "regs_ok (dev s)" "room s" "writers_ok s" "u_wire (dev s) @ u_tx (dev s) = u_given (dev s)" using inv by (auto simp: uinv_def)
  have P: "WriteReg THR c (dev s) = (dev s)\<lparr>u_given := u_given (dev s) @ [c], u_tx := u_tx (dev s) @ [c], u_irq := False\<rparr>"
    using put_byte [OF I(1) room_put [OF I(2)]] p by blast
  have h: "h \<in> dom (polled s)" "finite (dom (polled s))" using p I(2) by (auto simp: room_def intro: finite_subset)
  then have "0 < card (dom (polled s))" by (auto simp: card_gt_0_iff)
  then have "room (s\<lparr>dev := WriteReg THR c (dev s), polled := (polled s)(h := None)\<rparr>)"
    using I(2) h by (auto simp: room_def P card_Diff_singleton)
  then show ?thesis using I by (auto simp: uinv_def writers_ok_def wake_ok_def P intro: subseq_rev_drop_many simp flip: append_assoc)
qed

lemma putc_poll_inv:
  assumes inv: "uinv s" and p: "h < NCPU" "polled s h = None" "tx_idle (dev s)"
  shows "uinv (s\<lparr>polled := (polled s)(h \<mapsto> c)\<rparr>)"
proof -
  have d: "dom (polled s) \<subseteq> {..<NCPU}" using inv by (simp add: uinv_def room_def)
  then have "insert h (dom (polled s)) \<subseteq> {..<NCPU}" using p by auto
  then have "card (insert h (dom (polled s))) \<le> NCPU" using card_mono [of "{..<NCPU}"] by fastforce
  then show ?thesis using inv p d by (auto simp: uinv_def room_def writers_ok_def wake_ok_def)
qed

lemma device_inv: "uinv s \<Longrightarrow> uart_may (dev s) u \<Longrightarrow> uinv (s\<lparr>dev := u\<rparr>)"
proof -
  assume inv: "uinv s" and m: "uart_may (dev s) u"
  consider "u_tx (dev s) \<noteq> []" "u = send (dev s)" | c where "u = (dev s)\<lparr>u_rx := u_rx (dev s) @ [c]\<rparr>" using m by (auto simp: uart_may_def)
  then show ?thesis
  proof cases
    case 1
    then obtain b bs where t: "u_tx (dev s) = b # bs" by (cases "u_tx (dev s)") auto
    have "wake_ok (s\<lparr>dev := u\<rparr>)" using inv t 1 by (auto simp: uinv_def wake_ok_def regs_ok_def send_def)
    moreover have "regs_ok u" "room (s\<lparr>dev := u\<rparr>)" "writers_ok (s\<lparr>dev := u\<rparr>)" "u_wire u @ u_tx u = u_given u"
      using inv t 1(2) by (auto simp: uinv_def room_def writers_ok_def send_def regs_ok_def depth_def)
    ultimately show ?thesis by (simp add: uinv_def)
  next
    case 2
    then show ?thesis using inv by (auto simp: uinv_def room_def writers_ok_def wake_ok_def)
  qed
qed

lemma ustep_inv:
  assumes "ustep D s s'" and "D \<le> uart_may" and inv: "uinv s"
  shows "uinv s'"
  using assms(1)
proof cases
  case (device u)
  then have "uart_may (dev s) u" using assms(2) by auto
  then show ?thesis unfolding device using device_inv [OF inv] by blast
next
  case (write_run i w s1)
  then show ?thesis using write_run_inv [OF inv] by blast
next
  case (putc_poll h c)
  then show ?thesis using putc_poll_inv [OF inv] by blast
next
  case (putc_send h c)
  then show ?thesis using putc_send_inv [OF inv] by blast
next
  case (intr_lock b woken)
  have "card (dom (polled s)) \<le> NCPU" using inv card_mono [of "{..<NCPU}" "dom (polled s)"] by (simp add: uinv_def room_def)
  then show ?thesis using inv intr_lock
    by (cases "tx_idle (dev s)") (auto simp: uinv_def room_def writers_ok_def wake_ok_def intr_tx_def)
qed (use inv in \<open>auto simp: uinv_def room_def writers_ok_def wake_ok_def intr_ack_def ReadReg_def hdr split: list.splits\<close>)

lemma usteps_inv: "(ustep D)\<^sup>*\<^sup>* s s' \<Longrightarrow> D \<le> uart_may \<Longrightarrow> uinv s \<Longrightarrow> uinv s'"
  by (induction rule: rtranclp_induct) (auto intro: ustep_inv)

text \<open>
  C17. The serial line carries the bytes that the kernel gives to the UART. Whatever calls of \<open>uartwrite\<close> and \<open>uartputc_sync\<close>, interrupts and
  steps of the device are interleaved after \<open>uartinit\<close>: no byte is lost, although \<open>uartwrite\<close> does not look whether the UART has room and
  \<open>uartputc_sync\<close> does not set \<open>tx_busy\<close>, since the FIFO never holds more than \<open>NCPU + 1\<close> bytes; what has been sent, followed by the contents
  of the FIFO, is the sequence of bytes written to it; and the bytes of each \<open>uartwrite\<close> appear in it in their order.
\<close>

theorem uart_line_carries_given:
  assumes "D \<le> uart_may" and "u_given u = u_wire u" and "(ustep D)\<^sup>*\<^sup>* (uart_boot u) s"
  shows "u_wire (dev s) @ u_tx (dev s) = u_given (dev s) \<and> length (u_tx (dev s)) \<le> NCPU + 1 \<and>
    (\<forall>w\<in>set (writers s). w_buf w = w_sent w @ w_rest w \<and> subseq (w_sent w) (u_given (dev s)))"
  using usteps_inv [OF assms(3,1) boot_inv [OF assms(2)]] by (auto simp: uinv_def room_def writers_ok_def)

section \<open>Progress\<close>

lemma drain:
  assumes "uart_sends D"
  shows "\<exists>u. (ustep D)\<^sup>*\<^sup>* s (s\<lparr>dev := u\<rparr>) \<and> u_tx u = []"
proof (induction "u_tx (dev s)" arbitrary: s)
  case Nil
  then show ?case by (intro exI [of _ "dev s"]) simp
next
  case (Cons b bs)
  let ?s = "s\<lparr>dev := send (dev s)\<rparr>"
  have "bs = u_tx (dev ?s)" by (simp add: send_def flip: Cons.hyps(2))
  from Cons.hyps(1) [OF this] obtain u where u: "(ustep D)\<^sup>*\<^sup>* ?s (?s\<lparr>dev := u\<rparr>)" "u_tx u = []" by blast
  have "u_tx (dev s) \<noteq> []" by (simp flip: Cons.hyps(2))
  then have "ustep D s ?s" using assms by (intro ustep.device) (simp add: uart_sends_def)
  then show ?case using u by (auto intro: converse_rtranclp_into_rtranclp)
qed

lemma ready:
  assumes D: "uart_sends D" and le: "D \<le> uart_may" and inv: "uinv s"
  shows "\<exists>t. (ustep D)\<^sup>*\<^sup>* s t \<and> busy t = 0 \<and> map w_rest (writers t) = map w_rest (writers s) \<and> map w_buf (writers t) = map w_buf (writers s)"
proof (cases "busy s = 0")
  case False
  obtain u where u: "(ustep D)\<^sup>*\<^sup>* s (s\<lparr>dev := u\<rparr>)" "u_tx u = []" using drain [OF D] by blast
  let ?s = "s\<lparr>dev := u\<rparr>"
  have "wake_ok ?s" using usteps_inv [OF u(1) le inv] by (simp add: uinv_def)
  then have "u_irq u \<or> 0 < acked s" using False u(2) by (simp add: wake_ok_def)
  then obtain t where t: "(ustep D)\<^sup>*\<^sup>* ?s t" "0 < acked t" "u_tx (dev t) = []" "writers t = writers s"
  proof (cases "0 < acked s")
    case irq: False
    let ?t = "?s\<lparr>dev := intr_ack (dev ?s), acked := Suc (acked ?s)\<rparr>"
    have "ustep D ?s ?t" by (rule ustep.intr) (use irq \<open>u_irq u \<or> 0 < acked s\<close> in simp)
    then show ?thesis using that [of ?t] u(2) by (auto simp: intr_ack_def ReadReg_def hdr)
  qed (use u(2) that [of ?s] in simp)
  let ?t = "t\<lparr>busy := 0, acked := acked t - 1,
      writers := (if True then map (\<lambda>w. w\<lparr>w_asleep := False\<rparr>) (writers t) else writers t)\<rparr>"
  have "ustep D t ?t" by (rule ustep.intr_lock [OF t(2)]) (simp add: intr_tx_def t(3))
  then have "(ustep D)\<^sup>*\<^sup>* s ?t" using u(1) t(1) by (meson rtranclp.rtrancl_into_rtrancl rtranclp_trans)
  then show ?thesis using t(3,4) by (intro exI [of _ ?t]) (simp add: o_def)
qed auto

lemma write_finishes:
  assumes D: "uart_sends D" and le: "D \<le> uart_may"
  shows "uinv s \<Longrightarrow> i < length (writers s) \<Longrightarrow> w_rest (writers s ! i) = r \<Longrightarrow>
    \<exists>t. (ustep D)\<^sup>*\<^sup>* s t \<and> i < length (writers t) \<and> w_rest (writers t ! i) = [] \<and> w_buf (writers t ! i) = w_buf (writers s ! i)"
proof (induction r arbitrary: s)
  case (Cons c cs)
  obtain t where t: "(ustep D)\<^sup>*\<^sup>* s t" "busy t = 0" "map w_rest (writers t) = map w_rest (writers s)" "map w_buf (writers t) = map w_buf (writers s)"
    using ready [OF D le Cons.prems(1)] by blast
  have i: "i < length (writers t)" using Cons.prems(2) arg_cong [OF t(3), of length] by simp
  have e: "w_rest (writers t ! i) = c # cs" "w_buf (writers t ! i) = w_buf (writers s ! i)"
    using arg_cong [OF t(3), of "\<lambda>l. l ! i"] arg_cong [OF t(4), of "\<lambda>l. l ! i"] i Cons.prems by simp_all
  have inv: "uinv t" by (rule usteps_inv [OF t(1) le Cons.prems(1)])
  then have "\<not> w_asleep (writers t ! i)" using t(2) nth_mem [OF i] by (auto simp: uinv_def writers_ok_def)
  moreover obtain w t' where r: "run_writer (writers t ! i) t = (w, t')" "w_rest w = cs" "w_buf w = w_buf (writers t ! i)"
    using e t(2) by (simp add: run_writer_eq)
  ultimately have st: "ustep D t (t'\<lparr>writers := (writers t)[i := w]\<rparr>)" using i by (intro ustep.write_run)
  from Cons.IH [OF ustep_inv [OF st le inv]] i r e obtain t2
    where "(ustep D)\<^sup>*\<^sup>* (t'\<lparr>writers := (writers t)[i := w]\<rparr>) t2" "i < length (writers t2)" "w_rest (writers t2 ! i) = []" "w_buf (writers t2 ! i) = w_buf (writers s ! i)"
    by auto
  moreover from this(1) st t(1) have "(ustep D)\<^sup>*\<^sup>* s t2" by (meson converse_rtranclp_into_rtranclp rtranclp_trans)
  ultimately show ?case by blast
qed auto

text \<open>
  C27. No call of \<open>uartwrite\<close> waits for an interrupt that never comes. If the device sends what is in its FIFO, then in every reachable state
  every call can be completed: the device, the interrupt handler and the call itself have steps after which all its bytes have been given to
  the UART. In particular no wake-up is lost when a byte of \<open>uartputc_sync\<close> keeps the UART busy while the handler looks at it.
\<close>

theorem uartwrite_completes:
  assumes "D \<le> uart_may" and "uart_sends D" and "u_given u = u_wire u" and "(ustep D)\<^sup>*\<^sup>* (uart_boot u) s"
    and "i < length (writers s)"
  shows "\<exists>t. (ustep D)\<^sup>*\<^sup>* s t \<and> i < length (writers t) \<and> w_buf (writers t ! i) = w_buf (writers s ! i) \<and> w_sent (writers t ! i) = w_buf (writers s ! i) \<and>
    subseq (w_buf (writers s ! i)) (u_given (dev t))"
proof -
  have inv: "uinv s" by (rule usteps_inv [OF assms(4,1) boot_inv [OF assms(3)]])
  from write_finishes [OF assms(2,1) inv assms(5) refl] obtain t
    where t: "(ustep D)\<^sup>*\<^sup>* s t" "i < length (writers t)" "w_rest (writers t ! i) = []" "w_buf (writers t ! i) = w_buf (writers s ! i)" by blast
  have "writers_ok t" using usteps_inv [OF t(1) assms(1) inv] by (simp add: uinv_def)
  then have "w_buf (writers t ! i) = w_sent (writers t ! i) \<and> subseq (w_sent (writers t ! i)) (u_given (dev t))"
    using t(3) nth_mem [OF t(2)] by (auto simp: writers_ok_def)
  then show ?thesis using t by auto
qed

text \<open>A device that only sends, and one call of \<open>uartwrite\<close> with two bytes.\<close>

definition sender :: "uart \<Rightarrow> uart \<Rightarrow> bool" where
  "sender u u' \<longleftrightarrow> u_tx u \<noteq> [] \<and> u' = send u"

definition uart_zero :: uart where
  "uart_zero = \<lparr>u_ier = 0, u_lcr = 0, u_fcr = 0, u_dll = 0, u_dlm = 0, u_tx = [], u_rx = [], u_irq = False, u_given = [], u_wire = []\<rparr>"

definition one_call :: uartsys where
  "one_call = (uart_boot uart_zero)\<lparr>writers := [\<lparr>w_buf = [104, 105], w_sent = [], w_rest = [104, 105], w_asleep = False\<rparr>]\<rparr>"

lemma sender_ok: "sender \<le> uart_may" "uart_sends sender"
  by (auto simp: sender_def uart_may_def uart_sends_def)

lemma one_call_reachable: "(ustep D)\<^sup>*\<^sup>* (uart_boot uart_zero) one_call"
  using ustep.write_call [of D "uart_boot uart_zero" "[104, 105]"] by (auto simp: one_call_def uart_boot_def)

theorem uart_line_carries_given_witness:
  "u_wire (dev one_call) @ u_tx (dev one_call) = u_given (dev one_call) \<and> length (u_tx (dev one_call)) \<le> 9"
  using uart_line_carries_given [OF sender_ok(1) _ one_call_reachable] by (simp add: uart_zero_def NCPU_def)

theorem uartwrite_completes_witness:
  "\<exists>t. (ustep sender)\<^sup>*\<^sup>* one_call t \<and> subseq [104, 105] (u_given (dev t))"
  using uartwrite_completes [OF sender_ok _ one_call_reachable, of 0] by (auto simp: uart_zero_def one_call_def)

text \<open>The two steps of the system for \<open>uartputc_sync\<close> are the function, when nothing happens between its test and its write.\<close>

lemma uartputc_sync_steps:
  assumes "uartputc_sync False False c h (dev s) = Inr (h', u)" and "i < NCPU" "polled s i = None"
  shows "(ustep D)\<^sup>*\<^sup>* s (s\<lparr>dev := u\<rparr>)"
proof -
  have idle: "tx_idle (dev s)" and u: "u = WriteReg THR c (dev s)" using assms(1) by (auto simp: uartputc_sync_def Let_def split: if_splits)
  let ?s = "s\<lparr>polled := (polled s)(i \<mapsto> c)\<rparr>"
  have "ustep D s ?s" by (rule ustep.putc_poll [OF assms(2,3) idle])
  moreover have "ustep D ?s (?s\<lparr>dev := WriteReg THR c (dev ?s), polled := (polled ?s)(i := None)\<rparr>)" by (rule ustep.putc_send) simp
  moreover have "(polled s)(i := None) = polled s" using assms(3) by auto
  ultimately show ?thesis by (auto simp: u intro: rtranclp_trans)
qed

lemma uartputc_sync_cpu:
  "wf_cpu h \<Longrightarrow> u_tx u = [] \<Longrightarrow> \<exists>h'. uartputc_sync False False c h u = Inr (h', WriteReg THR c u) \<and> noff h' = noff h \<and> sstatus_sie h' = sstatus_sie h"
  using pop_push [of h] by (auto simp: uartputc_sync_def)

section \<open>plic.c\<close>

text \<open>The registers of the interrupt controller that the kernel writes, by address. What a read of the claim register returns is the device's choice.\<close>

definition PLIC_SENABLE :: "nat \<Rightarrow> uint64" where "PLIC_SENABLE hart = PLIC + 0x2080 + of_nat hart * 0x100"
definition PLIC_SPRIORITY :: "nat \<Rightarrow> uint64" where "PLIC_SPRIORITY hart = PLIC + 0x201000 + of_nat hart * 0x2000"
definition PLIC_SCLAIM :: "nat \<Rightarrow> uint64" where "PLIC_SCLAIM hart = PLIC + 0x201004 + of_nat hart * 0x2000"

definition plicinit :: "(uint64 \<Rightarrow> uint) \<Rightarrow> uint64 \<Rightarrow> uint" where
  "plicinit m = m(PLIC + of_int UART0_IRQ * 4 := 1, PLIC + of_int VIRTIO0_IRQ * 4 := 1)"

definition plicinithart :: "nat \<Rightarrow> (uint64 \<Rightarrow> uint) \<Rightarrow> uint64 \<Rightarrow> uint" where
  "plicinithart hart m =
     m(PLIC_SENABLE hart := push_bit (nat UART0_IRQ) 1 OR push_bit (nat VIRTIO0_IRQ) 1, PLIC_SPRIORITY hart := 0)"

definition plic_claim :: "nat \<Rightarrow> (uint64 \<Rightarrow> uint) \<Rightarrow> int" where
  "plic_claim hart read = sint (read (PLIC_SCLAIM hart))"

definition plic_complete :: "nat \<Rightarrow> int \<Rightarrow> uint64 \<times> uint" where
  "plic_complete hart irq = (PLIC_SCLAIM hart, of_int irq)"

text \<open>The controller passes an interrupt on to a hart that has enabled it, when its priority is above the hart's threshold.\<close>

definition delivers :: "(uint64 \<Rightarrow> uint) \<Rightarrow> nat \<Rightarrow> nat \<Rightarrow> bool" where
  "delivers m hart irq \<longleftrightarrow> bit (m (PLIC_SENABLE hart)) irq \<and> m (PLIC_SPRIORITY hart) < m (PLIC + of_nat irq * 4)"

definition plic_unat :: "uint64 \<Rightarrow> nat" where
  "plic_unat a = unat (a - PLIC)"

lemma plic_addr:
  assumes "h < 8"
  shows "plic_unat (PLIC_SENABLE h) = 0x2080 + h * 0x100" "plic_unat (PLIC_SPRIORITY h) = 0x201000 + h * 0x2000"
    "plic_unat (PLIC + of_int UART0_IRQ * 4) = 40" "plic_unat (PLIC + of_int VIRTIO0_IRQ * 4) = 4"
proof -
  have e: "plic_unat (PLIC + a) = unat a" for a by (simp add: plic_unat_def)
  have u: "unat (of_nat n :: uint64) = n" if "n < 2 ^ 32" for n using that by (simp add: unsigned_of_nat take_bit_nat_eq_self)
  have "PLIC_SENABLE h = PLIC + of_nat (0x2080 + h * 0x100)" "PLIC_SPRIORITY h = PLIC + of_nat (0x201000 + h * 0x2000)"
    by (simp_all add: PLIC_SENABLE_def PLIC_SPRIORITY_def)
  then show "plic_unat (PLIC_SENABLE h) = 0x2080 + h * 0x100" "plic_unat (PLIC_SPRIORITY h) = 0x201000 + h * 0x2000"
    using e u [of "0x2080 + h * 0x100"] u [of "0x201000 + h * 0x2000"] assms by (simp_all del: of_nat_add of_nat_mult)
  show "plic_unat (PLIC + of_int UART0_IRQ * 4) = 40" "plic_unat (PLIC + of_int VIRTIO0_IRQ * 4) = 4"
    unfolding e by (simp_all add: UART0_IRQ_def VIRTIO0_IRQ_def)
qed

lemma plicinithart_other:
  assumes "h < 8" "g < 8" "g \<noteq> h"
  shows "plicinithart g m (PLIC_SENABLE h) = m (PLIC_SENABLE h)" "plicinithart g m (PLIC_SPRIORITY h) = m (PLIC_SPRIORITY h)"
proof -
  note a = plic_addr(1,2) [OF assms(1)] plic_addr(1,2) [OF assms(2)]
  have "PLIC_SENABLE h \<noteq> PLIC_SENABLE g" "PLIC_SENABLE h \<noteq> PLIC_SPRIORITY g" "PLIC_SPRIORITY h \<noteq> PLIC_SENABLE g" "PLIC_SPRIORITY h \<noteq> PLIC_SPRIORITY g"
    using a assms by (auto dest: arg_cong [of _ _ plic_unat])
  then show "plicinithart g m (PLIC_SENABLE h) = m (PLIC_SENABLE h)" "plicinithart g m (PLIC_SPRIORITY h) = m (PLIC_SPRIORITY h)"
    by (simp_all add: plicinithart_def)
qed

lemma plicinithart_prio:
  assumes "g < 8" "a = PLIC + of_int UART0_IRQ * 4 \<or> a = PLIC + of_int VIRTIO0_IRQ * 4"
  shows "plicinithart g m a = m a"
proof -
  have "a \<noteq> PLIC_SENABLE g" "a \<noteq> PLIC_SPRIORITY g" using plic_addr [OF assms(1)] assms(2) by (auto dest: arg_cong [of _ _ plic_unat])
  then show ?thesis by (simp add: plicinithart_def)
qed

text \<open>Once every hart has run \<open>plicinithart\<close>, in whatever order, after \<open>plicinit\<close>, the interrupts of the UART and of the disk reach every hart.\<close>

lemma plic_delivers:
  assumes "set hs \<subseteq> {..<8}" "h \<in> set hs"
  shows "delivers (foldl (\<lambda>m h. plicinithart h m) (plicinit m) hs) h (nat UART0_IRQ)" "delivers (foldl (\<lambda>m h. plicinithart h m) (plicinit m) hs) h (nat VIRTIO0_IRQ)"
proof -
  let ?M = "\<lambda>hs. foldl (\<lambda>m h. plicinithart h m) (plicinit m) hs"
  have "PLIC + of_int UART0_IRQ * 4 \<noteq> PLIC + of_int VIRTIO0_IRQ * 4" by (simp add: UART0_IRQ_def VIRTIO0_IRQ_def)
  then have p: "?M hs (PLIC + of_int UART0_IRQ * 4) = 1 \<and> ?M hs (PLIC + of_int VIRTIO0_IRQ * 4) = 1" if "set hs \<subseteq> {..<8}" for hs
    using that by (induction hs rule: rev_induct) (simp_all add: plicinithart_prio plicinit_def)
  have e: "?M hs (PLIC_SENABLE h) = push_bit (nat UART0_IRQ) 1 OR push_bit (nat VIRTIO0_IRQ) 1 \<and> ?M hs (PLIC_SPRIORITY h) = 0"
    using assms
  proof (induction hs rule: rev_induct)
    case (snoc g hs)
    show ?case
    proof (cases "g = h")
      case True
      have "PLIC_SENABLE h \<noteq> PLIC_SPRIORITY h" using plic_addr(1,2) [of h] snoc.prems True by (auto dest: arg_cong [of _ _ plic_unat])
      then have "plicinithart h M (PLIC_SENABLE h) = push_bit (nat UART0_IRQ) 1 OR push_bit (nat VIRTIO0_IRQ) 1 \<and> plicinithart h M (PLIC_SPRIORITY h) = 0" for M
        by (simp add: plicinithart_def)
      then show ?thesis using True by simp
    next
      case False
      then have hs: "set hs \<subseteq> {..<8}" "h \<in> set hs" "h < 8" "g < 8" using snoc.prems by auto
      then show ?thesis using snoc.IH [OF hs(1,2)] plicinithart_other [OF hs(3,4) False] by simp
    qed
  qed simp
  show "delivers (?M hs) h (nat UART0_IRQ)" "delivers (?M hs) h (nat VIRTIO0_IRQ)"
    unfolding delivers_def using e p [OF assms(1)] by (simp_all add: UART0_IRQ_def VIRTIO0_IRQ_def bit_simps)
qed

end
