(* ===== verification/UPrintf.thy ===== *)
theory UPrintf
  imports Printf ULib
begin

text \<open>
  \<open>user/printf.c\<close>, the formatted output of the user programs. The output of a call is the list of bytes it writes, one \<open>write\<close> per byte, to its
  descriptor. Arguments are as in \<open>Printf\<close>. The loop is a state machine over the format; it is proved to render the list of directives of the
  format.
\<close>

definition udigits :: bytes where
  "udigits = bytes_of ''0123456789ABCDEF''"

section \<open>printint and printptr\<close>

function udigit_loop :: "nat \<Rightarrow> nat \<Rightarrow> bytes \<Rightarrow> bytes res" where
  "udigit_loop base x buf =
     (if length buf < 20
      then (let buf = buf @ [udigits ! (x mod base)]
            in if x div base \<noteq> 0 then udigit_loop base (x div base) buf else Inr buf)
      else Inl OutOfBounds)"
  by pat_completeness auto
termination
  by (relation "measure (\<lambda>(base, x, buf). 20 - length buf)") auto

declare udigit_loop.simps [simp del]

definition uprintint :: "uint64 \<Rightarrow> nat \<Rightarrow> bool \<Rightarrow> bytes res" where
  "uprintint xx base sg =
     (let neg = (sg \<and> sint xx < 0);
          x = (if neg then - xx else xx)
      in bindE (udigit_loop base (unat x) []) (\<lambda>buf.
         bindE (if neg then if length buf < 20 then Inr (buf @ bytes_of ''-'') else Inl OutOfBounds else Inr buf) (\<lambda>buf. Inr (rev buf))))"

primrec uprintptr_loop :: "nat \<Rightarrow> uint64 \<Rightarrow> bytes" where
  "uprintptr_loop 0 x = []"
| "uprintptr_loop (Suc n) x = udigits ! unat (drop_bit 60 x) # uprintptr_loop n (push_bit 4 x)"

definition uprintptr :: "uint64 \<Rightarrow> bytes" where
  "uprintptr x = bytes_of ''0x'' @ uprintptr_loop 16 x"

section \<open>vprintf\<close>

text \<open>The loop: whether the state is \<open>'%'\<close>, and the format from \<open>i\<close> on.\<close>

function vprintf_loop :: "bool \<Rightarrow> bytes \<Rightarrow> parg list \<Rightarrow> bytes res" where
  "vprintf_loop state [] args = Inl OutOfBounds"
| "vprintf_loop state (c0 # r0) args =
     (if c0 = 0 then Inr []
      else if \<not> state then
        (if c0 = chr CHR ''%'' then vprintf_loop True r0 args
         else bindE (vprintf_loop False r0 args) (\<lambda>bs. Inr (c0 # bs)))
      else if r0 = [] then Inl OutOfBounds
      else (let c1 = hd r0
            in if c1 \<noteq> 0 \<and> tl r0 = [] then Inl OutOfBounds
               else (let c2 = (if c1 \<noteq> 0 then hd (tl r0) else 0)
                 in if c0 = chr CHR ''d'' then va_num args (\<lambda>x. uprintint (as_int x) 10 True) (vprintf_loop False r0)
                    else if c0 = chr CHR ''l'' \<and> c1 = chr CHR ''d''
                    then va_num args (\<lambda>x. uprintint x 10 True) (vprintf_loop False (drop 1 r0))
                    else if c0 = chr CHR ''l'' \<and> c1 = chr CHR ''l'' \<and> c2 = chr CHR ''d''
                    then va_num args (\<lambda>x. uprintint x 10 True) (vprintf_loop False (drop 2 r0))
                    else if c0 = chr CHR ''u'' then va_num args (\<lambda>x. uprintint (as_uint32 x) 10 False) (vprintf_loop False r0)
                    else if c0 = chr CHR ''l'' \<and> c1 = chr CHR ''u''
                    then va_num args (\<lambda>x. uprintint x 10 False) (vprintf_loop False (drop 1 r0))
                    else if c0 = chr CHR ''l'' \<and> c1 = chr CHR ''l'' \<and> c2 = chr CHR ''u''
                    then va_num args (\<lambda>x. uprintint x 10 False) (vprintf_loop False (drop 2 r0))
                    else if c0 = chr CHR ''x'' then va_num args (\<lambda>x. uprintint (as_uint32 x) 16 False) (vprintf_loop False r0)
                    else if c0 = chr CHR ''l'' \<and> c1 = chr CHR ''x''
                    then va_num args (\<lambda>x. uprintint x 16 False) (vprintf_loop False (drop 1 r0))
                    else if c0 = chr CHR ''l'' \<and> c1 = chr CHR ''l'' \<and> c2 = chr CHR ''x''
                    then va_num args (\<lambda>x. uprintint x 16 False) (vprintf_loop False (drop 2 r0))
                    else if c0 = chr CHR ''p'' then va_num args (\<lambda>x. Inr (uprintptr x)) (vprintf_loop False r0)
                    else if c0 = chr CHR ''c'' then va_num args (\<lambda>x. Inr [ucast (ucast x :: uint)]) (vprintf_loop False r0)
                    else if c0 = chr CHR ''s'' then va_str args (vprintf_loop False r0)
                    else if c0 = chr CHR ''%'' then bindE (vprintf_loop False r0 args) (\<lambda>bs. Inr (chr CHR ''%'' # bs))
                    else bindE (vprintf_loop False r0 args) (\<lambda>bs. Inr (chr CHR ''%'' # c0 # bs)))))"
  by pat_completeness auto
termination
  by (relation "measure (\<lambda>(state, fmt, args). length fmt)") auto

declare vprintf_loop.simps [simp del]

definition vprintf :: "bytes \<Rightarrow> parg list \<Rightarrow> bytes res" where
  "vprintf fmt args = vprintf_loop False fmt args"

text \<open>\<open>fprintf\<close> gives the bytes to a descriptor, \<open>printf\<close> to descriptor 1.\<close>

definition fprintf :: "int \<Rightarrow> bytes \<Rightarrow> parg list \<Rightarrow> (int \<times> bytes) res" where
  "fprintf fd fmt args = bindE (vprintf fmt args) (\<lambda>bs. Inr (fd, bs))"

definition uprintf :: "bytes \<Rightarrow> parg list \<Rightarrow> (int \<times> bytes) res" where
  "uprintf fmt args = bindE (vprintf fmt args) (\<lambda>bs. Inr (1, bs))"

section \<open>The directives of a format\<close>

datatype dir = Lit uchar | Num bool bool nat | Ptr | Chr | Str

text \<open>\<open>Num long signed base\<close>. An incomplete directive at the end of the format is dropped, an unknown one stands for itself.\<close>

definition conv :: "uchar \<Rightarrow> (bool \<times> nat) option" where
  "conv c = (if c = chr CHR ''d'' then Some (True, 10) else if c = chr CHR ''u'' then Some (False, 10)
     else if c = chr CHR ''x'' then Some (False, 16) else None)"

definition simple :: "uchar \<Rightarrow> dir list" where
  "simple c = (case conv c of Some (s, b) \<Rightarrow> [Num False s b] | None \<Rightarrow>
     if c = chr CHR ''p'' then [Ptr] else if c = chr CHR ''c'' then [Chr] else if c = chr CHR ''s'' then [Str]
     else if c = chr CHR ''%'' then [Lit c] else [Lit (chr CHR ''%''), Lit c])"

fun dirs :: "bytes \<Rightarrow> dir list" where
  "dirs [] = []"
| "dirs [c] = (if c = chr CHR ''%'' then [] else [Lit c])"
| "dirs (c # d # r) =
     (if c \<noteq> chr CHR ''%'' then Lit c # dirs (d # r)
      else if d = chr CHR ''l'' \<and> r \<noteq> [] \<and> conv (hd r) \<noteq> None
      then Num True (fst (the (conv (hd r)))) (snd (the (conv (hd r)))) # dirs (tl r)
      else if d = chr CHR ''l'' \<and> r \<noteq> [] \<and> hd r = chr CHR ''l'' \<and> tl r \<noteq> [] \<and> conv (hd (tl r)) \<noteq> None
      then Num True (fst (the (conv (hd (tl r))))) (snd (the (conv (hd (tl r))))) # dirs (tl (tl r))
      else simple d @ dirs r)"

text \<open>The digits of a number in a base, with a sign.\<close>

definition number :: "bytes \<Rightarrow> bool \<Rightarrow> nat \<Rightarrow> uint64 \<Rightarrow> bytes" where
  "number ds sg base x =
     (let neg = (sg \<and> sint x < 0)
      in (if neg then bytes_of ''-'' else []) @ map ((!) ds) (rev (digs base (unat (if neg then - x else x)))))"

definition pointer :: "bytes \<Rightarrow> uint64 \<Rightarrow> bytes" where
  "pointer ds x = bytes_of ''0x'' @ map (\<lambda>i. ds ! (unat x div 16 ^ (15 - i) mod 16)) [0..<16]"

fun render :: "bytes \<Rightarrow> dir list \<Rightarrow> parg list \<Rightarrow> bytes res" where
  "render ds [] args = Inr []"
| "render ds (Lit c # r) args = bindE (render ds r args) (\<lambda>bs. Inr (c # bs))"
| "render ds (Num l s b # r) args =
     va_num args (\<lambda>x. Inr (number ds s b (if l then x else if s then as_int x else as_uint32 x))) (render ds r)"
| "render ds (Ptr # r) args = va_num args (\<lambda>x. Inr (pointer ds x)) (render ds r)"
| "render ds (Chr # r) args = va_num args (\<lambda>x. Inr [ucast x]) (render ds r)"
| "render ds (Str # r) args = va_str args (render ds r)"

section \<open>vprintf renders its directives\<close>

text \<open>The upper-case digits, as an image of those of the kernel.\<close>

definition up :: "uchar \<Rightarrow> uchar" where
  "up c = (if 97 \<le> c then c - 32 else c)"

lemma udigits_up: "d < 16 \<Longrightarrow> udigits ! d = up (digits ! d)"
proof -
  assume "d < 16"
  moreover have "length digits = 16" by (simp add: digits_def bytes_of_def)
  moreover have "udigits = map up digits" by code_simp
  ultimately show ?thesis by (metis nth_map)
qed

lemma udigit_loop_up:
  "0 < base \<Longrightarrow> base \<le> 16 \<Longrightarrow> udigit_loop base x (map up buf) = mapE (map up) (digit_loop base x buf)"
proof (induction base x buf rule: digit_loop.induct)
  case (1 base x buf)
  have "udigits ! (x mod base) = up (digits ! (x mod base))" using "1.prems" mod_less_divisor [of base x] by (intro udigits_up) linarith
  then show ?case using 1 by (simp add: udigit_loop.simps [of base x "map up buf"] digit_loop.simps [of base x buf] Let_def)
qed

lemma uprintint_number:
  assumes "base = 10 \<or> base = 16" and "sg \<longrightarrow> base = 10"
  shows "uprintint xx base sg = Inr (number udigits sg base xx)"
proof -
  define neg where "neg = (sg \<and> sint xx < 0)"
  have b: "2 \<le> base" "0 < base" "base \<le> 16" using assms(1) by auto
  let ?ds = "digs base (unat (if neg then - xx else xx))"
  have p: "printint xx base sg = Inr ((if neg then bytes_of ''-'' else []) @ map ((!) digits) (rev ?ds))"
    by (rule printint_digs [OF assms(1) neg_def assms(2)])
  then obtain l where l: "digit_loop base (unat (if neg then - xx else xx)) [] = Inr l" "neg \<longrightarrow> length l < 20"
    by (auto simp: printint_def neg_def Let_def split: if_splits)
  then have "rev l = map ((!) digits) (rev ?ds)" using p by (auto simp: printint_def neg_def [symmetric] Let_def bytes_of_def split: if_splits)
  moreover have "map up (map ((!) digits) (rev ?ds)) = map ((!) udigits) (rev ?ds)"
    using digs_less [OF b(1)] udigits_up b(3) by (auto simp: dual_order.strict_trans1)
  ultimately have "rev (map up l) = map ((!) udigits) (rev ?ds)" by (metis rev_map)
  moreover have "udigit_loop base (unat (if neg then - xx else xx)) [] = Inr (map up l)" using udigit_loop_up [OF b(2,3), of _ "[]"] l(1) by simp
  ultimately show ?thesis using l(2) by (auto simp: uprintint_def number_def neg_def [symmetric] Let_def bytes_of_def)
qed

lemma uprintptr_loop_digits:
  "n \<le> 16 \<Longrightarrow> uprintptr_loop n x = map (\<lambda>i. udigits ! (unat x div 16 ^ (15 - i) mod 16)) [0..<n]"
proof (induction n arbitrary: x)
  case (Suc n)
  have "unat (drop_bit 60 x) = unat x div 16 ^ 15" by (simp add: drop_bit_eq_div unat_div)
  moreover have "unat x div 16 ^ 15 < 16" using unsigned_less [of x] by (simp add: div_less_iff_less_mult)
  moreover have "unat (push_bit 4 x) div 16 ^ (15 - i) mod 16 = unat x div 16 ^ (15 - Suc i) mod 16" if "i < n" for i
  proof -
    have "i < 15" using that Suc.prems by simp
    then have e: "15 - i = Suc (15 - Suc i)" "15 - Suc i + 1 + Suc i = 16" by simp_all
    have "unat (push_bit 4 x) = 16 * (unat x mod 2 ^ 60)"
      using mod_mult_mult1 [of 16 "unat x" "2 ^ 60"] by (simp add: push_bit_eq_mult unat_word_ariths mult.commute)
    then have "unat (push_bit 4 x) div 16 ^ (15 - i) = (unat x mod 2 ^ 60) div 16 ^ (15 - Suc i)"
      unfolding e(1) by simp
    also have "\<dots> mod 16 = unat x div 16 ^ (15 - Suc i) mod 16"
    proof -
      have "(unat x mod (16 ^ (15 - Suc i) * 16 ^ Suc i)) div 16 ^ (15 - Suc i) = unat x div 16 ^ (15 - Suc i) mod 16 ^ Suc i"
        by (simp add: mod_mult2_eq)
      moreover have "(16 :: nat) ^ (15 - Suc i) * 16 ^ Suc i = 2 ^ 60" using \<open>i < 15\<close> by (simp flip: power_add)
      moreover have "unat x div 16 ^ (15 - Suc i) mod 16 ^ Suc i mod 16 = unat x div 16 ^ (15 - Suc i) mod 16" by (simp add: mod_mod_cancel)
      ultimately show ?thesis by metis
    qed
    finally show ?thesis .
  qed
  ultimately show ?case using Suc by (simp add: upt_conv_Cons map_Suc_upt [symmetric] del: upt_Suc)
qed simp

lemma uprintptr_pointer: "uprintptr x = pointer udigits x"
  by (simp add: uprintptr_def pointer_def uprintptr_loop_digits)

lemma ucast_low: "(ucast (ucast (x :: uint64) :: uint) :: uchar) = ucast x"
  by (rule bit_word_eqI) (simp add: bit_simps)

lemma conv_cases: "conv c = Some (s, b) \<Longrightarrow> (c = chr CHR ''d'' \<and> s \<and> b = 10) \<or> (c = chr CHR ''u'' \<and> \<not> s \<and> b = 10) \<or> (c = chr CHR ''x'' \<and> \<not> s \<and> b = 16)"
  by (auto simp: conv_def split: if_splits)

lemmas unumber = uprintint_number [of 10 True, simplified] uprintint_number [of 10 False, simplified] uprintint_number [of 16 False, simplified]

lemma long_dir:
  assumes "conv e = Some (s, b)"
  shows "vprintf_loop True (chr CHR ''l'' # e # r @ 0 # junk) args = va_num args (\<lambda>x. Inr (number udigits s b x)) (vprintf_loop False (r @ 0 # junk))"
  using conv_cases [OF assms] by (auto simp: vprintf_loop.simps [of True] unumber)

lemma long_long_dir:
  assumes "conv e = Some (s, b)"
  shows "vprintf_loop True (chr CHR ''l'' # chr CHR ''l'' # e # r @ 0 # junk) args = va_num args (\<lambda>x. Inr (number udigits s b x)) (vprintf_loop False (r @ 0 # junk))"
  using conv_cases [OF assms] by (auto simp: vprintf_loop.simps [of True] unumber)

lemma simple_dir:
  assumes "d \<noteq> 0" and "\<not> (d = chr CHR ''l'' \<and> r \<noteq> [] \<and> conv (hd r) \<noteq> None)"
    and "\<not> (d = chr CHR ''l'' \<and> r \<noteq> [] \<and> hd r = chr CHR ''l'' \<and> tl r \<noteq> [] \<and> conv (hd (tl r)) \<noteq> None)"
    and IH: "\<And>args. vprintf_loop False (r @ 0 # junk) args = render udigits (dirs r) args"
  shows "vprintf_loop True (d # r @ 0 # junk) args = render udigits (simple d @ dirs r) args"
proof -
  have f: "vprintf_loop False (r @ 0 # junk) = render udigits (dirs r)" using IH by blast
  show ?thesis
  proof (cases "d = chr CHR ''l''")
    case False
    then show ?thesis using assms(1) f
      by (cases r) (auto simp: vprintf_loop.simps [of True] unumber simple_def conv_def uprintptr_pointer ucast_low bindE_assoc)
  next
    case True
    then show ?thesis using assms f
      by (cases r; cases "tl r") (auto simp: vprintf_loop.simps [of True] simple_def conv_def bindE_assoc split: if_splits)
  qed
qed

lemma vprintf_loop_renders:
  "0 \<notin> set fmt \<Longrightarrow> vprintf_loop False (fmt @ 0 # junk) args = render udigits (dirs fmt) args"
proof (induction fmt arbitrary: args rule: dirs.induct)
  case 1
  then show ?case by (simp add: vprintf_loop.simps)
next
  case (2 c)
  then show ?case by (simp add: vprintf_loop.simps)
next
  case (3 c d r)
  show ?case
  proof (cases "c = chr CHR ''%''")
    case False
    then show ?thesis using 3 by (simp add: vprintf_loop.simps(2) [of False c])
  next
    case True
    have start: "vprintf_loop False ((c # d # r) @ 0 # junk) args = vprintf_loop True (d # r @ 0 # junk) args"
      using True by (simp add: vprintf_loop.simps(2) [of False _ "d # r @ 0 # junk"])
    consider (l) e r' s b where "d = chr CHR ''l''" "r = e # r'" "conv e = Some (s, b)"
      | (ll) e r' s b where "d = chr CHR ''l''" "r = chr CHR ''l'' # e # r'" "conv e = Some (s, b)"
      | (simple) "\<not> (d = chr CHR ''l'' \<and> r \<noteq> [] \<and> conv (hd r) \<noteq> None)"
        "\<not> (d = chr CHR ''l'' \<and> r \<noteq> [] \<and> hd r = chr CHR ''l'' \<and> tl r \<noteq> [] \<and> conv (hd (tl r)) \<noteq> None)"
      by (cases r; cases "tl r") (auto, blast)
    then show ?thesis
    proof cases
      case l
      then have "vprintf_loop False (r' @ 0 # junk) = render udigits (dirs r')" using "3.IH"(2) True "3.prems" by auto
      then show ?thesis unfolding start using long_dir [OF l(3), of r' junk args] l True by simp
    next
      case ll
      then have "vprintf_loop False (r' @ 0 # junk) = render udigits (dirs r')" using "3.IH"(3) True "3.prems" by (auto simp: conv_def [of 108])
      then show ?thesis unfolding start using long_long_dir [OF ll(3), of r' junk args] ll True by (simp add: conv_def [of 108])
    next
      case simple
      have "vprintf_loop True (d # r @ 0 # junk) args = render udigits (simple d @ dirs r) args"
        by (rule simple_dir) (use simple True "3.IH"(4) "3.prems" in auto)
      then show ?thesis unfolding start using True simple by auto
    qed
  qed
qed

text \<open>
  C28. \<open>vprintf\<close> prints what its format says: for every format, its state machine writes the rendering of the directives of the format in order,
  with the arguments in order, numbers as minimal decimal or hexadecimal digits with a sign where the conversion is signed, pointers as sixteen digits,
  strings up to their NUL; unknown directives are printed as they are, and one that the end of the format cuts off is dropped. It faults exactly when
  an argument is missing or of the wrong kind; it reads no byte beyond the NUL of the format and none of the buffers overflows.
\<close>

theorem vprintf_renders:
  assumes "0 \<notin> set fmt"
  shows "vprintf (fmt @ 0 # junk) args = render udigits (dirs fmt) args"
  unfolding vprintf_def by (rule vprintf_loop_renders [OF assms])

theorem vprintf_renders_witness:
  "vprintf (bytes_of ''%d:%lx %s%%'' @ 0 # []) [ANum (- 7), ANum 255, AStr (Some (lit ''ok''))] = Inr (bytes_of ''-7:FF ok%'')"
proof -
  have "dirs (bytes_of ''%d:%lx %s%%'') = [Num False True 10, Lit 58, Num True False 16, Lit 32, Str, Lit 37]"
    by (simp add: bytes_of_def conv_def simple_def)
  moreover have "digs 10 7 = [7]" "digs 16 255 = [15, 15]" by (simp_all add: digs.simps)
  ultimately show ?thesis
    using vprintf_renders [of "bytes_of ''%d:%lx %s%%''" "[]" "[ANum (- 7), ANum 255, AStr (Some (lit ''ok''))]"]
    by (simp add: bytes_of_def va_num_def va_str_def number_def as_int_def udigits_def lit_def Let_def)
qed

end
