(* ===== verification/Coreutils.thy ===== *)
theory Coreutils
  imports UPrintf Grep
begin

text \<open>
  The rest of \<open>user/ulib.c\<close>, and the programs \<open>cat.c\<close>, \<open>wc.c\<close>, \<open>echo.c\<close> and \<open>ls.c\<close>. An open file is the list of the pieces that \<open>read\<close> will return, and
  whether the last \<open>read\<close> fails; an empty piece is the end of the file. What a program writes to its descriptors 1 and 2 are two lists of bytes. A program
  that calls \<open>exit\<close> ends with its status.
\<close>

section \<open>ulib.c\<close>

fun ustrlen :: "bytes \<Rightarrow> nat res" where
  "ustrlen [] = Inl OutOfBounds"
| "ustrlen (c # s) = (if c \<noteq> 0 then mapE Suc (ustrlen s) else Inr 0)"

fun umemset :: "bytes \<Rightarrow> uchar \<Rightarrow> nat \<Rightarrow> bytes res" where
  "umemset dst c 0 = Inr dst"
| "umemset [] c (Suc n) = Inl OutOfBounds"
| "umemset (_ # dst) c (Suc n) = mapE ((#) c) (umemset dst c n)"

fun umemcmp :: "bytes \<Rightarrow> bytes \<Rightarrow> nat \<Rightarrow> int res" where
  "umemcmp p q 0 = Inr 0"
| "umemcmp (a # p) (b # q) (Suc n) = (if a \<noteq> b then Inr (uint a - uint b) else umemcmp p q n)"
| "umemcmp _ _ (Suc n) = Inl OutOfBounds"

definition memcpy :: "bytes \<Rightarrow> nat \<Rightarrow> nat \<Rightarrow> nat \<Rightarrow> bytes res" where
  "memcpy b dst src n = memmove_in b dst src n"

text \<open>The system calls \<open>open\<close>, \<open>fstat\<close> and \<open>sys_sbrk\<close> are arguments; \<open>None\<close> is failure.\<close>

definition ustat :: "(bytes \<Rightarrow> 'fd option) \<Rightarrow> ('fd \<Rightarrow> 'st option) \<Rightarrow> bytes \<Rightarrow> 'st option" where
  "ustat opn fstat n = (case opn n of None \<Rightarrow> None | Some fd \<Rightarrow> fstat fd)"

definition sbrk :: "(int \<Rightarrow> int \<Rightarrow> uint64) \<Rightarrow> int \<Rightarrow> uint64" where
  "sbrk sys_sbrk n = sys_sbrk n 1"

definition sbrklazy :: "(int \<Rightarrow> int \<Rightarrow> uint64) \<Rightarrow> int \<Rightarrow> uint64" where
  "sbrklazy sys_sbrk n = sys_sbrk n 2"

lemma ustrlen_eq: "terminated s \<Longrightarrow> ustrlen s = Inr (length (cstr s))"
  by (induction s) auto

lemma umemset_eq: "n \<le> length dst \<Longrightarrow> umemset dst c n = Inr (replicate n c @ drop n dst)"
  by (induction dst c n rule: umemset.induct) auto

lemma umemcmp_eq: "n \<le> length p \<Longrightarrow> n \<le> length q \<Longrightarrow> \<exists>r. umemcmp p q n = Inr r \<and> (r = 0 \<longleftrightarrow> take n p = take n q)"
  by (induction p q n rule: umemcmp.induct) auto

section \<open>cat.c\<close>

record prog =
  p_out :: bytes
  p_err :: bytes
  p_exit :: "int option"

record input =
  i_pieces :: "bytes list"
  i_fails :: bool

definition say :: "bytes res \<Rightarrow> prog \<Rightarrow> prog res" where
  "say m s = bindE m (\<lambda>b. Inr (s\<lparr>p_out := p_out s @ b\<rparr>))"

definition complain :: "bytes res \<Rightarrow> prog \<Rightarrow> prog res" where
  "complain m s = bindE m (\<lambda>b. Inr (s\<lparr>p_err := p_err s @ b\<rparr>))"

definition uexit :: "int \<Rightarrow> prog \<Rightarrow> prog" where
  "uexit v s = s\<lparr>p_exit := Some v\<rparr>"

text \<open>\<open>wr out b\<close> says whether a write of \<open>b\<close> after \<open>out\<close> is complete.\<close>

fun cat_loop :: "(bytes \<Rightarrow> bytes \<Rightarrow> bool) \<Rightarrow> bytes list \<Rightarrow> bool \<Rightarrow> prog \<Rightarrow> prog res" where
  "cat_loop wr [] fails s =
     (if fails then bindE (complain (vprintf (lit ''cat: read error\<newline>'') []) s) (\<lambda>s. Inr (uexit 1 s)) else Inr s)"
| "cat_loop wr (b # bs) fails s =
     (if b = [] then Inr s
      else if wr (p_out s) b then cat_loop wr bs fails (s\<lparr>p_out := p_out s @ b\<rparr>)
      else bindE (complain (vprintf (lit ''cat: write error\<newline>'') []) s) (\<lambda>s. Inr (uexit 1 s)))"

definition cat :: "(bytes \<Rightarrow> bytes \<Rightarrow> bool) \<Rightarrow> input \<Rightarrow> prog \<Rightarrow> prog res" where
  "cat wr f s = cat_loop wr (i_pieces f) (i_fails f) s"

fun cat_args :: "(bytes \<Rightarrow> bytes \<Rightarrow> bool) \<Rightarrow> (bytes \<Rightarrow> input option) \<Rightarrow> bytes list \<Rightarrow> prog \<Rightarrow> prog res" where
  "cat_args wr opn [] s = Inr (uexit 0 s)"
| "cat_args wr opn (a # as) s =
     (case opn a of
        None \<Rightarrow> bindE (complain (vprintf (lit ''cat: cannot open %s\<newline>'') [AStr (Some a)]) s) (\<lambda>s. Inr (uexit 1 s))
      | Some f \<Rightarrow> bindE (cat wr f s) (\<lambda>s. if p_exit s \<noteq> None then Inr s else cat_args wr opn as s))"

definition cat_main :: "(bytes \<Rightarrow> bytes \<Rightarrow> bool) \<Rightarrow> (bytes \<Rightarrow> input option) \<Rightarrow> input \<Rightarrow> bytes list \<Rightarrow> prog \<Rightarrow> prog res" where
  "cat_main wr opn stdin args s =
     (if args = [] then bindE (cat wr stdin s) (\<lambda>s. Inr (if p_exit s \<noteq> None then s else uexit 0 s)) else cat_args wr opn args s)"

text \<open>\<open>start\<close> of \<open>ulib.c\<close>: the value of \<open>main\<close> is the status of the process, if \<open>main\<close> returns.\<close>

definition ustart :: "(bytes list \<Rightarrow> prog \<Rightarrow> (prog \<times> int) res) \<Rightarrow> bytes list \<Rightarrow> prog \<Rightarrow> prog res" where
  "ustart main argv s = bindE (main argv s) (\<lambda>(s, r). Inr (if p_exit s \<noteq> None then s else uexit r s))"

section \<open>wc.c\<close>

record counts =
  c_l :: uint
  c_w :: uint
  c_c :: uint
  c_inword :: bool

definition blanks :: bytes where
  "blanks = [32, 13, 9, 10, 11, 0]"

definition wc_byte :: "counts \<Rightarrow> uchar \<Rightarrow> counts" where
  "wc_byte s b =
     (let s = s\<lparr>c_c := c_c s + 1\<rparr>;
          s = (if b = 10 then s\<lparr>c_l := c_l s + 1\<rparr> else s)
      in if strchr blanks b \<noteq> Inr None then s\<lparr>c_inword := False\<rparr>
         else if \<not> c_inword s then s\<lparr>c_w := c_w s + 1, c_inword := True\<rparr>
         else s)"

fun wc_loop :: "bytes list \<Rightarrow> counts \<Rightarrow> counts \<times> bool" where
  "wc_loop [] s = (s, False)"
| "wc_loop (b # bs) s = (if b = [] then (s, True) else wc_loop bs (foldl wc_byte s b))"

definition wc :: "input \<Rightarrow> bytes \<Rightarrow> prog \<Rightarrow> prog res" where
  "wc f name s =
     (let (n, eof) = wc_loop (i_pieces f) \<lparr>c_l = 0, c_w = 0, c_c = 0, c_inword = False\<rparr>
      in if i_fails f \<and> \<not> eof then bindE (say (vprintf (lit ''wc: read error\<newline>'') []) s) (\<lambda>s. Inr (uexit 1 s))
         else say (vprintf (lit ''%d %d %d %s\<newline>'') [ANum (scast (c_l n)), ANum (scast (c_w n)), ANum (scast (c_c n)), AStr (Some name)]) s)"

fun wc_args :: "(bytes \<Rightarrow> input option) \<Rightarrow> bytes list \<Rightarrow> prog \<Rightarrow> prog res" where
  "wc_args opn [] s = Inr (uexit 0 s)"
| "wc_args opn (a # as) s =
     (case opn a of
        None \<Rightarrow> bindE (say (vprintf (lit ''wc: cannot open %s\<newline>'') [AStr (Some a)]) s) (\<lambda>s. Inr (uexit 1 s))
      | Some f \<Rightarrow> bindE (wc f a s) (\<lambda>s. if p_exit s \<noteq> None then Inr s else wc_args opn as s))"

definition wc_main :: "(bytes \<Rightarrow> input option) \<Rightarrow> input \<Rightarrow> bytes list \<Rightarrow> prog \<Rightarrow> prog res" where
  "wc_main opn stdin args s =
     (if args = [] then bindE (wc stdin [0] s) (\<lambda>s. Inr (if p_exit s \<noteq> None then s else uexit 0 s)) else wc_args opn args s)"

section \<open>echo.c\<close>

fun echo_loop :: "bytes list \<Rightarrow> prog \<Rightarrow> prog res" where
  "echo_loop [] s = Inr (uexit 0 s)"
| "echo_loop (a # as) s =
     bindE (ustrlen a) (\<lambda>n.
     echo_loop as (s\<lparr>p_out := p_out s @ take n a @ (if as \<noteq> [] then bytes_of '' '' else bytes_of ''\<newline>'')\<rparr>))"

section \<open>ls.c\<close>

text \<open>The offset after the last slash at or before \<open>k\<close>.\<close>

fun slash_scan :: "bytes \<Rightarrow> nat \<Rightarrow> nat" where
  "slash_scan path 0 = (if path ! 0 \<noteq> chr CHR ''/'' then 0 else 1)"
| "slash_scan path (Suc k) = (if path ! Suc k \<noteq> chr CHR ''/'' then slash_scan path k else Suc (Suc k))"

definition fmtname :: "bytes \<Rightarrow> bytes res" where
  "fmtname path =
     bindE (ustrlen path) (\<lambda>n.
     (let p = drop (slash_scan path n) path
      in bindE (ustrlen p) (\<lambda>m.
         if DIRSIZ \<le> m then Inr p
         else Inr (take m p @ replicate (DIRSIZ - m) 32 @ [0]))))"

definition ls_line :: "bytes \<Rightarrow> Fs.stat \<Rightarrow> bytes res" where
  "ls_line path st =
     bindE (fmtname path) (\<lambda>name.
     vprintf (lit ''%s %d %d %d\<newline>'') [AStr (Some name), ANum (scast (st_type st)), ANum (ucast (st_ino st)), ANum (st_size st)])"

text \<open>
  An open file or directory: what \<open>fstat\<close> reports, and the directory entries that \<open>read\<close> delivers (as \<open>read\<close> of less than an entry ends the loop).
  The buffer of the path is \<open>path\<close>, a slash, the name and a NUL.
\<close>

record entryfile =
  e_stat :: "Fs.stat option"
  e_dirents :: "bytes list"

definition entry_path :: "bytes \<Rightarrow> bytes \<Rightarrow> bytes" where
  "entry_path dir de = dir @ bytes_of ''/'' @ take DIRSIZ (de_name de) @ [0]"

fun ls_entries :: "(bytes \<Rightarrow> entryfile option) \<Rightarrow> bytes \<Rightarrow> bytes list \<Rightarrow> prog \<Rightarrow> prog res" where
  "ls_entries opn dir [] s = Inr s"
| "ls_entries opn dir (de # des) s =
     (if length de \<noteq> DIRENT then Inr s
      else if de_inum de = 0 then ls_entries opn dir des s
      else (let buf = entry_path dir de
            in bindE (case ustat opn e_stat (cstr buf) of
                        None \<Rightarrow> say (vprintf (lit ''ls: cannot stat %s\<newline>'') [AStr (Some buf)]) s
                      | Some st \<Rightarrow> say (ls_line buf st) s)
                 (ls_entries opn dir des)))"

definition ls :: "(bytes \<Rightarrow> entryfile option) \<Rightarrow> bytes \<Rightarrow> prog \<Rightarrow> prog res" where
  "ls opn path s =
     (case opn (cstr path) of
        None \<Rightarrow> complain (vprintf (lit ''ls: cannot open %s\<newline>'') [AStr (Some path)]) s
      | Some f \<Rightarrow>
          (case e_stat f of
             None \<Rightarrow> complain (vprintf (lit ''ls: cannot stat %s\<newline>'') [AStr (Some path)]) s
           | Some st \<Rightarrow>
               if st_type st = T_DEVICE \<or> st_type st = T_FILE then say (ls_line path st) s
               else if st_type st = T_DIR then
                 bindE (ustrlen path) (\<lambda>n.
                 if n + 1 + DIRSIZ + 1 > 512 then say (vprintf (lit ''ls: path too long\<newline>'') []) s
                 else ls_entries opn (take n path) (e_dirents f) s)
               else Inr s))"

fun ls_args :: "(bytes \<Rightarrow> entryfile option) \<Rightarrow> bytes list \<Rightarrow> prog \<Rightarrow> prog res" where
  "ls_args opn [] s = Inr (uexit 0 s)"
| "ls_args opn (a # as) s = bindE (ls opn a s) (ls_args opn as)"

definition ls_main :: "(bytes \<Rightarrow> entryfile option) \<Rightarrow> bytes list \<Rightarrow> prog \<Rightarrow> prog res" where
  "ls_main opn args s = (if args = [] then bindE (ls opn (lit ''.'') s) (\<lambda>s. Inr (uexit 0 s)) else ls_args opn args s)"

section \<open>What the programs print\<close>

definition whole :: "input \<Rightarrow> bool" where
  "whole f \<longleftrightarrow> \<not> i_fails f \<and> [] \<notin> set (i_pieces f)"

definition text_of :: "input \<Rightarrow> bytes" where
  "text_of f = concat (i_pieces f)"

lemma cat_loop_copies: "[] \<notin> set bs \<Longrightarrow> (\<And>out b. wr out b) \<Longrightarrow> cat_loop wr bs False s = Inr (s\<lparr>p_out := p_out s @ concat bs\<rparr>)"
  by (induction bs arbitrary: s) auto

lemma cat_args_copies:
  "(\<And>out b. wr out b) \<Longrightarrow> p_exit s = None \<Longrightarrow> \<forall>a\<in>set as. \<exists>f. opn a = Some f \<and> whole f \<Longrightarrow>
    cat_args wr opn as s = Inr (s\<lparr>p_out := p_out s @ concat (map (\<lambda>a. text_of (the (opn a))) as), p_exit := Some 0\<rparr>)"
proof (induction as arbitrary: s)
  case (Cons a as)
  then show ?case by (auto simp: cat_def whole_def text_of_def cat_loop_copies)
qed (simp add: uexit_def)

text \<open>The bytes that start a word.\<close>

definition blank :: "uchar \<Rightarrow> bool" where
  "blank b \<longleftrightarrow> b \<in> {32, 13, 9, 10, 11}"

definition word_starts :: "bytes \<Rightarrow> nat set" where
  "word_starts bs = {i. i < length bs \<and> \<not> blank (bs ! i) \<and> (i = 0 \<or> blank (bs ! (i - 1)))}"

lemma strchr_blanks: "strchr blanks b \<noteq> Inr None \<longleftrightarrow> blank b"
  by (auto simp: blanks_def blank_def)

lemma word_starts_snoc:
  "word_starts (bs @ [b]) = (if \<not> blank b \<and> (bs = [] \<or> blank (last bs)) then insert (length bs) (word_starts bs) else word_starts bs)"
proof -
  have "(bs @ [b]) ! (length bs - 1) = last bs" if "bs \<noteq> []" using that by (simp add: nth_append last_conv_nth)
  then show ?thesis by (cases "bs = []") (auto simp: word_starts_def nth_append less_Suc_eq)
qed

lemma finite_word_starts [simp]: "finite (word_starts bs)"
  by (rule finite_subset [of _ "{..<length bs}"]) (auto simp: word_starts_def)

lemma wc_bytes:
  "foldl wc_byte \<lparr>c_l = 0, c_w = 0, c_c = 0, c_inword = False\<rparr> bs =
    \<lparr>c_l = of_nat (length (filter (\<lambda>b. b = 10) bs)), c_w = of_nat (card (word_starts bs)), c_c = of_nat (length bs),
     c_inword = (bs \<noteq> [] \<and> \<not> blank (last bs))\<rparr>"
proof (induction bs rule: rev_induct)
  case Nil
  then show ?case by (simp add: word_starts_def)
next
  case (snoc b bs)
  have "length bs \<notin> word_starts bs" by (simp add: word_starts_def)
  then show ?case unfolding foldl_append foldl_Cons foldl_Nil snoc.IH
    by (simp add: wc_byte_def strchr_blanks word_starts_snoc Let_def)
qed

lemma wc_loop_pieces: "[] \<notin> set bs \<Longrightarrow> wc_loop bs s = (foldl wc_byte s (concat bs), False)"
  by (induction bs arbitrary: s) auto

definition dec :: "nat \<Rightarrow> bytes" where
  "dec n = map ((!) udigits) (rev (digs 10 n))"

lemma number_dec: "n < 2 ^ 31 \<Longrightarrow> number udigits True 10 (as_int (scast (of_nat n :: uint))) = dec n"
proof -
  assume n: "n < 2 ^ 31"
  have u: "(ucast (scast (of_nat n :: uint) :: uint64) :: uint) = of_nat n" by (rule bit_word_eqI) (simp add: bit_simps)
  have "sint (of_nat n :: uint) = int n" using n by (simp add: sint_uint unsigned_of_nat take_bit_nat_eq_self signed_take_bit_int_eq_self)
  then have s: "(scast (of_nat n :: uint) :: uint64) = of_nat n" by (metis of_int_of_nat_eq of_int_sint)
  have "sint (of_nat n :: uint64) = int n" "unat (of_nat n :: uint64) = n"
    using n by (simp_all add: sint_uint unsigned_of_nat take_bit_nat_eq_self signed_take_bit_int_eq_self)
  moreover have "as_int (scast (of_nat n :: uint)) = of_nat n" unfolding as_int_def u by (rule s)
  ultimately show ?thesis by (simp add: number_def dec_def)
qed

lemma wc_format:
  assumes "l < 2 ^ 31" "w < 2 ^ 31" "c < 2 ^ 31" "terminated name"
  shows "vprintf (lit ''%d %d %d %s\<newline>'') [ANum (scast (of_nat l :: uint)), ANum (scast (of_nat w :: uint)), ANum (scast (of_nat c :: uint)), AStr (Some name)] =
    Inr (dec l @ bytes_of '' '' @ dec w @ bytes_of '' '' @ dec c @ bytes_of '' '' @ cstr name @ bytes_of ''\<newline>'')"
proof -
  have "vprintf (bytes_of ''%d %d %d %s\<newline>'' @ 0 # []) args = render udigits (dirs (bytes_of ''%d %d %d %s\<newline>'')) args" for args
    unfolding vprintf_def by (rule vprintf_loop_renders) (simp add: bytes_of_def)
  moreover have "dirs (bytes_of ''%d %d %d %s\<newline>'') = [Num False True 10, Lit 32, Num False True 10, Lit 32, Num False True 10, Lit 32, Str, Lit 10]"
    by (simp add: bytes_of_def conv_def simple_def)
  ultimately show ?thesis using assms by (simp add: lit_def va_num_def va_str_def number_dec bytes_of_def simple_def conv_def)
qed

text \<open>
  \<open>wc\<close> prints the number of newlines, of words and of bytes of its input, whatever the pieces in which it is read: a word is a maximal
  run of bytes that are not blanks.
\<close>

lemma wc_counts:
  assumes "whole f" and "length (text_of f) < 2 ^ 31" and "terminated name"
  shows "wc f name s = Inr (s\<lparr>p_out := p_out s @ dec (length (filter (\<lambda>b. b = 10) (text_of f))) @ bytes_of '' '' @ dec (card (word_starts (text_of f))) @
    bytes_of '' '' @ dec (length (text_of f)) @ bytes_of '' '' @ cstr name @ bytes_of ''\<newline>''\<rparr>)"
proof -
  have "card (word_starts (text_of f)) \<le> length (text_of f)"
    using card_mono [of "{..<length (text_of f)}" "word_starts (text_of f)"] by (auto simp: word_starts_def)
  moreover have "length (filter (\<lambda>b. b = 10) (text_of f)) \<le> length (text_of f)" by simp
  ultimately have "vprintf (lit ''%d %d %d %s\<newline>'') [ANum (scast (of_nat (length (filter (\<lambda>b. b = 10) (text_of f))) :: uint)),
      ANum (scast (of_nat (card (word_starts (text_of f))) :: uint)), ANum (scast (of_nat (length (text_of f)) :: uint)), AStr (Some name)] =
    Inr (dec (length (filter (\<lambda>b. b = 10) (text_of f))) @ bytes_of '' '' @ dec (card (word_starts (text_of f))) @ bytes_of '' '' @
      dec (length (text_of f)) @ bytes_of '' '' @ cstr name @ bytes_of ''\<newline>'')"
    using assms by (intro wc_format) linarith+
  then show ?thesis using assms wc_loop_pieces [of "i_pieces f"] by (simp add: wc_def whole_def wc_bytes say_def flip: text_of_def)
qed

lemma echo_joins:
  "list_all terminated as \<Longrightarrow> echo_loop as s =
    Inr (s\<lparr>p_out := p_out s @ (if as = [] then [] else concat (map (\<lambda>a. cstr a @ bytes_of '' '') (butlast as)) @ cstr (last as) @ bytes_of ''\<newline>''), p_exit := Some 0\<rparr>)"
proof (induction as arbitrary: s)
  case (Cons a as)
  let ?s = "s\<lparr>p_out := p_out s @ cstr a @ (if as \<noteq> [] then bytes_of '' '' else bytes_of ''\<newline>'')\<rparr>"
  have "take (length (cstr a)) a = cstr a" by (simp add: cstr_def takeWhile_eq_take [symmetric])
  then have "echo_loop (a # as) s = echo_loop as ?s" using Cons.prems by (simp add: ustrlen_eq)
  moreover have "list_all terminated as" using Cons.prems by simp
  ultimately show ?case using Cons.IH [of ?s] by simp
qed (simp add: uexit_def)

definition base_name :: "bytes \<Rightarrow> bytes" where
  "base_name path = rev (takeWhile (\<lambda>c. c \<noteq> chr CHR ''/'') (rev path))"

lemma base_name_snoc: "base_name (xs @ [c]) = (if c = chr CHR ''/'' then [] else base_name xs @ [c])"
  by (simp add: base_name_def)

lemma length_base_name: "length (base_name xs) \<le> length xs"
  unfolding base_name_def by (metis length_rev length_takeWhile_le)

lemma slash_scan_take: "k < length p \<Longrightarrow> slash_scan p k = Suc k - length (base_name (take (Suc k) p))"
proof (induction k)
  case 0
  then show ?case by (cases p) (simp_all add: base_name_def)
next
  case (Suc k)
  have "take (Suc (Suc k)) p = take (Suc k) p @ [p ! Suc k]" using Suc.prems by (rule take_Suc_conv_app_nth)
  then show ?case using Suc by (simp add: base_name_snoc)
qed

lemma slash_scan_base: "slash_scan (path @ 0 # r) (length path) = length path - length (base_name path)"
  using slash_scan_take [of "length path" "path @ 0 # r"] by (simp add: base_name_snoc)

lemma fmtname_pads:
  assumes "terminated path"
  shows "\<exists>r. fmtname path = Inr r \<and> terminated r \<and>
    cstr r = (let n = base_name (cstr path) in if DIRSIZ \<le> length n then n else n @ replicate (DIRSIZ - length n) 32)"
proof -
  let ?c = "cstr path" and ?n = "base_name (cstr path)"
  obtain r where p: "path = ?c @ 0 # r" using terminated_split [OF assms] .
  have ln: "length ?n \<le> length ?c" by (rule length_base_name)
  have dr: "drop (length ?c - length ?n) ?c = ?n" by (metis base_name_def length_rev rev_rev_ident rev_take takeWhile_eq_take)
  have "slash_scan path (length ?c) = length ?c - length ?n" using slash_scan_base [of ?c r] p by metis
  then have d: "drop (slash_scan path (length ?c)) path = ?n @ 0 # r" using dr ln by (subst p) simp
  have z: "0 \<notin> set ?n" using cstr_nonzero unfolding base_name_def by (fastforce dest: set_takeWhileD)
  have m: "ustrlen (?n @ 0 # r) = Inr (length ?n)" using ustrlen_eq [of "?n @ 0 # r"] cstr_append_NUL [OF z] by simp
  show ?thesis
  proof (cases "DIRSIZ \<le> length ?n")
    case True
    then show ?thesis using ustrlen_eq [OF assms] d m cstr_append_NUL [OF z] by (simp add: fmtname_def Let_def)
  next
    case False
    have "0 \<notin> set (?n @ replicate (DIRSIZ - length ?n) 32)" using z by simp
    then show ?thesis using False ustrlen_eq [OF assms] d m cstr_append_NUL by (simp add: fmtname_def Let_def flip: append_assoc)
  qed
qed

definition padded :: "bytes \<Rightarrow> bytes" where
  "padded n = (if DIRSIZ \<le> length n then n else n @ replicate (DIRSIZ - length n) 32)"

text \<open>The line of \<open>ls\<close> for a file: its name padded to \<open>DIRSIZ\<close> bytes, its type, inode number and size.\<close>

definition show_entry :: "bytes \<Rightarrow> Fs.stat \<Rightarrow> bytes" where
  "show_entry path st = padded (base_name path) @ bytes_of '' '' @ number udigits True 10 (as_int (scast (st_type st))) @ bytes_of '' '' @
     number udigits True 10 (as_int (ucast (st_ino st))) @ bytes_of '' '' @ number udigits True 10 (as_int (st_size st)) @ bytes_of ''\<newline>''"

lemma ls_line_shows:
  assumes "terminated path"
  shows "ls_line path st = Inr (show_entry (cstr path) st)"
proof -
  obtain r where r: "fmtname path = Inr r" "terminated r" "cstr r = padded (base_name (cstr path))"
    using fmtname_pads [OF assms] by (auto simp: padded_def Let_def)
  have "vprintf (bytes_of ''%s %d %d %d\<newline>'' @ 0 # []) args = render udigits (dirs (bytes_of ''%s %d %d %d\<newline>'')) args" for args
    unfolding vprintf_def by (rule vprintf_loop_renders) (simp add: bytes_of_def)
  moreover have "dirs (bytes_of ''%s %d %d %d\<newline>'') = [Str, Lit 32, Num False True 10, Lit 32, Num False True 10, Lit 32, Num False True 10, Lit 10]"
    by (simp add: bytes_of_def conv_def simple_def)
  ultimately show ?thesis using r by (simp add: ls_line_def lit_def va_num_def va_str_def show_entry_def bytes_of_def simple_def conv_def)
qed

text \<open>
  \<open>ls\<close> of a directory prints a line for every entry in use, in the order of the directory, from the \<open>stat\<close> of the path of the entry.
\<close>

lemma ls_entries_lists:
  "\<forall>de\<in>set des. length de = DIRENT \<and> (de_inum de \<noteq> 0 \<longrightarrow> ustat opn e_stat (cstr (entry_path dir de)) \<noteq> None) \<Longrightarrow>
    ls_entries opn dir des s = Inr (s\<lparr>p_out := p_out s @
      concat (map (\<lambda>de. show_entry (cstr (entry_path dir de)) (the (ustat opn e_stat (cstr (entry_path dir de))))) (filter (\<lambda>de. de_inum de \<noteq> 0) des))\<rparr>)"
proof (induction des arbitrary: s)
  case (Cons de des)
  have "terminated (entry_path dir de)" by (simp add: entry_path_def)
  then show ?case using Cons by (auto simp: ls_line_shows say_def)
qed simp

lemma ls_lists_directory:
  assumes "opn (cstr path) = Some f" and "e_stat f = Some st" and "st_type st = T_DIR" and "terminated path" and "length (cstr path) + 2 + DIRSIZ \<le> 512"
    and "\<forall>de\<in>set (e_dirents f). length de = DIRENT \<and> (de_inum de \<noteq> 0 \<longrightarrow> ustat opn e_stat (cstr (entry_path (cstr path) de)) \<noteq> None)"
  shows "ls opn path s = Inr (s\<lparr>p_out := p_out s @
    concat (map (\<lambda>de. show_entry (cstr (entry_path (cstr path) de)) (the (ustat opn e_stat (cstr (entry_path (cstr path) de)))))
      (filter (\<lambda>de. de_inum de \<noteq> 0) (e_dirents f)))\<rparr>)"
proof -
  have "take (length (cstr path)) path = cstr path" by (simp add: cstr_def takeWhile_eq_take [symmetric])
  then show ?thesis using assms ls_entries_lists [OF assms(6), of s] by (simp add: ls_def ustrlen_eq hdr)
qed

section \<open>The main function of grep.c\<close>

text \<open>
  An argument comes with what the global buffer holds when its turn comes, which the filter overwrites; an open file is the sizes in which \<open>read\<close> delivers it, and its
  contents.
\<close>

fun grep_args :: "bytes \<Rightarrow> (bytes \<Rightarrow> (nat list \<times> bytes) option) \<Rightarrow> (bytes \<times> bytes) list \<Rightarrow> prog \<Rightarrow> prog res" where
  "grep_args pattern opn [] s = Inr (uexit 0 s)"
| "grep_args pattern opn ((a, buf) # as) s =
     (case opn a of
        None \<Rightarrow> bindE (say (vprintf (lit ''grep: cannot open %s\<newline>'') [AStr (Some a)]) s) (\<lambda>s. Inr (uexit 1 s))
      | Some (ks, inp) \<Rightarrow> bindE (say (grep pattern buf 0 ks inp) s) (grep_args pattern opn as))"

definition grep_main :: "(bytes \<Rightarrow> (nat list \<times> bytes) option) \<Rightarrow> nat list \<times> bytes \<Rightarrow> bytes \<Rightarrow> (bytes \<times> bytes) list \<Rightarrow> prog \<Rightarrow> prog res" where
  "grep_main opn stdin buf args s =
     (case args of
        [] \<Rightarrow> bindE (complain (vprintf (lit ''usage: grep pattern [file ...]\<newline>'') []) s) (\<lambda>s. Inr (uexit 1 s))
      | (pattern, _) # as \<Rightarrow>
          if as = [] then bindE (say (grep pattern buf 0 (fst stdin) (snd stdin)) s) (\<lambda>s. Inr (uexit 0 s))
          else grep_args pattern opn as s)"

definition searchable :: "bytes \<Rightarrow> bool" where
  "searchable inp \<longleftrightarrow> 0 \<notin> set inp \<and> short_lines inp"

lemma grep_args_lines:
  assumes "terminated pattern"
  shows "\<forall>(a, buf)\<in>set as. length buf = 1024 \<and> (\<exists>ks inp. opn a = Some (ks, inp) \<and> searchable inp) \<Longrightarrow> p_exit s = None \<Longrightarrow>
    grep_args pattern opn as s = Inr (s\<lparr>p_out := p_out s @
      concat (map (\<lambda>(a, buf). concat (map (\<lambda>l. l @ [10]) (filter (re_match (cstr pattern)) (lines (snd (the (opn a))))))) as), p_exit := Some 0\<rparr>)"
proof (induction as arbitrary: s)
  case (Cons c as)
  obtain a buf where c: "c = (a, buf)" by (cases c)
  with Cons.prems(1) obtain ks inp where o: "length buf = 1024" "opn a = Some (ks, inp)" "searchable inp" by auto
  have "grep pattern buf 0 ks inp = Inr (concat (map (\<lambda>l. l @ [10]) (filter (re_match (cstr pattern)) (lines inp))))"
    using grep_correct [OF assms, of buf 0 inp ks] o by (simp add: BUFSZ_def selected_def searchable_def)
  then show ?case using Cons c o by (simp add: say_def)
qed (simp add: uexit_def)

end
