(* ===== verification/Boot.thy ===== *)
theory Boot
  imports Codec
begin

text \<open>
  \<open>kernel/start.c\<close> and \<open>kernel/main.c\<close>, with \<open>cpuid\<close> and \<open>mycpu\<close> of \<open>proc.c\<close>. A hart is its privilege mode, its program counter and the control registers that
  \<open>start\<close> uses; \<open>mret\<close> is the instruction of the RISC-V manual. \<open>main\<close> is the order in which it calls the initialisation of the parts of the kernel,
  the subject of the other theories; the harts run it at the same time.
\<close>

section \<open>Machine mode\<close>

record hart =
  priv :: nat
  pc :: uint64
  mstatus :: uint64
  mepc :: uint64
  satp :: uint64
  medeleg :: uint64
  mideleg :: uint64
  sie :: uint64
  mie :: uint64
  pmpaddr0 :: uint64
  pmpcfg0 :: uint64
  menvcfg :: uint64
  mcounteren :: uint64
  stimecmp :: uint64
  mtime :: uint64
  mhartid :: uint64
  tp :: uint64

definition MSTATUS_MPP_MASK :: uint64 where [hdr]: "MSTATUS_MPP_MASK = push_bit 11 3"
definition MSTATUS_MPP_S :: uint64 where [hdr]: "MSTATUS_MPP_S = push_bit 11 1"
definition SIE_SEIE :: uint64 where [hdr]: "SIE_SEIE = push_bit 9 1"
definition SIE_STIE :: uint64 where [hdr]: "SIE_STIE = push_bit 5 1"
definition MIE_STIE :: uint64 where [hdr]: "MIE_STIE = push_bit 5 1"

text \<open>\<open>mret\<close>: to the mode in \<open>MPP\<close>, which becomes the lowest one, and to \<open>mepc\<close>; \<open>MIE\<close> (bit 3) takes the value of \<open>MPIE\<close> (bit 7), which is set.\<close>

definition mret :: "hart \<Rightarrow> hart" where
  "mret h = h\<lparr>priv := unat (drop_bit 11 (mstatus h) AND 3), pc := mepc h,
     mstatus := (if bit (mstatus h) 7 then set_bit 3 (mstatus h) else unset_bit 3 (mstatus h)) AND NOT MSTATUS_MPP_MASK OR push_bit 7 1\<rparr>"

definition timerinit :: "hart \<Rightarrow> hart" where
  "timerinit h =
     (let h = h\<lparr>mie := mie h OR MIE_STIE\<rparr>;
          h = h\<lparr>menvcfg := menvcfg h OR push_bit 63 1\<rparr>;
          h = h\<lparr>mcounteren := mcounteren h OR 2\<rparr>
      in h\<lparr>stimecmp := mtime h + 1000000\<rparr>)"

definition start :: "uint64 \<Rightarrow> hart \<Rightarrow> hart" where
  "start main h =
     (let x = mstatus h;
          x = x AND NOT MSTATUS_MPP_MASK;
          x = x OR MSTATUS_MPP_S;
          h = h\<lparr>mstatus := x\<rparr>;
          h = h\<lparr>mepc := main\<rparr>;
          h = h\<lparr>satp := 0\<rparr>;
          h = h\<lparr>medeleg := 0xffff\<rparr>;
          h = h\<lparr>mideleg := 0xffff\<rparr>;
          h = h\<lparr>sie := sie h OR SIE_SEIE OR SIE_STIE\<rparr>;
          h = h\<lparr>pmpaddr0 := 0x3fffffffffffff\<rparr>;
          h = h\<lparr>pmpcfg0 := 0xf\<rparr>;
          h = timerinit h;
          h = h\<lparr>tp := scast (ucast (mhartid h) :: uint)\<rparr>
      in mret h)"

definition cpuid :: "hart \<Rightarrow> int" where
  "cpuid h = sint (ucast (tp h) :: uint)"

definition mycpu :: "'c list \<Rightarrow> hart \<Rightarrow> 'c res" where
  "mycpu cpus h = (if 0 \<le> cpuid h \<and> nat (cpuid h) < length cpus then Inr (cpus ! nat (cpuid h)) else Inl OutOfBounds)"

text \<open>The first entry of the physical memory protection in mode \<open>TOR\<close>: the addresses below \<open>pmpaddr0 * 4\<close> may be read, written and executed.\<close>

definition pmp_all :: "hart \<Rightarrow> uint64 \<Rightarrow> bool" where
  "pmp_all h a \<longleftrightarrow> pmpcfg0 h AND 0x18 = 0x8 \<and> pmpcfg0 h AND 7 = 7 \<and> a < pmpaddr0 h * 4"

lemma bit_3: "bit (3 :: uint64) n \<longleftrightarrow> n < 2"
  using bit_mask_iff [of 2 n, where 'a = uint64] by (auto simp: mask_eq_decr_exp)

lemma mpp_bits: "bit MSTATUS_MPP_MASK n \<longleftrightarrow> n = 11 \<or> n = 12" "bit MSTATUS_MPP_S n \<longleftrightarrow> n = 11"
  unfolding MSTATUS_MPP_MASK_def MSTATUS_MPP_S_def bit_push_bit_iff bit_3 by (auto simp: bit_1_iff)

lemma irq_bits: "bit SIE_SEIE n \<longleftrightarrow> n = 9" "bit SIE_STIE n \<longleftrightarrow> n = 5" "bit MIE_STIE n \<longleftrightarrow> n = 5"
  unfolding SIE_SEIE_def SIE_STIE_def MIE_STIE_def bit_push_bit_iff by (auto simp: bit_1_iff)

lemma mpp_s: "drop_bit 11 (x AND NOT MSTATUS_MPP_MASK OR MSTATUS_MPP_S) AND 3 = (1 :: uint64)"
proof (rule bit_word_eqI)
  fix n
  show "bit (drop_bit 11 (x AND NOT MSTATUS_MPP_MASK OR MSTATUS_MPP_S) AND 3) n \<longleftrightarrow> bit (1 :: uint64) n"
    unfolding bit_and_iff bit_or_iff bit_not_iff bit_drop_bit_eq comp_def bit_3 mpp_bits bit_1_iff by auto
qed

text \<open>
  \<open>start\<close> leaves machine mode as \<open>main\<close> expects: in supervisor mode at the address of \<open>main\<close>, without paging, with all exceptions and interrupts delegated, external
  and timer interrupts enabled, all physical memory accessible, the next clock interrupt asked for, and the number of the hart where \<open>cpuid\<close> finds it.
\<close>

lemma start_enters_main:
  assumes "mhartid h < 8"
  shows "priv (start main h) = 1" "pc (start main h) = main" "satp (start main h) = 0" "medeleg (start main h) = 0xffff" "mideleg (start main h) = 0xffff"
    "bit (sie (start main h)) n \<longleftrightarrow> bit (sie h) n \<or> n = 5 \<or> n = 9" "bit (mie (start main h)) n \<longleftrightarrow> bit (mie h) n \<or> n = 5"
    "a < 0xfffffffffffffc \<Longrightarrow> pmp_all (start main h) a" "stimecmp (start main h) = mtime h + 1000000" "cpuid (start main h) = uint (mhartid h)"
proof -
  show "priv (start main h) = 1" unfolding start_def mret_def timerinit_def Let_def hart.simps by (simp add: mpp_s del: drop_bit_or drop_bit_and)
  show "bit (sie (start main h)) n \<longleftrightarrow> bit (sie h) n \<or> n = 5 \<or> n = 9" "bit (mie (start main h)) n \<longleftrightarrow> bit (mie h) n \<or> n = 5"
    by (auto simp: start_def mret_def timerinit_def Let_def bit_or_iff irq_bits)
  have u: "uint (mhartid h) < 8" using assms by (simp add: word_less_def)
  have "(ucast (mhartid h) :: uint) = of_int (uint (mhartid h))" by simp
  moreover have "sint (of_int k :: uint) = k" if "0 \<le> k" "k < 8" for k using that by (simp add: signed_of_int signed_take_bit_int_eq_self)
  ultimately have "sint (ucast (mhartid h) :: uint) = uint (mhartid h)" using u by (metis uint_ge_0)
  moreover have "(ucast (scast (w :: uint) :: uint64) :: uint) = w" for w by (rule bit_word_eqI) (simp add: bit_simps)
  ultimately show "cpuid (start main h) = uint (mhartid h)" by (simp add: start_def mret_def timerinit_def Let_def cpuid_def)
  show "pmp_all (start main h) a" if "a < 0xfffffffffffffc" using that by (simp add: start_def mret_def timerinit_def Let_def pmp_all_def)
qed (simp_all add: start_def mret_def timerinit_def Let_def)

section \<open>main\<close>

datatype init_call = Consoleinit | Printfinit | Printf | Kinit | Kvminit | Kvminithart | Procinit | Trapinit | Trapinithart | Plicinit | Plicinithart |
  Binit | Iinit | Fileinit | Virtio_disk_init | Proxyinit | Userinit | Agent_log

text \<open>The calls of \<open>main\<close>: those of hart 0, after which it sets \<open>started\<close>, and those of the others, before which they wait for it.\<close>

definition main_calls :: "nat \<Rightarrow> init_call list" where
  "main_calls h =
     (if h = 0
      then [Consoleinit, Printfinit, Printf, Printf, Printf, Kinit, Kvminit, Kvminithart, Procinit, Trapinit, Trapinithart, Plicinit, Plicinithart,
            Binit, Iinit, Fileinit, Virtio_disk_init, Proxyinit, Userinit, Agent_log]
      else [Printf, Kvminithart, Trapinithart, Plicinithart])"

text \<open>How far each hart has got (\<open>None\<close> while it waits), the variable \<open>started\<close>, and the calls so far, latest first.\<close>

record boot =
  at :: "nat \<Rightarrow> nat option"
  started :: bool
  in_scheduler :: "nat \<Rightarrow> bool"
  calls :: "(nat \<times> init_call) list"

definition boot0 :: boot where
  "boot0 = \<lparr>at = (\<lambda>h. if h = 0 then Some 0 else None), started = False, in_scheduler = (\<lambda>_. False), calls = []\<rparr>"

inductive bstep :: "boot \<Rightarrow> boot \<Rightarrow> bool" where
  call: "at s h = Some i \<Longrightarrow> i < length (main_calls h) \<Longrightarrow>
    bstep s (s\<lparr>at := (at s)(h \<mapsto> Suc i), calls := (h, main_calls h ! i) # calls s\<rparr>)"
| set_started: "at s 0 = Some (length (main_calls 0)) \<Longrightarrow> bstep s (s\<lparr>started := True\<rparr>)"
| see_started: "h \<noteq> 0 \<Longrightarrow> at s h = None \<Longrightarrow> started s \<Longrightarrow> bstep s (s\<lparr>at := (at s)(h \<mapsto> 0)\<rparr>)"
| scheduler: "at s h = Some (length (main_calls h)) \<Longrightarrow> h = 0 \<longrightarrow> started s \<Longrightarrow> bstep s (s\<lparr>in_scheduler := (in_scheduler s)(h := True)\<rparr>)"

definition calls_of :: "nat \<Rightarrow> (nat \<times> init_call) list \<Rightarrow> init_call list" where
  "calls_of h cs = rev (map snd (filter (\<lambda>c. fst c = h) cs))"

text \<open>
  Each hart has made a prefix of its calls; nobody but hart 0 has made one before \<open>started\<close> is set, which is after all calls of hart 0; and the calls of
  hart 0 come before those of the others.
\<close>

definition binv :: "boot \<Rightarrow> bool" where
  "binv s \<longleftrightarrow> at s 0 \<noteq> None \<and>
     (\<forall>h. calls_of h (calls s) = (case at s h of None \<Rightarrow> [] | Some i \<Rightarrow> take i (main_calls h)) \<and> (case at s h of None \<Rightarrow> True | Some i \<Rightarrow> i \<le> length (main_calls h))) \<and>
     (started s \<longrightarrow> at s 0 = Some (length (main_calls 0))) \<and> (\<forall>h. h \<noteq> 0 \<longrightarrow> at s h \<noteq> None \<longrightarrow> started s) \<and>
     (\<forall>h. in_scheduler s h \<longrightarrow> started s \<and> at s h = Some (length (main_calls h))) \<and>
     (\<exists>xs ys. calls s = xs @ ys \<and> (\<forall>c\<in>set xs. fst c \<noteq> 0) \<and> (\<forall>c\<in>set ys. fst c = 0))"

lemma calls_of_Cons: "calls_of h (c # cs) = calls_of h cs @ (if fst c = h then [snd c] else [])"
  by (simp add: calls_of_def)

lemma call_split:
  assumes "\<exists>xs ys. cs = xs @ ys \<and> (\<forall>c\<in>set xs. fst c \<noteq> 0) \<and> (\<forall>c\<in>set ys. fst c = (0 :: nat))" and "h = 0 \<longrightarrow> (\<forall>c\<in>set cs. fst c = 0)"
  shows "\<exists>xs ys. (h, c) # cs = xs @ ys \<and> (\<forall>c\<in>set xs. fst c \<noteq> 0) \<and> (\<forall>c\<in>set ys. fst c = 0)"
proof (cases "h = 0")
  case True
  then show ?thesis using assms(2) by (intro exI [of _ "[]"] exI [of _ "(h, c) # cs"]) simp
next
  case False
  obtain xs ys where "cs = xs @ ys" "\<forall>c\<in>set xs. fst c \<noteq> 0" "\<forall>c\<in>set ys. fst c = 0" using assms(1) by blast
  then show ?thesis using False by (intro exI [of _ "(h, c) # xs"] exI [of _ ys]) simp
qed

lemma bstep_inv: "bstep s t \<Longrightarrow> binv s \<Longrightarrow> binv t"
proof (induction rule: bstep.induct)
  case (call s h i)
  let ?t = "s\<lparr>at := (at s)(h \<mapsto> Suc i), calls := (h, main_calls h ! i) # calls s\<rparr>"
  have zero: "\<forall>c\<in>set (calls s). fst c = 0" if "h = 0"
  proof -
    have "\<not> started s" using call that by (auto simp: binv_def)
    then have "calls_of g (calls s) = []" if "g \<noteq> 0" for g using call.prems that by (force simp: binv_def split: option.splits)
    then show ?thesis by (fastforce simp: calls_of_def filter_empty_conv)
  qed
  have "\<exists>xs ys. calls ?t = xs @ ys \<and> (\<forall>c\<in>set xs. fst c \<noteq> 0) \<and> (\<forall>c\<in>set ys. fst c = 0)"
    using call_split [of "calls s" h] call.prems zero by (simp add: binv_def)
  moreover have "calls_of g (calls ?t) = (case at ?t g of None \<Rightarrow> [] | Some i \<Rightarrow> take i (main_calls g)) \<and> (case at ?t g of None \<Rightarrow> True | Some i \<Rightarrow> i \<le> length (main_calls g))" for g
    using call by (cases "g = h") (auto simp: binv_def calls_of_Cons take_Suc_conv_app_nth)
  moreover have "at s h \<noteq> None" "at s h \<noteq> Some (length (main_calls h))" using call by auto
  ultimately show ?case using call.prems by (auto simp: binv_def)
next
  case (set_started s)
  then show ?case by (auto simp: binv_def)
next
  case (see_started h s)
  then show ?case by (auto simp: binv_def)
next
  case (scheduler s h)
  have "started s" using scheduler by (cases "h = 0") (auto simp: binv_def)
  then show ?case using scheduler by (auto simp: binv_def)
qed

lemma boot_inv0: "binv boot0"
  by (simp add: binv_def boot0_def calls_of_def)

lemma bsteps_inv: "bstep\<^sup>*\<^sup>* boot0 s \<Longrightarrow> binv s"
  by (induction rule: rtranclp_induct) (auto intro: bstep_inv boot_inv0)

text \<open>
  No hart uses a part of the kernel before hart 0 has initialised it: in every interleaving of the harts, when another hart has made a call, hart 0 has made all of its
  calls, in the order of the source and before any call of another hart; and a hart in the scheduler has made all of its own calls.
\<close>

lemma main_initialises_first:
  assumes "bstep\<^sup>*\<^sup>* boot0 s"
  shows "in_scheduler s h \<Longrightarrow> calls_of h (calls s) = main_calls h"
    "(h, c) \<in> set (calls s) \<Longrightarrow> h \<noteq> 0 \<Longrightarrow> calls_of 0 (calls s) = main_calls 0 \<and> (\<exists>xs ys. calls s = xs @ ys \<and> (\<forall>c\<in>set xs. fst c \<noteq> 0) \<and> map snd (rev ys) = main_calls 0)"
proof -
  have inv: "binv s" by (rule bsteps_inv [OF assms])
  show "calls_of h (calls s) = main_calls h" if "in_scheduler s h" using inv that by (auto simp: binv_def)
  assume c: "(h, c) \<in> set (calls s)" "h \<noteq> 0"
  then have "calls_of h (calls s) \<noteq> []" by (force simp: calls_of_def filter_empty_conv)
  then have "started s" using inv c(2) by (auto simp: binv_def split: option.splits)
  then have all: "calls_of 0 (calls s) = main_calls 0" using inv by (auto simp: binv_def)
  obtain xs ys where xy: "calls s = xs @ ys" "\<forall>c\<in>set xs. fst c \<noteq> 0" "\<forall>c\<in>set ys. fst c = 0" using inv by (auto simp: binv_def)
  then have "filter (\<lambda>c. fst c = 0) xs = []" "filter (\<lambda>c. fst c = 0) ys = ys" by (auto simp: filter_empty_conv filter_id_conv)
  then have "map snd (rev ys) = main_calls 0" using all xy(1) by (simp add: calls_of_def rev_map)
  then show "calls_of 0 (calls s) = main_calls 0 \<and> (\<exists>xs ys. calls s = xs @ ys \<and> (\<forall>c\<in>set xs. fst c \<noteq> 0) \<and> map snd (rev ys) = main_calls 0)"
    using all xy by blast
qed

end
