(* ===== verification/Triage.thy ===== *)
theory Triage
  imports Evaluator ShRun
begin

text \<open>
  The pipeline of agents. \<open>user/triage.c\<close> starts five programs joined by four pipes; descriptors are those of \<open>ShRun\<close>, and \<open>fork\<close> and \<open>exec\<close> are assumed to succeed.
  The stages \<open>parser.c\<close>, \<open>classifier.c\<close>, \<open>rootcause.c\<close> and \<open>fixsuggest.c\<close> are one program that differs in its role; the last stage is \<open>Evaluator\<close>. The contents of
  the arrays on the stack before a call are an argument for each round of the loop.
\<close>

section \<open>triage.c\<close>

definition dup_fd :: "nat \<Rightarrow> fds \<Rightarrow> (fds \<times> nat) option" where
  "dup_fd i fd = (case fd ! i of None \<Rightarrow> None | Some ob \<Rightarrow> fd_new ob fd)"

definition move_fd :: "nat \<Rightarrow> nat \<Rightarrow> fds \<Rightarrow> fds option" where
  "move_fd i to fd =
     (if i \<noteq> to then (case dup_fd i (fd_close to fd) of Some (fd, j) \<Rightarrow> if j = to then Some fd else None | None \<Rightarrow> None)
      else Some fd)"

text \<open>The program that the child runs with its descriptors; \<open>None\<close> when it dies.\<close>

definition spawn_stage :: "bytes \<Rightarrow> nat \<Rightarrow> nat \<Rightarrow> nat list \<Rightarrow> fds \<Rightarrow> started option" where
  "spawn_stage prog in_fd out_fd close_fds fd =
     (case move_fd in_fd 0 fd of
        None \<Rightarrow> None
      | Some fd \<Rightarrow>
          (case move_fd out_fd 1 fd of
             None \<Rightarrow> None
           | Some fd \<Rightarrow> Some ([prog], foldl (\<lambda>fd i. fd_close i fd) fd close_fds)))"

text \<open>The children in the order of the forks, and the descriptors of the parent when it waits for them; \<open>None\<close> when the parent dies.\<close>

definition triage :: "(bytes \<Rightarrow> int \<Rightarrow> bool) \<Rightarrow> bytes option \<Rightarrow> fds \<Rightarrow> nat \<Rightarrow> (started option list \<times> fds) option" where
  "triage opens arg fd n =
     (case (case arg of
              None \<Rightarrow> Some (fd, 0)
            | Some name \<Rightarrow> if opens name 0 then fd_new (File name 0) fd else None) of
        None \<Rightarrow> None
      | Some (fd, in_fd) \<Rightarrow>
     (case fd_pipe n fd of None \<Rightarrow> None | Some (fd, p10, p11) \<Rightarrow>
     (case fd_pipe (n + 1) fd of None \<Rightarrow> None | Some (fd, p20, p21) \<Rightarrow>
     (case fd_pipe (n + 2) fd of None \<Rightarrow> None | Some (fd, p30, p31) \<Rightarrow>
     (case fd_pipe (n + 3) fd of None \<Rightarrow> None | Some (fd, p40, p41) \<Rightarrow>
        (let close_p = [p10, p11, p20, p21, p30, p31, p40, p41];
             stages =
               [spawn_stage (bytes_of ''parser'') in_fd p11 close_p fd,
                spawn_stage (bytes_of ''classifier'') p10 p21 close_p fd,
                spawn_stage (bytes_of ''rootcause'') p20 p31 close_p fd,
                spawn_stage (bytes_of ''fixsuggest'') p30 p41 close_p fd,
                spawn_stage (bytes_of ''evaluator'') p40 1 close_p fd];
             fd = foldl (\<lambda>fd i. fd_close i fd) fd close_p;
             fd = (if in_fd \<noteq> 0 then fd_close in_fd fd else fd)
         in Some (stages, fd)))))))"

text \<open>The descriptors of a stage; \<open>f\<close> is the input file, if there is one.\<close>

definition stage_fds :: "object option \<Rightarrow> object \<Rightarrow> object \<Rightarrow> object \<Rightarrow> fds" where
  "stage_fds f i o' err = (case f of None \<Rightarrow> std i o' err | Some ob \<Rightarrow> (std i o' err)[3 := Some ob])"

text \<open>
  C21. The pipeline is plumbed as the comment at the top of the file says: each stage reads from the pipe of its predecessor and writes to that of its successor, and no stage and
  not the parent keeps an end of a pipe that it does not use, so that the end of the input passes down the pipeline. When the input is a file, every stage also keeps the
  descriptor of that file, which is not in the list of those to close.
\<close>

theorem triage_plumbing:
  assumes "\<And>name. arg = Some name \<Longrightarrow> opens name 0"
  defines "f \<equiv> map_option (\<lambda>name. File name 0) arg"
  shows "triage opens arg (std i o' err) n =
    Some (map Some
      [([bytes_of ''parser''], stage_fds f (case f of None \<Rightarrow> i | Some ob \<Rightarrow> ob) (Write_end n) err),
       ([bytes_of ''classifier''], stage_fds f (Read_end n) (Write_end (n + 1)) err),
       ([bytes_of ''rootcause''], stage_fds f (Read_end (n + 1)) (Write_end (n + 2)) err),
       ([bytes_of ''fixsuggest''], stage_fds f (Read_end (n + 2)) (Write_end (n + 3)) err),
       ([bytes_of ''evaluator''], stage_fds f (Read_end (n + 3)) o' err)],
      std i o' err)"
proof (cases arg)
  case None
  then show ?thesis
    by (simp add: f_def triage_def spawn_stage_def move_fd_def dup_fd_def fd_pipe_def fd_new_def fd_close_def std_def stage_fds_def hdr numeral_eq_Suc)
next
  case (Some name)
  then show ?thesis using assms(1)
    by (simp add: f_def triage_def spawn_stage_def move_fd_def dup_fd_def fd_pipe_def fd_new_def fd_close_def std_def stage_fds_def hdr numeral_eq_Suc)
qed

theorem triage_plumbing_witness:
  "\<exists>fd. triage (\<lambda>_ _. True) None (std Console Console Console) 0 = Some (map Some
      [([bytes_of ''parser''], std Console (Write_end 0) Console),
       ([bytes_of ''classifier''], std (Read_end 0) (Write_end 1) Console),
       ([bytes_of ''rootcause''], std (Read_end 1) (Write_end 2) Console),
       ([bytes_of ''fixsuggest''], std (Read_end 2) (Write_end 3) Console),
       ([bytes_of ''evaluator''], std (Read_end 3) Console Console)], fd)"
  using triage_plumbing [of None "\<lambda>_ _. True" Console Console Console 0] by (simp add: stage_fds_def numeral_2_eq_2 numeral_3_eq_3)

section \<open>The stages\<close>

text \<open>\<open>emit\<close> builds a line in an array of 640 bytes and writes it at once; its two loops are the ones of \<open>_proxy_append_str\<close>.\<close>

definition emit_line :: "bytes \<Rightarrow> bytes \<Rightarrow> bytes \<Rightarrow> bytes res" where
  "emit_line buf tag body =
     bindE (proxy_append_str 640 tag (buf, 0)) (\<lambda>bp.
     bindE (proxy_append_str 640 body bp) (\<lambda>bp.
     bindE (put lf bp) (\<lambda>(buf, p). Inr (take p buf))))"

record stage_env =
  sg_fd :: int
  sg_pid :: int
  sg_junk :: "nat \<Rightarrow> call_junk"
  sg_buf :: "nat \<Rightarrow> bytes"

lemma readline_loop_shrinks: "readline_loop line mx inp = (l, inp') \<Longrightarrow> length inp' \<le> length inp \<and> (inp \<noteq> [] \<longrightarrow> length inp' < length inp) \<and> (inp = [] \<longrightarrow> l = line)"
proof (induction line mx inp rule: readline_loop.induct)
  case (2 line mx c inp)
  show ?case
  proof (cases "c = lf")
    case False
    then have "length inp' \<le> length inp" using 2 by simp
    then show ?thesis by simp
  qed (use 2 in simp)
qed simp

lemma proxy_readline_shrinks: "proxy_readline buf mx inp = Inr (n, b, inp') \<Longrightarrow> 0 < n \<Longrightarrow> length inp' < length inp"
  by (auto simp: proxy_readline_def split: option.splits if_splits prod.splits dest!: readline_loop_shrinks)

text \<open>The loop of \<open>main\<close>: round \<open>k\<close>, the arrays \<open>line\<close> and \<open>resp\<close>, standard input, the console and the cache, and what has been written to standard output.\<close>

function stage_loop :: "stage_env \<Rightarrow> bytes \<Rightarrow> nat \<Rightarrow> bytes \<Rightarrow> bytes \<Rightarrow> bytes \<Rightarrow> agent_io \<Rightarrow> bytes \<Rightarrow> (agent_io \<times> bytes) res" where
  "stage_loop env role k line resp inp io out =
     (case proxy_readline (Some line) 256 inp of
        Inl e \<Rightarrow> Inl e
      | Inr (n, line', inp') \<Rightarrow>
          if n > 0
          then bindE (proxy_call (sg_junk env k) (sg_fd env) (sg_pid env) (role @ [0]) (the line') resp 256 io) (\<lambda>(r, resp, io).
               if r < 0 then Inr (io, out)
               else bindE (emit_line (sg_buf env k) (role @ bytes_of '':'' @ [0]) resp) (\<lambda>w.
                    stage_loop env role (Suc k) (the line') resp inp' io (out @ w)))
          else Inr (io, out))"
  by pat_completeness auto
termination
  by (relation "measure (\<lambda>(env, role, k, line, resp, inp, io, out). length inp)") (auto dest: proxy_readline_shrinks)

declare stage_loop.simps [simp del]

definition stage_main :: "stage_env \<Rightarrow> bytes \<Rightarrow> bytes \<Rightarrow> bytes \<Rightarrow> bytes \<Rightarrow> agent_io \<Rightarrow> (agent_io \<times> bytes) res" where
  "stage_main env role line resp inp io = stage_loop env role 0 line resp inp io []"

definition parser :: "stage_env \<Rightarrow> bytes \<Rightarrow> bytes \<Rightarrow> bytes \<Rightarrow> agent_io \<Rightarrow> (agent_io \<times> bytes) res" where
  "parser env = stage_main env (bytes_of ''parser'')"

definition classifier :: "stage_env \<Rightarrow> bytes \<Rightarrow> bytes \<Rightarrow> bytes \<Rightarrow> agent_io \<Rightarrow> (agent_io \<times> bytes) res" where
  "classifier env = stage_main env (bytes_of ''classifier'')"

definition rootcause :: "stage_env \<Rightarrow> bytes \<Rightarrow> bytes \<Rightarrow> bytes \<Rightarrow> agent_io \<Rightarrow> (agent_io \<times> bytes) res" where
  "rootcause env = stage_main env (bytes_of ''rootcause'')"

definition fixsuggest :: "stage_env \<Rightarrow> bytes \<Rightarrow> bytes \<Rightarrow> bytes \<Rightarrow> agent_io \<Rightarrow> (agent_io \<times> bytes) res" where
  "fixsuggest env = stage_main env (bytes_of ''fixsuggest'')"

lemma append_str_take:
  "terminated s \<Longrightarrow> length buf = 640 \<Longrightarrow> p \<le> 639 \<Longrightarrow>
    \<exists>buf' p'. proxy_append_str 640 s (buf, p) = Inr (buf', p') \<and> length buf' = 640 \<and> p' \<le> 639 \<and> take p' buf' = take p buf @ take (639 - p) (cstr s)"
proof (induction s arbitrary: buf p)
  case (Cons c s)
  show ?case
  proof (cases "c \<noteq> 0 \<and> p < 639")
    case True
    then have "proxy_append_str 640 (c # s) (buf, p) = proxy_append_str 640 s (buf[p := c], Suc p)" using Cons.prems by (simp add: put_def)
    moreover have "639 - p = Suc (639 - Suc p)" using True by arith
    moreover have "take (Suc p) (buf[p := c]) = take p buf @ [c]" using True Cons.prems by (simp add: take_Suc_conv_app_nth)
    moreover have "terminated s" using Cons.prems True by simp
    ultimately show ?thesis using Cons.IH [of "buf[p := c]" "Suc p"] Cons.prems True by auto
  qed (use Cons.prems in auto)
qed simp

lemma emit_line_eq:
  assumes "length buf = 640" "terminated tag" "terminated body"
  shows "emit_line buf tag body = Inr (take 639 (cstr tag @ cstr body) @ [lf])"
proof -
  obtain b p where 1: "proxy_append_str 640 tag (buf, 0) = Inr (b, p)" "length b = 640" "p \<le> 639" "take p b = take 639 (cstr tag)"
    using append_str_take [OF assms(2,1), of 0] by auto
  obtain b' p' where 2: "proxy_append_str 640 body (b, p) = Inr (b', p')" "length b' = 640" "p' \<le> 639" "take p' b' = take p b @ take (639 - p) (cstr body)"
    using append_str_take [OF assms(3) 1(2,3)] by auto
  have "p = min 639 (length (cstr tag))" using arg_cong [OF 1(4), of length] 1(2,3) by simp
  then have "take p' b' = take 639 (cstr tag @ cstr body)" using 1(4) 2(4) by (auto simp: min_def)
  then show ?thesis using 1(1) 2 by (simp add: emit_line_def put_def take_Suc_conv_app_nth)
qed

lemma strlen_terminated: "strlen s = Inr n \<Longrightarrow> terminated s"
  by (induction s arbitrary: n) (auto split: if_splits)

lemma proxy_call_terminated: "proxy_call j fd pid role prompt out outmax io = Inr (r, out', io') \<Longrightarrow> 0 \<le> r \<Longrightarrow> terminated out'"
  by (auto simp: proxy_call_def Let_def bindE_def split: sum.splits prod.splits if_splits dest: strlen_terminated proxy_recv_out)

text \<open>
  A stage writes one line per answer: its role, a colon and the answer, in one write each, and at most one line per line of input.
\<close>

lemma stage_loop_stamps:
  assumes "\<And>k. length (sg_buf env k) = 640" and "0 \<notin> set role"
  shows "stage_loop env role k line resp inp io out = Inr (io', out') \<Longrightarrow>
    \<exists>rs. out' = out @ concat (map (\<lambda>r. take 639 (role @ bytes_of '':'' @ r) @ [lf]) rs) \<and> length rs \<le> length inp"
proof (induction "length inp" arbitrary: k line resp inp io out rule: less_induct)
  case less
  obtain n l inp' where rl: "proxy_readline (Some line) 256 inp = Inr (n, l, inp')"
    using less.prems by (subst (asm) stage_loop.simps) (auto split: sum.splits prod.splits)
  show ?case
  proof (cases "n > 0")
    case False
    then show ?thesis using less.prems rl by (subst (asm) stage_loop.simps) (auto intro: exI [of _ "[]"])
  next
    case True
    obtain r resp1 io1 where pc: "proxy_call (sg_junk env k) (sg_fd env) (sg_pid env) (role @ [0]) (the l) resp 256 io = Inr (r, resp1, io1)"
      using less.prems rl True by (subst (asm) stage_loop.simps) auto
    show ?thesis
    proof (cases "r < 0")
      case neg: True
      then show ?thesis using less.prems rl True pc by (subst (asm) stage_loop.simps) (auto intro: exI [of _ "[]"])
    next
      case False
      let ?w = "take 639 (role @ bytes_of '':'' @ cstr resp1) @ [lf]"
      have t: "terminated resp1" using proxy_call_terminated [OF pc] False by simp
      have z: "0 \<notin> set (role @ bytes_of '':'')" using assms(2) by (simp add: bytes_of_def)
      have "emit_line (sg_buf env k) ((role @ bytes_of '':'') @ 0 # []) resp1 = Inr ?w"
        using emit_line_eq [OF assms(1) _ t, of "(role @ bytes_of '':'') @ 0 # []"] cstr_append_NUL [OF z, of "[]"] by simp
      then have "stage_loop env role (Suc k) (the l) resp1 inp' io1 (out @ ?w) = Inr (io', out')"
        using less.prems rl True pc False by (subst (asm) stage_loop.simps) simp
      from less.hyps [OF proxy_readline_shrinks [OF rl True] this] obtain rs
        where rs: "out' = (out @ ?w) @ concat (map (\<lambda>r. take 639 (role @ bytes_of '':'' @ r) @ [lf]) rs)" "length rs \<le> length inp'" by blast
      then show ?thesis using proxy_readline_shrinks [OF rl True] by (intro exI [of _ "cstr resp1 # rs"]) simp
    qed
  qed
qed

text \<open>An empty line ends a stage as the end of the input does: the lines after it are not read.\<close>

lemma stage_stops_at_empty_line: "length line = 256 \<Longrightarrow> stage_loop env role k line resp (lf # inp) io out = Inr (io, out)"
  by (subst stage_loop.simps) (simp add: proxy_readline_def)

end
