(* ===== verification/Spec2Isabelle.thy ===== *)
theory Spec2Isabelle
  imports Verifier Locks UserCopy Cache Bio Virtio ProcSpec Grep Evaluator ShRun Umalloc MkfsSpec Uart Coreutils Boot Triage
begin

text \<open>
  Verification of Liberal_OS, a RISC-V teaching kernel (xv6) extended with services for cooperating
  agents: roles, priorities, memory quotas, a kernel verifier for proposed fixes, checkpoints and a
  prompt cache. The sources are under \<open>src/xv6-src/kernel\<close>, \<open>src/xv6-src/user\<close> and \<open>src/xv6-src/mkfs\<close>.

  \<^bold>\<open>Parts and theories.\<close>

  \<^item> \<open>Prelude\<close>: the result type \<open>'a res\<close> (a fault or a value), its bind, and the list, map and word lemmas the
    other theories share. \<open>CString\<close> and \<open>Codec\<close>: \<open>string.c\<close>, and the little-endian layout of
    structures in blocks and pages.
  \<^item> \<open>Verifier\<close>: \<open>verifier.c\<close>, the check of a proposed fix against structure, range, protected
    targets and the whitelist of actions.
  \<^item> \<open>Memory\<close>, \<open>Kalloc\<close>, \<open>Vm\<close>, \<open>VmSpec\<close>, \<open>UserCopy\<close>: physical memory, the free list of \<open>kalloc.c\<close>, the Sv39 page
    tables of \<open>vm.c\<close>, their refinement to a map from pages to frames, and the copies between kernel
    and user memory.
  \<^item> \<open>Locks\<close>: \<open>spinlock.c\<close>, \<open>sleeplock.c\<close>, the nesting of interrupt disabling, and mutual exclusion.
  \<^item> \<open>Bio\<close>: \<open>bio.c\<close>, the buffer cache and its list in the order of use.
  \<^item> \<open>Virtio\<close>: \<open>virtio_disk.c\<close>, the descriptors and rings it shares with the device, its interrupt handler and its
    initialisation; a step relation of callers, device and interrupts, and its refinement to a disk with atomic
    requests, which is the disk of \<open>Bio\<close> and \<open>Log\<close>.
  \<^item> \<open>Log\<close>: \<open>log.c\<close>, transactions, the write-ahead log and recovery after a crash.
  \<^item> \<open>Fs\<close>, \<open>FsSpec\<close>, \<open>FileData\<close>: \<open>fs.c\<close>, from the block bitmap to path names, and the contents of files.
  \<^item> \<open>Mkfs\<close>, \<open>MkfsSpec\<close>: \<open>mkfs.c\<close>, the tool that builds the file system; the code of \<open>Fs\<close> finds the files, the root directory and
    the bitmap in the image as \<open>mkfs\<close> was told to make them, and the log of \<open>Log\<close> does not fit into the space left for it.
  \<^item> \<open>CacheSig\<close>, \<open>Cache\<close>: \<open>cache.c\<close>, the prompt cache with its MinHash signatures and its disk file.
  \<^item> \<open>KState\<close>, \<open>Sched\<close>: the structures of \<open>proc.h\<close>, \<open>file.h\<close> and the record of the whole kernel; the
    scheduler, \<open>sleep\<close>, \<open>wakeup\<close> and \<open>kkill\<close> of \<open>proc.c\<close>.
  \<^item> \<open>Ring\<close>, \<open>Pipe\<close>, \<open>Printf\<close>, \<open>Console\<close>: \<open>pipe.c\<close>, \<open>printf.c\<close> and \<open>console.c\<close>; \<open>Ring\<close> is the interface of a circular
    buffer indexed by free-running counters, interpreted for the pipe, the console and the queues of the disk.
  \<^item> \<open>Uart\<close>: \<open>uart.c\<close> and \<open>plic.c\<close>, the registers of the serial device and of the interrupt controller. The other theories take the UART as the list of bytes
    it is given; here writers, interrupt handlers, polling CPUs and the device run interleaved, the line is proved to carry that list, and no writer waits for ever.
  \<^item> \<open>Boot\<close>: \<open>start.c\<close>, which leaves machine mode, and \<open>main.c\<close>, the order of the initialisation on all harts.
  \<^item> \<open>File\<close>, \<open>Proc\<close>, \<open>Args\<close>, \<open>Sysfile\<close>, \<open>Exec\<close>, \<open>Sysproc\<close>, \<open>Trap\<close>: the open-file table, the life of a process, the
    fetching of system call arguments, all system calls, program loading, the system call table
    and the trap handlers.
  \<^item> \<open>Frame\<close>, \<open>KInv\<close>, \<open>Kernel\<close>, \<open>ProcSpec\<close>: a calculus of results (\<open>ensures\<close>) with a rule per operation, what each
    operation leaves alone, the invariant of the process and file tables, the steps of the whole
    kernel that keep it, and what fork, exit, wait, the quota, checkpoints and faults promise.
  \<^item> \<open>ULib\<close>, \<open>Grep\<close>: the C library of user space and \<open>grep.c\<close>, whose matcher decides the language of its regular
    expressions and whose filter prints the matching lines.
  \<^item> \<open>UPrintf\<close>, \<open>Coreutils\<close>: \<open>user/printf.c\<close>, whose state machine renders the directives of the format; the rest of \<open>ulib.c\<close>, \<open>cat.c\<close>, \<open>wc.c\<close>, \<open>echo.c\<close>, \<open>ls.c\<close> and the
    main function of \<open>grep.c\<close>, with what they print.
  \<^item> \<open>Sh\<close>, \<open>ShRun\<close>: the shell, \<open>sh.c\<close>. The tokens and the recursive-descent parser, which accepts exactly the lines of a
    grammar; the programs a command starts, with their descriptors.
  \<^item> \<open>Umalloc\<close>: \<open>umalloc.c\<close>, the circular list of free blocks; the blocks of a program never overlap, and freed memory is used
    again.
  \<^item> \<open>Proxy\<close>, \<open>Evaluator\<close>: \<open>proxy_client.h\<close>, the protocol by which an agent asks the host for an answer, with the prompt
    cache in front of it; \<open>evaluator.c\<close>, the agent that negotiates a fix with the verifier of the kernel until it is accepted.
  \<^item> \<open>Triage\<close>: \<open>triage.c\<close>, which joins five agents by pipes, and the agents that stamp each line with the answer of the host (\<open>parser.c\<close>, \<open>classifier.c\<close>,
    \<open>rootcause.c\<close>, \<open>fixsuggest.c\<close>).

  \<^bold>\<open>Correspondence.\<close> A C structure is a record, an array a list of the same length, a pointer into a
  kernel table the index of the entry, a physical page its address. A w-bit integer is a word
  where its wrap-around is observable (addresses, sizes, block numbers, counters) and an \<open>int\<close> where the code only
  compares it. A panic, an access out of the bounds of an array and a sleep that the model does
  not resume are values \<open>Inl\<close> of the result type: a theorem that states \<open>Inr\<close> says that none of them
  happens. An operation that may sleep in a loop ends with \<open>Asleep\<close>, the channel and its progress.
  Each operation is one critical section: the spin locks it takes are not in the state, but theory
  \<open>Locks\<close> proves the mutual exclusion this rests on, and the scheduler is given a different process table in each of
  its passes. Recursion follows the loops of the source. Fuel appears in the scans of the
  buffer list (\<open>NBUF + 1\<close> steps), in the parser of the shell (four calls per character of the line) and in the
  walks around the list of free blocks of \<open>malloc\<close> (a step per header below the break), where it is proved to be enough, and
  nowhere else where a bound is not the loop's own.

  \<^bold>\<open>Parameters.\<close> Linker symbols (\<open>trampoline\<close>, \<open>forkret\<close>, \<open>end\<close>), the contents of arrays on the stack before
  they are written, the trap registers and the characters in the UART are arguments or fields. The disk device and the UART are relations
  on states of which only the contracts \<open>device_may\<close> and \<open>uart_may\<close> are assumed. A user program is given the bytes it will read and
  returns the bytes it writes.

  \<^bold>\<open>Not modelled.\<close> Assembly, the initialisation of locks and of the control registers for paging and traps, the user programs that are a loop
  around one system call, and the test programs (\<open>usertests.c\<close>, \<open>grind.c\<close> and smaller ones).
\<close>

end
